(* ===== verification/Prelude.thy ===== *)
theory Prelude
  imports Main "HOL-Library.Word" "HOL-Library.Monad_Syntax"
begin

text \<open>
  Shared vocabulary of the development: the fixed-width integers of the C code, the
  treatment of \<open>ASSERT\<close> and of NULL dereferences, the comparison and alignment macros of
  \<^verbatim>\<open>rtos/kernel/kernel.h\<close>, and generic lemmas that several components use.

  Conventions. A C routine is a function from the state it touches to an \<open>option\<close>:
  \<open>Some r\<close> when control comes back to the caller with \<open>r\<close>, and \<open>None\<close> when it never
  does: a failed \<open>ASSERT\<close> ends in the endless loop of \<^verbatim>\<open>system_assert\<close>
  (\<^verbatim>\<open>rtos/kernel/assert.c\<close>), a list walk may run forever on a cyclic list, and a NULL
  dereference has no defined continuation. A pointer that may be NULL is an \<open>option\<close>, so
  dereferencing is binding in the option monad.
\<close>

unbundle bit_operations_syntax

type_synonym u8 = "8 word"
type_synonym u16 = "16 word"
type_synonym u32 = "32 word"

named_theorems routine "the defining equations of the modelled C routines"
named_theorems frame "which parts of a state an operation leaves alone"

section \<open>Assertions\<close>

definition ASSERT :: "bool \<Rightarrow> unit option" where
  "ASSERT raise = (if raise then None else Some ())"

lemma ASSERT_simps [simp]: "ASSERT True = None" "ASSERT False = Some ()"
  by (simp_all add: ASSERT_def)

lemma ASSERT_Some [simp]: "ASSERT b = Some u \<longleftrightarrow> \<not> b"
  by (simp add: ASSERT_def)

lemma bind_ASSERT [simp]:
  "Option.bind (ASSERT b) f = (if b then None else f ())"
  by (simp add: ASSERT_def)

text \<open>An access through a pointer outside the array it points into has no defined continuation.\<close>

definition IN_RANGE :: "bool \<Rightarrow> unit option" where
  "IN_RANGE b = (if b then Some () else None)"

lemma bind_IN_RANGE [simp]:
  "Option.bind (IN_RANGE b) f = (if b then f () else None)"
  by (simp add: IN_RANGE_def)

section \<open>Macros of kernel.h\<close>

definition INT32CMP :: "u32 \<Rightarrow> u32 \<Rightarrow> int" where
  "INT32CMP a b = sint (a - b)"

definition MAX_WAIT :: u32 where
  "MAX_WAIT = - 1"

definition ALLIGN_CEIL_N :: "u32 \<Rightarrow> u32 \<Rightarrow> u32" where
  "ALLIGN_CEIL_N n num = (if n mod num \<noteq> 0 then (n AND NOT (num - 1)) + num else n)"

definition ALLIGN_FLOOR_N :: "u32 \<Rightarrow> u32 \<Rightarrow> u32" where
  "ALLIGN_FLOOR_N n num = (if n mod num \<noteq> 0 then n AND NOT (num - 1) else n)"

definition ALLIGN_CEIL :: "u32 \<Rightarrow> u32" where
  "ALLIGN_CEIL n = ALLIGN_CEIL_N n 8"

definition ALLIGN_FLOOR :: "u32 \<Rightarrow> u32" where
  "ALLIGN_FLOOR n = ALLIGN_FLOOR_N n 8"

lemma INT32CMP_self [simp]: "INT32CMP a a = 0"
  by (simp add: INT32CMP_def)

lemma INT32CMP_eq_0 [simp]: "INT32CMP a b = 0 \<longleftrightarrow> a = b"
  by (metis INT32CMP_def INT32CMP_self eq_iff_diff_eq_0 signed_eq_0_iff)

lemma INT32CMP_range: "- (2 ^ 31) \<le> INT32CMP a b" "INT32CMP a b < 2 ^ 31"
  using sint_ge [of "a - b"] sint_lt [of "a - b"] by (simp_all add: INT32CMP_def)

lemma sint32_of_int:
  assumes "- (2 ^ 31) \<le> k" and "k < 2 ^ 31"
  shows "sint (word_of_int k :: u32) = k"
  using assms by (simp add: sint_sbintrunc' signed_take_bit_int_eq_self)

text \<open>
  The wrap-around comparison of two clock values is exact relative to a third one when both
  lie within a quarter of the range of it.
\<close>

lemma INT32CMP_relative:
  assumes "- (2 ^ 30) \<le> INT32CMP a c" "INT32CMP a c < 2 ^ 30"
    and "- (2 ^ 30) \<le> INT32CMP b c" "INT32CMP b c < 2 ^ 30"
  shows "INT32CMP a b = INT32CMP a c - INT32CMP b c"
proof -
  have "sint (a - b) = sint ((a - c) - (b - c))"
    by simp
  also have "\<dots> = signed_take_bit 31 (sint (a - c) - sint (b - c))"
    by (subst sint_word_diff) simp
  also have "\<dots> = sint (a - c) - sint (b - c)"
    using assms unfolding INT32CMP_def by (intro signed_take_bit_int_eq_self) simp_all
  finally show ?thesis
    by (simp add: INT32CMP_def)
qed

section \<open>Lists\<close>

lemma option_bind_assoc [simp]:
  "Option.bind (Option.bind x f) g = Option.bind x (\<lambda>y. Option.bind (f y) g)"
  by (cases x) auto

lemma bind_Some_iff:
  "Option.bind x f = Some y \<longleftrightarrow> (\<exists>z. x = Some z \<and> f z = Some y)"
  by (cases x) auto

lemma bind_SomeE:
  assumes "Option.bind x f = Some y"
  obtains z where "x = Some z" "f z = Some y"
  using assms by (cases x) auto

lemma last_butlast_decomp: "xs \<noteq> [] \<Longrightarrow> \<exists>ys y. xs = ys @ [y]"
  by (induction xs rule: rev_induct) auto

lemma remove1_split:
  "x \<notin> set ys \<Longrightarrow> remove1 x (ys @ x # zs) = ys @ zs"
  by (induction ys) auto

end
