(* ===== verification/SllSeq.thy ===== *)
theory SllSeq
  imports Prelude
begin

text \<open>
  The list routines at the level of the sequence of nodes a list holds. The kernel's
  components keep their intrusive lists as such sequences; theory \<open>Sll\<close> proves that the
  pointer code of \<^verbatim>\<open>sll.c\<close> implements these operations. The locales \<open>insert_order\<close> and
  \<open>stable_insert_order\<close> state the contract between \<^verbatim>\<open>sll_insert\<close> and its sort callbacks.
\<close>

section \<open>Operations on sequences\<close>

definition seq_push :: "'a \<Rightarrow> 'a list \<Rightarrow> 'a list option" where
  "seq_push n xs = do { ASSERT (n \<in> set xs); Some (n # xs) }"

definition seq_append :: "'a \<Rightarrow> 'a list \<Rightarrow> 'a list option" where
  "seq_append n xs = do { ASSERT (n \<in> set xs); Some (xs @ [n]) }"

fun seq_pop :: "'a list \<Rightarrow> 'a option \<times> 'a list" where
  "seq_pop [] = (None, [])"
| "seq_pop (x # xs) = (Some x, xs)"

text \<open>\<open>before x n\<close>: the sort callback places the new node \<open>n\<close> before the member \<open>x\<close>.\<close>

fun ins :: "('a \<Rightarrow> 'a \<Rightarrow> bool) \<Rightarrow> 'a \<Rightarrow> 'a list \<Rightarrow> 'a list" where
  "ins before n [] = [n]"
| "ins before n (x # xs) = (if before x n then n # x # xs else x # ins before n xs)"

definition seq_insert :: "('a \<Rightarrow> 'a \<Rightarrow> bool) \<Rightarrow> 'a \<Rightarrow> 'a list \<Rightarrow> 'a list option" where
  "seq_insert before n xs = do { ASSERT (n \<in> set xs); Some (ins before n xs) }"

text \<open>
  The walk of a search: the members passed over, the rest of the list beginning with the
  match (empty when there is none), and the parameter the callback leaves behind.
\<close>

fun seq_scan :: "('a \<Rightarrow> 'p \<Rightarrow> bool \<times> 'p) \<Rightarrow> 'p \<Rightarrow> 'a list \<Rightarrow> 'a list \<times> 'a list \<times> 'p" where
  "seq_scan match p [] = ([], [], p)"
| "seq_scan match p (x # xs) =
     (case match x p of (b, p') \<Rightarrow>
        if b then ([], x # xs, p')
        else (case seq_scan match p' xs of (ys, zs, p'') \<Rightarrow> (x # ys, zs, p'')))"

definition seq_search_pop ::
    "('a \<Rightarrow> 'p \<Rightarrow> bool \<times> 'p) \<Rightarrow> 'p \<Rightarrow> 'a list \<Rightarrow> 'a option \<times> 'p \<times> 'a list" where
  "seq_search_pop match p xs =
     (case seq_scan match p xs of
        (ys, [], p') \<Rightarrow> (None, p', xs)
      | (ys, z # zs, p') \<Rightarrow> (Some z, p', ys @ zs))"

definition seq_remove :: "'a \<Rightarrow> 'a list \<Rightarrow> 'a option \<times> 'a list" where
  "seq_remove n xs = (if n \<in> set xs then (Some n, remove1 n xs) else (None, xs))"

section \<open>Facts about them\<close>

lemma seq_push_Some [simp]: "seq_push n xs = Some ys \<longleftrightarrow> n \<notin> set xs \<and> ys = n # xs"
  by (auto simp: seq_push_def)

lemma seq_append_Some [simp]: "seq_append n xs = Some ys \<longleftrightarrow> n \<notin> set xs \<and> ys = xs @ [n]"
  by (auto simp: seq_append_def)

lemma seq_insert_Some [simp]:
  "seq_insert before n xs = Some ys \<longleftrightarrow> n \<notin> set xs \<and> ys = ins before n xs"
  by (auto simp: seq_insert_def)

lemma set_ins [simp]: "set (ins before n xs) = insert n (set xs)"
  by (induction xs) auto

lemma length_ins [simp]: "length (ins before n xs) = Suc (length xs)"
  by (induction xs) auto

lemma distinct_ins [simp]: "distinct (ins before n xs) \<longleftrightarrow> n \<notin> set xs \<and> distinct xs"
  by (induction xs) auto

lemma ins_not_Nil [simp]: "ins before n xs \<noteq> []"
  by (cases xs) auto

lemma ins_takeWhile:
  "ins before n xs =
     takeWhile (\<lambda>x. \<not> before x n) xs @ n # dropWhile (\<lambda>x. \<not> before x n) xs"
  by (induction xs) auto

lemma ins_cong:
  "(\<And>x. x \<in> set xs \<Longrightarrow> before x n = before' x n) \<Longrightarrow> ins before n xs = ins before' n xs"
  by (induction xs) auto

lemma seq_scan_append:
  "seq_scan match p xs = (ys, zs, p') \<Longrightarrow> xs = ys @ zs"
  by (induction xs arbitrary: p ys zs p') (auto split: prod.splits if_splits)

lemma seq_scan_none:
  assumes "\<And>x p'. x \<in> set xs \<Longrightarrow> match x p' = (False, p')"
  shows "seq_scan match p xs = (xs, [], p)"
  using assms by (induction xs) auto

lemma seq_search_pop_None:
  "seq_search_pop match p xs = (None, p', ys) \<Longrightarrow> ys = xs"
  by (auto simp: seq_search_pop_def split: prod.splits list.splits)

lemma seq_search_pop_Some:
  "seq_search_pop match p xs = (Some z, p', ys) \<Longrightarrow> \<exists>as bs. xs = as @ z # bs \<and> ys = as @ bs"
  by (auto simp: seq_search_pop_def split: prod.splits list.splits dest!: seq_scan_append)

lemma seq_remove_in [simp]: "n \<in> set xs \<Longrightarrow> seq_remove n xs = (Some n, remove1 n xs)"
  by (simp add: seq_remove_def)

lemma seq_remove_not_in [simp]: "n \<notin> set xs \<Longrightarrow> seq_remove n xs = (None, xs)"
  by (simp add: seq_remove_def)

section \<open>The contract of a sort callback\<close>

text \<open>
  \<open>le a b\<close>: node \<open>a\<close> may stand before node \<open>b\<close>. A callback answers with \<open>before x n\<close>; its
  answers have to agree with an order on the nodes that can be on the list. A callback that
  places a new node behind its equals (the scheduler's and the sleep list's) is strict.
\<close>

locale insert_order =
  fixes nodes :: "'a set"
    and le :: "'a \<Rightarrow> 'a \<Rightarrow> bool"
    and before :: "'a \<Rightarrow> 'a \<Rightarrow> bool"
  assumes le_trans:
      "\<lbrakk>x \<in> nodes; y \<in> nodes; z \<in> nodes; le x y; le y z\<rbrakk> \<Longrightarrow> le x z"
    and before_le: "\<lbrakk>x \<in> nodes; n \<in> nodes; before x n\<rbrakk> \<Longrightarrow> le n x"
    and not_before_le: "\<lbrakk>x \<in> nodes; n \<in> nodes; \<not> before x n\<rbrakk> \<Longrightarrow> le x n"
begin

lemma ins_sorted:
  assumes "set xs \<subseteq> nodes" and "n \<in> nodes" and "sorted_wrt le xs"
  shows "sorted_wrt le (ins before n xs)"
  using assms
proof (induction xs)
  case Nil
  then show ?case by simp
next
  case (Cons x xs)
  show ?case
  proof (cases "before x n")
    case True
    then have "le n x" using Cons.prems by (simp add: before_le)
    then have "\<forall>y \<in> set (x # xs). le n y"
      using Cons.prems le_trans [of n x] by auto
    with True Cons.prems show ?thesis by simp
  next
    case False
    then have "le x n" using Cons.prems by (simp add: not_before_le)
    with False Cons show ?thesis by auto
  qed
qed

lemma sorted_head_least:
  "\<lbrakk>sorted_wrt le (x # xs); y \<in> set xs\<rbrakk> \<Longrightarrow> le x y"
  by simp

end

locale stable_insert_order = insert_order +
  assumes strict: "\<lbrakk>x \<in> nodes; n \<in> nodes; before x n\<rbrakk> \<Longrightarrow> \<not> le x n"
begin

lemma before_iff: "\<lbrakk>x \<in> nodes; n \<in> nodes\<rbrakk> \<Longrightarrow> before x n \<longleftrightarrow> \<not> le x n"
  using strict not_before_le by blast

text \<open>The new node goes behind everything that may stand before it and nothing else.\<close>

lemma ins_stable:
  assumes "set xs \<subseteq> nodes" and "n \<in> nodes" and "sorted_wrt le xs"
  shows "ins before n xs = filter (\<lambda>x. le x n) xs @ n # filter (\<lambda>x. \<not> le x n) xs"
  using assms
proof (induction xs)
  case Nil
  then show ?case by simp
next
  case (Cons x xs)
  show ?case
  proof (cases "before x n")
    case True
    have "\<not> le y n" if "y \<in> set (x # xs)" for y
    proof
      assume "le y n"
      moreover have "y = x \<or> le x y" using Cons.prems that by auto
      ultimately have "le x n" using Cons.prems that le_trans [of x y n] by auto
      with True show False using Cons.prems before_iff by auto
    qed
    then have "filter (\<lambda>x. le x n) (x # xs) = []" "filter (\<lambda>x. \<not> le x n) (x # xs) = x # xs"
      by (auto simp: filter_empty_conv intro!: filter_True)
    with True show ?thesis by simp
  next
    case False
    with Cons show ?thesis by (auto simp: before_iff)
  qed
qed

end

end
