(* ===== verification/Sll.thy ===== *)
theory Sll
  imports SllSeq
begin

text \<open>
  The intrusive singly linked lists of \<^verbatim>\<open>rtos/utils/sll.c\<close>, with \<^verbatim>\<open>SLL_DEBUG\<close>
  enabled. A node is any address; the \<open>next\<close> members found at the given offset are a map
  from nodes to nodes, the list itself is the head/tail pair of \<^verbatim>\<open>SLL_HEAD\<close>. The walks
  are \<^theory_text>\<open>partial_function\<close>s: on a cyclic list they do not return. The sort and
  match callbacks are functions; a match may change the parameter it is given, as several
  callbacks of the kernel do.

  The second half states what the routines do to the sequence of nodes a list holds, proves
  that the pointer code implements it, and packs the contract into the locale
  \<open>intrusive_list\<close>.
\<close>

section \<open>The pointer code\<close>

text \<open>\<^verbatim>\<open>SLL_NODE.next\<close> of every node, and \<^verbatim>\<open>SLL_HEAD\<close>.\<close>

type_synonym 'a links = "'a \<Rightarrow> 'a option"

record 'a sll_head =
  head :: "'a option"
  tail :: "'a option"

type_synonym 'a sll = "'a links \<times> 'a sll_head"

partial_function (option) sll_in_list_loop ::
    "'a links \<Rightarrow> 'a option \<Rightarrow> 'a option \<Rightarrow> bool option" where
  "sll_in_list_loop nx node list_node =
     (case list_node of
        None \<Rightarrow> Some False
      | Some m \<Rightarrow>
          if node = Some m \<or> Some m = nx m then Some True
          else sll_in_list_loop nx node (nx m))"

definition sll_in_list :: "'a option \<Rightarrow> 'a sll \<Rightarrow> bool option" where
  "sll_in_list node s = sll_in_list_loop (fst s) node (head (snd s))"

definition sll_push :: "'a option \<Rightarrow> 'a sll \<Rightarrow> 'a sll option" where
  "sll_push node s = do {
     ASSERT (node = None);
     n \<leftarrow> node;
     found \<leftarrow> sll_in_list node s;
     ASSERT found;
     let nx = (fst s)(n := head (snd s));
     let l = (snd s)\<lparr>head := node\<rparr>;
     Some (nx, if tail l = None then l\<lparr>tail := node\<rparr> else l)
   }"

definition sll_pop :: "'a sll \<Rightarrow> 'a option \<times> 'a sll" where
  "sll_pop s =
     (let nx = fst s; l = snd s in
      case head l of
        None \<Rightarrow> (None, s)
      | Some n \<Rightarrow>
          (let l1 = l\<lparr>head := nx n\<rparr> in
           if nx n = None then (Some n, nx, l1\<lparr>tail := None\<rparr>)
           else (Some n, nx(n := None), l1)))"

definition sll_append :: "'a option \<Rightarrow> 'a sll \<Rightarrow> 'a sll option" where
  "sll_append node s = do {
     ASSERT (node = None);
     n \<leftarrow> node;
     found \<leftarrow> sll_in_list node s;
     ASSERT found;
     let nx = (fst s)(n := None);
     let l = snd s;
     (case tail l of
        Some t \<Rightarrow> Some (nx(t := node), l\<lparr>tail := node\<rparr>)
      | None \<Rightarrow> Some (nx, l\<lparr>head := node, tail := node\<rparr>))
   }"

text \<open>The walk of \<^verbatim>\<open>sll_insert\<close>: the last node before which the new one is not placed.\<close>

partial_function (option) sll_insert_walk ::
    "'a links \<Rightarrow> ('a \<Rightarrow> 'a \<Rightarrow> bool) \<Rightarrow> 'a \<Rightarrow> 'a \<Rightarrow> 'a option" where
  "sll_insert_walk nx srt n list_node =
     (case nx list_node of
        None \<Rightarrow> Some list_node
      | Some m \<Rightarrow> if srt m n then Some list_node else sll_insert_walk nx srt n m)"

definition sll_insert :: "('a \<Rightarrow> 'a \<Rightarrow> bool) \<Rightarrow> 'a option \<Rightarrow> 'a sll \<Rightarrow> 'a sll option" where
  "sll_insert srt node s = do {
     ASSERT (node = None);
     n \<leftarrow> node;
     found \<leftarrow> sll_in_list node s;
     ASSERT found;
     (case head (snd s) of
        None \<Rightarrow> sll_push node s
      | Some h \<Rightarrow>
          if srt h n then sll_push node s
          else do {
            p \<leftarrow> sll_insert_walk (fst s) srt n h;
            let nx = (fst s)(n := fst s p);
            let l = (if nx p = None then (snd s)\<lparr>tail := node\<rparr> else snd s);
            Some (nx(p := node), l)
          })
   }"

text \<open>
  A match callback takes a node and the parameter, and may update the parameter.
\<close>

type_synonym ('a, 'p) match = "'a \<Rightarrow> 'p \<Rightarrow> bool \<times> 'p"

partial_function (option) sll_search_walk ::
    "'a links \<Rightarrow> ('a, 'p) match \<Rightarrow> 'p \<Rightarrow> 'a \<Rightarrow> ('a \<times> 'p) option" where
  "sll_search_walk nx match p list_node =
     (case nx list_node of
        None \<Rightarrow> Some (list_node, p)
      | Some m \<Rightarrow>
          (case match m p of (b, p') \<Rightarrow>
             if b then Some (list_node, p') else sll_search_walk nx match p' m))"

text \<open>
  \<^verbatim>\<open>sll_search\<close> returns the node, the contents of \<^verbatim>\<open>*prev_node\<close> (\<open>prev\<close> before the
  call) and the parameter. A caller that passes NULL for \<^verbatim>\<open>prev_node\<close> ignores the second.
\<close>

definition sll_search ::
    "'a option \<Rightarrow> ('a, 'p) match \<Rightarrow> 'p \<Rightarrow> 'a sll \<Rightarrow> ('a option \<times> 'a option \<times> 'p) option" where
  "sll_search prev match p s =
     (case head (snd s) of
        None \<Rightarrow> Some (None, prev, p)
      | Some h \<Rightarrow>
          (case match h p of (b, p') \<Rightarrow>
             if b then Some (Some h, None, p')
             else do {
               (list_node, p'') \<leftarrow> sll_search_walk (fst s) match p' h;
               (case fst s list_node of
                  None \<Rightarrow> Some (None, prev, p'')
                | Some m \<Rightarrow> Some (Some m, Some list_node, p''))
             }))"

definition sll_remove_node :: "'a option \<Rightarrow> 'a option \<Rightarrow> 'a sll \<Rightarrow> 'a sll option" where
  "sll_remove_node node prev_node s = do {
     ASSERT (node = None);
     n \<leftarrow> node;
     let nx = fst s;
     let l = snd s;
     (nx, l) \<leftarrow>
       (if head l = node then
          Some (nx, if nx n = None then l\<lparr>head := nx n, tail := None\<rparr> else l\<lparr>head := nx n\<rparr>)
        else do {
          p \<leftarrow> prev_node;
          let nx = nx(p := nx n);
          Some (nx, if nx n = None then l\<lparr>tail := prev_node\<rparr> else l)
        });
     Some (nx(n := None), l)
   }"

definition sll_search_pop ::
    "('a, 'p) match \<Rightarrow> 'p \<Rightarrow> 'a sll \<Rightarrow> ('a option \<times> 'p \<times> 'a sll) option" where
  "sll_search_pop match p s = do {
     (node, list_node, p') \<leftarrow> sll_search None match p s;
     (case node of
        None \<Rightarrow> Some (None, p', s)
      | Some n \<Rightarrow> do { s' \<leftarrow> sll_remove_node node list_node s; Some (node, p', s') })
   }"

definition sll_add_node :: "'a option \<Rightarrow> 'a option \<Rightarrow> 'a sll \<Rightarrow> 'a sll option" where
  "sll_add_node node prev_node s = do {
     ASSERT (node = None);
     n \<leftarrow> node;
     found \<leftarrow> sll_in_list node s;
     ASSERT found;
     let nx = fst s;
     let l = snd s;
     (case prev_node of
        None \<Rightarrow>
          (let nx = nx(n := head l); l = l\<lparr>head := node\<rparr> in
           Some (nx, if tail l = None then l\<lparr>tail := node\<rparr> else l))
      | Some p \<Rightarrow>
          (let nx = nx(n := nx p); nx = nx(p := node) in
           Some (nx, if nx n = None then l\<lparr>tail := node\<rparr> else l)))
   }"

partial_function (option) sll_remove_walk ::
    "'a links \<Rightarrow> 'a option \<Rightarrow> 'a \<Rightarrow> 'a option" where
  "sll_remove_walk nx node list_node =
     (case nx list_node of
        None \<Rightarrow> Some list_node
      | Some m \<Rightarrow> if Some m = node then Some list_node else sll_remove_walk nx node m)"

definition sll_remove :: "'a option \<Rightarrow> 'a sll \<Rightarrow> ('a option \<times> 'a sll) option" where
  "sll_remove node s = do {
     ASSERT (node = None);
     (case head (snd s) of
        None \<Rightarrow> Some (None, s)
      | Some h \<Rightarrow>
          if Some h = node then do {
            s' \<leftarrow> sll_remove_node node None s;
            Some (node, s')
          }
          else do {
            p \<leftarrow> sll_remove_walk (fst s) node h;
            if fst s p \<noteq> None then do {
              s' \<leftarrow> sll_remove_node node (Some p) s;
              Some (node, s')
            }
            else Some (None, s)
          })
   }"

partial_function (option) sll_num_items_loop ::
    "'a links \<Rightarrow> 'a option \<Rightarrow> u32 \<Rightarrow> u32 option" where
  "sll_num_items_loop nx list_node ret_num =
     (case list_node of
        None \<Rightarrow> Some ret_num
      | Some m \<Rightarrow> sll_num_items_loop nx (nx m) (ret_num + 1))"

definition sll_num_items :: "'a sll \<Rightarrow> u32 option" where
  "sll_num_items s = sll_num_items_loop (fst s) (head (snd s)) 0"

declare sll_in_list_loop.simps [code] sll_insert_walk.simps [code] sll_search_walk.simps [code]
  sll_remove_walk.simps [code] sll_num_items_loop.simps [code]

section \<open>The sequence a list holds\<close>

text \<open>\<open>lseg nx p xs q\<close>: following \<open>nx\<close> from \<open>p\<close> passes exactly the nodes \<open>xs\<close> and ends in \<open>q\<close>.\<close>

primrec lseg :: "'a links \<Rightarrow> 'a option \<Rightarrow> 'a list \<Rightarrow> 'a option \<Rightarrow> bool" where
  "lseg nx p [] q \<longleftrightarrow> p = q"
| "lseg nx p (x # xs) q \<longleftrightarrow> p = Some x \<and> lseg nx (nx x) xs q"

definition sll_holds :: "'a sll \<Rightarrow> 'a list \<Rightarrow> bool" where
  "sll_holds s xs \<longleftrightarrow>
     lseg (fst s) (head (snd s)) xs None \<and>
     tail (snd s) = (if xs = [] then None else Some (last xs))"

text \<open>Only the \<open>next\<close> members of the nodes in \<open>A\<close> may have changed.\<close>

definition links_changed_in :: "'a set \<Rightarrow> 'a sll \<Rightarrow> 'a sll \<Rightarrow> bool" where
  "links_changed_in A s s' \<longleftrightarrow> (\<forall>u. u \<notin> A \<longrightarrow> fst s' u = fst s u)"

lemma lseg_upd [simp]: "u \<notin> set xs \<Longrightarrow> lseg (nx(u := v)) p xs q = lseg nx p xs q"
  by (induction xs arbitrary: p) auto

lemma lseg_append [simp]:
  "lseg nx p (xs @ ys) q \<longleftrightarrow> (\<exists>r. lseg nx p xs r \<and> lseg nx r ys q)"
  by (induction xs arbitrary: p) auto

lemma lseg_None [simp]: "lseg nx None xs q \<longleftrightarrow> xs = [] \<and> q = None"
  by (cases xs) auto

lemma lseg_Some: "lseg nx (Some x) xs None \<longleftrightarrow> (\<exists>ys. xs = x # ys \<and> lseg nx (nx x) ys None)"
  by (cases xs) auto

lemma lseg_unique: "lseg nx p xs None \<Longrightarrow> lseg nx p ys None \<Longrightarrow> xs = ys"
  by (induction xs arbitrary: p ys) (auto simp: lseg_Some)

lemma lseg_distinct: "lseg nx p xs None \<Longrightarrow> distinct xs"
proof (induction xs arbitrary: p)
  case Nil
  then show ?case by simp
next
  case (Cons x xs)
  have "x \<notin> set xs"
  proof
    assume "x \<in> set xs"
    then obtain as bs where xs: "xs = as @ x # bs" by (auto simp: in_set_conv_decomp)
    from Cons.prems have "lseg nx (nx x) xs None" by simp
    moreover from this have "lseg nx (nx x) bs None" by (simp add: xs)
    ultimately have "xs = bs" by (rule lseg_unique)
    with xs show False by simp
  qed
  with Cons show ?case by auto
qed

lemma sll_holds_distinct: "sll_holds s xs \<Longrightarrow> distinct xs"
  by (auto simp: sll_holds_def lseg_distinct)

lemma sll_holds_unique: "sll_holds s xs \<Longrightarrow> sll_holds s ys \<Longrightarrow> xs = ys"
  by (auto simp: sll_holds_def intro: lseg_unique)

lemma sll_holds_head: "sll_holds s xs \<Longrightarrow> head (snd s) = (if xs = [] then None else Some (hd xs))"
  by (cases xs) (auto simp: sll_holds_def)

lemma sll_holds_Nil [simp]: "sll_holds s [] \<longleftrightarrow> head (snd s) = None \<and> tail (snd s) = None"
  by (auto simp: sll_holds_def)

text \<open>A list splits at any of its nodes.\<close>

lemma sll_holds_frame:
  assumes "sll_holds (nx, h) xs" and "\<And>x. x \<in> set xs \<Longrightarrow> nx' x = nx x"
  shows "sll_holds (nx', h) xs"
proof -
  have "lseg nx p xs q \<longleftrightarrow> lseg nx' p xs q" for p q
    using assms(2) by (induction xs arbitrary: p) auto
  then show ?thesis using assms(1) by (simp add: sll_holds_def)
qed

lemma lseg_split:
  "lseg nx p (as @ x # bs) None \<longleftrightarrow> lseg nx p as (Some x) \<and> lseg nx (nx x) bs None"
  by auto

section \<open>What the routines do to it\<close>

lemma in_list_loop:
  "lseg nx p xs None \<Longrightarrow> sll_in_list_loop nx node p = Some (\<exists>n \<in> set xs. node = Some n)"
proof (induction xs arbitrary: p)
  case Nil
  then show ?case by (simp add: sll_in_list_loop.simps)
next
  case (Cons x xs)
  then have "nx x \<noteq> Some x"
    using lseg_distinct [of nx p "x # xs"] by (cases xs) auto
  with Cons show ?case by (subst sll_in_list_loop.simps) auto
qed

lemma sll_in_list_holds:
  "sll_holds s xs \<Longrightarrow> sll_in_list (Some n) s = Some (n \<in> set xs)"
  by (auto simp: sll_in_list_def sll_holds_def in_list_loop)

lemma sll_push_in: "sll_holds s xs \<Longrightarrow> n \<in> set xs \<Longrightarrow> sll_push (Some n) s = None"
  by (simp add: sll_push_def sll_in_list_holds)

lemma sll_push_holds:
  assumes "sll_holds s xs" and "n \<notin> set xs"
  shows "\<exists>s'. sll_push (Some n) s = Some s' \<and> sll_holds s' (n # xs) \<and>
           links_changed_in {n} s s'"
  using assms(2) sll_in_list_holds [OF assms(1), of n] assms(1)
  by (auto simp: sll_push_def Let_def sll_holds_def links_changed_in_def)

lemma sll_pop_holds:
  assumes "sll_holds s xs"
  shows "\<exists>s'. sll_pop s = (fst (seq_pop xs), s') \<and> sll_holds s' (snd (seq_pop xs)) \<and>
     links_changed_in (set xs) s s' \<and> (\<forall>x. fst (seq_pop xs) = Some x \<longrightarrow> fst s' x = None)"
proof (cases xs)
  case Nil
  with assms show ?thesis by (auto simp: sll_pop_def Let_def links_changed_in_def)
next
  case (Cons x ys)
  moreover have "distinct xs" using assms by (rule sll_holds_distinct)
  ultimately show ?thesis using assms
    by (cases ys) (auto simp: sll_pop_def Let_def sll_holds_def links_changed_in_def)
qed

lemma sll_append_holds:
  assumes "sll_holds s xs" and "n \<notin> set xs"
  shows "\<exists>s'. sll_append (Some n) s = Some s' \<and> sll_holds s' (xs @ [n]) \<and>
           links_changed_in (insert n (set xs)) s s'"
proof (cases xs rule: rev_cases)
  case Nil
  with assms show ?thesis
    by (auto simp: sll_append_def sll_in_list_holds [OF assms(1)] Let_def sll_holds_def
        links_changed_in_def)
next
  case (snoc ys t)
  moreover have "distinct xs" using assms(1) by (rule sll_holds_distinct)
  ultimately show ?thesis using assms
    by (auto simp: sll_append_def sll_in_list_holds [OF assms(1)] Let_def sll_holds_def
        links_changed_in_def)
qed

lemma sll_append_in: "sll_holds s xs \<Longrightarrow> n \<in> set xs \<Longrightarrow> sll_append (Some n) s = None"
  by (simp add: sll_append_def sll_in_list_holds)

lemma sll_insert_walk_holds:
  assumes "lseg nx (nx h) xs None" and "\<not> srt h n"
  shows "\<exists>as p bs. h # xs = as @ p # bs \<and> sll_insert_walk nx srt n h = Some p \<and>
           ins srt n (h # xs) = as @ p # n # bs"
  using assms
proof (induction xs arbitrary: h)
  case Nil
  then show ?case by (subst sll_insert_walk.simps) auto
next
  case (Cons x xs)
  then have nxh: "nx h = Some x" and tl: "lseg nx (nx x) xs None" by auto
  show ?case
  proof (cases "srt x n")
    case True
    with nxh Cons.prems have
      "h # x # xs = [] @ h # (x # xs) \<and> sll_insert_walk nx srt n h = Some h \<and>
       ins srt n (h # x # xs) = [] @ h # n # (x # xs)"
      by (subst sll_insert_walk.simps) simp
    then show ?thesis by blast
  next
    case False
    from Cons.IH [OF tl False] obtain as p bs where
      "x # xs = as @ p # bs" "sll_insert_walk nx srt n x = Some p"
      "ins srt n (x # xs) = as @ p # n # bs" by blast
    with nxh False Cons.prems have
      "h # x # xs = (h # as) @ p # bs \<and> sll_insert_walk nx srt n h = Some p \<and>
       ins srt n (h # x # xs) = (h # as) @ p # n # bs"
      by (subst sll_insert_walk.simps) auto
    then show ?thesis by blast
  qed
qed

lemma sll_insert_in: "sll_holds s xs \<Longrightarrow> n \<in> set xs \<Longrightarrow> sll_insert srt (Some n) s = None"
  by (simp add: sll_insert_def sll_in_list_holds)

lemma sll_insert_holds:
  assumes holds: "sll_holds s xs" and new: "n \<notin> set xs"
  shows "\<exists>s'. sll_insert srt (Some n) s = Some s' \<and> sll_holds s' (ins srt n xs) \<and>
           links_changed_in (insert n (set xs)) s s'"
proof -
  have push: ?thesis if "xs = [] \<or> srt (hd xs) n"
  proof -
    from that have "ins srt n xs = n # xs" by (cases xs) auto
    moreover have "sll_insert srt (Some n) s = sll_push (Some n) s"
      using that new by (cases xs)
        (auto simp: sll_insert_def sll_in_list_holds [OF holds] sll_holds_head [OF holds])
    ultimately show ?thesis
      using sll_push_holds [OF holds new] by (auto simp: links_changed_in_def)
  qed
  show ?thesis
  proof (cases "xs = [] \<or> srt (hd xs) n")
    case True
    then show ?thesis by (rule push)
  next
    case False
    then obtain h ys where xs: "xs = h # ys" and "\<not> srt h n" by (cases xs) auto
    have seg: "lseg (fst s) (Some h) xs None" and tl: "lseg (fst s) (fst s h) ys None"
      using holds xs by (auto simp: sll_holds_def)
    obtain as p bs where
      split: "xs = as @ p # bs" and walk: "sll_insert_walk (fst s) srt n h = Some p" and
      res: "ins srt n xs = as @ p # n # bs"
      using sll_insert_walk_holds [of "fst s" h ys srt n, OF tl \<open>\<not> srt h n\<close>] unfolding xs by blast
    have dist: "distinct xs" using holds by (rule sll_holds_distinct)
    have hd: "head (snd s) = Some h" using holds xs by (simp add: sll_holds_def)
    have "p \<noteq> n" using split new by auto
    then have "sll_insert srt (Some n) s =
        Some ((fst s)(n := fst s p, p := Some n),
              if fst s p = None then (snd s)\<lparr>tail := Some n\<rparr> else snd s)"
      using new \<open>\<not> srt h n\<close>
      by (simp add: sll_insert_def sll_in_list_holds [OF holds] hd walk Let_def)
    then show ?thesis
      using holds new split dist res \<open>p \<noteq> n\<close>
      by (cases bs) (auto simp: sll_holds_def links_changed_in_def)
  qed
qed

lemma sll_search_walk_holds:
  assumes "lseg nx (nx h) xs None" and "seq_scan match p xs = (ys, zs, p')"
  shows "sll_search_walk nx match p h = Some (last (h # ys), p')"
    and "nx (last (h # ys)) = (if zs = [] then None else Some (hd zs))"
proof -
  have "sll_search_walk nx match p h = Some (last (h # ys), p') \<and>
        nx (last (h # ys)) = (if zs = [] then None else Some (hd zs))"
    using assms
  proof (induction xs arbitrary: h p ys zs)
    case Nil
    then show ?case by (subst sll_search_walk.simps) auto
  next
    case (Cons x xs)
    then have nxh: "nx h = Some x" and tl: "lseg nx (nx x) xs None" by auto
    obtain b p1 where m: "match x p = (b, p1)" by (cases "match x p")
    show ?case
    proof (cases b)
      case True
      with Cons.prems nxh m show ?thesis by (subst sll_search_walk.simps) auto
    next
      case False
      with Cons.prems m obtain ys1 where
        scan1: "seq_scan match p1 xs = (ys1, zs, p')" and ys: "ys = x # ys1"
        by (auto split: prod.splits)
      from Cons.IH [OF tl scan1] False nxh m ys show ?thesis
        by (subst sll_search_walk.simps) simp
    qed
  qed
  then show "sll_search_walk nx match p h = Some (last (h # ys), p')"
    and "nx (last (h # ys)) = (if zs = [] then None else Some (hd zs))" by auto
qed

text \<open>The search finds the first match and its predecessor.\<close>

lemma sll_search_holds:
  assumes holds: "sll_holds s xs" and scan: "seq_scan match p xs = (ys, zs, p')"
  shows "sll_search prev match p s =
     Some (if zs = [] then None else Some (hd zs),
           if zs = [] then prev else if ys = [] then None else Some (last ys), p')"
proof (cases xs)
  case Nil
  with assms show ?thesis by (simp add: sll_search_def)
next
  case (Cons h rest)
  have hd: "head (snd s) = Some h" and seg: "lseg (fst s) (fst s h) rest None"
    using holds Cons by (auto simp: sll_holds_def)
  obtain b p1 where m: "match h p = (b, p1)" by (cases "match h p")
  show ?thesis
  proof (cases b)
    case True
    with scan Cons m hd show ?thesis by (auto simp: sll_search_def)
  next
    case False
    with scan Cons m obtain ys1 where
      scan1: "seq_scan match p1 rest = (ys1, zs, p')" and ys: "ys = h # ys1"
      by (auto split: prod.splits)
    have w: "sll_search_walk (fst s) match p1 h = Some (last (h # ys1), p')"
      and n: "fst s (last (h # ys1)) = (if zs = [] then None else Some (hd zs))"
      using sll_search_walk_holds [OF seg scan1] by blast+
    show ?thesis
      using False hd m w n ys by (simp add: sll_search_def del: last.simps)
  qed
qed

lemma sll_remove_node_holds:
  assumes holds: "sll_holds s (as @ x # bs)"
    and prev: "as \<noteq> [] \<Longrightarrow> prev = Some (last as)"
  shows "\<exists>s'. sll_remove_node (Some x) prev s = Some s' \<and> sll_holds s' (as @ bs) \<and>
           fst s' x = None \<and> links_changed_in (set (as @ x # bs)) s s'"
proof -
  have dist: "distinct (as @ x # bs)" using holds by (rule sll_holds_distinct)
  show ?thesis
  proof (cases as rule: rev_cases)
    case Nil
    with holds dist show ?thesis
      by (cases bs) (auto simp: sll_remove_node_def Let_def sll_holds_def links_changed_in_def)
  next
    case (snoc as' q)
    have "prev = Some q" using prev snoc by simp
    moreover have "head (snd s) \<noteq> Some x"
      using sll_holds_head [OF holds] dist snoc by (cases as') auto
    ultimately show ?thesis using holds dist snoc
      by (cases bs) (auto simp: sll_remove_node_def Let_def sll_holds_def links_changed_in_def)
  qed
qed

lemma sll_search_pop_holds:
  assumes holds: "sll_holds s xs" and spec: "seq_search_pop match p xs = (r, p', ys)"
  shows "\<exists>s'. sll_search_pop match p s = Some (r, p', s') \<and> sll_holds s' ys \<and>
           links_changed_in (set xs) s s'"
proof -
  obtain as zs p1 where scan: "seq_scan match p xs = (as, zs, p1)" by (metis prod_cases3)
  note split = seq_scan_append [OF scan]
  note found = sll_search_holds [OF holds scan, of None]
  show ?thesis
  proof (cases zs)
    case Nil
    with scan spec found holds show ?thesis
      by (auto simp: sll_search_pop_def seq_search_pop_def links_changed_in_def)
  next
    case (Cons z bs)
    define prev where "prev = (if as = [] then None else Some (last as))"
    obtain s' where "sll_remove_node (Some z) prev s = Some s'" "sll_holds s' (as @ bs)"
        "links_changed_in (set xs) s s'"
      using sll_remove_node_holds [of s as z bs prev] holds split Cons
      by (auto simp: prev_def)
    moreover from this Cons scan spec found
    have "sll_search_pop match p s = Some (r, p', s')" and "ys = as @ bs"
      by (auto simp: sll_search_pop_def seq_search_pop_def prev_def)
    ultimately show ?thesis by blast
  qed
qed

lemma sll_add_node_holds:
  assumes holds: "sll_holds s (as @ bs)" and new: "n \<notin> set (as @ bs)"
  shows "\<exists>s'. sll_add_node (Some n) (if as = [] then None else Some (last as)) s = Some s' \<and>
           sll_holds s' (as @ n # bs) \<and> links_changed_in (insert n (set as)) s s'"
proof -
  have dist: "distinct (as @ bs)" using holds by (rule sll_holds_distinct)
  have notin: "sll_in_list (Some n) s = Some False"
    using sll_in_list_holds [OF holds, of n] new by simp
  show ?thesis
    using holds new dist notin
    by (cases as rule: rev_cases; cases bs)
      (auto simp: sll_add_node_def Let_def sll_holds_def links_changed_in_def)
qed

lemma sll_remove_walk_holds:
  assumes "lseg nx (nx h) xs None" and "h \<noteq> x"
  shows "\<exists>p. sll_remove_walk nx (Some x) h = Some p \<and>
     (if x \<in> set xs then \<exists>as bs. h # xs = as @ p # x # bs \<and> nx p = Some x else nx p = None)"
  using assms
proof (induction xs arbitrary: h)
  case Nil
  then show ?case by (subst sll_remove_walk.simps) auto
next
  case (Cons y ys)
  then have nxh: "nx h = Some y" and tl: "lseg nx (nx y) ys None" by auto
  show ?case
  proof (cases "y = x")
    case True
    with nxh show ?thesis
      by (subst sll_remove_walk.simps) (auto intro: exI [of _ "[]"])
  next
    case False
    from Cons.IH [OF tl False] obtain p where
      walk: "sll_remove_walk nx (Some x) y = Some p" and
      res: "if x \<in> set ys then \<exists>as bs. y # ys = as @ p # x # bs \<and> nx p = Some x else nx p = None"
      by blast
    have "sll_remove_walk nx (Some x) h = Some p"
      using nxh False walk by (subst sll_remove_walk.simps) simp
    moreover have "\<exists>as bs. h # y # ys = as @ p # x # bs" if "y # ys = as @ p # x # bs" for as bs
      using that by (metis append_Cons)
    ultimately show ?thesis using res False by (auto split: if_splits)
  qed
qed

lemma sll_remove_holds:
  assumes holds: "sll_holds s xs"
  shows "\<exists>s'. sll_remove (Some x) s = Some (fst (seq_remove x xs), s') \<and>
           sll_holds s' (snd (seq_remove x xs)) \<and> links_changed_in (set xs) s s'"
proof (cases xs)
  case Nil
  with holds show ?thesis by (auto simp: sll_remove_def links_changed_in_def)
next
  case (Cons h ys)
  have hd: "head (snd s) = Some h" and tl: "lseg (fst s) (fst s h) ys None"
    using holds Cons by (auto simp: sll_holds_def)
  show ?thesis
  proof (cases "h = x")
    case True
    obtain s' where "sll_remove_node (Some x) None s = Some s'" "sll_holds s' ys"
        "links_changed_in (set xs) s s'"
      using sll_remove_node_holds [of s "[]" x ys None] holds Cons True by auto
    with hd True Cons have "sll_remove (Some x) s = Some (Some x, s') \<and> sll_holds s' ys \<and>
        links_changed_in (set xs) s s'" by (simp add: sll_remove_def)
    with True Cons show ?thesis by (auto simp: seq_remove_def simp del: split_paired_Ex)
  next
    case False
    from sll_remove_walk_holds [OF tl False] obtain p where
      walk: "sll_remove_walk (fst s) (Some x) h = Some p" and
      res: "if x \<in> set ys then \<exists>as bs. h # ys = as @ p # x # bs \<and> fst s p = Some x
            else fst s p = None" by blast
    show ?thesis
    proof (cases "x \<in> set ys")
      case True
      with res obtain as bs where split: "xs = (as @ [p]) @ x # bs" and "fst s p = Some x"
        using Cons by auto
      moreover obtain s' where "sll_remove_node (Some x) (Some p) s = Some s'"
          "sll_holds s' ((as @ [p]) @ bs)" "links_changed_in (set xs) s s'"
        using sll_remove_node_holds [of s "as @ [p]" x bs "Some p"] holds split by auto
      moreover have "remove1 x xs = (as @ [p]) @ bs"
        unfolding split using sll_holds_distinct [OF holds] split by (intro remove1_split) auto
      ultimately have "sll_remove (Some x) s = Some (Some x, s') \<and> sll_holds s' (remove1 x xs) \<and>
          links_changed_in (set xs) s s'"
        using hd False walk by (simp add: sll_remove_def)
      with True Cons show ?thesis by (auto simp: seq_remove_def simp del: split_paired_Ex)
    next
      case notin: False
      with res hd False walk have "sll_remove (Some x) s = Some (None, s)"
        by (simp add: sll_remove_def)
      with notin False Cons holds show ?thesis
        by (auto simp: seq_remove_def links_changed_in_def)
    qed
  qed
qed

lemma sll_num_items_loop_holds:
  "lseg nx p xs None \<Longrightarrow> sll_num_items_loop nx p k = Some (k + of_nat (length xs))"
proof (induction xs arbitrary: p k)
  case Nil
  then show ?case by (simp add: sll_num_items_loop.simps)
next
  case (Cons x xs)
  then show ?case by (subst sll_num_items_loop.simps) (auto simp: algebra_simps)
qed

lemma sll_num_items_holds: "sll_holds s xs \<Longrightarrow> sll_num_items s = Some (of_nat (length xs))"
  using sll_num_items_loop_holds [of "fst s" "head (snd s)" xs 0]
  by (simp add: sll_num_items_def sll_holds_def)

section \<open>The interface\<close>

text \<open>
  \<open>implements\<close>: the routine returns exactly when the operation on sequences does, and then
  leaves a list that holds the resulting sequence.
\<close>

definition implements :: "('s \<Rightarrow> 'a list \<Rightarrow> bool) \<Rightarrow> 's option \<Rightarrow> 'a list option \<Rightarrow> bool" where
  "implements holds r spec \<longleftrightarrow>
     (case spec of None \<Rightarrow> r = None | Some ys \<Rightarrow> \<exists>s'. r = Some s' \<and> holds s' ys)"

text \<open>Adding several nodes one after the other, and popping until the list is empty.\<close>

fun add_all :: "('a option \<Rightarrow> 's \<Rightarrow> 's option) \<Rightarrow> 'a list \<Rightarrow> 's \<Rightarrow> 's option" where
  "add_all add [] s = Some s"
| "add_all add (x # xs) s = do { s' \<leftarrow> add (Some x) s; add_all add xs s' }"

fun drain :: "('s \<Rightarrow> 'a option \<times> 's) \<Rightarrow> nat \<Rightarrow> 's \<Rightarrow> 'a list" where
  "drain pop 0 s = []"
| "drain pop (Suc k) s =
     (case pop s of (None, s') \<Rightarrow> [] | (Some x, s') \<Rightarrow> x # drain pop k s')"

locale intrusive_list =
  fixes holds :: "'s \<Rightarrow> 'a list \<Rightarrow> bool"
    and push :: "'a option \<Rightarrow> 's \<Rightarrow> 's option"
    and append_node :: "'a option \<Rightarrow> 's \<Rightarrow> 's option"
    and pop :: "'s \<Rightarrow> 'a option \<times> 's"
    and insert_by :: "('a \<Rightarrow> 'a \<Rightarrow> bool) \<Rightarrow> 'a option \<Rightarrow> 's \<Rightarrow> 's option"
    and remove_node :: "'a option \<Rightarrow> 's \<Rightarrow> ('a option \<times> 's) option"
  assumes push_impl: "holds s xs \<Longrightarrow> implements holds (push (Some n) s) (seq_push n xs)"
    and append_impl: "holds s xs \<Longrightarrow> implements holds (append_node (Some n) s) (seq_append n xs)"
    and insert_impl:
      "holds s xs \<Longrightarrow> implements holds (insert_by before (Some n) s) (seq_insert before n xs)"
    and pop_impl: "holds s xs \<Longrightarrow>
      fst (pop s) = fst (seq_pop xs) \<and> holds (snd (pop s)) (snd (seq_pop xs))"
    and remove_impl: "holds s xs \<Longrightarrow>
      \<exists>s'. remove_node (Some n) s = Some (fst (seq_remove n xs), s') \<and>
           holds s' (snd (seq_remove n xs))"
begin

lemma drain_all: "holds s xs \<Longrightarrow> length xs \<le> k \<Longrightarrow> drain pop k s = xs"
proof (induction k arbitrary: s xs)
  case 0
  then show ?case by simp
next
  case (Suc k)
  obtain r s' where pop: "pop s = (r, s')" by (cases "pop s")
  with pop_impl [OF Suc.prems(1)] have "r = fst (seq_pop xs)" "holds s' (snd (seq_pop xs))"
    by auto
  with Suc pop show ?case by (cases xs) auto
qed

lemma append_all:
  assumes "holds s xs" and "distinct (xs @ ns)"
  shows "\<exists>s'. add_all append_node ns s = Some s' \<and> holds s' (xs @ ns)"
  using assms
proof (induction ns arbitrary: s xs)
  case Nil
  then show ?case by simp
next
  case (Cons n ns)
  then obtain s1 where "append_node (Some n) s = Some s1" "holds s1 (xs @ [n])"
    using append_impl [OF Cons.prems(1), of n] by (auto simp: implements_def seq_append_def)
  with Cons.IH [of s1 "xs @ [n]"] Cons.prems show ?case by auto
qed

lemma push_all:
  assumes "holds s xs" and "distinct (xs @ ns)"
  shows "\<exists>s'. add_all push ns s = Some s' \<and> holds s' (rev ns @ xs)"
  using assms
proof (induction ns arbitrary: s xs)
  case Nil
  then show ?case by simp
next
  case (Cons n ns)
  then obtain s1 where "push (Some n) s = Some s1" "holds s1 (n # xs)"
    using push_impl [OF Cons.prems(1), of n] by (auto simp: implements_def seq_push_def)
  with Cons.IH [of s1 "n # xs"] Cons.prems show ?case by auto
qed

lemma queue_fifo:
  assumes "holds s []" and "distinct ns"
  shows "\<exists>s'. add_all append_node ns s = Some s' \<and> drain pop (length ns) s' = ns"
  using append_all [OF assms(1), of ns] assms(2) drain_all by fastforce

lemma stack_lifo:
  assumes "holds s []" and "distinct ns"
  shows "\<exists>s'. add_all push ns s = Some s' \<and> drain pop (length ns) s' = rev ns"
  using push_all [OF assms(1), of ns] assms(2) drain_all by fastforce

end

text \<open>The same list with a sort callback that keeps its contract.\<close>

locale sorted_intrusive_list =
  intrusive_list holds push append_node pop insert_by remove_node +
  insert_order nodes le before
  for holds :: "'s \<Rightarrow> 'a list \<Rightarrow> bool"
    and push append_node pop insert_by remove_node
    and nodes :: "'a set" and le before
begin

lemma insert_all_sorted:
  assumes "holds s xs" and "distinct (xs @ ns)" and "set (xs @ ns) \<subseteq> nodes" and "sorted_wrt le xs"
  shows "\<exists>s' ys. add_all (insert_by before) ns s = Some s' \<and> holds s' ys \<and>
           sorted_wrt le ys \<and> set ys = set (xs @ ns) \<and> length ys = length (xs @ ns)"
  using assms
proof (induction ns arbitrary: s xs)
  case Nil
  then show ?case by auto
next
  case (Cons n ns)
  then obtain s1 where s1: "insert_by before (Some n) s = Some s1" "holds s1 (ins before n xs)"
    using insert_impl [OF Cons.prems(1), of before n]
    by (auto simp: implements_def seq_insert_def)
  moreover have "sorted_wrt le (ins before n xs)"
    using Cons.prems by (intro ins_sorted) auto
  ultimately obtain s' ys where "add_all (insert_by before) ns s1 = Some s'" "holds s' ys"
      "sorted_wrt le ys" "set ys = set (ins before n xs @ ns)"
      "length ys = length (ins before n xs @ ns)"
    using Cons.IH [of s1 "ins before n xs"] Cons.prems by auto
  with s1 show ?case by auto
qed

lemma drain_sorted:
  assumes "holds s []" and "distinct ns" and "set ns \<subseteq> nodes"
  shows "\<exists>s'. add_all (insert_by before) ns s = Some s' \<and>
           sorted_wrt le (drain pop (length ns) s') \<and> set (drain pop (length ns) s') = set ns"
proof -
  obtain s' ys where "add_all (insert_by before) ns s = Some s'" "holds s' ys"
      "sorted_wrt le ys" "set ys = set ns" "length ys = length ns"
    using insert_all_sorted [OF assms(1), of ns] assms(2,3) by fastforce
  moreover from this have "drain pop (length ns) s' = ys" by (simp add: drain_all)
  ultimately show ?thesis by auto
qed

end

interpretation sll: intrusive_list sll_holds sll_push sll_append sll_pop sll_insert sll_remove
proof
  fix s :: "'a sll" and xs n before
  assume h: "sll_holds s xs"
  show "implements sll_holds (sll_push (Some n) s) (seq_push n xs)"
    using sll_push_holds [OF h, of n] sll_push_in [OF h, of n]
    by (auto simp: implements_def seq_push_def)
  show "implements sll_holds (sll_append (Some n) s) (seq_append n xs)"
    using sll_append_holds [OF h, of n] sll_append_in [OF h, of n]
    by (auto simp: implements_def seq_append_def)
  show "implements sll_holds (sll_insert before (Some n) s) (seq_insert before n xs)"
    using sll_insert_holds [OF h, of n before] sll_insert_in [OF h, of n before]
    by (auto simp: implements_def seq_insert_def)
  show "fst (sll_pop s) = fst (seq_pop xs) \<and> sll_holds (snd (sll_pop s)) (snd (seq_pop xs))"
    using sll_pop_holds [OF h] by auto
  show "\<exists>s'. sll_remove (Some n) s = Some (fst (seq_remove n xs), s') \<and>
          sll_holds s' (snd (seq_remove n xs))"
    using sll_remove_holds [OF h, of n] by blast
qed

end
