(* ===== verification/KState.thy ===== *)
theory KState
  imports SllSeq
begin

text \<open>
  The data of the kernel: task control blocks (\<^verbatim>\<open>tasks.h\<close>), suspend and condition
  structures (\<^verbatim>\<open>condition.h\<close>), semaphores (\<^verbatim>\<open>semaphore.h\<close>), idle work (\<^verbatim>\<open>idle.h\<close>) and
  the global variables of the kernel's C files, collected in one record.

  Pointers to kernel objects are names: a task, a condition, a suspend structure or a
  semaphore is known by an identifier, and the state maps it to its contents. An intrusive
  list is the sequence of the identifiers on it. The configuration is the one that has
  \<^verbatim>\<open>CONFIG_SLEEP\<close>, \<^verbatim>\<open>CONFIG_SEMAPHORE\<close>, \<^verbatim>\<open>ASSERT_ENABLE\<close> and \<^verbatim>\<open>SLL_DEBUG\<close>, but neither
  \<^verbatim>\<open>TASK_STATS\<close> nor \<^verbatim>\<open>IDLE_RUNTIME_UPDATE\<close> (both are off unless a build asks for them).
\<close>

section \<open>Identifiers\<close>

type_synonym tid = nat
type_synonym semid = nat
type_synonym fptr = nat \<comment> \<open>a function pointer\<close>

type_synonym fd = nat \<comment> \<open>a file descriptor: the identifier of a \<^verbatim>\<open>FS\<close>\<close>

text \<open>
  A \<open>void *\<close>: NULL, a semaphore, a descriptor, the local \<^verbatim>\<open>FS_BUFFER_PARAM\<close> or \<^verbatim>\<open>FS_PARAM\<close> of a
  task, or other memory.
\<close>

datatype addr = NULLP | A_sem semid | A_fd fd | A_buf_param tid | A_fs_param tid | A_mem nat

text \<open>
  A condition is embedded in a semaphore, in a descriptor, in the buffer data of a descriptor,
  or belongs to another object.
\<close>

datatype cid = Sem_condition semid | Fs_condition fd | Buf_condition fd | Condition nat

text \<open>
  A suspend structure is the local variable of \<^verbatim>\<open>semaphore_obtain\<close>, \<^verbatim>\<open>fs_buffer_suspend\<close> or
  a blocking read or write in a task, or belongs to another caller.
\<close>

datatype sid = Sem_suspend tid | Buf_suspend tid | Fs_suspend tid | Suspend nat

section \<open>Constants\<close>

definition SUCCESS :: int where "SUCCESS = 0"
definition CONDITION_TIMEOUT :: int where "CONDITION_TIMEOUT = - 600"
definition SEMAPHORE_BUSY :: int where "SEMAPHORE_BUSY = - 700"
definition SEMAPHORE_DELETED :: int where "SEMAPHORE_DELETED = - 701"
definition IDLE_NO_SPACE :: int where "IDLE_NO_SPACE = - 500"
definition IDLE_NOT_FOUND :: int where "IDLE_NOT_FOUND = - 501"
definition IDLE_CANNOT_UPDATE :: int where "IDLE_CANNOT_UPDATE = - 502"

definition TASK_NO_RETURN :: u8 where "TASK_NO_RETURN = 1"
definition TASK_SCHED_DRIFT :: u8 where "TASK_SCHED_DRIFT = 2"
definition CONDITION_PING :: u8 where "CONDITION_PING = 1"
definition SUSPEND_INVALID_PRIORITY :: u8 where "SUSPEND_INVALID_PRIORITY = 255"
definition SUSPEND_MIN_PRIORITY :: u8 where "SUSPEND_MIN_PRIORITY = 254"
definition SCHEDULER_MAX_LOCK :: u8 where "SCHEDULER_MAX_LOCK = 5"
definition SCHEDULER_MAX_PRI :: u8 where "SCHEDULER_MAX_PRI = 254"

section \<open>Structures\<close>

datatype task_state =
  TASK_TO_BE_SUSPENDED | TASK_SUSPENDED | TASK_RUNNING | TASK_RESUME | TASK_SLEEP_RESUME
| TASK_FINISHED

datatype task_resume = TASK_RESUME_SYSTEM | TASK_RESUME_SLEEP

text \<open>
  \<^verbatim>\<open>suspend_data\<close> holds the array of conditions while a task waits, and the one condition
  it was resumed from afterwards.
\<close>

datatype suspend_data = SD_null | SD_conditions "cid list" | SD_condition cid

record task =
  entry :: fptr
  argv :: u32
  tos :: nat
  suspend_data :: suspend_data
  tick_sleep :: u32
  state :: task_state
  num_conditions :: u8
  priority :: u8
  flags :: u8
  lock_count :: u8
  resume_from :: task_resume

record suspend =
  timeout :: u32
  s_task :: "tid option"
  s_param :: addr
  status :: int
  timeout_enabled :: bool
  s_priority :: u8
  may_resume :: bool

record condition =
  suspend_list :: "sid list"
  do_suspend :: "fptr option"
  c_lock :: "fptr option"
  c_unlock :: "fptr option"
  c_data :: addr
  c_flags :: u8

record semaphore =
  owner :: "tid option"
  interrupt_lock :: "fptr option"
  interrupt_unlock :: "fptr option"
  interrupt_data :: addr
  count :: u8
  max_count :: u8
  interrupt_protected :: bool

record idle_work =
  do_fun :: "fptr option"
  priv_data :: addr

text \<open>
  The globals: \<^verbatim>\<open>sch_ready_task_list\<close> of \<^verbatim>\<open>scheduler.c\<close>,
  \<^verbatim>\<open>sleep_task_list\<close> and \<^verbatim>\<open>current_tick\<close> of \<^verbatim>\<open>sleep.c\<close>, \<^verbatim>\<open>current_task\<close> and
  \<^verbatim>\<open>return_task\<close> of \<^verbatim>\<open>kernel.c\<close>, \<^verbatim>\<open>sys_interrupt_level\<close> of the port, the pending bit of
  the PendSV exception, the memory the stacks live in, the contents of the kernel objects,
  and the idle work table.
\<close>

record kstate =
  tasks :: "tid \<Rightarrow> task"
  sch_ready_task_list :: "tid list"
  sleep_task_list :: "tid list"
  current_tick :: u32
  current_task :: "tid option"
  return_task :: "tid option"
  sys_interrupt_level :: bool
  pend_sv :: bool
  ram :: "nat \<Rightarrow> u8"
  suspends :: "sid \<Rightarrow> suspend"
  conds :: "cid \<Rightarrow> condition"
  sems :: "semid \<Rightarrow> semaphore"
  idle_works :: "idle_work list"

text \<open>Updating one object in place.\<close>

definition upd_task :: "tid \<Rightarrow> (task \<Rightarrow> task) \<Rightarrow> ('z) kstate_scheme \<Rightarrow> 'z kstate_scheme" where
  "upd_task t f s = s\<lparr>tasks := (tasks s)(t := f (tasks s t))\<rparr>"

definition upd_suspend :: "sid \<Rightarrow> (suspend \<Rightarrow> suspend) \<Rightarrow> 'z kstate_scheme \<Rightarrow> 'z kstate_scheme" where
  "upd_suspend p f s = s\<lparr>suspends := (suspends s)(p := f (suspends s p))\<rparr>"

definition upd_cond :: "cid \<Rightarrow> (condition \<Rightarrow> condition) \<Rightarrow> 'z kstate_scheme \<Rightarrow> 'z kstate_scheme" where
  "upd_cond c f s = s\<lparr>conds := (conds s)(c := f (conds s c))\<rparr>"

definition upd_sem :: "semid \<Rightarrow> (semaphore \<Rightarrow> semaphore) \<Rightarrow> 'z kstate_scheme \<Rightarrow> 'z kstate_scheme" where
  "upd_sem m f s = s\<lparr>sems := (sems s)(m := f (sems s m))\<rparr>"

lemma upd_task_sel [simp]:
  "tasks (upd_task t f s) = (tasks s)(t := f (tasks s t))"
  "sch_ready_task_list (upd_task t f s) = sch_ready_task_list s"
  "sleep_task_list (upd_task t f s) = sleep_task_list s"
  "kstate.more (upd_task t f s) = kstate.more s"
  "current_tick (upd_task t f s) = current_tick s"
  "current_task (upd_task t f s) = current_task s"
  "return_task (upd_task t f s) = return_task s"
  "sys_interrupt_level (upd_task t f s) = sys_interrupt_level s"
  "pend_sv (upd_task t f s) = pend_sv s"
  "ram (upd_task t f s) = ram s"
  "suspends (upd_task t f s) = suspends s"
  "conds (upd_task t f s) = conds s"
  "sems (upd_task t f s) = sems s"
  "idle_works (upd_task t f s) = idle_works s"
  by (simp_all add: upd_task_def)

lemma upd_suspend_sel [simp]:
  "suspends (upd_suspend p g s) = (suspends s)(p := g (suspends s p))"
  "tasks (upd_suspend p g s) = tasks s"
  "sch_ready_task_list (upd_suspend p g s) = sch_ready_task_list s"
  "sleep_task_list (upd_suspend p g s) = sleep_task_list s"
  "kstate.more (upd_suspend p g s) = kstate.more s"
  "current_tick (upd_suspend p g s) = current_tick s"
  "current_task (upd_suspend p g s) = current_task s"
  "return_task (upd_suspend p g s) = return_task s"
  "sys_interrupt_level (upd_suspend p g s) = sys_interrupt_level s"
  "pend_sv (upd_suspend p g s) = pend_sv s"
  "conds (upd_suspend p g s) = conds s"
  "sems (upd_suspend p g s) = sems s"
  by (simp_all add: upd_suspend_def)

lemma upd_cond_sel [simp]:
  "conds (upd_cond c f s) = (conds s)(c := f (conds s c))"
  "tasks (upd_cond c f s) = tasks s"
  "sch_ready_task_list (upd_cond c f s) = sch_ready_task_list s"
  "sleep_task_list (upd_cond c f s) = sleep_task_list s"
  "kstate.more (upd_cond c f s) = kstate.more s"
  "current_tick (upd_cond c f s) = current_tick s"
  "current_task (upd_cond c f s) = current_task s"
  "return_task (upd_cond c f s) = return_task s"
  "sys_interrupt_level (upd_cond c f s) = sys_interrupt_level s"
  "pend_sv (upd_cond c f s) = pend_sv s"
  "suspends (upd_cond c f s) = suspends s"
  "sems (upd_cond c f s) = sems s"
  by (simp_all add: upd_cond_def)

lemma upd_sem_sel [simp]:
  "sems (upd_sem m f s) = (sems s)(m := f (sems s m))"
  "tasks (upd_sem m f s) = tasks s"
  "sch_ready_task_list (upd_sem m f s) = sch_ready_task_list s"
  "sleep_task_list (upd_sem m f s) = sleep_task_list s"
  "kstate.more (upd_sem m f s) = kstate.more s"
  "current_tick (upd_sem m f s) = current_tick s"
  "current_task (upd_sem m f s) = current_task s"
  "return_task (upd_sem m f s) = return_task s"
  "sys_interrupt_level (upd_sem m f s) = sys_interrupt_level s"
  "pend_sv (upd_sem m f s) = pend_sv s"
  "suspends (upd_sem m f s) = suspends s"
  "conds (upd_sem m f s) = conds s"
  by (simp_all add: upd_sem_def)

section \<open>Interrupt level\<close>

definition DISABLE_INTERRUPTS :: "'z kstate_scheme \<Rightarrow> 'z kstate_scheme" where
  "DISABLE_INTERRUPTS s = s\<lparr>sys_interrupt_level := False\<rparr>"

definition ENABLE_INTERRUPTS :: "'z kstate_scheme \<Rightarrow> 'z kstate_scheme" where
  "ENABLE_INTERRUPTS s = s\<lparr>sys_interrupt_level := True\<rparr>"

definition SET_INTERRUPT_LEVEL :: "bool \<Rightarrow> 'z kstate_scheme \<Rightarrow> 'z kstate_scheme" where
  "SET_INTERRUPT_LEVEL lvl s = (if lvl then ENABLE_INTERRUPTS s else DISABLE_INTERRUPTS s)"

lemma SET_INTERRUPT_LEVEL_eq: "SET_INTERRUPT_LEVEL lvl s = s\<lparr>sys_interrupt_level := lvl\<rparr>"
  by (simp add: SET_INTERRUPT_LEVEL_def ENABLE_INTERRUPTS_def DISABLE_INTERRUPTS_def)

lemmas int_level_defs = SET_INTERRUPT_LEVEL_eq ENABLE_INTERRUPTS_def DISABLE_INTERRUPTS_def

end
