(* ===== verification/Scheduler.thy ===== *)
theory Scheduler
  imports KState
begin

text \<open>
  The ready list of \<^verbatim>\<open>rtos/kernel/scheduler.c\<close>: the sort callback, the routine that puts a
  task on the list, and the one that adds a new task to the system. The callback meets the
  contract \<open>stable_insert_order\<close>, so the list stays sorted by priority and first-in
  first-out among equals.
\<close>

datatype yield_from = YIELD_SYSTEM | YIELD_SLEEP

text \<open>The control block of the idle task (\<^verbatim>\<open>idle.c\<close>).\<close>

definition idle_task :: tid where "idle_task = 0"

definition scheduler_task_sort :: "'z kstate_scheme \<Rightarrow> tid \<Rightarrow> tid \<Rightarrow> bool" where
  "scheduler_task_sort s node task \<longleftrightarrow> priority (tasks s node) > priority (tasks s task)"

definition scheduler_task_yield ::
    "tid \<Rightarrow> yield_from \<Rightarrow> 'z kstate_scheme \<Rightarrow> 'z kstate_scheme option" where
  "scheduler_task_yield tcb frm s = do {
     let s = (case frm of
         YIELD_SLEEP \<Rightarrow> upd_task tcb (\<lambda>t. t\<lparr>tick_sleep := 0, state := TASK_SLEEP_RESUME,
           resume_from := TASK_RESUME_SLEEP\<rparr>) s
       | YIELD_SYSTEM \<Rightarrow> upd_task tcb (\<lambda>t. t\<lparr>state := TASK_RESUME,
           resume_from := TASK_RESUME_SYSTEM\<rparr>) s);
     q \<leftarrow> seq_insert (scheduler_task_sort s) tcb (sch_ready_task_list s);
     Some (s\<lparr>sch_ready_task_list := q\<rparr>)
   }"

definition scheduler_task_add :: "tid \<Rightarrow> u8 \<Rightarrow> 'z kstate_scheme \<Rightarrow> 'z kstate_scheme option" where
  "scheduler_task_add tcb pri s = do {
     let interrupt_level = sys_interrupt_level s;
     let s = DISABLE_INTERRUPTS s;
     let s = upd_task tcb (\<lambda>t. t\<lparr>priority := pri\<rparr>) s;
     (if tcb \<noteq> idle_task then ASSERT (pri > SCHEDULER_MAX_PRI) else Some ());
     s \<leftarrow> scheduler_task_yield tcb YIELD_SYSTEM s;
     Some (SET_INTERRUPT_LEVEL interrupt_level s)
   }"

section \<open>The order of the ready list\<close>

definition runs_before :: "'z kstate_scheme \<Rightarrow> tid \<Rightarrow> tid \<Rightarrow> bool" where
  "runs_before s a b \<longleftrightarrow> priority (tasks s a) \<le> priority (tasks s b)"

interpretation ready: stable_insert_order UNIV "runs_before s" "scheduler_task_sort s" for s
  by unfold_locales (auto simp: runs_before_def scheduler_task_sort_def)

text \<open>
  The ready list is sorted by priority (0 is the most urgent), lists no task twice, and lists
  only tasks that wait to be resumed.
\<close>

definition is_ready :: "task_state \<Rightarrow> bool" where
  "is_ready st \<longleftrightarrow> st = TASK_RESUME \<or> st = TASK_SLEEP_RESUME"

definition ready_inv :: "'z kstate_scheme \<Rightarrow> bool" where
  "ready_inv s \<longleftrightarrow>
     sorted_wrt (runs_before s) (sch_ready_task_list s) \<and>
     distinct (sch_ready_task_list s) \<and>
     (\<forall>t \<in> set (sch_ready_task_list s). is_ready (state (tasks s t)))"

text \<open>What \<^verbatim>\<open>scheduler_task_yield\<close> does to the control block.\<close>

definition resumed_task :: "yield_from \<Rightarrow> task \<Rightarrow> task" where
  "resumed_task frm t =
     (case frm of
        YIELD_SLEEP \<Rightarrow> t\<lparr>tick_sleep := 0, state := TASK_SLEEP_RESUME, resume_from := TASK_RESUME_SLEEP\<rparr>
      | YIELD_SYSTEM \<Rightarrow> t\<lparr>state := TASK_RESUME, resume_from := TASK_RESUME_SYSTEM\<rparr>)"

lemma resumed_task_sel [simp]:
  "priority (resumed_task frm t) = priority t"
  "flags (resumed_task frm t) = flags t"
  "lock_count (resumed_task frm t) = lock_count t"
  "suspend_data (resumed_task frm t) = suspend_data t"
  "num_conditions (resumed_task frm t) = num_conditions t"
  "is_ready (state (resumed_task frm t))"
  by (auto simp: resumed_task_def is_ready_def split: yield_from.splits)

lemma runs_before_upd [simp]:
  "priority (f (tasks s t)) = priority (tasks s t) \<Longrightarrow> runs_before (upd_task t f s) = runs_before s"
  by (auto simp: runs_before_def fun_eq_iff)

lemma scheduler_task_sort_upd [simp]:
  "priority (f (tasks s t)) = priority (tasks s t) \<Longrightarrow>
   scheduler_task_sort (upd_task t f s) = scheduler_task_sort s"
  by (auto simp: scheduler_task_sort_def fun_eq_iff)

lemma runs_before_cong: "tasks s = tasks s' \<Longrightarrow> runs_before s = runs_before s'"
  by (auto simp: runs_before_def fun_eq_iff)

lemma runs_before_other [simp]:
  "runs_before (s\<lparr>sleep_task_list := q\<rparr>) = runs_before s"
  "runs_before (s\<lparr>sch_ready_task_list := q\<rparr>) = runs_before s"
  "runs_before (s\<lparr>current_task := c\<rparr>) = runs_before s"
  "runs_before (s\<lparr>return_task := c\<rparr>) = runs_before s"
  "runs_before (s\<lparr>sys_interrupt_level := b\<rparr>) = runs_before s"
  "runs_before (s\<lparr>pend_sv := b\<rparr>) = runs_before s"
  "runs_before (s\<lparr>current_tick := k\<rparr>) = runs_before s"
  "runs_before (upd_cond i f s) = runs_before s"
  "runs_before (upd_suspend j g s) = runs_before s"
  "runs_before (upd_sem m h s) = runs_before s"
  by (auto intro!: runs_before_cong)

lemma scheduler_task_sort_other [simp]:
  "scheduler_task_sort (s\<lparr>sleep_task_list := q\<rparr>) = scheduler_task_sort s"
  "scheduler_task_sort (s\<lparr>sch_ready_task_list := q\<rparr>) = scheduler_task_sort s"
  by (simp_all add: scheduler_task_sort_def fun_eq_iff)

lemma scheduler_task_yield_eq:
  "scheduler_task_yield tcb frm s =
     (if tcb \<in> set (sch_ready_task_list s) then None
      else Some ((upd_task tcb (resumed_task frm) s)\<lparr>sch_ready_task_list :=
             ins (scheduler_task_sort s) tcb (sch_ready_task_list s)\<rparr>))"
proof -
  have "upd_task tcb (resumed_task frm) s = (case frm of
      YIELD_SLEEP \<Rightarrow> upd_task tcb (\<lambda>t. t\<lparr>tick_sleep := 0, state := TASK_SLEEP_RESUME,
        resume_from := TASK_RESUME_SLEEP\<rparr>) s
    | YIELD_SYSTEM \<Rightarrow> upd_task tcb (\<lambda>t. t\<lparr>state := TASK_RESUME,
        resume_from := TASK_RESUME_SYSTEM\<rparr>) s)"
    by (cases frm) (simp_all add: upd_task_def resumed_task_def)
  then show ?thesis
    by (simp add: scheduler_task_yield_def seq_insert_def flip: \<open>upd_task tcb (resumed_task frm) s = _\<close>)
qed

lemma scheduler_task_yield_ready_inv:
  assumes inv: "ready_inv s" and y: "scheduler_task_yield tcb frm s = Some s'"
  shows "ready_inv s'"
proof -
  have new: "tcb \<notin> set (sch_ready_task_list s)"
    and s': "s' = (upd_task tcb (resumed_task frm) s)\<lparr>sch_ready_task_list :=
             ins (scheduler_task_sort s) tcb (sch_ready_task_list s)\<rparr>"
    using y by (auto simp: scheduler_task_yield_eq split: if_splits)
  have "runs_before s' = runs_before (upd_task tcb (resumed_task frm) s)"
    by (rule runs_before_cong) (simp add: s')
  moreover have "sorted_wrt (runs_before s) (ins (scheduler_task_sort s) tcb (sch_ready_task_list s))"
    using inv by (intro ready.ins_sorted) (auto simp: ready_inv_def)
  ultimately show ?thesis
    using inv new by (auto simp: ready_inv_def s')
qed

lemma scheduler_task_add_eq:
  "scheduler_task_add t pri s =
     (if (t \<noteq> idle_task \<and> pri > SCHEDULER_MAX_PRI) \<or> t \<in> set (sch_ready_task_list s) then None
      else Some ((upd_task t (\<lambda>x. resumed_task YIELD_SYSTEM (x\<lparr>priority := pri\<rparr>)) s)
        \<lparr>sch_ready_task_list := ins (scheduler_task_sort (upd_task t (\<lambda>x. x\<lparr>priority := pri\<rparr>) s)) t
           (sch_ready_task_list s)\<rparr>))"
  by (auto simp: scheduler_task_add_def scheduler_task_yield_eq Let_def int_level_defs upd_task_def
      scheduler_task_sort_def fun_eq_iff intro!: ins_cong kstate.equality)

end
