(* ===== verification/Sleep.thy ===== *)
theory Sleep
  imports Scheduler
begin

text \<open>
  The sleep list and the system tick of \<^verbatim>\<open>rtos/kernel/sleep.c\<close>. Wake-up ticks are 32-bit
  clock values that wrap around and are compared by \<^verbatim>\<open>INT32CMP\<close>. Comparing two of them is
  an order only among values close to a common clock value, so the order of the list is
  stated relative to the current tick (\<open>window\<close>).
\<close>

section \<open>The code\<close>

definition sleep_task_sort :: "'z kstate_scheme \<Rightarrow> tid \<Rightarrow> tid \<Rightarrow> bool" where
  "sleep_task_sort s node task \<longleftrightarrow>
     INT32CMP (tick_sleep (tasks s node)) (tick_sleep (tasks s task)) > 0 \<or>
     (tick_sleep (tasks s node) = tick_sleep (tasks s task) \<and>
      priority (tasks s node) > priority (tasks s task))"

text \<open>The match callback: it answers, and may set the flag \<open>do_break\<close> it is given.\<close>

definition sleep_walk :: "'z kstate_scheme \<Rightarrow> tid \<Rightarrow> bool \<Rightarrow> bool \<times> bool" where
  "sleep_walk s node do_break =
     (if INT32CMP (current_tick s) (tick_sleep (tasks s node)) \<ge> 0
      then (state (tasks s node) = TASK_SUSPENDED, do_break)
      else (True, True))"

partial_function (option) sleep_process_loop ::
    "'z kstate_scheme \<Rightarrow> bool \<Rightarrow> 'z kstate_scheme option" where
  "sleep_process_loop s do_break =
     (if sleep_task_list s \<noteq> [] \<and> \<not> do_break then
        (case seq_scan (sleep_walk s) do_break (sleep_task_list s) of (passed, found, do_break') \<Rightarrow>
           if \<not> do_break' then
             (case found of
                tcb # after \<Rightarrow> do {
                  s \<leftarrow> scheduler_task_yield tcb YIELD_SLEEP (s\<lparr>sleep_task_list := passed @ after\<rparr>);
                  sleep_process_loop s do_break'
                }
              | [] \<Rightarrow> Some s)
           else sleep_process_loop s do_break')
      else Some s)"

declare sleep_process_loop.simps [code]

definition sleep_process_system_tick :: "'z kstate_scheme \<Rightarrow> 'z kstate_scheme option" where
  "sleep_process_system_tick s = sleep_process_loop s False"

definition current_system_tick :: "'z kstate_scheme \<Rightarrow> u32 \<times> 'z kstate_scheme" where
  "current_system_tick s =
     (let interrupt_level = sys_interrupt_level s;
          s = DISABLE_INTERRUPTS s;
          return_tick = current_tick s
      in (return_tick, SET_INTERRUPT_LEVEL interrupt_level s))"

definition sleep_add_to_list :: "tid \<Rightarrow> u32 \<Rightarrow> 'z kstate_scheme \<Rightarrow> 'z kstate_scheme option" where
  "sleep_add_to_list tcb ticks s = do {
     let (now, s) = current_system_tick s;
     let s = upd_task tcb (\<lambda>t. t\<lparr>tick_sleep := now + ticks\<rparr>) s;
     q \<leftarrow> seq_insert (sleep_task_sort s) tcb (sleep_task_list s);
     Some (s\<lparr>sleep_task_list := q\<rparr>)
   }"

definition sleep_remove_from_list :: "tid \<Rightarrow> 'z kstate_scheme \<Rightarrow> 'z kstate_scheme option" where
  "sleep_remove_from_list tcb s = do {
     let (r, q) = seq_remove tcb (sleep_task_list s);
     ASSERT (r \<noteq> Some tcb);
     Some (upd_task tcb (\<lambda>t. t\<lparr>tick_sleep := 0\<rparr>) (s\<lparr>sleep_task_list := q\<rparr>))
   }"

definition process_system_tick :: "'z kstate_scheme \<Rightarrow> bool \<times> 'z kstate_scheme" where
  "process_system_tick s =
     (let s = s\<lparr>current_tick := current_tick s + 1\<rparr> in
      (case sleep_task_list s of
         [] \<Rightarrow> False
       | h # _ \<Rightarrow> INT32CMP (current_tick s) (tick_sleep (tasks s h)) \<ge> 0, s))"

lemma current_system_tick_eq [simp]: "current_system_tick s = (current_tick s, s)"
  by (simp add: current_system_tick_def int_level_defs)

section \<open>The order of the sleep list\<close>

definition window :: "'z kstate_scheme \<Rightarrow> u32 \<Rightarrow> tid set" where
  "window s now = {t. - (2 ^ 30) \<le> INT32CMP (tick_sleep (tasks s t)) now \<and>
                      INT32CMP (tick_sleep (tasks s t)) now < 2 ^ 30}"

definition wakes_before :: "'z kstate_scheme \<Rightarrow> u32 \<Rightarrow> tid \<Rightarrow> tid \<Rightarrow> bool" where
  "wakes_before s now a b \<longleftrightarrow>
     INT32CMP (tick_sleep (tasks s a)) now < INT32CMP (tick_sleep (tasks s b)) now \<or>
     (tick_sleep (tasks s a) = tick_sleep (tasks s b) \<and>
      priority (tasks s a) \<le> priority (tasks s b))"

lemma INT32CMP_same_iff: "INT32CMP a c = INT32CMP b c \<longleftrightarrow> a = b"
proof
  assume "INT32CMP a c = INT32CMP b c"
  then have "a - c = b - c" unfolding INT32CMP_def by (rule signed_word_eqI)
  then show "a = b" by simp
qed simp

lemma sleep_task_sort_window:
  assumes "a \<in> window s now" "b \<in> window s now"
  shows "sleep_task_sort s a b \<longleftrightarrow> \<not> wakes_before s now a b"
proof -
  let ?a = "tick_sleep (tasks s a)" and ?b = "tick_sleep (tasks s b)"
  have "INT32CMP ?a ?b = INT32CMP ?a now - INT32CMP ?b now"
    using assms by (intro INT32CMP_relative) (auto simp: window_def)
  moreover have "?a = ?b \<longleftrightarrow> INT32CMP ?a now = INT32CMP ?b now"
    by (simp add: INT32CMP_same_iff)
  ultimately show ?thesis
    unfolding sleep_task_sort_def wakes_before_def by (simp add: not_less not_le) linarith
qed

interpretation sleepers: stable_insert_order "window s now" "wakes_before s now" "sleep_task_sort s"
  for s now
proof
  fix x y z
  assume "wakes_before s now x y" "wakes_before s now y z"
  then show "wakes_before s now x z" by (auto simp: wakes_before_def)
next
  fix x n
  assume "x \<in> window s now" "n \<in> window s now" "sleep_task_sort s x n"
  then show "wakes_before s now n x" and "\<not> wakes_before s now x n"
    using INT32CMP_same_iff [of "tick_sleep (tasks s x)" now "tick_sleep (tasks s n)"]
    by (auto simp: sleep_task_sort_window [where now = now] wakes_before_def)
next
  fix x n
  assume "x \<in> window s now" "n \<in> window s now" "\<not> sleep_task_sort s x n"
  then show "wakes_before s now x n" by (simp add: sleep_task_sort_window)
qed

definition sleep_inv :: "'z kstate_scheme \<Rightarrow> bool" where
  "sleep_inv s \<longleftrightarrow>
     set (sleep_task_list s) \<subseteq> window s (current_tick s) \<and>
     sorted_wrt (wakes_before s (current_tick s)) (sleep_task_list s) \<and>
     distinct (sleep_task_list s)"

text \<open>A task is due when its tick has come, and resumable when it also is suspended.\<close>

definition due :: "'z kstate_scheme \<Rightarrow> tid \<Rightarrow> bool" where
  "due s t \<longleftrightarrow> INT32CMP (current_tick s) (tick_sleep (tasks s t)) \<ge> 0"

definition resumable :: "'z kstate_scheme \<Rightarrow> tid \<Rightarrow> bool" where
  "resumable s t \<longleftrightarrow> due s t \<and> state (tasks s t) = TASK_SUSPENDED"

lemma due_window:
  assumes "t \<in> window s (current_tick s)"
  shows "due s t \<longleftrightarrow> INT32CMP (tick_sleep (tasks s t)) (current_tick s) \<le> 0"
proof -
  have "INT32CMP (current_tick s) (tick_sleep (tasks s t)) =
      INT32CMP (current_tick s) (current_tick s) - INT32CMP (tick_sleep (tasks s t)) (current_tick s)"
    using assms by (intro INT32CMP_relative) (auto simp: window_def)
  then show ?thesis by (simp add: due_def)
qed

lemma not_due_later:
  assumes "x \<in> window s (current_tick s)" "y \<in> window s (current_tick s)"
    and "wakes_before s (current_tick s) x y" and "\<not> due s x"
  shows "\<not> due s y"
  using assms by (auto simp: due_window wakes_before_def)

section \<open>What a tick does\<close>

text \<open>The state after the tasks \<open>R\<close> have been taken off the sleep list and made ready, in this order.\<close>

definition woken :: "tid list \<Rightarrow> 'z kstate_scheme \<Rightarrow> 'z kstate_scheme" where
  "woken R s = s\<lparr>
     tasks := (\<lambda>t. if t \<in> set R then resumed_task YIELD_SLEEP (tasks s t) else tasks s t),
     sleep_task_list := filter (\<lambda>t. t \<notin> set R) (sleep_task_list s),
     sch_ready_task_list := foldl (\<lambda>q t. ins (scheduler_task_sort s) t q) (sch_ready_task_list s) R\<rparr>"

lemma foldl_ins [simp]:
  "set (foldl (\<lambda>q t. ins before t q) q ts) = set q \<union> set ts"
  "distinct (foldl (\<lambda>q t. ins before t q) q ts) \<longleftrightarrow> distinct q \<and> distinct ts \<and> set q \<inter> set ts = {}"
  by (induction ts arbitrary: q) auto

lemma woken_sel [simp]:
  "current_tick (woken R s) = current_tick s"
  "current_task (woken R s) = current_task s"
  "return_task (woken R s) = return_task s"
  "sys_interrupt_level (woken R s) = sys_interrupt_level s"
  "suspends (woken R s) = suspends s"
  "conds (woken R s) = conds s"
  "sems (woken R s) = sems s"
  "sleep_task_list (woken R s) = filter (\<lambda>t. t \<notin> set R) (sleep_task_list s)"
  "set (sch_ready_task_list (woken R s)) = set (sch_ready_task_list s) \<union> set R"
  "t \<notin> set R \<Longrightarrow> tasks (woken R s) t = tasks s t"
  "t \<in> set R \<Longrightarrow> tasks (woken R s) t = resumed_task YIELD_SLEEP (tasks s t)"
  by (simp_all add: woken_def)

lemma woken_priority [simp]: "priority (tasks (woken R s) t) = priority (tasks s t)"
  by (simp add: woken_def)

lemma woken_lock_count [simp]:
  "lock_count (tasks (woken R s) t) = lock_count (tasks s t)"
  "flags (tasks (woken R s) t) = flags (tasks s t)"
  "suspend_data (tasks (woken R s) t) = suspend_data (tasks s t)"
  "num_conditions (tasks (woken R s) t) = num_conditions (tasks s t)"
  by (simp_all add: woken_def)

lemma woken_Nil [simp]: "woken [] s = s"
  by (simp add: woken_def)

text \<open>The search of one round: everything it passes is due but not suspended.\<close>

lemma sleep_scan:
  assumes "seq_scan (sleep_walk s) False xs = (ys, zs, b)"
  shows "xs = ys @ zs \<and> (\<forall>t \<in> set ys. \<not> resumable s t) \<and>
    (if b then zs \<noteq> [] \<and> \<not> due s (hd zs) else zs \<noteq> [] \<longrightarrow> resumable s (hd zs))"
  using assms
proof (induction xs arbitrary: ys zs)
  case Nil
  then show ?case by simp
next
  case (Cons x xs)
  show ?case
  proof (cases "due s x \<and> state (tasks s x) \<noteq> TASK_SUSPENDED")
    case True
    then have "sleep_walk s x False = (False, False)" by (simp add: sleep_walk_def due_def)
    with Cons.prems obtain ys1 where
      "seq_scan (sleep_walk s) False xs = (ys1, zs, b)" "ys = x # ys1"
      by (auto split: prod.splits)
    with Cons.IH [of ys1 zs] True show ?thesis by (auto simp: resumable_def)
  next
    case False
    with Cons.prems show ?thesis
      by (cases "due s x") (auto simp: sleep_walk_def due_def resumable_def not_le split: if_splits)
  qed
qed

text \<open>Where the loop stops: before the first task that is not due there is none to resume.\<close>

definition none_to_wake :: "'z kstate_scheme \<Rightarrow> bool" where
  "none_to_wake s \<longleftrightarrow> (\<exists>ys zs. sleep_task_list s = ys @ zs \<and>
     (\<forall>t \<in> set ys. \<not> resumable s t) \<and> (zs = [] \<or> \<not> due s (hd zs)))"

lemma resumable_not_ready:
  "ready_inv s \<Longrightarrow> resumable s t \<Longrightarrow> t \<notin> set (sch_ready_task_list s)"
  by (auto simp: ready_inv_def resumable_def is_ready_def)

lemma resumable_woken [simp]:
  "t \<notin> set R \<Longrightarrow> resumable (woken R s) t = resumable s t"
  "t \<notin> set R \<Longrightarrow> due (woken R s) t = due s t"
  by (simp_all add: resumable_def due_def)

lemma scheduler_task_yield_woken:
  assumes "t \<notin> set (sch_ready_task_list s)" and "distinct (ys @ t # zs)"
    and "sleep_task_list s = ys @ t # zs"
  shows "scheduler_task_yield t YIELD_SLEEP (s\<lparr>sleep_task_list := ys @ zs\<rparr>) = Some (woken [t] s)"
proof -
  have "filter (\<lambda>x. x \<noteq> t) ys = ys" "filter (\<lambda>x. x \<noteq> t) zs = zs"
    using assms(2) by (auto intro!: filter_True)
  then show ?thesis using assms
    by (auto simp: scheduler_task_yield_eq woken_def fun_eq_iff intro!: kstate.equality)
qed

lemma woken_Cons: "woken R (woken [t] s) = woken (t # R) s" if "t \<notin> set R"
proof -
  have "scheduler_task_sort (woken [t] s) = scheduler_task_sort s"
    by (simp add: scheduler_task_sort_def fun_eq_iff)
  moreover have "(if x \<in> set R then resumed_task YIELD_SLEEP (tasks (woken [t] s) x)
      else tasks (woken [t] s) x) =
    (if x \<in> set (t # R) then resumed_task YIELD_SLEEP (tasks s x) else tasks s x)" for x
    using that by (cases "x = t") auto
  ultimately show ?thesis
    by (simp add: woken_def [of R] woken_def [of "t # R"] cong: filter_cong)
      (simp add: woken_def conj_commute)
qed

lemma sleep_process_loop_woken:
  assumes "ready_inv s" and "distinct (sleep_task_list s)"
  shows "\<exists>R. sleep_process_loop s False = Some (woken R s) \<and> ready_inv (woken R s) \<and>
    R = filter (\<lambda>t. t \<in> set R) (sleep_task_list s) \<and> (\<forall>t \<in> set R. resumable s t) \<and>
    none_to_wake (woken R s)"
  using assms
proof (induction "length (sleep_task_list s)" arbitrary: s rule: less_induct)
  case less
  obtain ys zs b where scan: "seq_scan (sleep_walk s) False (sleep_task_list s) = (ys, zs, b)"
    by (metis prod_cases3)
  note sc = sleep_scan [OF scan]
  show ?case
  proof (cases "b \<or> zs = []")
    case True
    have "sleep_process_loop s False = Some s"
    proof (cases "sleep_task_list s = []")
      case False
      with True scan show ?thesis
        by (subst sleep_process_loop.simps) (auto simp: sleep_process_loop.simps [of s True])
    qed (simp add: sleep_process_loop.simps)
    moreover have "none_to_wake s"
      using sc True by (auto simp: none_to_wake_def split: if_splits)
    ultimately show ?thesis using less.prems by (intro exI [of _ "[]"]) simp
  next
    case False
    then obtain t zs' where zs: "zs = t # zs'" and b: "\<not> b" by (cases zs) auto
    with sc have list: "sleep_task_list s = ys @ t # zs'" and res: "resumable s t" by auto
    let ?s1 = "woken [t] s"
    have new: "t \<notin> set (sch_ready_task_list s)"
      using less.prems(1) res by (rule resumable_not_ready)
    have y: "scheduler_task_yield t YIELD_SLEEP (s\<lparr>sleep_task_list := ys @ zs'\<rparr>) = Some ?s1"
      using new less.prems(2) list by (simp add: scheduler_task_yield_woken)
    have step: "sleep_process_loop s False = sleep_process_loop ?s1 False"
      using list scan b zs y by (subst sleep_process_loop.simps) simp
    have inv1: "ready_inv ?s1"
    proof (rule scheduler_task_yield_ready_inv [OF _ y])
      show "ready_inv (s\<lparr>sleep_task_list := ys @ zs'\<rparr>)"
        using less.prems(1) by (simp add: ready_inv_def runs_before_def)
    qed
    have "length (sleep_task_list ?s1) < length (sleep_task_list s)"
      using list by (simp add: less_Suc_eq_le add_mono)
    then obtain R where R: "sleep_process_loop ?s1 False = Some (woken R ?s1)"
        "ready_inv (woken R ?s1)" "R = filter (\<lambda>x. x \<in> set R) (sleep_task_list ?s1)"
        "\<forall>x \<in> set R. resumable ?s1 x" "none_to_wake (woken R ?s1)"
      using less.hyps [of ?s1] inv1 less.prems(2) by auto
    have "set R \<subseteq> set (sleep_task_list ?s1)" by (subst R(3)) auto
    then have tR: "t \<notin> set R" by auto
    have "\<forall>x \<in> set ys. x \<notin> set R"
    proof
      fix x assume "x \<in> set ys"
      with sc have "\<not> resumable s x" by auto
      moreover have "resumable ?s1 x \<Longrightarrow> resumable s x"
        by (cases "x = t") (auto simp: resumable_def due_def resumed_task_def)
      ultimately show "x \<notin> set R" using R(4) by blast
    qed
    then have "filter (\<lambda>x. x = t \<or> x \<in> set R) ys = []"
      using list less.prems(2) by (auto simp: filter_empty_conv)
    moreover have "filter (\<lambda>x. x = t \<or> x \<in> set R) zs' = filter (\<lambda>x. x \<in> set R) zs'"
      using list less.prems(2) by (intro filter_cong) auto
    moreover have "R = filter (\<lambda>x. x \<in> set R) zs'"
    proof -
      have "R = filter (\<lambda>x. x \<in> set R) (filter (\<lambda>x. x \<noteq> t) ys @ filter (\<lambda>x. x \<noteq> t) zs')"
        using R(3) list by simp
      also have "\<dots> = filter (\<lambda>x. x \<in> set R) zs'"
        using \<open>\<forall>x \<in> set ys. x \<notin> set R\<close> list less.prems(2)
        by (auto simp: filter_empty_conv intro!: filter_cong)
      finally show ?thesis .
    qed
    ultimately have "t # R = filter (\<lambda>x. x \<in> set (t # R)) (sleep_task_list s)"
      using list by simp
    moreover have "\<forall>x \<in> set (t # R). resumable s x"
      using R(4) res tR resumable_woken(1) [of _ "[t]" s]
      by (metis empty_iff list.set(1) set_ConsD)
    moreover have "sleep_process_loop s False = Some (woken (t # R) s)"
      "ready_inv (woken (t # R) s)" "none_to_wake (woken (t # R) s)"
      using step R woken_Cons [OF tR, of s] by simp_all
    ultimately show ?thesis by blast
  qed
qed

lemma sleep_process_system_tick_woken:
  assumes "ready_inv s" and "distinct (sleep_task_list s)"
  shows "\<exists>R. sleep_process_system_tick s = Some (woken R s) \<and> ready_inv (woken R s) \<and>
    set R \<subseteq> set (sleep_task_list s) \<and> distinct R \<and> (\<forall>t \<in> set R. resumable s t)"
proof -
  obtain R where R: "sleep_process_loop s False = Some (woken R s)" "ready_inv (woken R s)"
      "R = filter (\<lambda>t. t \<in> set R) (sleep_task_list s)" "\<forall>t \<in> set R. resumable s t"
    using sleep_process_loop_woken [OF assms] by blast
  have "set R \<subseteq> set (sleep_task_list s)" by (subst R(3)) auto
  moreover have "distinct R" using assms(2) by (subst R(3)) simp
  ultimately show ?thesis using R by (auto simp: sleep_process_system_tick_def)
qed

text \<open>
  On a sleep list in order, a tick wakes exactly the suspended tasks whose time has come,
  in the order of the list.
\<close>

lemma none_to_wake_sorted:
  assumes "sleep_inv s" and "none_to_wake (woken R s)" and "t \<in> set (sleep_task_list s)"
    and "t \<notin> set R"
  shows "\<not> resumable s t"
proof -
  let ?xs = "filter (\<lambda>t. t \<notin> set R) (sleep_task_list s)"
  obtain ys zs where split: "?xs = ys @ zs" and ys: "\<forall>t \<in> set ys. \<not> resumable (woken R s) t"
      and zs: "zs = [] \<or> \<not> due (woken R s) (hd zs)"
    using assms(2) by (auto simp: none_to_wake_def)
  have same: "x \<in> set ?xs \<Longrightarrow> due (woken R s) x = due s x \<and>
      resumable (woken R s) x = resumable s x" for x
    by simp
  have sorted: "sorted_wrt (wakes_before s (current_tick s)) (ys @ zs)"
    using assms(1) unfolding split [symmetric] sleep_inv_def by (simp add: sorted_wrt_filter)
  have win: "set (ys @ zs) \<subseteq> window s (current_tick s)"
    using assms(1) unfolding split [symmetric] sleep_inv_def by auto
  have "t \<in> set (ys @ zs)" using assms(3,4) split by (metis (mono_tags, lifting) filter_set
      Set.filter_eq mem_Collect_eq)
  then consider "t \<in> set ys" | z zs' where "zs = z # zs'" "t = z \<or> t \<in> set zs'"
    by (cases zs) auto
  then show ?thesis
  proof cases
    case 1
    then show ?thesis using ys same [of t] split by auto
  next
    case 2
    then have "\<not> due s z" using zs same [of z] split by auto
    moreover have "t = z \<or> wakes_before s (current_tick s) z t"
      using 2 sorted by (auto simp: sorted_wrt_append)
    ultimately have "\<not> due s t"
      using not_due_later [of z s t] win 2 by auto
    then show ?thesis by (simp add: resumable_def)
  qed
qed

lemma sleep_process_exact:
  assumes "ready_inv s" and "sleep_inv s"
  shows "sleep_process_system_tick s = Some (woken (filter (resumable s) (sleep_task_list s)) s)"
proof -
  have "distinct (sleep_task_list s)" using assms(2) by (simp add: sleep_inv_def)
  then obtain R where R: "sleep_process_loop s False = Some (woken R s)"
      "R = filter (\<lambda>t. t \<in> set R) (sleep_task_list s)" "\<forall>t \<in> set R. resumable s t"
      "none_to_wake (woken R s)"
    using sleep_process_loop_woken [OF assms(1)] by blast
  have "t \<in> set R \<longleftrightarrow> resumable s t" if "t \<in> set (sleep_task_list s)" for t
    using none_to_wake_sorted [OF assms(2) R(4) that] R(3) by blast
  then have "filter (\<lambda>t. t \<in> set R) (sleep_task_list s) = filter (resumable s) (sleep_task_list s)"
    by (intro filter_cong) auto
  with R show ?thesis by (simp add: sleep_process_system_tick_def)
qed

end
