(* ===== verification/Switch.thy ===== *)
theory Switch
  imports Sleep
begin

text \<open>
  The context switch: \<^verbatim>\<open>scheduler_get_next_task\<close>, \<^verbatim>\<open>scheduler_lock\<close> and
  \<^verbatim>\<open>scheduler_unlock\<close> (\<^verbatim>\<open>scheduler.c\<close>), \<^verbatim>\<open>task_yield\<close> (\<^verbatim>\<open>kernel.c\<close>), \<^verbatim>\<open>sleep_ticks\<close>
  (\<^verbatim>\<open>sleep.c\<close>) and the exception handlers of the Cortex-M3 port
  (\<^verbatim>\<open>port/kernel/cortex-m3/cortex_m3.c\<close>).

  A routine that may give up the processor takes the argument \<open>env\<close>: \<open>env t s\<close> is the
  state in which task \<open>t\<close> gets the processor back after it lost it in state \<open>s\<close>, that is,
  what the other tasks and the interrupts do in between. The assembler that saves and loads
  registers is left out, its effect is that the routine continues in its own context.
\<close>

type_synonym 'z env = "tid \<Rightarrow> 'z kstate_scheme \<Rightarrow> 'z kstate_scheme option"

section \<open>The switch\<close>

definition scheduler_get_next_task :: "'z kstate_scheme \<Rightarrow> (tid \<times> 'z kstate_scheme) option" where
  "scheduler_get_next_task s = do {
     s \<leftarrow> sleep_process_system_tick s;
     let (tcb, q) = seq_pop (sch_ready_task_list s);
     let s = s\<lparr>sch_ready_task_list := q\<rparr>;
     ASSERT (tcb = None);
     tcb \<leftarrow> tcb;
     Some (tcb, s)
   }"

text \<open>The PendSV exception; taking it clears its pending bit.\<close>

definition isr_pendsv_handle :: "'z kstate_scheme \<Rightarrow> 'z kstate_scheme option" where
  "isr_pendsv_handle s = do {
     let s = s\<lparr>pend_sv := False\<rparr>;
     tcb \<leftarrow> current_task s;
     s \<leftarrow> (if state (tasks s tcb) = TASK_RUNNING
           then scheduler_task_yield tcb YIELD_SYSTEM s
           else if state (tasks s tcb) = TASK_TO_BE_SUSPENDED
           then Some (upd_task tcb (\<lambda>t. t\<lparr>state := TASK_SUSPENDED\<rparr>) s)
           else Some s);
     (next_task, s) \<leftarrow> scheduler_get_next_task s;
     let s = s\<lparr>current_task := Some next_task\<rparr>;
     Some (upd_task next_task (\<lambda>t. t\<lparr>state := TASK_RUNNING\<rparr>) s)
   }"

text \<open>
  \<^verbatim>\<open>PEND_SV\<close> from an interrupt (\<^verbatim>\<open>return_task\<close> is set there) leaves the exception pending;
  from a task, with interrupts enabled, the exception is taken at once.
\<close>

definition PEND_SV :: "'z env \<Rightarrow> 'z kstate_scheme \<Rightarrow> 'z kstate_scheme option" where
  "PEND_SV env s = do {
     let s = s\<lparr>pend_sv := True\<rparr>;
     (if return_task s \<noteq> None then Some s
      else do {
        tcb \<leftarrow> current_task s;
        s \<leftarrow> isr_pendsv_handle s;
        (if current_task s = Some tcb then Some s else env tcb s)
      })
   }"

text \<open>
  \<open>control_to_system_irq irq\<close> is \<^verbatim>\<open>control_to_system\<close> with the interrupts that are taken after
  it has enabled them and before it requests the switch; in \<open>control_to_system\<close> there are none.
\<close>

definition control_to_system_irq ::
    "('z kstate_scheme \<Rightarrow> 'z kstate_scheme option) \<Rightarrow> 'z env \<Rightarrow> 'z kstate_scheme \<Rightarrow>
     'z kstate_scheme option" where
  "control_to_system_irq irq env s = do {
     let int_level = sys_interrupt_level s;
     let s = ENABLE_INTERRUPTS s;
     s \<leftarrow> (if sys_interrupt_level s then irq s else Some s);
     s \<leftarrow> PEND_SV env s;
     Some (SET_INTERRUPT_LEVEL int_level s)
   }"

definition control_to_system :: "'z env \<Rightarrow> 'z kstate_scheme \<Rightarrow> 'z kstate_scheme option" where
  "control_to_system env s = control_to_system_irq Some env s"

lemma control_to_system_eq:
  "control_to_system env s = do {
     let int_level = sys_interrupt_level s;
     let s = ENABLE_INTERRUPTS s;
     s \<leftarrow> PEND_SV env s;
     Some (SET_INTERRUPT_LEVEL int_level s)
   }"
  by (simp add: control_to_system_def control_to_system_irq_def)

definition isr_sysclock_handle :: "'z kstate_scheme \<Rightarrow> 'z kstate_scheme option" where
  "isr_sysclock_handle s = do {
     let s = DISABLE_INTERRUPTS s;
     let (trigger, s) = process_system_tick s;
     s \<leftarrow> (if trigger then do {
             tcb \<leftarrow> current_task s;
             (if lock_count (tasks s tcb) = 0
              then do {
                ASSERT (state (tasks s tcb) \<noteq> TASK_RUNNING);
                Some (s\<lparr>pend_sv := True\<rparr>)
              }
              else Some (upd_task tcb (\<lambda>t. t\<lparr>flags := flags t OR TASK_SCHED_DRIFT\<rparr>) s))
           }
           else Some s);
     Some (ENABLE_INTERRUPTS s)
   }"

text \<open>The entry and the exit of an interrupt routine (\<^verbatim>\<open>kernel.h\<close>).\<close>

definition ISR_ENTER :: "'z kstate_scheme \<Rightarrow> 'z kstate_scheme" where
  "ISR_ENTER s = s\<lparr>return_task := current_task s, current_task := None\<rparr>"

definition ISR_EXIT :: "'z kstate_scheme \<Rightarrow> 'z kstate_scheme" where
  "ISR_EXIT s = s\<lparr>current_task := return_task s, return_task := None\<rparr>"

text \<open>The start of the first task, up to the service call that loads its context.\<close>

definition run_first_task :: "'z kstate_scheme \<Rightarrow> 'z kstate_scheme option" where
  "run_first_task s = do {
     let s = s\<lparr>sys_interrupt_level := False\<rparr>;
     (tcb, s) \<leftarrow> scheduler_get_next_task s;
     let s = s\<lparr>current_task := Some tcb\<rparr>;
     let s = upd_task tcb (\<lambda>t. t\<lparr>state := TASK_RUNNING\<rparr>) s;
     Some (s\<lparr>sys_interrupt_level := True\<rparr>)
   }"

section \<open>Yielding and locking\<close>

definition task_yield :: "'z env \<Rightarrow> 'z kstate_scheme \<Rightarrow> 'z kstate_scheme option" where
  "task_yield env s = do {
     let in_isr = (current_task s = None);
     s \<leftarrow> (if in_isr then do {
             ASSERT (return_task s = None);
             Some (s\<lparr>current_task := return_task s\<rparr>)
           }
           else Some s);
     tcb \<leftarrow> current_task s;
     s \<leftarrow> (if lock_count (tasks s tcb) = 0 then do {
             let interrupt_level = sys_interrupt_level s;
             let s = DISABLE_INTERRUPTS s;
             s \<leftarrow> control_to_system env s;
             Some (SET_INTERRUPT_LEVEL interrupt_level s)
           }
           else Some (upd_task tcb (\<lambda>t. t\<lparr>flags := flags t OR TASK_SCHED_DRIFT\<rparr>) s));
     Some (if in_isr then s\<lparr>return_task := current_task s, current_task := None\<rparr> else s)
   }"

definition scheduler_lock :: "'z kstate_scheme \<Rightarrow> 'z kstate_scheme option" where
  "scheduler_lock s =
     (case current_task s of
        None \<Rightarrow> Some s
      | Some tcb \<Rightarrow> do {
          ASSERT (lock_count (tasks s tcb) \<ge> SCHEDULER_MAX_LOCK);
          Some (upd_task tcb (\<lambda>t. t\<lparr>lock_count := lock_count t + 1\<rparr>) s)
        })"

definition scheduler_unlock :: "'z env \<Rightarrow> 'z kstate_scheme \<Rightarrow> 'z kstate_scheme option" where
  "scheduler_unlock env s =
     (case current_task s of
        None \<Rightarrow> Some s
      | Some tcb \<Rightarrow> do {
          ASSERT (lock_count (tasks s tcb) = 0);
          let s = upd_task tcb (\<lambda>t. t\<lparr>lock_count := lock_count t - 1\<rparr>) s;
          (if lock_count (tasks s tcb) = 0 \<and> flags (tasks s tcb) AND TASK_SCHED_DRIFT \<noteq> 0
           then do {
             let s = upd_task tcb (\<lambda>t. t\<lparr>flags := flags t AND NOT TASK_SCHED_DRIFT\<rparr>) s;
             task_yield env s
           }
           else Some s)
        })"

definition scheduler_task_remove ::
    "'z env \<Rightarrow> tid \<Rightarrow> 'z kstate_scheme \<Rightarrow> 'z kstate_scheme option" where
  "scheduler_task_remove env tcb s = do {
     s \<leftarrow> scheduler_lock s;
     ASSERT (state (tasks s tcb) \<noteq> TASK_FINISHED);
     scheduler_unlock env s
   }"

definition sleep_ticks :: "'z env \<Rightarrow> u32 \<Rightarrow> 'z kstate_scheme \<Rightarrow> 'z kstate_scheme option" where
  "sleep_ticks env ticks s = do {
     let tcb = current_task s;
     ASSERT (tcb = None);
     tcb \<leftarrow> tcb;
     s \<leftarrow> scheduler_lock s;
     s \<leftarrow> sleep_add_to_list tcb ticks s;
     let interrupt_level = sys_interrupt_level s;
     let s = DISABLE_INTERRUPTS s;
     let s = upd_task tcb (\<lambda>t. t\<lparr>state := TASK_TO_BE_SUSPENDED\<rparr>) s;
     s \<leftarrow> control_to_system env s;
     let s = SET_INTERRUPT_LEVEL interrupt_level s;
     scheduler_unlock env s
   }"

end
