(* ===== verification/Kernel.thy ===== *)
theory Kernel
  imports Switch
begin

text \<open>
  The kernel as a state machine. \<open>kstep\<close> collects what can happen to the state shared by the
  tasks: the system tick, the PendSV exception, and the atomic parts of the routines the
  running task calls. \<open>kernel_inv\<close> is the invariant of these steps. Under it a context
  switch never fails an assertion, picks the most urgent task, and does not take the processor
  from a task that has locked the scheduler. \<open>others t\<close> says what may happen from the moment
  task \<open>t\<close> loses the processor until it has it again.
\<close>

section \<open>The invariant\<close>

definition kernel_inv :: "'z kstate_scheme \<Rightarrow> bool" where
  "kernel_inv s \<longleftrightarrow>
     ready_inv s \<and> distinct (sleep_task_list s) \<and> return_task s = None \<and>
     (\<exists>c. current_task s = Some c \<and>
        (is_ready (state (tasks s c)) \<longrightarrow> c \<in> set (sch_ready_task_list s)) \<and>
        (pend_sv s \<longrightarrow> lock_count (tasks s c) = 0 \<or> state (tasks s c) \<noteq> TASK_RUNNING)) \<and>
     (\<forall>t. state (tasks s t) = TASK_RUNNING \<longrightarrow> current_task s = Some t) \<and>
     idle_task \<notin> set (sleep_task_list s) \<and>
     (idle_task \<in> set (sch_ready_task_list s) \<or> state (tasks s idle_task) = TASK_RUNNING) \<and>
     priority (tasks s idle_task) = SCHEDULER_MAX_PRI + 1 \<and>
     (\<forall>t. t \<noteq> idle_task \<longrightarrow> priority (tasks s t) \<le> SCHEDULER_MAX_PRI)"

lemma kernel_invD:
  assumes "kernel_inv s"
  shows "ready_inv s" and "distinct (sleep_task_list s)" and "return_task s = None"
    and "idle_task \<notin> set (sleep_task_list s)"
    and "priority (tasks s idle_task) = SCHEDULER_MAX_PRI + 1"
  using assms by (simp_all add: kernel_inv_def)

lemma kernel_inv_only_running:
  "kernel_inv s \<Longrightarrow> state (tasks s t) = TASK_RUNNING \<Longrightarrow> current_task s = Some t"
  unfolding kernel_inv_def by blast

lemma kernel_inv_running_unique:
  "kernel_inv s \<Longrightarrow> current_task s = Some c \<Longrightarrow> state (tasks s t) = TASK_RUNNING \<Longrightarrow> t = c"
  by (drule (1) kernel_inv_only_running) simp

lemma kernel_inv_idle:
  "kernel_inv s \<Longrightarrow>
   idle_task \<in> set (sch_ready_task_list s) \<or> state (tasks s idle_task) = TASK_RUNNING"
  unfolding kernel_inv_def by blast

lemma kernel_inv_priority:
  "kernel_inv s \<Longrightarrow> t \<noteq> idle_task \<Longrightarrow> priority (tasks s t) \<le> SCHEDULER_MAX_PRI"
  unfolding kernel_inv_def by blast

lemma kernel_inv_current:
  assumes "kernel_inv s" and "current_task s = Some c"
  shows "is_ready (state (tasks s c)) \<Longrightarrow> c \<in> set (sch_ready_task_list s)"
    and "pend_sv s \<Longrightarrow> lock_count (tasks s c) = 0 \<or> state (tasks s c) \<noteq> TASK_RUNNING"
  using assms unfolding kernel_inv_def by (metis option.inject)+

lemma kernel_inv_pend:
  "\<lbrakk>kernel_inv s; current_task s = Some c; pend_sv s; state (tasks s c) = TASK_RUNNING\<rbrakk> \<Longrightarrow>
   lock_count (tasks s c) = 0"
  using kernel_inv_current(2) by blast

text \<open>What a switch does to the task that loses the processor.\<close>

definition put_back :: "tid \<Rightarrow> 'z kstate_scheme \<Rightarrow> 'z kstate_scheme" where
  "put_back c s =
     (if state (tasks s c) = TASK_RUNNING
      then (upd_task c (resumed_task YIELD_SYSTEM) s)
             \<lparr>sch_ready_task_list := ins (scheduler_task_sort s) c (sch_ready_task_list s)\<rparr>
      else if state (tasks s c) = TASK_TO_BE_SUSPENDED
      then upd_task c (\<lambda>t. t\<lparr>state := TASK_SUSPENDED\<rparr>) s
      else s)"

lemma put_back_sel [simp]:
  "sleep_task_list (put_back c s) = sleep_task_list s"
  "current_tick (put_back c s) = current_tick s"
  "current_task (put_back c s) = current_task s"
  "return_task (put_back c s) = return_task s"
  "pend_sv (put_back c s) = pend_sv s"
  "sys_interrupt_level (put_back c s) = sys_interrupt_level s"
  "suspends (put_back c s) = suspends s"
  "conds (put_back c s) = conds s"
  "sems (put_back c s) = sems s"
  "priority (tasks (put_back c s) t) = priority (tasks s t)"
  "lock_count (tasks (put_back c s) t) = lock_count (tasks s t)"
  "t \<noteq> c \<Longrightarrow> tasks (put_back c s) t = tasks s t"
  "set (sch_ready_task_list (put_back c s)) =
     (if state (tasks s c) = TASK_RUNNING then insert c (set (sch_ready_task_list s))
      else set (sch_ready_task_list s))"
  by (simp_all add: put_back_def)

lemma not_is_ready [simp]:
  "\<not> is_ready TASK_RUNNING" "\<not> is_ready TASK_TO_BE_SUSPENDED" "\<not> is_ready TASK_SUSPENDED"
  "\<not> is_ready TASK_FINISHED" "is_ready TASK_RESUME" "is_ready TASK_SLEEP_RESUME"
  by (simp_all add: is_ready_def)

lemma put_back_ready_inv:
  assumes "ready_inv s"
  shows "ready_inv (put_back c s)"
proof (cases "state (tasks s c) = TASK_RUNNING")
  case True
  then have "c \<notin> set (sch_ready_task_list s)" using assms by (auto simp: ready_inv_def)
  then have "scheduler_task_yield c YIELD_SYSTEM s = Some (put_back c s)"
    using True by (simp add: scheduler_task_yield_eq put_back_def)
  then show ?thesis using assms scheduler_task_yield_ready_inv by blast
next
  case False
  then show ?thesis using assms by (auto simp: ready_inv_def put_back_def)
qed

lemma ready_inv_other [simp]:
  "ready_inv (s\<lparr>pend_sv := b\<rparr>) = ready_inv s"
  "ready_inv (s\<lparr>current_task := c\<rparr>) = ready_inv s"
  "ready_inv (s\<lparr>sys_interrupt_level := b\<rparr>) = ready_inv s"
  "ready_inv (s\<lparr>sleep_task_list := q\<rparr>) = ready_inv s"
  "ready_inv (s\<lparr>current_tick := k\<rparr>) = ready_inv s"
  "ready_inv (upd_cond i g s) = ready_inv s"
  "ready_inv (upd_suspend p h s) = ready_inv s"
  by (simp_all add: ready_inv_def)

text \<open>A switch hands the processor from \<open>c\<close> to \<open>n\<close>, after the tasks \<open>R\<close> have been woken.\<close>

definition switched :: "tid list \<Rightarrow> tid \<Rightarrow> 'z kstate_scheme \<Rightarrow> 'z kstate_scheme" where
  "switched R n s =
     upd_task n (\<lambda>t. t\<lparr>state := TASK_RUNNING\<rparr>)
       ((woken R s)\<lparr>sch_ready_task_list := tl (sch_ready_task_list (woken R s)), current_task := Some n\<rparr>)"

lemma scheduler_get_next_task_eq:
  assumes "sleep_process_system_tick s = Some (woken R s)"
    and "sch_ready_task_list (woken R s) = n # q"
  shows "scheduler_get_next_task s = Some (n, (woken R s)\<lparr>sch_ready_task_list := q\<rparr>)"
  using assms by (simp add: scheduler_get_next_task_def)

lemma isr_pendsv_switched:
  assumes "kernel_inv s" and "current_task s = Some c"
  shows "\<exists>R n q. isr_pendsv_handle s = Some (switched R n (put_back c (s\<lparr>pend_sv := False\<rparr>))) \<and>
    sleep_process_system_tick (put_back c (s\<lparr>pend_sv := False\<rparr>)) =
      Some (woken R (put_back c (s\<lparr>pend_sv := False\<rparr>))) \<and>
    sch_ready_task_list (woken R (put_back c (s\<lparr>pend_sv := False\<rparr>))) = n # q \<and>
    ready_inv (woken R (put_back c (s\<lparr>pend_sv := False\<rparr>))) \<and>
    set R \<subseteq> set (sleep_task_list s) \<and> distinct R \<and>
    (\<forall>t \<in> set R. resumable (put_back c (s\<lparr>pend_sv := False\<rparr>)) t)"
proof -
  let ?s = "s\<lparr>pend_sv := False\<rparr>" and ?p = "put_back c (s\<lparr>pend_sv := False\<rparr>)"
  have rdy: "ready_inv ?s" using kernel_invD(1) [OF assms(1)] by simp
  have new: "state (tasks s c) = TASK_RUNNING \<Longrightarrow> c \<notin> set (sch_ready_task_list s)"
    using rdy by (auto simp: ready_inv_def)
  have "distinct (sleep_task_list ?p)" using kernel_invD(2) [OF assms(1)] by simp
  then obtain R where R: "sleep_process_system_tick ?p = Some (woken R ?p)" "ready_inv (woken R ?p)"
      "set R \<subseteq> set (sleep_task_list ?p)" "distinct R" "\<forall>t \<in> set R. resumable ?p t"
    using sleep_process_system_tick_woken [OF put_back_ready_inv [OF rdy]] by blast
  have "idle_task \<in> set (sch_ready_task_list (woken R ?p))"
  proof (cases "state (tasks s idle_task) = TASK_RUNNING")
    case True
    then have "c = idle_task" using kernel_inv_only_running [OF assms(1)] assms(2) by force
    with True show ?thesis by simp
  next
    case False
    then show ?thesis using kernel_inv_idle [OF assms(1)] by simp
  qed
  then obtain n q where q: "sch_ready_task_list (woken R ?p) = n # q"
    by (cases "sch_ready_task_list (woken R ?p)") auto
  have "(if state (tasks ?s c) = TASK_RUNNING then scheduler_task_yield c YIELD_SYSTEM ?s
     else if state (tasks ?s c) = TASK_TO_BE_SUSPENDED
     then Some (upd_task c (\<lambda>t. t\<lparr>state := TASK_SUSPENDED\<rparr>) ?s) else Some ?s) = Some ?p"
    using new by (simp add: scheduler_task_yield_eq put_back_def)
  moreover have "current_task ?s = Some c" using assms(2) by simp
  ultimately have "isr_pendsv_handle s = do {
      (next_task, s) \<leftarrow> scheduler_get_next_task ?p;
      Some (upd_task next_task (\<lambda>t. t\<lparr>state := TASK_RUNNING\<rparr>) (s\<lparr>current_task := Some next_task\<rparr>)) }"
    unfolding isr_pendsv_handle_def Let_def by (simp only: Option.bind.simps)
  then have "isr_pendsv_handle s = Some (switched R n ?p)"
    using scheduler_get_next_task_eq [OF R(1) q] q by (simp add: switched_def)
  with R q show ?thesis by fastforce
qed

section \<open>Who runs next\<close>

text \<open>The tasks a switch chooses among.\<close>

definition candidates :: "'z kstate_scheme \<Rightarrow> tid set" where
  "candidates s = set (sch_ready_task_list s) \<union>
     {c. current_task s = Some c \<and> state (tasks s c) = TASK_RUNNING} \<union>
     {t \<in> set (sleep_task_list s). due s t \<and>
        (state (tasks s t) = TASK_SUSPENDED \<or>
         (state (tasks s t) = TASK_TO_BE_SUSPENDED \<and> current_task s = Some t))}"

lemma put_back_task:
  "tick_sleep (tasks (put_back c s) t) = tick_sleep (tasks s t)"
  "state (tasks (put_back c s) t) =
     (if t \<noteq> c then state (tasks s t)
      else if state (tasks s c) = TASK_RUNNING then TASK_RESUME
      else if state (tasks s c) = TASK_TO_BE_SUSPENDED then TASK_SUSPENDED
      else state (tasks s c))"
  by (simp_all add: put_back_def resumed_task_def)

lemma put_back_due [simp]:
  "due (put_back c s) = due s" "due (s\<lparr>pend_sv := b\<rparr>) = due s"
  by (simp_all add: due_def fun_eq_iff put_back_task)

lemma sleep_inv_cong:
  assumes "\<And>t. priority (tasks s' t) = priority (tasks s t)"
    and "\<And>t. t \<in> set (sleep_task_list s) \<Longrightarrow> tick_sleep (tasks s' t) = tick_sleep (tasks s t)"
    and "sleep_task_list s' = sleep_task_list s" "current_tick s' = current_tick s"
  shows "sleep_inv s' = sleep_inv s"
proof -
  have w: "t \<in> set (sleep_task_list s) \<Longrightarrow> t \<in> window s' now \<longleftrightarrow> t \<in> window s now" for t now
    using assms(2) by (simp add: window_def)
  have b: "sorted_wrt (wakes_before s' now) (sleep_task_list s) =
      sorted_wrt (wakes_before s now) (sleep_task_list s)" for now
    using assms(1,2) by (intro iffI; elim sorted_wrt_mono_rel [rotated]) (auto simp: wakes_before_def)
  have "set (sleep_task_list s) \<subseteq> window s' now \<longleftrightarrow> set (sleep_task_list s) \<subseteq> window s now" for now
    using w by blast
  then show ?thesis using b assms(3,4) by (simp add: sleep_inv_def)
qed

lemma sleep_inv_put_back [simp]: "sleep_inv (put_back c (s\<lparr>pend_sv := b\<rparr>)) = sleep_inv s"
  by (rule sleep_inv_cong) (simp_all add: put_back_task)

lemma candidates_woken:
  assumes "current_task s = Some c"
  shows "set (sch_ready_task_list (woken (filter (resumable (put_back c (s\<lparr>pend_sv := False\<rparr>)))
    (sleep_task_list s)) (put_back c (s\<lparr>pend_sv := False\<rparr>)))) = candidates s"
  using assms by (auto simp: candidates_def resumable_def put_back_task split: if_splits)

lemma pendsv_next:
  assumes "kernel_inv s" and "sleep_inv s" and "current_task s = Some c"
  shows "\<exists>n q. let p = put_back c (s\<lparr>pend_sv := False\<rparr>);
                   R = filter (resumable p) (sleep_task_list s)
    in isr_pendsv_handle s = Some (switched R n p) \<and>
       sch_ready_task_list (woken R p) = n # q \<and> ready_inv (woken R p) \<and>
       set (n # q) = candidates s"
proof -
  let ?p = "put_back c (s\<lparr>pend_sv := False\<rparr>)"
  obtain R n q where R: "isr_pendsv_handle s = Some (switched R n ?p)"
      "sleep_process_system_tick ?p = Some (woken R ?p)"
      "sch_ready_task_list (woken R ?p) = n # q" "ready_inv (woken R ?p)"
    using isr_pendsv_switched [OF assms(1,3)] by blast
  let ?F = "filter (resumable ?p) (sleep_task_list ?p)"
  have "ready_inv ?p"
    using kernel_invD(1) [OF assms(1)] by (intro put_back_ready_inv) simp
  then have W: "sleep_process_system_tick ?p = Some (woken ?F ?p)"
    using assms(2) by (intro sleep_process_exact) simp_all
  then have eq: "woken R ?p = woken ?F ?p" using R(2) by simp
  then have "switched R n ?p = switched ?F n ?p" by (simp add: switched_def)
  moreover have "set (n # q) = candidates s"
    unfolding candidates_woken [OF assms(3), symmetric] R(3) [symmetric] eq by simp
  ultimately show ?thesis using R eq by (intro exI [of _ n] exI [of _ q]) (simp add: Let_def)
qed

lemma switched_sel [simp]:
  "current_task (switched R n s) = Some n"
  "state (tasks (switched R n s) n) = TASK_RUNNING"
  "priority (tasks (switched R n s) t) = priority (tasks s t)"
  "lock_count (tasks (switched R n s) t) = lock_count (tasks s t)"
  "pend_sv (switched R n s) = pend_sv s"
  "return_task (switched R n s) = return_task s"
  "sys_interrupt_level (switched R n s) = sys_interrupt_level s"
  "current_tick (switched R n s) = current_tick s"
  "suspends (switched R n s) = suspends s"
  "conds (switched R n s) = conds s"
  "sems (switched R n s) = sems s"
  "sleep_task_list (switched R n s) = filter (\<lambda>t. t \<notin> set R) (sleep_task_list s)"
  "t \<noteq> n \<Longrightarrow> tasks (switched R n s) t = tasks (woken R s) t"
  "sch_ready_task_list (switched R n s) = tl (sch_ready_task_list (woken R s))"
  by (simp_all add: switched_def woken_def)

lemma switch_chooses:
  assumes "kernel_inv s" and "sleep_inv s"
  shows "\<exists>s' n. isr_pendsv_handle s = Some s' \<and> current_task s' = Some n \<and>
    state (tasks s' n) = TASK_RUNNING \<and> n \<in> candidates s \<and>
    (\<forall>t \<in> candidates s. priority (tasks s n) \<le> priority (tasks s t)) \<and>
    set (sch_ready_task_list s') = candidates s - {n}"
proof -
  obtain c where c: "current_task s = Some c" using assms(1) by (auto simp only: kernel_inv_def)
  let ?p = "put_back c (s\<lparr>pend_sv := False\<rparr>)"
  let ?R = "filter (resumable ?p) (sleep_task_list s)"
  obtain n q where n: "isr_pendsv_handle s = Some (switched ?R n ?p)"
      "sch_ready_task_list (woken ?R ?p) = n # q" "ready_inv (woken ?R ?p)"
      "set (n # q) = candidates s"
    using pendsv_next [OF assms c] by (auto simp: Let_def)
  have "\<forall>t \<in> set q. priority (tasks s n) \<le> priority (tasks s t)"
    using n(2,3) by (auto simp: ready_inv_def runs_before_def)
  moreover have "n \<notin> set q" using n(2,3) by (simp add: ready_inv_def)
  ultimately show ?thesis using n by (intro exI [of _ "switched ?R n ?p"] exI [of _ n]) auto
qed

section \<open>Taking turns\<close>

lemma hd_ins: "hd (ins before x q) = x \<or> hd (ins before x q) = hd q"
  by (cases q) auto

lemma hd_foldl_ins:
  "q \<noteq> [] \<Longrightarrow> hd (foldl (\<lambda>q t. ins before t q) q ts) \<in> insert (hd q) (set ts)"
proof (induction ts arbitrary: q)
  case (Cons t ts)
  have "hd (foldl (\<lambda>q t. ins before t q) (ins before t q) ts) \<in>
      insert (hd (ins before t q)) (set ts)"
    by (rule Cons.IH) simp
  then show ?case using hd_ins [of before t q] by auto
qed simp

lemma hd_put_back:
  assumes "ready_inv s" and "state (tasks s c) = TASK_RUNNING"
    and "t \<in> set (sch_ready_task_list s)" and "priority (tasks s t) \<le> priority (tasks s c)"
  shows "hd (sch_ready_task_list (put_back c s)) \<noteq> c"
proof -
  let ?before = "filter (\<lambda>x. runs_before s x c) (sch_ready_task_list s)"
  have "sch_ready_task_list (put_back c s) =
      ?before @ c # filter (\<lambda>x. \<not> runs_before s x c) (sch_ready_task_list s)"
    using assms(1,2) by (simp add: put_back_def ready.ins_stable ready_inv_def)
  moreover have "t \<in> set ?before" using assms(3,4) by (simp add: runs_before_def)
  ultimately have "hd (sch_ready_task_list (put_back c s)) = hd ?before" "?before \<noteq> []"
    by (auto simp: hd_append dest: filter_empty_conv [THEN iffD1])
  then have "hd (sch_ready_task_list (put_back c s)) \<in> set (sch_ready_task_list s)"
    using hd_in_set [of ?before] by auto
  then show ?thesis using assms(1,2) by (auto simp: ready_inv_def)
qed

lemma switch_takes_turns:
  assumes "kernel_inv s" and "current_task s = Some c" and "state (tasks s c) = TASK_RUNNING"
    and "t \<in> set (sch_ready_task_list s)" and "priority (tasks s t) \<le> priority (tasks s c)"
  shows "\<exists>s' n. isr_pendsv_handle s = Some s' \<and> current_task s' = Some n \<and> n \<noteq> c"
proof -
  let ?s = "s\<lparr>pend_sv := False\<rparr>"
  let ?p = "put_back c ?s"
  obtain R n q where R: "isr_pendsv_handle s = Some (switched R n ?p)"
      "sch_ready_task_list (woken R ?p) = n # q" "\<forall>t \<in> set R. resumable ?p t"
    using isr_pendsv_switched [OF assms(1,2)] by blast
  have "ready_inv ?s" using kernel_invD(1) [OF assms(1)] by simp
  then have "hd (sch_ready_task_list ?p) \<noteq> c"
    using assms(3-5) hd_put_back [of ?s c t] by simp
  moreover have "c \<notin> set R"
  proof
    assume "c \<in> set R"
    then have "resumable ?p c" using R(3) by blast
    then show False using assms(3) by (simp add: resumable_def put_back_task)
  qed
  moreover have "sch_ready_task_list ?p \<noteq> []" using assms(3) by (simp add: put_back_def)
  then have "n \<in> insert (hd (sch_ready_task_list ?p)) (set R)"
    using hd_foldl_ins [of "sch_ready_task_list ?p" "scheduler_task_sort ?p" R] R(2)
    by (simp add: woken_def)
  ultimately have "n \<noteq> c" by auto
  then show ?thesis using R(1) by (intro exI [of _ "switched R n ?p"] exI [of _ n]) simp
qed

text \<open>Tasks of one priority leave the ready list in the order they were put on it.\<close>

lemma ins_filter_other:
  "\<not> P n \<Longrightarrow> filter P (ins before n xs) = filter P xs"
  by (induction xs) auto

lemma yield_fifo:
  assumes "ready_inv s" and "scheduler_task_yield t frm s = Some s'"
  shows "filter (\<lambda>x. priority (tasks s' x) = k) (sch_ready_task_list s') =
    filter (\<lambda>x. priority (tasks s x) = k) (sch_ready_task_list s) @
    (if priority (tasks s t) = k then [t] else [])"
proof -
  let ?q = "sch_ready_task_list s"
  have q: "sch_ready_task_list s' = ins (scheduler_task_sort s) t ?q"
    and same: "\<And>x. priority (tasks s' x) = priority (tasks s x)"
    using assms(2) by (auto simp: scheduler_task_yield_eq split: if_splits)
  show ?thesis
  proof (cases "priority (tasks s t) = k")
    case False
    then show ?thesis by (simp add: q same ins_filter_other)
  next
    case True
    have "filter (\<lambda>x. priority (tasks s x) = k) (filter (\<lambda>x. \<not> runs_before s x t) ?q) = []"
      using True by (auto simp: filter_empty_conv runs_before_def)
    moreover have "filter (\<lambda>x. priority (tasks s x) = k) (filter (\<lambda>x. runs_before s x t) ?q) =
        filter (\<lambda>x. priority (tasks s x) = k) ?q"
      using True by (auto simp: runs_before_def intro!: filter_cong)
    moreover have "sorted_wrt (runs_before s) ?q" using assms(1) by (simp add: ready_inv_def)
    ultimately show ?thesis using True by (simp add: q same ready.ins_stable)
  qed
qed

section \<open>The tick\<close>

definition tick_triggers :: "'z kstate_scheme \<Rightarrow> bool" where
  "tick_triggers s \<longleftrightarrow> sleep_task_list s \<noteq> [] \<and>
     INT32CMP (current_tick s + 1) (tick_sleep (tasks s (hd (sleep_task_list s)))) \<ge> 0"

lemma process_system_tick_eq:
  "process_system_tick s = (tick_triggers s, s\<lparr>current_tick := current_tick s + 1\<rparr>)"
  by (auto simp: process_system_tick_def tick_triggers_def Let_def split: list.splits)

lemma tick_triggers_other [simp]:
  "tick_triggers (s\<lparr>sys_interrupt_level := b\<rparr>) = tick_triggers s"
  by (simp add: tick_triggers_def)

lemma isr_sysclock_cases:
  assumes "current_task s = Some c"
  shows "isr_sysclock_handle s =
    (let s1 = s\<lparr>current_tick := current_tick s + 1, sys_interrupt_level := True\<rparr> in
     if \<not> tick_triggers s then Some s1
     else if lock_count (tasks s c) \<noteq> 0
       then Some (upd_task c (\<lambda>t. t\<lparr>flags := flags t OR TASK_SCHED_DRIFT\<rparr>) s1)
     else if state (tasks s c) = TASK_RUNNING then Some (s1\<lparr>pend_sv := True\<rparr>)
     else None)"
  using assms
  by (simp add: isr_sysclock_handle_def process_system_tick_eq int_level_defs upd_task_def Let_def)

lemma due_triggers:
  assumes "sleep_inv s" and "t \<in> set (sleep_task_list s)"
    and "INT32CMP (current_tick s + 1) (tick_sleep (tasks s t)) \<ge> 0"
  shows "tick_triggers s"
proof -
  obtain h q where q: "sleep_task_list s = h # q"
    using assms(2) by (cases "sleep_task_list s") auto
  let ?d = "\<lambda>x. INT32CMP (tick_sleep (tasks s x)) (current_tick s)"
  have win: "x \<in> set (sleep_task_list s) \<Longrightarrow> - (2 ^ 30) \<le> ?d x \<and> ?d x < 2 ^ 30" for x
    using assms(1) by (auto simp: sleep_inv_def window_def)
  have one: "INT32CMP (current_tick s + 1) (current_tick s) = 1" by (simp add: INT32CMP_def)
  have rel: "x \<in> set (sleep_task_list s) \<Longrightarrow>
      INT32CMP (current_tick s + 1) (tick_sleep (tasks s x)) = 1 - ?d x" for x
    using win [of x] one INT32CMP_relative [of "current_tick s + 1" "current_tick s"
        "tick_sleep (tasks s x)"] by simp
  have "?d h \<le> ?d t"
    using assms(1,2) q by (auto simp: sleep_inv_def wakes_before_def)
  then show ?thesis
    using assms(2,3) rel [of t] rel [of h] q by (simp add: tick_triggers_def)
qed

end
