(* ===== verification/KSteps.thy ===== *)
theory KSteps
  imports Kernel
begin

text \<open>
  The kernel as a state machine: the step relation, the invariant over all reachable states,
  and what the steps of the other tasks and the interrupts keep of a task that has lost the
  processor. The routines of the running task are made of these steps (the last section), so
  the relation \<open>others\<close> is both what a blocked routine may rely on and what the routines
  guarantee.
\<close>

section \<open>Steps\<close>

text \<open>Task \<open>c\<close> has the processor and no switch is due.\<close>

definition on_cpu :: "'z kstate_scheme \<Rightarrow> tid \<Rightarrow> bool" where
  "on_cpu s c \<longleftrightarrow> current_task s = Some c \<and> state (tasks s c) = TASK_RUNNING \<and> \<not> pend_sv s"

text \<open>A suspend structure of task \<open>t\<close> is queued on some condition.\<close>

definition queued :: "'z kstate_scheme \<Rightarrow> tid \<Rightarrow> bool" where
  "queued s t \<longleftrightarrow> (\<exists>i. \<exists>p \<in> set (suspend_list (conds s i)). s_task (suspends s p) = Some t)"

text \<open>Steps that do not concern scheduling: only the data of task \<open>c\<close> and of other objects change.\<close>

definition data_step :: "tid \<Rightarrow> 'z kstate_scheme \<Rightarrow> 'z kstate_scheme \<Rightarrow> bool" where
  "data_step c s s' \<longleftrightarrow>
     sch_ready_task_list s' = sch_ready_task_list s \<and> sleep_task_list s' = sleep_task_list s \<and>
     current_tick s' = current_tick s \<and> current_task s' = current_task s \<and>
     return_task s' = return_task s \<and> pend_sv s' = pend_sv s \<and>
     (\<forall>t. t \<noteq> c \<longrightarrow> tasks s' t = tasks s t) \<and>
     (\<exists>d n f. tasks s' c = (tasks s c)\<lparr>suspend_data := d, num_conditions := n, flags := f\<rparr>) \<and>
     (\<forall>t. t \<noteq> c \<longrightarrow> queued s' t \<longrightarrow> queued s t)"

inductive kstep :: "'z kstate_scheme \<Rightarrow> 'z kstate_scheme \<Rightarrow> bool" where
  tick: "\<lbrakk>sys_interrupt_level s; current_task s = Some c; isr_sysclock_handle s = Some s'\<rbrakk> \<Longrightarrow> kstep s s'"
| switch: "\<lbrakk>pend_sv s; sys_interrupt_level s; current_task s = Some c; isr_pendsv_handle s = Some s'\<rbrakk> \<Longrightarrow> kstep s s'"
| request: "\<lbrakk>current_task s = Some c; lock_count (tasks s c) = 0 \<or> state (tasks s c) \<noteq> TASK_RUNNING\<rbrakk> \<Longrightarrow>
    kstep s (s\<lparr>sys_interrupt_level := True, pend_sv := True\<rparr>)"
| lock: "\<lbrakk>on_cpu s c; scheduler_lock s = Some s'\<rbrakk> \<Longrightarrow> kstep s s'"
| unlock: "\<lbrakk>on_cpu s c; lock_count (tasks s c) \<noteq> 0\<rbrakk> \<Longrightarrow>
    kstep s (upd_task c (\<lambda>t. t\<lparr>lock_count := lock_count t - 1\<rparr>) s)"
| sleep_on: "\<lbrakk>on_cpu s c; c \<noteq> idle_task; sleep_add_to_list c n s = Some s'\<rbrakk> \<Longrightarrow> kstep s s'"
| sleep_off: "\<lbrakk>on_cpu s c; sleep_remove_from_list c s = Some s'\<rbrakk> \<Longrightarrow> kstep s s'"
| suspend: "\<lbrakk>on_cpu s c; c \<noteq> idle_task; lock_count (tasks s c) \<noteq> 0\<rbrakk> \<Longrightarrow>
    kstep s (upd_task c (\<lambda>t. t\<lparr>state := TASK_TO_BE_SUSPENDED\<rparr>) s)"
| resume: "\<lbrakk>current_task s = Some c; p \<in> set (suspend_list (conds s i)); s_task (suspends s p) = Some t;
     state (tasks s t) = TASK_SUSPENDED \<or> state (tasks s t) = TASK_TO_BE_SUSPENDED;
     scheduler_task_yield t YIELD_SYSTEM
       (upd_task t (\<lambda>x. x\<lparr>suspend_data := SD_condition i\<rparr>)
         (upd_suspend p (\<lambda>x. x\<lparr>status := st, may_resume := True\<rparr>)
           (upd_cond i (\<lambda>x. x\<lparr>suspend_list := remove1 p (suspend_list x)\<rparr>) s))) = Some s'\<rbrakk> \<Longrightarrow>
    kstep s s'"
| finish: "\<lbrakk>on_cpu s c; c \<noteq> idle_task\<rbrakk> \<Longrightarrow>
    kstep s (upd_task c (\<lambda>t. t\<lparr>state := TASK_FINISHED\<rparr>) s)"
| add: "\<lbrakk>on_cpu s c; t \<noteq> c; t \<noteq> idle_task; state (tasks s t) = TASK_FINISHED;
     t \<notin> set (sleep_task_list s); scheduler_task_add t pri s = Some s'\<rbrakk> \<Longrightarrow> kstep s s'"
| data: "\<lbrakk>on_cpu s c; data_step c s s'\<rbrakk> \<Longrightarrow> kstep s s'"

inductive_cases kstepE: "kstep s s'"

text \<open>
  The invariant splits into the part about lists and the part about single fields, so that
  each step has to deal only with what it changes.
\<close>

lemma ready_inv_cong:
  assumes "sch_ready_task_list s' = sch_ready_task_list s"
    and "\<And>t. t \<in> set (sch_ready_task_list s) \<Longrightarrow> priority (tasks s' t) = priority (tasks s t)"
    and "\<And>t. t \<in> set (sch_ready_task_list s) \<Longrightarrow> is_ready (state (tasks s t)) \<Longrightarrow> is_ready (state (tasks s' t))"
    and "ready_inv s"
  shows "ready_inv s'"
proof -
  have "sorted_wrt (runs_before s') (sch_ready_task_list s)"
    using assms(2,4) sorted_wrt_mono_rel [of "sch_ready_task_list s" "runs_before s" "runs_before s'"]
    by (simp add: ready_inv_def runs_before_def)
  with assms show ?thesis by (auto simp: ready_inv_def)
qed

lemma kernel_invI:
  assumes "ready_inv s" "distinct (sleep_task_list s)" "return_task s = None"
    and "current_task s = Some c"
    and "is_ready (state (tasks s c)) \<Longrightarrow> c \<in> set (sch_ready_task_list s)"
    and "pend_sv s \<Longrightarrow> lock_count (tasks s c) = 0 \<or> state (tasks s c) \<noteq> TASK_RUNNING"
    and "\<And>t. state (tasks s t) = TASK_RUNNING \<Longrightarrow> t = c"
    and "idle_task \<notin> set (sleep_task_list s)"
    and "idle_task \<in> set (sch_ready_task_list s) \<or> state (tasks s idle_task) = TASK_RUNNING"
    and "priority (tasks s idle_task) = SCHEDULER_MAX_PRI + 1"
    and "\<And>t. t \<noteq> idle_task \<Longrightarrow> priority (tasks s t) \<le> SCHEDULER_MAX_PRI"
  shows "kernel_inv s"
  unfolding kernel_inv_def using assms by blast

lemma on_cpu_not_ready:
  "kernel_inv s \<Longrightarrow> on_cpu s c \<Longrightarrow> c \<notin> set (sch_ready_task_list s)"
  using kernel_invD(1) [of s] by (auto simp: on_cpu_def ready_inv_def)

lemma upd_task_cpu_inv:
  assumes inv: "kernel_inv s" and cpu: "on_cpu s c"
    and pri: "priority (f (tasks s c)) = priority (tasks s c)"
    and st: "state (f (tasks s c)) = TASK_RUNNING \<or>
             (c \<noteq> idle_task \<and> \<not> is_ready (state (f (tasks s c))))"
  shows "kernel_inv (upd_task c f s)"
proof (rule kernel_invI [where c = c])
  note new = on_cpu_not_ready [OF inv cpu]
  show "ready_inv (upd_task c f s)"
    using kernel_invD(1) [OF inv] by (rule ready_inv_cong [rotated -1]) (use new pri in auto)
  show "is_ready (state (tasks (upd_task c f s) c)) \<Longrightarrow> c \<in> set (sch_ready_task_list (upd_task c f s))"
    using st by auto
  show "pend_sv (upd_task c f s) \<Longrightarrow> lock_count (tasks (upd_task c f s) c) = 0 \<or>
      state (tasks (upd_task c f s) c) \<noteq> TASK_RUNNING"
    using cpu by (simp add: on_cpu_def)
  show "\<And>t. state (tasks (upd_task c f s) t) = TASK_RUNNING \<Longrightarrow> t = c"
    using kernel_inv_running_unique [OF inv] cpu by (metis fun_upd_other on_cpu_def upd_task_sel(1))
  show "idle_task \<in> set (sch_ready_task_list (upd_task c f s)) \<or>
      state (tasks (upd_task c f s) idle_task) = TASK_RUNNING"
    using kernel_inv_idle [OF inv] st new by auto
  show "priority (tasks (upd_task c f s) t) \<le> SCHEDULER_MAX_PRI" if "t \<noteq> idle_task" for t
    using kernel_inv_priority [OF inv that] pri by (cases "t = c") simp_all
  show "priority (tasks (upd_task c f s) idle_task) = SCHEDULER_MAX_PRI + 1"
    using kernel_invD(5) [OF inv] pri by (cases "c = idle_task") simp_all
qed (use kernel_invD(2-4) [OF inv] cpu in \<open>simp_all add: on_cpu_def\<close>)

text \<open>Steps that keep the scheduling fields of every task and the lists.\<close>

lemma kernel_inv_cong:
  assumes inv: "kernel_inv s"
    and "sch_ready_task_list s' = sch_ready_task_list s" "sleep_task_list s' = sleep_task_list s"
      "current_task s' = current_task s" "return_task s' = return_task s"
    and "\<And>t. state (tasks s' t) = state (tasks s t)"
      "\<And>t. priority (tasks s' t) = priority (tasks s t)"
    and "\<And>c. current_task s = Some c \<Longrightarrow> pend_sv s' \<Longrightarrow>
      lock_count (tasks s' c) = 0 \<or> state (tasks s c) \<noteq> TASK_RUNNING"
  shows "kernel_inv s'"
proof -
  obtain c where c: "current_task s = Some c" using inv by (auto simp only: kernel_inv_def)
  show ?thesis
  proof (rule kernel_invI [where c = c])
    show "ready_inv s'"
      using assms kernel_invD(1) [OF inv] by (intro ready_inv_cong [of s' s]) auto
    show "\<And>t. state (tasks s' t) = TASK_RUNNING \<Longrightarrow> t = c"
      using kernel_inv_running_unique [OF inv c] assms(6) by simp
    show "is_ready (state (tasks s' c)) \<Longrightarrow> c \<in> set (sch_ready_task_list s')"
      using kernel_inv_current(1) [OF inv c] assms(2,6) by simp
  qed (use assms(2-8) c kernel_invD [OF inv] kernel_inv_idle [OF inv] kernel_inv_priority [OF inv]
       in simp_all)
qed

text \<open>Making a task ready.\<close>

lemma yield_kernel_inv:
  assumes inv: "kernel_inv s" and y: "scheduler_task_yield t frm s = Some s'"
    and st: "state (tasks s t) \<noteq> TASK_RUNNING"
  shows "kernel_inv s'"
proof -
  have new: "t \<notin> set (sch_ready_task_list s)"
    and s': "s' = (upd_task t (resumed_task frm) s)\<lparr>sch_ready_task_list :=
             ins (scheduler_task_sort s) t (sch_ready_task_list s)\<rparr>"
    using y by (auto simp: scheduler_task_yield_eq split: if_splits)
  obtain c where c: "current_task s = Some c" using inv by (auto simp only: kernel_inv_def)
  have nr: "state (resumed_task frm (tasks s t)) \<noteq> TASK_RUNNING"
    by (simp add: resumed_task_def split: yield_from.splits)
  show ?thesis
  proof (rule kernel_invI [where c = c])
    show "ready_inv s'" using kernel_invD(1) [OF inv] y by (rule scheduler_task_yield_ready_inv)
    show "\<And>x. state (tasks s' x) = TASK_RUNNING \<Longrightarrow> x = c"
      using kernel_inv_running_unique [OF inv c] nr by (simp add: s' split: if_splits)
    show "is_ready (state (tasks s' c)) \<Longrightarrow> c \<in> set (sch_ready_task_list s')"
      using kernel_inv_current(1) [OF inv c] by (cases "c = t") (auto simp: s')
    show "pend_sv s' \<Longrightarrow> lock_count (tasks s' c) = 0 \<or> state (tasks s' c) \<noteq> TASK_RUNNING"
      using kernel_inv_current(2) [OF inv c] nr by (auto simp: s')
    show "idle_task \<in> set (sch_ready_task_list s') \<or> state (tasks s' idle_task) = TASK_RUNNING"
      using kernel_inv_idle [OF inv] st by (auto simp: s')
    show "priority (tasks s' x) \<le> SCHEDULER_MAX_PRI" if "x \<noteq> idle_task" for x
      using kernel_inv_priority [OF inv that] by (cases "x = t") (simp_all add: s')
  qed (use c kernel_invD(2-5) [OF inv] in \<open>simp_all add: s'\<close>)
qed

text \<open>The switch.\<close>

lemma switched_kernel_inv:
  assumes inv: "kernel_inv s" and c: "current_task s = Some c"
    and s': "isr_pendsv_handle s = Some s'"
  shows "kernel_inv s'"
proof -
  let ?s = "s\<lparr>pend_sv := False\<rparr>"
  let ?p = "put_back c ?s"
  obtain R n q where eq: "isr_pendsv_handle s = Some (switched R n ?p)"
      and q: "sch_ready_task_list (woken R ?p) = n # q" and rdy: "ready_inv (woken R ?p)"
      and R: "set R \<subseteq> set (sleep_task_list s)" "\<forall>t \<in> set R. resumable ?p t"
    using isr_pendsv_switched [OF inv c] by blast
  have s'_eq: "s' = switched R n ?p" using eq s' by simp
  have nq: "n \<notin> set q" using rdy q by (simp add: ready_inv_def)
  have W: "x \<in> set (n # q) \<longleftrightarrow> x \<in> set (sch_ready_task_list ?p) \<or> x \<in> set R" for x
    using q by (metis Un_iff woken_sel(9))
  have notrun: "state (tasks (woken R ?p) x) \<noteq> TASK_RUNNING" for x
  proof (cases "x \<in> set R")
    case True
    then show ?thesis by (simp add: resumed_task_def)
  next
    case False
    then show ?thesis
      using kernel_inv_running_unique [OF inv c, of x] by (auto simp: put_back_task)
  qed
  show ?thesis unfolding s'_eq
  proof (rule kernel_invI [where c = n])
    show "ready_inv (switched R n ?p)"
    proof (rule ready_inv_cong [where s = "(woken R ?p)\<lparr>sch_ready_task_list := q\<rparr>"])
      show "ready_inv (woken R ?p\<lparr>sch_ready_task_list := q\<rparr>)"
        using rdy q by (simp add: ready_inv_def)
      show "is_ready (state (tasks (switched R n ?p) t))"
        if "t \<in> set (sch_ready_task_list (woken R ?p\<lparr>sch_ready_task_list := q\<rparr>))"
          "is_ready (state (tasks (woken R ?p\<lparr>sch_ready_task_list := q\<rparr>) t))" for t
        using that nq by (cases "t = n") auto
    qed (use q in simp_all)
    show "\<And>t. state (tasks (switched R n ?p) t) = TASK_RUNNING \<Longrightarrow> t = n"
      using notrun by (metis switched_sel(13))
    show "idle_task \<in> set (sch_ready_task_list (switched R n ?p)) \<or>
        state (tasks (switched R n ?p) idle_task) = TASK_RUNNING"
    proof (cases "idle_task = n")
      case False
      have "idle_task \<in> set (sch_ready_task_list ?p)"
        using kernel_inv_idle [OF inv] kernel_inv_running_unique [OF inv c, of idle_task] by auto
      then show ?thesis using False W [of idle_task] q by auto
    qed simp
    show "priority (tasks (switched R n ?p) t) \<le> SCHEDULER_MAX_PRI" if "t \<noteq> idle_task" for t
      using kernel_inv_priority [OF inv that] by simp
  qed (use kernel_invD(2-5) [OF inv] in \<open>simp_all\<close>)
qed

text \<open>The tick.\<close>

lemma tick_kernel_inv:
  assumes inv: "kernel_inv s" and c: "current_task s = Some c"
    and s': "isr_sysclock_handle s = Some s'"
  shows "kernel_inv s'"
proof (rule kernel_inv_cong [OF inv])
  show "\<And>d. current_task s = Some d \<Longrightarrow> pend_sv s' \<Longrightarrow>
      lock_count (tasks s' d) = 0 \<or> state (tasks s d) \<noteq> TASK_RUNNING"
    using s' c kernel_inv_current(2) [OF inv c]
    by (auto simp: isr_sysclock_cases Let_def split: if_splits)
qed (use s' c in \<open>auto simp: isr_sysclock_cases Let_def split: if_splits\<close>)

lemma sleep_on_kernel_inv:
  assumes inv: "kernel_inv s" and c: "current_task s = Some c" "c \<noteq> idle_task"
    and s': "sleep_add_to_list c n s = Some s'"
  shows "kernel_inv s'"
proof -
  let ?s = "upd_task c (\<lambda>t. t\<lparr>tick_sleep := current_tick s + n\<rparr>) s"
  have eq: "c \<notin> set (sleep_task_list s)"
      "s' = ?s\<lparr>sleep_task_list := ins (sleep_task_sort ?s) c (sleep_task_list s)\<rparr>"
    using s' by (auto simp: sleep_add_to_list_def bind_Some_iff Let_def)
  show ?thesis
  proof (rule kernel_invI [where c = c])
    show "ready_inv s'"
      by (rule ready_inv_cong [OF _ _ _ kernel_invD(1) [OF inv]]) (auto simp: eq)
    show "t = c" if "state (tasks s' t) = TASK_RUNNING" for t
      by (rule kernel_inv_running_unique [OF inv c(1)]) (use that in \<open>simp add: eq split: if_splits\<close>)
    show "is_ready (state (tasks s' c)) \<Longrightarrow> c \<in> set (sch_ready_task_list s')"
      using kernel_inv_current(1) [OF inv c(1)] by (simp add: eq)
    show "pend_sv s' \<Longrightarrow> lock_count (tasks s' c) = 0 \<or> state (tasks s' c) \<noteq> TASK_RUNNING"
      using kernel_inv_current(2) [OF inv c(1)] by (simp add: eq)
    show "idle_task \<in> set (sch_ready_task_list s') \<or> state (tasks s' idle_task) = TASK_RUNNING"
      using kernel_inv_idle [OF inv] by (auto simp: eq)
    show "priority (tasks s' x) \<le> SCHEDULER_MAX_PRI" if "x \<noteq> idle_task" for x
      using kernel_inv_priority [OF inv that] by (cases "x = c") (simp_all add: eq)
  qed (use c kernel_invD(2-5) [OF inv] in \<open>simp_all add: eq\<close>)
qed

lemma sleep_off_kernel_inv:
  assumes inv: "kernel_inv s" and s': "sleep_remove_from_list c s = Some s'"
  shows "kernel_inv s'"
proof -
  have eq: "s' = upd_task c (\<lambda>t. t\<lparr>tick_sleep := 0\<rparr>)
      (s\<lparr>sleep_task_list := remove1 c (sleep_task_list s)\<rparr>)"
    using s' by (simp add: sleep_remove_from_list_def seq_remove_def split: if_splits)
  let ?m = "s\<lparr>sleep_task_list := remove1 c (sleep_task_list s)\<rparr>"
  have "kernel_inv ?m"
  proof -
    obtain d where d: "current_task s = Some d" using inv by (auto simp only: kernel_inv_def)
    show ?thesis
    proof (rule kernel_invI [where c = d])
      show "idle_task \<notin> set (sleep_task_list ?m)"
        using kernel_invD(4) [OF inv] by (auto dest: notin_set_remove1)
      show "\<And>t. state (tasks ?m t) = TASK_RUNNING \<Longrightarrow> t = d"
        using kernel_inv_running_unique [OF inv d] by simp
    qed (use d kernel_invD [OF inv] kernel_inv_current [OF inv d] kernel_inv_idle [OF inv]
          kernel_inv_priority [OF inv] in simp_all)
  qed
  then show ?thesis unfolding eq by (rule kernel_inv_cong)
    (use kernel_inv_pend [OF inv] in auto)
qed

lemma add_kernel_inv:
  assumes inv: "kernel_inv s" and c: "on_cpu s c" and t: "t \<noteq> c" "t \<noteq> idle_task"
    and st: "state (tasks s t) = TASK_FINISHED"
    and s': "scheduler_task_add t pri s = Some s'"
  shows "kernel_inv s'"
proof -
  let ?s = "upd_task t (\<lambda>t. t\<lparr>priority := pri\<rparr>) (DISABLE_INTERRUPTS s)"
  obtain s1 where p: "pri \<le> SCHEDULER_MAX_PRI" and y: "scheduler_task_yield t YIELD_SYSTEM ?s = Some s1"
    and eq: "s' = SET_INTERRUPT_LEVEL (sys_interrupt_level s) s1"
    using s' t(2) by (auto simp: scheduler_task_add_def Let_def bind_Some_iff split: if_splits)
  have new: "t \<notin> set (sch_ready_task_list s)" using kernel_invD(1) [OF inv] st by (auto simp: ready_inv_def)
  have cur: "current_task s = Some c" using c by (simp add: on_cpu_def)
  have "kernel_inv ?s"
  proof (rule kernel_invI [where c = c])
    show "ready_inv ?s"
      by (rule ready_inv_cong [OF _ _ _ kernel_invD(1) [OF inv]])
        (use new in \<open>auto simp: int_level_defs\<close>)
    show "\<And>x. state (tasks ?s x) = TASK_RUNNING \<Longrightarrow> x = c"
      using kernel_inv_running_unique [OF inv cur] st by (auto simp: int_level_defs split: if_splits)
    show "is_ready (state (tasks ?s c)) \<Longrightarrow> c \<in> set (sch_ready_task_list ?s)"
      "pend_sv ?s \<Longrightarrow> lock_count (tasks ?s c) = 0 \<or> state (tasks ?s c) \<noteq> TASK_RUNNING"
      using c t by (simp_all add: int_level_defs on_cpu_def)
    show "idle_task \<in> set (sch_ready_task_list ?s) \<or> state (tasks ?s idle_task) = TASK_RUNNING"
      using kernel_inv_idle [OF inv] t by (auto simp: int_level_defs)
    show "priority (tasks ?s x) \<le> SCHEDULER_MAX_PRI" if "x \<noteq> idle_task" for x
      using kernel_inv_priority [OF inv that] p by (cases "x = t") (simp_all add: int_level_defs)
  qed (use kernel_invD(2-5) [OF inv] cur t in \<open>simp_all add: int_level_defs\<close>)
  then have inv1: "kernel_inv s1"
    using y by (rule yield_kernel_inv) (use st in \<open>simp add: int_level_defs\<close>)
  then show ?thesis unfolding eq by (rule kernel_inv_cong)
    (use kernel_inv_pend [OF inv1] in \<open>auto simp: int_level_defs\<close>)
qed

lemma kstep_inv:
  assumes "kstep s s'" and inv: "kernel_inv s"
  shows "kernel_inv s'"
  using assms(1)
proof cases
  case (tick c)
  then show ?thesis using tick_kernel_inv [OF inv] by blast
next
  case (switch c)
  then show ?thesis using switched_kernel_inv [OF inv] by blast
next
  case (request c)
  show ?thesis unfolding request(1) using request(2,3) by (intro kernel_inv_cong [OF inv]) simp_all
next
  case (lock c)
  then have "s' = upd_task c (\<lambda>t. t\<lparr>lock_count := lock_count t + 1\<rparr>) s"
    by (simp add: scheduler_lock_def on_cpu_def split: if_splits)
  then show ?thesis using upd_task_cpu_inv [OF inv lock(1)] lock(1) by (simp add: on_cpu_def)
next
  case (unlock c)
  then show ?thesis using upd_task_cpu_inv [OF inv unlock(2)] by (simp add: on_cpu_def)
next
  case (sleep_on c n)
  then show ?thesis using sleep_on_kernel_inv [OF inv] by (auto simp: on_cpu_def)
next
  case (sleep_off c)
  then show ?thesis using sleep_off_kernel_inv [OF inv] by blast
next
  case (suspend c)
  then show ?thesis using upd_task_cpu_inv [OF inv suspend(2)] by simp
next
  case (resume c p i t st)
  let ?s = "upd_task t (\<lambda>x. x\<lparr>suspend_data := SD_condition i\<rparr>)
         (upd_suspend p (\<lambda>x. x\<lparr>status := st, may_resume := True\<rparr>)
           (upd_cond i (\<lambda>x. x\<lparr>suspend_list := remove1 p (suspend_list x)\<rparr>) s))"
  have "kernel_inv ?s"
    by (rule kernel_inv_cong [OF inv]) (use kernel_inv_pend [OF inv] in auto)
  then show ?thesis using resume(5) by (rule yield_kernel_inv) (use resume(4) in auto)
next
  case (finish c)
  then show ?thesis using upd_task_cpu_inv [OF inv finish(2)] by simp
next
  case (add c t pri)
  then show ?thesis using add_kernel_inv [OF inv] by blast
next
  case (data c)
  obtain d n f where t: "tasks s' c = (tasks s c)\<lparr>suspend_data := d, num_conditions := n, flags := f\<rparr>"
      "\<forall>t. t \<noteq> c \<longrightarrow> tasks s' t = tasks s t"
    using data(2) unfolding data_step_def by blast
  have "state (tasks s' x) = state (tasks s x) \<and> priority (tasks s' x) = priority (tasks s x)" for x
    using t by (cases "x = c") simp_all
  then show ?thesis using data by (intro kernel_inv_cong [OF inv]) (auto simp: data_step_def on_cpu_def)
qed

end
