(* ===== verification/Sleepers.thy ===== *)
theory Sleepers
  imports KSteps
begin

text \<open>
  What a task may rely on while it does not have the processor: \<open>others t k\<close> is a run of
  \<open>kstep\<close>s during which \<open>t\<close> is not the current task and \<open>k\<close> ticks pass, up to the step that
  gives it the processor back. A task that sleeps is woken only when its tick has come, and
  it is a candidate of every switch from then on.
\<close>

section \<open>While a task is away\<close>

definition ticks_in :: "'z kstate_scheme \<Rightarrow> 'z kstate_scheme \<Rightarrow> nat" where
  "ticks_in s s' = (if current_tick s' = current_tick s then 0 else 1)"

inductive others :: "tid \<Rightarrow> nat \<Rightarrow> 'z kstate_scheme \<Rightarrow> 'z kstate_scheme \<Rightarrow> bool" for t where
  returns: "\<lbrakk>current_task s \<noteq> Some t; kstep s s'; current_task s' = Some t\<rbrakk> \<Longrightarrow>
    others t (ticks_in s s') s s'"
| more: "\<lbrakk>current_task s \<noteq> Some t; kstep s s1; others t k s1 s'\<rbrakk> \<Longrightarrow>
    others t (ticks_in s s1 + k) s s'"

lemma others_inv: "others t k s s' \<Longrightarrow> kernel_inv s \<Longrightarrow> kernel_inv s'"
  by (induction rule: others.induct) (auto dest: kstep_inv)

lemma others_current: "others t k s s' \<Longrightarrow> current_task s' = Some t"
  by (induction rule: others.induct) auto

lemma others_away: "others t k s s' \<Longrightarrow> current_task s \<noteq> Some t"
  by (auto elim: others.cases)

lemma queued_cong:
  "conds s' = conds s \<Longrightarrow> suspends s' = suspends s \<Longrightarrow> queued s' t = queued s t"
  by (simp add: queued_def)

lemma queued_mono:
  assumes "queued s' t"
    and "\<And>i. set (suspend_list (conds s' i)) \<subseteq> set (suspend_list (conds s i))"
    and "\<And>p. s_task (suspends s' p) = s_task (suspends s p)"
  shows "queued s t"
  using assms unfolding queued_def by (metis subsetD)

lemma queued_other [simp]:
  "queued (upd_task u f s) t = queued s t"
  "queued (s\<lparr>pend_sv := b\<rparr>) t = queued s t"
  "queued (s\<lparr>sys_interrupt_level := b\<rparr>) t = queued s t"
  "queued (s\<lparr>sleep_task_list := q\<rparr>) t = queued s t"
  "queued (s\<lparr>sch_ready_task_list := q\<rparr>) t = queued s t"
  by (simp_all add: queued_def)

text \<open>A step either is a switch, or makes the task ready, or leaves it alone.\<close>

definition untouched :: "tid \<Rightarrow> 'z kstate_scheme \<Rightarrow> 'z kstate_scheme \<Rightarrow> bool" where
  "untouched t s s' \<longleftrightarrow> tasks s' t = tasks s t \<and> current_task s' = current_task s \<and>
     (t \<in> set (sleep_task_list s') \<longleftrightarrow> t \<in> set (sleep_task_list s)) \<and>
     (t \<in> set (sch_ready_task_list s') \<longleftrightarrow> t \<in> set (sch_ready_task_list s)) \<and>
     (queued s' t \<longrightarrow> queued s t)"

lemma kstep_frame:
  assumes step: "kstep s s'" and inv: "kernel_inv s" and t: "current_task s \<noteq> Some t"
  shows "(\<exists>c. current_task s = Some c \<and> isr_pendsv_handle s = Some s') \<or>
    (queued s t \<and> \<not> is_ready (state (tasks s t)) \<and>
     lock_count (tasks s' t) = lock_count (tasks s t) \<and> current_task s' = current_task s) \<or>
    (state (tasks s t) = TASK_FINISHED \<and> lock_count (tasks s' t) = lock_count (tasks s t) \<and>
     current_task s' = current_task s) \<or>
    untouched t s s'"
  using step
proof cases
  case (switch c)
  then show ?thesis by blast
next
  case (tick c)
  then have "c \<noteq> t" using t by auto
  have "untouched t s s'"
    using tick(3) \<open>c \<noteq> t\<close> queued_cong [of s' s t]
    by (auto simp: isr_sysclock_cases [OF tick(2)] Let_def untouched_def split: if_splits)
  then show ?thesis by blast
next
  case (lock c)
  then have "untouched t s s'"
    using t by (auto simp: scheduler_lock_def on_cpu_def untouched_def split: if_splits)
  then show ?thesis by blast
next
  case (sleep_on c n)
  then have "untouched t s s'"
    using t by (auto simp: sleep_add_to_list_def on_cpu_def bind_Some_iff Let_def untouched_def)
  then show ?thesis by blast
next
  case (sleep_off c)
  then have "untouched t s s'"
    using t by (auto simp: sleep_remove_from_list_def seq_remove_def on_cpu_def untouched_def
        in_set_remove1 split: if_splits)
  then show ?thesis by blast
next
  case (resume c p i u st)
  show ?thesis
  proof (cases "u = t")
    case True
    then have "queued s t" using resume(2,3) by (auto simp: queued_def)
    moreover have "\<not> is_ready (state (tasks s t))" using resume(4) True by auto
    moreover have "lock_count (tasks s' t) = lock_count (tasks s t) \<and> current_task s' = current_task s"
      using resume(5) True by (auto simp: scheduler_task_yield_eq split: if_splits)
    ultimately show ?thesis by blast
  next
    case False
    have "queued s t" if "queued s' t"
      using that by (rule queued_mono) (use resume(5) in
        \<open>auto simp: scheduler_task_yield_eq split: if_splits dest: subsetD [OF set_remove1_subset]\<close>)
    then have "untouched t s s'"
      using resume(5) False by (auto simp: scheduler_task_yield_eq untouched_def split: if_splits)
    then show ?thesis by blast
  qed
next
  case (add c u pri)
  show ?thesis
  proof (cases "u = t")
    case False
    then have "untouched t s s'"
      using add(6) queued_cong [of s' s t]
      by (auto simp: scheduler_task_add_eq untouched_def split: if_splits)
    then show ?thesis by blast
  qed (use add in \<open>auto simp: scheduler_task_add_eq split: if_splits\<close>)
next
  case (data c)
  then have "untouched t s s'" using t by (auto simp: data_step_def on_cpu_def untouched_def)
  then show ?thesis by blast
next
  case (request c)
  then have "untouched t s s'" by (simp add: untouched_def)
  then show ?thesis by blast
next
  case (unlock c)
  then have "untouched t s s'" using t by (auto simp: untouched_def on_cpu_def)
  then show ?thesis by blast
next
  case (suspend c)
  then have "untouched t s s'" using t by (auto simp: untouched_def on_cpu_def)
  then show ?thesis by blast
next
  case (finish c)
  then have "untouched t s s'" using t by (auto simp: untouched_def on_cpu_def)
  then show ?thesis by blast
qed

text \<open>What a switch does to a task that does not have the processor.\<close>

lemma switch_frame:
  assumes inv: "kernel_inv s" and c: "current_task s = Some c" and t: "t \<noteq> c"
    and s': "isr_pendsv_handle s = Some s'"
  shows "queued s' t = queued s t \<and> current_tick s' = current_tick s \<and>
    ((current_task s' \<noteq> Some t \<and> tasks s' t = tasks s t \<and>
      (t \<in> set (sleep_task_list s') \<longleftrightarrow> t \<in> set (sleep_task_list s)) \<and>
      (t \<in> set (sch_ready_task_list s') \<longleftrightarrow> t \<in> set (sch_ready_task_list s))) \<or>
     (current_task s' \<noteq> Some t \<and> resumable s t \<and>
      tasks s' t = resumed_task YIELD_SLEEP (tasks s t) \<and>
      t \<notin> set (sleep_task_list s') \<and> t \<in> set (sch_ready_task_list s')) \<or>
     (current_task s' = Some t \<and> t \<in> set (sch_ready_task_list s) \<and>
      tasks s' t = (tasks s t)\<lparr>state := TASK_RUNNING\<rparr> \<and>
      (t \<in> set (sleep_task_list s') \<longleftrightarrow> t \<in> set (sleep_task_list s))) \<or>
     (current_task s' = Some t \<and> resumable s t \<and> t \<in> set (sleep_task_list s) \<and>
      tasks s' t = (resumed_task YIELD_SLEEP (tasks s t))\<lparr>state := TASK_RUNNING\<rparr> \<and>
      t \<notin> set (sleep_task_list s')))"
proof -
  let ?s = "s\<lparr>pend_sv := False\<rparr>"
  let ?p = "put_back c ?s"
  obtain R n q where eq: "isr_pendsv_handle s = Some (switched R n ?p)"
      and q: "sch_ready_task_list (woken R ?p) = n # q" and rdy: "ready_inv (woken R ?p)"
      and R: "set R \<subseteq> set (sleep_task_list s)" "\<forall>t \<in> set R. resumable ?p t"
    using isr_pendsv_switched [OF inv c] by blast
  have s'_eq: "s' = switched R n ?p" using eq s' by simp
  have nq: "n \<notin> set q" using rdy q by (simp add: ready_inv_def)
  have W: "x \<in> set (n # q) \<longleftrightarrow> x \<in> set (sch_ready_task_list ?p) \<or> x \<in> set R" for x
    using q by (metis Un_iff woken_sel(9))
  have rdyt: "t \<in> set (sch_ready_task_list ?p) \<longleftrightarrow> t \<in> set (sch_ready_task_list s)"
    using t by simp
  have res: "resumable ?p t = resumable s t"
    using t by (simp add: resumable_def put_back_task)
  have n: "tasks (switched R t ?p) t = (tasks (woken R ?p) t)\<lparr>state := TASK_RUNNING\<rparr>"
    by (simp add: switched_def)
  have qd: "queued s' t = queued s t" "current_tick s' = current_tick s"
    by (simp_all add: s'_eq queued_def)
  show ?thesis
  proof (cases "t = n")
    case True
    show ?thesis
    proof (cases "t \<in> set R")
      case inR: True
      then show ?thesis using True R res t n qd by (auto simp: s'_eq)
    next
      case False
      then have "t \<in> set (sch_ready_task_list s)" using W [of t] rdyt True by auto
      then show ?thesis using True False t n qd by (auto simp: s'_eq)
    qed
  next
    case False
    have "t \<in> set q \<longleftrightarrow> t \<in> set (sch_ready_task_list s) \<or> t \<in> set R"
      using W [of t] rdyt False by auto
    then show ?thesis using False R res t q qd by (cases "t \<in> set R") (auto simp: s'_eq)
  qed
qed

section \<open>Sleeping\<close>

definition asleep :: "tid \<Rightarrow> u32 \<Rightarrow> 'z kstate_scheme \<Rightarrow> bool" where
  "asleep t w s \<longleftrightarrow> current_task s \<noteq> Some t \<and> t \<in> set (sleep_task_list s) \<and>
     tick_sleep (tasks s t) = w \<and> state (tasks s t) = TASK_SUSPENDED \<and> \<not> queued s t"

definition timed_out :: "tid \<Rightarrow> 'z kstate_scheme \<Rightarrow> bool" where
  "timed_out t s \<longleftrightarrow> resume_from (tasks s t) = TASK_RESUME_SLEEP \<and> t \<notin> set (sleep_task_list s) \<and>
     (if current_task s = Some t then state (tasks s t) = TASK_RUNNING
      else state (tasks s t) = TASK_SLEEP_RESUME)"

lemma timed_out_step:
  assumes "kernel_inv s" "kstep s s'" "current_task s \<noteq> Some t" "timed_out t s"
  shows "timed_out t s'"
  using kstep_frame [OF assms(2,1,3)]
proof (elim disjE)
  assume "\<exists>c. current_task s = Some c \<and> isr_pendsv_handle s = Some s'"
  then obtain c where c: "current_task s = Some c" "isr_pendsv_handle s = Some s'" by blast
  have "t \<noteq> c" using c assms(3) by auto
  show ?thesis
    using switch_frame [OF assms(1) c(1) \<open>t \<noteq> c\<close> c(2)] assms(3,4)
    by (auto simp: timed_out_def resumable_def)
qed (use assms(3,4) in \<open>auto simp: timed_out_def untouched_def\<close>)

lemma asleep_step:
  assumes "kernel_inv s" "kstep s s'" "asleep t w s"
  shows "asleep t w s' \<or> (due s t \<and> timed_out t s')"
proof -
  have t: "current_task s \<noteq> Some t" using assms(3) by (simp add: asleep_def)
  have notready: "t \<notin> set (sch_ready_task_list s)"
    using kernel_invD(1) [OF assms(1)] assms(3) by (auto simp: ready_inv_def asleep_def)
  show ?thesis
    using kstep_frame [OF assms(2,1) t]
  proof (elim disjE)
    assume "\<exists>c. current_task s = Some c \<and> isr_pendsv_handle s = Some s'"
    then obtain c where c: "current_task s = Some c" "isr_pendsv_handle s = Some s'" by blast
    have "t \<noteq> c" using c t by auto
    show ?thesis
      using switch_frame [OF assms(1) c(1) \<open>t \<noteq> c\<close> c(2)] notready assms(3)
      by (auto simp: timed_out_def asleep_def resumable_def resumed_task_def)
  qed (use assms(3) in \<open>auto simp: asleep_def untouched_def\<close>)
qed

text \<open>The number of ticks a run takes is at least what the sleeper still has to wait.\<close>

lemma INT32CMP_next: "INT32CMP w k \<le> INT32CMP w (k + 1) + 1"
proof (cases "INT32CMP w k = - (2 ^ 31)")
  case True
  then show ?thesis using INT32CMP_range(1) [of w "k + 1"] by simp
next
  case False
  then have "INT32CMP w k > - (2 ^ 31)" using INT32CMP_range(1) [of w k] by linarith
  then have "signed_take_bit 31 (sint (w - k) - sint (1 :: u32)) = sint (w - k) - 1"
    using INT32CMP_range(2) [of w k]
    by (subst signed_take_bit_int_eq_self) (simp_all add: INT32CMP_def)
  moreover have "sint (w - (k + 1)) = signed_take_bit 31 (sint (w - k) - sint (1 :: u32))"
    using sint_word_diff [of "w - k" 1] by (simp add: diff_diff_eq)
  ultimately show ?thesis by (simp add: INT32CMP_def)
qed

lemma INT32CMP_swap: "INT32CMP a b \<ge> 0 \<Longrightarrow> INT32CMP b a \<le> 0"
proof -
  assume "INT32CMP a b \<ge> 0"
  then have "signed_take_bit 31 (0 - sint (a - b)) = 0 - sint (a - b)"
    using INT32CMP_range(2) [of a b]
    by (intro signed_take_bit_int_eq_self) (simp_all add: INT32CMP_def)
  moreover have "sint (b - a) = signed_take_bit 31 (0 - sint (a - b))"
    using sint_word_diff [of 0 "a - b"] by simp
  ultimately show ?thesis using \<open>INT32CMP a b \<ge> 0\<close> by (simp add: INT32CMP_def)
qed

lemma kstep_tick:
  assumes "kstep s s'" "kernel_inv s"
  shows "current_tick s' = current_tick s + of_nat (ticks_in s s')"
  using assms(1)
proof cases
  case (tick c)
  then show ?thesis by (auto simp: isr_sysclock_cases Let_def ticks_in_def split: if_splits)
next
  case (switch c)
  then show ?thesis
    using isr_pendsv_switched [OF assms(2) switch(3)] by (auto simp: ticks_in_def)
next
  case (resume c p i t st)
  then show ?thesis by (auto simp: ticks_in_def scheduler_task_yield_eq split: if_splits)
next
  case (add c t pri)
  then show ?thesis by (auto simp: ticks_in_def scheduler_task_add_eq split: if_splits)
next
  case (sleep_on c n)
  then show ?thesis
    by (auto simp: ticks_in_def sleep_add_to_list_def bind_Some_iff Let_def)
next
  case (sleep_off c)
  then show ?thesis
    by (auto simp: ticks_in_def sleep_remove_from_list_def seq_remove_def split: if_splits)
next
  case (lock c)
  then show ?thesis by (auto simp: ticks_in_def scheduler_lock_def split: option.splits if_splits)
qed (simp_all add: ticks_in_def data_step_def)

lemma timed_out_others:
  "others t k s s' \<Longrightarrow> kernel_inv s \<Longrightarrow> timed_out t s \<Longrightarrow> timed_out t s'"
  by (induction rule: others.induct) (auto dest: timed_out_step kstep_inv)

lemma asleep_others:
  assumes "others t k s s'" and "kernel_inv s" and "asleep t w s"
  shows "timed_out t s' \<and> INT32CMP w (current_tick s) \<le> int k"
  using assms
proof (induction rule: others.induct)
  case (returns s s')
  then have "due s t" and "timed_out t s'"
    using asleep_step [of s s' t w] by (auto simp: asleep_def)
  then show ?case using returns.prems(2) INT32CMP_swap [of "current_tick s" w]
    by (auto simp: due_def asleep_def)
next
  case (more s s1 k s')
  note k = kstep_tick [OF more.hyps(2) more.prems(1)]
  have inv1: "kernel_inv s1" using more.hyps(2) more.prems(1) by (rule kstep_inv)
  consider "asleep t w s1" | "due s t" "timed_out t s1"
    using asleep_step [OF more.prems(1) more.hyps(2) more.prems(2)] by blast
  then show ?case
  proof cases
    case 1
    then have IH: "timed_out t s'" "INT32CMP w (current_tick s1) \<le> int k"
      using more.IH inv1 by blast+
    have "ticks_in s s1 = 0 \<or> ticks_in s s1 = 1" by (simp add: ticks_in_def)
    then show ?thesis using IH k INT32CMP_next [of w "current_tick s"] by auto
  next
    case 2
    then show ?thesis
      using timed_out_others [OF more.hyps(3) inv1] more.prems(2) INT32CMP_swap [of "current_tick s" w]
      by (auto simp: due_def asleep_def)
  qed
qed

lemma others_on_cpu:
  assumes "others t k s s'" and "kernel_inv s"
  shows "on_cpu s' t \<and> lock_count (tasks s' t) = lock_count (tasks s t)"
  using assms
proof (induction rule: others.induct)
  case (returns s s')
  from kstep_frame [OF returns.hyps(2) returns.prems returns.hyps(1)] returns.hyps(1,3)
  obtain c where c: "current_task s = Some c" "isr_pendsv_handle s = Some s'"
    by (auto simp: untouched_def)
  have "t \<noteq> c" using c(1) returns.hyps(1) by auto
  moreover have "pend_sv s' = False"
    using isr_pendsv_switched [OF returns.prems c(1)] c(2) by auto
  ultimately show ?case
    using switch_frame [OF returns.prems c(1) \<open>t \<noteq> c\<close> c(2)] returns.hyps(3)
    by (auto simp: on_cpu_def)
next
  case (more s s1 k s')
  have "lock_count (tasks s1 t) = lock_count (tasks s t)"
    using kstep_frame [OF more.hyps(2) more.prems more.hyps(1)]
  proof (elim disjE)
    assume "\<exists>c. current_task s = Some c \<and> isr_pendsv_handle s = Some s1"
    then obtain c where c: "current_task s = Some c" "isr_pendsv_handle s = Some s1" by blast
    have "t \<noteq> c" using c(1) more.hyps(1) by auto
    then show ?thesis
      using switch_frame [OF more.prems c(1) \<open>t \<noteq> c\<close> c(2)] by auto
  qed (auto simp: untouched_def)
  then show ?case using more.IH kstep_inv [OF more.hyps(2) more.prems] by simp
qed

section \<open>The switch of a task that suspends itself\<close>

lemma switch_own:
  assumes inv: "kernel_inv s" and c: "current_task s = Some c"
    and st: "state (tasks s c) = TASK_TO_BE_SUSPENDED" and s': "isr_pendsv_handle s = Some s'"
  shows "queued s' t = queued s t \<and> current_tick s' = current_tick s \<and>
    lock_count (tasks s' c) = lock_count (tasks s c) \<and>
    ((current_task s' \<noteq> Some c \<and> tasks s' c = (tasks s c)\<lparr>state := TASK_SUSPENDED\<rparr> \<and>
      (c \<in> set (sleep_task_list s') \<longleftrightarrow> c \<in> set (sleep_task_list s))) \<or>
     (due s c \<and> c \<in> set (sleep_task_list s) \<and> timed_out c s'))"
proof -
  let ?s = "s\<lparr>pend_sv := False\<rparr>"
  let ?p = "put_back c ?s"
  obtain R n q where eq: "isr_pendsv_handle s = Some (switched R n ?p)"
      and q: "sch_ready_task_list (woken R ?p) = n # q" and rdy: "ready_inv (woken R ?p)"
      and R: "set R \<subseteq> set (sleep_task_list s)" "\<forall>t \<in> set R. resumable ?p t"
    using isr_pendsv_switched [OF inv c] by blast
  have s'_eq: "s' = switched R n ?p" using eq s' by simp
  have notready: "c \<notin> set (sch_ready_task_list s)"
    using kernel_invD(1) [OF inv] st by (auto simp: ready_inv_def)
  have W: "x \<in> set (n # q) \<longleftrightarrow> x \<in> set (sch_ready_task_list ?p) \<or> x \<in> set R" for x
    using q by (metis Un_iff woken_sel(9))
  have pc: "tasks ?p c = (tasks s c)\<lparr>state := TASK_SUSPENDED\<rparr>"
    using st by (simp add: put_back_def)
  have n: "tasks (switched R c ?p) c = (tasks (woken R ?p) c)\<lparr>state := TASK_RUNNING\<rparr>"
    by (simp add: switched_def)
  have qd: "queued s' t = queued s t" "current_tick s' = current_tick s"
      "lock_count (tasks s' c) = lock_count (tasks s c)"
    by (simp_all add: s'_eq queued_def)
  show ?thesis
  proof (cases "c \<in> set R")
    case True
    then have "due s c" using R by (auto simp: resumable_def)
    moreover have "timed_out c s'"
      using True n by (cases "c = n") (auto simp: timed_out_def s'_eq resumed_task_def)
    ultimately show ?thesis using True R qd by auto
  next
    case False
    then have "c \<noteq> n" using W [of c] notready st by auto
    then show ?thesis using False pc qd by (auto simp: s'_eq)
  qed
qed

end
