(* ===== verification/Blocking.thy ===== *)
theory Blocking
  imports Sleepers
begin

text \<open>
  The routines that may give up the processor, seen as runs of the kernel's state machine:
  if what the environment does is a run of \<open>kstep\<close>s, so is every one of these routines, and
  the caller has the processor again when they return. A locked scheduler stays with its task;
  a switch that was missed while it was locked is made up for by \<^verbatim>\<open>scheduler_unlock\<close>.
\<close>

inductive ksteps :: "nat \<Rightarrow> 'z kstate_scheme \<Rightarrow> 'z kstate_scheme \<Rightarrow> bool" where
  stop: "ksteps 0 s s"
| go: "\<lbrakk>kstep s s1; ksteps k s1 s'\<rbrakk> \<Longrightarrow> ksteps (ticks_in s s1 + k) s s'"

definition env_ok :: "'z env \<Rightarrow> bool" where
  "env_ok env \<longleftrightarrow> (\<forall>t s s'. kernel_inv s \<longrightarrow> current_task s \<noteq> Some t \<longrightarrow> env t s = Some s' \<longrightarrow>
     (\<exists>k. others t k s s'))"

lemma ksteps_inv: "ksteps k s s' \<Longrightarrow> kernel_inv s \<Longrightarrow> kernel_inv s'"
  by (induction rule: ksteps.induct) (auto dest: kstep_inv)

lemma ksteps_trans:
  assumes "ksteps k s s1" and "ksteps l s1 s'"
  shows "ksteps (k + l) s s'"
  using assms by (induction rule: ksteps.induct) (auto simp: add.assoc intro: ksteps.intros)

lemma ksteps_one: "kstep s s' \<Longrightarrow> current_tick s' = current_tick s \<Longrightarrow> ksteps 0 s s'"
  using ksteps.go [of s s' 0 s'] by (simp add: ksteps.stop ticks_in_def)

lemma others_ksteps: "others t k s s' \<Longrightarrow> ksteps k s s'"
proof (induction rule: others.induct)
  case (returns s s')
  then show ?case using ksteps.go [OF returns.hyps(2) ksteps.stop] by simp
next
  case (more s s1 k s')
  then show ?case by (auto intro: ksteps.intros)
qed

lemma ksteps_tick:
  "ksteps k s s' \<Longrightarrow> kernel_inv s \<Longrightarrow> current_tick s' = current_tick s + of_nat k"
  by (induction rule: ksteps.induct) (simp_all add: add.assoc kstep_tick kstep_inv)

section \<open>The switch request\<close>

lemma pend_own:
  assumes inv: "kernel_inv s" and c: "current_task s = Some c" and ok: "env_ok env"
    and may: "lock_count (tasks s c) = 0 \<or> state (tasks s c) \<noteq> TASK_RUNNING"
    and run: "control_to_system env s = Some s'"
  shows "\<exists>s1 s2. ksteps 0 s s1 \<and> isr_pendsv_handle s1 = Some s2 \<and> kernel_inv s1 \<and> kernel_inv s2 \<and>
    s1 = s\<lparr>sys_interrupt_level := True, pend_sv := True\<rparr> \<and> ksteps 0 s s2 \<and>
    ((current_task s2 = Some c \<and> s' = s2\<lparr>sys_interrupt_level := sys_interrupt_level s\<rparr>) \<or>
     (current_task s2 \<noteq> Some c \<and> (\<exists>k s3. others c k s2 s3 \<and>
        s' = s3\<lparr>sys_interrupt_level := sys_interrupt_level s\<rparr>)))"
proof -
  let ?s1 = "s\<lparr>sys_interrupt_level := True, pend_sv := True\<rparr>"
  have st1: "kstep s ?s1" using c may by (rule kstep.request)
  have inv1: "kernel_inv ?s1" using st1 inv by (rule kstep_inv)
  have k1: "ksteps 0 s ?s1" using st1 by (rule ksteps_one) simp
  obtain s2 where s2: "isr_pendsv_handle ?s1 = Some s2"
    using isr_pendsv_switched [OF inv1, of c] c by auto
  have st2: "kstep ?s1 s2" by (rule kstep.switch [of _ c]) (use c s2 in simp_all)
  have inv2: "kernel_inv s2" using st2 inv1 by (rule kstep_inv)
  have "current_tick s2 = current_tick ?s1"
    using isr_pendsv_switched [OF inv1, of c] c s2 by auto
  then have k2: "ksteps 0 s s2" using ksteps_trans [OF k1 ksteps_one [OF st2]] by simp
  have ret: "return_task s = None" using kernel_invD(3) [OF inv] .
  have "control_to_system env s = do {
      s3 \<leftarrow> (if current_task s2 = Some c then Some s2 else env c s2);
      Some (s3\<lparr>sys_interrupt_level := sys_interrupt_level s\<rparr>) }"
    using c ret s2 by (simp add: control_to_system_eq PEND_SV_def int_level_defs)
  with run obtain s3 where s3: "(if current_task s2 = Some c then Some s2 else env c s2) = Some s3"
      "s' = s3\<lparr>sys_interrupt_level := sys_interrupt_level s\<rparr>"
    by (auto simp: bind_Some_iff)
  show ?thesis
  proof (cases "current_task s2 = Some c")
    case False
    then have "env c s2 = Some s3" using s3(1) by simp
    then obtain k where "others c k s2 s3" using ok inv2 False unfolding env_ok_def by blast
    then show ?thesis using k1 k2 s2 inv1 inv2 s3 False by blast
  qed (use k1 k2 s2 inv1 inv2 s3 in auto)
qed

text \<open>Setting the interrupt level is a step of the task that has the processor.\<close>

lemma data_step_refl:
  assumes "data_step c s s'" "on_cpu s c"
  shows "ksteps 0 s s'"
  using kstep.data [OF assms(2,1)] assms(1) by (intro ksteps_one) (simp_all add: data_step_def)

lemma task_data_flags:
  "\<exists>d n g. x\<lparr>flags := f\<rparr> = x\<lparr>suspend_data := d, num_conditions := n, flags := g\<rparr>" for x :: task
  by (intro exI [of _ "suspend_data x"] exI [of _ "num_conditions x"] exI [of _ f]) simp

lemma task_data_refl:
  "\<exists>d n g. x = x\<lparr>suspend_data := d, num_conditions := n, flags := g\<rparr>" for x :: task
  by (intro exI [of _ "suspend_data x"] exI [of _ "num_conditions x"] exI [of _ "flags x"]) simp

lemma level_steps: "on_cpu s c \<Longrightarrow> ksteps 0 s (s\<lparr>sys_interrupt_level := b\<rparr>)"
  by (rule data_step_refl) (simp_all add: data_step_def task_data_refl)

lemma flags_steps: "on_cpu s c \<Longrightarrow> ksteps 0 s (upd_task c (\<lambda>t. t\<lparr>flags := f t\<rparr>) s)"
  by (rule data_step_refl [of c]) (auto simp: data_step_def task_data_flags)

lemma on_cpu_other [simp]:
  "on_cpu (s\<lparr>sys_interrupt_level := b\<rparr>) c = on_cpu s c"
  by (simp add: on_cpu_def)

lemma kernel_inv_level [simp]: "kernel_inv (s\<lparr>sys_interrupt_level := b\<rparr>) = kernel_inv s"
proof
  show "kernel_inv s \<Longrightarrow> kernel_inv (s\<lparr>sys_interrupt_level := b\<rparr>)"
    by (rule kernel_inv_cong) (use kernel_inv_pend in auto)
  assume inv: "kernel_inv (s\<lparr>sys_interrupt_level := b\<rparr>)"
  show "kernel_inv s" by (rule kernel_inv_cong [OF inv]) (use kernel_inv_pend [OF inv] in auto)
qed

lemma switch_back:
  assumes "kernel_inv s" "current_task s = Some c" "isr_pendsv_handle s = Some s'"
    "current_task s' = Some c"
  shows "on_cpu s' c" "lock_count (tasks s' c) = lock_count (tasks s c)"
  using isr_pendsv_switched [OF assms(1,2)] assms(3,4) by (auto simp: on_cpu_def)

lemma control_to_system_steps:
  assumes inv: "kernel_inv s" and c: "current_task s = Some c" and ok: "env_ok env"
    and may: "lock_count (tasks s c) = 0 \<or> state (tasks s c) \<noteq> TASK_RUNNING"
    and run: "control_to_system env s = Some s'"
  shows "\<exists>k. ksteps k s s' \<and> on_cpu s' c \<and> lock_count (tasks s' c) = lock_count (tasks s c) \<and>
    sys_interrupt_level s' = sys_interrupt_level s"
proof -
  let ?s1 = "s\<lparr>sys_interrupt_level := True, pend_sv := True\<rparr>"
  obtain s2 where s2: "isr_pendsv_handle ?s1 = Some s2" "kernel_inv ?s1" "kernel_inv s2" "ksteps 0 s s2"
    and cases: "(current_task s2 = Some c \<and> s' = s2\<lparr>sys_interrupt_level := sys_interrupt_level s\<rparr>) \<or>
     (current_task s2 \<noteq> Some c \<and> (\<exists>k s3. others c k s2 s3 \<and>
        s' = s3\<lparr>sys_interrupt_level := sys_interrupt_level s\<rparr>))"
    using pend_own [OF inv c ok may run] by blast
  have lock2: "lock_count (tasks s2 c) = lock_count (tasks s c)"
    using isr_pendsv_switched [OF s2(2), of c] c s2(1) by auto
  show ?thesis
    using cases
  proof (elim disjE conjE exE)
    assume "current_task s2 = Some c" and s': "s' = s2\<lparr>sys_interrupt_level := sys_interrupt_level s\<rparr>"
    moreover from this have "on_cpu s2 c" using switch_back [OF s2(2) _ s2(1)] c by simp
    ultimately show ?thesis
      using ksteps_trans [OF s2(4) level_steps [of s2 c]] lock2 by auto
  next
    fix k s3
    assume o: "others c k s2 s3" and s': "s' = s3\<lparr>sys_interrupt_level := sys_interrupt_level s\<rparr>"
    have "on_cpu s3 c" "lock_count (tasks s3 c) = lock_count (tasks s2 c)"
      using others_on_cpu [OF o s2(3)] by simp_all
    then show ?thesis
      using ksteps_trans [OF ksteps_trans [OF s2(4) others_ksteps [OF o]] level_steps [of s3 c]] s' lock2
      by auto
  qed
qed

section \<open>Locking, unlocking and yielding\<close>

lemma task_yield_on_cpu:
  assumes "kernel_inv s" and "current_task s = Some c"
  shows "task_yield env s =
    (if lock_count (tasks s c) = 0
     then do {
       s' \<leftarrow> control_to_system env (s\<lparr>sys_interrupt_level := False\<rparr>);
       Some (s'\<lparr>sys_interrupt_level := sys_interrupt_level s\<rparr>) }
     else Some (upd_task c (\<lambda>t. t\<lparr>flags := flags t OR TASK_SCHED_DRIFT\<rparr>) s))"
  using assms kernel_invD(3) [OF assms(1)]
  by (simp add: task_yield_def int_level_defs Let_def)

text \<open>What every routine of the running task guarantees when it returns.\<close>

definition returns_to :: "tid \<Rightarrow> 'z kstate_scheme \<Rightarrow> 'z kstate_scheme \<Rightarrow> bool" where
  "returns_to c s s' \<longleftrightarrow> on_cpu s' c \<and> kernel_inv s' \<and> (\<exists>k. ksteps k s s')"

lemma returns_toI:
  "ksteps k s s' \<Longrightarrow> kernel_inv s \<Longrightarrow> on_cpu s' c \<Longrightarrow> returns_to c s s'"
  by (auto simp: returns_to_def dest: ksteps_inv)

lemma returns_to_trans:
  "returns_to c s s1 \<Longrightarrow> returns_to c s1 s' \<Longrightarrow> returns_to c s s'"
  unfolding returns_to_def by (blast intro: ksteps_trans)

lemma returns_to_level: "kernel_inv s \<Longrightarrow> on_cpu s c \<Longrightarrow> returns_to c s (s\<lparr>sys_interrupt_level := b\<rparr>)"
  using level_steps by (auto simp: returns_to_def)

lemma returns_to_flags:
  assumes "kernel_inv s" "on_cpu s c"
  shows "returns_to c s (upd_task c (\<lambda>t. t\<lparr>flags := f t\<rparr>) s)"
  using flags_steps [OF assms(2), of f] assms by (intro returns_toI) (auto simp: on_cpu_def)

lemma task_yield_returns_to:
  assumes "kernel_inv s" and "on_cpu s c" and "env_ok env" and "task_yield env s = Some s'"
  shows "returns_to c s s' \<and> lock_count (tasks s' c) = lock_count (tasks s c) \<and>
    sys_interrupt_level s' = sys_interrupt_level s"
proof -
  have c: "current_task s = Some c" using assms(2) by (simp add: on_cpu_def)
  show ?thesis
  proof (cases "lock_count (tasks s c) = 0")
    case True
    let ?s = "s\<lparr>sys_interrupt_level := False\<rparr>"
    obtain s1 where s1: "control_to_system env ?s = Some s1"
        "s' = s1\<lparr>sys_interrupt_level := sys_interrupt_level s\<rparr>"
      using assms(4) task_yield_on_cpu [OF assms(1) c, of env] True by (auto simp: bind_Some_iff)
    obtain k where "ksteps k ?s s1" "on_cpu s1 c" "lock_count (tasks s1 c) = lock_count (tasks ?s c)"
      using control_to_system_steps [OF _ _ assms(3) _ s1(1), of c] assms(1) c True by auto
    then have "returns_to c ?s s1" "lock_count (tasks s1 c) = lock_count (tasks s c)"
      using assms(1) by (auto intro: returns_toI)
    moreover have "returns_to c s ?s" using assms(1,2) by (rule returns_to_level)
    moreover have "returns_to c s1 s'"
      using calculation(1) s1(2) by (auto simp: returns_to_def intro: level_steps)
    ultimately show ?thesis using s1(2) by (auto intro: returns_to_trans)
  next
    case False
    then have "s' = upd_task c (\<lambda>t. t\<lparr>flags := flags t OR TASK_SCHED_DRIFT\<rparr>) s"
      using assms(4) task_yield_on_cpu [OF assms(1) c, of env] by simp
    then show ?thesis using returns_to_flags [OF assms(1,2)] by simp
  qed
qed

lemma scheduler_lock_returns_to:
  assumes "kernel_inv s" and "on_cpu s c" and "scheduler_lock s = Some s'"
  shows "returns_to c s s' \<and> s' = upd_task c (\<lambda>t. t\<lparr>lock_count := lock_count t + 1\<rparr>) s"
proof -
  have s': "s' = upd_task c (\<lambda>t. t\<lparr>lock_count := lock_count t + 1\<rparr>) s"
    using assms(2,3) by (simp add: scheduler_lock_def on_cpu_def split: if_splits)
  have "kstep s s'" using assms(2,3) by (rule kstep.lock)
  then have "ksteps 0 s s'" by (rule ksteps_one) (simp add: s')
  then show ?thesis using assms(1,2) s' by (auto intro!: returns_toI simp: on_cpu_def)
qed

text \<open>Unlocking: a switch that was asked for in between is requested when the count reaches 0.\<close>

lemma scheduler_unlock_on_cpu:
  assumes "current_task s = Some c"
  shows "scheduler_unlock env s =
    (if lock_count (tasks s c) = 0 then None
     else if lock_count (tasks s c) = 1 \<and> flags (tasks s c) AND TASK_SCHED_DRIFT \<noteq> 0
     then task_yield env (upd_task c (\<lambda>t. t\<lparr>flags := flags t AND NOT TASK_SCHED_DRIFT\<rparr>)
       (upd_task c (\<lambda>t. t\<lparr>lock_count := lock_count t - 1\<rparr>) s))
     else Some (upd_task c (\<lambda>t. t\<lparr>lock_count := lock_count t - 1\<rparr>) s))"
proof -
  have "lock_count (tasks s c) - 1 = 0 \<longleftrightarrow> lock_count (tasks s c) = 1"
    by (metis diff_add_cancel diff_self add_0)
  then show ?thesis using assms by (simp add: scheduler_unlock_def Let_def)
qed

lemma scheduler_unlock_returns_to:
  assumes inv: "kernel_inv s" and cpu: "on_cpu s c" and ok: "env_ok env"
    and run: "scheduler_unlock env s = Some s'"
  shows "returns_to c s s' \<and> lock_count (tasks s' c) = lock_count (tasks s c) - 1 \<and>
    sys_interrupt_level s' = sys_interrupt_level s \<and> lock_count (tasks s c) \<noteq> 0"
proof -
  let ?s1 = "upd_task c (\<lambda>t. t\<lparr>lock_count := lock_count t - 1\<rparr>) s"
  let ?s2 = "upd_task c (\<lambda>t. t\<lparr>flags := flags t AND NOT TASK_SCHED_DRIFT\<rparr>) ?s1"
  have c: "current_task s = Some c" using cpu by (simp add: on_cpu_def)
  have nz: "lock_count (tasks s c) \<noteq> 0"
    using run by (auto simp: scheduler_unlock_on_cpu [OF c] split: if_splits)
  have "kstep s ?s1" using cpu nz by (rule kstep.unlock)
  then have "ksteps 0 s ?s1" by (rule ksteps_one) simp
  then have r1: "returns_to c s ?s1" using inv cpu by (auto intro!: returns_toI simp: on_cpu_def)
  moreover have "returns_to c ?s1 ?s2"
    using r1 by (intro returns_to_flags) (simp_all add: returns_to_def)
  ultimately have r2: "returns_to c s ?s2" by (rule returns_to_trans)
  show ?thesis
  proof (cases "lock_count (tasks s c) = 1 \<and> flags (tasks s c) AND TASK_SCHED_DRIFT \<noteq> 0")
    case True
    then have y: "task_yield env ?s2 = Some s'" using run by (simp add: scheduler_unlock_on_cpu [OF c])
    have "on_cpu ?s2 c" "kernel_inv ?s2" using r2 by (simp_all add: returns_to_def)
    then show ?thesis using task_yield_returns_to [OF _ _ ok y] r2 nz
      by (auto intro: returns_to_trans)
  next
    case False
    then have "s' = ?s1" using run nz by (auto simp: scheduler_unlock_on_cpu [OF c] split: if_splits)
    then show ?thesis using r1 nz by simp
  qed
qed

section \<open>The routines return\<close>

text \<open>
  The only way not to return is that the environment does not give the processor back: no
  assertion fails on the way.
\<close>

definition starves :: "'z env \<Rightarrow> tid \<Rightarrow> 'z kstate_scheme \<Rightarrow> bool" where
  "starves env c s \<longleftrightarrow> (\<exists>k s1. ksteps k s s1 \<and> kernel_inv s1 \<and> current_task s1 \<noteq> Some c \<and>
     env c s1 = None)"

lemma starves_later: "returns_to c s s1 \<Longrightarrow> starves env c s1 \<Longrightarrow> starves env c s"
  unfolding returns_to_def starves_def by (blast intro: ksteps_trans)

lemma starves_steps: "ksteps k s s1 \<Longrightarrow> starves env c s1 \<Longrightarrow> starves env c s"
  unfolding starves_def by (blast intro: ksteps_trans)

lemma control_to_system_returns:
  assumes inv: "kernel_inv s" and c: "current_task s = Some c"
    and may: "lock_count (tasks s c) = 0 \<or> state (tasks s c) \<noteq> TASK_RUNNING"
    and "control_to_system env s = None"
  shows "starves env c s"
proof -
  let ?s1 = "s\<lparr>sys_interrupt_level := True, pend_sv := True\<rparr>"
  have st1: "kstep s ?s1" using c may by (rule kstep.request)
  have inv1: "kernel_inv ?s1" using st1 inv by (rule kstep_inv)
  obtain s2 where s2: "isr_pendsv_handle ?s1 = Some s2"
    using isr_pendsv_switched [OF inv1, of c] c by auto
  have st2: "kstep ?s1 s2" by (rule kstep.switch [of _ c]) (use c s2 in simp_all)
  have "(if current_task s2 = Some c then Some s2 else env c s2) = None"
    using assms(4) c kernel_invD(3) [OF inv] s2
    by (simp add: control_to_system_eq PEND_SV_def int_level_defs bind_eq_None_conv split: if_splits)
  then have "current_task s2 \<noteq> Some c" "env c s2 = None" by (auto split: if_splits)
  moreover have "ksteps (ticks_in s ?s1 + (ticks_in ?s1 s2 + 0)) s s2"
    using st1 st2 by (intro ksteps.intros)
  ultimately show ?thesis using kstep_inv [OF st2 inv1] by (auto simp: starves_def)
qed

lemma task_yield_returns:
  assumes "kernel_inv s" and "on_cpu s c" and "task_yield env s = None"
  shows "starves env c s"
proof -
  have c: "current_task s = Some c" using assms(2) by (simp add: on_cpu_def)
  let ?s = "s\<lparr>sys_interrupt_level := False\<rparr>"
  have "lock_count (tasks s c) = 0" "control_to_system env ?s = None"
    using assms(3) task_yield_on_cpu [OF assms(1) c, of env] by (auto simp: bind_eq_None_conv split: if_splits)
  then have "starves env c ?s" using assms(1) c by (intro control_to_system_returns) auto
  then show ?thesis using level_steps [OF assms(2)] by (rule starves_steps [rotated])
qed

lemma scheduler_unlock_returns:
  assumes inv: "kernel_inv s" and cpu: "on_cpu s c" and nz: "lock_count (tasks s c) \<noteq> 0"
    and run: "scheduler_unlock env s = None"
  shows "starves env c s"
proof -
  let ?s1 = "upd_task c (\<lambda>t. t\<lparr>lock_count := lock_count t - 1\<rparr>) s"
  let ?s2 = "upd_task c (\<lambda>t. t\<lparr>flags := flags t AND NOT TASK_SCHED_DRIFT\<rparr>) ?s1"
  have c: "current_task s = Some c" using cpu by (simp add: on_cpu_def)
  have y: "task_yield env ?s2 = None"
    using run nz by (auto simp: scheduler_unlock_on_cpu [OF c] split: if_splits)
  have "kstep s ?s1" using cpu nz by (rule kstep.unlock)
  then have "ksteps 0 s ?s1" by (rule ksteps_one) simp
  then have r1: "returns_to c s ?s1" using inv cpu by (auto intro!: returns_toI simp: on_cpu_def)
  moreover have "returns_to c ?s1 ?s2"
    using r1 by (intro returns_to_flags) (simp_all add: returns_to_def)
  ultimately have r2: "returns_to c s ?s2" by (rule returns_to_trans)
  then have "starves env c ?s2" using y by (intro task_yield_returns) (simp_all add: returns_to_def)
  with r2 show ?thesis by (rule starves_later)
qed

section \<open>Sleeping\<close>

text \<open>The state in which \<^verbatim>\<open>sleep_ticks\<close> gives up the processor.\<close>

definition sleep_begin :: "tid \<Rightarrow> u32 \<Rightarrow> 'z kstate_scheme \<Rightarrow> 'z kstate_scheme option" where
  "sleep_begin c n s = do {
     s \<leftarrow> scheduler_lock s;
     s \<leftarrow> sleep_add_to_list c n s;
     Some (upd_task c (\<lambda>t. t\<lparr>state := TASK_TO_BE_SUSPENDED\<rparr>) (DISABLE_INTERRUPTS s))
   }"

lemma sleep_ticks_eq:
  assumes "current_task s = Some c"
  shows "sleep_ticks env n s = do {
    s3 \<leftarrow> sleep_begin c n s;
    s4 \<leftarrow> control_to_system env s3;
    scheduler_unlock env (s4\<lparr>sys_interrupt_level := sys_interrupt_level s\<rparr>) }"
proof -
  have lvl: "sys_interrupt_level s2 = sys_interrupt_level s"
    if "sleep_add_to_list c n s1 = Some s2" "scheduler_lock s = Some s1" for s1 s2
    using that assms
    by (auto simp: sleep_add_to_list_def scheduler_lock_def bind_Some_iff Let_def split: if_splits)
  show ?thesis
    using assms lvl
    by (auto simp: sleep_ticks_def sleep_begin_def int_level_defs Let_def bind_eq_None_conv
        intro!: bind_option_cong)
qed

lemma sleep_begin_facts:
  assumes inv: "kernel_inv s" and cpu: "on_cpu s c" and c: "c \<noteq> idle_task"
    and run: "sleep_begin c n s = Some s3"
  shows "ksteps 0 s s3 \<and> kernel_inv s3 \<and> current_task s3 = Some c \<and>
    state (tasks s3 c) = TASK_TO_BE_SUSPENDED \<and> c \<in> set (sleep_task_list s3) \<and>
    tick_sleep (tasks s3 c) = current_tick s + n \<and> current_tick s3 = current_tick s \<and>
    queued s3 c = queued s c \<and> lock_count (tasks s3 c) = lock_count (tasks s c) + 1"
proof -
  obtain s1 s2 where s1: "scheduler_lock s = Some s1" and s2: "sleep_add_to_list c n s1 = Some s2"
    and s3: "s3 = upd_task c (\<lambda>t. t\<lparr>state := TASK_TO_BE_SUSPENDED\<rparr>) (s2\<lparr>sys_interrupt_level := False\<rparr>)"
    using run by (auto simp: sleep_begin_def bind_Some_iff int_level_defs)
  note l = scheduler_lock_returns_to [OF inv cpu s1]
  have lim: "lock_count (tasks s c) < SCHEDULER_MAX_LOCK"
    using s1 cpu by (auto simp: scheduler_lock_def on_cpu_def not_le split: if_splits)
  have lc: "lock_count (tasks s c) + 1 \<noteq> 0"
  proof
    assume "lock_count (tasks s c) + 1 = 0"
    then have "lock_count (tasks s c) = - 1" by (simp add: eq_neg_iff_add_eq_0)
    with lim show False by (simp add: SCHEDULER_MAX_LOCK_def)
  qed
  have inv1: "kernel_inv s1" and cpu1: "on_cpu s1 c" using l unfolding returns_to_def by blast+
  have st2: "kstep s1 s2" using cpu1 c s2 by (rule kstep.sleep_on)
  have eq2: "s2 = (upd_task c (\<lambda>t. t\<lparr>tick_sleep := current_tick s + n\<rparr>) s1)
      \<lparr>sleep_task_list := sleep_task_list s2\<rparr>" "c \<in> set (sleep_task_list s2)"
    using s2 l by (auto simp: sleep_add_to_list_def bind_Some_iff Let_def)
  have cpu2: "on_cpu s2 c" using cpu1 by (subst eq2(1)) (simp add: on_cpu_def)
  have lc2: "lock_count (tasks s2 c) = lock_count (tasks s c) + 1"
    using l by (subst eq2(1)) simp
  have k2: "ksteps 0 s1 s2" using st2 by (rule ksteps_one) (subst eq2(1), simp)
  have k3: "ksteps 0 s2 (s2\<lparr>sys_interrupt_level := False\<rparr>)" using cpu2 by (rule level_steps)
  have st3: "kstep (s2\<lparr>sys_interrupt_level := False\<rparr>) s3"
    unfolding s3 by (rule kstep.suspend) (use cpu2 c lc2 lc in simp_all)
  then have k4: "ksteps 0 (s2\<lparr>sys_interrupt_level := False\<rparr>) s3" by (rule ksteps_one) (simp add: s3)
  have k1: "ksteps 0 s s1"
    using kstep.lock [OF cpu s1] by (rule ksteps_one) (use l in simp)
  have k: "ksteps 0 s s3"
    using ksteps_trans [OF ksteps_trans [OF ksteps_trans [OF k1 k2] k3] k4] by simp
  have "tick_sleep (tasks s2 c) = current_tick s + n" "current_tick s2 = current_tick s"
      "queued s2 c = queued s c" "current_task s2 = Some c"
    using l cpu1 by (subst eq2(1), simp add: on_cpu_def)+
  then show ?thesis using k ksteps_inv [OF k inv] eq2(2) lc2 by (simp add: s3)
qed

lemma INT32CMP_add:
  assumes "n < 2 ^ 31"
  shows "INT32CMP (k + n) k = int (unat n)"
proof -
  have "uint n < 2 ^ 31" using assms by (simp add: word_less_def)
  then have "signed_take_bit 31 (uint n) = uint n"
    by (intro signed_take_bit_int_eq_self) (use uint_ge_0 [of n] in linarith, simp)
  then show ?thesis by (simp add: INT32CMP_def sint_uint)
qed

lemma sleep_suspended:
  assumes inv: "kernel_inv s" and c: "current_task s = Some c" and ok: "env_ok env"
    and st: "state (tasks s c) = TASK_TO_BE_SUSPENDED" and sl: "c \<in> set (sleep_task_list s)"
    and q: "\<not> queued s c" and run: "control_to_system env s = Some s'"
  shows "\<exists>k. ksteps k s s' \<and> on_cpu s' c \<and> kernel_inv s' \<and> timed_out c s' \<and>
    lock_count (tasks s' c) = lock_count (tasks s c) \<and>
    INT32CMP (tick_sleep (tasks s c)) (current_tick s) \<le> int k"
proof -
  let ?s1 = "s\<lparr>sys_interrupt_level := True, pend_sv := True\<rparr>"
  obtain s2 where s2: "isr_pendsv_handle ?s1 = Some s2" "kernel_inv ?s1" "kernel_inv s2" "ksteps 0 s s2"
    and cases: "(current_task s2 = Some c \<and> s' = s2\<lparr>sys_interrupt_level := sys_interrupt_level s\<rparr>) \<or>
     (current_task s2 \<noteq> Some c \<and> (\<exists>k s3. others c k s2 s3 \<and>
        s' = s3\<lparr>sys_interrupt_level := sys_interrupt_level s\<rparr>))"
    using pend_own [OF inv c ok _ run] st by auto
  have own: "lock_count (tasks s2 c) = lock_count (tasks s c)"
      "asleep c (tick_sleep (tasks s c)) s2 \<or> (due s c \<and> timed_out c s2)"
      "current_tick s2 = current_tick s"
    using switch_own [OF s2(2) _ _ s2(1), of c c] c st sl q by (auto simp: asleep_def due_def)
  have early: "due s c \<Longrightarrow> INT32CMP (tick_sleep (tasks s c)) (current_tick s) \<le> int k" for k
    using INT32CMP_swap [of "current_tick s" "tick_sleep (tasks s c)"] by (simp add: due_def)
  have lvl: "timed_out c (x\<lparr>sys_interrupt_level := b\<rparr>) = timed_out c x" for x b
    by (simp add: timed_out_def)
  show ?thesis
    using cases
  proof (elim disjE conjE exE)
    assume again: "current_task s2 = Some c" and s': "s' = s2\<lparr>sys_interrupt_level := sys_interrupt_level s\<rparr>"
    have "on_cpu s2 c" using switch_back [OF s2(2) _ s2(1) again] c by simp
    then have "ksteps 0 s s'" using ksteps_trans [OF s2(4) level_steps] s' by simp
    moreover have "due s c" "timed_out c s2" using own(2) again by (auto simp: asleep_def)
    ultimately show ?thesis
      using \<open>on_cpu s2 c\<close> own(1) s' s2(3) early [of 0] by (intro exI [of _ 0]) (simp add: lvl)
  next
    fix k s3
    assume o: "others c k s2 s3" and s': "s' = s3\<lparr>sys_interrupt_level := sys_interrupt_level s\<rparr>"
    have a: "on_cpu s3 c" "lock_count (tasks s3 c) = lock_count (tasks s2 c)"
      using others_on_cpu [OF o s2(3)] by simp_all
    have "ksteps k s s'"
      using ksteps_trans [OF ksteps_trans [OF s2(4) others_ksteps [OF o]] level_steps [OF a(1)]] s'
      by simp
    moreover have "timed_out c s3 \<and> INT32CMP (tick_sleep (tasks s c)) (current_tick s) \<le> int k"
      using asleep_others [OF o s2(3)] timed_out_others [OF o s2(3)] own early by auto
    ultimately show ?thesis
      using a own(1) s' others_inv [OF o s2(3)] by (intro exI [of _ k]) (simp add: lvl)
  qed
qed

lemma sleep_ticks_spec:
  assumes inv: "kernel_inv s" and cpu: "on_cpu s c" and c: "c \<noteq> idle_task" and ok: "env_ok env"
    and q: "\<not> queued s c" and n: "n < 2 ^ 31" and run: "sleep_ticks env n s = Some s'"
  shows "\<exists>k. unat n \<le> k \<and> ksteps k s s' \<and> on_cpu s' c \<and> kernel_inv s' \<and>
    lock_count (tasks s' c) = lock_count (tasks s c) \<and>
    sys_interrupt_level s' = sys_interrupt_level s"
proof -
  have cur: "current_task s = Some c" using cpu by (simp add: on_cpu_def)
  obtain s3 s4 where s3: "sleep_begin c n s = Some s3" and s4: "control_to_system env s3 = Some s4"
    and u: "scheduler_unlock env (s4\<lparr>sys_interrupt_level := sys_interrupt_level s\<rparr>) = Some s'"
    using run by (auto simp: sleep_ticks_eq [OF cur] bind_Some_iff)
  note b = sleep_begin_facts [OF inv cpu c s3]
  obtain k where k: "ksteps k s3 s4" "on_cpu s4 c" "kernel_inv s4"
      "lock_count (tasks s4 c) = lock_count (tasks s3 c)"
      "INT32CMP (tick_sleep (tasks s3 c)) (current_tick s3) \<le> int k"
    using sleep_suspended [OF _ _ ok _ _ _ s4, of c] b q by auto
  let ?s5 = "s4\<lparr>sys_interrupt_level := sys_interrupt_level s\<rparr>"
  have r: "returns_to c ?s5 s'" "lock_count (tasks s' c) = lock_count (tasks s c)"
      "sys_interrupt_level s' = sys_interrupt_level s"
    using scheduler_unlock_returns_to [OF _ _ ok u, of c] k b by simp_all
  then obtain l where l: "ksteps l ?s5 s'" "on_cpu s' c" "kernel_inv s'" by (auto simp: returns_to_def)
  have "ksteps (0 + k + 0 + l) s s'"
    using b k(1) level_steps [OF k(2)] l(1) by (blast intro: ksteps_trans)
  moreover have "int (unat n) \<le> int k"
    using b k(5) INT32CMP_add [OF n, of "current_tick s"] by metis
  then have "unat n \<le> k" by (simp only: of_nat_le_iff)
  ultimately show ?thesis using l r by (intro exI [of _ "k + l"]) simp
qed

lemma sleep_ticks_returns:
  assumes inv: "kernel_inv s" and cpu: "on_cpu s c" and c: "c \<noteq> idle_task" and ok: "env_ok env"
    and lim: "lock_count (tasks s c) < SCHEDULER_MAX_LOCK" and sl: "c \<notin> set (sleep_task_list s)"
    and q: "\<not> queued s c" and run: "sleep_ticks env n s = None"
  shows "starves env c s"
proof -
  have cur: "current_task s = Some c" using cpu by (simp add: on_cpu_def)
  have "\<not> SCHEDULER_MAX_LOCK \<le> lock_count (tasks s c)" using lim by simp
  then obtain s3 where s3: "sleep_begin c n s = Some s3"
    using cur sl
    by (auto simp: sleep_begin_def scheduler_lock_def sleep_add_to_list_def Let_def seq_insert_def)
  note b = sleep_begin_facts [OF inv cpu c s3]
  show ?thesis
  proof (cases "control_to_system env s3")
    case None
    then have "starves env c s3" using b by (intro control_to_system_returns) auto
    then show ?thesis using b by (blast intro: starves_steps)
  next
    case (Some s4)
    let ?s5 = "s4\<lparr>sys_interrupt_level := sys_interrupt_level s\<rparr>"
    obtain k where k: "ksteps k s3 s4" "on_cpu s4 c" "kernel_inv s4"
        "lock_count (tasks s4 c) = lock_count (tasks s3 c)"
      using sleep_suspended [OF _ _ ok _ _ _ Some, of c] b q by auto
    have "scheduler_unlock env ?s5 = None" using run s3 Some by (simp add: sleep_ticks_eq [OF cur])
    moreover have "lock_count (tasks s c) + 1 \<noteq> 0"
      using lim by (metis SCHEDULER_MAX_LOCK_def add.commute eq_neg_iff_add_eq_0 linorder_not_le
          word_order.extremum)
    ultimately have "starves env c ?s5"
      using k b by (intro scheduler_unlock_returns) simp_all
    moreover have "ksteps (0 + k + 0) s ?s5"
      using b k(1) level_steps [OF k(2)] by (blast intro: ksteps_trans)
    ultimately show ?thesis by (blast intro: starves_steps)
  qed
qed

end
