(* ===== verification/Tasks.thy ===== *)
theory Tasks
  imports Blocking
begin

text \<open>
  The life of a task: \<^verbatim>\<open>task_create\<close> and \<^verbatim>\<open>task_entry_return\<close> (\<^verbatim>\<open>rtos/kernel/tasks.c\<close>),
  the initial stack frame (\<^verbatim>\<open>stack_init\<close> of the Cortex-M3 port), and the way the system
  starts: \<^verbatim>\<open>scheduler_init\<close>, \<^verbatim>\<open>idle_task_init\<close> and the first task. The invariant of the
  state machine holds when the first task gets the processor.
\<close>

section \<open>Memory\<close>

definition write32 :: "nat \<Rightarrow> u32 \<Rightarrow> (nat \<Rightarrow> u8) \<Rightarrow> nat \<Rightarrow> u8" where
  "write32 a v m = m(a := ucast v, a + 1 := ucast (drop_bit 8 v), a + 2 := ucast (drop_bit 16 v),
     a + 3 := ucast (drop_bit 24 v))"

definition read32 :: "nat \<Rightarrow> (nat \<Rightarrow> u8) \<Rightarrow> u32" where
  "read32 a m = ucast (m a) OR push_bit 8 (ucast (m (a + 1))) OR push_bit 16 (ucast (m (a + 2)))
     OR push_bit 24 (ucast (m (a + 3)))"

lemma read32_write32 [simp]: "read32 a (write32 a v m) = v"
proof (rule bit_word_eqI)
  fix n assume "n < LENGTH(32)"
  then consider "n < 8" | "8 \<le> n" "n < 16" | "16 \<le> n" "n < 24" | "24 \<le> n" "n < 32"
    by fastforce
  then show "bit (read32 a (write32 a v m)) n = bit v n"
    by cases (auto simp: read32_def write32_def bit_simps)
qed

lemma write32_other [simp]: "b < a \<or> a + 3 < b \<Longrightarrow> write32 a v m b = m b"
  by (auto simp: write32_def)

lemma read32_other [simp]: "b + 3 < a \<or> a + 3 < b \<Longrightarrow> read32 b (write32 a v m) = read32 b m"
  by (auto simp: read32_def)

section \<open>Creation\<close>

text \<open>
  \<open>sizeof(hardware_stack_farme)\<close> and \<open>sizeof(software_stack_farme)\<close> are 32 bytes each; the
  fields of the hardware frame are the words \<open>r0 r1 r2 r3 r12 lr pc psr\<close>.
\<close>

definition stack_init :: "tid \<Rightarrow> fptr \<Rightarrow> u32 \<Rightarrow> 'z kstate_scheme \<Rightarrow> 'z kstate_scheme" where
  "stack_init tcb task_entry arg s = (
     let s = upd_task tcb (\<lambda>t. t\<lparr>tos := tos t - 32\<rparr>) s;
         frame = tos (tasks s tcb);
         s = s\<lparr>ram := write32 frame arg (ram s)\<rparr>;
         s = s\<lparr>ram := write32 (frame + 4) 0 (ram s)\<rparr>;
         s = s\<lparr>ram := write32 (frame + 8) 0 (ram s)\<rparr>;
         s = s\<lparr>ram := write32 (frame + 12) 0 (ram s)\<rparr>;
         s = s\<lparr>ram := write32 (frame + 16) 0 (ram s)\<rparr>;
         s = s\<lparr>ram := write32 (frame + 24) (of_nat task_entry) (ram s)\<rparr>;
         s = s\<lparr>ram := write32 (frame + 20) 0 (ram s)\<rparr>;
         s = s\<lparr>ram := write32 (frame + 28) 0x1000000 (ram s)\<rparr>
     in upd_task tcb (\<lambda>t. t\<lparr>tos := tos t - 32\<rparr>) s)"

text \<open>A control block after \<^verbatim>\<open>memset(tcb, 0, sizeof(TASK))\<close>.\<close>

definition zero_task :: task where
  "zero_task = \<lparr>entry = 0, argv = 0, tos = 0, suspend_data = SD_null, tick_sleep = 0,
     state = TASK_TO_BE_SUSPENDED, num_conditions = 0, priority = 0, flags = 0, lock_count = 0,
     resume_from = TASK_RESUME_SYSTEM\<rparr>"

text \<open>\<open>entry_return\<close> is the address of \<^verbatim>\<open>task_entry_return\<close>.\<close>

definition task_create ::
    "fptr \<Rightarrow> tid \<Rightarrow> nat \<Rightarrow> nat \<Rightarrow> fptr \<Rightarrow> u32 \<Rightarrow> u8 \<Rightarrow> 'z kstate_scheme \<Rightarrow> 'z kstate_scheme" where
  "task_create entry_return tcb stack stack_size entry_fun arg fl s = (
     let s = upd_task tcb (\<lambda>_. zero_task) s;
         s = upd_task tcb (\<lambda>t. t\<lparr>entry := entry_fun, argv := arg, flags := fl, state := TASK_FINISHED\<rparr>) s;
         s = upd_task tcb (\<lambda>t. t\<lparr>tos := stack + stack_size\<rparr>) s
     in if flags (tasks s tcb) AND TASK_NO_RETURN \<noteq> 0
        then stack_init tcb entry_fun arg s
        else stack_init tcb entry_return arg s)"

text \<open>
  One round of the endless loop of \<^verbatim>\<open>task_entry_return\<close>: it runs the entry function of the
  current task, given by \<open>run\<close>, marks the task as finished and gives up the processor; \<open>irq\<close> is
  what interrupts do before the switch is requested.
\<close>

definition task_entry_round ::
    "('z kstate_scheme \<Rightarrow> 'z kstate_scheme option) \<Rightarrow> 'z env \<Rightarrow>
     (fptr \<Rightarrow> u32 \<Rightarrow> 'z kstate_scheme \<Rightarrow> 'z kstate_scheme option) \<Rightarrow> tid \<Rightarrow> u32 \<Rightarrow>
     'z kstate_scheme \<Rightarrow> 'z kstate_scheme option" where
  "task_entry_round irq env run tcb arg s = do {
     c \<leftarrow> current_task s;
     s \<leftarrow> run (entry (tasks s c)) arg s;
     let s = DISABLE_INTERRUPTS s;
     let s = upd_task tcb (\<lambda>t. t\<lparr>state := TASK_FINISHED\<rparr>) s;
     control_to_system_irq irq env s
   }"

text \<open>The loop does not end; \<open>task_entry_return n\<close> is the state after \<open>n\<close> rounds of it.\<close>

fun task_entry_rounds ::
    "('z kstate_scheme \<Rightarrow> 'z kstate_scheme option) \<Rightarrow> 'z env \<Rightarrow>
     (fptr \<Rightarrow> u32 \<Rightarrow> 'z kstate_scheme \<Rightarrow> 'z kstate_scheme option) \<Rightarrow> tid \<Rightarrow> u32 \<Rightarrow> nat \<Rightarrow>
     'z kstate_scheme \<Rightarrow> 'z kstate_scheme option" where
  "task_entry_rounds irq env run tcb arg 0 s = Some s"
| "task_entry_rounds irq env run tcb arg (Suc n) s = do {
     s \<leftarrow> task_entry_round irq env run tcb arg s;
     task_entry_rounds irq env run tcb arg n s }"

definition task_entry_return ::
    "('z kstate_scheme \<Rightarrow> 'z kstate_scheme option) \<Rightarrow> 'z env \<Rightarrow>
     (fptr \<Rightarrow> u32 \<Rightarrow> 'z kstate_scheme \<Rightarrow> 'z kstate_scheme option) \<Rightarrow> u32 \<Rightarrow> nat \<Rightarrow>
     'z kstate_scheme \<Rightarrow> 'z kstate_scheme option" where
  "task_entry_return irq env run arg n s = do {
     let tcb = current_task s;
     ASSERT (\<not> sys_interrupt_level s);
     tcb \<leftarrow> tcb;
     task_entry_rounds irq env run tcb arg n s
   }"

section \<open>The start of the system\<close>

definition idle_task_init ::
    "fptr \<Rightarrow> nat \<Rightarrow> nat \<Rightarrow> fptr \<Rightarrow> 'z kstate_scheme \<Rightarrow> 'z kstate_scheme option" where
  "idle_task_init entry_return idle_task_stack stack_size idle_task_entry s = do {
     let s = task_create entry_return idle_task idle_task_stack stack_size idle_task_entry 0 TASK_NO_RETURN s;
     scheduler_task_add idle_task (SCHEDULER_MAX_PRI + 1) s
   }"

definition scheduler_init ::
    "fptr \<Rightarrow> nat \<Rightarrow> nat \<Rightarrow> fptr \<Rightarrow> 'z kstate_scheme \<Rightarrow> 'z kstate_scheme option" where
  "scheduler_init entry_return idle_task_stack stack_size idle_task_entry s = do {
     let s = s\<lparr>sch_ready_task_list := []\<rparr>;
     idle_task_init entry_return idle_task_stack stack_size idle_task_entry s
   }"

text \<open>\<open>tick_init\<close> is the target's \<^verbatim>\<open>system_tick_Init\<close>.\<close>

definition kernel_run ::
    "('z kstate_scheme \<Rightarrow> 'z kstate_scheme) \<Rightarrow> 'z kstate_scheme \<Rightarrow> 'z kstate_scheme option" where
  "kernel_run tick_init s = run_first_task (tick_init s)"

definition idle_task_get :: tid where "idle_task_get = idle_task"

section \<open>The initial frame\<close>

text \<open>The words the hardware pops when it returns into a task: \<open>r0 r1 r2 r3 r12 lr pc psr\<close>.\<close>

definition hardware_frame :: "nat \<Rightarrow> (nat \<Rightarrow> u8) \<Rightarrow> u32 list" where
  "hardware_frame a m = map (\<lambda>i. read32 (a + 4 * i) m) [0..<8]"

lemma stack_init_sel [simp]:
  "tasks (stack_init t e arg s) = (tasks s)(t := (tasks s t)\<lparr>tos := tos (tasks s t) - 32 - 32\<rparr>)"
  "sch_ready_task_list (stack_init t e arg s) = sch_ready_task_list s"
  "sleep_task_list (stack_init t e arg s) = sleep_task_list s"
  "current_tick (stack_init t e arg s) = current_tick s"
  "current_task (stack_init t e arg s) = current_task s"
  "return_task (stack_init t e arg s) = return_task s"
  "pend_sv (stack_init t e arg s) = pend_sv s"
  "sys_interrupt_level (stack_init t e arg s) = sys_interrupt_level s"
  "conds (stack_init t e arg s) = conds s"
  "suspends (stack_init t e arg s) = suspends s"
  "sems (stack_init t e arg s) = sems s"
  by (simp_all add: stack_init_def Let_def)

lemma stack_init_ram:
  "ram (stack_init t e arg s) = (let f = tos (tasks s t) - 32 in
     write32 (f + 28) 0x1000000 (write32 (f + 20) 0 (write32 (f + 24) (of_nat e)
       (write32 (f + 16) 0 (write32 (f + 12) 0 (write32 (f + 8) 0 (write32 (f + 4) 0
         (write32 f arg (ram s)))))))))"
  by (simp add: stack_init_def Let_def)

lemma stack_init_frame:
  "hardware_frame (tos (tasks s t) - 32) (ram (stack_init t e arg s)) =
     [arg, 0, 0, 0, 0, 0, of_nat e, 0x1000000]"
  unfolding hardware_frame_def stack_init_ram Let_def by (simp add: upt_rec)

lemma stack_init_outside:
  "b < tos (tasks s t) - 32 \<or> tos (tasks s t) \<le> b \<Longrightarrow> 32 \<le> tos (tasks s t) \<Longrightarrow>
   ram (stack_init t e arg s) b = ram s b"
proof -
  assume b: "b < tos (tasks s t) - 32 \<or> tos (tasks s t) \<le> b" and "32 \<le> tos (tasks s t)"
  then obtain f where f: "tos (tasks s t) = f + 32" by (metis add.commute le_Suc_ex)
  then have "b < f \<or> f + 32 \<le> b" using b by simp
  then show ?thesis by (auto simp: stack_init_ram Let_def f)
qed

lemma task_create_eq:
  "task_create r t stack sz e arg fl s =
     stack_init t (if fl AND TASK_NO_RETURN \<noteq> 0 then e else r) arg
       (upd_task t (\<lambda>_. zero_task\<lparr>entry := e, argv := arg, flags := fl, state := TASK_FINISHED,
          tos := stack + sz\<rparr>) s)"
  by (simp add: task_create_def Let_def upd_task_def)

section \<open>The invariant holds from the start\<close>

text \<open>Before the first task runs.\<close>

definition boot_inv :: "'z kstate_scheme \<Rightarrow> bool" where
  "boot_inv s \<longleftrightarrow> ready_inv s \<and> sleep_task_list s = [] \<and> current_task s = None \<and>
     return_task s = None \<and> \<not> pend_sv s \<and> (\<forall>t. state (tasks s t) \<noteq> TASK_RUNNING) \<and>
     idle_task \<in> set (sch_ready_task_list s) \<and>
     priority (tasks s idle_task) = SCHEDULER_MAX_PRI + 1 \<and>
     (\<forall>t. t \<noteq> idle_task \<longrightarrow> priority (tasks s t) \<le> SCHEDULER_MAX_PRI)"

lemma boot_invD:
  assumes "boot_inv s"
  shows "ready_inv s" "sleep_task_list s = []" "current_task s = None" "return_task s = None"
    "\<not> pend_sv s" "state (tasks s t) \<noteq> TASK_RUNNING" "idle_task \<in> set (sch_ready_task_list s)"
    "priority (tasks s idle_task) = SCHEDULER_MAX_PRI + 1"
    "t \<noteq> idle_task \<Longrightarrow> priority (tasks s t) \<le> SCHEDULER_MAX_PRI"
  using assms unfolding boot_inv_def by simp_all

text \<open>A change of one task that is not the idle task.\<close>

lemma boot_inv_upd:
  assumes "boot_inv s" and "t \<noteq> idle_task" and "ready_inv s'"
    and "\<And>x. x \<noteq> t \<Longrightarrow> tasks s' x = tasks s x" and "state (tasks s' t) \<noteq> TASK_RUNNING"
    and "priority (tasks s' t) \<le> SCHEDULER_MAX_PRI" and "sleep_task_list s' = []"
    and "current_task s' = None" "return_task s' = None" "\<not> pend_sv s'"
    and "idle_task \<in> set (sch_ready_task_list s')"
  shows "boot_inv s'"
proof -
  have "state (tasks s' x) \<noteq> TASK_RUNNING" for x
    using assms(4,5) boot_invD(6) [OF assms(1), of x] by (cases "x = t") simp_all
  moreover have "x \<noteq> idle_task \<Longrightarrow> priority (tasks s' x) \<le> SCHEDULER_MAX_PRI" for x
    using assms(4,6) boot_invD(9) [OF assms(1), of x] by (cases "x = t") simp_all
  moreover have "priority (tasks s' idle_task) = SCHEDULER_MAX_PRI + 1"
    using assms(2,4) boot_invD(8) [OF assms(1)] by simp
  ultimately show ?thesis using assms by (simp add: boot_inv_def)
qed

lemma scheduler_init_boot:
  assumes "sleep_task_list s = []" "current_task s = None" "return_task s = None" "\<not> pend_sv s"
    and "\<And>t. state (tasks s t) \<noteq> TASK_RUNNING"
    and "\<And>t. t \<noteq> idle_task \<Longrightarrow> priority (tasks s t) \<le> SCHEDULER_MAX_PRI"
  shows "\<exists>s'. scheduler_init r stack sz e s = Some s' \<and> boot_inv s' \<and>
    sch_ready_task_list s' = [idle_task]"
  using assms
  by (auto simp: scheduler_init_def idle_task_init_def task_create_eq scheduler_task_add_eq Let_def
      boot_inv_def ready_inv_def resumed_task_def zero_task_def)

lemma task_create_boot:
  assumes "boot_inv s" "t \<notin> set (sch_ready_task_list s)"
  shows "boot_inv (task_create r t stack sz e arg fl s)"
proof -
  have i: "t \<noteq> idle_task" using boot_invD(7) [OF assms(1)] assms(2) by auto
  have "ready_inv (task_create r t stack sz e arg fl s)"
    by (rule ready_inv_cong [OF _ _ _ boot_invD(1) [OF assms(1)]])
      (use assms(2) in \<open>auto simp: task_create_eq\<close>)
  then show ?thesis
    by (rule boot_inv_upd [OF assms(1) i])
      (use boot_invD(2-5,7) [OF assms(1)] in \<open>simp_all add: task_create_eq zero_task_def\<close>)
qed

lemma scheduler_task_add_boot:
  assumes "boot_inv s" "t \<notin> set (sch_ready_task_list s)" "pri \<le> SCHEDULER_MAX_PRI"
  shows "\<exists>s'. scheduler_task_add t pri s = Some s' \<and> boot_inv s' \<and>
    set (sch_ready_task_list s') = insert t (set (sch_ready_task_list s))"
proof -
  let ?s1 = "upd_task t (\<lambda>x. x\<lparr>priority := pri\<rparr>) s"
  let ?s' = "upd_task t (resumed_task YIELD_SYSTEM) ?s1
    \<lparr>sch_ready_task_list := ins (scheduler_task_sort ?s1) t (sch_ready_task_list s)\<rparr>"
  have i: "t \<noteq> idle_task" using boot_invD(7) [OF assms(1)] assms(2) by auto
  have r1: "ready_inv ?s1"
    by (rule ready_inv_cong [OF _ _ _ boot_invD(1) [OF assms(1)]]) (use assms(2) in auto)
  have "scheduler_task_yield t YIELD_SYSTEM ?s1 = Some ?s'"
    using assms(2) by (simp add: scheduler_task_yield_eq)
  then have "ready_inv ?s'" by (rule scheduler_task_yield_ready_inv [OF r1])
  then have "boot_inv ?s'"
    by (rule boot_inv_upd [OF assms(1) i])
      (use boot_invD(2-5,7) [OF assms(1)] assms(3) in \<open>simp_all add: resumed_task_def\<close>)
  moreover have "scheduler_task_add t pri s = Some ?s'"
    using assms(2,3) by (auto simp: scheduler_task_add_eq upd_task_def)
  ultimately show ?thesis by auto
qed

lemma run_first_task_inv:
  assumes "boot_inv s"
  shows "\<exists>s' n. run_first_task s = Some s' \<and> kernel_inv s' \<and> on_cpu s' n \<and>
    n \<in> set (sch_ready_task_list s) \<and>
    (\<forall>t \<in> set (sch_ready_task_list s). priority (tasks s n) \<le> priority (tasks s t))"
proof -
  obtain n q where q: "sch_ready_task_list s = n # q"
    using boot_invD(7) [OF assms] by (cases "sch_ready_task_list s") auto
  let ?s' = "upd_task n (\<lambda>t. t\<lparr>state := TASK_RUNNING\<rparr>)
    (s\<lparr>sch_ready_task_list := q, current_task := Some n, sys_interrupt_level := True\<rparr>)"
  have empty: "sleep_process_system_tick s0 = Some s0" if "sleep_task_list s0 = []" for s0 :: "'a kstate_scheme"
    using that by (simp add: sleep_process_system_tick_def sleep_process_loop.simps)
  have run: "run_first_task s = Some ?s'"
    using boot_invD(2) [OF assms] q
    by (simp add: run_first_task_def scheduler_get_next_task_def empty upd_task_def Let_def)
  note rdy = boot_invD(1) [OF assms]
  have nq: "n \<notin> set q" using rdy q by (simp add: ready_inv_def)
  have "kernel_inv ?s'"
  proof (rule kernel_invI [where c = n])
    show "ready_inv ?s'"
    proof (rule ready_inv_cong [of _ "s\<lparr>sch_ready_task_list := q\<rparr>"])
      show "ready_inv (s\<lparr>sch_ready_task_list := q\<rparr>)"
        using rdy q by (simp add: ready_inv_def)
    qed (use nq in auto)
    show "\<And>t. state (tasks ?s' t) = TASK_RUNNING \<Longrightarrow> t = n"
      using boot_invD(6) [OF assms] by (simp split: if_splits)
    show "idle_task \<in> set (sch_ready_task_list ?s') \<or> state (tasks ?s' idle_task) = TASK_RUNNING"
      using boot_invD(7) [OF assms] q by auto
    show "priority (tasks ?s' t) \<le> SCHEDULER_MAX_PRI" if "t \<noteq> idle_task" for t
      using boot_invD(9) [OF assms that] that by (cases "t = n") simp_all
    show "priority (tasks ?s' idle_task) = SCHEDULER_MAX_PRI + 1"
      using boot_invD(8) [OF assms] by (cases "idle_task = n") simp_all
  qed (use boot_invD(2-5) [OF assms] in simp_all)
  moreover have "\<forall>t \<in> set q. priority (tasks s n) \<le> priority (tasks s t)"
    using rdy q by (simp add: ready_inv_def runs_before_def)
  moreover have "on_cpu ?s' n" using boot_invD(5) [OF assms] by (simp add: on_cpu_def)
  ultimately show ?thesis using run q by (intro exI [of _ ?s'] exI [of _ n]) simp
qed

end
