(* ===== verification/Condition.thy ===== *)
theory Condition
  imports Tasks
begin

text \<open>
  Conditions: \<^verbatim>\<open>rtos/kernel/condition.c\<close>. A task waits on several conditions at once through
  one suspend structure for each; resuming a condition pops the suspend structures that match
  and makes their tasks ready.

  The callbacks of a condition (\<^verbatim>\<open>do_suspend\<close>, \<^verbatim>\<open>lock\<close>, \<^verbatim>\<open>unlock\<close>) are function pointers
  looked up in a table; the callback of a resumption is a function on its parameter. The
  table also holds the environment of the blocking routines and the byte a read through the
  NULL pointer yields, because \<^verbatim>\<open>suspend_condition\<close> reads \<^verbatim>\<open>*num\<close> when \<^verbatim>\<open>num\<close> is NULL.
\<close>

record 'z platform =
  env :: "'z env"
  cb_do_suspend :: "fptr \<Rightarrow> addr \<Rightarrow> addr \<Rightarrow> 'z kstate_scheme \<Rightarrow> bool"
  cb_lock :: "fptr \<Rightarrow> addr \<Rightarrow> 'z kstate_scheme \<Rightarrow> 'z kstate_scheme option"
  cb_unlock :: "fptr \<Rightarrow> addr \<Rightarrow> 'z kstate_scheme \<Rightarrow> 'z kstate_scheme option"
  null_byte :: u8

record 'p resume =
  do_resume :: "('p \<Rightarrow> addr \<Rightarrow> bool \<times> 'p) option"
  r_param :: "'p option"
  r_status :: int

section \<open>Helpers\<close>

definition suspend_sreach ::
    "('p \<Rightarrow> addr \<Rightarrow> bool \<times> 'p) \<Rightarrow> 'z kstate_scheme \<Rightarrow> sid \<Rightarrow> 'p \<Rightarrow> bool \<times> 'p" where
  "suspend_sreach f s node p = f p (s_param (suspends s node))"

text \<open>The loops walk the two arrays; running off their end has no defined result.\<close>

fun suspend_unlock_condition ::
    "'z platform \<Rightarrow> cid list \<Rightarrow> sid list \<Rightarrow> nat \<Rightarrow> 'z kstate_scheme \<Rightarrow> 'z kstate_scheme option" where
  "suspend_unlock_condition P cs ps 0 s = Some s"
| "suspend_unlock_condition P (c # cs) (p # ps) (Suc n) s = do {
     s \<leftarrow> (if status (suspends s p) \<ge> SUCCESS
           then (case c_unlock (conds s c) of
                   Some f \<Rightarrow> cb_unlock P f (c_data (conds s c)) s
                 | None \<Rightarrow> Some s)
           else Some s);
     suspend_unlock_condition P cs ps n s }"
| "suspend_unlock_condition P _ _ (Suc n) s = None"

fun suspend_lock_condition ::
    "'z platform \<Rightarrow> cid list \<Rightarrow> sid list \<Rightarrow> nat \<Rightarrow> 'z kstate_scheme \<Rightarrow> 'z kstate_scheme option" where
  "suspend_lock_condition P cs ps 0 s = Some s"
| "suspend_lock_condition P (c # cs) (p # ps) (Suc n) s = do {
     s \<leftarrow> (if status (suspends s p) \<ge> SUCCESS
           then (case c_lock (conds s c) of
                   Some f \<Rightarrow> cb_lock P f (c_data (conds s c)) s
                 | None \<Rightarrow> Some s)
           else Some s);
     suspend_lock_condition P cs ps n s }"
| "suspend_lock_condition P _ _ (Suc n) s = None"

fun suspend_condition_add_task ::
    "cid list \<Rightarrow> sid list \<Rightarrow> nat \<Rightarrow> tid \<Rightarrow> 'z kstate_scheme \<Rightarrow> 'z kstate_scheme option" where
  "suspend_condition_add_task cs ps 0 tcb s = Some s"
| "suspend_condition_add_task (c # cs) (p # ps) (Suc n) tcb s = do {
     let s = upd_suspend p (\<lambda>x. x\<lparr>s_task := Some tcb\<rparr>) s;
     q \<leftarrow> seq_append p (suspend_list (conds s c));
     suspend_condition_add_task cs ps n tcb (upd_cond c (\<lambda>x. x\<lparr>suspend_list := q\<rparr>) s) }"
| "suspend_condition_add_task _ _ (Suc n) tcb s = None"

text \<open>\<^verbatim>\<open>ASSERT(sll_remove(list, suspend) != suspend)\<close>.\<close>

definition suspend_unqueue :: "cid \<Rightarrow> sid \<Rightarrow> 'z kstate_scheme \<Rightarrow> 'z kstate_scheme option" where
  "suspend_unqueue c p s = do {
     let (r, q) = seq_remove p (suspend_list (conds s c));
     ASSERT (r \<noteq> Some p);
     Some (upd_cond c (\<lambda>x. x\<lparr>suspend_list := q\<rparr>) s) }"

fun suspend_condition_remove_all ::
    "cid list \<Rightarrow> sid list \<Rightarrow> nat \<Rightarrow> 'z kstate_scheme \<Rightarrow> 'z kstate_scheme option" where
  "suspend_condition_remove_all cs ps 0 s = Some s"
| "suspend_condition_remove_all (c # cs) (p # ps) (Suc n) s = do {
     s \<leftarrow> suspend_unqueue c p s;
     suspend_condition_remove_all cs ps n s }"
| "suspend_condition_remove_all _ _ (Suc n) s = None"

text \<open>The loop of \<^verbatim>\<open>suspend_condition_remove\<close> with its index, \<open>old_priority\<close> and \<open>*return_num\<close>.\<close>

fun suspend_condition_remove_loop ::
    "cid list \<Rightarrow> sid list \<Rightarrow> nat \<Rightarrow> u8 \<Rightarrow> suspend_data \<Rightarrow> u8 \<Rightarrow> u8 \<Rightarrow> 'z kstate_scheme \<Rightarrow>
     (u8 \<times> 'z kstate_scheme) option" where
  "suspend_condition_remove_loop cs ps 0 i rc old ret s = Some (ret, s)"
| "suspend_condition_remove_loop (c # cs) (p # ps) (Suc n) i rc old ret s = do {
     s \<leftarrow> (if rc \<noteq> SD_condition c then suspend_unqueue c p s else Some s);
     let ret = (if status (suspends s p) < SUCCESS \<or>
                   (may_resume (suspends s p) \<and> old > s_priority (suspends s p))
                then i else ret);
     suspend_condition_remove_loop cs ps n (i + 1) rc old ret s }"
| "suspend_condition_remove_loop _ _ (Suc n) i rc old ret s = None"

definition suspend_condition_remove ::
    "cid list \<Rightarrow> sid list \<Rightarrow> nat \<Rightarrow> suspend_data \<Rightarrow> u8 \<Rightarrow> 'z kstate_scheme \<Rightarrow>
     (u8 \<times> 'z kstate_scheme) option" where
  "suspend_condition_remove cs ps n rc ret s =
     suspend_condition_remove_loop cs ps n 0 rc SUSPEND_INVALID_PRIORITY ret s"

text \<open>The condition lets the task go on: its callback says so, or it was pinged.\<close>

definition satisfied :: "'z platform \<Rightarrow> cid \<Rightarrow> sid \<Rightarrow> 'z kstate_scheme \<Rightarrow> bool" where
  "satisfied P c p s \<longleftrightarrow>
     (case do_suspend (conds s c) of
        Some f \<Rightarrow> \<not> cb_do_suspend P f (c_data (conds s c)) (s_param (suspends s p)) s
      | None \<Rightarrow> False) \<or>
     c_flags (conds s c) AND CONDITION_PING \<noteq> 0"

fun suspend_do_suspend_loop ::
    "'z platform \<Rightarrow> cid list \<Rightarrow> sid list \<Rightarrow> nat \<Rightarrow> u8 \<Rightarrow> bool \<Rightarrow> u8 \<Rightarrow> u8 \<Rightarrow> 'z kstate_scheme \<Rightarrow>
     (bool \<times> u8 \<times> 'z kstate_scheme) option" where
  "suspend_do_suspend_loop P cs ps 0 i dos old ret s = Some (dos, ret, s)"
| "suspend_do_suspend_loop P (c # cs) (p # ps) (Suc n) i dos old ret s =
     (if satisfied P c p s
      then (if old > s_priority (suspends s p)
            then suspend_do_suspend_loop P cs ps n (i + 1) False (s_priority (suspends s p)) i s
            else suspend_do_suspend_loop P cs ps n (i + 1) False old ret s)
      else suspend_do_suspend_loop P cs ps n (i + 1) dos old ret
             (upd_suspend p (\<lambda>x. x\<lparr>may_resume := False\<rparr>) s))"
| "suspend_do_suspend_loop P _ _ (Suc n) i dos old ret s = None"

definition suspend_do_suspend ::
    "'z platform \<Rightarrow> cid list \<Rightarrow> sid list \<Rightarrow> nat \<Rightarrow> u8 \<Rightarrow> 'z kstate_scheme \<Rightarrow>
     (bool \<times> u8 \<times> 'z kstate_scheme) option" where
  "suspend_do_suspend P cs ps n ret s =
     suspend_do_suspend_loop P cs ps n 0 True SUSPEND_INVALID_PRIORITY ret s"

definition suspend_is_task_waiting :: "tid \<Rightarrow> cid \<Rightarrow> 'z kstate_scheme \<Rightarrow> bool option" where
  "suspend_is_task_waiting t c s =
     (if num_conditions (tasks s t) = 0 then Some False
      else case suspend_data (tasks s t) of
        SD_conditions cs \<Rightarrow>
          (if c \<in> set (take (unat (num_conditions (tasks s t))) cs) then Some True
           else if unat (num_conditions (tasks s t)) \<le> length cs then Some False
           else None)
      | _ \<Rightarrow> None)"

fun suspend_timeout_loop ::
    "sid list \<Rightarrow> nat \<Rightarrow> u8 \<Rightarrow> u32 \<Rightarrow> u32 \<Rightarrow> u8 \<Rightarrow> 'z kstate_scheme \<Rightarrow> (u32 \<times> u8) option" where
  "suspend_timeout_loop ps 0 i clock min_timeout min_index s = Some (min_timeout, min_index)"
| "suspend_timeout_loop (p # ps) (Suc n) i clock min_timeout min_index s =
     (if timeout_enabled (suspends s p)
      then let this_timeout = (if INT32CMP (timeout (suspends s p)) clock > 0
                               then timeout (suspends s p) - clock else 0)
           in if this_timeout < min_timeout
              then suspend_timeout_loop ps n (i + 1) clock this_timeout i s
              else suspend_timeout_loop ps n (i + 1) clock min_timeout min_index s
      else suspend_timeout_loop ps n (i + 1) clock min_timeout min_index s)"
| "suspend_timeout_loop _ (Suc n) i clock min_timeout min_index s = None"

definition suspend_timeout_get_min :: "sid list \<Rightarrow> nat \<Rightarrow> 'z kstate_scheme \<Rightarrow> (u32 \<times> u8) option" where
  "suspend_timeout_get_min ps n s =
     suspend_timeout_loop ps n 0 (fst (current_system_tick s)) MAX_WAIT 0 s"

section \<open>Suspending\<close>

text \<open>
  One round of the loop of \<^verbatim>\<open>suspend_condition\<close>, after \<^verbatim>\<open>suspend_do_suspend\<close> said that the
  task has to wait: whether to leave the loop, the status and the index.
\<close>

definition suspend_round ::
    "'z platform \<Rightarrow> cid list \<Rightarrow> sid list \<Rightarrow> nat \<Rightarrow> tid \<Rightarrow> u32 \<Rightarrow> u8 \<Rightarrow> u8 \<Rightarrow> 'z kstate_scheme \<Rightarrow>
     (bool \<times> int \<times> u8 \<times> 'z kstate_scheme) option" where
  "suspend_round P cs ps n tcb tmo timeout_index return_num s = do {
     s \<leftarrow> suspend_condition_add_task cs ps n tcb s;
     s \<leftarrow> scheduler_lock s;
     s \<leftarrow> (if tmo \<noteq> MAX_WAIT then sleep_add_to_list tcb tmo s else Some s);
     let interrupt_level = sys_interrupt_level s;
     let s = DISABLE_INTERRUPTS s;
     s \<leftarrow> suspend_unlock_condition P cs ps n s;
     let s = upd_task tcb (\<lambda>t. t\<lparr>state := TASK_TO_BE_SUSPENDED\<rparr>) s;
     let s = upd_task tcb (\<lambda>t. t\<lparr>num_conditions := of_nat n, suspend_data := SD_conditions cs\<rparr>) s;
     s \<leftarrow> control_to_system (env P) s;
     let resume_cond = suspend_data (tasks s tcb);
     let res_from = resume_from (tasks s tcb);
     let s = SET_INTERRUPT_LEVEL interrupt_level s;
     s \<leftarrow> (if res_from \<noteq> TASK_RESUME_SLEEP \<and> tmo \<noteq> MAX_WAIT
           then sleep_remove_from_list tcb s else Some s);
     s \<leftarrow> scheduler_unlock (env P) s;
     s \<leftarrow> suspend_lock_condition P cs ps n s;
     (if res_from = TASK_RESUME_SLEEP then do {
        ASSERT (tmo = MAX_WAIT);
        s \<leftarrow> suspend_condition_remove_all cs ps n s;
        Some (True, CONDITION_TIMEOUT, timeout_index, s)
      }
      else do {
        (return_num, s) \<leftarrow> suspend_condition_remove cs ps n resume_cond return_num s;
        IN_RANGE (unat return_num < length cs \<and> unat return_num < length ps);
        let c = cs ! unat return_num;
        let p = ps ! unat return_num;
        (if status (suspends s p) \<noteq> SUCCESS then Some (True, status (suspends s p), return_num, s)
         else if c_flags (conds s c) AND CONDITION_PING \<noteq> 0 then Some (True, SUCCESS, return_num, s)
         else case do_suspend (conds s c) of
           Some f \<Rightarrow>
             if \<not> cb_do_suspend P f (c_data (conds s c)) (s_param (suspends s p)) s
             then Some (True, SUCCESS, return_num, s)
             else Some (False, SUCCESS, return_num, s)
         | None \<Rightarrow> Some (False, SUCCESS, return_num, s))
      })
   }"

partial_function (option) suspend_loop ::
    "'z platform \<Rightarrow> cid list \<Rightarrow> sid list \<Rightarrow> nat \<Rightarrow> tid \<Rightarrow> u32 \<Rightarrow> u8 \<Rightarrow> u8 \<Rightarrow> 'z kstate_scheme \<Rightarrow>
     (int \<times> u8 \<times> 'z kstate_scheme) option" where
  "suspend_loop P cs ps n tcb tmo timeout_index return_num s = do {
     (wait, return_num, s) \<leftarrow> suspend_do_suspend P cs ps n return_num s;
     (if wait then do {
        (leave, st, return_num, s) \<leftarrow> suspend_round P cs ps n tcb tmo timeout_index return_num s;
        (if leave then Some (st, return_num, s)
         else suspend_loop P cs ps n tcb tmo timeout_index return_num s)
      }
      else Some (SUCCESS, return_num, s))
   }"

declare suspend_loop.simps [code]

text \<open>
  \<open>num\<close> is the value behind the pointer \<^verbatim>\<open>num\<close>, or \<open>None\<close> when the pointer is NULL; the
  result has the value written back. \<^verbatim>\<open>if (*num != NULL)\<close> at the end reads through the
  pointer; when it is NULL, and what is read there is not 0, the write has no defined result.
\<close>

definition suspend_condition ::
    "'z platform \<Rightarrow> cid list \<Rightarrow> sid list \<Rightarrow> u8 option \<Rightarrow> bool \<Rightarrow> 'z kstate_scheme \<Rightarrow>
     (int \<times> u8 option \<times> 'z kstate_scheme) option" where
  "suspend_condition P cs ps num locked s = do {
     let tcb = current_task s;
     ASSERT (tcb = None);
     tcb \<leftarrow> tcb;
     let num_conditions = (case num of Some k \<Rightarrow> k | None \<Rightarrow> 1);
     let n = unat num_conditions;
     s \<leftarrow> (if \<not> locked then suspend_lock_condition P cs ps n s else Some s);
     (tmo, timeout_index) \<leftarrow> suspend_timeout_get_min ps n s;
     (st, return_num, s) \<leftarrow> suspend_loop P cs ps n tcb tmo timeout_index num_conditions s;
     IN_RANGE (unat return_num < length cs);
     let c = cs ! unat return_num;
     let s = (if c_flags (conds s c) AND CONDITION_PING \<noteq> 0
              then upd_cond c (\<lambda>x. x\<lparr>c_flags := c_flags x AND NOT CONDITION_PING\<rparr>) s else s);
     s \<leftarrow> (if \<not> locked then suspend_unlock_condition P cs ps n s else Some s);
     let at_num = (case num of Some k \<Rightarrow> k | None \<Rightarrow> null_byte P);
     num \<leftarrow> (if at_num \<noteq> 0
             then (case num of Some _ \<Rightarrow> Some (Some return_num) | None \<Rightarrow> None)
             else Some num);
     Some (st, num, s)
   }"

section \<open>Resuming\<close>

text \<open>What happens to a suspend structure that was popped from the list of condition \<open>c\<close>.\<close>

definition resume_one ::
    "cid \<Rightarrow> 'p resume option \<Rightarrow> sid \<Rightarrow> bool \<times> sid list \<times> 'z kstate_scheme \<Rightarrow>
     (bool \<times> sid list \<times> 'z kstate_scheme) option" where
  "resume_one c res p = (\<lambda>(yield_task, tmp_list, s). do {
     let interrupt_level = sys_interrupt_level s;
     let s = DISABLE_INTERRUPTS s;
     let s = upd_suspend p (\<lambda>x. x\<lparr>status :=
         (case res of Some r \<Rightarrow> r_status r | None \<Rightarrow> SUCCESS)\<rparr>) s;
     let s = upd_suspend p (\<lambda>x. x\<lparr>may_resume := True\<rparr>) s;
     t \<leftarrow> s_task (suspends s p);
     waiting \<leftarrow> (if state (tasks s t) = TASK_SUSPENDED \<or> state (tasks s t) = TASK_TO_BE_SUSPENDED
                 then suspend_is_task_waiting t c s else Some False);
     (yield_task, tmp_list, s) \<leftarrow>
       (if waiting then do {
          let s = upd_task t (\<lambda>x. x\<lparr>suspend_data := SD_condition c\<rparr>) s;
          s \<leftarrow> scheduler_task_yield t YIELD_SYSTEM s;
          Some (True, tmp_list, s)
        }
        else do {
          tmp_list \<leftarrow> seq_push p tmp_list;
          Some (yield_task, tmp_list, s)
        });
     Some (yield_task, tmp_list, SET_INTERRUPT_LEVEL interrupt_level s)
   })"

text \<open>The next suspend structure, and the parameter as its callback leaves it.\<close>

definition resume_next ::
    "cid \<Rightarrow> 'p resume option \<Rightarrow> 'z kstate_scheme \<Rightarrow>
     (sid option \<times> 'p resume option \<times> 'z kstate_scheme) option" where
  "resume_next c res s =
     (case res of
        Some r \<Rightarrow>
          (case r_param r of
             Some par \<Rightarrow> do {
               ASSERT (do_resume r = None);
               f \<leftarrow> do_resume r;
               let (p, par, q) = seq_search_pop (suspend_sreach f s) par (suspend_list (conds s c));
               Some (p, Some (r\<lparr>r_param := Some par\<rparr>), upd_cond c (\<lambda>x. x\<lparr>suspend_list := q\<rparr>) s)
             }
           | None \<Rightarrow>
               let (p, q) = seq_pop (suspend_list (conds s c))
               in Some (p, res, upd_cond c (\<lambda>x. x\<lparr>suspend_list := q\<rparr>) s))
      | None \<Rightarrow>
          let (p, q) = seq_pop (suspend_list (conds s c))
          in Some (p, res, upd_cond c (\<lambda>x. x\<lparr>suspend_list := q\<rparr>) s))"

partial_function (option) resume_loop ::
    "cid \<Rightarrow> 'p resume option \<Rightarrow> bool \<times> sid list \<times> 'z kstate_scheme \<Rightarrow>
     (bool \<times> sid list \<times> 'z kstate_scheme) option" where
  "resume_loop c res a = (case a of (yield_task, tmp_list, s) \<Rightarrow> do {
     (p, res, s) \<leftarrow> resume_next c res s;
     (case p of
        None \<Rightarrow> Some (yield_task, tmp_list, s)
      | Some p \<Rightarrow> do {
          a \<leftarrow> resume_one c res p (yield_task, tmp_list, s);
          resume_loop c res a
        })
   })"

declare resume_loop.simps [code]

fun resume_put_back :: "cid \<Rightarrow> sid list \<Rightarrow> 'z kstate_scheme \<Rightarrow> 'z kstate_scheme option" where
  "resume_put_back c [] s = Some s"
| "resume_put_back c (p # tmp) s = do {
     q \<leftarrow> seq_push p (suspend_list (conds s c));
     resume_put_back c tmp (upd_cond c (\<lambda>x. x\<lparr>suspend_list := q\<rparr>) s) }"

definition resume_condition ::
    "'z platform \<Rightarrow> cid \<Rightarrow> 'p resume option \<Rightarrow> bool \<Rightarrow> 'z kstate_scheme \<Rightarrow> 'z kstate_scheme option" where
  "resume_condition P c res locked s = do {
     s \<leftarrow> (if \<not> locked then
             (case c_lock (conds s c) of
                Some f \<Rightarrow> cb_lock P f (c_data (conds s c)) s
              | None \<Rightarrow> Some s)
           else Some s);
     s \<leftarrow> scheduler_lock s;
     (yield_task, tmp_list, s) \<leftarrow>
       (if suspend_list (conds s c) \<noteq> [] then resume_loop c res (False, [], s)
        else Some (False, [], s));
     s \<leftarrow> scheduler_unlock (env P) s;
     s \<leftarrow> (if yield_task then task_yield (env P) s else Some s);
     s \<leftarrow> resume_put_back c tmp_list s;
     (if \<not> locked then
        (case c_unlock (conds s c) of
           Some f \<Rightarrow> cb_unlock P f (c_data (conds s c)) s
         | None \<Rightarrow> Some s)
      else Some s)
   }"

end
