(* ===== verification/Semaphore.thy ===== *)
theory Semaphore
  imports Condition
begin

text \<open>
  Counting semaphores: \<^verbatim>\<open>rtos/kernel/semaphore.c\<close>. The condition of semaphore \<open>m\<close> is
  \<open>Sem_condition m\<close>, and the address of the semaphore is \<open>A_sem m\<close>. The suspend structure of
  \<^verbatim>\<open>semaphore_obtain\<close> lives on the stack of the calling task.
\<close>

text \<open>The one callback the code stores in a semaphore's condition, and its pointer.\<close>

definition semaphore_do_suspend_ptr :: fptr where "semaphore_do_suspend_ptr = 1"

definition semaphore_do_suspend :: "addr \<Rightarrow> addr \<Rightarrow> 'z kstate_scheme \<Rightarrow> bool" where
  "semaphore_do_suspend data sdata s =
     (case data of A_sem m \<Rightarrow> \<not> count (sems s m) > 0 | _ \<Rightarrow> True)"

text \<open>The parameter is the number of tasks that may still be resumed.\<close>

definition semaphore_do_resume :: "u8 \<Rightarrow> addr \<Rightarrow> bool \<times> u8" where
  "semaphore_do_resume num param_suspend = (if num > 0 then (True, num - 1) else (False, num))"

definition zero_semaphore :: semaphore where
  "zero_semaphore = \<lparr>owner = None, interrupt_lock = None, interrupt_unlock = None,
     interrupt_data = NULLP, count = 0, max_count = 0, interrupt_protected = False\<rparr>"

definition zero_condition :: condition where
  "zero_condition = \<lparr>suspend_list = [], do_suspend = None, c_lock = None, c_unlock = None,
     c_data = NULLP, c_flags = 0\<rparr>"

definition clear_semaphore :: "semid \<Rightarrow> 'z kstate_scheme \<Rightarrow> 'z kstate_scheme" where
  "clear_semaphore m s =
     upd_cond (Sem_condition m) (\<lambda>_. zero_condition) (upd_sem m (\<lambda>_. zero_semaphore) s)"

definition semaphore_create :: "semid \<Rightarrow> u8 \<Rightarrow> 'z kstate_scheme \<Rightarrow> 'z kstate_scheme" where
  "semaphore_create m mx s = (
     let s = clear_semaphore m s;
         s = upd_sem m (\<lambda>x. x\<lparr>count := mx, max_count := mx\<rparr>) s
     in upd_cond (Sem_condition m)
          (\<lambda>x. x\<lparr>c_data := A_sem m, do_suspend := Some semaphore_do_suspend_ptr\<rparr>) s)"

definition semaphore_set_interrupt_data ::
    "'z platform \<Rightarrow> semid \<Rightarrow> addr \<Rightarrow> fptr option \<Rightarrow> fptr option \<Rightarrow> 'z kstate_scheme \<Rightarrow>
     'z kstate_scheme option" where
  "semaphore_set_interrupt_data P m data lk unlk s = do {
     s \<leftarrow> scheduler_lock s;
     ASSERT (count (sems s m) \<noteq> max_count (sems s m));
     ASSERT (max_count (sems s m) \<noteq> 1);
     let s = upd_sem m (\<lambda>x. x\<lparr>interrupt_protected := True\<rparr>) s;
     let s = upd_sem m (\<lambda>x. x\<lparr>interrupt_lock := lk, interrupt_unlock := unlk, interrupt_data := data\<rparr>) s;
     scheduler_unlock (env P) s
   }"

definition semaphore_destroy ::
    "'z platform \<Rightarrow> semid \<Rightarrow> 'z kstate_scheme \<Rightarrow> 'z kstate_scheme option" where
  "semaphore_destroy P m s = do {
     let interrupt_level = sys_interrupt_level s;
     let s = DISABLE_INTERRUPTS s;
     s \<leftarrow> resume_condition P (Sem_condition m)
       (Some (\<lparr>do_resume = None, r_param = None, r_status = SEMAPHORE_DELETED\<rparr> :: u8 resume)) True s;
     let s = clear_semaphore m s;
     Some (SET_INTERRUPT_LEVEL interrupt_level s)
   }"

definition semaphore_condition_get ::
    "semid \<Rightarrow> sid \<Rightarrow> u32 \<Rightarrow> 'z kstate_scheme \<Rightarrow> cid \<times> 'z kstate_scheme" where
  "semaphore_condition_get m p tmo s = (
     let s = upd_suspend p (\<lambda>x. x\<lparr>s_param := A_sem m, s_priority := SUSPEND_MIN_PRIORITY,
               status := SUCCESS\<rparr>) s;
         s = (if tmo \<noteq> MAX_WAIT
              then let (now, s) = current_system_tick s
                   in upd_suspend p (\<lambda>x. x\<lparr>timeout := now + tmo, timeout_enabled := True\<rparr>) s
              else upd_suspend p (\<lambda>x. x\<lparr>timeout_enabled := False\<rparr>) s)
     in (Sem_condition m, s))"

definition semaphore_obtain ::
    "'z platform \<Rightarrow> semid \<Rightarrow> u32 \<Rightarrow> 'z kstate_scheme \<Rightarrow> (int \<times> 'z kstate_scheme) option" where
  "semaphore_obtain P m wait s = do {
     let interrupt_level = sys_interrupt_level s;
     ASSERT (interrupt_protected (sems s m) \<and> interrupt_lock (sems s m) = None);
     let tcb = current_task s;
     s \<leftarrow> scheduler_lock s;
     let s = (if interrupt_protected (sems s m) then DISABLE_INTERRUPTS s else s);
     (st, s) \<leftarrow>
       (if count (sems s m) = 0 then
          (case tcb of
             Some t \<Rightarrow>
               if wait > 0 then do {
                 let p = Sem_suspend t;
                 let (c, s) = semaphore_condition_get m p wait s;
                 (st, _, s) \<leftarrow> suspend_condition P [c] [p] None True s;
                 Some (st, s)
               }
               else Some (SEMAPHORE_BUSY, s)
           | None \<Rightarrow> Some (SEMAPHORE_BUSY, s))
        else Some (SUCCESS, s));
     s \<leftarrow> (if st = SUCCESS then do {
             ASSERT (count (sems s m) = 0);
             s \<leftarrow> (if interrupt_protected (sems s m) then do {
                     f \<leftarrow> interrupt_lock (sems s m);
                     cb_lock P f (interrupt_data (sems s m)) s
                   }
                   else Some s);
             let s = upd_sem m (\<lambda>x. x\<lparr>owner := tcb\<rparr>) s;
             Some (upd_sem m (\<lambda>x. x\<lparr>count := count x - 1\<rparr>) s)
           }
           else Some s);
     let s = (if interrupt_protected (sems s m) then SET_INTERRUPT_LEVEL interrupt_level s else s);
     s \<leftarrow> scheduler_unlock (env P) s;
     Some (st, s)
   }"

definition semaphore_release ::
    "'z platform \<Rightarrow> semid \<Rightarrow> 'z kstate_scheme \<Rightarrow> 'z kstate_scheme option" where
  "semaphore_release P m s = do {
     ASSERT (count (sems s m) \<ge> max_count (sems s m));
     s \<leftarrow> scheduler_lock s;
     let s = upd_sem m (\<lambda>x. x\<lparr>count := count x + 1\<rparr>) s;
     let s = upd_sem m (\<lambda>x. x\<lparr>owner := None\<rparr>) s;
     let num = count (sems s m);
     s \<leftarrow> resume_condition P (Sem_condition m)
       (Some \<lparr>do_resume = Some semaphore_do_resume, r_param = Some num, r_status = SUCCESS\<rparr>) True s;
     s \<leftarrow> (if interrupt_protected (sems s m) then do {
             f \<leftarrow> interrupt_unlock (sems s m);
             cb_unlock P f (interrupt_data (sems s m)) s
           }
           else Some s);
     scheduler_unlock (env P) s
   }"

end
