(* ===== verification/Resume.thy ===== *)
theory Resume
  imports Semaphore
begin

text \<open>
  What \<^verbatim>\<open>resume_condition\<close> does to the tasks that wait. The callback of a resumption that
  lets a fixed number of tasks through meets the contract \<open>quota_resume\<close>; the tasks at the
  head of the queue are then resumed in the order in which they queued up. The semaphore's
  callback is such a callback, which gives the specification of \<^verbatim>\<open>semaphore_release\<close>.
\<close>

section \<open>Resuming one task\<close>

text \<open>The task waits on condition \<open>c\<close>, or is about to.\<close>

definition waits :: "'z kstate_scheme \<Rightarrow> cid \<Rightarrow> tid \<Rightarrow> bool" where
  "waits s c t \<longleftrightarrow>
     (state (tasks s t) = TASK_SUSPENDED \<or> state (tasks s t) = TASK_TO_BE_SUSPENDED) \<and>
     suspend_is_task_waiting t c s = Some True"

definition mark :: "int \<Rightarrow> sid \<Rightarrow> 'z kstate_scheme \<Rightarrow> 'z kstate_scheme" where
  "mark st p s = upd_suspend p (\<lambda>x. x\<lparr>status := st, may_resume := True\<rparr>) s"

definition wake :: "cid \<Rightarrow> tid \<Rightarrow> 'z kstate_scheme \<Rightarrow> 'z kstate_scheme" where
  "wake c t s =
     (upd_task t (\<lambda>x. resumed_task YIELD_SYSTEM (x\<lparr>suspend_data := SD_condition c\<rparr>)) s)
       \<lparr>sch_ready_task_list := ins (scheduler_task_sort s) t (sch_ready_task_list s)\<rparr>"

text \<open>The suspend structures on a queue name their task, and a suspended task its conditions.\<close>

definition queue_ok :: "'z kstate_scheme \<Rightarrow> sid list \<Rightarrow> bool" where
  "queue_ok s ps \<longleftrightarrow> distinct ps \<and> (\<forall>p \<in> set ps. \<exists>t. s_task (suspends s p) = Some t \<and>
     (state (tasks s t) = TASK_SUSPENDED \<or> state (tasks s t) = TASK_TO_BE_SUSPENDED \<longrightarrow>
      (\<forall>c. suspend_is_task_waiting t c s \<noteq> None)))"

lemma mark_sel [simp]:
  "tasks (mark st p s) = tasks s"
  "sch_ready_task_list (mark st p s) = sch_ready_task_list s"
  "sleep_task_list (mark st p s) = sleep_task_list s"
  "current_task (mark st p s) = current_task s"
  "return_task (mark st p s) = return_task s"
  "pend_sv (mark st p s) = pend_sv s"
  "sys_interrupt_level (mark st p s) = sys_interrupt_level s"
  "conds (mark st p s) = conds s"
  "sems (mark st p s) = sems s"
  "s_task (suspends (mark st p s) q) = s_task (suspends s q)"
  "status (suspends (mark st p s) p) = st"
  "may_resume (suspends (mark st p s) p)"
  "p \<noteq> q \<Longrightarrow> suspends (mark st p s) q = suspends s q"
  by (simp_all add: mark_def)

lemma wake_sel [simp]:
  "sleep_task_list (wake c t s) = sleep_task_list s"
  "current_task (wake c t s) = current_task s"
  "return_task (wake c t s) = return_task s"
  "pend_sv (wake c t s) = pend_sv s"
  "sys_interrupt_level (wake c t s) = sys_interrupt_level s"
  "conds (wake c t s) = conds s"
  "sems (wake c t s) = sems s"
  "suspends (wake c t s) = suspends s"
  "u \<noteq> t \<Longrightarrow> tasks (wake c t s) u = tasks s u"
  "state (tasks (wake c t s) t) = TASK_RESUME"
  "suspend_data (tasks (wake c t s) t) = SD_condition c"
  "lock_count (tasks (wake c t s) u) = lock_count (tasks s u)"
  "flags (tasks (wake c t s) u) = flags (tasks s u)"
  "num_conditions (tasks (wake c t s) u) = num_conditions (tasks s u)"
  "priority (tasks (wake c t s) u) = priority (tasks s u)"
  "set (sch_ready_task_list (wake c t s)) = insert t (set (sch_ready_task_list s))"
  by (simp_all add: wake_def resumed_task_def)

lemma waiting_cong:
  "tasks s' t = tasks s t \<Longrightarrow> suspend_is_task_waiting t c s' = suspend_is_task_waiting t c s"
  by (simp only: suspend_is_task_waiting_def)

lemma waiting_cong':
  assumes "num_conditions (tasks s' t) = num_conditions (tasks s t)"
    and "suspend_data (tasks s' t) = suspend_data (tasks s t)"
  shows "suspend_is_task_waiting t c s' = suspend_is_task_waiting t c s"
  by (simp only: suspend_is_task_waiting_def assms)

lemma waiting_mark [simp]: "suspend_is_task_waiting t c (mark st p s) = suspend_is_task_waiting t c s"
  by (rule waiting_cong) simp

lemma waiting_wake [simp]:
  "u \<noteq> t \<Longrightarrow> suspend_is_task_waiting u d (wake c t s) = suspend_is_task_waiting u d s"
  by (rule waiting_cong) simp

lemma wake_yield:
  assumes "ready_inv s" "waits s c t"
  shows "scheduler_task_yield t YIELD_SYSTEM (upd_task t (\<lambda>x. x\<lparr>suspend_data := SD_condition c\<rparr>) s) =
    Some (wake c t s)"
proof -
  have "t \<notin> set (sch_ready_task_list s)" using assms by (auto simp: ready_inv_def waits_def)
  then show ?thesis
    by (auto simp: scheduler_task_yield_eq wake_def intro!: kstate.equality)
qed

lemma wake_kernel_inv:
  assumes "kernel_inv s" "waits s c t"
  shows "kernel_inv (wake c t s)"
proof -
  have "kernel_inv (upd_task t (\<lambda>x. x\<lparr>suspend_data := SD_condition c\<rparr>) s)"
    by (rule kernel_inv_cong [OF assms(1)]) (use kernel_inv_pend [OF assms(1)] in auto)
  then show ?thesis
    using wake_yield [OF kernel_invD(1) [OF assms(1)] assms(2)]
    by (rule yield_kernel_inv) (use assms(2) in \<open>auto simp: waits_def\<close>)
qed

lemma mark_kernel_inv: "kernel_inv s \<Longrightarrow> kernel_inv (mark st p s)"
  by (rule kernel_inv_cong) (use kernel_inv_pend in auto)

text \<open>The effect of a list of suspend structures, and the ones whose task does not wait.\<close>

definition resume_step :: "cid \<Rightarrow> int \<Rightarrow> sid \<Rightarrow> bool \<times> sid list \<times> 'z kstate_scheme \<Rightarrow>
    bool \<times> sid list \<times> 'z kstate_scheme" where
  "resume_step c st p = (\<lambda>(y, tmp, s).
     let s1 = mark st p s; t = the (s_task (suspends s p)) in
     if waits s c t then (True, tmp, wake c t s1) else (y, p # tmp, s1))"

definition resume_all :: "cid \<Rightarrow> int \<Rightarrow> sid list \<Rightarrow> bool \<times> sid list \<times> 'z kstate_scheme \<Rightarrow>
    bool \<times> sid list \<times> 'z kstate_scheme" where
  "resume_all c st = fold (resume_step c st)"

lemma set_level_id [simp]: "s\<lparr>sys_interrupt_level := sys_interrupt_level s\<rparr> = s"
  by simp

lemma scheduler_task_sort_level [simp]:
  "scheduler_task_sort (s\<lparr>sys_interrupt_level := b\<rparr>) = scheduler_task_sort s"
  by (simp add: scheduler_task_sort_def fun_eq_iff)

lemma wake_level: "(wake c t (s\<lparr>sys_interrupt_level := b\<rparr>))\<lparr>sys_interrupt_level := b'\<rparr> =
    (wake c t s)\<lparr>sys_interrupt_level := b'\<rparr>"
  by (simp add: wake_def upd_task_def)

lemma resume_one_eq:
  assumes inv: "kernel_inv s" and t: "s_task (suspends s p) = Some t"
    and w: "state (tasks s t) = TASK_SUSPENDED \<or> state (tasks s t) = TASK_TO_BE_SUSPENDED \<longrightarrow>
      suspend_is_task_waiting t c s \<noteq> None"
    and new: "p \<notin> set tmp"
  shows "resume_one c res p (y, tmp, s) =
    (let st = (case res of Some r \<Rightarrow> r_status r | None \<Rightarrow> SUCCESS); s1 = mark st p s in
     Some (if waits s1 c t then (True, tmp, wake c t s1) else (y, p # tmp, s1)))"
proof -
  let ?st = "case res of Some r \<Rightarrow> r_status r | None \<Rightarrow> SUCCESS"
  let ?s0 = "s\<lparr>sys_interrupt_level := False\<rparr>"
  have m: "upd_suspend p (\<lambda>x. x\<lparr>may_resume := True\<rparr>) (upd_suspend p (\<lambda>x. x\<lparr>status := ?st\<rparr>) ?s0) =
      (mark ?st p s)\<lparr>sys_interrupt_level := False\<rparr>"
    by (simp add: mark_def upd_suspend_def)
  let ?s1 = "(mark ?st p s)\<lparr>sys_interrupt_level := False\<rparr>"
  have lvl: "suspend_is_task_waiting t c ?s1 = suspend_is_task_waiting t c s"
    by (rule waiting_cong) simp
  have rdy: "ready_inv ?s1" using kernel_invD(1) [OF mark_kernel_inv [OF inv]] by simp
  show ?thesis
  proof (cases "waits (mark ?st p s) c t")
    case True
    then have "waits ?s1 c t" by (simp add: waits_def lvl)
    note y = wake_yield [OF rdy this]
    have "sys_interrupt_level s = sys_interrupt_level (mark ?st p s)" by simp
    then show ?thesis using True t y m
      by (simp add: resume_one_def int_level_defs waits_def lvl wake_level Let_def)
  next
    case False
    then have "(if state (tasks s t) = TASK_SUSPENDED \<or> state (tasks s t) = TASK_TO_BE_SUSPENDED
        then suspend_is_task_waiting t c s else Some False) = Some False"
      using w by (auto simp: waits_def)
    then have "(if state (tasks ?s1 t) = TASK_SUSPENDED \<or> state (tasks ?s1 t) = TASK_TO_BE_SUSPENDED
        then suspend_is_task_waiting t c ?s1 else Some False) = Some False"
      by (auto simp: lvl)
    then show ?thesis using False t new
      by (simp only: resume_one_def int_level_defs Let_def m prod.case kstate.select_convs)
        (simp add: seq_push_def)
  qed
qed

section \<open>Resuming the head of the queue\<close>

definition set_queue :: "cid \<Rightarrow> sid list \<Rightarrow> 'z kstate_scheme \<Rightarrow> 'z kstate_scheme" where
  "set_queue c q s = upd_cond c (\<lambda>x. x\<lparr>suspend_list := q\<rparr>) s"

lemma set_queue_sel [simp]:
  "tasks (set_queue c q s) = tasks s"
  "sch_ready_task_list (set_queue c q s) = sch_ready_task_list s"
  "sleep_task_list (set_queue c q s) = sleep_task_list s"
  "current_task (set_queue c q s) = current_task s"
  "return_task (set_queue c q s) = return_task s"
  "pend_sv (set_queue c q s) = pend_sv s"
  "sys_interrupt_level (set_queue c q s) = sys_interrupt_level s"
  "suspends (set_queue c q s) = suspends s"
  "sems (set_queue c q s) = sems s"
  "suspend_list (conds (set_queue c q s) c) = q"
  "set_queue c q (set_queue c r s) = set_queue c q s"
  by (simp_all add: set_queue_def upd_cond_def)

lemma set_queue_same: "suspend_list (conds s c) = q \<Longrightarrow> set_queue c q s = s"
  by (auto simp: set_queue_def upd_cond_def intro!: kstate.equality)

lemma waiting_set_queue [simp]:
  "suspend_is_task_waiting t d (set_queue c q s) = suspend_is_task_waiting t d s"
  by (rule waiting_cong) simp

lemma waits_other [simp]:
  "waits (set_queue c q s) d t = waits s d t" "waits (mark st p s) d t = waits s d t"
  using waiting_cong [of "set_queue c q s" t s d] by (simp_all add: waits_def)

lemma mark_set_queue [simp]: "mark st p (set_queue c q s) = set_queue c q (mark st p s)"
  by (simp add: mark_def set_queue_def upd_suspend_def upd_cond_def)

lemma wake_set_queue [simp]: "wake d t (set_queue c q s) = set_queue c q (wake d t s)"
proof -
  have "scheduler_task_sort (set_queue c q s) = scheduler_task_sort s"
    by (simp add: scheduler_task_sort_def fun_eq_iff)
  then show ?thesis by (simp add: wake_def set_queue_def upd_task_def upd_cond_def)
qed

lemma set_queue_kernel_inv: "kernel_inv s \<Longrightarrow> kernel_inv (set_queue c q s)"
  by (rule kernel_inv_cong) (use kernel_inv_pend in auto)

lemma queue_ok_set_queue [simp]: "queue_ok (set_queue c q s) ps = queue_ok s ps"
  using waiting_cong [of "set_queue c q s" _ s] by (simp add: queue_ok_def)

lemma queue_ok_mark [simp]: "queue_ok (mark st p s) ps = queue_ok s ps"
  by (simp add: queue_ok_def)

lemma queue_ok_wake:
  assumes "queue_ok s ps"
  shows "queue_ok (wake c t s) ps"
  unfolding queue_ok_def
proof (intro conjI ballI)
  fix p assume "p \<in> set ps"
  then obtain u where u: "s_task (suspends s p) = Some u"
      "state (tasks s u) = TASK_SUSPENDED \<or> state (tasks s u) = TASK_TO_BE_SUSPENDED \<longrightarrow>
       (\<forall>c. suspend_is_task_waiting u c s \<noteq> None)"
    using assms by (auto simp: queue_ok_def)
  show "\<exists>u. s_task (suspends (wake c t s) p) = Some u \<and>
      (state (tasks (wake c t s) u) = TASK_SUSPENDED \<or>
       state (tasks (wake c t s) u) = TASK_TO_BE_SUSPENDED \<longrightarrow>
       (\<forall>d. suspend_is_task_waiting u d (wake c t s) \<noteq> None))"
    using u by (intro exI [of _ u]) (cases "u = t"; simp)
qed (use assms in \<open>simp add: queue_ok_def\<close>)

text \<open>One suspend structure after the other.\<close>

lemma resume_one_step:
  assumes "kernel_inv s" and "queue_ok s (p # ps)" and "p \<notin> set tmp"
  shows "resume_one c res p (y, tmp, s) =
    Some (resume_step c (case res of Some r \<Rightarrow> r_status r | None \<Rightarrow> SUCCESS) p (y, tmp, s))"
proof -
  obtain t where t: "s_task (suspends s p) = Some t"
      "state (tasks s t) = TASK_SUSPENDED \<or> state (tasks s t) = TASK_TO_BE_SUSPENDED \<longrightarrow>
       suspend_is_task_waiting t c s \<noteq> None"
    using assms(2) by (fastforce simp: queue_ok_def)
  show ?thesis
    using resume_one_eq [OF assms(1) t assms(3)] t(1)
    by (cases "waits s c t") (simp_all add: resume_step_def Let_def)
qed

lemma resume_step_keeps:
  assumes "kernel_inv s" and "queue_ok s (p # ps)" and "resume_step c st p (y, tmp, s) = (y', tmp', s')"
  shows "kernel_inv s'" "queue_ok s' ps" "set tmp' \<subseteq> insert p (set tmp)" "conds s' = conds s"
proof -
  obtain t where t: "s_task (suspends s p) = Some t" using assms(2) by (fastforce simp: queue_ok_def)
  have ok: "queue_ok (mark st p s) ps" using assms(2) by (auto simp: queue_ok_def)
  note inv = mark_kernel_inv [OF assms(1), of st p]
  have "kernel_inv s' \<and> queue_ok s' ps \<and> set tmp' \<subseteq> insert p (set tmp) \<and> conds s' = conds s"
  proof (cases "waits s c t")
    case True
    then show ?thesis
      using assms(3) t wake_kernel_inv [OF inv, of c t] queue_ok_wake [OF ok, of c t]
      by (auto simp: resume_step_def Let_def)
  next
    case False
    then show ?thesis using assms(3) t inv ok by (auto simp: resume_step_def Let_def)
  qed
  then show "kernel_inv s'" "queue_ok s' ps" "set tmp' \<subseteq> insert p (set tmp)" "conds s' = conds s"
    by simp_all
qed

definition with_queue :: "cid \<Rightarrow> sid list \<Rightarrow> bool \<times> sid list \<times> 'z kstate_scheme \<Rightarrow>
    bool \<times> sid list \<times> 'z kstate_scheme" where
  "with_queue c q = (\<lambda>(y, tmp, s). (y, tmp, set_queue c q s))"

lemma with_queue_simp [simp]: "with_queue c q (y, tmp, s) = (y, tmp, set_queue c q s)"
  by (simp add: with_queue_def)

lemma resume_step_with_queue: "resume_step c st p (with_queue c q a) = with_queue c q (resume_step c st p a)"
  by (cases a) (simp add: resume_step_def Let_def)

lemma resume_all_with_queue: "resume_all c st ps (with_queue c q a) = with_queue c q (resume_all c st ps a)"
  unfolding resume_all_def by (induction ps arbitrary: a) (simp_all add: resume_step_with_queue)

lemma with_queue_twice [simp]: "with_queue c q (with_queue c r a) = with_queue c q a"
  by (cases a) simp

text \<open>
  The contract of a callback that lets \<open>quota\<close> tasks through and then refuses without
  touching its parameter.
\<close>

locale quota_resume =
  fixes accept :: "'p \<Rightarrow> addr \<Rightarrow> bool \<times> 'p"
    and quota :: "'p \<Rightarrow> nat"
  assumes accepts: "quota p \<noteq> 0 \<Longrightarrow> fst (accept p x) \<and> quota (snd (accept p x)) = quota p - 1"
    and refuses: "quota p = 0 \<Longrightarrow> accept p x = (False, p)"
begin

lemma search_refuses:
  assumes "quota p = 0"
  shows "seq_search_pop (suspend_sreach accept s) p q = (None, p, q)"
proof -
  have "seq_scan (suspend_sreach accept s) p q = (q, [], p)"
    using assms by (induction q) (auto simp: suspend_sreach_def refuses)
  then show ?thesis by (simp add: seq_search_pop_def)
qed

lemma search_accepts:
  assumes "quota p \<noteq> 0"
  shows "\<exists>p'. quota p' = quota p - 1 \<and>
    seq_search_pop (suspend_sreach accept s) p (z # zs) = (Some z, p', zs)"
proof -
  let ?a = "accept p (s_param (suspends s z))"
  have a: "?a = (True, snd ?a)" using accepts [OF assms] by (metis (full_types) prod.collapse)
  have "seq_scan (suspend_sreach accept s) p (z # zs) = ([], z # zs, snd ?a)"
    by (subst seq_scan.simps, subst suspend_sreach_def, subst a) simp
  then show ?thesis using accepts [OF assms] by (intro exI [of _ "snd ?a"]) (simp add: seq_search_pop_def)
qed

lemma resume_loop_quota:
  assumes "kernel_inv s" and "queue_ok s q" and "set q \<inter> set tmp = {}"
    and "suspend_list (conds s c) = q"
  shows "resume_loop c (Some \<lparr>do_resume = Some accept, r_param = Some par, r_status = st\<rparr>) (y, tmp, s) =
    Some (with_queue c (drop (quota par) q) (resume_all c st (take (quota par) q) (y, tmp, s)))"
  using assms
proof (induction q arbitrary: par y tmp s)
  case Nil
  have "seq_search_pop (suspend_sreach accept s) par [] = (None, par, [])"
    by (simp add: seq_search_pop_def)
  then show ?case using Nil.prems(4)
    by (subst resume_loop.simps)
      (simp add: resume_next_def set_queue_same set_queue_def [symmetric] resume_all_def)
next
  case (Cons z zs)
  show ?case
  proof (cases "quota par = 0")
    case True
    then show ?thesis using Cons.prems(4) search_refuses [OF True, of s "z # zs"]
      by (subst resume_loop.simps)
        (simp add: resume_next_def set_queue_same set_queue_def [symmetric] resume_all_def)
  next
    case False
    let ?res = "\<lambda>par. Some \<lparr>do_resume = Some accept, r_param = Some par, r_status = st\<rparr>"
    obtain par' where par': "quota par' = quota par - 1"
        "seq_search_pop (suspend_sreach accept s) par (z # zs) = (Some z, par', zs)"
      using search_accepts [OF False] by blast
    let ?s = "set_queue c zs s"
    have inv: "kernel_inv ?s" using Cons.prems(1) by (rule set_queue_kernel_inv)
    have ok: "queue_ok ?s (z # zs)" using Cons.prems(2) by simp
    have z: "z \<notin> set tmp" using Cons.prems(3) by simp
    obtain y' tmp' s' where a: "resume_step c st z (y, tmp, ?s) = (y', tmp', s')"
      by (metis prod_cases3)
    note keeps = resume_step_keeps [OF inv ok a]
    have one: "resume_one c (?res par') z (y, tmp, ?s) = Some (y', tmp', s')"
      using resume_one_step [OF inv ok z, of c "?res par'" y] a by simp
    have "resume_loop c (?res par) (y, tmp, s) = resume_loop c (?res par') (y', tmp', s')"
      using Cons.prems(4) par'(2) one
      by (subst resume_loop.simps) (simp add: resume_next_def set_queue_def [symmetric])
    also have "\<dots> = Some (with_queue c (drop (quota par') zs)
        (resume_all c st (take (quota par') zs) (y', tmp', s')))"
    proof (rule Cons.IH)
      show "set zs \<inter> set tmp' = {}"
        using keeps(3) Cons.prems(2,3) by (auto simp: queue_ok_def)
      show "suspend_list (conds s' c) = zs" using keeps(4) by simp
    qed (use keeps in simp_all)
    also have "resume_all c st (take (quota par') zs) (y', tmp', s') =
        with_queue c zs (resume_all c st (take (quota par) (z # zs)) (y, tmp, s))"
    proof -
      obtain n where n: "quota par = Suc n" using False by (cases "quota par") auto
      have "(y', tmp', s') = with_queue c zs (resume_step c st z (y, tmp, s))"
        using a resume_step_with_queue [of c st z zs "(y, tmp, s)"] by simp
      then show ?thesis using par'(1) n
        by (simp add: resume_all_with_queue) (simp add: resume_all_def)
    qed
    also have "drop (quota par') zs = drop (quota par) (z # zs)"
      using False par'(1) by (cases "quota par") auto
    finally show ?thesis by simp
  qed
qed

end

text \<open>Without a criterion the whole queue is resumed.\<close>

lemma resume_loop_everything:
  assumes "case res of Some r \<Rightarrow> r_param r = None | None \<Rightarrow> True"
    and "kernel_inv s" and "queue_ok s q" and "set q \<inter> set tmp = {}"
    and "suspend_list (conds s c) = q"
    and st: "st = (case res of Some r \<Rightarrow> r_status r | None \<Rightarrow> SUCCESS)"
  shows "resume_loop c res (y, tmp, s) = Some (with_queue c [] (resume_all c st q (y, tmp, s)))"
  using assms(2-5)
proof (induction q arbitrary: y tmp s)
  case Nil
  then have "resume_next c res s = Some (None, res, s)"
    using assms(1) by (auto simp: resume_next_def set_queue_same set_queue_def [symmetric] split: option.splits)
  then show ?case using Nil.prems(4)
    by (subst resume_loop.simps) (simp add: set_queue_same resume_all_def)
next
  case (Cons z zs)
  let ?s = "set_queue c zs s"
  have inv: "kernel_inv ?s" using Cons.prems(1) by (rule set_queue_kernel_inv)
  have ok: "queue_ok ?s (z # zs)" using Cons.prems(2) by simp
  have z: "z \<notin> set tmp" using Cons.prems(3) by simp
  obtain y' tmp' s' where a: "resume_step c st z (y, tmp, ?s) = (y', tmp', s')"
    by (metis prod_cases3)
  note keeps = resume_step_keeps [OF inv ok a]
  have one: "resume_one c res z (y, tmp, ?s) = Some (y', tmp', s')"
    using resume_one_step [OF inv ok z, of c res y] a st by simp
  have "resume_next c res s = Some (Some z, res, ?s)"
    using assms(1) Cons.prems(4)
    by (auto simp: resume_next_def set_queue_def [symmetric] split: option.splits)
  then have "resume_loop c res (y, tmp, s) = resume_loop c res (y', tmp', s')"
    using one by (subst resume_loop.simps) simp
  also have "\<dots> = Some (with_queue c [] (resume_all c st zs (y', tmp', s')))"
  proof (rule Cons.IH)
    show "set zs \<inter> set tmp' = {}"
      using keeps(3) Cons.prems(2,3) by (auto simp: queue_ok_def)
    show "suspend_list (conds s' c) = zs" using keeps(4) by simp
  qed (use keeps in simp_all)
  also have "resume_all c st zs (y', tmp', s') =
      with_queue c zs (resume_all c st (z # zs) (y, tmp, s))"
  proof -
    have "(y', tmp', s') = with_queue c zs (resume_step c st z (y, tmp, s))"
      using a resume_step_with_queue [of c st z zs "(y, tmp, s)"] by simp
    then show ?thesis by (simp add: resume_all_with_queue) (simp add: resume_all_def)
  qed
  finally show ?case by simp
qed

section \<open>What a resumption does\<close>

definition woken_by :: "'z kstate_scheme \<Rightarrow> cid \<Rightarrow> sid list \<Rightarrow> tid set" where
  "woken_by s c ps = {t. \<exists>p \<in> set ps. s_task (suspends s p) = Some t \<and> waits s c t}"

text \<open>The result of resuming the suspend structures \<open>ps\<close>, task by task and field by field.\<close>

definition resumes_to :: "cid \<Rightarrow> int \<Rightarrow> sid list \<Rightarrow> 'z kstate_scheme \<Rightarrow> 'z kstate_scheme \<Rightarrow> bool" where
  "resumes_to c st ps s s' \<longleftrightarrow>
     (\<forall>t. tasks s' t = (if t \<in> woken_by s c ps
        then resumed_task YIELD_SYSTEM ((tasks s t)\<lparr>suspend_data := SD_condition c\<rparr>)
        else tasks s t)) \<and>
     set (sch_ready_task_list s') = set (sch_ready_task_list s) \<union> woken_by s c ps \<and>
     (\<forall>p. suspends s' p = (if p \<in> set ps then (suspends s p)\<lparr>status := st, may_resume := True\<rparr>
        else suspends s p)) \<and>
     conds s' = conds s \<and> sems s' = sems s \<and> sleep_task_list s' = sleep_task_list s \<and>
     current_task s' = current_task s \<and> sys_interrupt_level s' = sys_interrupt_level s \<and>
     pend_sv s' = pend_sv s"

lemma waits_unready: "waits s c t \<Longrightarrow> \<not> is_ready (state (tasks s t))"
  by (auto simp: waits_def)

lemma resume_step_to:
  assumes "queue_ok s (p # ps)" and "resume_step c st p (y, tmp, s) = (y', tmp', s')"
  shows "resumes_to c st [p] s s' \<and> (y' \<longleftrightarrow> y \<or> woken_by s c [p] \<noteq> {}) \<and>
    (tmp' = (if woken_by s c [p] = {} then p # tmp else tmp))"
proof -
  obtain t where t: "s_task (suspends s p) = Some t" using assms(1) by (fastforce simp: queue_ok_def)
  have w: "woken_by s c [p] = (if waits s c t then {t} else {})"
    using t by (auto simp: woken_by_def)
  show ?thesis
  proof (cases "waits s c t")
    case True
    then have "tasks s' u = (if u = t
        then resumed_task YIELD_SYSTEM ((tasks s t)\<lparr>suspend_data := SD_condition c\<rparr>)
        else tasks s u)" for u
      using assms(2) t by (auto simp: resume_step_def Let_def wake_def)
    then show ?thesis using True assms(2) t w
      by (auto simp: resume_step_def Let_def resumes_to_def mark_def)
  next
    case False
    then show ?thesis using assms(2) t w
      by (auto simp: resume_step_def Let_def resumes_to_def mark_def)
  qed
qed

lemma waits_resumes_to:
  assumes "resumes_to c st ps s s'"
  shows "waits s' d t \<longleftrightarrow> waits s d t \<and> t \<notin> woken_by s c ps"
proof (cases "t \<in> woken_by s c ps")
  case True
  then show ?thesis using assms by (auto simp: resumes_to_def waits_def resumed_task_def)
next
  case False
  then have "tasks s' t = tasks s t" using assms by (simp add: resumes_to_def)
  then show ?thesis using False waiting_cong [of s' t s] by (simp add: waits_def)
qed

lemma resumes_to_trans:
  assumes 1: "resumes_to c st [p] s s1" and 2: "resumes_to c st ps s1 s'"
  shows "resumes_to c st (p # ps) s s'"
proof -
  have T: "s_task (suspends s1 q) = s_task (suspends s q)" for q
    using 1 by (simp add: resumes_to_def)
  have W: "woken_by s c (p # ps) = woken_by s c [p] \<union> woken_by s1 c ps"
    and D: "woken_by s c [p] \<inter> woken_by s1 c ps = {}"
    using waits_resumes_to [OF 1, of c] by (auto simp: woken_by_def T)
  have "tasks s' t = (if t \<in> woken_by s c (p # ps)
      then resumed_task YIELD_SYSTEM ((tasks s t)\<lparr>suspend_data := SD_condition c\<rparr>)
      else tasks s t)" for t
    using 1 2 D unfolding W resumes_to_def by (cases "t \<in> woken_by s c [p]") auto
  moreover have "suspends s' q = (if q \<in> set (p # ps)
      then (suspends s q)\<lparr>status := st, may_resume := True\<rparr> else suspends s q)" for q
    using 1 2 unfolding resumes_to_def by (cases "q = p") auto
  moreover have "set (sch_ready_task_list s') = set (sch_ready_task_list s) \<union> woken_by s c (p # ps)"
    using 1 2 unfolding W resumes_to_def by auto
  ultimately show ?thesis using 1 2 by (simp add: resumes_to_def)
qed

lemma resume_all_to:
  assumes "kernel_inv s" and "queue_ok s ps" and "resume_all c st ps (y, tmp, s) = (y', tmp', s')"
  shows "resumes_to c st ps s s' \<and> kernel_inv s' \<and> (y' \<longleftrightarrow> y \<or> woken_by s c ps \<noteq> {}) \<and>
    (\<exists>zs. tmp' = rev zs @ tmp \<and> set zs \<subseteq> set ps \<and> distinct zs)"
  using assms
proof (induction ps arbitrary: y tmp s)
  case Nil
  then show ?case by (auto simp: resume_all_def resumes_to_def woken_by_def)
next
  case (Cons p ps)
  obtain y1 tmp1 s1 where a: "resume_step c st p (y, tmp, s) = (y1, tmp1, s1)"
    by (metis prod_cases3)
  then have b: "resume_all c st ps (y1, tmp1, s1) = (y', tmp', s')"
    using Cons.prems(3) by (simp add: resume_all_def)
  note keeps = resume_step_keeps [OF Cons.prems(1,2) a]
  note step = resume_step_to [OF Cons.prems(2) a]
  note IH = Cons.IH [OF keeps(1,2) b]
  have W: "woken_by s c (p # ps) = woken_by s c [p] \<union> woken_by s1 c ps"
  proof -
    have "s_task (suspends s1 q) = s_task (suspends s q)" for q
      using step by (simp add: resumes_to_def)
    then show ?thesis using waits_resumes_to [of c st "[p]" s s1 c] step by (auto simp: woken_by_def)
  qed
  obtain zs where zs: "tmp' = rev zs @ tmp1" "set zs \<subseteq> set ps" "distinct zs" using IH by blast
  have "p \<notin> set zs" using zs Cons.prems(2) by (auto simp: queue_ok_def)
  then have "\<exists>zs. tmp' = rev zs @ tmp \<and> set zs \<subseteq> set (p # ps) \<and> distinct zs"
  proof (cases "woken_by s c [p] = {}")
    case True
    then show ?thesis using zs step \<open>p \<notin> set zs\<close> by (intro exI [of _ "p # zs"]) auto
  next
    case False
    then show ?thesis using zs step by (intro exI [of _ zs]) auto
  qed
  moreover have "y' \<longleftrightarrow> y \<or> woken_by s c (p # ps) \<noteq> {}" using IH step W by auto
  ultimately show ?case using IH step resumes_to_trans by blast
qed

lemma resume_put_back_eq:
  assumes "distinct (tmp @ suspend_list (conds s c))"
  shows "resume_put_back c tmp s = Some (set_queue c (rev tmp @ suspend_list (conds s c)) s)"
  using assms
proof (induction tmp arbitrary: s)
  case (Cons p tmp)
  let ?s = "set_queue c (p # suspend_list (conds s c)) s"
  have "distinct (tmp @ suspend_list (conds ?s c))" using Cons.prems by auto
  then show ?case using Cons.IH [of ?s] Cons.prems
    by (auto simp: seq_push_def set_queue_def [symmetric])
qed (simp add: set_queue_same)

section \<open>Resuming with the scheduler locked\<close>

text \<open>
  The core of \<^verbatim>\<open>resume_condition\<close> for a caller that holds the scheduler lock: no switch
  happens inside, a switch that is due is noted in the drift flag.
\<close>

definition lock_up :: "tid \<Rightarrow> 'z kstate_scheme \<Rightarrow> 'z kstate_scheme" where
  "lock_up c s = upd_task c (\<lambda>t. t\<lparr>lock_count := lock_count t + 1\<rparr>) s"

definition note_drift :: "tid \<Rightarrow> 'z kstate_scheme \<Rightarrow> 'z kstate_scheme" where
  "note_drift c s = upd_task c (\<lambda>t. t\<lparr>flags := flags t OR TASK_SCHED_DRIFT\<rparr>) s"

text \<open>The suspend structures a resumption takes off the queue, and their status.\<close>

lemma word_lock_up:
  assumes "k < SCHEDULER_MAX_LOCK"
  shows "k + 1 \<noteq> 0" and "k + 1 - 1 = k"
proof -
  show "k + 1 \<noteq> 0"
  proof
    assume "k + 1 = 0"
    then have "k = - 1" by (simp add: eq_neg_iff_add_eq_0)
    with assms show False by (simp add: SCHEDULER_MAX_LOCK_def)
  qed
qed simp

lemma lock_up_tasks:
  "tasks (lock_up c s) = (tasks s)(c := (tasks s c)\<lparr>lock_count := lock_count (tasks s c) + 1\<rparr>)"
  by (simp add: lock_up_def)

lemma lock_up_sel [simp]:
  "sch_ready_task_list (lock_up c s) = sch_ready_task_list s"
  "sleep_task_list (lock_up c s) = sleep_task_list s"
  "current_task (lock_up c s) = current_task s"
  "pend_sv (lock_up c s) = pend_sv s"
  "sys_interrupt_level (lock_up c s) = sys_interrupt_level s"
  "suspends (lock_up c s) = suspends s"
  "conds (lock_up c s) = conds s"
  "sems (lock_up c s) = sems s"
  "lock_count (tasks (lock_up c s) c) = lock_count (tasks s c) + 1"
  "state (tasks (lock_up c s) t) = state (tasks s t)"
  by (simp_all add: lock_up_def)

lemma lock_up_waiting [simp]: "suspend_is_task_waiting t d (lock_up c s) = suspend_is_task_waiting t d s"
  by (rule waiting_cong') (simp_all add: lock_up_def)

lemma lock_up_waits [simp]: "waits (lock_up c s) d t = waits s d t"
  by (simp add: waits_def)

lemma lock_up_queue_ok [simp]: "queue_ok (lock_up c s) ps = queue_ok s ps"
  by (simp add: queue_ok_def)

lemma lock_up_woken_by [simp]: "woken_by (lock_up c s) i ps = woken_by s i ps"
  by (simp add: woken_by_def)

lemma lock_up_kernel_inv:
  "kernel_inv s \<Longrightarrow> on_cpu s c \<Longrightarrow> kernel_inv (lock_up c s)"
  unfolding lock_up_def by (rule upd_task_cpu_inv) (simp_all add: on_cpu_def)

text \<open>What the caller sees when \<^verbatim>\<open>resume_condition\<close> returns.\<close>

definition resumed_with :: "cid \<Rightarrow> int \<Rightarrow> sid list \<Rightarrow> sid list \<Rightarrow> tid \<Rightarrow> 'z kstate_scheme \<Rightarrow>
    'z kstate_scheme \<Rightarrow> bool" where
  "resumed_with i st ps rest c s s' \<longleftrightarrow>
     (\<exists>s2 zs. resumes_to i st ps s s2 \<and> kernel_inv s2 \<and> set zs \<subseteq> set ps \<and> distinct zs \<and>
        s' = set_queue i (zs @ rest) (if woken_by s i ps = {} then s2 else note_drift c s2))"

lemma resume_condition_locked:
  assumes inv: "kernel_inv s" and cpu: "on_cpu s c"
    and lk: "lock_count (tasks s c) \<noteq> 0" "lock_count (tasks s c) < SCHEDULER_MAX_LOCK"
    and q: "suspend_list (conds s i) = ps @ rest" and ok: "queue_ok s (ps @ rest)"
    and loop: "resume_loop i res (False, [], lock_up c s) =
      Some (with_queue i rest (resume_all i st ps (False, [], lock_up c s)))"
  shows "\<exists>s'. resume_condition P i res True s = Some s' \<and> resumed_with i st ps rest c s s'"
proof -
  let ?s1 = "lock_up c s"
  have cur: "current_task s = Some c" using cpu by (simp add: on_cpu_def)
  have lock: "scheduler_lock s = Some ?s1"
    using cur lk(2) by (simp add: scheduler_lock_def lock_up_def not_le [symmetric])
  obtain y tmp r where r: "resume_all i st ps (False, [], ?s1) = (y, tmp, r)" by (metis prod_cases3)
  have ok1: "queue_ok ?s1 ps" using ok by (auto simp: queue_ok_def)
  have R: "resumes_to i st ps ?s1 r" "kernel_inv r" "y \<longleftrightarrow> woken_by s i ps \<noteq> {}"
    using resume_all_to [OF lock_up_kernel_inv [OF inv cpu] ok1 r] by simp_all
  obtain zs where zs: "tmp = rev zs" "set zs \<subseteq> set ps" "distinct zs"
    using resume_all_to [OF lock_up_kernel_inv [OF inv cpu] ok1 r] by auto
  have all: "(if suspend_list (conds ?s1 i) \<noteq> [] then resume_loop i res (False, [], ?s1)
      else Some (False, [], ?s1)) = Some (y, tmp, set_queue i rest r)"
  proof (cases "ps @ rest = []")
    case True
    then have "(y, tmp, r) = (False, [], ?s1)" using r by (simp add: resume_all_def)
    then show ?thesis using True q by (simp add: set_queue_same)
  qed (use loop r q in simp)
  have notc: "c \<notin> woken_by s i ps" using cpu by (auto simp: woken_by_def waits_def on_cpu_def)
  let ?s2 = "upd_task c (\<lambda>t. t\<lparr>lock_count := lock_count t - 1\<rparr>) r"
  have tc: "tasks r c = (tasks s c)\<lparr>lock_count := lock_count (tasks s c) + 1\<rparr>"
    using R(1) notc by (simp add: resumes_to_def lock_up_tasks)
  have to: "resumes_to i st ps s ?s2"
    using R(1) notc tc by (auto simp: resumes_to_def lock_up_tasks)
  have cpu_r: "on_cpu r c" using R(1) cpu tc by (simp add: resumes_to_def on_cpu_def)
  have inv2: "kernel_inv ?s2"
    using R(2) cpu_r by (rule upd_task_cpu_inv) (use cpu_r in \<open>simp_all add: on_cpu_def\<close>)
  have unlock: "scheduler_unlock (env P) (set_queue i rest r) = Some (set_queue i rest ?s2)"
    using lk word_lock_up [OF lk(2)] cpu_r tc
    by (simp add: scheduler_unlock_on_cpu [of _ c] on_cpu_def)
      (simp add: set_queue_def upd_cond_def upd_task_def)
  have yield: "(if y then task_yield (env P) (set_queue i rest ?s2) else Some (set_queue i rest ?s2)) =
      Some (set_queue i rest (if y then note_drift c ?s2 else ?s2))"
  proof (cases y)
    case True
    have "lock_count (tasks (set_queue i rest ?s2) c) \<noteq> 0" using lk(1) tc by simp
    then show ?thesis
      using True task_yield_on_cpu [OF set_queue_kernel_inv [OF inv2], where c = c and env = "env P"] cpu_r
      by (simp add: on_cpu_def) (simp add: note_drift_def set_queue_def upd_cond_def upd_task_def)
  qed simp
  have "distinct (tmp @ rest)" using zs ok by (auto simp: queue_ok_def)
  let ?s3 = "if y then note_drift c ?s2 else ?s2"
  have "distinct (tmp @ suspend_list (conds (set_queue i rest ?s3) i))"
    using \<open>distinct (tmp @ rest)\<close> by simp
  note resume_put_back_eq [OF this]
  then have restored: "resume_put_back i tmp (set_queue i rest ?s3) =
      Some (set_queue i (zs @ rest) ?s3)"
    using zs(1) by simp
  have "resume_condition P i res True s =
      Some (set_queue i (zs @ rest) (if y then note_drift c ?s2 else ?s2))"
    unfolding resume_condition_def using lock all unlock yield restored
    by (simp del: if_split) 
  then show ?thesis unfolding resumed_with_def using to inv2 zs R(3) by auto
qed

end
