(* ===== verification/SemaphoreSpec.thy ===== *)
theory SemaphoreSpec
  imports Resume
begin

text \<open>
  What the semaphore operations do. Releasing a semaphore makes as many of the waiting tasks
  ready as its new count allows, in the order in which they queued up; the count stays
  between 0 and its maximum; a destroyed semaphore resumes everybody with an error.
\<close>

interpretation sem: quota_resume semaphore_do_resume unat
  by unfold_locales
    (auto simp: semaphore_do_resume_def unat_minus_one word_neq_0_conv unat_eq_0)

text \<open>The tasks a release resumes.\<close>

definition released_tasks :: "'z kstate_scheme \<Rightarrow> semid \<Rightarrow> tid set" where
  "released_tasks s m = woken_by s (Sem_condition m)
     (take (unat (count (sems s m) + 1)) (suspend_list (conds s (Sem_condition m))))"

definition bump :: "semid \<Rightarrow> 'z kstate_scheme \<Rightarrow> 'z kstate_scheme" where
  "bump m s = upd_sem m (\<lambda>x. x\<lparr>owner := None\<rparr>) (upd_sem m (\<lambda>x. x\<lparr>count := count x + 1\<rparr>) s)"

lemma bump_sel [simp]:
  "tasks (bump m s) = tasks s" "current_task (bump m s) = current_task s"
  "conds (bump m s) = conds s" "suspends (bump m s) = suspends s" "pend_sv (bump m s) = pend_sv s"
  "sch_ready_task_list (bump m s) = sch_ready_task_list s"
  "sems (bump m s) = (sems s)(m := (sems s m)\<lparr>count := count (sems s m) + 1, owner := None\<rparr>)"
  by (simp_all add: bump_def)

lemma bump_kernel_inv: "kernel_inv s \<Longrightarrow> kernel_inv (bump m s)"
  by (rule kernel_inv_cong) (use kernel_inv_pend in \<open>auto simp: bump_def\<close>)

lemma bump_waits [simp]: "waits (bump m s) d t = waits s d t"
  using waiting_cong [of "bump m s" t s d] by (simp add: waits_def)

lemma bump_queue_ok [simp]: "queue_ok (bump m s) ps = queue_ok s ps"
  using waiting_cong [of "bump m s" _ s] by (simp add: queue_ok_def)

lemma semaphore_release_locked:
  assumes inv: "kernel_inv s" and cpu: "on_cpu s c"
    and lk: "lock_count (tasks s c) + 1 < SCHEDULER_MAX_LOCK" "lock_count (tasks s c) < SCHEDULER_MAX_LOCK"
    and cnt: "count (sems s m) < max_count (sems s m)"
    and ip: "\<not> interrupt_protected (sems s m)"
    and ok: "queue_ok s (suspend_list (conds s (Sem_condition m)))"
  shows "\<exists>s1. semaphore_release P m s = scheduler_unlock (env P) s1 \<and>
    resumed_with (Sem_condition m) SUCCESS
      (take (unat (count (sems s m) + 1)) (suspend_list (conds s (Sem_condition m))))
      (drop (unat (count (sems s m) + 1)) (suspend_list (conds s (Sem_condition m))))
      c (bump m (lock_up c s)) s1"
proof -
  let ?i = "Sem_condition m" and ?s = "bump m (lock_up c s)"
  let ?q = "suspend_list (conds s ?i)" and ?num = "count (sems s m) + 1"
  let ?res = "Some \<lparr>do_resume = Some semaphore_do_resume, r_param = Some ?num, r_status = SUCCESS\<rparr>"
  have cur: "current_task s = Some c" using cpu by (simp add: on_cpu_def)
  have lock: "scheduler_lock s = Some (lock_up c s)"
    using cur lk(2) by (simp add: scheduler_lock_def lock_up_def not_le [symmetric])
  have inv1: "kernel_inv ?s" using lock_up_kernel_inv [OF inv cpu] by (rule bump_kernel_inv)
  have cpu1: "on_cpu ?s c" using cpu by (simp add: on_cpu_def)
  have ok1: "queue_ok ?s (take (unat ?num) ?q @ drop (unat ?num) ?q)" using ok by simp
  have nz: "lock_count (tasks ?s c) \<noteq> 0" using word_lock_up [OF lk(2)] by simp
  have lt: "lock_count (tasks ?s c) < SCHEDULER_MAX_LOCK" using lk(1) by simp
  have q1: "suspend_list (conds ?s ?i) = take (unat ?num) ?q @ drop (unat ?num) ?q" by simp
  have loop: "resume_loop ?i ?res (False, [], lock_up c ?s) =
      Some (with_queue ?i (drop (unat ?num) ?q)
        (resume_all ?i SUCCESS (take (unat ?num) ?q) (False, [], lock_up c ?s)))"
    using lock_up_kernel_inv [OF inv1 cpu1] ok1 by (intro sem.resume_loop_quota) simp_all
  obtain s' where s': "resume_condition P ?i ?res True ?s = Some s'"
      "resumed_with ?i SUCCESS (take (unat ?num) ?q) (drop (unat ?num) ?q) c ?s s'"
    using resume_condition_locked [OF inv1 cpu1 nz lt q1 ok1 loop] by blast
  have sem': "sems s' = sems ?s" using s'(2)
    by (auto simp: resumed_with_def resumes_to_def note_drift_def)
  have "semaphore_release P m s = scheduler_unlock (env P) s'"
    using lock cnt s'(1) ip sem'
    by (simp add: semaphore_release_def not_le [symmetric] bump_def [symmetric] Let_def)
  with s'(2) show ?thesis by blast
qed

section \<open>Obtaining\<close>

lemma unlock_lock_up:
  assumes "current_task s = Some c" and "lock_count (tasks s c) < SCHEDULER_MAX_LOCK"
    and "flags (tasks s c) AND TASK_SCHED_DRIFT = 0 \<or> lock_count (tasks s c) \<noteq> 0"
  shows "scheduler_unlock e (lock_up c s) = Some s"
proof -
  have "upd_task c (\<lambda>t. t\<lparr>lock_count := lock_count t - 1\<rparr>) (lock_up c s) = s"
    by (auto simp: lock_up_tasks fun_eq_iff intro!: kstate.equality) (simp_all add: lock_up_def)
  then show ?thesis
    using assms word_lock_up [OF assms(2)]
    by (auto simp: scheduler_unlock_on_cpu [of _ c] lock_up_tasks)
qed

definition taken :: "semid \<Rightarrow> tid option \<Rightarrow> 'z kstate_scheme \<Rightarrow> 'z kstate_scheme" where
  "taken m ow s = upd_sem m (\<lambda>x. x\<lparr>count := count x - 1\<rparr>) (upd_sem m (\<lambda>x. x\<lparr>owner := ow\<rparr>) s)"

lemma taken_lock_up: "taken m ow (lock_up c s) = lock_up c (taken m ow s)"
  by (simp add: taken_def lock_up_def upd_sem_def upd_task_def)

lemma taken_sel [simp]:
  "current_task (taken m ow s) = current_task s" "tasks (taken m ow s) = tasks s"
  "sems (taken m ow s) = (sems s)(m := (sems s m)\<lparr>owner := ow, count := count (sems s m) - 1\<rparr>)"
  "conds (taken m ow s) = conds s"
  by (simp_all add: taken_def)

lemma semaphore_obtain_available:
  assumes "current_task s = Some c" and "lock_count (tasks s c) < SCHEDULER_MAX_LOCK"
    and "flags (tasks s c) AND TASK_SCHED_DRIFT = 0 \<or> lock_count (tasks s c) \<noteq> 0"
    and "count (sems s m) \<noteq> 0" and "\<not> interrupt_protected (sems s m)"
  shows "semaphore_obtain P m w s = Some (SUCCESS, taken m (Some c) s)"
proof -
  have lock: "scheduler_lock s = Some (lock_up c s)"
    using assms(1,2) by (simp add: scheduler_lock_def lock_up_def not_le [symmetric])
  have "scheduler_unlock (env P) (taken m (Some c) (lock_up c s)) = Some (taken m (Some c) s)"
    unfolding taken_lock_up using assms(1-3) by (intro unlock_lock_up) simp_all
  then show ?thesis using assms lock
    by (simp add: semaphore_obtain_def taken_def [symmetric] Let_def)
qed

lemma semaphore_obtain_busy:
  assumes "current_task s = Some c" and "lock_count (tasks s c) < SCHEDULER_MAX_LOCK"
    and "flags (tasks s c) AND TASK_SCHED_DRIFT = 0 \<or> lock_count (tasks s c) \<noteq> 0"
    and "count (sems s m) = 0" and "\<not> interrupt_protected (sems s m)"
  shows "semaphore_obtain P m 0 s = Some (SEMAPHORE_BUSY, s)"
proof -
  have lock: "scheduler_lock s = Some (lock_up c s)"
    using assms(1,2) by (simp add: scheduler_lock_def lock_up_def not_le [symmetric])
  then show ?thesis using assms unlock_lock_up [OF assms(1-3)]
    by (simp add: semaphore_obtain_def Let_def SEMAPHORE_BUSY_def SUCCESS_def)
qed

text \<open>In an interrupt there is no task to suspend.\<close>

lemma semaphore_obtain_isr:
  assumes "current_task s = None" and "\<not> interrupt_protected (sems s m)"
  shows "semaphore_obtain P m w s =
    Some (if count (sems s m) = 0 then (SEMAPHORE_BUSY, s) else (SUCCESS, taken m None s))"
  using assms
  by (simp add: semaphore_obtain_def scheduler_lock_def scheduler_unlock_def Let_def taken_def
      SEMAPHORE_BUSY_def SUCCESS_def)

text \<open>The count of a semaphore that was created and is used through its operations.\<close>

definition sem_inv :: "'z kstate_scheme \<Rightarrow> semid \<Rightarrow> bool" where
  "sem_inv s m \<longleftrightarrow> count (sems s m) \<le> max_count (sems s m)"

lemma taken_sem_inv:
  assumes "count (sems s m) \<noteq> 0" and "sem_inv s m"
  shows "sem_inv (taken m ow s) m"
  using assms by (simp add: sem_inv_def word_le_nat_alt unat_minus_one)

end
