(* ===== verification/Suspend.thy ===== *)
theory Suspend
  imports SemaphoreSpec
begin

text \<open>
  What \<^verbatim>\<open>suspend_condition\<close> and its helpers compute: which of several conditions a task
  goes on with, how long it waits, and that a return with \<open>SUCCESS\<close> means that the condition
  it names holds, whatever the other tasks did in the meantime.
\<close>

section \<open>Which condition\<close>

text \<open>The callbacks do not look at the flag that \<^verbatim>\<open>suspend_do_suspend\<close> clears.\<close>

definition cb_frame :: "'z platform \<Rightarrow> bool" where
  "cb_frame P \<longleftrightarrow> (\<forall>f d x p s. cb_do_suspend P f d x (upd_suspend p (\<lambda>y. y\<lparr>may_resume := False\<rparr>) s) =
     cb_do_suspend P f d x s)"

definition clear_may_resume :: "sid \<Rightarrow> 'z kstate_scheme \<Rightarrow> 'z kstate_scheme" where
  "clear_may_resume p s = upd_suspend p (\<lambda>y. y\<lparr>may_resume := False\<rparr>) s"

lemma satisfied_clear [simp]:
  assumes "cb_frame P"
  shows "satisfied P c q (clear_may_resume p s) = satisfied P c q s"
proof -
  have "s_param (suspends (clear_may_resume p s) q) = s_param (suspends s q)"
    by (simp add: clear_may_resume_def)
  then show ?thesis using assms
    by (simp add: satisfied_def clear_may_resume_def cb_frame_def split: option.split)
qed

lemma clear_may_resume_sel [simp]:
  "tasks (clear_may_resume p s) = tasks s"
  "conds (clear_may_resume p s) = conds s"
  "s_priority (suspends (clear_may_resume p s) q) = s_priority (suspends s q)"
  by (simp_all add: clear_may_resume_def)

text \<open>Index \<open>j\<close> is the first of the satisfied conditions with the most urgent priority.\<close>

definition first_best :: "'z platform \<Rightarrow> cid list \<Rightarrow> sid list \<Rightarrow> nat \<Rightarrow> 'z kstate_scheme \<Rightarrow> nat \<Rightarrow> bool" where
  "first_best P cs ps n s j \<longleftrightarrow> j < n \<and> satisfied P (cs ! j) (ps ! j) s \<and>
     (\<forall>k<n. satisfied P (cs ! k) (ps ! k) s \<longrightarrow>
        s_priority (suspends s (ps ! j)) \<le> s_priority (suspends s (ps ! k)) \<and>
        (k < j \<longrightarrow> s_priority (suspends s (ps ! j)) < s_priority (suspends s (ps ! k))))"

definition any_satisfied :: "'z platform \<Rightarrow> cid list \<Rightarrow> sid list \<Rightarrow> nat \<Rightarrow> 'z kstate_scheme \<Rightarrow> bool" where
  "any_satisfied P cs ps n s \<longleftrightarrow> (\<exists>j<n. satisfied P (cs ! j) (ps ! j) s)"

lemma all_less_Suc_split: "(\<forall>k<Suc n. Q k) \<longleftrightarrow> Q 0 \<and> (\<forall>k<n. Q (Suc k))"
  by (auto simp: less_Suc_eq_0_disj)

lemma any_satisfied_Cons:
  "any_satisfied P (c # cs) (p # ps) (Suc n) s \<longleftrightarrow> satisfied P c p s \<or> any_satisfied P cs ps n s"
  by (auto simp: any_satisfied_def less_Suc_eq_0_disj)

lemma first_best_cong:
  assumes "\<And>c p. satisfied P c p s' = satisfied P c p s"
    and "\<And>q. s_priority (suspends s' q) = s_priority (suspends s q)"
  shows "first_best P cs ps n s' j = first_best P cs ps n s j"
  by (simp add: first_best_def assms)

lemma do_suspend_loop_spec:
  assumes "cb_frame P" and "n \<le> length cs" and "n \<le> length ps"
  shows "\<exists>ret' s'. suspend_do_suspend_loop P cs ps n i dos old ret s =
      Some (dos \<and> \<not> any_satisfied P cs ps n s, ret', s') \<and>
    conds s' = conds s \<and> tasks s' = tasks s \<and>
    (\<forall>c q. satisfied P c q s' = satisfied P c q s) \<and>
    (\<forall>q. s_priority (suspends s' q) = s_priority (suspends s q)) \<and>
    ((ret' = ret \<and> (\<forall>k<n. satisfied P (cs ! k) (ps ! k) s \<longrightarrow> \<not> s_priority (suspends s (ps ! k)) < old)) \<or>
     (\<exists>j. ret' = i + of_nat j \<and> first_best P cs ps n s j \<and> s_priority (suspends s (ps ! j)) < old))"
  using assms(2,3)
proof (induction n arbitrary: cs ps i dos old ret s)
  case 0
  then show ?case by (simp add: any_satisfied_def)
next
  case (Suc n)
  then obtain c cs' p ps' where l: "cs = c # cs'" "ps = p # ps'" "n \<le> length cs'" "n \<le> length ps'"
    by (metis Suc_le_length_iff)
  let ?pri = "\<lambda>q. s_priority (suspends s q)"
  consider (better) "satisfied P c p s" "?pri p < old" | (worse) "satisfied P c p s" "\<not> ?pri p < old"
    | (unsat) "\<not> satisfied P c p s" by blast
  then show ?case
  proof cases
    case better
    obtain ret' s' where IH: "suspend_do_suspend_loop P cs' ps' n (i + 1) False (?pri p) i s =
        Some (False, ret', s')" "conds s' = conds s" "tasks s' = tasks s"
        "\<forall>c q. satisfied P c q s' = satisfied P c q s" "\<forall>q. s_priority (suspends s' q) = ?pri q"
      and r: "(ret' = i \<and> (\<forall>k<n. satisfied P (cs' ! k) (ps' ! k) s \<longrightarrow> \<not> ?pri (ps' ! k) < ?pri p)) \<or>
         (\<exists>j. ret' = i + 1 + of_nat j \<and> first_best P cs' ps' n s j \<and> ?pri (ps' ! j) < ?pri p)"
      using Suc.IH [OF l(3,4), of "i + 1" False "?pri p" i s] by auto
    from r have "\<exists>j. ret' = i + of_nat j \<and> first_best P cs ps (Suc n) s j \<and> ?pri (ps ! j) < old"
    proof
      assume "ret' = i \<and> (\<forall>k<n. satisfied P (cs' ! k) (ps' ! k) s \<longrightarrow> \<not> ?pri (ps' ! k) < ?pri p)"
      then show ?thesis using better
        by (intro exI [of _ 0]) (auto simp: first_best_def l all_less_Suc_split not_less)
    next
      assume "\<exists>j. ret' = i + 1 + of_nat j \<and> first_best P cs' ps' n s j \<and> ?pri (ps' ! j) < ?pri p"
      then obtain j where j: "ret' = i + 1 + of_nat j" "first_best P cs' ps' n s j" "?pri (ps' ! j) < ?pri p"
        by blast
      have "first_best P cs ps (Suc n) s (Suc j)"
        using j(2,3) by (auto simp: first_best_def l all_less_Suc_split)
      then show ?thesis using j better by (intro exI [of _ "Suc j"]) (auto simp: l)
    qed
    then show ?thesis using better IH by (auto simp: l any_satisfied_Cons)
  next
    case worse
    obtain ret' s' where IH: "suspend_do_suspend_loop P cs' ps' n (i + 1) False old ret s =
        Some (False, ret', s')" "conds s' = conds s" "tasks s' = tasks s"
        "\<forall>c q. satisfied P c q s' = satisfied P c q s" "\<forall>q. s_priority (suspends s' q) = ?pri q"
      and r: "(ret' = ret \<and> (\<forall>k<n. satisfied P (cs' ! k) (ps' ! k) s \<longrightarrow> \<not> ?pri (ps' ! k) < old)) \<or>
         (\<exists>j. ret' = i + 1 + of_nat j \<and> first_best P cs' ps' n s j \<and> ?pri (ps' ! j) < old)"
      using Suc.IH [OF l(3,4), of "i + 1" False old ret s] by auto
    have "first_best P cs' ps' n s j \<Longrightarrow> ?pri (ps' ! j) < old \<Longrightarrow> first_best P cs ps (Suc n) s (Suc j)" for j
      using worse by (auto simp: first_best_def l all_less_Suc_split not_less)
    then have "(ret' = ret \<and> (\<forall>k<Suc n. satisfied P (cs ! k) (ps ! k) s \<longrightarrow> \<not> ?pri (ps ! k) < old)) \<or>
        (\<exists>j. ret' = i + of_nat j \<and> first_best P cs ps (Suc n) s j \<and> ?pri (ps ! j) < old)"
      using r worse
      by (elim disjE exE) (auto simp: l all_less_Suc_split intro!: exI [of _ "Suc _"])
    then show ?thesis using worse IH by (auto simp: l any_satisfied_Cons)
  next
    case unsat
    let ?s = "clear_may_resume p s"
    have st: "satisfied P c q ?s = satisfied P c q s" for c q using assms(1) by simp
    have fb: "first_best P cs' ps' n ?s j = first_best P cs' ps' n s j" for j
      by (rule first_best_cong) (use assms(1) in simp_all)
    have an: "any_satisfied P cs' ps' n ?s = any_satisfied P cs' ps' n s"
      using assms(1) by (simp add: any_satisfied_def)
    obtain ret' s' where IH: "suspend_do_suspend_loop P cs' ps' n (i + 1) dos old ret ?s =
        Some (dos \<and> \<not> any_satisfied P cs' ps' n s, ret', s')" "conds s' = conds s" "tasks s' = tasks s"
        "\<forall>c q. satisfied P c q s' = satisfied P c q s" "\<forall>q. s_priority (suspends s' q) = ?pri q"
      and r: "(ret' = ret \<and> (\<forall>k<n. satisfied P (cs' ! k) (ps' ! k) s \<longrightarrow> \<not> ?pri (ps' ! k) < old)) \<or>
         (\<exists>j. ret' = i + 1 + of_nat j \<and> first_best P cs' ps' n s j \<and> ?pri (ps' ! j) < old)"
      using Suc.IH [OF l(3,4), of "i + 1" dos old ret ?s] unfolding st fb an by auto
    have "first_best P cs' ps' n s j \<Longrightarrow> first_best P cs ps (Suc n) s (Suc j)" for j
      using unsat by (auto simp: first_best_def l all_less_Suc_split)
    then have "(ret' = ret \<and> (\<forall>k<Suc n. satisfied P (cs ! k) (ps ! k) s \<longrightarrow> \<not> ?pri (ps ! k) < old)) \<or>
        (\<exists>j. ret' = i + of_nat j \<and> first_best P cs ps (Suc n) s j \<and> ?pri (ps ! j) < old)"
      using r unsat
      by (elim disjE exE) (auto simp: l all_less_Suc_split intro!: exI [of _ "Suc _"])
    then show ?thesis using unsat IH by (auto simp: l any_satisfied_Cons clear_may_resume_def)
  qed
qed

lemma do_suspend_spec:
  assumes "cb_frame P" and "n \<le> length cs" and "n \<le> length ps"
  shows "\<exists>ret' s'. suspend_do_suspend P cs ps n ret s = Some (\<not> any_satisfied P cs ps n s, ret', s') \<and>
    (\<forall>c q. satisfied P c q s' = satisfied P c q s) \<and>
    (\<forall>q. s_priority (suspends s' q) = s_priority (suspends s q)) \<and>
    (any_satisfied P cs ps n s \<longrightarrow>
     (\<forall>q \<in> set ps. s_priority (suspends s q) \<noteq> SUSPEND_INVALID_PRIORITY) \<longrightarrow>
     (\<exists>j. ret' = of_nat j \<and> first_best P cs ps n s j))"
proof -
  have "x < SUSPEND_INVALID_PRIORITY \<longleftrightarrow> x \<noteq> SUSPEND_INVALID_PRIORITY" for x :: u8
  proof -
    have "SUSPEND_INVALID_PRIORITY = (- 1 :: u8)" by (simp add: SUSPEND_INVALID_PRIORITY_def)
    then show ?thesis by (metis word_order.not_eq_extremum)
  qed
  then show ?thesis
    using do_suspend_loop_spec [OF assms, of 0 True SUSPEND_INVALID_PRIORITY ret s] assms(3)
    by (fastforce simp: suspend_do_suspend_def any_satisfied_def)
qed

section \<open>A return with SUCCESS\<close>

definition valid_priorities :: "sid list \<Rightarrow> 'z kstate_scheme \<Rightarrow> bool" where
  "valid_priorities ps s \<longleftrightarrow> (\<forall>q \<in> set ps. s_priority (suspends s q) \<noteq> SUSPEND_INVALID_PRIORITY)"

lemma suspend_round_success:
  assumes "suspend_round P cs ps n tcb tmo ti ret s = Some (True, SUCCESS, ret', s')"
  shows "unat ret' < length cs \<and> satisfied P (cs ! unat ret') (ps ! unat ret') s'"
  using assms unfolding suspend_round_def Let_def
  by (elim bind_SomeE)
    (simp only: split: if_splits; elim bind_SomeE;
      auto simp: satisfied_def CONDITION_TIMEOUT_def SUCCESS_def IN_RANGE_def split: if_splits option.splits)

definition sound_return :: "'z platform \<Rightarrow> cid list \<Rightarrow> sid list \<Rightarrow> int \<times> u8 \<times> 'z kstate_scheme \<Rightarrow> bool" where
  "sound_return P cs ps r \<longleftrightarrow> (case r of (st, ret, s) \<Rightarrow> st = SUCCESS \<longrightarrow> valid_priorities ps s \<longrightarrow>
     unat ret < length cs \<and> satisfied P (cs ! unat ret) (ps ! unat ret) s)"

lemma suspend_loop_success:
  assumes "suspend_loop P cs ps n tcb tmo ti ret s = Some r"
    and "cb_frame P" "n \<le> length cs" "n \<le> length ps" "n < 256"
  shows "sound_return P cs ps r"
proof -
  define Q where "Q = (\<lambda>((((((((P :: 'a platform, cs), ps), n), tcb :: tid), tmo :: u32), ti :: u8), ret :: u8), s :: 'a kstate_scheme) r.
      cb_frame P \<longrightarrow> n \<le> length cs \<longrightarrow> n \<le> length ps \<longrightarrow> n < 256 \<longrightarrow> sound_return P cs ps r)"
  have "Q ((((((((P, cs), ps), n), tcb), tmo), ti), ret), s) r"
  proof (rule suspend_loop.raw_induct [OF _ assms(1)])
    fix loop and P :: "'a platform" and cs ps n tcb tmo ti ret s r
    assume IH: "\<And>P cs ps n tcb tmo ti ret s r. loop P cs ps n tcb tmo ti ret s = Some r \<Longrightarrow>
        Q ((((((((P, cs), ps), n), tcb), tmo), ti), ret), s) r"
      and body: "do {
        (wait, ret, s) \<leftarrow> suspend_do_suspend P cs ps n ret s;
        (if wait then do {
           (leave, st, ret, s) \<leftarrow> suspend_round P cs ps n tcb tmo ti ret s;
           (if leave then Some (st, ret, s) else loop P cs ps n tcb tmo ti ret s) }
         else Some (SUCCESS, ret, s)) } = Some r"
    show "Q ((((((((P, cs), ps), n), tcb), tmo), ti), ret), s) r"
      unfolding Q_def prod.case
    proof (intro impI)
      assume frame: "cb_frame P" and n: "n \<le> length cs" "n \<le> length ps" "n < 256"
      obtain wait ret1 s1 where d: "suspend_do_suspend P cs ps n ret s = Some (wait, ret1, s1)"
        using body by (auto simp: bind_Some_iff)
      note spec = do_suspend_spec [OF frame n(1,2), of ret s]
      show "sound_return P cs ps r"
      proof (cases wait)
        case False
        then have r: "r = (SUCCESS, ret1, s1)" using body d by simp
        have sat: "any_satisfied P cs ps n s" using spec d False by auto
        show ?thesis unfolding sound_return_def r prod.case
        proof (intro impI)
          assume "valid_priorities ps s1"
          then have "\<forall>q \<in> set ps. s_priority (suspends s q) \<noteq> SUSPEND_INVALID_PRIORITY"
            using spec d by (auto simp: valid_priorities_def)
          then obtain j where "ret1 = of_nat j" "first_best P cs ps n s j" using spec d sat by auto
          then show "unat ret1 < length cs \<and> satisfied P (cs ! unat ret1) (ps ! unat ret1) s1"
            using spec d n by (auto simp: first_best_def unat_of_nat)
        qed
      next
        case True
        then obtain leave st ret2 s2 where o: "suspend_round P cs ps n tcb tmo ti ret1 s1 = Some (leave, st, ret2, s2)"
          using body d by (auto simp: bind_Some_iff)
        show ?thesis
        proof (cases leave)
          case leave: True
          then have "r = (st, ret2, s2)" using body d o True by simp
          then show ?thesis using suspend_round_success [of P cs ps n tcb tmo ti ret1 s1 ret2 s2] o leave
            by (auto simp: sound_return_def)
        next
          case False
          then have "loop P cs ps n tcb tmo ti ret2 s2 = Some r" using body d o True by simp
          then show ?thesis using IH frame n unfolding Q_def by fastforce
        qed
      qed
    qed
  qed
  then show ?thesis using assms unfolding Q_def by simp
qed

text \<open>
  \<open>num\<close> may be NULL (one condition), and the caller may have locked the conditions or not: then
  \<^verbatim>\<open>suspend_condition\<close> unlocks them before it returns.
\<close>

definition ping_cleared :: "cid \<Rightarrow> 'z kstate_scheme \<Rightarrow> 'z kstate_scheme" where
  "ping_cleared c s =
     (if c_flags (conds s c) AND CONDITION_PING \<noteq> 0
      then upd_cond c (\<lambda>x. x\<lparr>c_flags := c_flags x AND NOT CONDITION_PING\<rparr>) s else s)"

lemma suspend_condition_runs:
  assumes "suspend_condition P cs ps num locked s = Some (st, num', s')"
    and "n = unat (case num of Some k \<Rightarrow> k | None \<Rightarrow> 1)" and "0 < n"
  shows "\<exists>tcb tmo ti s0 ret s1.
    suspend_loop P cs ps n tcb tmo ti (case num of Some k \<Rightarrow> k | None \<Rightarrow> 1) s0 = Some (st, ret, s1) \<and>
    num' = map_option (\<lambda>_. ret) num \<and> unat ret < length cs \<and>
    (if locked then s' = ping_cleared (cs ! unat ret) s1
     else suspend_unlock_condition P cs ps n (ping_cleared (cs ! unat ret) s1) = Some s')"
proof (cases num)
  case None
  then show ?thesis using assms unfolding suspend_condition_def ping_cleared_def
    by (auto simp: Let_def IN_RANGE_def elim!: bind_SomeE split: if_splits prod.splits) blast+
next
  case (Some k)
  then have "k \<noteq> 0" using assms(2,3) by auto
  then show ?thesis using assms Some unfolding suspend_condition_def ping_cleared_def
    by (auto simp: Let_def IN_RANGE_def elim!: bind_SomeE split: if_splits prod.splits) blast+
qed

lemma suspend_condition_success:
  assumes "suspend_condition P cs ps num locked s = Some (SUCCESS, num', s')"
    and "n = unat (case num of Some k \<Rightarrow> k | None \<Rightarrow> 1)" and "0 < n"
    and "cb_frame P" "n \<le> length cs" "n \<le> length ps"
  shows "\<exists>ret s1. num' = map_option (\<lambda>_. ret) num \<and> unat ret < length cs \<and>
    (valid_priorities ps s1 \<longrightarrow> satisfied P (cs ! unat ret) (ps ! unat ret) s1) \<and>
    (if locked then s' = ping_cleared (cs ! unat ret) s1
     else suspend_unlock_condition P cs ps n (ping_cleared (cs ! unat ret) s1) = Some s')"
proof -
  obtain tcb tmo ti s0 ret s1 where
      l: "suspend_loop P cs ps n tcb tmo ti (case num of Some k \<Rightarrow> k | None \<Rightarrow> 1) s0 =
        Some (SUCCESS, ret, s1)"
    and r: "num' = map_option (\<lambda>_. ret) num" "unat ret < length cs"
      "if locked then s' = ping_cleared (cs ! unat ret) s1
       else suspend_unlock_condition P cs ps n (ping_cleared (cs ! unat ret) s1) = Some s'"
    using suspend_condition_runs [OF assms(1-3)] by blast
  have "n < 256"
    using unsigned_less [of "case num of Some k \<Rightarrow> k | None \<Rightarrow> 1", where ?'a = nat] assms(2) by simp
  then have "valid_priorities ps s1 \<longrightarrow> satisfied P (cs ! unat ret) (ps ! unat ret) s1"
    using suspend_loop_success [OF l assms(4-6)] by (auto simp: sound_return_def)
  with r show ?thesis by blast
qed

text \<open>
  \<^verbatim>\<open>suspend_condition\<close> reads through \<^verbatim>\<open>num\<close> even when it is NULL, which is how
  \<^verbatim>\<open>semaphore_obtain\<close> calls it: where address 0 does not hold 0, it does not return.
\<close>

lemma suspend_condition_null:
  assumes "null_byte P \<noteq> 0"
  shows "suspend_condition P cs ps None locked s = None"
  unfolding suspend_condition_def using assms
  by (simp add: Let_def bind_eq_None_conv split: prod.split option.split)

section \<open>How long to wait\<close>

text \<open>The ticks that are left for a suspend structure, and without a timeout the largest number.\<close>

definition ticks_left :: "'z kstate_scheme \<Rightarrow> sid \<Rightarrow> u32" where
  "ticks_left s p =
     (if timeout_enabled (suspends s p)
      then if INT32CMP (timeout (suspends s p)) (current_tick s) > 0
           then timeout (suspends s p) - current_tick s else 0
      else MAX_WAIT)"

lemma timeout_loop_spec:
  assumes "n \<le> length ps"
  shows "\<exists>idx. suspend_timeout_loop ps n i (current_tick s) m mi s =
    Some (Min (insert m (ticks_left s ` set (take n ps))), idx) \<and>
    ((idx = mi \<and> (\<forall>k<n. m \<le> ticks_left s (ps ! k))) \<or>
     (\<exists>j<n. idx = i + of_nat j \<and> ticks_left s (ps ! j) < m \<and>
        (\<forall>k<n. ticks_left s (ps ! j) \<le> ticks_left s (ps ! k)) \<and>
        (\<forall>k<j. ticks_left s (ps ! j) < ticks_left s (ps ! k))))"
  using assms
proof (induction n arbitrary: ps i m mi)
  case 0
  then show ?case by simp
next
  case (Suc n)
  then obtain p ps' where l: "ps = p # ps'" "n \<le> length ps'" by (metis Suc_le_length_iff)
  let ?m = "min m (ticks_left s p)"
  have top: "x \<le> MAX_WAIT" for x :: u32 by (simp add: MAX_WAIT_def)
  have step: "suspend_timeout_loop ps (Suc n) i (current_tick s) m mi s =
      suspend_timeout_loop ps' n (i + 1) (current_tick s) ?m (if ticks_left s p < m then i else mi) s"
    using top [of m] by (auto simp: l ticks_left_def Let_def min_def not_less)
  obtain idx where IH: "suspend_timeout_loop ps' n (i + 1) (current_tick s) ?m
      (if ticks_left s p < m then i else mi) s =
      Some (Min (insert ?m (ticks_left s ` set (take n ps'))), idx)"
    and r: "(idx = (if ticks_left s p < m then i else mi) \<and> (\<forall>k<n. ?m \<le> ticks_left s (ps' ! k))) \<or>
     (\<exists>j<n. idx = i + 1 + of_nat j \<and> ticks_left s (ps' ! j) < ?m \<and>
        (\<forall>k<n. ticks_left s (ps' ! j) \<le> ticks_left s (ps' ! k)) \<and>
        (\<forall>k<j. ticks_left s (ps' ! j) < ticks_left s (ps' ! k)))"
    using Suc.IH [OF l(2), of "i + 1" ?m "if ticks_left s p < m then i else mi"] by blast
  have min: "Min (insert ?m (ticks_left s ` set (take n ps'))) =
      Min (insert m (ticks_left s ` set (take (Suc n) ps)))"
    by (cases "set (take n ps') = {}") (auto simp: l Min_insert min.assoc)
  from r have "(idx = mi \<and> (\<forall>k<Suc n. m \<le> ticks_left s (ps ! k))) \<or>
     (\<exists>j<Suc n. idx = i + of_nat j \<and> ticks_left s (ps ! j) < m \<and>
        (\<forall>k<Suc n. ticks_left s (ps ! j) \<le> ticks_left s (ps ! k)) \<and>
        (\<forall>k<j. ticks_left s (ps ! j) < ticks_left s (ps ! k)))"
  proof
    assume a: "idx = (if ticks_left s p < m then i else mi) \<and> (\<forall>k<n. ?m \<le> ticks_left s (ps' ! k))"
    show ?thesis
    proof (cases "ticks_left s p < m")
      case True
      then show ?thesis using a
        by (intro disjI2 exI [of _ 0]) (auto simp: l all_less_Suc_split min_def split: if_splits)
    next
      case False
      then show ?thesis using a by (auto simp: l all_less_Suc_split min_def split: if_splits)
    qed
  next
    assume "\<exists>j<n. idx = i + 1 + of_nat j \<and> ticks_left s (ps' ! j) < ?m \<and>
        (\<forall>k<n. ticks_left s (ps' ! j) \<le> ticks_left s (ps' ! k)) \<and>
        (\<forall>k<j. ticks_left s (ps' ! j) < ticks_left s (ps' ! k))"
    then obtain j where "j < n" "idx = i + 1 + of_nat j" "ticks_left s (ps' ! j) < ?m"
        "\<forall>k<n. ticks_left s (ps' ! j) \<le> ticks_left s (ps' ! k)"
        "\<forall>k<j. ticks_left s (ps' ! j) < ticks_left s (ps' ! k)" by blast
    then show ?thesis
      by (intro disjI2 exI [of _ "Suc j"]) (auto simp: l all_less_Suc_split)
  qed
  then show ?case using step IH min by auto
qed

lemma timeout_get_min_spec:
  assumes "n \<le> length ps" "0 < n"
  shows "\<exists>idx. suspend_timeout_get_min ps n s = Some (Min (ticks_left s ` set (take n ps)), idx)"
proof -
  have "Min (insert MAX_WAIT (ticks_left s ` set (take n ps))) = Min (ticks_left s ` set (take n ps))"
    using assms by (subst Min_insert) (auto simp: MAX_WAIT_def intro!: min_absorb2)
  then show ?thesis
    using timeout_loop_spec [OF assms(1), of 0 s MAX_WAIT 0] by (auto simp: suspend_timeout_get_min_def)
qed

section \<open>Which condition resumed the task\<close>

text \<open>
  \<^verbatim>\<open>suspend_condition_remove\<close> compares every priority with the initial value of
  \<^verbatim>\<open>old_priority\<close>, so the last condition that may resume the task is reported, whatever the
  priorities are.
\<close>

definition may_go :: "'z kstate_scheme \<Rightarrow> sid \<Rightarrow> bool" where
  "may_go s p \<longleftrightarrow> status (suspends s p) < SUCCESS \<or>
     (may_resume (suspends s p) \<and> s_priority (suspends s p) < SUSPEND_INVALID_PRIORITY)"

lemma suspend_unqueue_suspends: "suspend_unqueue c p s = Some s' \<Longrightarrow> suspends s' = suspends s"
  by (auto simp: suspend_unqueue_def seq_remove_def split: if_splits)

lemma remove_loop_last:
  assumes "suspend_condition_remove_loop cs ps n i rc SUSPEND_INVALID_PRIORITY ret s = Some (ret', s')"
    and "j < n" "may_go s (ps ! j)" "\<forall>k<n. j < k \<longrightarrow> \<not> may_go s (ps ! k)"
  shows "ret' = i + of_nat j"
proof -
  have keep: "suspend_condition_remove_loop cs ps n i rc SUSPEND_INVALID_PRIORITY ret s = Some (ret', s') \<Longrightarrow>
      \<forall>k<n. \<not> may_go s (ps ! k) \<Longrightarrow> ret' = ret" for cs ps n i rc ret s
  proof (induction cs ps n i rc "SUSPEND_INVALID_PRIORITY" ret s rule: suspend_condition_remove_loop.induct)
    case (2 c cs p ps n i rc ret s)
    then obtain s1 where s1: "(if rc \<noteq> SD_condition c then suspend_unqueue c p s else Some s) = Some s1"
      by (auto elim: bind_SomeE)
    then have same: "suspends s1 = suspends s"
      using suspend_unqueue_suspends by (auto split: if_splits)
    have no: "\<not> may_go s1 p" "\<forall>k<n. \<not> may_go s1 (ps ! k)"
      using 2(3) by (auto simp: may_go_def same all_less_Suc_split)
    then have "suspend_condition_remove_loop cs ps n (i + 1) rc SUSPEND_INVALID_PRIORITY ret s1 = Some (ret', s')"
      using 2(2) s1 by (auto simp: may_go_def Let_def)
    then show ?case using 2(1) [OF s1 refl] no by (auto simp: may_go_def)
  qed auto
  show ?thesis
    using assms
  proof (induction cs ps n i rc "SUSPEND_INVALID_PRIORITY" ret s arbitrary: j rule: suspend_condition_remove_loop.induct)
    case (2 c cs p ps n i rc ret s)
    then obtain s1 where s1: "(if rc \<noteq> SD_condition c then suspend_unqueue c p s else Some s) = Some s1"
      by (auto elim: bind_SomeE)
    then have same: "suspends s1 = suspends s"
      using suspend_unqueue_suspends by (auto split: if_splits)
    let ?ret = "if may_go s1 p then i else ret"
    have l: "suspend_condition_remove_loop cs ps n (i + 1) rc SUSPEND_INVALID_PRIORITY ?ret s1 = Some (ret', s')"
      using 2(2) s1 by (simp add: may_go_def Let_def)
    show ?case
    proof (cases j)
      case 0
      then have "may_go s1 p" "\<forall>k<n. \<not> may_go s1 (ps ! k)"
        using 2(4,5) by (auto simp: may_go_def same all_less_Suc_split)
      then show ?thesis using keep [OF l] 0 by simp
    next
      case (Suc j')
      then have "j' < n" "may_go s1 (ps ! j')" "\<forall>k<n. j' < k \<longrightarrow> \<not> may_go s1 (ps ! k)"
        using 2(3-5) by (auto simp: may_go_def same all_less_Suc_split)
      then show ?thesis using 2(1) [OF s1 refl, of j'] l Suc by (simp add: may_go_def)
    qed
  qed auto
qed

end
