(* ===== verification/Idle.thy ===== *)
theory Idle
  imports Suspend
begin

text \<open>
  The idle work table of \<^verbatim>\<open>rtos/kernel/idle.c\<close>, without \<^verbatim>\<open>IDLE_RUNTIME_UPDATE\<close>: work can be
  added and removed only before the kernel runs. \<open>idle_works s\<close> is the array, of length
  \<^verbatim>\<open>IDLE_WORK_MAX\<close>.
\<close>

definition KERNEL_RUNNING :: "'z kstate_scheme \<Rightarrow> bool" where
  "KERNEL_RUNNING s \<longleftrightarrow> current_task s \<noteq> None \<or> return_task s \<noteq> None"

fun idle_add_loop :: "fptr option \<Rightarrow> addr \<Rightarrow> idle_work list \<Rightarrow> int \<times> idle_work list" where
  "idle_add_loop f d [] = (IDLE_NO_SPACE, [])"
| "idle_add_loop f d (w # ws) =
     (if do_fun w = None then (SUCCESS, w\<lparr>do_fun := f, priv_data := d\<rparr> # ws)
      else (case idle_add_loop f d ws of (st, ws) \<Rightarrow> (st, w # ws)))"

definition idle_add_work ::
    "fptr option \<Rightarrow> addr \<Rightarrow> 'z kstate_scheme \<Rightarrow> int \<times> 'z kstate_scheme" where
  "idle_add_work f d s =
     (if \<not> KERNEL_RUNNING s
      then (case idle_add_loop f d (idle_works s) of (st, ws) \<Rightarrow> (st, s\<lparr>idle_works := ws\<rparr>))
      else (IDLE_CANNOT_UPDATE, s))"

fun idle_remove_loop :: "fptr option \<Rightarrow> addr \<Rightarrow> idle_work list \<Rightarrow> int \<times> idle_work list" where
  "idle_remove_loop f d [] = (IDLE_NOT_FOUND, [])"
| "idle_remove_loop f d (w # ws) =
     (if do_fun w = f \<and> priv_data w = d then (SUCCESS, w\<lparr>do_fun := None\<rparr> # ws)
      else (case idle_remove_loop f d ws of (st, ws) \<Rightarrow> (st, w # ws)))"

definition idle_remove_work ::
    "fptr option \<Rightarrow> addr \<Rightarrow> 'z kstate_scheme \<Rightarrow> int \<times> 'z kstate_scheme" where
  "idle_remove_work f d s =
     (if \<not> KERNEL_RUNNING s
      then (case idle_remove_loop f d (idle_works s) of (st, ws) \<Rightarrow> (st, s\<lparr>idle_works := ws\<rparr>))
      else (IDLE_CANNOT_UPDATE, s))"

text \<open>
  One pass of the endless loop of \<^verbatim>\<open>idle_task_entry\<close> over the entries from index \<open>i\<close> on;
  \<open>run\<close> calls a work function.
\<close>

fun idle_pass ::
    "(fptr \<Rightarrow> addr \<Rightarrow> 'z kstate_scheme \<Rightarrow> 'z kstate_scheme option) \<Rightarrow> nat \<Rightarrow> nat \<Rightarrow> 'z kstate_scheme \<Rightarrow>
     'z kstate_scheme option" where
  "idle_pass run i 0 s = Some s"
| "idle_pass run i (Suc n) s = do {
     let w = idle_works s ! i;
     s \<leftarrow> (case do_fun w of Some f \<Rightarrow> run f (priv_data w) s | None \<Rightarrow> Some s);
     idle_pass run (i + 1) n s }"

section \<open>The table as a bag of work\<close>

text \<open>The work that a pass runs, in order.\<close>

definition work :: "idle_work list \<Rightarrow> (fptr \<times> addr) list" where
  "work ws = concat (map (\<lambda>w. case do_fun w of Some f \<Rightarrow> [(f, priv_data w)] | None \<Rightarrow> []) ws)"

lemma work_simps [simp]:
  "work [] = []"
  "work (w # ws) = (case do_fun w of Some f \<Rightarrow> [(f, priv_data w)] | None \<Rightarrow> []) @ work ws"
  by (simp_all add: work_def)

lemma work_append [simp]: "work (xs @ ys) = work xs @ work ys"
  by (simp add: work_def)

lemma length_work: "length (work ws) \<le> length ws"
  by (induction ws) (auto split: option.splits)

lemma idle_add_loop_spec:
  "idle_add_loop (Some f) d ws = (st, ws') \<Longrightarrow>
   length ws' = length ws \<and>
   (if length (work ws) < length ws
    then st = SUCCESS \<and> (\<exists>xs ys. work ws = xs @ ys \<and> work ws' = xs @ (f, d) # ys)
    else st = IDLE_NO_SPACE \<and> ws' = ws)"
proof (induction ws arbitrary: st ws')
  case (Cons w ws)
  show ?case
  proof (cases "do_fun w")
    case None
    then show ?thesis using Cons.prems length_work [of ws]
      by (auto intro: exI [of _ "[]"])
  next
    case (Some g)
    then obtain ws1 where ws1: "idle_add_loop (Some f) d ws = (st, ws1)" "ws' = w # ws1"
      using Cons.prems by (auto split: prod.splits)
    note IH = Cons.IH [OF ws1(1)]
    show ?thesis
    proof (cases "length (work ws) < length ws")
      case True
      then obtain xs ys where "work ws = xs @ ys" "work ws1 = xs @ (f, d) # ys" "st = SUCCESS"
        using IH by auto
      then have "work (w # ws) = ((g, priv_data w) # xs) @ ys"
          "work ws' = ((g, priv_data w) # xs) @ (f, d) # ys"
        using Some ws1 by simp_all
      then have "\<exists>xs ys. work (w # ws) = xs @ ys \<and> work ws' = xs @ (f, d) # ys" by blast
      moreover have "length (work (w # ws)) < length (w # ws)" using True Some by simp
      moreover have "length ws' = length (w # ws)" using ws1 IH by simp
      ultimately show ?thesis using \<open>st = SUCCESS\<close> by presburger
    qed (use Some ws1 IH in auto)
  qed
qed auto

lemma idle_remove_loop_spec:
  "idle_remove_loop (Some f) d ws = (st, ws') \<Longrightarrow>
   work ws' = remove1 (f, d) (work ws) \<and> length ws' = length ws \<and>
   st = (if (f, d) \<in> set (work ws) then SUCCESS else IDLE_NOT_FOUND)"
proof (induction ws arbitrary: st ws')
  case (Cons w ws)
  then show ?case
    by (cases "do_fun w") (auto split: prod.splits if_splits)
qed auto

lemma idle_pass_runs:
  assumes "\<And>f d s s'. run f d s = Some s' \<Longrightarrow> idle_works s' = idle_works s"
    and "i + n \<le> length (idle_works s)"
  shows "idle_pass run i n s =
    fold (\<lambda>(f, d) s. Option.bind s (run f d)) (work (take n (drop i (idle_works s)))) (Some s)"
  using assms(2)
proof (induction n arbitrary: i s)
  case (Suc n)
  have none: "fold (\<lambda>(f, d) s. Option.bind s (run f d)) xs None = None" for xs
    by (induction xs) auto
  have d: "drop i (idle_works s) = idle_works s ! i # drop (Suc i) (idle_works s)"
    using Suc.prems by (simp add: Cons_nth_drop_Suc)
  show ?case
  proof (cases "do_fun (idle_works s ! i)")
    case None
    then show ?thesis using Suc by (simp add: d Let_def)
  next
    case (Some f)
    show ?thesis
    proof (cases "run f (priv_data (idle_works s ! i)) s")
      case None
      then show ?thesis using Some by (simp add: d none Let_def)
    next
      case r: (Some s1)
      have "idle_works s1 = idle_works s" using assms(1) r by blast
      then show ?thesis using Suc.IH [of "Suc i" s1] Suc.prems r Some by (simp add: d Let_def)
    qed
  qed
qed simp

end
