(* ===== verification/Example.thy ===== *)
theory Example
  imports Idle
begin

text \<open>
  Concrete states on which the properties are applied: an idle task, a running task 1, a
  ready task 2 and a sleeping task 3, and an environment in which exactly one tick and one
  switch happen before a task gets the processor back.
\<close>

definition example_task :: "task_state \<Rightarrow> u8 \<Rightarrow> u32 \<Rightarrow> u8 \<Rightarrow> task" where
  "example_task st pri tick lk =
     zero_task\<lparr>state := st, priority := pri, tick_sleep := tick, lock_count := lk\<rparr>"

definition zero_suspend :: suspend where
  "zero_suspend = \<lparr>timeout = 0, s_task = None, s_param = NULLP, status = 0, timeout_enabled = False,
     s_priority = 0, may_resume = False\<rparr>"

text \<open>\<open>p\<close> is the priority of task 2, \<open>sl\<close> the sleep list, \<open>lk\<close> the lock count of task 1.\<close>

definition example :: "u8 \<Rightarrow> tid list \<Rightarrow> u8 \<Rightarrow> kstate" where
  "example p sl lk = \<lparr>
     tasks = (\<lambda>t. if t = 0 then example_task TASK_RESUME 255 0 0
                  else if t = 1 then example_task TASK_RUNNING 5 0 lk
                  else if t = 2 then example_task TASK_RESUME p 0 0
                  else if t = 3 then example_task TASK_SUSPENDED 3 1 0
                  else example_task TASK_FINISHED 0 0 0),
     sch_ready_task_list = [2, 0], sleep_task_list = sl, current_tick = 0, current_task = Some 1,
     return_task = None, sys_interrupt_level = True, pend_sv = False, ram = (\<lambda>_. 0),
     suspends = (\<lambda>_. zero_suspend), conds = (\<lambda>_. zero_condition), sems = (\<lambda>_. zero_semaphore),
     idle_works = []\<rparr>"

lemma example_inv:
  assumes "p \<le> 254" and "sl = [] \<or> sl = [3]"
  shows "kernel_inv (example p sl lk)"
proof (rule kernel_invI [where c = 1])
  have "p \<le> 255" using assms(1) by (rule order_trans) simp
  then show "ready_inv (example p sl lk)"
    by (simp add: ready_inv_def example_def example_task_def runs_before_def)
  show "\<And>t. state (tasks (example p sl lk) t) = TASK_RUNNING \<Longrightarrow> t = 1"
    by (simp add: example_def example_task_def split: if_splits)
  show "\<And>t. t \<noteq> idle_task \<Longrightarrow> priority (tasks (example p sl lk) t) \<le> SCHEDULER_MAX_PRI"
    using assms(1)
    by (simp add: example_def example_task_def zero_task_def idle_task_def SCHEDULER_MAX_PRI_def)
qed (use assms in \<open>auto simp: example_def example_task_def idle_task_def SCHEDULER_MAX_PRI_def\<close>)

lemma example_on_cpu: "on_cpu (example p sl lk) 1"
  by (simp add: on_cpu_def example_def example_task_def)

lemma example_sleep_inv: "sl = [] \<or> sl = [3] \<Longrightarrow> sleep_inv (example p sl lk)"
  by (auto simp: sleep_inv_def window_def example_def example_task_def INT32CMP_def)

lemma example_not_queued: "\<not> queued (example p sl lk) t"
  by (simp add: queued_def example_def zero_condition_def)

definition one_tick_env :: "tid \<Rightarrow> kstate \<Rightarrow> kstate option" where
  "one_tick_env t s =
     (if sys_interrupt_level s then do {
        s1 \<leftarrow> isr_sysclock_handle s;
        (if pend_sv s1 \<and> sys_interrupt_level s1 then do {
           s2 \<leftarrow> isr_pendsv_handle s1;
           (if current_task s2 = Some t then Some s2 else None)
         }
         else None)
      }
      else None)"

lemma one_tick_env_ok: "env_ok one_tick_env"
  unfolding env_ok_def
proof (intro allI impI)
  fix t and s s' :: kstate
  assume inv: "kernel_inv s" and t: "current_task s \<noteq> Some t" and run: "one_tick_env t s = Some s'"
  obtain c where c: "current_task s = Some c" using inv by (auto simp only: kernel_inv_def)
  obtain s1 where s1: "sys_interrupt_level s" "isr_sysclock_handle s = Some s1" "pend_sv s1"
      "sys_interrupt_level s1" "isr_pendsv_handle s1 = Some s'" "current_task s' = Some t"
    using run by (auto simp: one_tick_env_def elim!: bind_SomeE split: if_splits)
  have st1: "kstep s s1" using s1(1) c s1(2) by (rule kstep.tick)
  have c1: "current_task s1 = Some c"
    using s1(2) c by (auto simp: isr_sysclock_cases Let_def split: if_splits)
  have st2: "kstep s1 s'" using s1(3,4) c1 s1(5) by (rule kstep.switch)
  have "others t (ticks_in s1 s') s1 s'"
    using c1 c t st2 s1(6) by (intro others.returns) simp_all
  then show "\<exists>k. others t k s s'" using others.more [OF t st1] by blast
qed

definition example_platform :: "unit platform" where
  "example_platform = \<lparr>env = one_tick_env,
     cb_do_suspend = (\<lambda>f d x s. semaphore_do_suspend d x s),
     cb_lock = (\<lambda>f d s. Some s), cb_unlock = (\<lambda>f d s. Some s), null_byte = 0\<rparr>"

end
