(* ===== verification/SllProps.thy ===== *)
theory SllProps
  imports Sll Example
begin

text \<open>
  The properties of the linked-list routines, and the ready list on the pointer code: the
  scheduler's callback and the list routines together meet the contract
  \<open>sorted_intrusive_list\<close>.
\<close>

interpretation ready_sll: sorted_intrusive_list sll_holds sll_push sll_append sll_pop sll_insert
    sll_remove UNIV "runs_before s" "scheduler_task_sort s" for s
  by unfold_locales

definition empty_sll :: "nat sll" where
  "empty_sll = ((\<lambda>_. None), \<lparr>head = None, tail = None\<rparr>)"

lemma empty_sll_holds: "sll_holds empty_sll []"
  by (simp add: empty_sll_def)

definition pair_sll :: "nat sll" where
  "pair_sll = ((\<lambda>n. if n = 4 then Some 6 else None), \<lparr>head = Some 4, tail = Some 6\<rparr>)"

lemma pair_sll_holds: "sll_holds pair_sll [4, 6]"
  by (simp add: pair_sll_def sll_holds_def)

text \<open>C37. \<^verbatim>\<open>sll_insert\<close> returns and leaves a well-formed list, with the tail pointer right, that
  holds the new node before the first member its callback accepts and everything else as
  before; it writes only the links of the new node and of the members.\<close>

theorem sll_insert_refines:
  assumes "sll_holds l xs" and "n \<notin> set xs"
  shows "\<exists>l'. sll_insert srt (Some n) l = Some l' \<and>
    sll_holds l' (takeWhile (\<lambda>x. \<not> srt x n) xs @ n # dropWhile (\<lambda>x. \<not> srt x n) xs) \<and>
    links_changed_in (insert n (set xs)) l l'"
  using sll_insert_holds [OF assms] by (simp add: ins_takeWhile)

theorem sll_insert_refines_witness:
  "\<exists>l'. sll_insert (\<lambda>x n. n < x) (Some 5) pair_sll = Some l' \<and> sll_holds l' [4, 5, 6]"
  using sll_insert_refines [OF pair_sll_holds, of 5 "\<lambda>x n. n < x"] by auto

text \<open>\<^verbatim>\<open>sll_search_pop\<close> returns and takes exactly the first member its callback accepts off the
  list, or leaves the list alone; the callback is asked for the members in order, and its
  parameter carries over from one to the next.\<close>

theorem sll_search_pop_refines:
  assumes "sll_holds l xs" and "seq_scan match p xs = (passed, rest, p')"
  shows "\<exists>l'. sll_search_pop match p l =
      Some (case rest of [] \<Rightarrow> None | z # zs \<Rightarrow> Some z, p', l') \<and>
    sll_holds l' (passed @ tl rest) \<and> xs = passed @ rest \<and> links_changed_in (set xs) l l'"
proof -
  have "xs = passed @ rest" using assms(2) by (rule seq_scan_append)
  moreover have spec: "seq_search_pop match p xs =
      (case rest of [] \<Rightarrow> None | z # zs \<Rightarrow> Some z, p', passed @ tl rest)"
    using assms(2) calculation by (auto simp: seq_search_pop_def split: list.splits)
  ultimately show ?thesis using sll_search_pop_holds [OF assms(1) spec] by simp
qed

theorem sll_search_pop_refines_witness:
  "\<exists>l'. sll_search_pop (\<lambda>x p. (x > p, p)) 5 pair_sll = Some (Some 6, 5, l') \<and> sll_holds l' [4]"
proof -
  have "seq_scan (\<lambda>x p. (x > p, p)) 5 [4, 6 :: nat] = ([4], [6], 5)" by simp
  from sll_search_pop_refines [OF pair_sll_holds this] show ?thesis by auto
qed

text \<open>\<^verbatim>\<open>sll_remove\<close> returns for every list: it takes the given node off when it is a member and
  reports it, and otherwise reports NULL and leaves the list alone. In both cases the list is
  well formed afterwards.\<close>

theorem sll_remove_refines:
  assumes "sll_holds l xs"
  shows "\<exists>l'. sll_remove (Some n) l = Some (if n \<in> set xs then Some n else None, l') \<and>
    sll_holds l' (filter (\<lambda>x. x \<noteq> n) xs) \<and> links_changed_in (set xs) l l'"
proof -
  have "remove1 n xs = filter (\<lambda>x. x \<noteq> n) xs"
    using distinct_remove1_removeAll [OF sll_holds_distinct [OF assms]] by (auto simp: removeAll_filter_not_eq intro!: filter_cong)
  moreover have "n \<notin> set xs \<Longrightarrow> filter (\<lambda>x. x \<noteq> n) xs = xs" by (auto intro!: filter_True)
  ultimately show ?thesis
    using sll_remove_holds [OF assms, of n] by (cases "n \<in> set xs") auto
qed

theorem sll_remove_refines_witness:
  "\<exists>l'. sll_remove (Some 6) pair_sll = Some (Some 6, l') \<and> sll_holds l' [4]"
  using sll_remove_refines [OF pair_sll_holds, of 6] by auto

text \<open>A list used with \<^verbatim>\<open>sll_append\<close> and \<^verbatim>\<open>sll_pop\<close> is a queue: what was appended comes out in
  the same order.\<close>

theorem sll_queue_order:
  assumes "sll_holds l []" and "distinct ns"
  shows "\<exists>l'. add_all sll_append ns l = Some l' \<and> drain sll_pop (length ns) l' = ns"
  using assms by (rule sll.queue_fifo)

theorem sll_queue_order_witness:
  "\<exists>l'. add_all sll_append [3, 1, 2] empty_sll = Some l' \<and>
    drain sll_pop (length [3 :: nat, 1, 2]) l' = [3, 1, 2]"
  by (rule sll_queue_order [OF empty_sll_holds]) simp

text \<open>Tasks that were inserted into the ready list with the scheduler's callback are popped in
  the order of their priorities, whatever the order in which they were inserted.\<close>

theorem ready_list_pops_by_priority:
  assumes "sll_holds l []" and "distinct ts"
  shows "\<exists>l'. add_all (sll_insert (scheduler_task_sort s)) ts l = Some l' \<and>
    sorted_wrt (\<lambda>a b. priority (tasks s a) \<le> priority (tasks s b)) (drain sll_pop (length ts) l') \<and>
    set (drain sll_pop (length ts) l') = set ts"
  using ready_sll.drain_sorted [OF assms, of s] by (simp add: runs_before_def [abs_def])

theorem ready_list_pops_by_priority_witness:
  "\<exists>l'. add_all (sll_insert (scheduler_task_sort (example 7 [] 0))) [3, 1, 2] empty_sll = Some l' \<and>
    sorted_wrt (\<lambda>a b. priority (tasks (example 7 [] 0) a) \<le> priority (tasks (example 7 [] 0) b))
      (drain sll_pop (length [3 :: tid, 1, 2]) l') \<and>
    set (drain sll_pop (length [3 :: tid, 1, 2]) l') = set [3, 1, 2]"
  by (rule ready_list_pops_by_priority [OF empty_sll_holds]) simp

end
