(* ===== verification/KernelProps.thy ===== *)
theory KernelProps
  imports Example
begin

text \<open>
  The properties of the scheduler, the sleep list, the tick and the task life cycle, each with
  a witness on the states of theory \<open>Example\<close>.
\<close>

section \<open>Scheduling\<close>

text \<open>C1. In every state the system can reach after it was started, the context switch does not
  fail an assertion: it returns, and the task it switches to is in the state
  \<open>TASK_RUNNING\<close> with no further switch pending.\<close>

theorem switch_always_succeeds:
  assumes "boot_inv s0" and "run_first_task s0 = Some s1" and "ksteps k s1 s"
  shows "\<exists>s' n. isr_pendsv_handle s = Some s' \<and> on_cpu s' n"
proof -
  have "kernel_inv s1" using run_first_task_inv [OF assms(1)] assms(2) by auto
  then have inv: "kernel_inv s" using ksteps_inv [OF assms(3)] by blast
  then obtain c where "current_task s = Some c" by (auto simp only: kernel_inv_def)
  then show ?thesis using isr_pendsv_switched [OF inv] by (fastforce simp: on_cpu_def)
qed

definition booted :: kstate where
  "booted = the (scheduler_init 9 1000 256 17
     ((example 7 [] 0)\<lparr>current_task := None, tasks := (\<lambda>_. zero_task)\<rparr>))"

lemma booted_inv: "boot_inv booted"
  using scheduler_init_boot [of "(example 7 [] 0)\<lparr>current_task := None, tasks := (\<lambda>_. zero_task)\<rparr>"
      9 1000 256 17]
  by (auto simp: booted_def example_def zero_task_def)

theorem switch_always_succeeds_witness:
  "\<exists>s' n. isr_pendsv_handle (the (run_first_task booted)) = Some s' \<and> on_cpu s' n"
proof -
  obtain s1 where "run_first_task booted = Some s1" using run_first_task_inv [OF booted_inv] by blast
  then show ?thesis
    using switch_always_succeeds [OF booted_inv _ ksteps.stop] by (metis option.sel)
qed

text \<open>C2. A context switch gives the processor to a task of the most urgent priority among the
  candidates: the ready tasks, the task that had the processor if it still wants it, and the
  sleeping tasks whose time has come. All other candidates are on the ready list afterwards.\<close>

theorem switch_runs_most_urgent:
  assumes "kernel_inv s" and "sleep_inv s"
  shows "\<exists>s' n. isr_pendsv_handle s = Some s' \<and> current_task s' = Some n \<and>
    state (tasks s' n) = TASK_RUNNING \<and> n \<in> candidates s \<and>
    (\<forall>t \<in> candidates s. priority (tasks s n) \<le> priority (tasks s t)) \<and>
    set (sch_ready_task_list s') = candidates s - {n}"
  using assms by (rule switch_chooses)

theorem switch_runs_most_urgent_witness:
  "\<exists>s' n. isr_pendsv_handle (example 7 [3] 0) = Some s' \<and> current_task s' = Some n \<and>
    state (tasks s' n) = TASK_RUNNING \<and> n \<in> candidates (example 7 [3] 0) \<and>
    (\<forall>t \<in> candidates (example 7 [3] 0).
       priority (tasks (example 7 [3] 0) n) \<le> priority (tasks (example 7 [3] 0) t)) \<and>
    set (sch_ready_task_list s') = candidates (example 7 [3] 0) - {n}"
  by (rule switch_runs_most_urgent) (simp_all add: example_inv example_sleep_inv)

text \<open>C3. Tasks of one priority take turns: when the running task is preempted while a ready task
  is at least as urgent, the switch goes to another task.\<close>

theorem equal_priority_takes_turns:
  assumes "kernel_inv s" and "current_task s = Some c" and "state (tasks s c) = TASK_RUNNING"
    and "t \<in> set (sch_ready_task_list s)" and "priority (tasks s t) \<le> priority (tasks s c)"
  shows "\<exists>s' n. isr_pendsv_handle s = Some s' \<and> current_task s' = Some n \<and> n \<noteq> c"
  using assms by (rule switch_takes_turns)

theorem equal_priority_takes_turns_witness:
  "\<exists>s' n. isr_pendsv_handle (example 5 [] 0) = Some s' \<and> current_task s' = Some n \<and> n \<noteq> 1"
  by (rule equal_priority_takes_turns [where t = 2])
    (simp_all add: example_inv, simp_all add: example_def example_task_def zero_task_def)

text \<open>The ready list is first-in first-out for each priority: a task that is made ready goes
  behind all tasks of its priority and changes nothing for the other priorities.\<close>

theorem ready_list_fifo:
  assumes "ready_inv s" and "scheduler_task_yield t frm s = Some s'"
  shows "filter (\<lambda>x. priority (tasks s' x) = k) (sch_ready_task_list s') =
    filter (\<lambda>x. priority (tasks s x) = k) (sch_ready_task_list s) @
    (if priority (tasks s t) = k then [t] else [])"
  using assms by (rule yield_fifo)

theorem ready_list_fifo_witness:
  "filter (\<lambda>x. priority (tasks (the (scheduler_task_yield 3 YIELD_SYSTEM (example 3 [] 0))) x) = 3)
     (sch_ready_task_list (the (scheduler_task_yield 3 YIELD_SYSTEM (example 3 [] 0)))) = [2, 3]"
proof -
  have y: "scheduler_task_yield 3 YIELD_SYSTEM (example 3 [] 0) =
      Some (the (scheduler_task_yield 3 YIELD_SYSTEM (example 3 [] 0)))"
    by (simp add: scheduler_task_yield_eq example_def)
  have "ready_inv (example 3 [] 0)" by (rule kernel_invD) (simp add: example_inv)
  from ready_list_fifo [OF this y, of 3] show ?thesis
    by (simp add: example_def example_task_def zero_task_def)
qed

text \<open>C4. Every step of the kernel, whether the tick, a switch, or an atomic part of a routine of
  the running task, keeps the invariant: the ready list is sorted, without duplicates and holds
  only ready tasks, exactly one task is running and it is the current one, the idle task is
  always available, and a switch is only pending for a task that may lose the processor.\<close>

theorem kernel_steps_keep_invariant:
  assumes "ksteps k s s'" and "kernel_inv s"
  shows "kernel_inv s' \<and> current_tick s' = current_tick s + of_nat k"
  using assms ksteps_inv ksteps_tick by blast

theorem kernel_steps_keep_invariant_witness:
  "kernel_inv (the (scheduler_lock (example 7 [] 0))) \<and>
   current_tick (the (scheduler_lock (example 7 [] 0))) = 0"
proof -
  let ?s = "the (scheduler_lock (example 7 [] 0))"
  have l: "scheduler_lock (example 7 [] 0) = Some ?s"
    by (simp add: scheduler_lock_def example_def example_task_def zero_task_def SCHEDULER_MAX_LOCK_def)
  have "ksteps 0 (example 7 [] 0) ?s"
    by (rule ksteps_one [OF kstep.lock [OF example_on_cpu l]])
      (simp add: scheduler_lock_def example_def example_task_def zero_task_def SCHEDULER_MAX_LOCK_def)
  from kernel_steps_keep_invariant [OF this] show ?thesis
    by (simp add: example_inv) (simp add: example_def)
qed

section \<open>The scheduler lock\<close>

text \<open>C5. A tick does not take the processor from a task that has locked the scheduler: it
  returns, requests no switch, and when a sleeping task is due it leaves a note in the drift
  flag of the running task.\<close>

theorem tick_respects_lock:
  assumes "on_cpu s c" and "lock_count (tasks s c) \<noteq> 0"
  shows "\<exists>s'. isr_sysclock_handle s = Some s' \<and> on_cpu s' c \<and>
    lock_count (tasks s' c) = lock_count (tasks s c) \<and>
    (flags (tasks s' c) = (if tick_triggers s then flags (tasks s c) OR TASK_SCHED_DRIFT
                           else flags (tasks s c)))"
  using assms isr_sysclock_cases [of s c] by (auto simp: on_cpu_def Let_def)

theorem tick_respects_lock_witness:
  "\<exists>s'. isr_sysclock_handle (example 7 [3] 1) = Some s' \<and> on_cpu s' 1 \<and>
    lock_count (tasks s' 1) = lock_count (tasks (example 7 [3] 1) 1) \<and>
    (flags (tasks s' 1) = (if tick_triggers (example 7 [3] 1)
       then flags (tasks (example 7 [3] 1) 1) OR TASK_SCHED_DRIFT else flags (tasks (example 7 [3] 1) 1)))"
  by (rule tick_respects_lock [OF example_on_cpu]) (simp add: example_def example_task_def)

text \<open>Unlocking undoes one lock: when \<^verbatim>\<open>scheduler_unlock\<close> returns, possibly after a switch
  that was missed while the scheduler was locked, the caller has the processor, its lock count
  is one less, the interrupt level is unchanged, and all that happened in between are steps of
  the kernel. Without the matching lock it does not return.\<close>

theorem unlock_balances_lock:
  assumes "kernel_inv s" and "on_cpu s c" and "env_ok e" and "scheduler_unlock e s = Some s'"
  shows "returns_to c s s' \<and> lock_count (tasks s' c) = lock_count (tasks s c) - 1 \<and>
    sys_interrupt_level s' = sys_interrupt_level s \<and> lock_count (tasks s c) \<noteq> 0"
  using assms by (rule scheduler_unlock_returns_to)

lemma example_unlock:
  "scheduler_unlock one_tick_env (example 7 [] 1) =
    Some (upd_task 1 (\<lambda>t. t\<lparr>lock_count := lock_count t - 1\<rparr>) (example 7 [] 1))"
  by (simp add: scheduler_unlock_on_cpu [of _ 1] example_def example_task_def zero_task_def)

theorem unlock_balances_lock_witness:
  "lock_count (tasks (the (scheduler_unlock one_tick_env (example 7 [] 1))) 1) = 0"
proof -
  have "kernel_inv (example 7 [] 1)" by (simp add: example_inv)
  from unlock_balances_lock [OF this example_on_cpu one_tick_env_ok example_unlock]
  have "lock_count (tasks (the (scheduler_unlock one_tick_env (example 7 [] 1))) 1) =
      lock_count (tasks (example 7 [] 1) 1) - 1"
    by (simp only: example_unlock option.sel)
  also have "\<dots> = 0" by (simp add: example_def example_task_def)
  finally show ?thesis .
qed

text \<open>A switch that was noted in the drift flag is made up for when the last lock is
  released: \<^verbatim>\<open>scheduler_unlock\<close> clears the flag, releases the lock and then does exactly
  what \<^verbatim>\<open>control_to_system\<close> does, with interrupts disabled until then and the level restored
  afterwards.\<close>

theorem unlock_makes_up_for_drift:
  assumes "kernel_inv s" and "on_cpu s c" and "lock_count (tasks s c) = 1"
    and "flags (tasks s c) AND TASK_SCHED_DRIFT \<noteq> 0"
  shows "scheduler_unlock e s = do {
    s' \<leftarrow> control_to_system e (DISABLE_INTERRUPTS (upd_task c
      (\<lambda>t. t\<lparr>lock_count := 0, flags := flags t AND NOT TASK_SCHED_DRIFT\<rparr>) s));
    Some (s'\<lparr>sys_interrupt_level := sys_interrupt_level s\<rparr>) }"
proof -
  have c: "current_task s = Some c" using assms(2) by (simp add: on_cpu_def)
  let ?s = "upd_task c (\<lambda>t. t\<lparr>flags := flags t AND NOT TASK_SCHED_DRIFT\<rparr>)
       (upd_task c (\<lambda>t. t\<lparr>lock_count := lock_count t - 1\<rparr>) s)"
  let ?m = "upd_task c (\<lambda>t. t\<lparr>lock_count := 0, flags := flags t AND NOT TASK_SCHED_DRIFT\<rparr>) s"
  have inv: "kernel_inv ?m"
    using assms(2) by (intro upd_task_cpu_inv [OF assms(1,2)]) (simp_all add: on_cpu_def)
  have eq: "?s = ?m" using assms(3) by (simp add: upd_task_def)
  have "scheduler_unlock e s = task_yield e ?s"
    using scheduler_unlock_on_cpu [OF c, of e] assms(3,4) by simp
  also have "\<dots> = task_yield e ?m" by (simp only: eq)
  finally show ?thesis using task_yield_on_cpu [OF inv, of c e] c by (simp add: int_level_defs)
qed

definition drifting :: kstate where
  "drifting = upd_task 1 (\<lambda>t. t\<lparr>flags := TASK_SCHED_DRIFT\<rparr>) (example 7 [3] 1)"

lemma drifting_ok: "kernel_inv drifting" "on_cpu drifting 1" "lock_count (tasks drifting 1) = 1"
  "flags (tasks drifting 1) AND TASK_SCHED_DRIFT \<noteq> 0"
proof -
  show "kernel_inv drifting"
    unfolding drifting_def using example_on_cpu example_on_cpu [of 7 "[3]" 1]
    by (intro upd_task_cpu_inv example_inv) (auto simp: on_cpu_def)
qed (simp_all add: drifting_def example_on_cpu on_cpu_def example_def example_task_def TASK_SCHED_DRIFT_def)

theorem unlock_makes_up_for_drift_witness:
  "scheduler_unlock one_tick_env drifting = do {
    s' \<leftarrow> control_to_system one_tick_env (DISABLE_INTERRUPTS (upd_task 1
      (\<lambda>t. t\<lparr>lock_count := 0, flags := flags t AND NOT TASK_SCHED_DRIFT\<rparr>) drifting));
    Some (s'\<lparr>sys_interrupt_level := sys_interrupt_level drifting\<rparr>) }"
  by (rule unlock_makes_up_for_drift [OF drifting_ok])

section \<open>Sleeping and the tick\<close>

text \<open>C6. A tick does not lose a wake-up: if the time of a sleeping task has come with this
  tick and the tick returns, then a switch is pending or, when the scheduler is locked, noted
  in the drift flag of the running task.\<close>

theorem tick_loses_no_wakeup:
  assumes "sleep_inv s" and "t \<in> set (sleep_task_list s)"
    and "INT32CMP (current_tick s + 1) (tick_sleep (tasks s t)) \<ge> 0"
    and "current_task s = Some c" and "isr_sysclock_handle s = Some s'"
  shows "if lock_count (tasks s c) = 0 then pend_sv s'
    else flags (tasks s' c) = flags (tasks s c) OR TASK_SCHED_DRIFT"
  using due_triggers [OF assms(1-3)] assms(5)
  by (auto simp: isr_sysclock_cases [OF assms(4)] Let_def split: if_splits)

theorem tick_loses_no_wakeup_witness:
  "pend_sv (the (isr_sysclock_handle (example 7 [3] 0)))"
  using tick_loses_no_wakeup [OF example_sleep_inv, of "[3]" 3 7 0 1
      "the (isr_sysclock_handle (example 7 [3] 0))"]
  by (simp add: isr_sysclock_cases [of _ 1] Let_def example_def example_task_def zero_task_def
      tick_triggers_def INT32CMP_def)

text \<open>C7. On a sleep list that is in order, \<^verbatim>\<open>sleep_process_system_tick\<close> ends without failing an
  assertion and makes ready exactly the suspended tasks whose time has come, in the order of
  the list, and nobody else.\<close>

theorem tick_wakes_exactly_the_due:
  assumes "ready_inv s" and "sleep_inv s"
  shows "sleep_process_system_tick s = Some (woken (filter (resumable s) (sleep_task_list s)) s)"
  using assms by (rule sleep_process_exact)

theorem tick_wakes_exactly_the_due_witness:
  "sleep_process_system_tick ((example 7 [3] 0)\<lparr>current_tick := 1\<rparr>) =
   Some (woken [3] ((example 7 [3] 0)\<lparr>current_tick := 1\<rparr>))"
proof -
  let ?s = "(example 7 [3] 0)\<lparr>current_tick := 1\<rparr>"
  have "ready_inv ?s" using kernel_invD(1) [OF example_inv, of 7 "[3]" 0] by simp
  moreover have "sleep_inv ?s"
    by (simp add: sleep_inv_def window_def example_def example_task_def INT32CMP_def)
  moreover have "resumable ?s 3"
    by (simp add: resumable_def due_def example_def example_task_def zero_task_def INT32CMP_def)
  then have "filter (resumable ?s) (sleep_task_list ?s) = [3]" by (simp add: example_def)
  ultimately show ?thesis using tick_wakes_exactly_the_due [of ?s] by (simp only:)
qed

text \<open>C8. \<^verbatim>\<open>sleep_ticks\<close> does not return early for a request below \<open>2 ^ 31\<close> ticks: when it
  returns, at least as many ticks have passed as were asked for, the caller has the processor
  again with its lock count and the interrupt level as before, and the kernel's invariant holds.
  For a larger request it is not so: the signed comparison with the tick takes the wake-up tick
  for one that has passed.\<close>

theorem sleep_ticks_not_early:
  assumes "kernel_inv s" and "on_cpu s c" and "c \<noteq> idle_task" and "env_ok e"
    and "\<not> queued s c" and "n < 2 ^ 31" and "sleep_ticks e n s = Some s'"
  shows "\<exists>k. unat n \<le> k \<and> ksteps k s s' \<and> on_cpu s' c \<and> kernel_inv s' \<and>
    lock_count (tasks s' c) = lock_count (tasks s c) \<and>
    sys_interrupt_level s' = sys_interrupt_level s"
  using assms by (rule sleep_ticks_spec)

lemma example_sleeps: "\<not> Option.is_none (sleep_ticks one_tick_env 1 (example 7 [] 0))"
  by code_simp

theorem sleep_ticks_not_early_witness:
  "\<exists>s' k. sleep_ticks one_tick_env 1 (example 7 [] 0) = Some s' \<and> 1 \<le> k \<and>
    ksteps k (example 7 [] 0) s' \<and> on_cpu s' 1"
proof -
  obtain s' where s': "sleep_ticks one_tick_env 1 (example 7 [] 0) = Some s'"
    using example_sleeps by (auto simp: Option.is_none_def)
  have "1 \<noteq> idle_task" by (simp add: idle_task_def)
  from sleep_ticks_not_early [OF example_inv example_on_cpu this one_tick_env_ok
      example_not_queued _ s'] s' show ?thesis by auto
qed

text \<open>\<^verbatim>\<open>sleep_ticks\<close> returns: no assertion fails on the way, so if it does not return, the
  other tasks never give the processor back to the caller.\<close>

theorem sleep_ticks_no_assertion:
  assumes "kernel_inv s" and "on_cpu s c" and "c \<noteq> idle_task" and "env_ok e"
    and "lock_count (tasks s c) < SCHEDULER_MAX_LOCK" and "c \<notin> set (sleep_task_list s)"
    and "\<not> queued s c"
  shows "(\<exists>s'. sleep_ticks e n s = Some s') \<or> starves e c s"
  using sleep_ticks_returns [OF assms, of n] by (cases "sleep_ticks e n s") auto

theorem sleep_ticks_no_assertion_witness:
  "(\<exists>s'. sleep_ticks one_tick_env 2 (example 7 [] 0) = Some s') \<or>
   starves one_tick_env 1 (example 7 [] 0)"
  by (rule sleep_ticks_no_assertion [OF _ example_on_cpu _ one_tick_env_ok])
    (simp_all add: example_inv example_not_queued,
      simp_all add: idle_task_def example_def example_task_def SCHEDULER_MAX_LOCK_def)

section \<open>Tasks\<close>

text \<open>The system starts: after \<^verbatim>\<open>scheduler_init\<close> and any further tasks that were added,
  the first task to run is one of the most urgent on the ready list, it has the processor, and
  the kernel's invariant holds.\<close>

theorem first_task_runs:
  assumes "boot_inv s"
  shows "\<exists>s' n. run_first_task s = Some s' \<and> kernel_inv s' \<and> on_cpu s' n \<and>
    n \<in> set (sch_ready_task_list s) \<and>
    (\<forall>t \<in> set (sch_ready_task_list s). priority (tasks s n) \<le> priority (tasks s t))"
  using assms by (rule run_first_task_inv)

theorem first_task_runs_witness:
  "\<exists>s' n. run_first_task booted = Some s' \<and> kernel_inv s' \<and> on_cpu s' n \<and>
    n \<in> set (sch_ready_task_list booted) \<and>
    (\<forall>t \<in> set (sch_ready_task_list booted). priority (tasks booted n) \<le> priority (tasks booted t))"
  by (rule first_task_runs) (rule booted_inv)

text \<open>A task that \<^verbatim>\<open>task_create\<close> made starts as it should: the frame the hardware will pop
  from its stack has the argument in \<open>r0\<close>, the entry point in \<open>pc\<close> (its own entry when it never
  returns, \<^verbatim>\<open>task_entry_return\<close> otherwise) and the Thumb bit in \<open>psr\<close>; the stack pointer leaves
  room for the registers the software pops; memory outside the top 32 bytes of the stack is
  unchanged, and the task is finished until it is added to the scheduler.\<close>

theorem created_task_starts:
  assumes "64 \<le> sz"
  shows "let s' = task_create r t stack sz e arg fl s in
    tos (tasks s' t) + 32 = stack + sz - 32 \<and>
    hardware_frame (stack + sz - 32) (ram s') =
      [arg, 0, 0, 0, 0, 0, of_nat (if fl AND TASK_NO_RETURN \<noteq> 0 then e else r), 0x1000000] \<and>
    (\<forall>b. b < stack + sz - 32 \<or> stack + sz \<le> b \<longrightarrow> ram s' b = ram s b) \<and>
    state (tasks s' t) = TASK_FINISHED"
proof -
  let ?s = "upd_task t (\<lambda>_. zero_task\<lparr>entry := e, argv := arg, flags := fl, state := TASK_FINISHED,
          tos := stack + sz\<rparr>) s"
  have "tos (tasks ?s t) = stack + sz" by simp
  then show ?thesis
    using stack_init_frame [of ?s t "if fl AND TASK_NO_RETURN \<noteq> 0 then e else r" arg]
      stack_init_outside [of _ ?s t] assms
    by (simp add: task_create_eq Let_def)
qed

theorem created_task_starts_witness:
  "let s' = task_create 9 1 1000 256 17 5 TASK_NO_RETURN booted in
    hardware_frame 1224 (ram s') = [5, 0, 0, 0, 0, 0, 17, 0x1000000]"
  using created_task_starts [of 256 9 1 1000 17 5 TASK_NO_RETURN booted]
  by (simp add: Let_def TASK_NO_RETURN_def)

text \<open>C9. A tick asserts that the task it interrupts is running. When the entry function of a
  task returns, \<^verbatim>\<open>task_entry_return\<close> marks the task as finished, and \<^verbatim>\<open>control_to_system\<close>
  enables the interrupts before it requests the switch. If a tick is taken there while the
  task does not hold the scheduler lock, then the system stops when a sleeping task becomes due
  (\<open>tick_triggers\<close>): the routine has no result. When none does, the tick only counts, and the
  finished task gives up the processor.\<close>

theorem finished_task_tick_stops:
  assumes "on_cpu s c" and "sys_interrupt_level s"
    and "run (entry (tasks s c)) arg s = Some s1"
    and "on_cpu s1 c" and "lock_count (tasks s1 c) = 0"
  shows "if tick_triggers s1 then task_entry_return isr_sysclock_handle e run arg (Suc n) s = None
    else task_entry_return isr_sysclock_handle e run arg 1 s =
      map_option (SET_INTERRUPT_LEVEL False) (PEND_SV e
        ((upd_task c (\<lambda>t. t\<lparr>state := TASK_FINISHED\<rparr>) s1)
          \<lparr>current_tick := current_tick s1 + 1, sys_interrupt_level := True\<rparr>))"
proof -
  let ?f = "ENABLE_INTERRUPTS
    (upd_task c (\<lambda>t. t\<lparr>state := TASK_FINISHED\<rparr>) (DISABLE_INTERRUPTS s1))"
  have trig: "tick_triggers ?f = tick_triggers s1" by (auto simp: tick_triggers_def int_level_defs)
  have round: "task_entry_round isr_sysclock_handle e run c arg s =
      do { s \<leftarrow> isr_sysclock_handle ?f; s \<leftarrow> PEND_SV e s; Some (SET_INTERRUPT_LEVEL False s) }"
    using assms(1,3)
    by (simp add: task_entry_round_def control_to_system_irq_def on_cpu_def int_level_defs Let_def)
  have tick: "isr_sysclock_handle ?f = (if tick_triggers s1 then None
      else Some (?f\<lparr>current_tick := current_tick ?f + 1, sys_interrupt_level := True\<rparr>))"
    using assms(4,5) trig
    by (subst isr_sysclock_cases [where c = c]) (auto simp: on_cpu_def int_level_defs Let_def)
  show ?thesis
    using assms(1,2) round tick
    by (auto simp: task_entry_return_def on_cpu_def int_level_defs upd_task_def
        map_option_case split: option.split bind_split)
qed

theorem finished_task_tick_stops_witness:
  "task_entry_return isr_sysclock_handle one_tick_env (\<lambda>f a s. Some s) 0 1 (example 7 [3] 0) = None"
proof -
  have "tick_triggers (example 7 [3] 0)"
    by (simp add: example_def example_task_def zero_task_def tick_triggers_def INT32CMP_def)
  moreover have "sys_interrupt_level (example 7 [3] 0)"
      "lock_count (tasks (example 7 [3] 0) 1) = 0"
    by (simp_all add: example_def example_task_def)
  ultimately show ?thesis
    using finished_task_tick_stops [OF example_on_cpu, of 7 "[3]" 0 "\<lambda>f a s. Some s" 0
        "example 7 [3] 0" one_tick_env 0] example_on_cpu [of 7 "[3]" 0] by simp
qed

section \<open>Idle work\<close>

text \<open>Adding work to the idle task before the kernel runs succeeds exactly when there is a
  free entry; the work is then in the table once more than before and all other work is still
  there, in its order. Afterwards, while the kernel runs, the table cannot be changed.\<close>

theorem idle_work_added:
  "let (st, s') = idle_add_work (Some f) d s in
   if KERNEL_RUNNING s then st = IDLE_CANNOT_UPDATE \<and> s' = s
   else if length (work (idle_works s)) < length (idle_works s)
   then st = SUCCESS \<and> (\<exists>xs ys. work (idle_works s) = xs @ ys \<and> work (idle_works s') = xs @ (f, d) # ys)
   else st = IDLE_NO_SPACE \<and> s' = s"
proof (cases "KERNEL_RUNNING s")
  case False
  obtain st ws where ws: "idle_add_loop (Some f) d (idle_works s) = (st, ws)" by fastforce
  show ?thesis
    using idle_add_loop_spec [OF ws] False ws
    by (cases "length (work (idle_works s)) < length (idle_works s)") (auto simp: idle_add_work_def)
qed (simp add: idle_add_work_def)

text \<open>Removing idle work takes out one occurrence of exactly that work and reports whether
  it was there.\<close>

theorem idle_work_removed:
  "let (st, s') = idle_remove_work (Some f) d s in
   if KERNEL_RUNNING s then st = IDLE_CANNOT_UPDATE \<and> s' = s
   else work (idle_works s') = remove1 (f, d) (work (idle_works s)) \<and>
     length (idle_works s') = length (idle_works s) \<and>
     st = (if (f, d) \<in> set (work (idle_works s)) then SUCCESS else IDLE_NOT_FOUND)"
proof (cases "KERNEL_RUNNING s")
  case False
  obtain st ws where ws: "idle_remove_loop (Some f) d (idle_works s) = (st, ws)" by fastforce
  show ?thesis using idle_remove_loop_spec [OF ws] False ws by (simp add: idle_remove_work_def)
qed (simp add: idle_remove_work_def)

text \<open>A pass of the idle task runs every work in the table exactly once, in the order of the
  table, as long as the work functions leave the table alone.\<close>

theorem idle_pass_runs_all:
  assumes "\<And>f d s s'. run f d s = Some s' \<Longrightarrow> idle_works s' = idle_works s"
  shows "idle_pass run 0 (length (idle_works s)) s =
    fold (\<lambda>(f, d) s. Option.bind s (run f d)) (work (idle_works s)) (Some s)"
proof -
  have "idle_pass run 0 (length (idle_works s)) s =
      fold (\<lambda>(f, d) s. Option.bind s (run f d))
        (work (take (length (idle_works s)) (drop 0 (idle_works s)))) (Some s)"
    by (rule idle_pass_runs) (use assms in auto)
  then show ?thesis by simp
qed

definition example_work :: kstate where
  "example_work = (example 7 [] 0)\<lparr>idle_works :=
     [\<lparr>do_fun = Some 3, priv_data = NULLP\<rparr>, \<lparr>do_fun = None, priv_data = NULLP\<rparr>]\<rparr>"

theorem idle_pass_runs_all_witness:
  "idle_pass (\<lambda>f d s. Some (s\<lparr>current_tick := of_nat f\<rparr>)) 0 2 example_work =
   Some (example_work\<lparr>current_tick := 3\<rparr>)"
  using idle_pass_runs_all [of "\<lambda>f d s. Some (s\<lparr>current_tick := of_nat f\<rparr>)" example_work]
  by (simp add: example_work_def numeral_2_eq_2)

end
