(* ===== verification/SyncProps.thy ===== *)
theory SyncProps
  imports KernelProps
begin

text \<open>
  The properties of conditions and semaphores, each with a witness.
\<close>

section \<open>Semaphores\<close>

lemma lock_below_max:
  assumes "k < SCHEDULER_MAX_LOCK - 1"
  shows "k < SCHEDULER_MAX_LOCK" "k + 1 < SCHEDULER_MAX_LOCK"
proof -
  have k: "unat k < 4" using assms by (simp add: SCHEDULER_MAX_LOCK_def word_less_nat_alt)
  then show "k < SCHEDULER_MAX_LOCK" by (simp add: SCHEDULER_MAX_LOCK_def word_less_nat_alt)
  have "unat (k + 1) = unat k + 1" using k by (simp add: unat_word_ariths)
  then show "k + 1 < SCHEDULER_MAX_LOCK" using k by (simp add: SCHEDULER_MAX_LOCK_def word_less_nat_alt)
qed

lemma resumed_with_facts:
  assumes r: "resumed_with i st ps rest c s s'" and cpu: "on_cpu s c"
  shows "kernel_inv s'" "on_cpu s' c" "sems s' = sems s"
    "t \<in> woken_by s i ps \<Longrightarrow> state (tasks s' t) = TASK_RESUME \<and> t \<in> set (sch_ready_task_list s') \<and>
       suspend_data (tasks s' t) = SD_condition i"
    "t \<notin> woken_by s i ps \<Longrightarrow> t \<noteq> c \<Longrightarrow> tasks s' t = tasks s t"
    "woken_by s i ps \<noteq> {} \<Longrightarrow> flags (tasks s' c) AND TASK_SCHED_DRIFT \<noteq> 0"
    "lock_count (tasks s' c) = lock_count (tasks s c)"
    "p \<in> set ps \<Longrightarrow> status (suspends s' p) = st \<and> may_resume (suspends s' p)"
    "\<exists>zs. set zs \<subseteq> set ps \<and> suspend_list (conds s' i) = zs @ rest"
proof -
  obtain s2 zs where s2: "resumes_to i st ps s s2" "kernel_inv s2" "set zs \<subseteq> set ps"
    and s': "s' = set_queue i (zs @ rest) (if woken_by s i ps = {} then s2 else note_drift c s2)"
    using r by (auto simp: resumed_with_def)
  have notc: "c \<notin> woken_by s i ps" using cpu by (auto simp: woken_by_def waits_def on_cpu_def)
  have c2: "tasks s2 c = tasks s c" "on_cpu s2 c"
    using s2(1) notc cpu by (simp_all add: resumes_to_def on_cpu_def)
  have inv: "kernel_inv (note_drift c s2)"
    unfolding note_drift_def using s2(2) c2(2) by (rule upd_task_cpu_inv) (use c2(2) in \<open>simp_all add: on_cpu_def\<close>)
  show "kernel_inv s'" unfolding s' using inv s2(2) by (auto intro: set_queue_kernel_inv)
  show "on_cpu s' c" using c2(2) by (auto simp: s' on_cpu_def note_drift_def)
  show "sems s' = sems s" using s2(1) by (auto simp: s' resumes_to_def note_drift_def)
  show "lock_count (tasks s' c) = lock_count (tasks s c)" using c2(1) by (auto simp: s' note_drift_def)
  show "\<exists>zs. set zs \<subseteq> set ps \<and> suspend_list (conds s' i) = zs @ rest" using s2(3) by (auto simp: s')
  show "state (tasks s' t) = TASK_RESUME \<and> t \<in> set (sch_ready_task_list s') \<and>
       suspend_data (tasks s' t) = SD_condition i" if "t \<in> woken_by s i ps"
    using that s2(1) notc by (auto simp: s' resumes_to_def note_drift_def resumed_task_def)
  show "tasks s' t = tasks s t" if "t \<notin> woken_by s i ps" "t \<noteq> c"
    using that s2(1) by (auto simp: s' resumes_to_def note_drift_def)
  show "flags (tasks s' c) AND TASK_SCHED_DRIFT \<noteq> 0" if "woken_by s i ps \<noteq> {}"
  proof -
    have "(x OR TASK_SCHED_DRIFT) AND TASK_SCHED_DRIFT = TASK_SCHED_DRIFT" for x :: u8
      by (rule bit_word_eqI) (auto simp: bit_simps)
    moreover have "TASK_SCHED_DRIFT \<noteq> 0" by (simp add: TASK_SCHED_DRIFT_def)
    ultimately show ?thesis using that by (simp add: s' note_drift_def)
  qed
  show "status (suspends s' p) = st \<and> may_resume (suspends s' p)" if "p \<in> set ps"
    using that s2(1) by (auto simp: s' resumes_to_def note_drift_def)
qed

text \<open>C10. Releasing a semaphore adds one to its count, clears the owner and makes ready the tasks
  that still wait among the first entries of its queue, as many entries as the new count; no
  other task but the caller is touched. An entry whose task does not wait any more, because its
  timeout has passed, takes its share and wakes nobody. Until its last statement it neither
  fails an assertion nor loses the processor, and if it has woken a task, the switch this may
  need is noted in the drift flag. The semaphore has free space in its count and is not one
  that interrupts use (\<^verbatim>\<open>interrupt_protected\<close>).\<close>

theorem release_wakes_waiting_tasks:
  assumes "kernel_inv s" and "on_cpu s c" and "lock_count (tasks s c) < SCHEDULER_MAX_LOCK - 1"
    and "count (sems s m) < max_count (sems s m)" and "\<not> interrupt_protected (sems s m)"
    and "queue_ok s (suspend_list (conds s (Sem_condition m)))"
  shows "\<exists>s1. semaphore_release P m s = scheduler_unlock (env P) s1 \<and> kernel_inv s1 \<and> on_cpu s1 c \<and>
    count (sems s1 m) = count (sems s m) + 1 \<and> owner (sems s1 m) = None \<and>
    (\<forall>t \<in> released_tasks s m. state (tasks s1 t) = TASK_RESUME \<and> t \<in> set (sch_ready_task_list s1)) \<and>
    (\<forall>t. t \<notin> released_tasks s m \<longrightarrow> t \<noteq> c \<longrightarrow> tasks s1 t = tasks s t) \<and>
    (released_tasks s m \<noteq> {} \<longrightarrow> flags (tasks s1 c) AND TASK_SCHED_DRIFT \<noteq> 0)"
proof -
  let ?i = "Sem_condition m" and ?s = "bump m (lock_up c s)"
  let ?ps = "take (unat (count (sems s m) + 1)) (suspend_list (conds s ?i))"
  obtain s1 where s1: "semaphore_release P m s = scheduler_unlock (env P) s1"
      "resumed_with ?i SUCCESS ?ps (drop (unat (count (sems s m) + 1)) (suspend_list (conds s ?i))) c ?s s1"
    using semaphore_release_locked [OF assms(1,2) lock_below_max(2,1) [OF assms(3)] assms(4-6)] by blast
  have cpu: "on_cpu ?s c" using assms(2) by (simp add: on_cpu_def)
  have w: "woken_by ?s ?i ?ps = released_tasks s m" by (simp add: released_tasks_def woken_by_def)
  note f = resumed_with_facts [OF s1(2) cpu, unfolded w]
  have other: "t \<noteq> c \<Longrightarrow> tasks ?s t = tasks s t" for t by (simp add: lock_up_tasks)
  show ?thesis using s1(1) f(1-6) other by (intro exI [of _ s1]) auto
qed

text \<open>Task 3 waits for semaphore 0, which task 1 releases.\<close>

definition waiting :: kstate where
  "waiting = upd_cond (Sem_condition 0) (\<lambda>x. x\<lparr>suspend_list := [Sem_suspend 3]\<rparr>)
     (upd_suspend (Sem_suspend 3) (\<lambda>x. x\<lparr>s_task := Some 3\<rparr>)
       (upd_task 3 (\<lambda>t. t\<lparr>num_conditions := 1, suspend_data := SD_conditions [Sem_condition 0]\<rparr>)
         (upd_sem 0 (\<lambda>x. x\<lparr>max_count := 1\<rparr>) (example 7 [] 0))))"

lemma waiting_inv: "kernel_inv waiting"
  by (rule kernel_inv_cong [OF example_inv [of 7 "[]" 0]])
    (auto simp: waiting_def example_def)

lemma waiting_ok: "on_cpu waiting 1" "queue_ok waiting (suspend_list (conds waiting (Sem_condition 0)))"
  "released_tasks waiting 0 = {3}"
  by (auto simp: waiting_def on_cpu_def example_def example_task_def zero_task_def queue_ok_def
      suspend_is_task_waiting_def released_tasks_def woken_by_def waits_def zero_semaphore_def)

theorem release_wakes_waiting_tasks_witness:
  "\<exists>s1. semaphore_release example_platform 0 waiting = scheduler_unlock one_tick_env s1 \<and>
     state (tasks s1 3) = TASK_RESUME"
proof -
  have "lock_count (tasks waiting 1) < SCHEDULER_MAX_LOCK - 1"
      "count (sems waiting 0) < max_count (sems waiting 0)" "\<not> interrupt_protected (sems waiting 0)"
    by (simp_all add: waiting_def example_def example_task_def SCHEDULER_MAX_LOCK_def zero_semaphore_def)
  from release_wakes_waiting_tasks [OF waiting_inv waiting_ok(1) this waiting_ok(2), of example_platform]
  show ?thesis by (auto simp: waiting_ok(3) example_platform_def)
qed

text \<open>Obtaining a semaphore that is available succeeds at once: the count goes down by one, the
  caller is the owner, and nothing else changes.\<close>

theorem obtain_available:
  assumes "current_task s = Some c" and "lock_count (tasks s c) < SCHEDULER_MAX_LOCK"
    and "flags (tasks s c) AND TASK_SCHED_DRIFT = 0 \<or> lock_count (tasks s c) \<noteq> 0"
    and "count (sems s m) \<noteq> 0" and "\<not> interrupt_protected (sems s m)"
  shows "semaphore_obtain P m w s =
    Some (SUCCESS, upd_sem m (\<lambda>x. x\<lparr>owner := Some c, count := count x - 1\<rparr>) s)"
proof -
  have "taken m (Some c) s = upd_sem m (\<lambda>x. x\<lparr>owner := Some c, count := count x - 1\<rparr>) s"
    by (simp add: taken_def upd_sem_def)
  then show ?thesis using semaphore_obtain_available [OF assms] by simp
qed

theorem obtain_available_witness:
  "semaphore_obtain example_platform 0 5 (semaphore_create 0 2 (example 7 [] 0)) =
   Some (SUCCESS, upd_sem 0 (\<lambda>x. x\<lparr>owner := Some 1, count := count x - 1\<rparr>)
     (semaphore_create 0 2 (example 7 [] 0)))"
  by (rule obtain_available)
    (simp_all add: semaphore_create_def clear_semaphore_def example_def example_task_def zero_task_def
      zero_semaphore_def SCHEDULER_MAX_LOCK_def Let_def)

text \<open>A semaphore that is not available is reported as busy, and nothing changes, when the
  caller does not want to wait; in an interrupt, where there is no task to suspend, nobody
  waits.\<close>

theorem obtain_busy:
  assumes "count (sems s m) = 0" and "\<not> interrupt_protected (sems s m)"
    and "case current_task s of None \<Rightarrow> True
      | Some c \<Rightarrow> w = 0 \<and> lock_count (tasks s c) < SCHEDULER_MAX_LOCK \<and>
          (flags (tasks s c) AND TASK_SCHED_DRIFT = 0 \<or> lock_count (tasks s c) \<noteq> 0)"
  shows "semaphore_obtain P m w s = Some (SEMAPHORE_BUSY, s)"
proof (cases "current_task s")
  case None
  then show ?thesis using assms semaphore_obtain_isr [of s m P w] by simp
next
  case (Some c)
  then show ?thesis using assms semaphore_obtain_busy [of s c m P] by simp
qed

theorem obtain_busy_witness:
  "semaphore_obtain example_platform 0 7 (ISR_ENTER (example 7 [] 0)) =
   Some (SEMAPHORE_BUSY, ISR_ENTER (example 7 [] 0))"
  by (rule obtain_busy) (simp_all add: ISR_ENTER_def example_def zero_semaphore_def)

text \<open>Destroying a semaphore, with the scheduler locked, returns; every task that waits on it
  is made ready, and its suspend structure tells it that the semaphore was deleted.\<close>

theorem destroy_resumes_everybody:
  assumes "kernel_inv s" and "on_cpu s c" and "lock_count (tasks s c) \<noteq> 0"
    and "lock_count (tasks s c) < SCHEDULER_MAX_LOCK"
    and "queue_ok s (suspend_list (conds s (Sem_condition m)))"
  shows "\<exists>s'. semaphore_destroy P m s = Some s' \<and> on_cpu s' c \<and>
    sys_interrupt_level s' = sys_interrupt_level s \<and> sems s' m = zero_semaphore \<and>
    suspend_list (conds s' (Sem_condition m)) = [] \<and>
    (\<forall>p \<in> set (suspend_list (conds s (Sem_condition m))). status (suspends s' p) = SEMAPHORE_DELETED \<and>
       (\<forall>t. s_task (suspends s p) = Some t \<longrightarrow> waits s (Sem_condition m) t \<longrightarrow>
          state (tasks s' t) = TASK_RESUME \<and> t \<in> set (sch_ready_task_list s')))"
proof -
  let ?i = "Sem_condition m" and ?s = "s\<lparr>sys_interrupt_level := False\<rparr>"
  let ?q = "suspend_list (conds s ?i)"
  let ?res = "Some (\<lparr>do_resume = None, r_param = None, r_status = SEMAPHORE_DELETED\<rparr> :: u8 resume)"
  have inv: "kernel_inv ?s" and cpu: "on_cpu ?s c" using assms(1,2) by simp_all
  have w: "suspend_is_task_waiting t d ?s = suspend_is_task_waiting t d s" for t d
    by (rule waiting_cong) simp
  then have ok: "queue_ok ?s (?q @ [])" using assms(5) by (simp add: queue_ok_def)
  have W: "woken_by ?s ?i ?q = woken_by s ?i ?q" by (simp add: woken_by_def waits_def w)
  have q: "suspend_list (conds ?s ?i) = ?q @ []" by simp
  have loop: "resume_loop ?i ?res (False, [], lock_up c ?s) =
      Some (with_queue ?i [] (resume_all ?i SEMAPHORE_DELETED ?q (False, [], lock_up c ?s)))"
    by (rule resume_loop_everything)
      (use lock_up_kernel_inv [OF inv cpu] ok in simp_all)
  have nz: "lock_count (tasks ?s c) \<noteq> 0" "lock_count (tasks ?s c) < SCHEDULER_MAX_LOCK"
    using assms(3,4) by simp_all
  obtain s1 where s1: "resume_condition P ?i ?res True ?s = Some s1"
      "resumed_with ?i SEMAPHORE_DELETED ?q [] c ?s s1"
    using resume_condition_locked [OF inv cpu nz q ok loop] by blast
  note f = resumed_with_facts [OF s1(2) cpu, unfolded W]
  let ?s' = "(clear_semaphore m s1)\<lparr>sys_interrupt_level := sys_interrupt_level s\<rparr>"
  have run: "semaphore_destroy P m s = Some ?s'"
    using s1(1) by (simp add: semaphore_destroy_def int_level_defs)
  have keep: "tasks ?s' = tasks s1" "sch_ready_task_list ?s' = sch_ready_task_list s1"
      "suspends ?s' = suspends s1" "sems ?s' m = zero_semaphore"
      "suspend_list (conds ?s' ?i) = []" "on_cpu ?s' c"
    using f(2) by (simp_all add: clear_semaphore_def zero_condition_def on_cpu_def)
  have "t \<in> woken_by s ?i ?q" if "p \<in> set ?q" "s_task (suspends s p) = Some t" "waits s ?i t" for p t
    using that by (auto simp: woken_by_def)
  then show ?thesis using run keep f(4,8) by (intro exI [of _ ?s']) auto
qed

theorem destroy_resumes_everybody_witness:
  "\<exists>s'. semaphore_destroy example_platform 0 (lock_up 1 waiting) = Some s' \<and>
   status (suspends s' (Sem_suspend 3)) = SEMAPHORE_DELETED \<and> state (tasks s' 3) = TASK_RESUME"
proof -
  let ?s = "lock_up 1 waiting"
  have inv: "kernel_inv ?s" using waiting_inv waiting_ok(1) by (rule lock_up_kernel_inv)
  have cpu: "on_cpu ?s 1" using waiting_ok(1) by (simp add: on_cpu_def)
  have ok: "queue_ok ?s (suspend_list (conds ?s (Sem_condition 0)))" using waiting_ok(2) by simp
  have "waits ?s (Sem_condition 0) 3" "s_task (suspends ?s (Sem_suspend 3)) = Some 3"
      "suspend_list (conds ?s (Sem_condition 0)) = [Sem_suspend 3]"
    by (simp_all add: waits_def)
      (simp_all add: waiting_def suspend_is_task_waiting_def example_def example_task_def zero_task_def)
  moreover have "lock_count (tasks ?s 1) = 1"
    by (simp add: waiting_def example_def example_task_def)
  ultimately show ?thesis
    using destroy_resumes_everybody [OF inv cpu _ _ ok, of example_platform]
    by (auto simp: SCHEDULER_MAX_LOCK_def)
qed

section \<open>Conditions\<close>


lemma example_cb_frame: "cb_frame example_platform"
  by (auto simp: cb_frame_def example_platform_def semaphore_do_suspend_def split: addr.splits)

definition pinged :: kstate where
  "pinged = upd_cond (Condition 2) (\<lambda>x. x\<lparr>c_flags := CONDITION_PING\<rparr>) (example 7 [] 0)"

text \<open>Two conditions that the caller has not locked, and one that it has locked.\<close>

lemma pinged_run:
  "suspend_condition example_platform [Condition 0, Condition 2] [Suspend 0, Suspend 2] (Some 2) False pinged =
   Some (SUCCESS, Some 1, upd_cond (Condition 2) (\<lambda>x. x\<lparr>c_flags := 0\<rparr>)
     (upd_suspend (Suspend 0) (\<lambda>x. x\<lparr>may_resume := False\<rparr>) pinged))"
proof -
  have d: "suspend_do_suspend example_platform [Condition 0, Condition 2] [Suspend 0, Suspend 2] 2 2 pinged =
      Some (False, 1, upd_suspend (Suspend 0) (\<lambda>x. x\<lparr>may_resume := False\<rparr>) pinged)"
    unfolding suspend_do_suspend_def numeral_2_eq_2
    by (simp add: satisfied_def pinged_def example_def zero_condition_def
        zero_suspend_def CONDITION_PING_def SUSPEND_INVALID_PRIORITY_def)
  have t: "suspend_timeout_get_min [Suspend 0, Suspend 2] 2 pinged = Some (MAX_WAIT, 0)"
    unfolding suspend_timeout_get_min_def numeral_2_eq_2
    by (simp add: pinged_def example_def zero_suspend_def)
  have lk: "suspend_lock_condition example_platform [Condition 0, Condition 2] [Suspend 0, Suspend 2] 2
      pinged = Some pinged"
    unfolding numeral_2_eq_2 by (simp add: pinged_def example_def zero_condition_def)
  have ul: "suspend_unlock_condition example_platform [Condition 0, Condition 2] [Suspend 0, Suspend 2] 2
      (upd_cond (Condition 2) f (upd_suspend (Suspend 0) g pinged)) =
      Some (upd_cond (Condition 2) f (upd_suspend (Suspend 0) g pinged))"
    if "\<And>x. c_unlock (f x) = c_unlock x" for f g
    unfolding numeral_2_eq_2 using that by (simp add: pinged_def example_def zero_condition_def)
  show ?thesis
    by (simp add: suspend_condition_def lk t suspend_loop.simps d Let_def ul)
      (simp add: pinged_def example_def CONDITION_PING_def zero_condition_def upd_cond_def)
qed

lemma pinged_run_locked:
  "suspend_condition example_platform [Condition 2] [Suspend 2] None True pinged =
   Some (SUCCESS, None, upd_cond (Condition 2) (\<lambda>x. x\<lparr>c_flags := 0\<rparr>) pinged)"
proof -
  have d: "suspend_do_suspend example_platform [Condition 2] [Suspend 2] (Suc 0) 1 pinged =
      Some (False, 0, pinged)"
    unfolding suspend_do_suspend_def
    by (simp add: satisfied_def pinged_def example_def zero_condition_def
        zero_suspend_def CONDITION_PING_def SUSPEND_INVALID_PRIORITY_def)
  have t: "suspend_timeout_get_min [Suspend 2] (Suc 0) pinged = Some (MAX_WAIT, 0)"
    unfolding suspend_timeout_get_min_def
    by (simp add: pinged_def example_def zero_suspend_def)
  have "current_task pinged = Some 1" "null_byte example_platform = 0"
    by (simp_all add: pinged_def example_def example_platform_def)
  then show ?thesis
    by (simp add: suspend_condition_def t suspend_loop.simps d Let_def)
      (simp add: pinged_def CONDITION_PING_def upd_cond_def)
qed

lemma example_unlocks:
  "suspend_unlock_condition example_platform cs ps n s = Some s' \<Longrightarrow> s' = s"
  by (induction example_platform cs ps n s rule: suspend_unlock_condition.induct)
    (auto simp: example_platform_def elim!: bind_SomeE split: if_splits option.splits)

lemma ping_cleared_valid:
  assumes "ping_cleared c s1 = s'" and "\<forall>p \<in> set ps. s_priority (suspends s' p) = 0"
  shows "valid_priorities ps s1"
proof -
  have "suspends (ping_cleared c s1) = suspends s1" by (simp add: ping_cleared_def)
  then show ?thesis using assms by (auto simp: valid_priorities_def SUSPEND_INVALID_PRIORITY_def)
qed


text \<open>\<^verbatim>\<open>suspend_do_suspend\<close> lets a task wait exactly when none of its conditions holds;
  otherwise it reports the first one of the most urgent priority among those that hold.\<close>

theorem do_suspend_picks_best:
  assumes "cb_frame P" and "n \<le> length cs" and "n \<le> length ps"
    and "\<forall>q \<in> set ps. s_priority (suspends s q) \<noteq> SUSPEND_INVALID_PRIORITY"
  shows "\<exists>ret' s'. suspend_do_suspend P cs ps n ret s = Some (\<not> any_satisfied P cs ps n s, ret', s') \<and>
    (any_satisfied P cs ps n s \<longrightarrow> (\<exists>j. ret' = of_nat j \<and> first_best P cs ps n s j))"
  using do_suspend_spec [OF assms(1-3), of ret s] assms(4) by auto

theorem do_suspend_picks_best_witness:
  "\<exists>ret' s'. suspend_do_suspend example_platform [Condition 0, Condition 2] [Suspend 0, Suspend 2] 2 7 pinged =
    Some (\<not> any_satisfied example_platform [Condition 0, Condition 2] [Suspend 0, Suspend 2] 2 pinged, ret', s')"
  using do_suspend_picks_best [OF example_cb_frame, of 2 "[Condition 0, Condition 2]" "[Suspend 0, Suspend 2]" pinged 7]
  by (auto simp: pinged_def example_def zero_suspend_def SUSPEND_INVALID_PRIORITY_def)

text \<open>The time \<^verbatim>\<open>suspend_condition\<close> waits is the smallest number of ticks that are left for any
  of the suspend structures, where an expired timeout counts as 0 and no timeout as
  \<open>MAX_WAIT\<close>.\<close>

theorem waits_for_smallest_timeout:
  assumes "n \<le> length ps" and "0 < n"
  shows "\<exists>idx. suspend_timeout_get_min ps n s = Some (Min (ticks_left s ` set (take n ps)), idx)"
  using assms by (rule timeout_get_min_spec)

theorem waits_for_smallest_timeout_witness:
  "\<exists>idx. suspend_timeout_get_min [Suspend 0, Suspend 2] 2 pinged =
    Some (Min (ticks_left pinged ` {Suspend 0, Suspend 2}), idx)"
  using waits_for_smallest_timeout [of 2 "[Suspend 0, Suspend 2]" pinged] by simp

text \<open>After a task was resumed, \<^verbatim>\<open>suspend_condition_remove\<close> reports the last condition that has
  an error or may resume the task, whatever the priorities of the conditions are: it never
  updates the priority it compares with, although its comment promises the condition of the
  higher priority.\<close>

theorem remove_reports_last:
  assumes "suspend_condition_remove cs ps n rc ret s = Some (ret', s')"
    and "j < n" "may_go s (ps ! j)" "\<forall>k<n. j < k \<longrightarrow> \<not> may_go s (ps ! k)"
  shows "ret' = of_nat j"
  using remove_loop_last [of cs ps n 0 rc ret s ret' s' j] assms
  by (simp add: suspend_condition_remove_def)

definition both_resumed :: kstate where
  "both_resumed = upd_suspend (Suspend 0) (\<lambda>x. x\<lparr>may_resume := True, s_priority := 1\<rparr>)
     (upd_suspend (Suspend 2) (\<lambda>x. x\<lparr>may_resume := True, s_priority := 9\<rparr>)
       (upd_cond (Condition 2) (\<lambda>x. x\<lparr>suspend_list := [Suspend 2]\<rparr>) (example 7 [] 0)))"

theorem remove_reports_last_witness:
  "fst (the (suspend_condition_remove [Condition 0, Condition 2] [Suspend 0, Suspend 2] 2
     (SD_condition (Condition 0)) 0 both_resumed)) = 1"
proof -
  obtain ret' s' where r: "suspend_condition_remove [Condition 0, Condition 2] [Suspend 0, Suspend 2] 2
     (SD_condition (Condition 0)) 0 both_resumed = Some (ret', s')"
    unfolding suspend_condition_remove_def numeral_2_eq_2
    by (simp add: suspend_unqueue_def both_resumed_def)
  have "may_go both_resumed ([Suspend 0, Suspend 2] ! 1)"
    by (simp add: may_go_def both_resumed_def SUSPEND_INVALID_PRIORITY_def)
  then show ?thesis using remove_reports_last [OF r, of 1] r by auto
qed

text \<open>\<^verbatim>\<open>suspend_condition\<close> reads through its pointer \<^verbatim>\<open>num\<close> before it returns, also when the
  pointer is NULL, which its comment allows and \<^verbatim>\<open>semaphore_obtain\<close> uses: on a machine whose
  byte at address 0 is not 0, a task that waits for a semaphore never returns from it.\<close>

theorem waiting_needs_zero_at_null:
  assumes "null_byte P \<noteq> 0" and "current_task s = Some t" and "count (sems s m) = 0" and "w > 0"
  shows "semaphore_obtain P m w s = None"
  using assms suspend_condition_null [OF assms(1)]
  by (auto simp: semaphore_obtain_def Let_def bind_eq_None_conv scheduler_lock_def int_level_defs
      split: prod.split)

theorem waiting_needs_zero_at_null_witness:
  "semaphore_obtain (example_platform\<lparr>null_byte := 32\<rparr>) 0 5 (example 7 [] 0) = None"
  by (rule waiting_needs_zero_at_null [of _ _ 1])
    (simp_all add: example_def zero_semaphore_def)

end
