(* ===== verification/Buffers.thy ===== *)
theory Buffers
  imports KState
begin

text \<open>
  One file system buffer and the routines of \<^verbatim>\<open>rtos/fs/fs_buffer.c\<close> that work on a single
  buffer. A buffer is the memory at its \<open>data\<close> pointer (None for NULL), the length the buffer
  believes this memory has, its \<open>buffer\<close> pointer as the offset from \<open>data\<close>, and the number
  of valid bytes. Pointer arithmetic is 32 bit, as on the targets; an access outside the
  memory has no value.
\<close>

section \<open>Data\<close>

record FS_BUFFER =
  fb_data :: "u8 list option"
  fb_max_length :: u32
  fb_off :: u32
  fb_length :: u32

definition FS_BUFFER_NO_SPACE :: int where "FS_BUFFER_NO_SPACE = - 801"

definition FS_BUFFER_ACTIVE :: u8 where "FS_BUFFER_ACTIVE = 0x1"
definition FS_BUFFER_INPLACE :: u8 where "FS_BUFFER_INPLACE = 0x2"
definition FS_BUFFER_UPDATE :: u8 where "FS_BUFFER_UPDATE = FS_BUFFER_INPLACE"
definition FS_BUFFER_PACKED :: u8 where "FS_BUFFER_PACKED = 0x4"
definition FS_BUFFER_TAIL :: u8 where "FS_BUFFER_TAIL = 0x8"
definition FS_BUFFER_HEAD :: u8 where "FS_BUFFER_HEAD = 0x10"
definition FS_BUFFER_SUSPEND :: u8 where "FS_BUFFER_SUSPEND = 0x20"
definition FS_BUFFER_TH :: u8 where "FS_BUFFER_TH = 0x40"
definition FS_BUFFER_COPY :: u8 where "FS_BUFFER_COPY = 0x80"

definition FS_BUFFER_SPACE :: "FS_BUFFER \<Rightarrow> u32" where
  "FS_BUFFER_SPACE b = fb_max_length b - fb_length b"

definition FS_BUFFER_HEAD_ROOM :: "FS_BUFFER \<Rightarrow> u32" where
  "FS_BUFFER_HEAD_ROOM b = fb_off b"

definition FS_BUFFER_TAIL_ROOM :: "FS_BUFFER \<Rightarrow> u32" where
  "FS_BUFFER_TAIL_ROOM b = FS_BUFFER_SPACE b - FS_BUFFER_HEAD_ROOM b"

text \<open>Reading and writing the memory of a buffer at an offset from \<open>data\<close>.\<close>

definition mem_read :: "FS_BUFFER \<Rightarrow> u32 \<Rightarrow> u32 \<Rightarrow> u8 list option" where
  "mem_read b off n = do {
     mem \<leftarrow> fb_data b;
     IN_RANGE (unat off + unat n \<le> length mem);
     Some (take (unat n) (drop (unat off) mem)) }"

definition mem_write :: "FS_BUFFER \<Rightarrow> u32 \<Rightarrow> u8 list \<Rightarrow> FS_BUFFER option" where
  "mem_write b off bs = do {
     mem \<leftarrow> fb_data b;
     IN_RANGE (unat off + length bs \<le> length mem);
     Some (b\<lparr>fb_data := Some (take (unat off) mem @ bs @ drop (unat off + length bs) mem)\<rparr>) }"

text \<open>
  The loop of \<^verbatim>\<open>fs_memcpy_r\<close> (\<^verbatim>\<open>rtos/fs/fs.c\<close>): it reads the source upwards and writes the
  destination downwards from its end. \<open>done\<close> is the part of the destination written so far.
\<close>

fun memcpy_r_loop :: "u8 list \<Rightarrow> nat \<Rightarrow> u8 list \<Rightarrow> u8 list option" where
  "memcpy_r_loop src 0 written = Some written"
| "memcpy_r_loop (b # src) (Suc n) written = memcpy_r_loop src n (b # written)"
| "memcpy_r_loop [] (Suc n) written = None"

definition fs_memcpy_r :: "u8 list \<Rightarrow> u32 \<Rightarrow> u8 list option" where
  "fs_memcpy_r src n = memcpy_r_loop src (unat n) []"

section \<open>The routines\<close>

definition fs_buffer_init :: "FS_BUFFER \<Rightarrow> u8 list option \<Rightarrow> u32 \<Rightarrow> FS_BUFFER" where
  "fs_buffer_init b data n =
     b\<lparr>fb_data := data, fb_off := 0, fb_max_length := n, fb_length := 0\<rparr>"

text \<open>The new pointer of \<^verbatim>\<open>fs_buffer_update\<close> is given as its offset from \<open>data\<close>.\<close>

definition fs_buffer_update :: "FS_BUFFER \<Rightarrow> u32 \<Rightarrow> u32 \<Rightarrow> FS_BUFFER" where
  "fs_buffer_update b off n = b\<lparr>fb_off := off, fb_length := n\<rparr>"

definition fs_buffer_add_head :: "FS_BUFFER \<Rightarrow> u32 \<Rightarrow> (int \<times> FS_BUFFER) option" where
  "fs_buffer_add_head b n = do {
     ASSERT (fb_data b = None);
     (if FS_BUFFER_SPACE b \<ge> n
      then do {
        b \<leftarrow> (if fb_length b \<noteq> 0
              then do { bs \<leftarrow> mem_read b (fb_off b) (fb_length b);
                        mem_write b (fb_off b + n) bs }
              else Some b);
        Some (SUCCESS, b\<lparr>fb_off := fb_off b + n\<rparr>) }
      else Some (FS_BUFFER_NO_SPACE, b)) }"

text \<open>
  \<open>want\<close> tells whether a destination was given (\<open>data \<noteq> NULL\<close>); the third result is what is
  written to it.
\<close>

definition fs_buffer_pull_offset ::
    "FS_BUFFER \<Rightarrow> bool \<Rightarrow> u32 \<Rightarrow> u32 \<Rightarrow> u8 \<Rightarrow> (int \<times> FS_BUFFER \<times> u8 list) option" where
  "fs_buffer_pull_offset b want n offset fl = do {
     ASSERT (offset \<noteq> 0 \<and> fl AND FS_BUFFER_INPLACE = 0);
     (if fb_length b \<ge> n + offset
      then do {
        let (src, b) =
          (if fl AND FS_BUFFER_TAIL \<noteq> 0
           then (fb_off b + (fb_length b - (n + offset)), b)
           else (fb_off b + offset,
                 if fl AND FS_BUFFER_INPLACE = 0 then b\<lparr>fb_off := fb_off b + n\<rparr> else b));
        out \<leftarrow> (if want
               then do { bs \<leftarrow> mem_read b src n;
                         (if fl AND FS_BUFFER_PACKED \<noteq> 0 then fs_memcpy_r bs n else Some bs) }
               else Some []);
        let b = (if fl AND FS_BUFFER_INPLACE = 0 then b\<lparr>fb_length := fb_length b - n\<rparr> else b);
        Some (SUCCESS, b, out) }
      else Some (FS_BUFFER_NO_SPACE, b, [])) }"

text \<open>The source \<open>data\<close> is None for NULL, else the memory it points to.\<close>

definition fs_buffer_push_offset ::
    "FS_BUFFER \<Rightarrow> u8 list option \<Rightarrow> u32 \<Rightarrow> u32 \<Rightarrow> u8 \<Rightarrow> (int \<times> FS_BUFFER) option" where
  "fs_buffer_push_offset b data n offset fl = do {
     ASSERT (fb_data b = None);
     ASSERT (offset \<noteq> 0 \<and> fl AND FS_BUFFER_UPDATE = 0);
     (st, b) \<leftarrow>
       (if fl AND FS_BUFFER_UPDATE \<noteq> 0 \<and> fb_length b \<ge> n + offset
           \<or> fl AND FS_BUFFER_UPDATE = 0
             \<and> (fl AND FS_BUFFER_HEAD \<noteq> 0 \<and> FS_BUFFER_SPACE b \<ge> n
                \<or> fl AND FS_BUFFER_HEAD = 0 \<and> FS_BUFFER_TAIL_ROOM b \<ge> n)
        then (if fl AND FS_BUFFER_UPDATE = 0 \<and> fl AND FS_BUFFER_HEAD \<noteq> 0 \<and> FS_BUFFER_HEAD_ROOM b < n
              then fs_buffer_add_head b (n - FS_BUFFER_HEAD_ROOM b)
              else Some (SUCCESS, b))
        else Some (FS_BUFFER_NO_SPACE, b));
     (if st = SUCCESS
      then do {
        let (dst, b) =
          (if fl AND FS_BUFFER_HEAD \<noteq> 0
           then (let b = (if fl AND FS_BUFFER_UPDATE = 0 then b\<lparr>fb_off := fb_off b - n\<rparr> else b)
                 in (fb_off b + offset, b))
           else (if fl AND FS_BUFFER_UPDATE = 0
                 then fb_off b + fb_length b
                 else fb_off b + (fb_length b - (n + offset)), b));
        b \<leftarrow> (case data of
               None \<Rightarrow> Some b
             | Some src \<Rightarrow> do {
                 IN_RANGE (unat n \<le> length src);
                 bs \<leftarrow> (if fl AND FS_BUFFER_PACKED \<noteq> 0 then fs_memcpy_r src n
                       else Some (take (unat n) src));
                 mem_write b dst bs });
        let b = (if fl AND FS_BUFFER_UPDATE = 0 then b\<lparr>fb_length := fb_length b + n\<rparr> else b);
        Some (st, b) }
      else Some (st, b)) }"

section \<open>What a buffer holds\<close>

definition buffer_bytes :: "FS_BUFFER \<Rightarrow> u8 list" where
  "buffer_bytes b =
     (case fb_data b of None \<Rightarrow> []
      | Some mem \<Rightarrow> take (unat (fb_length b)) (drop (unat (fb_off b)) mem))"

text \<open>The valid bytes lie in the memory, which is as long as the buffer believes.\<close>

definition buffer_ok :: "FS_BUFFER \<Rightarrow> bool" where
  "buffer_ok b \<longleftrightarrow>
     (case fb_data b of None \<Rightarrow> False | Some mem \<Rightarrow> length mem = unat (fb_max_length b)) \<and>
     unat (fb_off b) + unat (fb_length b) \<le> unat (fb_max_length b)"

lemma buffer_okE:
  assumes "buffer_ok b"
  obtains mem where "fb_data b = Some mem" "length mem = unat (fb_max_length b)"
    "unat (fb_off b) + unat (fb_length b) \<le> unat (fb_max_length b)"
    "buffer_bytes b = take (unat (fb_length b)) (drop (unat (fb_off b)) mem)"
  using assms by (auto simp: buffer_ok_def buffer_bytes_def split: option.splits)

lemma length_buffer_bytes [simp]:
  "buffer_ok b \<Longrightarrow> length (buffer_bytes b) = unat (fb_length b)"
  by (elim buffer_okE) simp

lemma buffer_ok_init:
  "length mem = unat n \<Longrightarrow> buffer_ok (fs_buffer_init b (Some mem) n)
    \<and> buffer_bytes (fs_buffer_init b (Some mem) n) = []"
  by (simp add: buffer_ok_def buffer_bytes_def fs_buffer_init_def)

text \<open>Sums and differences of lengths that stay within a buffer do not wrap around.\<close>

lemma unat_add_small:
  fixes a b c :: u32
  assumes "unat a + unat b \<le> unat c"
  shows "unat (a + b) = unat a + unat b"
proof -
  have "unat c < 2 ^ 32"
    using unsigned_less [of c] by simp
  then show ?thesis
    using assms by (simp add: unat_word_ariths)
qed

lemma unat_diff_small:
  fixes a b :: u32
  assumes "unat b \<le> unat a"
  shows "unat (a - b) = unat a - unat b"
  using assms by (simp add: unat_sub word_le_nat_alt)

lemma space_unat:
  "buffer_ok b \<Longrightarrow> unat (FS_BUFFER_SPACE b) = unat (fb_max_length b) - unat (fb_length b)"
  by (elim buffer_okE) (simp add: FS_BUFFER_SPACE_def unat_diff_small)

lemma tail_room_unat:
  "buffer_ok b \<Longrightarrow> unat (FS_BUFFER_TAIL_ROOM b)
     = unat (fb_max_length b) - unat (fb_length b) - unat (fb_off b)"
  by (elim buffer_okE)
    (simp add: FS_BUFFER_TAIL_ROOM_def FS_BUFFER_SPACE_def FS_BUFFER_HEAD_ROOM_def unat_diff_small)

lemma memcpy_r_loop_rev:
  "n \<le> length src \<Longrightarrow> memcpy_r_loop src n written = Some (rev (take n src) @ written)"
  by (induction src n written rule: memcpy_r_loop.induct) simp_all

lemma fs_memcpy_r_rev:
  "unat n \<le> length src \<Longrightarrow> fs_memcpy_r src n = Some (rev (take (unat n) src))"
  by (simp add: fs_memcpy_r_def memcpy_r_loop_rev)

text \<open>Four bytes in memory as a word.\<close>

definition bytes32 :: "u32 \<Rightarrow> u8 list" where
  "bytes32 w = map (\<lambda>i. ucast (drop_bit (8 * i) w)) [0..<4]"

definition word32 :: "u8 list \<Rightarrow> u32" where
  "word32 bs = ucast (bs ! 0) OR push_bit 8 (ucast (bs ! 1)) OR push_bit 16 (ucast (bs ! 2)) OR
     push_bit 24 (ucast (bs ! 3))"

lemma length_bytes32 [simp]: "length (bytes32 w) = 4"
  by (simp add: bytes32_def)

lemma word32_bytes32 [simp]: "word32 (bytes32 w) = w"
proof (rule bit_word_eqI)
  fix n assume "n < LENGTH(32)"
  then consider "n < 8" | "8 \<le> n" "n < 16" | "16 \<le> n" "n < 24" | "24 \<le> n" "n < 32" by fastforce
  then show "bit (word32 (bytes32 w)) n \<longleftrightarrow> bit w n"
    by cases (auto simp: word32_def bytes32_def bit_simps upt_rec)
qed

text \<open>What a reader or writer sees of a byte string under \<^verbatim>\<open>FS_BUFFER_PACKED\<close>.\<close>

definition packed :: "u8 \<Rightarrow> u8 list \<Rightarrow> u8 list" where
  "packed fl bs = (if fl AND FS_BUFFER_PACKED \<noteq> 0 then rev bs else bs)"

lemma packed_simps [simp]:
  "length (packed fl bs) = length bs" "packed fl (packed fl bs) = bs" "packed fl [] = []"
  by (simp_all add: packed_def)

lemma mem_read_ok:
  assumes "fb_data b = Some mem" and "unat off + unat n \<le> length mem"
  shows "mem_read b off n = Some (take (unat n) (drop (unat off) mem))"
  using assms by (simp add: mem_read_def)

lemma mem_write_ok:
  assumes "fb_data b = Some mem" and "unat off + length bs \<le> length mem"
  shows "mem_write b off bs =
    Some (b\<lparr>fb_data := Some (take (unat off) mem @ bs @ drop (unat off + length bs) mem)\<rparr>)"
  using assms by (simp add: mem_write_def)

section \<open>Pulling\<close>

text \<open>Removing data from the head of a buffer.\<close>

lemma pull_head:
  assumes "buffer_ok b" and "unat n \<le> unat (fb_length b)"
    and "fl AND FS_BUFFER_INPLACE = 0" "fl AND FS_BUFFER_TAIL = 0"
  shows "\<exists>b'. fs_buffer_pull_offset b want n 0 fl
        = Some (SUCCESS, b', if want then packed fl (take (unat n) (buffer_bytes b)) else [])
      \<and> buffer_ok b' \<and> buffer_bytes b' = drop (unat n) (buffer_bytes b)
      \<and> fb_length b' = fb_length b - n"
proof -
  obtain mem where mem: "fb_data b = Some mem" "length mem = unat (fb_max_length b)"
    "unat (fb_off b) + unat (fb_length b) \<le> unat (fb_max_length b)"
    "buffer_bytes b = take (unat (fb_length b)) (drop (unat (fb_off b)) mem)"
    using assms(1) by (rule buffer_okE)
  define b' where "b' = b\<lparr>fb_off := fb_off b + n, fb_length := fb_length b - n\<rparr>"
  have off: "unat (fb_off b + n) = unat (fb_off b) + unat n"
    by (rule unat_add_small [where c = "fb_max_length b"]) (use mem(3) assms(2) in linarith)
  have len: "unat (fb_length b - n) = unat (fb_length b) - unat n"
    using assms(2) by (rule unat_diff_small)
  have "mem_read (b\<lparr>fb_off := fb_off b + n\<rparr>) (fb_off b) n
      = Some (take (unat n) (buffer_bytes b))"
    using mem assms(2) by (subst mem_read_ok) (simp_all add: min_def)
  then have "fs_buffer_pull_offset b want n 0 fl
      = Some (SUCCESS, b', if want then packed fl (take (unat n) (buffer_bytes b)) else [])"
    using assms(2-) mem
    by (simp add: fs_buffer_pull_offset_def word_le_nat_alt packed_def fs_memcpy_r_rev b'_def)
  moreover have "buffer_ok b'"
    using mem off len assms(2) by (simp add: buffer_ok_def b'_def)
  moreover have "buffer_bytes b' = drop (unat n) (buffer_bytes b)"
    using mem off len by (simp add: buffer_bytes_def b'_def drop_take add.commute)
  ultimately show ?thesis
    by (auto simp: b'_def)
qed

text \<open>Removing data from the tail.\<close>

lemma pull_tail:
  assumes "buffer_ok b" and "unat n \<le> unat (fb_length b)"
    and "fl AND FS_BUFFER_INPLACE = 0" "fl AND FS_BUFFER_TAIL \<noteq> 0"
  shows "\<exists>b'. fs_buffer_pull_offset b want n 0 fl
        = Some (SUCCESS, b', if want then packed fl (drop (unat (fb_length b) - unat n) (buffer_bytes b)) else [])
      \<and> buffer_ok b' \<and> buffer_bytes b' = take (unat (fb_length b) - unat n) (buffer_bytes b)
      \<and> fb_length b' = fb_length b - n"
proof -
  obtain mem where mem: "fb_data b = Some mem" "length mem = unat (fb_max_length b)"
    "unat (fb_off b) + unat (fb_length b) \<le> unat (fb_max_length b)"
    "buffer_bytes b = take (unat (fb_length b)) (drop (unat (fb_off b)) mem)"
    using assms(1) by (rule buffer_okE)
  define b' where "b' = b\<lparr>fb_length := fb_length b - n\<rparr>"
  have len: "unat (fb_length b - n) = unat (fb_length b) - unat n"
    using assms(2) by (rule unat_diff_small)
  have off: "unat (fb_off b + (fb_length b - n)) = unat (fb_off b) + (unat (fb_length b) - unat n)"
    using mem(3) assms(2) len by (subst unat_add_small [where c = "fb_max_length b"]) simp_all
  have "mem_read b (fb_off b + (fb_length b - n)) n
      = Some (drop (unat (fb_length b) - unat n) (buffer_bytes b))"
    using mem assms(2) off by (subst mem_read_ok) (simp_all add: drop_take add.commute)
  then have "fs_buffer_pull_offset b want n 0 fl
      = Some (SUCCESS, b', if want then packed fl (drop (unat (fb_length b) - unat n) (buffer_bytes b)) else [])"
    using assms(2-) mem
    by (simp add: fs_buffer_pull_offset_def word_le_nat_alt packed_def fs_memcpy_r_rev b'_def)
  moreover have "buffer_ok b'"
    using mem len assms(2) by (simp add: buffer_ok_def b'_def)
  moreover have "buffer_bytes b' = take (unat (fb_length b) - unat n) (buffer_bytes b)"
    using mem len by (simp add: buffer_bytes_def b'_def min_def)
  ultimately show ?thesis
    by (auto simp: b'_def)
qed

text \<open>Looking at data leaves the buffer as it is.\<close>

lemma pull_inplace:
  assumes "buffer_ok b" and "unat n + unat offset \<le> unat (fb_length b)"
    and "fl AND FS_BUFFER_INPLACE \<noteq> 0"
  shows "fs_buffer_pull_offset b want n offset fl = Some (SUCCESS, b,
      if want then packed fl (take (unat n) (drop
        (if fl AND FS_BUFFER_TAIL \<noteq> 0 then unat (fb_length b) - (unat n + unat offset)
         else unat offset) (buffer_bytes b))) else [])"
proof -
  obtain mem where mem: "fb_data b = Some mem" "length mem = unat (fb_max_length b)"
    "unat (fb_off b) + unat (fb_length b) \<le> unat (fb_max_length b)"
    "buffer_bytes b = take (unat (fb_length b)) (drop (unat (fb_off b)) mem)"
    using assms(1) by (rule buffer_okE)
  have sum: "unat (n + offset) = unat n + unat offset"
    using assms(2) by (rule unat_add_small)
  have diff: "unat (fb_length b - (n + offset)) = unat (fb_length b) - (unat n + unat offset)"
    using assms(2) sum by (subst unat_diff_small) simp_all
  have src1: "unat (fb_off b + offset) = unat (fb_off b) + unat offset"
    using mem(3) assms(2) by (intro unat_add_small [where c = "fb_max_length b"]) linarith
  have src2: "unat (fb_off b + (fb_length b - (n + offset)))
      = unat (fb_off b) + (unat (fb_length b) - (unat n + unat offset))"
    using mem(3) diff by (subst unat_add_small [where c = "fb_max_length b"]) simp_all
  have "mem_read b (if fl AND FS_BUFFER_TAIL \<noteq> 0 then fb_off b + (fb_length b - (n + offset))
      else fb_off b + offset) n
    = Some (take (unat n) (drop
        (if fl AND FS_BUFFER_TAIL \<noteq> 0 then unat (fb_length b) - (unat n + unat offset)
         else unat offset) (buffer_bytes b)))"
    using mem assms(2) src1 src2
    by (subst mem_read_ok) (auto simp: drop_take min_def add.commute)
  then show ?thesis
    using assms(2-) mem sum
    by (cases "fl AND FS_BUFFER_TAIL = 0")
      (simp_all add: fs_buffer_pull_offset_def word_le_nat_alt packed_def fs_memcpy_r_rev)
qed

lemma pull_no_space:
  assumes "\<not> n + offset \<le> fb_length b" and "offset \<noteq> 0 \<Longrightarrow> fl AND FS_BUFFER_INPLACE \<noteq> 0"
  shows "fs_buffer_pull_offset b want n offset fl = Some (FS_BUFFER_NO_SPACE, b, [])"
  using assms by (auto simp: fs_buffer_pull_offset_def)

section \<open>Pushing\<close>

lemma add_head_ok:
  assumes "buffer_ok b" and "unat (fb_off b) + unat (fb_length b) + unat n \<le> unat (fb_max_length b)"
  shows "\<exists>b'. fs_buffer_add_head b n = Some (SUCCESS, b') \<and> buffer_ok b'
      \<and> buffer_bytes b' = buffer_bytes b \<and> fb_off b' = fb_off b + n
      \<and> fb_length b' = fb_length b \<and> fb_max_length b' = fb_max_length b"
proof -
  obtain mem where mem: "fb_data b = Some mem" "length mem = unat (fb_max_length b)"
    "unat (fb_off b) + unat (fb_length b) \<le> unat (fb_max_length b)"
    "buffer_bytes b = take (unat (fb_length b)) (drop (unat (fb_off b)) mem)"
    using assms(1) by (rule buffer_okE)
  have off: "unat (fb_off b + n) = unat (fb_off b) + unat n"
    by (rule unat_add_small [where c = "fb_max_length b"]) (use assms(2) in linarith)
  have space: "n \<le> FS_BUFFER_SPACE b"
    using assms by (simp add: word_le_nat_alt space_unat)
  show ?thesis
  proof (cases "fb_length b = 0")
    case True
    then show ?thesis
      using mem off space assms(2)
      by (simp add: fs_buffer_add_head_def buffer_ok_def buffer_bytes_def)
  next
    case False
    define m' where "m' = take (unat (fb_off b + n)) mem @ buffer_bytes b
      @ drop (unat (fb_off b + n) + length (buffer_bytes b)) mem"
    have "fs_buffer_add_head b n = Some (SUCCESS, b\<lparr>fb_data := Some m', fb_off := fb_off b + n\<rparr>)"
      using False mem off space assms
      by (simp add: fs_buffer_add_head_def mem_read_ok mem_write_ok m'_def)
    moreover have "length m' = unat (fb_max_length b)"
      using mem off assms(2) by (simp add: m'_def)
    moreover have "take (unat (fb_length b)) (drop (unat (fb_off b + n)) m') = buffer_bytes b"
      using mem off assms by (simp add: m'_def)
    ultimately show ?thesis
      using mem(1) off assms(2) by (simp add: buffer_ok_def buffer_bytes_def)
  qed
qed

text \<open>The bytes a push writes.\<close>

lemma packed_source:
  "unat n \<le> length src \<Longrightarrow>
   (if fl AND FS_BUFFER_PACKED \<noteq> 0 then fs_memcpy_r src n else Some (take (unat n) src))
   = Some (packed fl (take (unat n) src))"
  by (simp add: packed_def fs_memcpy_r_rev)

lemma push_head:
  assumes "buffer_ok b" and "unat n \<le> unat (FS_BUFFER_SPACE b)" and "unat n \<le> length src"
    and "fl AND FS_BUFFER_UPDATE = 0" "fl AND FS_BUFFER_HEAD \<noteq> 0"
  shows "\<exists>b'. fs_buffer_push_offset b (Some src) n 0 fl = Some (SUCCESS, b')
      \<and> buffer_ok b' \<and> buffer_bytes b' = packed fl (take (unat n) src) @ buffer_bytes b
      \<and> fb_length b' = fb_length b + n \<and> fb_max_length b' = fb_max_length b"
proof -
  have room: "unat (fb_length b) + unat n \<le> unat (fb_max_length b)"
    using assms(1,2) by (simp add: space_unat) (use assms(1) in \<open>elim buffer_okE, linarith\<close>)
  have "\<exists>b1. (if FS_BUFFER_HEAD_ROOM b < n
        then fs_buffer_add_head b (n - FS_BUFFER_HEAD_ROOM b) else Some (SUCCESS, b))
      = Some (SUCCESS, b1) \<and> buffer_ok b1 \<and> buffer_bytes b1 = buffer_bytes b
      \<and> unat n \<le> unat (fb_off b1)
      \<and> fb_length b1 = fb_length b \<and> fb_max_length b1 = fb_max_length b"
  proof (cases "fb_off b < n")
    case True
    then have "unat (n - fb_off b) = unat n - unat (fb_off b)"
      by (intro unat_diff_small) (simp add: word_less_nat_alt)
    then have "unat (fb_off b) + unat (fb_length b) + unat (n - fb_off b) \<le> unat (fb_max_length b)"
      using room True by (simp add: word_less_nat_alt)
    from add_head_ok [OF assms(1) this] True show ?thesis
      by (auto simp: FS_BUFFER_HEAD_ROOM_def)
  next
    case False
    then show ?thesis
      using assms(1) by (auto simp: FS_BUFFER_HEAD_ROOM_def word_less_nat_alt)
  qed
  then obtain b1 where b1: "(if FS_BUFFER_HEAD_ROOM b < n
        then fs_buffer_add_head b (n - FS_BUFFER_HEAD_ROOM b) else Some (SUCCESS, b))
      = Some (SUCCESS, b1)" "buffer_ok b1" "buffer_bytes b1 = buffer_bytes b"
      "unat n \<le> unat (fb_off b1)" "fb_length b1 = fb_length b" "fb_max_length b1 = fb_max_length b"
    by blast
  obtain mem where mem: "fb_data b1 = Some mem" "length mem = unat (fb_max_length b1)"
    "unat (fb_off b1) + unat (fb_length b1) \<le> unat (fb_max_length b1)"
    "buffer_bytes b1 = take (unat (fb_length b1)) (drop (unat (fb_off b1)) mem)"
    using b1(2) by (rule buffer_okE)
  let ?bs = "packed fl (take (unat n) src)"
  define m' where "m' = take (unat (fb_off b1 - n)) mem @ ?bs
    @ drop (unat (fb_off b1 - n) + length ?bs) mem"
  define b' where "b' = b1\<lparr>fb_off := fb_off b1 - n, fb_data := Some m', fb_length := fb_length b + n\<rparr>"
  have off: "unat (fb_off b1 - n) = unat (fb_off b1) - unat n"
    using b1(4) by (rule unat_diff_small)
  have len: "unat (fb_length b + n) = unat (fb_length b) + unat n"
    using room by (rule unat_add_small)
  have bs: "length ?bs = unat n"
    using assms(3) by simp
  have "mem_write (b1\<lparr>fb_off := fb_off b1 - n\<rparr>) (fb_off b1 - n) ?bs
      = Some (b1\<lparr>fb_off := fb_off b1 - n, fb_data := Some m'\<rparr>)"
    using mem off bs b1(4) by (subst mem_write_ok) (simp_all add: m'_def)
  moreover have "fb_data b \<noteq> None" and "n \<le> FS_BUFFER_SPACE b"
    using assms(1,2) by (auto simp: buffer_ok_def word_le_nat_alt split: option.splits)
  ultimately have "fs_buffer_push_offset b (Some src) n 0 fl = Some (SUCCESS, b')"
    using assms(3-) b1(1,5) packed_source [OF assms(3), of fl]
    by (simp add: fs_buffer_push_offset_def Let_def b'_def)
  moreover have lm: "length m' = unat (fb_max_length b1)"
    using mem off bs b1(4) by (simp add: m'_def)
  then have "buffer_ok b'"
    using mem off len b1(4-) by (simp add: buffer_ok_def b'_def)
  moreover have "buffer_bytes b' = ?bs @ buffer_bytes b"
    using mem off len bs b1(3-6) by (simp add: buffer_bytes_def b'_def m'_def)
  ultimately show ?thesis
    using b1 by (auto simp: b'_def)
qed

lemma push_tail:
  assumes "buffer_ok b" and "unat n \<le> unat (FS_BUFFER_TAIL_ROOM b)" and "unat n \<le> length src"
    and "fl AND FS_BUFFER_UPDATE = 0" "fl AND FS_BUFFER_HEAD = 0"
  shows "\<exists>b'. fs_buffer_push_offset b (Some src) n 0 fl = Some (SUCCESS, b')
      \<and> buffer_ok b' \<and> buffer_bytes b' = buffer_bytes b @ packed fl (take (unat n) src)
      \<and> fb_length b' = fb_length b + n \<and> fb_max_length b' = fb_max_length b \<and> fb_off b' = fb_off b"
proof -
  obtain mem where mem: "fb_data b = Some mem" "length mem = unat (fb_max_length b)"
    "unat (fb_off b) + unat (fb_length b) \<le> unat (fb_max_length b)"
    "buffer_bytes b = take (unat (fb_length b)) (drop (unat (fb_off b)) mem)"
    using assms(1) by (rule buffer_okE)
  have room: "unat (fb_off b) + unat (fb_length b) + unat n \<le> unat (fb_max_length b)"
    using assms(1,2) mem(3) by (simp add: tail_room_unat)
  let ?bs = "packed fl (take (unat n) src)"
  define m' where "m' = take (unat (fb_off b + fb_length b)) mem @ ?bs
    @ drop (unat (fb_off b + fb_length b) + length ?bs) mem"
  define b' where "b' = b\<lparr>fb_data := Some m', fb_length := fb_length b + n\<rparr>"
  have off: "unat (fb_off b + fb_length b) = unat (fb_off b) + unat (fb_length b)"
    using mem(3) by (rule unat_add_small)
  have len: "unat (fb_length b + n) = unat (fb_length b) + unat n"
    by (rule unat_add_small [where c = "fb_max_length b"]) (use room in linarith)
  have bs: "length ?bs = unat n"
    using assms(3) by simp
  have "mem_write b (fb_off b + fb_length b) ?bs = Some (b\<lparr>fb_data := Some m'\<rparr>)"
    using mem off bs room by (subst mem_write_ok) (simp_all add: m'_def)
  moreover have "n \<le> FS_BUFFER_TAIL_ROOM b"
    using assms(2) by (simp add: word_le_nat_alt)
  ultimately have "fs_buffer_push_offset b (Some src) n 0 fl = Some (SUCCESS, b')"
    using assms(3-) mem(1) packed_source [OF assms(3), of fl]
    by (simp add: fs_buffer_push_offset_def Let_def b'_def)
  moreover have "length m' = unat (fb_max_length b)"
    using mem off bs room by (simp add: m'_def)
  then have "buffer_ok b'"
    using off len room by (simp add: buffer_ok_def b'_def)
  moreover have "buffer_bytes b' = buffer_bytes b @ ?bs"
    using mem off len bs by (simp add: buffer_bytes_def b'_def m'_def drop_take)
  ultimately show ?thesis
    by (auto simp: b'_def)
qed

lemma splice_bytes:
  assumes "off + len \<le> length mem" and "at + length bs \<le> len"
  shows "take len (drop off (take (off + at) mem @ bs @ drop (off + at + length bs) mem))
    = take at (take len (drop off mem)) @ bs @ drop (at + length bs) (take len (drop off mem))"
proof -
  define d where "d = drop off mem"
  have "drop off (take (off + at) mem @ bs @ drop (off + at + length bs) mem)
      = take at d @ bs @ drop (at + length bs) d"
    using assms by (simp add: d_def drop_take add.commute add.left_commute)
  moreover have "len \<le> length d"
    using assms by (simp add: d_def)
  ultimately show ?thesis
    using assms by (simp add: drop_take min_absorb1 min_absorb2 flip: d_def)
qed

lemma push_update:
  assumes "buffer_ok b" and "unat n + unat offset \<le> unat (fb_length b)" and "unat n \<le> length src"
    and "fl AND FS_BUFFER_UPDATE \<noteq> 0"
  defines "at \<equiv> (if fl AND FS_BUFFER_HEAD \<noteq> 0 then unat offset
                 else unat (fb_length b) - (unat n + unat offset))"
  shows "\<exists>b'. fs_buffer_push_offset b (Some src) n offset fl = Some (SUCCESS, b')
      \<and> buffer_ok b'
      \<and> buffer_bytes b' = take at (buffer_bytes b) @ packed fl (take (unat n) src)
          @ drop (at + unat n) (buffer_bytes b)
      \<and> fb_length b' = fb_length b \<and> fb_max_length b' = fb_max_length b"
proof -
  obtain mem where mem: "fb_data b = Some mem" "length mem = unat (fb_max_length b)"
    "unat (fb_off b) + unat (fb_length b) \<le> unat (fb_max_length b)"
    "buffer_bytes b = take (unat (fb_length b)) (drop (unat (fb_off b)) mem)"
    using assms(1) by (rule buffer_okE)
  let ?bs = "packed fl (take (unat n) src)"
  let ?dst = "if fl AND FS_BUFFER_HEAD \<noteq> 0 then fb_off b + offset
              else fb_off b + (fb_length b - (n + offset))"
  have sum: "unat (n + offset) = unat n + unat offset"
    using assms(2) by (rule unat_add_small)
  have diff: "unat (fb_length b - (n + offset)) = unat (fb_length b) - (unat n + unat offset)"
    using assms(2) sum by (subst unat_diff_small) simp_all
  have dst1: "unat (fb_off b + offset) = unat (fb_off b) + unat offset"
    by (rule unat_add_small [where c = "fb_max_length b"]) (use mem(3) assms(2) in linarith)
  have dst2: "unat (fb_off b + (fb_length b - (n + offset)))
      = unat (fb_off b) + (unat (fb_length b) - (unat n + unat offset))"
    using mem(3) diff by (subst unat_add_small [where c = "fb_max_length b"]) simp_all
  have dst: "unat ?dst = unat (fb_off b) + at" and at: "at + unat n \<le> unat (fb_length b)"
    using dst1 dst2 assms(2) by (simp_all add: at_def)
  have bs: "length ?bs = unat n"
    using assms(3) by simp
  define m' where "m' = take (unat ?dst) mem @ ?bs @ drop (unat ?dst + length ?bs) mem"
  define b' where "b' = b\<lparr>fb_data := Some m'\<rparr>"
  have "mem_write b ?dst ?bs = Some b'"
    unfolding b'_def m'_def
    by (rule mem_write_ok [OF mem(1)]) (use dst bs at mem(2,3) in linarith)
  then have "fs_buffer_push_offset b (Some src) n offset fl = Some (SUCCESS, b')"
    using assms(2-4) mem(1) packed_source [OF assms(3), of fl] sum
    by (cases "fl AND FS_BUFFER_HEAD = 0")
      (simp_all add: fs_buffer_push_offset_def Let_def word_le_nat_alt)
  moreover have lm: "length m' = unat (fb_max_length b)"
    unfolding m'_def using mem dst bs at by simp
  then have "buffer_ok b'"
    using mem by (simp add: buffer_ok_def b'_def)
  moreover have "buffer_bytes b' = take at (buffer_bytes b) @ ?bs @ drop (at + unat n) (buffer_bytes b)"
    using splice_bytes [of "unat (fb_off b)" "unat (fb_length b)" mem "at" ?bs] mem dst bs at
    by (simp add: buffer_bytes_def b'_def m'_def add.assoc)
  ultimately show ?thesis
    by (auto simp: b'_def)
qed

lemma push_no_room:
  assumes "fb_data b \<noteq> None" and "fl AND FS_BUFFER_UPDATE = 0"
    and "\<not> n \<le> (if fl AND FS_BUFFER_HEAD \<noteq> 0 then FS_BUFFER_SPACE b else FS_BUFFER_TAIL_ROOM b)"
  shows "fs_buffer_push_offset b data n 0 fl = Some (FS_BUFFER_NO_SPACE, b)"
  using assms by (auto simp: fs_buffer_push_offset_def FS_BUFFER_NO_SPACE_def SUCCESS_def)

section \<open>Chains as their readers see them\<close>

text \<open>
  A routine that only reads a \<^verbatim>\<open>FS_BUFFER_LIST\<close> sees the buffers on it, in the order of their
  \<open>next\<close> pointers, and its \<open>total_length\<close>.
\<close>

record chain =
  ch_buffers :: "FS_BUFFER list"
  ch_total_length :: u32

definition chain_bytes :: "chain \<Rightarrow> u8 list" where
  "chain_bytes c = concat (map buffer_bytes (ch_buffers c))"

definition chain_ok :: "chain \<Rightarrow> bool" where
  "chain_ok c \<longleftrightarrow> list_all buffer_ok (ch_buffers c)
     \<and> length (chain_bytes c) = unat (ch_total_length c)"

lemma chain_okD:
  assumes "chain_ok c"
  shows "list_all buffer_ok (ch_buffers c)"
    and "length (chain_bytes c) = unat (ch_total_length c)"
  using assms by (simp_all add: chain_ok_def)

text \<open>The memory from the \<open>buffer\<close> pointer on.\<close>

definition buffer_memory :: "FS_BUFFER \<Rightarrow> u8 list option" where
  "buffer_memory b = map_option (drop (unat (fb_off b))) (fb_data b)"

lemma buffer_memory_ok:
  assumes "buffer_ok b"
  shows "\<exists>mem. buffer_memory b = Some mem \<and> unat (fb_length b) \<le> length mem
      \<and> buffer_bytes b = take (unat (fb_length b)) mem"
  using assms by (elim buffer_okE) (auto simp: buffer_memory_def)

text \<open>A chain with given contents: each buffer keeps its bytes behind one byte of head room.\<close>

definition buffer_with :: "u8 list \<Rightarrow> FS_BUFFER" where
  "buffer_with bs = \<lparr> fb_data = Some (0 # bs), fb_max_length = of_nat (length bs + 1),
     fb_off = 1, fb_length = of_nat (length bs) \<rparr>"

definition chain_with :: "u8 list list \<Rightarrow> chain" where
  "chain_with bss = \<lparr> ch_buffers = map buffer_with bss,
     ch_total_length = of_nat (length (concat bss)) \<rparr>"

end
