(* ===== verification/Fcs.thy ===== *)
theory Fcs
  imports Buffers
begin

text \<open>
  The frame check sequence of the PPP framing, \<^verbatim>\<open>rtos/io/ppp/ppp_fcs.c\<close>: the table driven
  routines, the bit serial CRC they implement, and the facts that make a frame check work.
\<close>

section \<open>The code\<close>

definition ppp_fcs_table :: "u16 list" where
  "ppp_fcs_table =
   [0x0, 0x1189, 0x2312, 0x329b, 0x4624, 0x57ad, 0x6536, 0x74bf,
    0x8c48, 0x9dc1, 0xaf5a, 0xbed3, 0xca6c, 0xdbe5, 0xe97e, 0xf8f7,
    0x1081, 0x108, 0x3393, 0x221a, 0x56a5, 0x472c, 0x75b7, 0x643e,
    0x9cc9, 0x8d40, 0xbfdb, 0xae52, 0xdaed, 0xcb64, 0xf9ff, 0xe876,
    0x2102, 0x308b, 0x210, 0x1399, 0x6726, 0x76af, 0x4434, 0x55bd,
    0xad4a, 0xbcc3, 0x8e58, 0x9fd1, 0xeb6e, 0xfae7, 0xc87c, 0xd9f5,
    0x3183, 0x200a, 0x1291, 0x318, 0x77a7, 0x662e, 0x54b5, 0x453c,
    0xbdcb, 0xac42, 0x9ed9, 0x8f50, 0xfbef, 0xea66, 0xd8fd, 0xc974,
    0x4204, 0x538d, 0x6116, 0x709f, 0x420, 0x15a9, 0x2732, 0x36bb,
    0xce4c, 0xdfc5, 0xed5e, 0xfcd7, 0x8868, 0x99e1, 0xab7a, 0xbaf3,
    0x5285, 0x430c, 0x7197, 0x601e, 0x14a1, 0x528, 0x37b3, 0x263a,
    0xdecd, 0xcf44, 0xfddf, 0xec56, 0x98e9, 0x8960, 0xbbfb, 0xaa72,
    0x6306, 0x728f, 0x4014, 0x519d, 0x2522, 0x34ab, 0x630, 0x17b9,
    0xef4e, 0xfec7, 0xcc5c, 0xddd5, 0xa96a, 0xb8e3, 0x8a78, 0x9bf1,
    0x7387, 0x620e, 0x5095, 0x411c, 0x35a3, 0x242a, 0x16b1, 0x738,
    0xffcf, 0xee46, 0xdcdd, 0xcd54, 0xb9eb, 0xa862, 0x9af9, 0x8b70,
    0x8408, 0x9581, 0xa71a, 0xb693, 0xc22c, 0xd3a5, 0xe13e, 0xf0b7,
    0x840, 0x19c9, 0x2b52, 0x3adb, 0x4e64, 0x5fed, 0x6d76, 0x7cff,
    0x9489, 0x8500, 0xb79b, 0xa612, 0xd2ad, 0xc324, 0xf1bf, 0xe036,
    0x18c1, 0x948, 0x3bd3, 0x2a5a, 0x5ee5, 0x4f6c, 0x7df7, 0x6c7e,
    0xa50a, 0xb483, 0x8618, 0x9791, 0xe32e, 0xf2a7, 0xc03c, 0xd1b5,
    0x2942, 0x38cb, 0xa50, 0x1bd9, 0x6f66, 0x7eef, 0x4c74, 0x5dfd,
    0xb58b, 0xa402, 0x9699, 0x8710, 0xf3af, 0xe226, 0xd0bd, 0xc134,
    0x39c3, 0x284a, 0x1ad1, 0xb58, 0x7fe7, 0x6e6e, 0x5cf5, 0x4d7c,
    0xc60c, 0xd785, 0xe51e, 0xf497, 0x8028, 0x91a1, 0xa33a, 0xb2b3,
    0x4a44, 0x5bcd, 0x6956, 0x78df, 0xc60, 0x1de9, 0x2f72, 0x3efb,
    0xd68d, 0xc704, 0xf59f, 0xe416, 0x90a9, 0x8120, 0xb3bb, 0xa232,
    0x5ac5, 0x4b4c, 0x79d7, 0x685e, 0x1ce1, 0xd68, 0x3ff3, 0x2e7a,
    0xe70e, 0xf687, 0xc41c, 0xd595, 0xa12a, 0xb0a3, 0x8238, 0x93b1,
    0x6b46, 0x7acf, 0x4854, 0x59dd, 0x2d62, 0x3ceb, 0xe70, 0x1ff9,
    0xf78f, 0xe606, 0xd49d, 0xc514, 0xb1ab, 0xa022, 0x92b9, 0x8330,
    0x7bc7, 0x6a4e, 0x58d5, 0x495c, 0x3de3, 0x2c6a, 0x1ef1, 0xf78]"

definition PPP_FCS16_INIT :: u16 where
  "PPP_FCS16_INIT = 0xffff"

definition PPP_FCS16_MAGIC :: u16 where
  "PPP_FCS16_MAGIC = 0xf0b8"

text \<open>The body of the byte loop; the second argument of the routine is the number of bytes left.\<close>

definition fcs_update :: "u16 \<Rightarrow> u8 \<Rightarrow> u16" where
  "fcs_update fcs b =
     (drop_bit 8 fcs) XOR ppp_fcs_table ! unat ((fcs XOR (ucast b :: u16)) AND 0xff)"

fun ppp_fcs16_calculate :: "u8 list \<Rightarrow> nat \<Rightarrow> u16 \<Rightarrow> u16 option" where
  "ppp_fcs16_calculate data 0 fcs = Some fcs"
| "ppp_fcs16_calculate [] (Suc n) fcs = None"
| "ppp_fcs16_calculate (b # data) (Suc n) fcs = ppp_fcs16_calculate data n (fcs_update fcs b)"

fun fcs16_buffers :: "FS_BUFFER list \<Rightarrow> u16 \<Rightarrow> u16 option" where
  "fcs16_buffers [] fcs = Some fcs"
| "fcs16_buffers (b # bs) fcs = do {
     data \<leftarrow> buffer_memory b;
     fcs \<leftarrow> ppp_fcs16_calculate data (unat (fb_length b)) fcs;
     fcs16_buffers bs fcs }"

definition ppp_fcs16_buffer_calculate :: "chain \<Rightarrow> u16 \<Rightarrow> u16 option" where
  "ppp_fcs16_buffer_calculate buffer fcs = fcs16_buffers (ch_buffers buffer) fcs"

definition PPP_FCS16_IS_VALID :: "chain \<Rightarrow> bool option" where
  "PPP_FCS16_IS_VALID b = do {
     fcs \<leftarrow> ppp_fcs16_buffer_calculate b PPP_FCS16_INIT;
     Some (fcs = PPP_FCS16_MAGIC) }"

section \<open>The CRC, one bit at a time\<close>

definition crc_bit :: "u16 \<Rightarrow> u16" where
  "crc_bit x = (if bit x 0 then (drop_bit 1 x) XOR 0x8408 else drop_bit 1 x)"

definition crc8 :: "u16 \<Rightarrow> u16" where
  "crc8 x = (crc_bit ^^ 8) x"

definition crc_byte :: "u16 \<Rightarrow> u8 \<Rightarrow> u16" where
  "crc_byte fcs b = crc8 (fcs XOR ucast b)"

lemma length_fcs_table: "length ppp_fcs_table = 256"
  by (simp add: ppp_fcs_table_def)

lemma crc_bit_0 [simp]: "crc_bit 0 = 0"
  by (simp add: crc_bit_def)

lemma crc_bit_xor: "crc_bit (x XOR y) = crc_bit x XOR crc_bit y"
  by (cases "bit x 0"; cases "bit y 0")
    (simp_all add: crc_bit_def bit_xor_iff ac_simps flip: xor.assoc)

lemma crc8_xor: "crc8 (x XOR y) = crc8 x XOR crc8 y"
proof -
  have "(crc_bit ^^ n) (x XOR y) = (crc_bit ^^ n) x XOR (crc_bit ^^ n) y" for n
    by (induction n) (simp_all add: crc_bit_xor)
  then show ?thesis
    by (simp only: crc8_def)
qed

text \<open>
  The CRC is linear, so the table for \<open>Suc n\<close> index bits is the one for \<open>n\<close> bits followed by
  the same table shifted by the CRC of bit \<open>n\<close>: eight doublings give all 256 entries.
\<close>

definition crc_table :: "nat \<Rightarrow> u16 list" where
  "crc_table n = map (\<lambda>i. crc8 (of_nat i)) [0..<2 ^ n]"

lemma nat_add_power_xor:
  assumes "i < 2 ^ n"
  shows "(2 ^ n + i :: nat) = i XOR 2 ^ n"
proof -
  have "\<not> bit i n"
    using assms by (simp add: bit_iff_odd)
  then have "bit (2 ^ n :: nat) k \<Longrightarrow> \<not> bit i k" for k
    by (auto simp: bit_simps)
  then have "(2 ^ n + i :: nat) = 2 ^ n XOR i"
    by (intro disjunctive_add_eq_xor) (auto intro!: bit_eqI simp: bit_and_iff)
  then show ?thesis
    by (simp add: xor.commute)
qed

lemma add_power_xor:
  assumes "i < 2 ^ n"
  shows "(of_nat (i + 2 ^ n) :: u16) = of_nat i XOR 2 ^ n"
proof -
  have "(of_nat (i + 2 ^ n) :: u16) = of_nat (i XOR 2 ^ n)"
    using nat_add_power_xor [OF assms] by (simp only: add.commute)
  then show ?thesis
    by (simp only: of_nat_xor_eq of_nat_power of_nat_numeral)
qed

lemma crc_table_Suc:
  "crc_table (Suc n) = crc_table n @ map (\<lambda>x. x XOR crc8 (2 ^ n)) (crc_table n)"
proof -
  have "[0..<2 ^ Suc n] = [0..<2 ^ n] @ map (\<lambda>i. i + 2 ^ n) [0..<(2 :: nat) ^ n]"
    using upt_add_eq_append [of 0 "2 ^ n" "2 ^ n"] map_add_upt [of "2 ^ n" "2 ^ n"]
    by (simp only: power_Suc mult_2 add_0 le0)
  then show ?thesis
    unfolding crc_table_def
    by (simp only: map_append map_map, intro arg_cong2 [where f = "(@)"] refl map_cong)
      (simp_all only: o_apply add_power_xor crc8_xor set_upt atLeastLessThan_iff)
qed

lemma crc8_powers:
  "crc8 0x01 = 0x1189" "crc8 0x02 = 0x2312" "crc8 0x04 = 0x4624" "crc8 0x08 = 0x8c48"
  "crc8 0x10 = 0x1081" "crc8 0x20 = 0x2102" "crc8 0x40 = 0x4204" "crc8 0x80 = 0x8408"
  by code_simp+

lemma crc8_0 [simp]: "crc8 0 = 0"
  by code_simp

lemma fcs_table_crc_table: "ppp_fcs_table = crc_table 8"
proof -
  have "crc_table 0 = [0]"
    by (simp add: crc_table_def)
  moreover have "(8 :: nat) = (Suc (Suc (Suc (Suc (Suc (Suc (Suc (Suc 0))))))))"
    by simp
  then have "crc_table 8 = crc_table (Suc (Suc (Suc (Suc (Suc (Suc (Suc (Suc 0))))))))"
    by (rule arg_cong)
  ultimately show ?thesis
    by (simp add: crc_table_Suc crc8_powers ppp_fcs_table_def)
qed

section \<open>The table driven code computes the bit serial CRC\<close>

lemma crc_bit_even_power:
  "(\<And>k. k < n \<Longrightarrow> \<not> bit x k) \<Longrightarrow> (crc_bit ^^ n) x = drop_bit n x"
proof (induction n)
  case (Suc n)
  then have "(crc_bit ^^ n) x = drop_bit n x" and "\<not> bit x n"
    by simp_all
  then show ?case
    by (simp only: funpow.simps o_apply) (simp add: crc_bit_def bit_drop_bit_eq drop_bit_drop_bit)
qed simp

lemma crc8_high: "crc8 (x AND NOT 0xff) = drop_bit 8 x"
proof -
  have mask: "0xff = (mask 8 :: u16)"
    by (simp add: mask_eq_decr_exp)
  then have "(crc_bit ^^ 8) (x AND NOT 0xff) = drop_bit 8 (x AND NOT 0xff)"
    by (intro crc_bit_even_power) (simp add: bit_simps mask)
  moreover have "drop_bit 8 (x AND NOT 0xff) = drop_bit 8 x"
    by (rule bit_word_eqI) (auto simp: bit_simps mask dest: bit_imp_le_length)
  ultimately show ?thesis
    by (simp only: crc8_def)
qed

lemma fcs_table_nth: "i < 256 \<Longrightarrow> ppp_fcs_table ! i = crc8 (of_nat i)"
  by (simp add: fcs_table_crc_table crc_table_def)

lemma fcs_update_crc: "fcs_update fcs b = crc_byte fcs b"
proof -
  define x where "x = fcs XOR (ucast b :: u16)"
  have "x = (x AND NOT 0xff) XOR (x AND 0xff)"
    by (rule bit_word_eqI) (auto simp: bit_simps)
  then have "crc8 x = crc8 (x AND NOT 0xff) XOR crc8 (x AND 0xff)"
    by (metis crc8_xor)
  moreover have "unat (x AND 0xff) < 256"
    using word_and_le1 [of x "0xff"] by (simp add: word_le_nat_alt)
  then have "ppp_fcs_table ! unat (x AND 0xff) = crc8 (x AND 0xff)"
    by (simp add: fcs_table_nth)
  moreover have "drop_bit 8 x = drop_bit 8 fcs"
    by (rule bit_word_eqI) (auto simp: x_def bit_simps dest: bit_imp_le_length)
  ultimately show ?thesis
    by (simp only: fcs_update_def crc_byte_def crc8_high x_def [symmetric])
qed

definition crc16 :: "u16 \<Rightarrow> u8 list \<Rightarrow> u16" where
  "crc16 fcs bs = foldl crc_byte fcs bs"

lemma crc16_simps [simp]:
  "crc16 fcs [] = fcs"
  "crc16 fcs (b # bs) = crc16 (crc_byte fcs b) bs"
  "crc16 fcs (bs @ cs) = crc16 (crc16 fcs bs) cs"
  by (simp_all add: crc16_def)

lemma ppp_fcs16_calculate_crc:
  "n \<le> length bs \<Longrightarrow> ppp_fcs16_calculate bs n fcs = Some (crc16 fcs (take n bs))"
  by (induction bs n fcs rule: ppp_fcs16_calculate.induct) (simp_all add: fcs_update_crc)

lemma fcs16_buffers_crc:
  "list_all buffer_ok bs
   \<Longrightarrow> fcs16_buffers bs fcs = Some (crc16 fcs (concat (map buffer_bytes bs)))"
proof (induction bs arbitrary: fcs)
  case (Cons b bs)
  then show ?case
    using buffer_memory_ok [of b] by (auto simp: ppp_fcs16_calculate_crc)
qed simp

lemma fcs_of_chain:
  "chain_ok bl
   \<Longrightarrow> ppp_fcs16_buffer_calculate bl fcs = Some (crc16 fcs (chain_bytes bl))"
  by (simp add: ppp_fcs16_buffer_calculate_def chain_bytes_def fcs16_buffers_crc chain_okD)

section \<open>When a frame is valid\<close>

text \<open>The high byte of a table entry determines its index.\<close>

lemma crc8_high_byte_0:
  assumes "x AND 0xff = x" and "drop_bit 8 (crc8 x) = 0"
  shows "x = 0"
proof -
  have "list_all (\<lambda>(i, t). drop_bit 8 t = 0 \<longrightarrow> i = 0) (enumerate 0 ppp_fcs_table)"
    by (simp add: ppp_fcs_table_def)
  then have "drop_bit 8 (ppp_fcs_table ! i) = 0 \<longrightarrow> i = 0" if "i < 256" for i
    using that nth_enumerate_eq [of i ppp_fcs_table 0]
    by (auto simp: list_all_length length_fcs_table split: prod.splits)
  moreover have "unat x < 256"
    using word_and_le1 [of x "0xff"] assms(1) by (simp add: word_le_nat_alt)
  ultimately have "drop_bit 8 (crc8 (of_nat (unat x))) = 0 \<longrightarrow> unat x = 0"
    by (metis fcs_table_nth)
  then show ?thesis
    using assms(2) by (simp add: unat_eq_zero)
qed

text \<open>Two bytes on top of a register value, as the register after them.\<close>

lemma crc_two_bytes:
  fixes fcs :: u16 and b0 b1 :: u8
  defines "x \<equiv> fcs XOR (ucast b0 OR push_bit 8 (ucast b1))"
  shows "crc16 fcs [b0, b1] = crc8 (crc8 x)"
proof -
  have "crc_byte (crc_byte fcs b0) b1 = crc8 (crc8 (fcs XOR ucast b0) XOR ucast b1)"
    by (simp add: crc_byte_def)
  moreover have "ucast b1 = crc8 (push_bit 8 (ucast b1))"
  proof -
    have "push_bit 8 (ucast b1) = (push_bit 8 (ucast b1) :: u16) AND NOT 0xff"
    proof (rule bit_word_eqI)
      have mask: "0xff = (mask 8 :: u16)"
        by (simp add: mask_eq_decr_exp)
      show "bit (push_bit 8 (ucast b1) :: u16) n
          = bit (push_bit 8 (ucast b1) AND NOT 0xff :: u16) n" if "n < LENGTH(16)" for n
        using that by (auto simp: bit_simps mask)
    qed
    then have "crc8 (push_bit 8 (ucast b1)) = drop_bit 8 (push_bit 8 (ucast b1))"
      by (metis crc8_high)
    also have "\<dots> = ucast b1"
      by (rule bit_word_eqI) (auto simp: bit_simps dest: bit_imp_le_length)
    finally show ?thesis
      by simp
  qed
  moreover have "x = (fcs XOR ucast b0) XOR push_bit 8 (ucast b1)"
    by (rule bit_word_eqI) (auto simp: x_def bit_simps dest: bit_imp_le_length)
  ultimately show ?thesis
    by (simp add: crc8_xor)
qed

lemma crc8_split: "crc8 x = drop_bit 8 x XOR crc8 (x AND 0xff)"
proof -
  have "x = (x AND NOT 0xff) XOR (x AND 0xff)"
    by (rule bit_word_eqI) (auto simp: bit_simps)
  then show ?thesis
    by (metis crc8_xor crc8_high)
qed

lemma crc8_eq_0: "crc8 x = 0 \<longleftrightarrow> x = 0"
proof
  assume *: "crc8 x = 0"
  have "drop_bit 8 (drop_bit 8 x) = 0"
    by (rule bit_word_eqI) (auto simp: bit_simps dest: bit_imp_le_length)
  moreover have "drop_bit 8 (crc8 x) = drop_bit 8 (drop_bit 8 x) XOR drop_bit 8 (crc8 (x AND 0xff))"
    by (subst crc8_split) (rule drop_bit_xor)
  ultimately have "drop_bit 8 (crc8 (x AND 0xff)) = 0"
    using * by simp
  moreover have "(x AND 0xff) AND 0xff = x AND 0xff"
    by (rule and.right_idem)
  ultimately have low: "x AND 0xff = 0"
    by (rule crc8_high_byte_0 [rotated])
  have high: "drop_bit 8 x = 0"
    using crc8_split [of x] unfolding * low crc8_0 xor.right_neutral by (rule sym)
  show "x = 0"
  proof (rule bit_word_eqI)
    fix n
    assume "n < LENGTH(16)"
    have mask: "0xff = (mask 8 :: u16)"
      by (simp add: mask_eq_decr_exp)
    have "\<not> bit x n" if "n < 8"
      using low that by (auto simp: mask dest!: arg_cong [where f = "\<lambda>w. bit w n"] simp: bit_simps)
    moreover have "\<not> bit x n" if "8 \<le> n"
      using high that
      by (auto dest!: arg_cong [where f = "\<lambda>w. bit w (n - 8)"] simp: bit_simps)
    ultimately show "bit x n = bit 0 n"
      by (cases "n < 8") simp_all
  qed
qed simp

lemma crc8_inject: "crc8 x = crc8 y \<longleftrightarrow> x = y"
proof
  assume "crc8 x = crc8 y"
  then have "crc8 (x XOR y) = 0"
    unfolding crc8_xor by (simp only: xor_self_eq)
  then have "x XOR y = 0"
    by (rule crc8_eq_0 [THEN iffD1])
  moreover have "x = (x XOR y) XOR y"
    by (simp only: xor.assoc xor_self_eq xor.right_neutral)
  ultimately show "x = y"
    by (simp only: xor.left_neutral)
qed simp

lemma fcs_magic: "PPP_FCS16_MAGIC = crc8 (crc8 (- 1))"
  by code_simp

lemma crc16_magic_iff:
  "crc16 fcs [b0, b1] = PPP_FCS16_MAGIC
   \<longleftrightarrow> ucast b0 OR push_bit 8 (ucast b1) = NOT fcs"
proof -
  let ?t = "ucast b0 OR push_bit 8 (ucast b1) :: u16"
  have "crc16 fcs [b0, b1] = PPP_FCS16_MAGIC \<longleftrightarrow> fcs XOR ?t = - 1"
    unfolding crc_two_bytes fcs_magic by (simp only: crc8_inject)
  also have "\<dots> \<longleftrightarrow> ?t = NOT fcs"
  proof
    assume "fcs XOR ?t = - 1"
    then have "fcs XOR (fcs XOR ?t) = NOT fcs"
      by simp
    then show "?t = NOT fcs"
      by (simp only: xor.assoc [symmetric] xor_self_eq xor.left_neutral)
  qed simp
  finally show ?thesis .
qed

section \<open>Properties\<close>

text \<open>
  C38. The frame check sequence the table driven code computes over a buffer chain is the bit
  serial CRC-16 (polynomial 0x8408, least significant bit first) of the bytes of the chain:
  it does not depend on how they are spread over the buffers, and no read leaves a buffer.
\<close>

theorem fcs_is_the_bit_serial_crc:
  assumes "chain_ok bl"
  shows "ppp_fcs16_buffer_calculate bl fcs
    = Some (foldl (\<lambda>r b. (crc_bit ^^ 8) (r XOR ucast b)) fcs (chain_bytes bl))"
proof -
  have "crc_byte = (\<lambda>r b. (crc_bit ^^ 8) (r XOR ucast b))"
    by (rule ext)+ (simp only: crc_byte_def crc8_def)
  then show ?thesis
    using fcs_of_chain [OF assms] by (simp only: crc16_def)
qed

lemma fcs_is_the_bit_serial_crc_witness:
  "ppp_fcs16_buffer_calculate (chain_with [[0x31, 0x32], [], [0x33]]) PPP_FCS16_INIT
   = Some (foldl (\<lambda>r b. (crc_bit ^^ 8) (r XOR ucast b)) PPP_FCS16_INIT [0x31, 0x32, 0x33 :: u8])"
proof -
  have "chain_ok (chain_with [[0x31, 0x32], [], [0x33]])"
    and "chain_bytes (chain_with [[0x31, 0x32], [], [0x33]]) = [0x31, 0x32, 0x33]"
    by code_simp+
  then show ?thesis
    by (simp only: fcs_is_the_bit_serial_crc)
qed

text \<open>
  A received chain passes the check of \<open>PPP_FCS16_IS_VALID\<close> exactly when its last two
  bytes are, low byte first, the complement of the frame check sequence of what precedes them.
\<close>

theorem frame_valid_iff_trailer:
  assumes "chain_ok bl" and "chain_bytes bl = payload @ [lo, hi]"
    and "ppp_fcs16_calculate payload (length payload) PPP_FCS16_INIT = Some fcs"
  shows "PPP_FCS16_IS_VALID bl
    = Some (ucast lo OR push_bit 8 (ucast hi) = NOT fcs)"
proof -
  have "fcs = crc16 PPP_FCS16_INIT payload"
    using assms(3) by (simp add: ppp_fcs16_calculate_crc)
  moreover have "crc16 PPP_FCS16_INIT (payload @ [lo, hi])
      = crc16 (crc16 PPP_FCS16_INIT payload) [lo, hi]"
    by (rule crc16_simps)
  ultimately show ?thesis
    using crc16_magic_iff [of fcs lo hi] fcs_of_chain [OF assms(1), of PPP_FCS16_INIT]
    by (simp only: PPP_FCS16_IS_VALID_def assms(2) Option.bind.simps)
qed

lemma frame_valid_iff_trailer_witness:
  "PPP_FCS16_IS_VALID (chain_with [[0x31], [0x32, 0xac], [0xb2]])
   = Some (ucast (0xac :: u8) OR push_bit 8 (ucast (0xb2 :: u8)) = (NOT 0x4d53 :: u16))"
proof (rule frame_valid_iff_trailer [where payload = "[0x31, 0x32]"])
  show "chain_ok (chain_with [[0x31], [0x32, 0xac], [0xb2]])"
    by code_simp
  show "chain_bytes (chain_with [[0x31], [0x32, 0xac], [0xb2]]) = [0x31, 0x32] @ [0xac, 0xb2]"
    by code_simp
  show "ppp_fcs16_calculate [0x31, 0x32] (length [0x31, 0x32 :: u8]) PPP_FCS16_INIT = Some 0x4d53"
    by code_simp
qed

end
