(* ===== verification/Csum.thy ===== *)
theory Csum
  imports Buffers
begin

text \<open>
  The Internet checksum over a buffer chain, \<^verbatim>\<open>net_csum_calculate\<close> of
  \<^verbatim>\<open>rtos/net/net_csum.c\<close>, in the little endian configuration of the ARM targets, and the
  combination of two checksums, \<^verbatim>\<open>NET_CSUM_ADD\<close> of \<^verbatim>\<open>net_csum.h\<close>. The buffers may have odd
  lengths: a word may straddle two of them.
\<close>

section \<open>The code\<close>

text \<open>
  Skipping \<open>offset\<close> bytes yields the current buffer with the ones behind it, the memory at
  \<open>bytes\<close> and \<open>left\<close>; \<open>bytes\<close> is kept as it was while no buffer is entered in the middle.
\<close>

fun csum_skip :: "FS_BUFFER list \<Rightarrow> u32 \<Rightarrow> u8 list \<Rightarrow> (FS_BUFFER list \<times> u8 list \<times> u32) option" where
  "csum_skip [] offset bytes = Some ([], bytes, 0)"
| "csum_skip (one # rest) offset bytes =
     (if offset > 0
      then if fb_length one > offset
           then do {
             mem \<leftarrow> buffer_memory one;
             Some (one # rest, drop (unat offset) mem, fb_length one - offset) }
           else csum_skip rest (offset - fb_length one) bytes
      else Some (one # rest, bytes, 0))"

text \<open>The inner loop adds little endian words while two bytes are left.\<close>

fun csum_words :: "u8 list \<Rightarrow> nat \<Rightarrow> u32 \<Rightarrow> (u8 list \<times> nat \<times> u32) option" where
  "csum_words bytes (Suc (Suc left)) csum =
     (case bytes of
        a # b # bytes \<Rightarrow> csum_words bytes left (csum + (ucast a + push_bit 8 (ucast b)))
      | _ \<Rightarrow> None)"
| "csum_words bytes left csum = Some (bytes, left, csum)"

text \<open>
  What the body of the outer loop adds from one buffer: a byte that completes the word the
  last buffer left open, the words, and a last odd byte. \<open>follows\<close> tells whether another buffer
  follows.
\<close>

definition csum_buffer ::
    "bool \<Rightarrow> u8 list \<Rightarrow> u32 \<Rightarrow> bool \<Rightarrow> u32 \<Rightarrow> (bool \<times> u32) option" where
  "csum_buffer follows bytes left last_left csum = do {
     (bytes, left, last_left, csum) \<leftarrow>
       (if last_left \<and> left > 0
        then (case bytes of
                a # bytes \<Rightarrow> Some (bytes, left - 1, False, csum + push_bit 8 (ucast a))
              | [] \<Rightarrow> None)
        else Some (bytes, left, last_left, csum));
     (bytes, n, csum) \<leftarrow> csum_words bytes (unat left) csum;
     (if n = 1
      then (case bytes of
              a # bytes \<Rightarrow> Some (if follows then True else last_left, csum + ucast a)
            | [] \<Rightarrow> None)
      else Some (last_left, csum)) }"

text \<open>\<open>num\<close> is the signed number of bytes to go; \<open>left\<close> is zero after each buffer.\<close>

fun csum_loop ::
    "FS_BUFFER list \<Rightarrow> u8 list \<Rightarrow> u32 \<Rightarrow> int \<Rightarrow> bool \<Rightarrow> u32 \<Rightarrow> u32 option" where
  "csum_loop [] bytes left num last_left csum = Some csum"
| "csum_loop (one # rest) bytes left num last_left csum =
     (if num > 0
      then do {
        (left, bytes) \<leftarrow>
          (if left = 0 then do { mem \<leftarrow> buffer_memory one; Some (fb_length one, mem) }
           else Some (left, bytes));
        let (left, num) = (if sint left > num then (word_of_int num, 0) else (left, num - sint left));
        (last_left, csum) \<leftarrow> csum_buffer (rest \<noteq> []) bytes left last_left csum;
        csum_loop rest bytes 0 num last_left csum }
      else Some csum)"

definition csum_fold :: "u32 \<Rightarrow> u32" where
  "csum_fold csum = (csum AND 0xFFFF) + drop_bit 16 csum"

definition net_csum_calculate :: "chain \<Rightarrow> 32 word \<Rightarrow> u32 \<Rightarrow> u16 option" where
  "net_csum_calculate buffer num_bytes offset = do {
     one \<leftarrow> (case ch_buffers buffer of [] \<Rightarrow> None | b # _ \<Rightarrow> Some b);
     bytes \<leftarrow> buffer_memory one;
     num \<leftarrow> (if sint num_bytes < 0
             then do { ASSERT (offset > ch_total_length buffer);
                       Some (sint (ch_total_length buffer - offset)) }
             else do { ASSERT (offset + num_bytes > ch_total_length buffer);
                       Some (sint num_bytes) });
     (bufs, bytes, left) \<leftarrow> csum_skip (ch_buffers buffer) offset bytes;
     csum \<leftarrow> csum_loop bufs bytes left num False 0;
     Some (ucast (NOT (csum_fold (csum_fold csum)))) }"

text \<open>\<^verbatim>\<open>NET_CSUM_ADD(a, b)\<close>: the new value of \<open>a\<close>.\<close>

definition NET_CSUM_ADD :: "u32 \<Rightarrow> u32 \<Rightarrow> u32" where
  "NET_CSUM_ADD a b =
     (NOT (csum_fold (csum_fold ((NOT a AND 0xFFFF) + (NOT b AND 0xFFFF))))) AND 0xFFFF"

section \<open>The sum of the words of a byte string\<close>

text \<open>\<open>hi\<close> tells whether the next byte is the high byte of its word.\<close>

fun byte_sum :: "bool \<Rightarrow> u8 list \<Rightarrow> nat" where
  "byte_sum hi [] = 0"
| "byte_sum hi (a # bs) = (if hi then 256 * unat a else unat a) + byte_sum (\<not> hi) bs"

lemma byte_sum_append:
  "byte_sum hi (xs @ ys) = byte_sum hi xs + byte_sum (hi \<noteq> odd (length xs)) ys"
proof (induction xs arbitrary: hi)
  case (Cons a xs)
  have "((\<not> hi) \<noteq> odd (length xs)) = (hi \<noteq> odd (length (a # xs)))"
    by auto
  then show ?case
    using Cons [of "\<not> hi"] by (simp only: append_Cons byte_sum.simps add.assoc)
qed simp

lemma unat_byte: "unat (x :: u8) \<le> 255"
proof -
  have "unat x < 256"
    using unsigned_less [of x] by simp
  then show ?thesis
    by simp
qed

lemma byte_sum_bound:
  "byte_sum hi bs \<le> 65535 * ((length bs + 2) div 2)"
proof (induction bs arbitrary: hi rule: induct_list012)
  case (2 x)
  show ?case
    using unat_byte [of x] by (cases hi) auto
next
  case (3 x y zs)
  show ?case
    using unat_byte [of x] unat_byte [of y] "3.IH"(1) [of True] "3.IH"(1) [of False] by (cases hi) auto
qed simp

lemma word_of_bytes:
  "ucast a + push_bit 8 (ucast b) = (of_nat (unat a + 256 * unat b) :: u32)"
  by (simp add: push_bit_eq_mult)

lemma csum_words_sum:
  assumes "left \<le> length bytes"
  shows "csum_words bytes left csum = Some (drop (left - left mod 2) bytes, left mod 2,
    csum + of_nat (byte_sum False (take (left - left mod 2) bytes)))"
  using assms
proof (induction bytes left csum rule: csum_words.induct)
  case (1 bytes left csum)
  then obtain a b r where r: "bytes = a # b # r" "left \<le> length r"
    by (cases bytes; cases "tl bytes") auto
  have even: "Suc (Suc left) - left mod 2 = Suc (Suc (left - left mod 2))"
    by (simp add: Suc_diff_le)
  have sum: "csum + (ucast a + push_bit 8 (ucast b)) + of_nat (byte_sum False (take n r))
      = csum + of_nat (byte_sum False (take (Suc (Suc n)) bytes))" for n
    by (simp only: word_of_bytes r(1) take_Suc_Cons byte_sum.simps not_not if_True if_False
        not_True_eq_False not_False_eq_True of_nat_add add.assoc simp_thms)
  have "csum_words bytes (Suc (Suc left)) csum
      = csum_words r left (csum + (ucast a + push_bit 8 (ucast b)))"
    by (simp add: r(1))
  also have "\<dots> = Some (drop (left - left mod 2) r, left mod 2,
      csum + of_nat (byte_sum False (take (Suc (Suc (left - left mod 2))) bytes)))"
    using 1(1) [OF r(1) refl r(2)] by (simp only: sum)
  finally show ?case
    by (simp only: mod2_Suc_Suc even) (simp only: r(1) drop_Suc_Cons)
qed simp_all

section \<open>The sum over the buffers\<close>

text \<open>One buffer, entered with \<open>n\<close> bytes to add at \<open>bytes\<close>.\<close>

lemma csum_words_tail:
  assumes "unat left \<le> length bytes"
  shows "do {
     (bytes, n, csum) \<leftarrow> csum_words bytes (unat left) csum;
     (if n = 1
      then (case bytes of
              a # bytes \<Rightarrow> Some (if follows then True else last_left, csum + ucast a)
            | [] \<Rightarrow> None)
      else Some (last_left, csum)) }
   = Some (if odd (unat left) then (if follows then True else last_left) else last_left,
       csum + of_nat (byte_sum False (take (unat left) bytes)))"
proof (cases "odd (unat left)")
  case True
  then obtain m where m: "unat left = Suc (2 * m)"
    by (metis oddE Suc_eq_plus1)
  then obtain a r where r: "drop (2 * m) bytes = a # r"
    using assms by (cases "drop (2 * m) bytes") auto
  then have "take (Suc (2 * m)) bytes = take (2 * m) bytes @ [a]"
    by (metis take_Suc_conv_app_nth hd_drop_conv_nth list.sel(1) assms m Suc_le_eq)
  moreover have "length (take (2 * m) bytes) = 2 * m"
    using assms m by simp
  ultimately have "byte_sum False (take (unat left) bytes) = byte_sum False (take (2 * m) bytes) + unat a"
    by (simp add: m byte_sum_append)
  then show ?thesis
    using csum_words_sum [OF assms, of csum] r by (simp add: m)
next
  case False
  then have "unat left mod 2 = 0"
    by presburger
  then show ?thesis
    using csum_words_sum [OF assms, of csum] False by simp
qed

lemma csum_buffer_sum:
  assumes "unat left \<le> length bytes"
  shows "\<exists>last'. csum_buffer follows bytes left last_left csum
      = Some (last', csum + of_nat (byte_sum last_left (take (unat left) bytes)))
    \<and> (follows \<longrightarrow> last' = (last_left \<noteq> odd (unat left)))"
proof (cases "last_left \<and> left > 0")
  case True
  then obtain n where n: "unat left = Suc n"
    by (metis not0_implies_Suc unat_eq_zero word_gt_0)
  then obtain a r where r: "bytes = a # r"
    using assms by (cases bytes) auto
  have "unat (left - 1) = n"
    using True n by (simp add: unat_minus_one word_gt_0)
  moreover from this have "unat (left - 1) \<le> length r"
    using assms n r by simp
  note csum_words_tail [OF this]
  moreover have "push_bit 8 (ucast a) = (of_nat (256 * unat a) :: u32)"
    by (simp add: push_bit_eq_mult)
  ultimately show ?thesis
    using True n r by (simp add: csum_buffer_def add.assoc)
next
  case False
  have "csum_buffer follows bytes left last_left csum = Some (if odd (unat left)
      then (if follows then True else last_left) else last_left,
       csum + of_nat (byte_sum False (take (unat left) bytes)))"
    using csum_words_tail [OF assms] False by (auto simp: csum_buffer_def)
  moreover have "last_left \<Longrightarrow> left = 0"
    using False by (simp add: word_gt_0)
  ultimately show ?thesis
    by (cases last_left) auto
qed

text \<open>One round of the outer loop, when the later rounds add what they should.\<close>

definition csum_tail :: "FS_BUFFER list \<Rightarrow> u8 list \<Rightarrow> bool" where
  "csum_tail rest ds \<longleftrightarrow> (\<forall>num last_left csum. 0 \<le> num \<longrightarrow>
     csum_loop rest [] 0 num last_left csum
       = Some (csum + of_nat (byte_sum last_left (take (nat num) ds))))"

lemma csum_loop_bytes: "csum_loop bs bytes 0 num last_left csum = csum_loop bs [] 0 num last_left csum"
  by (cases bs) simp_all

lemma sint_small: "unat (w :: u32) < 2 ^ 31 \<Longrightarrow> sint w = int (unat w)"
proof -
  assume small: "unat w < 2 ^ 31"
  have "sint w = signed_take_bit 31 (int (unat w))"
    by (simp add: sint_uint)
  also have "\<dots> = int (unat w)"
  proof (rule signed_take_bit_int_eq_self)
    have "int (unat w) < int (2 ^ 31)"
      using small by (simp only: of_nat_less_iff)
    then show "int (unat w) < 2 ^ 31"
      by (simp only: of_nat_power of_nat_numeral)
    have "- (2 ^ 31) \<le> (0 :: int)"
      by simp
    then show "- (2 ^ 31) \<le> int (unat w)"
      by (rule order_trans) (rule of_nat_0_le_iff)
  qed
  finally show ?thesis .
qed

lemma csum_round:
  assumes len: "unat left \<le> length bytes" "unat left < 2 ^ 31" and "0 < num" and tail: "csum_tail rest ds"
    and empty: "rest = [] \<Longrightarrow> ds = []"
  shows "(let (left, num) = (if sint left > num then (word_of_int num, 0) else (left, num - sint left))
     in do {
        (last_left, csum) \<leftarrow> csum_buffer (rest \<noteq> []) bytes left last_left csum;
        csum_loop rest bytes 0 num last_left csum })
    = Some (csum + of_nat (byte_sum last_left (take (nat num) (take (unat left) bytes @ ds))))"
proof (cases "sint left > num")
  case True
  then have small: "nat num < unat left"
    unfolding sint_small [OF len(2)] using \<open>0 < num\<close> by linarith
  have num: "unat (word_of_int num :: u32) = nat num"
    using small len(2) \<open>0 < num\<close> by (simp add: unsigned_of_int take_bit_int_eq_self)
  obtain last' where "csum_buffer (rest \<noteq> []) bytes (word_of_int num) last_left csum
      = Some (last', csum + of_nat (byte_sum last_left (take (nat num) bytes)))"
    using csum_buffer_sum [of "word_of_int num" bytes "rest \<noteq> []" last_left csum] num small len
    by auto
  moreover have "csum_loop rest bytes 0 0 l c = Some c" for l c
    by (cases rest) simp_all
  moreover have "take (nat num) (take (unat left) bytes @ ds) = take (nat num) bytes"
    using small len by (simp add: min_def)
  ultimately show ?thesis
    using True by simp
next
  case False
  then have big: "unat left \<le> nat num"
    unfolding sint_small [OF len(2)] by linarith
  obtain last' where l: "csum_buffer (rest \<noteq> []) bytes left last_left csum
      = Some (last', csum + of_nat (byte_sum last_left (take (unat left) bytes)))"
    "rest \<noteq> [] \<longrightarrow> last' = (last_left \<noteq> odd (unat left))"
    using csum_buffer_sum [OF len(1), of "rest \<noteq> []" last_left csum] by auto
  have "num - sint left = int (nat num - unat left)"
    using big len \<open>0 < num\<close> by (simp add: sint_small)
  then have "csum_loop rest bytes 0 (num - sint left) last' c
      = Some (c + of_nat (byte_sum last' (take (nat num - unat left) ds)))" for c
    using tail unfolding csum_tail_def by (subst csum_loop_bytes) simp
  moreover have "byte_sum last' (take (nat num - unat left) ds)
      = byte_sum (last_left \<noteq> odd (unat left)) (take (nat num - unat left) ds)"
    using l(2) empty by (cases "rest = []") simp_all
  moreover have "byte_sum last_left (take (nat num) (take (unat left) bytes @ ds))
      = byte_sum last_left (take (unat left) bytes)
        + byte_sum (last_left \<noteq> odd (unat left)) (take (nat num - unat left) ds)"
    using big len by (simp add: byte_sum_append min_absorb2)
  ultimately show ?thesis
    using False l(1) by (simp add: add.assoc)
qed

lemma csum_loop_sum:
  assumes "list_all buffer_ok bs" and "length (concat (map buffer_bytes bs)) < 2 ^ 31"
  shows "csum_tail bs (concat (map buffer_bytes bs))"
  using assms
proof (induction bs)
  case Nil
  then show ?case
    by (simp add: csum_tail_def)
next
  case (Cons b bs)
  obtain mem where mem: "buffer_memory b = Some mem" "unat (fb_length b) \<le> length mem"
    "buffer_bytes b = take (unat (fb_length b)) mem"
    using buffer_memory_ok [of b] Cons.prems(1) by auto
  have "csum_tail bs (concat (map buffer_bytes bs))"
    using Cons by simp
  moreover have "unat (fb_length b) < 2 ^ 31"
    using Cons.prems mem by simp
  ultimately have "csum_loop (b # bs) [] 0 num last_left csum = Some (csum
      + of_nat (byte_sum last_left (take (nat num) (concat (map buffer_bytes (b # bs))))))"
    if "0 < num" for num last_left csum
    using csum_round [OF mem(2) _ that, of bs "concat (map buffer_bytes bs)" last_left csum] mem that
    by simp
  then show ?case
    by (auto simp: csum_tail_def le_less)
qed

text \<open>Skipping the offset.\<close>

lemma csum_skip_sum:
  assumes "list_all buffer_ok bs" and "unat offset \<le> length (concat (map buffer_bytes bs))"
    and "length (concat (map buffer_bytes bs)) < 2 ^ 31" and "0 \<le> num"
  shows "\<exists>bufs bytes' left. csum_skip bs offset bytes = Some (bufs, bytes', left)
    \<and> csum_loop bufs bytes' left num False 0
      = Some (of_nat (byte_sum False (take (nat num) (drop (unat offset) (concat (map buffer_bytes bs))))))"
  using assms(1-3)
proof (induction bs offset bytes rule: csum_skip.induct)
  case (1 offset bytes)
  then show ?case
    by simp
next
  case (2 one rest offset bytes)
  obtain mem where mem: "buffer_memory one = Some mem" "unat (fb_length one) \<le> length mem"
    "buffer_bytes one = take (unat (fb_length one)) mem"
    using buffer_memory_ok [of one] 2 by auto
  consider "offset = 0" | "offset > 0" "fb_length one > offset"
    | "offset > 0" "\<not> fb_length one > offset"
    by (auto simp: word_gt_0)
  then show ?case
  proof cases
    case 1
    then have "csum_tail (one # rest) (concat (map buffer_bytes (one # rest)))"
      using 2 by (intro csum_loop_sum)
    then show ?thesis
      using 1 \<open>0 \<le> num\<close> by (simp add: csum_tail_def csum_loop_bytes [of _ bytes] del: csum_loop.simps)
  next
    case 2
    let ?left = "fb_length one - offset"
    have left: "unat ?left = unat (fb_length one) - unat offset"
      using 2 by (intro unat_diff_small) (simp add: word_less_nat_alt)
    have tail: "csum_tail rest (concat (map buffer_bytes rest))"
      using "2.prems" by (intro csum_loop_sum) simp_all
    have "csum_loop (one # rest) (drop (unat offset) mem) ?left num False 0
        = Some (of_nat (byte_sum False (take (nat num) (take (unat ?left) (drop (unat offset) mem)
            @ concat (map buffer_bytes rest)))))"
    proof (cases "num = 0")
      case False
      moreover have "?left \<noteq> 0"
        using 2 by auto
      moreover have "unat ?left \<le> length (drop (unat offset) mem)" and "unat ?left < 2 ^ 31"
        using left mem "2.prems"(3) by simp_all
      note csum_round [OF this, of num rest "concat (map buffer_bytes rest)" False 0]
      ultimately show ?thesis
        using \<open>0 \<le> num\<close> tail by simp
    qed simp
    moreover have "take (unat ?left) (drop (unat offset) mem) = drop (unat offset) (buffer_bytes one)"
      using left mem by (simp add: drop_take)
    moreover have "unat offset \<le> length (buffer_bytes one)"
      using 2 mem by (simp add: word_less_nat_alt)
    ultimately show ?thesis
      using 2 mem by (simp del: csum_loop.simps)
  next
    case 3
    then have le: "unat (fb_length one) \<le> unat offset"
      by (simp add: word_less_nat_alt)
    then have "unat (offset - fb_length one) = unat offset - unat (fb_length one)"
      by (rule unat_diff_small)
    then show ?thesis
      using "2.IH" [OF 3(1)] 3 "2.prems" mem le by simp
  qed
qed

section \<open>The one's complement sum\<close>

text \<open>The representative of a sum in one's complement: 65535, not 0, for a multiple of 65535.\<close>

definition ones :: "nat \<Rightarrow> nat" where
  "ones n = (if n = 0 then 0 else (n - 1) mod 65535 + 1)"

lemma Suc_mod_cancel:
  "Suc a mod k = Suc b mod k \<Longrightarrow> a mod k = (b :: nat) mod k"
  by (simp add: mod_Suc split: if_splits)

lemma mod_65535: "n mod 65535 = (n mod 65536 + n div 65536) mod (65535 :: nat)"
proof -
  have "n = (n mod 65536 + n div 65536) + 65535 * (n div 65536)"
    using div_mult_mod_eq [of n 65536] by linarith
  then show ?thesis
    by (metis mod_mult_self2)
qed

lemma fold_eq_0: "n mod 65536 + n div 65536 = 0 \<longleftrightarrow> n = (0 :: nat)"
proof
  assume "n mod 65536 + n div 65536 = 0"
  then have "n mod 65536 = 0" and "n div 65536 = 0"
    by (simp_all only: add_is_0)
  then show "n = 0"
    using div_mult_mod_eq [of n 65536] by linarith
qed simp

lemma ones_unique:
  assumes "s \<le> 65535" and "s mod 65535 = n mod 65535" and "s = 0 \<longleftrightarrow> n = 0"
  shows "ones n = s"
proof (cases n)
  case (Suc m)
  then have "s = Suc (s - 1)" and "s - 1 < 65535"
    using assms by simp_all
  then have "(s - 1) mod 65535 = m mod 65535"
    using assms(2) Suc by (metis Suc_mod_cancel)
  then show ?thesis
    using \<open>s - 1 < 65535\<close> Suc assms(3) by (simp add: ones_def)
qed (use assms in \<open>simp add: ones_def\<close>)

lemma unat_csum_fold: "unat (csum_fold c) = unat c mod 65536 + unat c div 65536"
proof -
  have "c AND 0xFFFF = take_bit 16 c"
    by (simp add: take_bit_eq_mask mask_eq_decr_exp)
  then have lo: "unat (c AND 0xFFFF) = unat c mod 65536"
    by (simp only: \<open>c AND 0xFFFF = take_bit 16 c\<close>, subst unsigned_take_bit_eq)
      (simp add: take_bit_eq_mod)
  have "unat c < 2 ^ 32"
    using unsigned_less [of c] by simp
  then have "take_bit 32 (unat c) = unat c"
    by (rule take_bit_nat_eq_self)
  then have hi: "unat (drop_bit 16 c) = unat c div 65536"
    by (subst unsigned_drop_bit_eq) (simp add: drop_bit_eq_div)
  have "unat c mod 65536 + unat c div 65536 < 2 ^ 32"
    using \<open>unat c < 2 ^ 32\<close> by simp
  then show ?thesis
    by (simp add: csum_fold_def unat_word_ariths lo hi)
qed

lemma csum_fold_ones: "unat (csum_fold (csum_fold c)) = ones (unat c)"
proof -
  define n where "n = unat c"
  define m where "m = n mod 65536 + n div 65536"
  have "n < 2 ^ 32"
    using unsigned_less [of c] by (simp add: n_def)
  then have m: "m \<le> 131070"
    by (simp add: m_def)
  have "n mod 65535 = m mod 65535"
    unfolding m_def by (rule mod_65535)
  moreover have "m mod 65535 = (m mod 65536 + m div 65536) mod 65535"
    by (rule mod_65535)
  moreover have "m mod 65536 + m div 65536 \<le> 65535"
  proof -
    have "m div 65536 < 2"
      using m by (intro less_mult_imp_div_less) linarith
    then have "m div 65536 = 0 \<or> m div 65536 = 1"
      by linarith
    moreover have "m mod 65536 \<le> 65535"
      using mod_less_divisor [of 65536 m] by linarith
    ultimately show ?thesis
      using m div_mult_mod_eq [of m 65536] by linarith
  qed
  moreover have "m mod 65536 + m div 65536 = 0 \<longleftrightarrow> n = 0"
    unfolding m_def by (simp only: fold_eq_0)
  ultimately have "ones n = m mod 65536 + m div 65536"
    by (intro ones_unique) simp_all
  then show ?thesis
    by (simp add: unat_csum_fold n_def m_def)
qed

lemma ones_le: "ones n \<le> 65535"
proof -
  have "k mod 65535 < 65535" for k :: nat
    by simp
  from this [of "n - 1"] have "(n - 1) mod 65535 + 1 \<le> 65535"
    by linarith
  then show ?thesis
    unfolding ones_def by (simp only: split: if_splits) (simp only: le0 simp_thms)
qed

text \<open>The checksum that the code returns for a sum.\<close>

definition checksum :: "nat \<Rightarrow> u16" where
  "checksum n = NOT (of_nat (ones n))"

lemma unat_checksum: "unat (checksum n) = 65535 - ones n"
proof -
  have "unat (of_nat (ones n) :: u16) = ones n"
    using ones_le [of n] by (simp add: unsigned_of_nat take_bit_nat_eq_self)
  moreover have "checksum n = 65535 - of_nat (ones n)"
    by (simp add: checksum_def not_eq_complement)
  ultimately show ?thesis
    using ones_le [of n] by (simp add: unat_sub word_le_nat_alt)
qed

section \<open>The checksum of the bytes of a chain\<close>

text \<open>The bytes that a call covers.\<close>

definition csum_span :: "chain \<Rightarrow> 32 word \<Rightarrow> u32 \<Rightarrow> u8 list" where
  "csum_span c num offset =
     (if sint num < 0 then drop (unat offset) (chain_bytes c)
      else take (unat num) (drop (unat offset) (chain_bytes c)))"

lemma word_of_nat_unat: "of_nat (unat w) = (w :: u32)"
  by simp

lemma net_csum_of_bytes:
  assumes "chain_ok c" and "ch_buffers c \<noteq> []" and small: "unat (ch_total_length c) \<le> 131070"
    and "unat offset + (if sint num < 0 then 0 else unat num) \<le> unat (ch_total_length c)"
  shows "net_csum_calculate c num offset = Some (checksum (byte_sum False (csum_span c num offset)))"
proof -
  let ?bs = "chain_bytes c"
  let ?total = "ch_total_length c"
  have ok: "list_all buffer_ok (ch_buffers c)" "length ?bs = unat ?total"
    using assms(1) by (simp_all add: chain_okD)
  obtain b bs where b: "ch_buffers c = b # bs"
    using assms(2) by (cases "ch_buffers c") auto
  obtain mem where mem: "buffer_memory b = Some mem"
    using buffer_memory_ok [of b] ok b by auto
  define n where "n = (if sint num < 0 then sint (?total - offset) else sint num)"
  have diff: "unat (?total - offset) = unat ?total - unat offset"
    using assms(4) by (intro unat_diff_small) simp
  have n: "0 \<le> n" "csum_span c num offset = take (nat n) (drop (unat offset) ?bs)"
  proof -
    have "sint num < 0 \<Longrightarrow> n = int (unat ?total - unat offset)"
      using diff small by (simp add: n_def sint_small del: of_nat_diff)
    moreover have "\<not> sint num < 0 \<Longrightarrow> n = int (unat num)"
      using assms(4) small by (simp add: n_def sint_small)
    ultimately show "0 \<le> n" "csum_span c num offset = take (nat n) (drop (unat offset) ?bs)"
      using ok(2) by (cases "sint num < 0"; simp add: csum_span_def)+
  qed
  have len: "length (concat (map buffer_bytes (ch_buffers c))) < 2 ^ 31"
    and off: "unat offset \<le> length (concat (map buffer_bytes (ch_buffers c)))"
    using ok(2) small assms(4) by (simp_all add: chain_bytes_def)
  obtain bufs bytes left where skip: "csum_skip (ch_buffers c) offset mem = Some (bufs, bytes, left)"
    "csum_loop bufs bytes left n False 0 = Some (of_nat (byte_sum False (csum_span c num offset)))"
    using csum_skip_sum [OF ok(1) off len n(1), of mem] by (auto simp: n(2) chain_bytes_def)
  have "\<not> offset > ?total" and "\<not> sint num < 0 \<Longrightarrow> \<not> offset + num > ?total"
    using assms(4) unat_add_small [of offset num ?total] by (auto simp: word_less_nat_alt)
  then have "net_csum_calculate c num offset = Some (ucast (NOT (csum_fold (csum_fold
      (of_nat (byte_sum False (csum_span c num offset)))))))"
    using skip b mem by (cases "sint num < 0") (simp_all add: net_csum_calculate_def n_def)
  moreover have "length (csum_span c num offset) \<le> 131070"
    using ok(2) small by (auto simp: csum_span_def)
  then have "byte_sum False (csum_span c num offset) < 2 ^ 32"
    using byte_sum_bound [of False "csum_span c num offset"] by simp
  then have "unat (of_nat (byte_sum False (csum_span c num offset)) :: u32)
      = byte_sum False (csum_span c num offset)"
    by (simp add: unsigned_of_nat take_bit_nat_eq_self)
  then have "csum_fold (csum_fold (of_nat (byte_sum False (csum_span c num offset))))
      = of_nat (ones (byte_sum False (csum_span c num offset)))"
    using csum_fold_ones [of "of_nat (byte_sum False (csum_span c num offset))"]
    by (metis word_of_nat_unat)
  ultimately show ?thesis
    by (simp add: checksum_def) (rule bit_word_eqI, auto simp: bit_simps)
qed

text \<open>Adding the checksum of a byte string to its sum gives a string that verifies.\<close>

lemma ones_mod: "ones n mod 65535 = n mod 65535"
proof (cases n)
  case (Suc m)
  then have "ones n = m mod 65535 + 1"
    by (simp add: ones_def)
  then show ?thesis
    using Suc by (simp only: mod_add_left_eq) simp
qed (simp add: ones_def)

lemma ones_eq_0: "ones n = 0 \<longleftrightarrow> n = 0"
  by (simp add: ones_def)

lemma ones_add: "ones (ones m + ones n) = ones (m + n)"
proof (rule ones_unique)
  show "ones (m + n) \<le> 65535"
    by (rule ones_le)
  show "ones (m + n) mod 65535 = (ones m + ones n) mod 65535"
    using mod_add_cong [OF ones_mod ones_mod, of m n] by (simp only: ones_mod)
  show "ones (m + n) = 0 \<longleftrightarrow> ones m + ones n = 0"
    by (simp add: ones_eq_0)
qed

lemma ones_complement_sum: "checksum (n + unat (checksum n)) = 0"
proof -
  have "(n + (65535 - ones n)) mod 65535 = (ones n + (65535 - ones n)) mod 65535"
    by (rule mod_add_cong) (simp_all only: ones_mod)
  then have "(n + (65535 - ones n)) mod 65535 = 0"
    using ones_le [of n] by simp
  moreover have "n + (65535 - ones n) \<noteq> 0"
    by (cases n) (simp_all add: ones_def)
  ultimately have "ones (n + (65535 - ones n)) = 65535"
    by (intro ones_unique) simp_all
  then show ?thesis
    unfolding unat_checksum unfolding checksum_def by simp
qed

lemma byte_sum_of_word:
  "byte_sum False [ucast x, ucast (drop_bit 8 x)] = unat (x :: u16)"
proof -
  have "unat x < 2 ^ 16"
    using unsigned_less [of x] by simp
  then have "take_bit 16 (unat x) = unat x"
    by (rule take_bit_nat_eq_self)
  then have "unat (drop_bit 8 x) = unat x div 256"
    by (subst unsigned_drop_bit_eq) (simp add: drop_bit_eq_div)
  then have "unat (ucast (drop_bit 8 x) :: u8) = unat x div 256"
    using \<open>unat x < 2 ^ 16\<close>
    by (subst unsigned_ucast_eq) (simp add: take_bit_eq_mod)
  moreover have "unat (ucast x :: u8) = unat x mod 256"
    by (subst unsigned_ucast_eq) (simp add: take_bit_eq_mod)
  ultimately show ?thesis
    by simp
qed

lemma not_checksum: "NOT (ucast (checksum n) :: u32) AND 0xFFFF = of_nat (ones n)"
proof -
  have mask: "0xFFFF = (mask 16 :: u32)"
    by (simp add: mask_eq_decr_exp)
  have "NOT (ucast (checksum n) :: u32) AND 0xFFFF = ucast (NOT (checksum n))"
    unfolding mask by (rule bit_word_eqI) (auto simp: bit_simps)
  also have "\<dots> = ucast (of_nat (ones n) :: u16)"
    by (simp add: checksum_def)
  also have "\<dots> = of_nat (ones n)"
    using ones_le [of n] by (simp add: unsigned_of_nat take_bit_nat_eq_self)
  finally show ?thesis .
qed

lemma NET_CSUM_ADD_sums:
  "NET_CSUM_ADD (ucast (checksum m)) (ucast (checksum n)) = ucast (checksum (m + n))"
proof -
  let ?s = "of_nat (ones m + ones n) :: u32"
  have "unat ?s = ones m + ones n"
    using ones_le [of m] ones_le [of n]
    by (simp add: unsigned_of_nat take_bit_nat_eq_self del: of_nat_add)
  then have "csum_fold (csum_fold ?s) = of_nat (ones (m + n))"
    using csum_fold_ones [of ?s] ones_add [of m n] by (metis word_of_nat_unat)
  moreover have mask: "0xFFFF = (mask 16 :: u32)"
    by (simp add: mask_eq_decr_exp)
  have "NOT (of_nat k :: u32) AND 0xFFFF = ucast (NOT (of_nat k :: u16))" for k
    unfolding mask by (rule bit_word_eqI) (auto simp: bit_simps)
  ultimately show ?thesis
    unfolding NET_CSUM_ADD_def not_checksum
    by (simp only: of_nat_add [symmetric]) (simp only: checksum_def)
qed

section \<open>Properties\<close>

text \<open>
  C39. The checksum over a span of a chain of at most 131070 bytes is the complement of the
  one's complement sum of the span's bytes, taken as little endian words with a last odd byte
  as a low byte: it does not depend on how the bytes are spread over buffers, odd ones
  included, and no read leaves a buffer.
\<close>

theorem csum_ignores_fragmentation:
  assumes "chain_ok c" and "ch_buffers c \<noteq> []" and "unat (ch_total_length c) \<le> 131070"
    and "unat offset + (if sint num < 0 then 0 else unat num) \<le> unat (ch_total_length c)"
  shows "net_csum_calculate c num offset = Some (NOT (of_nat (ones (byte_sum False
    (if sint num < 0 then drop (unat offset) (chain_bytes c)
     else take (unat num) (drop (unat offset) (chain_bytes c)))))))"
  using net_csum_of_bytes [OF assms] by (simp add: checksum_def csum_span_def)

lemma csum_ignores_fragmentation_witness:
  "net_csum_calculate (chain_with [[0x45], [], [0x10, 0x02], [0x73, 0x04, 0x05]]) 4 1
   = Some (NOT (of_nat (ones (byte_sum False [0x10, 0x02, 0x73, 0x04]))))"
proof -
  let ?c = "chain_with [[0x45], [], [0x10, 0x02], [0x73, 0x04, 0x05]]"
  have "chain_ok ?c" and "ch_buffers ?c \<noteq> []" and "chain_bytes ?c = [0x45, 0x10, 0x02, 0x73, 0x04, 0x05]"
    by code_simp+
  moreover have "unat (ch_total_length ?c) = 6"
    by (simp add: chain_with_def)
  ultimately show ?thesis
    using csum_ignores_fragmentation [of ?c 1 4] by simp
qed

text \<open>
  Writing the checksum of a packet, computed with its checksum field zero, into that
  field (low byte first, at an even offset) makes the checksum of the packet zero, whatever
  the buffers of the two chains are.
\<close>

theorem stored_checksum_verifies:
  assumes "chain_ok c" "ch_buffers c \<noteq> []" "unat (ch_total_length c) \<le> 131070"
    and "chain_ok c'" "ch_buffers c' \<noteq> []" "unat (ch_total_length c') \<le> 131070"
    and "chain_bytes c = pre @ [0, 0] @ post" and "even (length pre)"
    and "net_csum_calculate c (- 1) 0 = Some x"
    and "chain_bytes c' = pre @ [ucast x, ucast (drop_bit 8 x)] @ post"
  shows "net_csum_calculate c' (- 1) 0 = Some 0"
proof -
  have whole: "csum_span d (- 1) 0 = chain_bytes d" for d
    by (simp add: csum_span_def)
  let ?n = "byte_sum False (chain_bytes c)"
  have x: "x = checksum ?n"
    using net_csum_of_bytes [of c 0 "- 1"] assms(1-3,9) by (simp add: whole)
  have "byte_sum False (chain_bytes c') = ?n + byte_sum False [ucast x, ucast (drop_bit 8 x)]"
    using assms(7,8,10) by (simp add: byte_sum_append del: byte_sum.simps(2)) simp
  then have "byte_sum False (chain_bytes c') = ?n + unat (checksum ?n)"
    by (simp only: byte_sum_of_word x)
  then show ?thesis
    using net_csum_of_bytes [of c' 0 "- 1"] assms(4-6) by (simp add: whole ones_complement_sum)
qed

lemma stored_checksum_verifies_witness:
  "net_csum_calculate (chain_with [[0x45, 0x00, 0x96], [0xFF], [0x24]]) (- 1) 0 = Some 0"
proof -
  let ?c = "chain_with [[0x45], [0x00, 0, 0, 0x24]]"
  let ?d = "chain_with [[0x45, 0x00, 0x96], [0xFF], [0x24]]"
  have "chain_ok ?c" "chain_ok ?d" "ch_buffers ?c \<noteq> []" "ch_buffers ?d \<noteq> []"
    and "chain_bytes ?c = [0x45, 0x00] @ [0, 0] @ [0x24]"
    and "chain_bytes ?d = [0x45, 0x00] @ [ucast (0xFF96 :: u16), ucast (drop_bit 8 (0xFF96 :: u16))] @ [0x24]"
    and "net_csum_calculate ?c (- 1) 0 = Some 0xFF96"
    by code_simp+
  moreover have "unat (ch_total_length ?c) \<le> 131070" "unat (ch_total_length ?d) \<le> 131070"
    by (simp_all add: chain_with_def)
  ultimately show ?thesis
    by (intro stored_checksum_verifies [where c = ?c and pre = "[0x45, 0x00]" and post = "[0x24]"
      and x = "0xFF96"]) simp_all
qed

end
