(* ===== verification/Guests.thy ===== *)
theory Guests
  imports Switch
begin

text \<open>
  Subsystems that run on top of the kernel keep their own data in an extension of the kernel
  state. The kernel's routines do not touch it; only the other tasks, when a routine gives up
  the processor, can change it. This theory transports what the other tasks guarantee about
  an extension (a reflexive and transitive relation \<open>R\<close>) through the kernel's routines.
\<close>

section \<open>Routines that give up the processor nowhere\<close>

lemma scheduler_task_yield_more [frame]:
  "scheduler_task_yield t frm s = Some s' \<Longrightarrow> kstate.more s' = kstate.more s"
  by (cases frm) (auto simp: scheduler_task_yield_def bind_Some_iff Let_def)

lemma sleep_process_loop_more:
  assumes "sleep_process_loop s b = Some s'"
  shows "kstate.more s' = kstate.more s"
  using assms
proof (rule sleep_process_loop.raw_induct [rotated])
  fix f :: "'a kstate_scheme \<Rightarrow> bool \<Rightarrow> 'a kstate_scheme option" and s s' b
  assume "\<And>s b s'. f s b = Some s' \<Longrightarrow> kstate.more s' = kstate.more s"
  moreover assume "(if sleep_task_list s \<noteq> [] \<and> \<not> b then
        (case seq_scan (sleep_walk s) b (sleep_task_list s) of (passed, found, do_break') \<Rightarrow>
           if \<not> do_break' then
             (case found of
                tcb # after \<Rightarrow> do {
                  s \<leftarrow> scheduler_task_yield tcb YIELD_SLEEP (s\<lparr>sleep_task_list := passed @ after\<rparr>);
                  f s do_break'
                }
              | [] \<Rightarrow> Some s)
           else f s do_break')
      else Some s) = Some s'"
  ultimately show "kstate.more s' = kstate.more s"
    by (auto simp: bind_Some_iff split: if_splits prod.splits list.splits
      dest!: scheduler_task_yield_more)
qed

lemma scheduler_get_next_task_more [frame]:
  assumes "scheduler_get_next_task s = Some (t, s')"
  shows "kstate.more s' = kstate.more s"
proof -
  obtain z where z: "sleep_process_loop s False = Some z"
    using assms by (auto simp: scheduler_get_next_task_def sleep_process_system_tick_def
      elim: bind_SomeE)
  show ?thesis
    using assms z sleep_process_loop_more [OF z]
    by (cases "seq_pop (sch_ready_task_list z)")
      (auto simp: scheduler_get_next_task_def sleep_process_system_tick_def bind_Some_iff
        split: if_splits)
qed

lemma isr_pendsv_more [frame]:
  "isr_pendsv_handle s = Some s' \<Longrightarrow> kstate.more s' = kstate.more s"
  by (auto simp: isr_pendsv_handle_def bind_Some_iff Let_def
    split: if_splits dest!: scheduler_get_next_task_more scheduler_task_yield_more)

lemma scheduler_lock_more [frame]:
  "scheduler_lock s = Some s' \<Longrightarrow> kstate.more s' = kstate.more s"
  by (auto simp: scheduler_lock_def split: option.splits if_splits)

lemma sleep_lists_more [frame]:
  "sleep_add_to_list t n s = Some s' \<Longrightarrow> kstate.more s' = kstate.more s"
  "sleep_remove_from_list t s = Some s' \<Longrightarrow> kstate.more s' = kstate.more s"
  by (auto simp: sleep_add_to_list_def sleep_remove_from_list_def bind_Some_iff Let_def
    split: prod.splits if_splits)

lemma int_level_more [simp]:
  "kstate.more (SET_INTERRUPT_LEVEL l s) = kstate.more s"
  "kstate.more (DISABLE_INTERRUPTS s) = kstate.more s"
  "kstate.more (ENABLE_INTERRUPTS s) = kstate.more s"
  by (simp_all add: int_level_defs)

section \<open>Routines that may give it up\<close>

text \<open>What the other tasks do to a part \<open>V\<close> of the extension.\<close>

definition env_keeps ::
    "'z env \<Rightarrow> ('z kstate_scheme \<Rightarrow> 'v) \<Rightarrow> ('v \<Rightarrow> 'v \<Rightarrow> bool) \<Rightarrow> bool" where
  "env_keeps e V R \<longleftrightarrow> reflp R \<and> transp R \<and>
     (\<forall>s s'. kstate.more s = kstate.more s' \<longrightarrow> V s = V s') \<and>
     (\<forall>t s s'. e t s = Some s' \<longrightarrow> R (V s) (V s'))"

lemma env_keepsD:
  assumes "env_keeps e V R"
  shows "R v v" and "R v v' \<Longrightarrow> R v' v'' \<Longrightarrow> R v v''"
    and "e t s = Some s' \<Longrightarrow> R (V s) (V s')"
    and "kstate.more s = kstate.more s' \<Longrightarrow> V s = V s'"
proof -
  show "R v v"
    using assms by (simp add: env_keeps_def reflp_def)
  show "R v v' \<Longrightarrow> R v' v'' \<Longrightarrow> R v v''"
    using assms unfolding env_keeps_def transp_def by blast
  show "e t s = Some s' \<Longrightarrow> R (V s) (V s')" and "kstate.more s = kstate.more s' \<Longrightarrow> V s = V s'"
    using assms unfolding env_keeps_def by blast+
qed

lemma env_keeps_same:
  assumes "env_keeps e V R" and "kstate.more s' = kstate.more s"
  shows "R (V s) (V s')"
  using env_keepsD(4) [OF assms(1), of s' s] env_keepsD(1) [OF assms(1)] assms(2) by simp

lemma env_keeps_view:
  fixes V :: "'z kstate_scheme \<Rightarrow> 'v"
  assumes "env_keeps e V R"
  obtains W where "\<And>s. V s = W (kstate.more s)"
proof
  fix s :: "'z kstate_scheme"
  have "kstate.more (SOME s'. kstate.more s' = kstate.more s) = kstate.more s"
    by (rule someI) (rule refl)
  then show "V s = V (SOME s'. kstate.more s' = kstate.more s)"
    using env_keepsD(4) [OF assms] by metis
qed

lemma PEND_SV_keeps:
  fixes s s' :: "'z kstate_scheme"
  assumes "env_keeps e V R" and "PEND_SV e s = Some s'"
  shows "R (V s) (V s')"
proof -
  obtain W where W: "\<And>s :: 'z kstate_scheme. V s = W (kstate.more s)"
    using env_keeps_view [OF assms(1)] by blast
  note keeps = env_keepsD [OF assms(1), unfolded W]
  show ?thesis
    using assms(2)
    by (auto simp: PEND_SV_def W bind_Some_iff Let_def keeps(1) split: if_splits
      dest!: isr_pendsv_more keeps(3))
qed

lemma control_to_system_keeps:
  fixes s s' :: "'z kstate_scheme"
  assumes "env_keeps e V R" and "control_to_system e s = Some s'"
  shows "R (V s) (V s')"
proof -
  obtain W where W: "\<And>s :: 'z kstate_scheme. V s = W (kstate.more s)"
    using env_keeps_view [OF assms(1)] by blast
  show ?thesis
    using assms(2)
    by (auto simp: control_to_system_eq W bind_Some_iff Let_def
      dest!: PEND_SV_keeps [OF assms(1), unfolded W])
qed

lemma task_yield_keeps:
  fixes s s' :: "'z kstate_scheme"
  assumes "env_keeps e V R" and "task_yield e s = Some s'"
  shows "R (V s) (V s')"
proof -
  obtain W where W: "\<And>s :: 'z kstate_scheme. V s = W (kstate.more s)"
    using env_keeps_view [OF assms(1)] by blast
  show ?thesis
    using assms(2)
    by (auto simp: task_yield_def W bind_Some_iff Let_def env_keepsD(1) [OF assms(1), unfolded W]
      split: if_splits dest!: control_to_system_keeps [OF assms(1), unfolded W])
qed

lemma scheduler_unlock_keeps:
  fixes s s' :: "'z kstate_scheme"
  assumes "env_keeps e V R" and "scheduler_unlock e s = Some s'"
  shows "R (V s) (V s')"
proof -
  obtain W where W: "\<And>s :: 'z kstate_scheme. V s = W (kstate.more s)"
    using env_keeps_view [OF assms(1)] by blast
  show ?thesis
    using assms(2)
    by (auto simp: scheduler_unlock_def W bind_Some_iff Let_def env_keepsD(1) [OF assms(1), unfolded W]
      split: if_splits option.splits dest!: task_yield_keeps [OF assms(1), unfolded W])
qed

end
