(* ===== verification/Route.thy ===== *)
theory Route
  imports Guests Example
begin

text \<open>
  The IPv4 routing table, \<^verbatim>\<open>rtos/net/net_route.c\<close>: a fixed array of routes, searched under the
  scheduler lock. The table extends the kernel state, and its lock is the kernel's
  \<^verbatim>\<open>scheduler_lock\<close>. A file descriptor is a number, zero being NULL; an output parameter that
  may be NULL is an option whose value is what it points to.
\<close>

section \<open>Data\<close>

definition ROUTE_EXIST :: int where "ROUTE_EXIST = - 1400"
definition ROUTE_NO_MEM :: int where "ROUTE_NO_MEM = - 1401"
definition NET_DST_UNREACHABLE :: int where "NET_DST_UNREACHABLE = - 1007"
definition ROUTE_VALID :: u8 where "ROUTE_VALID = 0x1"
definition IPV4_ADDR_UNSPEC :: u32 where "IPV4_ADDR_UNSPEC = 0"
definition IPV4_ADDR_BCAST :: u32 where "IPV4_ADDR_BCAST = 0xFFFFFFFF"
definition IPV4_SUBNET_LL :: u32 where "IPV4_SUBNET_LL = 0xFFFFFFFF"
definition IPV4_GATWAY_LL :: u32 where "IPV4_GATWAY_LL = 0xFFFFFFFF"

record NET_ROUTE =
  rt_device :: nat
  rt_gateway :: u32
  rt_destination :: u32
  rt_subnet :: u32
  rt_interface_address :: u32
  rt_flags :: u8

record rstate = kstate +
  routes :: "NET_ROUTE list"

definition route_valid :: "NET_ROUTE \<Rightarrow> bool" where
  "route_valid r \<longleftrightarrow> rt_flags r AND ROUTE_VALID \<noteq> 0"

section \<open>The code\<close>

definition route_lock :: "'z rstate_scheme \<Rightarrow> (int \<times> 'z rstate_scheme) option" where
  "route_lock s = do { s \<leftarrow> scheduler_lock s; Some (SUCCESS, s) }"

definition route_unlock ::
    "'z rstate_ext env \<Rightarrow> 'z rstate_scheme \<Rightarrow> 'z rstate_scheme option" where
  "route_unlock e s = scheduler_unlock e s"

text \<open>The loop of \<^verbatim>\<open>route_add\<close>: the status and the first free index, \<open>- 1\<close> when there is none.\<close>

fun route_add_scan ::
    "u32 \<Rightarrow> u32 \<Rightarrow> u32 \<Rightarrow> u32 \<Rightarrow> NET_ROUTE list \<Rightarrow> int \<Rightarrow> int \<Rightarrow> int \<times> int" where
  "route_add_scan ifa gw dst sn [] i free_route = (SUCCESS, free_route)"
| "route_add_scan ifa gw dst sn (r # rs) i free_route =
     (if route_valid r \<and> ifa = rt_interface_address r \<and> gw = rt_gateway r
         \<and> dst = rt_destination r \<and> sn = rt_subnet r
      then (ROUTE_EXIST, free_route)
      else if \<not> route_valid r \<and> free_route = - 1
      then route_add_scan ifa gw dst sn rs (i + 1) i
      else route_add_scan ifa gw dst sn rs (i + 1) free_route)"

definition route_add ::
    "'z rstate_ext env \<Rightarrow> nat \<Rightarrow> u32 \<Rightarrow> u32 \<Rightarrow> u32 \<Rightarrow> u32 \<Rightarrow> u8 \<Rightarrow> 'z rstate_scheme \<Rightarrow>
     (int \<times> 'z rstate_scheme) option" where
  "route_add e dev ifa gw dst sn fl s = do {
     (st, s) \<leftarrow> route_lock s;
     (if st = SUCCESS
      then do {
        let (st, free_route) = route_add_scan ifa gw dst sn (routes s) 0 (- 1);
        let (st, s) =
          (if st = SUCCESS
           then if free_route \<ge> 0
                then (st, s\<lparr>routes := (routes s)[nat free_route :=
                       \<lparr> rt_device = dev, rt_gateway = gw, rt_destination = dst, rt_subnet = sn,
                         rt_interface_address = ifa, rt_flags = fl OR ROUTE_VALID \<rparr>]\<rparr>)
                else (ROUTE_NO_MEM, s)
           else (st, s));
        s \<leftarrow> route_unlock e s;
        Some (st, s) }
      else Some (st, s)) }"

definition route_dropped :: "nat \<Rightarrow> u32 \<Rightarrow> u32 \<Rightarrow> NET_ROUTE \<Rightarrow> bool" where
  "route_dropped dev gw dst r \<longleftrightarrow> route_valid r \<and>
     (dev = 0 \<or> rt_device r = dev) \<and> (gw = 0 \<or> rt_gateway r = gw) \<and>
     (dst = 0 \<or> rt_destination r = dst)"

definition route_remove ::
    "'z rstate_ext env \<Rightarrow> nat \<Rightarrow> u32 \<Rightarrow> u32 \<Rightarrow> 'z rstate_scheme \<Rightarrow>
     (int \<times> 'z rstate_scheme) option" where
  "route_remove e dev gw dst s = do {
     (st, s) \<leftarrow> route_lock s;
     (if st = SUCCESS
      then do {
        let s = s\<lparr>routes := map (\<lambda>r. if route_dropped dev gw dst r then r\<lparr>rt_flags := 0\<rparr> else r) (routes s)\<rparr>;
        s \<leftarrow> route_unlock e s;
        Some (st, s) }
      else Some (st, s)) }"

text \<open>The conditions of the three branches of the search.\<close>

definition device_fits :: "nat option \<Rightarrow> NET_ROUTE \<Rightarrow> bool" where
  "device_fits dev r \<longleftrightarrow> dev = None \<or> dev = Some 0 \<or> Some (rt_device r) = dev"

definition iface_unspec :: "u32 option \<Rightarrow> bool" where
  "iface_unspec ifa \<longleftrightarrow> ifa = None \<or> ifa = Some IPV4_ADDR_UNSPEC"

definition bcast_fits :: "nat option \<Rightarrow> u32 option \<Rightarrow> u32 \<Rightarrow> NET_ROUTE \<Rightarrow> bool" where
  "bcast_fits dev ifa dst r \<longleftrightarrow> device_fits dev r \<and>
     (iface_unspec ifa \<or> Some (rt_interface_address r) = ifa) \<and>
     dst = IPV4_ADDR_BCAST \<and> rt_gateway r = IPV4_GATWAY_LL"

definition default_fits :: "nat option \<Rightarrow> u32 option \<Rightarrow> u32 \<Rightarrow> NET_ROUTE \<Rightarrow> bool" where
  "default_fits dev ifa dst r \<longleftrightarrow> device_fits dev r \<and> iface_unspec ifa \<and>
     dst \<noteq> IPV4_ADDR_BCAST \<and> rt_subnet r = 0"

definition subnet_fits :: "nat option \<Rightarrow> u32 option \<Rightarrow> u32 \<Rightarrow> NET_ROUTE \<Rightarrow> bool" where
  "subnet_fits dev ifa dst r \<longleftrightarrow> device_fits dev r \<and> iface_unspec ifa \<and>
     dst AND rt_subnet r = rt_destination r AND rt_subnet r"

text \<open>
  The loop of \<^verbatim>\<open>route_get\<close> over the entries from index \<open>i\<close> on, with \<open>route\<close>,
  \<open>default_route\<close> and \<open>match\<close>. The entry at \<open>route\<close> is read only when two matches tie.
\<close>

fun route_scan ::
    "nat option \<Rightarrow> u32 option \<Rightarrow> u32 \<Rightarrow> NET_ROUTE list \<Rightarrow> NET_ROUTE list \<Rightarrow> int \<Rightarrow> int \<Rightarrow> int \<Rightarrow> u32 \<Rightarrow>
     (int \<times> int) option" where
  "route_scan dev ifa dst tbl [] i route default_route match = Some (route, default_route)"
| "route_scan dev ifa dst tbl (r # rs) i route default_route match =
     (if route_valid r
      then if bcast_fits dev ifa dst r
           then route_scan dev ifa dst tbl rs (i + 1) i default_route IPV4_SUBNET_LL
           else if default_fits dev ifa dst r
           then route_scan dev ifa dst tbl rs (i + 1) route i match
           else if subnet_fits dev ifa dst r
           then do {
             let this_match = dst AND rt_subnet r;
             better \<leftarrow>
               (if this_match \<noteq> 0
                then if this_match > match then Some True
                     else if this_match = match
                     then do {
                       IN_RANGE (0 \<le> route \<and> nat route < length tbl);
                       Some (rt_subnet r > rt_subnet (tbl ! nat route)) }
                     else Some False
                else Some False);
             (if better
              then route_scan dev ifa dst tbl rs (i + 1) i default_route this_match
              else route_scan dev ifa dst tbl rs (i + 1) route default_route match) }
           else route_scan dev ifa dst tbl rs (i + 1) route default_route match
      else route_scan dev ifa dst tbl rs (i + 1) route default_route match)"

text \<open>The values the output parameters get from a route.\<close>

definition device_out :: "nat option \<Rightarrow> NET_ROUTE \<Rightarrow> nat option" where
  "device_out dev r = (if dev = Some 0 then Some (rt_device r) else dev)"

definition iface_out :: "u32 option \<Rightarrow> NET_ROUTE \<Rightarrow> u32 option" where
  "iface_out ifa r = (if ifa = Some IPV4_ADDR_UNSPEC then Some (rt_interface_address r) else ifa)"

definition route_get ::
    "'z rstate_ext env \<Rightarrow> nat option \<Rightarrow> u32 \<Rightarrow> u32 option \<Rightarrow> u32 option \<Rightarrow> u32 option \<Rightarrow>
     'z rstate_scheme \<Rightarrow>
     (int \<times> nat option \<times> u32 option \<times> u32 option \<times> u32 option \<times> 'z rstate_scheme) option" where
  "route_get e dev dst ifa gw sn s = do {
     (st, s) \<leftarrow> route_lock s;
     (if st = SUCCESS
      then do {
        (route, default_route) \<leftarrow> route_scan dev ifa dst (routes s) (routes s) 0 (- 1) (- 1) 0;
        let (st, dev, ifa, gw, sn) =
          (if route \<ge> 0
           then (let r = routes s ! nat route in
                 (st, device_out dev r, iface_out ifa r,
                  map_option (\<lambda>_. if rt_gateway r = IPV4_GATWAY_LL then dst else rt_gateway r) gw,
                  map_option (\<lambda>_. rt_subnet r) sn))
           else if default_route \<ge> 0
           then (let r = routes s ! nat default_route in
                 (st, device_out dev r, iface_out ifa r,
                  map_option (\<lambda>_. rt_gateway r) gw, map_option (\<lambda>_. rt_subnet r) sn))
           else (NET_DST_UNREACHABLE, dev, ifa, gw, sn));
        s \<leftarrow> route_unlock e s;
        Some (st, dev, ifa, gw, sn, s) }
      else Some (st, dev, ifa, gw, sn, s)) }"

section \<open>The table has no duplicates\<close>

definition route_key :: "NET_ROUTE \<Rightarrow> u32 \<times> u32 \<times> u32 \<times> u32" where
  "route_key r = (rt_interface_address r, rt_gateway r, rt_destination r, rt_subnet r)"

definition clash :: "NET_ROUTE \<Rightarrow> NET_ROUTE \<Rightarrow> bool" where
  "clash r q \<longleftrightarrow> route_valid r \<and> route_valid q \<and> route_key r = route_key q"

definition routes_ok :: "NET_ROUTE list \<Rightarrow> bool" where
  "routes_ok rs \<longleftrightarrow> sorted_wrt (\<lambda>r q. \<not> clash r q) rs"

lemma routes_ok_nth:
  "routes_ok rs \<longleftrightarrow> (\<forall>i j. i < j \<and> j < length rs \<longrightarrow> \<not> clash (rs ! i) (rs ! j))"
  by (auto simp: routes_ok_def sorted_wrt_iff_nth_less)

lemma clash_sym: "clash r q \<longleftrightarrow> clash q r"
  by (auto simp: clash_def)

lemma routes_ok_update:
  assumes "routes_ok rs" and "\<And>q. q \<in> set rs \<Longrightarrow> \<not> clash r q"
  shows "routes_ok (rs[k := r])"
  unfolding routes_ok_nth
proof (intro allI impI)
  fix i j
  assume "i < j \<and> j < length (rs[k := r])"
  then have ij: "i < j" "j < length rs" "i < length rs"
    by simp_all
  then have "\<not> clash (rs ! i) (rs ! j)" "\<not> clash r (rs ! i)" "\<not> clash r (rs ! j)"
    using assms by (simp_all add: routes_ok_nth)
  then show "\<not> clash (rs[k := r] ! i) (rs[k := r] ! j)"
    using ij by (cases "k = i"; cases "k = j") (simp_all add: clash_sym [of _ r])
qed

lemma routes_ok_map:
  assumes "routes_ok rs" and "\<And>r q. clash (f r) (f q) \<Longrightarrow> clash r q"
  shows "routes_ok (map f rs)"
  using assms(1) unfolding routes_ok_nth by (auto dest: assms(2))

definition known :: "NET_ROUTE list \<Rightarrow> u32 \<times> u32 \<times> u32 \<times> u32 \<Rightarrow> bool" where
  "known rs k \<longleftrightarrow> list_ex (\<lambda>r. route_valid r \<and> route_key r = k) rs"

text \<open>The loop from index \<open>i\<close> on, \<open>rs\<close> being the rest of the table.\<close>

lemma route_add_scan_status:
  "fst (route_add_scan ifa gw dst sn rs i free)
    = (if known rs (ifa, gw, dst, sn) then ROUTE_EXIST else SUCCESS)"
proof (induction ifa gw dst sn rs i free rule: route_add_scan.induct)
  case (2 ifa gw dst sn r rs i free)
  have "(route_valid r \<and> route_key r = (ifa, gw, dst, sn))
    = (route_valid r \<and> ifa = rt_interface_address r \<and> gw = rt_gateway r
         \<and> dst = rt_destination r \<and> sn = rt_subnet r)"
    by (auto simp: route_key_def)
  then show ?case
    using "2.IH" by (simp add: known_def)
qed (simp add: known_def)

lemma route_add_scan_free:
  assumes "free = - 1 \<or> 0 \<le> free \<and> nat free < length tbl \<and> \<not> route_valid (tbl ! nat free)"
    and "rs = drop n tbl" and "free = - 1 \<longleftrightarrow> list_all route_valid (take n tbl)"
    and "route_add_scan ifa gw dst sn rs (int n) free = (SUCCESS, free')"
  shows "if list_all route_valid tbl then free' = - 1
    else 0 \<le> free' \<and> nat free' < length tbl \<and> \<not> route_valid (tbl ! nat free')"
  using assms
proof (induction rs arbitrary: n free)
  case Nil
  then have "take n tbl = tbl"
    by simp
  then show ?case
    using Nil by auto
next
  case (Cons r rs)
  have n: "n < length tbl"
    using Cons.prems(2) by (metis drop_eq_Nil list.distinct(1) not_less)
  have r: "r = tbl ! n" and rs: "rs = drop (Suc n) tbl"
    using Cons.prems(2) n by (metis Cons_nth_drop_Suc list.inject)+
  have take: "take (Suc n) tbl = take n tbl @ [r]"
    using n r by (simp add: take_Suc_conv_app_nth)
  define free1 where "free1 = (if \<not> route_valid r \<and> free = - 1 then int n else free)"
  have "route_add_scan ifa gw dst sn rs (int (Suc n)) free1 = (SUCCESS, free')"
    using Cons.prems(4) by (auto simp: free1_def add.commute ROUTE_EXIST_def SUCCESS_def split: if_splits)
  moreover have "free1 = - 1 \<or> 0 \<le> free1 \<and> nat free1 < length tbl \<and> \<not> route_valid (tbl ! nat free1)"
    using Cons.prems(1) n r by (auto simp: free1_def)
  moreover have "free1 = - 1 \<longleftrightarrow> list_all route_valid (take (Suc n) tbl)"
    using Cons.prems(3) by (auto simp: free1_def take)
  ultimately show ?case
    using Cons.IH [OF _ rs] by blast
qed

lemma more_routes: "kstate.more s = kstate.more s' \<Longrightarrow> routes s = routes s'"
  by (cases s; cases s') (simp add: rstate.defs kstate.defs)

lemma route_lock_routes: "route_lock s = Some (st, s') \<Longrightarrow> st = SUCCESS \<and> routes s' = routes s"
  by (auto simp: route_lock_def bind_Some_iff dest!: scheduler_lock_more more_routes)

text \<open>What \<^verbatim>\<open>route_add\<close> does to the table, before it unlocks.\<close>

lemma route_add_table:
  assumes "route_add e dev ifa gw dst sn fl s = Some (st, s')"
  defines "new \<equiv> \<lparr> rt_device = dev, rt_gateway = gw, rt_destination = dst, rt_subnet = sn,
    rt_interface_address = ifa, rt_flags = fl OR ROUTE_VALID \<rparr>"
  shows "\<exists>m. route_unlock e m = Some s' \<and>
    (if known (routes s) (ifa, gw, dst, sn) then st = ROUTE_EXIST \<and> routes m = routes s
     else if list_all route_valid (routes s) then st = ROUTE_NO_MEM \<and> routes m = routes s
     else st = SUCCESS \<and> (\<exists>k<length (routes s). \<not> route_valid (routes s ! k)
       \<and> routes m = (routes s)[k := new]))"
proof -
  obtain l where l: "route_lock s = Some (SUCCESS, l)" "routes l = routes s"
    using assms(1) by (auto simp: route_add_def bind_Some_iff dest: route_lock_routes)
  obtain st1 free where scan: "route_add_scan ifa gw dst sn (routes s) 0 (- 1) = (st1, free)"
    by fastforce
  have st1: "st1 = (if known (routes s) (ifa, gw, dst, sn) then ROUTE_EXIST else SUCCESS)"
    using route_add_scan_status [of ifa gw dst sn "routes s" 0 "- 1"] scan by simp
  have free: "if list_all route_valid (routes s) then free = - 1
    else 0 \<le> free \<and> nat free < length (routes s) \<and> \<not> route_valid (routes s ! nat free)"
    if "st1 = SUCCESS"
    using route_add_scan_free [of "- 1" "routes s" "routes s" 0 ifa gw dst sn free] scan that by simp
  have codes: "ROUTE_EXIST \<noteq> SUCCESS" "ROUTE_NO_MEM \<noteq> SUCCESS"
    by (simp_all add: ROUTE_EXIST_def ROUTE_NO_MEM_def SUCCESS_def)
  show ?thesis
  proof (cases "known (routes s) (ifa, gw, dst, sn)")
    case True
    then show ?thesis
      using assms(1) l scan st1 codes by (auto simp: route_add_def bind_Some_iff)
  next
    case False
    show ?thesis
    proof (cases "list_all route_valid (routes s)")
      case True
      then show ?thesis
        using assms(1) l scan st1 free codes False by (auto simp: route_add_def bind_Some_iff)
    next
      case invalid: False
      then show ?thesis
        using assms(1) l scan st1 free codes False
        by (intro exI [of _ "l\<lparr>routes := (routes s)[nat free := new]\<rparr>"])
          (auto simp: route_add_def bind_Some_iff new_def)
    qed
  qed
qed

lemma route_remove_table:
  assumes "route_remove e dev gw dst s = Some (st, s')"
  shows "\<exists>m. route_unlock e m = Some s' \<and> st = SUCCESS \<and>
    routes m = map (\<lambda>r. if route_dropped dev gw dst r then r\<lparr>rt_flags := 0\<rparr> else r) (routes s)"
proof -
  let ?f = "\<lambda>r. if route_dropped dev gw dst r then r\<lparr>rt_flags := 0\<rparr> else r"
  obtain l where l: "route_lock s = Some (SUCCESS, l)" "routes l = routes s"
    using assms(1) by (auto simp: route_remove_def bind_Some_iff dest: route_lock_routes)
  then show ?thesis
    using assms by (intro exI [of _ "l\<lparr>routes := map ?f (routes s)\<rparr>"])
      (auto simp: route_remove_def bind_Some_iff)
qed

lemma routes_ok_remove:
  assumes "routes_ok rs"
  shows "routes_ok (map (\<lambda>r. if route_dropped dev gw dst r then r\<lparr>rt_flags := 0\<rparr> else r) rs)"
  using assms by (rule routes_ok_map) (auto simp: clash_def route_valid_def route_key_def split: if_splits)

lemma routes_ok_add:
  assumes "routes_ok rs" and "\<not> known rs (route_key r)"
  shows "routes_ok (rs[k := r])"
  using assms(1) by (rule routes_ok_update) (use assms(2) in \<open>auto simp: clash_def known_def list_ex_iff\<close>)

section \<open>The search\<close>

definition prefix_mask :: "u32 \<Rightarrow> bool" where
  "prefix_mask m \<longleftrightarrow> (\<exists>k. m = NOT (mask k))"

lemma prefix_masks_nested:
  assumes "prefix_mask m" "prefix_mask m'" "m \<le> m'"
  shows "d AND m \<le> d AND m'"
proof -
  obtain k k' where k: "m = NOT (mask k)" "m' = NOT (mask k')"
    using assms by (auto simp: prefix_mask_def)
  have sub: "NOT (mask j) AND NOT (mask i) = (NOT (mask j) :: u32)" if "i \<le> j" for i j
    using that by (intro bit_word_eqI) (auto simp: bit_simps)
  have "m AND m' = m"
  proof (cases "k' \<le> k")
    case True
    then show ?thesis
      using sub k by simp
  next
    case False
    then have "m' AND m = m'"
      using sub k by simp
    then have "m' \<le> m"
      by (metis word_and_le1)
    then show ?thesis
      using assms(3) by simp
  qed
  then have "d AND m = (d AND m') AND m"
    by (metis and.assoc and.commute)
  then show ?thesis
    by (metis word_and_le2)
qed

text \<open>The routes a search for \<open>dst\<close> competes among, and the default ones.\<close>

definition candidate :: "nat option \<Rightarrow> u32 \<Rightarrow> NET_ROUTE \<Rightarrow> bool" where
  "candidate dev dst r \<longleftrightarrow> route_valid r \<and> device_fits dev r \<and>
     dst AND rt_subnet r = rt_destination r AND rt_subnet r \<and> dst AND rt_subnet r \<noteq> 0"

definition default_for :: "nat option \<Rightarrow> NET_ROUTE \<Rightarrow> bool" where
  "default_for dev r \<longleftrightarrow> route_valid r \<and> device_fits dev r \<and> rt_subnet r = 0"

text \<open>The state of the search after the first \<open>n\<close> entries of the table.\<close>

definition searched :: "nat option \<Rightarrow> u32 \<Rightarrow> NET_ROUTE list \<Rightarrow> nat \<Rightarrow> int \<Rightarrow> int \<Rightarrow> u32 \<Rightarrow> bool" where
  "searched dev dst tbl n route default_route match \<longleftrightarrow>
     (if list_ex (candidate dev dst) (take n tbl)
      then 0 \<le> route \<and> nat route < n \<and> candidate dev dst (tbl ! nat route) \<and>
        match = dst AND rt_subnet (tbl ! nat route) \<and>
        list_all (\<lambda>q. candidate dev dst q \<longrightarrow> rt_subnet q \<le> rt_subnet (tbl ! nat route)) (take n tbl)
      else route = - 1 \<and> match = 0) \<and>
     (if list_ex (default_for dev) (take n tbl)
      then 0 \<le> default_route \<and> nat default_route < n \<and> default_for dev (tbl ! nat default_route)
      else default_route = - 1)"

lemma searched_skip:
  assumes "n < length tbl" "\<not> candidate dev dst (tbl ! n)" "\<not> default_for dev (tbl ! n)"
    and "searched dev dst tbl n route default_route match"
  shows "searched dev dst tbl (Suc n) route default_route match"
  using assms by (auto simp: searched_def take_Suc_conv_app_nth split: if_splits)

lemma searched_default:
  assumes "n < length tbl" "default_for dev (tbl ! n)"
    and "searched dev dst tbl n route default_route match"
  shows "searched dev dst tbl (Suc n) route (int n) match"
  using assms by (auto simp: searched_def take_Suc_conv_app_nth candidate_def default_for_def split: if_splits)

lemma searched_candidate:
  fixes tbl :: "NET_ROUTE list" and n :: nat and dst :: u32
  assumes n: "n < length tbl" "candidate dev dst (tbl ! n)"
    and masks: "list_all (\<lambda>r. route_valid r \<longrightarrow> prefix_mask (rt_subnet r)) tbl"
    and s: "searched dev dst tbl n route default_route match"
  defines "this_match \<equiv> dst AND rt_subnet (tbl ! n)"
  shows "this_match > match \<or> this_match = match \<and> rt_subnet (tbl ! n) > rt_subnet (tbl ! nat route)
      \<Longrightarrow> searched dev dst tbl (Suc n) (int n) default_route this_match"
    and "\<not> (this_match > match \<or> this_match = match \<and> rt_subnet (tbl ! n) > rt_subnet (tbl ! nat route))
      \<Longrightarrow> searched dev dst tbl (Suc n) route default_route match"
proof -
  have nd: "\<not> default_for dev (tbl ! n)"
    using n by (auto simp: candidate_def default_for_def)
  have mask: "candidate dev dst (tbl ! i) \<Longrightarrow> i < length tbl \<Longrightarrow> prefix_mask (rt_subnet (tbl ! i))" for i
    using masks by (auto simp: list_all_length candidate_def)
  have old: "list_ex (candidate dev dst) (take n tbl) \<Longrightarrow>
      candidate dev dst (tbl ! nat route) \<and> nat route < length tbl \<and> match = dst AND rt_subnet (tbl ! nat route)"
    using s n(1) by (auto simp: searched_def)
  have grows: "rt_subnet (tbl ! nat route) \<le> rt_subnet (tbl ! n)"
    if "list_ex (candidate dev dst) (take n tbl)" "this_match > match"
  proof (rule ccontr)
    assume "\<not> ?thesis"
    then have "this_match \<le> match"
      using old [OF that(1)] mask n prefix_masks_nested by (simp add: this_match_def)
    then show False
      using that(2) by simp
  qed
  have shrinks: "rt_subnet (tbl ! n) \<le> rt_subnet (tbl ! nat route)"
    if "list_ex (candidate dev dst) (take n tbl)" "\<not> this_match > match" "this_match \<noteq> match"
  proof (rule ccontr)
    assume "\<not> ?thesis"
    then have "match \<le> this_match"
      using old [OF that(1)] mask n prefix_masks_nested by (simp add: this_match_def)
    then show False
      using that(2,3) by simp
  qed
  show "searched dev dst tbl (Suc n) (int n) default_route this_match"
    if "this_match > match \<or> this_match = match \<and> rt_subnet (tbl ! n) > rt_subnet (tbl ! nat route)"
    using s n nd that grows
    by (auto simp: searched_def take_Suc_conv_app_nth this_match_def list_all_iff list_ex_iff split: if_splits)
  show "searched dev dst tbl (Suc n) route default_route match"
    if "\<not> (this_match > match \<or> this_match = match \<and> rt_subnet (tbl ! n) > rt_subnet (tbl ! nat route))"
  proof -
    have "list_ex (candidate dev dst) (take n tbl)"
    proof (rule ccontr)
      assume "\<not> ?thesis"
      then have "match = 0"
        using s by (simp add: searched_def)
      moreover have "this_match \<noteq> 0"
        using n(2) unfolding this_match_def candidate_def by blast
      ultimately show False
        using that by (simp add: word_gt_0)
    qed
    then show ?thesis
      using s n nd that shrinks
      by (auto simp: searched_def take_Suc_conv_app_nth list_all_iff split: if_splits)
  qed
qed

lemma route_scan_spec:
  assumes dst: "dst \<noteq> IPV4_ADDR_BCAST" and ifa: "iface_unspec ifa"
    and masks: "list_all (\<lambda>r. route_valid r \<longrightarrow> prefix_mask (rt_subnet r)) tbl"
    and "rs = drop n tbl" "n \<le> length tbl" and "searched dev dst tbl n route default_route match"
  shows "\<exists>route' default_route' match'.
    route_scan dev ifa dst tbl rs (int n) route default_route match = Some (route', default_route')
    \<and> searched dev dst tbl (length tbl) route' default_route' match'"
  using assms(4-)
proof (induction rs arbitrary: n route default_route match)
  case Nil
  then show ?case
    by auto
next
  case (Cons r rs)
  have n: "n < length tbl"
    using Cons.prems(1) by (metis drop_eq_Nil list.distinct(1) not_less)
  have r: "tbl ! n = r" and rs: "rs = drop (Suc n) tbl"
    using Cons.prems(1) n by (metis Cons_nth_drop_Suc list.inject)+
  note IH = Cons.IH [OF rs Suc_leI [OF n]]
  have idx: "int n + 1 = int (Suc n)"
    by simp
  have nobc: "\<not> bcast_fits dev ifa dst r"
    using dst by (simp add: bcast_fits_def)
  consider (skip) "\<not> route_valid r \<or> \<not> default_fits dev ifa dst r \<and>
        \<not> (subnet_fits dev ifa dst r \<and> dst AND rt_subnet r \<noteq> 0)"
    | (default) "route_valid r" "default_fits dev ifa dst r"
    | (cand) "route_valid r" "\<not> default_fits dev ifa dst r" "subnet_fits dev ifa dst r"
        "dst AND rt_subnet r \<noteq> 0"
    by blast
  then show ?case
  proof cases
    case skip
    then have "searched dev dst tbl (Suc n) route default_route match"
      using searched_skip [OF n _ _ Cons.prems(3)] r dst ifa
      by (auto simp: candidate_def default_for_def default_fits_def subnet_fits_def)
    from IH [OF this] show ?thesis
      using skip nobc idx by (auto simp: Let_def add.commute)
  next
    case default
    then have "searched dev dst tbl (Suc n) route (int n) match"
      using searched_default [OF n _ Cons.prems(3)] r
      by (auto simp: default_for_def default_fits_def)
    from IH [OF this] show ?thesis
      using default nobc idx by (simp add: add.commute)
  next
    case cand
    let ?m = "dst AND rt_subnet r"
    have c: "candidate dev dst (tbl ! n)"
      using cand r by (simp add: candidate_def subnet_fits_def)
    note step = searched_candidate [OF n c masks Cons.prems(3), unfolded r]
    have tie: "0 \<le> route \<and> nat route < length tbl" if "?m = match"
      using Cons.prems(3) n that cand(4) by (auto simp: searched_def split: if_splits)
    show ?thesis
    proof (cases "?m > match \<or> ?m = match \<and> rt_subnet r > rt_subnet (tbl ! nat route)")
      case True
      from IH [OF step(1) [OF True]] show ?thesis
        using cand nobc idx tie True by (auto simp: Let_def add.commute)
    next
      case False
      from IH [OF step(2) [OF False]] show ?thesis
        using cand nobc idx tie False by (auto simp: Let_def add.commute)
    qed
  qed
qed

section \<open>Properties\<close>

text \<open>A table with two subnets, one inside the other, and a default route.\<close>

definition example_routes :: "unit rstate_scheme" where
  "example_routes =
     kstate.extend (kstate.truncate (example 5 [] 0)) (rstate.fields
       [\<lparr> rt_device = 7, rt_gateway = 0xFFFFFFFF, rt_destination = 0x0A000000, rt_subnet = 0xFF000000,
          rt_interface_address = 0x0A000001, rt_flags = 1 \<rparr>,
        \<lparr> rt_device = 8, rt_gateway = 0x0A000009, rt_destination = 0x0A010000, rt_subnet = 0xFFFF0000,
          rt_interface_address = 0x0A010001, rt_flags = 1 \<rparr>,
        \<lparr> rt_device = 7, rt_gateway = 0x0A0000FE, rt_destination = 0, rt_subnet = 0,
          rt_interface_address = 0x0A000001, rt_flags = 1 \<rparr>,
        \<lparr> rt_device = 0, rt_gateway = 0, rt_destination = 0, rt_subnet = 0,
          rt_interface_address = 0, rt_flags = 0 \<rparr>])"

text \<open>
  The routing table never holds two valid routes with the same interface, gateway,
  destination and subnet: adding and removing routes keep this, as long as the tasks that run
  when the table is unlocked do. A known route is refused with \<open>ROUTE_EXIST\<close>, a new one with
  \<open>ROUTE_NO_MEM\<close> exactly when the table is full.
\<close>

theorem routes_stay_distinct:
  assumes "env_keeps e routes (\<lambda>t t'. routes_ok t \<longrightarrow> routes_ok t')" and "routes_ok (routes s)"
  shows "(route_add e dev ifa gw dst sn fl s = Some (st, s') \<longrightarrow> routes_ok (routes s') \<and>
      st = (if known (routes s) (ifa, gw, dst, sn) then ROUTE_EXIST
            else if list_all route_valid (routes s) then ROUTE_NO_MEM else SUCCESS))
    \<and> (route_remove e dev gw dst s = Some (st, s') \<longrightarrow> routes_ok (routes s') \<and> st = SUCCESS)"
proof (intro conjI impI)
  have unlock: "route_unlock e m = Some s' \<Longrightarrow> routes_ok (routes m) \<Longrightarrow> routes_ok (routes s')" for m
    using scheduler_unlock_keeps [OF assms(1)] by (auto simp: route_unlock_def)
  {
    assume "route_add e dev ifa gw dst sn fl s = Some (st, s')"
    from route_add_table [OF this] show "routes_ok (routes s')" and
        "st = (if known (routes s) (ifa, gw, dst, sn) then ROUTE_EXIST
              else if list_all route_valid (routes s) then ROUTE_NO_MEM else SUCCESS)"
      using assms(2) by (auto simp: route_key_def intro!: unlock routes_ok_add split: if_splits)
  next
    assume "route_remove e dev gw dst s = Some (st, s')"
    from route_remove_table [OF this] show "routes_ok (routes s')" and "st = SUCCESS"
      using assms(2) by (auto intro!: unlock routes_ok_remove)
  }
qed

lemma example_routes_ok: "routes_ok (routes example_routes)"
  by (simp add: example_routes_def routes_ok_def clash_def route_valid_def rstate.defs kstate.defs
    route_key_def)

lemma routes_stay_distinct_witness:
  "routes_ok (routes (snd (the (route_add (\<lambda>_ _. None) 9 0x0A020001 0xFFFFFFFF 0x0A020000 0xFFFF0000 0
     example_routes))))"
proof -
  let ?r = "route_add (\<lambda>_ _. None) 9 0x0A020001 0xFFFFFFFF 0x0A020000 0xFFFF0000 0 example_routes"
  have "env_keeps (\<lambda>_ _. None) routes (\<lambda>t t'. routes_ok t \<longrightarrow> routes_ok t')"
    by (auto simp: env_keeps_def reflp_def transp_def dest: more_routes)
  moreover have "\<not> Option.is_none ?r"
    by code_simp
  then obtain st s' where "?r = Some (st, s')"
    by (cases ?r) auto
  ultimately show ?thesis
    using routes_stay_distinct [OF _ example_routes_ok] by fastforce
qed

text \<open>
  C40. A search for a unicast address that leaves the interface open finds, when the subnets
  are masks of leading ones, a route with the longest mask among the valid routes of the
  wanted device whose subnet holds the address; with none it takes a default route, and with
  no default route either it reports \<open>NET_DST_UNREACHABLE\<close>. The outputs are those of the
  route found.
\<close>

theorem route_get_longest_prefix:
  assumes "route_get e dev dst ifa gw sn s = Some (st, dev', ifa', gw', sn', s')"
    and "dst \<noteq> IPV4_ADDR_BCAST" and "ifa = None \<or> ifa = Some 0"
    and "\<forall>r \<in> set (routes s). route_valid r \<longrightarrow> prefix_mask (rt_subnet r)"
  shows "(\<exists>r \<in> set (routes s). candidate dev dst r \<and> st = SUCCESS \<and>
       (\<forall>q \<in> set (routes s). candidate dev dst q \<longrightarrow> rt_subnet q \<le> rt_subnet r) \<and>
       dev' = device_out dev r \<and> ifa' = iface_out ifa r \<and>
       gw' = map_option (\<lambda>_. if rt_gateway r = IPV4_GATWAY_LL then dst else rt_gateway r) gw \<and>
       sn' = map_option (\<lambda>_. rt_subnet r) sn) \<or>
    (\<not> (\<exists>r \<in> set (routes s). candidate dev dst r) \<and>
     (\<exists>r \<in> set (routes s). default_for dev r \<and> st = SUCCESS \<and>
       dev' = device_out dev r \<and> ifa' = iface_out ifa r \<and>
       gw' = map_option (\<lambda>_. rt_gateway r) gw \<and> sn' = map_option (\<lambda>_. 0) sn)) \<or>
    (\<not> (\<exists>r \<in> set (routes s). candidate dev dst r \<or> default_for dev r) \<and>
     st = NET_DST_UNREACHABLE \<and> dev' = dev \<and> ifa' = ifa \<and> gw' = gw \<and> sn' = sn)"
proof -
  let ?tbl = "routes s"
  obtain l where l: "route_lock s = Some (SUCCESS, l)" "routes l = ?tbl"
    using assms(1) by (auto simp: route_get_def bind_Some_iff dest: route_lock_routes)
  have start: "searched dev dst ?tbl 0 (- 1) (- 1) 0"
    by (simp add: searched_def)
  obtain i j m where scan: "route_scan dev ifa dst ?tbl ?tbl 0 (- 1) (- 1) 0 = Some (i, j)"
    and fin: "searched dev dst ?tbl (length ?tbl) i j m"
    using route_scan_spec [OF assms(2) _ _ _ _ start, of ifa ?tbl] assms(3,4)
    by (auto simp: iface_unspec_def IPV4_ADDR_UNSPEC_def list_all_iff)
  show ?thesis
  proof (cases "list_ex (candidate dev dst) ?tbl")
    case True
    then have i: "0 \<le> i" "nat i < length ?tbl" "candidate dev dst (?tbl ! nat i)"
      "\<forall>q \<in> set ?tbl. candidate dev dst q \<longrightarrow> rt_subnet q \<le> rt_subnet (?tbl ! nat i)"
      using fin by (auto simp: searched_def list_all_iff)
    then show ?thesis
      using assms(1) l scan
      by (intro disjI1 bexI [of _ "?tbl ! nat i"]) (auto simp: route_get_def Let_def bind_Some_iff)
  next
    case no: False
    then have i: "i = - 1"
      using fin by (simp add: searched_def)
    show ?thesis
    proof (cases "list_ex (default_for dev) ?tbl")
      case True
      then have j: "0 \<le> j" "nat j < length ?tbl" "default_for dev (?tbl ! nat j)"
        using fin by (auto simp: searched_def)
      moreover have "\<not> (\<exists>r \<in> set ?tbl. candidate dev dst r)"
        using no by (auto simp: list_ex_iff)
      ultimately show ?thesis
        using assms(1) l scan i
        by (intro disjI2 disjI1 conjI bexI [of _ "?tbl ! nat j"])
          (auto simp: route_get_def Let_def bind_Some_iff default_for_def)
    next
      case False
      then have "j = - 1"
        using fin by (simp add: searched_def)
      then show ?thesis
        using assms(1) l scan i no False
        by (intro disjI2 conjI) (auto simp: route_get_def Let_def bind_Some_iff list_ex_iff)
    qed
  qed
qed

lemma route_get_longest_prefix_witness:
  "\<exists>r \<in> set (routes example_routes). candidate (Some 0) 0x0A010203 r \<and> rt_device r = 8 \<and>
     (\<forall>q \<in> set (routes example_routes). candidate (Some 0) 0x0A010203 q \<longrightarrow> rt_subnet q \<le> rt_subnet r)"
proof -
  let ?g = "route_get (\<lambda>_ _. None) (Some 0) 0x0A010203 (Some 0) (Some 0) (Some 0) example_routes"
  have "map_option (\<lambda>(st, dev, _). dev) ?g = Some (Some 8)"
    by code_simp
  then obtain st ifa gw sn s' where g: "?g = Some (st, Some 8, ifa, gw, sn, s')"
    by (cases ?g) auto
  have "prefix_mask 0xFF000000" "prefix_mask 0xFFFF0000" "prefix_mask 0"
    unfolding prefix_mask_def
    by (intro exI [of _ 24], simp add: mask_eq_decr_exp,
        intro exI [of _ 16], simp add: mask_eq_decr_exp,
        intro exI [of _ 32], simp add: mask_eq_decr_exp)
  then have masks: "\<forall>r \<in> set (routes example_routes). route_valid r \<longrightarrow> prefix_mask (rt_subnet r)"
    by (simp add: example_routes_def rstate.defs kstate.defs)
  have "\<exists>r \<in> set (routes example_routes). candidate (Some 0) 0x0A010203 r"
    by (simp add: example_routes_def rstate.defs kstate.defs candidate_def device_fits_def
      route_valid_def ROUTE_VALID_def)
  with route_get_longest_prefix [OF g _ _ masks] show ?thesis
    by (auto simp: IPV4_ADDR_BCAST_def device_out_def)
qed

end
