(* ===== verification/FsState.thy ===== *)
theory FsState
  imports Guests Semaphore Buffers Sll
begin

text \<open>
  File descriptors: their structures (\<^verbatim>\<open>rtos/fs/fs.h\<close>, \<^verbatim>\<open>rtos/fs/fs_buffer.h\<close>), locks, conditions
  and availability flags (\<^verbatim>\<open>rtos/fs/fs.c\<close>). Descriptors, buffers and buffer lists are named by
  identifiers, like the kernel's objects. \<^verbatim>\<open>fs_buffer.c\<close> relinks buffers by hand beside the
  list routines, so the lists of this part are pointer structures: the \<^verbatim>\<open>next\<close> members of all
  buffers and of all buffer lists are two maps, as in theory \<open>Sll\<close>, and a list is a head and a
  tail pointer. The state extends the kernel state, because a descriptor that gets data or
  space resumes the tasks that wait for it.
\<close>

section \<open>Data\<close>

type_synonym bid = nat \<comment> \<open>a \<^verbatim>\<open>FS_BUFFER\<close>\<close>
type_synonym lid = nat \<comment> \<open>a \<^verbatim>\<open>FS_BUFFER_LIST\<close>\<close>

definition FS_DATA_AVAILABLE :: u16 where "FS_DATA_AVAILABLE = 0x1"
definition FS_SPACE_AVAILABLE :: u16 where "FS_SPACE_AVAILABLE = 0x2"
definition FS_BLOCK :: u16 where "FS_BLOCK = 0x100"
definition FS_BUFFERED :: u16 where "FS_BUFFERED = 0x200"
definition FS_FLUSH_WRITE :: u16 where "FS_FLUSH_WRITE = 0x400"
definition FS_WRITE_NO_BLOCK :: u16 where "FS_WRITE_NO_BLOCK = 0x800"
definition FS_BLOCK_READ :: u32 where "FS_BLOCK_READ = 0x1"
definition FS_BLOCK_WRITE :: u32 where "FS_BLOCK_WRITE = 0x2"

definition FS_BUFFER_FREE :: u32 where "FS_BUFFER_FREE = 1"
definition FS_LIST_FREE :: u32 where "FS_LIST_FREE = 2"
definition FS_BUFFER_RX :: u32 where "FS_BUFFER_RX = 3"
definition FS_BUFFER_TX :: u32 where "FS_BUFFER_TX = 4"
definition FS_INVALID_BUFFER_TYPE :: int where "FS_INVALID_BUFFER_TYPE = - 802"

text \<open>\<open>bl_free\<close> returns a list to a user of it.\<close>

record FS_BUFFER_LIST =
  bl_list :: "bid sll_head"
  bl_total_length :: u32
  bl_fd :: fd
  bl_free :: "fptr option"
  bl_free_data :: addr

text \<open>
  The counters of \<^verbatim>\<open>free_buffers\<close> and \<^verbatim>\<open>free_lists\<close> are members of their own. The arrays a
  descriptor is set up with are None for NULL, else their elements.
\<close>

record FS_BUFFER_DATA =
  free_buffers :: "bid sll_head"
  free_buffers_buffers :: u32
  free_lists :: "lid sll_head"
  free_lists_buffers :: u32
  tx_lists :: "lid sll_head"
  rx_lists :: "lid sll_head"
  buffer_space :: "u8 list option"
  buffers :: "bid list option"
  buffer_lists :: "lid list option"
  threshold_buffers :: u32
  threshold_lists :: u32
  buffer_size :: u32
  num_buffers :: u32
  num_buffer_lists :: u32

record FS_BUFFER_PARAM =
  bp_num :: u32
  bp_type :: u32

record FS =
  fs_name :: "string option"
  fs_open_fun :: "fptr option"
  fs_close_fun :: "fptr option"
  fs_ioctl_fun :: "fptr option"
  fs_read_fun :: "fptr option"
  fs_write_fun :: "fptr option"
  fs_get_lock :: "fptr option"
  fs_release_lock :: "fptr option"
  fs_buffer :: "FS_BUFFER_DATA option"
  fs_timeout :: u32
  fs_flags :: u16
  fs_priority :: u8

text \<open>The memory behind pointers to \<^verbatim>\<open>FS_PARAM\<close> (its flag) and \<^verbatim>\<open>FS_BUFFER_PARAM\<close> is two maps.\<close>

record fsstate = kstate +
  fds :: "fd \<Rightarrow> FS"
  bufs :: "bid \<Rightarrow> FS_BUFFER"
  buf_next :: "bid links"
  list_next :: "lid links"
  blists :: "lid \<Rightarrow> FS_BUFFER_LIST"
  fs_params :: "addr \<Rightarrow> u32"
  buf_params :: "addr \<Rightarrow> FS_BUFFER_PARAM"

text \<open>
  What descriptors call through function pointers: the platform of the kernel, the lock, read
  and write functions of the drivers, and the functions that take a returned buffer list.
\<close>

record 'z fs_platform =
  kernel_platform :: "'z fsstate_ext platform"
  drv_get_lock :: "fptr \<Rightarrow> fd \<Rightarrow> u32 \<Rightarrow> 'z fsstate_scheme \<Rightarrow> (int \<times> 'z fsstate_scheme) option"
  drv_release_lock :: "fptr \<Rightarrow> fd \<Rightarrow> 'z fsstate_scheme \<Rightarrow> 'z fsstate_scheme option"
  return_buffer :: "fptr \<Rightarrow> addr \<Rightarrow> lid \<Rightarrow> 'z fsstate_scheme \<Rightarrow> (bool \<times> 'z fsstate_scheme) option"
  net_condition_tcb :: tid

definition upd_fd :: "fd \<Rightarrow> (FS \<Rightarrow> FS) \<Rightarrow> 'z fsstate_scheme \<Rightarrow> 'z fsstate_scheme" where
  "upd_fd f g s = s\<lparr>fds := (fds s)(f := g (fds s f))\<rparr>"

definition upd_buf :: "bid \<Rightarrow> (FS_BUFFER \<Rightarrow> FS_BUFFER) \<Rightarrow> 'z fsstate_scheme \<Rightarrow> 'z fsstate_scheme" where
  "upd_buf b g s = s\<lparr>bufs := (bufs s)(b := g (bufs s b))\<rparr>"

definition upd_blist ::
    "lid \<Rightarrow> (FS_BUFFER_LIST \<Rightarrow> FS_BUFFER_LIST) \<Rightarrow> 'z fsstate_scheme \<Rightarrow> 'z fsstate_scheme" where
  "upd_blist l g s = s\<lparr>blists := (blists s)(l := g (blists s l))\<rparr>"

text \<open>Updating the buffer data of a descriptor that has some.\<close>

definition upd_data ::
    "fd \<Rightarrow> (FS_BUFFER_DATA \<Rightarrow> FS_BUFFER_DATA) \<Rightarrow> 'z fsstate_scheme \<Rightarrow> 'z fsstate_scheme" where
  "upd_data f g s = upd_fd f (\<lambda>x. x\<lparr>fs_buffer := map_option g (fs_buffer x)\<rparr>) s"

text \<open>The chain of buffers of a list, as the list routines see it, and putting it back.\<close>

definition chain_sll :: "lid \<Rightarrow> 'z fsstate_scheme \<Rightarrow> bid sll" where
  "chain_sll l s = (buf_next s, bl_list (blists s l))"

definition set_chain :: "lid \<Rightarrow> bid sll \<Rightarrow> 'z fsstate_scheme \<Rightarrow> 'z fsstate_scheme" where
  "set_chain l c s = upd_blist l (\<lambda>x. x\<lparr>bl_list := snd c\<rparr>) (s\<lparr>buf_next := fst c\<rparr>)"

text \<open>The same for the queues of a descriptor; \<open>put\<close> stores the new head and tail.\<close>

definition set_buf_queue ::
    "fd \<Rightarrow> (bid sll_head \<Rightarrow> FS_BUFFER_DATA \<Rightarrow> FS_BUFFER_DATA) \<Rightarrow> bid sll \<Rightarrow>
     'z fsstate_scheme \<Rightarrow> 'z fsstate_scheme" where
  "set_buf_queue f put q s = upd_data f (put (snd q)) (s\<lparr>buf_next := fst q\<rparr>)"

definition set_list_queue ::
    "fd \<Rightarrow> (lid sll_head \<Rightarrow> FS_BUFFER_DATA \<Rightarrow> FS_BUFFER_DATA) \<Rightarrow> lid sll \<Rightarrow>
     'z fsstate_scheme \<Rightarrow> 'z fsstate_scheme" where
  "set_list_queue f put q s = upd_data f (put (snd q)) (s\<lparr>list_next := fst q\<rparr>)"

section \<open>Locks\<close>

definition fd_try_get_lock ::
    "'z fs_platform \<Rightarrow> fd \<Rightarrow> u32 \<Rightarrow> 'z fsstate_scheme \<Rightarrow> (int \<times> 'z fsstate_scheme) option" where
  "fd_try_get_lock P f tmo s =
     (case fs_get_lock (fds s f) of
        Some g \<Rightarrow> drv_get_lock P g f tmo s
      | None \<Rightarrow> Some (SUCCESS, s))"

definition fd_get_lock ::
    "'z fs_platform \<Rightarrow> fd \<Rightarrow> 'z fsstate_scheme \<Rightarrow> (int \<times> 'z fsstate_scheme) option" where
  "fd_get_lock P f s = fd_try_get_lock P f MAX_WAIT s"

definition fd_release_lock ::
    "'z fs_platform \<Rightarrow> fd \<Rightarrow> 'z fsstate_scheme \<Rightarrow> 'z fsstate_scheme option" where
  "fd_release_lock P f s =
     (case fs_release_lock (fds s f) of
        Some g \<Rightarrow> drv_release_lock P g f s
      | None \<Rightarrow> Some s)"

text \<open>The callbacks of a descriptor's condition; their pointers are fixed numbers.\<close>

definition fs_condition_lock_ptr :: fptr where "fs_condition_lock_ptr = 2"
definition fs_condition_unlock_ptr :: fptr where "fs_condition_unlock_ptr = 3"
definition fs_do_suspend_ptr :: fptr where "fs_do_suspend_ptr = 4"
definition fs_buffer_do_suspend_ptr :: fptr where "fs_buffer_do_suspend_ptr = 5"

definition fs_condition_lock ::
    "'z fs_platform \<Rightarrow> addr \<Rightarrow> 'z fsstate_scheme \<Rightarrow> 'z fsstate_scheme option" where
  "fs_condition_lock P data s =
     (case data of
        A_fd f \<Rightarrow> do { (st, s) \<leftarrow> fd_get_lock P f s; ASSERT (st \<noteq> SUCCESS); Some s }
      | _ \<Rightarrow> None)"

definition fs_condition_unlock ::
    "'z fs_platform \<Rightarrow> addr \<Rightarrow> 'z fsstate_scheme \<Rightarrow> 'z fsstate_scheme option" where
  "fs_condition_unlock P data s =
     (case data of A_fd f \<Rightarrow> fd_release_lock P f s | _ \<Rightarrow> None)"

section \<open>Conditions of a descriptor\<close>

definition fs_condition_init :: "fd \<Rightarrow> 'z fsstate_scheme \<Rightarrow> 'z fsstate_scheme" where
  "fs_condition_init f s =
     upd_cond (Fs_condition f) (\<lambda>_. zero_condition\<lparr>c_data := A_fd f,
       c_lock := Some fs_condition_lock_ptr, c_unlock := Some fs_condition_unlock_ptr,
       do_suspend := Some fs_do_suspend_ptr\<rparr>) s"

definition fs_condition_get ::
    "fd \<Rightarrow> sid \<Rightarrow> addr \<Rightarrow> u32 \<Rightarrow> 'z fsstate_scheme \<Rightarrow> cid \<times> 'z fsstate_scheme" where
  "fs_condition_get f p param flag s = (
     let s = s\<lparr>fs_params := (fs_params s)(param := flag)\<rparr>;
         s = upd_suspend p (\<lambda>x. x\<lparr>s_param := param, s_priority := fs_priority (fds s f),
               status := SUCCESS\<rparr>) s;
         s = (if fs_timeout (fds s f) \<noteq> MAX_WAIT
              then let (now, s) = current_system_tick s
                   in upd_suspend p (\<lambda>x. x\<lparr>timeout := now + fs_timeout (fds s f)\<rparr>) s
              else upd_suspend p (\<lambda>x. x\<lparr>timeout_enabled := False\<rparr>) s)
     in (Fs_condition f, s))"

definition fs_do_suspend :: "addr \<Rightarrow> addr \<Rightarrow> 'z fsstate_scheme \<Rightarrow> bool" where
  "fs_do_suspend data sdata s =
     (case data of
        A_fd f \<Rightarrow>
          \<not> (fs_params s sdata = FS_BLOCK_READ \<and> fs_flags (fds s f) AND FS_DATA_AVAILABLE \<noteq> 0 \<or>
             fs_params s sdata = FS_BLOCK_WRITE \<and> fs_flags (fds s f) AND FS_SPACE_AVAILABLE \<noteq> 0)
      | _ \<Rightarrow> True)"

text \<open>The callback of a resumption reads the parameters of the waiting tasks in state \<open>s\<close>.\<close>

definition fd_do_resume :: "'z fsstate_scheme \<Rightarrow> u32 \<Rightarrow> addr \<Rightarrow> bool \<times> u32" where
  "fd_do_resume s flag param_suspend = (flag AND fs_params s param_suspend \<noteq> 0, flag)"

definition fd_handle_criteria ::
    "'z fs_platform \<Rightarrow> fd \<Rightarrow> u32 \<Rightarrow> int \<Rightarrow> 'z fsstate_scheme \<Rightarrow> 'z fsstate_scheme option" where
  "fd_handle_criteria P f flag st s =
     resume_condition (kernel_platform P) (Fs_condition f)
       (Some \<lparr>do_resume = Some (fd_do_resume s), r_param = Some flag, r_status = st\<rparr>) True s"

section \<open>Availability\<close>

definition set_flags :: "fd \<Rightarrow> u16 \<Rightarrow> 'z fsstate_scheme \<Rightarrow> 'z fsstate_scheme" where
  "set_flags f fl s = upd_fd f (\<lambda>x. x\<lparr>fs_flags := fs_flags x OR fl\<rparr>) s"

definition fd_data_available ::
    "'z fs_platform \<Rightarrow> fd \<Rightarrow> 'z fsstate_scheme \<Rightarrow> 'z fsstate_scheme option" where
  "fd_data_available P f s =
     fd_handle_criteria P f FS_BLOCK_READ SUCCESS (set_flags f FS_DATA_AVAILABLE s)"

definition fd_data_flushed :: "fd \<Rightarrow> 'z fsstate_scheme \<Rightarrow> 'z fsstate_scheme" where
  "fd_data_flushed f s = upd_fd f (\<lambda>x. x\<lparr>fs_flags := fs_flags x AND NOT FS_DATA_AVAILABLE\<rparr>) s"

definition fd_space_available ::
    "'z fs_platform \<Rightarrow> fd \<Rightarrow> 'z fsstate_scheme \<Rightarrow> 'z fsstate_scheme option" where
  "fd_space_available P f s =
     fd_handle_criteria P f FS_BLOCK_WRITE SUCCESS (set_flags f FS_SPACE_AVAILABLE s)"

definition fd_space_consumed :: "fd \<Rightarrow> 'z fsstate_scheme \<Rightarrow> 'z fsstate_scheme" where
  "fd_space_consumed f s = upd_fd f (\<lambda>x. x\<lparr>fs_flags := fs_flags x AND NOT FS_SPACE_AVAILABLE\<rparr>) s"

end
