(* ===== verification/FsBuffer.thy ===== *)
theory FsBuffer
  imports FsState
begin

text \<open>
  Buffered descriptors: the routines of \<^verbatim>\<open>rtos/fs/fs_buffer.c\<close> on buffer lists and on the
  queues of a descriptor, on top of those on one buffer (theory \<open>Buffers\<close>). \<^verbatim>\<open>FS_BUFFER_DEBUG\<close>
  is off, as by default, and \<^verbatim>\<open>LITTLE_ENDIAN\<close> is set, as by the ports.

  \<^verbatim>\<open>fs_buffer_add\<close> and \<^verbatim>\<open>fs_buffer_get\<close> take and return a \<^verbatim>\<open>void *\<close> that is a buffer when the
  type is \<^verbatim>\<open>FS_BUFFER_FREE\<close> and a buffer list otherwise; each is two definitions here, one for
  buffers and one for lists.
\<close>

section \<open>The condition of the buffers of a descriptor\<close>

definition fs_buffer_condition_init :: "fd \<Rightarrow> 'z fsstate_scheme \<Rightarrow> 'z fsstate_scheme option" where
  "fs_buffer_condition_init f s = do {
     _ \<leftarrow> fs_buffer (fds s f);
     Some (upd_cond (Buf_condition f) (\<lambda>_. zero_condition\<lparr>c_data := A_fd f,
       c_lock := Some fs_condition_lock_ptr, c_unlock := Some fs_condition_unlock_ptr,
       do_suspend := Some fs_buffer_do_suspend_ptr\<rparr>) s) }"

definition fs_buffer_do_suspend :: "addr \<Rightarrow> addr \<Rightarrow> 'z fsstate_scheme \<Rightarrow> bool" where
  "fs_buffer_do_suspend data sdata s =
     (case data of
        A_fd f \<Rightarrow>
          (case fs_buffer (fds s f) of
             Some d \<Rightarrow>
               let param = buf_params s sdata in
               \<not> (bp_type param = FS_BUFFER_FREE \<and> free_buffers_buffers d \<ge> bp_num param \<or>
                  bp_type param = FS_LIST_FREE \<and> free_lists_buffers d \<ge> bp_num param)
           | None \<Rightarrow> True)
      | _ \<Rightarrow> True)"

text \<open>The callback of a resumption reads the parameters of the waiting tasks in state \<open>s\<close>.\<close>

definition fs_buffer_do_resume ::
    "'z fsstate_scheme \<Rightarrow> FS_BUFFER_PARAM \<Rightarrow> addr \<Rightarrow> bool \<times> FS_BUFFER_PARAM" where
  "fs_buffer_do_resume s fs_resume param_suspend =
     (bp_num fs_resume \<ge> bp_num (buf_params s param_suspend), fs_resume)"

definition fs_buffer_condition_get ::
    "fd \<Rightarrow> sid \<Rightarrow> addr \<Rightarrow> u32 \<Rightarrow> u32 \<Rightarrow> 'z fsstate_scheme \<Rightarrow> (cid \<times> 'z fsstate_scheme) option" where
  "fs_buffer_condition_get f p param n type s = do {
     ASSERT (fs_buffer (fds s f) = None);
     let s = s\<lparr>buf_params := (buf_params s)(param := \<lparr>bp_num = n, bp_type = type\<rparr>)\<rparr>;
     let s = upd_suspend p (\<lambda>x. x\<lparr>s_param := param, timeout_enabled := False,
               s_priority := fs_priority (fds s f), status := SUCCESS\<rparr>) s;
     Some (Buf_condition f, s) }"

definition fs_buffer_suspend ::
    "'z fs_platform \<Rightarrow> fd \<Rightarrow> u32 \<Rightarrow> u32 \<Rightarrow> u32 \<Rightarrow> 'z fsstate_scheme \<Rightarrow>
     (int \<times> 'z fsstate_scheme) option" where
  "fs_buffer_suspend P f type n fl s = do {
     ASSERT (current_task s = Some (net_condition_tcb P));
     d \<leftarrow> fs_buffer (fds s f);
     t \<leftarrow> current_task s;
     (c, s) \<leftarrow> fs_buffer_condition_get f (Buf_suspend t) (A_buf_param t)
       ((if fl AND ucast FS_BUFFER_TH \<noteq> 0
         then (if type = FS_BUFFER_FREE then threshold_buffers d else threshold_lists d)
         else 0) + n) type s;
     (st, _, s) \<leftarrow> suspend_condition (kernel_platform P) [c] [Buf_suspend t] None True s;
     Some (st, s) }"

section \<open>Initialisation and queries\<close>

definition fs_buffer_list_init :: "lid \<Rightarrow> fd \<Rightarrow> 'z fsstate_scheme \<Rightarrow> 'z fsstate_scheme" where
  "fs_buffer_list_init l f s =
     upd_blist l (\<lambda>_. \<lparr>bl_list = \<lparr>head = None, tail = None\<rparr>, bl_total_length = 0, bl_fd = f,
         bl_free = None, bl_free_data = NULLP\<rparr>)
       (s\<lparr>list_next := (list_next s)(l := None)\<rparr>)"

definition fs_buffer_list_move :: "lid \<Rightarrow> lid \<Rightarrow> 'z fsstate_scheme \<Rightarrow> 'z fsstate_scheme" where
  "fs_buffer_list_move dst src s = (
     let buffer_fd = bl_fd (blists s dst);
         s = upd_blist dst (\<lambda>_. blists s src)
               (s\<lparr>list_next := (list_next s)(dst := list_next s src)\<rparr>);
         s = upd_blist dst (\<lambda>x. x\<lparr>bl_fd := buffer_fd\<rparr>) s
     in fs_buffer_list_init src (bl_fd (blists s src)) s)"

definition fs_buffer_num_remaining :: "fd \<Rightarrow> u32 \<Rightarrow> 'z fsstate_scheme \<Rightarrow> int option" where
  "fs_buffer_num_remaining f type s = do {
     d \<leftarrow> fs_buffer (fds s f);
     Some (if type = FS_BUFFER_FREE then sint (free_buffers_buffers d)
           else if type = FS_LIST_FREE then sint (free_lists_buffers d)
           else FS_INVALID_BUFFER_TYPE) }"

definition fs_buffer_threshold_locked :: "fd \<Rightarrow> 'z fsstate_scheme \<Rightarrow> bool option" where
  "fs_buffer_threshold_locked f s = do {
     d \<leftarrow> fs_buffer (fds s f);
     Some (free_buffers_buffers d \<le> threshold_buffers d \<or>
           free_lists_buffers d \<le> threshold_lists d) }"

section \<open>Adding buffers\<close>

definition fs_buffer_list_append :: "lid \<Rightarrow> bid \<Rightarrow> u8 \<Rightarrow> 'z fsstate_scheme \<Rightarrow> 'z fsstate_scheme option" where
  "fs_buffer_list_append l b flag s = do {
     c \<leftarrow> (if flag AND FS_BUFFER_HEAD \<noteq> 0 then sll_push (Some b) (chain_sll l s)
           else sll_append (Some b) (chain_sll l s));
     Some (upd_blist l (\<lambda>x. x\<lparr>bl_total_length := bl_total_length x + fb_length (bufs s b)\<rparr>)
       (set_chain l c s)) }"

text \<open>The end of \<^verbatim>\<open>fs_buffer_add\<close>: waking the tasks that wait for what was added.\<close>

definition fs_buffer_add_resume ::
    "'z fs_platform \<Rightarrow> fd \<Rightarrow> u32 \<Rightarrow> 'z fsstate_scheme \<Rightarrow> 'z fsstate_scheme option" where
  "fs_buffer_add_resume P f type s = do {
     d \<leftarrow> fs_buffer (fds s f);
     let param = \<lparr>bp_num = (if type = FS_BUFFER_FREE then free_buffers_buffers d
                            else free_lists_buffers d), bp_type = type\<rparr>;
     resume_condition (kernel_platform P) (Buf_condition f)
       (Some \<lparr>do_resume = Some (fs_buffer_do_resume s), r_param = Some param,
          r_status = SUCCESS\<rparr>) True s }"

text \<open>\<^verbatim>\<open>fs_buffer_add\<close> with the type \<^verbatim>\<open>FS_BUFFER_FREE\<close>.\<close>

definition fs_buffer_add_buffer ::
    "'z fs_platform \<Rightarrow> fd \<Rightarrow> bid \<Rightarrow> u32 \<Rightarrow> 'z fsstate_scheme \<Rightarrow> 'z fsstate_scheme option" where
  "fs_buffer_add_buffer P f b fl s = do {
     d \<leftarrow> fs_buffer (fds s f);
     let s = upd_buf b (\<lambda>x. fs_buffer_init x (fb_data x) (fb_max_length x)) s;
     let s = s\<lparr>buf_next := (buf_next s)(b := None)\<rparr>;
     q \<leftarrow> sll_append (Some b) (buf_next s, free_buffers d);
     let s = set_buf_queue f (\<lambda>h. free_buffers_update (\<lambda>_. h)) q s;
     let s = upd_data f (\<lambda>d. d\<lparr>free_buffers_buffers := free_buffers_buffers d + 1\<rparr>) s;
     s \<leftarrow> (if fl AND ucast FS_BUFFER_ACTIVE \<noteq> 0 then fd_space_available P f s
           else Some (set_flags f FS_SPACE_AVAILABLE s));
     fs_buffer_add_resume P f FS_BUFFER_FREE s }"

text \<open>\<^verbatim>\<open>fs_buffer_list_append_list\<close> with the type \<^verbatim>\<open>FS_BUFFER_FREE\<close>, the only one it is called with.\<close>

partial_function (option) append_list_loop ::
    "'z fs_platform \<Rightarrow> lid \<Rightarrow> u32 \<Rightarrow> 'z fsstate_scheme \<Rightarrow> 'z fsstate_scheme option" where
  "append_list_loop P l fl s =
     (case sll_pop (chain_sll l s) of
        (None, c) \<Rightarrow> Some (set_chain l c s)
      | (Some b, c) \<Rightarrow> do {
          let s = set_chain l c s;
          s \<leftarrow> fs_buffer_add_buffer P (bl_fd (blists s l)) b fl s;
          append_list_loop P l fl s
        })"

definition fs_buffer_list_append_list ::
    "'z fs_platform \<Rightarrow> lid \<Rightarrow> u32 \<Rightarrow> 'z fsstate_scheme \<Rightarrow> 'z fsstate_scheme option" where
  "fs_buffer_list_append_list P l fl s = do {
     s \<leftarrow> append_list_loop P l fl s;
     Some (upd_blist l (\<lambda>x. x\<lparr>bl_total_length := 0\<rparr>) s) }"

text \<open>\<^verbatim>\<open>fs_buffer_add\<close> with the other types; a list with a \<^verbatim>\<open>free\<close> callback may go back to its owner.\<close>

definition fs_buffer_add_list ::
    "'z fs_platform \<Rightarrow> fd \<Rightarrow> lid \<Rightarrow> u32 \<Rightarrow> u32 \<Rightarrow> 'z fsstate_scheme \<Rightarrow> 'z fsstate_scheme option" where
  "fs_buffer_add_list P f l type fl s = do {
     d \<leftarrow> fs_buffer (fds s f);
     (if type = FS_BUFFER_RX then do {
        q \<leftarrow> (if fl AND ucast FS_BUFFER_HEAD \<noteq> 0 then sll_push (Some l) (list_next s, rx_lists d)
              else sll_append (Some l) (list_next s, rx_lists d));
        let s = set_list_queue f (\<lambda>h. rx_lists_update (\<lambda>_. h)) q s;
        (if fl AND ucast FS_BUFFER_ACTIVE \<noteq> 0 then fd_data_available P f s
         else Some (set_flags f FS_DATA_AVAILABLE s))
      }
      else if type = FS_BUFFER_TX then do {
        q \<leftarrow> (if fl AND ucast FS_BUFFER_HEAD \<noteq> 0 then sll_push (Some l) (list_next s, tx_lists d)
              else sll_append (Some l) (list_next s, tx_lists d));
        Some (set_list_queue f (\<lambda>h. tx_lists_update (\<lambda>_. h)) q s)
      }
      else if type = FS_LIST_FREE then do {
        (returned, s) \<leftarrow> (case bl_free (blists s l) of
           Some g \<Rightarrow> return_buffer P g (bl_free_data (blists s l)) l s
         | None \<Rightarrow> Some (False, s));
        (if returned then Some s
         else do {
           s \<leftarrow> fs_buffer_list_append_list P l fl s;
           let s = fs_buffer_list_init l (bl_fd (blists s l)) s;
           d \<leftarrow> fs_buffer (fds s f);
           q \<leftarrow> sll_append (Some l) (list_next s, free_lists d);
           let s = set_list_queue f (\<lambda>h. free_lists_update (\<lambda>_. h)) q s;
           let s = upd_data f (\<lambda>d. d\<lparr>free_lists_buffers := free_lists_buffers d + 1\<rparr>) s;
           fs_buffer_add_resume P f FS_LIST_FREE s
         })
      }
      else Some s) }"

partial_function (option) fs_buffer_add_list_list ::
    "'z fs_platform \<Rightarrow> lid option \<Rightarrow> u32 \<Rightarrow> u32 \<Rightarrow> 'z fsstate_scheme \<Rightarrow> 'z fsstate_scheme option" where
  "fs_buffer_add_list_list P list type fl s =
     (case list of
        None \<Rightarrow> Some s
      | Some l \<Rightarrow> do {
          let next_list = list_next s l;
          s \<leftarrow> fs_buffer_add_list P (bl_fd (blists s l)) l type fl s;
          fs_buffer_add_list_list P next_list type fl s
        })"

declare append_list_loop.simps [code] fs_buffer_add_list_list.simps [code]

text \<open>
  \<^verbatim>\<open>fs_buffer_dataset\<close>: the memory of buffer \<open>i\<close> is the \<open>i\<close>th piece of the buffer space.
\<close>

fun dataset_buffers ::
    "'z fs_platform \<Rightarrow> fd \<Rightarrow> u32 \<Rightarrow> u8 list \<Rightarrow> bid list \<Rightarrow> nat \<Rightarrow> 'z fsstate_scheme \<Rightarrow>
     'z fsstate_scheme option" where
  "dataset_buffers P f len space bs 0 s = Some s"
| "dataset_buffers P f len space [] (Suc n) s = None"
| "dataset_buffers P f len space (b # bs) (Suc n) s = do {
     IN_RANGE (unat len \<le> length space);
     let s = upd_buf b (\<lambda>x. fs_buffer_init x (Some (take (unat len) space)) len) s;
     let s = s\<lparr>buf_next := (buf_next s)(b := None)\<rparr>;
     s \<leftarrow> fs_buffer_add_buffer P f b (ucast FS_BUFFER_ACTIVE) s;
     dataset_buffers P f len (drop (unat len) space) bs n s }"

fun dataset_lists ::
    "'z fs_platform \<Rightarrow> fd \<Rightarrow> lid list \<Rightarrow> nat \<Rightarrow> 'z fsstate_scheme \<Rightarrow> 'z fsstate_scheme option" where
  "dataset_lists P f ls 0 s = Some s"
| "dataset_lists P f [] (Suc n) s = None"
| "dataset_lists P f (l # ls) (Suc n) s = do {
     let s = fs_buffer_list_init l f s;
     s \<leftarrow> fs_buffer_add_list P f l FS_LIST_FREE (ucast FS_BUFFER_ACTIVE) s;
     dataset_lists P f ls n s }"

definition fs_buffer_dataset ::
    "'z fs_platform \<Rightarrow> fd \<Rightarrow> FS_BUFFER_DATA option \<Rightarrow> 'z fsstate_scheme \<Rightarrow>
     'z fsstate_scheme option" where
  "fs_buffer_dataset P f data s = do {
     ASSERT (data = None);
     d \<leftarrow> data;
     ASSERT (buffer_space d = None);
     ASSERT (buffers d = None);
     ASSERT (buffer_lists d = None);
     (st, s) \<leftarrow> fd_get_lock P f s;
     ASSERT (st \<noteq> SUCCESS);
     let s = set_flags f FS_BUFFERED s;
     let s = upd_fd f (\<lambda>x. x\<lparr>fs_buffer := Some d\<rparr>) s;
     s \<leftarrow> fs_buffer_condition_init f s;
     s \<leftarrow> fd_release_lock P f s;
     space \<leftarrow> buffer_space d;
     bs \<leftarrow> buffers d;
     s \<leftarrow> dataset_buffers P f (buffer_size d) space bs (unat (num_buffers d)) s;
     ls \<leftarrow> buffer_lists d;
     dataset_lists P f ls (unat (num_buffer_lists d)) s }"

section \<open>Getting buffers\<close>

text \<open>\<^verbatim>\<open>fs_buffer_get\<close> with the type \<^verbatim>\<open>FS_BUFFER_FREE\<close>.\<close>

definition fs_buffer_get_buffer ::
    "'z fs_platform \<Rightarrow> fd \<Rightarrow> u32 \<Rightarrow> 'z fsstate_scheme \<Rightarrow> (bid option \<times> 'z fsstate_scheme) option" where
  "fs_buffer_get_buffer P f fl s = do {
     d \<leftarrow> fs_buffer (fds s f);
     ASSERT (fl AND ucast FS_BUFFER_INPLACE \<noteq> 0);
     (st, s) \<leftarrow>
       (if fl AND ucast FS_BUFFER_SUSPEND \<noteq> 0 \<and>
           free_buffers_buffers d < (if fl AND ucast FS_BUFFER_TH \<noteq> 0 then threshold_buffers d else 0) + 1
        then fs_buffer_suspend P f FS_BUFFER_FREE 1 fl s
        else Some (SUCCESS, s));
     d \<leftarrow> fs_buffer (fds s f);
     let (buffer, q) = (if st = SUCCESS then sll_pop (buf_next s, free_buffers d)
                        else (None, (buf_next s, free_buffers d)));
     let s = set_buf_queue f (\<lambda>h. free_buffers_update (\<lambda>_. h)) q s;
     let s = (case buffer of
        Some b \<Rightarrow>
          upd_data f (\<lambda>d. d\<lparr>free_buffers_buffers := free_buffers_buffers d - 1\<rparr>)
            (s\<lparr>buf_next := (buf_next s)(b := None)\<rparr>)
      | None \<Rightarrow> s);
     let s = (if head (snd q) = None then fd_space_consumed f s else s);
     Some (buffer, s) }"

text \<open>\<^verbatim>\<open>fs_buffer_get\<close> with the other types.\<close>

definition fs_buffer_get_list ::
    "'z fs_platform \<Rightarrow> fd \<Rightarrow> u32 \<Rightarrow> u32 \<Rightarrow> 'z fsstate_scheme \<Rightarrow> (lid option \<times> 'z fsstate_scheme) option" where
  "fs_buffer_get_list P f type fl s = do {
     d \<leftarrow> fs_buffer (fds s f);
     (if type = FS_BUFFER_RX then
        (if fl AND ucast FS_BUFFER_INPLACE \<noteq> 0 then Some (head (rx_lists d), s)
         else
           let (list, q) = sll_pop (list_next s, rx_lists d);
               s = set_list_queue f (\<lambda>h. rx_lists_update (\<lambda>_. h)) q s;
               s = (if head (snd q) = None then fd_data_flushed f s else s)
           in Some (list, s))
      else if type = FS_BUFFER_TX then
        (if fl AND ucast FS_BUFFER_INPLACE \<noteq> 0 then Some (head (tx_lists d), s)
         else
           let (list, q) = sll_pop (list_next s, tx_lists d)
           in Some (list, set_list_queue f (\<lambda>h. tx_lists_update (\<lambda>_. h)) q s))
      else if type = FS_LIST_FREE then do {
        ASSERT (fl AND ucast FS_BUFFER_INPLACE \<noteq> 0);
        (st, s) \<leftarrow>
          (if fl AND ucast FS_BUFFER_SUSPEND \<noteq> 0 \<and>
              free_lists_buffers d < (if fl AND ucast FS_BUFFER_TH \<noteq> 0 then threshold_lists d else 0) + 1
           then fs_buffer_suspend P f FS_LIST_FREE 1 fl s
           else Some (SUCCESS, s));
        d \<leftarrow> fs_buffer (fds s f);
        let (list, q) = (if st = SUCCESS then sll_pop (list_next s, free_lists d)
                         else (None, (list_next s, free_lists d)));
        let s = set_list_queue f (\<lambda>h. free_lists_update (\<lambda>_. h)) q s;
        let s = (case list of
           Some l \<Rightarrow>
             upd_data f (\<lambda>d. d\<lparr>free_lists_buffers := free_lists_buffers d - 1\<rparr>)
               (s\<lparr>list_next := (list_next s)(l := None)\<rparr>)
         | None \<Rightarrow> s);
        Some (list, s)
      }
      else Some (None, s)) }"

section \<open>Pulling from a list\<close>

text \<open>
  \<open>want\<close> tells whether a destination was given, \<open>out\<close> is what is written to it. With \<open>reverse\<close>
  each piece goes to the end of what is left of the destination, before the pieces already
  there; without it the pieces follow each other.
\<close>

partial_function (option) pull_skip ::
    "u32 \<Rightarrow> bid option \<Rightarrow> 'z fsstate_scheme \<Rightarrow> (u32 \<times> bid option) option" where
  "pull_skip this_offset buffer s =
     (case buffer of
        Some b \<Rightarrow>
          if this_offset > 0 \<and> this_offset > fb_length (bufs s b)
          then pull_skip (this_offset - fb_length (bufs s b)) (buf_next s b) s
          else Some (this_offset, buffer)
      | None \<Rightarrow> Some (this_offset, None))"

partial_function (option) pull_loop ::
    "'z fs_platform \<Rightarrow> lid \<Rightarrow> bool \<Rightarrow> bool \<Rightarrow> u8 \<Rightarrow> u32 \<Rightarrow> u32 \<Rightarrow> bid option \<Rightarrow> u8 list \<Rightarrow>
     'z fsstate_scheme \<Rightarrow> (u8 list \<times> 'z fsstate_scheme) option" where
  "pull_loop P l want reverse fl len this_offset buffer out s =
     (if len > 0 then do {
        let buffer = (if fl AND FS_BUFFER_INPLACE = 0
                      then (if fl AND FS_BUFFER_TAIL \<noteq> 0 then tail (bl_list (blists s l))
                            else head (bl_list (blists s l)))
                      else buffer);
        ASSERT (buffer = None);
        b \<leftarrow> buffer;
        ASSERT (fb_length (bufs s b) = 0);
        let this_size = (if len + this_offset \<ge> fb_length (bufs s b)
                         then fb_length (bufs s b) - this_offset else len);
        (st, x, piece) \<leftarrow> fs_buffer_pull_offset (bufs s b) want this_size this_offset fl;
        let s = upd_buf b (\<lambda>_. x) s;
        ASSERT (st \<noteq> SUCCESS);
        let out = (if reverse then piece @ out else out @ piece);
        s \<leftarrow> (if fb_length (bufs s b) = 0 then do {
                (r, c) \<leftarrow> sll_remove (Some b) (chain_sll l s);
                let s = set_chain l c s;
                ASSERT (r \<noteq> Some b);
                fs_buffer_add_buffer P (bl_fd (blists s l)) b (ucast FS_BUFFER_ACTIVE) s
              }
              else Some s);
        let len = len - this_size;
        let s = (if fl AND FS_BUFFER_INPLACE = 0
                 then upd_blist l (\<lambda>x. x\<lparr>bl_total_length := bl_total_length x - this_size\<rparr>) s else s);
        (if fl AND FS_BUFFER_INPLACE \<noteq> 0
         then pull_loop P l want reverse fl len 0 (buf_next s b) out s
         else pull_loop P l want reverse fl len this_offset (Some b) out s)
      }
      else Some (out, s))"

definition fs_buffer_list_pull_offset ::
    "'z fs_platform \<Rightarrow> lid \<Rightarrow> bool \<Rightarrow> u32 \<Rightarrow> u32 \<Rightarrow> u8 \<Rightarrow> 'z fsstate_scheme \<Rightarrow>
     (int \<times> u8 list \<times> 'z fsstate_scheme) option" where
  "fs_buffer_list_pull_offset P l want len offset fl s = do {
     let reverse = (fl AND FS_BUFFER_PACKED \<noteq> 0);
     ASSERT (fl AND FS_BUFFER_HEAD \<noteq> 0);
     (if bl_total_length (blists s l) \<ge> len + offset
      then do {
        ASSERT (offset \<noteq> 0 \<and> fl AND FS_BUFFER_INPLACE = 0);
        (this_offset, fl, buffer) \<leftarrow>
          (if fl AND FS_BUFFER_INPLACE \<noteq> 0 then do {
             let (this_offset, fl) =
               (if fl AND FS_BUFFER_TAIL \<noteq> 0
                then (bl_total_length (blists s l) - (offset + len), fl AND NOT FS_BUFFER_TAIL)
                else (offset, fl));
             (this_offset, buffer) \<leftarrow> pull_skip this_offset (head (bl_list (blists s l))) s;
             ASSERT (buffer = None);
             Some (this_offset, fl, buffer)
           }
           else Some (offset, fl, None));
        (out, s) \<leftarrow> pull_loop P l want reverse fl len this_offset buffer [] s;
        Some (SUCCESS, out, s)
      }
      else Some (FS_BUFFER_NO_SPACE, [], s)) }"

abbreviation fs_buffer_list_pull ::
    "'z fs_platform \<Rightarrow> lid \<Rightarrow> bool \<Rightarrow> u32 \<Rightarrow> u8 \<Rightarrow> 'z fsstate_scheme \<Rightarrow>
     (int \<times> u8 list \<times> 'z fsstate_scheme) option" where
  "fs_buffer_list_pull P l want len fl s \<equiv> fs_buffer_list_pull_offset P l want len 0 fl s"

declare pull_skip.simps [code] pull_loop.simps [code]

section \<open>Pushing to a list\<close>

text \<open>The division has no defined result when the divisor is 0.\<close>

definition CEIL_DIV :: "u32 \<Rightarrow> u32 \<Rightarrow> u32 option" where
  "CEIL_DIV a b = (if b = 0 then None else Some ((a + b - 1) div b))"

partial_function (option) push_skip ::
    "u32 \<Rightarrow> bid option \<Rightarrow> 'z fsstate_scheme \<Rightarrow> (u32 \<times> bid option) option" where
  "push_skip this_offset buffer s =
     (case buffer of
        Some b \<Rightarrow>
          if this_offset > 0 \<and> this_offset \<ge> fb_length (bufs s b)
          then push_skip (this_offset - fb_length (bufs s b)) (buf_next s b) s
          else Some (this_offset, buffer)
      | None \<Rightarrow> Some (this_offset, None))"

text \<open>The room on the first or last buffer of a list, at most the bytes asked for.\<close>

definition room_on :: "(FS_BUFFER \<Rightarrow> u32) \<Rightarrow> bid option \<Rightarrow> u32 \<Rightarrow> 'z fsstate_scheme \<Rightarrow> u32" where
  "room_on room buffer len s =
     (case buffer of
        Some b \<Rightarrow> if room (bufs s b) > 0
          then (if room (bufs s b) > len then len else room (bufs s b)) else 0
      | None \<Rightarrow> 0)"

text \<open>How many buffers a push has to allocate, and getting them ready.\<close>

definition buffers_for :: "fd \<Rightarrow> u32 \<Rightarrow> 'z fsstate_scheme \<Rightarrow> u32 option" where
  "buffers_for f n s =
     (if n > 0 then do { d \<leftarrow> fs_buffer (fds s f); CEIL_DIV n (buffer_size d) } else Some 0)"

definition push_num_buffers :: "lid \<Rightarrow> u32 \<Rightarrow> u8 \<Rightarrow> 'z fsstate_scheme \<Rightarrow> u32 option" where
  "push_num_buffers l len fl s =
     (if fl AND FS_BUFFER_HEAD \<noteq> 0 then
        (if fl AND FS_BUFFER_UPDATE = 0
         then buffers_for (bl_fd (blists s l))
                (len - room_on FS_BUFFER_SPACE (head (bl_list (blists s l))) len s) s
         else Some 0)
      else buffers_for (bl_fd (blists s l))
             (len - room_on FS_BUFFER_TAIL_ROOM (tail (bl_list (blists s l))) len s) s)"

definition push_prepare ::
    "'z fs_platform \<Rightarrow> lid \<Rightarrow> u32 \<Rightarrow> u8 \<Rightarrow> 'z fsstate_scheme \<Rightarrow> (int \<times> 'z fsstate_scheme) option" where
  "push_prepare P l len fl s = do {
     n \<leftarrow> push_num_buffers l len fl s;
     (if n > 0 then do {
        d \<leftarrow> fs_buffer (fds s (bl_fd (blists s l)));
        (if free_buffers_buffers d < (if fl AND FS_BUFFER_TH \<noteq> 0 then threshold_buffers d else 0) + n
         then (if fl AND FS_BUFFER_SUSPEND \<noteq> 0
               then fs_buffer_suspend P (bl_fd (blists s l)) FS_BUFFER_FREE n (ucast fl) s
               else Some (FS_BUFFER_NO_SPACE, s))
         else Some (SUCCESS, s))
      }
      else Some (SUCCESS, s)) }"

text \<open>
  The buffer the next piece goes to, and how many bytes fit there. The head room of a new first
  buffer is as long as the data on it, that is, it gets none.
\<close>

definition push_select ::
    "'z fs_platform \<Rightarrow> lid \<Rightarrow> u8 \<Rightarrow> u32 \<Rightarrow> u32 \<Rightarrow> bid option \<Rightarrow> 'z fsstate_scheme \<Rightarrow>
     (int \<times> bid option \<times> u32 \<times> 'z fsstate_scheme) option" where
  "push_select P l fl len this_offset buffer s =
     (if fl AND FS_BUFFER_HEAD \<noteq> 0 then
        (if fl AND FS_BUFFER_UPDATE = 0 then do {
           let buffer = head (bl_list (blists s l));
           (buffer, s) \<leftarrow>
             (if (case buffer of None \<Rightarrow> True | Some b \<Rightarrow> FS_BUFFER_SPACE (bufs s b) = 0)
              then do {
                (buffer, s) \<leftarrow> fs_buffer_get_buffer P (bl_fd (blists s l)) (ucast fl) s;
                (case buffer of
                   Some b \<Rightarrow> do {
                     (st, x) \<leftarrow> fs_buffer_add_head (bufs s b) (fb_length (bufs s b));
                     let s = upd_buf b (\<lambda>_. x) s;
                     ASSERT (st \<noteq> SUCCESS);
                     c \<leftarrow> sll_push (Some b) (chain_sll l s);
                     Some (buffer, set_chain l c s)
                   }
                 | None \<Rightarrow> Some (buffer, s))
              }
              else Some (buffer, s));
           (case buffer of
              Some b \<Rightarrow> Some (SUCCESS, buffer,
                if FS_BUFFER_SPACE (bufs s b) > len then len else FS_BUFFER_SPACE (bufs s b), s)
            | None \<Rightarrow> Some (FS_BUFFER_NO_SPACE, buffer, 0, s))
         }
         else do {
           b \<leftarrow> buffer;
           Some (SUCCESS, buffer,
             if len + this_offset > fb_length (bufs s b) then fb_length (bufs s b) - this_offset
             else len, s)
         })
      else do {
        let buffer = tail (bl_list (blists s l));
        ASSERT (fl AND FS_BUFFER_UPDATE \<noteq> 0);
        (buffer, s) \<leftarrow>
          (if (case buffer of None \<Rightarrow> True | Some b \<Rightarrow> FS_BUFFER_TAIL_ROOM (bufs s b) = 0)
           then do {
             (buffer, s) \<leftarrow> fs_buffer_get_buffer P (bl_fd (blists s l)) (ucast fl) s;
             (case buffer of
                Some b \<Rightarrow> do {
                  c \<leftarrow> sll_append (Some b) (chain_sll l s);
                  Some (buffer, set_chain l c s)
                }
              | None \<Rightarrow> Some (buffer, s))
           }
           else Some (buffer, s));
        (case buffer of
           Some b \<Rightarrow> Some (SUCCESS, buffer,
             if FS_BUFFER_TAIL_ROOM (bufs s b) > len then len else FS_BUFFER_TAIL_ROOM (bufs s b), s)
         | None \<Rightarrow> Some (FS_BUFFER_NO_SPACE, buffer, 0, s))
      })"

text \<open>
  \<open>src\<close> is the memory \<open>data\<close> points to. With \<open>reverse\<close> the pieces are taken from the end of
  what is left of it.
\<close>

partial_function (option) push_loop ::
    "'z fs_platform \<Rightarrow> lid \<Rightarrow> bool \<Rightarrow> u8 \<Rightarrow> u8 list \<Rightarrow> u32 \<Rightarrow> u32 \<Rightarrow> bid option \<Rightarrow>
     'z fsstate_scheme \<Rightarrow> (int \<times> 'z fsstate_scheme) option" where
  "push_loop P l reverse fl src len this_offset buffer s =
     (if len > 0 then do {
        (st, buffer, this_size, s) \<leftarrow> push_select P l fl len this_offset buffer s;
        (if st = SUCCESS then do {
           b \<leftarrow> buffer;
           let from_ptr = (if reverse then drop (unat (len - this_size)) src else src);
           (st, x) \<leftarrow> fs_buffer_push_offset (bufs s b) (Some from_ptr) this_size this_offset fl;
           let s = upd_buf b (\<lambda>_. x) s;
           ASSERT (st \<noteq> SUCCESS);
           let s = (if fl AND FS_BUFFER_UPDATE = 0
                    then upd_blist l (\<lambda>x. x\<lparr>bl_total_length := bl_total_length x + this_size\<rparr>) s
                    else s);
           let len = len - this_size;
           let src = (if reverse then src else drop (unat this_size) src);
           (if fl AND FS_BUFFER_UPDATE \<noteq> 0
            then push_loop P l reverse fl src len 0 (buf_next s b) s
            else push_loop P l reverse fl src len this_offset buffer s)
         }
         else Some (st, s))
      }
      else Some (SUCCESS, s))"

text \<open>The source is None for NULL.\<close>

definition fs_buffer_list_push_offset ::
    "'z fs_platform \<Rightarrow> lid \<Rightarrow> u8 list option \<Rightarrow> u32 \<Rightarrow> u8 \<Rightarrow> u8 \<Rightarrow> 'z fsstate_scheme \<Rightarrow>
     (int \<times> 'z fsstate_scheme) option" where
  "fs_buffer_list_push_offset P l data len offset fl s = do {
     let reverse = ((fl AND FS_BUFFER_PACKED \<noteq> 0) \<noteq>
       (fl AND FS_BUFFER_HEAD \<noteq> 0 \<and> fl AND FS_BUFFER_UPDATE = 0 \<and> offset = 0));
     ASSERT (data = None);
     src \<leftarrow> data;
     ASSERT (offset \<noteq> 0 \<and> fl AND FS_BUFFER_UPDATE = 0);
     (st, this_offset, fl, buffer) \<leftarrow>
       (if fl AND FS_BUFFER_UPDATE \<noteq> 0 then do {
          ASSERT (bl_total_length (blists s l) < len + ucast offset);
          let (this_offset, fl) =
            (if fl AND FS_BUFFER_HEAD = 0
             then (bl_total_length (blists s l) - (len + ucast offset), fl OR FS_BUFFER_HEAD)
             else (ucast offset, fl));
          (this_offset, buffer) \<leftarrow> push_skip this_offset (head (bl_list (blists s l))) s;
          Some (if buffer = None then FS_BUFFER_NO_SPACE else SUCCESS, this_offset, fl, buffer)
        }
        else Some (SUCCESS, ucast offset, fl, None));
     (st, s) \<leftarrow> (if st = SUCCESS \<and> len > 0 then push_prepare P l len fl s else Some (st, s));
     let fl = (if st = SUCCESS \<and> len > 0 then fl AND NOT FS_BUFFER_SUSPEND else fl);
     (if st = SUCCESS then push_loop P l reverse fl src len this_offset buffer s
      else Some (st, s)) }"

abbreviation fs_buffer_list_push ::
    "'z fs_platform \<Rightarrow> lid \<Rightarrow> u8 list option \<Rightarrow> u32 \<Rightarrow> u8 \<Rightarrow> 'z fsstate_scheme \<Rightarrow>
     (int \<times> 'z fsstate_scheme) option" where
  "fs_buffer_list_push P l data len fl s \<equiv> fs_buffer_list_push_offset P l data len 0 fl s"

declare push_skip.simps [code] push_loop.simps [code]

text \<open>The interface to the header utility.\<close>

definition fs_buffer_hdr_pull ::
    "'z fs_platform \<Rightarrow> lid \<Rightarrow> bool \<Rightarrow> u32 \<Rightarrow> u16 \<Rightarrow> 'z fsstate_scheme \<Rightarrow>
     (int \<times> u8 list \<times> 'z fsstate_scheme) option" where
  "fs_buffer_hdr_pull P l want len fl s = fs_buffer_list_pull P l want len (ucast fl) s"

definition fs_buffer_hdr_push ::
    "'z fs_platform \<Rightarrow> lid \<Rightarrow> u8 list option \<Rightarrow> u32 \<Rightarrow> u16 \<Rightarrow> 'z fsstate_scheme \<Rightarrow>
     (int \<times> 'z fsstate_scheme) option" where
  "fs_buffer_hdr_push P l data len fl s =
     fs_buffer_list_push P l data len (FS_BUFFER_HEAD OR ucast fl) s"

section \<open>Moving and dividing\<close>

text \<open>Copying goes buffer by buffer; the source may not be empty when the buffers themselves move.\<close>

partial_function (option) copy_loop ::
    "'z fs_platform \<Rightarrow> lid \<Rightarrow> u8 \<Rightarrow> bid option \<Rightarrow> int \<Rightarrow> 'z fsstate_scheme \<Rightarrow>
     (int \<times> 'z fsstate_scheme) option" where
  "copy_loop P dst fl buffer st s =
     (case buffer of
        Some b \<Rightarrow>
          if st = SUCCESS then do {
            (st, s) \<leftarrow> fs_buffer_list_push P dst
              (map_option (drop (unat (fb_off (bufs s b)))) (fb_data (bufs s b)))
              (fb_length (bufs s b)) fl s;
            copy_loop P dst fl (buf_next s b) st s
          }
          else Some (st, s)
      | None \<Rightarrow> Some (st, s))"

declare copy_loop.simps [code]

definition fs_buffer_list_move_data ::
    "'z fs_platform \<Rightarrow> lid \<Rightarrow> lid \<Rightarrow> u8 \<Rightarrow> 'z fsstate_scheme \<Rightarrow> (int \<times> 'z fsstate_scheme) option" where
  "fs_buffer_list_move_data P dst src fl s =
     (if fl AND FS_BUFFER_COPY \<noteq> 0
      then copy_loop P dst fl (head (bl_list (blists s src))) SUCCESS s
      else do {
        s \<leftarrow> (if fl AND FS_BUFFER_HEAD \<noteq> 0 then do {
                t \<leftarrow> tail (bl_list (blists s src));
                let s = s\<lparr>buf_next := (buf_next s)(t := head (bl_list (blists s dst)))\<rparr>;
                Some (upd_blist dst (\<lambda>x. x\<lparr>bl_list := (bl_list x)
                  \<lparr>head := head (bl_list (blists s src))\<rparr>\<rparr>) s)
              }
              else do {
                t \<leftarrow> tail (bl_list (blists s dst));
                let s = s\<lparr>buf_next := (buf_next s)(t := head (bl_list (blists s src)))\<rparr>;
                Some (upd_blist dst (\<lambda>x. x\<lparr>bl_list := (bl_list x)
                  \<lparr>tail := tail (bl_list (blists s src))\<rparr>\<rparr>) s)
              });
        let s = upd_blist dst (\<lambda>x. x\<lparr>bl_total_length :=
                  bl_total_length x + bl_total_length (blists s src)\<rparr>) s;
        let s = upd_blist src (\<lambda>x. x\<lparr>bl_list := \<lparr>head = None, tail = None\<rparr>\<rparr>) s;
        Some (SUCCESS, upd_blist src (\<lambda>x. x\<lparr>bl_total_length := 0\<rparr>) s)
      })"

text \<open>The result is the new buffer. \<^verbatim>\<open>memcpy\<close> reads and writes within the two buffers.\<close>

definition fs_buffer_divide ::
    "'z fs_platform \<Rightarrow> fd \<Rightarrow> bid \<Rightarrow> u32 \<Rightarrow> u32 \<Rightarrow> 'z fsstate_scheme \<Rightarrow>
     (int \<times> bid option \<times> 'z fsstate_scheme) option" where
  "fs_buffer_divide P f b fl data_len s = do {
     ASSERT (data_len \<ge> fb_length (bufs s b));
     (ret_buffer, s) \<leftarrow> fs_buffer_get_buffer P f fl s;
     (case ret_buffer of
        Some r \<Rightarrow> do {
          ASSERT (fb_max_length (bufs s r) < data_len);
          let s = upd_buf r (\<lambda>x. x\<lparr>fb_length := fb_length (bufs s b) - data_len\<rparr>) s;
          let s = upd_buf b (\<lambda>x. x\<lparr>fb_length := data_len\<rparr>) s;
          bs \<leftarrow> mem_read (bufs s b) (fb_off (bufs s b) + data_len) (fb_length (bufs s r));
          x \<leftarrow> mem_write (bufs s r) (fb_off (bufs s r)) bs;
          Some (SUCCESS, Some r, upd_buf r (\<lambda>_. x) s)
        }
      | None \<Rightarrow> Some (FS_BUFFER_NO_SPACE, None, s)) }"

text \<open>The search for the buffer to divide: the buffer, the new head if none is divided, the length.\<close>

partial_function (option) divide_find ::
    "u32 \<Rightarrow> bid option \<Rightarrow> 'z fsstate_scheme \<Rightarrow> (bid option \<times> bid option \<times> u32) option" where
  "divide_find this_len buffer s =
     (case buffer of
        Some b \<Rightarrow>
          if this_len < fb_length (bufs s b) then Some (buffer, None, this_len)
          else (let this_len = this_len - fb_length (bufs s b) in
                if this_len = 0 then Some (buffer, buf_next s b, this_len)
                else divide_find this_len (buf_next s b) s)
      | None \<Rightarrow> Some (None, None, this_len))"

declare divide_find.simps [code]

definition fs_buffer_list_divide ::
    "'z fs_platform \<Rightarrow> lid \<Rightarrow> u32 \<Rightarrow> u32 \<Rightarrow> 'z fsstate_scheme \<Rightarrow> (int \<times> 'z fsstate_scheme) option" where
  "fs_buffer_list_divide P l fl data_len s = do {
     ASSERT (bl_total_length (blists s l) \<le> data_len);
     (buffer, new_buffer, this_len) \<leftarrow> divide_find data_len (head (bl_list (blists s l))) s;
     ASSERT (buffer = None);
     b \<leftarrow> buffer;
     (new_list, s) \<leftarrow> fs_buffer_get_list P (bl_fd (blists s l)) FS_LIST_FREE fl s;
     (case new_list of
        Some m \<Rightarrow> do {
          (new_buffer, s) \<leftarrow>
            (if new_buffer = None then do {
               (st, new_buffer, s) \<leftarrow> fs_buffer_divide P (bl_fd (blists s l)) b fl this_len s;
               ASSERT (st \<noteq> SUCCESS);
               r \<leftarrow> new_buffer;
               Some (new_buffer, s\<lparr>buf_next := (buf_next s)(r := buf_next s b)\<rparr>)
             }
             else Some (new_buffer, s));
          let s = s\<lparr>buf_next := (buf_next s)(b := None)\<rparr>;
          let s = upd_blist m (\<lambda>x. x\<lparr>bl_list := \<lparr>head = new_buffer, tail = tail (bl_list (blists s l))\<rparr>,
                    bl_total_length := bl_total_length (blists s l) - data_len\<rparr>) s;
          let s = upd_blist l (\<lambda>x. x\<lparr>bl_list := (bl_list x)\<lparr>tail := buffer\<rparr>,
                    bl_total_length := data_len\<rparr>) s;
          let s = s\<lparr>list_next := (list_next s)(l := Some m)\<rparr>;
          let s = s\<lparr>list_next := (list_next s)(m := None)\<rparr>;
          Some (SUCCESS, s)
        }
      | None \<Rightarrow> Some (FS_BUFFER_NO_SPACE, s)) }"

end
