(* ===== verification/Unlocked.thy ===== *)
theory Unlocked
  imports SemaphoreSpec
begin

text \<open>
  Locks in the ordinary case: when locking the scheduler and resuming a condition change nothing, and
  what obtaining and releasing a semaphore that nobody else uses do.
\<close>

section \<open>Nobody waits\<close>

text \<open>
  Locking and unlocking the scheduler changes nothing: in an interrupt routine, or in a task
  that may lock once more and for which no missed switch is to be made up.
\<close>

definition lock_neutral :: "'z kstate_scheme \<Rightarrow> bool" where
  "lock_neutral s \<longleftrightarrow>
     (case current_task s of
        None \<Rightarrow> True
      | Some c \<Rightarrow> lock_count (tasks s c) < SCHEDULER_MAX_LOCK \<and>
          (lock_count (tasks s c) \<noteq> 0 \<or> flags (tasks s c) AND TASK_SCHED_DRIFT = 0))"

lemma lock_unlock_neutral:
  assumes "lock_neutral s"
  shows "\<exists>s1. scheduler_lock s = Some s1 \<and> conds s1 = conds s \<and> scheduler_unlock e s1 = Some s"
proof (cases "current_task s")
  case None
  then show ?thesis by (simp add: scheduler_lock_def scheduler_unlock_def)
next
  case (Some c)
  let ?k = "lock_count (tasks s c)"
  have k: "?k < SCHEDULER_MAX_LOCK" "?k \<noteq> 0 \<or> flags (tasks s c) AND TASK_SCHED_DRIFT = 0"
    using assms Some by (simp_all add: lock_neutral_def)
  have "?k + 1 \<noteq> 0"
  proof
    assume "?k + 1 = 0"
    then have "?k = - 1" by (simp add: eq_neg_iff_add_eq_0)
    then show False using k(1) by (simp add: SCHEDULER_MAX_LOCK_def)
  qed
  then show ?thesis
    using Some k by (auto simp: scheduler_lock_def scheduler_unlock_def upd_task_def)
qed

lemma resume_condition_calm:
  assumes "lock_neutral s" and "suspend_list (conds s c) = []"
  shows "resume_condition P c res True s = Some s"
proof -
  obtain s1 where "scheduler_lock s = Some s1" "conds s1 = conds s"
      "scheduler_unlock (env P) s1 = Some s"
    using lock_unlock_neutral [OF assms(1)] by blast
  then show ?thesis
    using assms(2) by (simp add: resume_condition_def)
qed

section \<open>A lock nobody else uses\<close>

text \<open>A semaphore that is free, and a task that can nest two more scheduler locks.\<close>

definition unlocked :: "semid \<Rightarrow> 'z kstate_scheme \<Rightarrow> bool" where
  "unlocked m s \<longleftrightarrow> lock_neutral s \<and>
     (case current_task s of None \<Rightarrow> True | Some c \<Rightarrow> lock_count (tasks s c) + 1 < SCHEDULER_MAX_LOCK) \<and>
     0 < count (sems s m) \<and> count (sems s m) \<le> max_count (sems s m) \<and>
     \<not> interrupt_protected (sems s m) \<and> suspend_list (conds s (Sem_condition m)) = []"

lemma bump_taken: "bump m (taken m ow s) = upd_sem m (\<lambda>x. x\<lparr>owner := None\<rparr>) s"
  by (simp add: bump_def taken_def upd_sem_def)

lemma bump_lock_up: "bump m (lock_up c s) = lock_up c (bump m s)"
  by (simp add: bump_def lock_up_def upd_sem_def upd_task_def)

lemma semaphore_release_taken:
  assumes "unlocked m s"
  shows "semaphore_release P m (taken m (current_task s) s) = Some (upd_sem m (\<lambda>x. x\<lparr>owner := None\<rparr>) s)"
proof -
  let ?t = "taken m (current_task s) s" and ?u = "upd_sem m (\<lambda>x. x\<lparr>owner := None\<rparr>) s"
  let ?res = "Some \<lparr>do_resume = Some semaphore_do_resume, r_param = Some (count (sems s m)), r_status = SUCCESS\<rparr>"
  have nz: "count (sems s m) \<noteq> 0" using assms by (auto simp: unlocked_def)
  then have pos: "0 < unat (count (sems s m))" by (simp add: unat_gt_0)
  have sem: "\<not> max_count (sems s m) \<le> count (sems s m) - 1" "\<not> interrupt_protected (sems s m)"
      "suspend_list (conds s (Sem_condition m)) = []"
    using assms pos unat_minus_one [OF nz]
    by (auto simp: unlocked_def not_le word_less_nat_alt word_le_nat_alt)
  show ?thesis
  proof (cases "current_task s")
    case None
    then have "resume_condition P (Sem_condition m) ?res True ?u = Some ?u"
      using sem by (intro resume_condition_calm) (simp_all add: lock_neutral_def)
    then show ?thesis using None sem bump_taken [of m None s]
      by (simp add: semaphore_release_def scheduler_lock_def scheduler_unlock_def Let_def bump_def)
  next
    case (Some c)
    have lk: "lock_count (tasks s c) + 1 < SCHEDULER_MAX_LOCK" "lock_count (tasks s c) < SCHEDULER_MAX_LOCK"
        "flags (tasks s c) AND TASK_SCHED_DRIFT = 0 \<or> lock_count (tasks s c) \<noteq> 0"
      using assms Some by (auto simp: unlocked_def lock_neutral_def)
    have lock: "scheduler_lock ?t = Some (lock_up c ?t)"
      using Some lk(2) by (simp add: scheduler_lock_def lock_up_def not_le [symmetric])
    have "lock_neutral (lock_up c ?u)"
      using Some lk word_lock_up [OF lk(2)] by (simp add: lock_neutral_def)
    then have "resume_condition P (Sem_condition m) ?res True (lock_up c ?u) = Some (lock_up c ?u)"
      using sem by (intro resume_condition_calm) simp_all
    moreover have "scheduler_unlock (env P) (lock_up c ?u) = Some ?u"
      using Some lk by (intro unlock_lock_up) simp_all
    moreover have "bump m (lock_up c ?t) = lock_up c ?u" by (simp add: bump_lock_up bump_taken)
    ultimately show ?thesis using Some sem lock
      by (simp add: semaphore_release_def Let_def bump_def)
  qed
qed

lemma semaphore_cycle:
  assumes "unlocked m s"
  shows "semaphore_obtain P m w s = Some (SUCCESS, taken m (current_task s) s)"
    and "semaphore_release P m (taken m (current_task s) s) = Some (upd_sem m (\<lambda>x. x\<lparr>owner := None\<rparr>) s)"
  using assms semaphore_obtain_available [of s _ m P w] semaphore_obtain_isr [of s m P w]
  by (cases "current_task s"; auto simp: unlocked_def lock_neutral_def)
    (rule semaphore_release_taken [OF assms])

end
