(* ===== verification/FsFacts.thy ===== *)
theory FsFacts
  imports FsBuffer Unlocked
begin

text \<open>
  Facts the proofs about buffered descriptors share: when resuming a condition changes nothing,
  what a chain and a pool of free buffers are, and what a routine may touch.
\<close>

section \<open>Nobody waits\<close>

text \<open>No task waits for descriptor \<open>f\<close> or for its buffers.\<close>

definition calm :: "fd \<Rightarrow> 'z kstate_scheme \<Rightarrow> bool" where
  "calm f s \<longleftrightarrow> lock_neutral s \<and> suspend_list (conds s (Fs_condition f)) = [] \<and>
     suspend_list (conds s (Buf_condition f)) = []"

section \<open>What a routine may touch\<close>

text \<open>A descriptor but for its pool of free buffers and the space flag.\<close>

definition fd_rest :: "FS \<Rightarrow> FS" where
  "fd_rest x = x\<lparr>fs_flags := fs_flags x AND NOT FS_SPACE_AVAILABLE,
     fs_buffer := map_option (\<lambda>d. d\<lparr>free_buffers := \<lparr>head = None, tail = None\<rparr>,
       free_buffers_buffers := 0\<rparr>) (fs_buffer x)\<rparr>"

definition list_rest :: "FS_BUFFER_LIST \<Rightarrow> FS_BUFFER_LIST" where
  "list_rest x = x\<lparr>bl_list := \<lparr>head = None, tail = None\<rparr>, bl_total_length := 0\<rparr>"

text \<open>
  From \<open>s\<close> to \<open>s'\<close> at most the pool of descriptor \<open>f\<close>, the chains of the lists in \<open>L\<close> and the
  buffers in \<open>A\<close> have changed; the kernel's state is the same.
\<close>

definition touches :: "fd \<Rightarrow> lid set \<Rightarrow> bid set \<Rightarrow> 'z fsstate_scheme \<Rightarrow> 'z fsstate_scheme \<Rightarrow> bool" where
  "touches f L A s s' \<longleftrightarrow>
     kstate.truncate s' = kstate.truncate s \<and>
     fsstate.more s' = fsstate.more s \<and>
     fs_params s' = fs_params s \<and> buf_params s' = buf_params s \<and> list_next s' = list_next s \<and>
     (\<forall>g. g \<noteq> f \<longrightarrow> fds s' g = fds s g) \<and> fd_rest (fds s' f) = fd_rest (fds s f) \<and>
     (\<forall>m. m \<notin> L \<longrightarrow> blists s' m = blists s m) \<and>
     (\<forall>m. list_rest (blists s' m) = list_rest (blists s m)) \<and>
     (\<forall>b. b \<notin> A \<longrightarrow> bufs s' b = bufs s b \<and> buf_next s' b = buf_next s b)"

lemma touches_refl [simp]: "touches f L A s s"
  by (simp add: touches_def)

lemma touchesD:
  assumes "touches f L A s s'"
  shows "b \<notin> A \<Longrightarrow> bufs s' b = bufs s b" "b \<notin> A \<Longrightarrow> buf_next s' b = buf_next s b"
    and "m \<notin> L \<Longrightarrow> blists s' m = blists s m" "g \<noteq> f \<Longrightarrow> fds s' g = fds s g"
    and "list_next s' = list_next s" "kstate.truncate s' = kstate.truncate s"
  using assms by (auto simp: touches_def)

lemma touches_trans:
  "touches f L A s s' \<Longrightarrow> touches f L A s' s'' \<Longrightarrow> touches f L A s s''"
  by (auto simp: touches_def)

lemma touches_mono:
  "touches f L A s s' \<Longrightarrow> L \<subseteq> L' \<Longrightarrow> A \<subseteq> A' \<Longrightarrow> touches f L' A' s s'"
  by (auto simp: touches_def)

lemma truncate_sel:
  assumes "kstate.truncate s' = kstate.truncate s"
  shows "tasks s' = tasks s" "current_task s' = current_task s" "conds s' = conds s"
  using assms by (simp_all add: kstate.truncate_def)

lemma calm_cong: "kstate.truncate s' = kstate.truncate s \<Longrightarrow> calm f s' = calm f s"
  using truncate_sel [of s' s] unfolding calm_def lock_neutral_def by (simp only:)

lemma touches_calm: "touches f L A s s' \<Longrightarrow> calm g s' = calm g s"
  by (rule calm_cong) (simp add: touches_def)

lemma touches_fd: "touches f L A s s' \<Longrightarrow> bl_fd (blists s' m) = bl_fd (blists s m)"
proof -
  assume "touches f L A s s'"
  then have "list_rest (blists s' m) = list_rest (blists s m)" by (simp add: touches_def)
  then have "bl_fd (list_rest (blists s' m)) = bl_fd (list_rest (blists s m))" by simp
  then show ?thesis by (simp add: list_rest_def)
qed

lemma fd_data_available_calm:
  assumes "calm f s"
  shows "fd_data_available P f s = Some (set_flags f FS_DATA_AVAILABLE s)"
proof -
  have "calm f (set_flags f FS_DATA_AVAILABLE s)"
    using assms calm_cong [of "set_flags f FS_DATA_AVAILABLE s" s]
    by (simp add: set_flags_def upd_fd_def kstate.defs)
  then show ?thesis
    by (simp add: fd_data_available_def fd_handle_criteria_def calm_def resume_condition_calm)
qed

section \<open>Chains and pools\<close>

definition sized :: "u32 \<Rightarrow> FS_BUFFER \<Rightarrow> bool" where
  "sized n x \<longleftrightarrow> fb_max_length x = n \<and> (\<exists>mem. fb_data x = Some mem \<and> length mem = unat n)"

definition fresh :: "u32 \<Rightarrow> FS_BUFFER \<Rightarrow> bool" where
  "fresh n x \<longleftrightarrow> sized n x \<and> fb_off x = 0 \<and> fb_length x = 0"

definition filled :: "u32 \<Rightarrow> FS_BUFFER \<Rightarrow> bool" where
  "filled n x \<longleftrightarrow> buffer_ok x \<and> fb_max_length x = n \<and> fb_length x \<noteq> 0"

text \<open>The size of the buffers of a descriptor.\<close>

definition fd_size :: "fd \<Rightarrow> 'z fsstate_scheme \<Rightarrow> u32" where
  "fd_size f s = (case fs_buffer (fds s f) of Some d \<Rightarrow> buffer_size d | None \<Rightarrow> 0)"

text \<open>The sizes a descriptor was set up with.\<close>

definition fd_sizes :: "fd \<Rightarrow> 'z fsstate_scheme \<Rightarrow> (u32 \<times> u32) option" where
  "fd_sizes f s = map_option (\<lambda>d. (buffer_size d, threshold_buffers d)) (fs_buffer (fds s f))"

definition pool_holds :: "fd \<Rightarrow> 'z fsstate_scheme \<Rightarrow> bid list \<Rightarrow> bool" where
  "pool_holds f s xs \<longleftrightarrow>
     (\<exists>d. fs_buffer (fds s f) = Some d \<and> sll_holds (buf_next s, free_buffers d) xs \<and>
        unat (free_buffers_buffers d) = length xs \<and>
        (\<forall>b \<in> set xs. fresh (buffer_size d) (bufs s b)))"

definition list_bytes :: "'z fsstate_scheme \<Rightarrow> bid list \<Rightarrow> u8 list" where
  "list_bytes s bs = concat (map (\<lambda>b. buffer_bytes (bufs s b)) bs)"

definition chain_holds :: "lid \<Rightarrow> 'z fsstate_scheme \<Rightarrow> bid list \<Rightarrow> bool" where
  "chain_holds l s bs \<longleftrightarrow>
     sll_holds (chain_sll l s) bs \<and>
     (\<forall>b \<in> set bs. filled (fd_size (bl_fd (blists s l)) s) (bufs s b)) \<and>
     unat (bl_total_length (blists s l)) = length (list_bytes s bs)"

lemma sized_buffer_ok: "buffer_ok x \<Longrightarrow> sized (fb_max_length x) x"
  by (auto simp: buffer_ok_def sized_def split: option.splits)

lemma fresh_buffer_ok: "fresh n x \<Longrightarrow> buffer_ok x \<and> buffer_bytes x = []"
  by (auto simp: fresh_def sized_def buffer_ok_def buffer_bytes_def)

lemma filled_sized: "filled n x \<Longrightarrow> sized n x"
  using sized_buffer_ok by (auto simp: filled_def)

lemma list_bytes_simps [simp]:
  "list_bytes s [] = []"
  "list_bytes s (b # bs) = buffer_bytes (bufs s b) @ list_bytes s bs"
  "list_bytes s (bs @ cs) = list_bytes s bs @ list_bytes s cs"
  by (simp_all add: list_bytes_def)

lemma list_bytes_cong:
  "(\<And>b. b \<in> set bs \<Longrightarrow> bufs s' b = bufs s b) \<Longrightarrow> list_bytes s' bs = list_bytes s bs"
  by (simp add: list_bytes_def cong: map_cong)

lemma pool_holds_frame:
  assumes "pool_holds f s xs" and "fs_buffer (fds s' f) = fs_buffer (fds s f)"
    and "\<And>x. x \<in> set xs \<Longrightarrow> bufs s' x = bufs s x \<and> buf_next s' x = buf_next s x"
  shows "pool_holds f s' xs"
  using assms sll_holds_frame [of "buf_next s" _ xs "buf_next s'"]
  unfolding pool_holds_def by fastforce

lemma chain_holds_frame:
  assumes "chain_holds l s bs" and "blists s' l = blists s l"
    and "fd_size (bl_fd (blists s l)) s' = fd_size (bl_fd (blists s l)) s"
    and "\<And>x. x \<in> set bs \<Longrightarrow> bufs s' x = bufs s x \<and> buf_next s' x = buf_next s x"
  shows "chain_holds l s' bs"
proof -
  have "list_bytes s' bs = list_bytes s bs" by (rule list_bytes_cong) (simp add: assms(4))
  moreover have "sll_holds (buf_next s, bl_list (blists s l)) bs"
    using assms(1) by (simp add: chain_holds_def chain_sll_def)
  then have "sll_holds (buf_next s', bl_list (blists s l)) bs"
    by (rule sll_holds_frame) (simp add: assms(4))
  moreover have "filled n (bufs s' b) = filled n (bufs s b)" if "b \<in> set bs" for n b
    using assms(4) [OF that] by simp
  ultimately show ?thesis using assms(1) by (simp add: chain_holds_def chain_sll_def assms(2,3))
qed

lemma touches_size: "touches f L A s s' \<Longrightarrow> fd_size g s' = fd_size g s"
proof (cases "g = f")
  case True
  assume "touches f L A s s'"
  then have "fs_buffer (fd_rest (fds s' f)) = fs_buffer (fd_rest (fds s f))" by (simp add: touches_def)
  then have "map_option buffer_size (fs_buffer (fd_rest (fds s' f))) =
      map_option buffer_size (fs_buffer (fd_rest (fds s f)))" by simp
  then show ?thesis using True
    by (auto simp: fd_rest_def fd_size_def option.map_comp comp_def split: option.splits)
qed (simp add: touches_def fd_size_def)

section \<open>Adding a buffer to the pool\<close>

lemma upd_sel [simp]:
  "fds (upd_fd f g s) = (fds s)(f := g (fds s f))"
  "bufs (upd_fd f g s) = bufs s" "buf_next (upd_fd f g s) = buf_next s"
  "blists (upd_fd f g s) = blists s" "list_next (upd_fd f g s) = list_next s"
  "fs_params (upd_fd f g s) = fs_params s" "buf_params (upd_fd f g s) = buf_params s"
  "fsstate.more (upd_fd f g s) = fsstate.more s"
  "kstate.truncate (upd_fd f g s) = kstate.truncate s"
  "fds (upd_buf b x s) = fds s" "bufs (upd_buf b x s) = (bufs s)(b := x (bufs s b))"
  "buf_next (upd_buf b x s) = buf_next s" "blists (upd_buf b x s) = blists s"
  "list_next (upd_buf b x s) = list_next s" "fs_params (upd_buf b x s) = fs_params s"
  "buf_params (upd_buf b x s) = buf_params s" "fsstate.more (upd_buf b x s) = fsstate.more s"
  "kstate.truncate (upd_buf b x s) = kstate.truncate s"
  "fds (upd_blist l y s) = fds s" "bufs (upd_blist l y s) = bufs s"
  "buf_next (upd_blist l y s) = buf_next s"
  "blists (upd_blist l y s) = (blists s)(l := y (blists s l))"
  "list_next (upd_blist l y s) = list_next s" "fs_params (upd_blist l y s) = fs_params s"
  "buf_params (upd_blist l y s) = buf_params s" "fsstate.more (upd_blist l y s) = fsstate.more s"
  "kstate.truncate (upd_blist l y s) = kstate.truncate s"
  by (simp_all add: upd_fd_def upd_buf_def upd_blist_def kstate.truncate_def)

lemma truncate_upd [simp]:
  "kstate.truncate (s\<lparr>buf_next := n\<rparr>) = kstate.truncate s"
  "kstate.truncate (s\<lparr>bufs := b\<rparr>) = kstate.truncate s"
  "kstate.truncate (s\<lparr>fds := g\<rparr>) = kstate.truncate s"
  "kstate.truncate (s\<lparr>blists := y\<rparr>) = kstate.truncate s"
  "kstate.truncate (s\<lparr>list_next := m\<rparr>) = kstate.truncate s"
  by (simp_all add: kstate.truncate_def)

lemma fd_space_available_calm:
  assumes "calm f s"
  shows "fd_space_available P f s = Some (set_flags f FS_SPACE_AVAILABLE s)"
proof -
  have "calm f (set_flags f FS_SPACE_AVAILABLE s)"
    using assms by (subst calm_cong [of _ s]) (simp_all add: set_flags_def)
  then show ?thesis
    by (simp add: fd_space_available_def fd_handle_criteria_def calm_def resume_condition_calm)
qed

lemma set_flag_rest:
  fixes a :: u16
  shows "(a OR FS_SPACE_AVAILABLE) AND NOT FS_SPACE_AVAILABLE = a AND NOT FS_SPACE_AVAILABLE"
    and "(a AND NOT FS_SPACE_AVAILABLE) AND NOT FS_SPACE_AVAILABLE = a AND NOT FS_SPACE_AVAILABLE"
    and "(a OR FS_SPACE_AVAILABLE) AND FS_SPACE_AVAILABLE = FS_SPACE_AVAILABLE"
    and "(a AND NOT FS_SPACE_AVAILABLE) AND FS_SPACE_AVAILABLE = 0"
  by (auto simp: bit_eq_iff bit_simps)

lemma set_flags_sel [simp]:
  "fds (set_flags f g s) = (fds s)(f := (fds s f)\<lparr>fs_flags := fs_flags (fds s f) OR g\<rparr>)"
  "bufs (set_flags f g s) = bufs s" "buf_next (set_flags f g s) = buf_next s"
  "blists (set_flags f g s) = blists s" "list_next (set_flags f g s) = list_next s"
  "fs_params (set_flags f g s) = fs_params s" "buf_params (set_flags f g s) = buf_params s"
  "fsstate.more (set_flags f g s) = fsstate.more s"
  "kstate.truncate (set_flags f g s) = kstate.truncate s"
  by (simp_all add: set_flags_def)

lemma set_buf_queue_sel [simp]:
  "fds (set_buf_queue f put q s) = (fds s)(f := (fds s f)\<lparr>fs_buffer :=
     map_option (put (snd q)) (fs_buffer (fds s f))\<rparr>)"
  "bufs (set_buf_queue f put q s) = bufs s" "buf_next (set_buf_queue f put q s) = fst q"
  "blists (set_buf_queue f put q s) = blists s" "list_next (set_buf_queue f put q s) = list_next s"
  "fs_params (set_buf_queue f put q s) = fs_params s"
  "buf_params (set_buf_queue f put q s) = buf_params s"
  "fsstate.more (set_buf_queue f put q s) = fsstate.more s"
  "kstate.truncate (set_buf_queue f put q s) = kstate.truncate s"
  by (simp_all add: set_buf_queue_def upd_data_def)

lemma set_chain_sel [simp]:
  "fds (set_chain l c s) = fds s" "bufs (set_chain l c s) = bufs s"
  "buf_next (set_chain l c s) = fst c"
  "blists (set_chain l c s) = (blists s)(l := (blists s l)\<lparr>bl_list := snd c\<rparr>)"
  "list_next (set_chain l c s) = list_next s" "fs_params (set_chain l c s) = fs_params s"
  "buf_params (set_chain l c s) = buf_params s" "fsstate.more (set_chain l c s) = fsstate.more s"
  "kstate.truncate (set_chain l c s) = kstate.truncate s"
  by (simp_all add: set_chain_def)

lemma links_changedD: "links_changed_in A s s' \<Longrightarrow> u \<notin> A \<Longrightarrow> fst s' u = fst s u"
  by (simp add: links_changed_in_def)

lemma fresh_init: "sized n x \<Longrightarrow> fresh n (fs_buffer_init x (fb_data x) (fb_max_length x))"
  by (auto simp: sized_def fresh_def fs_buffer_init_def)

text \<open>A buffer that is given back is cleared and becomes the last one of the pool.\<close>

lemma add_buffer_ok:
  assumes calm: "calm f s" and pool: "pool_holds f s xs" and new: "b \<notin> set xs"
    and b: "sized (fd_size f s) (bufs s b)" and small: "length xs + 1 < 2 ^ 32"
  shows "\<exists>s'. fs_buffer_add_buffer P f b fl s = Some s' \<and> pool_holds f s' (xs @ [b]) \<and>
     touches f {} (insert b (set xs)) s s' \<and> (\<forall>c. c \<noteq> b \<longrightarrow> bufs s' c = bufs s c) \<and>
     fs_flags (fds s' f) AND FS_SPACE_AVAILABLE \<noteq> 0"
proof -
  obtain d where d: "fs_buffer (fds s f) = Some d" "sll_holds (buf_next s, free_buffers d) xs"
      "unat (free_buffers_buffers d) = length xs" "\<forall>c \<in> set xs. fresh (buffer_size d) (bufs s c)"
    using pool by (auto simp: pool_holds_def)
  let ?x = "fs_buffer_init (bufs s b) (fb_data (bufs s b)) (fb_max_length (bufs s b))"
  let ?nx = "(buf_next s)(b := None)"
  have "sll_holds (?nx, free_buffers d) xs"
    using d(2) new by (intro sll_holds_frame [OF d(2)]) auto
  from sll_append_holds [OF this new] obtain q where q:
    "sll_append (Some b) (?nx, free_buffers d) = Some q" "sll_holds q (xs @ [b])"
    "links_changed_in (insert b (set xs)) (?nx, free_buffers d) q" by blast
  let ?s1 = "(upd_buf b (\<lambda>_. ?x) s)\<lparr>buf_next := ?nx\<rparr>"
  let ?s2 = "upd_data f (\<lambda>d. d\<lparr>free_buffers_buffers := free_buffers_buffers d + 1\<rparr>)
      (set_buf_queue f (\<lambda>h. free_buffers_update (\<lambda>_. h)) q ?s1)"
  let ?s3 = "set_flags f FS_SPACE_AVAILABLE ?s2"
  have kern: "kstate.truncate ?s2 = kstate.truncate s" by (simp add: upd_data_def)
  have calm2: "calm f ?s2" "calm f ?s3"
    using calm calm_cong [OF kern] calm_cong [of ?s3 s] kern by simp_all
  let ?d' = "d\<lparr>free_buffers := snd q, free_buffers_buffers := free_buffers_buffers d + 1\<rparr>"
  have d': "fs_buffer (fds ?s3 f) = Some ?d'"
    using d(1) by (simp add: upd_data_def)
  have run: "fs_buffer_add_buffer P f b fl s = Some ?s3"
  proof -
    have "upd_buf b (\<lambda>x. fs_buffer_init x (fb_data x) (fb_max_length x)) s = upd_buf b (\<lambda>_. ?x) s"
      by (simp add: upd_buf_def)
    moreover have "resume_condition (kernel_platform P) (Buf_condition f) r True ?s3 = Some ?s3"
      for r :: "FS_BUFFER_PARAM resume option"
      using calm2(2) by (intro resume_condition_calm) (simp_all only: calm_def)
    ultimately show ?thesis
      using q(1) d(1) d' fd_space_available_calm [OF calm2(1), of P]
      by (simp add: fs_buffer_add_buffer_def fs_buffer_add_resume_def Let_def)
  qed
  have "unat (free_buffers_buffers d + 1) = length xs + 1"
    using d(3) small by (simp add: unat_word_ariths)
  moreover have "fresh (buffer_size d) ?x"
    using b d(1) by (intro fresh_init) (simp add: fd_size_def)
  ultimately have "pool_holds f ?s3 (xs @ [b])"
    using d(4) d' q(2) new unfolding pool_holds_def
    by (auto simp: upd_data_def)
  moreover have "touches f {} (insert b (set xs)) s ?s3"
    using d(1) links_changedD [OF q(3)]
    by (simp add: touches_def fd_rest_def upd_data_def set_flag_rest kern)
  moreover have "\<forall>c. c \<noteq> b \<longrightarrow> bufs ?s3 c = bufs s c"
    by (simp add: upd_data_def)
  moreover have "fs_flags (fds ?s3 f) AND FS_SPACE_AVAILABLE \<noteq> 0"
    by (simp add: upd_data_def set_flag_rest) (simp add: FS_SPACE_AVAILABLE_def)
  ultimately show ?thesis using run by blast
qed

section \<open>Taking a buffer from the pool\<close>

lemma get_buffer_ok:
  assumes pool: "pool_holds f s xs" and small: "length xs < 2 ^ 32"
    and fl: "fl AND ucast FS_BUFFER_INPLACE = 0" "fl AND ucast FS_BUFFER_SUSPEND = 0"
  shows "\<exists>s'. fs_buffer_get_buffer P f fl s = Some (fst (seq_pop xs), s') \<and>
     pool_holds f s' (snd (seq_pop xs)) \<and> touches f {} (set xs) s s' \<and> bufs s' = bufs s \<and>
     (\<forall>b. fst (seq_pop xs) = Some b \<longrightarrow> buf_next s' b = None \<and> fresh (fd_size f s') (bufs s' b)) \<and>
     (fs_flags (fds s' f) AND FS_SPACE_AVAILABLE =
       (if snd (seq_pop xs) = [] then 0 else fs_flags (fds s f) AND FS_SPACE_AVAILABLE))"
proof -
  obtain d where d: "fs_buffer (fds s f) = Some d" "sll_holds (buf_next s, free_buffers d) xs"
      "unat (free_buffers_buffers d) = length xs" "\<forall>c \<in> set xs. fresh (buffer_size d) (bufs s c)"
    using pool by (auto simp: pool_holds_def)
  obtain q where q: "sll_pop (buf_next s, free_buffers d) = (fst (seq_pop xs), q)"
      "sll_holds q (snd (seq_pop xs))" "links_changed_in (set xs) (buf_next s, free_buffers d) q"
      "\<forall>x. fst (seq_pop xs) = Some x \<longrightarrow> fst q x = None"
    using sll_pop_holds [OF d(2)] by blast
  have hd: "(head (snd q) = None) \<longleftrightarrow> snd (seq_pop xs) = []"
    using sll_holds_head [OF q(2)] by simp
  show ?thesis
  proof (cases xs)
    case Nil
    let ?s' = "fd_space_consumed f (set_buf_queue f (\<lambda>h. free_buffers_update (\<lambda>_. h)) q s)"
    have run: "fs_buffer_get_buffer P f fl s = Some (None, ?s')"
      using d(1) fl q(1) hd Nil by (simp add: fs_buffer_get_buffer_def)
    have "fst q = buf_next s" using q(1) Nil d(2) by (auto simp: sll_pop_def)
    then show ?thesis
      using run q(2) d Nil hd
      by (simp add: pool_holds_def touches_def fd_rest_def fd_space_consumed_def set_flag_rest)
  next
    case (Cons b ys)
    let ?s1 = "set_buf_queue f (\<lambda>h. free_buffers_update (\<lambda>_. h)) q s"
    let ?s2 = "upd_data f (\<lambda>d. d\<lparr>free_buffers_buffers := free_buffers_buffers d - 1\<rparr>)
        (?s1\<lparr>buf_next := (buf_next ?s1)(b := None)\<rparr>)"
    let ?s' = "if ys = [] then fd_space_consumed f ?s2 else ?s2"
    have run: "fs_buffer_get_buffer P f fl s = Some (Some b, ?s')"
      using d(1) fl q(1) hd Cons by (simp add: fs_buffer_get_buffer_def)
    have "distinct xs" using d(2) by (rule sll_holds_distinct)
    then have b: "b \<notin> set ys" using Cons by simp
    have nx: "buf_next ?s' = fst q" using q(4) Cons by (auto simp: upd_data_def fd_space_consumed_def)
    have "unat (free_buffers_buffers d - 1) = length ys"
      using d(3) Cons by (subst unat_diff_small) simp_all
    then have pool': "pool_holds f ?s' ys"
      using q(2) d Cons nx by (cases ys) (simp_all add: pool_holds_def upd_data_def fd_space_consumed_def)
    have frame: "touches f {} (set xs) s ?s'"
      using d(1) links_changedD [OF q(3)] q(4) Cons
      by (auto simp: touches_def fd_rest_def upd_data_def fd_space_consumed_def set_flag_rest)
    then have "fd_size f ?s' = fd_size f s" by (rule touches_size)
    then have "fresh (fd_size f ?s') (bufs ?s' b)"
      using d Cons by (simp add: fd_size_def upd_data_def fd_space_consumed_def)
    moreover have "buf_next ?s' b = None" using q(4) Cons nx by simp
    moreover have "fs_flags (fds ?s' f) AND FS_SPACE_AVAILABLE =
       (if ys = [] then 0 else fs_flags (fds s f) AND FS_SPACE_AVAILABLE)"
      by (simp add: upd_data_def fd_space_consumed_def set_flag_rest)
    moreover have "bufs ?s' = bufs s" by (simp add: upd_data_def fd_space_consumed_def)
    ultimately show ?thesis using run pool' frame Cons by simp
  qed
qed

end
