(* ===== verification/FsPull.thy ===== *)
theory FsPull
  imports FsFacts
begin

text \<open>
  Pulling data from a buffer list: the bytes that leave the list are the ones that were first
  (or last) on it, and every buffer that runs empty goes back to the pool.
\<close>

text \<open>A well-formed list beside the pool of its descriptor.\<close>

definition linked :: "lid \<Rightarrow> 'z fsstate_scheme \<Rightarrow> bid list \<Rightarrow> bid list \<Rightarrow> bool" where
  "linked l s bs xs \<longleftrightarrow>
     chain_holds l s bs \<and> pool_holds (bl_fd (blists s l)) s xs \<and>
     set bs \<inter> set xs = {} \<and> length bs + length xs < 2 ^ 32"

lemma linkedD:
  assumes "linked l s bs xs"
  shows "sll_holds (chain_sll l s) bs" "distinct bs"
    and "pool_holds (bl_fd (blists s l)) s xs" "set bs \<inter> set xs = {}"
    and "b \<in> set bs \<Longrightarrow> filled (fd_size (bl_fd (blists s l)) s) (bufs s b)"
    and "unat (bl_total_length (blists s l)) = length (list_bytes s bs)"
    and "length bs + length xs < 2 ^ 32"
  using assms sll_holds_distinct [of "chain_sll l s" bs] by (auto simp: linked_def chain_holds_def)

lemma filledD:
  assumes "filled n x"
  shows "buffer_ok x" "fb_max_length x = n" "0 < fb_length x"
    "length (buffer_bytes x) = unat (fb_length x)" "0 < unat (fb_length x)"
  using assms by (auto simp: filled_def word_neq_0_conv unat_gt_0)

lemma pull_max_length:
  assumes "fs_buffer_pull_offset b want n offset fl = Some (st, b', out)"
  shows "fb_max_length b' = fb_max_length b" and "fb_data b' = fb_data b"
  using assms
  by (auto simp: fs_buffer_pull_offset_def bind_Some_iff Let_def split: if_splits prod.splits)

lemma sized_pull:
  "fs_buffer_pull_offset b want n offset fl = Some (st, b', out) \<Longrightarrow> sized m b' = sized m b"
  using pull_max_length [of b want n offset fl st b' out] by (simp add: sized_def)

text \<open>Taking an emptied buffer off the list and giving it back.\<close>

lemma give_back:
  assumes calm: "calm f s" and f: "f = bl_fd (blists s l)"
    and chain: "sll_holds (chain_sll l s) bs" and b: "b \<in> set bs"
    and sized: "sized (fd_size f s) (bufs s b)"
    and pool: "pool_holds f s xs" "set bs \<inter> set xs = {}" "length bs + length xs < 2 ^ 32"
  shows "\<exists>c s'. sll_remove (Some b) (chain_sll l s) = Some (Some b, c) \<and>
     fs_buffer_add_buffer P f b fl (set_chain l c s) = Some s' \<and>
     sll_holds (chain_sll l s') (remove1 b bs) \<and> pool_holds f s' (xs @ [b]) \<and>
     touches f {l} (set bs \<union> set xs) s s' \<and> (\<forall>c. c \<noteq> b \<longrightarrow> bufs s' c = bufs s c) \<and>
     bl_total_length (blists s' l) = bl_total_length (blists s l)"
proof -
  obtain c where c: "sll_remove (Some b) (chain_sll l s) = Some (Some b, c)"
      "sll_holds c (remove1 b bs)" "links_changed_in (set bs) (chain_sll l s) c"
    using sll_remove_holds [OF chain, of b] b by auto
  let ?s = "set_chain l c s"
  have t1: "touches f {l} (set bs \<union> set xs) s ?s"
    using links_changedD [OF c(3)] by (auto simp: touches_def list_rest_def chain_sll_def)
  have "pool_holds f ?s xs"
    using pool(1) by (rule pool_holds_frame)
      (use links_changedD [OF c(3)] pool(2) in \<open>auto simp: chain_sll_def\<close>)
  moreover have "calm f ?s" using calm touches_calm [OF t1] by simp
  moreover have small: "length xs + 1 < 2 ^ 32" using pool(3) b by (cases bs) auto
  moreover have "b \<notin> set xs" using b pool(2) by auto
  moreover have "sized (fd_size f ?s) (bufs ?s b)" using sized touches_size [OF t1] by simp
  ultimately have "\<exists>s'. fs_buffer_add_buffer P f b fl ?s = Some s' \<and> pool_holds f s' (xs @ [b]) \<and>
      touches f {} (insert b (set xs)) ?s s' \<and> (\<forall>c. c \<noteq> b \<longrightarrow> bufs s' c = bufs ?s c) \<and>
      fs_flags (fds s' f) AND FS_SPACE_AVAILABLE \<noteq> 0"
    by (rule_tac add_buffer_ok)
  then obtain s' where s': "fs_buffer_add_buffer P f b fl ?s = Some s'"
      "pool_holds f s' (xs @ [b])" "touches f {} (insert b (set xs)) ?s s'"
      "\<forall>c. c \<noteq> b \<longrightarrow> bufs s' c = bufs ?s c"
    by blast
  have t2: "touches f {l} (set bs \<union> set xs) ?s s'"
    using s'(3) b by (rule_tac touches_mono) auto
  have "blists s' l = blists ?s l" using s'(3) by (simp add: touches_def)
  moreover have "set (remove1 b bs) \<inter> insert b (set xs) = {}"
    using sll_holds_distinct [OF chain] pool(2) set_remove1_subset [of b bs] by auto
  then have nx: "buf_next s' a = fst c a" if "a \<in> set (remove1 b bs)" for a
    using touchesD(2) [OF s'(3), of a] that by auto
  have "sll_holds (fst c, snd c) (remove1 b bs)" using c(2) by simp
  from sll_holds_frame [OF this nx] have "sll_holds (buf_next s', snd c) (remove1 b bs)" .
  ultimately have "sll_holds (chain_sll l s') (remove1 b bs)"
      "bl_total_length (blists s' l) = bl_total_length (blists s l)"
    by (simp_all add: chain_sll_def)
  moreover have "\<forall>c. c \<noteq> b \<longrightarrow> bufs s' c = bufs s c" using s'(4) by simp
  ultimately show ?thesis
    using c(1) s'(1,2) touches_trans [OF t1 t2] by blast
qed

section \<open>From the head\<close>

lemma list_bytes_upd:
  "b \<notin> set bs \<Longrightarrow> list_bytes (upd_buf b x s) bs = list_bytes s bs"
  by (rule list_bytes_cong) auto

lemma chain_sll_upd [simp]:
  "chain_sll l (upd_buf b x s) = chain_sll l s"
  "chain_sll l (upd_blist l (\<lambda>x. x\<lparr>bl_total_length := g x\<rparr>) s) = chain_sll l s"
  by (simp_all add: chain_sll_def)

lemma fd_size_upd [simp]:
  "fd_size f (upd_buf b x s) = fd_size f s" "fd_size f (upd_blist l y s) = fd_size f s"
  by (simp_all add: fd_size_def)

lemma pool_holds_upd [simp]:
  "b \<notin> set xs \<Longrightarrow> pool_holds f (upd_buf b x s) xs = pool_holds f s xs"
  "pool_holds f (upd_blist l y s) xs = pool_holds f s xs"
  by (auto simp: pool_holds_def)

lemma touches_upd:
  "b \<in> A \<Longrightarrow> touches f L A s (upd_buf b x s)"
  "l \<in> L \<Longrightarrow> touches f L A s (upd_blist l (\<lambda>x. x\<lparr>bl_total_length := g x\<rparr>) s)"
  by (auto simp: touches_def list_rest_def)

text \<open>A round in which the buffer keeps some data.\<close>

lemma shrink_buffer:
  assumes lk: "linked l s (as @ b # cs) xs" and n: "n < fb_length (bufs s b)"
    and x: "fs_buffer_pull_offset (bufs s b) want n 0 fl = Some (SUCCESS, x, out)" "buffer_ok x"
      "fb_length x = fb_length (bufs s b) - n"
    and s': "s' = upd_blist l (\<lambda>y. y\<lparr>bl_total_length := bl_total_length y - n\<rparr>) (upd_buf b (\<lambda>_. x) s)"
  shows "linked l s' (as @ b # cs) xs"
    and "touches (bl_fd (blists s l)) {l} (set (as @ b # cs) \<union> set xs) s s'"
    and "list_bytes s' (as @ b # cs) = list_bytes s as @ buffer_bytes x @ list_bytes s cs"
    and "fb_length x \<noteq> 0"
proof -
  note D = linkedD [OF lk]
  have b: "filled (fd_size (bl_fd (blists s l)) s) (bufs s b)" using D(5) by simp
  have le: "unat n \<le> unat (fb_length (bufs s b))" using n by (simp add: word_less_nat_alt)
  show nz: "fb_length x \<noteq> 0" using x(3) n by simp
  have xf: "filled (fd_size (bl_fd (blists s l)) s) x"
    using x(2) nz b pull_max_length(1) [OF x(1)] by (simp add: filled_def)
  have out: "b \<notin> set as" "b \<notin> set cs" "b \<notin> set xs" using D(2,4) by auto
  have "list_bytes s' as = list_bytes s as" "list_bytes s' cs = list_bytes s cs"
    by (rule list_bytes_cong; use out s' in auto)+
  then show bytes: "list_bytes s' (as @ b # cs) = list_bytes s as @ buffer_bytes x @ list_bytes s cs"
    by (simp add: s')
  have "unat (bl_total_length (blists s l) - n) = length (list_bytes s' (as @ b # cs))"
    using D(6) le filledD(4) [OF b] filledD(4) [OF xf] x(3) unfolding bytes
    by (subst unat_diff_small) (simp_all add: unat_diff_small)
  moreover have "filled (fd_size (bl_fd (blists s l)) s) (bufs s' c)" if "c \<in> set (as @ b # cs)" for c
    using D(5) [OF that] xf by (cases "c = b") (simp_all add: s')
  ultimately have "chain_holds l s' (as @ b # cs)"
    using D(1) unfolding chain_holds_def by (simp add: s')
  then show "linked l s' (as @ b # cs) xs" using D out by (simp add: linked_def s')
  show "touches (bl_fd (blists s l)) {l} (set (as @ b # cs) \<union> set xs) s s'"
    unfolding s' by (rule touches_trans [OF touches_upd(1) touches_upd(2)]) simp_all
qed

text \<open>A round that empties the buffer.\<close>

lemma empty_buffer:
  assumes lk: "linked l s (as @ b # cs) xs" and calm: "calm (bl_fd (blists s l)) s"
    and x: "fs_buffer_pull_offset (bufs s b) want (fb_length (bufs s b)) 0 fl = Some (SUCCESS, x, out)"
  shows "\<exists>c s1 s'. sll_remove (Some b) (chain_sll l (upd_buf b (\<lambda>_. x) s)) = Some (Some b, c) \<and>
     fs_buffer_add_buffer P (bl_fd (blists s l)) b (ucast FS_BUFFER_ACTIVE)
       (set_chain l c (upd_buf b (\<lambda>_. x) s)) = Some s1 \<and>
     s' = upd_blist l (\<lambda>y. y\<lparr>bl_total_length := bl_total_length y - fb_length (bufs s b)\<rparr>) s1 \<and>
     linked l s' (as @ cs) (xs @ [b]) \<and>
     touches (bl_fd (blists s l)) {l} (set (as @ b # cs) \<union> set xs) s s' \<and>
     list_bytes s' (as @ cs) = list_bytes s (as @ cs)"
proof -
  note D = linkedD [OF lk]
  let ?f = "bl_fd (blists s l)" and ?bs = "as @ b # cs"
  have b: "filled (fd_size ?f s) (bufs s b)" using D(5) by simp
  let ?s0 = "upd_buf b (\<lambda>_. x) s"
  have t0: "touches ?f {l} (set ?bs \<union> set xs) s ?s0" by (rule touches_upd) simp
  have out: "b \<notin> set as" "b \<notin> set cs" "b \<notin> set xs" using D(2,4) by auto
  then have rem: "remove1 b ?bs = as @ cs" by (simp add: remove1_split)
  have "calm ?f ?s0" using calm touches_calm [OF t0] by simp
  moreover have "sll_holds (chain_sll l ?s0) ?bs" using D(1) by simp
  moreover have "sized (fd_size ?f ?s0) (bufs ?s0 b)"
    using filled_sized [OF b] sized_pull [OF x] by simp
  moreover have "pool_holds ?f ?s0 xs" using D(3) out by simp
  ultimately obtain c s1 where c: "sll_remove (Some b) (chain_sll l ?s0) = Some (Some b, c)"
      "fs_buffer_add_buffer P ?f b (ucast FS_BUFFER_ACTIVE) (set_chain l c ?s0) = Some s1"
      "sll_holds (chain_sll l s1) (as @ cs)" "pool_holds ?f s1 (xs @ [b])"
      "touches ?f {l} (set ?bs \<union> set xs) ?s0 s1" "\<forall>c. c \<noteq> b \<longrightarrow> bufs s1 c = bufs ?s0 c"
      "bl_total_length (blists s1 l) = bl_total_length (blists s l)"
    using give_back [of ?f ?s0 l ?bs b xs P "ucast FS_BUFFER_ACTIVE"] D(4,7) unfolding rem by fastforce
  let ?s' = "upd_blist l (\<lambda>y. y\<lparr>bl_total_length := bl_total_length y - fb_length (bufs s b)\<rparr>) s1"
  have t: "touches ?f {l} (set ?bs \<union> set xs) s ?s'"
    by (rule touches_trans [OF touches_trans [OF t0 c(5)] touches_upd(2)]) simp
  have same: "bufs s1 a = bufs s a" if "a \<in> set (as @ cs)" for a
    using c(6) out that by auto
  then have bytes: "list_bytes ?s' (as @ cs) = list_bytes s (as @ cs)"
    by (intro list_bytes_cong) simp
  have "unat (bl_total_length (blists s l) - fb_length (bufs s b)) = length (list_bytes s (as @ cs))"
    using D(6) filledD(4) [OF b] by (subst unat_diff_small) simp_all
  moreover have "filled (fd_size ?f s) (bufs s1 a)" if "a \<in> set (as @ cs)" for a
    using same [OF that] D(5) [of a] that by auto
  ultimately have "chain_holds l ?s' (as @ cs)"
    using c(3,7) bytes touches_fd [OF t, of l] touches_size [OF t, of ?f]
    by (simp add: chain_holds_def)
  moreover have "pool_holds (bl_fd (blists ?s' l)) ?s' (xs @ [b])"
    using c(4) touches_fd [OF t, of l] by simp
  ultimately have "linked l ?s' (as @ cs) (xs @ [b])"
    using D(4,7) out unfolding linked_def by auto
  then show ?thesis using c(1,2) t bytes by blast
qed

text \<open>What the caller has after bytes \<open>bs\<close> were pulled to \<open>out\<close>.\<close>

definition pulled :: "bool \<Rightarrow> u8 \<Rightarrow> u8 list \<Rightarrow> u8 list \<Rightarrow> u8 list" where
  "pulled want fl bs out =
     (if \<not> want then out else if fl AND FS_BUFFER_PACKED \<noteq> 0 then rev bs @ out else out @ bs)"

lemma pulled_step:
  "pulled want fl cs (if fl AND FS_BUFFER_PACKED \<noteq> 0
     then (if want then packed fl bs else []) @ out else out @ (if want then packed fl bs else [])) =
   pulled want fl (bs @ cs) out"
  by (simp add: pulled_def packed_def)

lemma pulled_Nil [simp]: "pulled want fl [] out = out"
  by (simp add: pulled_def)

text \<open>The end of the list the data is taken from.\<close>

definition pull_end :: "u8 \<Rightarrow> lid \<Rightarrow> 'z fsstate_scheme \<Rightarrow> bid option" where
  "pull_end fl l s = (if fl AND FS_BUFFER_TAIL \<noteq> 0 then tail (bl_list (blists s l))
                      else head (bl_list (blists s l)))"

lemma pull_loop_part:
  assumes "fl AND FS_BUFFER_INPLACE = 0" and "pull_end fl l s = Some b"
    and "0 < n" "n < fb_length (bufs s b)"
    and "fs_buffer_pull_offset (bufs s b) want n 0 fl = Some (SUCCESS, x, p)" "fb_length x \<noteq> 0"
  shows "pull_loop P l want rv fl n 0 buffer out s = Some (if rv then p @ out else out @ p,
     upd_blist l (\<lambda>y. y\<lparr>bl_total_length := bl_total_length y - n\<rparr>) (upd_buf b (\<lambda>_. x) s))"
proof -
  have "0 < fb_length (bufs s b)" using assms(3,4) by simp
  then show ?thesis
    using assms by (subst pull_loop.simps) (simp add: pull_end_def [symmetric] pull_loop.simps
      [of P l want rv fl 0] Let_def not_le [symmetric])
qed

lemma pull_loop_all:
  assumes "fl AND FS_BUFFER_INPLACE = 0" and "pull_end fl l s = Some b"
    and "fb_length (bufs s b) \<noteq> 0" "fb_length (bufs s b) \<le> n"
    and "fs_buffer_pull_offset (bufs s b) want (fb_length (bufs s b)) 0 fl = Some (SUCCESS, x, p)"
      "fb_length x = 0"
    and "sll_remove (Some b) (chain_sll l (upd_buf b (\<lambda>_. x) s)) = Some (Some b, c)"
    and "fs_buffer_add_buffer P (bl_fd (blists s l)) b (ucast FS_BUFFER_ACTIVE)
         (set_chain l c (upd_buf b (\<lambda>_. x) s)) = Some s1"
  shows "pull_loop P l want rv fl n 0 buffer out s =
     pull_loop P l want rv fl (n - fb_length (bufs s b)) 0 (Some b) (if rv then p @ out else out @ p)
       (upd_blist l (\<lambda>y. y\<lparr>bl_total_length := bl_total_length y - fb_length (bufs s b)\<rparr>) s1)"
proof -
  have "0 < n" using assms(3,4) by (metis word_gt_0 word_not_simps(1) not_le order_le_less_trans)
  then show ?thesis
    using assms by (subst pull_loop.simps) (simp add: pull_end_def [symmetric] Let_def)
qed

lemma pull_loop_head:
  assumes "linked l s bs xs" and "calm (bl_fd (blists s l)) s"
    and "unat n \<le> length (list_bytes s bs)"
    and fl: "fl AND FS_BUFFER_INPLACE = 0" "fl AND FS_BUFFER_TAIL = 0"
  shows "\<exists>ds rs s'. bs = ds @ rs \<and>
     pull_loop P l want (fl AND FS_BUFFER_PACKED \<noteq> 0) fl n 0 buffer out s =
       Some (pulled want fl (take (unat n) (list_bytes s bs)) out, s') \<and>
     linked l s' rs (xs @ ds) \<and> touches (bl_fd (blists s l)) {l} (set bs \<union> set xs) s s' \<and>
     list_bytes s' rs = drop (unat n) (list_bytes s bs)"
  using assms(1-3)
proof (induction bs arbitrary: s xs n buffer out)
  case Nil
  then have "n = 0" by (simp add: unat_eq_zero)
  then show ?case using Nil.prems by (simp add: pull_loop.simps)
next
  case (Cons b bs)
  note D = linkedD [OF Cons.prems(1)]
  let ?f = "bl_fd (blists s l)"
  let ?rv = "fl AND FS_BUFFER_PACKED \<noteq> 0"
  have hd: "pull_end fl l s = Some b"
    using sll_holds_head [OF D(1)] fl(2) by (simp add: chain_sll_def pull_end_def)
  have b: "filled (fd_size ?f s) (bufs s b)" using D(5) by simp
  have lb: "length (buffer_bytes (bufs s b)) = unat (fb_length (bufs s b))" using filledD(4) [OF b] .
  consider "n = 0" | "0 < n" "n < fb_length (bufs s b)" | "0 < n" "fb_length (bufs s b) \<le> n"
    by (cases "n = 0"; cases "n < fb_length (bufs s b)") (auto simp: not_less word_gt_0)
  then show ?case
  proof cases
    case 1
    then show ?thesis using Cons.prems
      by (intro exI [of _ "[]"] exI [of _ "b # bs"] exI [of _ s]) (simp add: pull_loop.simps)
  next
    case 2
    have "unat n \<le> unat (fb_length (bufs s b))" using 2(2) by (simp add: word_less_nat_alt)
    then obtain x where x: "fs_buffer_pull_offset (bufs s b) want n 0 fl = Some (SUCCESS, x,
         if want then packed fl (take (unat n) (buffer_bytes (bufs s b))) else [])"
       "buffer_ok x" "buffer_bytes x = drop (unat n) (buffer_bytes (bufs s b))"
       "fb_length x = fb_length (bufs s b) - n"
      using pull_head [OF filledD(1) [OF b] _ fl, of n want] by blast
    define s' where "s' =
      upd_blist l (\<lambda>y. y\<lparr>bl_total_length := bl_total_length y - n\<rparr>) (upd_buf b (\<lambda>_. x) s)"
    have "linked l s ([] @ b # bs) xs" using Cons.prems(1) by simp
    note shrink = shrink_buffer [OF this 2(2) x(1,2,4) s'_def]
    have "take (unat n) (list_bytes s (b # bs)) = take (unat n) (buffer_bytes (bufs s b))"
      using 2(2) lb by (simp add: word_less_nat_alt)
    then have "pull_loop P l want ?rv fl n 0 buffer out s =
        Some (pulled want fl (take (unat n) (list_bytes s (b # bs))) out, s')"
      using pull_loop_part [OF fl(1) hd 2 x(1) shrink(4), of P ?rv buffer out]
      by (simp add: s'_def pulled_def packed_def)
    moreover have "list_bytes s' (b # bs) = drop (unat n) (list_bytes s (b # bs))"
      using shrink(3) x(3) 2(2) lb by (simp add: word_less_nat_alt)
    ultimately show ?thesis using shrink(1,2)
      by (intro exI [of _ "[]"] exI [of _ "b # bs"] exI [of _ s']) simp
  next
    case 3
    let ?k = "fb_length (bufs s b)"
    obtain x0 where x0: "fs_buffer_pull_offset (bufs s b) want ?k 0 fl =
         Some (SUCCESS, x0, if want then packed fl (buffer_bytes (bufs s b)) else [])"
       "fb_length x0 = 0"
      using pull_head [OF filledD(1) [OF b] order_refl fl, of want] lb by auto
    have "linked l s ([] @ b # bs) xs" using Cons.prems(1) by simp
    from empty_buffer [OF this Cons.prems(2) x0(1), of P] x0
    obtain x c s1 s' where x: "fs_buffer_pull_offset (bufs s b) want ?k 0 fl =
         Some (SUCCESS, x, if want then packed fl (buffer_bytes (bufs s b)) else [])"
       "fb_length x = 0"
       "sll_remove (Some b) (chain_sll l (upd_buf b (\<lambda>_. x) s)) = Some (Some b, c)"
       "fs_buffer_add_buffer P ?f b (ucast FS_BUFFER_ACTIVE)
         (set_chain l c (upd_buf b (\<lambda>_. x) s)) = Some s1"
       "s' = upd_blist l (\<lambda>y. y\<lparr>bl_total_length := bl_total_length y - ?k\<rparr>) s1"
       "linked l s' bs (xs @ [b])" "touches ?f {l} (set (b # bs) \<union> set xs) s s'"
       "list_bytes s' bs = list_bytes s bs"
      unfolding append_Nil by blast
    have nk: "unat (n - ?k) = unat n - unat ?k"
      using 3(2) by (intro unat_diff_small) (simp add: word_le_nat_alt)
    let ?out = "if ?rv then (if want then packed fl (buffer_bytes (bufs s b)) else []) @ out
      else out @ (if want then packed fl (buffer_bytes (bufs s b)) else [])"
    have f': "bl_fd (blists s' l) = ?f" using touches_fd [OF x(7)] .
    have "calm (bl_fd (blists s' l)) s'" using Cons.prems(2) touches_calm [OF x(7)] f' by simp
    moreover have "unat (n - ?k) \<le> length (list_bytes s' bs)"
      using Cons.prems(3) nk lb x(8) by simp
    ultimately obtain ds rs s2 where IH: "bs = ds @ rs"
       "pull_loop P l want ?rv fl (n - ?k) 0 (Some b) ?out s' =
         Some (pulled want fl (take (unat (n - ?k)) (list_bytes s' bs)) ?out, s2)"
       "linked l s2 rs ((xs @ [b]) @ ds)"
       "touches (bl_fd (blists s' l)) {l} (set bs \<union> set (xs @ [b])) s' s2"
       "list_bytes s2 rs = drop (unat (n - ?k)) (list_bytes s' bs)"
      using Cons.IH [OF x(6), of "n - ?k" "Some b" ?out] by blast
    have bytes: "take (unat n) (list_bytes s (b # bs)) =
        buffer_bytes (bufs s b) @ take (unat n - unat ?k) (list_bytes s bs)"
      using 3(2) lb by (simp add: word_le_nat_alt)
    have "pull_loop P l want ?rv fl n 0 buffer out s =
        pull_loop P l want ?rv fl (n - ?k) 0 (Some b) ?out s'"
      using pull_loop_all [OF fl(1) hd _ 3(2) x(1-4), of ?rv buffer out] filledD(3) [OF b] x(5)
      by (simp only: word_gt_0 not_False_eq_True)
    also have "\<dots> = Some (pulled want fl (take (unat n) (list_bytes s (b # bs))) out, s2)"
      unfolding IH(2) pulled_step bytes nk x(8) ..
    finally have run: "pull_loop P l want ?rv fl n 0 buffer out s =
        Some (pulled want fl (take (unat n) (list_bytes s (b # bs))) out, s2)" .
    have "touches ?f {l} (set (b # bs) \<union> set xs) s' s2"
      using IH(4) f' by (auto elim: touches_mono)
    then have "touches ?f {l} (set (b # bs) \<union> set xs) s s2" by (rule touches_trans [OF x(7)])
    moreover have "list_bytes s2 rs = drop (unat n) (list_bytes s (b # bs))"
      using IH(5) nk lb x(8) 3(2) by (simp add: word_le_nat_alt)
    ultimately show ?thesis using run IH(1,3)
      by (intro exI [of _ "b # ds"] exI [of _ rs] exI [of _ s2]) simp
  qed
qed

lemma list_pull_head:
  assumes "linked l s bs xs" and "calm (bl_fd (blists s l)) s"
    and "unat n \<le> length (list_bytes s bs)"
    and fl: "fl AND FS_BUFFER_INPLACE = 0" "fl AND FS_BUFFER_TAIL = 0" "fl AND FS_BUFFER_HEAD = 0"
  shows "\<exists>ds rs s'. bs = ds @ rs \<and>
     fs_buffer_list_pull P l want n fl s =
       Some (SUCCESS, if want then packed fl (take (unat n) (list_bytes s bs)) else [], s') \<and>
     linked l s' rs (xs @ ds) \<and> touches (bl_fd (blists s l)) {l} (set bs \<union> set xs) s s' \<and>
     list_bytes s' rs = drop (unat n) (list_bytes s bs)"
proof -
  obtain ds rs s' where a: "bs = ds @ rs"
     "pull_loop P l want (fl AND FS_BUFFER_PACKED \<noteq> 0) fl n 0 None [] s =
       Some (pulled want fl (take (unat n) (list_bytes s bs)) [], s')"
     "linked l s' rs (xs @ ds)" "touches (bl_fd (blists s l)) {l} (set bs \<union> set xs) s s'"
     "list_bytes s' rs = drop (unat n) (list_bytes s bs)"
    using pull_loop_head [OF assms(1-5), of P want None "[]"] by blast
  have "n \<le> bl_total_length (blists s l)"
    using assms(3) linkedD(6) [OF assms(1)] by (simp add: word_le_nat_alt)
  then have "fs_buffer_list_pull P l want n fl s =
      Some (SUCCESS, if want then packed fl (take (unat n) (list_bytes s bs)) else [], s')"
    using a(2) fl by (simp add: fs_buffer_list_pull_offset_def pulled_def packed_def)
  then show ?thesis using a by blast
qed

lemma list_pull_short:
  assumes "linked l s bs xs" and "length (list_bytes s bs) < unat n" and "fl AND FS_BUFFER_HEAD = 0"
  shows "fs_buffer_list_pull P l want n fl s = Some (FS_BUFFER_NO_SPACE, [], s)"
proof -
  have "\<not> n \<le> bl_total_length (blists s l)"
    using assms(2) linkedD(6) [OF assms(1)] by (simp add: word_le_nat_alt)
  then show ?thesis using assms(3) by (simp add: fs_buffer_list_pull_offset_def)
qed

section \<open>From the tail\<close>

lemma pull_loop_tail:
  assumes "linked l s bs xs" and "calm (bl_fd (blists s l)) s"
    and "unat n \<le> length (list_bytes s bs)"
    and fl: "fl AND FS_BUFFER_INPLACE = 0" "fl AND FS_BUFFER_TAIL \<noteq> 0"
  shows "\<exists>ds rs o' s'. bs = rs @ ds \<and>
     pull_loop P l want (fl AND FS_BUFFER_PACKED \<noteq> 0) fl n 0 buffer out s = Some (o', s') \<and>
     (\<not> want \<longrightarrow> o' = out) \<and>
     linked l s' rs (xs @ rev ds) \<and> touches (bl_fd (blists s l)) {l} (set bs \<union> set xs) s s' \<and>
     list_bytes s' rs = take (length (list_bytes s bs) - unat n) (list_bytes s bs)"
  using assms(1-3)
proof (induction bs arbitrary: s xs n buffer out rule: rev_induct)
  case Nil
  then have "n = 0" by (simp add: unat_eq_zero)
  then show ?case using Nil.prems by (simp add: pull_loop.simps)
next
  case (snoc b bs)
  note D = linkedD [OF snoc.prems(1)]
  let ?f = "bl_fd (blists s l)"
  let ?rv = "fl AND FS_BUFFER_PACKED \<noteq> 0"
  have tl: "pull_end fl l s = Some b"
    using D(1) fl(2) by (simp add: sll_holds_def chain_sll_def pull_end_def)
  have b: "filled (fd_size ?f s) (bufs s b)" using D(5) by simp
  have lb: "length (buffer_bytes (bufs s b)) = unat (fb_length (bufs s b))" using filledD(4) [OF b] .
  consider "n = 0" | "0 < n" "n < fb_length (bufs s b)" | "0 < n" "fb_length (bufs s b) \<le> n"
    by (cases "n = 0"; cases "n < fb_length (bufs s b)") (auto simp: not_less word_gt_0)
  then show ?case
  proof cases
    case 1
    then show ?thesis using snoc.prems
      by (intro exI [of _ "[]"] exI [of _ "bs @ [b]"] exI [of _ out] exI [of _ s])
        (simp add: pull_loop.simps)
  next
    case 2
    have le: "unat n \<le> unat (fb_length (bufs s b))" using 2(2) by (simp add: word_less_nat_alt)
    obtain x p where x: "fs_buffer_pull_offset (bufs s b) want n 0 fl = Some (SUCCESS, x, p)"
       "buffer_ok x"
       "buffer_bytes x = take (unat (fb_length (bufs s b)) - unat n) (buffer_bytes (bufs s b))"
       "fb_length x = fb_length (bufs s b) - n" "\<not> want \<longrightarrow> p = []"
      using pull_tail [OF filledD(1) [OF b] le fl, of want] by auto
    define s' where "s' =
      upd_blist l (\<lambda>y. y\<lparr>bl_total_length := bl_total_length y - n\<rparr>) (upd_buf b (\<lambda>_. x) s)"
    note shrink = shrink_buffer [OF snoc.prems(1) 2(2) x(1,2,4) s'_def]
    have "pull_loop P l want ?rv fl n 0 buffer out s = Some (if ?rv then p @ out else out @ p, s')"
      unfolding s'_def by (rule pull_loop_part [OF fl(1) tl 2 x(1) shrink(4)])
    moreover have "list_bytes s' (bs @ [b]) =
        take (length (list_bytes s (bs @ [b])) - unat n) (list_bytes s (bs @ [b]))"
      using shrink(3) x(3) lb le by simp
    ultimately show ?thesis using shrink(1,2) x(5)
      by (intro exI [of _ "[]"] exI [of _ "bs @ [b]"] exI [of _ "if ?rv then p @ out else out @ p"]
        exI [of _ s']) simp
  next
    case 3
    let ?k = "fb_length (bufs s b)"
    obtain x p where x: "fs_buffer_pull_offset (bufs s b) want ?k 0 fl = Some (SUCCESS, x, p)"
       "fb_length x = 0" "\<not> want \<longrightarrow> p = []"
      using pull_tail [OF filledD(1) [OF b] order_refl fl, of want] by auto
    obtain c s1 s' where s': "sll_remove (Some b) (chain_sll l (upd_buf b (\<lambda>_. x) s)) = Some (Some b, c)"
       "fs_buffer_add_buffer P ?f b (ucast FS_BUFFER_ACTIVE)
         (set_chain l c (upd_buf b (\<lambda>_. x) s)) = Some s1"
       "s' = upd_blist l (\<lambda>y. y\<lparr>bl_total_length := bl_total_length y - ?k\<rparr>) s1"
       "linked l s' bs (xs @ [b])" "touches ?f {l} (set (bs @ [b]) \<union> set xs) s s'"
       "list_bytes s' bs = list_bytes s bs"
      using empty_buffer [OF snoc.prems(1,2) x(1), of P] unfolding append_Nil2 by blast
    let ?out = "if ?rv then p @ out else out @ p"
    have nk: "unat (n - ?k) = unat n - unat ?k"
      using 3(2) by (intro unat_diff_small) (simp add: word_le_nat_alt)
    have f': "bl_fd (blists s' l) = ?f" using touches_fd [OF s'(5)] .
    have "calm (bl_fd (blists s' l)) s'" using snoc.prems(2) touches_calm [OF s'(5)] f' by simp
    moreover have "unat (n - ?k) \<le> length (list_bytes s' bs)"
      using snoc.prems(3) nk lb s'(6) by simp
    ultimately obtain ds rs o' s2 where IH: "bs = rs @ ds"
       "pull_loop P l want ?rv fl (n - ?k) 0 (Some b) ?out s' = Some (o', s2)"
       "\<not> want \<longrightarrow> o' = ?out"
       "linked l s2 rs ((xs @ [b]) @ rev ds)"
       "touches (bl_fd (blists s' l)) {l} (set bs \<union> set (xs @ [b])) s' s2"
       "list_bytes s2 rs =
         take (length (list_bytes s' bs) - unat (n - ?k)) (list_bytes s' bs)"
      using snoc.IH [OF s'(4), of "n - ?k" "Some b" ?out] by blast
    have "pull_loop P l want ?rv fl n 0 buffer out s = Some (o', s2)"
      using pull_loop_all [OF fl(1) tl _ 3(2) x(1,2) s'(1,2), of ?rv buffer out] filledD(3) [OF b]
        s'(3) IH(2) by (simp only: word_gt_0 not_False_eq_True)
    moreover have "touches ?f {l} (set (bs @ [b]) \<union> set xs) s' s2"
      using IH(5) f' by (auto elim: touches_mono)
    then have "touches ?f {l} (set (bs @ [b]) \<union> set xs) s s2" by (rule touches_trans [OF s'(5)])
    moreover have "list_bytes s2 rs =
        take (length (list_bytes s (bs @ [b])) - unat n) (list_bytes s (bs @ [b]))"
      using IH(6) nk lb s'(6) 3(2) snoc.prems(3) by (simp add: word_le_nat_alt)
    ultimately show ?thesis using IH(1,3,4) x(3)
      by (intro exI [of _ "ds @ [b]"] exI [of _ rs] exI [of _ o'] exI [of _ s2]) simp
  qed
qed

lemma list_drop_tail:
  assumes "linked l s bs xs" and "calm (bl_fd (blists s l)) s"
    and "unat n \<le> length (list_bytes s bs)"
    and fl: "fl AND FS_BUFFER_INPLACE = 0" "fl AND FS_BUFFER_TAIL \<noteq> 0" "fl AND FS_BUFFER_HEAD = 0"
  shows "\<exists>ds rs s'. bs = rs @ ds \<and>
     fs_buffer_list_pull P l False n fl s = Some (SUCCESS, [], s') \<and>
     linked l s' rs (xs @ rev ds) \<and> touches (bl_fd (blists s l)) {l} (set bs \<union> set xs) s s' \<and>
     list_bytes s' rs = take (length (list_bytes s bs) - unat n) (list_bytes s bs)"
proof -
  obtain ds rs s' where a: "bs = rs @ ds"
     "pull_loop P l False (fl AND FS_BUFFER_PACKED \<noteq> 0) fl n 0 None [] s = Some ([], s')"
     "linked l s' rs (xs @ rev ds)" "touches (bl_fd (blists s l)) {l} (set bs \<union> set xs) s s'"
     "list_bytes s' rs = take (length (list_bytes s bs) - unat n) (list_bytes s bs)"
    using pull_loop_tail [OF assms(1-5), of P False None "[]"] by auto
  have "n \<le> bl_total_length (blists s l)"
    using assms(3) linkedD(6) [OF assms(1)] by (simp add: word_le_nat_alt)
  then have "fs_buffer_list_pull P l False n fl s = Some (SUCCESS, [], s')"
    using a(2) fl by (simp add: fs_buffer_list_pull_offset_def)
  then show ?thesis using a by blast
qed

section \<open>Looking at data in place\<close>

lemma not_tail_flags:
  fixes fl :: u8
  shows "(fl AND NOT FS_BUFFER_TAIL) AND FS_BUFFER_INPLACE = fl AND FS_BUFFER_INPLACE"
    and "(fl AND NOT FS_BUFFER_TAIL) AND FS_BUFFER_PACKED = fl AND FS_BUFFER_PACKED"
    and "(fl AND NOT FS_BUFFER_TAIL) AND FS_BUFFER_TAIL = 0"
  by (simp_all add: and.assoc FS_BUFFER_TAIL_def FS_BUFFER_INPLACE_def FS_BUFFER_PACKED_def)

lemma upd_buf_same: "upd_buf b (\<lambda>_. bufs s b) s = s"
  by (simp add: upd_buf_def)

lemma pull_skip_ok:
  assumes "lseg (buf_next s) p bs None" and "bs \<noteq> []"
    and "\<And>b. b \<in> set bs \<Longrightarrow> filled m (bufs s b)" and "unat k \<le> length (list_bytes s bs)"
  shows "\<exists>as b cs k'. bs = as @ b # cs \<and> pull_skip k p s = Some (k', Some b) \<and>
     unat k = length (list_bytes s as) + unat k' \<and> unat k' \<le> unat (fb_length (bufs s b))"
  using assms
proof (induction bs arbitrary: p k)
  case (Cons b bs)
  have p: "p = Some b" and tl: "lseg (buf_next s) (buf_next s b) bs None" using Cons.prems(1) by auto
  have b: "filled m (bufs s b)" using Cons.prems(3) by simp
  show ?case
  proof (cases "fb_length (bufs s b) < k")
    case False
    then show ?thesis using p
      by (intro exI [of _ "[]"] exI [of _ b] exI [of _ bs] exI [of _ k])
        (simp add: pull_skip.simps word_less_nat_alt)
  next
    case True
    let ?k = "k - fb_length (bufs s b)"
    have uk: "unat ?k = unat k - unat (fb_length (bufs s b))"
      using True by (intro unat_diff_small) (simp add: word_less_nat_alt)
    have lt: "unat (fb_length (bufs s b)) < unat k" using True by (simp add: word_less_nat_alt)
    then have "bs \<noteq> []" using Cons.prems(4) filledD(4) [OF b] by (cases bs) auto
    moreover have "unat ?k \<le> length (list_bytes s bs)"
      using Cons.prems(4) uk filledD(4) [OF b] by simp
    ultimately obtain as c cs k' where IH: "bs = as @ c # cs"
        "pull_skip ?k (buf_next s b) s = Some (k', Some c)"
        "unat ?k = length (list_bytes s as) + unat k'" "unat k' \<le> unat (fb_length (bufs s c))"
      using Cons.IH [OF tl, of ?k] Cons.prems(3) by auto
    have "pull_skip k p s = Some (k', Some c)"
      using True p IH(2) filledD(3) [OF b] by (subst pull_skip.simps) auto
    moreover have "unat k = length (list_bytes s (b # as)) + unat k'"
      using IH(3) uk lt filledD(4) [OF b] by simp
    ultimately show ?thesis using IH(1,4)
      by (intro exI [of _ "b # as"] exI [of _ c] exI [of _ cs] exI [of _ k']) simp
  qed
qed simp

lemma peek_loop:
  assumes "lseg (buf_next s) p bs None" and "\<And>b. b \<in> set bs \<Longrightarrow> filled m (bufs s b)"
    and "unat n + unat off \<le> length (list_bytes s bs)" and "length (list_bytes s bs) < 2 ^ 32"
    and "bs \<noteq> [] \<longrightarrow> unat off \<le> unat (fb_length (bufs s (hd bs)))"
    and fl: "fl AND FS_BUFFER_INPLACE \<noteq> 0" "fl AND FS_BUFFER_TAIL = 0"
  shows "pull_loop P l want (fl AND FS_BUFFER_PACKED \<noteq> 0) fl n off p out s =
     Some (pulled want fl (take (unat n) (drop (unat off) (list_bytes s bs))) out, s)"
  using assms(1-5)
proof (induction bs arbitrary: p n off out)
  case Nil
  then have "n = 0" by (simp add: unat_eq_zero)
  then show ?case by (simp add: pull_loop.simps)
next
  case (Cons b bs)
  let ?rv = "fl AND FS_BUFFER_PACKED \<noteq> 0"
  let ?len = "fb_length (bufs s b)"
  have p: "p = Some b" and tl: "lseg (buf_next s) (buf_next s b) bs None" using Cons.prems(1) by auto
  have b: "filled m (bufs s b)" using Cons.prems(2) by simp
  have len: "length (buffer_bytes (bufs s b)) = unat ?len" "?len \<noteq> 0"
    using filledD(4) [OF b] b by (simp_all add: filled_def)
  have sum: "unat (n + off) = unat n + unat off"
    using Cons.prems(3,4) by (simp add: unat_word_ariths)
  have off: "unat off \<le> unat ?len" using Cons.prems(5) by simp
  define k where "k = (if n + off \<ge> ?len then ?len - off else n)"
  have uk: "unat k = min (unat n) (unat ?len - unat off)"
    using sum off by (auto simp: k_def unat_diff_small word_le_nat_alt)
  define piece where "piece = (if want then packed fl (take (unat k) (drop (unat off)
      (buffer_bytes (bufs s b)))) else [])"
  have pull: "fs_buffer_pull_offset (bufs s b) want k off fl = Some (SUCCESS, bufs s b, piece)"
    unfolding piece_def
    using pull_inplace [OF filledD(1) [OF b], of k off fl want] fl uk off by simp
  let ?out = "if ?rv then piece @ out else out @ piece"
  show ?case
  proof (cases "n = 0")
    case True
    then show ?thesis by (simp add: pull_loop.simps)
  next
    case False
    have nk: "unat (n - k) = unat n - unat k" using uk by (intro unat_diff_small) simp
    have "pull_loop P l want ?rv fl n off p out s =
        pull_loop P l want ?rv fl (n - k) 0 (buf_next s b) ?out s"
      using False p fl len pull
      by (subst pull_loop.simps) (simp add: k_def [symmetric] upd_buf_same word_gt_0 Let_def)
    also have "\<dots> = Some (pulled want fl (take (unat (n - k)) (list_bytes s bs)) ?out, s)"
    proof -
      have "unat (n - k) + unat (0 :: u32) \<le> length (list_bytes s bs)"
        using Cons.prems(3) len nk uk by simp
      then show ?thesis using Cons.IH [OF tl, of "n - k" 0 ?out] Cons.prems(2,4) by simp
    qed
    also have "\<dots> = Some (pulled want fl (take (unat n) (drop (unat off) (list_bytes s (b # bs)))) out, s)"
      unfolding piece_def pulled_step nk using uk len off by (simp add: min_def)
    finally show ?thesis .
  qed
qed

lemma list_peek:
  assumes lk: "linked l s bs xs" and "bs \<noteq> []"
    and len: "unat n + unat off \<le> length (list_bytes s bs)"
    and fl: "fl AND FS_BUFFER_INPLACE \<noteq> 0" "fl AND FS_BUFFER_HEAD = 0"
  shows "fs_buffer_list_pull_offset P l want n off fl s = Some (SUCCESS,
     if want then packed fl (take (unat n) (drop (if fl AND FS_BUFFER_TAIL \<noteq> 0
         then length (list_bytes s bs) - (unat n + unat off) else unat off) (list_bytes s bs)))
     else [], s)"
proof -
  note D = linkedD [OF lk]
  let ?total = "bl_total_length (blists s l)"
  have small: "length (list_bytes s bs) < 2 ^ 32"
    using D(6) unsigned_less [of ?total, where 'a = nat] by simp
  have sum: "unat (n + off) = unat n + unat off"
    using len small by (simp add: unat_word_ariths)
  define fl' where "fl' = (if fl AND FS_BUFFER_TAIL \<noteq> 0 then fl AND NOT FS_BUFFER_TAIL else fl)"
  define k where "k = (if fl AND FS_BUFFER_TAIL \<noteq> 0 then ?total - (off + n) else off)"
  have uk: "unat k = (if fl AND FS_BUFFER_TAIL \<noteq> 0
      then length (list_bytes s bs) - (unat n + unat off) else unat off)"
    using len sum D(6) by (simp add: k_def unat_diff_small add.commute)
  have kl: "unat k + unat n \<le> length (list_bytes s bs)" using uk len by auto
  have fl': "fl' AND FS_BUFFER_INPLACE \<noteq> 0" "fl' AND FS_BUFFER_TAIL = 0"
      "fl' AND FS_BUFFER_PACKED = fl AND FS_BUFFER_PACKED"
    using fl by (simp_all add: fl'_def not_tail_flags)
  have hd: "lseg (buf_next s) (head (bl_list (blists s l))) bs None"
    using D(1) by (simp add: sll_holds_def chain_sll_def)
  have "unat k \<le> length (list_bytes s bs)" using kl by simp
  from pull_skip_ok [OF hd assms(2) D(5) this]
  obtain as b cs k' where sk: "bs = as @ b # cs"
      "pull_skip k (head (bl_list (blists s l))) s = Some (k', Some b)"
      "unat k = length (list_bytes s as) + unat k'" "unat k' \<le> unat (fb_length (bufs s b))" by blast
  have "pull_loop P l want (fl' AND FS_BUFFER_PACKED \<noteq> 0) fl' n k' (Some b) [] s =
      Some (pulled want fl' (take (unat n) (drop (unat k') (list_bytes s (b # cs)))) [], s)"
  proof (rule peek_loop [OF _ _ _ _ _ fl'(1,2)])
    show "lseg (buf_next s) (Some b) (b # cs) None" using hd sk(1) by simp
    show "unat n + unat k' \<le> length (list_bytes s (b # cs))" using kl sk(1,3) by simp
  qed (use D(5) sk(1,4) small in auto)
  moreover have "drop (unat k) (list_bytes s bs) = drop (unat k') (list_bytes s (b # cs))"
    using sk(1,3) by simp
  moreover have "fs_buffer_list_pull_offset P l want n off fl s =
      do { (out, s) \<leftarrow> pull_loop P l want (fl AND FS_BUFFER_PACKED \<noteq> 0) fl' n k' (Some b) [] s;
           Some (SUCCESS, out, s) }"
  proof -
    have "n + off \<le> ?total" using len sum D(6) by (simp add: word_le_nat_alt)
    then show ?thesis
      using fl sk(2) by (cases "fl AND FS_BUFFER_TAIL = 0")
        (simp_all add: fs_buffer_list_pull_offset_def fl'_def k_def)
  qed
  ultimately show ?thesis
    using fl'(3) unfolding uk by (simp add: pulled_def packed_def)
qed

end
