(* ===== verification/FsPush.thy ===== *)
theory FsPush
  imports FsPull
begin

text \<open>
  Pushing data to either end of a buffer list. A push that may not wait changes nothing when
  the pool cannot serve it; otherwise it fills the buffer at that end and takes new ones from
  the pool, and the data lies before or behind what was on the list.
\<close>

section \<open>The two ends of a list\<close>

definition end_room :: "u8 \<Rightarrow> FS_BUFFER \<Rightarrow> u32" where
  "end_room fl b = (if fl AND FS_BUFFER_HEAD \<noteq> 0 then FS_BUFFER_SPACE b else FS_BUFFER_TAIL_ROOM b)"

definition end_buffer :: "u8 \<Rightarrow> bid list \<Rightarrow> bid" where
  "end_buffer fl bs = (if fl AND FS_BUFFER_HEAD \<noteq> 0 then hd bs else last bs)"

definition at_end :: "u8 \<Rightarrow> 'a list \<Rightarrow> 'a list \<Rightarrow> 'a list" where
  "at_end fl new old = (if fl AND FS_BUFFER_HEAD \<noteq> 0 then new @ old else old @ new)"

text \<open>The room left on the buffer at the end, in bytes.\<close>

definition list_room :: "u8 \<Rightarrow> 'z fsstate_scheme \<Rightarrow> bid list \<Rightarrow> nat" where
  "list_room fl s bs = (if bs = [] then 0 else unat (end_room fl (bufs s (end_buffer fl bs))))"

lemma end_buffer_split:
  assumes "bs \<noteq> []"
  shows "\<exists>as cs. bs = as @ end_buffer fl bs # cs \<and> (fl AND FS_BUFFER_HEAD \<noteq> 0 \<longrightarrow> as = []) \<and>
    (fl AND FS_BUFFER_HEAD = 0 \<longrightarrow> cs = [])"
proof (cases "fl AND FS_BUFFER_HEAD = 0")
  case True
  then show ?thesis using assms
    by (intro exI [of _ "butlast bs"] exI [of _ "[]"]) (simp add: end_buffer_def)
next
  case False
  then show ?thesis using assms
    by (intro exI [of _ "[]"] exI [of _ "tl bs"]) (simp add: end_buffer_def)
qed

lemma push_buffer:
  assumes "buffer_ok b" and "unat n \<le> unat (end_room fl b)" and "unat n \<le> length src"
    and "fl AND FS_BUFFER_UPDATE = 0"
  shows "\<exists>b'. fs_buffer_push_offset b (Some src) n 0 fl = Some (SUCCESS, b')
      \<and> buffer_ok b' \<and> buffer_bytes b' = at_end fl (packed fl (take (unat n) src)) (buffer_bytes b)
      \<and> fb_length b' = fb_length b + n \<and> fb_max_length b' = fb_max_length b
      \<and> unat (end_room fl b') = unat (end_room fl b) - unat n"
proof (cases "fl AND FS_BUFFER_HEAD = 0")
  case True
  then have room: "unat n \<le> unat (FS_BUFFER_TAIL_ROOM b)" using assms(2) by (simp add: end_room_def)
  obtain b' where b': "fs_buffer_push_offset b (Some src) n 0 fl = Some (SUCCESS, b')" "buffer_ok b'"
     "buffer_bytes b' = buffer_bytes b @ packed fl (take (unat n) src)"
     "fb_length b' = fb_length b + n" "fb_max_length b' = fb_max_length b" "fb_off b' = fb_off b"
    using push_tail [OF assms(1) room assms(3,4) True] by blast
  have "FS_BUFFER_TAIL_ROOM b' = FS_BUFFER_TAIL_ROOM b - n"
    using b'(4-6) by (simp add: FS_BUFFER_TAIL_ROOM_def FS_BUFFER_SPACE_def FS_BUFFER_HEAD_ROOM_def)
  then show ?thesis using b' True unat_diff_small [OF room] by (auto simp: end_room_def at_end_def)
next
  case False
  then have room: "unat n \<le> unat (FS_BUFFER_SPACE b)" using assms(2) by (simp add: end_room_def)
  obtain b' where b': "fs_buffer_push_offset b (Some src) n 0 fl = Some (SUCCESS, b')" "buffer_ok b'"
     "buffer_bytes b' = packed fl (take (unat n) src) @ buffer_bytes b"
     "fb_length b' = fb_length b + n" "fb_max_length b' = fb_max_length b"
    using push_head [OF assms(1) room assms(3,4) False] by blast
  have "FS_BUFFER_SPACE b' = FS_BUFFER_SPACE b - n" using b'(4,5) by (simp add: FS_BUFFER_SPACE_def)
  then show ?thesis using b' False unat_diff_small [OF room] by (auto simp: end_room_def at_end_def)
qed

section \<open>A list with a buffer that is being filled\<close>

definition linked_but :: "lid \<Rightarrow> 'z fsstate_scheme \<Rightarrow> bid list \<Rightarrow> bid list \<Rightarrow> bid \<Rightarrow> bool" where
  "linked_but l s bs xs b \<longleftrightarrow>
     sll_holds (chain_sll l s) bs \<and> b \<in> set bs \<and>
     (\<forall>c \<in> set bs. c \<noteq> b \<longrightarrow> filled (fd_size (bl_fd (blists s l)) s) (bufs s c)) \<and>
     buffer_ok (bufs s b) \<and> fb_max_length (bufs s b) = fd_size (bl_fd (blists s l)) s \<and>
     unat (bl_total_length (blists s l)) = length (list_bytes s bs) \<and>
     pool_holds (bl_fd (blists s l)) s xs \<and> set bs \<inter> set xs = {} \<and> length bs + length xs < 2 ^ 32"

lemma linked_but_linked:
  "linked l s bs xs \<Longrightarrow> b \<in> set bs \<Longrightarrow> linked_but l s bs xs b"
  by (auto simp: linked_def chain_holds_def linked_but_def filled_def)

lemma fill_buffer:
  assumes lk: "linked_but l s (as @ b # cs) xs b"
    and x: "buffer_ok x" "fb_length x = fb_length (bufs s b) + k"
      "fb_max_length x = fb_max_length (bufs s b)"
      "length (buffer_bytes x) = length (buffer_bytes (bufs s b)) + unat k"
    and k: "0 < k" "length (list_bytes s (as @ b # cs)) + unat k < 2 ^ 32"
    and s': "s' = upd_blist l (\<lambda>y. y\<lparr>bl_total_length := bl_total_length y + k\<rparr>) (upd_buf b (\<lambda>_. x) s)"
  shows "linked l s' (as @ b # cs) xs"
    and "touches (bl_fd (blists s l)) {l} (set (as @ b # cs) \<union> set xs) s s'"
    and "list_bytes s' (as @ b # cs) = list_bytes s as @ buffer_bytes x @ list_bytes s cs"
proof -
  have D: "sll_holds (chain_sll l s) (as @ b # cs)"
      "\<And>c. c \<in> set (as @ b # cs) \<Longrightarrow> c \<noteq> b \<Longrightarrow> filled (fd_size (bl_fd (blists s l)) s) (bufs s c)"
      "buffer_ok (bufs s b)" "fb_max_length (bufs s b) = fd_size (bl_fd (blists s l)) s"
      "unat (bl_total_length (blists s l)) = length (list_bytes s (as @ b # cs))"
      "pool_holds (bl_fd (blists s l)) s xs" "set (as @ b # cs) \<inter> set xs = {}"
      "length (as @ b # cs) + length xs < 2 ^ 32"
    using lk by (auto simp only: linked_but_def)
  have out: "b \<notin> set as" "b \<notin> set cs" "b \<notin> set xs"
    using sll_holds_distinct [OF D(1)] D(7) by auto
  have "list_bytes s' as = list_bytes s as" "list_bytes s' cs = list_bytes s cs"
    by (rule list_bytes_cong; use out s' in auto)+
  then show bytes: "list_bytes s' (as @ b # cs) = list_bytes s as @ buffer_bytes x @ list_bytes s cs"
    by (simp add: s')
  have "unat (fb_length x) = unat (fb_length (bufs s b)) + unat k"
    using x(1,4) D(3) by simp
  then have "fb_length x \<noteq> 0" using k(1) by (auto simp: word_gt_0 unat_eq_zero)
  then have "filled (fd_size (bl_fd (blists s l)) s) x" using x D(4) by (simp add: filled_def)
  then have "\<forall>c \<in> set (as @ b # cs). filled (fd_size (bl_fd (blists s l)) s) (bufs s' c)"
    using D(2) by (auto simp: s')
  moreover have "unat (bl_total_length (blists s l) + k) = length (list_bytes s' (as @ b # cs))"
    using D(5) k(2) x(4) unfolding bytes by (simp add: unat_word_ariths)
  ultimately have "chain_holds l s' (as @ b # cs)"
    using D(1) unfolding chain_holds_def by (simp add: s')
  then show "linked l s' (as @ b # cs) xs" using D out by (simp add: linked_def s')
  show "touches (bl_fd (blists s l)) {l} (set (as @ b # cs) \<union> set xs) s s'"
    unfolding s' by (rule touches_trans [OF touches_upd(1) touches_upd(2)]) simp_all
qed

text \<open>A new buffer from the pool, linked at either end.\<close>

lemma ucast_flag:
  fixes a b :: u8
  assumes "a AND b = 0"
  shows "(ucast a :: u32) AND ucast b = 0"
  using assms by (metis unsigned_and_eq unsigned_0)

lemma new_buffer:
  assumes lk: "linked l s bs (b # xs)"
    and fl: "fl AND FS_BUFFER_INPLACE = 0" "fl AND FS_BUFFER_SUSPEND = 0"
  shows "\<exists>s1 c. fs_buffer_get_buffer P (bl_fd (blists s l)) (ucast fl) s = Some (Some b, s1) \<and>
     bufs s1 = bufs s \<and> fresh (fd_size (bl_fd (blists s l)) s) (bufs s b) \<and> blists s1 l = blists s l \<and>
     (if fl AND FS_BUFFER_HEAD \<noteq> 0 then sll_push (Some b) (chain_sll l s1)
      else sll_append (Some b) (chain_sll l s1)) = Some c \<and>
     linked_but l (set_chain l c s1) (at_end fl [b] bs) xs b \<and>
     list_bytes (set_chain l c s1) (at_end fl [b] bs) = list_bytes s bs \<and>
     touches (bl_fd (blists s l)) {l} (set bs \<union> set (b # xs)) s (set_chain l c s1)"
proof -
  note D = linkedD [OF lk]
  let ?f = "bl_fd (blists s l)"
  have small: "length (b # xs) < 2 ^ 32" using D(7) by simp
  obtain s1 where s1: "fs_buffer_get_buffer P ?f (ucast fl) s = Some (Some b, s1)"
      "pool_holds ?f s1 xs" "touches ?f {} (set (b # xs)) s s1" "bufs s1 = bufs s"
      "fresh (fd_size ?f s1) (bufs s1 b)"
    using get_buffer_ok [OF D(3) small ucast_flag [OF fl(1)] ucast_flag [OF fl(2)], of P] by auto
  have bl: "blists s1 l = blists s l" using s1(3) by (simp add: touches_def)
  have b: "b \<notin> set bs" using D(4) by auto
  have "distinct (b # xs)" using D(3) sll_holds_distinct by (fastforce simp: pool_holds_def)
  then have bx: "b \<notin> set xs" by simp
  have nx: "buf_next s1 c = buf_next s c" if "c \<in> set bs" for c
    using touchesD(2) [OF s1(3), of c] D(4) that by auto
  have hold: "sll_holds (chain_sll l s1) bs"
    using sll_holds_frame [OF D(1) [unfolded chain_sll_def] nx] by (simp add: chain_sll_def bl)
  obtain c where c: "(if fl AND FS_BUFFER_HEAD \<noteq> 0 then sll_push (Some b) (chain_sll l s1)
      else sll_append (Some b) (chain_sll l s1)) = Some c"
      "sll_holds c (at_end fl [b] bs)" "links_changed_in (insert b (set bs)) (chain_sll l s1) c"
  proof (cases "fl AND FS_BUFFER_HEAD = 0")
    case True
    then show ?thesis using sll_append_holds [OF hold b] that by (auto simp: at_end_def)
  next
    case False
    obtain c where "sll_push (Some b) (chain_sll l s1) = Some c" "sll_holds c (b # bs)"
        "links_changed_in {b} (chain_sll l s1) c"
      using sll_push_holds [OF hold b] by blast
    then show ?thesis using False that [of c] by (auto simp: at_end_def links_changed_in_def)
  qed
  let ?s = "set_chain l c s1"
  have t1: "touches ?f {l} (set bs \<union> set (b # xs)) s s1" using s1(3) by (auto elim: touches_mono)
  have t2: "touches ?f {l} (set bs \<union> set (b # xs)) s1 ?s"
    using links_changedD [OF c(3)] by (auto simp: touches_def list_rest_def chain_sll_def)
  note t = touches_trans [OF t1 t2]
  have size: "fd_size ?f s1 = fd_size ?f s" "fd_size ?f ?s = fd_size ?f s"
    using touches_size [OF t1] touches_size [OF t] .
  have fr: "fresh (fd_size ?f s) (bufs s b)" using s1(4,5) size by simp
  have "list_bytes ?s bs = list_bytes s bs" by (rule list_bytes_cong) (simp add: s1(4))
  then have bytes: "list_bytes ?s (at_end fl [b] bs) = list_bytes s bs"
    using fresh_buffer_ok [OF fr] s1(4) by (simp add: at_end_def)
  have pool: "pool_holds ?f ?s xs"
  proof (rule pool_holds_frame [OF s1(2)])
    fix a assume "a \<in> set xs"
    then have "a \<notin> insert b (set bs)" using D(4) bx by auto
    then show "bufs ?s a = bufs s1 a \<and> buf_next ?s a = buf_next s1 a"
      using links_changedD [OF c(3)] by (simp add: chain_sll_def)
  qed simp
  have members: "set (at_end fl [b] bs) = insert b (set bs)"
      "length (at_end fl [b] bs) = Suc (length bs)" by (auto simp: at_end_def)
  have "sll_holds (chain_sll l ?s) (at_end fl [b] bs)" using c(2) by (simp add: chain_sll_def)
  moreover have "\<forall>a \<in> insert b (set bs). a \<noteq> b \<longrightarrow> filled (fd_size ?f ?s) (bufs ?s a)"
    using D(5) size s1(4) by auto
  moreover have "buffer_ok (bufs ?s b)" "fb_max_length (bufs ?s b) = fd_size ?f ?s"
    using fresh_buffer_ok [OF fr] fr size s1(4) by (simp_all add: fresh_def sized_def)
  moreover have "bl_fd (blists ?s l) = ?f" "unat (bl_total_length (blists ?s l)) = length (list_bytes s bs)"
    using D(6) bl by simp_all
  moreover have "insert b (set bs) \<inter> set xs = {}" using D(4) bx by auto
  ultimately have "linked_but l ?s (at_end fl [b] bs) xs b"
    using pool bytes D(7) unfolding linked_but_def members by simp
  then show ?thesis using s1(1,4) fr bl c(1) bytes t by blast
qed

section \<open>One piece\<close>

lemma list_ends:
  assumes "linked l s bs xs"
  shows "head (bl_list (blists s l)) = (if bs = [] then None else Some (hd bs))"
    and "tail (bl_list (blists s l)) = (if bs = [] then None else Some (last bs))"
  using linkedD(1) [OF assms] sll_holds_head [of "chain_sll l s" bs]
  by (simp_all add: chain_sll_def sll_holds_def)

definition fits :: "u32 \<Rightarrow> u32 \<Rightarrow> u32" where
  "fits n room = (if room > n then n else room)"

lemma fits_unat: "unat (fits n room) = min (unat n) (unat room)"
  by (auto simp: fits_def word_less_nat_alt)

lemma select_room:
  assumes lk: "linked l s bs xs" and "fl AND FS_BUFFER_UPDATE = 0" and room: "0 < list_room fl s bs"
  shows "push_select P l fl n off buffer s = Some (SUCCESS, Some (end_buffer fl bs),
     fits n (end_room fl (bufs s (end_buffer fl bs))), s)"
proof -
  have "bs \<noteq> []" using room by (auto simp: list_room_def)
  moreover have "end_room fl (bufs s (end_buffer fl bs)) \<noteq> 0"
    using room by (auto simp: list_room_def split: if_splits)
  ultimately show ?thesis
    using assms(2) list_ends [OF lk]
    by (auto simp: push_select_def fits_def end_room_def end_buffer_def Let_def)
qed

lemma add_no_head:
  assumes "fresh m x"
  shows "fs_buffer_add_head x (fb_length x) = Some (SUCCESS, x)"
  using assms by (auto simp: fresh_def sized_def fs_buffer_add_head_def)

lemma select_new:
  assumes lk: "linked l s bs (b # xs)" and up: "fl AND FS_BUFFER_UPDATE = 0"
    and fl: "fl AND FS_BUFFER_INPLACE = 0" "fl AND FS_BUFFER_SUSPEND = 0"
    and room: "list_room fl s bs = 0"
  shows "\<exists>s1. push_select P l fl n off buffer s = Some (SUCCESS, Some b,
       fits n (end_room fl (bufs s b)), s1) \<and>
     bufs s1 = bufs s \<and> fresh (fd_size (bl_fd (blists s l)) s) (bufs s b) \<and>
     linked_but l s1 (at_end fl [b] bs) xs b \<and> list_bytes s1 (at_end fl [b] bs) = list_bytes s bs \<and>
     touches (bl_fd (blists s l)) {l} (set bs \<union> set (b # xs)) s s1"
proof -
  obtain s1 c where new: "fs_buffer_get_buffer P (bl_fd (blists s l)) (ucast fl) s = Some (Some b, s1)"
     "bufs s1 = bufs s" "fresh (fd_size (bl_fd (blists s l)) s) (bufs s b)" "blists s1 l = blists s l"
     "(if fl AND FS_BUFFER_HEAD \<noteq> 0 then sll_push (Some b) (chain_sll l s1)
      else sll_append (Some b) (chain_sll l s1)) = Some c"
     "linked_but l (set_chain l c s1) (at_end fl [b] bs) xs b"
     "list_bytes (set_chain l c s1) (at_end fl [b] bs) = list_bytes s bs"
     "touches (bl_fd (blists s l)) {l} (set bs \<union> set (b # xs)) s (set_chain l c s1)"
    using new_buffer [OF lk fl, of P] by blast
  have none: "bs = [] \<or> end_room fl (bufs s (end_buffer fl bs)) = 0"
    using room by (auto simp: list_room_def unat_eq_zero split: if_splits)
  have same: "upd_buf b (\<lambda>_. bufs s b) s1 = s1" using upd_buf_same [of b s1] new(2) by simp
  have "push_select P l fl n off buffer s = Some (SUCCESS, Some b,
       fits n (end_room fl (bufs s b)), set_chain l c s1)"
  proof (cases "fl AND FS_BUFFER_HEAD = 0")
    case True
    then show ?thesis
      using none list_ends [OF lk] new(1,2,5) up
      by (auto simp: push_select_def end_room_def end_buffer_def fits_def Let_def)
  next
    case False
    then show ?thesis
      using none list_ends [OF lk] new(1,2,4,5) up add_no_head [OF new(3)] same
      by (auto simp: push_select_def end_room_def end_buffer_def fits_def Let_def)
  qed
  then show ?thesis using new(2,3,6-8) by (metis set_chain_sel(2))
qed

text \<open>The piece a round writes, and where the next one comes from.\<close>

definition piece :: "bool \<Rightarrow> u8 list \<Rightarrow> nat \<Rightarrow> nat \<Rightarrow> u8 list" where
  "piece rv src n k = take k (if rv then drop (n - k) src else src)"

definition rest_src :: "bool \<Rightarrow> u8 list \<Rightarrow> nat \<Rightarrow> u8 list" where
  "rest_src rv src k = (if rv then src else drop k src)"

lemma push_loop_step:
  assumes sel: "push_select P l fl n 0 buffer s = Some (SUCCESS, Some b, k, s1)"
    and lk: "linked_but l s1 bs xs b" and b: "b = end_buffer fl bs"
    and room: "unat k \<le> unat (end_room fl (bufs s1 b))" and k: "0 < k" "k \<le> n"
    and src: "unat n \<le> length src" and up: "fl AND FS_BUFFER_UPDATE = 0"
    and small: "length (list_bytes s1 bs) + unat n < 2 ^ 32"
  shows "\<exists>s'. push_loop P l rv fl src n 0 buffer s =
       push_loop P l rv fl (rest_src rv src (unat k)) (n - k) 0 (Some b) s' \<and>
     linked l s' bs xs \<and> touches (bl_fd (blists s1 l)) {l} (set bs \<union> set xs) s1 s' \<and>
     list_bytes s' bs = at_end fl (packed fl (piece rv src (unat n) (unat k))) (list_bytes s1 bs) \<and>
     list_room fl s' bs = unat (end_room fl (bufs s1 b)) - unat k"
proof -
  have le: "unat k \<le> unat n" using k(2) by (simp add: word_le_nat_alt)
  have nk: "unat (n - k) = unat n - unat k" using le by (rule unat_diff_small)
  let ?from = "if rv then drop (unat (n - k)) src else src"
  have "bs \<noteq> []" and ok: "buffer_ok (bufs s1 b)" using lk by (auto simp: linked_but_def)
  have "unat k \<le> length ?from" using src le nk by (cases rv) auto
  from push_buffer [OF ok room this up] obtain x where x:
    "fs_buffer_push_offset (bufs s1 b) (Some ?from) k 0 fl = Some (SUCCESS, x)" "buffer_ok x"
    "buffer_bytes x = at_end fl (packed fl (take (unat k) ?from)) (buffer_bytes (bufs s1 b))"
    "fb_length x = fb_length (bufs s1 b) + k" "fb_max_length x = fb_max_length (bufs s1 b)"
    "unat (end_room fl x) = unat (end_room fl (bufs s1 b)) - unat k" by blast
  define s' where "s' =
    upd_blist l (\<lambda>y. y\<lparr>bl_total_length := bl_total_length y + k\<rparr>) (upd_buf b (\<lambda>_. x) s1)"
  obtain as cs where split: "bs = as @ b # cs" "fl AND FS_BUFFER_HEAD \<noteq> 0 \<longrightarrow> as = []"
      "fl AND FS_BUFFER_HEAD = 0 \<longrightarrow> cs = []"
    using end_buffer_split [OF \<open>bs \<noteq> []\<close>, of fl] b by auto
  have lx: "length (buffer_bytes x) = length (buffer_bytes (bufs s1 b)) + unat k"
    using x(3) src le nk by (simp add: at_end_def)
  have "length (list_bytes s1 (as @ b # cs)) + unat k < 2 ^ 32" using small le split(1) by simp
  note fill = fill_buffer [OF lk [unfolded split(1)] x(2,4,5) lx k(1) this s'_def]
  have "0 < n" using k by (auto intro: less_le_trans)
  then have "push_loop P l rv fl src n 0 buffer s =
       push_loop P l rv fl (rest_src rv src (unat k)) (n - k) 0 (Some b) s'"
    using sel x(1) up by (subst push_loop.simps) (simp add: Let_def s'_def rest_src_def)
  moreover have "list_bytes s' bs =
      at_end fl (packed fl (piece rv src (unat n) (unat k))) (list_bytes s1 bs)"
    using fill(3) split x(3) nk by (cases "fl AND FS_BUFFER_HEAD = 0")
      (simp_all add: at_end_def piece_def)
  moreover have "list_room fl s' bs = unat (end_room fl (bufs s1 b)) - unat k"
    using x(6) b \<open>bs \<noteq> []\<close> by (simp add: list_room_def s'_def)
  ultimately show ?thesis using fill(1,2) split(1) by blast
qed

section \<open>All pieces\<close>

text \<open>
  Where the pieces go is reversed exactly when one of \<^verbatim>\<open>FS_BUFFER_PACKED\<close> and
  \<^verbatim>\<open>FS_BUFFER_HEAD\<close> is given; then they add up to the data, or to its reverse when it is packed.
\<close>

definition push_reverse :: "u8 \<Rightarrow> bool" where
  "push_reverse fl \<longleftrightarrow> (fl AND FS_BUFFER_PACKED \<noteq> 0) \<noteq> (fl AND FS_BUFFER_HEAD \<noteq> 0)"

lemma pieces_add_up:
  assumes "k \<le> n" and "n \<le> length src"
  shows "at_end fl (packed fl (take (n - k) (rest_src (push_reverse fl) src k)))
      (at_end fl (packed fl (piece (push_reverse fl) src n k)) old) =
    at_end fl (packed fl (take n src)) old"
proof -
  have a: "take n src = take k src @ take (n - k) (drop k src)"
    using assms by (simp add: take_add [symmetric])
  have b: "take n src = take (n - k) src @ take k (drop (n - k) src)"
    using assms by (simp add: take_add [symmetric])
  show ?thesis
  proof (cases "fl AND FS_BUFFER_HEAD = 0"; cases "fl AND FS_BUFFER_PACKED = 0")
    assume "fl AND FS_BUFFER_HEAD = 0" "fl AND FS_BUFFER_PACKED = 0"
    then show ?thesis unfolding a
      by (simp add: at_end_def packed_def push_reverse_def rest_src_def piece_def)
  next
    assume "fl AND FS_BUFFER_HEAD = 0" "fl AND FS_BUFFER_PACKED \<noteq> 0"
    then show ?thesis unfolding b
      by (simp add: at_end_def packed_def push_reverse_def rest_src_def piece_def)
  next
    assume "fl AND FS_BUFFER_HEAD \<noteq> 0" "fl AND FS_BUFFER_PACKED = 0"
    then show ?thesis unfolding b
      by (simp add: at_end_def packed_def push_reverse_def rest_src_def piece_def)
  next
    assume "fl AND FS_BUFFER_HEAD \<noteq> 0" "fl AND FS_BUFFER_PACKED \<noteq> 0"
    then show ?thesis unfolding a
      by (simp add: at_end_def packed_def push_reverse_def rest_src_def piece_def)
  qed
qed

text \<open>New buffers are linked one after the other.\<close>

definition with_new :: "u8 \<Rightarrow> 'a list \<Rightarrow> 'a list \<Rightarrow> 'a list" where
  "with_new fl ys bs = (if fl AND FS_BUFFER_HEAD \<noteq> 0 then rev ys @ bs else bs @ ys)"

lemma with_new_simps [simp]:
  "with_new fl [] bs = bs" "with_new fl ys (at_end fl [y] bs) = with_new fl (y # ys) bs"
  by (simp_all add: with_new_def at_end_def)

lemma set_at_end [simp]: "set (at_end fl ys bs) = set ys \<union> set bs"
  by (auto simp: at_end_def)

lemma length_at_end [simp]: "length (at_end fl ys bs) = length ys + length bs"
  by (simp add: at_end_def)

lemma end_of_new [simp]: "end_buffer fl (at_end fl [b] bs) = b"
  by (simp add: end_buffer_def at_end_def)

text \<open>One round, whichever buffer it writes to.\<close>

lemma push_round:
  assumes lk: "linked l s bs xs" and size: "fd_size (bl_fd (blists s l)) s \<noteq> 0"
    and n: "0 < n" "unat n \<le> length src" "length (list_bytes s bs) + unat n < 2 ^ 32"
    and room: "unat n \<le> list_room fl s bs + length xs * unat (fd_size (bl_fd (blists s l)) s)"
    and fl: "fl AND FS_BUFFER_UPDATE = 0" "fl AND FS_BUFFER_SUSPEND = 0"
  shows "\<exists>k b ys zs s'. 0 < unat k \<and> unat k \<le> unat n \<and>
     push_loop P l rv fl src n 0 buffer s =
       push_loop P l rv fl (rest_src rv src (unat k)) (n - k) 0 (Some b) s' \<and>
     xs = ys @ zs \<and> linked l s' (with_new fl ys bs) zs \<and>
     touches (bl_fd (blists s l)) {l} (set bs \<union> set xs) s s' \<and>
     list_bytes s' (with_new fl ys bs) =
       at_end fl (packed fl (piece rv src (unat n) (unat k))) (list_bytes s bs) \<and>
     unat n - unat k \<le> length zs * unat (fd_size (bl_fd (blists s l)) s) \<and>
     (if 0 < list_room fl s bs
      then ys = [] \<and> unat k = min (unat n) (list_room fl s bs) \<and>
        list_room fl s' (with_new fl ys bs) = list_room fl s bs - unat k
      else length ys = 1 \<and> unat k = min (unat n) (unat (fd_size (bl_fd (blists s l)) s)) \<and>
        list_room fl s' (with_new fl ys bs) = unat (fd_size (bl_fd (blists s l)) s) - unat k)"
proof (cases "0 < list_room fl s bs")
  case True
  let ?b = "end_buffer fl bs"
  define k where "k = fits n (end_room fl (bufs s ?b))"
  have bs: "bs \<noteq> []" and lr: "list_room fl s bs = unat (end_room fl (bufs s ?b))"
    using True by (auto simp: list_room_def split: if_splits)
  have uk: "unat k = min (unat n) (list_room fl s bs)" unfolding k_def fits_unat lr ..
  have "0 < unat n" using n(1) by (simp add: unat_gt_0 word_gt_0)
  then have k: "0 < unat k" "unat k \<le> unat n" using uk True by auto
  have "?b \<in> set bs" using bs by (simp add: end_buffer_def)
  from linked_but_linked [OF lk this] have lkb: "linked_but l s bs xs ?b" .
  have k': "0 < k" "k \<le> n" using k by (simp_all add: word_gt_0 word_le_nat_alt) auto
  have rm: "unat k \<le> unat (end_room fl (bufs s ?b))" using uk lr by simp
  obtain s' where s': "push_loop P l rv fl src n 0 buffer s =
       push_loop P l rv fl (rest_src rv src (unat k)) (n - k) 0 (Some ?b) s'"
     "linked l s' bs xs" "touches (bl_fd (blists s l)) {l} (set bs \<union> set xs) s s'"
     "list_bytes s' bs = at_end fl (packed fl (piece rv src (unat n) (unat k))) (list_bytes s bs)"
     "list_room fl s' bs = list_room fl s bs - unat k"
    unfolding lr
    using push_loop_step [OF select_room [OF lk fl(1) True, of P n 0 buffer, folded k_def] lkb refl rm k' n(2) fl(1) n(3)]
    by blast
  have "unat n - unat k \<le> length xs * unat (fd_size (bl_fd (blists s l)) s)"
    using uk room by auto
  then show ?thesis using k s' uk True
    by (intro exI [of _ k] exI [of _ ?b] exI [of _ "[]"] exI [of _ xs] exI [of _ s']) simp
next
  case False
  let ?f = "bl_fd (blists s l)"
  let ?m = "fd_size ?f s"
  have un: "0 < unat n" using n(1) by (simp add: unat_gt_0 word_gt_0)
  then obtain b zs where xs: "xs = b # zs" using room False by (cases xs) auto
  have room0: "list_room fl s bs = 0" using False by simp
  define k where "k = fits n (end_room fl (bufs s b))"
  obtain s1 where s1: "push_select P l fl n 0 buffer s = Some (SUCCESS, Some b, k, s1)"
     "bufs s1 = bufs s" "fresh ?m (bufs s b)" "linked_but l s1 (at_end fl [b] bs) zs b"
     "list_bytes s1 (at_end fl [b] bs) = list_bytes s bs"
     "touches ?f {l} (set bs \<union> set (b # zs)) s s1"
    using select_new [OF lk [unfolded xs] fl(1) _ fl(2) room0, of P n 0 buffer] fl(1)
    unfolding k_def FS_BUFFER_UPDATE_def by blast
  have "end_room fl (bufs s b) = ?m"
    using s1(3) by (auto simp: fresh_def sized_def end_room_def FS_BUFFER_SPACE_def
      FS_BUFFER_TAIL_ROOM_def FS_BUFFER_HEAD_ROOM_def)
  then have uk: "unat k = min (unat n) (unat ?m)" by (simp add: k_def fits_unat)
  have "0 < unat ?m" using size by (simp add: unat_gt_0)
  then have k: "0 < unat k" "unat k \<le> unat n" using uk un by auto
  have k': "0 < k" "k \<le> n" using k by (simp_all add: word_gt_0 word_le_nat_alt) auto
  have rm: "unat k \<le> unat (end_room fl (bufs s1 b))"
    using uk \<open>end_room fl (bufs s b) = ?m\<close> s1(2) by simp
  obtain s' where s': "push_loop P l rv fl src n 0 buffer s =
       push_loop P l rv fl (rest_src rv src (unat k)) (n - k) 0 (Some b) s'"
     "linked l s' (at_end fl [b] bs) zs"
     "touches (bl_fd (blists s1 l)) {l} (set (at_end fl [b] bs) \<union> set zs) s1 s'"
     "list_bytes s' (at_end fl [b] bs) =
       at_end fl (packed fl (piece rv src (unat n) (unat k))) (list_bytes s bs)"
     "list_room fl s' (at_end fl [b] bs) = unat ?m - unat k"
    using push_loop_step [OF s1(1,4) _ rm k' n(2) fl(1)] n(3) s1(2,5)
      \<open>end_room fl (bufs s b) = ?m\<close> by (metis end_of_new)
  have "touches ?f {l} (set bs \<union> set xs) s1 s'"
    using s'(3) touches_fd [OF s1(6), of l] xs by (auto elim: touches_mono)
  then have "touches ?f {l} (set bs \<union> set xs) s s'"
    using s1(6) xs touches_trans by blast
  moreover have "unat n - unat k \<le> length zs * unat ?m" using uk room room0 xs by auto
  moreover have "with_new fl [b] bs = at_end fl [b] bs" by (simp add: with_new_def at_end_def)
  ultimately show ?thesis using k s' xs uk False
    by (intro exI [of _ k] exI [of _ b] exI [of _ "[b]"] exI [of _ zs] exI [of _ s']) simp
qed

lemma with_new_append: "with_new fl zs (with_new fl ys bs) = with_new fl (ys @ zs) bs"
  by (simp add: with_new_def)

lemma set_with_new: "set (with_new fl ys bs) = set ys \<union> set bs"
  by (auto simp: with_new_def)

text \<open>How many new buffers of \<open>m\<close> bytes hold what does not fit in the room there is.\<close>

definition buffers_needed :: "nat \<Rightarrow> nat \<Rightarrow> nat \<Rightarrow> nat" where
  "buffers_needed n room m = (n - room + m - 1) div m"

lemma buffers_needed_0: "0 < m \<Longrightarrow> buffers_needed n room m = 0 \<longleftrightarrow> n \<le> room"
  by (auto simp: buffers_needed_def div_eq_0_iff)

lemma buffers_needed_enough:
  assumes "0 < m" and "buffers_needed n room m \<le> k"
  shows "n \<le> room + k * m"
proof -
  have "(n - room + m - 1) div m * m \<le> k * m"
    using assms(2) by (simp add: buffers_needed_def)
  moreover have "n - room + m - 1 < ((n - room + m - 1) div m + 1) * m"
    using assms(1) dividend_less_div_times [of m "n - room + m - 1"] by simp
  then have "n - room \<le> (n - room + m - 1) div m * m"
    using assms(1) by (simp add: add_mult_distrib)
  ultimately show ?thesis by linarith
qed

lemma buffers_needed_le:
  assumes "0 < m"
  shows "buffers_needed n room m \<le> n"
proof (cases "n = 0")
  case True
  then show ?thesis using assms by (simp add: buffers_needed_0)
next
  case False
  have "n - room + m - 1 \<le> n * m"
  proof -
    have "n + m - 1 \<le> n * m"
      using assms False by (cases n; cases m) auto
    then show ?thesis by linarith
  qed
  then have "(n - room + m - 1) div m \<le> n * m div m" by (rule div_le_mono)
  then show ?thesis using assms by (simp add: buffers_needed_def)
qed

text \<open>What a round leaves to the next ones.\<close>

lemma buffers_needed_step:
  assumes "0 < m" "0 < n"
  shows "0 < room \<Longrightarrow> k = min n room \<Longrightarrow> buffers_needed (n - k) (room - k) m = buffers_needed n room m"
    and "k = min n m \<Longrightarrow> Suc (buffers_needed (n - k) (m - k) m) = buffers_needed n 0 m"
proof -
  show "k = min n room \<Longrightarrow> buffers_needed (n - k) (room - k) m = buffers_needed n room m" if "0 < room"
    by (auto simp: buffers_needed_def min_def)
  assume k: "k = min n m"
  show "Suc (buffers_needed (n - k) (m - k) m) = buffers_needed n 0 m"
  proof (cases "n \<le> m")
    case True
    then have "buffers_needed n 0 m = 1"
      using assms unfolding buffers_needed_def by (intro div_nat_eqI) simp_all
    then show ?thesis using True k assms by (simp add: buffers_needed_def)
  next
    case False
    then have "n + m - 1 = (n - m + m - 1) + m" by simp
    then have "(n + m - 1) div m = Suc ((n - m + m - 1) div m)"
      using assms(1) by (metis add.commute div_add_self1 plus_1_eq_Suc not_gr_zero)
    then show ?thesis using False k by (simp add: buffers_needed_def min_def)
  qed
qed

lemma push_loop_ok:
  assumes "linked l s bs xs" and "fd_size (bl_fd (blists s l)) s \<noteq> 0"
    and "unat n \<le> length src" "length (list_bytes s bs) + unat n < 2 ^ 32"
    and "unat n \<le> list_room fl s bs + length xs * unat (fd_size (bl_fd (blists s l)) s)"
    and fl: "fl AND FS_BUFFER_UPDATE = 0" "fl AND FS_BUFFER_SUSPEND = 0"
  shows "\<exists>ys zs s'. push_loop P l (push_reverse fl) fl src n 0 buffer s = Some (SUCCESS, s') \<and>
     xs = ys @ zs \<and> linked l s' (with_new fl ys bs) zs \<and>
     touches (bl_fd (blists s l)) {l} (set bs \<union> set xs) s s' \<and>
     list_bytes s' (with_new fl ys bs) =
       at_end fl (packed fl (take (unat n) src)) (list_bytes s bs) \<and>
     length ys = buffers_needed (unat n) (list_room fl s bs) (unat (fd_size (bl_fd (blists s l)) s))"
  using assms(1-5)
proof (induction "unat n" arbitrary: n s bs xs src buffer rule: less_induct)
  case less
  let ?rv = "push_reverse fl" and ?f = "bl_fd (blists s l)"
  have m: "0 < unat (fd_size ?f s)" using less.prems(2) by (simp add: unat_gt_0)
  show ?case
  proof (cases "n = 0")
    case True
    moreover from this have "buffers_needed (unat n) (list_room fl s bs) (unat (fd_size ?f s)) = 0"
      using buffers_needed_0 [OF m] by simp
    ultimately show ?thesis using less.prems(1)
      by (intro exI [of _ "[]"] exI [of _ xs] exI [of _ s])
        (simp add: push_loop.simps packed_def at_end_def)
  next
    case False
    obtain k b ys zs s' where k: "0 < unat k" "unat k \<le> unat n"
       "push_loop P l ?rv fl src n 0 buffer s =
         push_loop P l ?rv fl (rest_src ?rv src (unat k)) (n - k) 0 (Some b) s'"
       "xs = ys @ zs" "linked l s' (with_new fl ys bs) zs"
       "touches ?f {l} (set bs \<union> set xs) s s'"
       "list_bytes s' (with_new fl ys bs) =
         at_end fl (packed fl (piece ?rv src (unat n) (unat k))) (list_bytes s bs)"
       "unat n - unat k \<le> length zs * unat (fd_size ?f s)"
       "if 0 < list_room fl s bs
        then ys = [] \<and> unat k = min (unat n) (list_room fl s bs) \<and>
          list_room fl s' (with_new fl ys bs) = list_room fl s bs - unat k
        else length ys = 1 \<and> unat k = min (unat n) (unat (fd_size ?f s)) \<and>
          list_room fl s' (with_new fl ys bs) = unat (fd_size ?f s) - unat k"
      using push_round [OF less.prems(1,2) _ less.prems(3,4,5) fl, of P ?rv buffer] False
      by (auto simp: word_gt_0)
    have nk: "unat (n - k) = unat n - unat k" using k(2) by (rule unat_diff_small)
    have f': "bl_fd (blists s' l) = ?f" using touches_fd [OF k(6)] .
    have m': "fd_size ?f s' = fd_size ?f s" using touches_size [OF k(6)] .
    have lp: "length (piece ?rv src (unat n) (unat k)) = unat k"
      using less.prems(3) k(2) by (cases ?rv) (auto simp: piece_def)
    obtain us vs s2 where IH:
       "push_loop P l ?rv fl (rest_src ?rv src (unat k)) (n - k) 0 (Some b) s' = Some (SUCCESS, s2)"
       "zs = us @ vs" "linked l s2 (with_new fl us (with_new fl ys bs)) vs"
       "touches (bl_fd (blists s' l)) {l} (set (with_new fl ys bs) \<union> set zs) s' s2"
       "list_bytes s2 (with_new fl us (with_new fl ys bs)) =
         at_end fl (packed fl (take (unat (n - k)) (rest_src ?rv src (unat k))))
           (list_bytes s' (with_new fl ys bs))"
       "length us = buffers_needed (unat (n - k)) (list_room fl s' (with_new fl ys bs))
          (unat (fd_size (bl_fd (blists s' l)) s'))"
    proof -
      have "unat (n - k) < unat n" using nk k(1,2) by simp
      moreover have "fd_size (bl_fd (blists s' l)) s' \<noteq> 0" using less.prems(2) f' m' by simp
      moreover have "unat (n - k) \<le> length (rest_src ?rv src (unat k))"
        using nk less.prems(3) k(2) by (cases ?rv) (auto simp: rest_src_def)
      moreover have "length (list_bytes s' (with_new fl ys bs)) + unat (n - k) < 2 ^ 32"
        using k(2,7) lp nk less.prems(4) by simp
      moreover have "unat (n - k) \<le> list_room fl s' (with_new fl ys bs) +
          length zs * unat (fd_size (bl_fd (blists s' l)) s')"
        using k(8) nk f' m' by simp
      ultimately show thesis using less.hyps [OF _ k(5)] that by blast
    qed
    have "touches ?f {l} (set bs \<union> set xs) s' s2"
      using IH(4) f' k(4) by (auto simp: set_with_new elim: touches_mono)
    then have "touches ?f {l} (set bs \<union> set xs) s s2" by (rule touches_trans [OF k(6)])
    moreover have "list_bytes s2 (with_new fl (ys @ us) bs) =
        at_end fl (packed fl (take (unat n) src)) (list_bytes s bs)"
      using IH(5) k(7) pieces_add_up [OF k(2) less.prems(3), of fl "list_bytes s bs"] nk
      by (simp add: with_new_append)
    moreover have "length (ys @ us) =
        buffers_needed (unat n) (list_room fl s bs) (unat (fd_size ?f s))"
    proof -
      have "0 < unat n" using False by (simp add: unat_gt_0)
      show ?thesis
      proof (cases "0 < list_room fl s bs")
        case True
        have "ys = []" and "unat k = min (unat n) (list_room fl s bs)"
          and "list_room fl s' (with_new fl ys bs) = list_room fl s bs - unat k"
          using k(9) unfolding if_P [OF True] by blast+
        then show ?thesis
          using buffers_needed_step(1) [OF m \<open>0 < unat n\<close> True] IH(6) f' m' by (simp add: nk)
      next
        case False
        have "length ys = 1" and "unat k = min (unat n) (unat (fd_size ?f s))"
          and "list_room fl s' (with_new fl ys bs) = unat (fd_size ?f s) - unat k"
          using k(9) unfolding if_not_P [OF False] by blast+
        then show ?thesis
          using buffers_needed_step(2) [OF m \<open>0 < unat n\<close>] IH(6) f' m' False by (simp add: nk)
      qed
    qed
    ultimately show ?thesis using k(3,4) IH(1-3)
      by (intro exI [of _ "ys @ us"] exI [of _ vs] exI [of _ s2]) (simp add: with_new_append)
  qed
qed

section \<open>The whole push\<close>

lemma ceil_div_unat:
  assumes "b \<noteq> 0" and "unat a + unat b < 2 ^ 32"
  shows "\<exists>q. CEIL_DIV a b = Some q \<and> unat q = (unat a + unat b - 1) div unat b"
proof -
  have ub: "0 < unat b" using assms(1) by (simp add: unat_gt_0)
  have ab: "unat (a + b) = unat a + unat b" using assms(2) by (simp add: unat_word_ariths)
  then have "1 \<le> unat (a + b)" using ub by simp
  then have "unat (a + b - 1) = unat a + unat b - 1"
    using ab by (subst unat_diff_small) simp_all
  then show ?thesis using assms(1) by (simp add: CEIL_DIV_def unat_div_distrib)
qed

lemma room_on_unat:
  assumes lk: "linked l s bs xs"
  shows "unat (room_on (if fl AND FS_BUFFER_HEAD \<noteq> 0 then FS_BUFFER_SPACE else FS_BUFFER_TAIL_ROOM)
      (if fl AND FS_BUFFER_HEAD \<noteq> 0 then head (bl_list (blists s l)) else tail (bl_list (blists s l))) n s)
    = min (unat n) (list_room fl s bs)"
  using list_ends [OF lk]
  by (auto simp: room_on_def list_room_def end_room_def end_buffer_def word_less_nat_alt
    word_gt_0 unat_eq_zero min_def)

lemma push_num_unat:
  assumes lk: "linked l s bs xs" and d: "fs_buffer (fds s (bl_fd (blists s l))) = Some d"
    and m: "buffer_size d \<noteq> 0" and n: "unat n + unat (buffer_size d) < 2 ^ 32"
    and fl: "fl AND FS_BUFFER_UPDATE = 0"
  shows "\<exists>q. push_num_buffers l n fl s = Some q \<and>
    unat q = buffers_needed (unat n) (list_room fl s bs) (unat (buffer_size d))"
proof -
  let ?r = "room_on (if fl AND FS_BUFFER_HEAD \<noteq> 0 then FS_BUFFER_SPACE else FS_BUFFER_TAIL_ROOM)
      (if fl AND FS_BUFFER_HEAD \<noteq> 0 then head (bl_list (blists s l)) else tail (bl_list (blists s l))) n s"
  have ur: "unat ?r = min (unat n) (list_room fl s bs)" using room_on_unat [OF lk] .
  have nr: "unat (n - ?r) = unat n - list_room fl s bs"
    using ur by (subst unat_diff_small) simp_all
  have run: "push_num_buffers l n fl s = buffers_for (bl_fd (blists s l)) (n - ?r) s"
    using fl by (simp add: push_num_buffers_def)
  show ?thesis
  proof (cases "n - ?r = 0")
    case True
    then have "unat n \<le> list_room fl s bs" using nr by simp
    moreover have "0 < unat (buffer_size d)" using m by (simp add: unat_gt_0)
    ultimately show ?thesis using run True by (simp add: buffers_for_def buffers_needed_0)
  next
    case False
    have "unat (n - ?r) + unat (buffer_size d) < 2 ^ 32" using n nr by simp
    from ceil_div_unat [OF m this] show ?thesis
      using run False d nr by (auto simp: buffers_for_def buffers_needed_def word_gt_0)
  qed
qed

lemma not_suspend_flags:
  fixes fl :: u8
  assumes "fl AND FS_BUFFER_SUSPEND = 0"
  shows "fl AND NOT FS_BUFFER_SUSPEND = fl"
proof -
  have "fl = (fl AND FS_BUFFER_SUSPEND) OR (fl AND NOT FS_BUFFER_SUSPEND)"
    by (simp add: bit_eq_iff bit_simps) blast
  then show ?thesis using assms by simp
qed

lemma push_prepare_eq:
  assumes lk: "linked l s bs xs" and d: "fs_buffer (fds s (bl_fd (blists s l))) = Some d"
    and m: "buffer_size d \<noteq> 0" and n: "unat n + unat (buffer_size d) < 2 ^ 32"
    and fl: "fl AND FS_BUFFER_UPDATE = 0" "fl AND FS_BUFFER_SUSPEND = 0"
    and need: "need = buffers_needed (unat n) (list_room fl s bs) (unat (buffer_size d))"
    and th: "th = (if fl AND FS_BUFFER_TH \<noteq> 0 then unat (threshold_buffers d) else 0)"
    and small: "th + need < 2 ^ 32"
  shows "push_prepare P l n fl s =
    Some (if need = 0 \<or> th + need \<le> length xs then SUCCESS else FS_BUFFER_NO_SPACE, s)"
proof -
  obtain q where q: "push_num_buffers l n fl s = Some q" "unat q = need"
    using push_num_unat [OF lk d m n fl(1)] need by blast
  have count: "unat (free_buffers_buffers d) = length xs"
    using linkedD(3) [OF lk] d by (auto simp: pool_holds_def)
  have "unat ((if fl AND FS_BUFFER_TH \<noteq> 0 then threshold_buffers d else 0) + q) = th + need"
    using q(2) small th by (auto simp: unat_word_ariths)
  then have "free_buffers_buffers d < (if fl AND FS_BUFFER_TH \<noteq> 0 then threshold_buffers d else 0) + q
      \<longleftrightarrow> length xs < th + need"
    using count by (simp only: word_less_nat_alt)
  moreover have "q > 0 \<longleftrightarrow> need \<noteq> 0" using q(2) by (auto simp: word_gt_0 unat_gt_0)
  ultimately show ?thesis using q(1) d fl(2) by (simp add: push_prepare_def not_le)
qed

lemma list_push:
  assumes lk: "linked l s bs xs" and d: "fs_buffer (fds s (bl_fd (blists s l))) = Some d"
    and m: "buffer_size d \<noteq> 0" and n: "unat n + unat (buffer_size d) < 2 ^ 32"
    and src: "unat n \<le> length src" "length (list_bytes s bs) + unat n < 2 ^ 32"
    and fl: "fl AND FS_BUFFER_UPDATE = 0" "fl AND FS_BUFFER_SUSPEND = 0"
    and need: "need = buffers_needed (unat n) (list_room fl s bs) (unat (buffer_size d))"
    and th: "th = (if fl AND FS_BUFFER_TH \<noteq> 0 then unat (threshold_buffers d) else 0)"
    and small: "th + need < 2 ^ 32"
  shows "if need = 0 \<or> th + need \<le> length xs
     then \<exists>ys zs s'. fs_buffer_list_push P l (Some src) n fl s = Some (SUCCESS, s') \<and>
       xs = ys @ zs \<and> length ys = need \<and> linked l s' (with_new fl ys bs) zs \<and>
       touches (bl_fd (blists s l)) {l} (set bs \<union> set xs) s s' \<and>
       list_bytes s' (with_new fl ys bs) = at_end fl (packed fl (take (unat n) src)) (list_bytes s bs)
     else fs_buffer_list_push P l (Some src) n fl s = Some (FS_BUFFER_NO_SPACE, s)"
proof -
  note prep = push_prepare_eq [OF lk d m n fl need th small, of P]
  have rv: "((fl AND FS_BUFFER_PACKED \<noteq> 0) \<noteq> (fl AND FS_BUFFER_HEAD \<noteq> 0 \<and> fl AND FS_BUFFER_UPDATE = 0 \<and> (0 :: u8) = 0))
      = push_reverse fl"
    using fl(1) by (simp add: push_reverse_def)
  have um: "0 < unat (buffer_size d)" using m by (simp add: unat_gt_0)
  have fd: "fd_size (bl_fd (blists s l)) s = buffer_size d" using d by (simp add: fd_size_def)
  show ?thesis
  proof (cases "need = 0 \<or> th + need \<le> length xs")
    case False
    then have "0 < n" using um by (auto simp: need buffers_needed_0 word_gt_0)
    then have "fs_buffer_list_push P l (Some src) n fl s = Some (FS_BUFFER_NO_SPACE, s)"
      using False prep fl(1)
      by (simp add: fs_buffer_list_push_offset_def FS_BUFFER_NO_SPACE_def SUCCESS_def)
    then show ?thesis using False by simp
  next
    case True
    have "need \<le> length xs" using True by auto
    then have "unat n \<le> list_room fl s bs + length xs * unat (fd_size (bl_fd (blists s l)) s)"
      using buffers_needed_enough [OF um] unfolding need fd by simp
    moreover have "fd_size (bl_fd (blists s l)) s \<noteq> 0" using fd m by simp
    ultimately obtain ys zs s' where loop:
       "push_loop P l (push_reverse fl) fl src n 0 None s = Some (SUCCESS, s')"
       "xs = ys @ zs" "linked l s' (with_new fl ys bs) zs"
       "touches (bl_fd (blists s l)) {l} (set bs \<union> set xs) s s'"
       "list_bytes s' (with_new fl ys bs) = at_end fl (packed fl (take (unat n) src)) (list_bytes s bs)"
       "length ys = need"
      using push_loop_ok [OF lk _ src _ fl, of P None] unfolding need fd by blast
    have "fs_buffer_list_push P l (Some src) n fl s =
        push_loop P l (push_reverse fl) fl src n 0 None s"
      using True prep fl(1) not_suspend_flags [OF fl(2)]
      unfolding fs_buffer_list_push_offset_def rv by simp
    then show ?thesis using True loop by auto
  qed
qed

end
