(* ===== verification/FsLists.thy ===== *)
theory FsLists
  imports FsPush
begin

text \<open>
  Buffer lists as a whole: giving them back, taking new ones, setting up a descriptor, and
  dividing a list.
\<close>

section \<open>The free lists of a descriptor\<close>

definition lists_hold :: "fd \<Rightarrow> 'z fsstate_scheme \<Rightarrow> lid list \<Rightarrow> bool" where
  "lists_hold f s ls \<longleftrightarrow>
     (\<exists>d. fs_buffer (fds s f) = Some d \<and> sll_holds (list_next s, free_lists d) ls \<and>
        unat (free_lists_buffers d) = length ls)"

lemma touches_buffer:
  assumes "touches f L A s s'"
  shows "map_option (\<lambda>d. d\<lparr>free_buffers := \<lparr>head = None, tail = None\<rparr>, free_buffers_buffers := 0\<rparr>)
      (fs_buffer (fds s' g)) =
    map_option (\<lambda>d. d\<lparr>free_buffers := \<lparr>head = None, tail = None\<rparr>, free_buffers_buffers := 0\<rparr>)
      (fs_buffer (fds s g))"
proof (cases "g = f")
  case True
  have "fs_buffer (fd_rest (fds s' f)) = fs_buffer (fd_rest (fds s f))"
    using assms by (simp add: touches_def)
  then show ?thesis using True by (simp add: fd_rest_def)
qed (simp add: touchesD(4) [OF assms])

text \<open>What is not part of the pool stays.\<close>

lemma touches_data:
  assumes "touches f L A s s'" and "fs_buffer (fds s g) = Some d"
  shows "\<exists>d'. fs_buffer (fds s' g) = Some d' \<and> free_lists d' = free_lists d \<and>
     free_lists_buffers d' = free_lists_buffers d \<and> buffer_size d' = buffer_size d \<and>
     threshold_buffers d' = threshold_buffers d \<and> threshold_lists d' = threshold_lists d \<and>
     rx_lists d' = rx_lists d \<and> tx_lists d' = tx_lists d"
  using touches_buffer [OF assms(1), of g] assms(2)
  by (cases "fs_buffer (fds s' g)")
    (auto dest: arg_cong [of _ _ free_lists] arg_cong [of _ _ free_lists_buffers]
      arg_cong [of _ _ buffer_size] arg_cong [of _ _ threshold_buffers]
      arg_cong [of _ _ threshold_lists] arg_cong [of _ _ rx_lists] arg_cong [of _ _ tx_lists])

text \<open>The lists of received data.\<close>

definition rx_queue :: "fd \<Rightarrow> 'z fsstate_scheme \<Rightarrow> lid sll_head option" where
  "rx_queue f s = map_option rx_lists (fs_buffer (fds s f))"

lemma touches_rx_queue: "touches f L A s s' \<Longrightarrow> rx_queue g s' = rx_queue g s"
proof (cases "fs_buffer (fds s g)")
  case None
  assume "touches f L A s s'"
  from touches_buffer [OF this, of g] None show ?thesis by (simp add: rx_queue_def)
next
  case (Some d)
  assume "touches f L A s s'"
  from touches_data [OF this Some] Some show ?thesis by (auto simp: rx_queue_def)
qed

lemma touches_sizes: "touches f L A s s' \<Longrightarrow> fd_sizes g s' = fd_sizes g s"
proof (cases "fs_buffer (fds s g)")
  case None
  assume "touches f L A s s'"
  from touches_buffer [OF this, of g] None show ?thesis by (simp add: fd_sizes_def)
next
  case (Some d)
  assume "touches f L A s s'"
  from touches_data [OF this Some] Some show ?thesis by (auto simp: fd_sizes_def)
qed

lemma touches_lists_hold:
  assumes "touches f L A s s'" and "lists_hold g s ls"
  shows "lists_hold g s' ls"
  using assms touches_data [OF assms(1)] touchesD(5) [OF assms(1)]
  unfolding lists_hold_def by fastforce

section \<open>Giving a list back\<close>

lemma append_list_loop_ok:
  assumes "calm f s" and "f = bl_fd (blists s l)" and "sll_holds (chain_sll l s) bs"
    and "\<And>b. b \<in> set bs \<Longrightarrow> sized (fd_size f s) (bufs s b)" and "pool_holds f s xs"
    and "set bs \<inter> set xs = {}" "length bs + length xs < 2 ^ 32"
  shows "\<exists>s'. append_list_loop P l fl s = Some s' \<and> sll_holds (chain_sll l s') [] \<and>
     pool_holds f s' (xs @ bs) \<and> touches f {l} (set bs \<union> set xs) s s'"
  using assms
proof (induction bs arbitrary: s xs)
  case Nil
  obtain c where "sll_pop (chain_sll l s) = (None, c)" "sll_holds c []"
      "links_changed_in {} (chain_sll l s) c"
    using sll_pop_holds [OF Nil.prems(3)] by auto
  moreover from this have "c = chain_sll l s"
    using Nil.prems(3) by (auto simp: sll_pop_def split: option.splits)
  moreover have "set_chain l (chain_sll l s) s = s"
    by (simp add: set_chain_def chain_sll_def upd_blist_def)
  ultimately show ?case using Nil.prems by (subst append_list_loop.simps) simp
next
  case (Cons b bs)
  obtain c where c: "sll_pop (chain_sll l s) = (Some b, c)" "sll_holds c bs"
      "links_changed_in (set (b # bs)) (chain_sll l s) c"
    using sll_pop_holds [OF Cons.prems(3)] by auto
  let ?s = "set_chain l c s"
  let ?A = "set (b # bs) \<union> set xs"
  have dist: "b \<notin> set bs" using sll_holds_distinct [OF Cons.prems(3)] by simp
  have t1: "touches f {l} ?A s ?s"
    using links_changedD [OF c(3)] by (auto simp: touches_def list_rest_def chain_sll_def)
  have "pool_holds f ?s xs"
  proof (rule pool_holds_frame [OF Cons.prems(5)])
    fix a assume "a \<in> set xs"
    then have "a \<notin> set (b # bs)" using Cons.prems(6) by auto
    then show "bufs ?s a = bufs s a \<and> buf_next ?s a = buf_next s a"
      using links_changedD [OF c(3)] by (simp add: chain_sll_def)
  qed simp
  moreover have "calm f ?s" using Cons.prems(1) touches_calm [OF t1] by simp
  moreover have "length xs + 1 < 2 ^ 32" using Cons.prems(7) by simp
  moreover have bx: "b \<notin> set xs" using Cons.prems(6) by simp
  moreover have "sized (fd_size f ?s) (bufs ?s b)"
    using Cons.prems(4) touches_size [OF t1] by simp
  ultimately have "\<exists>s1. fs_buffer_add_buffer P f b fl ?s = Some s1 \<and> pool_holds f s1 (xs @ [b]) \<and>
      touches f {} (insert b (set xs)) ?s s1 \<and> (\<forall>c. c \<noteq> b \<longrightarrow> bufs s1 c = bufs ?s c) \<and>
      fs_flags (fds s1 f) AND FS_SPACE_AVAILABLE \<noteq> 0"
    by (rule_tac add_buffer_ok)
  then obtain s1 where s1: "fs_buffer_add_buffer P f b fl ?s = Some s1" "pool_holds f s1 (xs @ [b])"
      "touches f {} (insert b (set xs)) ?s s1" "\<forall>c. c \<noteq> b \<longrightarrow> bufs s1 c = bufs ?s c"
    by blast
  have "touches f {l} ?A ?s s1" using s1(3) by (rule touches_mono) auto
  note t = touches_trans [OF t1 this]
  have nx: "buf_next s1 a = fst c a" if "a \<in> set bs" for a
    using touchesD(2) [OF s1(3), of a] that dist Cons.prems(6) by auto
  have "sll_holds (fst c, snd c) bs" using c(2) by simp
  from sll_holds_frame [OF this nx] have "sll_holds (buf_next s1, snd c) bs" .
  moreover have "blists s1 l = blists ?s l" using s1(3) by (simp add: touches_def)
  ultimately have "sll_holds (chain_sll l s1) bs" by (simp add: chain_sll_def)
  moreover have "calm f s1" using Cons.prems(1) touches_calm [OF t] by simp
  moreover have "f = bl_fd (blists s1 l)" using touches_fd [OF t, of l] Cons.prems(2) by simp
  moreover have "sized (fd_size f s1) (bufs s1 a)" if "a \<in> set bs" for a
  proof -
    have "bufs s1 a = bufs s a" using s1(4) dist that by auto
    then show ?thesis using Cons.prems(4) [of a] that touches_size [OF t] by simp
  qed
  moreover have "set bs \<inter> set (xs @ [b]) = {}" using Cons.prems(6) dist by auto
  moreover have "length bs + length (xs @ [b]) < 2 ^ 32" using Cons.prems(7) by simp
  ultimately obtain s2 where s2: "append_list_loop P l fl s1 = Some s2" "sll_holds (chain_sll l s2) []"
      "pool_holds f s2 ((xs @ [b]) @ bs)" "touches f {l} (set bs \<union> set (xs @ [b])) s1 s2"
    using Cons.IH [of s1 "xs @ [b]"] s1(2) by blast
  have "bl_fd (blists ?s l) = f" using Cons.prems(2) by simp
  then have "append_list_loop P l fl s = Some s2"
    using c(1) s1(1) s2(1) by (subst append_list_loop.simps) (simp add: Let_def)
  moreover have "touches f {l} ?A s1 s2" using s2(4) by (rule touches_mono) auto
  ultimately show ?case using s2(2,3) touches_trans [OF t] by auto
qed

lemma set_list_queue_sel [simp]:
  "fds (set_list_queue f put q s) = (fds s)(f := (fds s f)\<lparr>fs_buffer :=
     map_option (put (snd q)) (fs_buffer (fds s f))\<rparr>)"
  "bufs (set_list_queue f put q s) = bufs s" "buf_next (set_list_queue f put q s) = buf_next s"
  "blists (set_list_queue f put q s) = blists s" "list_next (set_list_queue f put q s) = fst q"
  "fs_params (set_list_queue f put q s) = fs_params s"
  "buf_params (set_list_queue f put q s) = buf_params s"
  "fsstate.more (set_list_queue f put q s) = fsstate.more s"
  "kstate.truncate (set_list_queue f put q s) = kstate.truncate s"
  by (simp_all add: set_list_queue_def upd_data_def)

lemma list_init_sel [simp]:
  "fds (fs_buffer_list_init l f s) = fds s" "bufs (fs_buffer_list_init l f s) = bufs s"
  "buf_next (fs_buffer_list_init l f s) = buf_next s"
  "blists (fs_buffer_list_init l f s) = (blists s)(l := \<lparr>bl_list = \<lparr>head = None, tail = None\<rparr>,
     bl_total_length = 0, bl_fd = f, bl_free = None, bl_free_data = NULLP\<rparr>)"
  "list_next (fs_buffer_list_init l f s) = (list_next s)(l := None)"
  "kstate.truncate (fs_buffer_list_init l f s) = kstate.truncate s"
  by (simp_all add: fs_buffer_list_init_def)

text \<open>
  A list that goes back without a user wanting it empties into the pool, is cleared and joins
  the free lists.
\<close>

lemma add_list_free_ok:
  assumes calm: "calm f s" and f: "f = bl_fd (blists s l)" and own: "bl_free (blists s l) = None"
    and chain: "sll_holds (chain_sll l s) bs"
    and sized: "\<And>b. b \<in> set bs \<Longrightarrow> sized (fd_size f s) (bufs s b)"
    and pool: "pool_holds f s xs" "set bs \<inter> set xs = {}" "length bs + length xs < 2 ^ 32"
    and lists: "lists_hold f s ls" "l \<notin> set ls" "length ls + 1 < 2 ^ 32"
  shows "\<exists>s'. fs_buffer_add_list P f l FS_LIST_FREE fl s = Some s' \<and>
     pool_holds f s' (xs @ bs) \<and> lists_hold f s' (ls @ [l]) \<and>
     blists s' l = \<lparr>bl_list = \<lparr>head = None, tail = None\<rparr>, bl_total_length = 0, bl_fd = f,
       bl_free = None, bl_free_data = NULLP\<rparr> \<and>
     kstate.truncate s' = kstate.truncate s \<and> (\<forall>m. m \<noteq> l \<longrightarrow> blists s' m = blists s m) \<and>
     (\<forall>g. g \<noteq> f \<longrightarrow> fds s' g = fds s g) \<and> fd_size f s' = fd_size f s \<and>
     (\<forall>b. b \<notin> set bs \<union> set xs \<longrightarrow> bufs s' b = bufs s b \<and> buf_next s' b = buf_next s b) \<and>
     (\<forall>m. m \<notin> insert l (set ls) \<longrightarrow> list_next s' m = list_next s m) \<and>
     fd_sizes f s' = fd_sizes f s \<and> rx_queue f s' = rx_queue f s \<and> fsstate.more s' = fsstate.more s"
proof -
  obtain s1 where s1: "append_list_loop P l fl s = Some s1" "sll_holds (chain_sll l s1) []"
      "pool_holds f s1 (xs @ bs)" "touches f {l} (set bs \<union> set xs) s s1"
    using append_list_loop_ok [OF calm f chain sized pool, of P fl] by blast
  define s2 where "s2 = fs_buffer_list_init l f (upd_blist l (\<lambda>x. x\<lparr>bl_total_length := 0\<rparr>) s1)"
  have l1: "lists_hold f s1 ls" using touches_lists_hold [OF s1(4) lists(1)] .
  then obtain d where d: "fs_buffer (fds s1 f) = Some d" "sll_holds (list_next s1, free_lists d) ls"
      "unat (free_lists_buffers d) = length ls" by (auto simp: lists_hold_def)
  have "sll_holds (list_next s2, free_lists d) ls"
    by (rule sll_holds_frame [OF d(2)]) (use lists(2) in \<open>auto simp: s2_def\<close>)
  from sll_append_holds [OF this lists(2)] obtain q where q:
    "sll_append (Some l) (list_next s2, free_lists d) = Some q" "sll_holds q (ls @ [l])"
    "links_changed_in (insert l (set ls)) (list_next s2, free_lists d) q" by blast
  let ?s3 = "upd_data f (\<lambda>d. d\<lparr>free_lists_buffers := free_lists_buffers d + 1\<rparr>)
      (set_list_queue f (\<lambda>h. free_lists_update (\<lambda>_. h)) q s2)"
  have kern: "kstate.truncate ?s3 = kstate.truncate s"
    using s1(4) by (simp add: upd_data_def s2_def touches_def)
  have fd2: "fds s2 = fds s1" by (simp add: s2_def)
  have d3: "fs_buffer (fds ?s3 f) = Some (d\<lparr>free_lists := snd q,
      free_lists_buffers := free_lists_buffers d + 1\<rparr>)"
    using d(1) fd2 by (simp add: upd_data_def)
  have calm3: "calm f ?s3" using calm calm_cong [OF kern, of f] by (simp only:)
  have res: "resume_condition (kernel_platform P) (Buf_condition f) r True ?s3 = Some ?s3"
    for r :: "FS_BUFFER_PARAM resume option"
    using calm3 by (intro resume_condition_calm) (simp_all only: calm_def)
  have run: "fs_buffer_add_list P f l FS_LIST_FREE fl s = Some ?s3"
  proof -
    obtain d0 where "fs_buffer (fds s f) = Some d0" using pool(1) by (auto simp: pool_holds_def)
    moreover have "bl_fd (blists s1 l) = f" using touches_fd [OF s1(4), of l] f by simp
    ultimately show ?thesis
      using s1(1) own q(1) d(1) fd2 res d3
      by (simp add: fs_buffer_add_list_def FS_LIST_FREE_def FS_BUFFER_RX_def FS_BUFFER_TX_def
        FS_BUFFER_FREE_def fs_buffer_list_append_list_def fs_buffer_add_resume_def s2_def Let_def)
  qed
  have "unat (free_lists_buffers d + 1) = length ls + 1"
    using d(3) lists(3) by (simp add: unat_word_ariths)
  then have "lists_hold f ?s3 (ls @ [l])"
    using d3 q(2) by (simp add: lists_hold_def) (simp add: upd_data_def)
  moreover have "pool_holds f ?s3 (xs @ bs)"
    using s1(3) d(1) by (simp add: pool_holds_def upd_data_def s2_def)
  moreover have "list_next ?s3 m = list_next s m" if "m \<notin> insert l (set ls)" for m
    using links_changedD [OF q(3) that] that touchesD(5) [OF s1(4)]
    by (simp add: upd_data_def s2_def)
  moreover have "fd_size f ?s3 = fd_size f s"
    using d(1) d3 touches_size [OF s1(4), of f] by (simp add: fd_size_def)
  moreover have "blists ?s3 l = \<lparr>bl_list = \<lparr>head = None, tail = None\<rparr>, bl_total_length = 0, bl_fd = f,
       bl_free = None, bl_free_data = NULLP\<rparr>"
      "\<forall>m. m \<noteq> l \<longrightarrow> blists ?s3 m = blists s m" "\<forall>g. g \<noteq> f \<longrightarrow> fds ?s3 g = fds s g"
      "\<forall>b. b \<notin> set bs \<union> set xs \<longrightarrow> bufs ?s3 b = bufs s b \<and> buf_next ?s3 b = buf_next s b"
    using touchesD [OF s1(4)] by (simp_all add: upd_data_def s2_def)
  moreover have "fd_sizes f ?s3 = fd_sizes f s"
    using d(1) d3 touches_sizes [OF s1(4), of f] by (simp add: fd_sizes_def)
  moreover have "rx_queue f ?s3 = rx_queue f s"
    using d(1) d3 touches_rx_queue [OF s1(4), of f] by (simp add: rx_queue_def)
  moreover have "fsstate.more ?s3 = fsstate.more s"
    using s1(4) by (simp add: upd_data_def s2_def touches_def fs_buffer_list_init_def)
  ultimately show ?thesis using run kern by blast
qed

section \<open>Setting a descriptor up\<close>

lemma dataset_buffers_ok:
  assumes "calm f s" and "pool_holds f s xs" and "fd_size f s = n"
    and "distinct bs" "set bs \<inter> set xs = {}" "length bs + length xs < 2 ^ 32"
    and "length bs * unat n \<le> length space"
  shows "\<exists>s'. dataset_buffers P f n space bs (length bs) s = Some s' \<and>
     pool_holds f s' (xs @ bs) \<and> touches f {} (set bs \<union> set xs) s s'"
  using assms
proof (induction bs arbitrary: s xs space)
  case (Cons b bs)
  let ?s = "(upd_buf b (\<lambda>x. fs_buffer_init x (Some (take (unat n) space)) n) s)
      \<lparr>buf_next := (buf_next s)(b := None)\<rparr>"
  let ?A = "set (b # bs) \<union> set xs"
  have t1: "touches f {} ?A s ?s" by (auto simp: touches_def)
  have "pool_holds f ?s xs"
    using Cons.prems(2) by (rule pool_holds_frame) (use Cons.prems(5) in auto)
  moreover have "calm f ?s" using Cons.prems(1) touches_calm [OF t1] by simp
  moreover have "b \<notin> set xs" "length xs + 1 < 2 ^ 32" using Cons.prems(5,6) by auto
  moreover have sp: "unat n \<le> length space" using Cons.prems(7) by simp
  then have "sized (fd_size f ?s) (bufs ?s b)"
    using touches_size [OF t1, of f] Cons.prems(3) by (auto simp: sized_def fs_buffer_init_def)
  ultimately have "\<exists>s1. fs_buffer_add_buffer P f b (ucast FS_BUFFER_ACTIVE) ?s = Some s1 \<and>
      pool_holds f s1 (xs @ [b]) \<and> touches f {} (insert b (set xs)) ?s s1 \<and>
      (\<forall>c. c \<noteq> b \<longrightarrow> bufs s1 c = bufs ?s c) \<and> fs_flags (fds s1 f) AND FS_SPACE_AVAILABLE \<noteq> 0"
    by (rule_tac add_buffer_ok)
  then obtain s1 where s1: "fs_buffer_add_buffer P f b (ucast FS_BUFFER_ACTIVE) ?s = Some s1"
      "pool_holds f s1 (xs @ [b])" "touches f {} (insert b (set xs)) ?s s1" by blast
  have "touches f {} ?A ?s s1" using s1(3) by (rule touches_mono) auto
  note t = touches_trans [OF t1 this]
  have "calm f s1" "fd_size f s1 = n"
    using Cons.prems(1,3) touches_calm [OF t] touches_size [OF t] by simp_all
  moreover have "set bs \<inter> set (xs @ [b]) = {}" "length bs + length (xs @ [b]) < 2 ^ 32"
    using Cons.prems(4-6) by auto
  moreover have "length bs * unat n \<le> length (drop (unat n) space)" using Cons.prems(7) by simp
  ultimately obtain s2 where s2: "dataset_buffers P f n (drop (unat n) space) bs (length bs) s1 = Some s2"
      "pool_holds f s2 ((xs @ [b]) @ bs)" "touches f {} (set bs \<union> set (xs @ [b])) s1 s2"
    using Cons.IH [of s1 "xs @ [b]" "drop (unat n) space"] s1(2) Cons.prems(4) by auto
  have "touches f {} ?A s1 s2" using s2(3) by (rule touches_mono) auto
  with touches_trans [OF t] have "touches f {} ?A s s2" by blast
  then show ?case using sp s1(1) s2(1,2) by (simp add: Let_def)
qed simp

lemma list_init_calm: "calm f s \<Longrightarrow> calm f (fs_buffer_list_init l g s)"
  by (subst calm_cong [of _ s]) simp_all

lemma dataset_lists_ok:
  assumes "calm f s" and "pool_holds f s xs" "length xs < 2 ^ 32" and "lists_hold f s ks"
    and "distinct ls" "set ls \<inter> set ks = {}" "length ls + length ks < 2 ^ 32"
  shows "\<exists>s'. dataset_lists P f ls (length ls) s = Some s' \<and>
     pool_holds f s' xs \<and> lists_hold f s' (ks @ ls) \<and> kstate.truncate s' = kstate.truncate s"
  using assms
proof (induction ls arbitrary: s ks)
  case (Cons l ls)
  let ?s = "fs_buffer_list_init l f s"
  have "sll_holds (chain_sll l ?s) []" by (simp add: chain_sll_def)
  moreover have "pool_holds f ?s xs" using Cons.prems(2) by (rule pool_holds_frame) simp_all
  moreover have "lists_hold f ?s ks"
  proof -
    obtain d where d: "fs_buffer (fds s f) = Some d" "sll_holds (list_next s, free_lists d) ks"
        "unat (free_lists_buffers d) = length ks" using Cons.prems(4) by (auto simp: lists_hold_def)
    have "sll_holds (list_next ?s, free_lists d) ks"
      by (rule sll_holds_frame [OF d(2)]) (use Cons.prems(6) in auto)
    then show ?thesis using d by (simp add: lists_hold_def)
  qed
  moreover have "l \<notin> set ks" "length ks + 1 < 2 ^ 32" using Cons.prems(6,7) by auto
  ultimately obtain s1 where s1: "fs_buffer_add_list P f l FS_LIST_FREE (ucast FS_BUFFER_ACTIVE) ?s = Some s1"
      "pool_holds f s1 xs" "lists_hold f s1 (ks @ [l])" "kstate.truncate s1 = kstate.truncate ?s"
    using add_list_free_ok [of f ?s l "[]" xs ks P "ucast FS_BUFFER_ACTIVE"]
      list_init_calm [OF Cons.prems(1)] Cons.prems(3) by auto
  have k: "kstate.truncate s1 = kstate.truncate s" using s1(4) by simp
  have "calm f s1" using Cons.prems(1) calm_cong [OF k] by simp
  moreover have "set ls \<inter> set (ks @ [l]) = {}" "length ls + length (ks @ [l]) < 2 ^ 32"
    using Cons.prems(5-7) by auto
  ultimately obtain s2 where "dataset_lists P f ls (length ls) s1 = Some s2" "pool_holds f s2 xs"
      "lists_hold f s2 ((ks @ [l]) @ ls)" "kstate.truncate s2 = kstate.truncate s1"
    using Cons.IH [of s1 "ks @ [l]"] s1(2,3) Cons.prems(3,5) by auto
  then show ?case using s1(1) k by (simp add: Let_def)
qed simp

text \<open>
  Setting up a descriptor without a lock: afterwards every buffer is in the pool and every list
  is free.
\<close>

lemma dataset_ok:
  assumes neutral: "lock_neutral s" and idle: "suspend_list (conds s (Fs_condition f)) = []"
    and lock: "fs_get_lock (fds s f) = None" "fs_release_lock (fds s f) = None"
    and d: "free_buffers d = \<lparr>head = None, tail = None\<rparr>" "free_buffers_buffers d = 0"
      "free_lists d = \<lparr>head = None, tail = None\<rparr>" "free_lists_buffers d = 0"
    and space: "buffer_space d = Some mem" "unat (num_buffers d) * unat (buffer_size d) \<le> length mem"
    and bs: "buffers d = Some bs" "length bs = unat (num_buffers d)" "distinct bs"
    and ls: "buffer_lists d = Some ls" "length ls = unat (num_buffer_lists d)" "distinct ls"
  shows "\<exists>s'. fs_buffer_dataset P f (Some d) s = Some s' \<and> pool_holds f s' bs \<and> lists_hold f s' ls"
proof -
  let ?s1 = "upd_fd f (\<lambda>x. x\<lparr>fs_buffer := Some d\<rparr>) (set_flags f FS_BUFFERED s)"
  let ?s2 = "upd_cond (Buf_condition f) (\<lambda>_. zero_condition\<lparr>c_data := A_fd f,
       c_lock := Some fs_condition_lock_ptr, c_unlock := Some fs_condition_unlock_ptr,
       do_suspend := Some fs_buffer_do_suspend_ptr\<rparr>) ?s1"
  have f2: "fds ?s2 = fds ?s1" by (simp add: upd_cond_def)
  have k1: "kstate.truncate ?s1 = kstate.truncate s" by simp
  note sel1 = truncate_sel [OF k1]
  have "lock_neutral ?s2" using neutral sel1 unfolding lock_neutral_def
    by (simp only: upd_cond_sel)
  moreover have "suspend_list (conds ?s2 (Fs_condition f)) = []" using idle sel1 by simp
  ultimately have calm: "calm f ?s2" by (simp add: calm_def zero_condition_def)
  have dd: "fs_buffer (fds ?s2 f) = Some d" using f2 by simp
  have pool: "pool_holds f ?s2 []" using dd d by (simp add: pool_holds_def)
  have lists: "lists_hold f ?s2 []" using dd d by (simp add: lists_hold_def)
  have lb: "length bs < 2 ^ 32" "length ls < 2 ^ 32"
    unfolding bs(2) ls(2)
    using unsigned_less [of "num_buffers d", where 'a = nat]
      unsigned_less [of "num_buffer_lists d", where 'a = nat] by simp_all
  have size: "fd_size f ?s2 = buffer_size d" using dd by (simp add: fd_size_def)
  have sp: "length bs * unat (buffer_size d) \<le> length mem" using space(2) bs(2) by simp
  obtain s3 where s3: "dataset_buffers P f (buffer_size d) mem bs (length bs) ?s2 = Some s3"
      "pool_holds f s3 ([] @ bs)" "touches f {} (set bs \<union> set []) ?s2 s3"
    using dataset_buffers_ok [OF calm pool size bs(3) _ _ sp, of P] lb(1) by auto
  have "calm f s3" using calm touches_calm [OF s3(3)] by simp
  moreover have "lists_hold f s3 []" using touches_lists_hold [OF s3(3) lists] .
  ultimately obtain s4 where s4: "dataset_lists P f ls (length ls) s3 = Some s4"
      "pool_holds f s4 bs" "lists_hold f s4 ([] @ ls)"
    using dataset_lists_ok [of f s3 bs "[]" ls P] s3(2) lb ls(3) by auto
  have "fs_buffer_dataset P f (Some d) s = Some s4"
  proof -
    have "fd_get_lock P f s = Some (SUCCESS, s)"
      using lock by (simp add: fd_get_lock_def fd_try_get_lock_def)
    moreover have "fd_release_lock P f ?s2 = Some ?s2"
      using lock f2 by (simp add: fd_release_lock_def)
    moreover have "fs_buffer_condition_init f ?s1 = Some ?s2"
      by (simp add: fs_buffer_condition_init_def)
    ultimately show ?thesis
      using space(1) bs(1,2) ls(1,2) s3(1) s4(1) by (simp add: fs_buffer_dataset_def)
  qed
  then show ?thesis using s4 by auto
qed

end
