(* ===== verification/FsDivide.thy ===== *)
theory FsDivide
  imports FsLists
begin

text \<open>
  Dividing a buffer list in two (\<^verbatim>\<open>fs_buffer_list_divide\<close>, used to fragment packets).
\<close>

section \<open>Finding the cut\<close>

lemma divide_find_ok:
  assumes "lseg (buf_next s) p bs None" and "\<And>b. b \<in> set bs \<Longrightarrow> filled m (bufs s b)"
    and "unat k < length (list_bytes s bs)"
  shows "\<exists>as b cs k'. bs = as @ b # cs \<and>
     (divide_find k p s = Some (Some b, None, k') \<and> unat k' < unat (fb_length (bufs s b)) \<and>
        unat k = length (list_bytes s as) + unat k' \<and> (k' = 0 \<longrightarrow> k = 0) \<or>
      cs \<noteq> [] \<and> divide_find k p s = Some (Some b, Some (hd cs), 0) \<and>
        unat k = length (list_bytes s (as @ [b])))"
  using assms
proof (induction bs arbitrary: p k)
  case (Cons b bs)
  have p: "p = Some b" and tl: "lseg (buf_next s) (buf_next s b) bs None" using Cons.prems(1) by auto
  have b: "filled m (bufs s b)" using Cons.prems(2) by simp
  let ?n = "fb_length (bufs s b)"
  consider "k < ?n" | "k = ?n" | "?n < k" by fastforce
  then show ?case
  proof cases
    case 1
    then show ?thesis using p
      by (intro exI [of _ "[]"] exI [of _ b] exI [of _ bs] exI [of _ k])
        (simp add: divide_find.simps word_less_nat_alt)
  next
    case 2
    have "bs \<noteq> []" using 2 Cons.prems(3) filledD(4) [OF b] by (cases bs) auto
    then have "buf_next s b = Some (hd bs)" using tl by (cases bs) auto
    then show ?thesis using p 2 \<open>bs \<noteq> []\<close> filledD(4) [OF b]
      by (intro exI [of _ "[]"] exI [of _ b] exI [of _ bs] exI [of _ 0])
        (simp add: divide_find.simps)
  next
    case 3
    let ?k = "k - ?n"
    have lt: "unat ?n < unat k" using 3 by (simp add: word_less_nat_alt)
    have uk: "unat ?k = unat k - unat ?n" using lt by (intro unat_diff_small) simp
    have "unat ?k < length (list_bytes s bs)" using Cons.prems(3) uk lt filledD(4) [OF b] by simp
    then obtain as c cs k' where IH: "bs = as @ c # cs"
     "divide_find ?k (buf_next s b) s = Some (Some c, None, k') \<and> unat k' < unat (fb_length (bufs s c)) \<and>
        unat ?k = length (list_bytes s as) + unat k' \<and> (k' = 0 \<longrightarrow> ?k = 0) \<or>
      cs \<noteq> [] \<and> divide_find ?k (buf_next s b) s = Some (Some c, Some (hd cs), 0) \<and>
        unat ?k = length (list_bytes s (as @ [c]))"
      using Cons.IH [OF tl, of ?k] Cons.prems(2) by auto
    have "divide_find k p s = divide_find ?k (buf_next s b) s"
      using p 3 by (subst divide_find.simps) (auto simp: Let_def)
    moreover have "?k \<noteq> 0" using 3 by auto
    ultimately show ?thesis using IH uk lt filledD(4) [OF b]
      by (intro exI [of _ "b # as"] exI [of _ c] exI [of _ cs] exI [of _ k']) auto
  qed
qed simp

section \<open>Dividing one buffer\<close>

lemma divide_buffer_ok:
  assumes pool: "pool_holds f s (r # xs)" "length (r # xs) < 2 ^ 32"
    and b: "filled (fd_size f s) (bufs s b)" "b \<notin> set (r # xs)"
    and k: "unat k < unat (fb_length (bufs s b))"
    and fl: "fl AND ucast FS_BUFFER_INPLACE = 0" "fl AND ucast FS_BUFFER_SUSPEND = 0"
  shows "\<exists>s'. fs_buffer_divide P f b fl k s = Some (SUCCESS, Some r, s') \<and>
     pool_holds f s' xs \<and> touches f {} (insert b (set (r # xs))) s s' \<and>
     (\<forall>c. c \<noteq> b \<and> c \<noteq> r \<longrightarrow> bufs s' c = bufs s c) \<and> buf_next s' b = buf_next s b \<and>
     buffer_ok (bufs s' b) \<and> fb_max_length (bufs s' b) = fd_size f s \<and> fb_length (bufs s' b) = k \<and>
     buffer_bytes (bufs s' b) = take (unat k) (buffer_bytes (bufs s b)) \<and>
     filled (fd_size f s) (bufs s' r) \<and>
     buffer_bytes (bufs s' r) = drop (unat k) (buffer_bytes (bufs s b))"
proof -
  obtain s1 where s1: "fs_buffer_get_buffer P f fl s = Some (Some r, s1)" "pool_holds f s1 xs"
      "touches f {} (set (r # xs)) s s1" "bufs s1 = bufs s" "fresh (fd_size f s1) (bufs s1 r)"
    using get_buffer_ok [OF pool fl, of P] by auto
  let ?m = "fd_size f s"
  have size: "fd_size f s1 = ?m" using touches_size [OF s1(3)] .
  have dist: "r \<notin> set xs"
    using pool(1) sll_holds_distinct by (fastforce simp: pool_holds_def)
  have br: "b \<noteq> r" "b \<notin> set xs" using b(2) by auto
  let ?b = "bufs s b" and ?r = "bufs s r"
  obtain mem where mem: "fb_data ?b = Some mem" "length mem = unat (fb_max_length ?b)"
    "unat (fb_off ?b) + unat (fb_length ?b) \<le> unat (fb_max_length ?b)"
    "buffer_bytes ?b = take (unat (fb_length ?b)) (drop (unat (fb_off ?b)) mem)"
    using filledD(1) [OF b(1)] by (rule buffer_okE)
  obtain rmem where rmem: "fb_data ?r = Some rmem" "length rmem = unat ?m" "fb_max_length ?r = ?m"
      "fb_off ?r = 0" "fb_length ?r = 0"
    using s1(4,5) size by (auto simp: fresh_def sized_def)
  have mb: "fb_max_length ?b = ?m" using b(1) by (simp add: filled_def)
  let ?n = "fb_length ?b - k"
  have un: "unat ?n = unat (fb_length ?b) - unat k" using k by (intro unat_diff_small) simp
  have uo: "unat (fb_off ?b + k) = unat (fb_off ?b) + unat k"
    by (rule unat_add_small [where c = "fb_max_length ?b"]) (use mem(3) k in linarith)
  let ?b' = "?b\<lparr>fb_length := k\<rparr>" and ?r' = "?r\<lparr>fb_length := ?n\<rparr>"
  let ?bs = "drop (unat k) (buffer_bytes ?b)"
  let ?r2 = "?r'\<lparr>fb_data := Some (?bs @ drop (length ?bs) rmem)\<rparr>"
  have lbs: "length ?bs = unat ?n" using un filledD(4) [OF b(1)] by simp
  have read: "mem_read ?b' (fb_off ?b + k) ?n = Some ?bs"
    using mem k un uo by (subst mem_read_ok) (simp_all add: drop_take add.commute)
  have fits: "length ?bs \<le> length rmem" unfolding lbs un rmem(2) using mem(3) mb by simp
  have wr: "mem_write ?r' 0 ?bs = Some ?r2"
    using mem_write_ok [of ?r' rmem 0 ?bs] rmem(1) fits by simp
  define s' where "s' = upd_buf r (\<lambda>_. ?r2) (upd_buf b (\<lambda>_. ?b') s1)"
  have run: "fs_buffer_divide P f b fl k s = Some (SUCCESS, Some r, s')"
  proof -
    have a: "\<not> fb_length ?b \<le> k" using k by (simp add: word_le_nat_alt)
    have c: "\<not> fb_max_length ?r < k"
      using k mem(3) mb rmem(3) by (simp add: word_less_nat_alt)
    have "upd_buf r (\<lambda>_. ?r2) (upd_buf b (\<lambda>x. x\<lparr>fb_length := k\<rparr>)
        (upd_buf r (\<lambda>x. x\<lparr>fb_length := ?n\<rparr>) s1)) = s'"
      using br s1(4) by (simp add: s'_def upd_buf_def fun_upd_twist)
    then show ?thesis
      using s1(1,4) a c br read wr rmem(4) by (simp add: fs_buffer_divide_def Let_def)
  qed
  have t1: "touches f {} (insert b (set (r # xs))) s s1" using s1(3) by (rule touches_mono) auto
  have "touches f {} (insert b (set (r # xs))) s1 s'"
    unfolding s'_def by (rule touches_trans [OF touches_upd(1) touches_upd(1)]) simp_all
  note t = touches_trans [OF t1 this]
  have "pool_holds f s' xs" using s1(2) br(2) dist by (simp add: s'_def)
  moreover have bb: "bufs s' b = ?b'" using br by (simp add: s'_def)
  moreover have rr: "bufs s' r = ?r2" by (simp add: s'_def)
  moreover have "buffer_ok ?b'" using mem k by (simp add: buffer_ok_def)
  moreover have "buffer_bytes ?b' = take (unat k) (buffer_bytes ?b)"
    using mem k by (simp add: buffer_bytes_def min_def)
  moreover have "buffer_bytes ?r2 = ?bs" using rmem(4) lbs by (simp add: buffer_bytes_def)
  moreover have "filled ?m ?r2"
  proof -
    have "length (?bs @ drop (length ?bs) rmem) = unat ?m" using fits rmem(2) by simp
    moreover have "unat ?n \<le> unat ?m" using lbs fits rmem(2) by simp
    moreover have "?n \<noteq> 0" using k by auto
    ultimately show ?thesis using rmem(3,4) by (simp add: filled_def buffer_ok_def)
  qed
  moreover have "\<forall>c. c \<noteq> b \<and> c \<noteq> r \<longrightarrow> bufs s' c = bufs s c" using s1(4) by (simp add: s'_def)
  moreover have "buf_next s' b = buf_next s b"
    using touchesD(2) [OF s1(3), of b] b(2) by (simp add: s'_def)
  ultimately show ?thesis using run t mb by simp
qed

section \<open>Taking a free list\<close>

lemma get_list_ok:
  assumes lists: "lists_hold f s (m # ls)" "length (m # ls) < 2 ^ 32"
    and fl: "fl AND ucast FS_BUFFER_INPLACE = 0" "fl AND ucast FS_BUFFER_SUSPEND = 0"
  shows "\<exists>s'. fs_buffer_get_list P f FS_LIST_FREE fl s = Some (Some m, s') \<and>
     lists_hold f s' ls \<and> bufs s' = bufs s \<and> buf_next s' = buf_next s \<and> blists s' = blists s \<and>
     (\<forall>g xs. pool_holds g s' xs = pool_holds g s xs) \<and> (\<forall>g. fd_size g s' = fd_size g s) \<and>
     kstate.truncate s' = kstate.truncate s \<and> (\<forall>a. a \<notin> set (m # ls) \<longrightarrow> list_next s' a = list_next s a) \<and>
     (\<forall>g. fd_sizes g s' = fd_sizes g s) \<and> (\<forall>g. g \<noteq> f \<longrightarrow> fds s' g = fds s g)"
proof -
  obtain d where d: "fs_buffer (fds s f) = Some d" "sll_holds (list_next s, free_lists d) (m # ls)"
      "unat (free_lists_buffers d) = length (m # ls)"
    using lists(1) by (auto simp: lists_hold_def)
  obtain q where q: "sll_pop (list_next s, free_lists d) = (Some m, q)" "sll_holds q ls"
      "links_changed_in (set (m # ls)) (list_next s, free_lists d) q" "fst q m = None"
    using sll_pop_holds [OF d(2)] by auto
  let ?s1 = "set_list_queue f (\<lambda>h. free_lists_update (\<lambda>_. h)) q s"
  let ?s' = "upd_data f (\<lambda>d. d\<lparr>free_lists_buffers := free_lists_buffers d - 1\<rparr>)
      (?s1\<lparr>list_next := (list_next ?s1)(m := None)\<rparr>)"
  have run: "fs_buffer_get_list P f FS_LIST_FREE fl s = Some (Some m, ?s')"
    using d(1) q(1) fl by (simp add: fs_buffer_get_list_def FS_LIST_FREE_def FS_BUFFER_RX_def
      FS_BUFFER_TX_def)
  have nx: "list_next ?s' = fst q" using q(4) by (auto simp: upd_data_def)
  have d': "fs_buffer (fds ?s' f) = Some (d\<lparr>free_lists := snd q,
      free_lists_buffers := free_lists_buffers d - 1\<rparr>)"
    using d(1) by (simp add: upd_data_def)
  have "unat (free_lists_buffers d - 1) = length ls" using d(3) by (subst unat_diff_small) simp_all
  then have "lists_hold f ?s' ls" using d' nx q(2) by (simp add: lists_hold_def)
  moreover have "bufs ?s' = bufs s" "buf_next ?s' = buf_next s" "blists ?s' = blists s"
      "kstate.truncate ?s' = kstate.truncate s" by (simp_all add: upd_data_def)
  moreover have "pool_holds g ?s' xs = pool_holds g s xs" for g xs
    using d(1) d' by (cases "g = f") (auto simp: pool_holds_def upd_data_def)
  moreover have "fd_size g ?s' = fd_size g s" for g
    using d(1) d' by (cases "g = f") (auto simp: fd_size_def upd_data_def)
  moreover have "\<forall>a. a \<notin> set (m # ls) \<longrightarrow> list_next ?s' a = list_next s a"
    using nx links_changedD [OF q(3)] by simp
  moreover have "fd_sizes g ?s' = fd_sizes g s" for g
    using d(1) d' by (cases "g = f") (auto simp: fd_sizes_def upd_data_def)
  moreover have "\<forall>g. g \<noteq> f \<longrightarrow> fds ?s' g = fds s g" by (simp add: upd_data_def)
  ultimately show ?thesis using run by blast
qed

section \<open>Dividing a list\<close>

text \<open>The stores at the end of \<^verbatim>\<open>fs_buffer_list_divide\<close>: \<open>p\<close> heads the new list \<open>m\<close>.\<close>

definition divide_finish ::
    "lid \<Rightarrow> lid \<Rightarrow> bid \<Rightarrow> bid option \<Rightarrow> u32 \<Rightarrow> 'z fsstate_scheme \<Rightarrow> 'z fsstate_scheme" where
  "divide_finish l m b p k s = (
     let s = s\<lparr>buf_next := (buf_next s)(b := None)\<rparr>;
         s = upd_blist m (\<lambda>x. x\<lparr>bl_list := \<lparr>head = p, tail = tail (bl_list (blists s l))\<rparr>,
               bl_total_length := bl_total_length (blists s l) - k\<rparr>) s;
         s = upd_blist l (\<lambda>x. x\<lparr>bl_list := (bl_list x)\<lparr>tail := Some b\<rparr>, bl_total_length := k\<rparr>) s;
         s = s\<lparr>list_next := (list_next s)(l := Some m)\<rparr>
     in s\<lparr>list_next := (list_next s)(m := None)\<rparr>)"

lemma divide_finish_sel:
  assumes "m \<noteq> l"
  shows "fds (divide_finish l m b p k s) = fds s" "bufs (divide_finish l m b p k s) = bufs s"
    and "buf_next (divide_finish l m b p k s) = (buf_next s)(b := None)"
    and "bl_list (blists (divide_finish l m b p k s) l) = (bl_list (blists s l))\<lparr>tail := Some b\<rparr>"
    and "bl_list (blists (divide_finish l m b p k s) m) = \<lparr>head = p, tail = tail (bl_list (blists s l))\<rparr>"
    and "bl_total_length (blists (divide_finish l m b p k s) l) = k"
    and "bl_total_length (blists (divide_finish l m b p k s) m) = bl_total_length (blists s l) - k"
    and "bl_fd (blists (divide_finish l m b p k s) n) = bl_fd (blists s n)"
    and "list_next (divide_finish l m b p k s) = (list_next s)(l := Some m, m := None)"
  using assms by (auto simp: divide_finish_def Let_def)

lemma lseg_cut:
  assumes "lseg nx p (as @ b # cs) None"
  shows "lseg (nx(b := None)) p (as @ [b]) None" "lseg (nx(b := None)) (nx b) cs None"
  using assms lseg_distinct [OF assms] by auto

lemma divide_finish_ok:
  assumes "m \<noteq> l" and "lseg (buf_next s) (head (bl_list (blists s l))) (as @ [b]) q"
    and new: "lseg (buf_next s) p new None" "b \<notin> set new" and b: "b \<notin> set as"
    and ok: "\<forall>c \<in> set (as @ [b]). filled (fd_size (bl_fd (blists s l)) s) (bufs s c)"
    and k: "unat k = length (list_bytes s (as @ [b]))"
    and s': "s' = divide_finish l m b p k s"
  shows "chain_holds l s' (as @ [b])" and "list_bytes s' bs = list_bytes s bs"
    and "lseg (buf_next s') (head (bl_list (blists s' m))) new None"
proof -
  note sel = divide_finish_sel [OF assms(1), of b p k s, folded s']
  show bytes: "list_bytes s' cs = list_bytes s cs" for cs
    by (rule list_bytes_cong) (simp add: sel)
  have "lseg (buf_next s) (head (bl_list (blists s l))) as (Some b)" using assms(2) by auto
  then have "sll_holds (chain_sll l s') (as @ [b])"
    using b by (simp add: sll_holds_def chain_sll_def sel)
  then show "chain_holds l s' (as @ [b])"
    using ok k bytes by (simp add: chain_holds_def sel fd_size_def)
  show "lseg (buf_next s') (head (bl_list (blists s' m))) new None"
    using new by (simp add: sel)
qed

text \<open>
  What dividing does. The new list's \<open>tail\<close> is the old list's: right when the cut lies before
  the last buffer, but else the last buffer stays on the old list.
\<close>

definition divided :: "lid \<Rightarrow> lid \<Rightarrow> nat \<Rightarrow> bid list \<Rightarrow> 'z fsstate_scheme \<Rightarrow> 'z fsstate_scheme \<Rightarrow>
    bid list \<Rightarrow> bid list \<Rightarrow> bool" where
  "divided l m k bs s s' as new \<longleftrightarrow>
     chain_holds l s' as \<and> list_bytes s' as = take k (list_bytes s bs) \<and>
     lseg (buf_next s') (head (bl_list (blists s' m))) new None \<and> new \<noteq> [] \<and>
     (\<forall>b \<in> set new. filled (fd_size (bl_fd (blists s l)) s) (bufs s' b)) \<and>
     list_bytes s' new = drop k (list_bytes s bs) \<and>
     unat (bl_total_length (blists s' m)) = length (list_bytes s' new) \<and>
     set as \<inter> set new = {} \<and>
     tail (bl_list (blists s' m)) = Some (last bs) \<and>
     (last bs \<in> set new \<longleftrightarrow> k \<le> length (list_bytes s (butlast bs))) \<and>
     (k \<le> length (list_bytes s (butlast bs)) \<longrightarrow> last new = last bs) \<and>
     (\<not> k \<le> length (list_bytes s (butlast bs)) \<longrightarrow> last as = last bs) \<and>
     list_next s' l = Some m \<and> list_next s' m = None"

lemma lseg_frame:
  "lseg nx p xs q \<Longrightarrow> (\<And>x. x \<in> set xs \<Longrightarrow> nx' x = nx x) \<Longrightarrow> lseg nx' p xs q"
  by (induction xs arbitrary: p) auto

lemma finish_lists:
  assumes "lists_hold f s ls" and "l \<notin> set ls \<and> m \<notin> set ls \<and> m \<noteq> l"
  shows "lists_hold f (divide_finish l m b p k s) ls"
proof -
  note sel = divide_finish_sel [of m l b p k s]
  obtain d where d: "fs_buffer (fds s f) = Some d" "sll_holds (list_next s, free_lists d) ls"
      "unat (free_lists_buffers d) = length ls" using assms(1) by (auto simp: lists_hold_def)
  have "sll_holds (list_next (divide_finish l m b p k s), free_lists d) ls"
    by (rule sll_holds_frame [OF d(2)]) (use assms(2) sel in auto)
  then show ?thesis using d assms(2) sel by (simp add: lists_hold_def)
qed

lemma list_divide_ok:
  assumes lk: "linked l s bs (r # xs)" and f: "f = bl_fd (blists s l)"
    and lists: "lists_hold f s (m # ls)" "length (m # ls) < 2 ^ 32" and ml: "m \<noteq> l" "l \<notin> set ls"
    and k: "0 < k" "unat k < length (list_bytes s bs)"
    and fl: "fl AND ucast FS_BUFFER_INPLACE = 0" "fl AND ucast FS_BUFFER_SUSPEND = 0"
  shows "\<exists>s' as new. fs_buffer_list_divide P l fl k s = Some (SUCCESS, s') \<and>
     divided l m (unat k) bs s s' as new \<and> lists_hold f s' ls \<and>
     (\<exists>xs'. pool_holds f s' xs' \<and> set bs \<union> set (r # xs) = set as \<union> set new \<union> set xs')"
proof -
  note D = linkedD [OF lk]
  have total: "unat (bl_total_length (blists s l)) = length (list_bytes s bs)" using D(6) .
  have hd: "lseg (buf_next s) (head (bl_list (blists s l))) bs None"
      "tail (bl_list (blists s l)) = (if bs = [] then None else Some (last bs))"
    using D(1) by (simp_all add: sll_holds_def chain_sll_def)
  have gt: "\<not> bl_total_length (blists s l) \<le> k" using k(2) total by (simp add: word_le_nat_alt)
  obtain as b cs k' where cut: "bs = as @ b # cs"
     "divide_find k (head (bl_list (blists s l))) s = Some (Some b, None, k') \<and>
        unat k' < unat (fb_length (bufs s b)) \<and> unat k = length (list_bytes s as) + unat k' \<and>
        (k' = 0 \<longrightarrow> k = 0) \<or>
      cs \<noteq> [] \<and> divide_find k (head (bl_list (blists s l))) s = Some (Some b, Some (hd cs), 0) \<and>
        unat k = length (list_bytes s (as @ [b]))"
    using divide_find_ok [OF hd(1) D(5) k(2)] by blast
  obtain s1 where s1: "fs_buffer_get_list P f FS_LIST_FREE fl s = Some (Some m, s1)"
     "lists_hold f s1 ls" "bufs s1 = bufs s" "buf_next s1 = buf_next s" "blists s1 = blists s"
     "\<forall>g xs. pool_holds g s1 xs = pool_holds g s xs" "\<forall>g. fd_size g s1 = fd_size g s"
    using get_list_ok [OF lists fl, of P] by blast
  have bytes1: "list_bytes s1 as = list_bytes s as" for as by (rule list_bytes_cong) (simp add: s1)
  have "distinct (m # ls)" using lists(1) sll_holds_distinct by (fastforce simp: lists_hold_def)
  then have dm: "l \<notin> set ls \<and> m \<notin> set ls \<and> m \<noteq> l" using ml by simp
  have dist: "b \<notin> set as" "b \<notin> set cs" "set as \<inter> set cs = {}" using D(2) cut(1) by auto
  have bs: "bs \<noteq> []" using cut(1) by simp
  have seg: "lseg (buf_next s1) (head (bl_list (blists s1 l))) (as @ [b]) (buf_next s b)"
      "lseg (buf_next s1) (buf_next s b) cs None"
    using hd(1) cut(1) by (auto simp: s1)
  from cut(2) show ?thesis
  proof (elim disjE conjE)
    assume cs: "cs \<noteq> []" and find: "divide_find k (head (bl_list (blists s l))) s = Some (Some b, Some (hd cs), 0)"
      and k2: "unat k = length (list_bytes s (as @ [b]))"
    define s' where "s' = divide_finish l m b (Some (hd cs)) k s1"
    have run: "fs_buffer_list_divide P l fl k s = Some (SUCCESS, s')"
      using find s1(1) gt f by (simp add: fs_buffer_list_divide_def divide_finish_def s'_def Let_def)
    have nb: "buf_next s b = Some (hd cs)" using seg(2) cs by (cases cs) auto
    have ok: "\<forall>c \<in> set (as @ [b]). filled (fd_size (bl_fd (blists s1 l)) s1) (bufs s1 c)"
      using D(5) cut(1) by (simp add: s1)
    have k1: "unat k = length (list_bytes s1 (as @ [b]))" unfolding bytes1 by (rule k2)
    have new: "lseg (buf_next s1) (Some (hd cs)) cs None" using seg(2) nb by simp
    note fin = divide_finish_ok [OF ml(1) seg(1) new dist(2) dist(1) ok k1 s'_def]
    note sel = divide_finish_sel [OF ml(1), of b "Some (hd cs)" k s1, folded s'_def]
    have lb: "last bs = last cs" "butlast bs = as @ b # butlast cs"
      using cut(1) cs by (simp_all add: butlast_append)
    have "divided l m (unat k) bs s s' (as @ [b]) cs"
      unfolding divided_def
    proof (intro conjI)
      show "list_bytes s' (as @ [b]) = take (unat k) (list_bytes s bs)"
        unfolding fin(2) bytes1 using k2 cut(1) by simp
      show db: "list_bytes s' cs = drop (unat k) (list_bytes s bs)"
        unfolding fin(2) bytes1 using k2 cut(1) by simp
      show "unat (bl_total_length (blists s' m)) = length (list_bytes s' cs)"
        using total k(2) unfolding db by (simp add: sel s1 unat_diff_small)
      show "\<forall>c \<in> set cs. filled (fd_size (bl_fd (blists s l)) s) (bufs s' c)"
        using D(5) cut(1) by (simp add: sel s1)
      show "tail (bl_list (blists s' m)) = Some (last bs)" using hd(2) bs by (simp add: sel s1)
      show "last bs \<in> set cs \<longleftrightarrow> unat k \<le> length (list_bytes s (butlast bs))"
        using lb cs k2 by simp
      show "\<not> unat k \<le> length (list_bytes s (butlast bs)) \<longrightarrow> last (as @ [b]) = last bs"
        using lb k2 by simp
    qed (use fin(1,3) cs dist lb sel ml in \<open>simp_all\<close>)
    moreover have "lists_hold f s' ls"
      using finish_lists [OF s1(2) dm] unfolding s'_def .
    moreover have "pool_holds f s' (r # xs)"
    proof (rule pool_holds_frame [where s = s1])
      fix a assume "a \<in> set (r # xs)"
      then have "a \<noteq> b" using D(4) cut(1) by auto
      then show "bufs s' a = bufs s1 a \<and> buf_next s' a = buf_next s1 a" by (simp add: sel)
    qed (use D(3) f s1(6) sel in simp_all)
    moreover have "set bs \<union> set (r # xs) = set (as @ [b]) \<union> set cs \<union> set (r # xs)"
      using cut(1) by auto
    ultimately show ?thesis using run by blast
  next
    assume find: "divide_find k (head (bl_list (blists s l))) s = Some (Some b, None, k')"
      and lt: "unat k' < unat (fb_length (bufs s b))"
      and k2: "unat k = length (list_bytes s as) + unat k'" and k0: "k' = 0 \<longrightarrow> k = 0"
    have k'0: "k' \<noteq> 0" using k0 k(1) by auto
    have brx: "b \<notin> set (r # xs)" and rbs: "r \<notin> set bs" and xbs: "set xs \<inter> set bs = {}"
      using D(4) cut(1) by auto
    have rx: "r \<notin> set xs" using D(3) sll_holds_distinct by (fastforce simp: pool_holds_def)
    have "pool_holds f s1 (r # xs)" using D(3) f s1(6) by simp
    moreover have "length (r # xs) < 2 ^ 32" using D(7) by simp
    moreover have "filled (fd_size f s1) (bufs s1 b)" using D(5) [of b] cut(1) f by (simp add: s1)
    moreover have "unat k' < unat (fb_length (bufs s1 b))" using lt by (simp add: s1)
    ultimately obtain s2 where s2: "fs_buffer_divide P f b fl k' s1 = Some (SUCCESS, Some r, s2)"
       "pool_holds f s2 xs" "touches f {} (insert b (set (r # xs))) s1 s2"
       "\<forall>c. c \<noteq> b \<and> c \<noteq> r \<longrightarrow> bufs s2 c = bufs s1 c" "buf_next s2 b = buf_next s1 b"
       "buffer_ok (bufs s2 b)" "fb_max_length (bufs s2 b) = fd_size f s1" "fb_length (bufs s2 b) = k'"
       "buffer_bytes (bufs s2 b) = take (unat k') (buffer_bytes (bufs s1 b))"
       "filled (fd_size f s1) (bufs s2 r)"
       "buffer_bytes (bufs s2 r) = drop (unat k') (buffer_bytes (bufs s1 b))"
      using divide_buffer_ok [OF _ _ _ brx _ fl, of f s1 k' P] by blast
    let ?s3 = "s2\<lparr>buf_next := (buf_next s2)(r := buf_next s2 b)\<rparr>"
    define s' where "s' = divide_finish l m b (Some r) k ?s3"
    have run: "fs_buffer_list_divide P l fl k s = Some (SUCCESS, s')"
      using find s1(1,5) s2(1) gt f
      by (simp add: fs_buffer_list_divide_def divide_finish_def s'_def Let_def)
    have bl3: "blists ?s3 = blists s" using s2(3) s1(5) by (auto simp: touches_def)
    have size3: "fd_size g ?s3 = fd_size g s" for g
      using touches_size [OF s2(3)] s1(7) by (simp add: fd_size_def)
    have nx: "buf_next ?s3 c = buf_next s c" if "c \<in> set bs" for c
    proof (cases "c = b")
      case True
      then show ?thesis using s2(5) s1(4) rbs cut(1) by auto
    next
      case False
      then have "c \<notin> insert b (set (r # xs))" using that rbs xbs by auto
      then show ?thesis using touchesD(2) [OF s2(3), of c] s1(4) that rbs by auto
    qed
    have same: "bufs ?s3 c = bufs s c" if "c \<in> set as \<union> set cs" for c
      using s2(4) s1(3) that dist rbs cut(1) by auto
    have lb: "length (buffer_bytes (bufs s b)) = unat (fb_length (bufs s b))"
      using filledD(4) [OF D(5) [of b]] cut(1) by simp
    have bytes3: "list_bytes ?s3 as = list_bytes s as" "list_bytes ?s3 cs = list_bytes s cs"
      by (rule list_bytes_cong; use same in simp)+
    have seg3: "lseg (buf_next ?s3) (head (bl_list (blists ?s3 l))) (as @ [b]) (buf_next s b)"
    proof -
      have "lseg (buf_next s) (head (bl_list (blists s l))) (as @ [b]) (buf_next s b)"
        using hd(1) cut(1) by auto
      then show ?thesis unfolding bl3 by (rule lseg_frame) (rule nx, auto simp: cut(1))
    qed
    have new: "lseg (buf_next ?s3) (Some r) (r # cs) None"
    proof -
      have "lseg (buf_next s) (buf_next s b) cs None" using seg(2) by (simp add: s1)
      then have "lseg (buf_next ?s3) (buf_next s b) cs None"
        by (rule lseg_frame) (rule nx, auto simp: cut(1))
      moreover have "buf_next ?s3 r = buf_next s b" using s2(5) s1(4) by simp
      ultimately show ?thesis by simp
    qed
    have fb: "filled (fd_size f s) (bufs ?s3 b)"
      using s2(6-8) s1(7) k'0 by (simp add: filled_def)
    have ok: "\<forall>c \<in> set (as @ [b]). filled (fd_size (bl_fd (blists ?s3 l)) ?s3) (bufs ?s3 c)"
      using D(5) cut(1) f fb same by (auto simp: bl3 size3)
    have k1: "unat k = length (list_bytes ?s3 (as @ [b]))"
      using k2 s2(9) s1(3) lt lb bytes3 by simp
    have nb: "b \<notin> set (r # cs)" using dist brx by auto
    note fin = divide_finish_ok [OF ml(1) seg3 new nb dist(1) ok k1 s'_def]
    note sel = divide_finish_sel [OF ml(1), of b "Some r" k ?s3, folded s'_def]
    have div: "divided l m (unat k) bs s s' (as @ [b]) (r # cs)"
      unfolding divided_def
    proof (intro conjI)
      show "list_bytes s' (as @ [b]) = take (unat k) (list_bytes s bs)"
        unfolding fin(2) using k2 cut(1) bytes3 s2(9) s1(3) lt lb by simp
      show db: "list_bytes s' (r # cs) = drop (unat k) (list_bytes s bs)"
        unfolding fin(2) using k2 cut(1) bytes3 s2(11) s1(3) lt lb by simp
      show "unat (bl_total_length (blists s' m)) = length (list_bytes s' (r # cs))"
        using total k(2) unfolding db by (simp add: sel bl3 unat_diff_small)
      show "\<forall>c \<in> set (r # cs). filled (fd_size (bl_fd (blists s l)) s) (bufs s' c)"
        using D(5) cut(1) s2(10) f same by (auto simp: sel s1)
      show "set (as @ [b]) \<inter> set (r # cs) = {}" using dist rbs cut(1) nb by auto
      show "tail (bl_list (blists s' m)) = Some (last bs)" using hd(2) bs by (simp add: sel bl3)
      have uk: "0 < unat k'" using k'0 by (simp add: unat_gt_0)
      show "last bs \<in> set (r # cs) \<longleftrightarrow> unat k \<le> length (list_bytes s (butlast bs))"
      proof (cases "cs = []")
        case True
        then show ?thesis using cut(1) k2 uk brx by auto
      next
        case False
        then show ?thesis using cut(1) k2 lt lb by (simp add: butlast_append)
      qed
      show "unat k \<le> length (list_bytes s (butlast bs)) \<longrightarrow> last (r # cs) = last bs"
        using cut(1) k2 uk by (cases "cs = []") (auto simp: butlast_append)
      show "\<not> unat k \<le> length (list_bytes s (butlast bs)) \<longrightarrow> last (as @ [b]) = last bs"
        using cut(1) k2 lt lb by (cases "cs = []") (auto simp: butlast_append)
    qed (use fin(1,3) sel ml in \<open>simp_all\<close>)
    have "lists_hold f ?s3 ls"
      using touches_lists_hold [OF s2(3) s1(2)] by (simp add: lists_hold_def)
    then have "lists_hold f s' ls" unfolding s'_def by (rule finish_lists [OF _ dm])
    moreover have "pool_holds f s' xs"
    proof (rule pool_holds_frame [OF s2(2)])
      fix a assume "a \<in> set xs"
      then have "a \<noteq> b" "a \<noteq> r" using brx rx by auto
      then show "bufs s' a = bufs s2 a \<and> buf_next s' a = buf_next s2 a" by (simp add: sel)
    qed (simp add: sel)
    moreover have "set bs \<union> set (r # xs) = set (as @ [b]) \<union> set (r # cs) \<union> set xs"
      using cut(1) by auto
    ultimately show ?thesis using run div by blast
  qed
qed

end
