(* ===== verification/FsProps.thy ===== *)
theory FsProps
  imports FsDivide Example
begin

text \<open>
  The properties of buffered descriptors, and a concrete descriptor they are applied to: its
  buffers hold four bytes, list 0 has six bytes on two buffers, two buffers and two lists are
  free.
\<close>

section \<open>An example\<close>

definition ex_buffer :: "u8 list \<Rightarrow> FS_BUFFER" where
  "ex_buffer bs = \<lparr>fb_data = Some (bs @ replicate (4 - length bs) 0), fb_max_length = 4,
     fb_off = 0, fb_length = of_nat (length bs)\<rparr>"

definition ex_data :: FS_BUFFER_DATA where
  "ex_data = \<lparr>free_buffers = \<lparr>head = Some 12, tail = Some 13\<rparr>, free_buffers_buffers = 2,
     free_lists = \<lparr>head = Some 1, tail = Some 2\<rparr>, free_lists_buffers = 2,
     tx_lists = \<lparr>head = None, tail = None\<rparr>, rx_lists = \<lparr>head = None, tail = None\<rparr>,
     buffer_space = None, buffers = None, buffer_lists = None, threshold_buffers = 1,
     threshold_lists = 0, buffer_size = 4, num_buffers = 4, num_buffer_lists = 3\<rparr>"

definition ex_fd :: FS where
  "ex_fd = \<lparr>fs_name = None, fs_open_fun = None, fs_close_fun = None, fs_ioctl_fun = None,
     fs_read_fun = None, fs_write_fun = None, fs_get_lock = None, fs_release_lock = None,
     fs_buffer = Some ex_data, fs_timeout = MAX_WAIT, fs_flags = FS_SPACE_AVAILABLE, fs_priority = 5\<rparr>"

definition ex_list :: "bid sll_head \<Rightarrow> u32 \<Rightarrow> FS_BUFFER_LIST" where
  "ex_list h n = \<lparr>bl_list = h, bl_total_length = n, bl_fd = 0, bl_free = None, bl_free_data = NULLP\<rparr>"

definition ex_state :: fsstate where
  "ex_state = kstate.extend (kstate.truncate (example 7 [] 0)) (fsstate.fields
     (\<lambda>_. ex_fd)
     (\<lambda>b. if b = 10 then ex_buffer [1, 2, 3, 4] else if b = 11 then ex_buffer [5, 6] else ex_buffer [])
     (\<lambda>b. if b = 10 then Some 11 else if b = 12 then Some 13 else None)
     (\<lambda>l. if l = 1 then Some 2 else None)
     (\<lambda>l. if l = 0 then ex_list \<lparr>head = Some 10, tail = Some 11\<rparr> 6
          else ex_list \<lparr>head = None, tail = None\<rparr> 0)
     (\<lambda>_. 0) (\<lambda>_. \<lparr>bp_num = 0, bp_type = 0\<rparr>))"

definition ex_platform :: "unit fs_platform" where
  "ex_platform = \<lparr>kernel_platform = \<lparr>env = (\<lambda>_ s. Some s), cb_do_suspend = (\<lambda>_ _ _ _. False),
     cb_lock = (\<lambda>_ _ s. Some s), cb_unlock = (\<lambda>_ _ s. Some s), null_byte = 0\<rparr>,
     drv_get_lock = (\<lambda>_ _ _ s. Some (SUCCESS, s)), drv_release_lock = (\<lambda>_ _ s. Some s),
     return_buffer = (\<lambda>_ _ _ s. Some (False, s)), net_condition_tcb = 9\<rparr>"

lemmas ex_defs = ex_state_def fsstate.defs kstate.defs

lemma ex_sel [simp]:
  "fds ex_state = (\<lambda>_. ex_fd)"
  "buf_next ex_state = (\<lambda>b. if b = 10 then Some 11 else if b = 12 then Some 13 else None)"
  "list_next ex_state = (\<lambda>l. if l = 1 then Some 2 else None)"
  "bufs ex_state b = (if b = 10 then ex_buffer [1, 2, 3, 4] else if b = 11 then ex_buffer [5, 6]
     else ex_buffer [])"
  "blists ex_state l = (if l = 0 then ex_list \<lparr>head = Some 10, tail = Some 11\<rparr> 6
     else ex_list \<lparr>head = None, tail = None\<rparr> 0)"
  by (simp_all add: ex_defs)

lemma ex_list_sel [simp]:
  "bl_list (ex_list h n) = h" "bl_total_length (ex_list h n) = n" "bl_fd (ex_list h n) = 0"
  "bl_free (ex_list h n) = None"
  by (simp_all add: ex_list_def)

lemma ex_calm: "calm f ex_state"
  by (simp add: calm_def lock_neutral_def ex_defs example_def example_task_def zero_task_def
    zero_condition_def SCHEDULER_MAX_LOCK_def)

lemma ex_data_of: "fs_buffer (fds ex_state f) = Some ex_data"
  by (simp add: ex_fd_def)

lemma ex_bytes: "list_bytes ex_state [10, 11] = [1, 2, 3, 4, 5, 6]"
  by (simp add: ex_buffer_def buffer_bytes_def)

lemma ex_linked: "linked 0 ex_state [10, 11] [12, 13]"
proof -
  have "sll_holds (chain_sll 0 ex_state) [10, 11]"
    by (simp add: sll_holds_def chain_sll_def)
  moreover have "filled 4 (ex_buffer [1, 2, 3, 4])" "filled 4 (ex_buffer [5, 6])"
    by (simp_all add: filled_def buffer_ok_def ex_buffer_def)
  moreover have "fresh 4 (ex_buffer [])"
    by (simp add: fresh_def sized_def ex_buffer_def)
  moreover have "fd_size 0 ex_state = 4" by (simp add: fd_size_def ex_fd_def ex_data_def)
  ultimately show ?thesis
    using ex_bytes
    by (simp add: linked_def chain_holds_def pool_holds_def ex_fd_def ex_data_def sll_holds_def)
qed

lemma ex_lists: "lists_hold 0 ex_state [1, 2]"
  by (simp add: lists_hold_def ex_fd_def ex_data_def sll_holds_def)

section \<open>Pulling\<close>

text \<open>C13. Pulling from the head of a well-formed list, with nobody waiting for the descriptor,
  returns exactly the first \<open>n\<close> bytes, reversed under \<^verbatim>\<open>FS_BUFFER_PACKED\<close>, wherever the buffer
  boundaries lie; the list then holds the rest, the emptied buffers are back in the pool in
  order, and nothing else has changed. If the list has fewer bytes, nothing changes at all.\<close>

theorem list_pull_takes_first:
  assumes "linked l s bs xs" and "calm (bl_fd (blists s l)) s"
    and "fl AND FS_BUFFER_INPLACE = 0" "fl AND FS_BUFFER_TAIL = 0" "fl AND FS_BUFFER_HEAD = 0"
  shows "if unat n \<le> length (list_bytes s bs)
     then \<exists>ds rs s'. bs = ds @ rs \<and>
       fs_buffer_list_pull P l want n fl s =
         Some (SUCCESS, if want then packed fl (take (unat n) (list_bytes s bs)) else [], s') \<and>
       linked l s' rs (xs @ ds) \<and> touches (bl_fd (blists s l)) {l} (set bs \<union> set xs) s s' \<and>
       list_bytes s' rs = drop (unat n) (list_bytes s bs)
     else fs_buffer_list_pull P l want n fl s = Some (FS_BUFFER_NO_SPACE, [], s)"
  using list_pull_head [OF assms(1,2) _ assms(3-5)] list_pull_short [OF assms(1) _ assms(5)]
  by (simp add: not_le)

theorem list_pull_takes_first_witness:
  "\<exists>rs xs s'. fs_buffer_list_pull ex_platform 0 True 5 FS_BUFFER_PACKED ex_state =
       Some (SUCCESS, [5, 4, 3, 2, 1], s') \<and> linked 0 s' rs xs \<and> list_bytes s' rs = [6]"
  using list_pull_takes_first [OF ex_linked ex_calm, where fl = FS_BUFFER_PACKED and n = 5
      and P = ex_platform and want = True]
  unfolding ex_bytes
  by (auto simp: FS_BUFFER_PACKED_def FS_BUFFER_INPLACE_def FS_BUFFER_TAIL_def FS_BUFFER_HEAD_def
    packed_def)

text \<open>Looking at data in place returns the \<open>n\<close> bytes at the offset from the start, or from
  the end under \<^verbatim>\<open>FS_BUFFER_TAIL\<close>, and changes nothing.\<close>

theorem list_peek_changes_nothing:
  assumes "linked l s bs xs" and "bs \<noteq> []" and "unat n + unat off \<le> length (list_bytes s bs)"
    and "fl AND FS_BUFFER_INPLACE \<noteq> 0" "fl AND FS_BUFFER_HEAD = 0"
  shows "fs_buffer_list_pull_offset P l want n off fl s = Some (SUCCESS,
     if want then packed fl (take (unat n) (drop (if fl AND FS_BUFFER_TAIL \<noteq> 0
         then length (list_bytes s bs) - (unat n + unat off) else unat off) (list_bytes s bs)))
     else [], s)"
  using assms by (rule list_peek)

theorem list_peek_changes_nothing_witness:
  "fs_buffer_list_pull_offset ex_platform 0 True 3 1 (FS_BUFFER_INPLACE OR FS_BUFFER_TAIL) ex_state =
     Some (SUCCESS, [3, 4, 5], ex_state)"
  using list_peek_changes_nothing [OF ex_linked, where n = 3 and off = 1 and P = ex_platform
      and want = True and fl = "FS_BUFFER_INPLACE OR FS_BUFFER_TAIL"]
  unfolding ex_bytes
  by (simp add: FS_BUFFER_PACKED_def FS_BUFFER_INPLACE_def FS_BUFFER_TAIL_def FS_BUFFER_HEAD_def
    packed_def)

text \<open>Dropping \<open>n\<close> bytes from the tail leaves the first ones, and gives back the buffers it
  empties, the last one first.\<close>

theorem list_pull_drops_tail:
  assumes "linked l s bs xs" and "calm (bl_fd (blists s l)) s"
    and "unat n \<le> length (list_bytes s bs)"
    and "fl AND FS_BUFFER_INPLACE = 0" "fl AND FS_BUFFER_TAIL \<noteq> 0" "fl AND FS_BUFFER_HEAD = 0"
  shows "\<exists>ds rs s'. bs = rs @ ds \<and>
     fs_buffer_list_pull P l False n fl s = Some (SUCCESS, [], s') \<and>
     linked l s' rs (xs @ rev ds) \<and> touches (bl_fd (blists s l)) {l} (set bs \<union> set xs) s s' \<and>
     list_bytes s' rs = take (length (list_bytes s bs) - unat n) (list_bytes s bs)"
  using assms by (rule list_drop_tail)

theorem list_pull_drops_tail_witness:
  "\<exists>rs xs s'. fs_buffer_list_pull ex_platform 0 False 3 FS_BUFFER_TAIL ex_state =
       Some (SUCCESS, [], s') \<and> linked 0 s' rs xs \<and> list_bytes s' rs = [1, 2, 3]"
  using list_pull_drops_tail [OF ex_linked ex_calm, where fl = FS_BUFFER_TAIL and n = 3
      and P = ex_platform]
  unfolding ex_bytes
  by (auto simp: FS_BUFFER_INPLACE_def FS_BUFFER_TAIL_def FS_BUFFER_HEAD_def)

section \<open>Pushing\<close>

text \<open>C12. A push that may not wait is all or nothing: when the room on the buffer at that end and
  the free buffers above the threshold hold the data, it is on the list, before or behind
  what was there, in order and reversed under \<^verbatim>\<open>FS_BUFFER_PACKED\<close>, on as many buffers from the
  front of the pool as it needs; otherwise the caller is told and nothing has changed.\<close>

theorem list_push_all_or_nothing:
  assumes "linked l s bs xs" and "fs_buffer (fds s (bl_fd (blists s l))) = Some d"
    and "buffer_size d \<noteq> 0" and "unat n + unat (buffer_size d) < 2 ^ 32"
    and "unat n \<le> length src" "length (list_bytes s bs) + unat n < 2 ^ 32"
    and "fl AND FS_BUFFER_UPDATE = 0" "fl AND FS_BUFFER_SUSPEND = 0"
    and "need = buffers_needed (unat n) (list_room fl s bs) (unat (buffer_size d))"
    and "th = (if fl AND FS_BUFFER_TH \<noteq> 0 then unat (threshold_buffers d) else 0)"
    and "th + need < 2 ^ 32"
  shows "(need = 0 \<or> th + need \<le> length xs \<longrightarrow>
     (\<exists>ys zs s'. fs_buffer_list_push P l (Some src) n fl s = Some (SUCCESS, s') \<and>
       xs = ys @ zs \<and> length ys = need \<and> linked l s' (with_new fl ys bs) zs \<and>
       touches (bl_fd (blists s l)) {l} (set bs \<union> set xs) s s' \<and>
       list_bytes s' (with_new fl ys bs) = at_end fl (packed fl (take (unat n) src)) (list_bytes s bs))) \<and>
     (\<not> (need = 0 \<or> th + need \<le> length xs) \<longrightarrow>
       fs_buffer_list_push P l (Some src) n fl s = Some (FS_BUFFER_NO_SPACE, s))"
  using list_push [OF assms] by (cases "need = 0 \<or> th + need \<le> length xs") simp_all

theorem list_push_all_or_nothing_witness:
  "(\<exists>bs xs s'. fs_buffer_list_push ex_platform 0 (Some [7, 8, 9, 10, 11]) 5 FS_BUFFER_TH ex_state =
      Some (SUCCESS, s') \<and> linked 0 s' bs xs \<and>
      list_bytes s' bs = [1, 2, 3, 4, 5, 6, 7, 8, 9, 10, 11]) \<and>
   fs_buffer_list_push ex_platform 0 (Some [7, 8, 9, 10, 11]) 5
     (FS_BUFFER_TH OR FS_BUFFER_HEAD) ex_state = Some (FS_BUFFER_NO_SPACE, ex_state)"
proof -
  note flags = FS_BUFFER_TH_def FS_BUFFER_HEAD_def FS_BUFFER_INPLACE_def FS_BUFFER_UPDATE_def
    FS_BUFFER_SUSPEND_def FS_BUFFER_PACKED_def
  have d: "fs_buffer (fds ex_state (bl_fd (blists ex_state 0))) = Some ex_data" by (rule ex_data_of)
  have sz: "buffer_size ex_data = 4" "threshold_buffers ex_data = 1" by (simp_all add: ex_data_def)
  have room: "list_room FS_BUFFER_TH ex_state [10, 11] = 2"
      "list_room (FS_BUFFER_TH OR FS_BUFFER_HEAD) ex_state [10, 11] = 0"
    by (simp_all add: list_room_def end_room_def end_buffer_def flags FS_BUFFER_SPACE_def
      FS_BUFFER_TAIL_ROOM_def FS_BUFFER_HEAD_ROOM_def ex_buffer_def)
  have need: "1 = buffers_needed (unat (5 :: u32)) (list_room FS_BUFFER_TH ex_state [10, 11])
      (unat (buffer_size ex_data))"
      "2 = buffers_needed (unat (5 :: u32)) (list_room (FS_BUFFER_TH OR FS_BUFFER_HEAD) ex_state [10, 11])
      (unat (buffer_size ex_data))"
    by (simp_all add: room sz buffers_needed_def)
  have ok: "(1 :: nat) = 0 \<or> 1 + 1 \<le> length [12 :: bid, 13]"
      "\<not> ((2 :: nat) = 0 \<or> 1 + 2 \<le> length [12 :: bid, 13])" by simp_all
  have "\<exists>ys zs s'. fs_buffer_list_push ex_platform 0 (Some [7, 8, 9, 10, 11]) 5 FS_BUFFER_TH ex_state =
         Some (SUCCESS, s') \<and> [12, 13] = ys @ zs \<and> length ys = 1 \<and>
       linked 0 s' (with_new FS_BUFFER_TH ys [10, 11]) zs \<and>
       touches (bl_fd (blists ex_state 0)) {0} (set [10, 11] \<union> set [12, 13]) ex_state s' \<and>
       list_bytes s' (with_new FS_BUFFER_TH ys [10, 11]) = at_end FS_BUFFER_TH
         (packed FS_BUFFER_TH (take (unat (5 :: u32)) [7, 8, 9, 10, 11])) (list_bytes ex_state [10, 11])"
    by (rule list_push_all_or_nothing [OF ex_linked d _ _ _ _ _ _ need(1), THEN conjunct1, THEN mp, OF _ _ _ _ _ _ _ _ ok(1)])
      (simp_all only: ex_bytes, simp_all add: flags sz)
  then obtain ys zs s' where "fs_buffer_list_push ex_platform 0 (Some [7, 8, 9, 10, 11]) 5
      FS_BUFFER_TH ex_state = Some (SUCCESS, s')" "linked 0 s' (with_new FS_BUFFER_TH ys [10, 11]) zs"
      "list_bytes s' (with_new FS_BUFFER_TH ys [10, 11]) = at_end FS_BUFFER_TH
        (packed FS_BUFFER_TH (take (unat (5 :: u32)) [7, 8, 9, 10, 11])) [1, 2, 3, 4, 5, 6]"
    unfolding ex_bytes by (elim exE conjE)
  then have "\<exists>bs xs s'. fs_buffer_list_push ex_platform 0 (Some [7, 8, 9, 10, 11]) 5 FS_BUFFER_TH
      ex_state = Some (SUCCESS, s') \<and> linked 0 s' bs xs \<and>
      list_bytes s' bs = [1, 2, 3, 4, 5, 6, 7, 8, 9, 10, 11]"
    by (intro exI [of _ "with_new FS_BUFFER_TH ys [10, 11]"] exI [of _ zs] exI [of _ s'])
      (simp add: flags packed_def at_end_def)
  moreover have "fs_buffer_list_push ex_platform 0 (Some [7, 8, 9, 10, 11]) 5
      (FS_BUFFER_TH OR FS_BUFFER_HEAD) ex_state = Some (FS_BUFFER_NO_SPACE, ex_state)"
    by (rule list_push_all_or_nothing [OF ex_linked d _ _ _ _ _ _ need(2), THEN conjunct2, THEN mp, OF _ _ _ _ _ _ _ _ ok(2)])
      (simp_all only: ex_bytes, simp_all add: flags sz)
  ultimately show ?thesis by blast
qed

text \<open>The flags of a header push and pull.\<close>

lemma head_flags:
  fixes fl :: u8
  shows "(FS_BUFFER_HEAD OR fl) AND FS_BUFFER_HEAD \<noteq> 0"
    and "(FS_BUFFER_HEAD OR fl) AND FS_BUFFER_UPDATE = fl AND FS_BUFFER_UPDATE"
    and "(FS_BUFFER_HEAD OR fl) AND FS_BUFFER_SUSPEND = fl AND FS_BUFFER_SUSPEND"
    and "(FS_BUFFER_HEAD OR fl) AND FS_BUFFER_PACKED = fl AND FS_BUFFER_PACKED"
    and "(FS_BUFFER_HEAD OR fl) AND FS_BUFFER_TH = fl AND FS_BUFFER_TH"
proof -
  have "((FS_BUFFER_HEAD OR fl) AND FS_BUFFER_HEAD) = FS_BUFFER_HEAD"
    by (auto simp: bit_eq_iff bit_simps)
  then show "(FS_BUFFER_HEAD OR fl) AND FS_BUFFER_HEAD \<noteq> 0" by (simp add: FS_BUFFER_HEAD_def)
qed (simp_all add: FS_BUFFER_HEAD_def FS_BUFFER_UPDATE_def FS_BUFFER_INPLACE_def
  FS_BUFFER_SUSPEND_def FS_BUFFER_PACKED_def FS_BUFFER_TH_def bit.conj_disj_distrib2)

lemma packed_cong: "fl AND FS_BUFFER_PACKED = fl' AND FS_BUFFER_PACKED \<Longrightarrow> packed fl bs = packed fl' bs"
  by (simp add: packed_def)

text \<open>A header that was pushed on a list is pulled off again, byte for byte, packed or not, and
  the list holds what it held before.\<close>

theorem header_push_pull:
  assumes lk: "linked l s bs xs" and calm: "calm (bl_fd (blists s l)) s"
    and d: "fs_buffer (fds s (bl_fd (blists s l))) = Some d"
      "buffer_size d \<noteq> 0" "unat n + unat (buffer_size d) < 2 ^ 32"
      "unat (threshold_buffers d) + unat n < 2 ^ 32"
    and src: "length src = unat n" "length (list_bytes s bs) + unat n < 2 ^ 32"
    and fl: "(ucast fl :: u8) AND FS_BUFFER_UPDATE = 0" "(ucast fl :: u8) AND FS_BUFFER_SUSPEND = 0"
      "(ucast fl :: u8) AND FS_BUFFER_TAIL = 0" "(ucast fl :: u8) AND FS_BUFFER_HEAD = 0"
    and push: "fs_buffer_hdr_push P l (Some src) n fl s = Some (SUCCESS, s1)"
  shows "\<exists>rs ys s2. fs_buffer_hdr_pull P l True n fl s1 = Some (SUCCESS, src, s2) \<and>
     linked l s2 rs ys \<and> list_bytes s2 rs = list_bytes s bs"
proof -
  let ?f = "FS_BUFFER_HEAD OR ucast fl"
  define need where "need = buffers_needed (unat n) (list_room ?f s bs) (unat (buffer_size d))"
  define th where "th = (if ?f AND FS_BUFFER_TH \<noteq> 0 then unat (threshold_buffers d) else 0)"
  have "buffers_needed (unat n) (list_room ?f s bs) (unat (buffer_size d)) \<le> unat n"
    using d(2) by (intro buffers_needed_le) (simp add: unat_gt_0)
  then have small: "th + need < 2 ^ 32" using d(4) by (auto simp: need_def th_def)
  have f: "?f AND FS_BUFFER_UPDATE = 0" "?f AND FS_BUFFER_SUSPEND = 0" using fl by (simp_all add: head_flags)
  have src': "unat n \<le> length src" using src(1) by simp
  note list_push [OF lk d(1-3) src' src(2) f need_def th_def small, of P]
  moreover have "fs_buffer_list_push P l (Some src) n ?f s = Some (SUCCESS, s1)"
    using push by (simp add: fs_buffer_hdr_push_def)
  ultimately obtain ys zs where s1: "linked l s1 (with_new ?f ys bs) zs"
      "touches (bl_fd (blists s l)) {l} (set bs \<union> set xs) s s1"
      "list_bytes s1 (with_new ?f ys bs) = at_end ?f (packed ?f (take (unat n) src)) (list_bytes s bs)"
    by (auto simp: SUCCESS_def FS_BUFFER_NO_SPACE_def split: if_splits)
  have bytes: "list_bytes s1 (with_new ?f ys bs) = packed (ucast fl) src @ list_bytes s bs"
    using s1(3) src(1) packed_cong [OF head_flags(4)] head_flags(1) by (simp add: at_end_def)
  have "calm (bl_fd (blists s1 l)) s1"
    using calm touches_calm [OF s1(2)] touches_fd [OF s1(2), of l] by simp
  moreover have "unat n \<le> length (list_bytes s1 (with_new ?f ys bs))"
    unfolding bytes using src(1) by simp
  moreover have "(ucast fl :: u8) AND FS_BUFFER_INPLACE = 0" using fl(1) by (simp add: FS_BUFFER_UPDATE_def)
  ultimately obtain ds rs s2 where s2:
      "fs_buffer_list_pull P l True n (ucast fl) s1 = Some (SUCCESS,
         packed (ucast fl) (take (unat n) (list_bytes s1 (with_new ?f ys bs))), s2)"
      "linked l s2 rs (zs @ ds)"
      "list_bytes s2 rs = drop (unat n) (list_bytes s1 (with_new ?f ys bs))"
    using list_pull_head [OF s1(1) _ _ _ fl(3,4), of n P True] by auto
  have "fs_buffer_hdr_pull P l True n fl s1 = Some (SUCCESS, src, s2)"
    using s2(1) src(1) unfolding bytes by (simp add: fs_buffer_hdr_pull_def)
  moreover have "list_bytes s2 rs = list_bytes s bs" using s2(3) src(1) unfolding bytes by simp
  ultimately show ?thesis using s2(2) by blast
qed

theorem header_push_pull_witness:
  "\<exists>rs ys s1 s2. fs_buffer_hdr_push ex_platform 0 (Some [0x12, 0x34]) 2 (ucast FS_BUFFER_PACKED) ex_state
       = Some (SUCCESS, s1) \<and>
     fs_buffer_hdr_pull ex_platform 0 True 2 (ucast FS_BUFFER_PACKED) s1 =
       Some (SUCCESS, [0x12, 0x34], s2) \<and>
     linked 0 s2 rs ys \<and> list_bytes s2 rs = [1, 2, 3, 4, 5, 6]"
proof -
  let ?r = "fs_buffer_hdr_push ex_platform 0 (Some [0x12, 0x34]) 2 (ucast FS_BUFFER_PACKED) ex_state"
  have "map_option fst ?r = Some SUCCESS" by code_simp
  then obtain s1 where s1: "?r = Some (SUCCESS, s1)" by auto
  have "\<exists>rs ys s2. fs_buffer_hdr_pull ex_platform 0 True 2 (ucast FS_BUFFER_PACKED) s1 =
       Some (SUCCESS, [0x12, 0x34], s2) \<and>
     linked 0 s2 rs ys \<and> list_bytes s2 rs = list_bytes ex_state [10, 11]"
    by (rule header_push_pull [OF ex_linked ex_calm ex_data_of _ _ _ _ _ _ _ _ _ s1])
      (simp_all only: ex_bytes, simp_all add: ex_data_def FS_BUFFER_PACKED_def FS_BUFFER_UPDATE_def
        FS_BUFFER_INPLACE_def FS_BUFFER_SUSPEND_def FS_BUFFER_TAIL_def FS_BUFFER_HEAD_def)
  then show ?thesis using s1 unfolding ex_bytes by blast
qed

section \<open>Whole lists\<close>

text \<open>C19. Returning a list to its descriptor, when nobody waits there, returns all its buffers to
  the pool in order, clears the list and puts it behind the free lists.\<close>

theorem list_free_returns_all:
  assumes "linked l s bs xs" and "calm (bl_fd (blists s l)) s" and "bl_free (blists s l) = None"
    and "lists_hold (bl_fd (blists s l)) s ls" "l \<notin> set ls" "length ls + 1 < 2 ^ 32"
  shows "\<exists>s'. fs_buffer_add_list P (bl_fd (blists s l)) l FS_LIST_FREE fl s = Some s' \<and>
     pool_holds (bl_fd (blists s l)) s' (xs @ bs) \<and>
     lists_hold (bl_fd (blists s l)) s' (ls @ [l]) \<and> linked l s' [] (xs @ bs) \<and>
     kstate.truncate s' = kstate.truncate s \<and> (\<forall>m. m \<noteq> l \<longrightarrow> blists s' m = blists s m) \<and>
     (\<forall>g. g \<noteq> bl_fd (blists s l) \<longrightarrow> fds s' g = fds s g) \<and>
     (\<forall>b. b \<notin> set bs \<union> set xs \<longrightarrow> bufs s' b = bufs s b \<and> buf_next s' b = buf_next s b)"
proof -
  note D = linkedD [OF assms(1)]
  have "\<And>b. b \<in> set bs \<Longrightarrow> sized (fd_size (bl_fd (blists s l)) s) (bufs s b)"
    using filled_sized D(5) by blast
  from add_list_free_ok [OF assms(2) refl assms(3) D(1) this D(3,4,7) assms(4-6), of P fl]
  obtain s' where s': "fs_buffer_add_list P (bl_fd (blists s l)) l FS_LIST_FREE fl s = Some s'"
     "pool_holds (bl_fd (blists s l)) s' (xs @ bs)" "lists_hold (bl_fd (blists s l)) s' (ls @ [l])"
     "blists s' l = \<lparr>bl_list = \<lparr>head = None, tail = None\<rparr>, bl_total_length = 0,
       bl_fd = bl_fd (blists s l), bl_free = None, bl_free_data = NULLP\<rparr>"
     "kstate.truncate s' = kstate.truncate s" "\<forall>m. m \<noteq> l \<longrightarrow> blists s' m = blists s m"
     "\<forall>g. g \<noteq> bl_fd (blists s l) \<longrightarrow> fds s' g = fds s g"
     "\<forall>b. b \<notin> set bs \<union> set xs \<longrightarrow> bufs s' b = bufs s b \<and> buf_next s' b = buf_next s b"
    by blast
  have "linked l s' [] (xs @ bs)"
    using s'(2,4) D(7) by (simp add: linked_def chain_holds_def chain_sll_def)
  with s' show ?thesis by blast
qed

theorem list_free_returns_all_witness:
  "\<exists>s'. fs_buffer_add_list ex_platform 0 0 FS_LIST_FREE 0 ex_state = Some s' \<and>
     pool_holds 0 s' [12, 13, 10, 11] \<and> lists_hold 0 s' [1, 2, 0]"
proof -
  have l0: "bl_fd (blists ex_state 0) = 0" by simp
  show ?thesis
    using list_free_returns_all [OF ex_linked ex_calm, unfolded l0, OF _ ex_lists,
        where P = ex_platform and fl = 0] by simp blast
qed

text \<open>Setting up a descriptor that has no lock, before anybody waits for it, returns with
  every buffer in the pool and every list on the free lists, in the order of the arrays.\<close>

theorem dataset_fills_pool:
  assumes "lock_neutral s" and "suspend_list (conds s (Fs_condition f)) = []"
    and "fs_get_lock (fds s f) = None" "fs_release_lock (fds s f) = None"
    and "free_buffers d = \<lparr>head = None, tail = None\<rparr>" "free_buffers_buffers d = 0"
      "free_lists d = \<lparr>head = None, tail = None\<rparr>" "free_lists_buffers d = 0"
    and "buffer_space d = Some mem" "unat (num_buffers d) * unat (buffer_size d) \<le> length mem"
    and "buffers d = Some bs" "length bs = unat (num_buffers d)" "distinct bs"
    and "buffer_lists d = Some ls" "length ls = unat (num_buffer_lists d)" "distinct ls"
  shows "\<exists>s'. fs_buffer_dataset P f (Some d) s = Some s' \<and> pool_holds f s' bs \<and> lists_hold f s' ls"
  using assms by (rule dataset_ok)

theorem dataset_fills_pool_witness:
  "\<exists>s'. fs_buffer_dataset ex_platform 0 (Some (ex_data\<lparr>free_buffers := \<lparr>head = None, tail = None\<rparr>,
       free_buffers_buffers := 0, free_lists := \<lparr>head = None, tail = None\<rparr>, free_lists_buffers := 0,
       buffer_space := Some [1, 2, 3, 4, 5, 6, 7, 8], num_buffers := 2, buffers := Some [20, 21],
       num_buffer_lists := 1, buffer_lists := Some [5]\<rparr>)) ex_state = Some s' \<and>
     pool_holds 0 s' [20, 21] \<and> lists_hold 0 s' [5]"
  by (rule dataset_fills_pool [where mem = "[1, 2, 3, 4, 5, 6, 7, 8]"])
    (use ex_calm [of 0] in \<open>simp_all add: calm_def ex_fd_def ex_data_def\<close>)

text \<open>C14. Dividing a list at byte \<open>k\<close>, with a free list and a free buffer, leaves the first \<open>k\<close>
  bytes on it and puts the rest on the new list, which follows it; no buffer is on both, and
  the pool has exactly the buffers that are on neither.\<close>

theorem list_divide_splits:
  assumes "linked l s bs (r # xs)" and "lists_hold (bl_fd (blists s l)) s (m # ls)"
    and "length (m # ls) < 2 ^ 32" "m \<noteq> l" "l \<notin> set ls"
    and "0 < k" "unat k < length (list_bytes s bs)"
    and "fl AND ucast FS_BUFFER_INPLACE = 0" "fl AND ucast FS_BUFFER_SUSPEND = 0"
  shows "\<exists>s' as new xs'. fs_buffer_list_divide P l fl k s = Some (SUCCESS, s') \<and>
     chain_holds l s' as \<and> list_bytes s' as = take (unat k) (list_bytes s bs) \<and>
     lseg (buf_next s') (head (bl_list (blists s' m))) new None \<and>
     list_bytes s' new = drop (unat k) (list_bytes s bs) \<and>
     unat (bl_total_length (blists s' m)) = length (list_bytes s bs) - unat k \<and>
     list_next s' l = Some m \<and> list_next s' m = None \<and> set as \<inter> set new = {} \<and>
     pool_holds (bl_fd (blists s l)) s' xs' \<and> set bs \<union> set (r # xs) = set as \<union> set new \<union> set xs' \<and>
     lists_hold (bl_fd (blists s l)) s' ls"
proof -
  obtain s' as new xs' where s': "fs_buffer_list_divide P l fl k s = Some (SUCCESS, s')"
     "divided l m (unat k) bs s s' as new" "lists_hold (bl_fd (blists s l)) s' ls"
     "pool_holds (bl_fd (blists s l)) s' xs'" "set bs \<union> set (r # xs) = set as \<union> set new \<union> set xs'"
    using list_divide_ok [OF assms(1) refl assms(2-9), of P] by blast
  then show ?thesis
    by (intro exI [of _ s'] exI [of _ as] exI [of _ new] exI [of _ xs']) (simp add: divided_def)
qed

theorem list_divide_splits_witness:
  "\<exists>s' as new. fs_buffer_list_divide ex_platform 0 0 3 ex_state = Some (SUCCESS, s') \<and>
     chain_holds 0 s' as \<and> list_bytes s' as = [1, 2, 3] \<and> list_next s' 0 = Some 1 \<and>
     lseg (buf_next s') (head (bl_list (blists s' 1))) new None \<and> list_bytes s' new = [4, 5, 6]"
proof -
  have l0: "bl_fd (blists ex_state 0) = 0" by simp
  obtain s' as new where "fs_buffer_list_divide ex_platform 0 0 3 ex_state = Some (SUCCESS, s')"
     "chain_holds 0 s' as" "list_bytes s' as = take (unat (3 :: u32)) [1, 2, 3, 4, 5, 6]"
     "lseg (buf_next s') (head (bl_list (blists s' 1))) new None"
     "list_bytes s' new = drop (unat (3 :: u32)) [1, 2, 3, 4, 5, 6]" "list_next s' 0 = Some 1"
    using list_divide_splits [OF ex_linked, unfolded l0, OF ex_lists, where k = 3 and fl = 0
        and P = ex_platform] unfolding ex_bytes by simp blast
  then show ?thesis
    by (intro exI [of _ s'] exI [of _ as] exI [of _ new]) simp
qed

text \<open>When the cut lies inside the last buffer, the tail pointer of the new list is not its
  last buffer but the last buffer of the old list, which is not on the new list at all.\<close>

theorem divided_tail_is_stale:
  assumes "linked l s bs (r # xs)" and "lists_hold (bl_fd (blists s l)) s (m # ls)"
    and "length (m # ls) < 2 ^ 32" "m \<noteq> l" "l \<notin> set ls"
    and "length (list_bytes s (butlast bs)) < unat k" "unat k < length (list_bytes s bs)"
    and "fl AND ucast FS_BUFFER_INPLACE = 0" "fl AND ucast FS_BUFFER_SUSPEND = 0"
  shows "\<exists>s' as new. fs_buffer_list_divide P l fl k s = Some (SUCCESS, s') \<and>
     chain_holds l s' as \<and> lseg (buf_next s') (head (bl_list (blists s' m))) new None \<and>
     tail (bl_list (blists s' m)) = Some (last as) \<and> last as \<notin> set new"
proof -
  have k: "0 < k" using assms(6) by (metis gr_implies_not0 unat_0 word_gt_0)
  obtain s' as new where s': "fs_buffer_list_divide P l fl k s = Some (SUCCESS, s')"
     "divided l m (unat k) bs s s' as new"
    using list_divide_ok [OF assms(1) refl assms(2-5) k assms(7-9), of P] by blast
  then show ?thesis using assms(6)
    by (intro exI [of _ s'] exI [of _ as] exI [of _ new]) (auto simp: divided_def)
qed

theorem divided_tail_is_stale_witness:
  "\<exists>s' as new. fs_buffer_list_divide ex_platform 0 0 5 ex_state = Some (SUCCESS, s') \<and>
     chain_holds 0 s' as \<and> lseg (buf_next s') (head (bl_list (blists s' 1))) new None \<and>
     tail (bl_list (blists s' 1)) = Some (last as) \<and> last as \<notin> set new"
proof -
  have l0: "bl_fd (blists ex_state 0) = 0" by simp
  have b1: "list_bytes ex_state (butlast [10, 11]) = [1, 2, 3, 4]"
    by (simp add: ex_buffer_def buffer_bytes_def)
  show ?thesis
    using divided_tail_is_stale [OF ex_linked, unfolded l0, OF ex_lists, where k = 5 and fl = 0
        and P = ex_platform] unfolding ex_bytes b1 by simp
qed

section \<open>Corner cases\<close>

text \<open>Pulling data from the tail over a buffer boundary delivers the buffers in the wrong order.\<close>

lemma pull_tail_disorders:
  "map_option (\<lambda>(st, out, s). (st, out)) (fs_buffer_list_pull ex_platform 0 True 3 FS_BUFFER_TAIL ex_state) =
   Some (SUCCESS, [5, 6, 4])"
  by code_simp

text \<open>A wait with a timeout leaves \<^verbatim>\<open>timeout_enabled\<close> as it finds it in the suspend structure.\<close>

lemma fs_condition_get_keeps_timeout_enabled:
  assumes "fs_timeout (fds s f) \<noteq> MAX_WAIT"
  shows "timeout_enabled (suspends (snd (fs_condition_get f p param flag s)) p) =
    timeout_enabled (suspends s p)"
  using assms by (simp add: fs_condition_get_def current_system_tick_def Let_def upd_suspend_def)

end
