(* ===== verification/FsOps.thy ===== *)
theory FsOps
  imports FsDivide
begin

text \<open>
  The operations on a buffer list as their users see them: which bytes go in or come out, which
  buffers stay in play, and that a descriptor that is ready stays ready. Two lists that share
  one pool are kept apart by \<open>two_lists\<close>.
\<close>

text \<open>Nobody waits for the descriptor, and its sizes are below half of the range of their type.\<close>

definition ready :: "fd \<Rightarrow> 'z fsstate_scheme \<Rightarrow> bool" where
  "ready f s \<longleftrightarrow> calm f s \<and>
     (\<exists>d. fs_buffer (fds s f) = Some d \<and> buffer_size d \<noteq> 0 \<and> unat (buffer_size d) < 2 ^ 31 \<and>
        unat (threshold_buffers d) < 2 ^ 31)"

lemma ready_sizes:
  "ready f s \<longleftrightarrow> calm f s \<and>
     (\<exists>n t. fd_sizes f s = Some (n, t) \<and> n \<noteq> 0 \<and> unat n < 2 ^ 31 \<and> unat t < 2 ^ 31)"
  by (auto simp: ready_def fd_sizes_def)

lemma ready_cong:
  "kstate.truncate s' = kstate.truncate s \<Longrightarrow> fd_sizes f s' = fd_sizes f s \<Longrightarrow> ready f s' = ready f s"
  using calm_cong [of s' s f] by (simp add: ready_sizes)

lemma touches_ready: "touches f L A s s' \<Longrightarrow> ready g s \<Longrightarrow> ready g s'"
  using ready_cong [of s' s g] touches_sizes [of f L A s s' g] touchesD(6) by blast

text \<open>The buffers a push leaves in the pool.\<close>

definition held_back :: "u8 \<Rightarrow> fd \<Rightarrow> 'z fsstate_scheme \<Rightarrow> nat" where
  "held_back fl f s =
     (if fl AND FS_BUFFER_TH \<noteq> 0 then case fd_sizes f s of Some (_, t) \<Rightarrow> unat t | None \<Rightarrow> 0 else 0)"

lemma held_back_cong: "fd_sizes f s' = fd_sizes f s \<Longrightarrow> held_back fl f s' = held_back fl f s"
  by (simp add: held_back_def)

lemma touches_held_back: "touches f L A s s' \<Longrightarrow> held_back fl g s' = held_back fl g s"
  using touches_sizes by (rule held_back_cong)

text \<open>A list and its pool after an operation: the same buffers are in play.\<close>

definition same_buffers :: "bid list \<Rightarrow> bid list \<Rightarrow> bid list \<Rightarrow> bid list \<Rightarrow> bool" where
  "same_buffers bs xs bs' xs' \<longleftrightarrow> set bs' \<union> set xs' = set bs \<union> set xs"

lemma same_buffers_refl [simp]: "same_buffers bs xs bs xs"
  by (simp add: same_buffers_def)

lemma same_buffers_length:
  assumes "linked l s bs xs" and "linked l' s' bs' xs'" and "same_buffers bs xs bs' xs'"
  shows "length bs' + length xs' = length bs + length xs"
proof -
  have "length as + length zs = card (set as \<union> set zs)" if "linked k t as zs" for k t as zs
  proof -
    have "distinct zs" using linkedD(3) [OF that] sll_holds_distinct by (auto simp: pool_holds_def)
    then show ?thesis
      using linkedD(2,4) [OF that] by (simp add: card_Un_disjoint distinct_card)
  qed
  from this [OF assms(1)] this [OF assms(2)] show ?thesis
    using assms(3) by (simp add: same_buffers_def)
qed

lemma list_bytes_Nil: "linked l s bs xs \<Longrightarrow> list_bytes s bs = [] \<longleftrightarrow> bs = []"
  using linkedD(5) [of l s bs xs] filledD(4,5) by (cases bs) fastforce+

lemma list_push_cases:
  assumes lk: "linked l s bs xs" and rd: "ready (bl_fd (blists s l)) s"
    and fl: "fl AND FS_BUFFER_UPDATE = 0" "fl AND FS_BUFFER_SUSPEND = 0"
    and src: "length src = unat n" "unat n < 2 ^ 16" "length (list_bytes s bs) + unat n < 2 ^ 32"
  shows "\<exists>st s' bs' xs'. fs_buffer_list_push P l (Some src) n fl s = Some (st, s') \<and>
     linked l s' bs' xs' \<and> touches (bl_fd (blists s l)) {l} (set bs \<union> set xs) s s' \<and>
     same_buffers bs xs bs' xs' \<and>
     (st = SUCCESS \<and> list_bytes s' bs' = at_end fl (packed fl src) (list_bytes s bs) \<and>
        length xs \<le> length xs' + unat n \<or>
      st = FS_BUFFER_NO_SPACE \<and> s' = s \<and> bs' = bs \<and> xs' = xs \<and>
        length xs < held_back fl (bl_fd (blists s l)) s + unat n)"
proof -
  obtain d where d: "fs_buffer (fds s (bl_fd (blists s l))) = Some d" "buffer_size d \<noteq> 0"
     "unat (buffer_size d) < 2 ^ 31" "unat (threshold_buffers d) < 2 ^ 31"
    using rd by (auto simp: ready_def)
  define need where "need = buffers_needed (unat n) (list_room fl s bs) (unat (buffer_size d))"
  define th where "th = (if fl AND FS_BUFFER_TH \<noteq> 0 then unat (threshold_buffers d) else 0)"
  have "need \<le> unat n" unfolding need_def using d(2) by (intro buffers_needed_le) (simp add: unat_gt_0)
  note le = this
  then have small: "th + need < 2 ^ 32" using d(4) src(2) by (auto simp: th_def)
  have th: "held_back fl (bl_fd (blists s l)) s = th"
    using d(1) by (simp add: held_back_def fd_sizes_def th_def)
  have n: "unat n + unat (buffer_size d) < 2 ^ 32" "unat n \<le> length src" using src d(3) by simp_all
  note push = list_push [OF lk d(1,2) n src(3) fl need_def th_def small, of P]
  show ?thesis
  proof (cases "need = 0 \<or> th + need \<le> length xs")
    case True
    then obtain ys zs s' where "fs_buffer_list_push P l (Some src) n fl s = Some (SUCCESS, s')"
       "xs = ys @ zs" "linked l s' (with_new fl ys bs) zs"
       "touches (bl_fd (blists s l)) {l} (set bs \<union> set xs) s s'"
       "list_bytes s' (with_new fl ys bs) = at_end fl (packed fl src) (list_bytes s bs)"
       "length ys = need"
      using push src(1) by auto
    then show ?thesis using le
      by (intro exI [of _ SUCCESS] exI [of _ s'] exI [of _ "with_new fl ys bs"] exI [of _ zs])
        (auto simp: same_buffers_def with_new_def)
  next
    case False
    then show ?thesis using push lk le th
      by (intro exI [of _ FS_BUFFER_NO_SPACE] exI [of _ s] exI [of _ bs] exI [of _ xs]) auto
  qed
qed

lemma list_pull_cases:
  assumes lk: "linked l s bs xs" and rd: "ready (bl_fd (blists s l)) s"
    and n: "unat n \<le> length (list_bytes s bs)"
    and fl: "fl AND FS_BUFFER_INPLACE = 0" "fl AND FS_BUFFER_TAIL = 0" "fl AND FS_BUFFER_HEAD = 0"
  shows "\<exists>s' bs' xs'. fs_buffer_list_pull P l want n fl s =
       Some (SUCCESS, if want then packed fl (take (unat n) (list_bytes s bs)) else [], s') \<and>
     linked l s' bs' xs' \<and> touches (bl_fd (blists s l)) {l} (set bs \<union> set xs) s s' \<and>
     same_buffers bs xs bs' xs' \<and> list_bytes s' bs' = drop (unat n) (list_bytes s bs) \<and>
     length xs \<le> length xs'"
proof -
  have "calm (bl_fd (blists s l)) s" using rd by (simp add: ready_def)
  then obtain ds rs s' where "bs = ds @ rs" "fs_buffer_list_pull P l want n fl s =
       Some (SUCCESS, if want then packed fl (take (unat n) (list_bytes s bs)) else [], s')"
     "linked l s' rs (xs @ ds)" "touches (bl_fd (blists s l)) {l} (set bs \<union> set xs) s s'"
     "list_bytes s' rs = drop (unat n) (list_bytes s bs)"
    using list_pull_head [OF lk _ n fl, of P want] by blast
  then show ?thesis
    by (intro exI [of _ s'] exI [of _ rs] exI [of _ "xs @ ds"]) (auto simp: same_buffers_def)
qed

lemma list_drop_cases:
  assumes lk: "linked l s bs xs" and rd: "ready (bl_fd (blists s l)) s"
    and n: "unat n \<le> length (list_bytes s bs)"
    and fl: "fl AND FS_BUFFER_INPLACE = 0" "fl AND FS_BUFFER_TAIL \<noteq> 0" "fl AND FS_BUFFER_HEAD = 0"
  shows "\<exists>s' bs' xs'. fs_buffer_list_pull P l False n fl s = Some (SUCCESS, [], s') \<and>
     linked l s' bs' xs' \<and> touches (bl_fd (blists s l)) {l} (set bs \<union> set xs) s s' \<and>
     same_buffers bs xs bs' xs' \<and>
     list_bytes s' bs' = take (length (list_bytes s bs) - unat n) (list_bytes s bs)"
proof -
  have "calm (bl_fd (blists s l)) s" using rd by (simp add: ready_def)
  then obtain ds rs s' where "bs = rs @ ds" "fs_buffer_list_pull P l False n fl s = Some (SUCCESS, [], s')"
     "linked l s' rs (xs @ rev ds)" "touches (bl_fd (blists s l)) {l} (set bs \<union> set xs) s s'"
     "list_bytes s' rs = take (length (list_bytes s bs) - unat n) (list_bytes s bs)"
    using list_drop_tail [OF lk _ n fl, of P] by blast
  then show ?thesis
    by (intro exI [of _ s'] exI [of _ rs] exI [of _ "xs @ rev ds"]) (auto simp: same_buffers_def)
qed

section \<open>What lies outside an operation\<close>

text \<open>
  At most descriptor \<open>f\<close>, the lists in \<open>L\<close> and the buffers in \<open>A\<close> are touched: the kernel, the
  other descriptors, lists and buffers are as before.
\<close>

definition outside ::
    "fd \<Rightarrow> lid set \<Rightarrow> bid set \<Rightarrow> 'z fsstate_scheme \<Rightarrow> 'z fsstate_scheme \<Rightarrow> bool" where
  "outside f L A s s' \<longleftrightarrow>
     kstate.truncate s' = kstate.truncate s \<and> (\<forall>g. g \<noteq> f \<longrightarrow> fds s' g = fds s g) \<and>
     (\<forall>m. m \<notin> L \<longrightarrow> blists s' m = blists s m) \<and>
     (\<forall>b. b \<notin> A \<longrightarrow> bufs s' b = bufs s b \<and> buf_next s' b = buf_next s b)"

lemma outside_refl [simp]: "outside f L A s s"
  by (simp add: outside_def)

lemma outside_trans: "outside f L A s s' \<Longrightarrow> outside f L A s' s'' \<Longrightarrow> outside f L A s s''"
  by (simp add: outside_def)

lemma touches_outside: "touches f L A s s' \<Longrightarrow> L \<subseteq> L' \<Longrightarrow> A \<subseteq> A' \<Longrightarrow> outside f L' A' s s'"
  by (auto simp: touches_def outside_def)

lemma touches_free: "touches f L A s s' \<Longrightarrow> bl_free (blists s' m) = bl_free (blists s m)"
proof -
  assume "touches f L A s s'"
  then have "bl_free (list_rest (blists s' m)) = bl_free (list_rest (blists s m))"
    by (simp add: touches_def)
  then show ?thesis by (simp add: list_rest_def)
qed

section \<open>Two lists on one pool\<close>

definition two_lists ::
    "lid \<Rightarrow> lid \<Rightarrow> 'z fsstate_scheme \<Rightarrow> bid list \<Rightarrow> bid list \<Rightarrow> bid list \<Rightarrow> bool" where
  "two_lists l m s bs cs xs \<longleftrightarrow>
     linked l s bs xs \<and> linked m s cs xs \<and> l \<noteq> m \<and> bl_fd (blists s m) = bl_fd (blists s l) \<and>
     set bs \<inter> set cs = {} \<and> length bs + length cs + length xs < 2 ^ 32"

lemma two_lists_sym: "two_lists l m s bs cs xs \<Longrightarrow> two_lists m l s cs bs xs"
  by (auto simp: two_lists_def)

lemma two_listsD:
  assumes "two_lists l m s bs cs xs"
  shows "linked l s bs xs" "linked m s cs xs" "bl_fd (blists s m) = bl_fd (blists s l)" "l \<noteq> m"
  using assms by (simp_all add: two_lists_def)

text \<open>An operation on one of them leaves the other alone.\<close>

lemma two_lists_step:
  assumes two: "two_lists l m s bs cs xs"
    and t: "touches (bl_fd (blists s l)) {l} (set bs \<union> set xs) s s'"
    and lk: "linked l s' bs' xs'" and same: "same_buffers bs xs bs' xs'"
  shows "two_lists l m s' bs' cs xs'" and "list_bytes s' cs = list_bytes s cs"
    and "set bs' \<union> set cs \<union> set xs' = set bs \<union> set cs \<union> set xs"
proof -
  note D = linkedD [OF two_listsD(2) [OF two]]
  have out: "c \<notin> set bs \<union> set xs" if "c \<in> set cs" for c
    using two D(4) that by (auto simp: two_lists_def)
  have keep: "bufs s' c = bufs s c" "buf_next s' c = buf_next s c" if "c \<in> set cs" for c
    using touchesD(1,2) [OF t out [OF that]] by simp_all
  show bytes: "list_bytes s' cs = list_bytes s cs" by (rule list_bytes_cong) (rule keep)
  have m: "blists s' m = blists s m" using touchesD(3) [OF t] two_listsD(4) [OF two] by simp
  have l: "bl_fd (blists s' l) = bl_fd (blists s l)" using touches_fd [OF t] .
  have len: "length bs' + length xs' = length bs + length xs"
    by (rule same_buffers_length [OF two_listsD(1) [OF two] lk same])
  have "chain_holds m s cs" using two_listsD(2) [OF two] by (simp add: linked_def)
  then have "chain_holds m s' cs"
    by (rule chain_holds_frame) (use m keep touches_size [OF t] in simp_all)
  moreover have "pool_holds (bl_fd (blists s' m)) s' xs'"
    using linkedD(3) [OF lk] m l two_listsD(3) [OF two] by simp
  moreover have "set cs \<inter> set xs' = {}" "set bs' \<inter> set cs = {}"
    using out same by (auto simp: same_buffers_def)
  moreover have "length bs' + length cs + length xs' < 2 ^ 32"
    using two len by (simp add: two_lists_def)
  ultimately show "two_lists l m s' bs' cs xs'"
    using lk m l two by (simp add: two_lists_def linked_def)
  show "set bs' \<union> set cs \<union> set xs' = set bs \<union> set cs \<union> set xs"
    using same by (auto simp: same_buffers_def)
qed

end
