(* ===== verification/Header.thy ===== *)
theory Header
  imports FsProps FsOps
begin

text \<open>
  The header generator and parser of \<^verbatim>\<open>rtos/utils/header.c\<close>. They go through an array of fields
  and push or pull each with a function of the buffer they work on; the locale
  \<open>header_buffer\<close> states what they rely on, and it is interpreted on the buffer lists of
  \<^verbatim>\<open>fs_buffer.c\<close>. The initialisation of a machine stores its function, which is an argument here.
\<close>

section \<open>The code\<close>

text \<open>\<open>hd_value\<close> is the memory \<^verbatim>\<open>value\<close> points to.\<close>

record HEADER =
  hd_value :: "u8 list"
  hd_size :: u16
  hd_flags :: u16

type_synonym 's hdr_push = "u8 list \<Rightarrow> u32 \<Rightarrow> u16 \<Rightarrow> 's \<Rightarrow> (int \<times> 's) option"
type_synonym 's hdr_pull = "u32 \<Rightarrow> u16 \<Rightarrow> 's \<Rightarrow> (int \<times> u8 list \<times> 's) option"

text \<open>The generator goes from the last of \<open>n\<close> headers to the first.\<close>

fun header_generate :: "'s hdr_push \<Rightarrow> HEADER list \<Rightarrow> nat \<Rightarrow> 's \<Rightarrow> (int \<times> 's) option" where
  "header_generate push headers 0 s = Some (SUCCESS, s)"
| "header_generate push headers (Suc n) s = do {
     IN_RANGE (n < length headers);
     let h = headers ! n;
     (st, s) \<leftarrow> push (hd_value h) (ucast (hd_size h)) (hd_flags h) s;
     (if st = SUCCESS then header_generate push headers n s else Some (st, s)) }"

text \<open>The parser goes from the first to the last and stores what it pulls; the headers come back.\<close>

definition store_value :: "HEADER \<Rightarrow> u8 list \<Rightarrow> HEADER" where
  "store_value h bs = h\<lparr>hd_value := bs @ drop (length bs) (hd_value h)\<rparr>"

fun header_parse :: "'s hdr_pull \<Rightarrow> HEADER list \<Rightarrow> nat \<Rightarrow> 's \<Rightarrow> (int \<times> HEADER list \<times> 's) option" where
  "header_parse pull headers 0 s = Some (SUCCESS, headers, s)"
| "header_parse pull [] (Suc n) s = None"
| "header_parse pull (h # headers) (Suc n) s = do {
     (st, bs, s) \<leftarrow> pull (ucast (hd_size h)) (hd_flags h) s;
     (if st = SUCCESS then do {
        (st, headers, s) \<leftarrow> header_parse pull headers n s;
        Some (st, store_value h bs # headers, s)
      }
      else Some (st, h # headers, s)) }"

section \<open>What they rely on\<close>

text \<open>A header whose memory is as long as its size; the bytes it puts on the wire.\<close>

definition header_fits :: "HEADER \<Rightarrow> bool" where
  "header_fits h \<longleftrightarrow> length (hd_value h) = unat (hd_size h)"

definition wire :: "HEADER \<Rightarrow> u8 list" where
  "wire h = packed (ucast (hd_flags h)) (hd_value h)"

lemma length_wire [simp]: "length (wire h) = length (hd_value h)"
  by (simp add: wire_def)

text \<open>
  \<open>holds s bs\<close>: the buffer holds the bytes \<open>bs\<close>. A push puts a value before them or fails; a
  pull takes the first ones. \<open>plain\<close> are the flags that ask for nothing else.
\<close>

locale header_buffer =
  fixes push :: "'s hdr_push" and pull :: "'s hdr_pull"
    and holds :: "'s \<Rightarrow> u8 list \<Rightarrow> bool" and plain :: "u16 \<Rightarrow> bool"
  assumes push_holds:
      "\<lbrakk>holds s bs; plain fl; length v = unat n; unat n < 2 ^ 16; length bs + unat n < 2 ^ 32;
        push v n fl s = Some (SUCCESS, s')\<rbrakk> \<Longrightarrow> holds s' (packed (ucast fl) v @ bs)"
    and pull_holds:
      "\<lbrakk>holds s (vs @ bs); plain fl; length vs = unat n\<rbrakk> \<Longrightarrow>
        \<exists>s'. pull n fl s = Some (SUCCESS, packed (ucast fl) vs, s') \<and> holds s' bs"
begin

lemma generate_holds:
  assumes "holds s bs" and "n \<le> length hs"
    and "\<forall>h \<in> set (take n hs). header_fits h \<and> plain (hd_flags h)"
    and "length bs + length (concat (map wire (take n hs))) < 2 ^ 32"
    and "header_generate push hs n s = Some (SUCCESS, s')"
  shows "holds s' (concat (map wire (take n hs)) @ bs)"
  using assms
proof (induction n arbitrary: s bs)
  case (Suc n)
  let ?h = "hs ! n"
  have tk: "take (Suc n) hs = take n hs @ [?h]" using Suc.prems(2) by (simp add: take_Suc_conv_app_nth)
  obtain s1 where s1: "push (hd_value ?h) (ucast (hd_size ?h)) (hd_flags ?h) s = Some (SUCCESS, s1)"
      "header_generate push hs n s1 = Some (SUCCESS, s')"
    using Suc.prems(2,5) by (auto simp: bind_Some_iff Let_def split: if_splits)
  have h: "length (hd_value ?h) = unat (hd_size ?h)" "plain (hd_flags ?h)"
    using Suc.prems(3) tk by (simp_all add: header_fits_def)
  have sz: "unat (ucast (hd_size ?h) :: u32) = unat (hd_size ?h)" "unat (hd_size ?h) < 2 ^ 16"
    using unsigned_less [of "hd_size ?h", where 'a = nat]
    by (simp_all add: unsigned_ucast_eq take_bit_nat_eq_self)
  have "holds s1 (wire ?h @ bs)"
    unfolding wire_def
    by (rule push_holds [OF Suc.prems(1) h(2) _ _ _ s1(1)]) (use h sz Suc.prems(4) tk in simp_all)
  moreover have "length (wire ?h @ bs) + length (concat (map wire (take n hs))) < 2 ^ 32"
    using Suc.prems(4) tk by simp
  ultimately have "holds s' (concat (map wire (take n hs)) @ wire ?h @ bs)"
    using Suc.IH [of s1 "wire ?h @ bs"] Suc.prems(2,3) s1(2) tk by simp
  then show ?case using tk by simp
qed simp

text \<open>The parser needs only the layout of the headers, their sizes and flags.\<close>

lemma parse_holds:
  assumes "holds s (concat (map wire hs) @ bs)"
    and "\<forall>h \<in> set hs. header_fits h \<and> plain (hd_flags h)"
    and "list_all2 (\<lambda>h g. header_fits g \<and> hd_size g = hd_size h \<and> hd_flags g = hd_flags h) hs gs"
  shows "\<exists>s'. header_parse pull gs (length gs) s = Some (SUCCESS, hs, s') \<and> holds s' bs"
  using assms(3,1,2)
proof (induction hs gs arbitrary: s rule: list_all2_induct)
  case (Cons h hs g gs)
  have h: "length (hd_value h) = unat (hd_size h)" "plain (hd_flags h)"
    and g: "length (hd_value g) = unat (hd_size h)" "hd_size g = hd_size h" "hd_flags g = hd_flags h"
    using Cons.hyps(1) Cons.prems(2) by (simp_all add: header_fits_def)
  have sz: "unat (ucast (hd_size h) :: u32) = unat (hd_size h)"
    using unsigned_less [of "hd_size h", where 'a = nat]
    by (simp add: unsigned_ucast_eq take_bit_nat_eq_self)
  obtain s1 where s1: "pull (ucast (hd_size h)) (hd_flags h) s =
        Some (SUCCESS, packed (ucast (hd_flags h)) (wire h), s1)" "holds s1 (concat (map wire hs) @ bs)"
    using pull_holds [of s "wire h" "concat (map wire hs) @ bs" "hd_flags h" "ucast (hd_size h)"]
      Cons.prems(1) h sz by auto
  obtain s2 where "header_parse pull gs (length gs) s1 = Some (SUCCESS, hs, s2)" "holds s2 bs"
    using Cons.IH [OF s1(2)] Cons.prems(2) by auto
  moreover have "store_value g (packed (ucast (hd_flags h)) (wire h)) = h"
    using g h(1) by (simp add: store_value_def wire_def)
  ultimately show ?case using s1(1) g(2,3) by simp
qed simp

text \<open>What was generated is parsed again.\<close>

lemma generate_parse:
  assumes "holds s bs" and "\<forall>h \<in> set hs. header_fits h \<and> plain (hd_flags h)"
    and "length bs + length (concat (map wire hs)) < 2 ^ 32"
    and "header_generate push hs (length hs) s = Some (SUCCESS, s1)"
    and "list_all2 (\<lambda>h g. header_fits g \<and> hd_size g = hd_size h \<and> hd_flags g = hd_flags h) hs gs"
  shows "\<exists>s2. header_parse pull gs (length gs) s1 = Some (SUCCESS, hs, s2) \<and> holds s2 bs"
proof -
  have "holds s1 (concat (map wire hs) @ bs)"
    using generate_holds [of s bs "length hs" hs s1] assms(1-4) by simp
  then show ?thesis using parse_holds assms(2,5) by blast
qed

end

section \<open>Buffer lists are such buffers\<close>

text \<open>
  List \<open>l\<close> is well-formed and holds the bytes \<open>bs\<close>, nobody waits for its descriptor, and the
  sizes the descriptor is set up with are below half of the range of their type.
\<close>

definition list_has :: "lid \<Rightarrow> 'z fsstate_scheme \<Rightarrow> u8 list \<Rightarrow> bool" where
  "list_has l s data \<longleftrightarrow>
     (\<exists>bs xs. linked l s bs xs \<and> ready (bl_fd (blists s l)) s \<and> list_bytes s bs = data)"

definition hdr_flags_ok :: "u16 \<Rightarrow> bool" where
  "hdr_flags_ok fl \<longleftrightarrow>
     (ucast fl :: u8) AND FS_BUFFER_UPDATE = 0 \<and> (ucast fl :: u8) AND FS_BUFFER_SUSPEND = 0 \<and>
     (ucast fl :: u8) AND FS_BUFFER_TAIL = 0 \<and> (ucast fl :: u8) AND FS_BUFFER_HEAD = 0"

lemma list_has_push:
  assumes "list_has l s data" and "hdr_flags_ok fl" and "length v = unat n" and "unat n < 2 ^ 16"
    and "length data + unat n < 2 ^ 32" and "fs_buffer_hdr_push P l (Some v) n fl s = Some (SUCCESS, s1)"
  shows "list_has l s1 (packed (ucast fl) v @ data)"
proof -
  obtain bs xs where s: "linked l s bs xs" "ready (bl_fd (blists s l)) s" "list_bytes s bs = data"
    using assms(1) by (auto simp: list_has_def)
  let ?f = "FS_BUFFER_HEAD OR ucast fl"
  have f: "?f AND FS_BUFFER_UPDATE = 0" "?f AND FS_BUFFER_SUSPEND = 0"
    using assms(2) by (simp_all add: hdr_flags_ok_def head_flags)
  have push: "fs_buffer_list_push P l (Some v) n ?f s = Some (SUCCESS, s1)"
    using assms(6) by (simp add: fs_buffer_hdr_push_def)
  then obtain bs' xs' where s1: "linked l s1 bs' xs'"
      "touches (bl_fd (blists s l)) {l} (set bs \<union> set xs) s s1"
      "list_bytes s1 bs' = at_end ?f (packed ?f v) data"
    using list_push_cases [OF s(1,2) f assms(3,4), of P] s(3) assms(5)
    by (auto simp: SUCCESS_def FS_BUFFER_NO_SPACE_def)
  have "list_bytes s1 bs' = packed (ucast fl) v @ data"
    using s1(3) packed_cong [OF head_flags(4)] head_flags(1) by (simp add: at_end_def)
  then show ?thesis
    using s1(1) touches_ready [OF s1(2) s(2)] touches_fd [OF s1(2)] by (auto simp: list_has_def)
qed

lemma list_has_pull:
  assumes "list_has l s (vs @ data)" and "hdr_flags_ok fl" and "length vs = unat n"
  shows "\<exists>s'. fs_buffer_hdr_pull P l True n fl s = Some (SUCCESS, packed (ucast fl) vs, s') \<and>
    list_has l s' data"
proof -
  obtain bs xs where s: "linked l s bs xs" "ready (bl_fd (blists s l)) s" "list_bytes s bs = vs @ data"
    using assms(1) by (auto simp: list_has_def)
  have fl: "(ucast fl :: u8) AND FS_BUFFER_INPLACE = 0" "(ucast fl :: u8) AND FS_BUFFER_TAIL = 0"
      "(ucast fl :: u8) AND FS_BUFFER_HEAD = 0"
    using assms(2) by (simp_all add: hdr_flags_ok_def FS_BUFFER_UPDATE_def)
  have "unat n \<le> length (list_bytes s bs)" using s(3) assms(3) by simp
  then obtain s' bs' xs' where s': "fs_buffer_list_pull P l True n (ucast fl) s =
        Some (SUCCESS, packed (ucast fl) vs, s')" "linked l s' bs' xs'"
      "touches (bl_fd (blists s l)) {l} (set bs \<union> set xs) s s'" "list_bytes s' bs' = data"
    using list_pull_cases [OF s(1,2) _ fl, of n P True] s(3) assms(3) by auto
  then show ?thesis
    using touches_ready [OF s'(3) s(2)] touches_fd [OF s'(3), of l]
    by (auto simp: list_has_def fs_buffer_hdr_pull_def)
qed

interpretation fs_headers: header_buffer "\<lambda>v n fl s. fs_buffer_hdr_push P l (Some v) n fl s"
    "fs_buffer_hdr_pull P l True" "list_has l" hdr_flags_ok for P l
  by unfold_locales (fact list_has_push, fact list_has_pull)

section \<open>Headers on a buffer list\<close>

text \<open>C15. The headers of a packet that were generated on a buffer list come back from the parser,
  field by field and whatever their sizes and byte orders, and the list then holds the payload
  it held before.\<close>

theorem headers_round_trip:
  assumes "list_has l s data" and "\<forall>h \<in> set hs. header_fits h \<and> hdr_flags_ok (hd_flags h)"
    and "length data + length (concat (map wire hs)) < 2 ^ 32"
    and "header_generate (\<lambda>v n fl s. fs_buffer_hdr_push P l (Some v) n fl s) hs (length hs) s =
      Some (SUCCESS, s1)"
    and "list_all2 (\<lambda>h g. header_fits g \<and> hd_size g = hd_size h \<and> hd_flags g = hd_flags h) hs gs"
  shows "\<exists>s2. header_parse (fs_buffer_hdr_pull P l True) gs (length gs) s1 = Some (SUCCESS, hs, s2) \<and>
    list_has l s2 data"
  using assms by (rule fs_headers.generate_parse)

lemma ex_ready: "ready f ex_state"
  unfolding ready_def
  by (intro conjI ex_calm exI [of _ ex_data] ex_data_of) (simp_all add: ex_data_def)

definition ex_headers :: "HEADER list" where
  "ex_headers = [\<lparr>hd_value = [0x45], hd_size = 1, hd_flags = 0\<rparr>,
     \<lparr>hd_value = [0x34, 0x12], hd_size = 2, hd_flags = ucast FS_BUFFER_PACKED\<rparr>]"

theorem headers_round_trip_witness:
  "\<exists>s1 s2. header_generate (\<lambda>v n fl s. fs_buffer_hdr_push ex_platform 0 (Some v) n fl s) ex_headers 2
       ex_state = Some (SUCCESS, s1) \<and>
     header_parse (fs_buffer_hdr_pull ex_platform 0 True)
       (map (\<lambda>h. h\<lparr>hd_value := map (\<lambda>_. 0) (hd_value h)\<rparr>) ex_headers) 2 s1 =
       Some (SUCCESS, ex_headers, s2) \<and> list_has 0 s2 [1, 2, 3, 4, 5, 6]"
proof -
  let ?r = "header_generate (\<lambda>v n fl s. fs_buffer_hdr_push ex_platform 0 (Some v) n fl s) ex_headers 2
     ex_state"
  have "map_option fst ?r = Some SUCCESS" by code_simp
  then obtain s1 where s1: "?r = Some (SUCCESS, s1)" by auto
  have has: "list_has 0 ex_state [1, 2, 3, 4, 5, 6]"
    unfolding list_has_def
    by (intro exI [of _ "[10, 11]"] exI [of _ "[12, 13]"] conjI ex_linked ex_bytes ex_ready)
  have l2: "length ex_headers = 2" by (simp add: ex_headers_def)
  have gen: "header_generate (\<lambda>v n fl s. fs_buffer_hdr_push ex_platform 0 (Some v) n fl s) ex_headers
      (length ex_headers) ex_state = Some (SUCCESS, s1)"
    using s1 l2 by simp
  have "\<exists>s2. header_parse (fs_buffer_hdr_pull ex_platform 0 True)
       (map (\<lambda>h. h\<lparr>hd_value := map (\<lambda>_. 0) (hd_value h)\<rparr>) ex_headers)
       (length (map (\<lambda>h. h\<lparr>hd_value := map (\<lambda>_. 0) (hd_value h)\<rparr>) ex_headers)) s1 =
       Some (SUCCESS, ex_headers, s2) \<and> list_has 0 s2 [1, 2, 3, 4, 5, 6]"
    by (rule headers_round_trip [OF has _ _ gen])
      (simp_all add: ex_headers_def header_fits_def hdr_flags_ok_def FS_BUFFER_PACKED_def
        FS_BUFFER_UPDATE_def FS_BUFFER_INPLACE_def FS_BUFFER_SUSPEND_def FS_BUFFER_TAIL_def
        FS_BUFFER_HEAD_def)
  then show ?thesis using s1 l2 by (simp only: length_map) blast
qed

end
