(* ===== verification/Hdlc.thy ===== *)
theory Hdlc
  imports FsProps FsOps Fcs
begin

text \<open>
  HDLC framing of PPP packets: \<^verbatim>\<open>rtos/io/ppp/ppp_hdlc.c\<close> on the buffer lists of
  \<^verbatim>\<open>rtos/fs/fs_buffer.c\<close>. A frame is the packet with an optional address and control field in
  front and its frame check sequence behind, escaped byte by byte, between two flags.
\<close>

section \<open>The code\<close>

definition PPP_FLAG :: u8 where "PPP_FLAG = 0x7E"
definition PPP_ESCAPE :: u8 where "PPP_ESCAPE = 0x7D"
definition PPP_ADDRESS :: u8 where "PPP_ADDRESS = 0xFF"
definition PPP_CONTROL :: u8 where "PPP_CONTROL = 0x3"
definition HDLC_STREAM_ERROR :: int where "HDLC_STREAM_ERROR = - 920"
definition PPP_INVALID_HEADER :: int where "PPP_INVALID_HEADER = - 900"
definition PPP_NO_BUFFERS :: int where "PPP_NO_BUFFERS = - 906"

text \<open>Reading the byte \<^verbatim>\<open>buffer->buffer[i]\<close>.\<close>

definition byte_at :: "FS_BUFFER \<Rightarrow> u32 \<Rightarrow> u8 option" where
  "byte_at b i = do { bs \<leftarrow> mem_read b (fb_off b + i) 1; Some (hd bs) }"

text \<open>
  The loop of \<^verbatim>\<open>ppp_hdlc_unescape_one\<close>: \<open>data\<close> is the offset at which the buffer began, \<open>converted\<close>
  the number of bytes written there.
\<close>

partial_function (option) unescape_loop ::
    "u32 \<Rightarrow> u32 \<Rightarrow> FS_BUFFER \<Rightarrow> bool \<Rightarrow> (u32 \<times> FS_BUFFER \<times> bool) option" where
  "unescape_loop data converted b last_escaped =
     (if fb_length b > 0 then do {
        c \<leftarrow> byte_at b 0;
        (if c = PPP_ESCAPE then
           (if fb_length b > 1 then do {
              c \<leftarrow> byte_at b 1;
              b \<leftarrow> mem_write b (data + converted) [c XOR 0x20];
              (st, b, _) \<leftarrow> fs_buffer_pull_offset b False 2 0 0;
              ASSERT (st \<noteq> SUCCESS);
              unescape_loop data (converted + 1) b last_escaped
            }
            else do {
              (st, b, _) \<leftarrow> fs_buffer_pull_offset b False 1 0 0;
              ASSERT (st \<noteq> SUCCESS);
              unescape_loop data converted b True
            })
         else do {
           b \<leftarrow> mem_write b (data + converted) [c];
           (st, b, _) \<leftarrow> fs_buffer_pull_offset b False 1 0 0;
           ASSERT (st \<noteq> SUCCESS);
           unescape_loop data (converted + 1) b last_escaped
         })
      }
      else Some (converted, b, last_escaped))"

definition ppp_hdlc_unescape_one :: "FS_BUFFER \<Rightarrow> bool \<Rightarrow> (FS_BUFFER \<times> bool) option" where
  "ppp_hdlc_unescape_one b last_escaped = do {
     let data = fb_off b;
     (converted, b, last_escaped) \<leftarrow>
       (if fb_length b > 0 \<and> last_escaped then do {
          c \<leftarrow> byte_at b 0;
          b \<leftarrow> mem_write b data [c XOR 0x20];
          (st, b, _) \<leftarrow> fs_buffer_pull_offset b False 1 0 0;
          ASSERT (st \<noteq> SUCCESS);
          Some (1, b, False)
        }
        else Some (0, b, last_escaped));
     (converted, b, last_escaped) \<leftarrow> unescape_loop data converted b last_escaped;
     Some (if fb_length b = 0 then Buffers.fs_buffer_update b data converted else b, last_escaped) }"

partial_function (option) unescape_buffers ::
    "lid \<Rightarrow> bid option \<Rightarrow> bool \<Rightarrow> 'z fsstate_scheme \<Rightarrow> (bool \<times> 'z fsstate_scheme) option" where
  "unescape_buffers l this_buffer last_escaped s =
     (case this_buffer of
        Some b \<Rightarrow> do {
          (x, last_escaped) \<leftarrow> ppp_hdlc_unescape_one (bufs s b) last_escaped;
          let s = upd_buf b (\<lambda>_. x) s;
          let s = upd_blist l (\<lambda>y. y\<lparr>bl_total_length := bl_total_length y + fb_length (bufs s b)\<rparr>) s;
          unescape_buffers l (buf_next s b) last_escaped s
        }
      | None \<Rightarrow> Some (last_escaped, s))"

definition ppp_hdlc_unescape :: "lid \<Rightarrow> 'z fsstate_scheme \<Rightarrow> (int \<times> 'z fsstate_scheme) option" where
  "ppp_hdlc_unescape l s = do {
     let this_buffer = head (bl_list (blists s l));
     let s = upd_blist l (\<lambda>y. y\<lparr>bl_total_length := 0\<rparr>) s;
     (last_escaped, s) \<leftarrow> unescape_buffers l this_buffer False s;
     Some (if last_escaped then HDLC_STREAM_ERROR else SUCCESS, s) }"

text \<open>The buffers of a list, as the routines of \<^verbatim>\<open>ppp_fcs.c\<close> visit them.\<close>

partial_function (option) buffers_from ::
    "bid option \<Rightarrow> 'z fsstate_scheme \<Rightarrow> FS_BUFFER list option" where
  "buffers_from p s =
     (case p of
        Some b \<Rightarrow> do { bs \<leftarrow> buffers_from (buf_next s b) s; Some (bufs s b # bs) }
      | None \<Rightarrow> Some [])"

declare unescape_loop.simps [code] unescape_buffers.simps [code] buffers_from.simps [code]

definition chain_of :: "lid \<Rightarrow> 'z fsstate_scheme \<Rightarrow> chain option" where
  "chain_of l s = do {
     bs \<leftarrow> buffers_from (head (bl_list (blists s l))) s;
     Some \<lparr>ch_buffers = bs, ch_total_length = bl_total_length (blists s l)\<rparr> }"

text \<open>The end of the parser: the check sequence, the address and the control field.\<close>

definition parse_fields ::
    "'z fs_platform \<Rightarrow> lid \<Rightarrow> bool \<Rightarrow> 'z fsstate_scheme \<Rightarrow> (int \<times> 'z fsstate_scheme) option" where
  "parse_fields P l acfc s = do {
     (st, _, s) \<leftarrow> fs_buffer_list_pull P l False 2 FS_BUFFER_TAIL s;
     ASSERT (st \<noteq> SUCCESS);
     (if bl_total_length (blists s l) \<ge> 2 then do {
        (st, acf, s) \<leftarrow> fs_buffer_list_pull P l True 2 FS_BUFFER_INPLACE s;
        ASSERT (st \<noteq> SUCCESS);
        (if acf ! 0 = PPP_ADDRESS \<and> acf ! 1 = PPP_CONTROL then do {
           (st, _, s) \<leftarrow> fs_buffer_list_pull P l False 2 0 s;
           ASSERT (st \<noteq> SUCCESS);
           Some (SUCCESS, s)
         }
         else Some (if \<not> acfc then PPP_INVALID_HEADER else SUCCESS, s))
      }
      else Some (if \<not> acfc then PPP_INVALID_HEADER else SUCCESS, s)) }"

definition ppp_hdlc_header_parse ::
    "'z fs_platform \<Rightarrow> lid \<Rightarrow> bool \<Rightarrow> 'z fsstate_scheme \<Rightarrow> (int \<times> 'z fsstate_scheme) option" where
  "ppp_hdlc_header_parse P l acfc s = do {
     (st, s) \<leftarrow> ppp_hdlc_unescape l s;
     (st, s) \<leftarrow>
       (if st = SUCCESS then
          (if bl_total_length (blists s l) \<ge> 4 then do {
             (st, flag, s) \<leftarrow> fs_buffer_list_pull P l True 1 FS_BUFFER_INPLACE s;
             ASSERT (st \<noteq> SUCCESS);
             Some (if flag \<noteq> [PPP_FLAG] then PPP_INVALID_HEADER else SUCCESS, s)
           }
           else Some (PPP_INVALID_HEADER, s))
        else Some (st, s));
     (st, s) \<leftarrow>
       (if st = SUCCESS then do {
          (st, flag, s) \<leftarrow> fs_buffer_list_pull P l True 1 (FS_BUFFER_INPLACE OR FS_BUFFER_TAIL) s;
          ASSERT (st \<noteq> SUCCESS);
          Some (if flag \<noteq> [PPP_FLAG] then PPP_INVALID_HEADER else SUCCESS, s)
        }
        else Some (st, s));
     (if st = SUCCESS then do {
        (st, _, s) \<leftarrow> fs_buffer_list_pull P l False 1 0 s;
        ASSERT (st \<noteq> SUCCESS);
        (st, _, s) \<leftarrow> fs_buffer_list_pull P l False 1 FS_BUFFER_TAIL s;
        ASSERT (st \<noteq> SUCCESS);
        c \<leftarrow> chain_of l s;
        valid \<leftarrow> PPP_FCS16_IS_VALID c;
        (if valid then parse_fields P l acfc s else Some (SUCCESS, s))
      }
      else Some (st, s)) }"

text \<open>Whether a byte is escaped; \<open>accm\<close> are the words of the negotiated control character map.\<close>

definition must_escape :: "u32 list \<Rightarrow> bool \<Rightarrow> u8 \<Rightarrow> bool option" where
  "must_escape accm lcp c =
     (if lcp \<and> c < 0x20 then Some True
      else do {
        IN_RANGE (unat (drop_bit 5 c) < length accm);
        Some (accm ! unat (drop_bit 5 c) AND push_bit (unat (c AND 0x1F)) 1 \<noteq> 0)
      })"

partial_function (option) escape_loop ::
    "'z fs_platform \<Rightarrow> lid \<Rightarrow> lid \<Rightarrow> u32 list \<Rightarrow> bool \<Rightarrow> u8 \<Rightarrow> int \<Rightarrow> 'z fsstate_scheme \<Rightarrow>
     (int \<times> 'z fsstate_scheme) option" where
  "escape_loop P src dst accm lcp fl st s =
     (if st = SUCCESS \<and> bl_total_length (blists s src) > 0 then do {
        (st, buf, s) \<leftarrow> fs_buffer_list_pull P src True 1 0 s;
        ASSERT (st \<noteq> SUCCESS);
        esc \<leftarrow> must_escape accm lcp (hd buf);
        (st, s) \<leftarrow>
          (if esc then fs_buffer_list_push P dst (Some [PPP_ESCAPE, hd buf XOR 0x20]) 2 fl s
           else fs_buffer_list_push P dst (Some [hd buf]) 1 fl s);
        escape_loop P src dst accm lcp fl st s
      }
      else Some (st, s))"

declare escape_loop.simps [code]

definition ppp_hdlc_escape ::
    "'z fs_platform \<Rightarrow> lid \<Rightarrow> lid \<Rightarrow> u32 list \<Rightarrow> bool \<Rightarrow> u8 \<Rightarrow> 'z fsstate_scheme \<Rightarrow>
     (int \<times> 'z fsstate_scheme) option" where
  "ppp_hdlc_escape P src dst accm lcp fl s = escape_loop P src dst accm lcp fl SUCCESS s"

text \<open>The two bytes of a check sequence in the memory of a little endian target.\<close>

definition fcs_memory :: "u16 \<Rightarrow> u8 list" where
  "fcs_memory fcs = [ucast fcs, ucast (drop_bit 8 fcs)]"

definition add_fields ::
    "'z fs_platform \<Rightarrow> lid \<Rightarrow> u8 \<Rightarrow> 'z fsstate_scheme \<Rightarrow> (int \<times> 'z fsstate_scheme) option" where
  "add_fields P l fl s = do {
     (st, s) \<leftarrow> fs_buffer_list_push P l (Some [PPP_CONTROL]) 1 (FS_BUFFER_HEAD OR fl) s;
     (if st = SUCCESS
      then fs_buffer_list_push P l (Some [PPP_ADDRESS]) 1 (FS_BUFFER_HEAD OR fl) s
      else Some (st, s)) }"

definition add_fcs ::
    "'z fs_platform \<Rightarrow> lid \<Rightarrow> u8 \<Rightarrow> 'z fsstate_scheme \<Rightarrow> (int \<times> 'z fsstate_scheme) option" where
  "add_fcs P l fl s = do {
     c \<leftarrow> chain_of l s;
     fcs \<leftarrow> ppp_fcs16_buffer_calculate c PPP_FCS16_INIT;
     let fcs = fcs XOR 0xffff;
     fs_buffer_list_push P l (Some (fcs_memory fcs)) 2 fl s }"

definition add_flags ::
    "'z fs_platform \<Rightarrow> lid \<Rightarrow> lid \<Rightarrow> u8 \<Rightarrow> 'z fsstate_scheme \<Rightarrow> (int \<times> 'z fsstate_scheme) option" where
  "add_flags P l destination fl s = do {
     let s = s\<lparr>list_next := (list_next s)(destination := list_next s l)\<rparr>;
     let s = fs_buffer_list_move l destination s;
     (st, s) \<leftarrow> fs_buffer_list_push P l (Some [PPP_FLAG]) 1 (FS_BUFFER_HEAD OR fl) s;
     (if st = SUCCESS then fs_buffer_list_push P l (Some [PPP_FLAG]) 1 fl s else Some (st, s)) }"

text \<open>What \<^verbatim>\<open>ppp_hdlc_header_add\<close> does once it has a second list.\<close>

definition build_frame ::
    "'z fs_platform \<Rightarrow> lid \<Rightarrow> lid \<Rightarrow> u32 list \<Rightarrow> bool \<Rightarrow> bool \<Rightarrow> u8 \<Rightarrow> 'z fsstate_scheme \<Rightarrow>
     (int \<times> 'z fsstate_scheme) option" where
  "build_frame P l dst accm acfc lcp fl s = do {
     (st, s) \<leftarrow> (if lcp \<or> \<not> acfc then add_fields P l fl s else Some (SUCCESS, s));
     (st, s) \<leftarrow> (if st = SUCCESS then add_fcs P l fl s else Some (st, s));
     (st, s) \<leftarrow> (if st = SUCCESS then ppp_hdlc_escape P l dst accm lcp fl s else Some (st, s));
     (if st = SUCCESS then add_flags P l dst fl s else Some (st, s)) }"

definition ppp_hdlc_header_add ::
    "'z fs_platform \<Rightarrow> lid \<Rightarrow> u32 list \<Rightarrow> bool \<Rightarrow> bool \<Rightarrow> u8 \<Rightarrow> 'z fsstate_scheme \<Rightarrow>
     (int \<times> 'z fsstate_scheme) option" where
  "ppp_hdlc_header_add P l accm acfc lcp fl s = do {
     (destination, s) \<leftarrow> fs_buffer_get_list P (bl_fd (blists s l)) FS_LIST_FREE 0 s;
     (case destination of
        Some dst \<Rightarrow> do {
          (st, s) \<leftarrow> build_frame P l dst accm acfc lcp fl s;
          s \<leftarrow> fs_buffer_add_list P (bl_fd (blists s l)) dst FS_LIST_FREE (ucast FS_BUFFER_ACTIVE) s;
          Some (st, s)
        }
      | None \<Rightarrow> Some (PPP_NO_BUFFERS, s)) }"

section \<open>Removing the escapes of one buffer\<close>

text \<open>The bytes a stream stands for, read one by one; the flag tells whether an escape is open.\<close>

fun unstuff :: "bool \<Rightarrow> u8 list \<Rightarrow> u8 list \<times> bool" where
  "unstuff e [] = ([], e)"
| "unstuff True (b # bs) = (let (out, e) = unstuff False bs in ((b XOR 0x20) # out, e))"
| "unstuff False (b # bs) =
     (if b = PPP_ESCAPE then unstuff True bs
      else let (out, e) = unstuff False bs in (b # out, e))"

abbreviation "unstuffed e bs \<equiv> fst (unstuff e bs)"
abbreviation "escape_left e bs \<equiv> snd (unstuff e bs)"

lemma unstuff_append:
  "unstuff e (xs @ ys) =
     (unstuffed e xs @ unstuffed (escape_left e xs) ys, escape_left (escape_left e xs) ys)"
  by (induction e xs rule: unstuff.induct) (auto split: prod.splits)

lemma length_unstuffed: "length (unstuffed e bs) \<le> length bs"
  by (induction e bs rule: unstuff.induct) (auto split: prod.splits)

text \<open>
  A buffer in the middle of the conversion: the part from \<open>data\<close> on that was converted lies in
  front of what is still to be read.
\<close>

definition converting :: "u32 \<Rightarrow> u32 \<Rightarrow> FS_BUFFER \<Rightarrow> u8 list \<Rightarrow> bool" where
  "converting data converted b out \<longleftrightarrow>
     buffer_ok b \<and> unat data + unat converted \<le> unat (fb_off b) \<and>
     (\<exists>mem. fb_data b = Some mem \<and> take (unat converted) (drop (unat data) mem) = out) \<and>
     length out = unat converted"

lemma byte_at_ok:
  assumes "buffer_ok b" and "unat i < unat (fb_length b)"
  shows "byte_at b i = Some (buffer_bytes b ! unat i)"
proof -
  obtain mem where mem: "fb_data b = Some mem" "length mem = unat (fb_max_length b)"
    "unat (fb_off b) + unat (fb_length b) \<le> unat (fb_max_length b)"
    "buffer_bytes b = take (unat (fb_length b)) (drop (unat (fb_off b)) mem)"
    using assms(1) by (rule buffer_okE)
  have off: "unat (fb_off b + i) = unat (fb_off b) + unat i"
    by (rule unat_add_small [where c = "fb_max_length b"]) (use mem(3) assms(2) in linarith)
  have "mem_read b (fb_off b + i) 1 = Some (take 1 (drop (unat (fb_off b + i)) mem))"
    using mem off assms(2) by (subst mem_read_ok) simp_all
  then show ?thesis using mem off assms(2) by (simp add: byte_at_def hd_drop_conv_nth take_Suc)
qed

text \<open>One byte is written at the end of the converted part, and \<open>n\<close> bytes are consumed.\<close>

lemma converting_step:
  assumes c: "converting data converted b out" and n: "0 < unat n" "unat n \<le> unat (fb_length b)"
  shows "\<exists>b1 b2. mem_write b (data + converted) [c] = Some b1 \<and>
     fs_buffer_pull_offset b1 False n 0 0 = Some (SUCCESS, b2, []) \<and>
     converting data (converted + 1) b2 (out @ [c]) \<and>
     buffer_bytes b2 = drop (unat n) (buffer_bytes b) \<and> fb_length b2 = fb_length b - n \<and>
     fb_max_length b2 = fb_max_length b"
proof -
  have b: "buffer_ok b" using c by (simp add: converting_def)
  then obtain mem where mem: "fb_data b = Some mem" "length mem = unat (fb_max_length b)"
    "unat (fb_off b) + unat (fb_length b) \<le> unat (fb_max_length b)"
    "buffer_bytes b = take (unat (fb_length b)) (drop (unat (fb_off b)) mem)"
    by (rule buffer_okE)
  let ?w = "unat data + unat converted"
  have lt: "?w \<le> unat (fb_off b)" "?w + 1 \<le> unat (fb_max_length b)"
    using c mem(3) n by (simp_all add: converting_def)
  have w: "unat (data + converted) = ?w"
    using lt(2) by (intro unat_add_small [where c = "fb_max_length b"]) simp
  have "unat (1 :: u32) + unat converted \<le> unat (fb_max_length b)" using lt(2) by simp
  from unat_add_small [OF this] have w1: "unat (converted + 1) = unat converted + 1"
    by (simp add: add.commute)
  define mem1 where "mem1 = take ?w mem @ [c] @ drop (?w + 1) mem"
  define b1 where "b1 = b\<lparr>fb_data := Some mem1\<rparr>"
  have wr: "mem_write b (data + converted) [c] = Some b1"
    using mem lt(2) w by (subst mem_write_ok) (simp_all add: b1_def mem1_def)
  have lm: "length mem1 = length mem" using lt(2) mem(2) by (simp add: mem1_def)
  have b1: "buffer_ok b1" using b lm mem(1) by (simp add: b1_def buffer_ok_def)
  have nle: "unat n \<le> unat (fb_length b1)" using n by (simp add: b1_def)
  obtain b2 where b2: "fs_buffer_pull_offset b1 False n 0 0 = Some (SUCCESS, b2, [])"
     "buffer_ok b2" "buffer_bytes b2 = drop (unat n) (buffer_bytes b1)"
     "fb_length b2 = fb_length b1 - n"
    using pull_head [OF b1 nle, of 0 False] by auto
  have off2: "fb_off b2 = fb_off b + n"
    using b2(1)
    by (auto simp: fs_buffer_pull_offset_def b1_def SUCCESS_def FS_BUFFER_NO_SPACE_def split: if_splits)
  have uoff2: "unat (fb_off b2) = unat (fb_off b) + unat n"
    unfolding off2 by (rule unat_add_small [where c = "fb_max_length b"]) (use mem(3) n in linarith)
  have keep: "drop (unat (fb_off b) + unat n) mem1 = drop (unat (fb_off b) + unat n) mem"
  proof -
    obtain k where "unat (fb_off b) + unat n = Suc (?w + k)"
      using less_imp_Suc_add [of ?w "unat (fb_off b) + unat n"] lt(1) n(1) by auto
    then show ?thesis using lt(2) mem(2) by (simp add: mem1_def min_def ac_simps)
  qed
  have "drop (unat n) (buffer_bytes b1) = drop (unat n) (buffer_bytes b)"
    using keep mem by (simp add: buffer_bytes_def b1_def drop_take add.commute)
  moreover have "take (unat converted + 1) (drop (unat data) mem1) = out @ [c]"
  proof -
    have "take (unat converted + 1) (drop (unat data) mem1) =
        take (unat converted) (drop (unat data) (take ?w mem)) @ [c]"
      using lt(2) mem(2) by (simp add: mem1_def min_def)
    then show ?thesis using c mem(1) by (simp add: converting_def drop_take)
  qed
  moreover have "fb_data b2 = Some mem1" "fb_max_length b2 = fb_max_length b"
    using pull_max_length [OF b2(1)] by (simp_all add: b1_def)
  ultimately show ?thesis
    using wr b2 w1 uoff2 lt(1) n c unfolding converting_def
    by (intro exI [of _ b1] exI [of _ b2]) (simp add: b1_def)
qed

lemma converting_skip:
  assumes c: "converting data converted b out" and n: "unat n \<le> unat (fb_length b)"
  shows "\<exists>b2. fs_buffer_pull_offset b False n 0 0 = Some (SUCCESS, b2, []) \<and>
     converting data converted b2 out \<and> buffer_bytes b2 = drop (unat n) (buffer_bytes b) \<and>
     fb_length b2 = fb_length b - n \<and> fb_max_length b2 = fb_max_length b"
proof -
  have b: "buffer_ok b" using c by (simp add: converting_def)
  then obtain b2 where b2: "fs_buffer_pull_offset b False n 0 0 = Some (SUCCESS, b2, [])"
     "buffer_ok b2" "buffer_bytes b2 = drop (unat n) (buffer_bytes b)" "fb_length b2 = fb_length b - n"
    using pull_head [OF _ n, of 0 False] by auto
  have off2: "fb_off b2 = fb_off b + n"
    using b2(1)
    by (auto simp: fs_buffer_pull_offset_def SUCCESS_def FS_BUFFER_NO_SPACE_def split: if_splits)
  have "unat (fb_off b2) = unat (fb_off b) + unat n"
    unfolding off2 using b n
    by (intro unat_add_small [where c = "fb_max_length b"]) (auto simp: buffer_ok_def)
  then show ?thesis
    using b2 c pull_max_length [OF b2(1)] unfolding converting_def by auto
qed

lemma buffer_bytes_Cons:
  assumes "buffer_ok b" and "buffer_bytes b = c # bs"
  shows "0 < fb_length b" "byte_at b 0 = Some c" "unat (fb_length b) = Suc (length bs)"
    "1 < fb_length b \<longleftrightarrow> bs \<noteq> []" "bs \<noteq> [] \<Longrightarrow> byte_at b 1 = Some (hd bs)"
proof -
  show len: "unat (fb_length b) = Suc (length bs)"
    using length_buffer_bytes [OF assms(1)] assms(2) by simp
  then show "0 < fb_length b" by (simp add: word_gt_0 unat_gt_0 [symmetric])
  show "byte_at b 0 = Some c" using byte_at_ok [OF assms(1), of 0] assms(2) len by simp
  show "1 < fb_length b \<longleftrightarrow> bs \<noteq> []" using len by (simp add: word_less_nat_alt)
  assume "bs \<noteq> []"
  then show "byte_at b 1 = Some (hd bs)"
    using byte_at_ok [OF assms(1), of 1] assms(2) len by (cases bs) simp_all
qed

lemma unescape_loop_ok:
  assumes "converting data converted b out" and "e \<Longrightarrow> buffer_bytes b = []"
  shows "\<exists>converted' b'.
     unescape_loop data converted b e = Some (converted', b', escape_left e (buffer_bytes b)) \<and>
     converting data converted' b' (out @ unstuffed e (buffer_bytes b)) \<and>
     fb_length b' = 0 \<and> fb_max_length b' = fb_max_length b"
  using assms
proof (induction "length (buffer_bytes b)" arbitrary: converted b out e rule: less_induct)
  case less
  have ok: "buffer_ok b" using less.prems(1) by (simp add: converting_def)
  show ?case
  proof (cases "buffer_bytes b")
    case Nil
    then have "fb_length b = 0" using length_buffer_bytes [OF ok] by (simp add: unat_eq_zero)
    then show ?thesis using Nil less.prems(1) by (simp add: unescape_loop.simps)
  next
    case (Cons c bs)
    note B = buffer_bytes_Cons [OF ok Cons]
    have e: "\<not> e" using less.prems(2) Cons by auto
    consider "c \<noteq> PPP_ESCAPE" | "c = PPP_ESCAPE" "bs = []" | c' cs where "c = PPP_ESCAPE" "bs = c' # cs"
      by (cases bs) auto
    then show ?thesis
    proof cases
      case 1
      have "unat (1 :: u32) \<le> unat (fb_length b)" using B(3) by simp
      then obtain b1 b2 where s: "mem_write b (data + converted) [c] = Some b1"
         "fs_buffer_pull_offset b1 False 1 0 0 = Some (SUCCESS, b2, [])"
         "converting data (converted + 1) b2 (out @ [c])" "buffer_bytes b2 = bs"
         "fb_max_length b2 = fb_max_length b"
        using converting_step [OF less.prems(1), of 1 c] Cons by auto
      have "unescape_loop data converted b e = unescape_loop data (converted + 1) b2 e"
        using B s 1 by (subst unescape_loop.simps) simp
      then show ?thesis
        using less.hyps [OF _ s(3), of e] s(4,5) Cons e 1 by (auto split: prod.splits)
    next
      case 2
      have "unat (1 :: u32) \<le> unat (fb_length b)" using B(3) by simp
      then obtain b2 where s: "fs_buffer_pull_offset b False 1 0 0 = Some (SUCCESS, b2, [])"
         "converting data converted b2 out" "buffer_bytes b2 = []" "fb_max_length b2 = fb_max_length b"
        using converting_skip [OF less.prems(1), of 1] Cons 2 by auto
      have "unescape_loop data converted b e = unescape_loop data converted b2 True"
        using B s 2 by (subst unescape_loop.simps) simp
      then show ?thesis using less.hyps [OF _ s(2), of True] s(3,4) Cons e 2 by auto
    next
      case 3
      have "unat (2 :: u32) \<le> unat (fb_length b)" using B(3) 3 by simp
      then obtain b1 b2 where s: "mem_write b (data + converted) [c' XOR 0x20] = Some b1"
         "fs_buffer_pull_offset b1 False 2 0 0 = Some (SUCCESS, b2, [])"
         "converting data (converted + 1) b2 (out @ [c' XOR 0x20])" "buffer_bytes b2 = cs"
         "fb_max_length b2 = fb_max_length b"
        using converting_step [OF less.prems(1), of 2 "c' XOR 0x20"] Cons 3 by auto
      have "unescape_loop data converted b e = unescape_loop data (converted + 1) b2 e"
        using B s 3 by (subst unescape_loop.simps) simp
      then show ?thesis
        using less.hyps [OF _ s(3), of e] s(4,5) Cons e 3 by (auto split: prod.splits)
    qed
  qed
qed

lemma converting_start: "buffer_ok b \<Longrightarrow> converting (fb_off b) 0 b []"
  by (auto simp: converting_def elim: buffer_okE)

lemma unescape_one_ok:
  assumes ok: "buffer_ok b"
  shows "\<exists>b'. ppp_hdlc_unescape_one b e = Some (b', escape_left e (buffer_bytes b)) \<and>
     buffer_ok b' \<and> buffer_bytes b' = unstuffed e (buffer_bytes b) \<and> fb_max_length b' = fb_max_length b"
proof -
  let ?bs = "buffer_bytes b"
  have fin: "\<exists>b'. (do { (converted, b, e) \<leftarrow> unescape_loop (fb_off b) n b1 e1;
       Some (if fb_length b = 0 then Buffers.fs_buffer_update b (fb_off b0) converted else b, e) }) =
       Some (b', escape_left e1 (buffer_bytes b1)) \<and> buffer_ok b' \<and>
       buffer_bytes b' = out @ unstuffed e1 (buffer_bytes b1) \<and> fb_max_length b' = fb_max_length b"
    if c: "converting (fb_off b) n b1 out" "e1 \<Longrightarrow> buffer_bytes b1 = []"
      "fb_max_length b1 = fb_max_length b" "b0 = b" for n b1 e1 out b0
  proof -
    obtain n' b2 where r: "unescape_loop (fb_off b) n b1 e1 = Some (n', b2, escape_left e1 (buffer_bytes b1))"
       "converting (fb_off b) n' b2 (out @ unstuffed e1 (buffer_bytes b1))" "fb_length b2 = 0"
       "fb_max_length b2 = fb_max_length b"
      using unescape_loop_ok [OF c(1), of e1] c(2,3) by auto
    obtain mem where "fb_data b2 = Some mem"
       "take (unat n') (drop (unat (fb_off b)) mem) = out @ unstuffed e1 (buffer_bytes b1)"
       "length mem = unat (fb_max_length b2)" "unat (fb_off b) + unat n' \<le> unat (fb_max_length b2)"
      using r(2) by (auto simp: converting_def buffer_ok_def)
    then have "buffer_ok (Buffers.fs_buffer_update b2 (fb_off b) n')"
       "buffer_bytes (Buffers.fs_buffer_update b2 (fb_off b) n') = out @ unstuffed e1 (buffer_bytes b1)"
       "fb_max_length (Buffers.fs_buffer_update b2 (fb_off b) n') = fb_max_length b2"
      by (simp_all add: Buffers.fs_buffer_update_def buffer_ok_def buffer_bytes_def)
    then show ?thesis using r(1,3,4) c(4) by simp
  qed
  show ?thesis
  proof (cases "fb_length b > 0 \<and> e")
    case True
    then obtain c bs where bs: "?bs = c # bs"
      using length_buffer_bytes [OF ok] by (cases ?bs) (auto simp: word_gt_0 unat_eq_zero)
    note B = buffer_bytes_Cons [OF ok bs]
    have "0 < unat (1 :: u32)" "unat (1 :: u32) \<le> unat (fb_length b)" using B(3) by simp_all
    then obtain b1 b2 where s: "mem_write b (fb_off b) [c XOR 0x20] = Some b1"
       "fs_buffer_pull_offset b1 False 1 0 0 = Some (SUCCESS, b2, [])"
       "converting (fb_off b) 1 b2 [c XOR 0x20]" "buffer_bytes b2 = bs"
       "fb_max_length b2 = fb_max_length b"
      using converting_step [OF converting_start [OF ok], of 1 "c XOR 0x20"] bs by auto
    show ?thesis
      using fin [OF s(3), of False b] s B True bs
      by (auto simp: ppp_hdlc_unescape_one_def split: prod.splits)
  next
    case False
    then have "e \<Longrightarrow> ?bs = []" using length_buffer_bytes [OF ok] by (auto simp: word_gt_0)
    then show ?thesis
      using fin [OF converting_start [OF ok], of e b] False
      by (auto simp: ppp_hdlc_unescape_one_def)
  qed
qed

section \<open>Removing the escapes of a list\<close>

lemma touches_put:
  "b \<in> A \<Longrightarrow> touches f L A s (upd_buf b (\<lambda>_. x) s)"
  "l \<in> L \<Longrightarrow> touches f L A s (upd_blist l (\<lambda>y. y\<lparr>bl_total_length := g y\<rparr>) s)"
  by (simp_all add: touches_def list_rest_def)

lemma unescape_buffers_ok:
  assumes "lseg (buf_next s) p bs None" and "distinct bs" and "\<forall>b \<in> set bs. buffer_ok (bufs s b)"
    and "unat (bl_total_length (blists s l)) + length (list_bytes s bs) < 2 ^ 32"
  shows "\<exists>s'. unescape_buffers l p e s = Some (escape_left e (list_bytes s bs), s') \<and>
     touches f {l} (set bs) s s' \<and> fds s' = fds s \<and> buf_next s' = buf_next s \<and>
     bl_list (blists s' l) = bl_list (blists s l) \<and>
     unat (bl_total_length (blists s' l)) =
       unat (bl_total_length (blists s l)) + length (unstuffed e (list_bytes s bs)) \<and>
     list_bytes s' bs = unstuffed e (list_bytes s bs) \<and>
     (\<forall>b \<in> set bs. buffer_ok (bufs s' b) \<and> fb_max_length (bufs s' b) = fb_max_length (bufs s b) \<and>
        (\<exists>e. buffer_bytes (bufs s' b) = unstuffed e (buffer_bytes (bufs s b))))"
  using assms
proof (induction bs arbitrary: s p e)
  case Nil
  then show ?case by (simp add: unescape_buffers.simps)
next
  case (Cons b bs)
  let ?bytes = "buffer_bytes (bufs s b)"
  have p: "p = Some b" "lseg (buf_next s) (buf_next s b) bs None"
    using Cons.prems(1) by auto
  obtain x where x: "ppp_hdlc_unescape_one (bufs s b) e = Some (x, escape_left e ?bytes)" "buffer_ok x"
     "buffer_bytes x = unstuffed e ?bytes" "fb_max_length x = fb_max_length (bufs s b)"
    using unescape_one_ok [of "bufs s b" e] Cons.prems(3) by auto
  let ?s1 = "upd_buf b (\<lambda>_. x) s"
  let ?s2 = "upd_blist l (\<lambda>y. y\<lparr>bl_total_length := bl_total_length y + fb_length (bufs ?s1 b)\<rparr>) ?s1"
  have lx: "unat (fb_length x) = length (unstuffed e ?bytes)"
    using length_buffer_bytes [OF x(2)] x(3) by simp
  have b: "b \<notin> set bs" using Cons.prems(2) by simp
  then have same: "list_bytes ?s2 bs = list_bytes s bs" by (intro list_bytes_cong) auto
  have small: "unat (bl_total_length (blists s l)) + length (unstuffed e ?bytes) +
      length (list_bytes s bs) < 2 ^ 32"
    using Cons.prems(4) length_unstuffed [of e ?bytes] by simp
  then have tot: "unat (bl_total_length (blists ?s2 l)) =
      unat (bl_total_length (blists s l)) + length (unstuffed e ?bytes)"
    using lx by (simp add: unat_word_ariths)
  have "\<forall>c \<in> set bs. buffer_ok (bufs ?s2 c)" using Cons.prems(3) b by auto
  moreover have "unat (bl_total_length (blists ?s2 l)) + length (list_bytes ?s2 bs) < 2 ^ 32"
    using small unfolding tot same by simp
  moreover have "lseg (buf_next ?s2) (buf_next s b) bs None" using p(2) by simp
  moreover have "distinct bs" using Cons.prems(2) by simp
  ultimately obtain s' where s': "unescape_buffers l (buf_next s b) (escape_left e ?bytes) ?s2 =
       Some (escape_left (escape_left e ?bytes) (list_bytes ?s2 bs), s')"
     "touches f {l} (set bs) ?s2 s'" "fds s' = fds ?s2" "buf_next s' = buf_next ?s2"
     "bl_list (blists s' l) = bl_list (blists ?s2 l)"
     "unat (bl_total_length (blists s' l)) = unat (bl_total_length (blists ?s2 l)) +
       length (unstuffed (escape_left e ?bytes) (list_bytes ?s2 bs))"
     "list_bytes s' bs = unstuffed (escape_left e ?bytes) (list_bytes ?s2 bs)"
     "\<forall>c \<in> set bs. buffer_ok (bufs s' c) \<and> fb_max_length (bufs s' c) = fb_max_length (bufs ?s2 c) \<and>
        (\<exists>e. buffer_bytes (bufs s' c) = unstuffed e (buffer_bytes (bufs ?s2 c)))"
    using Cons.IH [of ?s2 "buf_next s b" "escape_left e ?bytes"] by blast
  have run: "unescape_buffers l p e s =
      Some (escape_left e (list_bytes s (b # bs)), s')"
    using x(1) s'(1) p(1) same
    by (subst unescape_buffers.simps) (simp add: unstuff_append)
  have xb: "bufs s' b = x" using touchesD(1) [OF s'(2) b] by simp
  have t: "touches f {l} (set (b # bs)) s ?s2"
    by (rule touches_trans [OF touches_put(1) touches_put(2)]) simp_all
  have "touches f {l} (set (b # bs)) ?s2 s'" using s'(2) by (rule touches_mono) auto
  then have "touches f {l} (set (b # bs)) s s'" by (rule touches_trans [OF t])
  moreover have "list_bytes s' (b # bs) = unstuffed e (list_bytes s (b # bs))"
    using s'(7) xb x(3) same by (simp add: unstuff_append)
  moreover have "unat (bl_total_length (blists s' l)) =
      unat (bl_total_length (blists s l)) + length (unstuffed e (list_bytes s (b # bs)))"
    using s'(6) tot same by (simp add: unstuff_append)
  moreover have "\<forall>c \<in> set (b # bs). buffer_ok (bufs s' c) \<and>
      fb_max_length (bufs s' c) = fb_max_length (bufs s c) \<and>
      (\<exists>e. buffer_bytes (bufs s' c) = unstuffed e (buffer_bytes (bufs s c)))"
  proof -
    have "bufs ?s2 c = bufs s c" if "c \<in> set bs" for c using b that by auto
    then have "\<forall>c \<in> set bs. buffer_ok (bufs s' c) \<and> fb_max_length (bufs s' c) = fb_max_length (bufs s c) \<and>
        (\<exists>e. buffer_bytes (bufs s' c) = unstuffed e (buffer_bytes (bufs s c)))"
      using s'(8) by (metis (no_types, lifting))
    then show ?thesis using xb x(2-4) by auto
  qed
  ultimately show ?case using run s'(3-5) by (intro exI [of _ s']) simp
qed

text \<open>A buffer becomes empty only when it holds nothing but an escape.\<close>

lemma unstuffed_nonempty:
  assumes "bs \<noteq> []" and "bs \<noteq> [PPP_ESCAPE]"
  shows "unstuffed e bs \<noteq> []"
proof (cases bs)
  case (Cons b cs)
  then show ?thesis using assms by (cases e; cases cs) (auto split: prod.splits)
qed (use assms in simp)

lemma unescape_ok:
  assumes lk: "linked l s bs xs" and lone: "\<forall>b \<in> set bs. buffer_bytes (bufs s b) \<noteq> [PPP_ESCAPE]"
  shows "\<exists>s'. ppp_hdlc_unescape l s =
       Some (if escape_left False (list_bytes s bs) then HDLC_STREAM_ERROR else SUCCESS, s') \<and>
     linked l s' bs xs \<and> touches (bl_fd (blists s l)) {l} (set bs \<union> set xs) s s' \<and>
     list_bytes s' bs = unstuffed False (list_bytes s bs)"
proof -
  note D = linkedD [OF lk]
  let ?f = "bl_fd (blists s l)"
  let ?s0 = "upd_blist l (\<lambda>y. y\<lparr>bl_total_length := 0\<rparr>) s"
  have t0: "touches ?f {l} (set bs \<union> set xs) s ?s0" by (rule touches_put) simp
  have "lseg (buf_next s) (head (bl_list (blists s l))) bs None"
    using D(1) by (simp add: sll_holds_def chain_sll_def)
  moreover have "\<forall>b \<in> set bs. buffer_ok (bufs s b)" using D(5) filledD(1) by blast
  moreover have small: "length (list_bytes s bs) < 2 ^ 32"
    unfolding D(6) [symmetric] using unsigned_less [of "bl_total_length (blists s l)"] by simp
  moreover have bs0: "list_bytes ?s0 bs = list_bytes s bs" by (rule list_bytes_cong) simp
  ultimately obtain s' where s': "unescape_buffers l (head (bl_list (blists s l))) False ?s0 =
       Some (escape_left False (list_bytes s bs), s')"
     "touches ?f {l} (set bs) ?s0 s'" "fds s' = fds s" "buf_next s' = buf_next s"
     "bl_list (blists s' l) = bl_list (blists s l)"
     "unat (bl_total_length (blists s' l)) = length (unstuffed False (list_bytes s bs))"
     "list_bytes s' bs = unstuffed False (list_bytes s bs)"
     "\<forall>b \<in> set bs. buffer_ok (bufs s' b) \<and> fb_max_length (bufs s' b) = fb_max_length (bufs s b) \<and>
        (\<exists>e. buffer_bytes (bufs s' b) = unstuffed e (buffer_bytes (bufs s b)))"
    using unescape_buffers_ok [of ?s0 "head (bl_list (blists s l))" bs l False ?f] D(2) by auto
  have run: "ppp_hdlc_unescape l s =
      Some (if escape_left False (list_bytes s bs) then HDLC_STREAM_ERROR else SUCCESS, s')"
    using s'(1) by (simp add: ppp_hdlc_unescape_def Let_def)
  have "touches ?f {l} (set bs \<union> set xs) ?s0 s'" using s'(2) by (rule touches_mono) auto
  note t = touches_trans [OF t0 this]
  have f': "bl_fd (blists s' l) = ?f" using touches_fd [OF t] .
  have "filled (fd_size ?f s') (bufs s' b)" if b: "b \<in> set bs" for b
  proof -
    obtain e where e: "buffer_ok (bufs s' b)" "fb_max_length (bufs s' b) = fb_max_length (bufs s b)"
       "buffer_bytes (bufs s' b) = unstuffed e (buffer_bytes (bufs s b))"
      using s'(8) b by blast
    have "buffer_bytes (bufs s b) \<noteq> []" using filledD(4,5) [OF D(5) [OF b]] by auto
    then have "buffer_bytes (bufs s' b) \<noteq> []"
      using e(3) lone b unstuffed_nonempty by simp
    then have "fb_length (bufs s' b) \<noteq> 0"
      using length_buffer_bytes [OF e(1)] by auto
    then show ?thesis
      using e(1,2) D(5) [OF b] touches_size [OF t] by (simp add: filled_def)
  qed
  then have "chain_holds l s' bs"
    using D(1) s'(4-7) f' by (simp add: chain_holds_def chain_sll_def)
  moreover have "pool_holds ?f s' xs"
  proof (rule pool_holds_frame [OF D(3)])
    fix x assume "x \<in> set xs"
    then have "x \<notin> set bs" using D(4) by auto
    then show "bufs s' x = bufs s x \<and> buf_next s' x = buf_next s x"
      using touchesD(1,2) [OF s'(2)] by simp
  qed (simp add: s'(3))
  ultimately have "linked l s' bs xs" using D(4,7) f' by (simp add: linked_def)
  then show ?thesis using run t s'(7) by blast
qed

end
