(* ===== verification/HdlcProps.thy ===== *)
theory HdlcProps
  imports Hdlc
begin

text \<open>
  What the framing of \<^verbatim>\<open>rtos/io/ppp/ppp_hdlc.c\<close> puts on the wire and what it recovers from it.
\<close>

section \<open>Escaping and what undoes it\<close>

definition escapes :: "u32 list \<Rightarrow> bool \<Rightarrow> u8 \<Rightarrow> bool" where
  "escapes accm lcp c \<longleftrightarrow>
     lcp \<and> c < 0x20 \<or> accm ! unat (drop_bit 5 c) AND push_bit (unat (c AND 0x1F)) 1 \<noteq> 0"

definition stuff_byte :: "u32 list \<Rightarrow> bool \<Rightarrow> u8 \<Rightarrow> u8 list" where
  "stuff_byte accm lcp c = (if escapes accm lcp c then [PPP_ESCAPE, c XOR 0x20] else [c])"

definition stuff :: "u32 list \<Rightarrow> bool \<Rightarrow> u8 list \<Rightarrow> u8 list" where
  "stuff accm lcp bs = concat (map (stuff_byte accm lcp) bs)"

lemma stuff_simps [simp]:
  "stuff accm lcp [] = []" "stuff accm lcp (c # bs) = stuff_byte accm lcp c @ stuff accm lcp bs"
  by (simp_all add: stuff_def)

lemma length_stuff_byte: "length (stuff_byte accm lcp c) \<le> 2" "stuff_byte accm lcp c \<noteq> []"
  by (simp_all add: stuff_byte_def)

lemma length_stuff: "length (stuff accm lcp bs) \<le> 2 * length bs"
proof (induction bs)
  case (Cons c bs)
  then show ?case using length_stuff_byte(1) [of accm lcp c] by simp
qed simp

lemma drop_bit_5_u8: "unat (drop_bit 5 c) < 8" for c :: u8
proof -
  have "unat (drop_bit 5 c) = unat c div 32" by (simp add: drop_bit_eq_div unat_div_distrib)
  moreover have "unat c < 256" using unsigned_less [of c] by simp
  ultimately show ?thesis by simp
qed

lemma must_escape_ok: "length accm = 8 \<Longrightarrow> must_escape accm lcp c = Some (escapes accm lcp c)"
  using drop_bit_5_u8 [of c] by (auto simp: must_escape_def escapes_def)

lemma unstuff_stuff:
  assumes "escapes accm lcp PPP_ESCAPE"
  shows "unstuff False (stuff accm lcp bs @ rest) = (bs @ unstuffed False rest, escape_left False rest)"
proof (induction bs)
  case (Cons c bs)
  have "c \<noteq> PPP_ESCAPE" if "\<not> escapes accm lcp c" using assms that by auto
  then show ?case using Cons by (simp add: stuff_byte_def xor.assoc)
qed simp

section \<open>The chain the check sequence is computed over\<close>

lemma buffers_from_ok:
  "lseg (buf_next s) p bs None \<Longrightarrow> buffers_from p s = Some (map (bufs s) bs)"
  by (induction bs arbitrary: p) (auto simp: buffers_from.simps)

lemma chain_of_ok:
  assumes "linked l s bs xs"
  shows "\<exists>c. chain_of l s = Some c \<and> chain_ok c \<and> chain_bytes c = list_bytes s bs"
proof -
  note D = linkedD [OF assms]
  have "buffers_from (head (bl_list (blists s l))) s = Some (map (bufs s) bs)"
    using D(1) by (intro buffers_from_ok) (simp add: sll_holds_def chain_sll_def)
  then show ?thesis
    using D(5,6) filledD(1)
    by (auto simp: chain_of_def chain_ok_def chain_bytes_def list_bytes_def list_all_iff comp_def)
qed

definition frame_check :: "u8 list \<Rightarrow> u8 list" where
  "frame_check bs = fcs_memory (crc16 PPP_FCS16_INIT bs XOR 0xffff)"

lemma fcs_memory_value: "ucast (fcs_memory v ! 0) OR push_bit 8 (ucast (fcs_memory v ! 1)) = v" for v :: u16
  by (rule bit_word_eqI) (auto simp: fcs_memory_def bit_simps)

lemma length_frame_check [simp]: "length (frame_check bs) = 2"
  by (simp add: frame_check_def fcs_memory_def)

lemma frame_check_magic: "crc16 PPP_FCS16_INIT (bs @ frame_check bs) = PPP_FCS16_MAGIC"
proof -
  let ?v = "crc16 PPP_FCS16_INIT bs XOR 0xffff"
  have "frame_check bs = [fcs_memory ?v ! 0, fcs_memory ?v ! 1]"
    by (simp add: frame_check_def fcs_memory_def)
  moreover have "?v = NOT (crc16 PPP_FCS16_INIT bs)"
  proof -
    have "(0xffff :: u16) = - 1" by simp
    then show ?thesis by (simp only: bit.xor_one_right)
  qed
  ultimately show ?thesis
    using crc16_magic_iff [of "crc16 PPP_FCS16_INIT bs" "fcs_memory ?v ! 0" "fcs_memory ?v ! 1"]
    by (simp only: crc16_simps(3) fcs_memory_value)
qed

section \<open>Escaping a list\<close>

definition plain_flags :: "u8 \<Rightarrow> bool" where
  "plain_flags fl \<longleftrightarrow> fl AND FS_BUFFER_UPDATE = 0 \<and> fl AND FS_BUFFER_SUSPEND = 0 \<and>
     fl AND FS_BUFFER_HEAD = 0 \<and> fl AND FS_BUFFER_PACKED = 0"

text \<open>Two lists on one pool, whose descriptor is ready; which buffers are in play.\<close>

definition at_work :: "lid \<Rightarrow> lid \<Rightarrow> 'z fsstate_scheme \<Rightarrow> bid list \<Rightarrow> bid list \<Rightarrow> bid list \<Rightarrow> bool" where
  "at_work l m s bs cs xs \<longleftrightarrow> two_lists l m s bs cs xs \<and> ready (bl_fd (blists s l)) s"

text \<open>From one such state to the next.\<close>

definition work_done ::
    "lid \<Rightarrow> lid \<Rightarrow> 'z fsstate_scheme \<Rightarrow> bid set \<Rightarrow> 'z fsstate_scheme \<Rightarrow> bid set \<Rightarrow> bool" where
  "work_done l m s A s' A' \<longleftrightarrow> A' = A \<and> touches (bl_fd (blists s l)) {l, m} A s s'"

lemma work_done_trans:
  assumes "work_done l m s A s1 A1" and "work_done l m s1 A1 s2 A2"
  shows "work_done l m s A s2 A2"
proof -
  have t: "touches (bl_fd (blists s l)) {l, m} A s s1" and A: "A1 = A"
    using assms(1) by (auto simp: work_done_def)
  have "touches (bl_fd (blists s l)) {l, m} A s1 s2"
    using assms(2) A touches_fd [OF t, of l] by (simp add: work_done_def)
  then show ?thesis using touches_trans [OF t] assms(2) A by (simp add: work_done_def)
qed

lemma work_done_refl [simp]: "work_done l m s A s A"
  by (simp add: work_done_def)

lemma work_done_held: "work_done l m s A s' A' \<Longrightarrow> held_back fl f s' = held_back fl f s"
  by (auto simp: work_done_def elim: touches_held_back)

lemma work_done_fd: "work_done l m s A s' A' \<Longrightarrow> bl_fd (blists s' k) = bl_fd (blists s k)"
  by (auto simp: work_done_def elim: touches_fd)

lemma at_work_sym: "at_work l m s bs cs xs \<Longrightarrow> at_work m l s cs bs xs"
  using two_listsD(3) [of l m s bs cs xs] by (auto simp: at_work_def dest: two_lists_sym)

lemma at_work_push:
  assumes w: "at_work l m s bs cs xs" and fl: "fl AND FS_BUFFER_UPDATE = 0" "fl AND FS_BUFFER_SUSPEND = 0"
    and src: "length src = unat n" "unat n < 2 ^ 16" "length (list_bytes s bs) + unat n < 2 ^ 32"
  shows "\<exists>st s' bs' xs'. fs_buffer_list_push P l (Some src) n fl s = Some (st, s') \<and>
     at_work l m s' bs' cs xs' \<and>
     work_done l m s (set bs \<union> set cs \<union> set xs) s' (set bs' \<union> set cs \<union> set xs') \<and>
     list_bytes s' cs = list_bytes s cs \<and>
     (st = SUCCESS \<and> list_bytes s' bs' = at_end fl (packed fl src) (list_bytes s bs) \<and>
        length xs \<le> length xs' + unat n \<or>
      st = FS_BUFFER_NO_SPACE \<and> length xs < held_back fl (bl_fd (blists s l)) s + unat n)"
proof -
  have two: "two_lists l m s bs cs xs" and rd: "ready (bl_fd (blists s l)) s"
    using w by (simp_all add: at_work_def)
  obtain st s' bs' xs' where p: "fs_buffer_list_push P l (Some src) n fl s = Some (st, s')"
     "linked l s' bs' xs'" "touches (bl_fd (blists s l)) {l} (set bs \<union> set xs) s s'"
     "same_buffers bs xs bs' xs'"
     "st = SUCCESS \<and> list_bytes s' bs' = at_end fl (packed fl src) (list_bytes s bs) \<and>
        length xs \<le> length xs' + unat n \<or>
      st = FS_BUFFER_NO_SPACE \<and> length xs < held_back fl (bl_fd (blists s l)) s + unat n"
    using list_push_cases [OF two_listsD(1) [OF two] rd fl src, of P] by blast
  note step = two_lists_step [OF two p(3,2,4)]
  have "at_work l m s' bs' cs xs'"
    using step(1) touches_ready [OF p(3) rd] touches_fd [OF p(3), of l] by (simp add: at_work_def)
  moreover have "touches (bl_fd (blists s l)) {l, m} (set bs \<union> set cs \<union> set xs) s s'"
    using p(3) by (auto elim: touches_mono)
  then have "work_done l m s (set bs \<union> set cs \<union> set xs) s' (set bs' \<union> set cs \<union> set xs')"
    using step(3) by (simp add: work_done_def)
  ultimately show ?thesis using p(1,5) step(2) by metis
qed

lemma work_done_sym:
  "bl_fd (blists s m) = bl_fd (blists s l) \<Longrightarrow> work_done m l s A s' A' \<Longrightarrow> work_done l m s A s' A'"
  by (simp add: work_done_def insert_commute)

text \<open>The same for the other list, at its tail.\<close>

lemma at_work_push_dst:
  assumes w: "at_work l m s bs cs xs" and fl: "plain_flags fl"
    and src: "length src = unat n" "unat n < 2 ^ 16" "length (list_bytes s cs) + unat n < 2 ^ 32"
  shows "\<exists>st s' cs' xs'. fs_buffer_list_push P m (Some src) n fl s = Some (st, s') \<and>
     at_work l m s' bs cs' xs' \<and>
     work_done l m s (set bs \<union> set cs \<union> set xs) s' (set bs \<union> set cs' \<union> set xs') \<and>
     list_bytes s' bs = list_bytes s bs \<and>
     (st = SUCCESS \<and> list_bytes s' cs' = list_bytes s cs @ src \<and> length xs \<le> length xs' + unat n \<or>
      st = FS_BUFFER_NO_SPACE \<and> length xs < held_back fl (bl_fd (blists s l)) s + unat n)"
proof -
  have fd: "bl_fd (blists s m) = bl_fd (blists s l)" using w by (simp add: at_work_def two_lists_def)
  have f: "fl AND FS_BUFFER_UPDATE = 0" "fl AND FS_BUFFER_SUSPEND = 0"
    using fl by (simp_all add: plain_flags_def)
  obtain st s' cs' xs' where p: "fs_buffer_list_push P m (Some src) n fl s = Some (st, s')"
     "at_work m l s' cs' bs xs'"
     "work_done m l s (set cs \<union> set bs \<union> set xs) s' (set cs' \<union> set bs \<union> set xs')"
     "list_bytes s' bs = list_bytes s bs"
     "st = SUCCESS \<and> list_bytes s' cs' = at_end fl (packed fl src) (list_bytes s cs) \<and>
        length xs \<le> length xs' + unat n \<or>
      st = FS_BUFFER_NO_SPACE \<and> length xs < held_back fl (bl_fd (blists s m)) s + unat n"
    using at_work_push [OF at_work_sym [OF w] f src, of P] by blast
  have "work_done l m s (set bs \<union> set cs \<union> set xs) s' (set bs \<union> set cs' \<union> set xs')"
    using work_done_sym [OF fd p(3)] by (simp add: Un_commute Un_left_commute Un_assoc)
  moreover have "at_end fl (packed fl src) (list_bytes s cs) = list_bytes s cs @ src"
    using fl by (simp add: plain_flags_def at_end_def packed_def)
  ultimately show ?thesis using p(1,4,5) at_work_sym [OF p(2)] fd by metis
qed

lemma at_work_pull_src:
  assumes w: "at_work l m s bs cs xs" and bytes: "list_bytes s bs = c # rest"
  shows "\<exists>s' bs' xs'. fs_buffer_list_pull P l True 1 0 s = Some (SUCCESS, [c], s') \<and>
     at_work l m s' bs' cs xs' \<and>
     work_done l m s (set bs \<union> set cs \<union> set xs) s' (set bs' \<union> set cs \<union> set xs') \<and>
     list_bytes s' bs' = rest \<and> list_bytes s' cs = list_bytes s cs \<and> length xs \<le> length xs'"
proof -
  have two: "two_lists l m s bs cs xs" and rd: "ready (bl_fd (blists s l)) s"
    using w by (simp_all add: at_work_def)
  have "unat (1 :: u32) \<le> length (list_bytes s bs)" using bytes by simp
  then obtain s' bs' xs' where p: "fs_buffer_list_pull P l True 1 0 s = Some (SUCCESS, [c], s')"
     "linked l s' bs' xs'" "touches (bl_fd (blists s l)) {l} (set bs \<union> set xs) s s'"
     "same_buffers bs xs bs' xs'" "list_bytes s' bs' = rest" "length xs \<le> length xs'"
    using list_pull_cases [OF two_listsD(1) [OF two] rd, of 1 0 P True] bytes
    by (auto simp: packed_def)
  note step = two_lists_step [OF two p(3,2,4)]
  have "ready (bl_fd (blists s' l)) s'"
    using touches_ready [OF p(3) rd] touches_fd [OF p(3), of l] by simp
  then have "at_work l m s' bs' cs xs'" using step(1) by (simp add: at_work_def)
  moreover have "touches (bl_fd (blists s l)) {l, m} (set bs \<union> set cs \<union> set xs) s s'"
    using p(3) by (auto elim: touches_mono)
  then have "work_done l m s (set bs \<union> set cs \<union> set xs) s' (set bs' \<union> set cs \<union> set xs')"
    using step(3) by (simp add: work_done_def)
  ultimately show ?thesis using p(1,5,6) step(2) by blast
qed

lemma escape_loop_ok:
  assumes "at_work l m s bs cs xs" and "length accm = 8" and "plain_flags fl"
    and "length (list_bytes s cs) + 2 * length (list_bytes s bs) < 2 ^ 32"
  shows "\<exists>st s' bs' cs' xs'. escape_loop P l m accm lcp fl SUCCESS s = Some (st, s') \<and>
     at_work l m s' bs' cs' xs' \<and>
     work_done l m s (set bs \<union> set cs \<union> set xs) s' (set bs' \<union> set cs' \<union> set xs') \<and>
     (st = SUCCESS \<and> bs' = [] \<and>
        list_bytes s' cs' = list_bytes s cs @ stuff accm lcp (list_bytes s bs) \<and>
        length xs \<le> length xs' + 2 * length (list_bytes s bs) \<or>
      st = FS_BUFFER_NO_SPACE \<and>
        length xs < held_back fl (bl_fd (blists s l)) s + 2 * length (list_bytes s bs))"
  using assms(1,4)
proof (induction "list_bytes s bs" arbitrary: s bs cs xs)
  case Nil
  have lk: "linked l s bs xs" using Nil.prems(1) by (simp add: at_work_def two_lists_def)
  then have "bs = []" using list_bytes_Nil Nil.hyps by metis
  moreover have "bl_total_length (blists s l) = 0"
    using linkedD(6) [OF lk] Nil.hyps by (simp add: unat_eq_zero)
  ultimately show ?case using Nil.prems(1)
    by (intro exI [of _ SUCCESS] exI [of _ s] exI [of _ bs] exI [of _ cs] exI [of _ xs])
      (simp add: escape_loop.simps)
next
  case (Cons c rest)
  have lk: "linked l s bs xs" using Cons.prems(1) by (simp add: at_work_def two_lists_def)
  have len: "length (list_bytes s bs) = Suc (length rest)" by (simp add: Cons.hyps(2) [symmetric])
  have more: "bl_total_length (blists s l) > 0"
    using linkedD(6) [OF lk] len by (simp add: word_gt_0 unat_gt_0 [symmetric])
  obtain s1 bs1 xs1 where s1: "fs_buffer_list_pull P l True 1 0 s = Some (SUCCESS, [c], s1)"
     "at_work l m s1 bs1 cs xs1"
     "work_done l m s (set bs \<union> set cs \<union> set xs) s1 (set bs1 \<union> set cs \<union> set xs1)"
     "list_bytes s1 bs1 = rest" "list_bytes s1 cs = list_bytes s cs" "length xs \<le> length xs1"
    using at_work_pull_src [OF Cons.prems(1) Cons.hyps(2) [symmetric], of P] by blast
  let ?src = "stuff_byte accm lcp c"
  define n :: u32 where "n = (if escapes accm lcp c then 2 else 1)"
  have n: "length ?src = unat n" "unat n < 2 ^ 16" "unat n \<le> 2"
    by (simp_all add: n_def stuff_byte_def)
  have "length (list_bytes s1 cs) + unat n < 2 ^ 32" using Cons.prems(2) s1(5) len n(3) by simp
  from at_work_push_dst [OF s1(2) assms(3) n(1,2) this, of P]
  obtain st s2 cs2 xs2 where s2: "fs_buffer_list_push P m (Some ?src) n fl s1 = Some (st, s2)"
     "at_work l m s2 bs1 cs2 xs2"
     "work_done l m s1 (set bs1 \<union> set cs \<union> set xs1) s2 (set bs1 \<union> set cs2 \<union> set xs2)"
     "list_bytes s2 bs1 = list_bytes s1 bs1"
     "st = SUCCESS \<and> list_bytes s2 cs2 = list_bytes s1 cs @ ?src \<and> length xs1 \<le> length xs2 + unat n \<or>
      st = FS_BUFFER_NO_SPACE \<and> length xs1 < held_back fl (bl_fd (blists s1 l)) s1 + unat n"
    by blast
  have held: "held_back fl (bl_fd (blists s1 l)) s1 = held_back fl (bl_fd (blists s l)) s"
     "held_back fl (bl_fd (blists s2 l)) s2 = held_back fl (bl_fd (blists s l)) s"
    using s1(3) work_done_trans [OF s1(3) s2(3)] by (simp_all add: work_done_held work_done_fd)
  note done2 = work_done_trans [OF s1(3) s2(3)]
  have run: "escape_loop P l m accm lcp fl SUCCESS s = escape_loop P l m accm lcp fl st s2"
    using more s1(1) s2(1) must_escape_ok [OF assms(2), of lcp c]
    by (subst escape_loop.simps) (auto simp: n_def stuff_byte_def)
  from s2(5) show ?case
  proof (elim disjE conjE)
    assume ok: "st = SUCCESS" "list_bytes s2 cs2 = list_bytes s1 cs @ ?src"
      "length xs1 \<le> length xs2 + unat n"
    have "length (list_bytes s2 cs2) + 2 * length (list_bytes s2 bs1) < 2 ^ 32"
      using Cons.prems(2) ok(2) s2(4) s1(4,5) len length_stuff_byte(1) [of accm lcp c] by simp
    with Cons.hyps(1) [OF _ s2(2)] s2(4) s1(4) obtain st' s' bs' cs' xs' where
      "escape_loop P l m accm lcp fl SUCCESS s2 = Some (st', s')" "at_work l m s' bs' cs' xs'"
      "work_done l m s2 (set bs1 \<union> set cs2 \<union> set xs2) s' (set bs' \<union> set cs' \<union> set xs')"
      "st' = SUCCESS \<and> bs' = [] \<and>
         list_bytes s' cs' = list_bytes s2 cs2 @ stuff accm lcp (list_bytes s2 bs1) \<and>
         length xs2 \<le> length xs' + 2 * length (list_bytes s2 bs1) \<or>
       st' = FS_BUFFER_NO_SPACE \<and>
         length xs2 < held_back fl (bl_fd (blists s2 l)) s2 + 2 * length (list_bytes s2 bs1)" by metis
    then show ?thesis
      using run ok s1(4-6) s2(4) n(3) held work_done_trans [OF done2]
      by (intro exI [of _ st'] exI [of _ s'] exI [of _ bs'] exI [of _ cs'] exI [of _ xs'])
        (auto simp: Cons.hyps(2) [symmetric])
  next
    assume no: "st = FS_BUFFER_NO_SPACE" "length xs1 < held_back fl (bl_fd (blists s1 l)) s1 + unat n"
    then have "escape_loop P l m accm lcp fl st s2 = Some (st, s2)"
      by (simp add: escape_loop.simps SUCCESS_def FS_BUFFER_NO_SPACE_def)
    moreover have "length xs < held_back fl (bl_fd (blists s l)) s + 2 * length (list_bytes s bs)"
      using no(2) s1(6) n(3) len unfolding held by simp
    ultimately show ?thesis using run s2(2) done2 no(1) by metis
  qed
qed

section \<open>The steps of building a frame\<close>

lemma plain_flagsD:
  assumes "plain_flags fl"
  shows "(FS_BUFFER_HEAD OR fl) AND FS_BUFFER_UPDATE = 0" "(FS_BUFFER_HEAD OR fl) AND FS_BUFFER_SUSPEND = 0"
    and "fl AND FS_BUFFER_UPDATE = 0" "fl AND FS_BUFFER_SUSPEND = 0"
    and "at_end (FS_BUFFER_HEAD OR fl) bs old = bs @ old" "at_end fl bs old = old @ bs"
    and "packed (FS_BUFFER_HEAD OR fl) bs = bs" "packed fl bs = bs"
    and "held_back (FS_BUFFER_HEAD OR fl) f s = held_back fl f s"
  using assms by (simp_all add: plain_flags_def head_flags at_end_def packed_def held_back_def)
    (simp add: FS_BUFFER_HEAD_def)

lemma add_fields_ok:
  assumes w: "at_work l m s bs cs xs" and fl: "plain_flags fl"
    and len: "length (list_bytes s bs) + 2 < 2 ^ 32"
  shows "\<exists>st s' bs' xs'. add_fields P l fl s = Some (st, s') \<and> at_work l m s' bs' cs xs' \<and>
     work_done l m s (set bs \<union> set cs \<union> set xs) s' (set bs' \<union> set cs \<union> set xs') \<and>
     list_bytes s' cs = list_bytes s cs \<and>
     (st = SUCCESS \<and> list_bytes s' bs' = [PPP_ADDRESS, PPP_CONTROL] @ list_bytes s bs \<and>
        length xs \<le> length xs' + 2 \<or>
      st = FS_BUFFER_NO_SPACE \<and> length xs < held_back fl (bl_fd (blists s l)) s + 2)"
proof -
  note F = plain_flagsD [OF fl]
  have n: "length [v] = unat (1 :: u32)" "unat (1 :: u32) < 2 ^ 16" for v :: u8 by simp_all
  have "length (list_bytes s bs) + unat (1 :: u32) < 2 ^ 32" using len by simp
  from at_work_push [OF w F(1,2) n this, of P PPP_CONTROL]
  obtain st s1 bs1 xs1 where s1: "fs_buffer_list_push P l (Some [PPP_CONTROL]) 1 (FS_BUFFER_HEAD OR fl) s =
       Some (st, s1)" "at_work l m s1 bs1 cs xs1"
     "work_done l m s (set bs \<union> set cs \<union> set xs) s1 (set bs1 \<union> set cs \<union> set xs1)"
     "list_bytes s1 cs = list_bytes s cs"
     "st = SUCCESS \<and> list_bytes s1 bs1 = PPP_CONTROL # list_bytes s bs \<and> length xs \<le> length xs1 + 1 \<or>
      st = FS_BUFFER_NO_SPACE \<and> length xs < held_back fl (bl_fd (blists s l)) s + 1"
    by (auto simp: F(5,7,9))
  from s1(5) show ?thesis
  proof (elim disjE conjE)
    assume ok: "st = SUCCESS" "list_bytes s1 bs1 = PPP_CONTROL # list_bytes s bs"
      "length xs \<le> length xs1 + 1"
    then have "length (list_bytes s1 bs1) + unat (1 :: u32) < 2 ^ 32" using len by simp
    from at_work_push [OF s1(2) F(1,2) n this, of P PPP_ADDRESS]
    obtain st' s2 bs2 xs2 where s2: "fs_buffer_list_push P l (Some [PPP_ADDRESS]) 1
         (FS_BUFFER_HEAD OR fl) s1 = Some (st', s2)" "at_work l m s2 bs2 cs xs2"
       "work_done l m s1 (set bs1 \<union> set cs \<union> set xs1) s2 (set bs2 \<union> set cs \<union> set xs2)"
       "list_bytes s2 cs = list_bytes s1 cs"
       "st' = SUCCESS \<and> list_bytes s2 bs2 = PPP_ADDRESS # list_bytes s1 bs1 \<and>
          length xs1 \<le> length xs2 + 1 \<or>
        st' = FS_BUFFER_NO_SPACE \<and> length xs1 < held_back fl (bl_fd (blists s1 l)) s1 + 1"
      by (auto simp: F(5,7,9))
    have "add_fields P l fl s = Some (st', s2)" using s1(1) ok(1) s2(1) by (simp add: add_fields_def)
    then show ?thesis
      using s2(2,4,5) s1(4) ok work_done_trans [OF s1(3) s2(3)]
      by (intro exI [of _ st'] exI [of _ s2] exI [of _ bs2] exI [of _ xs2])
        (auto simp: work_done_held [OF s1(3)] work_done_fd [OF s1(3)])
  next
    assume no: "st = FS_BUFFER_NO_SPACE" "length xs < held_back fl (bl_fd (blists s l)) s + 1"
    then have "add_fields P l fl s = Some (st, s1)"
      using s1(1) by (simp add: add_fields_def SUCCESS_def FS_BUFFER_NO_SPACE_def)
    then show ?thesis using s1(2-4) no
      by (intro exI [of _ st] exI [of _ s1] exI [of _ bs1] exI [of _ xs1]) auto
  qed
qed

lemma add_fcs_ok:
  assumes w: "at_work l m s bs cs xs" and fl: "plain_flags fl"
    and len: "length (list_bytes s bs) + 2 < 2 ^ 32"
  shows "\<exists>st s' bs' xs'. add_fcs P l fl s = Some (st, s') \<and> at_work l m s' bs' cs xs' \<and>
     work_done l m s (set bs \<union> set cs \<union> set xs) s' (set bs' \<union> set cs \<union> set xs') \<and>
     list_bytes s' cs = list_bytes s cs \<and>
     (st = SUCCESS \<and> list_bytes s' bs' = list_bytes s bs @ frame_check (list_bytes s bs) \<and>
        length xs \<le> length xs' + 2 \<or>
      st = FS_BUFFER_NO_SPACE \<and> length xs < held_back fl (bl_fd (blists s l)) s + 2)"
proof -
  note F = plain_flagsD [OF fl]
  obtain c where c: "chain_of l s = Some c" "chain_ok c" "chain_bytes c = list_bytes s bs"
    using chain_of_ok [of l s bs xs] w by (auto simp: at_work_def two_lists_def)
  have run: "add_fcs P l fl s = fs_buffer_list_push P l (Some (frame_check (list_bytes s bs))) 2 fl s"
    using c fcs_of_chain [OF c(2)] by (simp add: add_fcs_def frame_check_def)
  have n: "length (frame_check (list_bytes s bs)) = unat (2 :: u32)" "unat (2 :: u32) < 2 ^ 16"
    by simp_all
  have "length (list_bytes s bs) + unat (2 :: u32) < 2 ^ 32" using len by simp
  from at_work_push [OF w F(3,4) n this, of P] show ?thesis
    unfolding run by (simp add: F(6,8))
qed

text \<open>Moving the new chain to the list of the packet.\<close>

lemma move_ok:
  assumes w: "at_work l m s [] cs xs" and lists: "lists_hold (bl_fd (blists s l)) s ls"
      "l \<notin> set ls" "m \<notin> set ls"
    and s': "s' = fs_buffer_list_move l m (s\<lparr>list_next := (list_next s)(m := list_next s l)\<rparr>)"
  shows "at_work l m s' cs [] xs" "list_bytes s' cs = list_bytes s cs"
    "lists_hold (bl_fd (blists s l)) s' ls" "bl_fd (blists s' l) = bl_fd (blists s l)"
    "bl_free (blists s' m) = None" "outside (bl_fd (blists s l)) {l, m} A s s'"
    "fd_sizes f s' = fd_sizes f s"
proof -
  have two: "two_lists l m s [] cs xs" using w by (simp add: at_work_def)
  note lm = two_listsD(4) [OF two] and fd = two_listsD(3) [OF two]
  note D = linkedD [OF two_listsD(2) [OF two]]
  have sel: "bufs s' = bufs s" "buf_next s' = buf_next s" "fds s' = fds s"
      "kstate.truncate s' = kstate.truncate s" "blists s' l = blists s m"
      "bl_list (blists s' m) = \<lparr>head = None, tail = None\<rparr>" "bl_total_length (blists s' m) = 0"
      "bl_fd (blists s' m) = bl_fd (blists s l)" "bl_free (blists s' m) = None"
      "a \<noteq> l \<Longrightarrow> a \<noteq> m \<Longrightarrow> blists s' a = blists s a \<and> list_next s' a = list_next s a" for a
    using lm fd unfolding s' fs_buffer_list_move_def fs_buffer_list_init_def Let_def by simp_all
  show bytes: "list_bytes s' cs = list_bytes s cs" by (rule list_bytes_cong) (simp add: sel)
  show fdl: "bl_fd (blists s' l) = bl_fd (blists s l)" using sel(5) fd by simp
  show sizes: "fd_sizes f s' = fd_sizes f s" for f by (simp add: fd_sizes_def sel)
  have size: "fd_size f s' = fd_size f s" for f by (simp add: fd_size_def sel)
  have pool: "pool_holds (bl_fd (blists s l)) s' xs"
    using D(3) fd by (simp add: pool_holds_def sel)
  have "chain_holds m s cs" using two_listsD(2) [OF two] by (simp add: linked_def)
  then have "chain_holds l s' cs"
    using sel fd bytes size by (simp add: chain_holds_def chain_sll_def)
  moreover have "chain_holds m s' []" by (simp add: chain_holds_def chain_sll_def sel)
  moreover have "ready (bl_fd (blists s l)) s'"
    using w ready_cong [OF sel(4) sizes] by (simp add: at_work_def)
  ultimately show "at_work l m s' cs [] xs"
    using pool D(4,7) fdl sel(8) lm two by (simp add: at_work_def two_lists_def linked_def)
  show "bl_free (blists s' m) = None" by (rule sel)
  show "outside (bl_fd (blists s l)) {l, m} A s s'" using sel by (simp add: outside_def)
  obtain d where d: "fs_buffer (fds s (bl_fd (blists s l))) = Some d"
      "sll_holds (list_next s, free_lists d) ls" "unat (free_lists_buffers d) = length ls"
    using lists(1) by (auto simp: lists_hold_def)
  have "sll_holds (list_next s', free_lists d) ls"
    by (rule sll_holds_frame [OF d(2)]) (use sel(10) lists(2,3) in metis)
  then show "lists_hold (bl_fd (blists s l)) s' ls" using d by (simp add: lists_hold_def sel)
qed

text \<open>The end of the work: the second list goes back to the descriptor.\<close>

lemma give_back_list:
  assumes w: "at_work l m s bs cs xs" and lists: "lists_hold (bl_fd (blists s l)) s ls" "m \<notin> set ls"
      "length ls + 1 < 2 ^ 32" and own: "bl_free (blists s m) = None"
  shows "\<exists>s'. fs_buffer_add_list P (bl_fd (blists s l)) m FS_LIST_FREE fl s = Some s' \<and>
     linked l s' bs (xs @ cs) \<and> list_bytes s' bs = list_bytes s bs \<and>
     lists_hold (bl_fd (blists s l)) s' (ls @ [m]) \<and> ready (bl_fd (blists s l)) s' \<and>
     bl_fd (blists s' l) = bl_fd (blists s l) \<and>
     outside (bl_fd (blists s l)) {l, m} (set bs \<union> set cs \<union> set xs) s s'"
proof -
  let ?f = "bl_fd (blists s l)"
  have two: "two_lists l m s bs cs xs" and rd: "ready ?f s" using w by (simp_all add: at_work_def)
  note lm = two_listsD(4) [OF two] and fd = two_listsD(3) [OF two]
  note D = linkedD [OF two_listsD(2) [OF two], unfolded fd]
  have calm: "calm ?f s" using rd by (simp add: ready_def)
  have sized: "\<And>b. b \<in> set cs \<Longrightarrow> sized (fd_size ?f s) (bufs s b)" using filled_sized D(5) by blast
  from add_list_free_ok [OF calm fd [symmetric] own D(1) sized D(3,4,7) lists, of P fl]
  obtain s' where s': "fs_buffer_add_list P ?f m FS_LIST_FREE fl s = Some s'"
     "pool_holds ?f s' (xs @ cs)" "lists_hold ?f s' (ls @ [m])" "kstate.truncate s' = kstate.truncate s"
     "\<forall>k. k \<noteq> m \<longrightarrow> blists s' k = blists s k" "\<forall>g. g \<noteq> ?f \<longrightarrow> fds s' g = fds s g"
     "fd_size ?f s' = fd_size ?f s"
     "\<forall>b. b \<notin> set cs \<union> set xs \<longrightarrow> bufs s' b = bufs s b \<and> buf_next s' b = buf_next s b"
     "fd_sizes ?f s' = fd_sizes ?f s" by blast
  have l: "blists s' l = blists s l" using s'(5) lm by simp
  have keep: "bufs s' b = bufs s b \<and> buf_next s' b = buf_next s b" if "b \<in> set bs" for b
  proof -
    have "b \<notin> set cs \<union> set xs"
      using two linkedD(4) [OF two_listsD(1) [OF two]] that by (auto simp: two_lists_def)
    then show ?thesis using s'(8) by blast
  qed
  then have bytes: "list_bytes s' bs = list_bytes s bs" by (intro list_bytes_cong) simp
  have "chain_holds l s bs" using two_listsD(1) [OF two] by (simp add: linked_def)
  then have "chain_holds l s' bs" by (rule chain_holds_frame) (use l keep s'(7) in simp_all)
  moreover have "set bs \<inter> set (xs @ cs) = {}" "length bs + length (xs @ cs) < 2 ^ 32"
    using two linkedD(4) [OF two_listsD(1) [OF two]] by (auto simp: two_lists_def)
  ultimately have "linked l s' bs (xs @ cs)" using s'(2) l by (simp add: linked_def)
  moreover have "ready ?f s'" using rd ready_cong [OF s'(4,9)] by simp
  moreover have "outside ?f {l, m} (set bs \<union> set cs \<union> set xs) s s'"
    using s'(4-6,8) by (simp add: outside_def)
  ultimately show ?thesis using s'(1,3) bytes l by auto
qed

section \<open>Building a frame\<close>

definition fields :: "bool \<Rightarrow> bool \<Rightarrow> u8 list" where
  "fields acfc lcp = (if lcp \<or> \<not> acfc then [PPP_ADDRESS, PPP_CONTROL] else [])"

definition frame :: "u32 list \<Rightarrow> bool \<Rightarrow> bool \<Rightarrow> u8 list \<Rightarrow> u8 list" where
  "frame accm acfc lcp data =
     [PPP_FLAG] @ stuff accm lcp (fields acfc lcp @ data @ frame_check (fields acfc lcp @ data)) @ [PPP_FLAG]"

text \<open>
  Between the steps: \<open>s0\<close> is the state at the start, \<open>A\<close> the buffers in play, \<open>ls\<close> the free lists.
\<close>

definition in_work ::
    "lid \<Rightarrow> lid \<Rightarrow> bid set \<Rightarrow> lid list \<Rightarrow> 'z fsstate_scheme \<Rightarrow>
     'z fsstate_scheme \<Rightarrow> bid list \<Rightarrow> bid list \<Rightarrow> bid list \<Rightarrow> bool" where
  "in_work l m A ls s0 s bs cs xs \<longleftrightarrow>
     at_work l m s bs cs xs \<and> lists_hold (bl_fd (blists s0 l)) s ls \<and> bl_free (blists s m) = None \<and>
     bl_fd (blists s l) = bl_fd (blists s0 l) \<and> outside (bl_fd (blists s0 l)) {l, m} A s0 s \<and>
     set bs \<union> set cs \<union> set xs = A \<and> fd_sizes (bl_fd (blists s0 l)) s = fd_sizes (bl_fd (blists s0 l)) s0"

lemma in_workD:
  assumes "in_work l m A ls s0 s bs cs xs"
  shows "at_work l m s bs cs xs" "bl_fd (blists s l) = bl_fd (blists s0 l)"
    "set bs \<union> set cs \<union> set xs = A"
    "held_back fl (bl_fd (blists s l)) s = held_back fl (bl_fd (blists s0 l)) s0"
  using assms by (auto simp: in_work_def intro: held_back_cong)

lemma in_work_step:
  assumes i: "in_work l m A ls s0 s bs cs xs" and w: "at_work l m s' bs' cs' xs'"
    and d: "work_done l m s (set bs \<union> set cs \<union> set xs) s' (set bs' \<union> set cs' \<union> set xs')"
  shows "in_work l m A ls s0 s' bs' cs' xs'"
proof -
  have A: "set bs \<union> set cs \<union> set xs = A" and f: "bl_fd (blists s l) = bl_fd (blists s0 l)"
    using i by (simp_all add: in_work_def)
  then have t: "touches (bl_fd (blists s0 l)) {l, m} A s s'" and A': "set bs' \<union> set cs' \<union> set xs' = A"
    using d by (simp_all add: work_done_def)
  have "outside (bl_fd (blists s0 l)) {l, m} A s s'" using t by (rule touches_outside) simp_all
  then show ?thesis
    using i w A' touches_lists_hold [OF t] touches_free [OF t] touches_fd [OF t, of l] touches_sizes [OF t]
    by (auto simp: in_work_def intro: outside_trans)
qed

text \<open>Adding the flags is moving the chain and two pushes.\<close>

lemma add_flags_ok:
  assumes i: "in_work l m A ls s0 s [] cs xs" and fl: "plain_flags fl"
    and ls: "l \<notin> set ls" "m \<notin> set ls" and len: "length (list_bytes s cs) + 2 < 2 ^ 32"
  shows "\<exists>st s' bs' xs'. add_flags P l m fl s = Some (st, s') \<and> in_work l m A ls s0 s' bs' [] xs' \<and>
     (st = SUCCESS \<and> list_bytes s' bs' = [PPP_FLAG] @ list_bytes s cs @ [PPP_FLAG] \<and>
        length xs \<le> length xs' + 2 \<or>
      st = FS_BUFFER_NO_SPACE \<and> length xs < held_back fl (bl_fd (blists s0 l)) s0 + 2)"
proof -
  note F = plain_flagsD [OF fl]
  define s1 where "s1 = fs_buffer_list_move l m (s\<lparr>list_next := (list_next s)(m := list_next s l)\<rparr>)"
  have lists: "lists_hold (bl_fd (blists s l)) s ls" using i by (simp add: in_work_def)
  note M = move_ok [OF in_workD(1) [OF i] lists ls s1_def]
  have i1: "in_work l m A ls s0 s1 cs [] xs"
    using i M by (auto simp: in_work_def intro: outside_trans)
  have n: "length [v] = unat (1 :: u32)" "unat (1 :: u32) < 2 ^ 16" for v :: u8 by simp_all
  have "length (list_bytes s1 cs) + unat (1 :: u32) < 2 ^ 32" using len M(2) by simp
  from at_work_push [OF M(1) F(1,2) n this, of P PPP_FLAG]
  obtain st s2 bs2 xs2 where s2: "fs_buffer_list_push P l (Some [PPP_FLAG]) 1 (FS_BUFFER_HEAD OR fl) s1 =
       Some (st, s2)" "at_work l m s2 bs2 [] xs2"
     "work_done l m s1 (set cs \<union> set [] \<union> set xs) s2 (set bs2 \<union> set [] \<union> set xs2)"
     "st = SUCCESS \<and> list_bytes s2 bs2 = PPP_FLAG # list_bytes s cs \<and> length xs \<le> length xs2 + 1 \<or>
      st = FS_BUFFER_NO_SPACE \<and> length xs < held_back fl (bl_fd (blists s1 l)) s1 + 1"
    by (auto simp: F(5,7,9) M(2))
  note i2 = in_work_step [OF i1 s2(2,3)]
  from s2(4) show ?thesis
  proof (elim disjE conjE)
    assume ok: "st = SUCCESS" "list_bytes s2 bs2 = PPP_FLAG # list_bytes s cs" "length xs \<le> length xs2 + 1"
    then have "length (list_bytes s2 bs2) + unat (1 :: u32) < 2 ^ 32" using len by simp
    from at_work_push [OF s2(2) F(3,4) n this, of P PPP_FLAG]
    obtain st' s3 bs3 xs3 where s3: "fs_buffer_list_push P l (Some [PPP_FLAG]) 1 fl s2 = Some (st', s3)"
       "at_work l m s3 bs3 [] xs3"
       "work_done l m s2 (set bs2 \<union> set [] \<union> set xs2) s3 (set bs3 \<union> set [] \<union> set xs3)"
       "st' = SUCCESS \<and> list_bytes s3 bs3 = list_bytes s2 bs2 @ [PPP_FLAG] \<and> length xs2 \<le> length xs3 + 1 \<or>
        st' = FS_BUFFER_NO_SPACE \<and> length xs2 < held_back fl (bl_fd (blists s2 l)) s2 + 1"
      by (auto simp: F(6,8))
    have "add_flags P l m fl s = Some (st', s3)"
      using s2(1) ok(1) s3(1) by (simp add: add_flags_def s1_def [symmetric] Let_def)
    then show ?thesis using in_work_step [OF i2 s3(2,3)] s3(4) ok(2,3) in_workD(4) [OF i2, of fl]
      by (intro exI [of _ st'] exI [of _ s3] exI [of _ bs3] exI [of _ xs3]) auto
  next
    assume no: "st = FS_BUFFER_NO_SPACE" "length xs < held_back fl (bl_fd (blists s1 l)) s1 + 1"
    have "add_flags P l m fl s = Some (st, s2)"
      using s2(1) no(1) by (simp add: add_flags_def s1_def [symmetric] Let_def SUCCESS_def FS_BUFFER_NO_SPACE_def)
    then show ?thesis using i2 no in_workD(4) [OF i1, of fl]
      by (intro exI [of _ st] exI [of _ s2] exI [of _ bs2] exI [of _ xs2]) auto
  qed
qed

lemma start_work:
  assumes lk: "linked l s bs xs" and rd: "ready (bl_fd (blists s l)) s"
    and lists: "lists_hold (bl_fd (blists s l)) s (m # ls)" "l \<noteq> m" "length (m # ls) < 2 ^ 32"
    and m: "blists s m = \<lparr>bl_list = \<lparr>head = None, tail = None\<rparr>, bl_total_length = 0,
       bl_fd = bl_fd (blists s l), bl_free = None, bl_free_data = NULLP\<rparr>"
  shows "\<exists>s'. fs_buffer_get_list P (bl_fd (blists s l)) FS_LIST_FREE 0 s = Some (Some m, s') \<and>
     in_work l m (set bs \<union> set xs) ls s s' bs [] xs \<and> list_bytes s' bs = list_bytes s bs"
proof -
  let ?f = "bl_fd (blists s l)"
  have fl: "(0 :: u32) AND ucast FS_BUFFER_INPLACE = 0" "(0 :: u32) AND ucast FS_BUFFER_SUSPEND = 0"
    by simp_all
  obtain s' where s': "fs_buffer_get_list P ?f FS_LIST_FREE 0 s = Some (Some m, s')"
     "lists_hold ?f s' ls" "bufs s' = bufs s" "buf_next s' = buf_next s" "blists s' = blists s"
     "\<forall>g xs. pool_holds g s' xs = pool_holds g s xs" "\<forall>g. fd_size g s' = fd_size g s"
     "kstate.truncate s' = kstate.truncate s" "\<forall>g. fd_sizes g s' = fd_sizes g s"
     "\<forall>g. g \<noteq> ?f \<longrightarrow> fds s' g = fds s g"
    using get_list_ok [OF lists(1,3) fl, of P] by blast
  have bytes: "list_bytes s' bs = list_bytes s bs" by (rule list_bytes_cong) (simp add: s'(3))
  have "chain_holds l s bs" using lk by (simp add: linked_def)
  then have "chain_holds l s' bs" by (rule chain_holds_frame) (use s' in simp_all)
  moreover have "chain_holds m s' []" using m s'(5) by (simp add: chain_holds_def chain_sll_def)
  moreover have "ready ?f s'" using rd ready_cong [OF s'(8)] s'(9) by blast
  ultimately have "at_work l m s' bs [] xs"
    using linkedD(3,4,7) [OF lk] s'(5,6) m lists(2) by (simp add: at_work_def two_lists_def linked_def)
  then have "in_work l m (set bs \<union> set xs) ls s s' bs [] xs"
    using s' m by (simp add: in_work_def outside_def)
  then show ?thesis using s'(1) bytes by blast
qed

lemma length_frame_parts:
  "length (fields acfc lcp) \<le> 2" "length (stuff accm lcp (bs @ frame_check cs)) \<le> 2 * length bs + 4"
  using length_stuff [of accm lcp "bs @ frame_check cs"] by (simp_all add: fields_def)

text \<open>
  A step that keeps the work in order and takes at most \<open>k\<close> buffers from the pool of \<open>n\<close>: it
  succeeds, with \<open>Q\<close>, or there were fewer than \<open>k\<close> above the threshold.
\<close>

definition stage ::
    "lid \<Rightarrow> lid \<Rightarrow> bid set \<Rightarrow> lid list \<Rightarrow> 'z fsstate_scheme \<Rightarrow> u8 \<Rightarrow> nat \<Rightarrow> nat \<Rightarrow>
     (int \<times> 'z fsstate_scheme) option \<Rightarrow> ('z fsstate_scheme \<Rightarrow> bid list \<Rightarrow> bid list \<Rightarrow> bool) \<Rightarrow> bool" where
  "stage l m A ls s0 fl n k r Q \<longleftrightarrow>
     (\<exists>st s bs cs xs. r = Some (st, s) \<and> in_work l m A ls s0 s bs cs xs \<and>
        (st = SUCCESS \<and> Q s bs cs \<and> n \<le> length xs + k \<or>
         st = FS_BUFFER_NO_SPACE \<and> n < held_back fl (bl_fd (blists s0 l)) s0 + k))"

lemma stage_bind:
  assumes r: "stage l m A ls s0 fl n k r Q"
    and g: "\<And>s bs cs xs. in_work l m A ls s0 s bs cs xs \<Longrightarrow> Q s bs cs \<Longrightarrow>
      stage l m A ls s0 fl (length xs) j (g s) R"
  shows "stage l m A ls s0 fl n (k + j) (do { (st, s) \<leftarrow> r; if st = SUCCESS then g s else Some (st, s) }) R"
proof -
  let ?h = "held_back fl (bl_fd (blists s0 l)) s0"
  obtain st s bs cs xs where s: "r = Some (st, s)" "in_work l m A ls s0 s bs cs xs"
     "st = SUCCESS \<and> Q s bs cs \<and> n \<le> length xs + k \<or> st = FS_BUFFER_NO_SPACE \<and> n < ?h + k"
    using r by (auto simp: stage_def)
  from s(3) show ?thesis
  proof (elim disjE conjE)
    assume ok: "st = SUCCESS" "Q s bs cs" "n \<le> length xs + k"
    obtain st' s' bs' cs' xs' where "g s = Some (st', s')" "in_work l m A ls s0 s' bs' cs' xs'"
       "st' = SUCCESS \<and> R s' bs' cs' \<and> length xs \<le> length xs' + j \<or>
        st' = FS_BUFFER_NO_SPACE \<and> length xs < ?h + j"
      using g [OF s(2) ok(2)] by (auto simp: stage_def)
    then show ?thesis using s(1) ok unfolding stage_def
      by (intro exI [of _ st'] exI [of _ s'] exI [of _ bs'] exI [of _ cs'] exI [of _ xs']) auto
  next
    assume "st = FS_BUFFER_NO_SPACE" "n < ?h + k"
    then show ?thesis using s(1,2) unfolding stage_def
      by (intro exI [of _ st] exI [of _ s] exI [of _ bs] exI [of _ cs] exI [of _ xs])
        (simp add: FS_BUFFER_NO_SPACE_def SUCCESS_def)
  qed
qed

lemma stage_fields:
  assumes i: "in_work l m A ls s0 s bs [] xs" and fl: "plain_flags fl"
    and len: "length (list_bytes s bs) < 2 ^ 30"
  shows "stage l m A ls s0 fl (length xs) 2
    (if lcp \<or> \<not> acfc then add_fields P l fl s else Some (SUCCESS, s))
    (\<lambda>s' bs' cs'. cs' = [] \<and> list_bytes s' bs' = fields acfc lcp @ list_bytes s bs)"
proof (cases "lcp \<or> \<not> acfc")
  case True
  have "length (list_bytes s bs) + 2 < 2 ^ 32" using len by simp
  from add_fields_ok [OF in_workD(1) [OF i] fl this, of P] obtain st s' bs' xs' where
    "add_fields P l fl s = Some (st, s')" "in_work l m A ls s0 s' bs' [] xs'"
    "st = SUCCESS \<and> list_bytes s' bs' = [PPP_ADDRESS, PPP_CONTROL] @ list_bytes s bs \<and>
       length xs \<le> length xs' + 2 \<or>
     st = FS_BUFFER_NO_SPACE \<and> length xs < held_back fl (bl_fd (blists s0 l)) s0 + 2"
    unfolding in_workD(4) [OF i] using in_work_step [OF i] by metis
  then show ?thesis using True unfolding stage_def
    by (intro exI [of _ st] exI [of _ s'] exI [of _ bs'] exI [of _ "[]"] exI [of _ xs'])
      (auto simp: fields_def)
next
  case False
  then show ?thesis using i unfolding stage_def
    by (intro exI [of _ SUCCESS] exI [of _ s] exI [of _ bs] exI [of _ "[]"] exI [of _ xs])
      (auto simp: fields_def)
qed

lemma stage_fcs:
  assumes i: "in_work l m A ls s0 s bs [] xs" and fl: "plain_flags fl"
    and len: "length (list_bytes s bs) < 2 ^ 31"
  shows "stage l m A ls s0 fl (length xs) 2 (add_fcs P l fl s)
    (\<lambda>s' bs' cs'. cs' = [] \<and> list_bytes s' bs' = list_bytes s bs @ frame_check (list_bytes s bs))"
proof -
  have "length (list_bytes s bs) + 2 < 2 ^ 32" using len by simp
  from add_fcs_ok [OF in_workD(1) [OF i] fl this, of P] show ?thesis
    unfolding in_workD(4) [OF i] stage_def using in_work_step [OF i] by metis
qed

lemma stage_escape:
  assumes i: "in_work l m A ls s0 s bs [] xs" and fl: "plain_flags fl" and accm: "length accm = 8"
    and len: "length (list_bytes s bs) < 2 ^ 31" "2 * length (list_bytes s bs) \<le> k"
  shows "stage l m A ls s0 fl (length xs) k (ppp_hdlc_escape P l m accm lcp fl s)
    (\<lambda>s' bs' cs'. bs' = [] \<and> list_bytes s' cs' = stuff accm lcp (list_bytes s bs))"
proof -
  have "length (list_bytes s []) + 2 * length (list_bytes s bs) < 2 ^ 32" using len by simp
  from escape_loop_ok [OF in_workD(1) [OF i] accm fl this, of P lcp]
  obtain st s' bs' cs' xs' where "escape_loop P l m accm lcp fl SUCCESS s = Some (st, s')"
     "in_work l m A ls s0 s' bs' cs' xs'"
     "st = SUCCESS \<and> bs' = [] \<and> list_bytes s' cs' = stuff accm lcp (list_bytes s bs) \<and>
        length xs \<le> length xs' + 2 * length (list_bytes s bs) \<or>
      st = FS_BUFFER_NO_SPACE \<and>
        length xs < held_back fl (bl_fd (blists s0 l)) s0 + 2 * length (list_bytes s bs)"
    unfolding in_workD(4) [OF i] list_bytes_simps append_Nil using in_work_step [OF i] by metis
  then show ?thesis using len(2) unfolding stage_def ppp_hdlc_escape_def
    by (intro exI [of _ st] exI [of _ s'] exI [of _ bs'] exI [of _ cs'] exI [of _ xs']) auto
qed

lemma stage_flags:
  assumes i: "in_work l m A ls s0 s [] cs xs" and fl: "plain_flags fl"
    and ls: "l \<notin> set ls" "m \<notin> set ls" and len: "length (list_bytes s cs) + 2 < 2 ^ 32"
  shows "stage l m A ls s0 fl (length xs) 2 (add_flags P l m fl s)
    (\<lambda>s' bs' cs'. list_bytes s' bs' = [PPP_FLAG] @ list_bytes s cs @ [PPP_FLAG])"
  using add_flags_ok [OF assms, of P] unfolding stage_def by metis

lemma build_frame_ok:
  assumes i: "in_work l m A ls s0 s bs [] xs" and accm: "length accm = 8" and fl: "plain_flags fl"
    and ls: "l \<notin> set ls" "m \<notin> set ls" and len: "length (list_bytes s bs) < 2 ^ 29"
  shows "stage l m A ls s0 fl (length xs) (2 * length (list_bytes s bs) + 14)
    (build_frame P l m accm acfc lcp fl s)
    (\<lambda>s' bs' cs'. list_bytes s' bs' = frame accm acfc lcp (list_bytes s bs))"
proof -
  let ?data = "list_bytes s bs" and ?body = "fields acfc lcp @ list_bytes s bs"
  have f: "length (fields acfc lcp) \<le> 2" by (rule length_frame_parts)
  let ?first = "if lcp \<or> \<not> acfc then add_fields P l fl s else Some (SUCCESS, s)"
  have 1: "stage l m A ls s0 fl (length xs) 2 ?first (\<lambda>s' bs' cs'. cs' = [] \<and> list_bytes s' bs' = ?body)"
    using len by (intro stage_fields [OF i fl]) simp
  let ?second = "do { (st, s) \<leftarrow> ?first; if st = SUCCESS then add_fcs P l fl s else Some (st, s) }"
  have 2: "stage l m A ls s0 fl (length xs) (2 + 2) ?second
      (\<lambda>s' bs' cs'. cs' = [] \<and> list_bytes s' bs' = ?body @ frame_check ?body)"
  proof (rule stage_bind [OF 1])
    fix s1 bs1 cs1 xs1
    assume "in_work l m A ls s0 s1 bs1 cs1 xs1" and "cs1 = [] \<and> list_bytes s1 bs1 = ?body"
    then show "stage l m A ls s0 fl (length xs1) 2 (add_fcs P l fl s1)
        (\<lambda>s' bs' cs'. cs' = [] \<and> list_bytes s' bs' = ?body @ frame_check ?body)"
      using stage_fcs [of l m A ls s0 s1 bs1 xs1 fl P] fl f len by simp
  qed
  let ?third = "do { (st, s) \<leftarrow> ?second;
      if st = SUCCESS then ppp_hdlc_escape P l m accm lcp fl s else Some (st, s) }"
  let ?stuffed = "stuff accm lcp (?body @ frame_check ?body)"
  have 3: "stage l m A ls s0 fl (length xs) (2 + 2 + (2 * length ?data + 8)) ?third
      (\<lambda>s' bs' cs'. bs' = [] \<and> list_bytes s' cs' = ?stuffed)"
  proof (rule stage_bind [OF 2])
    fix s1 bs1 cs1 xs1
    assume "in_work l m A ls s0 s1 bs1 cs1 xs1"
      and "cs1 = [] \<and> list_bytes s1 bs1 = ?body @ frame_check ?body"
    then show "stage l m A ls s0 fl (length xs1) (2 * length ?data + 8)
        (ppp_hdlc_escape P l m accm lcp fl s1) (\<lambda>s' bs' cs'. bs' = [] \<and> list_bytes s' cs' = ?stuffed)"
      using stage_escape [of l m A ls s0 s1 bs1 xs1 fl accm "2 * length ?data + 8" P lcp] fl accm f len
      by simp
  qed
  have 4: "stage l m A ls s0 fl (length xs) (2 + 2 + (2 * length ?data + 8) + 2)
      (do { (st, s) \<leftarrow> ?third; if st = SUCCESS then add_flags P l m fl s else Some (st, s) })
      (\<lambda>s' bs' cs'. list_bytes s' bs' = frame accm acfc lcp ?data)"
  proof (rule stage_bind [OF 3])
    fix s1 bs1 cs1 xs1
    assume "in_work l m A ls s0 s1 bs1 cs1 xs1" and "bs1 = [] \<and> list_bytes s1 cs1 = ?stuffed"
    moreover from this have "length (list_bytes s1 cs1) + 2 < 2 ^ 32"
      using f len length_stuff [of accm lcp "?body @ frame_check ?body"] by simp
    ultimately show "stage l m A ls s0 fl (length xs1) 2 (add_flags P l m fl s1)
        (\<lambda>s' bs' cs'. list_bytes s' bs' = frame accm acfc lcp ?data)"
      using stage_flags [of l m A ls s0 s1 cs1 xs1 fl P] fl ls by (simp add: frame_def)
  qed
  have "build_frame P l m accm acfc lcp fl s =
      do { (st, s) \<leftarrow> ?third; if st = SUCCESS then add_flags P l m fl s else Some (st, s) }"
    by (simp only: build_frame_def Option.bind_assoc split_def)
  then show ?thesis using 4 by (simp add: eval_nat_numeral)
qed

end
