(* ===== verification/Framing.thy ===== *)
theory Framing
  imports HdlcProps
begin

text \<open>
  The properties of the HDLC framing of \<^verbatim>\<open>rtos/io/ppp/ppp_hdlc.c\<close>: what a frame on the wire is, what
  the parser recovers from it, and how the two fit together.
\<close>

section \<open>Adding the header\<close>

text \<open>A list of the pool that nothing has been put on.\<close>

definition unused_list :: "fd \<Rightarrow> FS_BUFFER_LIST \<Rightarrow> bool" where
  "unused_list f x \<longleftrightarrow> x = \<lparr>bl_list = \<lparr>head = None, tail = None\<rparr>, bl_total_length = 0,
     bl_fd = f, bl_free = None, bl_free_data = NULLP\<rparr>"

lemma header_add_ok:
  assumes lk: "linked l s bs xs" and rd: "ready (bl_fd (blists s l)) s"
    and lists: "lists_hold (bl_fd (blists s l)) s (m # ls)" "l \<notin> set (m # ls)" "length (m # ls) < 2 ^ 32"
    and m: "unused_list (bl_fd (blists s l)) (blists s m)"
    and accm: "length accm = 8" and fl: "plain_flags fl" and len: "length (list_bytes s bs) < 2 ^ 29"
  shows "\<exists>st s' bs' xs'. ppp_hdlc_header_add P l accm acfc lcp fl s = Some (st, s') \<and>
     linked l s' bs' xs' \<and> same_buffers bs xs bs' xs' \<and> ready (bl_fd (blists s l)) s' \<and>
     bl_fd (blists s' l) = bl_fd (blists s l) \<and>
     lists_hold (bl_fd (blists s l)) s' (ls @ [m]) \<and>
     outside (bl_fd (blists s l)) {l, m} (set bs \<union> set xs) s s' \<and>
     (st = SUCCESS \<and> list_bytes s' bs' = frame accm acfc lcp (list_bytes s bs) \<or>
      st = FS_BUFFER_NO_SPACE \<and>
        length xs < held_back fl (bl_fd (blists s l)) s + 2 * length (list_bytes s bs) + 14)"
proof -
  let ?f = "bl_fd (blists s l)" and ?A = "set bs \<union> set xs"
  have lm: "l \<noteq> m" "l \<notin> set ls" using lists(2) by simp_all
  have mls: "m \<notin> set ls"
    using lists(1) sll_holds_distinct by (fastforce simp: lists_hold_def)
  obtain s1 where s1: "fs_buffer_get_list P ?f FS_LIST_FREE 0 s = Some (Some m, s1)"
      "in_work l m ?A ls s s1 bs [] xs" "list_bytes s1 bs = list_bytes s bs"
    using start_work [OF lk rd lists(1) lm(1) lists(3) m [unfolded unused_list_def]] by blast
  have "length (list_bytes s1 bs) < 2 ^ 29" using s1(3) len by simp
  from build_frame_ok [OF s1(2) accm fl lm(2) mls this, where P = P and acfc = acfc and lcp = lcp]
  obtain st s2 bs2 cs2 xs2 where s2: "build_frame P l m accm acfc lcp fl s1 = Some (st, s2)"
      "in_work l m ?A ls s s2 bs2 cs2 xs2"
      "st = SUCCESS \<and> list_bytes s2 bs2 = frame accm acfc lcp (list_bytes s bs) \<or>
       st = FS_BUFFER_NO_SPACE \<and> length xs < held_back fl ?f s + (2 * length (list_bytes s bs) + 14)"
    unfolding stage_def s1(3) by blast
  note w = in_workD(1,2,3) [OF s2(2)]
  have own: "lists_hold (bl_fd (blists s2 l)) s2 ls" "bl_free (blists s2 m) = None"
      "outside ?f {l, m} ?A s s2"
    using s2(2) w(2) by (simp_all add: in_work_def)
  have "length ls + 1 < 2 ^ 32" using lists(3) by simp
  from give_back_list [OF w(1) own(1) mls this own(2), of P "ucast FS_BUFFER_ACTIVE"]
  obtain s3 where s3: "fs_buffer_add_list P ?f m FS_LIST_FREE (ucast FS_BUFFER_ACTIVE) s2 = Some s3"
      "linked l s3 bs2 (xs2 @ cs2)" "list_bytes s3 bs2 = list_bytes s2 bs2"
      "lists_hold ?f s3 (ls @ [m])" "ready ?f s3" "bl_fd (blists s3 l) = ?f"
      "outside ?f {l, m} ?A s2 s3"
    unfolding w(2,3) by blast
  have run: "ppp_hdlc_header_add P l accm acfc lcp fl s = Some (st, s3)"
    using s1(1) s2(1) s3(1) w(2) by (simp add: ppp_hdlc_header_add_def)
  have "same_buffers bs xs bs2 (xs2 @ cs2)" using w(3) by (auto simp: same_buffers_def)
  then show ?thesis using run s2(3) s3(2-6) outside_trans [OF own(3) s3(7)]
    by (intro exI [of _ st] exI [of _ s3] exI [of _ bs2] exI [of _ "xs2 @ cs2"]) (simp add: add.assoc)
qed

section \<open>What the parser takes from the bytes\<close>

definition parsed_fields :: "bool \<Rightarrow> u8 list \<Rightarrow> int \<times> u8 list" where
  "parsed_fields acfc body =
     (if take 2 body = [PPP_ADDRESS, PPP_CONTROL] then (SUCCESS, drop 2 body)
      else (if acfc then SUCCESS else PPP_INVALID_HEADER, body))"

text \<open>The status and the bytes left, from the bytes after unescaping; \<open>e\<close>: an escape is open.\<close>

definition parsed :: "bool \<Rightarrow> bool \<Rightarrow> u8 list \<Rightarrow> int \<times> u8 list" where
  "parsed acfc e raw =
     (if e then (HDLC_STREAM_ERROR, raw)
      else if length raw < 4 \<or> hd raw \<noteq> PPP_FLAG \<or> last raw \<noteq> PPP_FLAG then (PPP_INVALID_HEADER, raw)
      else let inner = butlast (List.tl raw) in
        (if crc16 PPP_FCS16_INIT inner = PPP_FCS16_MAGIC
         then parsed_fields acfc (take (length inner - 2) inner)
         else (SUCCESS, inner)))"

text \<open>The list at some point of the work: \<open>s0\<close> is the state at its start, \<open>A\<close> the buffers in play.\<close>

definition parsing ::
    "lid \<Rightarrow> bid set \<Rightarrow> 'z fsstate_scheme \<Rightarrow> 'z fsstate_scheme \<Rightarrow> u8 list \<Rightarrow> bool" where
  "parsing l A s0 s bytes \<longleftrightarrow>
     (\<exists>bs xs. linked l s bs xs \<and> list_bytes s bs = bytes \<and> set bs \<union> set xs = A) \<and>
     touches (bl_fd (blists s0 l)) {l} A s0 s \<and> ready (bl_fd (blists s0 l)) s0"

lemma parsing_length:
  "parsing l A s0 s bytes \<Longrightarrow> unat (bl_total_length (blists s l)) = length bytes"
  using linkedD(6) by (fastforce simp: parsing_def)

lemma parsing_ready:
  assumes "parsing l A s0 s bytes"
  shows "ready (bl_fd (blists s l)) s"
  using assms touches_ready touches_fd unfolding parsing_def by metis

lemma parsing_step:
  assumes p: "parsing l A s0 s bytes" and lk: "linked l s bs xs" "set bs \<union> set xs = A"
    and s': "linked l s' bs' xs'" "touches (bl_fd (blists s l)) {l} (set bs \<union> set xs) s s'"
      "same_buffers bs xs bs' xs'"
  shows "parsing l A s0 s' (list_bytes s' bs')"
proof -
  have t: "touches (bl_fd (blists s0 l)) {l} A s0 s" using p by (simp add: parsing_def)
  have "touches (bl_fd (blists s0 l)) {l} A s s'" using s'(2) lk(2) touches_fd [OF t, of l] by simp
  then show ?thesis
    using p s'(1,3) lk(2) touches_trans [OF t] by (auto simp: parsing_def same_buffers_def)
qed

lemma parse_flags:
  "FS_BUFFER_INPLACE AND FS_BUFFER_INPLACE \<noteq> 0" "FS_BUFFER_INPLACE AND FS_BUFFER_HEAD = 0"
  "FS_BUFFER_INPLACE AND FS_BUFFER_TAIL = 0"
  "(FS_BUFFER_INPLACE OR FS_BUFFER_TAIL) AND FS_BUFFER_INPLACE \<noteq> 0"
  "(FS_BUFFER_INPLACE OR FS_BUFFER_TAIL) AND FS_BUFFER_HEAD = 0"
  "(FS_BUFFER_INPLACE OR FS_BUFFER_TAIL) AND FS_BUFFER_TAIL \<noteq> 0"
  "FS_BUFFER_TAIL AND FS_BUFFER_INPLACE = 0" "FS_BUFFER_TAIL AND FS_BUFFER_TAIL \<noteq> 0"
  "FS_BUFFER_TAIL AND FS_BUFFER_HEAD = 0" "FS_BUFFER_TAIL \<noteq> 0"
  "packed FS_BUFFER_INPLACE bs = bs" "packed (FS_BUFFER_INPLACE OR FS_BUFFER_TAIL) bs = bs"
  by (simp_all add: FS_BUFFER_INPLACE_def FS_BUFFER_HEAD_def FS_BUFFER_TAIL_def packed_def
    FS_BUFFER_PACKED_def)

lemma parse_skim:
  assumes p: "parsing l A s0 s bytes" and n: "unat n \<le> length bytes"
  shows "\<exists>s'. fs_buffer_list_pull P l False n 0 s = Some (SUCCESS, [], s') \<and>
     parsing l A s0 s' (drop (unat n) bytes)"
proof -
  obtain bs xs where b: "linked l s bs xs" "list_bytes s bs = bytes" "set bs \<union> set xs = A"
    using p by (auto simp: parsing_def)
  obtain s' bs' xs' where s': "fs_buffer_list_pull P l False n 0 s = Some (SUCCESS, [], s')"
     "linked l s' bs' xs'" "touches (bl_fd (blists s l)) {l} (set bs \<union> set xs) s s'"
     "same_buffers bs xs bs' xs'" "list_bytes s' bs' = drop (unat n) bytes"
    using list_pull_cases [OF b(1) parsing_ready [OF p], of n 0 P False] n b(2) by auto
  then show ?thesis using parsing_step [OF p b(1,3) s'(2-4)] by simp
qed

lemma parse_skim_tail:
  assumes p: "parsing l A s0 s bytes" and n: "unat n \<le> length bytes"
  shows "\<exists>s'. fs_buffer_list_pull P l False n FS_BUFFER_TAIL s = Some (SUCCESS, [], s') \<and>
     parsing l A s0 s' (take (length bytes - unat n) bytes)"
proof -
  obtain bs xs where b: "linked l s bs xs" "list_bytes s bs = bytes" "set bs \<union> set xs = A"
    using p by (auto simp: parsing_def)
  obtain s' bs' xs' where s': "fs_buffer_list_pull P l False n FS_BUFFER_TAIL s = Some (SUCCESS, [], s')"
     "linked l s' bs' xs'" "touches (bl_fd (blists s l)) {l} (set bs \<union> set xs) s s'"
     "same_buffers bs xs bs' xs'" "list_bytes s' bs' = take (length bytes - unat n) bytes"
    using list_drop_cases [OF b(1) parsing_ready [OF p], of n FS_BUFFER_TAIL P] n b(2) parse_flags
    by auto
  then show ?thesis using parsing_step [OF p b(1,3) s'(2-4)] by simp
qed

lemma parse_peek:
  assumes p: "parsing l A s0 s bytes" and n: "unat n \<le> length bytes" "bytes \<noteq> []"
  shows "fs_buffer_list_pull P l True n FS_BUFFER_INPLACE s = Some (SUCCESS, take (unat n) bytes, s)"
    and "fs_buffer_list_pull P l True n (FS_BUFFER_INPLACE OR FS_BUFFER_TAIL) s =
       Some (SUCCESS, drop (length bytes - unat n) bytes, s)"
proof -
  obtain bs xs where b: "linked l s bs xs" "list_bytes s bs = bytes"
    using p by (auto simp: parsing_def)
  have bs: "bs \<noteq> []" using n(2) b(2) by auto
  have len: "unat n + unat (0 :: u32) \<le> length (list_bytes s bs)" using n(1) b(2) by simp
  show "fs_buffer_list_pull P l True n FS_BUFFER_INPLACE s = Some (SUCCESS, take (unat n) bytes, s)"
    using list_peek [OF b(1) bs len parse_flags(1,2), of P True] b(2)
    by (simp add: parse_flags)
  show "fs_buffer_list_pull P l True n (FS_BUFFER_INPLACE OR FS_BUFFER_TAIL) s =
       Some (SUCCESS, drop (length bytes - unat n) bytes, s)"
    using list_peek [OF b(1) bs len parse_flags(4,5), of P True] b(2) n(1)
    by (simp add: parse_flags)
qed

lemma parse_check:
  assumes "parsing l A s0 s bytes"
  shows "\<exists>c. chain_of l s = Some c \<and>
     PPP_FCS16_IS_VALID c = Some (crc16 PPP_FCS16_INIT bytes = PPP_FCS16_MAGIC)"
proof -
  obtain bs xs where b: "linked l s bs xs" "list_bytes s bs = bytes"
    using assms by (auto simp: parsing_def)
  obtain c where c: "chain_of l s = Some c" "chain_ok c" "chain_bytes c = bytes"
    using chain_of_ok [OF b(1)] b(2) by blast
  then show ?thesis using fcs_of_chain [OF c(2)] by (simp add: PPP_FCS16_IS_VALID_def)
qed

lemma parse_fields_ok:
  assumes p: "parsing l A s0 s (body @ fcs)" and n: "length fcs = 2"
  shows "\<exists>st s' rest. parse_fields P l acfc s = Some (st, s') \<and> parsing l A s0 s' rest \<and>
     parsed_fields acfc body = (st, rest)"
proof -
  have two: "unat (2 :: u32) = 2" by simp
  from p n obtain s1 where s1: "fs_buffer_list_pull P l False 2 FS_BUFFER_TAIL s = Some (SUCCESS, [], s1)"
     "parsing l A s0 s1 body"
    using parse_skim_tail [OF p, of 2 P] by auto
  note total = parsing_length [OF s1(2)]
  show ?thesis
  proof (cases "2 \<le> length body")
    case True
    then have ne: "body \<noteq> []" by auto
    have peek: "fs_buffer_list_pull P l True 2 FS_BUFFER_INPLACE s1 = Some (SUCCESS, take 2 body, s1)"
      using parse_peek(1) [OF s1(2), of 2 P] True ne by simp
    have acf: "take 2 body = [body ! 0, body ! 1]"
      using True by (cases body; cases "List.tl body") auto
    obtain s2 where s2: "fs_buffer_list_pull P l False 2 0 s1 = Some (SUCCESS, [], s2)"
       "parsing l A s0 s2 (drop 2 body)"
      using parse_skim [OF s1(2), of 2 P] True by auto
    have "bl_total_length (blists s1 l) \<ge> 2" using total True by (simp add: word_le_nat_alt)
    then show ?thesis using s1 peek s2 acf
      by (auto simp: parse_fields_def parsed_fields_def ASSERT_def)
  next
    case False
    then have "\<not> bl_total_length (blists s1 l) \<ge> 2" using total by (simp add: word_le_nat_alt)
    moreover have "take 2 body \<noteq> [PPP_ADDRESS, PPP_CONTROL]" using False by auto
    ultimately show ?thesis using s1 by (auto simp: parse_fields_def parsed_fields_def ASSERT_def)
  qed
qed

lemma parse_both_ends:
  assumes p: "parsing l A s0 s raw" and n: "4 \<le> length raw"
  shows "fs_buffer_list_pull P l True 1 FS_BUFFER_INPLACE s = Some (SUCCESS, [hd raw], s)"
    and "fs_buffer_list_pull P l True 1 (FS_BUFFER_INPLACE OR FS_BUFFER_TAIL) s =
       Some (SUCCESS, [last raw], s)"
proof -
  have ne: "raw \<noteq> []" using n by auto
  then have "take 1 raw = [hd raw]" by (cases raw) auto
  then show "fs_buffer_list_pull P l True 1 FS_BUFFER_INPLACE s = Some (SUCCESS, [hd raw], s)"
    using parse_peek(1) [OF p, of 1 P] n ne by simp
  have "drop (length raw - 1) raw = [last raw]"
    using ne by (induction raw rule: rev_induct) auto
  then show "fs_buffer_list_pull P l True 1 (FS_BUFFER_INPLACE OR FS_BUFFER_TAIL) s =
       Some (SUCCESS, [last raw], s)"
    using parse_peek(2) [OF p, of 1 P] n ne by simp
qed

text \<open>The parser computes the status and the bytes of \<open>parsed\<close>.\<close>

lemma header_parse_ok:
  assumes lk: "linked l s bs xs" and rd: "ready (bl_fd (blists s l)) s"
    and lone: "\<forall>b \<in> set bs. buffer_bytes (bufs s b) \<noteq> [PPP_ESCAPE]"
  shows "\<exists>st s' rest. ppp_hdlc_header_parse P l acfc s = Some (st, s') \<and>
     parsing l (set bs \<union> set xs) s s' rest \<and>
     parsed acfc (escape_left False (list_bytes s bs)) (unstuffed False (list_bytes s bs)) = (st, rest)"
proof -
  let ?raw = "unstuffed False (list_bytes s bs)" and ?e = "escape_left False (list_bytes s bs)"
  let ?A = "set bs \<union> set xs"
  obtain s1 where s1: "ppp_hdlc_unescape l s = Some (if ?e then HDLC_STREAM_ERROR else SUCCESS, s1)"
     "parsing l ?A s s1 ?raw"
    using unescape_ok [OF lk lone] rd unfolding parsing_def by blast
  note total = parsing_length [OF s1(2)]
  consider (open_escape) ?e | (short) "\<not> ?e" "length ?raw < 4" |
    (first) "\<not> ?e" "4 \<le> length ?raw" "hd ?raw \<noteq> PPP_FLAG" |
    (last) "\<not> ?e" "4 \<le> length ?raw" "hd ?raw = PPP_FLAG" "last ?raw \<noteq> PPP_FLAG" |
    (flags) "\<not> ?e" "4 \<le> length ?raw" "hd ?raw = PPP_FLAG" "last ?raw = PPP_FLAG"
    by fastforce
  then show ?thesis
  proof cases
    case open_escape
    then show ?thesis using s1
      by (auto simp: ppp_hdlc_header_parse_def parsed_def SUCCESS_def HDLC_STREAM_ERROR_def)
  next
    case short
    then have "\<not> bl_total_length (blists s1 l) \<ge> 4" using total by (simp add: word_le_nat_alt)
    then show ?thesis using s1 short
      by (auto simp: ppp_hdlc_header_parse_def parsed_def SUCCESS_def PPP_INVALID_HEADER_def)
  next
    case first
    have more: "bl_total_length (blists s1 l) \<ge> 4" using total first by (simp add: word_le_nat_alt)
    note peeks = parse_both_ends [OF s1(2) first(2), of P]
    show ?thesis using s1 first more peeks
      by (auto simp: ppp_hdlc_header_parse_def parsed_def SUCCESS_def PPP_INVALID_HEADER_def ASSERT_def)
  next
    case last
    note peeks = parse_both_ends [OF s1(2) last(2), of P]
    have more: "bl_total_length (blists s1 l) \<ge> 4" using total last by (simp add: word_le_nat_alt)
    show ?thesis using s1 last more peeks
      by (auto simp: ppp_hdlc_header_parse_def parsed_def SUCCESS_def PPP_INVALID_HEADER_def ASSERT_def)
  next
    case flags
    note peeks = parse_both_ends [OF s1(2) flags(2), of P]
    have more: "bl_total_length (blists s1 l) \<ge> 4" using total flags by (simp add: word_le_nat_alt)
    let ?inner = "butlast (List.tl ?raw)"
    obtain s2 where s2: "fs_buffer_list_pull P l False 1 0 s1 = Some (SUCCESS, [], s2)"
       "parsing l ?A s s2 (List.tl ?raw)"
      using parse_skim [OF s1(2), of 1 P] flags(2) by (auto simp: drop_Suc)
    have "1 \<le> length (List.tl ?raw)" using flags(2) unfolding length_tl by linarith
    then have one: "unat (1 :: u32) \<le> length (List.tl ?raw)" by (simp only: unat_1)
    obtain s3 where s3: "fs_buffer_list_pull P l False 1 FS_BUFFER_TAIL s2 = Some (SUCCESS, [], s3)"
       "parsing l ?A s s3 ?inner"
      using parse_skim_tail [OF s2(2) one, of P] by (auto simp: butlast_conv_take)
    obtain c where c: "chain_of l s3 = Some c"
       "PPP_FCS16_IS_VALID c = Some (crc16 PPP_FCS16_INIT ?inner = PPP_FCS16_MAGIC)"
      using parse_check [OF s3(2)] by blast
    let ?body = "take (length ?inner - 2) ?inner" and ?fcs = "drop (length ?inner - 2) ?inner"
    have fcs: "length ?fcs = 2" using flags(2) by simp
    have "parsing l ?A s s3 (?body @ ?fcs)" using s3(2) by simp
    from parse_fields_ok [OF this fcs, of P acfc] obtain st s' rest where
      "parse_fields P l acfc s3 = Some (st, s')" "parsing l ?A s s' rest"
      "parsed_fields acfc ?body = (st, rest)" by blast
    then show ?thesis using s1(1) flags more peeks s2(1) s3 c
      by (auto simp: ppp_hdlc_header_parse_def parsed_def ASSERT_def Let_def)
  qed
qed

section \<open>A frame of this sender is read back\<close>

text \<open>The check sequence can be computed with the table.\<close>

lemma frame_check_by_table [code]:
  "frame_check bs = fcs_memory (the (ppp_fcs16_calculate bs (length bs) PPP_FCS16_INIT) XOR 0xffff)"
  by (simp add: frame_check_def ppp_fcs16_calculate_crc)

text \<open>What \<^verbatim>\<open>ppp_lcp_state_initialize\<close> stores in the map of characters to escape.\<close>

definition tx_accm_initial :: "u32 list \<Rightarrow> u32 list" where
  "tx_accm_initial accm = accm[0 := 0xFFFFFFFF, 1 := 0x0, 2 := 0x0, 3 := 0x60000000]"

text \<open>The first word is negotiated; the flag and the escape byte are escaped whatever it is.\<close>

lemma accm_escapes:
  assumes "length accm = 8"
  shows "length ((tx_accm_initial accm)[0 := m]) = 8"
    and "escapes ((tx_accm_initial accm)[0 := m]) lcp PPP_ESCAPE"
    and "escapes ((tx_accm_initial accm)[0 := m]) lcp PPP_FLAG"
    and "\<not> escapes ((tx_accm_initial accm)[0 := m]) lcp 0x5E"
  using assms by (simp_all add: tx_accm_initial_def escapes_def PPP_ESCAPE_def PPP_FLAG_def
    drop_bit_numeral_bit1 push_bit_of_1 and_numerals)

lemma stuff_no_flag:
  assumes "escapes accm lcp PPP_FLAG" and "\<not> escapes accm lcp 0x5E"
  shows "PPP_FLAG \<notin> set (stuff accm lcp bs)"
proof (induction bs)
  case (Cons c bs)
  have "c = 0x5E" if "c XOR 0x20 = PPP_FLAG"
  proof -
    have "c = (c XOR 0x20) XOR 0x20" by (simp add: xor.assoc)
    then show ?thesis unfolding that by (simp add: PPP_FLAG_def)
  qed
  then show ?case using Cons assms by (auto simp: stuff_byte_def PPP_ESCAPE_def PPP_FLAG_def)
qed simp

lemma flag_not_escape: "PPP_FLAG \<noteq> PPP_ESCAPE"
  by (simp add: PPP_FLAG_def PPP_ESCAPE_def)

lemma unstuff_frame:
  assumes "escapes accm lcp PPP_ESCAPE"
  shows "unstuff False (frame accm acfc lcp data) =
     (let body = fields acfc lcp @ data in [PPP_FLAG] @ body @ frame_check body @ [PPP_FLAG], False)"
proof -
  let ?body = "fields acfc lcp @ data"
  have "unstuff False (frame accm acfc lcp data) =
      (PPP_FLAG # fst (unstuff False (stuff accm lcp (?body @ frame_check ?body) @ [PPP_FLAG])),
       snd (unstuff False (stuff accm lcp (?body @ frame_check ?body) @ [PPP_FLAG])))"
    by (simp add: frame_def PPP_FLAG_def PPP_ESCAPE_def split: prod.split)
  then show ?thesis using unstuff_stuff [OF assms] by (simp add: Let_def flag_not_escape)
qed

lemma parsed_frame:
  "parsed acfc False ([PPP_FLAG] @ body @ frame_check body @ [PPP_FLAG]) = parsed_fields acfc body"
proof -
  have "butlast (List.tl ([PPP_FLAG] @ body @ frame_check body @ [PPP_FLAG])) = body @ frame_check body"
    by (simp add: butlast_append)
  then show ?thesis using frame_check_magic [of body] by (simp add: parsed_def Let_def)
qed

lemma parsed_fields_ok:
  assumes "acfc' \<or> lcp \<or> \<not> acfc" and "fields acfc lcp = [] \<Longrightarrow> take 2 data \<noteq> [PPP_ADDRESS, PPP_CONTROL]"
  shows "parsed_fields acfc' (fields acfc lcp @ data) = (SUCCESS, data)"
  using assms by (auto simp: parsed_fields_def fields_def split: if_splits)

section \<open>Examples\<close>

text \<open>
  List 0 has two buffers of eight bytes with the given data, twenty buffers and the lists 1 and
  2 are free.
\<close>

definition wire_buffer :: "u8 list \<Rightarrow> FS_BUFFER" where
  "wire_buffer bs = \<lparr>fb_data = Some (bs @ replicate (8 - length bs) 0), fb_max_length = 8,
     fb_off = 0, fb_length = of_nat (length bs)\<rparr>"

definition wire_data :: FS_BUFFER_DATA where
  "wire_data = ex_data\<lparr>free_buffers := \<lparr>head = Some 20, tail = Some 39\<rparr>, free_buffers_buffers := 20,
     buffer_size := 8\<rparr>"

definition wire_state :: "u8 list \<Rightarrow> u8 list \<Rightarrow> fsstate" where
  "wire_state xs ys = ex_state\<lparr>fds := \<lambda>_. ex_fd\<lparr>fs_buffer := Some wire_data\<rparr>,
     bufs := \<lambda>b. if b = 10 then wire_buffer xs else if b = 11 then wire_buffer ys else wire_buffer [],
     buf_next := \<lambda>b. if b = 10 then Some 11 else if 20 \<le> b \<and> b < 39 then Some (b + 1) else None,
     blists := \<lambda>l. if l = 0 then ex_list \<lparr>head = Some 10, tail = Some 11\<rparr> (of_nat (length xs + length ys))
       else ex_list \<lparr>head = None, tail = None\<rparr> 0\<rparr>"

lemma wire_sel [simp]:
  "fds (wire_state xs ys) = (\<lambda>_. ex_fd\<lparr>fs_buffer := Some wire_data\<rparr>)"
  "buf_next (wire_state xs ys) =
     (\<lambda>b. if b = 10 then Some 11 else if 20 \<le> b \<and> b < 39 then Some (b + 1) else None)"
  "list_next (wire_state xs ys) = (\<lambda>l. if l = 1 then Some 2 else None)"
  "bufs (wire_state xs ys) b =
     (if b = 10 then wire_buffer xs else if b = 11 then wire_buffer ys else wire_buffer [])"
  "blists (wire_state xs ys) l = (if l = 0
     then ex_list \<lparr>head = Some 10, tail = Some 11\<rparr> (of_nat (length xs + length ys))
     else ex_list \<lparr>head = None, tail = None\<rparr> 0)"
  by (simp_all add: wire_state_def)

lemma wire_bytes:
  "length bs \<le> 8 \<Longrightarrow> buffer_bytes (wire_buffer bs) = bs"
  by (simp add: buffer_bytes_def wire_buffer_def unat_of_nat)

lemma wire_list_bytes:
  "length xs \<le> 8 \<Longrightarrow> length ys \<le> 8 \<Longrightarrow> list_bytes (wire_state xs ys) [10, 11] = xs @ ys"
  by (simp add: wire_bytes)

lemma wire_linked:
  assumes "length xs \<le> 8" "length ys \<le> 8" "xs \<noteq> []" "ys \<noteq> []"
  shows "linked 0 (wire_state xs ys) [10, 11] [20..<40]"
proof -
  have "sll_holds (chain_sll 0 (wire_state xs ys)) [10, 11]"
    by (simp add: sll_holds_def chain_sll_def)
  moreover have "filled 8 (wire_buffer bs)" if "length bs \<le> 8" "bs \<noteq> []" for bs
    using that by (simp add: filled_def buffer_ok_def wire_buffer_def unat_of_nat word_unat_eq_iff)
  moreover have "fresh 8 (wire_buffer [])"
    by (simp add: fresh_def sized_def wire_buffer_def)
  moreover have "fd_size 0 (wire_state xs ys) = 8" by (simp add: fd_size_def wire_data_def)
  moreover have "sll_holds (buf_next (wire_state xs ys), free_buffers wire_data) [20..<40]"
    by (simp add: sll_holds_def wire_data_def upt_rec)
  moreover have "unat (of_nat (length xs + length ys) :: u32) = length xs + length ys"
    using assms(1,2) by (simp add: unat_of_nat del: of_nat_add)
  ultimately show ?thesis
    using assms wire_list_bytes [OF assms(1,2)]
    by (simp add: linked_def chain_holds_def pool_holds_def wire_data_def del: of_nat_add)
qed

lemma wire_ready: "ready 0 (wire_state xs ys)"
proof -
  have "kstate.truncate (wire_state xs ys) = kstate.truncate ex_state"
    by (simp add: wire_state_def kstate.defs)
  then have "calm 0 (wire_state xs ys)" using calm_cong ex_calm by blast
  then show ?thesis by (simp add: ready_def wire_data_def ex_data_def)
qed

lemma wire_lists: "lists_hold 0 (wire_state xs ys) [1, 2]"
  by (simp add: lists_hold_def wire_data_def ex_data_def sll_holds_def)

section \<open>Properties\<close>

text \<open>C17. Adding the HDLC header to a packet, with a free second list and the pool at hand, makes
  the list hold the frame of the packet: a flag, the escaped address and control field, packet
  and frame check sequence, and a flag. Or it reports that there is no space, which happens only
  when the pool has fewer than two buffers for each byte of the frame above the threshold. In
  both cases every buffer is back on the list or in the pool, the second list is free again, and
  no other descriptor, list or buffer has changed.\<close>

theorem hdlc_frame_on_wire:
  assumes "linked l s bs xs" and "ready (bl_fd (blists s l)) s"
    and "lists_hold (bl_fd (blists s l)) s (m # ls)" "l \<notin> set (m # ls)" "length (m # ls) < 2 ^ 32"
    and "unused_list (bl_fd (blists s l)) (blists s m)"
    and "length accm = 8" "plain_flags fl" "length (list_bytes s bs) < 2 ^ 29"
  shows "\<exists>st s' bs' xs'. ppp_hdlc_header_add P l accm acfc lcp fl s = Some (st, s') \<and>
     linked l s' bs' xs' \<and> same_buffers bs xs bs' xs' \<and>
     lists_hold (bl_fd (blists s l)) s' (ls @ [m]) \<and>
     outside (bl_fd (blists s l)) {l, m} (set bs \<union> set xs) s s' \<and>
     (st = SUCCESS \<and> list_bytes s' bs' = frame accm acfc lcp (list_bytes s bs) \<or>
      st = FS_BUFFER_NO_SPACE \<and>
        length xs < held_back fl (bl_fd (blists s l)) s + 2 * length (list_bytes s bs) + 14)"
  using header_add_ok [OF assms, of P acfc lcp] by blast

theorem hdlc_frame_on_wire_witness:
  "\<exists>s' bs' xs'. ppp_hdlc_header_add ex_platform 0 ([0xFFFFFFFF, 0, 0, 0x60000000, 0, 0, 0, 0]) True False 0
     (wire_state [0xC0] [0x21]) = Some (SUCCESS, s') \<and> linked 0 s' bs' xs' \<and>
     list_bytes s' bs' = frame [0xFFFFFFFF, 0, 0, 0x60000000, 0, 0, 0, 0] True False [0xC0, 0x21]"
proof -
  let ?s = "wire_state [0xC0] [0x21]" and ?accm = "[0xFFFFFFFF, 0, 0, 0x60000000, 0, 0, 0, 0]"
  have fd: "bl_fd (blists ?s 0) = 0" by simp
  have lk: "linked 0 ?s [10, 11] [20..<40]" by (rule wire_linked) simp_all
  have bytes: "list_bytes ?s [10, 11] = [0xC0, 0x21]" by (subst wire_list_bytes) simp_all
  have "unused_list 0 (blists ?s 1)" by (simp add: unused_list_def ex_list_def)
  moreover have "plain_flags 0" "(0 :: nat) \<notin> set [1, 2]" "length [1, 2 :: nat] < 2 ^ 32"
    "length ?accm = 8" "length (list_bytes ?s [10, 11]) < 2 ^ 29"
    unfolding bytes by (simp_all add: plain_flags_def)
  ultimately show ?thesis
    using hdlc_frame_on_wire [OF lk, unfolded fd, OF wire_ready wire_lists, of ?accm 0 ex_platform True False]
    unfolding bytes by (fastforce simp: held_back_def)
qed

text \<open>C18. The parser refines a function on bytes: it removes the escapes wherever the buffer
  boundaries lie, and its status and what it leaves on the list are those of \<open>parsed\<close> on the
  bytes that are left. No assertion stops it, as long as no buffer of the list is a lone escape
  byte.\<close>

theorem hdlc_parse_refines:
  assumes "linked l s bs xs" and "ready (bl_fd (blists s l)) s"
    and "\<forall>b \<in> set bs. buffer_bytes (bufs s b) \<noteq> [PPP_ESCAPE]"
  shows "\<exists>st s' bs' xs'. ppp_hdlc_header_parse P l acfc s = Some (st, s') \<and>
     linked l s' bs' xs' \<and> same_buffers bs xs bs' xs' \<and>
     touches (bl_fd (blists s l)) {l} (set bs \<union> set xs) s s' \<and>
     (st, list_bytes s' bs') =
       parsed acfc (escape_left False (list_bytes s bs)) (unstuffed False (list_bytes s bs))"
  using header_parse_ok [OF assms, of P acfc] unfolding parsing_def same_buffers_def by fastforce

theorem hdlc_parse_refines_witness:
  "\<exists>s' bs' xs'. ppp_hdlc_header_parse ex_platform 0 False
       (wire_state [0x7E, 0xFF, 0x7D, 0x23, 0xC0] [0x21, 0x7D]) = Some (HDLC_STREAM_ERROR, s') \<and>
     linked 0 s' bs' xs' \<and> list_bytes s' bs' = [0x7E, 0xFF, 0x03, 0xC0, 0x21]"
proof -
  let ?s = "wire_state [0x7E, 0xFF, 0x7D, 0x23, 0xC0] [0x21, 0x7D]"
  have bytes: "list_bytes ?s [10, 11] = [0x7E, 0xFF, 0x7D, 0x23, 0xC0, 0x21, 0x7D]"
    by (subst wire_list_bytes) simp_all
  have "\<forall>b \<in> set [10, 11]. buffer_bytes (bufs ?s b) \<noteq> [PPP_ESCAPE]"
    by (simp add: wire_bytes)
  then show ?thesis
    using hdlc_parse_refines [OF wire_linked, of "[0x7E, 0xFF, 0x7D, 0x23, 0xC0]" "[0x21, 0x7D]" ex_platform False]
      wire_ready unfolding bytes by (fastforce simp: parsed_def PPP_ESCAPE_def)
qed

text \<open>C16. Round trip on the wire: a list that holds the frame of a packet, fragmented in any way
  that leaves no buffer with a lone escape byte, is parsed with success and then holds the packet.
  The sender may use any map whose words 1 to 7 are the initial ones; a packet that is sent
  without address and control field must not begin like one.\<close>

theorem hdlc_round_trip:
  assumes "linked l s bs xs" and "ready (bl_fd (blists s l)) s"
    and "\<forall>b \<in> set bs. buffer_bytes (bufs s b) \<noteq> [PPP_ESCAPE]"
    and "length accm = 8"
    and "list_bytes s bs = frame ((tx_accm_initial accm)[0 := m]) acfc lcp data"
    and "acfc' \<or> lcp \<or> \<not> acfc"
    and "fields acfc lcp = [] \<Longrightarrow> take 2 data \<noteq> [PPP_ADDRESS, PPP_CONTROL]"
  shows "\<exists>s' bs' xs'. ppp_hdlc_header_parse P l acfc' s = Some (SUCCESS, s') \<and>
     linked l s' bs' xs' \<and> same_buffers bs xs bs' xs' \<and>
     touches (bl_fd (blists s l)) {l} (set bs \<union> set xs) s s' \<and> list_bytes s' bs' = data"
proof -
  have "parsed acfc' (escape_left False (list_bytes s bs)) (unstuffed False (list_bytes s bs)) =
      (SUCCESS, data)"
    unfolding assms(5) unstuff_frame [OF accm_escapes(2) [OF assms(4)]] Let_def fst_conv snd_conv
      parsed_frame by (rule parsed_fields_ok [OF assms(6,7)])
  then show ?thesis
    using header_parse_ok [OF assms(1-3), of P acfc'] unfolding parsing_def same_buffers_def by fastforce
qed

theorem hdlc_round_trip_witness:
  "\<exists>s' bs' xs'. ppp_hdlc_header_parse ex_platform 0 False
       (wire_state [0x7E, 0xFF, 0x03, 0x7D] [0x5D, 0x7D, 0x5E, 0x2D, 0x0C, 0x7E]) = Some (SUCCESS, s') \<and>
     linked 0 s' bs' xs' \<and> list_bytes s' bs' = [0x7D, 0x7E]"
proof -
  let ?xs = "[0x7E, 0xFF, 0x03, 0x7D]" and ?ys = "[0x5D, 0x7D, 0x5E, 0x2D, 0x0C, 0x7E]"
  let ?s = "wire_state ?xs ?ys" and ?accm = "replicate 8 0"
  have lk: "linked 0 ?s [10, 11] [20..<40]" by (rule wire_linked) simp_all
  have fd: "bl_fd (blists ?s 0) = 0" by simp
  have "list_bytes ?s [10, 11] = ?xs @ ?ys" by (rule wire_list_bytes) simp_all
  moreover have "frame ((tx_accm_initial ?accm)[0 := 0]) False False [0x7D, 0x7E] = ?xs @ ?ys"
    by code_simp
  moreover have "\<forall>b \<in> set [10, 11]. buffer_bytes (bufs ?s b) \<noteq> [PPP_ESCAPE]"
    by (simp add: wire_bytes)
  ultimately show ?thesis
    using hdlc_round_trip [OF lk, unfolded fd, OF wire_ready, of ?accm 0 False False "[0x7D, 0x7E]" False
        ex_platform]
    by (simp add: fields_def) blast
qed

text \<open>Between its flags a frame holds no flag: the address and control field, the packet and
  the check sequence are escaped so that a receiver finds the end of the frame, whatever the
  packet, for any map whose words 1 to 7 are the initial ones. The frame is at most twice as long
  as what it carries, and the flags.\<close>

theorem hdlc_frame_has_no_inner_flag:
  assumes "length accm = 8"
  shows "\<exists>inner. frame ((tx_accm_initial accm)[0 := m]) acfc lcp data = [PPP_FLAG] @ inner @ [PPP_FLAG] \<and>
     PPP_FLAG \<notin> set inner \<and> length inner \<le> 2 * (length (fields acfc lcp) + length data + 2)"
proof -
  let ?accm = "(tx_accm_initial accm)[0 := m]"
  let ?body = "fields acfc lcp @ data"
  show ?thesis
    using stuff_no_flag [OF accm_escapes(3,4) [OF assms], of m lcp "?body @ frame_check ?body"]
      length_stuff [of ?accm lcp "?body @ frame_check ?body"]
    by (intro exI [of _ "stuff ?accm lcp (?body @ frame_check ?body)"]) (simp add: frame_def)
qed

theorem hdlc_frame_has_no_inner_flag_witness:
  "\<exists>inner. frame ((tx_accm_initial (replicate 8 0))[0 := 0]) False False [0x7E] =
     [PPP_FLAG] @ inner @ [PPP_FLAG] \<and> PPP_FLAG \<notin> set inner \<and> length inner \<le> 10"
  using hdlc_frame_has_no_inner_flag [of "replicate 8 0" 0 False False "[0x7E]"]
  by (simp add: fields_def)

text \<open>A frame whose check sequence is wrong is not refused: the parser reports success, and
  leaves everything between the flags on the list, the wrong check sequence, the address and the
  control field included.\<close>

theorem hdlc_bad_check_accepted:
  assumes "linked l s bs xs" and "ready (bl_fd (blists s l)) s"
    and "\<forall>b \<in> set bs. buffer_bytes (bufs s b) \<noteq> [PPP_ESCAPE]"
    and "unstuff False (list_bytes s bs) = ([PPP_FLAG] @ inner @ [PPP_FLAG], False)"
    and "2 \<le> length inner" and "crc16 PPP_FCS16_INIT inner \<noteq> PPP_FCS16_MAGIC"
  shows "\<exists>s' bs' xs'. ppp_hdlc_header_parse P l acfc s = Some (SUCCESS, s') \<and>
     linked l s' bs' xs' \<and> list_bytes s' bs' = inner"
proof -
  have "butlast (List.tl ([PPP_FLAG] @ inner @ [PPP_FLAG])) = inner" by simp
  then have "parsed acfc (escape_left False (list_bytes s bs)) (unstuffed False (list_bytes s bs)) =
      (SUCCESS, inner)"
    using assms(4-6) by (simp add: parsed_def Let_def)
  then show ?thesis
    using header_parse_ok [OF assms(1-3), of P acfc] unfolding parsing_def by fastforce
qed

theorem hdlc_bad_check_accepted_witness:
  "\<exists>s' bs' xs'. ppp_hdlc_header_parse ex_platform 0 False
       (wire_state [0x7E, 0xFF, 0x03] [0xC0, 0x21, 0, 0, 0x7E]) = Some (SUCCESS, s') \<and>
     linked 0 s' bs' xs' \<and> list_bytes s' bs' = [0xFF, 0x03, 0xC0, 0x21, 0, 0]"
proof -
  let ?xs = "[0x7E, 0xFF, 0x03]" and ?ys = "[0xC0, 0x21, 0, 0, 0x7E]"
  let ?s = "wire_state ?xs ?ys"
  have lk: "linked 0 ?s [10, 11] [20..<40]" by (rule wire_linked) simp_all
  have fd: "bl_fd (blists ?s 0) = 0" by simp
  have bytes: "list_bytes ?s [10, 11] = ?xs @ ?ys" by (rule wire_list_bytes) simp_all
  have "unstuff False (?xs @ ?ys) = ([PPP_FLAG] @ [0xFF, 0x03, 0xC0, 0x21, 0, 0] @ [PPP_FLAG], False)"
    by code_simp
  moreover have "ppp_fcs16_calculate [0xFF, 0x03, 0xC0, 0x21, 0, 0] 6 PPP_FCS16_INIT \<noteq> Some PPP_FCS16_MAGIC"
    by code_simp
  then have "crc16 PPP_FCS16_INIT [0xFF, 0x03, 0xC0, 0x21, 0, 0] \<noteq> PPP_FCS16_MAGIC"
    by (simp add: ppp_fcs16_calculate_crc del: crc16_simps)
  moreover have "\<forall>b \<in> set [10, 11]. buffer_bytes (bufs ?s b) \<noteq> [PPP_ESCAPE]"
    by (simp add: wire_bytes)
  ultimately show ?thesis
    using hdlc_bad_check_accepted [OF lk, unfolded fd bytes, OF wire_ready,
        of "[0xFF, 0x03, 0xC0, 0x21, 0, 0]" ex_platform False] by fastforce
qed

text \<open>Removing the escapes always comes to an end, with the buffers of the list whatever they
  hold: the list keeps its buffers in their order and holds the bytes the escaped ones stand for,
  its total length is their number, and an escape that is left open is reported.\<close>

theorem hdlc_unescape_returns:
  assumes "sll_holds (chain_sll l s) bs" and "\<forall>b \<in> set bs. buffer_ok (bufs s b)"
    and "length (list_bytes s bs) < 2 ^ 32"
  shows "\<exists>s'. ppp_hdlc_unescape l s =
       Some (if escape_left False (list_bytes s bs) then HDLC_STREAM_ERROR else SUCCESS, s') \<and>
     sll_holds (chain_sll l s') bs \<and> list_bytes s' bs = unstuffed False (list_bytes s bs) \<and>
     unat (bl_total_length (blists s' l)) = length (unstuffed False (list_bytes s bs)) \<and>
     outside (bl_fd (blists s l)) {l} (set bs) s s'"
proof -
  let ?s0 = "upd_blist l (\<lambda>y. y\<lparr>bl_total_length := 0\<rparr>) s"
  have same: "list_bytes ?s0 bs = list_bytes s bs" by (rule list_bytes_cong) simp
  have "lseg (buf_next ?s0) (head (bl_list (blists s l))) bs None"
    using assms(1) by (simp add: sll_holds_def chain_sll_def)
  moreover have "distinct bs" using assms(1) by (rule sll_holds_distinct)
  ultimately obtain s' where s': "unescape_buffers l (head (bl_list (blists s l))) False ?s0 =
       Some (escape_left False (list_bytes s bs), s')"
     "touches (bl_fd (blists s l)) {l} (set bs) ?s0 s'" "buf_next s' = buf_next ?s0"
     "bl_list (blists s' l) = bl_list (blists ?s0 l)"
     "unat (bl_total_length (blists s' l)) =
       unat (bl_total_length (blists ?s0 l)) + length (unstuffed False (list_bytes s bs))"
     "list_bytes s' bs = unstuffed False (list_bytes s bs)"
    using unescape_buffers_ok [of ?s0 "head (bl_list (blists s l))" bs l False "bl_fd (blists s l)"]
      assms(2,3) unfolding same by auto
  have "outside (bl_fd (blists s l)) {l} (set bs) s ?s0" by (simp add: outside_def)
  moreover have "outside (bl_fd (blists s l)) {l} (set bs) ?s0 s'"
    using s'(2) by (rule touches_outside) simp_all
  ultimately have "outside (bl_fd (blists s l)) {l} (set bs) s s'" by (rule outside_trans)
  moreover have "sll_holds (chain_sll l s') bs"
    using assms(1) s'(3,4) by (simp add: chain_sll_def)
  ultimately show ?thesis using s'(1,5,6) by (simp add: ppp_hdlc_unescape_def Let_def)
qed

theorem hdlc_unescape_returns_witness:
  "\<exists>s'. ppp_hdlc_unescape 0 (wire_state [0x7D] [0x5E, 0x21]) = Some (SUCCESS, s') \<and>
     list_bytes s' [10, 11] = [0x7E, 0x21]"
proof -
  let ?s = "wire_state [0x7D] [0x5E, 0x21]"
  have bytes: "list_bytes ?s [10, 11] = [0x7D, 0x5E, 0x21]" by (subst wire_list_bytes) simp_all
  have lk: "linked 0 ?s [10, 11] [20..<40]" by (rule wire_linked) simp_all
  have "unstuff False [0x7D, 0x5E, 0x21] = ([0x7E, 0x21], False)" by (simp add: PPP_ESCAPE_def)
  moreover have "\<forall>b \<in> set [10, 11]. buffer_ok (bufs ?s b)"
    using linkedD(5) [OF lk] filledD(1) by blast
  ultimately show ?thesis
    using hdlc_unescape_returns [OF linkedD(1) [OF lk]] unfolding bytes by auto
qed

end
