(* ===== verification/Files.thy ===== *)
theory Files
  imports FsOps
begin

text \<open>
  The file interface of \<^verbatim>\<open>rtos/fs/fs.c\<close>: the registered file systems and the search for the one
  that serves a path, opening and closing, and reading from and writing to a descriptor, byte
  by byte or through buffer lists. The functions of a driver are parameters.
\<close>

section \<open>Data\<close>

text \<open>
  What a read or write is given: bytes, or on a buffered descriptor a list of buffers. \<open>Wild\<close> is a
  pointer into the middle of a \<^verbatim>\<open>FS_BUFFER_LIST\<close>.
\<close>

datatype transfer = Bytes "u8 list" | Buffers lid | Wild

text \<open>
  The \<^verbatim>\<open>next\<close> members of the descriptors, and \<^verbatim>\<open>file_data\<close> of \<^verbatim>\<open>fs.c\<close>: its list and the identifier of its
  semaphore.
\<close>

record filestate = fsstate +
  fs_next :: "fd links"
  file_list :: "fd sll_head"
  file_lock :: semid

text \<open>
  A driver's functions, reached through the pointers in a \<^verbatim>\<open>FS\<close>. A read returns a status and what it
  put in the buffer of the caller.
\<close>

record 'z file_platform =
  fs_base :: "'z filestate_ext fs_platform"
  drv_open :: "fptr \<Rightarrow> fd \<Rightarrow> string \<Rightarrow> u32 \<Rightarrow> 'z filestate_scheme \<Rightarrow> (fd option \<times> 'z filestate_scheme) option"
  drv_close :: "fptr \<Rightarrow> fd \<Rightarrow> 'z filestate_scheme \<Rightarrow> 'z filestate_scheme option"
  drv_read :: "fptr \<Rightarrow> fd \<Rightarrow> int \<Rightarrow> 'z filestate_scheme \<Rightarrow> (int \<times> transfer \<times> 'z filestate_scheme) option"
  drv_write :: "fptr \<Rightarrow> fd \<Rightarrow> transfer \<Rightarrow> int \<Rightarrow> 'z filestate_scheme \<Rightarrow> (int \<times> 'z filestate_scheme) option"
  drv_ioctl :: "fptr \<Rightarrow> fd \<Rightarrow> u32 \<Rightarrow> addr \<Rightarrow> 'z filestate_scheme \<Rightarrow> (int \<times> 'z filestate_scheme) option"

abbreviation file_kernel :: "'z file_platform \<Rightarrow> 'z filestate_ext fsstate_ext platform" where
  "file_kernel P \<equiv> kernel_platform (fs_base P)"

section \<open>Paths\<close>

text \<open>
  \<^verbatim>\<open>util_path_match\<close> of \<^verbatim>\<open>rtos/utils/path.c\<close>; a string ends where its list ends. The result is the path
  from the point up to which it was matched.
\<close>

fun util_path_match :: "string \<Rightarrow> string \<Rightarrow> string option" where
  "util_path_match (r # rs) (c # cs) =
     (if r = c then util_path_match rs cs
      else if c = CHR ''*'' then Some (c # cs) else None)"
| "util_path_match rs cs =
     (if rs = [] \<and> (cs = [] \<or> hd cs = CHR 0x5C) \<or> cs \<noteq> [] \<and> hd cs = CHR ''*'' then Some cs else None)"

record DIR_PARAM =
  dp_name :: string
  dp_matched :: "string option"
  dp_priv :: "fd option"

definition fs_sreach_directory :: "'z fsstate_scheme \<Rightarrow> (fd, DIR_PARAM) match" where
  "fs_sreach_directory s node param =
     (case fs_name (fds s node) of
        None \<Rightarrow> (False, param)
      | Some nm \<Rightarrow>
          (case util_path_match nm (dp_name param) of
             None \<Rightarrow> (False, param)
           | Some path \<Rightarrow>
               let path = (if path \<noteq> [] \<and> hd path = CHR 0x5C then List.tl path else path)
               in (path = [], param\<lparr>dp_matched := Some path, dp_priv := Some node\<rparr>)))"

record NODE_PARAM =
  np_name :: string
  np_priv :: "fd option"

definition fs_sreach_node :: "'z fsstate_scheme \<Rightarrow> (fd, NODE_PARAM) match" where
  "fs_sreach_node s node param =
     (case fs_name (fds s node) of
        None \<Rightarrow> (False, param)
      | Some nm \<Rightarrow>
          (if util_path_match nm (np_name param) = Some [] then (True, param\<lparr>np_priv := Some node\<rparr>)
           else (False, param)))"

section \<open>Registering\<close>

definition fs_register :: "'z file_platform \<Rightarrow> fd \<Rightarrow> 'z filestate_scheme \<Rightarrow> 'z filestate_scheme option" where
  "fs_register P f s = do {
     (st, s) \<leftarrow> semaphore_obtain (file_kernel P) (file_lock s) MAX_WAIT s;
     ASSERT (st \<noteq> SUCCESS);
     nm \<leftarrow> fs_name (fds s f);
     ASSERT (nm = [] \<or> hd nm \<noteq> CHR 0x5C);
     q \<leftarrow> sll_push (Some f) (fs_next s, file_list s);
     let s = s\<lparr>fs_next := fst q, file_list := snd q\<rparr>;
     semaphore_release (file_kernel P) (file_lock s) s }"

definition fs_unregister :: "'z file_platform \<Rightarrow> fd \<Rightarrow> 'z filestate_scheme \<Rightarrow> 'z filestate_scheme option" where
  "fs_unregister P f s = do {
     (st, s) \<leftarrow> semaphore_obtain (file_kernel P) (file_lock s) MAX_WAIT s;
     ASSERT (st \<noteq> SUCCESS);
     (r, q) \<leftarrow> sll_remove (Some f) (fs_next s, file_list s);
     ASSERT (r \<noteq> Some f);
     let s = s\<lparr>fs_next := fst q, file_list := snd q\<rparr>;
     semaphore_release (file_kernel P) (file_lock s) s }"

section \<open>Opening and closing\<close>

definition fs_open ::
    "'z file_platform \<Rightarrow> string \<Rightarrow> u32 \<Rightarrow> 'z filestate_scheme \<Rightarrow> (fd option \<times> 'z filestate_scheme) option" where
  "fs_open P name fl s = do {
     (st, s) \<leftarrow> semaphore_obtain (file_kernel P) (file_lock s) MAX_WAIT s;
     ASSERT (st \<noteq> SUCCESS);
     (_, _, param) \<leftarrow> sll_search None (fs_sreach_directory s)
       \<lparr>dp_name = name, dp_matched = None, dp_priv = None\<rparr> (fs_next s, file_list s);
     s \<leftarrow> semaphore_release (file_kernel P) (file_lock s) s;
     (case dp_priv param of
        None \<Rightarrow> Some (None, s)
      | Some f \<Rightarrow>
          (case fs_open_fun (fds s f) of
             None \<Rightarrow> Some (Some f, s)
           | Some g \<Rightarrow> do { name \<leftarrow> dp_matched param; drv_open P g f name fl s })) }"

definition fs_close :: "'z file_platform \<Rightarrow> fd \<Rightarrow> 'z filestate_scheme \<Rightarrow> (fd option \<times> 'z filestate_scheme) option" where
  "fs_close P f s = do {
     s \<leftarrow> (case fs_close_fun (fds s f) of
            None \<Rightarrow> Some s
          | Some g \<Rightarrow> drv_close P g f s);
     Some (None, s) }"

section \<open>Reading and writing\<close>

text \<open>Waiting for data or space, with the suspend structure and parameter of the calling task.\<close>

definition fs_wait ::
    "'z file_platform \<Rightarrow> fd \<Rightarrow> u32 \<Rightarrow> tid \<Rightarrow> 'z filestate_scheme \<Rightarrow> (int \<times> 'z filestate_scheme) option" where
  "fs_wait P f flag t s = do {
     let (c, s) = fs_condition_get f (Fs_suspend t) (A_fs_param t) flag s;
     (st, _, s) \<leftarrow> suspend_condition (file_kernel P) [c] [Fs_suspend t] None True s;
     Some (st, s) }"

definition fs_read ::
    "'z file_platform \<Rightarrow> fd \<Rightarrow> int \<Rightarrow> 'z filestate_scheme \<Rightarrow>
     (int \<times> transfer option \<times> 'z filestate_scheme) option" where
  "fs_read P f nbytes s = do {
     (st, s) \<leftarrow> fd_get_lock (fs_base P) f s;
     (if st = SUCCESS then do {
        (n, out, s) \<leftarrow>
          (if fs_read_fun (fds s f) \<noteq> None then do {
             (st, s) \<leftarrow>
               (if fs_flags (fds s f) AND FS_DATA_AVAILABLE = 0 \<and> fs_flags (fds s f) AND FS_BLOCK \<noteq> 0
                then (case current_task s of
                        Some t \<Rightarrow> fs_wait P f FS_BLOCK_READ t s
                      | None \<Rightarrow> Some (st, s))
                else Some (st, s));
             (if st = SUCCESS \<and> fs_flags (fds s f) AND FS_DATA_AVAILABLE \<noteq> 0 then do {
                g \<leftarrow> fs_read_fun (fds s f);
                (n, out, s) \<leftarrow> drv_read P g f nbytes s;
                s \<leftarrow> (if fs_flags (fds s f) AND FS_DATA_AVAILABLE \<noteq> 0
                     then fd_data_available (fs_base P) f s else Some s);
                s \<leftarrow> (if fs_flags (fds s f) AND FS_SPACE_AVAILABLE \<noteq> 0
                     then fd_space_available (fs_base P) f s else Some s);
                Some (n, Some out, s)
              }
              else Some (0, None, s))
           }
           else Some (0, None, s));
        s \<leftarrow> fd_release_lock (fs_base P) f s;
        Some (n, out, s)
      }
      else Some (0, None, s)) }"

text \<open>\<^verbatim>\<open>buffer += status\<close>\<close>

definition advance :: "transfer \<Rightarrow> int \<Rightarrow> transfer" where
  "advance buffer n =
     (case buffer of
        Bytes bs \<Rightarrow> Bytes (drop (nat n) bs)
      | Buffers l \<Rightarrow> (if n = 0 then Buffers l else Wild)
      | Wild \<Rightarrow> Wild)"

text \<open>Whether a write may go to the driver although no space is reported.\<close>

definition write_no_block :: "u16 \<Rightarrow> bool" where
  "write_no_block fl \<longleftrightarrow> fl AND FS_BUFFERED \<noteq> 0 \<and> fl AND FS_WRITE_NO_BLOCK \<noteq> 0"

text \<open>The loop of \<^verbatim>\<open>fs_write\<close>, with its local variables.\<close>

partial_function (option) fs_write_loop ::
    "'z file_platform \<Rightarrow> fd \<Rightarrow> int \<Rightarrow> transfer \<Rightarrow> int \<Rightarrow> int \<Rightarrow> 'z filestate_scheme \<Rightarrow>
     (int \<times> int \<times> 'z filestate_scheme) option" where
  "fs_write_loop P f st buffer nbytes written s = do {
     (st, s) \<leftarrow>
       (case current_task s of
          Some t \<Rightarrow>
            (if fs_flags (fds s f) AND FS_BLOCK \<noteq> 0 \<and> fs_flags (fds s f) AND FS_SPACE_AVAILABLE = 0 \<and>
                \<not> write_no_block (fs_flags (fds s f))
             then fs_wait P f FS_BLOCK_WRITE t s
             else Some (st, s))
        | None \<Rightarrow> Some (st, s));
     (if st = SUCCESS \<and>
         (fs_flags (fds s f) AND FS_SPACE_AVAILABLE \<noteq> 0 \<or> write_no_block (fs_flags (fds s f))) then do {
        g \<leftarrow> fs_write_fun (fds s f);
        IN_RANGE (buffer \<noteq> Wild);
        (st, s) \<leftarrow> drv_write P g f buffer nbytes s;
        (if st < 0 then Some (st, written, s)
         else if fs_flags (fds s f) AND FS_FLUSH_WRITE \<noteq> 0 \<and> nbytes - st > 0
         then fs_write_loop P f st (advance buffer st) (nbytes - st) (written + st) s
         else Some (st, written + st, s))
      }
      else if st \<noteq> SUCCESS then Some (st, written, s)
      else if fs_flags (fds s f) AND FS_FLUSH_WRITE \<noteq> 0 \<and> nbytes > 0
      then fs_write_loop P f st buffer nbytes written s
      else Some (st, written, s)) }"

declare fs_write_loop.simps [code]

text \<open>The length of a null terminated string.\<close>

definition strlen :: "transfer \<Rightarrow> int option" where
  "strlen buffer =
     (case buffer of
        Bytes bs \<Rightarrow> (if 0 \<in> set bs then Some (int (length (takeWhile (\<lambda>b. b \<noteq> 0) bs))) else None)
      | _ \<Rightarrow> None)"

definition fs_write ::
    "'z file_platform \<Rightarrow> fd \<Rightarrow> transfer \<Rightarrow> int \<Rightarrow> 'z filestate_scheme \<Rightarrow>
     (int \<times> 'z filestate_scheme) option" where
  "fs_write P f buffer nbytes s = do {
     nbytes \<leftarrow> (if nbytes = - 1 then strlen buffer else Some nbytes);
     (st, s) \<leftarrow> fd_get_lock (fs_base P) f s;
     (st, written, s) \<leftarrow>
       (if st = SUCCESS then do {
          (st, written, s) \<leftarrow>
            (if fs_write_fun (fds s f) \<noteq> None then do {
               (st, written, s) \<leftarrow> fs_write_loop P f st buffer nbytes 0 s;
               s \<leftarrow> (if fs_flags (fds s f) AND FS_DATA_AVAILABLE \<noteq> 0
                    then fd_data_available (fs_base P) f s else Some s);
               s \<leftarrow> (if fs_flags (fds s f) AND FS_SPACE_AVAILABLE \<noteq> 0
                    then fd_space_available (fs_base P) f s else Some s);
               Some (st, written, s)
             }
             else Some (st, 0, s));
          s \<leftarrow> fd_release_lock (fs_base P) f s;
          Some (st, written, s)
        }
        else Some (st, 0, s));
     Some (if st \<noteq> SUCCESS then st else written, s) }"

definition fs_ioctl ::
    "'z file_platform \<Rightarrow> fd \<Rightarrow> u32 \<Rightarrow> addr \<Rightarrow> 'z filestate_scheme \<Rightarrow> (int \<times> 'z filestate_scheme) option" where
  "fs_ioctl P f cmd param s = do {
     (st, s) \<leftarrow> fd_get_lock (fs_base P) f s;
     ASSERT (st \<noteq> SUCCESS);
     (st, s) \<leftarrow> (case fs_ioctl_fun (fds s f) of
        Some g \<Rightarrow> drv_ioctl P g f cmd param s
      | None \<Rightarrow> Some (SUCCESS, s));
     s \<leftarrow> fd_release_lock (fs_base P) f s;
     Some (st, s) }"

section \<open>Strings on a descriptor\<close>

text \<open>\<^verbatim>\<open>fs_puts\<close>; on a buffered descriptor the bytes go through a list from its pool.\<close>

definition fs_puts ::
    "'z file_platform \<Rightarrow> fd \<Rightarrow> u8 list \<Rightarrow> int \<Rightarrow> 'z filestate_scheme \<Rightarrow>
     (int \<times> 'z filestate_scheme) option" where
  "fs_puts P f buf n s = do {
     n \<leftarrow> (if n = - 1 then strlen (Bytes buf) else Some n);
     (st, data, s) \<leftarrow>
       (if fs_flags (fds s f) AND FS_BUFFERED \<noteq> 0 then do {
          (st, s) \<leftarrow> fd_get_lock (fs_base P) f s;
          ASSERT (st \<noteq> SUCCESS);
          let fl = (if current_task s = Some (net_condition_tcb (fs_base P)) then 0 else FS_BUFFER_SUSPEND);
          (list, s) \<leftarrow> fs_buffer_get_list (fs_base P) f FS_LIST_FREE (ucast fl) s;
          (st, data, s) \<leftarrow>
            (case list of
               Some l \<Rightarrow> do {
                 (st, s) \<leftarrow> fs_buffer_list_push (fs_base P) l (Some buf) (word_of_int n) fl s;
                 (if st = SUCCESS then Some (SUCCESS, Buffers l, s)
                  else do {
                    s \<leftarrow> fs_buffer_add_list (fs_base P) f l FS_LIST_FREE (ucast FS_BUFFER_ACTIVE) s;
                    Some (FS_BUFFER_NO_SPACE, Bytes buf, s)
                  })
               }
             | None \<Rightarrow> Some (FS_BUFFER_NO_SPACE, Bytes buf, s));
          s \<leftarrow> fd_release_lock (fs_base P) f s;
          Some (st, data, s)
        }
        else Some (SUCCESS, Bytes buf, s));
     (if st = SUCCESS then do {
        (n, s) \<leftarrow> fs_write P f data n s;
        s \<leftarrow> (if n < 0 \<and> fs_flags (fds s f) AND FS_BUFFERED \<noteq> 0
             then (case data of
                     Buffers l \<Rightarrow> fs_buffer_add_list (fs_base P) f l FS_LIST_FREE (ucast FS_BUFFER_ACTIVE) s
                   | _ \<Rightarrow> None)
             else Some s);
        Some (n, s)
      }
      else Some (st, s)) }"

text \<open>\<^verbatim>\<open>fs_gets\<close>: the number it returns and what it has put in the buffer.\<close>

definition fs_gets ::
    "'z file_platform \<Rightarrow> fd \<Rightarrow> int \<Rightarrow> 'z filestate_scheme \<Rightarrow>
     (int \<times> transfer option \<times> 'z filestate_scheme) option" where
  "fs_gets P f n s =
     (if fs_flags (fds s f) AND FS_BUFFERED \<noteq> 0 then do {
        (st, out, s) \<leftarrow> fs_read P f 4 s;
        (if st > 0 then do {
           l \<leftarrow> (case out of Some (Buffers l) \<Rightarrow> Some l | _ \<Rightarrow> None);
           (st, s) \<leftarrow> fd_get_lock (fs_base P) f s;
           ASSERT (st \<noteq> SUCCESS);
           (_, bytes, s) \<leftarrow> fs_buffer_list_pull (fs_base P) l True (word_of_int n) 0 s;
           s \<leftarrow> (if bl_total_length (blists s l) > 0
                then fs_buffer_add_list (fs_base P) f l FS_BUFFER_RX (ucast FS_BUFFER_HEAD) s
                else fs_buffer_add_list (fs_base P) f l FS_LIST_FREE (ucast FS_BUFFER_HEAD) s);
           s \<leftarrow> fd_release_lock (fs_base P) f s;
           Some (n, Some (Bytes bytes), s)
         }
         else Some (n, None, s))
      }
      else fs_read P f n s)"

partial_function (option) flush_rx_loop ::
    "'z file_platform \<Rightarrow> fd \<Rightarrow> 'z filestate_scheme \<Rightarrow> 'z filestate_scheme option" where
  "flush_rx_loop P f s = do {
     (buffer, s) \<leftarrow> fs_buffer_get_list (fs_base P) f FS_BUFFER_RX 0 s;
     (case buffer of
        Some l \<Rightarrow> do {
          s \<leftarrow> fs_buffer_add_list (fs_base P) f l FS_LIST_FREE (ucast FS_BUFFER_ACTIVE) s;
          flush_rx_loop P f s
        }
      | None \<Rightarrow> Some s) }"

declare flush_rx_loop.simps [code]

definition fs_flush_rx ::
    "'z file_platform \<Rightarrow> fd \<Rightarrow> 'z filestate_scheme \<Rightarrow> (int \<times> 'z filestate_scheme) option" where
  "fs_flush_rx P f s =
     (if fs_flags (fds s f) AND FS_BUFFERED \<noteq> 0 then do {
        (st, s) \<leftarrow> fd_get_lock (fs_base P) f s;
        ASSERT (st \<noteq> SUCCESS);
        s \<leftarrow> flush_rx_loop P f s;
        s \<leftarrow> fd_release_lock (fs_base P) f s;
        Some (0, s)
      }
      else Some (0, s))"

end
