(* ===== verification/Pipe.thy ===== *)
theory Pipe
  imports Files
begin

text \<open>
  Pipes: \<^verbatim>\<open>rtos/fs/pipe.c\<close>. A pipe is a ring of messages in a memory the creator gives: each message
  is a header of eight bytes (\<^verbatim>\<open>MSG_DATA\<close>: flags and size) and its data, which goes on at the start
  of the memory when it reaches the end; both are multiples of eight bytes apart.
\<close>

section \<open>Data\<close>

definition PIPE_MSG_VALID :: u32 where "PIPE_MSG_VALID = 0x1"
definition FS_NODE_DELETED :: int where "FS_NODE_DELETED = - 800"

text \<open>Little endian words in memory, and copying; an access outside the memory has no value.\<close>

definition get_bytes :: "u8 list \<Rightarrow> u32 \<Rightarrow> u32 \<Rightarrow> u8 list option" where
  "get_bytes mem off n = do {
     IN_RANGE (unat off + unat n \<le> length mem);
     Some (take (unat n) (drop (unat off) mem)) }"

definition put_bytes :: "u8 list \<Rightarrow> u32 \<Rightarrow> u8 list \<Rightarrow> u8 list option" where
  "put_bytes mem off bs = do {
     IN_RANGE (unat off + length bs \<le> length mem);
     Some (take (unat off) mem @ bs @ drop (unat off + length bs) mem) }"

definition load32 :: "u8 list \<Rightarrow> u32 \<Rightarrow> u32 option" where
  "load32 mem off = do { bs \<leftarrow> get_bytes mem off 4; Some (word32 bs) }"

definition store32 :: "u8 list \<Rightarrow> u32 \<Rightarrow> u32 \<Rightarrow> u8 list option" where
  "store32 mem off w = put_bytes mem off (bytes32 w)"

text \<open>
  A pipe beside its \<^verbatim>\<open>FS\<close>, which is the descriptor of the same number: its lock, and its memory with
  the offsets of the first message and of the free space.
\<close>

record PIPE =
  p_lock :: semid
  p_data :: "u8 list"
  p_size :: u32
  p_message :: u32
  p_free :: u32

record pipestate = filestate +
  pipes :: "fd \<Rightarrow> PIPE"
  pipe_list :: "fd sll_head"
  pipe_data_lock :: semid

definition upd_pipe :: "fd \<Rightarrow> (PIPE \<Rightarrow> PIPE) \<Rightarrow> 'z pipestate_scheme \<Rightarrow> 'z pipestate_scheme" where
  "upd_pipe f g s = s\<lparr>pipes := (pipes s)(f := g (pipes s f))\<rparr>"

type_synonym 'z pipe_platform = "'z pipestate_ext file_platform"

abbreviation pipe_kernel ::
    "'z pipe_platform \<Rightarrow> 'z pipestate_ext filestate_ext fsstate_ext platform" where
  "pipe_kernel P \<equiv> kernel_platform (fs_base P)"

section \<open>The messages\<close>

text \<open>Where the next message goes, after \<open>free\<close> or \<open>message\<close> was moved to \<open>pos\<close>.\<close>

definition roll_over :: "u32 \<Rightarrow> u32 \<Rightarrow> u32 option" where
  "roll_over sz pos =
     (if pos > sz then do { IN_RANGE (sz \<noteq> 0); Some (pos mod sz) }
      else Some (if pos + 8 > sz then 0 else pos))"

text \<open>
  The part of \<^verbatim>\<open>pipe_write\<close> that puts a message of \<open>n\<close> bytes at \<open>message\<close>: the memory after it, and the
  next free place.
\<close>

definition push_message ::
    "u32 \<Rightarrow> u8 list \<Rightarrow> u32 \<Rightarrow> u32 \<Rightarrow> u8 list \<Rightarrow> (u8 list \<times> u32) option" where
  "push_message sz mem message n data = do {
     mem \<leftarrow> store32 mem message 0;
     mem \<leftarrow> store32 mem (message + 4) n;
     let free = message + 8;
     let free = (if free = sz then 0 else free);
     let part_size = (if free + n > sz then sz - free else n);
     src \<leftarrow> get_bytes data 0 part_size;
     mem \<leftarrow> put_bytes mem free src;
     src \<leftarrow> get_bytes data part_size (n - part_size);
     mem \<leftarrow> put_bytes mem 0 src;
     free \<leftarrow> roll_over sz (free + ALLIGN_CEIL n);
     fl \<leftarrow> load32 mem message;
     mem \<leftarrow> store32 mem message (fl OR PIPE_MSG_VALID);
     Some (mem, free) }"

definition pipe_write ::
    "'z pipe_platform \<Rightarrow> fd \<Rightarrow> u8 list \<Rightarrow> int \<Rightarrow> 'z pipestate_scheme \<Rightarrow>
     (int \<times> 'z pipestate_scheme) option" where
  "pipe_write P f data nbytes s = do {
     let p = pipes s f;
     let n = (word_of_int nbytes :: u32);
     let required_space = ALLIGN_CEIL n + 8;
     fl \<leftarrow> load32 (p_data p) (p_message p);
     (if fl AND PIPE_MSG_VALID = 0 \<or>
         p_free p > p_message p \<and> p_free p + required_space < p_size p + p_message p \<or>
         p_free p < p_message p \<and> p_free p + required_space < p_message p then do {
        let message = p_free p;
        (mem, free) \<leftarrow> push_message (p_size p) (p_data p) message n data;
        let s = upd_pipe f (\<lambda>p. p\<lparr>p_data := mem, p_free := free\<rparr>) s;
        let p = pipes s f;
        fl \<leftarrow> load32 mem message;
        let s = (if fl AND PIPE_MSG_VALID \<noteq> 0 \<and>
              (p_free p > p_message p \<and> p_free p + 8 \<ge> p_size p + p_message p \<or>
               p_free p < p_message p \<and> p_free p + 8 \<ge> p_message p)
           then fd_space_consumed f s else s);
        s \<leftarrow> fd_data_available (fs_base P) f s;
        Some (nbytes, s)
      }
      else Some (0, s)) }"

text \<open>The part of \<^verbatim>\<open>pipe_read\<close> that copies a message out: its bytes, and where the next one begins.\<close>

definition pull_message :: "u32 \<Rightarrow> u8 list \<Rightarrow> u32 \<Rightarrow> u32 \<Rightarrow> (u8 list \<times> u32) option" where
  "pull_message sz mem message msg_size = do {
     let part_size = (if message + (8 + msg_size) > sz then sz - (message + 8) else msg_size);
     part1 \<leftarrow> get_bytes mem (message + 8) part_size;
     part2 \<leftarrow> get_bytes mem 0 (msg_size - part_size);
     msg_next \<leftarrow> roll_over sz (message + (8 + ALLIGN_CEIL msg_size));
     Some (part1 @ part2, msg_next) }"

text \<open>\<open>pipe_read\<close> returns the number of bytes and the bytes.\<close>

definition pipe_read ::
    "fd \<Rightarrow> int \<Rightarrow> 'z pipestate_scheme \<Rightarrow> (int \<times> u8 list \<times> 'z pipestate_scheme) option" where
  "pipe_read f sz s = do {
     let p = pipes s f;
     fl \<leftarrow> load32 (p_data p) (p_message p);
     (if fl AND PIPE_MSG_VALID \<noteq> 0 then do {
        msg_size \<leftarrow> load32 (p_data p) (p_message p + 4);
        (if (word_of_int sz :: u32) \<ge> msg_size then do {
           (out, msg_next) \<leftarrow> pull_message (p_size p) (p_data p) (p_message p) msg_size;
           s \<leftarrow> (if msg_next = p_free p then do {
                  mem \<leftarrow> store32 (p_data p) 0 0;
                  Some (fd_data_flushed f (upd_pipe f (\<lambda>p. p\<lparr>p_message := 0, p_free := 0, p_data := mem\<rparr>) s))
                }
                else Some (upd_pipe f (\<lambda>p. p\<lparr>p_message := msg_next\<rparr>) s));
           Some (sint msg_size, out, s)
         }
         else Some (0, [], s))
      }
      else Some (0, [], s)) }"

section \<open>Creating, destroying and opening\<close>

definition pipe_lock ::
    "'z pipe_platform \<Rightarrow> fd \<Rightarrow> u32 \<Rightarrow> 'z pipestate_scheme \<Rightarrow> (int \<times> 'z pipestate_scheme) option" where
  "pipe_lock P f tmo s = semaphore_obtain (pipe_kernel P) (p_lock (pipes s f)) tmo s"

definition pipe_unlock :: "'z pipe_platform \<Rightarrow> fd \<Rightarrow> 'z pipestate_scheme \<Rightarrow> 'z pipestate_scheme option" where
  "pipe_unlock P f s = semaphore_release (pipe_kernel P) (p_lock (pipes s f)) s"

text \<open>The functions of a pipe are fixed numbers.\<close>

definition pipe_read_ptr :: fptr where "pipe_read_ptr = 6"
definition pipe_write_ptr :: fptr where "pipe_write_ptr = 7"
definition pipe_lock_ptr :: fptr where "pipe_lock_ptr = 8"
definition pipe_unlock_ptr :: fptr where "pipe_unlock_ptr = 9"

definition pipe_fs :: "string \<Rightarrow> FS" where
  "pipe_fs name = \<lparr>fs_name = Some name, fs_open_fun = None, fs_close_fun = None, fs_ioctl_fun = None,
     fs_read_fun = Some pipe_read_ptr, fs_write_fun = Some pipe_write_ptr,
     fs_get_lock = Some pipe_lock_ptr, fs_release_lock = Some pipe_unlock_ptr, fs_buffer = None,
     fs_timeout = MAX_WAIT, fs_flags = FS_BLOCK OR FS_SPACE_AVAILABLE, fs_priority = 0\<rparr>"

definition pipe_create ::
    "'z pipe_platform \<Rightarrow> fd \<Rightarrow> string \<Rightarrow> u8 list \<Rightarrow> u32 \<Rightarrow> 'z pipestate_scheme \<Rightarrow>
     'z pipestate_scheme option" where
  "pipe_create P f name buffer sz s = do {
     (st, s) \<leftarrow> semaphore_obtain (pipe_kernel P) (pipe_data_lock s) MAX_WAIT s;
     ASSERT (st \<noteq> SUCCESS);
     (_, _, param) \<leftarrow> sll_search None (fs_sreach_node s) \<lparr>np_name = name, np_priv = None\<rparr>
       (fs_next s, pipe_list s);
     s \<leftarrow> (if np_priv param = None then do {
            mem \<leftarrow> store32 buffer 0 0;
            let s = s\<lparr>fs_next := (fs_next s)(f := None)\<rparr>;
            let s = upd_pipe f (\<lambda>p. p\<lparr>p_data := mem, p_size := sz, p_message := 0, p_free := 0\<rparr>) s;
            let s = upd_fd f (\<lambda>_. pipe_fs name) s;
            let s = fs_condition_init f s;
            let s = semaphore_create (p_lock (pipes s f)) 1 s;
            q \<leftarrow> sll_push (Some f) (fs_next s, pipe_list s);
            Some (s\<lparr>fs_next := fst q, pipe_list := snd q\<rparr>)
          }
          else Some s);
     semaphore_release (pipe_kernel P) (pipe_data_lock s) s }"

text \<open>
  \<^verbatim>\<open>pipe_destroy\<close> passes no parameter to \<^verbatim>\<open>fd_handle_criteria\<close>: every waiting task is resumed, and the
  callback is not asked.
\<close>

definition pipe_destroy :: "'z pipe_platform \<Rightarrow> fd \<Rightarrow> 'z pipestate_scheme \<Rightarrow> 'z pipestate_scheme option" where
  "pipe_destroy P f s = do {
     (st, s) \<leftarrow> semaphore_obtain (pipe_kernel P) (pipe_data_lock s) MAX_WAIT s;
     ASSERT (st \<noteq> SUCCESS);
     (st, s) \<leftarrow> semaphore_obtain (pipe_kernel P) (p_lock (pipes s f)) MAX_WAIT s;
     s \<leftarrow> (if st = SUCCESS then do {
            s \<leftarrow> resume_condition (pipe_kernel P) (Fs_condition f)
              (Some (\<lparr>do_resume = Some (fd_do_resume s), r_param = None, r_status = FS_NODE_DELETED\<rparr>)) True s;
            s \<leftarrow> semaphore_destroy (pipe_kernel P) (p_lock (pipes s f)) s;
            (r, q) \<leftarrow> sll_remove (Some f) (fs_next s, pipe_list s);
            ASSERT (r \<noteq> Some f);
            Some (s\<lparr>fs_next := fst q, pipe_list := snd q\<rparr>)
          }
          else Some s);
     semaphore_release (pipe_kernel P) (pipe_data_lock s) s }"

definition pipe_open ::
    "'z pipe_platform \<Rightarrow> string \<Rightarrow> u32 \<Rightarrow> 'z pipestate_scheme \<Rightarrow>
     (fd option \<times> 'z pipestate_scheme) option" where
  "pipe_open P name fl s = do {
     (st, s) \<leftarrow> semaphore_obtain (pipe_kernel P) (pipe_data_lock s) MAX_WAIT s;
     ASSERT (st \<noteq> SUCCESS);
     (_, _, param) \<leftarrow> sll_search None (fs_sreach_node s) \<lparr>np_name = name, np_priv = None\<rparr>
       (fs_next s, pipe_list s);
     s \<leftarrow> semaphore_release (pipe_kernel P) (pipe_data_lock s) s;
     (case np_priv param of
        None \<Rightarrow> Some (None, s)
      | Some f \<Rightarrow>
          (case fs_open_fun (fds s f) of
             None \<Rightarrow> Some (Some f, s)
           | Some g \<Rightarrow> drv_open P g f name fl s)) }"

end
