(* ===== verification/Align.thy ===== *)
theory Align
  imports Prelude
begin

text \<open>What the alignment macros of \<^verbatim>\<open>rtos/kernel/kernel.h\<close> compute, as natural numbers.\<close>

lemma unat_sum: "unat a + unat b < 2 ^ 32 \<Longrightarrow> unat (a + b) = unat a + unat b" for a b :: u32
  by (simp add: unat_word_ariths)

lemma unat_numeral_8: "unat (8 :: u32) = 8"
  by simp

lemma ceil8_step: "k mod 8 \<noteq> 0 \<Longrightarrow> 8 * ((k + 7) div 8) = k div 8 * 8 + 8" for k :: nat
proof -
  assume "k mod 8 \<noteq> 0"
  moreover have "k mod 8 < 8" by simp
  ultimately have "(k mod 8 + 7) div 8 = 1" by (intro div_nat_eqI) simp_all
  then have "(k + 7) div 8 = k div 8 + 1" using div_add1_eq [of k 7 8] by simp
  then show ?thesis by simp
qed

lemma and_not_7: "unat (n AND NOT 7) = unat n div 8 * 8" for n :: u32
proof -
  have "n AND NOT (mask k) = push_bit k (drop_bit k n)" for k
    by (rule bit_word_eqI) (auto simp: bit_simps)
  from this [of 3] have eq: "n AND NOT 7 = push_bit 3 (drop_bit 3 n)"
    by (simp add: mask_eq_exp_minus_1)
  have "unat n div 8 * 8 \<le> unat n" "unat n < 2 ^ 32" using unsigned_less [of n] by simp_all
  then have "unat n div 8 * 8 < 2 ^ 32" by linarith
  then show ?thesis
    unfolding eq push_bit_eq_mult drop_bit_eq_div by (simp add: unat_word_ariths unat_div)
qed

lemma mod_8_eq_0: "n mod 8 = 0 \<longleftrightarrow> unat n mod 8 = 0" for n :: u32
proof -
  have "unat (n mod 8) = unat n mod 8" by (simp add: unat_mod)
  then show ?thesis by (metis unat_eq_zero)
qed

lemma ALLIGN_FLOOR_unat: "unat (ALLIGN_FLOOR n) = unat n div 8 * 8"
proof (cases "unat n mod 8 = 0")
  case True
  then show ?thesis using mod_8_eq_0 [of n] by (auto simp: ALLIGN_FLOOR_def ALLIGN_FLOOR_N_def)
next
  case False
  then show ?thesis using mod_8_eq_0 [of n] and_not_7 [of n] by (simp add: ALLIGN_FLOOR_def ALLIGN_FLOOR_N_def)
qed

lemma ALLIGN_CEIL_unat:
  assumes "unat n + 8 < 2 ^ 32"
  shows "unat (ALLIGN_CEIL n) = 8 * ((unat n + 7) div 8)"
proof -
  note floor = and_not_7 [of n] and zero = mod_8_eq_0 [of n]
  show ?thesis
  proof (cases "unat n mod 8 = 0")
    case True
    then have "8 * ((unat n + 7) div 8) = unat n" by presburger
    moreover have "ALLIGN_CEIL n = n" using True zero by (simp add: ALLIGN_CEIL_def ALLIGN_CEIL_N_def)
    ultimately show ?thesis by simp
  next
    case False
    note eq = ceil8_step [OF False]
    have "ALLIGN_CEIL n = (n AND NOT 7) + 8"
      using False zero by (simp add: ALLIGN_CEIL_def ALLIGN_CEIL_N_def)
    moreover have "unat (n AND NOT 7) + unat (8 :: u32) < 2 ^ 32" using assms floor by simp
    ultimately show ?thesis using unat_sum [of "n AND NOT 7" 8] floor by (simp only: eq unat_numeral_8)
  qed
qed

end
