(* ===== verification/Ring.thy ===== *)
theory Ring
  imports Pipe Align
begin

text \<open>
  The memory of a pipe as a queue of messages: what a message looks like in the ring, which part
  of the ring is used, and that writing and reading a message are appending and removing one.
\<close>

section \<open>Bytes in memory\<close>

lemma get_bytes_ok:
  assumes "unat off + unat n \<le> length mem"
  shows "\<exists>bs. get_bytes mem off n = Some bs \<and> length bs = unat n \<and>
     (\<forall>i < unat n. bs ! i = mem ! (unat off + i))"
  using assms by (auto simp: get_bytes_def)

lemma put_bytes_ok:
  assumes "unat off + length bs \<le> length mem"
  shows "\<exists>mem'. put_bytes mem off bs = Some mem' \<and> length mem' = length mem \<and>
     (\<forall>j < length mem. mem' ! j =
        (if unat off \<le> j \<and> j < unat off + length bs then bs ! (j - unat off) else mem ! j))"
  using assms by (auto simp: put_bytes_def nth_append)

section \<open>Messages in the ring\<close>

lemma mod_mod_0: "n mod k = 0 \<Longrightarrow> a mod n mod k = a mod k" for a :: nat
  by (rule mod_mod_cancel) (simp add: mod_eq_0_iff_dvd)

lemma mod_0_add: "a mod k = 0 \<Longrightarrow> b mod k = 0 \<Longrightarrow> (a + b) mod k = 0" for a :: nat
  by (metis add_0 mod_add_left_eq)

definition ceil8 :: "nat \<Rightarrow> nat" where
  "ceil8 n = 8 * ((n + 7) div 8)"

lemma ceil8: "n \<le> ceil8 n" "ceil8 n mod 8 = 0" "ceil8 n \<le> n + 7"
  unfolding ceil8_def by presburger+

text \<open>The bytes of a message and the space it takes.\<close>

definition message_bytes :: "u8 list \<Rightarrow> u8 list" where
  "message_bytes m = bytes32 PIPE_MSG_VALID @ bytes32 (of_nat (length m)) @ m"

definition message_space :: "u8 list \<Rightarrow> nat" where
  "message_space m = 8 + ceil8 (length m)"

definition space_used :: "u8 list list \<Rightarrow> nat" where
  "space_used q = sum_list (map message_space q)"

lemma space_used_simps [simp]:
  "space_used [] = 0" "space_used (m # q) = message_space m + space_used q"
  "space_used (q @ q') = space_used q + space_used q'"
  by (simp_all add: space_used_def)

lemma message_space: "length (message_bytes m) \<le> message_space m" "message_space m mod 8 = 0"
  "8 \<le> message_space m"
  using ceil8 [of "length m"] unfolding message_bytes_def message_space_def by simp_all

lemma space_used_mod: "space_used q mod 8 = 0"
proof (induction q)
  case (Cons m q)
  then show ?case using message_space(2) [of m] by (simp) presburger
qed simp

text \<open>Bytes at a place in the ring, and messages one behind the other.\<close>

definition in_ring :: "nat \<Rightarrow> u8 list \<Rightarrow> nat \<Rightarrow> u8 list \<Rightarrow> bool" where
  "in_ring n mem pos bs \<longleftrightarrow> (\<forall>i < length bs. mem ! ((pos + i) mod n) = bs ! i)"

fun laid :: "nat \<Rightarrow> u8 list \<Rightarrow> nat \<Rightarrow> u8 list list \<Rightarrow> bool" where
  "laid n mem pos [] = True"
| "laid n mem pos (m # q) =
     (in_ring n mem pos (message_bytes m) \<and> laid n mem (pos + message_space m) q)"

lemma laid_append: "laid n mem pos (q @ q') = (laid n mem pos q \<and> laid n mem (pos + space_used q) q')"
  by (induction q arbitrary: pos) (auto simp: add.assoc)

lemma in_ring_mod: "in_ring n mem (pos mod n) bs = in_ring n mem pos bs"
  by (simp add: in_ring_def mod_add_left_eq)

lemma laid_mod: "laid n mem (pos mod n) q = laid n mem pos q"
proof (induction q arbitrary: pos)
  case (Cons m q)
  have "laid n mem (pos mod n + message_space m) q = laid n mem ((pos mod n + message_space m) mod n) q"
    by (rule Cons.IH [symmetric])
  also have "\<dots> = laid n mem (pos + message_space m) q"
    using Cons.IH [of "pos + message_space m"] by (simp add: mod_add_left_eq)
  finally show ?case by (simp add: in_ring_mod)
qed simp

lemma laid_cong:
  assumes "\<And>i. i < space_used q \<Longrightarrow> mem' ! ((pos + i) mod n) = mem ! ((pos + i) mod n)"
  shows "laid n mem' pos q = laid n mem pos q"
  using assms
proof (induction q arbitrary: pos)
  case (Cons m q)
  have "in_ring n mem' pos (message_bytes m) = in_ring n mem pos (message_bytes m)"
    using Cons.prems message_space(1) [of m] by (auto simp: in_ring_def)
  moreover have "laid n mem' (pos + message_space m) q = laid n mem (pos + message_space m) q"
  proof (rule Cons.IH)
    fix i assume "i < space_used q"
    then show "mem' ! ((pos + message_space m + i) mod n) = mem ! ((pos + message_space m + i) mod n)"
      using Cons.prems [of "message_space m + i"] by (simp add: add.assoc)
  qed
  ultimately show ?case by simp
qed simp

text \<open>Places less than one turn apart are different places.\<close>

lemma ring_apart:
  fixes n :: nat
  assumes "i < j" and "j < i + n"
  shows "(pos + i) mod n \<noteq> (pos + j) mod n"
proof
  assume "(pos + i) mod n = (pos + j) mod n"
  then have "n dvd (pos + j) - (pos + i)"
    using assms(1) by (metis add_le_cancel_left mod_eq_dvd_iff_nat nat_less_le)
  then show False using assms by (auto dest: dvd_imp_le)
qed

section \<open>Putting a message in\<close>

text \<open>Copying bytes into the ring in two parts.\<close>

lemma put_two_parts:
  assumes n: "length mem = unat sz" and free: "unat free \<le> unat sz" "unat free + unat n < 2 ^ 32"
    and len: "length data = unat n" "unat n \<le> unat sz"
    and part: "part = (if free + n > sz then sz - free else n)"
  shows "\<exists>a b mem1 mem2. get_bytes data 0 part = Some a \<and> put_bytes mem free a = Some mem1 \<and>
     get_bytes data part (n - part) = Some b \<and> put_bytes mem1 0 b = Some mem2 \<and>
     length mem2 = unat sz \<and> in_ring (unat sz) mem2 (unat free) data \<and>
     (\<forall>j < unat sz. (\<forall>i < unat n. j \<noteq> (unat free + i) mod unat sz) \<longrightarrow> mem2 ! j = mem ! j)"
proof -
  have le: "(free + n > sz) \<longleftrightarrow> unat sz < unat free + unat n"
    using unat_sum [OF free(2)] by (simp add: word_less_nat_alt)
  show ?thesis
  proof (cases "unat sz < unat free + unat n")
    case False
    then have part': "part = n" using part le by simp
    obtain a where a: "get_bytes data 0 part = Some a" "length a = unat n" "\<forall>i < unat n. a ! i = data ! i"
      using get_bytes_ok [of 0 n data] len part' by auto
    then have [simp]: "a = data" using len(1) by (simp add: nth_equalityI)
    obtain mem1 where m1: "put_bytes mem free data = Some mem1" "length mem1 = length mem"
       "\<forall>j < length mem. mem1 ! j =
          (if unat free \<le> j \<and> j < unat free + unat n then data ! (j - unat free) else mem ! j)"
      using put_bytes_ok [of free data mem] False n len by auto
    have "get_bytes data part (n - part) = Some []"
      using len by (simp add: part' get_bytes_def)
    moreover have "put_bytes mem1 0 [] = Some mem1" by (simp add: put_bytes_def)
    moreover have place: "(unat free + i) mod unat sz = unat free + i" if "i < unat n" for i
      using False that by simp
    have "in_ring (unat sz) mem1 (unat free) data"
      unfolding in_ring_def len(1) using place m1(3) n False by simp
    moreover have "mem1 ! j = mem ! j"
      if j: "j < unat sz" "\<forall>i < unat n. j \<noteq> (unat free + i) mod unat sz" for j
    proof -
      have "\<not> (unat free \<le> j \<and> j < unat free + unat n)"
      proof
        assume in_part: "unat free \<le> j \<and> j < unat free + unat n"
        then have "j - unat free < unat n" by linarith
        from j(2) [rule_format, OF this] show False using in_part j(1) by simp
      qed
      then show ?thesis using m1(3) n j(1) by auto
    qed
    ultimately show ?thesis using a(1) m1(1,2) n by auto
  next
    case True
    then have part': "part = sz - free" using part le by simp
    have p: "unat part = unat sz - unat free" "unat part \<le> unat n"
      using True free(1) unat_sub [of free sz] len(2) by (simp_all add: part' word_le_nat_alt)
    have r: "unat (n - part) = unat n - unat part"
      using p(2) unat_sub [of part n] by (simp add: word_le_nat_alt)
    obtain a where a: "get_bytes data 0 part = Some a" "length a = unat part"
       "\<forall>i < unat part. a ! i = data ! i"
      using get_bytes_ok [of 0 part data] len p(2) by auto
    obtain b where b: "get_bytes data part (n - part) = Some b" "length b = unat n - unat part"
       "\<forall>i < unat n - unat part. b ! i = data ! (unat part + i)"
      using get_bytes_ok [of part "n - part" data] len p(2) r by auto
    obtain mem1 where m1: "put_bytes mem free a = Some mem1" "length mem1 = length mem"
       "\<forall>j < length mem. mem1 ! j =
          (if unat free \<le> j \<and> j < unat free + unat part then a ! (j - unat free) else mem ! j)"
      using put_bytes_ok [of free a mem] a(2) p(1) n free(1) by auto
    have short: "unat n - unat part \<le> unat free" using p(1) len(2) by simp
    obtain mem2 where m2: "put_bytes mem1 0 b = Some mem2" "length mem2 = length mem"
       "\<forall>j < length mem. mem2 ! j = (if j < unat n - unat part then b ! j else mem1 ! j)"
      using put_bytes_ok [of 0 b mem1] b(2) m1(2) n short free(1) by auto
    have first: "(unat free + i) mod unat sz = unat free + i" if "i < unat part" for i
      using that p(1) by simp
    have second: "(unat free + i) mod unat sz = i - unat part" if "unat part \<le> i" "i < unat n" for i
    proof -
      have "(unat free + i) mod unat sz = (unat free + i - unat sz) mod unat sz"
        using that p(1) by (intro le_mod_geq) linarith
      also have "\<dots> = i - unat part" using that p(1) short free(1) len(2) by simp
      finally show ?thesis .
    qed
    have at: "mem2 ! ((unat free + i) mod unat sz) = data ! i" if "i < unat n" for i
    proof (cases "i < unat part")
      case True
      then have "unat free + i < unat sz" "\<not> unat free + i < unat n - unat part"
        using p(1) short by simp_all
      then show ?thesis using first [OF True] m1(3) m2(3) a(3) n True by simp
    next
      case False
      then have "i - unat part < unat n - unat part" "i - unat part < unat sz"
        using that len(2) by simp_all
      then show ?thesis using second [of i] m2(3) b(3) n False that by simp
    qed
    have out: "mem2 ! j = mem ! j"
      if j: "j < unat sz" "\<forall>i < unat n. j \<noteq> (unat free + i) mod unat sz" for j
    proof -
      have "\<not> j < unat n - unat part"
      proof
        assume in_part: "j < unat n - unat part"
        then have "unat part + j < unat n" by linarith
        from j(2) [rule_format, OF this] show False using second [of "unat part + j"] in_part by simp
      qed
      moreover have "\<not> (unat free \<le> j \<and> j < unat free + unat part)"
      proof
        assume in_part: "unat free \<le> j \<and> j < unat free + unat part"
        then have "j - unat free < unat n" using p(2) by linarith
        from j(2) [rule_format, OF this] show False using in_part j(1) by simp
      qed
      ultimately show ?thesis using m1(3) m2(3) n j(1) by auto
    qed
    show ?thesis using a(1) b(1) m1(1) m2(1,2) n len(1) at out by (auto simp: in_ring_def)
  qed
qed

lemma roll_over_ok:
  assumes "unat sz mod 8 = 0" "0 < unat sz" "unat sz < 2 ^ 30" and "unat pos mod 8 = 0"
  shows "\<exists>p. roll_over sz pos = Some p \<and> unat p = unat pos mod unat sz"
proof -
  have sum: "unat (pos + 8) = unat pos + 8" if "\<not> unat sz < unat pos"
    using that assms(3) by (intro unat_sum [of pos 8, simplified]) simp
  consider "unat sz < unat pos" | "unat pos = unat sz" | "unat pos < unat sz" by linarith
  then show ?thesis
  proof cases
    case 1
    then show ?thesis using assms(2) by (auto simp: roll_over_def word_less_nat_alt unat_mod)
  next
    case 2
    then show ?thesis using sum by (simp add: roll_over_def word_less_nat_alt)
  next
    case 3
    have "unat pos + 8 \<le> unat sz" using 3 assms(1,4) by presburger
    then show ?thesis using 3 sum by (simp add: roll_over_def word_less_nat_alt)
  qed
qed

lemma in_ring_append:
  "in_ring n mem pos (as @ bs) = (in_ring n mem pos as \<and> in_ring n mem (pos + length as) bs)"
proof -
  have "in_ring n mem pos (as @ bs) \<longleftrightarrow>
      (\<forall>i < length as. mem ! ((pos + i) mod n) = as ! i) \<and>
      (\<forall>i < length bs. mem ! ((pos + (length as + i)) mod n) = bs ! i)"
    unfolding in_ring_def
    by (auto simp: nth_append) (metis add.commute add_diff_inverse_nat less_diff_conv2 not_less)
  then show ?thesis by (simp add: in_ring_def add.assoc)
qed

text \<open>A place in the ring that is not wrapped is read and written as a word.\<close>

lemma load_in_ring:
  assumes "length mem = n" "unat p + 4 \<le> n" and "in_ring n mem (unat p) (bytes32 w)"
  shows "load32 mem p = Some w"
proof -
  obtain bs where bs: "get_bytes mem p 4 = Some bs" "length bs = 4" "\<forall>i < 4. bs ! i = mem ! (unat p + i)"
    using get_bytes_ok [of p 4 mem] assms(1,2) by auto
  have "bs ! i = bytes32 w ! i" if "i < 4" for i
    using bs(3) assms that by (simp add: in_ring_def)
  then have "bs = bytes32 w" using bs(2) by (intro nth_equalityI) simp_all
  then show ?thesis using bs(1) by (simp add: load32_def)
qed

lemma store_in_ring:
  assumes "length mem = n" "unat p + 4 \<le> n"
  shows "\<exists>mem'. store32 mem p w = Some mem' \<and> length mem' = n \<and> in_ring n mem' (unat p) (bytes32 w) \<and>
     (\<forall>j < n. j < unat p \<or> unat p + 4 \<le> j \<longrightarrow> mem' ! j = mem ! j)"
proof -
  obtain mem' where "put_bytes mem p (bytes32 w) = Some mem'" "length mem' = length mem"
     "\<forall>j < length mem. mem' ! j = (if unat p \<le> j \<and> j < unat p + 4 then bytes32 w ! (j - unat p) else mem ! j)"
    using put_bytes_ok [of p "bytes32 w" mem] assms by auto
  then show ?thesis using assms
    by (intro exI [of _ mem']) (auto simp: store32_def in_ring_def)
qed

lemma in_ring_cong:
  assumes "in_ring n mem pos bs" and "\<And>i. i < length bs \<Longrightarrow> mem' ! ((pos + i) mod n) = mem ! ((pos + i) mod n)"
  shows "in_ring n mem' pos bs"
  using assms by (simp add: in_ring_def)

text \<open>
  The size of a ring: a number of eight bytes, below a quarter of the range of its type, and a
  message that fits in it.
\<close>

definition fits :: "nat \<Rightarrow> u8 list \<Rightarrow> bool" where
  "fits n m \<longleftrightarrow> n mod 8 = 0 \<and> n < 2 ^ 30 \<and> message_space m \<le> n"

lemma fitsD:
  assumes "fits n m"
  shows "n mod 8 = 0" "0 < n" "n < 2 ^ 30" "message_space m \<le> n" "8 + length m \<le> n" "ceil8 (length m) \<le> n - 8"
proof -
  have "8 + length m \<le> message_space m" using message_space(1) [of m] by (simp add: message_bytes_def)
  then show "n mod 8 = 0" "0 < n" "n < 2 ^ 30" "message_space m \<le> n" "8 + length m \<le> n"
      "ceil8 (length m) \<le> n - 8"
    using assms unfolding fits_def message_space_def by linarith+
qed

lemma ceil8_unat: "unat n + 8 < 2 ^ 32 \<Longrightarrow> unat (ALLIGN_CEIL n) = ceil8 (unat n)"
  by (simp add: ceil8_def ALLIGN_CEIL_unat)

lemma push_message_ok:
  assumes mem: "length mem = unat sz" and fits: "fits (unat sz) m" and n: "unat n = length m"
    and p: "unat p mod 8 = 0" "unat p < unat sz"
  shows "\<exists>mem' p'. push_message sz mem p n m = Some (mem', p') \<and> length mem' = unat sz \<and>
     unat p' = (unat p + message_space m) mod unat sz \<and>
     in_ring (unat sz) mem' (unat p) (message_bytes m) \<and>
     (\<forall>j < unat sz. (\<forall>i < 8 + length m. j \<noteq> (unat p + i) mod unat sz) \<longrightarrow> mem' ! j = mem ! j)"
proof -
  note F = fitsD [OF fits]
  have p8: "unat p + 8 \<le> unat sz" using p F(1) by presburger
  have p4: "unat (p + 4) = unat p + 4" using unat_sum [of p 4] p8 F(3) by simp
  obtain mem1 where m1: "store32 mem p 0 = Some mem1" "length mem1 = unat sz"
     "in_ring (unat sz) mem1 (unat p) (bytes32 0)"
     "\<forall>j < unat sz. j < unat p \<or> unat p + 4 \<le> j \<longrightarrow> mem1 ! j = mem ! j"
    using store_in_ring [OF mem, of p 0] p8 by auto
  obtain mem2 where m2: "store32 mem1 (p + 4) n = Some mem2" "length mem2 = unat sz"
     "in_ring (unat sz) mem2 (unat p + 4) (bytes32 n)"
     "\<forall>j < unat sz. j < unat p + 4 \<or> unat p + 8 \<le> j \<longrightarrow> mem2 ! j = mem1 ! j"
    using store_in_ring [OF m1(2), of "p + 4" n] p8 p4 by (auto simp: add.assoc)
  define free where "free = (if p + 8 = sz then 0 else p + 8)"
  have free: "unat free = (unat p + 8) mod unat sz" "unat free \<le> unat sz"
  proof -
    have sum: "unat (p + 8) = unat p + 8" using unat_sum [of p 8] p8 F(3) by simp
    have "p + 8 = sz \<longleftrightarrow> unat p + 8 = unat sz" using sum by (metis word_unat_eq_iff)
    then show "unat free = (unat p + 8) mod unat sz" "unat free \<le> unat sz"
      using p8 sum by (auto simp: free_def)
  qed
  define part where "part = (if free + n > sz then sz - free else n)"
  have "unat free + unat n < 2 ^ 32" using free(2) F(3,5) n by simp
  from put_two_parts [OF m2(2) free(2) this n [symmetric] _ part_def] F(5) n
  obtain a b mem3 mem4 where m4: "get_bytes m 0 part = Some a" "put_bytes mem2 free a = Some mem3"
     "get_bytes m part (n - part) = Some b" "put_bytes mem3 0 b = Some mem4" "length mem4 = unat sz"
     "in_ring (unat sz) mem4 (unat free) m"
     "\<forall>j < unat sz. (\<forall>i < unat n. j \<noteq> (unat free + i) mod unat sz) \<longrightarrow> mem4 ! j = mem2 ! j"
    by auto
  have place: "(unat free + i) mod unat sz = (unat p + (8 + i)) mod unat sz" for i
    unfolding free(1) by (simp add: mod_add_left_eq add.assoc)
  have header: "mem4 ! (unat p + i) = mem2 ! (unat p + i)" if "i < 8" for i
  proof -
    have "(unat p + i) mod unat sz \<noteq> (unat p + (8 + k)) mod unat sz" if "k < unat n" for k
      using ring_apart [of i "8 + k" "unat sz" "unat p"] that \<open>i < 8\<close> F(5) n by simp
    moreover have "unat p + i < unat sz" using p8 that by simp
    ultimately show ?thesis using m4(7) place by simp
  qed
  have "in_ring (unat sz) mem4 (unat p) (bytes32 0)"
    unfolding in_ring_def
  proof (intro allI impI)
    fix i assume "i < length (bytes32 0)"
    then have i: "i < 4" "unat p + i < unat sz" using p8 by simp_all
    then show "mem4 ! ((unat p + i) mod unat sz) = bytes32 0 ! i"
      using header [of i] m2(4) m1(3) [unfolded in_ring_def, rule_format, of i] by simp
  qed
  then have fl: "load32 mem4 p = Some 0" using m4(5) p8 by (intro load_in_ring) simp_all
  obtain mem5 where m5: "store32 mem4 p PIPE_MSG_VALID = Some mem5" "length mem5 = unat sz"
     "in_ring (unat sz) mem5 (unat p) (bytes32 PIPE_MSG_VALID)"
     "\<forall>j < unat sz. j < unat p \<or> unat p + 4 \<le> j \<longrightarrow> mem5 ! j = mem4 ! j"
    using store_in_ring [OF m4(5), of p PIPE_MSG_VALID] p8 by auto
  have ceil: "unat (ALLIGN_CEIL n) = ceil8 (length m)" using ceil8_unat [of n] F(3,5) n by simp
  have next_pos: "unat (free + ALLIGN_CEIL n) = unat free + ceil8 (length m)"
    using unat_sum [of free "ALLIGN_CEIL n"] ceil free(2) F(3,6) by simp
  have "unat free mod 8 = 0" unfolding free(1) mod_mod_0 [OF F(1)] using p(1) by simp
  then have "unat (free + ALLIGN_CEIL n) mod 8 = 0"
    unfolding next_pos by (rule mod_0_add [OF _ ceil8(2)])
  from roll_over_ok [OF F(1-3) this] obtain p' where p': "roll_over sz (free + ALLIGN_CEIL n) = Some p'"
     "unat p' = (unat p + message_space m) mod unat sz"
    using next_pos place [of "ceil8 (length m)"] by (auto simp: message_space_def)
  have run: "push_message sz mem p n m = Some (mem5, p')"
    unfolding push_message_def Let_def free_def [symmetric] part_def [symmetric]
    using m1(1) m2(1) m4(1-4) fl m5(1) p'(1) by simp
  have rest: "mem5 ! ((unat p + i) mod unat sz) = mem4 ! ((unat p + i) mod unat sz)"
    if "4 \<le> i" "i < 8 + length m" for i
  proof -
    have "(unat p + k) mod unat sz \<noteq> (unat p + i) mod unat sz" if "k < 4" for k
      using ring_apart [of k i "unat sz" "unat p"] that \<open>4 \<le> i\<close> \<open>i < 8 + length m\<close> F(5) by simp
    moreover have "(unat p + k) mod unat sz = unat p + k" if "k < 4" for k using that p8 by simp
    ultimately have "(unat p + i) mod unat sz \<noteq> unat p + k" if "k < 4" for k using that by metis
    then have "(unat p + i) mod unat sz < unat p \<or> unat p + 4 \<le> (unat p + i) mod unat sz"
      by (metis add_diff_inverse_nat nat_add_left_cancel_less not_le)
    moreover have "(unat p + i) mod unat sz < unat sz" using F(2) by simp
    ultimately show ?thesis using m5(4) by blast
  qed
  have size: "of_nat (length m) = n" by (simp add: n [symmetric])
  have "in_ring (unat sz) mem5 (unat p + 4) (bytes32 n)"
  proof (rule in_ring_cong [OF m2(3)])
    fix i assume "i < length (bytes32 n)"
    then show "mem5 ! ((unat p + 4 + i) mod unat sz) = mem2 ! ((unat p + 4 + i) mod unat sz)"
      using rest [of "4 + i"] header [of "4 + i"] p8 by (simp add: add.assoc)
  qed
  moreover have "in_ring (unat sz) mem5 (unat p + 8) m"
  proof (rule in_ring_cong)
    show "in_ring (unat sz) mem4 (unat p + 8) m" using m4(6) free(1) by (simp add: in_ring_mod)
    fix i assume "i < length m"
    then show "mem5 ! ((unat p + 8 + i) mod unat sz) = mem4 ! ((unat p + 8 + i) mod unat sz)"
      using rest [of "8 + i"] by (simp add: add.assoc)
  qed
  ultimately have "in_ring (unat sz) mem5 (unat p) (message_bytes m)"
    using m5(3) by (simp add: message_bytes_def in_ring_append size add.assoc)
  moreover have "mem5 ! j = mem ! j"
    if j: "j < unat sz" "\<forall>i < 8 + length m. j \<noteq> (unat p + i) mod unat sz" for j
  proof -
    have "j \<noteq> unat p + i" if "i < 8" for i using j(2) [rule_format, of i] that p8 by simp
    then have "j < unat p \<or> unat p + 8 \<le> j"
      by (metis add_diff_inverse_nat nat_add_left_cancel_less not_le)
    moreover have "\<forall>i < unat n. j \<noteq> (unat free + i) mod unat sz"
      using j(2) place n by simp
    ultimately show ?thesis using m5(4) m4(7) m2(4) m1(4) j(1) by auto
  qed
  ultimately show ?thesis using run m5(2) p'(2) by blast
qed

section \<open>Taking a message out\<close>

lemma get_two_parts:
  assumes mem: "length mem = unat sz" and free: "unat free \<le> unat sz" "unat free + unat n < 2 ^ 32"
    and m: "in_ring (unat sz) mem (unat free) m" "unat n = length m" "unat n \<le> unat sz"
    and part: "part = (if free + n > sz then sz - free else n)"
  shows "\<exists>a b. get_bytes mem free part = Some a \<and> get_bytes mem 0 (n - part) = Some b \<and> a @ b = m"
proof -
  have le: "(free + n > sz) \<longleftrightarrow> unat sz < unat free + unat n"
    using unat_sum [OF free(2)] by (simp add: word_less_nat_alt)
  define k where "k = (if unat sz < unat free + unat n then unat sz - unat free else length m)"
  have k: "unat part = k" "k \<le> length m" "unat free + k \<le> unat sz"
    using part le m(2,3) free(1) unat_sub [of free sz] by (auto simp: k_def word_le_nat_alt)
  have r: "unat (n - part) = length m - k" "length m - k \<le> unat free"
    using k m(2,3) unat_sub [of part n] by (auto simp: word_le_nat_alt k_def)
  obtain a where a: "get_bytes mem free part = Some a" "length a = k" "\<forall>i < k. a ! i = mem ! (unat free + i)"
    using get_bytes_ok [of free part mem] k mem by auto
  obtain b where b: "get_bytes mem 0 (n - part) = Some b" "length b = length m - k"
      "\<forall>i < length m - k. b ! i = mem ! i"
    using get_bytes_ok [of 0 "n - part" mem] r mem free(1) by auto
  have at: "(a @ b) ! i = m ! i" if i: "i < length m" for i
  proof (cases "i < k")
    case True
    then have "(unat free + i) mod unat sz = unat free + i" using k(3) by simp
    then show ?thesis using a(2,3) True m(1) i by (simp add: nth_append in_ring_def) metis
  next
    case False
    then have wrap: "k = unat sz - unat free" "unat sz < unat free + unat n"
      using i by (auto simp: k_def split: if_splits)
    have "(unat free + i) mod unat sz = (unat free + i - unat sz) mod unat sz"
      using wrap False by (intro le_mod_geq) linarith
    also have "\<dots> = i - k" using wrap False i m(2,3) free(1) by simp
    finally have "(unat free + i) mod unat sz = i - k" .
    moreover have "(a @ b) ! i = mem ! (i - k)" using a(2) b(2,3) False i by (simp add: nth_append)
    ultimately show ?thesis using m(1) [unfolded in_ring_def, rule_format, OF i] by simp
  qed
  have "a @ b = m"
  proof (rule nth_equalityI)
    show "length (a @ b) = length m" using a(2) b(2) k(2) by simp
    then show "i < length (a @ b) \<Longrightarrow> (a @ b) ! i = m ! i" for i using at by simp
  qed
  then show ?thesis using a(1) b(1) by blast
qed

lemma pull_message_ok:
  assumes mem: "length mem = unat sz" and fits: "fits (unat sz) m" and n: "unat n = length m"
    and p: "unat p mod 8 = 0" "unat p < unat sz" and m: "in_ring (unat sz) mem (unat p) (message_bytes m)"
  shows "load32 mem p = Some PIPE_MSG_VALID" and "load32 mem (p + 4) = Some n"
    and "\<exists>p'. pull_message sz mem p n = Some (m, p') \<and> unat p' = (unat p + message_space m) mod unat sz"
proof -
  note F = fitsD [OF fits]
  have p8: "unat p + 8 \<le> unat sz" using p F(1) by presburger
  have p4: "unat (p + 4) = unat p + 4" using unat_sum [of p 4] p8 F(3) by simp
  have size: "of_nat (length m) = n" by (simp add: n [symmetric])
  have parts: "in_ring (unat sz) mem (unat p) (bytes32 PIPE_MSG_VALID)"
    "in_ring (unat sz) mem (unat p + 4) (bytes32 n)" "in_ring (unat sz) mem (unat p + 8) m"
    using m by (simp_all add: message_bytes_def in_ring_append size add.assoc)
  show "load32 mem p = Some PIPE_MSG_VALID" using parts(1) p8 mem by (intro load_in_ring) simp_all
  show "load32 mem (p + 4) = Some n" using parts(2) p8 p4 mem by (intro load_in_ring) simp_all
  have free: "unat (p + 8) = unat p + 8" using unat_sum [of p 8] p8 F(3) by simp
  define part where "part = (if p + 8 + n > sz then sz - (p + 8) else n)"
  have le: "unat (p + 8) \<le> unat sz" "unat (p + 8) + unat n < 2 ^ 32" "unat n \<le> unat sz"
    using free p8 F(3,5) n by simp_all
  have "in_ring (unat sz) mem (unat (p + 8)) m" using parts(3) free by simp
  from get_two_parts [OF mem le(1,2) this n le(3) part_def]
  obtain a b where ab: "get_bytes mem (p + 8) part = Some a" "get_bytes mem 0 (n - part) = Some b" "a @ b = m"
    by blast
  have ceil: "unat (ALLIGN_CEIL n) = ceil8 (length m)" using ceil8_unat [of n] F(3,5) n by simp
  have pos: "unat (p + 8 + ALLIGN_CEIL n) = unat p + message_space m"
    using unat_sum [of "p + 8" "ALLIGN_CEIL n"] ceil free F(3,6) p8 by (simp add: message_space_def)
  then have "unat (p + 8 + ALLIGN_CEIL n) mod 8 = 0"
    using mod_0_add [OF p(1) message_space(2)] by simp
  from roll_over_ok [OF F(1-3) this] obtain p' where "roll_over sz (p + 8 + ALLIGN_CEIL n) = Some p'"
     "unat p' = (unat p + message_space m) mod unat sz"
    using pos by auto
  then show "\<exists>p'. pull_message sz mem p n = Some (m, p') \<and> unat p' = (unat p + message_space m) mod unat sz"
    unfolding pull_message_def Let_def add.assoc [symmetric] part_def [symmetric]
    using ab by simp
qed

section \<open>A pipe as a queue\<close>

definition pipe_holds :: "PIPE \<Rightarrow> u8 list list \<Rightarrow> bool" where
  "pipe_holds p q \<longleftrightarrow>
     (let n = unat (p_size p) in
      length (p_data p) = n \<and> n mod 8 = 0 \<and> 0 < n \<and> n < 2 ^ 30 \<and>
      unat (p_message p) mod 8 = 0 \<and> unat (p_message p) < n \<and>
      unat (p_free p) = (unat (p_message p) + space_used q) mod n \<and> space_used q \<le> n \<and>
      laid n (p_data p) (unat (p_message p)) q \<and>
      (q = [] \<longrightarrow> p_message p = 0 \<and> load32 (p_data p) 0 = Some 0))"

lemma pipe_holdsD:
  assumes "pipe_holds p q"
  shows "length (p_data p) = unat (p_size p)" "unat (p_size p) mod 8 = 0" "0 < unat (p_size p)"
    "unat (p_size p) < 2 ^ 30" "unat (p_message p) mod 8 = 0" "unat (p_message p) < unat (p_size p)"
    "unat (p_free p) = (unat (p_message p) + space_used q) mod unat (p_size p)"
    "space_used q \<le> unat (p_size p)" "laid (unat (p_size p)) (p_data p) (unat (p_message p)) q"
    "q = [] \<Longrightarrow> p_message p = 0" "q = [] \<Longrightarrow> load32 (p_data p) 0 = Some 0"
  using assms by (simp_all add: pipe_holds_def Let_def)

lemma pipe_free:
  assumes "pipe_holds p q"
  shows "unat (p_free p) mod 8 = 0" "unat (p_free p) < unat (p_size p)"
proof -
  note D = pipe_holdsD [OF assms]
  have "(unat (p_message p) + space_used q) mod 8 = 0" using D(5) space_used_mod by (rule mod_0_add)
  then show "unat (p_free p) mod 8 = 0" unfolding D(7) mod_mod_0 [OF D(2)] .
  show "unat (p_free p) < unat (p_size p)" using D(3) unfolding D(7) by simp
qed

text \<open>The space of a message beside those the pipe holds.\<close>

definition has_room :: "PIPE \<Rightarrow> u8 list list \<Rightarrow> u8 list \<Rightarrow> bool" where
  "has_room p q m \<longleftrightarrow> q = [] \<or> space_used q + message_space m < unat (p_size p)"

lemma first_message:
  assumes "pipe_holds p (m # q)"
  shows "fits (unat (p_size p)) m"
    and "in_ring (unat (p_size p)) (p_data p) (unat (p_message p)) (message_bytes m)"
  using pipe_holdsD [OF assms] by (simp_all add: fits_def)

lemma length_fits: "fits n m \<Longrightarrow> length m < 2 ^ 30"
  using fitsD(3,5) [of n m] by simp

lemma unat_length: "length m < 2 ^ 30 \<Longrightarrow> unat (of_nat (length m) :: u32) = length m"
  by (simp add: unat_of_nat)

text \<open>The test of \<open>pipe_write\<close> asks for the room.\<close>

lemma write_guard:
  assumes h: "pipe_holds p q" and len: "length m < 2 ^ 30"
  shows "\<exists>fl. load32 (p_data p) (p_message p) = Some fl \<and>
     (fl AND PIPE_MSG_VALID = 0 \<or>
      p_free p > p_message p \<and>
        p_free p + (ALLIGN_CEIL (of_nat (length m)) + 8) < p_size p + p_message p \<or>
      p_free p < p_message p \<and> p_free p + (ALLIGN_CEIL (of_nat (length m)) + 8) < p_message p
        \<longleftrightarrow> has_room p q m)"
proof (cases q)
  case Nil
  then show ?thesis using pipe_holdsD(10,11) [OF h] by (simp add: has_room_def)
next
  case (Cons m1 q1)
  note D = pipe_holdsD [OF h] and first = first_message [of p m1 q1]
  note R = pipe_free [OF h]
  define used where "used = space_used q"
  have used: "8 \<le> used" "used \<le> unat (p_size p)"
    using Cons message_space(3) [of m1] D(8) by (simp_all add: used_def)
  let ?req = "ALLIGN_CEIL (of_nat (length m)) + 8 :: u32"
  have ceil: "unat (ALLIGN_CEIL (of_nat (length m)) :: u32) = ceil8 (length m)"
    using ceil8_unat [of "of_nat (length m)"] unat_length [OF len] len by simp
  have req: "unat ?req = message_space m" "message_space m < 2 ^ 30 + 16"
    using unat_sum [of "ALLIGN_CEIL (of_nat (length m))" 8] ceil ceil8(3) [of "length m"] len
    by (simp_all add: message_space_def)
  have sums: "unat (p_free p + ?req) = unat (p_free p) + message_space m"
    "unat (p_size p + p_message p) = unat (p_size p) + unat (p_message p)"
    using unat_sum [of "p_free p" ?req] unat_sum [of "p_size p" "p_message p"] req R(2) D(4,6) by simp_all
  have free: "unat (p_free p) = (if unat (p_message p) + used < unat (p_size p)
      then unat (p_message p) + used else unat (p_message p) + used - unat (p_size p))"
    using D(6) used unfolding D(7) used_def [symmetric] by (simp add: le_mod_geq)
  have "load32 (p_data p) (p_message p) = Some PIPE_MSG_VALID"
    using pull_message_ok(1) [OF D(1) first(1) _ D(5,6) first(2)] h Cons
      unat_length [OF length_fits] first(1) by blast
  moreover have "(p_free p > p_message p \<and> p_free p + ?req < p_size p + p_message p \<or>
      p_free p < p_message p \<and> p_free p + ?req < p_message p) \<longleftrightarrow> has_room p q m"
    unfolding word_less_nat_alt sums has_room_def used_def [symmetric]
    using free used D(6) Cons by (auto split: if_splits)
  ultimately show ?thesis by (intro exI [of _ PIPE_MSG_VALID]) (simp add: PIPE_MSG_VALID_def)
qed

text \<open>From \<open>s\<close> to \<open>s'\<close> only pipe \<open>f\<close> and the flags of its descriptor have changed.\<close>

definition only_pipe :: "fd \<Rightarrow> 'z pipestate_scheme \<Rightarrow> 'z pipestate_scheme \<Rightarrow> bool" where
  "only_pipe f s s' \<longleftrightarrow>
     (\<exists>p fl. s' = s\<lparr>fds := (fds s)(f := (fds s f)\<lparr>fs_flags := fl\<rparr>), pipes := (pipes s)(f := p)\<rparr>)"

lemma only_pipeD:
  assumes "only_pipe f s s'"
  shows "kstate.truncate s' = kstate.truncate s" "g \<noteq> f \<Longrightarrow> pipes s' g = pipes s g"
    "g \<noteq> f \<Longrightarrow> fds s' g = fds s g" "calm g s' = calm g s"
proof -
  show eq: "kstate.truncate s' = kstate.truncate s"
    using assms by (auto simp: only_pipe_def kstate.defs)
  show "calm g s' = calm g s" by (rule calm_cong [OF eq])
qed (use assms in \<open>auto simp: only_pipe_def\<close>)

text \<open>A message that has room is appended, one that has none is not.\<close>

lemma pipe_write_ok:
  assumes h: "pipe_holds (pipes s f) q" and calm: "calm f s"
    and m: "length m < 2 ^ 30" "q = [] \<Longrightarrow> fits (unat (p_size (pipes s f))) m"
  shows "\<exists>s'. pipe_write P f m (int (length m)) s =
       Some (if has_room (pipes s f) q m then int (length m) else 0, s') \<and>
     pipe_holds (pipes s' f) (if has_room (pipes s f) q m then q @ [m] else q) \<and>
     p_size (pipes s' f) = p_size (pipes s f) \<and>
     (if has_room (pipes s f) q m
      then only_pipe f s s' \<and> fs_flags (fds s' f) AND FS_DATA_AVAILABLE \<noteq> 0 else s' = s)"
proof (cases "has_room (pipes s f) q m")
  case False
  then show ?thesis using write_guard [OF h m(1)] h
    by (auto simp: pipe_write_def Let_def)
next
  case True
  let ?p = "pipes s f" and ?n = "unat (p_size (pipes s f))"
  note D = pipe_holdsD [OF h] and R = pipe_free [OF h]
  have used: "space_used q + message_space m \<le> ?n"
    using True m(2) by (auto simp: has_room_def fits_def)
  have fits: "fits ?n m" using used D(2,4) by (simp add: fits_def)
  have n: "unat (of_nat (length m) :: u32) = length m" by (rule unat_length [OF m(1)])
  obtain mem' p' where push: "push_message (p_size ?p) (p_data ?p) (p_free ?p) (of_nat (length m)) m =
       Some (mem', p')" "length mem' = ?n" "unat p' = (unat (p_free ?p) + message_space m) mod ?n"
     "in_ring ?n mem' (unat (p_free ?p)) (message_bytes m)"
     "\<forall>j < ?n. (\<forall>i < 8 + length m. j \<noteq> (unat (p_free ?p) + i) mod ?n) \<longrightarrow> mem' ! j = p_data ?p ! j"
    using push_message_ok [OF D(1) fits n R] by blast
  note valid = pull_message_ok(1) [OF push(2) fits n R push(4)]
  have place: "(unat (p_free ?p) + i) mod ?n = (unat (p_message ?p) + (space_used q + i)) mod ?n" for i
    unfolding D(7) by (simp add: mod_add_left_eq add.assoc)
  have "laid ?n mem' (unat (p_message ?p)) q"
  proof -
    have "laid ?n mem' (unat (p_message ?p)) q = laid ?n (p_data ?p) (unat (p_message ?p)) q"
    proof (rule laid_cong)
      fix i assume i: "i < space_used q"
      have "(unat (p_message ?p) + i) mod ?n \<noteq> (unat (p_free ?p) + k) mod ?n" if "k < 8 + length m" for k
      proof -
        have "space_used q + k < i + ?n"
          using that used message_space(1) [of m] by (simp add: message_bytes_def)
        then show ?thesis
          unfolding place using ring_apart [of i "space_used q + k" ?n] i by simp
      qed
      then show "mem' ! ((unat (p_message ?p) + i) mod ?n) = p_data ?p ! ((unat (p_message ?p) + i) mod ?n)"
        using push(5) D(3) by simp
    qed
    then show "laid ?n mem' (unat (p_message ?p)) q" using D(9) by simp
  qed
  moreover have "in_ring ?n mem' (unat (p_message ?p) + space_used q) (message_bytes m)"
    using push(4) unfolding D(7) by (simp add: in_ring_mod)
  moreover have "unat p' = (unat (p_message ?p) + space_used (q @ [m])) mod ?n"
    using push(3) place [of "message_space m"] by simp
  ultimately have holds: "pipe_holds (?p\<lparr>p_data := mem', p_free := p'\<rparr>) (q @ [m])"
    using D push(2) used by (simp add: pipe_holds_def Let_def laid_append)
  define s1 where "s1 = upd_pipe f (\<lambda>p. p\<lparr>p_data := mem', p_free := p'\<rparr>) s"
  obtain fl where fl: "load32 (p_data ?p) (p_message ?p) = Some fl"
    and room: "fl AND PIPE_MSG_VALID = 0 \<or>
      p_free ?p > p_message ?p \<and>
        p_free ?p + (ALLIGN_CEIL (of_nat (length m)) + 8) < p_size ?p + p_message ?p \<or>
      p_free ?p < p_message ?p \<and> p_free ?p + (ALLIGN_CEIL (of_nat (length m)) + 8) < p_message ?p"
    using write_guard [OF h m(1)] True by blast
  define b where "b \<longleftrightarrow> PIPE_MSG_VALID AND PIPE_MSG_VALID \<noteq> 0 \<and>
      (p_free (pipes s1 f) > p_message (pipes s1 f) \<and>
         p_free (pipes s1 f) + 8 \<ge> p_size (pipes s1 f) + p_message (pipes s1 f) \<or>
       p_free (pipes s1 f) < p_message (pipes s1 f) \<and> p_free (pipes s1 f) + 8 \<ge> p_message (pipes s1 f))"
  have run: "pipe_write P f m (int (length m)) s = do {
      s \<leftarrow> fd_data_available (fs_base P) f (if b then fd_space_consumed f s1 else s1);
      Some (int (length m), s) }"
    unfolding pipe_write_def Let_def of_int_of_nat_eq fl Option.bind.simps if_P [OF room] push(1) prod.case
      s1_def [symmetric] valid b_def ..
  let ?s2 = "if b then fd_space_consumed f s1 else s1"
  have s2: "kstate.truncate ?s2 = kstate.truncate s"
    by (simp add: s1_def upd_pipe_def fd_space_consumed_def upd_fd_def kstate.defs)
  have "fd_data_available (fs_base P) f ?s2 = Some (set_flags f FS_DATA_AVAILABLE ?s2)"
    using calm calm_cong [OF s2] by (intro fd_data_available_calm) simp
  moreover have "only_pipe f s (set_flags f FS_DATA_AVAILABLE ?s2)"
    unfolding only_pipe_def
    by (rule exI [of _ "?p\<lparr>p_data := mem', p_free := p'\<rparr>"],
        rule exI [of _ "fs_flags (fds (set_flags f FS_DATA_AVAILABLE ?s2) f)"])
      (simp add: s1_def upd_pipe_def fd_space_consumed_def set_flags_def upd_fd_def)
  moreover have "pipes (set_flags f FS_DATA_AVAILABLE ?s2) f = ?p\<lparr>p_data := mem', p_free := p'\<rparr>"
    by (simp add: s1_def upd_pipe_def fd_space_consumed_def set_flags_def upd_fd_def)
  moreover have "fs_flags (fds (set_flags f FS_DATA_AVAILABLE ?s2) f) AND FS_DATA_AVAILABLE \<noteq> 0"
    by (simp add: set_flags_def upd_fd_def word_bw_assocs FS_DATA_AVAILABLE_def bit.conj_disj_distrib2)
  ultimately show ?thesis using True run holds by simp
qed

lemma laid_first:
  assumes "pipe_holds p (m # q)"
  shows "unat (p_message p) + message_space m \<le> 2 * unat (p_size p)"
    and "laid (unat (p_size p)) (p_data p) ((unat (p_message p) + message_space m) mod unat (p_size p)) q"
  using pipe_holdsD [OF assms] by (simp_all add: laid_mod)

text \<open>The first message is taken out if the reader has the space for it.\<close>

lemma pipe_read_ok:
  assumes h: "pipe_holds (pipes s f) (m # q)" and n: "int (length m) \<le> n" "n < 2 ^ 31"
  shows "\<exists>s'. pipe_read f n s = Some (int (length m), m, s') \<and> pipe_holds (pipes s' f) q \<and>
     p_size (pipes s' f) = p_size (pipes s f) \<and> only_pipe f s s' \<and>
     fs_flags (fds s' f) = (if q = [] then fs_flags (fds s f) AND NOT FS_DATA_AVAILABLE
       else fs_flags (fds s f))"
proof -
  let ?p = "pipes s f" and ?n = "unat (p_size (pipes s f))"
  note D = pipe_holdsD [OF h] and first = first_message [OF h]
  have size: "unat (of_nat (length m) :: u32) = length m" by (rule unat_length [OF length_fits [OF first(1)]])
  note pull = pull_message_ok [OF D(1) first(1) size D(5,6) first(2)]
  obtain p' where p': "pull_message (p_size ?p) (p_data ?p) (p_message ?p) (of_nat (length m)) = Some (m, p')"
     "unat p' = (unat (p_message ?p) + message_space m) mod ?n"
    using pull(3) by blast
  have small: "length m < 2 ^ 30" by (rule length_fits [OF first(1)])
  have enough: "of_nat (length m) \<le> (word_of_int n :: u32)"
  proof -
    have "0 \<le> n" using n(1) by linarith
    then obtain k where k: "n = int k" using nonneg_int_cases by blast
    then have "unat (word_of_int n :: u32) = nat n" using n(2) by (simp add: unat_of_nat)
    then show ?thesis using size n(1) by (simp add: word_le_nat_alt)
  qed
  have sint: "sint (of_nat (length m) :: u32) = int (length m)"
    using small sint32_of_int [of "int (length m)"] by simp
  have valid: "PIPE_MSG_VALID AND PIPE_MSG_VALID \<noteq> 0" by (simp add: PIPE_MSG_VALID_def)
  have last: "p' = p_free ?p \<longleftrightarrow> q = []"
  proof
    assume "q = []"
    then show "p' = p_free ?p" using p'(2) D(7) by (simp add: word_unat_eq_iff)
  next
    assume "p' = p_free ?p"
    then have "(unat (p_message ?p) + message_space m) mod ?n =
        (unat (p_message ?p) + (message_space m + space_used q)) mod ?n"
      using p'(2) D(7) by simp
    then have "\<not> (0 < space_used q \<and> space_used q < ?n)"
      using ring_apart [of "message_space m" "message_space m + space_used q" ?n "unat (p_message ?p)"] by auto
    moreover have "space_used q < ?n" using D(8) message_space(3) [of m] by simp
    ultimately have "space_used q = 0" by simp
    then show "q = []" using message_space(3) by (cases q) (auto, metis add_gr_0 less_le_trans not_gr_zero zero_less_numeral)
  qed
  show ?thesis
  proof (cases "q = []")
    case True
    have four: "unat (0 :: u32) + 4 \<le> ?n" using fitsD(5) [OF first(1)] by simp
    obtain mem where mem: "store32 (p_data ?p) 0 0 = Some mem" "length mem = ?n" "in_ring ?n mem 0 (bytes32 0)"
      using store_in_ring [OF D(1) four, of 0] by auto
    have "load32 mem 0 = Some 0"
      using load_in_ring [OF mem(2) four] mem(3) by simp
    then have "pipe_holds (?p\<lparr>p_message := 0, p_free := 0, p_data := mem\<rparr>) q"
      using True D(2-4) mem(2) by (simp add: pipe_holds_def)
    moreover have "pipe_read f n s = Some (int (length m), m,
        fd_data_flushed f (upd_pipe f (\<lambda>p. p\<lparr>p_message := 0, p_free := 0, p_data := mem\<rparr>) s))"
      using pull(1,2) p'(1) enough sint valid last True mem(1) by (simp add: pipe_read_def Let_def)
    moreover have "only_pipe f s
        (fd_data_flushed f (upd_pipe f (\<lambda>p. p\<lparr>p_message := 0, p_free := 0, p_data := mem\<rparr>) s))"
      unfolding only_pipe_def
      by (rule exI [of _ "?p\<lparr>p_message := 0, p_free := 0, p_data := mem\<rparr>"],
          rule exI [of _ "fs_flags (fds s f) AND NOT FS_DATA_AVAILABLE"])
        (simp add: fd_data_flushed_def upd_pipe_def upd_fd_def)
    ultimately show ?thesis using True by (simp add: fd_data_flushed_def upd_pipe_def upd_fd_def)
  next
    case False
    have "pipe_holds (?p\<lparr>p_message := p'\<rparr>) q"
      using D laid_first(2) [OF h] p'(2) False mod_mod_0 [OF D(2)] mod_0_add [OF D(5) message_space(2) [of m]]
      by (simp add: pipe_holds_def Let_def mod_add_left_eq add.assoc)
    moreover have "pipe_read f n s = Some (int (length m), m, upd_pipe f (\<lambda>p. p\<lparr>p_message := p'\<rparr>) s)"
      using pull(1,2) p'(1) enough sint valid last False by (simp add: pipe_read_def Let_def)
    moreover have "only_pipe f s (upd_pipe f (\<lambda>p. p\<lparr>p_message := p'\<rparr>) s)"
      unfolding only_pipe_def
      by (rule exI [of _ "?p\<lparr>p_message := p'\<rparr>"], rule exI [of _ "fs_flags (fds s f)"])
        (simp add: upd_pipe_def)
    ultimately show ?thesis using False by (simp add: upd_pipe_def)
  qed
qed

text \<open>Nothing happens when the pipe is empty or the reader has no space for the first message.\<close>

lemma pipe_read_none:
  assumes h: "pipe_holds (pipes s f) q" and n: "0 \<le> n" "n < 2 ^ 31"
    and none: "\<And>m q'. q = m # q' \<Longrightarrow> n < int (length m)"
  shows "pipe_read f n s = Some (0, [], s)"
proof (cases q)
  case Nil
  then show ?thesis
    using pipe_holdsD(10,11) [OF h] by (simp add: pipe_read_def Let_def)
next
  case (Cons m q')
  let ?p = "pipes s f"
  have h': "pipe_holds ?p (m # q')" using h Cons by simp
  note D = pipe_holdsD [OF h'] and first = first_message [OF h']
  have size: "unat (of_nat (length m) :: u32) = length m" by (rule unat_length [OF length_fits [OF first(1)]])
  note pull = pull_message_ok [OF D(1) first(1) size D(5,6) first(2)]
  obtain k where k: "n = int k" using n(1) nonneg_int_cases by blast
  then have "unat (word_of_int n :: u32) = k" using n(2) by (simp add: unat_of_nat)
  then have "\<not> of_nat (length m) \<le> (word_of_int n :: u32)"
    using size none [OF Cons] k by (simp add: word_le_nat_alt)
  moreover have "PIPE_MSG_VALID AND PIPE_MSG_VALID \<noteq> 0" by (simp add: PIPE_MSG_VALID_def)
  ultimately show ?thesis using pull(1,2) by (simp add: pipe_read_def Let_def)
qed

end
