(* ===== verification/PipeProps.thy ===== *)
theory PipeProps
  imports Ring FsProps
begin

text \<open>
  The properties of pipes (\<^verbatim>\<open>rtos/fs/pipe.c\<close>): a pipe is a bounded queue of messages, which its
  users may rely on; and what happens at its limits.
\<close>

section \<open>Runs of calls\<close>

text \<open>Calls one after the other, with their results.\<close>

fun run_calls :: "('c \<Rightarrow> 's \<Rightarrow> ('r \<times> 's) option) \<Rightarrow> 'c list \<Rightarrow> 's \<Rightarrow> ('r list \<times> 's) option" where
  "run_calls step [] s = Some ([], s)"
| "run_calls step (c # cs) s = do {
     (r, s) \<leftarrow> step c s;
     (rs, s) \<leftarrow> run_calls step cs s;
     Some (r # rs, s) }"

fun run_spec :: "('c \<Rightarrow> 'q \<Rightarrow> 'r \<times> 'q) \<Rightarrow> 'c list \<Rightarrow> 'q \<Rightarrow> 'r list \<times> 'q" where
  "run_spec astep [] q = ([], q)"
| "run_spec astep (c # cs) q =
     (let (r, q) = astep c q; (rs, q) = run_spec astep cs q in (r # rs, q))"

text \<open>
  An object whose calls do what a specification says, on a state that \<open>holds\<close> a value of the
  specification: every run of admissible calls then gives the results of the specification.
\<close>

locale call_refinement =
  fixes holds :: "'s \<Rightarrow> 'q \<Rightarrow> bool"
    and admissible :: "'c \<Rightarrow> bool"
    and step :: "'c \<Rightarrow> 's \<Rightarrow> ('r \<times> 's) option"
    and astep :: "'c \<Rightarrow> 'q \<Rightarrow> 'r \<times> 'q"
  assumes step_refines: "holds s q \<Longrightarrow> admissible c \<Longrightarrow>
    \<exists>s'. step c s = Some (fst (astep c q), s') \<and> holds s' (snd (astep c q))"
begin

lemma run_refines:
  assumes "holds s q" and "\<And>c. c \<in> set cs \<Longrightarrow> admissible c"
  shows "\<exists>s'. run_calls step cs s = Some (fst (run_spec astep cs q), s') \<and>
    holds s' (snd (run_spec astep cs q))"
  using assms
proof (induction cs arbitrary: s q)
  case (Cons c cs)
  obtain s1 where s1: "step c s = Some (fst (astep c q), s1)" "holds s1 (snd (astep c q))"
    using step_refines [OF Cons.prems(1), of c] Cons.prems(2) by auto
  obtain s2 where "run_calls step cs s1 = Some (fst (run_spec astep cs (snd (astep c q))), s2)"
      "holds s2 (snd (run_spec astep cs (snd (astep c q))))"
    using Cons.IH [OF s1(2)] Cons.prems(2) by auto
  with s1(1) show ?case by (auto simp: case_prod_beta Let_def)
qed simp

end

section \<open>Pipes are bounded queues of messages\<close>

text \<open>The calls of the users of a pipe, and what they return: the number of bytes, and the bytes.\<close>

datatype pipe_call = Write "u8 list" | Read int

definition pipe_step ::
    "'z pipe_platform \<Rightarrow> fd \<Rightarrow> pipe_call \<Rightarrow> 'z pipestate_scheme \<Rightarrow>
     ((int \<times> u8 list) \<times> 'z pipestate_scheme) option" where
  "pipe_step P f c s = (case c of
     Write m \<Rightarrow> do { (n, s) \<leftarrow> pipe_write P f m (int (length m)) s; Some ((n, []), s) }
   | Read n \<Rightarrow> do { (k, m, s) \<leftarrow> pipe_read f n s; Some ((k, m), s) })"

text \<open>
  The same calls on the messages of a pipe of \<open>n\<close> bytes, first in, first out: a message is put
  behind the others if it leaves some space, and a reader takes the first one if it is not too
  long for it.
\<close>

fun queue_step :: "nat \<Rightarrow> pipe_call \<Rightarrow> u8 list list \<Rightarrow> (int \<times> u8 list) \<times> u8 list list" where
  "queue_step n (Write m) q =
     (if q = [] \<or> space_used q + message_space m < n then ((int (length m), []), q @ [m])
      else ((0, []), q))"
| "queue_step n (Read k) [] = ((0, []), [])"
| "queue_step n (Read k) (m # q) =
     (if int (length m) \<le> k then ((int (length m), m), q) else ((0, []), m # q))"

text \<open>A pipe of \<open>n\<close> bytes for which nobody waits; messages that fit it, and sizes of readers.\<close>

definition pipe_state_holds :: "fd \<Rightarrow> nat \<Rightarrow> 'z pipestate_scheme \<Rightarrow> u8 list list \<Rightarrow> bool" where
  "pipe_state_holds f n s q \<longleftrightarrow> pipe_holds (pipes s f) q \<and> unat (p_size (pipes s f)) = n \<and> calm f s"

fun pipe_admissible :: "nat \<Rightarrow> pipe_call \<Rightarrow> bool" where
  "pipe_admissible n (Write m) \<longleftrightarrow> fits n m"
| "pipe_admissible n (Read k) \<longleftrightarrow> 0 \<le> k \<and> k < 2 ^ 31"

interpretation pq: call_refinement "pipe_state_holds f n" "pipe_admissible n" "pipe_step P f"
  "queue_step n"
proof
  fix s :: "'a pipestate_scheme" and q c
  assume h: "pipe_state_holds f n s q" and ok: "pipe_admissible n c"
  have p: "pipe_holds (pipes s f) q" "unat (p_size (pipes s f)) = n" "calm f s"
    using h by (simp_all add: pipe_state_holds_def)
  show "\<exists>s'. pipe_step P f c s = Some (fst (queue_step n c q), s') \<and>
      pipe_state_holds f n s' (snd (queue_step n c q))"
  proof (cases c)
    case (Write m)
    have "length m < 2 ^ 30" using ok Write length_fits by auto
    with pipe_write_ok [OF p(1,3), of m P] ok Write p obtain s' where
      s': "pipe_write P f m (int (length m)) s = Some (if has_room (pipes s f) q m then int (length m) else 0, s')"
      "pipe_holds (pipes s' f) (if has_room (pipes s f) q m then q @ [m] else q)"
      "p_size (pipes s' f) = p_size (pipes s f)"
      "if has_room (pipes s f) q m then only_pipe f s s' else s' = s"
      by (auto split: if_splits)
    then have "calm f s'" using p(3) only_pipeD(4) by (auto split: if_splits)
    with s' Write p(2) show ?thesis by (auto simp: pipe_step_def pipe_state_holds_def has_room_def)
  next
    case (Read k)
    show ?thesis
    proof (cases "\<exists>m q'. q = m # q' \<and> int (length m) \<le> k")
      case True
      then obtain m q' where q: "q = m # q'" "int (length m) \<le> k" by blast
      obtain s' where "pipe_read f k s = Some (int (length m), m, s')" "pipe_holds (pipes s' f) q'"
        "p_size (pipes s' f) = p_size (pipes s f)" "only_pipe f s s'"
        using pipe_read_ok [of s f m q' k] p(1) q ok Read by auto
      then show ?thesis using Read q p only_pipeD(4) by (auto simp: pipe_step_def pipe_state_holds_def)
    next
      case False
      then have "pipe_read f k s = Some (0, [], s)"
        using pipe_read_none [OF p(1), of k] ok Read by (auto simp: not_le)
      then show ?thesis using Read False h by (cases q) (auto simp: pipe_step_def)
    qed
  qed
qed

section \<open>An example\<close>

text \<open>Pipe 3 has 32 bytes; its memory holds two messages of three and one bytes.\<close>

definition pipe_memory :: "u8 list" where
  "pipe_memory = [1, 0, 0, 0, 3, 0, 0, 0, 10, 11, 12, 0, 0, 0, 0, 0,
     1, 0, 0, 0, 1, 0, 0, 0, 20, 0, 0, 0, 0, 0, 0, 0]"

definition pipe_example :: "PIPE \<Rightarrow> pipestate" where
  "pipe_example p = filestate.extend
     (fsstate.extend ex_state (filestate.fields (\<lambda>_. None) \<lparr>head = None, tail = None\<rparr> 0))
     (pipestate.fields (\<lambda>_. p) \<lparr>head = None, tail = None\<rparr> 1)"

definition pipe_full :: PIPE where
  "pipe_full = \<lparr>p_lock = 2, p_data = pipe_memory, p_size = 32, p_message = 0, p_free = 0\<rparr>"

definition pipe_empty :: PIPE where
  "pipe_empty = \<lparr>p_lock = 2, p_data = replicate 32 0, p_size = 32, p_message = 0, p_free = 0\<rparr>"

lemma pipe_example_sel [simp]: "pipes (pipe_example p) f = p"
  by (simp add: pipe_example_def filestate.defs pipestate.defs)

lemma pipe_example_calm: "calm f (pipe_example p)"
proof -
  have "kstate.truncate (pipe_example p) = kstate.truncate ex_state"
    by (simp add: pipe_example_def kstate.defs fsstate.defs filestate.defs)
  then show ?thesis using calm_cong ex_calm by blast
qed

definition pipe_drivers :: "unit pipe_platform" where
  "pipe_drivers = \<lparr>fs_base = \<lparr>kernel_platform = \<lparr>env = (\<lambda>_ s. Some s), cb_do_suspend = (\<lambda>_ _ _ _. False),
       cb_lock = (\<lambda>_ _ s. Some s), cb_unlock = (\<lambda>_ _ s. Some s), null_byte = 0\<rparr>,
       drv_get_lock = (\<lambda>_ _ _ s. Some (SUCCESS, s)), drv_release_lock = (\<lambda>_ _ s. Some s),
       return_buffer = (\<lambda>_ _ _ s. Some (False, s)), net_condition_tcb = 9\<rparr>,
     drv_open = (\<lambda>_ f _ _ s. Some (Some f, s)), drv_close = (\<lambda>_ _ s. Some s),
     drv_read = (\<lambda>_ f n s. do { (n, m, s) \<leftarrow> pipe_read f n s; Some (n, Bytes m, s) }),
     drv_write = (\<lambda>_ _ _ n s. Some (n, s)), drv_ioctl = (\<lambda>_ _ _ _ s. Some (SUCCESS, s))\<rparr>"

lemma in_ring_list: "in_ring n mem pos bs = list_all (\<lambda>i. mem ! ((pos + i) mod n) = bs ! i) [0..<length bs]"
  by (auto simp: in_ring_def list_all_iff)

lemma pipe_full_holds: "pipe_holds pipe_full [[10, 11, 12], [20]]"
  by (simp add: pipe_holds_def pipe_full_def pipe_memory_def message_space_def ceil8_def in_ring_list
    message_bytes_def PIPE_MSG_VALID_def bytes32_def upt_rec)

lemma load_zeros: "load32 (replicate k 0) 0 = (if 4 \<le> k then Some 0 else None)"
proof -
  have "take 4 (replicate k (0 :: u8)) = [0, 0, 0, 0]" if "4 \<le> k"
    using that by (simp add: min_def eval_nat_numeral)
  then show ?thesis by (auto simp: load32_def get_bytes_def word32_def)
qed

lemma pipe_empty_holds: "pipe_holds pipe_empty []"
  by (simp add: pipe_holds_def pipe_empty_def load_zeros)

section \<open>Properties\<close>

text \<open>A message written to a pipe nobody waits for is appended behind the messages the pipe holds,
  and announced to readers, if it leaves some space; otherwise nothing is written, nothing changes
  and the number of bytes is zero. Nothing but this pipe changes. The first message of an empty
  pipe is taken without asking for space, so it has to fit.\<close>

theorem pipe_write_appends:
  assumes "pipe_holds (pipes s f) q" and "calm f s" and "length m < 2 ^ 30"
    and "q = [] \<Longrightarrow> fits (unat (p_size (pipes s f))) m"
  shows "\<exists>s'. pipe_write P f m (int (length m)) s =
       Some (if has_room (pipes s f) q m then int (length m) else 0, s') \<and>
     pipe_holds (pipes s' f) (if has_room (pipes s f) q m then q @ [m] else q) \<and>
     (if has_room (pipes s f) q m
      then only_pipe f s s' \<and> fs_flags (fds s' f) AND FS_DATA_AVAILABLE \<noteq> 0 else s' = s)"
  using pipe_write_ok [OF assms, of P] by blast

theorem pipe_write_appends_witness:
  "\<exists>s'. pipe_write pipe_drivers 3 [1, 2, 3, 4, 5] 5 (pipe_example pipe_empty) = Some (5, s') \<and>
     pipe_holds (pipes s' 3) [[1, 2, 3, 4, 5]]"
proof -
  have "pipe_holds (pipes (pipe_example pipe_empty) 3) []" by (simp add: pipe_empty_holds)
  moreover have "fits 32 [1, 2, 3, 4, 5 :: u8]" by (simp add: fits_def message_space_def ceil8_def)
  ultimately show ?thesis
    using pipe_write_appends [OF _ pipe_example_calm, of pipe_empty 3 "[]" "[1, 2, 3, 4, 5]" pipe_drivers]
    by (simp add: has_room_def pipe_empty_def) blast
qed

text \<open>A reader with enough space gets exactly the first message of a pipe, which the pipe then
  no longer holds; when the last one is taken the descriptor no longer reports data.\<close>

theorem pipe_read_takes_first:
  assumes "pipe_holds (pipes s f) (m # q)" and "int (length m) \<le> n" "n < 2 ^ 31"
  shows "\<exists>s'. pipe_read f n s = Some (int (length m), m, s') \<and> pipe_holds (pipes s' f) q \<and>
     only_pipe f s s' \<and>
     fs_flags (fds s' f) = (if q = [] then fs_flags (fds s f) AND NOT FS_DATA_AVAILABLE
       else fs_flags (fds s f))"
  using pipe_read_ok [OF assms] by blast

theorem pipe_read_takes_first_witness:
  "\<exists>s'. pipe_read 3 64 (pipe_example pipe_full) = Some (3, [10, 11, 12], s') \<and> pipe_holds (pipes s' 3) [[20]]"
  using pipe_read_takes_first [of "pipe_example pipe_full" 3 "[10, 11, 12]" "[[20]]" 64]
  by (simp add: pipe_full_holds) blast


text \<open>In a pipe of 48 bytes the last message written is split by the end of the memory.\<close>

definition pipe_last :: PIPE where
  "pipe_last = \<lparr>p_lock = 2, p_data = [1, 0, 0, 0, 1, 0, 0, 0, 7, 0, 0, 0, 0, 0, 0, 0] @ replicate 32 0,
     p_size = 48, p_message = 0, p_free = 16\<rparr>"

lemma pipe_last_holds: "pipe_holds pipe_last [[7]]"
  by (simp add: pipe_holds_def pipe_last_def message_space_def ceil8_def in_ring_list
    message_bytes_def PIPE_MSG_VALID_def bytes32_def upt_rec)

definition example_calls :: "pipe_call list" where
  "example_calls = [Write [1, 2, 3], Write [4], Read 2, Write [5, 6, 7, 8, 9, 10, 11, 12, 13, 14],
     Read 2, Read 3, Read 16]"


text \<open>The two copies of \<open>pipe_write\<close> when the first message is as long as the pipe or longer: the
  second one fills the start of the memory with the end of the data, the header included.\<close>

lemma push_first_long:
  assumes mem: "length mem = unat sz" and sz: "8 < unat sz"
    and m: "unat sz \<le> length m" "length m < 2 ^ 30"
  shows "if 2 * unat sz - 8 < length m then push_message sz mem 0 (of_nat (length m)) m = None
    else \<exists>mem' p. push_message sz mem 0 (of_nat (length m)) m = Some (mem', p) \<and> length mem' = unat sz \<and>
      (\<forall>j. 4 \<le> j \<longrightarrow> j < 8 \<longrightarrow> mem' ! j = m ! (unat sz - 8 + j))"
proof -
  define part where "part = sz - 8"
  have part: "unat part = unat sz - 8" using sz unat_sub [of 8 sz] by (simp add: part_def word_le_nat_alt)
  have n: "unat (of_nat (length m) :: u32) = length m" by (rule unat_length [OF m(2)])
  have split: "8 + of_nat (length m) > sz" "(8 :: u32) \<noteq> sz"
    using sz m n unat_sum [of 8 "of_nat (length m)"] by (auto simp: word_less_nat_alt)
  have rest: "unat (of_nat (length m) - part) = length m - (unat sz - 8)"
    using n part m(1) unat_sub [of part "of_nat (length m)"] by (simp add: word_le_nat_alt)
  define a where "a = take (unat sz - 8) m"
  define b where "b = drop (unat sz - 8) m"
  have ab: "get_bytes m 0 part = Some a" "get_bytes m part (of_nat (length m) - part) = Some b"
    "length a = unat sz - 8" "length b = length m - (unat sz - 8)"
    "\<And>j. j < length b \<Longrightarrow> b ! j = m ! (unat sz - 8 + j)"
    using part rest m(1) by (simp_all add: get_bytes_def a_def b_def)
  obtain mem1 where mem1: "put_bytes mem 0 (bytes32 0) = Some mem1" "length mem1 = unat sz"
    using put_bytes_ok [of 0 "bytes32 0" mem] mem sz by auto
  obtain mem2 where mem2: "put_bytes mem1 4 (bytes32 (of_nat (length m))) = Some mem2" "length mem2 = unat sz"
    using put_bytes_ok [of 4 "bytes32 (of_nat (length m))" mem1] mem1 sz by auto
  obtain mem3 where mem3: "put_bytes mem2 8 a = Some mem3" "length mem3 = unat sz"
    using put_bytes_ok [of 8 a mem2] mem2 sz ab(3) by auto
  have run: "push_message sz mem 0 (of_nat (length m)) m = do {
      mem \<leftarrow> put_bytes mem3 0 b;
      free \<leftarrow> roll_over sz (8 + ALLIGN_CEIL (of_nat (length m)));
      fl \<leftarrow> load32 mem 0;
      mem \<leftarrow> store32 mem 0 (fl OR PIPE_MSG_VALID);
      Some (mem, free) }"
    using split ab(1,2) mem1 mem2 mem3 by (simp add: push_message_def Let_def store32_def part_def)
  show ?thesis
  proof (cases "2 * unat sz - 8 < length m")
    case True
    then have "put_bytes mem3 0 b = None" using mem3(2) ab(4) sz by (simp add: put_bytes_def)
    with True show ?thesis by (simp add: run)
  next
    case False
    then have fit: "unat 0 + length b \<le> length mem3" using mem3(2) ab(4) sz by simp
    obtain mem4 where mem4: "put_bytes mem3 0 b = Some mem4" "length mem4 = unat sz"
      "\<forall>j < length b. mem4 ! j = b ! j"
      using put_bytes_ok [OF fit] mem3(2) fit by auto
    have "sz \<noteq> 0" using sz by auto
    then obtain p where p: "roll_over sz (8 + ALLIGN_CEIL (of_nat (length m))) = Some p"
      by (cases "8 + ALLIGN_CEIL (of_nat (length m)) > sz") (simp_all add: roll_over_def)
    obtain fl where fl: "load32 mem4 0 = Some fl"
      using get_bytes_ok [of 0 4 mem4] mem4(2) sz by (auto simp: load32_def)
    obtain mem5 where mem5: "store32 mem4 0 (fl OR PIPE_MSG_VALID) = Some mem5" "length mem5 = unat sz"
      "\<forall>j < unat sz. 4 \<le> j \<longrightarrow> mem5 ! j = mem4 ! j"
      using put_bytes_ok [of 0 "bytes32 (fl OR PIPE_MSG_VALID)" mem4] mem4(2) sz
      by (auto simp: store32_def)
    have "mem5 ! j = m ! (unat sz - 8 + j)" if "4 \<le> j" "j < 8" for j
      using that mem5(3) mem4(3) ab(4,5) m(1) sz by simp
    with False mem5(1,2) p fl mem4(1) show ?thesis by (simp add: run)
  qed
qed

text \<open>C21. The first message of an empty pipe is not checked against the size. One that is longer
  than what is behind and before the header together is written beyond the end of the pipe's memory.
  One that is not, but at least as long as the pipe, is reported as written, and lies over its own
  header: the size of the message is then four bytes of its data.\<close>

theorem pipe_first_message_overflows:
  assumes "pipe_holds (pipes s f) []" and "calm f s" and "8 < unat (p_size (pipes s f))"
    and "unat (p_size (pipes s f)) \<le> length m" "length m < 2 ^ 30"
  shows "if 2 * unat (p_size (pipes s f)) - 8 < length m
    then pipe_write P f m (int (length m)) s = None
    else \<exists>s'. pipe_write P f m (int (length m)) s = Some (int (length m), s') \<and>
      load32 (p_data (pipes s' f)) 4 = Some (word32 (take 4 (drop (unat (p_size (pipes s f)) - 4) m)))"
proof -
  let ?p = "pipes s f" and ?n = "unat (p_size (pipes s f))"
  note D = pipe_holdsD [OF assms(1)]
  have p: "p_message ?p = 0" "p_free ?p = 0" "load32 (p_data ?p) 0 = Some 0"
    using D(7,10,11) by (simp_all add: unat_eq_zero)
  note push = push_first_long [OF D(1) assms(3-5)]
  show ?thesis
  proof (cases "2 * ?n - 8 < length m")
    case True
    then show ?thesis using push p by (simp add: pipe_write_def Let_def)
  next
    case False
    then obtain mem' p' where mem': "push_message (p_size ?p) (p_data ?p) (p_free ?p) (of_nat (length m)) m = Some (mem', p')"
      "length mem' = ?n" "\<forall>j. 4 \<le> j \<longrightarrow> j < 8 \<longrightarrow> mem' ! j = m ! (?n - 8 + j)"
      using push p(2) by auto
    obtain fl where fl: "load32 mem' (p_free ?p) = Some fl"
      using get_bytes_ok [of 0 4 mem'] mem'(2) assms(3) p(2) by (auto simp: load32_def)
    have first: "load32 (p_data ?p) (p_message ?p) = Some 0" using p by simp
    have room: "(0 :: u32) AND PIPE_MSG_VALID = 0 \<or>
        p_free ?p > p_message ?p \<and>
          p_free ?p + (ALLIGN_CEIL (of_nat (length m)) + 8) < p_size ?p + p_message ?p \<or>
        p_free ?p < p_message ?p \<and> p_free ?p + (ALLIGN_CEIL (of_nat (length m)) + 8) < p_message ?p"
      by simp
    define s1 where "s1 = upd_pipe f (\<lambda>p. p\<lparr>p_data := mem', p_free := p'\<rparr>) s"
    define b where "b \<longleftrightarrow> fl AND PIPE_MSG_VALID \<noteq> 0 \<and>
        (p_free (pipes s1 f) > p_message (pipes s1 f) \<and>
           p_free (pipes s1 f) + 8 \<ge> p_size (pipes s1 f) + p_message (pipes s1 f) \<or>
         p_free (pipes s1 f) < p_message (pipes s1 f) \<and> p_free (pipes s1 f) + 8 \<ge> p_message (pipes s1 f))"
    define s2 where "s2 = (if b then fd_space_consumed f s1 else s1)"
    have run: "pipe_write P f m (int (length m)) s =
        do { s \<leftarrow> fd_data_available (fs_base P) f s2; Some (int (length m), s) }"
      unfolding pipe_write_def Let_def of_int_of_nat_eq first Option.bind.simps if_P [OF room] mem'(1)
        prod.case fl s2_def s1_def [symmetric] b_def ..
    have s2: "s2 = s1 \<or> s2 = fd_space_consumed f s1" by (simp add: s2_def)
    have tr: "kstate.truncate s2 = kstate.truncate s"
      using s2 by (auto simp: s1_def upd_pipe_def fd_space_consumed_def upd_fd_def kstate.defs)
    have "fd_data_available (fs_base P) f s2 = Some (set_flags f FS_DATA_AVAILABLE s2)"
      using assms(2) calm_cong [OF tr] by (intro fd_data_available_calm) simp
    then have "pipe_write P f m (int (length m)) s = Some (int (length m), set_flags f FS_DATA_AVAILABLE s2)"
      by (simp add: run)
    moreover have "p_data (pipes (set_flags f FS_DATA_AVAILABLE s2) f) = mem'"
      using s2 by (auto simp: s1_def upd_pipe_def fd_space_consumed_def set_flags_def upd_fd_def)
    moreover have "take 4 (drop 4 mem') = take 4 (drop (?n - 4) m)"
      using mem'(2,3) assms(3,4) by (intro nth_equalityI) (auto simp: algebra_simps)
    then have "load32 mem' 4 = Some (word32 (take 4 (drop (?n - 4) m)))"
      using mem'(2) assms(3) D(2) by (simp add: load32_def get_bytes_def)
    ultimately show ?thesis using False by simp
  qed
qed

theorem pipe_first_message_overflows_witness:
  "pipe_write pipe_drivers 3 (replicate 60 1) 60 (pipe_example pipe_empty) = None \<and>
   (\<exists>s'. pipe_write pipe_drivers 3 (replicate 40 1) 40 (pipe_example pipe_empty) = Some (40, s') \<and>
      load32 (p_data (pipes s' 3)) 4 = Some 0x1010101)"
proof
  have n: "unat (p_size (pipes (pipe_example pipe_empty) 3)) = 32" by (simp add: pipe_empty_def)
  have e: "pipe_holds (pipes (pipe_example pipe_empty) 3) []" by (simp add: pipe_empty_holds)
  note bug = pipe_first_message_overflows [OF e pipe_example_calm, unfolded n, of _ pipe_drivers]
  show "pipe_write pipe_drivers 3 (replicate 60 1) 60 (pipe_example pipe_empty) = None"
    using bug [of "replicate 60 1"] by simp
  have "take 4 (drop 28 (replicate 40 (1 :: u8))) = [1, 1, 1, 1]" by (simp add: eval_nat_numeral)
  then show "\<exists>s'. pipe_write pipe_drivers 3 (replicate 40 1) 40 (pipe_example pipe_empty) = Some (40, s') \<and>
      load32 (p_data (pipes s' 3)) 4 = Some 0x1010101"
    using bug [of "replicate 40 1"] by (simp add: word32_def)
qed

text \<open>Reading never announces space: whatever a read of a pipe takes out, the space flag of its
  descriptor stays as it was, so a pipe that was once filled is never reported as writable again.\<close>

theorem pipe_read_offers_no_space:
  assumes "pipe_read f n s = Some (k, m, s')"
  shows "fs_flags (fds s' f) AND FS_SPACE_AVAILABLE = fs_flags (fds s f) AND FS_SPACE_AVAILABLE"
proof -
  have "(fl AND NOT FS_DATA_AVAILABLE) AND FS_SPACE_AVAILABLE = fl AND FS_SPACE_AVAILABLE" for fl
    by (simp add: FS_DATA_AVAILABLE_def FS_SPACE_AVAILABLE_def word_bw_assocs)
  then show ?thesis using assms
    by (auto simp: pipe_read_def Let_def bind_Some_iff fd_data_flushed_def upd_pipe_def upd_fd_def split: if_splits)
qed

theorem pipe_read_offers_no_space_witness:
  "\<exists>k m s'. pipe_read 3 64 (pipe_example pipe_full) = Some (k, m, s') \<and>
     fs_flags (fds s' 3) AND FS_SPACE_AVAILABLE = fs_flags ex_fd AND FS_SPACE_AVAILABLE"
proof -
  obtain s' where "pipe_read 3 64 (pipe_example pipe_full) = Some (3, [10, 11, 12], s')"
    using pipe_read_ok [of "pipe_example pipe_full" 3 "[10, 11, 12]" "[[20]]" 64]
    by (auto simp: pipe_full_holds)
  moreover have "fds (pipe_example pipe_full) 3 = ex_fd"
    by (simp add: pipe_example_def fsstate.defs filestate.defs)
  ultimately show ?thesis using pipe_read_offers_no_space by fastforce
qed

end
