(* ===== verification/FilesProps.thy ===== *)
theory FilesProps
  imports PipeProps
begin

text \<open>
  The properties of the file interface (\<^verbatim>\<open>rtos/fs/fs.c\<close>): which file system serves a path, what a
  flushing write does, and that flushing the received data of a descriptor ends and loses no
  buffer.
\<close>

section \<open>Received lists\<close>

text \<open>
  The received lists of descriptor \<open>f\<close> with the buffers on each: they belong to \<open>f\<close>, want no
  callback when they are freed, and share no buffer or list with the pool (\<open>xs\<close>, \<open>ls\<close>).
\<close>

definition rx_holds :: "fd \<Rightarrow> 'z fsstate_scheme \<Rightarrow> lid list \<Rightarrow> bool" where
  "rx_holds f s ms \<longleftrightarrow> (\<exists>d. fs_buffer (fds s f) = Some d \<and> sll_holds (list_next s, rx_lists d) ms)"

definition received_list :: "fd \<Rightarrow> 'z fsstate_scheme \<Rightarrow> lid \<times> bid list \<Rightarrow> bool" where
  "received_list f s q \<longleftrightarrow> bl_fd (blists s (fst q)) = f \<and> bl_free (blists s (fst q)) = None \<and>
     sll_holds (chain_sll (fst q) s) (snd q) \<and> (\<forall>b \<in> set (snd q). sized (fd_size f s) (bufs s b))"

definition received ::
    "fd \<Rightarrow> 'z fsstate_scheme \<Rightarrow> (lid \<times> bid list) list \<Rightarrow> bid list \<Rightarrow> lid list \<Rightarrow> bool" where
  "received f s qs xs ls \<longleftrightarrow>
     calm f s \<and> rx_holds f s (map fst qs) \<and> pool_holds f s xs \<and> lists_hold f s ls \<and>
     (\<forall>q \<in> set qs. received_list f s q) \<and>
     distinct (xs @ concat (map snd qs)) \<and> length (xs @ concat (map snd qs)) < 2 ^ 32 \<and>
     distinct (ls @ map fst qs) \<and> length (ls @ map fst qs) < 2 ^ 32"

lemma receivedD:
  assumes "received f s qs xs ls"
  shows "calm f s" "rx_holds f s (map fst qs)" "pool_holds f s xs" "lists_hold f s ls"
    and "\<And>q. q \<in> set qs \<Longrightarrow> received_list f s q"
    and "distinct (xs @ concat (map snd qs))" "length (xs @ concat (map snd qs)) < 2 ^ 32"
    and "distinct (ls @ map fst qs)" "length (ls @ map fst qs) < 2 ^ 32"
  using assms by (simp_all add: received_def)

lemma rx_holds_queue:
  assumes "rx_holds f s ms" and "rx_queue f s' = rx_queue f s"
    and "\<And>m. m \<in> set ms \<Longrightarrow> list_next s' m = list_next s m"
  shows "rx_holds f s' ms"
proof -
  obtain d where d: "fs_buffer (fds s f) = Some d" "sll_holds (list_next s, rx_lists d) ms"
    using assms(1) by (auto simp: rx_holds_def)
  obtain d' where d': "fs_buffer (fds s' f) = Some d'" "rx_lists d' = rx_lists d"
    using assms(2) d(1) by (auto simp: rx_queue_def)
  then show ?thesis
    using sll_holds_frame [OF d(2) assms(3)] by (auto simp: rx_holds_def)
qed

text \<open>Taking the first received list.\<close>

lemma get_rx_ok:
  assumes rx: "rx_holds f s ms" and own: "lists_hold f s ls" "set ls \<inter> set ms = {}"
  shows "\<exists>s'. fs_buffer_get_list P f FS_BUFFER_RX 0 s = Some (if ms = [] then None else Some (hd ms), s') \<and>
     rx_holds f s' (List.tl ms) \<and> lists_hold f s' ls \<and>
     (\<forall>xs. pool_holds f s' xs = pool_holds f s xs) \<and> fd_size f s' = fd_size f s \<and>
     bufs s' = bufs s \<and> buf_next s' = buf_next s \<and> blists s' = blists s \<and>
     kstate.truncate s' = kstate.truncate s \<and> (\<forall>g. g \<noteq> f \<longrightarrow> fds s' g = fds s g) \<and>
     (List.tl ms = [] \<longrightarrow> fs_flags (fds s' f) = fs_flags (fds s f) AND NOT FS_DATA_AVAILABLE)"
proof -
  obtain d where d: "fs_buffer (fds s f) = Some d" "sll_holds (list_next s, rx_lists d) ms"
    using rx by (auto simp: rx_holds_def)
  obtain q where q: "sll_pop (list_next s, rx_lists d) = (fst (seq_pop ms), q)" "sll_holds q (snd (seq_pop ms))"
      "links_changed_in (set ms) (list_next s, rx_lists d) q"
    using sll_pop_holds [OF d(2)] by auto
  have pop: "fst (seq_pop ms) = (if ms = [] then None else Some (hd ms))" "snd (seq_pop ms) = List.tl ms"
    by (cases ms; simp)+
  let ?s1 = "set_list_queue f (\<lambda>h. rx_lists_update (\<lambda>_. h)) q s"
  define s' where "s' = (if head (snd q) = None then fd_data_flushed f ?s1 else ?s1)"
  have empty: "head (snd q) = None \<longleftrightarrow> List.tl ms = []"
    using q(2) pop(2) by (cases "List.tl ms") (auto simp: sll_holds_def)
  have run: "fs_buffer_get_list P f FS_BUFFER_RX 0 s = Some (fst (seq_pop ms), s')"
    using d(1) q(1) by (simp add: fs_buffer_get_list_def Let_def s'_def)
  have sel: "fs_buffer (fds s' f) = Some (d\<lparr>rx_lists := snd q\<rparr>)" "list_next s' = fst q"
    using d(1) by (simp_all add: fd_data_flushed_def s'_def)
  have rest: "bufs s' = bufs s" "buf_next s' = buf_next s" "blists s' = blists s"
      "kstate.truncate s' = kstate.truncate s" "\<forall>g. g \<noteq> f \<longrightarrow> fds s' g = fds s g"
    by (simp_all add: fd_data_flushed_def s'_def)
  have "rx_holds f s' (List.tl ms)" using sel q(2) pop(2) by (simp add: rx_holds_def)
  moreover have "lists_hold f s' ls"
    using own sel d(1) links_changedD [OF q(3)] sll_holds_frame [of "list_next s" "free_lists d" ls "fst q"]
    by (fastforce simp: lists_hold_def)
  moreover have "pool_holds f s' xs = pool_holds f s xs" for xs
    using sel d(1) rest(1,2) by (auto simp: pool_holds_def)
  moreover have "fd_size f s' = fd_size f s" using sel d(1) by (simp add: fd_size_def)
  moreover have "List.tl ms = [] \<longrightarrow> fs_flags (fds s' f) = fs_flags (fds s f) AND NOT FS_DATA_AVAILABLE"
    using empty by (simp add: fd_data_flushed_def s'_def)
  ultimately show ?thesis using run pop(1) rest by (intro exI [of _ s']) simp
qed

text \<open>One round of the loop, and all of it.\<close>

lemma flush_round:
  assumes r: "received f s ((l, bs) # qs) xs ls"
  shows "\<exists>s1 s2. fs_buffer_get_list P f FS_BUFFER_RX 0 s = Some (Some l, s1) \<and>
     fs_buffer_add_list P f l FS_LIST_FREE fl s1 = Some s2 \<and> received f s2 qs (xs @ bs) (ls @ [l]) \<and>
     kstate.truncate s2 = kstate.truncate s \<and> (\<forall>g. g \<noteq> f \<longrightarrow> fds s2 g = fds s g)"
proof -
  note D = receivedD [OF r]
  have dis: "l \<notin> set ls" "set bs \<inter> set xs = {}" "length bs + length xs < 2 ^ 32" "length ls + 1 < 2 ^ 32"
      "l \<notin> fst ` set qs" "set ls \<inter> set (map fst ((l, bs) # qs)) = {}"
    using D(6-9) by auto
  obtain s1 where s1: "fs_buffer_get_list P f FS_BUFFER_RX 0 s = Some (Some l, s1)"
      "rx_holds f s1 (map fst qs)" "lists_hold f s1 ls" "\<forall>xs. pool_holds f s1 xs = pool_holds f s xs"
      "fd_size f s1 = fd_size f s" "bufs s1 = bufs s" "buf_next s1 = buf_next s" "blists s1 = blists s"
      "kstate.truncate s1 = kstate.truncate s" "\<forall>g. g \<noteq> f \<longrightarrow> fds s1 g = fds s g"
    using get_rx_ok [OF D(2,4) dis(6), of P] by auto
  have keep: "received_list f s1 q" if "q \<in> set ((l, bs) # qs)" for q
    using D(5) [OF that] s1(5-8) by (simp add: received_list_def chain_sll_def)
  have own: "bl_fd (blists s1 l) = f" "bl_free (blists s1 l) = None" "sll_holds (chain_sll l s1) bs"
      "\<And>b. b \<in> set bs \<Longrightarrow> sized (fd_size f s1) (bufs s1 b)"
    using keep [of "(l, bs)"] by (auto simp: received_list_def)
  have calm1: "calm f s1" using calm_cong [OF s1(9)] D(1) by simp
  have pool1: "pool_holds f s1 xs" using s1(4) D(3) by simp
  obtain s2 where s2: "fs_buffer_add_list P f l FS_LIST_FREE fl s1 = Some s2"
     "pool_holds f s2 (xs @ bs)" "lists_hold f s2 (ls @ [l])" "kstate.truncate s2 = kstate.truncate s1"
     "\<forall>m. m \<noteq> l \<longrightarrow> blists s2 m = blists s1 m" "\<forall>g. g \<noteq> f \<longrightarrow> fds s2 g = fds s1 g"
     "fd_size f s2 = fd_size f s1"
     "\<forall>b. b \<notin> set bs \<union> set xs \<longrightarrow> bufs s2 b = bufs s1 b \<and> buf_next s2 b = buf_next s1 b"
     "\<forall>m. m \<notin> insert l (set ls) \<longrightarrow> list_next s2 m = list_next s1 m" "rx_queue f s2 = rx_queue f s1"
    using add_list_free_ok [OF calm1 own(1) [symmetric] own(2-4) pool1 dis(2,3) s1(3) dis(1,4), of P fl]
    by blast
  have "received_list f s2 q" if "q \<in> set qs" for q
  proof -
    have "fst q \<noteq> l" using dis(5) that by force
    have "set (snd q) \<inter> (set bs \<union> set xs) = {}" using D(6) that by fastforce
    then have same: "bufs s2 b = bufs s1 b" "buf_next s2 b = buf_next s1 b" if "b \<in> set (snd q)" for b
      using s2(8) that by blast+
    have "received_list f s1 q" using keep that by simp
    then show ?thesis
      using same s2(5,7) \<open>fst q \<noteq> l\<close> sll_holds_frame [of "buf_next s1" _ "snd q" "buf_next s2"]
      by (auto simp: received_list_def chain_sll_def)
  qed
  moreover have "rx_holds f s2 (map fst qs)"
    using D(8) by (intro rx_holds_queue [OF s1(2) s2(10)]) (auto intro!: s2(9) [rule_format])
  moreover have "calm f s2" using calm_cong [OF s2(4)] calm1 by simp
  ultimately have "received f s2 qs (xs @ bs) (ls @ [l])"
    using s2(2,3) D(6-9) by (auto simp: received_def)
  then show ?thesis using s1(1,9,10) s2(1,4,6) by auto
qed

lemma flush_rx_loop_ok:
  assumes "received f s qs xs ls"
  shows "\<exists>s'. flush_rx_loop P f s = Some s' \<and>
     received f s' [] (xs @ concat (map snd qs)) (ls @ map fst qs) \<and>
     fs_flags (fds s' f) AND FS_DATA_AVAILABLE = 0 \<and> kstate.truncate s' = kstate.truncate s \<and>
     (\<forall>g. g \<noteq> f \<longrightarrow> fds s' g = fds s g)"
  using assms
proof (induction qs arbitrary: s xs ls)
  case Nil
  note D = receivedD [OF Nil]
  obtain s1 where s1: "fs_buffer_get_list (fs_base P) f FS_BUFFER_RX 0 s = Some (None, s1)"
      "rx_holds f s1 []" "lists_hold f s1 ls" "\<forall>xs. pool_holds f s1 xs = pool_holds f s xs"
      "kstate.truncate s1 = kstate.truncate s" "\<forall>g. g \<noteq> f \<longrightarrow> fds s1 g = fds s g"
      "fs_flags (fds s1 f) = fs_flags (fds s f) AND NOT FS_DATA_AVAILABLE"
    using get_rx_ok [of f s "[]" ls "fs_base P"] D(2,4) by auto
  have "calm f s1" using calm_cong [OF s1(5)] D(1) by simp
  then have "received f s1 [] xs ls" using s1(2-4) Nil by (simp add: received_def)
  then show ?case
    using s1(1,5-7) by (subst flush_rx_loop.simps) (simp add: word_bw_assocs)
next
  case (Cons q qs)
  obtain l bs where q: "q = (l, bs)" by (cases q)
  obtain s1 s2 where r: "fs_buffer_get_list (fs_base P) f FS_BUFFER_RX 0 s = Some (Some l, s1)"
      "fs_buffer_add_list (fs_base P) f l FS_LIST_FREE (ucast FS_BUFFER_ACTIVE) s1 = Some s2"
      "received f s2 qs (xs @ bs) (ls @ [l])"
      "kstate.truncate s2 = kstate.truncate s" "\<forall>g. g \<noteq> f \<longrightarrow> fds s2 g = fds s g"
    using flush_round [OF Cons.prems [unfolded q], of "fs_base P" "ucast FS_BUFFER_ACTIVE"] by blast
  from Cons.IH [OF r(3)] r(4,5) show ?case
    by (subst flush_rx_loop.simps) (auto simp: q r(1,2))
qed

section \<open>Paths\<close>

text \<open>What is left of a path behind the name of a file system that serves it.\<close>

definition path_rest :: "'z fsstate_scheme \<Rightarrow> string \<Rightarrow> fd \<Rightarrow> string option" where
  "path_rest s name f =
     (case fs_name (fds s f) of
        None \<Rightarrow> None
      | Some nm \<Rightarrow> map_option (\<lambda>p. if p \<noteq> [] \<and> hd p = CHR 0x5C then List.tl p else p) (util_path_match nm name))"

text \<open>The first of them that serves the whole path, else the last that serves a part.\<close>

definition serving :: "'z fsstate_scheme \<Rightarrow> string \<Rightarrow> fd list \<Rightarrow> fd option" where
  "serving s name ds =
     (case filter (\<lambda>f. path_rest s name f = Some []) ds of
        f # _ \<Rightarrow> Some f
      | [] \<Rightarrow> (case filter (\<lambda>f. path_rest s name f \<noteq> None) ds of [] \<Rightarrow> None | fs \<Rightarrow> Some (last fs)))"

lemma fs_sreach_directory_rest:
  "fs_sreach_directory s f p =
     (case path_rest s (dp_name p) f of
        None \<Rightarrow> (False, p)
      | Some r \<Rightarrow> (r = [], p\<lparr>dp_matched := Some r, dp_priv := Some f\<rparr>))"
proof (cases "fs_name (fds s f)")
  case (Some nm)
  then show ?thesis
    by (cases "util_path_match nm (dp_name p)") (simp_all add: fs_sreach_directory_def path_rest_def Let_def)
qed (simp add: fs_sreach_directory_def path_rest_def)

lemma serving_Cons:
  "serving s name (f # ds) =
     (if path_rest s name f = Some [] then Some f
      else case serving s name ds of
        Some g \<Rightarrow> Some g
      | None \<Rightarrow> if path_rest s name f = None then None else Some f)"
  by (simp add: serving_def split: list.splits)

lemma scan_serving:
  assumes "seq_scan (fs_sreach_directory s) p ds = (ys, zs, p')"
  shows "dp_name p' = dp_name p \<and>
     (case serving s (dp_name p) ds of
        None \<Rightarrow> p' = p
      | Some f \<Rightarrow> dp_priv p' = Some f \<and>
          (\<exists>r. dp_matched p' = Some r \<and> path_rest s (dp_name p) f = Some r))"
  using assms
proof (induction ds arbitrary: p ys zs)
  case Nil
  then show ?case by (simp add: serving_def)
next
  case (Cons f ds)
  show ?case
  proof (cases "path_rest s (dp_name p) f")
    case None
    then obtain ys1 where "seq_scan (fs_sreach_directory s) p ds = (ys1, zs, p')"
      using Cons.prems by (auto simp: fs_sreach_directory_rest [of s f] split: prod.splits)
    from Cons.IH [OF this] None show ?thesis
      by (auto simp: serving_Cons split: option.splits)
  next
    case (Some r)
    let ?p = "p\<lparr>dp_matched := Some r, dp_priv := Some f\<rparr>"
    show ?thesis
    proof (cases "r = []")
      case True
      then show ?thesis using Cons.prems Some
        by (auto simp: fs_sreach_directory_rest [of s f] serving_Cons)
    next
      case False
      then obtain ys1 where "seq_scan (fs_sreach_directory s) ?p ds = (ys1, zs, p')"
        using Cons.prems Some by (auto simp: fs_sreach_directory_rest [of s f] split: prod.splits)
      from Cons.IH [OF this] Some False show ?thesis
        by (auto simp: serving_Cons split: option.splits)
    qed
  qed
qed

lemma path_match_iff:
  assumes "CHR ''*'' \<notin> set cs"
  shows "util_path_match rs cs = Some p \<longleftrightarrow> cs = rs @ p \<and> (p = [] \<or> hd p = CHR 0x5C)"
  using assms by (induction rs cs rule: util_path_match.induct) (auto dest: hd_in_set)

section \<open>Examples\<close>

text \<open>Two file systems, and a descriptor that has received list 0 with buffers 10 and 11.\<close>

definition file_example :: pipestate where
  "file_example = pipe_example pipe_empty
     \<lparr>sems := \<lambda>_. zero_semaphore\<lparr>count := 1, max_count := 1\<rparr>,
      fds := \<lambda>f. ex_fd\<lparr>fs_name := Some (if f = 1 then ''sd'' else ''con''),
        fs_flags := FS_SPACE_AVAILABLE OR FS_FLUSH_WRITE, fs_write_fun := Some 20\<rparr>,
      fs_next := \<lambda>f. if f = 1 then Some 0 else None, file_list := \<lparr>head = Some 1, tail = Some 0\<rparr>\<rparr>"

lemma file_example_sel [simp]:
  "fds file_example = (\<lambda>f. ex_fd\<lparr>fs_name := Some (if f = 1 then ''sd'' else ''con''),
     fs_flags := FS_SPACE_AVAILABLE OR FS_FLUSH_WRITE, fs_write_fun := Some 20\<rparr>)"
  "file_lock file_example = 0" "fs_next file_example = (\<lambda>f. if f = 1 then Some 0 else None)"
  "file_list file_example = \<lparr>head = Some 1, tail = Some 0\<rparr>"
  by (simp_all add: file_example_def pipe_example_def filestate.defs pipestate.defs fsstate.defs)

lemma file_example_list: "sll_holds (fs_next file_example, file_list file_example) [1, 0]"
  by (simp add: sll_holds_def)

lemma file_example_unlocked: "unlocked (file_lock file_example) file_example"
  by (simp add: unlocked_def lock_neutral_def file_example_def pipe_example_def ex_defs filestate.defs
    pipestate.defs example_def example_task_def zero_task_def zero_condition_def zero_semaphore_def
    SCHEDULER_MAX_LOCK_def)

lemma file_example_calm: "calm f file_example"
  by (simp add: calm_def lock_neutral_def file_example_def pipe_example_def ex_defs filestate.defs
    pipestate.defs example_def example_task_def zero_task_def zero_condition_def SCHEDULER_MAX_LOCK_def)

definition flush_example :: pipestate where
  "flush_example = pipe_example pipe_empty
     \<lparr>fds := \<lambda>_. ex_fd\<lparr>fs_flags := FS_BUFFERED, fs_buffer := Some (ex_data\<lparr>rx_lists := \<lparr>head = Some 0,
        tail = Some 0\<rparr>\<rparr>)\<rparr>\<rparr>"

lemma flush_example_sel [simp]:
  "fds flush_example = (\<lambda>_. ex_fd\<lparr>fs_flags := FS_BUFFERED, fs_buffer := Some (ex_data\<lparr>rx_lists :=
     \<lparr>head = Some 0, tail = Some 0\<rparr>\<rparr>)\<rparr>)"
  "bufs flush_example = bufs ex_state" "buf_next flush_example = buf_next ex_state"
  "blists flush_example = blists ex_state" "list_next flush_example = list_next ex_state"
  "kstate.truncate flush_example = kstate.truncate ex_state"
  by (simp_all add: flush_example_def pipe_example_def filestate.defs pipestate.defs fsstate.defs kstate.defs)

lemma pipe_drivers_lock:
  "drv_get_lock (fs_base pipe_drivers) g f w t = Some (SUCCESS, t)"
  "drv_release_lock (fs_base pipe_drivers) g f t = Some t"
  by (simp_all add: pipe_drivers_def)

lemma flush_example_received: "received 0 flush_example [(0, [10, 11])] [12, 13] [1, 2]"
proof -
  have "calm 0 flush_example" using calm_cong [of flush_example ex_state] ex_calm by simp
  moreover have "sized 4 (ex_buffer [1, 2, 3, 4])" "sized 4 (ex_buffer [5, 6])" "fresh 4 (ex_buffer [])"
    by (simp_all add: sized_def fresh_def ex_buffer_def)
  moreover have "fd_size 0 flush_example = 4" by (simp add: fd_size_def ex_data_def)
  ultimately show ?thesis
    by (simp add: received_def rx_holds_def received_list_def pool_holds_def lists_hold_def sll_holds_def
      chain_sll_def ex_data_def)
qed

section \<open>Properties\<close>

text \<open>A name with no wild card serves exactly the paths that go on behind it with a delimiter or
  end with it.\<close>

theorem path_match_at_delimiter:
  assumes "CHR ''*'' \<notin> set cs"
  shows "util_path_match rs cs =
     (if take (length rs) cs = rs \<and> (drop (length rs) cs = [] \<or> hd (drop (length rs) cs) = CHR 0x5C)
      then Some (drop (length rs) cs) else None)"
proof (cases "util_path_match rs cs")
  case (Some p)
  then show ?thesis using path_match_iff [OF assms, of rs p] by auto
next
  case None
  have "\<not> (take (length rs) cs = rs \<and> (drop (length rs) cs = [] \<or> hd (drop (length rs) cs) = CHR 0x5C))"
    using path_match_iff [OF assms, of rs "drop (length rs) cs"] None
    by (metis append_take_drop_id option.distinct(1))
  then show ?thesis using None by auto
qed

theorem path_match_at_delimiter_witness:
  "util_path_match ''sd'' (''sd'' @ [CHR 0x5C] @ ''log'') = Some ([CHR 0x5C] @ ''log'')"
  using path_match_at_delimiter [of "''sd'' @ [CHR 0x5C] @ ''log''" "''sd''"] by simp

text \<open>C22. The list of file systems is newest first, as \<^verbatim>\<open>fs_register\<close> pushes on its head. A path
  is served by the first file system of the list, the one registered last, whose name matches the
  path and leaves nothing of it but perhaps a backslash; if there is none, by the last of the list,
  the one registered first, whose name matches at all, and its driver opens the rest. A name matches
  as \<^verbatim>\<open>util_path_match\<close> says: the path goes on with the end, a backslash or a star behind it, or has a
  star where it first differs from the name. The length of the match does not matter. The lock of
  the list is assumed to be free.\<close>

theorem fs_open_chooses:
  assumes "unlocked (file_lock s) s" and "sll_holds (fs_next s, file_list s) ds"
  shows "fs_open P name fl s =
    (let s' = upd_sem (file_lock s) (\<lambda>x. x\<lparr>owner := None\<rparr>) s in
     case serving s name ds of
       None \<Rightarrow> Some (None, s')
     | Some f \<Rightarrow>
         (case fs_open_fun (fds s f) of
            None \<Rightarrow> Some (Some f, s')
          | Some g \<Rightarrow> drv_open P g f (the (path_rest s name f)) fl s'))"
proof -
  let ?p = "\<lparr>dp_name = name, dp_matched = None, dp_priv = None\<rparr>" and ?m = "file_lock s"
  let ?s1 = "taken ?m (current_task s) s"
  note cycle = semaphore_cycle [OF assms(1), of "file_kernel P"]
  have same: "fs_sreach_directory ?s1 = fs_sreach_directory s" "fs_next ?s1 = fs_next s"
      "file_list ?s1 = file_list s" "file_lock ?s1 = file_lock s"
    by (simp_all add: fs_sreach_directory_def taken_def upd_sem_def fun_eq_iff)
  obtain ys zs p' where scan: "seq_scan (fs_sreach_directory s) ?p ds = (ys, zs, p')"
    by (metis prod_cases3)
  note found = scan_serving [OF scan] and search = sll_search_holds [OF assms(2) scan, of None]
  show ?thesis
  proof (cases "serving s name ds")
    case None
    then show ?thesis using cycle found search by (simp add: fs_open_def same)
  next
    case (Some f)
    then obtain r where "dp_priv p' = Some f" "dp_matched p' = Some r" "path_rest s name f = Some r"
      using found by auto
    then show ?thesis
      using Some cycle search
      by (cases "fs_open_fun (fds s f)") (simp_all add: fs_open_def same upd_sem_def)
  qed
qed

theorem fs_open_chooses_witness:
  "fs_open pipe_drivers ''sd'' 0 file_example =
     Some (Some 1, upd_sem 0 (\<lambda>x. x\<lparr>owner := None\<rparr>) file_example)"
  using fs_open_chooses [OF file_example_unlocked file_example_list, of pipe_drivers "''sd''" 0]
  by (simp add: serving_def path_rest_def ex_fd_def)

text \<open>C23. Flushing the received data of a buffered descriptor comes to an end; every received list is on
  the free lists, every buffer of theirs in the pool, the counters are right and no data is
  reported any more. The number of flushed bytes it returns is always zero.\<close>

theorem flush_rx_frees_all:
  assumes "received f s qs xs ls" and "fs_flags (fds s f) AND FS_BUFFERED \<noteq> 0"
    and "\<And>g t w. drv_get_lock (fs_base P) g f w t = Some (SUCCESS, t)"
    and "\<And>g t. drv_release_lock (fs_base P) g f t = Some t"
  shows "\<exists>s'. fs_flush_rx P f s = Some (0, s') \<and>
     pool_holds f s' (xs @ concat (map snd qs)) \<and> lists_hold f s' (ls @ map fst qs) \<and> rx_holds f s' [] \<and>
     fs_flags (fds s' f) AND FS_DATA_AVAILABLE = 0 \<and> (\<forall>g. g \<noteq> f \<longrightarrow> fds s' g = fds s g)"
proof -
  have "fd_get_lock (fs_base P) f t = Some (SUCCESS, t)" for t
    by (simp add: fd_get_lock_def fd_try_get_lock_def assms(3) split: option.split)
  moreover have "fd_release_lock (fs_base P) f t = Some t" for t
    by (simp add: fd_release_lock_def assms(4) split: option.split)
  ultimately show ?thesis
    using flush_rx_loop_ok [OF assms(1), of P] assms(2) receivedD(2-4)
    by (fastforce simp: fs_flush_rx_def)
qed

theorem flush_rx_frees_all_witness:
  "\<exists>s'. fs_flush_rx pipe_drivers 0 flush_example = Some (0, s') \<and>
     pool_holds 0 s' [12, 13, 10, 11] \<and> lists_hold 0 s' [1, 2, 0] \<and> rx_holds 0 s' []"
proof -
  have buffered: "fs_flags (fds flush_example 0) AND FS_BUFFERED \<noteq> 0" by (simp add: FS_BUFFERED_def)
  from flush_rx_frees_all [OF flush_example_received buffered pipe_drivers_lock] show ?thesis
    by (elim exE conjE, intro exI conjI) simp_all
qed

text \<open>A flushing write stops after its first partial write: while the driver reports space, the
  number of bytes it took is taken for an error code and ends the loop.\<close>

theorem flush_write_stops:
  assumes "fs_get_lock (fds s f) = None" "fs_release_lock (fds s f) = None"
    and "fs_write_fun (fds s f) = Some g" "fs_flags (fds s f) AND FS_FLUSH_WRITE \<noteq> 0"
    and "fs_flags (fds s f) AND FS_SPACE_AVAILABLE \<noteq> 0" "fs_flags (fds s f) AND FS_DATA_AVAILABLE = 0"
    and "drv_write P g f (Bytes bs) n s = Some (k, s1)" "0 < k" "k < n"
    and "fds s1 f = fds s f" "calm f s1"
  shows "fs_write P f (Bytes bs) n s = Some (k, set_flags f FS_SPACE_AVAILABLE s1)"
proof -
  have "fs_write_loop P f k buffer m w s1 = Some (k, w, s1)" for buffer m w
    using assms(5,8,10) by (subst fs_write_loop.simps) (simp add: SUCCESS_def split: option.split)
  then have "fs_write_loop P f SUCCESS (Bytes bs) n 0 s = Some (k, k, s1)"
    using assms(3-5,7-10) by (subst fs_write_loop.simps) (simp split: option.split)
  then show ?thesis
    using assms fd_space_available_calm [OF assms(11), of "fs_base P"]
    by (simp add: fs_write_def fd_get_lock_def fd_try_get_lock_def fd_release_lock_def)
qed

theorem flush_write_stops_witness:
  "fs_write (pipe_drivers\<lparr>drv_write := \<lambda>_ _ _ _ s. Some (2, s)\<rparr>) 0 (Bytes [1, 2, 3]) 3 file_example =
     Some (2, set_flags 0 FS_SPACE_AVAILABLE file_example)"
  by (rule flush_write_stops [where g = 20])
    (simp_all add: file_example_calm ex_fd_def FS_FLUSH_WRITE_def FS_SPACE_AVAILABLE_def
      FS_DATA_AVAILABLE_def)

end
