(* ===== verification/Memory.thy ===== *)
theory Memory
  imports Guests Semaphore Sll
begin

text \<open>
  The memory managers of \<^verbatim>\<open>rtos/mem\<close>: static regions, which only grow (\<^verbatim>\<open>mem_static.c\<close>), and dynamic
  ones (\<^verbatim>\<open>mem_dynamic.c\<close>), which are divided into pages with a list of free blocks each. The
  descriptors of the blocks lie in the memory they describe, which is modelled word by word. The
  global regions are those of \<^verbatim>\<open>mem.c\<close>.
\<close>

section \<open>Data\<close>

record MEM_STATIC =
  current_ptr :: u32
  end_ptr :: u32

definition MEM_PAGE_DEC :: u32 where "MEM_PAGE_DEC = 0x1"
definition MEM_PAGE_ASC :: u32 where "MEM_PAGE_ASC = 0x2"
definition MEM_STRICT_ALLOC :: u32 where "MEM_STRICT_ALLOC = 0x1"
definition MEM_DYN_MIN_MEM :: u32 where "MEM_DYN_MIN_MEM = 12"

record MEM_DYN_CFG =
  cfg_max_alloc :: u32
  cfg_size :: u32
  cfg_flags :: u32

text \<open>The page table of a region; the back pointer of a page is the region.\<close>

record MEM_PAGE =
  base_start :: u32
  base_end :: u32
  max_alloc :: u32
  free_list :: "u32 sll_head"
  free_largest :: "u32 option"
  pg_flags :: u32

text \<open>
  A region with its memory: the words at the addresses from \<open>md_start\<close> up to \<open>md_end\<close>. The table of the
  pages is at its start; \<open>md_pages\<close> is its contents.
\<close>

record MEM_DYNAMIC =
  md_lock :: semid
  md_flags :: u32
  md_start :: u32
  md_end :: u32
  md_pages :: "MEM_PAGE list"
  md_mem :: "u32 \<Rightarrow> u32"

record memstate = kstate +
  mem_static_pool :: MEM_STATIC
  mem_dynamic_pool :: MEM_DYNAMIC

section \<open>Static memory\<close>

definition mem_static_init_region :: "u32 \<Rightarrow> u32 \<Rightarrow> 'z memstate_scheme \<Rightarrow> 'z memstate_scheme" where
  "mem_static_init_region start stop s =
     s\<lparr>mem_static_pool := \<lparr>current_ptr = start, end_ptr = stop\<rparr>\<rparr>"

definition mem_static_alloc_region ::
    "'z memstate_ext env \<Rightarrow> u32 \<Rightarrow> 'z memstate_scheme \<Rightarrow> (u32 option \<times> 'z memstate_scheme) option" where
  "mem_static_alloc_region e sz s = do {
     s \<leftarrow> scheduler_lock s;
     let r = mem_static_pool s;
     let (new_mem, s) =
       (if current_ptr r + sz < end_ptr r
        then (Some (current_ptr r), s\<lparr>mem_static_pool := r\<lparr>current_ptr := current_ptr r + sz\<rparr>\<rparr>)
        else (None, s));
     s \<leftarrow> scheduler_unlock e s;
     Some (new_mem, s) }"

text \<open>It stops: the assertion is on a constant.\<close>

definition mem_static_dealloc_region :: "u32 option \<Rightarrow> u32 option option" where
  "mem_static_dealloc_region mem_ptr = do { ASSERT True; Some mem_ptr }"

section \<open>The descriptors in memory\<close>

text \<open>
  \<^verbatim>\<open>MEM_DESC\<close> has the size of a block and the block before it; behind it, in one place, a free block
  has the next free block and an allocated one its page. A NULL pointer is zero.
\<close>

definition ptr :: "u32 \<Rightarrow> u32 option" where
  "ptr w = (if w = 0 then None else Some w)"

definition unptr :: "u32 option \<Rightarrow> u32" where
  "unptr p = (case p of None \<Rightarrow> 0 | Some a \<Rightarrow> a)"

definition load_word :: "MEM_DYNAMIC \<Rightarrow> u32 \<Rightarrow> u32 option" where
  "load_word d a = do {
     IN_RANGE (md_start d \<le> a \<and> unat a + 4 \<le> unat (md_end d) \<and> a mod 4 = 0);
     Some (md_mem d a) }"

definition store_word :: "u32 \<Rightarrow> u32 \<Rightarrow> MEM_DYNAMIC \<Rightarrow> MEM_DYNAMIC option" where
  "store_word a v d = do {
     IN_RANGE (md_start d \<le> a \<and> unat a + 4 \<le> unat (md_end d) \<and> a mod 4 = 0);
     Some (d\<lparr>md_mem := (md_mem d)(a := v)\<rparr>) }"

definition load_size :: "MEM_DYNAMIC \<Rightarrow> u32 \<Rightarrow> u32 option" where
  "load_size d b = load_word d b"

definition load_phy_prev :: "MEM_DYNAMIC \<Rightarrow> u32 \<Rightarrow> u32 option" where
  "load_phy_prev d b = load_word d (b + 4)"

definition load_page :: "MEM_DYNAMIC \<Rightarrow> u32 \<Rightarrow> u32 option" where
  "load_page d b = load_word d (b + 8)"

definition store_size :: "u32 \<Rightarrow> u32 \<Rightarrow> MEM_DYNAMIC \<Rightarrow> MEM_DYNAMIC option" where
  "store_size b v d = store_word b v d"

definition store_phy_prev :: "u32 \<Rightarrow> u32 \<Rightarrow> MEM_DYNAMIC \<Rightarrow> MEM_DYNAMIC option" where
  "store_phy_prev b v d = store_word (b + 4) v d"

definition store_page :: "u32 \<Rightarrow> u32 \<Rightarrow> MEM_DYNAMIC \<Rightarrow> MEM_DYNAMIC option" where
  "store_page b v d = store_word (b + 8) v d"

text \<open>The \<open>next\<close> pointers of the free blocks, for the list routines.\<close>

definition mem_links :: "(u32 \<Rightarrow> u32) \<Rightarrow> u32 links" where
  "mem_links m b = ptr (m (b + 8))"

definition put_links :: "u32 links \<Rightarrow> (u32 \<Rightarrow> u32) \<Rightarrow> (u32 \<Rightarrow> u32)" where
  "put_links nx m = (\<lambda>a. if nx (a - 8) = mem_links m (a - 8) then m a else unptr (nx (a - 8)))"

text \<open>Pages: their addresses, and changing one.\<close>

definition page_ptr :: "MEM_DYNAMIC \<Rightarrow> nat \<Rightarrow> u32" where
  "page_ptr d i = md_start d + of_nat (32 * i)"

definition page_index :: "MEM_DYNAMIC \<Rightarrow> u32 \<Rightarrow> nat option" where
  "page_index d p = do {
     let i = unat (p - md_start d) div 32;
     IN_RANGE (i < length (md_pages d) \<and> page_ptr d i = p);
     Some i }"

definition upd_page :: "nat \<Rightarrow> (MEM_PAGE \<Rightarrow> MEM_PAGE) \<Rightarrow> MEM_DYNAMIC \<Rightarrow> MEM_DYNAMIC" where
  "upd_page i f d = d\<lparr>md_pages := (md_pages d)[i := f (md_pages d ! i)]\<rparr>"

text \<open>The free list of page \<open>i\<close> as the list routines see it, and writing it back.\<close>

definition page_sll :: "nat \<Rightarrow> MEM_DYNAMIC \<Rightarrow> u32 sll" where
  "page_sll i d = (mem_links (md_mem d), free_list (md_pages d ! i))"

definition set_page_sll :: "nat \<Rightarrow> u32 sll \<Rightarrow> MEM_DYNAMIC \<Rightarrow> MEM_DYNAMIC" where
  "set_page_sll i q d =
     upd_page i (\<lambda>p. p\<lparr>free_list := snd q\<rparr>) (d\<lparr>md_mem := put_links (fst q) (md_mem d)\<rparr>)"

section \<open>The callbacks\<close>

definition mem_dynamic_sort_descending :: "MEM_DYNAMIC \<Rightarrow> u32 \<Rightarrow> u32 \<Rightarrow> bool" where
  "mem_dynamic_sort_descending d node mem \<longleftrightarrow> md_mem d node < md_mem d mem"

definition mem_dynamic_sort_ascending :: "MEM_DYNAMIC \<Rightarrow> u32 \<Rightarrow> u32 \<Rightarrow> bool" where
  "mem_dynamic_sort_ascending d node mem \<longleftrightarrow> md_mem d node \<ge> md_mem d mem"

definition mem_dynamic_match_size :: "MEM_DYNAMIC \<Rightarrow> (u32, u32) match" where
  "mem_dynamic_match_size d node sz = (md_mem d node \<ge> sz, sz)"

definition mem_dynamic_get_max :: "MEM_DYNAMIC \<Rightarrow> (u32, u32) match" where
  "mem_dynamic_get_max d node largest = (False, if md_mem d node \<ge> md_mem d largest then node else largest)"

text \<open>Putting a free block on its page, as the flags of the page say.\<close>

definition page_insert :: "nat \<Rightarrow> u32 \<Rightarrow> MEM_DYNAMIC \<Rightarrow> MEM_DYNAMIC option" where
  "page_insert i b d = do {
     let fl = pg_flags (md_pages d ! i);
     q \<leftarrow> (if fl AND MEM_PAGE_DEC \<noteq> 0 then sll_insert (mem_dynamic_sort_descending d) (Some b) (page_sll i d)
          else if fl AND MEM_PAGE_ASC \<noteq> 0 then sll_insert (mem_dynamic_sort_ascending d) (Some b) (page_sll i d)
          else sll_push (Some b) (page_sll i d));
     Some (set_page_sll i q d) }"

section \<open>Initialisation\<close>

text \<open>The sum of the given page sizes, and the number of pages with none.\<close>

fun cfg_sizes :: "MEM_DYN_CFG list \<Rightarrow> u32 \<Rightarrow> u32 \<Rightarrow> u32 \<times> u32" where
  "cfg_sizes [] page_mem_size j = (page_mem_size, j)"
| "cfg_sizes (c # cs) page_mem_size j =
     (if cfg_size c \<noteq> 0 then cfg_sizes cs (page_mem_size + ALLIGN_FLOOR (cfg_size c)) j
      else cfg_sizes cs page_mem_size (j + 1))"

text \<open>The loop over the pages; \<open>start\<close> is where the next one begins.\<close>

fun init_pages :: "MEM_DYN_CFG list \<Rightarrow> u32 \<Rightarrow> u32 \<Rightarrow> u32 \<Rightarrow> MEM_DYNAMIC \<Rightarrow> MEM_DYNAMIC option" where
  "init_pages [] page_mem_size start stop d = Some d"
| "init_pages (c # cs) page_mem_size start stop d = do {
     let page_size = (if cs \<noteq> [] then (if cfg_size c \<noteq> 0 then ALLIGN_FLOOR (cfg_size c) else page_mem_size)
                      else ALLIGN_FLOOR (stop - start));
     d \<leftarrow> store_phy_prev start 0 d;
     d \<leftarrow> store_size start page_size d;
     d \<leftarrow> store_page start 0 d;
     init_pages cs page_mem_size (start + page_size) stop
       (d\<lparr>md_pages := md_pages d @ [\<lparr>base_start = start, base_end = start + page_size,
          max_alloc = cfg_max_alloc c + 8, free_list = \<lparr>head = Some start, tail = Some start\<rparr>,
          free_largest = Some start, pg_flags = cfg_flags c\<rparr>]\<rparr>) }"

definition mem_dynamic_init_region ::
    "u32 \<Rightarrow> u32 \<Rightarrow> MEM_DYN_CFG list \<Rightarrow> u32 \<Rightarrow> 'z memstate_scheme \<Rightarrow> 'z memstate_scheme option" where
  "mem_dynamic_init_region start stop cfg fl s = do {
     let d = (mem_dynamic_pool s)\<lparr>md_flags := fl, md_start := start, md_end := stop, md_pages := []\<rparr>;
     let first = start + of_nat (32 * length cfg);
     let mem_size = (stop - start) - of_nat (32 * length cfg);
     let (page_mem_size, j) = cfg_sizes cfg 0 0;
     let page_mem_size = mem_size - page_mem_size;
     let page_mem_size = (if j > 0 then ALLIGN_FLOOR (page_mem_size div j) else page_mem_size);
     d \<leftarrow> init_pages cfg page_mem_size first stop d;
     Some (semaphore_create (md_lock d) 1 (s\<lparr>mem_dynamic_pool := d\<rparr>)) }"

text \<open>The configuration of \<^verbatim>\<open>mem.c\<close>; where the memory is depends on the board.\<close>

definition mem_dyn_cfg :: "MEM_DYN_CFG list" where
  "mem_dyn_cfg = map (\<lambda>(m, n, f). \<lparr>cfg_max_alloc = m, cfg_size = n, cfg_flags = f\<rparr>)
     [(0xFE, 0, MEM_PAGE_ASC), (0xFE, 0, MEM_PAGE_ASC), (0x100, 0, MEM_PAGE_DEC), (0x1FF, 0, 0),
      (0x1FF, 0, MEM_PAGE_ASC), (0x200, 0, MEM_PAGE_DEC), (0x200, 0, MEM_PAGE_DEC),
      (0x2FF, 0, MEM_PAGE_ASC), (0x300, 0, MEM_PAGE_ASC), (0x400, 0x820, 0)]"

definition mem_init :: "u32 \<Rightarrow> u32 \<Rightarrow> u32 \<Rightarrow> u32 \<Rightarrow> 'z memstate_scheme \<Rightarrow> 'z memstate_scheme option" where
  "mem_init static_start static_end dynamic_start dynamic_end s =
     mem_dynamic_init_region dynamic_start dynamic_end mem_dyn_cfg 0
       (mem_static_init_region static_start static_end s)"

section \<open>Allocation\<close>

text \<open>The loop over the pages from number \<open>i\<close> on; \<open>found\<close> is the page saved so far.\<close>

fun search_pages ::
    "MEM_DYNAMIC \<Rightarrow> u32 \<Rightarrow> bool \<Rightarrow> MEM_PAGE list \<Rightarrow> nat \<Rightarrow> nat option \<Rightarrow> nat option option" where
  "search_pages d sz force [] i found = Some found"
| "search_pages d sz force (p # ps) i found = do {
     fits \<leftarrow> (case free_largest p of
               None \<Rightarrow> Some False
             | Some b \<Rightarrow> do { n \<leftarrow> load_size d b; Some (sz \<le> n) });
     (if fits then
        (if max_alloc p \<ge> sz then Some (Some i)
         else search_pages d sz force ps (i + 1) (if force then Some i else found))
      else search_pages d sz force ps (i + 1) found) }"

definition mem_dynamic_search_region :: "MEM_DYNAMIC \<Rightarrow> u32 \<Rightarrow> bool \<Rightarrow> nat option option" where
  "mem_dynamic_search_region d sz force = search_pages d sz force (md_pages d) 0 None"

text \<open>Taking a free block off page \<open>i\<close>.\<close>

definition take_block :: "nat \<Rightarrow> u32 \<Rightarrow> MEM_DYNAMIC \<Rightarrow> (u32 option \<times> MEM_DYNAMIC) option" where
  "take_block i sz d = do {
     (mem_free, q) \<leftarrow>
       (if pg_flags (md_pages d ! i) AND MEM_PAGE_DEC \<noteq> 0 then Some (sll_pop (page_sll i d))
        else do {
          (b, _, q) \<leftarrow> sll_search_pop (mem_dynamic_match_size d) sz (page_sll i d);
          Some (b, q)
        });
     let d = set_page_sll i q d;
     Some (mem_free, if mem_free = free_largest (md_pages d ! i)
       then upd_page i (\<lambda>p. p\<lparr>free_largest := None\<rparr>) d else d) }"

text \<open>
  Giving the end of a block of \<open>n\<close> bytes back. The store to the descriptor behind it is at
  \<open>mem_free + n\<close> in units of descriptors.
\<close>

definition split_block :: "nat \<Rightarrow> u32 \<Rightarrow> u32 \<Rightarrow> u32 \<Rightarrow> MEM_DYNAMIC \<Rightarrow> MEM_DYNAMIC option" where
  "split_block i b sz n d = do {
     d \<leftarrow> store_size b sz d;
     let mem_free = b + sz;
     d \<leftarrow> store_phy_prev mem_free mem_free d;
     d \<leftarrow> store_size mem_free n d;
     d \<leftarrow> (if mem_free + n < base_end (md_pages d ! i)
          then store_phy_prev (mem_free + 12 * n) mem_free d else Some d);
     page_insert i mem_free d }"

text \<open>The largest free block, when the one taken was it.\<close>

definition set_largest :: "nat \<Rightarrow> MEM_DYNAMIC \<Rightarrow> MEM_DYNAMIC option" where
  "set_largest i d = (
     let p = md_pages d ! i in
     if free_largest p \<noteq> None then Some d
     else if pg_flags p AND MEM_PAGE_DEC \<noteq> 0
     then Some (upd_page i (\<lambda>p. p\<lparr>free_largest := head (free_list p)\<rparr>) d)
     else if pg_flags p AND MEM_PAGE_ASC \<noteq> 0
     then Some (upd_page i (\<lambda>p. p\<lparr>free_largest := tail (free_list p)\<rparr>) d)
     else (case head (free_list p) of
             None \<Rightarrow> Some d
           | Some h \<Rightarrow> do {
               (_, largest, q) \<leftarrow> sll_search_pop (mem_dynamic_get_max d) h (page_sll i d);
               Some (upd_page i (\<lambda>p. p\<lparr>free_largest := Some largest\<rparr>) (set_page_sll i q d))
             }))"

text \<open>What is done with the lock held, on the page that was found.\<close>

definition alloc_from :: "nat \<Rightarrow> u32 \<Rightarrow> MEM_DYNAMIC \<Rightarrow> (u32 option \<times> MEM_DYNAMIC) option" where
  "alloc_from i sz d = do {
     (mem_free, d) \<leftarrow> take_block i sz d;
     (case mem_free of
        None \<Rightarrow> Some (None, d)
      | Some b \<Rightarrow> do {
          n \<leftarrow> load_size d b;
          let remaining_size = n - sz;
          d \<leftarrow> store_page b (page_ptr d i) d;
          d \<leftarrow> (if remaining_size > MEM_DYN_MIN_MEM then split_block i b sz remaining_size d else Some d);
          d \<leftarrow> set_largest i d;
          Some (Some (b + 12), d)
        }) }"

definition alloc_block :: "u32 \<Rightarrow> MEM_DYNAMIC \<Rightarrow> (u32 option \<times> MEM_DYNAMIC) option" where
  "alloc_block sz d = do {
     mem_page \<leftarrow> mem_dynamic_search_region d sz (md_flags d AND MEM_STRICT_ALLOC = 0);
     (case mem_page of
        None \<Rightarrow> Some (None, d)
      | Some i \<Rightarrow> alloc_from i sz d) }"

type_synonym 'z mem_platform = "'z memstate_ext platform"

definition mem_dynamic_alloc_region ::
    "'z mem_platform \<Rightarrow> u32 \<Rightarrow> 'z memstate_scheme \<Rightarrow> (u32 option \<times> 'z memstate_scheme) option" where
  "mem_dynamic_alloc_region P sz s = do {
     let sz = ALLIGN_CEIL (sz + 12);
     (st, s) \<leftarrow> semaphore_obtain P (md_lock (mem_dynamic_pool s)) MAX_WAIT s;
     ASSERT (st \<noteq> SUCCESS);
     (mem_ptr, d) \<leftarrow> alloc_block sz (mem_dynamic_pool s);
     let s = s\<lparr>mem_dynamic_pool := d\<rparr>;
     s \<leftarrow> semaphore_release P (md_lock d) s;
     Some (mem_ptr, s) }"

section \<open>Freeing\<close>

text \<open>Merging the free block \<open>neighbor\<close> behind \<open>b\<close> into it.\<close>

definition merge_next :: "nat \<Rightarrow> u32 \<Rightarrow> MEM_DYNAMIC \<Rightarrow> MEM_DYNAMIC option" where
  "merge_next i b d = do {
     n \<leftarrow> load_size d b;
     let neighbor = b + n;
     free \<leftarrow> (if neighbor < base_end (md_pages d ! i)
             then do { p \<leftarrow> load_page d neighbor; Some (p \<noteq> page_ptr d i) } else Some False);
     (if free then do {
        (r, q) \<leftarrow> sll_remove (Some neighbor) (page_sll i d);
        ASSERT (r \<noteq> Some neighbor);
        let d = set_page_sll i q d;
        k \<leftarrow> load_size d neighbor;
        d \<leftarrow> store_size b (n + k) d;
        d \<leftarrow> (if b + (n + k) < base_end (md_pages d ! i) then store_phy_prev (b + (n + k)) b d else Some d);
        Some (if free_largest (md_pages d ! i) = Some neighbor
          then upd_page i (\<lambda>p. p\<lparr>free_largest := Some b\<rparr>) d else d)
      }
      else Some d) }"

text \<open>Merging \<open>b\<close> into the block its \<open>phy_prev\<close> names, when that is free; the result is the free block.\<close>

definition merge_prev :: "nat \<Rightarrow> u32 \<Rightarrow> MEM_DYNAMIC \<Rightarrow> (u32 \<times> MEM_DYNAMIC) option" where
  "merge_prev i b d = do {
     neighbor \<leftarrow> load_phy_prev d b;
     free \<leftarrow> (if neighbor \<noteq> 0 then do { p \<leftarrow> load_page d neighbor; Some (p \<noteq> page_ptr d i) }
             else Some False);
     (if free then do {
        (r, q) \<leftarrow> sll_remove (Some neighbor) (page_sll i d);
        ASSERT (r \<noteq> Some neighbor);
        let d = set_page_sll i q d;
        n \<leftarrow> load_size d b;
        d \<leftarrow> (if b + n < base_end (md_pages d ! i) then store_phy_prev (b + n) neighbor d else Some d);
        let d = (if free_largest (md_pages d ! i) = Some b
          then upd_page i (\<lambda>p. p\<lparr>free_largest := Some neighbor\<rparr>) d else d);
        k \<leftarrow> load_size d neighbor;
        d \<leftarrow> store_size neighbor (k + n) d;
        Some (neighbor, d)
      }
      else Some (b, d)) }"

definition free_block :: "nat \<Rightarrow> u32 \<Rightarrow> MEM_DYNAMIC \<Rightarrow> MEM_DYNAMIC option" where
  "free_block i b d = do {
     d \<leftarrow> merge_next i b d;
     (b, d) \<leftarrow> merge_prev i b d;
     d \<leftarrow> page_insert i b d;
     n \<leftarrow> load_size d b;
     larger \<leftarrow> (case free_largest (md_pages d ! i) of
                 None \<Rightarrow> Some True
               | Some l \<Rightarrow> do { k \<leftarrow> load_size d l; Some (n > k) });
     Some (if larger then upd_page i (\<lambda>p. p\<lparr>free_largest := Some b\<rparr>) d else d) }"

text \<open>When a NULL pointer is given the scheduler stays locked.\<close>

definition mem_dynamic_dealloc_region ::
    "'z mem_platform \<Rightarrow> u32 \<Rightarrow> 'z memstate_scheme \<Rightarrow> (u32 option \<times> 'z memstate_scheme) option" where
  "mem_dynamic_dealloc_region P mem_ptr s = do {
     s \<leftarrow> scheduler_lock s;
     (if mem_ptr \<noteq> 0 then do {
        let b = mem_ptr - 12;
        page \<leftarrow> load_page (mem_dynamic_pool s) b;
        i \<leftarrow> page_index (mem_dynamic_pool s) page;
        (st, s) \<leftarrow> semaphore_obtain P (md_lock (mem_dynamic_pool s)) MAX_WAIT s;
        ASSERT (st \<noteq> SUCCESS);
        s \<leftarrow> scheduler_unlock (env P) s;
        page \<leftarrow> load_page (mem_dynamic_pool s) b;
        i \<leftarrow> page_index (mem_dynamic_pool s) page;
        d \<leftarrow> free_block i b (mem_dynamic_pool s);
        let s = s\<lparr>mem_dynamic_pool := d\<rparr>;
        s \<leftarrow> semaphore_release P (md_lock d) s;
        Some (None, s)
      }
      else Some (None, s)) }"

end
