(* ===== verification/MemFacts.thy ===== *)
theory MemFacts
  imports Memory
begin

text \<open>
  How the blocks of a page lie in its memory, and that the list routines and the stores of the
  dynamic memory manager (\<^verbatim>\<open>rtos/mem/mem_dynamic.c\<close>) keep to the descriptors of these blocks.
\<close>

section \<open>Blocks\<close>

text \<open>
  The blocks of a page in the order of their addresses, each with its size and whether it is
  allocated; they fill the page from its start to its end.
\<close>

type_synonym block = "u32 \<times> nat \<times> bool"

fun tiles :: "nat \<Rightarrow> block list \<Rightarrow> nat \<Rightarrow> bool" where
  "tiles a [] e \<longleftrightarrow> a = e"
| "tiles a ((b, n, al) # bs) e \<longleftrightarrow> unat b = a \<and> 12 \<le> n \<and> 4 dvd n \<and> tiles (a + n) bs e"

definition addrs :: "block list \<Rightarrow> u32 set" where
  "addrs bs = fst ` set bs"

definition free_addrs :: "block list \<Rightarrow> u32 set" where
  "free_addrs bs = {b. \<exists>n. (b, n, False) \<in> set bs}"

lemma tiles_append: "tiles a (xs @ ys) e \<longleftrightarrow> (\<exists>k. tiles a xs k \<and> tiles k ys e)"
  by (induction a xs e rule: tiles.induct) auto

lemma tiles_le: "tiles a bs e \<Longrightarrow> a \<le> e"
  by (induction a bs e rule: tiles.induct) auto

lemma tiles_in:
  "tiles a bs e \<Longrightarrow> (b, n, al) \<in> set bs \<Longrightarrow> a \<le> unat b \<and> unat b + n \<le> e \<and> 12 \<le> n \<and> (4 dvd a \<longrightarrow> 4 dvd unat b)"
proof (induction a bs e rule: tiles.induct)
  case (2 a c k l bs e)
  then show ?case using tiles_le [of "a + k" bs e] by auto
qed simp

lemma tiles_apart:
  assumes "tiles a (xs @ (b, n, al) # ys) e" and "(c, k, l) \<in> set (xs @ ys)"
  shows "unat c + k \<le> unat b \<or> unat b + n \<le> unat c"
  using assms tiles_in [of a xs _ c k l] tiles_in [of _ ys e c k l] by (auto simp: tiles_append)

lemma tiles_same:
  assumes "tiles a bs e" "(b, n, al) \<in> set bs" "(c, k, l) \<in> set bs"
  shows "b = c \<and> n = k \<and> al = l \<or> unat b + n \<le> unat c \<or> unat c + k \<le> unat b"
proof -
  obtain xs ys where bs: "bs = xs @ (b, n, al) # ys" using assms(2) by (meson split_list)
  then show ?thesis using tiles_apart [of a xs b n al ys e c k l] assms by auto
qed

lemma addrs_simps [simp]:
  "addrs [] = {}" "addrs ((b, n, al) # bs) = insert b (addrs bs)" "addrs (xs @ ys) = addrs xs \<union> addrs ys"
  by (auto simp: addrs_def)

lemma free_addrs_simps [simp]:
  "free_addrs [] = {}" "free_addrs ((b, n, al) # bs) = (if al then {} else {b}) \<union> free_addrs bs"
  "free_addrs (xs @ ys) = free_addrs xs \<union> free_addrs ys"
  by (auto simp: free_addrs_def)

lemma free_addrs_subset: "free_addrs bs \<subseteq> addrs bs"
  by (force simp: free_addrs_def addrs_def)

text \<open>The words of two descriptors are different words.\<close>

lemma unat_add_nat: "unat (b :: u32) + n < 2 ^ 32 \<Longrightarrow> unat (b + of_nat n) = unat b + n"
  by (simp add: unat_word_ariths take_bit_eq_mod unat_of_nat)

lemma fields_apart:
  assumes "tiles a bs e" "e < 2 ^ 32" "b \<in> addrs bs" "c \<in> addrs bs"
  shows "b \<noteq> c + 4" "b \<noteq> c + 8" "b + 4 \<noteq> c + 8" "b + 8 \<noteq> c + 4" "b + 4 \<noteq> c" "b + 8 \<noteq> c"
proof -
  obtain n al k l where bc: "(b, n, al) \<in> set bs" "(c, k, l) \<in> set bs" using assms(3,4) by (auto simp: addrs_def)
  note in_b = tiles_in [OF assms(1) bc(1)] and in_c = tiles_in [OF assms(1) bc(2)]
  have u: "unat (b + 4) = unat b + 4" "unat (b + 8) = unat b + 8" "unat (c + 4) = unat c + 4" "unat (c + 8) = unat c + 8"
    using in_b in_c assms(2) unat_add_nat [of b 4] unat_add_nat [of b 8] unat_add_nat [of c 4]
      unat_add_nat [of c 8] by simp_all
  note same = tiles_same [OF assms(1) bc]
  show "b \<noteq> c + 4" "b \<noteq> c + 8" "b + 4 \<noteq> c + 8" "b + 8 \<noteq> c + 4" "b + 4 \<noteq> c" "b + 8 \<noteq> c"
    using u same in_b in_c by (auto simp: word_unat_eq_iff)
qed

section \<open>Access to the descriptors\<close>

definition hdr_ok :: "MEM_DYNAMIC \<Rightarrow> u32 \<Rightarrow> bool" where
  "hdr_ok d b \<longleftrightarrow> md_start d \<le> b \<and> unat b + 12 \<le> unat (md_end d) \<and> b mod 4 = 0"

lemma hdr_ok_field:
  assumes "hdr_ok d b" and "k = 0 \<or> k = 4 \<or> k = 8"
  shows "md_start d \<le> b + k" "unat (b + k) + 4 \<le> unat (md_end d)" "(b + k) mod 4 = 0"
proof -
  have lt: "unat (md_end d) < 2 ^ 32" using unsigned_less [of "md_end d"] by simp
  have small: "unat k \<le> 8" using assms(2) by auto
  have u: "unat (b + k) = unat b + unat k"
    using assms(1) lt small by (subst unat_add_lem [THEN iffD1]) (auto simp: hdr_ok_def)
  show "md_start d \<le> b + k" using assms(1) u by (simp add: hdr_ok_def word_le_nat_alt)
  show "unat (b + k) + 4 \<le> unat (md_end d)" using assms(1) u small by (simp add: hdr_ok_def)
  have "unat b mod 4 = 0" using assms(1) by (simp add: hdr_ok_def word_unat_eq_iff unat_mod)
  then have "(unat b + unat k) mod 4 = 0" using assms(2) by (elim disjE) (simp_all add: mod_add_left_eq [symmetric])
  then show "(b + k) mod 4 = 0" by (simp add: word_unat_eq_iff unat_mod u)
qed

lemma access [simp]:
  assumes "hdr_ok d b"
  shows "load_size d b = Some (md_mem d b)" "load_phy_prev d b = Some (md_mem d (b + 4))"
    "load_page d b = Some (md_mem d (b + 8))"
    "store_size b v d = Some (d\<lparr>md_mem := (md_mem d)(b := v)\<rparr>)"
    "store_phy_prev b v d = Some (d\<lparr>md_mem := (md_mem d)(b + 4 := v)\<rparr>)"
    "store_page b v d = Some (d\<lparr>md_mem := (md_mem d)(b + 8 := v)\<rparr>)"
  using hdr_ok_field [OF assms, of 0] hdr_ok_field [OF assms, of 4] hdr_ok_field [OF assms, of 8]
  by (simp_all add: load_size_def load_phy_prev_def load_page_def store_size_def store_phy_prev_def
      store_page_def load_word_def store_word_def)

section \<open>The list routines on the memory\<close>

lemma unptr_ptr: "v \<noteq> Some 0 \<Longrightarrow> ptr (unptr v) = v"
  by (auto simp: ptr_def unptr_def split: option.splits)

lemma put_links_same: "put_links (mem_links m) m = m"
  by (simp add: put_links_def)

lemma put_links_upd:
  "put_links (nx(b := v)) m = (put_links nx m)(b + 8 := if v = mem_links m b then m (b + 8) else unptr v)"
  by (auto simp: put_links_def fun_eq_iff)

lemma mem_links_put: "nx b \<noteq> Some 0 \<Longrightarrow> mem_links (put_links nx m) b = nx b"
  by (simp add: put_links_def mem_links_def unptr_ptr)

lemma lseg_next_in: "lseg nx p xs None \<Longrightarrow> x \<in> set xs \<Longrightarrow> nx x = Some y \<Longrightarrow> y \<in> set xs"
proof (induction xs arbitrary: p)
  case (Cons z zs)
  then show ?case by (cases zs) auto
qed simp

lemma set_page_sll_sel [simp]:
  "md_start (set_page_sll i q d) = md_start d" "md_end (set_page_sll i q d) = md_end d"
  "md_lock (set_page_sll i q d) = md_lock d" "md_flags (set_page_sll i q d) = md_flags d"
  "md_mem (set_page_sll i q d) = put_links (fst q) (md_mem d)"
  "md_pages (set_page_sll i q d) = (md_pages d)[i := (md_pages d ! i)\<lparr>free_list := snd q\<rparr>]"
  by (simp_all add: set_page_sll_def upd_page_def)

lemma upd_page_sel [simp]:
  "md_start (upd_page i f d) = md_start d" "md_end (upd_page i f d) = md_end d"
  "md_lock (upd_page i f d) = md_lock d" "md_flags (upd_page i f d) = md_flags d"
  "md_mem (upd_page i f d) = md_mem d"
  "md_pages (upd_page i f d) = (md_pages d)[i := f (md_pages d ! i)]"
  by (simp_all add: upd_page_def)

lemma set_page_sll_holds:
  assumes "sll_holds q xs" and "0 \<notin> set xs" and "i < length (md_pages d)"
  shows "sll_holds (page_sll i (set_page_sll i q d)) xs"
proof -
  have "mem_links (put_links (fst q) (md_mem d)) x = fst q x" if "x \<in> set xs" for x
    using lseg_next_in [of "fst q" "head (snd q)" xs x] assms(1,2) that
    by (intro mem_links_put) (auto simp: sll_holds_def)
  then have "lseg (mem_links (put_links (fst q) (md_mem d))) p ys None = lseg (fst q) p ys None"
    if "set ys \<subseteq> set xs" for p ys
    using that by (induction ys arbitrary: p) auto
  then show ?thesis using assms(1,3) by (simp add: sll_holds_def page_sll_def)
qed

lemma put_links_changed:
  assumes "links_changed_in A (page_sll i d) q" and "a - 8 \<notin> A"
  shows "put_links (fst q) (md_mem d) a = md_mem d a"
  using assms by (simp add: put_links_def links_changed_in_def page_sll_def)

section \<open>The state of a page\<close>

text \<open>The blocks lie in the region behind the table of the pages.\<close>

definition space :: "nat \<Rightarrow> MEM_DYNAMIC \<Rightarrow> block list \<Rightarrow> bool" where
  "space i d bs \<longleftrightarrow> i < length (md_pages d) \<and> 0 < md_start d \<and>
     unat (md_start d) + 32 * length (md_pages d) \<le> unat (base_start (md_pages d ! i)) \<and>
     4 dvd unat (base_start (md_pages d ! i)) \<and> base_end (md_pages d ! i) \<le> md_end d \<and>
     tiles (unat (base_start (md_pages d ! i))) bs (unat (base_end (md_pages d ! i)))"

text \<open>
  Every \<^verbatim>\<open>phy_prev\<close> is NULL, the block itself (that is what a split leaves) or the block before.
\<close>

fun prevs_ok :: "(u32 \<Rightarrow> u32) \<Rightarrow> u32 option \<Rightarrow> block list \<Rightarrow> bool" where
  "prevs_ok m p [] \<longleftrightarrow> True"
| "prevs_ok m p ((b, n, al) # bs) \<longleftrightarrow>
     (m (b + 4) = 0 \<or> m (b + 4) = b \<or> Some (m (b + 4)) = p) \<and> prevs_ok m (Some b) bs"

definition described :: "(u32 \<Rightarrow> u32) \<Rightarrow> u32 \<Rightarrow> block list \<Rightarrow> bool" where
  "described m pg bs \<longleftrightarrow> (\<forall>(b, n, al) \<in> set bs. unat (m b) = n \<and> (al \<longrightarrow> m (b + 8) = pg))"

definition page_sorted :: "u32 \<Rightarrow> (u32 \<Rightarrow> u32) \<Rightarrow> u32 list \<Rightarrow> bool" where
  "page_sorted fl m fs \<longleftrightarrow>
     (if fl AND MEM_PAGE_DEC \<noteq> 0 then sorted_wrt (\<lambda>x y. m y \<le> m x) fs
      else fl AND MEM_PAGE_ASC \<noteq> 0 \<longrightarrow> sorted_wrt (\<lambda>x y. m x \<le> m y) fs)"

definition free_ok :: "nat \<Rightarrow> MEM_DYNAMIC \<Rightarrow> u32 list \<Rightarrow> bool" where
  "free_ok i d fs \<longleftrightarrow> sll_holds (page_sll i d) fs \<and> page_sorted (pg_flags (md_pages d ! i)) (md_mem d) fs"

definition largest_ok :: "nat \<Rightarrow> MEM_DYNAMIC \<Rightarrow> u32 list \<Rightarrow> bool" where
  "largest_ok i d fs \<longleftrightarrow>
     (case free_largest (md_pages d ! i) of
        None \<Rightarrow> fs = []
      | Some l \<Rightarrow> l \<in> set fs \<and> (\<forall>x \<in> set fs. md_mem d x \<le> md_mem d l))"

definition page_ok :: "nat \<Rightarrow> MEM_DYNAMIC \<Rightarrow> block list \<Rightarrow> u32 list \<Rightarrow> bool" where
  "page_ok i d bs fs \<longleftrightarrow> space i d bs \<and> described (md_mem d) (page_ptr d i) bs \<and>
     prevs_ok (md_mem d) None bs \<and> free_ok i d fs \<and> largest_ok i d fs \<and> set fs = free_addrs bs"

text \<open>What an operation on page \<open>i\<close> may change: its list and the words in \<open>A\<close>.\<close>

definition page_rest :: "MEM_PAGE \<Rightarrow> u32 \<times> u32 \<times> u32 \<times> u32" where
  "page_rest p = (base_start p, base_end p, max_alloc p, pg_flags p)"

definition step :: "nat \<Rightarrow> u32 set \<Rightarrow> MEM_DYNAMIC \<Rightarrow> MEM_DYNAMIC \<Rightarrow> bool" where
  "step i A d d' \<longleftrightarrow>
     md_start d' = md_start d \<and> md_end d' = md_end d \<and> md_lock d' = md_lock d \<and> md_flags d' = md_flags d \<and>
     length (md_pages d') = length (md_pages d) \<and>
     (\<forall>j. page_rest (md_pages d' ! j) = page_rest (md_pages d ! j)) \<and>
     (\<forall>j. j \<noteq> i \<longrightarrow> md_pages d' ! j = md_pages d ! j) \<and>
     (\<forall>a. a \<notin> A \<longrightarrow> md_mem d' a = md_mem d a)"

lemma step_refl [simp]: "step i A d d"
  by (simp add: step_def)

lemma step_trans: "step i A d d1 \<Longrightarrow> step i B d1 d2 \<Longrightarrow> step i (A \<union> B) d d2"
  by (simp add: step_def)

lemma step_mono: "step i A d d' \<Longrightarrow> A \<subseteq> B \<Longrightarrow> step i B d d'"
  by (auto simp: step_def)

lemma page_upd_nth: "(xs[i := x]) ! j = (if i = j \<and> i < length xs then x else xs ! j)"
  by (cases "i < length xs") (auto simp: nth_list_update list_update_beyond not_less)

lemma stepD:
  assumes "step i A d d'"
  shows "a \<notin> A \<Longrightarrow> md_mem d' a = md_mem d a" "length (md_pages d') = length (md_pages d)"
    and "page_ptr d' j = page_ptr d j" "hdr_ok d' b = hdr_ok d b"
    and "base_start (md_pages d' ! j) = base_start (md_pages d ! j)"
    and "base_end (md_pages d' ! j) = base_end (md_pages d ! j)"
    and "pg_flags (md_pages d' ! j) = pg_flags (md_pages d ! j)"
    and "max_alloc (md_pages d' ! j) = max_alloc (md_pages d ! j)"
    and "j \<noteq> i \<Longrightarrow> md_pages d' ! j = md_pages d ! j"
    and "md_start d' = md_start d" "md_end d' = md_end d" "md_lock d' = md_lock d" "md_flags d' = md_flags d"
  using assms by (auto simp: step_def page_ptr_def hdr_ok_def page_rest_def)

lemma step_space: "step i A d d' \<Longrightarrow> space j d' bs = space j d bs"
  using stepD [of i A d d'] by (simp add: space_def)

lemma step_mem: "step i A d (d\<lparr>md_mem := (md_mem d)(a := v)\<rparr>)" if "a \<in> A"
  using that step_refl [of i A d] by (auto simp: step_def)

lemma step_largest: "step i A d (upd_page i (\<lambda>p. p\<lparr>free_largest := v\<rparr>) d)"
  by (simp add: step_def page_upd_nth page_rest_def)

lemma step_sll:
  assumes "links_changed_in A (page_sll i d) q"
  shows "step i ((\<lambda>b. b + 8) ` A) d (set_page_sll i q d)"
proof -
  have "put_links (fst q) (md_mem d) a = md_mem d a" if "a \<notin> (\<lambda>b. b + 8) ` A" for a
    using that by (intro put_links_changed [OF assms]) (metis diff_add_cancel imageI)
  then show ?thesis
    by (simp add: step_def page_upd_nth page_rest_def)
qed

lemma space_apart:
  assumes "space i d bs" "b \<in> addrs bs" "c \<in> addrs bs"
  shows "b \<noteq> c + 4" "b \<noteq> c + 8" "b + 4 \<noteq> c + 8" "b + 8 \<noteq> c + 4" "b + 4 \<noteq> c" "b + 8 \<noteq> c"
proof -
  have "unat (base_end (md_pages d ! i)) < 2 ^ 32" using unsigned_less [of "base_end (md_pages d ! i)"] by simp
  then show "b \<noteq> c + 4" "b \<noteq> c + 8" "b + 4 \<noteq> c + 8" "b + 8 \<noteq> c + 4" "b + 4 \<noteq> c" "b + 8 \<noteq> c"
    using fields_apart [of _ bs "unat (base_end (md_pages d ! i))" b c] assms by (auto simp: space_def)
qed

lemma space_block:
  assumes "space i d bs" "(b, n, al) \<in> set bs"
  shows "hdr_ok d b" "b \<noteq> 0" "page_ptr d i \<noteq> b" "page_ptr d i \<noteq> 0" "unat b + n \<le> unat (base_end (md_pages d ! i))"
    and "base_start (md_pages d ! i) \<le> b" "12 \<le> n" "4 dvd n"
proof -
  let ?p = "md_pages d ! i"
  note S = assms(1) [unfolded space_def]
  have t: "unat (base_start ?p) \<le> unat b \<and> unat b + n \<le> unat (base_end ?p) \<and> 12 \<le> n \<and> 4 dvd unat b \<and> 4 dvd n"
    using tiles_in [of "unat (base_start ?p)" bs "unat (base_end ?p)" b n al] S assms(2)
    by (auto dest!: split_list simp: tiles_append)
  then have "unat (md_start d) \<le> unat b" "unat b + 12 \<le> unat (md_end d)"
    using S by (simp_all add: word_le_nat_alt)
  then show "hdr_ok d b" using t by (auto simp: hdr_ok_def word_le_nat_alt word_unat_eq_iff unat_mod)
  show "b \<noteq> 0" using S t by (auto simp: word_less_nat_alt)
  have "unat (md_start d) + 32 * i < unat b" "unat b < 2 ^ 32"
    using S t unsigned_less [of b] by simp_all
  then have "unat (page_ptr d i) = unat (md_start d) + 32 * i"
    using unat_add_nat [of "md_start d" "32 * i"] by (simp add: page_ptr_def)
  then show "page_ptr d i \<noteq> b" "page_ptr d i \<noteq> 0"
    using \<open>unat (md_start d) + 32 * i < unat b\<close> S by (auto simp: word_less_nat_alt)
  show "unat b + n \<le> unat (base_end ?p)" "base_start ?p \<le> b" "12 \<le> n" "4 dvd n"
    using t by (simp_all add: word_le_nat_alt)
qed

lemma addrsE: "b \<in> addrs bs \<Longrightarrow> (\<And>n al. (b, n, al) \<in> set bs \<Longrightarrow> thesis) \<Longrightarrow> thesis"
  by (auto simp: addrs_def)

lemma space_hdr: "space i d bs \<Longrightarrow> b \<in> addrs bs \<Longrightarrow> hdr_ok d b"
  by (auto elim!: addrsE dest: space_block)

lemma space_nonzero: "space i d bs \<Longrightarrow> b \<in> addrs bs \<Longrightarrow> b \<noteq> 0"
  by (auto elim!: addrsE dest: space_block(2))

text \<open>Changing links of blocks leaves sizes and \<open>phy_prev\<close>, and the other links.\<close>

lemma step_links:
  assumes "step i ((\<lambda>b. b + 8) ` A) d d'" "space j d bs" "A \<subseteq> addrs bs" "b \<in> addrs bs"
  shows "md_mem d' b = md_mem d b" "md_mem d' (b + 4) = md_mem d (b + 4)"
    and "b \<notin> A \<Longrightarrow> md_mem d' (b + 8) = md_mem d (b + 8)"
proof -
  have neq: "b \<noteq> c + 8" "b + 4 \<noteq> c + 8" if "c \<in> A" for c
    using space_apart(2,3) [OF assms(2,4), of c] assms(3) that by blast+
  show "md_mem d' b = md_mem d b" "md_mem d' (b + 4) = md_mem d (b + 4)"
    using neq by (auto intro!: stepD(1) [OF assms(1)])
  show "b \<notin> A \<Longrightarrow> md_mem d' (b + 8) = md_mem d (b + 8)"
    by (auto intro!: stepD(1) [OF assms(1)])
qed

end
