(* ===== verification/MemOps.thy ===== *)
theory MemOps
  imports MemFacts
begin

text \<open>
  The steps of allocating and freeing on the list of a page: a page keeps its free blocks in the
  order its flags ask for, and knows the largest.
\<close>

section \<open>Orders of free blocks\<close>

interpretation desc: stable_insert_order UNIV "\<lambda>x y. md_mem d y \<le> md_mem d x" "mem_dynamic_sort_descending d"
  for d by unfold_locales (auto simp: mem_dynamic_sort_descending_def)

interpretation asc: insert_order UNIV "\<lambda>x y. md_mem d x \<le> md_mem d y" "mem_dynamic_sort_ascending d"
  for d by unfold_locales (auto simp: mem_dynamic_sort_ascending_def)

lemma page_sorted_cong: "(\<And>x. x \<in> set fs \<Longrightarrow> m' x = m x) \<Longrightarrow> page_sorted fl m' fs = page_sorted fl m fs"
  by (auto simp: page_sorted_def intro!: sorted_wrt_mono_rel [of fs] elim!: sorted_wrt_mono_rel [rotated])

lemma page_sorted_sub: "page_sorted fl m (as @ b # bs) \<Longrightarrow> page_sorted fl m (as @ bs)"
  by (auto simp: page_sorted_def sorted_wrt_append)

section \<open>Inserting\<close>

lemma page_insert_ok:
  assumes S: "space i d bs" and b: "b \<in> addrs bs" "b \<notin> set fs" and fs: "set fs \<subseteq> addrs bs"
    and ok: "free_ok i d fs"
  shows "\<exists>d' fs'. page_insert i b d = Some d' \<and> free_ok i d' fs' \<and> set fs' = insert b (set fs) \<and>
     step i ((\<lambda>b. b + 8) ` insert b (set fs)) d d' \<and>
     free_largest (md_pages d' ! i) = free_largest (md_pages d ! i)"
proof -
  let ?fl = "pg_flags (md_pages d ! i)"
  have i: "i < length (md_pages d)" using S by (simp add: space_def)
  have holds: "sll_holds (page_sll i d) fs" and srt: "page_sorted ?fl (md_mem d) fs"
    using ok by (auto simp: free_ok_def)
  define fs' where "fs' = (if ?fl AND MEM_PAGE_DEC \<noteq> 0 then ins (mem_dynamic_sort_descending d) b fs
      else if ?fl AND MEM_PAGE_ASC \<noteq> 0 then ins (mem_dynamic_sort_ascending d) b fs else b # fs)"
  have set': "set fs' = insert b (set fs)" by (simp add: fs'_def)
  have sorted': "page_sorted ?fl (md_mem d) fs'"
    using srt desc.ins_sorted [of fs b d] asc.ins_sorted [of fs b d] by (simp add: page_sorted_def fs'_def)
  have "links_changed_in (insert b (set fs)) (page_sll i d) q" if "links_changed_in {b} (page_sll i d) q" for q
    using that by (simp add: links_changed_in_def)
  then have "\<exists>q. (if ?fl AND MEM_PAGE_DEC \<noteq> 0
        then sll_insert (mem_dynamic_sort_descending d) (Some b) (page_sll i d)
        else if ?fl AND MEM_PAGE_ASC \<noteq> 0 then sll_insert (mem_dynamic_sort_ascending d) (Some b) (page_sll i d)
        else sll_push (Some b) (page_sll i d)) = Some q \<and> sll_holds q fs' \<and>
      links_changed_in (insert b (set fs)) (page_sll i d) q"
    using sll_insert_holds [OF holds b(2), of "mem_dynamic_sort_descending d"]
      sll_insert_holds [OF holds b(2), of "mem_dynamic_sort_ascending d"] sll_push_holds [OF holds b(2)]
    unfolding fs'_def by (cases "?fl AND MEM_PAGE_DEC \<noteq> 0"; cases "?fl AND MEM_PAGE_ASC \<noteq> 0") auto
  then obtain q where q: "page_insert i b d = Some (set_page_sll i q d)" "sll_holds q fs'"
      "links_changed_in (insert b (set fs)) (page_sll i d) q"
    by (auto simp: page_insert_def Let_def)
  let ?d' = "set_page_sll i q d"
  have st: "step i ((\<lambda>b. b + 8) ` insert b (set fs)) d ?d'" by (rule step_sll [OF q(3)])
  have sub: "insert b (set fs) \<subseteq> addrs bs" using b(1) fs by simp
  have nz: "0 \<notin> set fs'" using space_nonzero [OF S] sub set' by blast
  have "page_sorted ?fl (md_mem ?d') fs' = page_sorted ?fl (md_mem d) fs'"
    using step_links(1) [OF st S sub] sub set' by (intro page_sorted_cong) blast
  then have "free_ok i ?d' fs'"
    using set_page_sll_holds [OF q(2) nz i] sorted' i by (simp add: free_ok_def)
  then show ?thesis using q(1) set' st i by (intro exI [of _ ?d'] exI [of _ fs']) simp
qed

section \<open>Taking a block\<close>

lemma scan_fit:
  "seq_scan (mem_dynamic_match_size d) sz fs =
     (takeWhile (\<lambda>x. \<not> sz \<le> md_mem d x) fs, dropWhile (\<lambda>x. \<not> sz \<le> md_mem d x) fs, sz)"
  by (induction fs) (auto simp: mem_dynamic_match_size_def)

lemma search_fit:
  assumes "x \<in> set fs" "sz \<le> md_mem d x"
  shows "\<exists>as z bs. seq_search_pop (mem_dynamic_match_size d) sz fs = (Some z, sz, as @ bs) \<and>
     fs = as @ z # bs \<and> sz \<le> md_mem d z"
proof -
  let ?P = "\<lambda>x. \<not> sz \<le> md_mem d x"
  obtain z zs where z: "dropWhile ?P fs = z # zs"
    using assms by (cases "dropWhile ?P fs") (auto simp: dropWhile_eq_Nil_conv)
  then have "sz \<le> md_mem d z" by (metis dropWhile_eq_Cons_conv)
  moreover have "fs = takeWhile ?P fs @ z # zs" by (metis takeWhile_dropWhile_id z)
  ultimately show ?thesis using z by (auto simp: seq_search_pop_def scan_fit)
qed

lemma remove_sll:
  assumes S: "space i d bs" and fs: "set fs \<subseteq> addrs bs" and ok: "free_ok i d fs"
    and q: "sll_holds q (as @ cs)" "fs = as @ b # cs" "links_changed_in (set fs) (page_sll i d) q"
  shows "free_ok i (set_page_sll i q d) (as @ cs)" "set (as @ cs) = set fs - {b}"
    and "step i ((\<lambda>b. b + 8) ` set fs) d (set_page_sll i q d)"
    and "free_largest (md_pages (set_page_sll i q d) ! i) = free_largest (md_pages d ! i)"
proof -
  let ?d' = "set_page_sll i q d"
  have i: "i < length (md_pages d)" using S by (simp add: space_def)
  show st: "step i ((\<lambda>b. b + 8) ` set fs) d ?d'" by (rule step_sll [OF q(3)])
  have nz: "0 \<notin> set (as @ cs)" using space_nonzero [OF S] fs q(2) by auto
  have sub: "set (as @ cs) \<subseteq> set fs" using q(2) by auto
  have srt: "page_sorted (pg_flags (md_pages d ! i)) (md_mem d) (as @ cs)"
    using ok page_sorted_sub [of _ _ as b cs] q(2) by (simp add: free_ok_def)
  have "page_sorted fl (md_mem ?d') (as @ cs) = page_sorted fl (md_mem d) (as @ cs)" for fl
    using step_links(1) [OF st S fs] fs sub by (intro page_sorted_cong) blast
  then show "free_ok i ?d' (as @ cs)"
    using set_page_sll_holds [OF q(1) nz i] srt i by (simp add: free_ok_def)
  have "distinct fs" using ok sll_holds_distinct [of "page_sll i d" fs] by (simp add: free_ok_def)
  then show "set (as @ cs) = set fs - {b}" using q(2) by auto
  show "free_largest (md_pages ?d' ! i) = free_largest (md_pages d ! i)" using i by simp
qed

lemma take_block_ok:
  assumes S: "space i d bs" and fs: "set fs \<subseteq> addrs bs" and ok: "free_ok i d fs"
    and l: "free_largest (md_pages d ! i) = Some l" "l \<in> set fs" "\<forall>x \<in> set fs. md_mem d x \<le> md_mem d l"
    and sz: "sz \<le> md_mem d l"
  shows "\<exists>b d' fs'. take_block i sz d = Some (Some b, d') \<and> b \<in> set fs \<and> sz \<le> md_mem d b \<and>
     free_ok i d' fs' \<and> set fs' = set fs - {b} \<and> step i ((\<lambda>b. b + 8) ` set fs) d d' \<and>
     free_largest (md_pages d' ! i) = (if l = b then None else Some l)"
proof -
  let ?dec = "pg_flags (md_pages d ! i) AND MEM_PAGE_DEC \<noteq> 0"
  have i: "i < length (md_pages d)" using S by (simp add: space_def)
  have holds: "sll_holds (page_sll i d) fs" using ok by (simp add: free_ok_def)
  have "\<exists>b as cs q. (if ?dec then Some (sll_pop (page_sll i d)) else do {
        (b, _, q) \<leftarrow> sll_search_pop (mem_dynamic_match_size d) sz (page_sll i d); Some (b, q) }) = Some (Some b, q) \<and>
      fs = as @ b # cs \<and> sz \<le> md_mem d b \<and> sll_holds q (as @ cs) \<and> links_changed_in (set fs) (page_sll i d) q"
  proof (cases ?dec)
    case True
    obtain b cs where bcs: "fs = b # cs" using l(2) by (cases fs) auto
    have "md_mem d l \<le> md_mem d b" using ok True l(2) bcs by (auto simp: free_ok_def page_sorted_def)
    then show ?thesis
      using True sz sll_pop_holds [OF holds] bcs by (intro exI [of _ b] exI [of _ "[]"] exI [of _ cs]) auto
  next
    case False
    obtain as z cs where f: "seq_search_pop (mem_dynamic_match_size d) sz fs = (Some z, sz, as @ cs)"
        "fs = as @ z # cs" "sz \<le> md_mem d z"
      using search_fit [OF l(2) sz] by blast
    then show ?thesis
      using False sll_search_pop_holds [OF holds f(1)]
      by (intro exI [of _ z] exI [of _ as] exI [of _ cs]) auto
  qed
  then obtain b as cs q where q: "(if ?dec then Some (sll_pop (page_sll i d)) else do {
        (b, _, q) \<leftarrow> sll_search_pop (mem_dynamic_match_size d) sz (page_sll i d); Some (b, q) }) = Some (Some b, q)"
      "fs = as @ b # cs" "sz \<le> md_mem d b" "sll_holds q (as @ cs)" "links_changed_in (set fs) (page_sll i d) q"
    by blast
  note R = remove_sll [OF S fs ok q(4,2,5)]
  let ?d1 = "set_page_sll i q d"
  define d' where "d' = (if Some b = Some l then upd_page i (\<lambda>p. p\<lparr>free_largest := None\<rparr>) ?d1 else ?d1)"
  have run: "take_block i sz d = Some (Some b, d')"
    using q(1) l(1) i by (simp add: take_block_def d'_def Let_def del: Option.bind_eq_Some_conv)
  have "free_ok i d' (as @ cs)"
    using R(1) i by (auto simp: d'_def free_ok_def page_sll_def)
  moreover have "step i ((\<lambda>b. b + 8) ` set fs) d d'"
    using step_trans [OF R(3) step_largest, of "{}"] R(3) step_trans [OF R(3), of "{}"] step_largest [of i "{}" ?d1 None]
    by (auto simp: d'_def)
  moreover have "free_largest (md_pages d' ! i) = (if l = b then None else Some l)"
    using R(4) l(1) i by (auto simp: d'_def)
  ultimately show ?thesis using run q(2,3) R(2) by (intro exI [of _ b] exI [of _ d'] exI [of _ "as @ cs"]) auto
qed

section \<open>The largest block\<close>

lemma scan_max:
  "\<exists>p'. seq_scan (mem_dynamic_get_max d) p fs = (fs, [], p') \<and> p' \<in> insert p (set fs) \<and>
     (\<forall>x \<in> insert p (set fs). md_mem d x \<le> md_mem d p')"
proof (induction fs arbitrary: p)
  case (Cons x fs)
  let ?q = "if md_mem d x \<ge> md_mem d p then x else p"
  from Cons [of ?q] obtain p' where p': "seq_scan (mem_dynamic_get_max d) ?q fs = (fs, [], p')"
      "p' \<in> insert ?q (set fs)" "\<forall>y \<in> insert ?q (set fs). md_mem d y \<le> md_mem d p'" by blast
  have "mem_dynamic_get_max d x p = (False, ?q)" by (simp add: mem_dynamic_get_max_def)
  moreover have "md_mem d p \<le> md_mem d ?q" "md_mem d x \<le> md_mem d ?q" by auto
  moreover have "?q \<in> {p, x}" by simp
  ultimately show ?case using p' by (intro exI [of _ p']) (auto simp del: if_split elim: order_trans)
qed simp

lemma set_largest_ok:
  assumes S: "space i d bs" and fs: "set fs \<subseteq> addrs bs" and ok: "free_ok i d fs"
    and none: "free_largest (md_pages d ! i) = None"
  shows "\<exists>d'. set_largest i d = Some d' \<and> free_ok i d' fs \<and> largest_ok i d' fs \<and>
     step i ((\<lambda>b. b + 8) ` set fs) d d'"
proof -
  let ?fl = "pg_flags (md_pages d ! i)" and ?h = "free_list (md_pages d ! i)"
  have i: "i < length (md_pages d)" using S by (simp add: space_def)
  have holds: "sll_holds (page_sll i d) fs" and srt: "page_sorted ?fl (md_mem d) fs"
    using ok by (auto simp: free_ok_def)
  have ends: "head ?h = (if fs = [] then None else Some (hd fs))"
      "tail ?h = (if fs = [] then None else Some (last fs))"
    using holds sll_holds_head [OF holds] by (auto simp: sll_holds_def page_sll_def)
  have set_to: ?thesis if "set_largest i d = Some (upd_page i (\<lambda>p. p\<lparr>free_largest := v\<rparr>) d)"
      "v = None \<longleftrightarrow> fs = []" "\<And>l. v = Some l \<Longrightarrow> l \<in> set fs \<and> (\<forall>x \<in> set fs. md_mem d x \<le> md_mem d l)" for v
  proof -
    let ?d' = "upd_page i (\<lambda>p. p\<lparr>free_largest := v\<rparr>) d"
    have "free_ok i ?d' fs" using ok i by (simp add: free_ok_def page_sll_def)
    moreover have "largest_ok i ?d' fs" using that(2,3) i by (auto simp: largest_ok_def split: option.split)
    ultimately show ?thesis using that(1) step_largest by blast
  qed
  consider "?fl AND MEM_PAGE_DEC \<noteq> 0" | "?fl AND MEM_PAGE_DEC = 0" "?fl AND MEM_PAGE_ASC \<noteq> 0"
    | "?fl AND MEM_PAGE_DEC = 0" "?fl AND MEM_PAGE_ASC = 0" by blast
  then show ?thesis
  proof cases
    case 1
    then have "\<forall>x \<in> set fs. md_mem d x \<le> md_mem d (hd fs)"
      using srt by (cases fs) (auto simp: page_sorted_def)
    then show ?thesis using 1 none ends by (intro set_to [of "head ?h"]) (auto simp: set_largest_def Let_def split: if_splits)
  next
    case 2
    then have "\<forall>x \<in> set fs. md_mem d x \<le> md_mem d (last fs)"
      using srt by (cases fs rule: rev_cases) (auto simp: page_sorted_def sorted_wrt_append)
    then show ?thesis using 2 none ends by (intro set_to [of "tail ?h"]) (auto simp: set_largest_def Let_def split: if_splits)
  next
    case 3
    show ?thesis
    proof (cases fs)
      case Nil
      then show ?thesis using 3 none ends ok
        by (intro exI [of _ d]) (simp add: set_largest_def Let_def largest_ok_def)
    next
      case (Cons h t)
      obtain p' where p': "seq_scan (mem_dynamic_get_max d) h fs = (fs, [], p')" "p' \<in> set fs"
          "\<forall>x \<in> set fs. md_mem d x \<le> md_mem d p'"
        using scan_max [of d h fs] Cons by auto
      then have spec: "seq_search_pop (mem_dynamic_get_max d) h fs = (None, p', fs)"
        by (simp add: seq_search_pop_def)
      obtain q where q: "sll_search_pop (mem_dynamic_get_max d) h (page_sll i d) = Some (None, p', q)"
          "sll_holds q fs" "links_changed_in (set fs) (page_sll i d) q"
        using sll_search_pop_holds [OF holds spec] by blast
      let ?d1 = "set_page_sll i q d" let ?d' = "upd_page i (\<lambda>p. p\<lparr>free_largest := Some p'\<rparr>) ?d1"
      have st: "step i ((\<lambda>b. b + 8) ` set fs) d ?d1" by (rule step_sll [OF q(3)])
      have nz: "0 \<notin> set fs" using space_nonzero [OF S] fs by blast
      have same: "md_mem ?d1 x = md_mem d x" if "x \<in> set fs" for x
        using step_links(1) [OF st S fs] fs that by blast
      have "free_ok i ?d' fs"
        using set_page_sll_holds [OF q(2) nz i] srt same i page_sorted_cong [of fs "md_mem ?d1" "md_mem d"]
        by (simp add: free_ok_def page_sll_def)
      moreover have "largest_ok i ?d' fs" using p'(2,3) same i by (simp add: largest_ok_def)
      moreover have "step i ((\<lambda>b. b + 8) ` set fs) d ?d'"
        using step_trans [OF st step_largest [of i "(\<lambda>b. b + 8) ` set fs"]] by simp
      moreover have "set_largest i d = Some ?d'"
        using 3 none ends Cons q(1) by (simp add: set_largest_def Let_def)
      ultimately show ?thesis by blast
    qed
  qed
qed

end
