(* ===== verification/MemAlloc.thy ===== *)
theory MemAlloc
  imports MemOps
begin

text \<open>
  What an allocation and a release do to the blocks of a page (\<^verbatim>\<open>rtos/mem/mem_dynamic.c\<close>).
\<close>

section \<open>Frames\<close>

definition hdrs :: "block list \<Rightarrow> u32 set" where
  "hdrs bs = (\<Union>b \<in> addrs bs. {b, b + 4, b + 8})"

lemma unat_u32: "unat (x :: u32) < 2 ^ 32"
  using unsigned_less [of x] by simp

lemma in_addrs: "(c, k, l) \<in> set bs \<Longrightarrow> c \<in> addrs bs"
  by (force simp: addrs_def)

lemma hdrs_in: "b \<in> addrs bs \<Longrightarrow> b \<in> hdrs bs \<and> b + 4 \<in> hdrs bs \<and> b + 8 \<in> hdrs bs"
  by (auto simp: hdrs_def)

lemma links_hdrs: "A \<subseteq> addrs bs \<Longrightarrow> (\<lambda>b. b + 8) ` A \<subseteq> hdrs bs"
  by (auto simp: hdrs_def)

lemma described_cong:
  assumes "described m pg bs"
    and "\<And>b n al. (b, n, al) \<in> set bs \<Longrightarrow> m' b = m b \<and> (al \<longrightarrow> m' (b + 8) = m (b + 8))"
  shows "described m' pg bs"
  using assms by (fastforce simp: described_def)

lemma described_simps [simp]:
  "described m pg []"
  "described m pg ((b, n, al) # bs) \<longleftrightarrow> unat (m b) = n \<and> (al \<longrightarrow> m (b + 8) = pg) \<and> described m pg bs"
  "described m pg (xs @ ys) \<longleftrightarrow> described m pg xs \<and> described m pg ys"
  unfolding described_def by (simp_all add: ball_Un)

lemma prevs_cong:
  "(\<And>b. b \<in> addrs bs \<Longrightarrow> m' (b + 4) = m (b + 4)) \<Longrightarrow> prevs_ok m' p bs = prevs_ok m p bs"
  by (induction bs arbitrary: p) auto

definition last_addr :: "u32 option \<Rightarrow> block list \<Rightarrow> u32 option" where
  "last_addr p bs = (if bs = [] then p else Some (fst (last bs)))"

lemma prevs_append: "prevs_ok m p (xs @ ys) \<longleftrightarrow> prevs_ok m p xs \<and> prevs_ok m (last_addr p xs) ys"
  by (induction xs arbitrary: p) (auto simp: last_addr_def)

lemma free_ok_frame:
  assumes "free_ok i d fs" and "free_list (md_pages d' ! i) = free_list (md_pages d ! i)"
    and "pg_flags (md_pages d' ! i) = pg_flags (md_pages d ! i)"
    and "\<And>x. x \<in> set fs \<Longrightarrow> md_mem d' x = md_mem d x \<and> md_mem d' (x + 8) = md_mem d (x + 8)"
  shows "free_ok i d' fs"
proof -
  have holds: "sll_holds (mem_links (md_mem d), free_list (md_pages d ! i)) fs"
    using assms(1) by (simp add: free_ok_def page_sll_def)
  have "mem_links (md_mem d') x = mem_links (md_mem d) x" if "x \<in> set fs" for x
    using assms(4) [OF that] by (simp add: mem_links_def)
  from sll_holds_frame [OF holds this]
  have "sll_holds (mem_links (md_mem d'), free_list (md_pages d ! i)) fs" .
  moreover have "page_sorted fl (md_mem d') fs = page_sorted fl (md_mem d) fs" for fl
    using assms(4) by (intro page_sorted_cong) simp
  ultimately show ?thesis using assms(1-3) by (simp add: free_ok_def page_sll_def)
qed

lemma space_mem [simp]: "space i (d\<lparr>md_mem := m\<rparr>) bs = space i d bs"
  by (simp add: space_def)

lemma hdr_ok_mem [simp]: "hdr_ok (d\<lparr>md_mem := m\<rparr>) b = hdr_ok d b"
  by (simp add: hdr_ok_def)

lemma page_ptr_mem [simp]: "page_ptr (d\<lparr>md_mem := m\<rparr>) i = page_ptr d i"
  by (simp add: page_ptr_def)

text \<open>The last step of an allocation.\<close>

lemma largest_done:
  assumes "space i d bs" "set fs \<subseteq> addrs bs" "free_ok i d fs"
    and "free_largest (md_pages d ! i) = None \<or> largest_ok i d fs"
  shows "\<exists>d'. set_largest i d = Some d' \<and> free_ok i d' fs \<and> largest_ok i d' fs \<and>
     step i ((\<lambda>b. b + 8) ` set fs) d d'"
proof (cases "free_largest (md_pages d ! i)")
  case None
  then show ?thesis using set_largest_ok [OF assms(1-3)] by blast
next
  case (Some l)
  then have "set_largest i d = Some d" by (simp add: set_largest_def Let_def)
  then show ?thesis using Some assms(3,4) by auto
qed

section \<open>Allocating\<close>

definition carve :: "u32 \<Rightarrow> nat \<Rightarrow> nat \<Rightarrow> block list" where
  "carve b n k = (if n - k > 12 then [(b, k, True), (b + of_nat k, n - k, False)] else [(b, n, True)])"

lemma carve_tiles:
  assumes "tiles a (xs @ (b, n, al) # ys) e" "12 \<le> k" "4 dvd k" "k \<le> n" "e < 2 ^ 32"
  shows "tiles a (xs @ carve b n k @ ys) e"
proof -
  have "unat b + n < 2 ^ 32" using assms(1,5) tiles_in [of a "xs @ (b, n, al) # ys" e b n al] by auto
  then have "unat (b + of_nat k) = unat b + k" using assms(4) by (intro unat_add_nat) linarith
  then show ?thesis using assms(1-4) by (auto simp: carve_def tiles_append)
qed

lemma space_same_page:
  assumes "space i d bs" "tiles (unat (base_start (md_pages d ! i))) bs' (unat (base_end (md_pages d ! i)))"
  shows "space i d bs'"
  using assms by (simp add: space_def)

lemma carve_space:
  assumes "space i d (xs @ (b, n, al) # ys)" "12 \<le> k" "4 dvd k" "k \<le> n"
  shows "space i d (xs @ carve b n k @ ys)"
proof -
  have "unat (base_end (md_pages d ! i)) < 2 ^ 32" using unsigned_less [of "base_end (md_pages d ! i)"] by simp
  then show ?thesis
    using carve_tiles [of _ xs b n al ys _ k] assms by (intro space_same_page [OF assms(1)]) (auto simp: space_def)
qed

lemma distinct_addrs:
  assumes "space i d (xs @ (b, n, al) # ys)"
  shows "b \<notin> addrs xs" "b \<notin> addrs ys"
proof -
  have "c \<noteq> b" if c: "(c, k, l) \<in> set (xs @ ys)" for c k l
    using tiles_apart [of _ xs b n al ys _ c k l] assms space_block(7) [OF assms, of b n al] c
      space_block(7) [OF assms, of c k l] by (auto simp: space_def)
  then have "(b, k, l) \<notin> set (xs @ ys)" for k l by blast
  then show "b \<notin> addrs xs" "b \<notin> addrs ys" by (auto simp: addrs_def)
qed

lemma allocated_not_free:
  assumes "space i d bs" "(c, k, True) \<in> set bs"
  shows "c \<notin> free_addrs bs"
proof
  assume "c \<in> free_addrs bs"
  then obtain n where n: "(c, n, False) \<in> set bs" by (auto simp: free_addrs_def)
  from tiles_same [OF _ assms(2) n] assms(1) space_block(7) [OF assms] space_block(7) [OF assms(1) n]
  show False by (fastforce simp: space_def)
qed

text \<open>Changing the links of free blocks leaves the rest of the descriptors.\<close>

lemma links_described:
  assumes st: "step i ((\<lambda>b. b + 8) ` A) d d'" and S: "space j d bs" and A: "A \<subseteq> free_addrs bs"
  shows "described (md_mem d) pg bs \<Longrightarrow> described (md_mem d') pg bs"
    and "prevs_ok (md_mem d) p bs \<Longrightarrow> prevs_ok (md_mem d') p bs"
proof -
  have "A \<subseteq> addrs bs" using A free_addrs_subset by blast
  note keep = step_links [OF st S this]
  have same: "md_mem d' c = md_mem d c \<and> (l \<longrightarrow> md_mem d' (c + 8) = md_mem d (c + 8))" if c: "(c, k, l) \<in> set bs" for c k l
  proof -
    have "c \<notin> A" if l using allocated_not_free [OF S] c that A by auto
    then show ?thesis using keep in_addrs [OF c] by blast
  qed
  show "described (md_mem d) pg bs \<Longrightarrow> described (md_mem d') pg bs"
    by (erule described_cong) (use same in blast)
  show "prevs_ok (md_mem d) p bs \<Longrightarrow> prevs_ok (md_mem d') p bs"
    using prevs_cong [of bs "md_mem d'" "md_mem d"] keep(2) by blast
qed

lemma alloc_finish:
  assumes S: "space i d bs" and D: "described (md_mem d) (page_ptr d i) bs" and V: "prevs_ok (md_mem d) None bs"
    and F: "free_ok i d fs" "set fs = free_addrs bs"
    and L: "free_largest (md_pages d ! i) = None \<or> largest_ok i d fs"
  shows "\<exists>d'. set_largest i d = Some d' \<and> page_ok i d' bs fs \<and> step i (hdrs bs) d d'"
proof -
  have sub: "set fs \<subseteq> addrs bs" using F(2) free_addrs_subset by simp
  obtain d' where d': "set_largest i d = Some d'" "free_ok i d' fs" "largest_ok i d' fs"
      "step i ((\<lambda>b. b + 8) ` set fs) d d'"
    using largest_done [OF S sub F(1) L] by blast
  have "page_ok i d' bs fs"
    using d'(2,3) F(2) S D V step_space [OF d'(4)] stepD(3) [OF d'(4)]
      links_described [OF d'(4) S]
    by (simp add: page_ok_def)
  then show ?thesis using d'(1) step_mono [OF d'(4) links_hdrs [OF sub]] by blast
qed

text \<open>A block \<open>b\<close> that was taken off the list for a request of \<open>sz\<close> bytes.\<close>

definition chosen ::
    "nat \<Rightarrow> u32 \<Rightarrow> MEM_DYNAMIC \<Rightarrow> block list \<Rightarrow> u32 \<Rightarrow> nat \<Rightarrow> block list \<Rightarrow> u32 list \<Rightarrow> bool" where
  "chosen i sz d xs b n ys fs \<longleftrightarrow>
     space i d (xs @ (b, n, False) # ys) \<and> unat sz \<le> n \<and> (12 \<le> unat sz \<and> 4 dvd unat sz) \<and>
     unat (md_mem d b) = n \<and> described (md_mem d) (page_ptr d i) (xs @ ys) \<and>
     prevs_ok (md_mem d) None (xs @ (b, n, False) # ys) \<and> free_ok i d fs \<and> set fs = free_addrs (xs @ ys) \<and>
     (free_largest (md_pages d ! i) = None \<or> largest_ok i d fs) \<and>
     (\<forall>x \<in> set fs. free_largest (md_pages d ! i) \<noteq> None \<longrightarrow> md_mem d b \<le> md_mem d (the (free_largest (md_pages d ! i))))"

lemma chosenD:
  assumes "chosen i sz d xs b n ys fs"
  shows "space i d (xs @ (b, n, False) # ys)" "unat sz \<le> n" "12 \<le> unat sz \<and> 4 dvd unat sz"
    and "unat (md_mem d b) = n" "described (md_mem d) (page_ptr d i) (xs @ ys)"
    and "prevs_ok (md_mem d) None (xs @ (b, n, False) # ys)" "free_ok i d fs" "set fs = free_addrs (xs @ ys)"
    and "free_largest (md_pages d ! i) = None \<or> largest_ok i d fs"
    and "\<forall>x \<in> set fs. free_largest (md_pages d ! i) \<noteq> None \<longrightarrow>
      md_mem d b \<le> md_mem d (the (free_largest (md_pages d ! i)))"
  using assms by (simp_all add: chosen_def)

lemma chosen_facts:
  assumes ch: "chosen i sz d1 xs b n ys fs1"
  shows "space i d1 (xs @ carve b n (unat sz) @ ys)" "b \<in> addrs (xs @ carve b n (unat sz) @ ys)"
    and "unat (md_mem d1 b - sz) = n - unat sz" "b \<notin> set fs1" "set fs1 \<subseteq> addrs (xs @ carve b n (unat sz) @ ys)"
    and "(c, j, al) \<in> set (xs @ ys) \<Longrightarrow> c \<in> addrs (xs @ carve b n (unat sz) @ ys)"
    and "(c, j, al) \<in> set (xs @ ys) \<Longrightarrow> c \<noteq> b"
proof -
  note c = chosenD [OF ch]
  show "space i d1 (xs @ carve b n (unat sz) @ ys)" using carve_space [OF c(1) _ _ c(2)] c(3) by simp
  show "b \<in> addrs (xs @ carve b n (unat sz) @ ys)" by (simp add: carve_def)
  show "unat (md_mem d1 b - sz) = n - unat sz" using c(2,4) by (simp add: unat_sub word_le_nat_alt)
  show "b \<notin> set fs1" using distinct_addrs [OF c(1)] c(8) free_addrs_subset by auto
  show "set fs1 \<subseteq> addrs (xs @ carve b n (unat sz) @ ys)" using c(8) free_addrs_subset by auto
  show "(c, j, al) \<in> set (xs @ ys) \<Longrightarrow> c \<in> addrs (xs @ carve b n (unat sz) @ ys)"
    using in_addrs [of c j al "xs @ ys"] by auto
  show "(c, j, al) \<in> set (xs @ ys) \<Longrightarrow> c \<noteq> b"
    using in_addrs [of c j al "xs @ ys"] distinct_addrs [OF c(1)] by auto
qed

lemma take_from_page:
  assumes ok: "page_ok i d bs fs" and l: "free_largest (md_pages d ! i) = Some l" "sz \<le> md_mem d l"
    and k: "12 \<le> unat sz" "4 dvd unat sz"
  shows "\<exists>xs b n ys d1 fs1. bs = xs @ (b, n, False) # ys \<and> take_block i sz d = Some (Some b, d1) \<and>
     chosen i sz d1 xs b n ys fs1 \<and> step i (hdrs bs) d d1"
proof -
  have S: "space i d bs" and D: "described (md_mem d) (page_ptr d i) bs" and V: "prevs_ok (md_mem d) None bs"
    and F: "free_ok i d fs" and L: "largest_ok i d fs" and fs: "set fs = free_addrs bs"
    using ok by (auto simp: page_ok_def)
  have sub: "set fs \<subseteq> addrs bs" using fs free_addrs_subset by simp
  have l': "l \<in> set fs" "\<forall>x \<in> set fs. md_mem d x \<le> md_mem d l" using L l(1) by (auto simp: largest_ok_def)
  obtain b d1 fs1 where t: "take_block i sz d = Some (Some b, d1)" "b \<in> set fs" "sz \<le> md_mem d b"
      "free_ok i d1 fs1" "set fs1 = set fs - {b}" "step i ((\<lambda>b. b + 8) ` set fs) d d1"
      "free_largest (md_pages d1 ! i) = (if l = b then None else Some l)"
    using take_block_ok [OF S sub F l(1) l' l(2)] by blast
  obtain n where "(b, n, False) \<in> set bs" using t(2) fs by (auto simp: free_addrs_def)
  then obtain xs ys where bs: "bs = xs @ (b, n, False) # ys" by (meson split_list)
  note keep = step_links [OF t(6) S sub]
  have D1: "described (md_mem d1) (page_ptr d i) bs" and V1: "prevs_ok (md_mem d1) None bs"
    using links_described [OF t(6) S] fs D V by auto
  have b: "b \<notin> addrs xs" "b \<notin> addrs ys" using distinct_addrs S bs by blast+
  have fs1: "set fs1 = free_addrs (xs @ ys)"
    using t(5) fs bs b free_addrs_subset [of xs] free_addrs_subset [of ys] by auto
  have same: "md_mem d1 x = md_mem d x" if "x \<in> set fs" for x using keep(1) that sub by blast
  have "free_largest (md_pages d1 ! i) = None \<or> largest_ok i d1 fs1"
    using t(5,7) l' same by (auto simp: largest_ok_def)
  moreover have "\<forall>x \<in> set fs1. free_largest (md_pages d1 ! i) \<noteq> None \<longrightarrow>
      md_mem d1 b \<le> md_mem d1 (the (free_largest (md_pages d1 ! i)))"
    using t(2,7) l' same by auto
  moreover have "step i (hdrs bs) d d1" by (rule step_mono [OF t(6) links_hdrs [OF sub]])
  moreover have "unat sz \<le> n" "unat (md_mem d1 b) = n"
    using t(2,3) D bs same by (auto simp: word_le_nat_alt)
  moreover have "space i d1 bs" "page_ptr d1 i = page_ptr d i" using S step_space [OF t(6)] stepD(3) [OF t(6)] by auto
  moreover have "described (md_mem d1) (page_ptr d i) (xs @ ys)" using D1 bs by simp
  ultimately have "chosen i sz d1 xs b n ys fs1" "step i (hdrs bs) d d1"
    using bs t(4) V1 fs1 k by (simp_all add: chosen_def)
  then show ?thesis using bs t(1) by blast
qed

text \<open>The block is used as a whole, or its end goes back to the list.\<close>

lemma alloc_whole:
  assumes ch: "chosen i sz d1 xs b n ys fs1" and False: "\<not> n - unat sz > 12"
  shows "\<exists>d' fs'. set_largest i (d1\<lparr>md_mem := (md_mem d1)(b + 8 := page_ptr d1 i)\<rparr>) = Some d' \<and>
     page_ok i d' (xs @ carve b n (unat sz) @ ys) fs' \<and> step i (hdrs (xs @ carve b n (unat sz) @ ys)) d1 d'"
proof -
  let ?k = "unat sz" and ?w = "md_mem d1 b" and ?pg = "page_ptr d1 i"
  let ?bs' = "xs @ carve b n ?k @ ys"
  note c = chosenD [OF ch] and facts = chosen_facts [OF ch]
  note S' = facts(1) and b = facts(2) and bfs = facts(4) and sub = facts(5) and others = facts(6,7)
  let ?d2 = "d1\<lparr>md_mem := (md_mem d1)(b + 8 := ?pg)\<rparr>"
  have bs': "?bs' = xs @ (b, n, True) # ys" using False by (simp add: carve_def)
  note apart = space_apart [OF S']
  have ne: "c \<noteq> b + 8" "c + 4 \<noteq> b + 8" if "c \<in> addrs ?bs'" for c using apart that b by blast+
  have "md_mem ?d2 c = md_mem d1 c \<and> (al \<longrightarrow> md_mem ?d2 (c + 8) = md_mem d1 (c + 8))"
    if "(c, j, al) \<in> set (xs @ ys)" for c j al
    using ne(1) [OF others(1) [OF that]] others(2) [OF that] by simp
  then have "described (md_mem ?d2) ?pg (xs @ ys)" by (rule described_cong [OF c(5)])
  then have D2: "described (md_mem ?d2) (page_ptr ?d2 i) ?bs'" using c(4) b ne(1) by (simp add: bs')
  have "prevs_ok (md_mem ?d2) None ?bs' = prevs_ok (md_mem d1) None ?bs'"
    using ne(2) by (intro prevs_cong) simp
  then have V2: "prevs_ok (md_mem ?d2) None ?bs'" using c(6) by (simp add: prevs_append bs')
  have F2: "free_ok i ?d2 fs1" using bfs sub ne(1) by (intro free_ok_frame [OF c(7)]) auto
  have "largest_ok i d1 fs1 \<Longrightarrow> largest_ok i ?d2 fs1"
    using sub ne(1) by (auto simp: largest_ok_def split: option.splits)
  then have L2: "free_largest (md_pages ?d2 ! i) = None \<or> largest_ok i ?d2 fs1" using c(9) by auto
  have "set fs1 = free_addrs ?bs'" using c(8) by (simp add: bs')
  then obtain d' where d': "set_largest i ?d2 = Some d'" "page_ok i d' ?bs' fs1" "step i (hdrs ?bs') ?d2 d'"
    using alloc_finish [OF _ D2 V2 F2 _ L2] S' by auto
  have "step i (hdrs ?bs') d1 ?d2" by (rule step_mem) (use hdrs_in [OF b] in blast)
  from step_trans [OF this d'(3)] show ?thesis using d'(1,2) by auto
qed

text \<open>The descriptors after a block was cut at \<open>r\<close>.\<close>

definition cut :: "nat \<Rightarrow> u32 \<Rightarrow> u32 \<Rightarrow> MEM_DYNAMIC \<Rightarrow> MEM_DYNAMIC" where
  "cut i sz b d = (let r = b + sz in
     d\<lparr>md_mem := (md_mem d)(b + 8 := page_ptr d i, b := sz, r + 4 := r, r := md_mem d b - sz)\<rparr>)"

lemma cut_descr:
  assumes ch: "chosen i sz d1 xs b n ys fs1" and True: "n - unat sz > 12" and ys: "ys = []"
  defines "r \<equiv> b + sz" and "d3 \<equiv> cut i sz b d1" and "bs' \<equiv> xs @ carve b n (unat sz) @ ys"
  shows "bs' = xs @ [(b, unat sz, True), (r, n - unat sz, False)]" "r \<in> addrs bs'" "r \<notin> set fs1"
    and "described (md_mem d3) (page_ptr d1 i) bs'" "prevs_ok (md_mem d3) None bs'" "free_ok i d3 fs1"
    and "md_mem d3 r = md_mem d1 b - sz" "x \<in> set fs1 \<Longrightarrow> md_mem d3 x = md_mem d1 x" "step i (hdrs bs') d1 d3"
proof -
  let ?k = "unat sz" and ?w = "md_mem d1 b" and ?pg = "page_ptr d1 i"
  let ?bs' = "xs @ carve b n ?k @ ys"
  note c = chosenD [OF ch] and facts = chosen_facts [OF ch]
  note S' = facts(1) and b = facts(2) and rem = facts(3) and bfs = facts(4) and sub = facts(5) and others = facts(6,7)
  let ?rr = "?w - sz"
  have d3: "d3 = d1\<lparr>md_mem := (md_mem d1)(b + 8 := ?pg, b := sz, r + 4 := r, r := ?rr)\<rparr>"
    by (simp add: d3_def cut_def r_def Let_def)
  have bs': "?bs' = xs @ [(b, ?k, True), (r, n - ?k, False)]" using True by (simp add: carve_def r_def ys)
  have r: "r \<in> addrs ?bs'" "r \<notin> addrs xs" "r \<noteq> b"
    using distinct_addrs [of i d1 "xs @ [(b, ?k, True)]" r "n - ?k" False "[]"] S' by (auto simp: bs')
  have rfs: "r \<notin> set fs1" using r(2) c(8) ys free_addrs_subset by auto
  note apart = space_apart [OF S']
  have nb: "c \<noteq> b + 8" "c + 4 \<noteq> b + 8" "c + 8 \<noteq> b" "c + 4 \<noteq> b" if "c \<in> addrs ?bs'" for c
    using apart that b by blast+
  have nr: "c \<noteq> r + 4" "c + 8 \<noteq> r + 4" "c + 8 \<noteq> r" "c + 4 \<noteq> r" if "c \<in> addrs ?bs'" for c
    using apart that r(1) by blast+
  have keep: "md_mem d3 c = md_mem d1 c" "md_mem d3 (c + 8) = md_mem d1 (c + 8)" "md_mem d3 (c + 4) = md_mem d1 (c + 4)"
    if "c \<in> addrs ?bs'" "c \<noteq> b" "c \<noteq> r" for c
    using nb [OF that(1)] nr [OF that(1)] that(2,3) by (simp_all add: d3)
  have own: "md_mem d3 b = sz" "md_mem d3 (b + 8) = ?pg" "md_mem d3 (b + 4) = md_mem d1 (b + 4)"
      "md_mem d3 r = ?rr" "md_mem d3 (r + 4) = r"
    using nb [OF b] nb [OF r(1)] nr [OF b] nr [OF r(1)] r(3) by (simp_all add: d3)
  have noR: "c \<noteq> r" if "(c, j, al) \<in> set (xs @ ys)" for c j al
    using in_addrs [OF that] r(2) ys by auto
  have "md_mem d3 c = md_mem d1 c \<and> (al \<longrightarrow> md_mem d3 (c + 8) = md_mem d1 (c + 8))"
    if "(c, j, al) \<in> set (xs @ ys)" for c j al
    using keep(1,2) [OF others [OF that] noR [OF that]] by simp
  then have "described (md_mem d3) ?pg (xs @ ys)" by (rule described_cong [OF c(5)])
  then have D3: "described (md_mem d3) ?pg ?bs'" unfolding bs' using own rem by (simp add: ys)
  have "prevs_ok (md_mem d3) None xs = prevs_ok (md_mem d1) None xs"
    using keep(3) distinct_addrs(1) [OF c(1)] r(2) by (intro prevs_cong) (auto simp: bs')
  then have V3: "prevs_ok (md_mem d3) None ?bs'" using c(6) own by (simp add: prevs_append bs')
  have F3: "free_ok i d3 fs1"
  proof (rule free_ok_frame [OF c(7)])
    fix x assume "x \<in> set fs1"
    then have "x \<in> addrs ?bs'" "x \<noteq> b" "x \<noteq> r" using sub bfs rfs by auto
    then show "md_mem d3 x = md_mem d1 x \<and> md_mem d3 (x + 8) = md_mem d1 (x + 8)" using keep(1,2) by blast
  qed (simp_all add: d3)
  show "bs' = xs @ [(b, unat sz, True), (r, n - unat sz, False)]" using bs' by (simp add: bs'_def)
  show "r \<in> addrs bs'" "r \<notin> set fs1" using r(1) rfs by (simp_all add: bs'_def)
  show "described (md_mem d3) (page_ptr d1 i) bs'" "prevs_ok (md_mem d3) None bs'" "free_ok i d3 fs1"
    using D3 V3 F3 by (simp_all add: bs'_def)
  show "md_mem d3 r = md_mem d1 b - sz" by (rule own(4))
  show "x \<in> set fs1 \<Longrightarrow> md_mem d3 x = md_mem d1 x" using keep(1) sub bfs rfs by blast
  show "step i (hdrs bs') d1 d3"
    using hdrs_in [OF b] hdrs_in [OF r(1)] by (auto simp: step_def d3 bs'_def)
qed

lemma alloc_split:
  assumes ch: "chosen i sz d1 xs b n ys fs1" and True: "n - unat sz > 12" and ys: "ys = []"
  shows "\<exists>d2 d' fs'. split_block i b sz (md_mem d1 b - sz) (d1\<lparr>md_mem := (md_mem d1)(b + 8 := page_ptr d1 i)\<rparr>) = Some d2 \<and>
     set_largest i d2 = Some d' \<and> page_ok i d' (xs @ carve b n (unat sz) @ ys) fs' \<and>
     step i (hdrs (xs @ carve b n (unat sz) @ ys)) d1 d'"
proof -
  let ?k = "unat sz" and ?w = "md_mem d1 b" and ?pg = "page_ptr d1 i"
  let ?bs' = "xs @ carve b n ?k @ ys" and ?d2 = "d1\<lparr>md_mem := (md_mem d1)(b + 8 := ?pg)\<rparr>"
  define r d3 where "r = b + sz" and "d3 = cut i sz b d1"
  note c = chosenD [OF ch] and facts = chosen_facts [OF ch]
  note S' = facts(1) and b = facts(2) and rem = facts(3) and sub = facts(5)
  note cd = cut_descr [OF ch True ys, folded r_def d3_def]
  have hdr: "hdr_ok d1 b" by (rule space_hdr [OF S' b])
  have d3: "md_pages d3 = md_pages d1" "page_ptr d3 i = ?pg" by (simp_all add: d3_def cut_def Let_def)
  have S3: "space i d3 ?bs'" using step_space [OF cd(9)] S' by simp
  obtain d4 fs2 where d4: "page_insert i r d3 = Some d4" "free_ok i d4 fs2" "set fs2 = insert r (set fs1)"
      "step i ((\<lambda>b. b + 8) ` insert r (set fs1)) d3 d4"
      "free_largest (md_pages d4 ! i) = free_largest (md_pages d3 ! i)"
    using page_insert_ok [OF S3 cd(2,3) sub cd(6)] by blast
  have new: "insert r (set fs1) = free_addrs ?bs'" unfolding cd(1) using c(8) by (simp add: ys)
  have pg4: "page_ptr d4 i = ?pg" using stepD(3) [OF d4(4)] d3 by simp
  have "unat b + n < 2 ^ 32"
    using space_block(5) [OF c(1), of b n False] unat_u32 [of "base_end (md_pages d1 ! i)"] by simp
  moreover have "of_nat n = ?w" by (simp flip: c(4))
  ultimately have "unat (b + ?w) = unat b + n" using unat_add_nat [of b n] by simp
  moreover have "unat b + n = unat (base_end (md_pages d1 ! i))"
    using c(1) ys by (auto simp: space_def tiles_append)
  ultimately have "\<not> r + (?w - sz) < base_end (md_pages d1 ! i)" by (simp add: r_def word_less_nat_alt)
  then have run: "split_block i b sz (?w - sz) ?d2 = Some d4"
    using hdr space_hdr [OF S' cd(2)] d4(1) by (simp add: split_block_def Let_def r_def d3_def cut_def)
  have L4: "free_largest (md_pages d4 ! i) = None \<or> largest_ok i d4 fs2"
  proof (cases "free_largest (md_pages d1 ! i)")
    case None
    then show ?thesis using d4(5) d3 by simp
  next
    case (Some l)
    have l: "l \<in> set fs1" "\<forall>x \<in> set fs1. md_mem d1 x \<le> md_mem d1 l" "?w \<le> md_mem d1 l"
      using Some c(9,10) by (auto simp: largest_ok_def)
    have "md_mem d4 x = md_mem d3 x" if "x \<in> insert r (set fs1)" for x
      using step_links(1) [OF d4(4) S3] that new free_addrs_subset [of ?bs'] by blast
    moreover have "?w - sz \<le> ?w" using rem c(4) by (simp add: word_le_nat_alt)
    ultimately show ?thesis
      using Some l cd(7,8) d4(3,5) d3 by (auto simp: largest_ok_def elim: order_trans)
  qed
  obtain d' where d': "set_largest i d4 = Some d'" "page_ok i d' ?bs' fs2" "step i (hdrs ?bs') d4 d'"
    using alloc_finish [of i d4 ?bs' fs2] step_space [OF d4(4)] S3 links_described [OF d4(4) S3] new cd(4,5)
      d4(2,3) L4 pg4 by auto
  note cd(9)
  moreover have "step i (hdrs ?bs') d3 d4"
    using new free_addrs_subset by (intro step_mono [OF d4(4)] links_hdrs) auto
  ultimately have "step i (hdrs ?bs') d1 d'"
    using d'(3) step_trans [of i "hdrs ?bs'" d1 d3 "hdrs ?bs'" d4] step_trans [of i "hdrs ?bs'" d1 d4 "hdrs ?bs'" d'] by simp
  then show ?thesis using d'(1,2) run by blast
qed

lemma alloc_from_ok:
  assumes ok: "page_ok i d bs fs" and l: "free_largest (md_pages d ! i) = Some l" "sz \<le> md_mem d l"
    and k: "12 \<le> unat sz" "4 dvd unat sz"
    and last: "\<And>xs b n ys. bs = xs @ (b, n, False) # ys \<Longrightarrow> unat sz + 12 < n \<Longrightarrow> ys = []"
  shows "\<exists>xs b n ys d' fs'. bs = xs @ (b, n, False) # ys \<and> unat sz \<le> n \<and>
     alloc_from i sz d = Some (Some (b + 12), d') \<and> page_ok i d' (xs @ carve b n (unat sz) @ ys) fs' \<and>
     step i (hdrs bs \<union> hdrs (xs @ carve b n (unat sz) @ ys)) d d'"
proof -
  obtain xs b n ys d1 fs1 where t: "bs = xs @ (b, n, False) # ys"
     "take_block i sz d = Some (Some b, d1)" "chosen i sz d1 xs b n ys fs1" "step i (hdrs bs) d d1"
    using take_from_page [OF ok l k] by blast
  let ?bs' = "xs @ carve b n (unat sz) @ ys" and ?d2 = "d1\<lparr>md_mem := (md_mem d1)(b + 8 := page_ptr d1 i)\<rparr>"
  have hdr: "hdr_ok d1 b" by (rule space_hdr [OF chosen_facts(1,2) [OF t(3)]])
  have cond: "md_mem d1 b - sz > MEM_DYN_MIN_MEM \<longleftrightarrow> n - unat sz > 12"
    by (simp add: MEM_DYN_MIN_MEM_def word_less_nat_alt chosen_facts(3) [OF t(3)])
  have "\<exists>d2 d' fs'. (if md_mem d1 b - sz > MEM_DYN_MIN_MEM then split_block i b sz (md_mem d1 b - sz) ?d2
        else Some ?d2) = Some d2 \<and> set_largest i d2 = Some d' \<and> page_ok i d' ?bs' fs' \<and> step i (hdrs ?bs') d1 d'"
    using alloc_whole [OF t(3)] alloc_split [OF t(3)] last [OF t(1)] cond by (cases "n - unat sz > 12") auto
  then obtain d2 d' fs' where r: "(if md_mem d1 b - sz > MEM_DYN_MIN_MEM then split_block i b sz (md_mem d1 b - sz) ?d2
        else Some ?d2) = Some d2" "set_largest i d2 = Some d'" "page_ok i d' ?bs' fs'" "step i (hdrs ?bs') d1 d'" by blast
  have "alloc_from i sz d = Some (Some (b + 12), d')"
    using t(2) hdr r(1,2) by (simp add: alloc_from_def Let_def)
  then show ?thesis using t(1) chosenD(2) [OF t(3)] r(3) step_trans [OF t(4) r(4)] by blast
qed

end
