(* ===== verification/MemFree.thy ===== *)
theory MemFree
  imports MemAlloc
begin

text \<open>
  Giving a block back to its page (\<^verbatim>\<open>mem_dynamic_dealloc_region\<close> of \<^verbatim>\<open>rtos/mem/mem_dynamic.c\<close>): it is
  merged with the free block behind it, and with the one before it if its \<^verbatim>\<open>phy_prev\<close> names that.
\<close>

section \<open>Merging two blocks\<close>

lemma next_addr:
  assumes "space i d (xs @ (b, n, al) # ys)" "unat w = n"
  shows "b + w < base_end (md_pages d ! i) \<longleftrightarrow> ys \<noteq> []"
    and "ys = (c, k, l) # zs \<Longrightarrow> b + w = c"
proof -
  let ?e = "base_end (md_pages d ! i)"
  have "unat b + n < 2 ^ 32" using space_block(5) [OF assms(1), of b n al] unat_u32 [of ?e] by simp
  then have u: "unat (b + w) = unat b + n" using unat_add_nat [of b n] assms(2) by auto
  have t: "tiles (unat b + n) ys (unat ?e)" using assms(1) by (auto simp: space_def tiles_append)
  then show "b + w < ?e \<longleftrightarrow> ys \<noteq> []"
    using u tiles_le by (cases ys) (fastforce simp: word_less_nat_alt)+
  show "ys = (c, k, l) # zs \<Longrightarrow> b + w = c" using t u by (simp add: word_unat_eq_iff)
qed

lemma tiles_distinct: "tiles a bs e \<Longrightarrow> distinct (map fst bs)"
proof (induction a bs e rule: tiles.induct)
  case (2 a b n al bs e)
  then have "b \<notin> fst ` set bs" using tiles_in [of "a + n" bs e b] by fastforce
  then show ?case using 2 by simp
qed simp

lemma space_disjoint: "space i d (xs @ ys) \<Longrightarrow> addrs xs \<inter> addrs ys = {}"
  using tiles_distinct [of _ "xs @ ys"] by (auto simp: space_def addrs_def)

text \<open>The stores that make the block \<open>c\<close> absorb the block \<open>b\<close> behind it.\<close>

definition absorbed :: "u32 \<Rightarrow> u32 \<Rightarrow> block list \<Rightarrow> (u32 \<Rightarrow> u32) \<Rightarrow> u32 \<Rightarrow> u32" where
  "absorbed c b ys m =
     (case ys of [] \<Rightarrow> m(c := m c + m b) | (e, _, _) # _ \<Rightarrow> m(c := m c + m b, e + 4 := c))"

lemma absorb:
  assumes S: "space i d (xs @ (c, k, a1) # (b, n, a2) # ys)" and D: "described m pg (xs @ ys)"
    and V: "prevs_ok m None (xs @ (c, k, a1) # (b, n, a2) # ys)" and size: "unat (m c) = k" "unat (m b) = n"
  shows "space i d (xs @ (c, k + n, al) # ys)" "described (absorbed c b ys m) pg (xs @ ys)"
    and "unat (absorbed c b ys m c) = k + n" "prevs_ok (absorbed c b ys m) None (xs @ (c, k + n, al) # ys)"
    and "x \<in> addrs (xs @ (b, n, a2) # ys) \<Longrightarrow> absorbed c b ys m x = m x"
    and "x \<in> addrs (xs @ (c, k, a1) # (b, n, a2) # ys) \<Longrightarrow> absorbed c b ys m (x + 8) = m (x + 8)"
    and "x \<notin> hdrs (xs @ (c, k, a1) # (b, n, a2) # ys) \<Longrightarrow> absorbed c b ys m x = m x"
proof -
  let ?bs = "xs @ (c, k, a1) # (b, n, a2) # ys" and ?m = "absorbed c b ys m"
  note apart = space_apart [OF S]
  have ne: "c \<notin> addrs (xs @ (b, n, a2) # ys)" using distinct_addrs [OF S] by simp
  have c: "c \<in> addrs ?bs" by simp
  show S': "space i d (xs @ (c, k + n, al) # ys)"
    using S by (intro space_same_page [OF S]) (auto simp: space_def tiles_append add.assoc)
  have keep: "?m x = m x" if x: "x \<in> addrs (xs @ (b, n, a2) # ys)" for x
  proof -
    have xb: "x \<in> addrs ?bs" using x by auto
    have "x \<noteq> e + 4" if "ys = (e, j, l) # zs" for e j l zs using apart(1) [OF xb, of e] that by simp
    then show ?thesis using ne x by (auto simp: absorbed_def split: list.splits)
  qed
  then show "x \<in> addrs (xs @ (b, n, a2) # ys) \<Longrightarrow> ?m x = m x" .
  have keep8: "?m (x + 8) = m (x + 8)" if x: "x \<in> addrs ?bs" for x
  proof -
    have "x + 8 \<noteq> e + 4" if "ys = (e, j, l) # zs" for e j l zs using apart(4) [OF x, of e] that by simp
    moreover have "x + 8 \<noteq> c" using apart(6) [OF x c] .
    ultimately show ?thesis by (auto simp: absorbed_def split: list.splits)
  qed
  then show "x \<in> addrs ?bs \<Longrightarrow> ?m (x + 8) = m (x + 8)" .
  have "?m z = m z \<and> (l \<longrightarrow> ?m (z + 8) = m (z + 8))" if "(z, j, l) \<in> set (xs @ ys)" for z j l
    using keep [of z] keep8 [of z] in_addrs [OF that] by auto
  then show "described ?m pg (xs @ ys)" by (rule described_cong [OF D])
  have "unat c + (k + n) < 2 ^ 32"
    using space_block(5) [OF S', of c "k + n" al] unat_u32 [of "base_end (md_pages d ! i)"] by simp
  then have "unat (m c + m b) = k + n" using size by (simp add: unat_word_ariths take_bit_eq_mod)
  moreover have "c \<noteq> e + 4" if "ys = (e, j, l) # zs" for e j l zs using apart(1) [OF c, of e] that by simp
  ultimately show "unat (?m c) = k + n" by (auto simp: absorbed_def split: list.splits)
  have keep4: "?m (x + 4) = m (x + 4)" if "x \<in> addrs ?bs" "x \<notin> addrs ys" for x
    using apart(5) [OF that(1) c] that(2) by (auto simp: absorbed_def split: list.splits)
  have dis: "addrs xs \<inter> addrs ys = {}" "b \<notin> addrs ys" "c \<notin> addrs ys"
    using space_disjoint [OF S] space_disjoint [of i d "xs @ [(c, k, a1)]" "(b, n, a2) # ys"]
      space_disjoint [of i d "xs @ [(c, k, a1), (b, n, a2)]" ys] S by auto
  have xs: "prevs_ok ?m None xs = prevs_ok m None xs"
    using keep4 dis(1) by (intro prevs_cong) auto
  have "prevs_ok ?m (Some c) ys"
  proof (cases ys)
    case (Cons y zs)
    obtain e j l where y: "y = (e, j, l)" by (cases y)
    have e: "e \<in> addrs ?bs" "e \<notin> addrs zs"
      using Cons y space_disjoint [of i d "xs @ [(c, k, a1), (b, n, a2), (e, j, l)]" zs] S by auto
    have "?m (x + 4) = m (x + 4)" if "x \<in> addrs zs" for x
      using that e(2) apart(5) [OF _ c, of x] Cons y by (auto simp: absorbed_def)
    then have "prevs_ok ?m (Some e) zs = prevs_ok m (Some e) zs" by (rule prevs_cong)
    then show ?thesis using V Cons y by (simp add: prevs_append absorbed_def)
  qed simp
  then show "prevs_ok ?m None (xs @ (c, k + n, al) # ys)"
    using V xs keep4 [OF c dis(3)] by (simp add: prevs_append)
  show "x \<notin> hdrs ?bs \<Longrightarrow> ?m x = m x"
    using hdrs_in [OF c] hdrs_in [of _ ?bs] by (auto simp: absorbed_def split: list.splits)
qed

section \<open>A block that is being freed\<close>

definition largest_upto :: "nat \<Rightarrow> MEM_DYNAMIC \<Rightarrow> u32 list \<Rightarrow> u32 \<Rightarrow> bool" where
  "largest_upto i d fs b \<longleftrightarrow>
     (case free_largest (md_pages d ! i) of
        None \<Rightarrow> fs = []
      | Some l \<Rightarrow> (l \<in> set fs \<or> l = b) \<and> (\<forall>x \<in> set fs. md_mem d x \<le> md_mem d l))"

text \<open>The block \<open>b\<close> is off the list, whatever its link.\<close>

definition loose ::
    "nat \<Rightarrow> MEM_DYNAMIC \<Rightarrow> block list \<Rightarrow> u32 \<Rightarrow> nat \<Rightarrow> block list \<Rightarrow> u32 list \<Rightarrow> bool" where
  "loose i d xs b n ys fs \<longleftrightarrow>
     space i d (xs @ (b, n, True) # ys) \<and> described (md_mem d) (page_ptr d i) (xs @ ys) \<and>
     unat (md_mem d b) = n \<and> prevs_ok (md_mem d) None (xs @ (b, n, True) # ys) \<and>
     free_ok i d fs \<and> set fs = free_addrs (xs @ ys) \<and> largest_upto i d fs b"

lemma looseD:
  assumes "loose i d xs b n ys fs"
  shows "space i d (xs @ (b, n, al) # ys)" "described (md_mem d) (page_ptr d i) (xs @ ys)"
    and "unat (md_mem d b) = n" "prevs_ok (md_mem d) None (xs @ (b, n, al) # ys)"
    and "free_ok i d fs" "set fs = free_addrs (xs @ ys)" "largest_upto i d fs b"
  using assms by (simp_all add: loose_def space_def tiles_append prevs_append)

text \<open>A free block does not look allocated.\<close>

lemma free_not_page:
  assumes "space i d bs" "free_ok i d fs" "set fs \<subseteq> addrs bs" "x \<in> set fs"
  shows "md_mem d (x + 8) \<noteq> page_ptr d i"
proof
  assume eq: "md_mem d (x + 8) = page_ptr d i"
  obtain n al where "(x, n, al) \<in> set bs" using assms(3,4) by (meson addrsE subsetD)
  then have "page_ptr d i \<noteq> 0" by (rule space_block(4) [OF assms(1)])
  then have "mem_links (md_mem d) x = Some (page_ptr d i)" using eq by (simp add: mem_links_def ptr_def)
  then have "page_ptr d i \<in> set fs"
    using assms(2,4) lseg_next_in [of "mem_links (md_mem d)" _ fs x] by (auto simp: free_ok_def sll_holds_def page_sll_def)
  then obtain k l where "(page_ptr d i, k, l) \<in> set bs" using assms(3) by (meson addrsE subsetD)
  from space_block(3) [OF assms(1) this] show False by simp
qed

text \<open>Taking a given block off the list.\<close>

lemma remove_block:
  assumes S: "space i d bs" and fs: "set fs \<subseteq> addrs bs" and ok: "free_ok i d fs" and c: "c \<in> set fs"
  shows "\<exists>q fs'. sll_remove (Some c) (page_sll i d) = Some (Some c, q) \<and>
     free_ok i (set_page_sll i q d) fs' \<and> set fs' = set fs - {c} \<and>
     step i ((\<lambda>b. b + 8) ` set fs) d (set_page_sll i q d) \<and>
     free_largest (md_pages (set_page_sll i q d) ! i) = free_largest (md_pages d ! i)"
proof -
  obtain as cs where f: "fs = as @ c # cs" "c \<notin> set as" using c by (meson split_list_first)
  have holds: "sll_holds (page_sll i d) fs" using ok by (simp add: free_ok_def)
  obtain q where q: "sll_remove (Some c) (page_sll i d) = Some (Some c, q)" "sll_holds q (as @ cs)"
      "links_changed_in (set fs) (page_sll i d) q"
    using sll_remove_holds [OF holds, of c] c f by (auto simp: remove1_append)
  show ?thesis using remove_sll [OF S fs ok q(2) f(1) q(3)] q(1) by blast
qed

text \<open>
  The blocks \<open>c\<close> and \<open>b\<close> behind it become one, after \<open>r\<close>, the one of them that is on the list, was
  taken off.
\<close>

definition merged :: "nat \<Rightarrow> u32 \<Rightarrow> u32 \<Rightarrow> block list \<Rightarrow> MEM_DYNAMIC \<Rightarrow> MEM_DYNAMIC" where
  "merged i c b ys d = (let d' = d\<lparr>md_mem := absorbed c b ys (md_mem d)\<rparr> in
     if free_largest (md_pages d ! i) = Some b then upd_page i (\<lambda>p. p\<lparr>free_largest := Some c\<rparr>) d' else d')"

lemma merged_sel [simp]: "md_mem (merged i c b ys d) = absorbed c b ys (md_mem d)"
  by (simp add: merged_def Let_def)

lemma merged_step:
  assumes "\<And>x. x \<notin> A \<Longrightarrow> absorbed c b ys (md_mem d) x = md_mem d x"
  shows "step i A d (merged i c b ys d)"
proof -
  have "step i A d (d\<lparr>md_mem := absorbed c b ys (md_mem d)\<rparr>)" using assms by (simp add: step_def)
  then show ?thesis using step_trans [OF _ step_largest, of i A d _ "{}"] by (simp add: merged_def Let_def)
qed

lemma merged_loose:
  assumes S: "space i d (xs @ (c, k, a1) # (b, n, a2) # ys)" and D: "described (md_mem d) (page_ptr d i) (xs @ ys)"
    and size: "unat (md_mem d c) = k" "unat (md_mem d b) = n"
    and V: "prevs_ok (md_mem d) None (xs @ (c, k, a1) # (b, n, a2) # ys)"
    and F: "free_ok i d fs" "set fs = free_addrs (xs @ ys)"
    and L: "free_largest (md_pages d ! i) = Some l" "l \<in> set fs \<or> l = b \<or> l = c" "\<forall>x \<in> set fs. md_mem d x \<le> md_mem d l"
  shows "loose i (merged i c b ys d) xs c (k + n) ys fs"
    and "step i (hdrs (xs @ (c, k, a1) # (b, n, a2) # ys)) d (merged i c b ys d)"
proof -
  let ?m = "absorbed c b ys (md_mem d)" and ?d' = "merged i c b ys d" and ?bs = "xs @ (c, k, a1) # (b, n, a2) # ys"
  note ab = absorb [OF S D V size]
  show st: "step i (hdrs ?bs) d ?d'" by (rule merged_step) (rule ab(7))
  have i: "i < length (md_pages d)" using S by (simp add: space_def)
  have same: "?m x = md_mem d x" "?m (x + 8) = md_mem d (x + 8)" if "x \<in> set fs" for x
    using ab(5,6) that F(2) free_addrs_subset [of xs] free_addrs_subset [of ys] by auto
  have "free_ok i ?d' fs"
    using same i by (intro free_ok_frame [OF F(1)]) (simp_all add: merged_def Let_def)
  moreover have "largest_upto i ?d' fs c"
  proof -
    have big: "md_mem d b \<le> ?m c" "md_mem d c \<le> ?m c"
      using ab(3) size by (simp_all add: word_le_nat_alt)
    have lg: "free_largest (md_pages ?d' ! i) = Some (if l = b then c else l)"
      using L(1) i by (simp add: merged_def Let_def)
    have cb: "b \<noteq> c" using distinct_addrs(2) [OF S] by auto
    then have "b \<notin> set fs" "c \<notin> set fs"
      using F(2) distinct_addrs [OF S] distinct_addrs [of i d "xs @ [(c, k, a1)]" b n a2 ys] S
        free_addrs_subset [of xs] free_addrs_subset [of ys] by auto
    then show ?thesis
      using L(2,3) lg same(1) big by (auto simp: largest_upto_def elim: order_trans)
  qed
  ultimately show "loose i ?d' xs c (k + n) ys fs"
    using ab(1-4) F(2) step_space [OF st] stepD(3) [OF st] by (simp add: loose_def)
qed

text \<open>The store to the \<^verbatim>\<open>phy_prev\<close> of the block behind both.\<close>

lemma merged_store:
  assumes S: "space i d (xs @ (c, k, a1) # (b, n, a2) # ys)" and size: "unat (md_mem d c) = k" "unat (md_mem d b) = n"
    and w: "w = md_mem d c + md_mem d b"
  shows "(if c + w < base_end (md_pages d ! i) then store_phy_prev (c + w) c (d\<lparr>md_mem := (md_mem d)(c := w)\<rparr>)
      else Some (d\<lparr>md_mem := (md_mem d)(c := w)\<rparr>)) = Some (d\<lparr>md_mem := absorbed c b ys (md_mem d)\<rparr>)"
    and "(if b + md_mem d b < base_end (md_pages d ! i) then store_phy_prev (b + md_mem d b) c d else Some d) =
      Some (d\<lparr>md_mem := (absorbed c b ys (md_mem d))(c := md_mem d c)\<rparr>)"
    and "(absorbed c b ys (md_mem d))(c := md_mem d c + md_mem d b) = absorbed c b ys (md_mem d)"
proof -
  have S2: "space i d (xs @ (c, k + n, True) # ys)"
    using S by (intro space_same_page [OF S]) (auto simp: space_def tiles_append add.assoc)
  have sum: "unat w = k + n"
    using size w space_block(5) [OF S2, of c "k + n" True] unat_u32 [of "base_end (md_pages d ! i)"]
    by (simp add: unat_word_ariths take_bit_eq_mod)
  have next2: "space i d ((xs @ [(c, k, a1)]) @ (b, n, a2) # ys)" using S by simp
  note nxt = next_addr [OF S2 sum] and nxt2 = next_addr [OF next2 size(2)]
  have e: "hdr_ok d e" "e + 4 \<noteq> c" if "ys = (e, j, l) # zs" for e j l zs
    using space_hdr [OF S, of e] space_apart(5) [OF S, of e c] that by auto
  show "(if c + w < base_end (md_pages d ! i) then store_phy_prev (c + w) c (d\<lparr>md_mem := (md_mem d)(c := w)\<rparr>)
      else Some (d\<lparr>md_mem := (md_mem d)(c := w)\<rparr>)) = Some (d\<lparr>md_mem := absorbed c b ys (md_mem d)\<rparr>)"
    using nxt e w by (cases ys) (auto simp: absorbed_def)
  show "(if b + md_mem d b < base_end (md_pages d ! i) then store_phy_prev (b + md_mem d b) c d else Some d) =
      Some (d\<lparr>md_mem := (absorbed c b ys (md_mem d))(c := md_mem d c)\<rparr>)"
    using nxt2 e by (cases ys) (auto simp: absorbed_def fun_upd_twist)
  show "(absorbed c b ys (md_mem d))(c := md_mem d c + md_mem d b) = absorbed c b ys (md_mem d)"
    using e by (cases ys) (auto simp: absorbed_def fun_upd_twist)
qed

section \<open>Merging with the next block\<close>

text \<open>What becomes of the block \<open>n\<close> long and the blocks \<open>ys\<close> behind it: a free one is merged.\<close>

definition merged_next :: "nat \<Rightarrow> block list \<Rightarrow> nat \<times> block list" where
  "merged_next n ys = (case ys of (c, k, False) # zs \<Rightarrow> (n + k, zs) | _ \<Rightarrow> (n, ys))"

lemma merged_next_simps [simp]:
  "merged_next n [] = (n, [])" "merged_next n ((c, k, True) # zs) = (n, (c, k, True) # zs)"
  "merged_next n ((c, k, False) # zs) = (n + k, zs)"
  by (simp_all add: merged_next_def)

text \<open>The state when a block was taken off the list, for the block \<open>b\<close> that is being freed.\<close>

lemma loose_remove:
  assumes lo: "loose i d xs b n ys fs" and c: "c \<in> set fs" and bs: "bs = xs @ (b, n, True) # ys"
  shows "\<exists>q fs'. sll_remove (Some c) (page_sll i d) = Some (Some c, q) \<and>
     space i (set_page_sll i q d) bs \<and> described (md_mem (set_page_sll i q d)) (page_ptr d i) (xs @ ys) \<and>
     unat (md_mem (set_page_sll i q d) b) = n \<and> prevs_ok (md_mem (set_page_sll i q d)) None bs \<and>
     free_ok i (set_page_sll i q d) fs' \<and> set fs' = set fs - {c} \<and> step i (hdrs bs) d (set_page_sll i q d) \<and>
     (\<exists>l. free_largest (md_pages (set_page_sll i q d) ! i) = Some l \<and> (l \<in> set fs' \<or> l = b \<or> l = c) \<and>
        (\<forall>x \<in> set fs'. md_mem (set_page_sll i q d) x \<le> md_mem (set_page_sll i q d) l)) \<and>
     (\<forall>x \<in> addrs bs. md_mem (set_page_sll i q d) x = md_mem d x \<and>
        md_mem (set_page_sll i q d) (x + 4) = md_mem d (x + 4) \<and>
        (x \<notin> set fs \<longrightarrow> md_mem (set_page_sll i q d) (x + 8) = md_mem d (x + 8)))"
proof -
  note F = looseD [OF lo]
  have S: "space i d bs" using F(1) bs by simp
  have fsub: "set fs \<subseteq> free_addrs bs" using F(6) bs by simp
  then have sub: "set fs \<subseteq> addrs bs" using free_addrs_subset by blast
  obtain q fs' where q: "sll_remove (Some c) (page_sll i d) = Some (Some c, q)"
      "free_ok i (set_page_sll i q d) fs'" "set fs' = set fs - {c}"
      "step i ((\<lambda>b. b + 8) ` set fs) d (set_page_sll i q d)"
      "free_largest (md_pages (set_page_sll i q d) ! i) = free_largest (md_pages d ! i)"
    using remove_block [OF S sub F(5) c] by blast
  note keep = step_links [OF q(4) S sub]
  have b: "b \<in> addrs bs" using bs by simp
  let ?d1 = "set_page_sll i q d" and ?bF = "xs @ (b, n, False) # ys"
  have SF: "space i d ?bF" by (rule F(1))
  have "set fs \<subseteq> free_addrs ?bF" using F(6) by auto
  moreover have "described (md_mem d) (page_ptr d i) ?bF" using F(2,3) by simp
  ultimately have D1: "described (md_mem ?d1) (page_ptr d i) ?bF" "prevs_ok (md_mem ?d1) None ?bF"
    using links_described [OF q(4) SF] F(4) by blast+
  obtain l where l: "free_largest (md_pages d ! i) = Some l" "l \<in> set fs \<or> l = b" "\<forall>x \<in> set fs. md_mem d x \<le> md_mem d l"
    using F(7) c by (auto simp: largest_upto_def split: option.splits)
  then have "l \<in> addrs bs" using sub b by auto
  then have lmax: "\<forall>x \<in> set fs'. md_mem ?d1 x \<le> md_mem ?d1 l" using l(3) q(3) keep(1) sub by fastforce
  have mem: "\<forall>x \<in> addrs bs. md_mem ?d1 x = md_mem d x \<and> md_mem ?d1 (x + 4) = md_mem d (x + 4) \<and>
      (x \<notin> set fs \<longrightarrow> md_mem ?d1 (x + 8) = md_mem d (x + 8))"
    using keep by blast
  have "unat (md_mem ?d1 b) = n" "described (md_mem ?d1) (page_ptr d i) (xs @ ys)" using D1(1) by simp_all
  moreover have "prevs_ok (md_mem ?d1) None bs" using D1(2) bs by (simp add: prevs_append)
  moreover have "space i ?d1 bs" using step_space [OF q(4)] S by simp
  moreover have "step i (hdrs bs) d ?d1" by (rule step_mono [OF q(4) links_hdrs [OF sub]])
  moreover have "\<exists>l. free_largest (md_pages ?d1 ! i) = Some l \<and> (l \<in> set fs' \<or> l = b \<or> l = c) \<and>
      (\<forall>x \<in> set fs'. md_mem ?d1 x \<le> md_mem ?d1 l)"
    using l(1,2) q(3,5) lmax by auto
  ultimately show ?thesis using q(1-3) mem by blast
qed

lemma upd_page_mem [simp]:
  "(upd_page i f d)\<lparr>md_mem := m\<rparr> = upd_page i f (d\<lparr>md_mem := m\<rparr>)" "hdr_ok (upd_page i f d) b = hdr_ok d b"
  by (simp_all add: upd_page_def hdr_ok_def)

lemma merge_next_ok:
  assumes lo: "loose i d xs b n ys fs" and pg: "md_mem d (b + 8) = page_ptr d i"
  shows "\<exists>d' n' ys' fs'. merge_next i b d = Some d' \<and> loose i d' xs b n' ys' fs' \<and>
     md_mem d' (b + 8) = page_ptr d i \<and> md_mem d' (b + 4) = md_mem d (b + 4) \<and>
     (n', ys') = merged_next n ys \<and>
     step i (hdrs (xs @ (b, n, True) # ys)) d d'"
proof -
  let ?bs = "xs @ (b, n, True) # ys"
  note F = looseD [OF lo]
  have S: "space i d ?bs" and V: "prevs_ok (md_mem d) None ?bs" by (rule F(1), rule F(4))
  have b: "hdr_ok d b" by (rule space_hdr [OF S]) simp
  note nxt = next_addr [OF S F(3)]
  consider "ys = []" | c k zs where "ys = (c, k, True) # zs" | c k zs where "ys = (c, k, False) # zs"
    by (metis (full_types) list.exhaust prod_cases3)
  then show ?thesis
  proof cases
    case 1
    then have "merge_next i b d = Some d" using b nxt(1) by (simp add: merge_next_def Let_def)
    then show ?thesis using lo pg 1 by auto
  next
    case 2
    have "hdr_ok d c" by (rule space_hdr [OF S]) (simp add: 2)
    moreover have "md_mem d (c + 8) = page_ptr d i" using F(2) 2 by simp
    ultimately have "merge_next i b d = Some d"
      using b nxt(1) nxt(2) [OF 2] 2 by (simp add: merge_next_def Let_def)
    then show ?thesis using lo pg 2 by auto
  next
    case 3
    have cfs: "c \<in> set fs" using F(6) 3 by simp
    obtain q fs' where q: "sll_remove (Some c) (page_sll i d) = Some (Some c, q)" and R:
     "space i (set_page_sll i q d) ?bs" "described (md_mem (set_page_sll i q d)) (page_ptr d i) (xs @ ys)"
     "unat (md_mem (set_page_sll i q d) b) = n" "prevs_ok (md_mem (set_page_sll i q d)) None ?bs"
     "free_ok i (set_page_sll i q d) fs'" "set fs' = set fs - {c}" "step i (hdrs ?bs) d (set_page_sll i q d)"
     "\<exists>l. free_largest (md_pages (set_page_sll i q d) ! i) = Some l \<and> (l \<in> set fs' \<or> l = b \<or> l = c) \<and>
        (\<forall>x \<in> set fs'. md_mem (set_page_sll i q d) x \<le> md_mem (set_page_sll i q d) l)"
     "\<forall>x \<in> addrs ?bs. md_mem (set_page_sll i q d) x = md_mem d x \<and>
        md_mem (set_page_sll i q d) (x + 4) = md_mem d (x + 4) \<and>
        (x \<notin> set fs \<longrightarrow> md_mem (set_page_sll i q d) (x + 8) = md_mem d (x + 8))"
      using loose_remove [OF lo cfs refl] by blast
    define d1 where "d1 = set_page_sll i q d"
    note R = R [folded d1_def]
    obtain l where l: "free_largest (md_pages d1 ! i) = Some l" "l \<in> set fs' \<or> l = c \<or> l = b"
        "\<forall>x \<in> set fs'. md_mem d1 x \<le> md_mem d1 l" using R(8) by blast
    have pg1: "page_ptr d1 i = page_ptr d i" "base_end (md_pages d1 ! i) = base_end (md_pages d ! i)"
      using stepD(3,6) [OF R(7)] by auto
    have sz: "unat (md_mem d1 c) = k" "described (md_mem d1) (page_ptr d1 i) (xs @ zs)"
      using R(2) 3 pg1 by simp_all
    have fs': "set fs' = free_addrs (xs @ zs)"
      using R(6) F(6) 3 distinct_addrs [of i d "xs @ [(b, n, True)]" c k False zs] S free_addrs_subset [of xs]
        free_addrs_subset [of zs] by auto
    let ?d' = "merged i b c zs d1"
    note M = merged_loose [OF R(1) [unfolded 3] sz(2) R(3) sz(1) R(4) [unfolded 3] R(5) fs' l]
    have c: "hdr_ok d c" "hdr_ok d1 c" "hdr_ok d1 b"
      using space_hdr [OF S] space_hdr [OF R(1)] by (simp_all add: 3)
    have notpg: "md_mem d (c + 8) \<noteq> page_ptr d i"
      using F(6) free_addrs_subset by (intro free_not_page [OF S F(5) _ cfs]) auto
    have wb: "md_mem d1 b = md_mem d b" using R(9) by simp
    note st = merged_store(1) [OF R(1) [unfolded 3] R(3) sz(1) refl, unfolded wb]
    have run: "merge_next i b d = Some ?d'"
      using b c nxt(1) nxt(2) [OF 3] 3 q(1) notpg st
      by (simp add: merge_next_def Let_def d1_def [symmetric] merged_def split del: if_split)
    have bns: "b \<notin> set fs" using F(6) distinct_addrs [OF S] free_addrs_subset by auto
    have "md_mem ?d' (b + 8) = page_ptr d i"
      using absorb(6) [OF R(1) [unfolded 3] sz(2) R(4) [unfolded 3] R(3) sz(1), of b] R(9) pg bns by simp
    moreover have "md_mem ?d' (b + 4) = md_mem d (b + 4)"
    proof -
      have "b + 4 \<noteq> b" "b + 4 \<noteq> e + 4" if "zs = (e, j, l) # rest" for e j l rest
        using distinct_addrs(2) [OF S] 3 that by auto
      then show ?thesis using R(9) by (auto simp: absorbed_def split: list.split)
    qed
    ultimately show ?thesis using run M(1) step_trans [OF R(7) M(2)] 3 by auto
  qed
qed

section \<open>Merging with the previous block\<close>

text \<open>
  What becomes of the block \<open>b\<close> and the blocks \<open>xs\<close> before it: it is merged with the last of them if
  that is free and is the one that the \<^verbatim>\<open>phy_prev\<close> of \<open>b\<close> names.
\<close>

definition merged_prev :: "u32 \<Rightarrow> block list \<Rightarrow> u32 \<Rightarrow> nat \<Rightarrow> block list \<times> u32 \<times> nat" where
  "merged_prev p xs b n =
     (if xs \<noteq> [] \<and> fst (last xs) = p \<and> \<not> snd (snd (last xs))
      then (butlast xs, p, fst (snd (last xs)) + n) else (xs, b, n))"

lemma merged_prev_cases:
  assumes "(xs', c, k) = merged_prev p xs b n"
  shows "xs' = xs \<and> c = b \<and> k = n \<or> (\<exists>j. xs = xs' @ [(c, j, False)] \<and> k = j + n)"
  using assms by (cases xs rule: rev_cases) (auto simp: merged_prev_def split: if_splits)

lemma merge_prev_ok:
  assumes lo: "loose i d xs b n ys fs" and pg: "md_mem d (b + 8) = page_ptr d i"
  shows "\<exists>d' xs' c k fs'. merge_prev i b d = Some (c, d') \<and> loose i d' xs' c k ys fs' \<and>
     (xs', c, k) = merged_prev (md_mem d (b + 4)) xs b n \<and>
     step i (hdrs (xs @ (b, n, True) # ys)) d d'"
proof -
  let ?bs = "xs @ (b, n, True) # ys" and ?p = "md_mem d (b + 4)"
  note F = looseD [OF lo]
  have S: "space i d ?bs" and V: "prevs_ok (md_mem d) None ?bs" by (rule F(1), rule F(4))
  have b: "hdr_ok d b" by (rule space_hdr [OF S]) simp
  have same: ?thesis if "merge_prev i b d = Some (b, d)" "merged_prev ?p xs b n = (xs, b, n)"
    using lo that by (intro exI [of _ d] exI [of _ xs] exI [of _ b] exI [of _ n] exI [of _ fs]) simp
  have last: "fst (last xs) \<noteq> 0" "fst (last xs) \<noteq> b" if "xs \<noteq> []"
  proof -
    obtain e j l where e: "last xs = (e, j, l)" by (rule prod_cases3)
    then have mem: "(e, j, l) \<in> set xs" using last_in_set [OF that] by simp
    then show "fst (last xs) \<noteq> 0" using space_block(2) [OF S, of e j l] e by simp
    show "fst (last xs) \<noteq> b" using distinct_addrs(1) [OF S] in_addrs [OF mem] e by auto
  qed
  have p: "?p = 0 \<or> ?p = b \<or> Some ?p = last_addr None xs" using V by (simp add: prevs_append)
  have "\<exists>xs' k al. xs = xs' @ [(?p, k, al)]" if "?p \<noteq> 0" "?p \<noteq> b"
    using p that by (cases xs rule: rev_cases) (auto simp: last_addr_def)
  then consider "?p = 0" | "?p = b" "?p \<noteq> 0" | xs' c k al where "xs = xs' @ [(c, k, al)]" "?p = c" "?p \<noteq> 0"
    by metis
  then show ?thesis
  proof cases
    case 1
    then show ?thesis using b last(1) by (intro same) (auto simp: merge_prev_def merged_prev_def)
  next
    case 2
    then show ?thesis using b pg last(2) by (intro same) (auto simp: merge_prev_def merged_prev_def)
  next
    case (3 xs' c k al)
    have hc: "hdr_ok d c" by (rule space_hdr [OF S]) (simp add: 3(1))
    show ?thesis
    proof (cases al)
      case True
      have "md_mem d (c + 8) = page_ptr d i" using F(2) 3(1) True by simp
      then show ?thesis using b hc 3(1,2) True by (intro same) (simp_all add: merge_prev_def merged_prev_def)
    next
      case False
      have bs: "?bs = xs' @ (c, k, False) # (b, n, True) # ys" using 3(1) False by simp
      have cfs: "c \<in> set fs" using F(6) 3(1) False by simp
      obtain q fs' where q: "sll_remove (Some c) (page_sll i d) = Some (Some c, q)" and R:
       "space i (set_page_sll i q d) ?bs" "described (md_mem (set_page_sll i q d)) (page_ptr d i) (xs @ ys)"
       "unat (md_mem (set_page_sll i q d) b) = n" "prevs_ok (md_mem (set_page_sll i q d)) None ?bs"
       "free_ok i (set_page_sll i q d) fs'" "set fs' = set fs - {c}" "step i (hdrs ?bs) d (set_page_sll i q d)"
       "\<exists>l. free_largest (md_pages (set_page_sll i q d) ! i) = Some l \<and> (l \<in> set fs' \<or> l = b \<or> l = c) \<and>
          (\<forall>x \<in> set fs'. md_mem (set_page_sll i q d) x \<le> md_mem (set_page_sll i q d) l)"
        using loose_remove [OF lo cfs refl] by blast
      define d1 where "d1 = set_page_sll i q d"
      note R = R [folded d1_def]
      obtain l where l: "free_largest (md_pages d1 ! i) = Some l" "l \<in> set fs' \<or> l = b \<or> l = c"
          "\<forall>x \<in> set fs'. md_mem d1 x \<le> md_mem d1 l" using R(8) by blast
      have pg1: "page_ptr d1 i = page_ptr d i" using stepD(3) [OF R(7)] by simp
      have sz: "unat (md_mem d1 c) = k" "described (md_mem d1) (page_ptr d1 i) (xs' @ ys)"
        using R(2) 3(1) pg1 by simp_all
      have fs': "set fs' = free_addrs (xs' @ ys)"
        using R(6) F(6) 3(1) False distinct_addrs [OF S [unfolded bs]] free_addrs_subset [of xs']
          free_addrs_subset [of ys] by auto
      let ?d' = "merged i c b ys d1"
      note M = merged_loose [OF R(1) [unfolded bs] sz(2) sz(1) R(3) R(4) [unfolded bs] R(5) fs' l]
      have h1: "hdr_ok d1 c" "hdr_ok d1 b" using space_hdr [OF R(1)] by (simp_all add: 3(1))
      have notpg: "md_mem d (c + 8) \<noteq> page_ptr d i"
        using F(6) free_addrs_subset by (intro free_not_page [OF S F(5) _ cfs]) auto
      note st = merged_store(2,3) [OF R(1) [unfolded bs] sz(1) R(3) refl]
      have run: "merge_prev i b d = Some (c, ?d')"
        using b hc h1 3(2,3) q(1) notpg st
        by (simp add: merge_prev_def Let_def d1_def [symmetric] merged_def del: set_page_sll_sel cong: if_cong split del: if_split)
          (simp split: if_split)
      have "step i (hdrs ?bs) d ?d'" using step_trans [OF R(7) M(2) [folded bs]] by simp
      moreover have "(xs', c, k + n) = merged_prev ?p xs b n" using 3(1,2) False by (simp add: merged_prev_def)
      ultimately show ?thesis using run M(1) 3(1) False
        by (intro exI [of _ ?d'] exI [of _ xs'] exI [of _ c] exI [of _ "k + n"] exI [of _ fs']) auto
    qed
  qed
qed

section \<open>Freeing a block\<close>

text \<open>
  The blocks after \<open>(b, n)\<close> between \<open>xs\<close> and \<open>ys\<close> was freed, whose \<^verbatim>\<open>phy_prev\<close> is \<open>p\<close>.
\<close>

definition coalesced :: "u32 \<Rightarrow> block list \<Rightarrow> u32 \<Rightarrow> nat \<Rightarrow> block list \<Rightarrow> block list" where
  "coalesced p xs b n ys =
     (case merged_next n ys of (n', ys') \<Rightarrow>
        (case merged_prev p xs b n' of (xs', c, k) \<Rightarrow> xs' @ (c, k, False) # ys'))"

lemma hdrs_mono: "addrs bs \<subseteq> addrs cs \<Longrightarrow> hdrs bs \<subseteq> hdrs cs"
  by (auto simp: hdrs_def)

lemma loose_insert:
  assumes lo: "loose i d xs b n ys fs"
  shows "\<exists>d' fs'. page_insert i b d = Some d' \<and> space i d' (xs @ (b, n, False) # ys) \<and>
     described (md_mem d') (page_ptr d' i) (xs @ (b, n, False) # ys) \<and>
     prevs_ok (md_mem d') None (xs @ (b, n, False) # ys) \<and> free_ok i d' fs' \<and>
     set fs' = free_addrs (xs @ (b, n, False) # ys) \<and> step i (hdrs (xs @ (b, n, False) # ys)) d d' \<and>
     (case free_largest (md_pages d' ! i) of
        None \<Rightarrow> set fs' = {b}
      | Some l \<Rightarrow> l \<in> set fs' \<and> (\<forall>x \<in> set fs'. x \<noteq> b \<longrightarrow> md_mem d' x \<le> md_mem d' l))"
proof -
  let ?bs = "xs @ (b, n, False) # ys"
  note F = looseD [OF lo]
  have S: "space i d ?bs" and V: "prevs_ok (md_mem d) None ?bs" by (rule F(1), rule F(4))
  have D: "described (md_mem d) (page_ptr d i) ?bs" using F(2,3) by simp
  have b: "b \<in> addrs ?bs" "b \<notin> set fs" and sub: "set fs \<subseteq> addrs ?bs"
    using F(6) distinct_addrs [OF S] free_addrs_subset [of xs] free_addrs_subset [of ys] by auto
  obtain d' fs' where p: "page_insert i b d = Some d'" "free_ok i d' fs'" "set fs' = insert b (set fs)"
      "step i ((\<lambda>b. b + 8) ` insert b (set fs)) d d'"
      "free_largest (md_pages d' ! i) = free_largest (md_pages d ! i)"
    using page_insert_ok [OF S b sub F(5)] by blast
  have new: "insert b (set fs) = free_addrs ?bs" using F(6) by auto
  note L = links_described [OF p(4) S]
  have same: "md_mem d' x = md_mem d x" if "x \<in> addrs ?bs" for x
    using step_links(1) [OF p(4) S _ that] b(1) sub by blast
  have "case free_largest (md_pages d' ! i) of
      None \<Rightarrow> set fs' = {b}
    | Some l \<Rightarrow> l \<in> set fs' \<and> (\<forall>x \<in> set fs'. x \<noteq> b \<longrightarrow> md_mem d' x \<le> md_mem d' l)"
  proof (cases "free_largest (md_pages d ! i)")
    case None
    then show ?thesis using F(7) p(3,5) by (simp add: largest_upto_def)
  next
    case (Some l)
    then have l: "l \<in> insert b (set fs)" "\<And>x. x \<in> set fs \<Longrightarrow> md_mem d x \<le> md_mem d l"
      using F(7) by (auto simp: largest_upto_def)
    then have in_bs: "l \<in> addrs ?bs" using b(1) sub by auto
    have "md_mem d' x \<le> md_mem d' l" if "x \<in> set fs" for x
    proof -
      have "x \<in> addrs ?bs" using that sub by (rule rev_subsetD)
      then show ?thesis unfolding same [OF in_bs] by (simp only: same l(2) [OF that])
    qed
    then show ?thesis using Some l(1) p(3,5) by auto
  qed
  moreover have "step i (hdrs ?bs) d d'"
    using b(1) sub by (intro step_mono [OF p(4)] links_hdrs) simp
  moreover have "described (md_mem d') (page_ptr d' i) ?bs" "prevs_ok (md_mem d') None ?bs"
    using L D V new stepD(3) [OF p(4)] by auto
  ultimately show ?thesis using p(1-3) new step_space [OF p(4)] S by (intro exI [of _ d'] exI [of _ fs']) simp
qed

lemma free_block_ok:
  assumes ok: "page_ok i d (xs @ (b, n, True) # ys) fs"
  shows "\<exists>d' fs'. free_block i b d = Some d' \<and> page_ok i d' (coalesced (md_mem d (b + 4)) xs b n ys) fs' \<and>
     step i (hdrs (xs @ (b, n, True) # ys)) d d'"
proof -
  let ?bs = "xs @ (b, n, True) # ys"
  have lo: "loose i d xs b n ys fs" and pg: "md_mem d (b + 8) = page_ptr d i"
    using ok by (auto simp: page_ok_def loose_def largest_ok_def largest_upto_def split: option.splits)
  obtain d1 n1 ys1 fs1 where m1: "merge_next i b d = Some d1" "loose i d1 xs b n1 ys1 fs1"
     "md_mem d1 (b + 8) = page_ptr d i" "md_mem d1 (b + 4) = md_mem d (b + 4)"
     "(n1, ys1) = merged_next n ys" "step i (hdrs ?bs) d d1"
    using merge_next_ok [OF lo pg] by blast
  have pg1: "md_mem d1 (b + 8) = page_ptr d1 i" using m1(3) stepD(3) [OF m1(6)] by simp
  obtain d2 xs2 c k fs2 where m2: "merge_prev i b d1 = Some (c, d2)" "loose i d2 xs2 c k ys1 fs2"
     "(xs2, c, k) = merged_prev (md_mem d1 (b + 4)) xs b n1"
     "step i (hdrs (xs @ (b, n1, True) # ys1)) d1 d2"
    using merge_prev_ok [OF m1(2) pg1] by blast
  let ?bs' = "xs2 @ (c, k, False) # ys1"
  obtain d3 fs3 where p: "page_insert i c d2 = Some d3" "space i d3 ?bs'"
     "described (md_mem d3) (page_ptr d3 i) ?bs'" "prevs_ok (md_mem d3) None ?bs'" "free_ok i d3 fs3"
     "set fs3 = free_addrs ?bs'" "step i (hdrs ?bs') d2 d3"
     "case free_largest (md_pages d3 ! i) of
        None \<Rightarrow> set fs3 = {c}
      | Some l \<Rightarrow> l \<in> set fs3 \<and> (\<forall>x \<in> set fs3. x \<noteq> c \<longrightarrow> md_mem d3 x \<le> md_mem d3 l)"
    using loose_insert [OF m2(2)] by blast
  have co: "coalesced (md_mem d (b + 4)) xs b n ys = ?bs'"
    unfolding coalesced_def m1(5) [symmetric] prod.case m2(3) [unfolded m1(4), symmetric] ..
  have "addrs ys1 \<subseteq> addrs ys" using m1(5) by (auto simp: merged_next_def split: list.splits bool.splits)
  then have h: "hdrs (xs @ (b, n1, True) # ys1) \<subseteq> hdrs ?bs" "hdrs ?bs' \<subseteq> hdrs ?bs"
    using merged_prev_cases [OF m2(3)] by (intro hdrs_mono; auto)+
  have st: "step i (hdrs ?bs) d d3"
    using step_trans [OF step_trans [OF m1(6) step_mono [OF m2(4) h(1)]] step_mono [OF p(7) h(2)]] by simp
  define larger where "larger = (case free_largest (md_pages d3 ! i) of None \<Rightarrow> True | Some l \<Rightarrow> md_mem d3 c > md_mem d3 l)"
  define d' where "d' = (if larger then upd_page i (\<lambda>p. p\<lparr>free_largest := Some c\<rparr>) d3 else d3)"
  have hdr: "hdr_ok d3 x" if "x \<in> addrs ?bs'" for x using space_hdr [OF p(2) that] .
  have lin: "l \<in> addrs ?bs'" if "free_largest (md_pages d3 ! i) = Some l" for l
    using p(6,8) that free_addrs_subset [of ?bs'] by auto
  have run: "free_block i b d = Some d'"
    using m1(1) m2(1) p(1) hdr lin
    by (cases "free_largest (md_pages d3 ! i)") (simp_all add: free_block_def d'_def larger_def)
  have i: "i < length (md_pages d3)" using p(2) by (simp add: space_def)
  have "largest_ok i d' fs3"
  proof (cases "free_largest (md_pages d3 ! i)")
    case None
    then show ?thesis using p(8) i by (simp add: d'_def larger_def largest_ok_def)
  next
    case (Some l)
    then have l: "l \<in> set fs3" "\<And>x. x \<in> set fs3 \<Longrightarrow> x \<noteq> c \<Longrightarrow> md_mem d3 x \<le> md_mem d3 l" using p(8) by auto
    have c: "c \<in> set fs3" using p(6) by simp
    show ?thesis
    proof (cases "md_mem d3 c > md_mem d3 l")
      case True
      then have "md_mem d3 x \<le> md_mem d3 c" if "x \<in> set fs3" for x
        using l(2) [OF that] by (cases "x = c") auto
      then show ?thesis using Some True c i by (simp add: d'_def larger_def largest_ok_def)
    next
      case False
      then have "md_mem d3 x \<le> md_mem d3 l" if "x \<in> set fs3" for x
        using l(2) [OF that] by (cases "x = c") auto
      then show ?thesis using Some False l(1) by (simp add: d'_def larger_def largest_ok_def)
    qed
  qed
  moreover have st': "step i (hdrs ?bs) d3 d'" by (simp add: d'_def step_largest)
  moreover have "free_ok i d' fs3" "md_mem d' = md_mem d3"
    using p(5) i by (auto simp: d'_def free_ok_def page_sll_def)
  ultimately have "page_ok i d' ?bs' fs3"
    using p(2-4,6) step_space [OF st'] stepD(3) [OF st'] by (simp add: page_ok_def)
  then show ?thesis unfolding co using run step_trans [OF st st'] by auto
qed

end
