(* ===== verification/MemRegion.thy ===== *)
theory MemRegion
  imports MemFree Unlocked Align
begin

text \<open>
  A whole region of \<^verbatim>\<open>rtos/mem/mem_dynamic.c\<close>: its pages follow each other, an operation on one of
  them leaves the others, and the page an allocation is served from is found by its largest free block.
\<close>

section \<open>The state of a region\<close>

text \<open>\<open>B i\<close> are the blocks of page \<open>i\<close>, \<open>F i\<close> is its list of free blocks.\<close>

definition region_ok :: "MEM_DYNAMIC \<Rightarrow> (nat \<Rightarrow> block list) \<Rightarrow> (nat \<Rightarrow> u32 list) \<Rightarrow> bool" where
  "region_ok d B F \<longleftrightarrow>
     (\<forall>i < length (md_pages d). page_ok i d (B i) (F i)) \<and>
     (\<forall>i j. i < j \<longrightarrow> j < length (md_pages d) \<longrightarrow> base_end (md_pages d ! i) \<le> base_start (md_pages d ! j))"

lemma hdrs_range:
  assumes "space i d bs" "a \<in> hdrs bs"
  shows "base_start (md_pages d ! i) \<le> a" "a < base_end (md_pages d ! i)"
proof -
  obtain b n al where b: "(b, n, al) \<in> set bs" "a = b \<or> a = b + 4 \<or> a = b + 8"
    using assms(2) by (auto simp: hdrs_def elim!: addrsE)
  note S = space_block [OF assms(1) b(1)]
  have small: "unat b + 8 < 2 ^ 32" using S(5,7) unat_u32 [of "base_end (md_pages d ! i)"] by linarith
  then have "unat (b + 4) = unat b + 4" "unat (b + 8) = unat b + 8"
    using unat_add_nat [of b 4] unat_add_nat [of b 8] by simp_all
  then have "unat b \<le> unat a \<and> unat a \<le> unat b + 8" using b(2) by auto
  then show "base_start (md_pages d ! i) \<le> a" "a < base_end (md_pages d ! i)"
    using S(5-7) by (auto simp: word_le_nat_alt word_less_nat_alt)
qed

lemma page_ok_frame:
  assumes ok: "page_ok i d bs fs"
    and pages: "md_pages d' ! i = md_pages d ! i" "length (md_pages d') = length (md_pages d)"
      "md_start d' = md_start d" "md_end d' = md_end d"
    and same: "\<And>a. a \<in> hdrs bs \<Longrightarrow> md_mem d' a = md_mem d a"
  shows "page_ok i d' bs fs"
proof -
  note O = ok [unfolded page_ok_def]
  have sub: "set fs \<subseteq> addrs bs" using O free_addrs_subset [of bs] by simp
  have h: "md_mem d' b = md_mem d b" "md_mem d' (b + 4) = md_mem d (b + 4)" "md_mem d' (b + 8) = md_mem d (b + 8)"
    if "b \<in> addrs bs" for b using hdrs_in [OF that] same by blast+
  have "described (md_mem d') (page_ptr d i) bs"
    using described_cong [of "md_mem d" "page_ptr d i" bs "md_mem d'"] O h in_addrs [of _ _ _ bs] by blast
  moreover have "prevs_ok (md_mem d') None bs" using O h(2) prevs_cong [of bs "md_mem d'" "md_mem d"] by blast
  moreover have "free_ok i d' fs"
    using O pages(1) h sub by (intro free_ok_frame [of i d fs d']) auto
  moreover have "largest_ok i d' fs"
    using O pages(1) h(1) sub by (auto simp: largest_ok_def subset_iff split: option.splits)
  ultimately show ?thesis using O pages by (simp add: page_ok_def page_ptr_def space_def)
qed

lemma region_step:
  assumes ok: "region_ok d B F" and i: "i < length (md_pages d)"
    and st: "step i (hdrs (B i) \<union> hdrs bs) d d'" and p: "page_ok i d' bs fs"
  shows "region_ok d' (B(i := bs)) (F(i := fs))"
proof -
  note S = stepD [OF st]
  have Si: "space i d (B i)" "space i d bs"
    using ok i p step_space [OF st, of i bs] by (auto simp: region_ok_def page_ok_def)
  have "page_ok j d' (B j) (F j)" if j: "j < length (md_pages d)" "j \<noteq> i" for j
  proof -
    have pj: "page_ok j d (B j) (F j)" using ok j by (simp add: region_ok_def)
    then have Sj: "space j d (B j)" by (simp add: page_ok_def)
    have order: "base_end (md_pages d ! i) \<le> base_start (md_pages d ! j) \<or>
        base_end (md_pages d ! j) \<le> base_start (md_pages d ! i)"
      using ok i j by (auto simp: region_ok_def neq_iff)
    have "md_mem d' a = md_mem d a" if a: "a \<in> hdrs (B j)" for a
    proof (rule S(1))
      show "a \<notin> hdrs (B i) \<union> hdrs bs"
        using hdrs_range [OF Sj a] hdrs_range [OF Si(1), of a] hdrs_range [OF Si(2), of a] order by fastforce
    qed
    then show ?thesis using S(2,9,10,11) j by (intro page_ok_frame [OF pj]) auto
  qed
  then show ?thesis using ok p i S(2,5,6) by (auto simp: region_ok_def)
qed

section \<open>The page an allocation is served from\<close>

definition fits_page :: "MEM_DYNAMIC \<Rightarrow> u32 \<Rightarrow> MEM_PAGE \<Rightarrow> bool" where
  "fits_page d sz p = (case free_largest p of None \<Rightarrow> False | Some b \<Rightarrow> sz \<le> md_mem d b)"

text \<open>The first page that is meant for the size and has the space, else, when forced, the last that has the space.\<close>

definition page_among :: "MEM_DYNAMIC \<Rightarrow> u32 \<Rightarrow> bool \<Rightarrow> (nat \<times> MEM_PAGE) list \<Rightarrow> nat option \<Rightarrow> nat option" where
  "page_among d sz force ps found =
     (case filter (\<lambda>(i, p). fits_page d sz p \<and> sz \<le> max_alloc p) ps of
        (i, _) # _ \<Rightarrow> Some i
      | [] \<Rightarrow> (case filter (\<lambda>(i, p). fits_page d sz p \<and> force) ps of
                [] \<Rightarrow> found
              | qs \<Rightarrow> Some (fst (last qs))))"

lemma page_among_Cons:
  "page_among d sz force ((k, p) # ps) found =
     (if fits_page d sz p \<and> sz \<le> max_alloc p then Some k
      else page_among d sz force ps (if fits_page d sz p \<and> force then Some k else found))"
  by (cases "fits_page d sz p"; cases force; cases "sz \<le> max_alloc p")
    (auto simp: page_among_def split: list.split)

lemma search_pages_among:
  assumes "\<And>p b. p \<in> set ps \<Longrightarrow> free_largest p = Some b \<Longrightarrow> hdr_ok d b"
  shows "search_pages d sz force ps k found = Some (page_among d sz force (enumerate k ps) found)"
  using assms
proof (induction ps arbitrary: k found)
  case Nil
  then show ?case by (simp add: page_among_def)
next
  case (Cons p ps)
  have "(case free_largest p of None \<Rightarrow> Some False | Some b \<Rightarrow> do { n \<leftarrow> load_size d b; Some (sz \<le> n) }) =
      Some (fits_page d sz p)"
    using Cons.prems [of p] by (auto simp: fits_page_def split: option.splits)
  moreover have "search_pages d sz force ps (Suc k) x = Some (page_among d sz force (enumerate (Suc k) ps) x)" for x
    by (intro Cons.IH Cons.prems) simp_all
  ultimately show ?case by (simp add: page_among_Cons)
qed

definition page_for :: "MEM_DYNAMIC \<Rightarrow> u32 \<Rightarrow> nat option" where
  "page_for d sz = page_among d sz (md_flags d AND MEM_STRICT_ALLOC = 0) (enumerate 0 (md_pages d)) None"

lemma page_among_fits:
  "page_among d sz force ps None = Some i \<Longrightarrow> \<exists>p. (i, p) \<in> set ps \<and> fits_page d sz p"
  "page_among d sz True ps None = None \<Longrightarrow> (i, p) \<in> set ps \<Longrightarrow> \<not> fits_page d sz p"
proof -
  assume a: "page_among d sz force ps None = Some i"
  let ?g = "filter (\<lambda>(i, p). fits_page d sz p \<and> sz \<le> max_alloc p) ps"
  let ?q = "filter (\<lambda>(i, p). fits_page d sz p \<and> force) ps"
  show "\<exists>p. (i, p) \<in> set ps \<and> fits_page d sz p"
  proof (cases ?g)
    case (Cons x xs)
    obtain j p where x: "x = (j, p)" by (cases x)
    have "(j, p) \<in> set ?g" unfolding Cons x by simp
    moreover have "j = i" using a Cons x by (simp add: page_among_def)
    ultimately show ?thesis by auto
  next
    case Nil
    then have "?q \<noteq> [] \<and> i = fst (last ?q)" using a by (auto simp: page_among_def split: list.splits)
    then have "last ?q \<in> set ?q" "i = fst (last ?q)" by (blast intro: last_in_set)+
    then show ?thesis by (metis (no_types, lifting) case_prodE fst_conv mem_Collect_eq set_filter)
  qed
next
  assume a: "page_among d sz True ps None = None" and i: "(i, p) \<in> set ps"
  then have "filter (\<lambda>(i, p). fits_page d sz p \<and> True) ps = []"
    by (auto simp: page_among_def split: list.splits)
  then show "\<not> fits_page d sz p" using i by (auto simp: filter_empty_conv)
qed

lemma search_region_ok:
  assumes "region_ok d B F"
  shows "mem_dynamic_search_region d sz (md_flags d AND MEM_STRICT_ALLOC = 0) = Some (page_for d sz)"
proof -
  have "hdr_ok d b" if p: "p \<in> set (md_pages d)" "free_largest p = Some b" for p b
  proof -
    obtain i where i: "i < length (md_pages d)" "md_pages d ! i = p" using p(1) by (auto simp: in_set_conv_nth)
    then have ok: "page_ok i d (B i) (F i)" using assms by (simp add: region_ok_def)
    then have "b \<in> set (F i)" "set (F i) = free_addrs (B i)"
      using i p(2) by (auto simp: page_ok_def largest_ok_def)
    then have "b \<in> addrs (B i)" using free_addrs_subset [of "B i"] by blast
    then show ?thesis using ok space_hdr [of i d "B i" b] by (simp add: page_ok_def)
  qed
  then show ?thesis by (simp add: mem_dynamic_search_region_def page_for_def search_pages_among)
qed

lemma page_for_fits:
  assumes "page_for d sz = Some i"
  shows "i < length (md_pages d)" "fits_page d sz (md_pages d ! i)"
  using page_among_fits(1) [OF assms [unfolded page_for_def]] by (auto simp: in_set_enumerate_eq)

lemma page_for_none:
  assumes "region_ok d B F" "page_for d sz = None" "md_flags d AND MEM_STRICT_ALLOC = 0"
    and "i < length (md_pages d)" "(b, n, False) \<in> set (B i)"
  shows "n < unat sz"
proof -
  have ok: "page_ok i d (B i) (F i)" using assms(1,4) by (simp add: region_ok_def)
  have b: "b \<in> set (F i)" using ok assms(5) by (auto simp: page_ok_def free_addrs_def)
  have n: "unat (md_mem d b) = n" using ok assms(5) by (auto simp: page_ok_def described_def)
  have "(i, md_pages d ! i) \<in> set (enumerate 0 (md_pages d))" using assms(4) by (simp add: in_set_enumerate_eq)
  then have "\<not> fits_page d sz (md_pages d ! i)"
    using page_among_fits(2) [of d sz] assms(2,3) by (simp add: page_for_def)
  moreover obtain l where "free_largest (md_pages d ! i) = Some l" "md_mem d b \<le> md_mem d l"
    using ok b by (auto simp: page_ok_def largest_ok_def split: option.splits)
  ultimately show ?thesis using n by (simp add: fits_page_def word_le_nat_alt)
qed

section \<open>Allocating and freeing\<close>

text \<open>No free block that is to be divided has another one behind it.\<close>

definition split_at_end :: "nat \<Rightarrow> (nat \<Rightarrow> block list) \<Rightarrow> nat \<Rightarrow> bool" where
  "split_at_end n B sz \<longleftrightarrow>
     (\<forall>i < n. \<forall>xs b k ys. B i = xs @ (b, k, False) # ys \<longrightarrow> sz + 12 < k \<longrightarrow> ys = [])"

lemma alloc_block_ok:
  assumes ok: "region_ok d B F" and sz: "12 \<le> unat sz" "4 dvd unat sz"
    and last: "split_at_end (length (md_pages d)) B (unat sz)" and i: "page_for d sz = Some i"
  shows "\<exists>xs b n ys d' fs. B i = xs @ (b, n, False) # ys \<and> unat sz \<le> n \<and>
     alloc_block sz d = Some (Some (b + 12), d') \<and> md_lock d' = md_lock d \<and>
     region_ok d' (B(i := xs @ carve b n (unat sz) @ ys)) (F(i := fs))"
proof -
  note I = page_for_fits [OF i]
  have page: "page_ok i d (B i) (F i)" using ok I(1) by (simp add: region_ok_def)
  obtain l where l: "free_largest (md_pages d ! i) = Some l" "sz \<le> md_mem d l"
    using I(2) by (auto simp: fits_page_def split: option.splits)
  have "\<exists>xs b n ys d' fs. B i = xs @ (b, n, False) # ys \<and> unat sz \<le> n \<and>
     alloc_from i sz d = Some (Some (b + 12), d') \<and> page_ok i d' (xs @ carve b n (unat sz) @ ys) fs \<and>
     step i (hdrs (B i) \<union> hdrs (xs @ carve b n (unat sz) @ ys)) d d'"
    by (rule alloc_from_ok [OF page l sz]) (use last I(1) in \<open>simp add: split_at_end_def\<close>)
  then obtain xs b n ys d' fs where
    r: "B i = xs @ (b, n, False) # ys" "unat sz \<le> n" "alloc_from i sz d = Some (Some (b + 12), d')"
      "page_ok i d' (xs @ carve b n (unat sz) @ ys) fs"
      "step i (hdrs (B i) \<union> hdrs (xs @ carve b n (unat sz) @ ys)) d d'" by blast
  have "alloc_block sz d = Some (Some (b + 12), d')"
    using r(3) i search_region_ok [OF ok] by (simp add: alloc_block_def)
  then show ?thesis using r(1,2) region_step [OF ok I(1) r(5,4)] stepD(12) [OF r(5)] by blast
qed

lemma alloc_block_none:
  assumes "region_ok d B F" "page_for d sz = None"
  shows "alloc_block sz d = Some (None, d)"
  using search_region_ok [OF assms(1), of sz] assms(2) by (simp add: alloc_block_def)

lemma free_in_region:
  assumes ok: "region_ok d B F" and i: "i < length (md_pages d)" and b: "B i = xs @ (b, n, True) # ys"
  shows "\<exists>d' fs. free_block i b d = Some d' \<and> md_lock d' = md_lock d \<and>
     region_ok d' (B(i := coalesced (md_mem d (b + 4)) xs b n ys)) (F(i := fs))"
proof -
  let ?bs = "coalesced (md_mem d (b + 4)) xs b n ys"
  have page: "page_ok i d (xs @ (b, n, True) # ys) (F i)" using ok i b by (auto simp: region_ok_def)
  obtain d' fs where r: "free_block i b d = Some d'" "page_ok i d' ?bs fs" "step i (hdrs (B i)) d d'"
    using free_block_ok [OF page] b by auto
  have "region_ok d' (B(i := ?bs)) (F(i := fs))"
    using region_step [OF ok i step_mono [OF r(3)] r(2)] by simp
  then show ?thesis using r(1) stepD(12) [OF r(3)] by blast
qed

lemma page_index_ok:
  assumes "space i d bs"
  shows "page_index d (page_ptr d i) = Some i"
proof -
  let ?w = "of_nat (32 * i) :: u32"
  have i: "i < length (md_pages d)" and "unat (md_start d) + 32 * length (md_pages d) < 2 ^ 32"
    using assms unat_u32 [of "base_start (md_pages d ! i)"] by (auto simp: space_def)
  then have "unat (0 :: u32) + 32 * i < 2 ^ 32" by simp
  then have "unat ?w = 32 * i" using unat_add_nat [of 0 "32 * i"] by (simp only: add_0 unat_0)
  moreover have "page_ptr d i - md_start d = ?w" by (simp only: page_ptr_def add_diff_cancel_left')
  ultimately have "unat (page_ptr d i - md_start d) div 32 = i" by simp
  then show ?thesis using i by (simp only: page_index_def Let_def) simp
qed

end
