(* ===== verification/MemInit.thy ===== *)
theory MemInit
  imports MemRegion
begin

text \<open>
  The initialisation of a dynamic region (\<^verbatim>\<open>mem_dynamic_init_region\<close> of \<^verbatim>\<open>rtos/mem/mem_dynamic.c\<close>): what
  the loop over the pages leaves, and that it is a region in order with one free block on every page.
\<close>

section \<open>What the loop leaves\<close>

text \<open>The sizes of the pages; \<open>left\<close> is what is left of the memory.\<close>

fun page_sizes :: "MEM_DYN_CFG list \<Rightarrow> u32 \<Rightarrow> u32 \<Rightarrow> u32 list" where
  "page_sizes [] pms left = []"
| "page_sizes (c # cs) pms left =
     (let n = (if cs \<noteq> [] then (if cfg_size c \<noteq> 0 then ALLIGN_FLOOR (cfg_size c) else pms) else ALLIGN_FLOOR left)
      in n # page_sizes cs pms (left - n))"

fun laid_pages :: "MEM_DYN_CFG list \<Rightarrow> u32 list \<Rightarrow> u32 \<Rightarrow> MEM_PAGE list" where
  "laid_pages (c # cs) (n # ns) start =
     \<lparr>base_start = start, base_end = start + n, max_alloc = cfg_max_alloc c + 8,
      free_list = \<lparr>head = Some start, tail = Some start\<rparr>, free_largest = Some start, pg_flags = cfg_flags c\<rparr>
     # laid_pages cs ns (start + n)"
| "laid_pages _ _ start = []"

fun laid_mem :: "u32 list \<Rightarrow> u32 \<Rightarrow> (u32 \<Rightarrow> u32) \<Rightarrow> (u32 \<Rightarrow> u32)" where
  "laid_mem [] start m = m"
| "laid_mem (n # ns) start m = laid_mem ns (start + n) (m(start + 4 := 0, start := n, start + 8 := 0))"

text \<open>The pages fit between \<open>start\<close> and \<open>stop\<close>.\<close>

definition pages_fit :: "u32 list \<Rightarrow> u32 \<Rightarrow> u32 \<Rightarrow> bool" where
  "pages_fit ns start stop \<longleftrightarrow>
     unat start + sum_list (map unat ns) \<le> unat stop \<and> 4 dvd unat start \<and> (\<forall>n \<in> set ns. 12 \<le> n \<and> 4 dvd unat n)"

lemma unat_plus: "unat a + unat b < 2 ^ 32 \<Longrightarrow> unat (a + b) = unat a + unat b" for a b :: u32
  by (rule unat_sum)

lemma pages_fit_Cons:
  assumes "pages_fit (n # ns) start stop"
  shows "unat (start + n) = unat start + unat n" "pages_fit ns (start + n) stop" "12 \<le> unat n"
    and "4 dvd unat n" "4 dvd unat start" "unat start + unat n \<le> unat stop"
proof -
  have le: "unat start + unat n + sum_list (map unat ns) \<le> unat stop" using assms by (simp add: pages_fit_def)
  then show "unat start + unat n \<le> unat stop" by simp
  show u: "unat (start + n) = unat start + unat n" using le unat_u32 [of stop] by (intro unat_sum) linarith
  show "pages_fit ns (start + n) stop" using assms le u by (simp add: pages_fit_def)
  show "12 \<le> unat n" "4 dvd unat n" "4 dvd unat start" using assms by (simp_all add: pages_fit_def word_le_nat_alt)
qed

lemma fit_hdr:
  assumes "pages_fit (n # ns) start stop" "md_start d \<le> start" "stop \<le> md_end d"
  shows "hdr_ok d start"
  using pages_fit_Cons [OF assms(1)] assms(2,3)
  by (auto simp: hdr_ok_def word_le_nat_alt word_unat_eq_iff unat_mod)

lemma init_pages_laid:
  assumes "pages_fit (page_sizes cs pms (stop - start)) start stop" "md_start d \<le> start" "md_end d = stop"
  shows "init_pages cs pms start stop d =
     Some (d\<lparr>md_pages := md_pages d @ laid_pages cs (page_sizes cs pms (stop - start)) start,
             md_mem := laid_mem (page_sizes cs pms (stop - start)) start (md_mem d)\<rparr>)"
  using assms
proof (induction cs arbitrary: start d)
  case Nil
  then show ?case by simp
next
  case (Cons c cs)
  define n where "n = (if cs \<noteq> [] then (if cfg_size c \<noteq> 0 then ALLIGN_FLOOR (cfg_size c) else pms)
    else ALLIGN_FLOOR (stop - start))"
  have sizes: "page_sizes (c # cs) pms (stop - start) = n # page_sizes cs pms (stop - (start + n))"
    by (simp add: n_def Let_def diff_diff_eq)
  note fit = Cons.prems(1) [unfolded sizes]
  note C = pages_fit_Cons [OF fit]
  have le: "md_start d \<le> start + n" using Cons.prems(2) C(1) by (simp add: word_le_nat_alt)
  have hdr: "hdr_ok (d\<lparr>md_mem := m\<rparr>) start" for m using fit_hdr [OF fit, of d] Cons.prems(2,3) by simp
  have h: "hdr_ok d start" using hdr [of "md_mem d"] by simp
  show ?case
    unfolding sizes using C(2) le Cons.prems(3) hdr h
    by (simp add: n_def [symmetric] Cons.IH fun_upd_def)
qed

section \<open>The pages it leaves\<close>

lemma laid_mem_below:
  "pages_fit ns start stop \<Longrightarrow> unat a < unat start \<Longrightarrow> laid_mem ns start m a = m a"
proof (induction ns arbitrary: start m)
  case (Cons n ns)
  note C = pages_fit_Cons [OF Cons.prems(1)]
  have "unat start + 12 < 2 ^ 32 \<or> unat start + 12 = unat stop" using C(3,6) unat_u32 [of stop] by linarith
  then have "unat (start + 4) = unat start + 4" "unat (start + 8) = unat start + 8"
    using unat_add_nat [of start 4] unat_add_nat [of start 8] unat_u32 [of stop] by auto
  then have "a \<noteq> start" "a \<noteq> start + 4" "a \<noteq> start + 8" using Cons.prems(2) by auto
  then show ?case using Cons.IH [OF C(2)] Cons.prems(2) C(1) by simp
qed simp

lemma laid_length: "length ns = length cs \<Longrightarrow> length (laid_pages cs ns start) = length cs"
  by (induction cs ns start rule: laid_pages.induct) auto

lemma page_sizes_length [simp]: "length (page_sizes cs pms left) = length cs"
  by (induction cs arbitrary: left) (simp_all add: Let_def)

text \<open>Page \<open>k\<close> of them, and its block.\<close>

lemma laid_page:
  assumes "pages_fit ns start stop" "length ns = length cs" "k < length cs"
  shows "\<exists>b. laid_pages cs ns start ! k =
       \<lparr>base_start = b, base_end = b + ns ! k, max_alloc = cfg_max_alloc (cs ! k) + 8,
        free_list = \<lparr>head = Some b, tail = Some b\<rparr>, free_largest = Some b, pg_flags = cfg_flags (cs ! k)\<rparr> \<and>
     unat start \<le> unat b \<and> unat (b + ns ! k) = unat b + unat (ns ! k) \<and> unat (b + ns ! k) \<le> unat stop \<and> 4 dvd unat b \<and>
     laid_mem ns start m b = ns ! k \<and> laid_mem ns start m (b + 4) = 0 \<and> laid_mem ns start m (b + 8) = 0"
  using assms
proof (induction cs ns start arbitrary: k m rule: laid_pages.induct)
  case (1 c cs n ns start)
  note C = pages_fit_Cons [OF "1.prems"(1)]
  show ?case
  proof (cases k)
    case 0
    have "unat (start + 4) = unat start + 4" "unat (start + 8) = unat start + 8"
      using unat_add_nat [of start 4] unat_add_nat [of start 8] C(3,6) unat_u32 [of stop] by auto
    then have "unat start < unat (start + n)" "unat (start + 4) < unat (start + n)" "unat (start + 8) < unat (start + n)"
      using C(1,3) by simp_all
    then show ?thesis using 0 C(1,5,6) by (simp add: laid_mem_below [OF C(2)])
  next
    case (Suc j)
    define m' where "m' = m(start + 4 := 0, start := n, start + 8 := 0)"
    have "laid_mem (n # ns) start m = laid_mem ns (start + n) m'" by (simp only: laid_mem.simps m'_def)
    moreover have "unat start \<le> unat b" if "unat (start + n) \<le> unat b" for b using that C(1) by simp
    ultimately show ?thesis using Suc "1.IH" [OF C(2), of j m'] "1.prems"(2,3) by (simp del: laid_mem.simps) blast
  qed
qed simp_all

lemma laid_order:
  assumes "pages_fit ns start stop" "length ns = length cs" "i < j" "j < length cs"
  shows "base_end (laid_pages cs ns start ! i) \<le> base_start (laid_pages cs ns start ! j)"
  using assms
proof (induction cs ns start arbitrary: i j rule: laid_pages.induct)
  case (1 c cs n ns start)
  note C = pages_fit_Cons [OF "1.prems"(1)]
  obtain j' where j: "j = Suc j'" using "1.prems"(3) by (cases j) auto
  have lj: "length ns = length cs" "j' < length cs" using "1.prems"(2,4) j by auto
  show ?case
  proof (cases i)
    case 0
    obtain b where "base_start (laid_pages cs ns (start + n) ! j') = b" "unat (start + n) \<le> unat b"
      using laid_page [OF C(2) lj, of "\<lambda>_. 0"] by auto
    then show ?thesis using 0 j by (simp add: word_le_nat_alt)
  next
    case (Suc i')
    then show ?thesis using "1.IH" [OF C(2) lj(1), of i' j'] lj(2) j "1.prems"(3) by simp
  qed
qed simp_all

lemma laid_region:
  assumes fit: "pages_fit ns first stop" and len: "length ns = length cs"
    and d: "md_pages d = laid_pages cs ns first" "md_mem d = laid_mem ns first m" "0 < md_start d" "md_end d = stop"
      "unat (md_start d) + 32 * length cs \<le> unat first"
  shows "region_ok d (\<lambda>i. [(base_start (md_pages d ! i), unat (ns ! i), False)]) (\<lambda>i. [base_start (md_pages d ! i)])"
proof -
  have n: "length (md_pages d) = length cs" using d(1) laid_length [OF len] by simp
  have "page_ok i d [(base_start (md_pages d ! i), unat (ns ! i), False)] [base_start (md_pages d ! i)]"
    if i: "i < length cs" for i
  proof -
    obtain b where b: "md_pages d ! i =
       \<lparr>base_start = b, base_end = b + ns ! i, max_alloc = cfg_max_alloc (cs ! i) + 8,
        free_list = \<lparr>head = Some b, tail = Some b\<rparr>, free_largest = Some b, pg_flags = cfg_flags (cs ! i)\<rparr>"
      "unat first \<le> unat b" "unat (b + ns ! i) = unat b + unat (ns ! i)" "unat (b + ns ! i) \<le> unat stop" "4 dvd unat b"
      "md_mem d b = ns ! i" "md_mem d (b + 4) = 0" "md_mem d (b + 8) = 0"
      using laid_page [OF fit len i, of m] d(1,2) by auto
    have "12 \<le> unat (ns ! i)" "4 dvd unat (ns ! i)"
      using fit i len nth_mem [of i ns] by (auto simp: pages_fit_def word_le_nat_alt)
    then show ?thesis using b i n d(3-5)
      by (simp add: page_ok_def space_def free_ok_def largest_ok_def sll_holds_def page_sll_def mem_links_def
        ptr_def page_sorted_def word_le_nat_alt)
  qed
  moreover have "base_end (md_pages d ! i) \<le> base_start (md_pages d ! j)" if "i < j" "j < length cs" for i j
    using laid_order [OF fit len that] d(1) by simp
  ultimately show ?thesis using n by (simp add: region_ok_def)
qed

section \<open>The region it leaves\<close>

lemma init_region_run:
  assumes "cfg_sizes cfg 0 0 = (given, j)"
    and "pms = (if j > 0 then ALLIGN_FLOOR ((stop - start - of_nat (32 * length cfg) - given) div j)
      else stop - start - of_nat (32 * length cfg) - given)"
    and "first = start + of_nat (32 * length cfg)" "ns = page_sizes cfg pms (stop - first)"
    and fit: "pages_fit ns first stop" and le: "start \<le> first"
  shows "mem_dynamic_init_region start stop cfg fl s =
     Some (semaphore_create (md_lock (mem_dynamic_pool s)) 1
       (s\<lparr>mem_dynamic_pool := \<lparr>md_lock = md_lock (mem_dynamic_pool s), md_flags = fl, md_start = start, md_end = stop,
          md_pages = laid_pages cfg ns first, md_mem = laid_mem ns first (md_mem (mem_dynamic_pool s))\<rparr>\<rparr>))"
proof -
  let ?d = "(mem_dynamic_pool s)\<lparr>md_flags := fl, md_start := start, md_end := stop, md_pages := []\<rparr>"
  have "init_pages cfg pms first stop ?d = Some (?d\<lparr>md_pages := laid_pages cfg ns first,
      md_mem := laid_mem ns first (md_mem (mem_dynamic_pool s))\<rparr>)"
    using init_pages_laid [of cfg pms stop first ?d] fit le assms(4) by simp
  then show ?thesis
    by (simp only: mem_dynamic_init_region_def Let_def assms(1) prod.case assms(2,3) [symmetric] Option.bind.simps)
      (cases "mem_dynamic_pool s", simp)
qed

text \<open>The configuration of \<^verbatim>\<open>mem.c\<close>: ten pages, the last of them of \<^verbatim>\<open>0x820\<close> bytes and more.\<close>

lemma mem_dyn_cfg_length: "length mem_dyn_cfg = 10"
  by (simp add: mem_dyn_cfg_def)

lemma mem_dyn_cfg_sizes: "cfg_sizes mem_dyn_cfg 0 0 = (0x820, 9)"
  by (simp add: mem_dyn_cfg_def ALLIGN_FLOOR_def ALLIGN_FLOOR_N_def)

lemma mem_dyn_page_sizes:
  "page_sizes mem_dyn_cfg pms left = replicate 9 pms @ [ALLIGN_FLOOR (left - 9 * pms)]"
  by (simp add: mem_dyn_cfg_def eval_nat_numeral)

lemma mem_dyn_fit:
  assumes room: "unat first + 0x820 + 144 \<le> unat stop" and al: "4 dvd unat first"
    and pms: "pms = ALLIGN_FLOOR ((stop - first - 0x820) div 9)"
  shows "pages_fit (page_sizes mem_dyn_cfg pms (stop - first)) first stop"
proof -
  define room where "room = unat stop - unat first"
  have le: "first \<le> stop" using assms(1) by (simp add: word_le_nat_alt)
  have u: "unat (stop - first) = room" using unat_sub [OF le] by (simp add: room_def)
  have r: "0x820 + 144 \<le> room" "unat first + room = unat stop" using assms(1) by (simp_all add: room_def)
  have "(0x820 :: u32) \<le> stop - first" using u r(1) by (simp add: word_le_nat_alt)
  then have u': "unat (stop - first - 0x820) = room - 0x820" using u by (simp add: unat_sub)
  define k where "k = (room - 0x820) div 9 div 8 * 8"
  have k: "unat pms = k" using u' by (simp add: pms ALLIGN_FLOOR_unat unat_div k_def)
  have "16 \<le> (room - 0x820) div 9" using r(1) by simp
  then have k12: "12 \<le> k" "9 * k \<le> room - 0x820" "8 dvd k" by (simp_all add: k_def)
  have nk: "unat (9 * pms) = 9 * k"
    using k k12(2) r unat_u32 [of stop] by (simp add: unat_word_ariths)
  then have "9 * pms \<le> stop - first" using k12(2) u by (simp add: word_le_nat_alt)
  then have last: "unat (stop - first - 9 * pms) = room - 9 * k" using u nk by (simp add: unat_sub)
  let ?l = "unat (ALLIGN_FLOOR (stop - first - 9 * pms))"
  have l: "?l = (room - 9 * k) div 8 * 8" using last by (simp add: ALLIGN_FLOOR_unat)
  then have "?l \<le> room - 9 * k" "12 \<le> ?l" "4 dvd ?l" using k12(2) r(1) by (simp_all add: dvd_def)
  moreover have "4 dvd k" using k12(3) by presburger
  ultimately show ?thesis using k k12(1,2) al r
    by (simp add: pages_fit_def mem_dyn_page_sizes sum_list_replicate word_le_nat_alt)
qed

end
