(* ===== verification/MemProps.thy ===== *)
theory MemProps
  imports MemInit Example
begin

text \<open>
  The properties of the memory managers of \<^verbatim>\<open>rtos/mem\<close>: an allocation takes a free block that is
  large enough and keeps the region in order, a block that is freed is merged with free neighbours.
\<close>

section \<open>Operations under the lock of a region\<close>

lemma mem_pool_kernel [simp]:
  "mem_dynamic_pool (upd_task c f s) = mem_dynamic_pool s"
  "mem_dynamic_pool (upd_sem m g s) = mem_dynamic_pool s"
  "mem_dynamic_pool (lock_up c s) = mem_dynamic_pool s"
  "mem_dynamic_pool (taken m ow s) = mem_dynamic_pool s"
  by (simp_all add: upd_task_def upd_sem_def lock_up_def taken_def)

lemma pool_sems: "s\<lparr>mem_dynamic_pool := d, sems := f\<rparr> = s\<lparr>sems := f, mem_dynamic_pool := d\<rparr>"
  for s :: "'z memstate_scheme"
  by (cases s) simp

text \<open>The state after an operation that had the lock of the region and left it as \<open>d\<close>.\<close>

definition with_pool :: "MEM_DYNAMIC \<Rightarrow> 'z memstate_scheme \<Rightarrow> 'z memstate_scheme" where
  "with_pool d s = (upd_sem (md_lock (mem_dynamic_pool s)) (\<lambda>x. x\<lparr>owner := None\<rparr>) s)\<lparr>mem_dynamic_pool := d\<rparr>"

lemma release_with_pool:
  assumes "unlocked (md_lock (mem_dynamic_pool s)) s" and "md_lock d = md_lock (mem_dynamic_pool s)"
  shows "semaphore_release P (md_lock d)
      ((taken (md_lock (mem_dynamic_pool s)) (current_task s) s)\<lparr>mem_dynamic_pool := d\<rparr>) = Some (with_pool d s)"
proof -
  let ?s = "s\<lparr>mem_dynamic_pool := d\<rparr>"
  have "unlocked (md_lock d) ?s" using assms by (simp add: unlocked_def lock_neutral_def split: option.splits)
  from semaphore_cycle(2) [OF this, of P] show ?thesis
    using assms(2) by (simp add: with_pool_def taken_def upd_sem_def pool_sems)
qed

lemma nested_lock:
  assumes "unlocked m s"
  shows "\<exists>s1. scheduler_lock s = Some s1 \<and> mem_dynamic_pool s1 = mem_dynamic_pool s \<and>
     (\<exists>s2. semaphore_obtain P m w s1 = Some (SUCCESS, s2) \<and>
        scheduler_unlock (env P) s2 = Some (taken m (current_task s) s) \<and>
        mem_dynamic_pool s2 = mem_dynamic_pool s)"
proof (cases "current_task s")
  case None
  then show ?thesis using semaphore_cycle(1) [OF assms, of P w]
    by (simp add: scheduler_lock_def scheduler_unlock_def)
next
  case (Some c)
  have lk: "lock_count (tasks s c) + 1 < SCHEDULER_MAX_LOCK" "lock_count (tasks s c) < SCHEDULER_MAX_LOCK"
      "flags (tasks s c) AND TASK_SCHED_DRIFT = 0 \<or> lock_count (tasks s c) \<noteq> 0"
      "count (sems s m) \<noteq> 0" "\<not> interrupt_protected (sems s m)"
    using assms Some by (auto simp: unlocked_def lock_neutral_def)
  have "scheduler_lock s = Some (lock_up c s)"
    using Some lk(2) by (simp add: scheduler_lock_def lock_up_def not_le [symmetric])
  moreover have "semaphore_obtain P m w (lock_up c s) = Some (SUCCESS, taken m (Some c) (lock_up c s))"
    using Some lk word_lock_up [OF lk(2)]
    by (intro semaphore_obtain_available) (simp_all add: lock_up_tasks lock_up_def)
  moreover have "scheduler_unlock (env P) (lock_up c (taken m (Some c) s)) = Some (taken m (Some c) s)"
    using Some lk by (intro unlock_lock_up) simp_all
  ultimately show ?thesis using Some by (simp add: taken_lock_up)
qed

lemma semaphore_create_pools [simp]:
  "mem_dynamic_pool (semaphore_create m n s) = mem_dynamic_pool s"
  "mem_static_pool (semaphore_create m n s) = mem_static_pool s"
  by (simp_all add: semaphore_create_def clear_semaphore_def upd_sem_def upd_cond_def Let_def)

section \<open>Examples\<close>

text \<open>A region with one page, from \<^verbatim>\<open>0x1020\<close> to \<^verbatim>\<open>0x1FC0\<close>, and a state with it.\<close>

definition one_page :: "u32 sll_head \<Rightarrow> u32 option \<Rightarrow> (u32 \<Rightarrow> u32) \<Rightarrow> MEM_DYNAMIC" where
  "one_page fl l m = \<lparr>md_lock = 0, md_flags = 0, md_start = 0x1000, md_end = 0x1FC0, md_pages =
     [\<lparr>base_start = 0x1020, base_end = 0x1FC0, max_alloc = 208, free_list = fl, free_largest = l,
       pg_flags = MEM_PAGE_ASC\<rparr>], md_mem = m\<rparr>"

lemma one_page_sel [simp]:
  "md_lock (one_page fl l m) = 0" "md_flags (one_page fl l m) = 0" "md_start (one_page fl l m) = 0x1000"
  "md_end (one_page fl l m) = 0x1FC0" "md_mem (one_page fl l m) = m"
  "md_pages (one_page fl l m) = [\<lparr>base_start = 0x1020, base_end = 0x1FC0, max_alloc = 208, free_list = fl,
     free_largest = l, pg_flags = MEM_PAGE_ASC\<rparr>]"
  by (simp_all add: one_page_def)

lemma one_page_upd [simp]:
  "md_mem_update f (one_page fl l m) = one_page fl l (f m)"
  "upd_page 0 (\<lambda>p. p\<lparr>free_largest := g p\<rparr>) (one_page fl l m) = one_page fl (g (md_pages (one_page fl l m) ! 0)) m"
  "set_page_sll 0 (nx, h) (one_page fl l m) = one_page h l (put_links nx m)"
  "page_sll 0 (one_page fl l m) = (mem_links m, fl)" "page_ptr (one_page fl l m) 0 = 0x1000"
  by (simp_all add: one_page_def upd_page_def set_page_sll_def page_sll_def page_ptr_def)

lemma one_page_hdr [simp]:
  "hdr_ok (one_page fl l m) b \<longleftrightarrow> 0x1000 \<le> b \<and> unat b + 12 \<le> 0x1FC0 \<and> b mod 4 = 0"
  by (simp add: hdr_ok_def)

definition mem_example :: "MEM_DYNAMIC \<Rightarrow> memstate" where
  "mem_example d = kstate.extend ((example 7 [] 0)\<lparr>sems := \<lambda>_. zero_semaphore\<lparr>count := 1, max_count := 1\<rparr>\<rparr>)
     (memstate.fields \<lparr>current_ptr = 0x100, end_ptr = 0x200\<rparr> d)"

lemma mem_example_sel [simp]:
  "mem_dynamic_pool (mem_example d) = d" "mem_static_pool (mem_example d) = \<lparr>current_ptr = 0x100, end_ptr = 0x200\<rparr>"
  by (simp_all add: mem_example_def kstate.defs memstate.defs)

lemma mem_example_unlocked: "unlocked m (mem_example d)"
  by (simp add: unlocked_def lock_neutral_def mem_example_def kstate.defs memstate.defs example_def
      example_task_def zero_task_def zero_condition_def zero_semaphore_def SCHEDULER_MAX_LOCK_def)

text \<open>The page with one free block, and with an allocated one of 112 bytes before it.\<close>

definition page_fresh :: MEM_DYNAMIC where
  "page_fresh = one_page \<lparr>head = Some 0x1020, tail = Some 0x1020\<rparr> (Some 0x1020)
     ((\<lambda>_. 0)(0x1024 := 0, 0x1020 := 4000, 0x1028 := 0))"

definition page_used :: MEM_DYNAMIC where
  "page_used = one_page \<lparr>head = Some 0x1090, tail = Some 0x1090\<rparr> (Some 0x1090)
     ((\<lambda>_. 0)(0x1020 := 112, 0x1028 := 0x1000, 0x1090 := 3888, 0x1094 := 0x1090))"

lemmas page_ok_defs = page_ok_def space_def free_ok_def largest_ok_def sll_holds_def page_sorted_def
  mem_links_def ptr_def MEM_PAGE_ASC_def MEM_PAGE_DEC_def

lemma page_fresh_ok: "region_ok page_fresh (\<lambda>_. [(0x1020, 4000, False)]) (\<lambda>_. [0x1020])"
  by (simp add: region_ok_def page_fresh_def page_ok_defs)

lemma page_used_ok:
  "region_ok page_used (\<lambda>_. [(0x1020, 112, True), (0x1090, 3888, False)]) (\<lambda>_. [0x1090])"
  by (simp add: region_ok_def page_used_def page_ok_defs)

section \<open>Allocation and release\<close>

text \<open>The size of the block for a request.\<close>

definition block_size :: "u32 \<Rightarrow> nat" where
  "block_size sz = 8 * ((unat sz + 19) div 8)"

lemma block_size_unat:
  assumes "unat sz + 20 < 2 ^ 32"
  shows "unat (ALLIGN_CEIL (sz + 12)) = block_size sz" "12 \<le> block_size sz" "4 dvd block_size sz"
proof -
  have u: "unat (sz + 12) = unat sz + 12" using unat_add_nat [of sz 12] assms by simp
  then show "unat (ALLIGN_CEIL (sz + 12)) = block_size sz"
    using ALLIGN_CEIL_unat [of "sz + 12"] assms by (simp add: block_size_def)
  show "12 \<le> block_size sz" by (simp add: block_size_def)
  have "block_size sz = 4 * (2 * ((unat sz + 19) div 8))" by (simp add: block_size_def)
  then show "4 dvd block_size sz" by (metis dvd_triv_left)
qed

text \<open>C24. An allocation with the lock free, of a size that does not wrap when the descriptor is
  added, on a region in which every free block that is large enough is the last of its page
  (\<open>split_at_end\<close>: a block that is divided with another behind it spoils that one's descriptor, see
  below). If a page has a free block that is large enough for the request and its descriptor, it
  returns the memory behind the descriptor of such a block, on the first page that is meant for the
  size and has the space, else on the last page that has it; the block is divided if more than a
  descriptor is left, and the region is in order again: the blocks fill the pages, the lists hold
  exactly the free blocks in the order the page asks for, and the largest is known. If it returns
  NULL nothing has changed and no block would have been large enough, unless the region is strict.
\<close>

theorem mem_alloc_ok:
  assumes "unlocked (md_lock (mem_dynamic_pool s)) s" and "region_ok (mem_dynamic_pool s) B F"
    and "unat sz + 20 < 2 ^ 32"
    and "split_at_end (length (md_pages (mem_dynamic_pool s))) B (block_size sz)"
  shows "\<exists>r d B' F'. mem_dynamic_alloc_region P sz s = Some (r, with_pool d s) \<and> region_ok d B' F' \<and>
     (case r of
        None \<Rightarrow> d = mem_dynamic_pool s \<and> B' = B \<and>
          (md_flags d AND MEM_STRICT_ALLOC = 0 \<longrightarrow>
             (\<forall>i < length (md_pages d). \<forall>b n. (b, n, False) \<in> set (B i) \<longrightarrow> n < block_size sz))
      | Some a \<Rightarrow> (\<exists>i xs b n ys.
          page_for (mem_dynamic_pool s) (ALLIGN_CEIL (sz + 12)) = Some i \<and>
          B i = xs @ (b, n, False) # ys \<and> block_size sz \<le> n \<and> a = b + 12 \<and>
          B' = B(i := xs @ carve b n (block_size sz) @ ys)))"
proof -
  let ?d = "mem_dynamic_pool s" and ?n = "ALLIGN_CEIL (sz + 12)"
  note n = block_size_unat [OF assms(3)]
  note cycle = semaphore_cycle(1) [OF assms(1), of P MAX_WAIT]
  have run: "mem_dynamic_alloc_region P sz s = Some (r, with_pool d s)"
    if "alloc_block ?n ?d = Some (r, d)" "md_lock d = md_lock ?d" for r d
    using that release_with_pool [OF assms(1) that(2), of P] cycle
    by (simp add: mem_dynamic_alloc_region_def Let_def)
  show ?thesis
  proof (cases "page_for ?d ?n")
    case None
    then show ?thesis using run [OF alloc_block_none [OF assms(2)]] assms(2) page_for_none [OF assms(2) None] n(1)
      by (intro exI [of _ None] exI [of _ ?d] exI [of _ B] exI [of _ F]) auto
  next
    case (Some i)
    then obtain xs b k ys d fs where a: "B i = xs @ (b, k, False) # ys" "block_size sz \<le> k"
        "alloc_block ?n ?d = Some (Some (b + 12), d)" "md_lock d = md_lock ?d"
        "region_ok d (B(i := xs @ carve b k (block_size sz) @ ys)) (F(i := fs))"
      using alloc_block_ok [OF assms(2) _ _ _ Some] n assms(4) by auto
    then show ?thesis using run [OF a(3,4)] Some by fastforce
  qed
qed

theorem mem_alloc_ok_witness:
  "\<forall>P. \<exists>r d B' F'. mem_dynamic_alloc_region P 100 (mem_example page_fresh) = Some (r, with_pool d (mem_example page_fresh)) \<and>
     region_ok d B' F'"
  using mem_alloc_ok [where s = "mem_example page_fresh" and B = "\<lambda>_. [(0x1020, 4000, False)]" and F = "\<lambda>_. [0x1020]"
      and sz = 100] page_fresh_ok mem_example_unlocked
  by (fastforce simp: split_at_end_def Cons_eq_append_conv)

lemma returned_pointer:
  assumes "space i d (xs @ (b, n, al) # ys)"
  shows "b + 12 \<noteq> 0" "b + 12 - 12 = b" "hdr_ok d b"
proof -
  note S = space_block [OF assms, of b n al]
  have "unat b + 12 < 2 ^ 32" using S(5,7) unat_u32 [of "base_end (md_pages d ! i)"] by simp
  then have "unat (b + 12) = unat b + 12" using unat_add_nat [of b 12] by simp
  then show "b + 12 \<noteq> 0" by auto
  show "b + 12 - 12 = b" "hdr_ok d b" using S(1) by simp_all
qed

text \<open>C25. Freeing an allocated block with the lock free ends and keeps the region in order. The block
  is merged with the block behind it if that is free, and with the block before it if that is free and
  is the one its \<^verbatim>\<open>phy_prev\<close> names; the other blocks stay.
\<close>

theorem mem_free_ok:
  assumes "unlocked (md_lock (mem_dynamic_pool s)) s" and "region_ok (mem_dynamic_pool s) B F"
    and "i < length (md_pages (mem_dynamic_pool s))" and "B i = xs @ (b, n, True) # ys"
  shows "\<exists>d fs. mem_dynamic_dealloc_region P (b + 12) s = Some (None, with_pool d s) \<and>
     region_ok d (B(i := coalesced (md_mem (mem_dynamic_pool s) (b + 4)) xs b n ys)) (F(i := fs))"
proof -
  let ?d = "mem_dynamic_pool s"
  have page: "page_ok i ?d (xs @ (b, n, True) # ys) (F i)"
    using assms(2-4) by (auto simp: region_ok_def)
  then have S: "space i ?d (xs @ (b, n, True) # ys)" and pg: "md_mem ?d (b + 8) = page_ptr ?d i"
    by (simp_all add: page_ok_def)
  note b = returned_pointer [OF S]
  obtain d fs where f: "free_block i b ?d = Some d" "md_lock d = md_lock ?d"
      "region_ok d (B(i := coalesced (md_mem ?d (b + 4)) xs b n ys)) (F(i := fs))"
    using free_in_region [OF assms(2-4)] by blast
  obtain s1 s2 where l: "scheduler_lock s = Some s1" "mem_dynamic_pool s1 = ?d"
      "semaphore_obtain P (md_lock ?d) MAX_WAIT s1 = Some (SUCCESS, s2)"
      "scheduler_unlock (env P) s2 = Some (taken (md_lock ?d) (current_task s) s)"
    using nested_lock [OF assms(1), of P MAX_WAIT] by blast
  have "mem_dynamic_dealloc_region P (b + 12) s = Some (None, with_pool d s)"
    using l b f(1) pg page_index_ok [OF S] release_with_pool [OF assms(1) f(2), of P]
    by (simp add: mem_dynamic_dealloc_region_def Let_def)
  then show ?thesis using f(3) by blast
qed

text \<open>A block in use between two free ones; its \<^verbatim>\<open>phy_prev\<close> names the first: all three become one.\<close>

definition page_between :: MEM_DYNAMIC where
  "page_between = one_page \<lparr>head = Some 0x1020, tail = Some 0x1100\<rparr> (Some 0x1100)
     ((\<lambda>_. 0)(0x1020 := 112, 0x1028 := 0x1100, 0x1090 := 112, 0x1094 := 0x1020, 0x1098 := 0x1000,
       0x1100 := 3776, 0x1104 := 0x1090))"

lemma page_between_ok:
  "region_ok page_between (\<lambda>_. [(0x1020, 112, False), (0x1090, 112, True), (0x1100, 3776, False)])
     (\<lambda>_. [0x1020, 0x1100])"
  by (simp add: region_ok_def page_between_def page_ok_defs insert_commute)

theorem mem_free_ok_witness:
  "\<forall>P. \<exists>d F. mem_dynamic_dealloc_region P 0x109C (mem_example page_between) =
     Some (None, with_pool d (mem_example page_between)) \<and>
     region_ok d ((\<lambda>_. [(0x1020, 112, False), (0x1090, 112, True), (0x1100, 3776, False)])
       (0 := [(0x1020, 4000, False)])) F"
proof -
  have prev: "md_mem page_between (0x1090 + 4) = 0x1020" by (simp add: page_between_def)
  have "coalesced 0x1020 [(0x1020, 112, False)] 0x1090 112 [(0x1100, 3776, False)] = [(0x1020, 4000, False)]"
    by (simp add: coalesced_def merged_prev_def)
  then show ?thesis
    using mem_free_ok [where s = "mem_example page_between" and i = 0 and F = "\<lambda>_. [0x1020, 0x1100]"
        and B = "\<lambda>_. [(0x1020, 112, False), (0x1090, 112, True), (0x1100, 3776, False)]"
        and xs = "[(0x1020, 112, False)]" and b = "0x1090" and n = 112 and ys = "[(0x1100, 3776, False)]",
        unfolded mem_example_sel prev]
      page_between_ok mem_example_unlocked
    by (fastforce simp: page_between_def)
qed

section \<open>A live block that is handed out again\<close>

text \<open>
  Requests on a region with one page, without the lock: an allocation, and giving back what was
  returned.
\<close>

datatype request = Take u32 | Give u32

fun requests :: "request list \<Rightarrow> MEM_DYNAMIC \<Rightarrow> (u32 option list \<times> MEM_DYNAMIC) option" where
  "requests [] d = Some ([], d)"
| "requests (Take sz # rs) d = do {
     (r, d) \<leftarrow> alloc_block (ALLIGN_CEIL (sz + 12)) d;
     (ps, d) \<leftarrow> requests rs d;
     Some (r # ps, d) }"
| "requests (Give p # rs) d = do { d \<leftarrow> free_block 0 (p - 12) d; requests rs d }"

lemmas mem_run = alloc_block_def mem_dynamic_search_region_def alloc_from_def take_block_def split_block_def
  set_largest_def page_insert_def mem_dynamic_match_size_def mem_dynamic_sort_ascending_def free_block_def
  merge_next_def merge_prev_def MEM_PAGE_DEC_def MEM_PAGE_ASC_def MEM_STRICT_ALLOC_def MEM_DYN_MIN_MEM_def
  ALLIGN_CEIL_def ALLIGN_CEIL_N_def Let_def

lemmas sll_run = sll_search_def sll_insert_def sll_search_pop_def sll_remove_node_def sll_push_def
  sll_in_list_def sll_in_list_loop.simps sll_insert_walk.simps sll_search_walk.simps sll_remove_def
  sll_remove_walk.simps

lemmas mem_eval = mem_links_def ptr_def unptr_def put_links_upd put_links_same

lemma merge_prev_stale:
  assumes S: "space i d (xs @ (b, n, False) # (e, m, True) # (c, k, True) # ys)"
    and D: "unat (md_mem d b) = n" "unat (md_mem d c) = k"
    and F: "free_ok i d fs" "set fs = free_addrs (xs @ (b, n, False) # (e, m, True) # (c, k, True) # ys)"
    and L: "free_largest (md_pages d ! i) = Some l" "l \<in> set fs"
    and stale: "md_mem d (c + 4) = b"
  shows "\<exists>d' fs'. merge_prev i c d = Some (b, d') \<and> free_ok i d' fs' \<and> set fs' = set fs - {b} \<and>
     unat (md_mem d' b) = n + k \<and> free_largest (md_pages d' ! i) = Some l \<and>
     (\<forall>bs. space i d' bs = space i d bs)"
proof -
  let ?bs = "xs @ (b, n, False) # (e, m, True) # (c, k, True) # ys"
  have sub: "set fs \<subseteq> addrs ?bs" and b: "b \<in> set fs" using F(2) free_addrs_subset [of ?bs] by auto
  obtain q fs' where q: "sll_remove (Some b) (page_sll i d) = Some (Some b, q)"
      "free_ok i (set_page_sll i q d) fs'" "set fs' = set fs - {b}"
      "step i ((\<lambda>b. b + 8) ` set fs) d (set_page_sll i q d)"
      "free_largest (md_pages (set_page_sll i q d) ! i) = free_largest (md_pages d ! i)"
    using remove_block [OF S sub F(1) b] by blast
  define d1 where "d1 = set_page_sll i q d"
  note q = q [folded d1_def]
  note keep = step_links [OF q(4) S sub] and pg = stepD [OF q(4)]
  have S1: "space i d1 ?bs" using S step_space [OF q(4)] by simp
  have hdr: "hdr_ok d x \<and> hdr_ok d1 x" if "x \<in> addrs ?bs" for x using space_hdr [OF S that] pg(4) by simp
  have in_bs: "b \<in> addrs ?bs" "c \<in> addrs ?bs" by simp_all
  have next': "space i d1 ((xs @ [(b, n, False), (e, m, True)]) @ (c, k, True) # ys)" using S1 by simp
  have w: "unat (md_mem d1 c) = k" "md_mem d1 c = md_mem d c" "md_mem d1 b = md_mem d b"
    using keep(1) in_bs D by simp_all
  note nxt = next_addr [OF next' w(1)]
  let ?m = "(case ys of [] \<Rightarrow> md_mem d1 | (y, _, _) # _ \<Rightarrow> (md_mem d1)(y + 4 := b))"
  have store: "(if c + md_mem d1 c < base_end (md_pages d1 ! i) then store_phy_prev (c + md_mem d1 c) b d1
      else Some d1) = Some (d1\<lparr>md_mem := ?m\<rparr>)"
    using nxt hdr by (cases ys) auto
  have apart: "x \<noteq> y + 4" "x + 8 \<noteq> y + 4" if "x \<in> addrs ?bs" "ys = (y, j, a) # zs" for x y j a zs
    using space_apart(1,4) [OF S that(1), of y] that(2) by auto
  have m: "?m x = md_mem d1 x" "?m (x + 8) = md_mem d1 (x + 8)" if "x \<in> addrs ?bs" for x
    using apart [OF that] by (auto split: list.split)
  have cfs: "c \<notin> set fs"
    using F(2) distinct_addrs [of i d "xs @ [(b, n, False), (e, m, True)]" c k True ys] S
      free_addrs_subset [of xs] free_addrs_subset [of ys] distinct_addrs(2) [OF S] by auto
  let ?d' = "d1\<lparr>md_mem := ?m(b := ?m b + md_mem d1 c)\<rparr>"
  have "load_page d b = Some (md_mem d (b + 8))" "md_mem d (b + 8) \<noteq> page_ptr d i" "b \<noteq> 0"
    using hdr in_bs free_not_page [OF S F(1) sub b] space_nonzero [OF S in_bs(1)] by simp_all
  moreover have "l \<noteq> c" using L(2) cfs by blast
  moreover have "load_size (d1\<lparr>md_mem := ?m\<rparr>) b = Some (?m b)"
      "store_size b w (d1\<lparr>md_mem := ?m\<rparr>) = Some (d1\<lparr>md_mem := ?m(b := w)\<rparr>)" for w
    using hdr in_bs(1) access(1,4) [of "d1\<lparr>md_mem := ?m\<rparr>" b] by (simp_all add: hdr_ok_def)
  moreover have "load_phy_prev d c = Some b" "load_size d1 c = Some (md_mem d1 c)"
    using hdr in_bs(2) stale by simp_all
  moreover have "free_largest (md_pages d1 ! i) = Some l" using q(5) L(1) by simp
  ultimately have run: "merge_prev i c d = Some (b, ?d')"
    using q(1) store
    by (simp add: merge_prev_def Let_def d1_def [symmetric] del: set_page_sll_sel cong: if_cong
        split del: if_split)
  have "unat b + (n + k) < 2 ^ 32"
  proof -
    have "unat e + m + k \<le> unat (base_end (md_pages d ! i))" "unat b + n \<le> unat e"
      using S by (auto simp: space_def tiles_append dest: tiles_le)
    then show ?thesis using unat_u32 [of "base_end (md_pages d ! i)"] by simp
  qed
  then have "unat (md_mem d b + md_mem d c) = n + k"
    using D by (simp add: unat_word_ariths take_bit_eq_mod)
  then have size: "unat (md_mem ?d' b) = n + k" using m(1) [OF in_bs(1)] w by simp
  have "free_ok i ?d' fs'"
  proof (rule free_ok_frame [OF q(2)])
    fix x assume x: "x \<in> set fs'"
    then have xa: "x \<in> addrs ?bs" "x \<noteq> b" using q(3) sub by auto
    then show "md_mem ?d' x = md_mem d1 x \<and> md_mem ?d' (x + 8) = md_mem d1 (x + 8)"
      using m [OF xa(1)] space_apart(6) [OF S xa(1) in_bs(1)] by simp
  qed simp_all
  moreover have "\<forall>bs. space i ?d' bs = space i d bs" using step_space [OF q(4)] by (simp add: space_def)
  ultimately show ?thesis using run size q(3,5) L(1) by (intro exI [of _ ?d'] exI [of _ fs']) simp
qed


text \<open>Blocks of 96 bytes (free), 128 and 3776 bytes in use; the last one's \<^verbatim>\<open>phy_prev\<close> names the first.\<close>

definition page_stale :: MEM_DYNAMIC where
  "page_stale = one_page \<lparr>head = Some 0x1020, tail = Some 0x1020\<rparr> (Some 0x1020)
     ((\<lambda>_. 0)(0x1020 := 96, 0x1080 := 128, 0x1084 := 0x1080, 0x1088 := 0x1000, 0x1100 := 3776,
       0x1104 := 0x1020, 0x1108 := 0x1000))"


text \<open>
  A series of requests after which this happens: the fifth block, at \<^verbatim>\<open>0x108C\<close>, is never given back,
  but the last one covers it.
\<close>

lemma requests_hand_out_live:
  "\<exists>s' d. mem_dynamic_init_region 0x1000 0x1FC0 [\<lparr>cfg_max_alloc = 200, cfg_size = 0, cfg_flags = MEM_PAGE_ASC\<rparr>] 0
       (mem_example (one_page \<lparr>head = None, tail = None\<rparr> None (\<lambda>_. 0))) = Some s' \<and>
     requests [Take 100, Take 100, Take 100, Give 0x109C, Give 0x102C, Take 84, Take 116, Give 0x102C,
       Give 0x110C, Take 3860] (mem_dynamic_pool s') =
     Some ([Some 0x102C, Some 0x109C, Some 0x110C, Some 0x102C, Some 0x108C, Some 0x102C], d)"
proof -
  have init: "\<exists>s'. mem_dynamic_init_region 0x1000 0x1FC0 [\<lparr>cfg_max_alloc = 200, cfg_size = 0, cfg_flags = MEM_PAGE_ASC\<rparr>] 0
      (mem_example (one_page \<lparr>head = None, tail = None\<rparr> None (\<lambda>_. 0))) = Some s' \<and> mem_dynamic_pool s' = page_fresh"
    by (simp add: mem_dynamic_init_region_def Let_def ALLIGN_FLOOR_def ALLIGN_FLOOR_N_def hdr_ok_def page_fresh_def one_page_def)
  have "\<exists>d. requests [Take 100, Take 100, Take 100, Give 0x109C, Give 0x102C, Take 84, Take 116, Give 0x102C,
       Give 0x110C, Take 3860] page_fresh =
     Some ([Some 0x102C, Some 0x109C, Some 0x110C, Some 0x102C, Some 0x108C, Some 0x102C], d)"
    unfolding page_fresh_def by (simp add: mem_run sll_run mem_eval)
  then show ?thesis using init by auto
qed

section \<open>Initialisation\<close>

text \<open>C26. With enough memory and an aligned start the boot leaves the static region as given and a
  dynamic region in order, whose ten pages are one free block each.
\<close>

theorem mem_init_ok:
  assumes "0 < start" and "4 dvd unat start" and "unat start + 2544 \<le> unat stop"
  shows "\<exists>s' B F. mem_init static_start static_end start stop s = Some s' \<and>
     mem_static_pool s' = \<lparr>current_ptr = static_start, end_ptr = static_end\<rparr> \<and>
     length (md_pages (mem_dynamic_pool s')) = 10 \<and> region_ok (mem_dynamic_pool s') B F \<and>
     (\<forall>i < 10. \<exists>n. B i = [(base_start (md_pages (mem_dynamic_pool s') ! i), n, False)])"
proof -
  let ?first = "start + 320"
  have u: "unat ?first = unat start + 320" using unat_add_nat [of start 320] assms(3) unat_u32 [of stop] by simp
  define pms where "pms = ALLIGN_FLOOR ((stop - ?first - 0x820) div 9)"
  define ns where "ns = page_sizes mem_dyn_cfg pms (stop - ?first)"
  have fit: "pages_fit ns ?first stop"
    unfolding ns_def using assms(2,3) u by (intro mem_dyn_fit [OF _ _ pms_def]) simp_all
  let ?s = "mem_static_init_region static_start static_end s"
  let ?d = "\<lparr>md_lock = md_lock (mem_dynamic_pool ?s), md_flags = 0, md_start = start, md_end = stop,
     md_pages = laid_pages mem_dyn_cfg ns ?first, md_mem = laid_mem ns ?first (md_mem (mem_dynamic_pool ?s))\<rparr>"
  let ?s' = "semaphore_create (md_lock (mem_dynamic_pool ?s)) 1 (?s\<lparr>mem_dynamic_pool := ?d\<rparr>)"
  have "mem_init static_start static_end start stop s = Some ?s'"
    unfolding mem_init_def
    by (rule init_region_run [OF mem_dyn_cfg_sizes _ _ _ fit])
      (simp_all add: pms_def ns_def mem_dyn_cfg_length word_le_nat_alt u diff_diff_eq)
  moreover have "length ns = length mem_dyn_cfg" by (simp add: ns_def)
  moreover have "length (md_pages ?d) = 10" using laid_length [of ns mem_dyn_cfg] by (simp add: ns_def mem_dyn_cfg_length)
  moreover have "region_ok ?d (\<lambda>i. [(base_start (md_pages ?d ! i), unat (ns ! i), False)]) (\<lambda>i. [base_start (md_pages ?d ! i)])"
    by (rule laid_region [OF fit, where cs = mem_dyn_cfg]) (use assms(1) u in \<open>simp_all add: ns_def mem_dyn_cfg_length\<close>)
  ultimately show ?thesis
    by (intro exI [of _ ?s'] exI [of _ "\<lambda>i. [(base_start (md_pages ?d ! i), unat (ns ! i), False)]"]
        exI [of _ "\<lambda>i. [base_start (md_pages ?d ! i)]"])
      (simp add: mem_static_init_region_def)
qed

theorem mem_init_ok_witness:
  "\<exists>s' B F. mem_init 0x20000000 0x20001000 0x20001000 0x20005000 (mem_example page_fresh) = Some s' \<and>
     mem_static_pool s' = \<lparr>current_ptr = 0x20000000, end_ptr = 0x20001000\<rparr> \<and>
     length (md_pages (mem_dynamic_pool s')) = 10 \<and> region_ok (mem_dynamic_pool s') B F \<and>
     (\<forall>i < 10. \<exists>n. B i = [(base_start (md_pages (mem_dynamic_pool s') ! i), n, False)])"
  by (rule mem_init_ok) simp_all

section \<open>Static memory\<close>

text \<open>A series of allocations.\<close>

fun static_allocs ::
    "'z memstate_ext env \<Rightarrow> u32 list \<Rightarrow> 'z memstate_scheme \<Rightarrow> (u32 option list \<times> 'z memstate_scheme) option" where
  "static_allocs e [] s = Some ([], s)"
| "static_allocs e (n # ns) s = do {
     (r, s) \<leftarrow> mem_static_alloc_region e n s;
     (rs, s) \<leftarrow> static_allocs e ns s;
     Some (r # rs, s) }"

definition move_static :: "u32 \<Rightarrow> 'z memstate_scheme \<Rightarrow> 'z memstate_scheme" where
  "move_static p s = s\<lparr>mem_static_pool := (mem_static_pool s)\<lparr>current_ptr := p\<rparr>\<rparr>"

lemma static_alloc_run:
  assumes "lock_neutral s"
  shows "mem_static_alloc_region e n s =
     (let c = current_ptr (mem_static_pool s) in
      if c + n < end_ptr (mem_static_pool s) then Some (Some c, move_static (c + n) s) else Some (None, s))"
proof (cases "current_task s")
  case None
  then show ?thesis
    by (simp add: mem_static_alloc_region_def move_static_def scheduler_lock_def scheduler_unlock_def Let_def)
next
  case (Some c)
  have lk: "lock_count (tasks s c) < SCHEDULER_MAX_LOCK"
      "flags (tasks s c) AND TASK_SCHED_DRIFT = 0 \<or> lock_count (tasks s c) \<noteq> 0"
    using assms Some by (auto simp: lock_neutral_def)
  have lock: "scheduler_lock s = Some (lock_up c s)"
    using Some lk(1) by (simp add: scheduler_lock_def lock_up_def not_le [symmetric])
  have move: "(lock_up c s)\<lparr>mem_static_pool := (mem_static_pool s)\<lparr>current_ptr := p\<rparr>\<rparr> = lock_up c (move_static p s)" for p
    by (cases s) (simp add: move_static_def lock_up_def upd_task_def)
  have "scheduler_unlock e (lock_up c s) = Some s"
    "scheduler_unlock e (lock_up c (move_static p s)) = Some (move_static p s)" for p
    using Some lk by (auto intro!: unlock_lock_up simp: move_static_def)
  moreover have "mem_static_pool (lock_up c s) = mem_static_pool s" by (simp add: lock_up_def upd_task_def)
  ultimately show ?thesis using lock move
    by (simp add: mem_static_alloc_region_def Let_def)
qed

lemma move_static_sel [simp]:
  "lock_neutral (move_static p s) = lock_neutral s"
  "mem_static_pool (move_static p s) = (mem_static_pool s)\<lparr>current_ptr := p\<rparr>"
  by (simp_all add: move_static_def lock_neutral_def split: option.split)

text \<open>What the blocks of a series are: in order, behind each other and inside the region.\<close>

fun in_order :: "nat \<Rightarrow> nat \<Rightarrow> (u32 option \<times> u32) list \<Rightarrow> bool" where
  "in_order a e [] \<longleftrightarrow> True"
| "in_order a e ((None, n) # bs) \<longleftrightarrow> e \<le> a + unat n \<and> in_order a e bs"
| "in_order a e ((Some b, n) # bs) \<longleftrightarrow> unat b = a \<and> a + unat n < e \<and> in_order (a + unat n) e bs"

text \<open>C28. A series of allocations from a static region ends, when no request is so large that its end
  could wrap (\<open>end + n < 2 ^ 32\<close>); the blocks that are granted lie behind each other without gaps and
  end before the end of the region, and a request is refused exactly if its block would reach the
  end. What a larger request does is shown below.
\<close>

theorem static_allocs_in_order:
  assumes "lock_neutral s" and "current_ptr (mem_static_pool s) \<le> end_ptr (mem_static_pool s)"
    and "\<forall>n \<in> set ns. unat (end_ptr (mem_static_pool s)) + unat n < 2 ^ 32"
  shows "\<exists>rs s'. static_allocs e ns s = Some (rs, s') \<and> length rs = length ns \<and>
     in_order (unat (current_ptr (mem_static_pool s))) (unat (end_ptr (mem_static_pool s))) (zip rs ns)"
  using assms
proof (induction ns arbitrary: s)
  case (Cons n ns)
  let ?c = "current_ptr (mem_static_pool s)" and ?e = "end_ptr (mem_static_pool s)"
  have u: "unat (?c + n) = unat ?c + unat n"
    using Cons.prems(2,3) by (intro unat_sum) (auto simp: word_le_nat_alt)
  have small: "\<forall>n \<in> set ns. unat ?e + unat n < 2 ^ 32" using Cons.prems(3) by simp
  show ?case
  proof (cases "?c + n < ?e")
    case True
    then obtain rs s' where "static_allocs e ns (move_static (?c + n) s) = Some (rs, s')" "length rs = length ns"
        "in_order (unat (?c + n)) (unat ?e) (zip rs ns)"
      using Cons.IH [of "move_static (?c + n) s"] Cons.prems(1) small less_imp_le [OF True] by auto
    then show ?thesis using True u Cons.prems(1) by (auto simp: static_alloc_run Let_def word_less_nat_alt)
  next
    case False
    then obtain rs s' where "static_allocs e ns s = Some (rs, s')" "length rs = length ns"
        "in_order (unat ?c) (unat ?e) (zip rs ns)"
      using Cons.IH [of s] Cons.prems(1,2) small by auto
    then show ?thesis using False u Cons.prems(1) by (auto simp: static_alloc_run Let_def word_less_nat_alt not_less)
  qed
qed simp

text \<open>A static request whose end wraps is granted and moves the pointer back: the next block lies on
  the one before it.
\<close>

theorem static_huge_request_overlaps:
  assumes "lock_neutral s" and "0 < n" and "r = mem_static_pool s"
    and "unat (current_ptr r) + unat n < unat (end_ptr r)"
  shows "\<exists>s'. static_allocs e [n, - n, n] s =
     Some ([Some (current_ptr r), Some (current_ptr r + n), Some (current_ptr r)], s')"
proof -
  let ?c = "current_ptr r"
  have u: "unat (?c + n) = unat ?c + unat n" using assms(4) unat_u32 [of "end_ptr r"] by (intro unat_sum) simp
  then have "?c + n < end_ptr r" "?c < end_ptr r" using assms(4) by (simp_all add: word_less_nat_alt)
  then show ?thesis using assms(1,3) by (simp add: static_alloc_run Let_def)
qed

theorem static_allocs_in_order_witness:
  "\<forall>e. \<exists>rs s'. static_allocs e [0x40, 0x100, 0x80] (mem_example page_fresh) = Some (rs, s') \<and> length rs = 3 \<and>
     in_order 0x100 0x200 (zip rs [0x40, 0x100, 0x80])"
  using static_allocs_in_order [where s = "mem_example page_fresh" and ns = "[0x40, 0x100, 0x80]"]
    mem_example_unlocked [of 0 page_fresh]
  by (simp add: unlocked_def numeral_3_eq_3 del: static_allocs.simps)

theorem static_huge_request_overlaps_witness:
  "\<forall>e. \<exists>s'. static_allocs e [0x40, - 0x40, 0x40] (mem_example page_fresh) = Some ([Some 0x100, Some 0x140, Some 0x100], s')"
  using static_huge_request_overlaps [where s = "mem_example page_fresh" and n = "0x40"]
    mem_example_unlocked [of 0 page_fresh]
  by (simp add: unlocked_def del: static_allocs.simps)

end
