(* ===== verification/Tcp.thy ===== *)
theory Tcp
  imports FsBuffer
begin

text \<open>
  Parts of TCP (\<^verbatim>\<open>rtos/net/net_tcp.c\<close>) that work on a port and on packets but send none: the test of a
  received sequence number, the options of a header, the retransmission table and the timers. The ports
  are named by their descriptors, as their \<^verbatim>\<open>console.fs\<close> is their first member; their state extends that
  of the file system buffers.
\<close>

section \<open>Data\<close>

definition NET_INVALID_HDR :: int where "NET_INVALID_HDR = - 1013"
definition NET_NO_NEXT_OPT :: int where "NET_NO_NEXT_OPT = - 1009"
definition TCP_OPT_END :: u8 where "TCP_OPT_END = 0"
definition TCP_OPT_NOP :: u8 where "TCP_OPT_NOP = 1"
definition TCP_OPT_MSS :: u8 where "TCP_OPT_MSS = 2"
definition TCP_OPT_WIND_SCALE :: u8 where "TCP_OPT_WIND_SCALE = 3"
definition TCP_FLAG_WND_SCALE :: u8 where "TCP_FLAG_WND_SCALE = 0x1"
definition TCP_FLAG_MSS :: u8 where "TCP_FLAG_MSS = 0x2"
definition TCP_HDR_FLAG_ACK :: u16 where "TCP_HDR_FLAG_ACK = 0x10"
definition TCP_HRD_SIZE :: u32 where "TCP_HRD_SIZE = 20"
definition TCP_HDR_HDR_LEN_MSK :: u16 where "TCP_HDR_HDR_LEN_MSK = 0xF000"
definition TCP_HDR_HDR_LEN_SHIFT :: nat where "TCP_HDR_HDR_LEN_SHIFT = 12"
definition TCP_RTX_IN_USE :: u8 where "TCP_RTX_IN_USE = 0x1"
definition TCP_RTX_BUFFER_RETURNED :: u8 where "TCP_RTX_BUFFER_RETURNED = 0x4"

text \<open>The defaults of the configuration.\<close>

definition SOFT_TICKS_PER_SEC :: u32 where "SOFT_TICKS_PER_SEC = 100"
definition TCP_WND_SIZE :: u32 where "TCP_WND_SIZE = 1024"
definition TCP_WND_SCALE :: u8 where "TCP_WND_SCALE = 2"
definition TCP_RTO :: u32 where "TCP_RTO = 750"
definition TCP_NUM_RTX :: nat where "TCP_NUM_RTX = 16"

definition MS_TO_TICK :: "u32 \<Rightarrow> u32" where
  "MS_TO_TICK a = (a * SOFT_TICKS_PER_SEC) div 1000"

text \<open>An element of the retransmission table.\<close>

record TCP_RTX_DATA =
  rtx_buffer :: "lid option"
  rtx_seq_num :: u32
  rtx_seg_len :: u16
  rtx_flags :: u8

text \<open>A port without its console, addresses and received packets; of its suspend structure the timeout.\<close>

record TCP_PORT =
  oorx_list :: "lid sll_head"
  rx_buffer :: "lid option"
  rtx :: "TCP_RTX_DATA list"
  event_timeout :: u32
  rtx_timeout :: u32
  rtx_time :: u32
  rcv_nxt :: u32
  rcv_wnd :: u32
  snd_nxt :: u32
  snd_una :: u32
  snd_wnd :: u32
  mss :: u16
  rcv_wnd_scale :: u8
  snd_wnd_scale :: u8
  tp_state :: u8
  tp_flags :: u8
  nacks :: u8
  event_timeout_enable :: bool
  rtx_timeout_enable :: bool
  sus_timeout :: u32
  sus_timeout_enabled :: bool

text \<open>\<open>net_buff_fd\<close> is the descriptor of the networking task's queue.\<close>

record tcpstate = fsstate +
  tcp_ports :: "fd \<Rightarrow> TCP_PORT"
  net_buff_fd :: fd

type_synonym 'z tcp_platform = "'z tcpstate_ext fs_platform"

definition upd_port :: "fd \<Rightarrow> (TCP_PORT \<Rightarrow> TCP_PORT) \<Rightarrow> 'z tcpstate_scheme \<Rightarrow> 'z tcpstate_scheme" where
  "upd_port p f s = s\<lparr>tcp_ports := (tcp_ports s)(p := f (tcp_ports s p))\<rparr>"

text \<open>Two bytes in memory as a number.\<close>

definition word16 :: "u8 list \<Rightarrow> u16" where
  "word16 bs = ucast (bs ! 0) OR push_bit 8 (ucast (bs ! 1))"

definition bytes16 :: "u16 \<Rightarrow> u8 list" where
  "bytes16 w = [ucast w, ucast (drop_bit 8 w)]"

section \<open>Sequence numbers\<close>

definition in_window :: "u32 \<Rightarrow> u32 \<Rightarrow> u32 \<Rightarrow> bool" where
  "in_window seq nxt wnd \<longleftrightarrow> INT32CMP nxt seq \<le> 0 \<and> INT32CMP seq (nxt + wnd) < 0"

definition tcp_check_sequence :: "u32 \<Rightarrow> u32 \<Rightarrow> u32 \<Rightarrow> u32 \<Rightarrow> bool" where
  "tcp_check_sequence seg_seq seg_len nxt wnd =
     (if wnd = 0 then seg_len = 0 \<and> seg_seq = nxt
      else if seg_len = 0 then in_window seg_seq nxt wnd
      else in_window seg_seq nxt wnd \<or> in_window (seg_seq + (seg_len - 1)) nxt wnd)"

section \<open>Ports\<close>

definition tcp_port_initialize :: "fd \<Rightarrow> 'z tcpstate_scheme \<Rightarrow> 'z tcpstate_scheme" where
  "tcp_port_initialize p s = upd_port p (\<lambda>x. x\<lparr>rcv_wnd := TCP_WND_SIZE, rcv_wnd_scale := 0, snd_wnd_scale := 0,
     nacks := 0, event_timeout_enable := False, rtx_timeout_enable := False\<rparr>) s"

definition tcp_resume_socket ::
    "'z tcp_platform \<Rightarrow> fd \<Rightarrow> u32 \<Rightarrow> 'z tcpstate_scheme \<Rightarrow> 'z tcpstate_scheme option" where
  "tcp_resume_socket P p fl s = do {
     s \<leftarrow> (if fl AND FS_BLOCK_READ \<noteq> 0 then fd_data_available P p s else Some s);
     (if fl AND FS_BLOCK_WRITE \<noteq> 0 then fd_space_available P p s else Some s) }"

section \<open>Options\<close>

text \<open>The assertion of the code on a pull: it stops unless the status is zero.\<close>

definition pull_at ::
    "'z tcp_platform \<Rightarrow> lid \<Rightarrow> u32 \<Rightarrow> u32 \<Rightarrow> u8 \<Rightarrow> 'z tcpstate_scheme \<Rightarrow> (u8 list \<times> 'z tcpstate_scheme) option" where
  "pull_at P l n off fl s = do {
     (st, bs, s) \<leftarrow> fs_buffer_list_pull_offset P l True n off fl s;
     ASSERT (st \<noteq> SUCCESS);
     IN_RANGE (length bs = unat n);
     Some (bs, s) }"

text \<open>The type and the length of the option at \<open>opt_index\<close>.\<close>

definition option_head ::
    "'z tcp_platform \<Rightarrow> lid \<Rightarrow> u32 \<Rightarrow> u16 \<Rightarrow> u16 \<Rightarrow> 'z tcpstate_scheme \<Rightarrow>
     (int \<times> u8 \<times> u8 \<times> u16 \<times> 'z tcpstate_scheme) option" where
  "option_head P l offset total_size opt_index s = do {
     (bs, s) \<leftarrow> pull_at P l 1 (offset + ucast opt_index) FS_BUFFER_INPLACE s;
     let opt_type = bs ! 0;
     let opt_index = opt_index + 1;
     (if opt_type \<noteq> TCP_OPT_END \<and> opt_type \<noteq> TCP_OPT_NOP then
        (if opt_index < total_size then do {
           (bs, s) \<leftarrow> pull_at P l 1 (offset + ucast opt_index) FS_BUFFER_INPLACE s;
           let opt_len = bs ! 0;
           let opt_index = opt_index + 1;
           Some (if opt_len \<ge> 2 then (SUCCESS, opt_type, opt_len - 2, opt_index, s)
                 else (NET_INVALID_HDR, opt_type, opt_len, opt_index, s)) }
         else Some (NET_INVALID_HDR, opt_type, 0, opt_index, s))
      else Some (SUCCESS, opt_type, 0, opt_index, s)) }"

text \<open>The option itself, whose value is at \<open>off\<close>.\<close>

definition process_option ::
    "'z tcp_platform \<Rightarrow> lid \<Rightarrow> fd \<Rightarrow> u8 \<Rightarrow> u8 \<Rightarrow> u32 \<Rightarrow> 'z tcpstate_scheme \<Rightarrow> (int \<times> 'z tcpstate_scheme) option" where
  "process_option P l p opt_type opt_len off s =
     (if opt_type = TCP_OPT_MSS then
        (if opt_len = 2 then do {
           (bs, s) \<leftarrow> pull_at P l 2 off (FS_BUFFER_PACKED OR FS_BUFFER_INPLACE) s;
           let s = (if word16 bs < mss (tcp_ports s p) then upd_port p (\<lambda>x. x\<lparr>mss := word16 bs\<rparr>) s else s);
           Some (SUCCESS, upd_port p (\<lambda>x. x\<lparr>tp_flags := tp_flags x OR TCP_FLAG_MSS\<rparr>) s) }
         else Some (NET_INVALID_HDR, s))
      else if opt_type = TCP_OPT_WIND_SCALE then
        (if opt_len = 1 then do {
           (bs, s) \<leftarrow> pull_at P l 1 off FS_BUFFER_INPLACE s;
           let s = upd_port p (\<lambda>x. x\<lparr>snd_wnd_scale := bs ! 0\<rparr>) s;
           Some (SUCCESS, upd_port p (\<lambda>x. x\<lparr>tp_flags := tp_flags x OR TCP_FLAG_WND_SCALE\<rparr>) s) }
         else Some (NET_INVALID_HDR, s))
      else if opt_type = TCP_OPT_END then Some (NET_NO_NEXT_OPT, s)
      else Some (SUCCESS, s))"

partial_function (option) options_loop ::
    "'z tcp_platform \<Rightarrow> lid \<Rightarrow> fd \<Rightarrow> u32 \<Rightarrow> u16 \<Rightarrow> int \<Rightarrow> u16 \<Rightarrow> 'z tcpstate_scheme \<Rightarrow> (int \<times> 'z tcpstate_scheme) option" where
  "options_loop P l p offset total_size st opt_index s =
     (if st = SUCCESS \<and> opt_index < total_size then do {
        (st, opt_type, opt_len, opt_index, s) \<leftarrow> option_head P l offset total_size opt_index s;
        (if st = SUCCESS \<and> unat opt_len + unat opt_index \<le> unat total_size then do {
           (st, s) \<leftarrow> process_option P l p opt_type opt_len (offset + ucast opt_index) s;
           options_loop P l p offset total_size st (opt_index + ucast opt_len) s }
         else options_loop P l p offset total_size st opt_index s) }
      else Some (st, s))"

definition tcp_process_options ::
    "'z tcp_platform \<Rightarrow> lid \<Rightarrow> fd \<Rightarrow> u32 \<Rightarrow> u16 \<Rightarrow> 'z tcpstate_scheme \<Rightarrow> (int \<times> 'z tcpstate_scheme) option" where
  "tcp_process_options P l p offset total_size s =
     options_loop P l p offset total_size
       (if offset + ucast total_size > bl_total_length (blists s l) then NET_INVALID_HDR else SUCCESS) 0 s"

text \<open>
  The connection request of this port was answered: the options of the answer with the header flags
  \<open>fl\<close> are taken and the window scales are settled. The acknowledgment that follows is not modelled.
\<close>

definition options_size :: "u16 \<Rightarrow> u16" where
  "options_size fl = drop_bit (TCP_HDR_HDR_LEN_SHIFT - 2) (fl AND TCP_HDR_HDR_LEN_MSK) - ucast TCP_HRD_SIZE"

definition syn_sent_options ::
    "'z tcp_platform \<Rightarrow> lid \<Rightarrow> fd \<Rightarrow> u32 \<Rightarrow> u16 \<Rightarrow> 'z tcpstate_scheme \<Rightarrow> (int \<times> 'z tcpstate_scheme) option" where
  "syn_sent_options P l p ihl fl s = do {
     let s = upd_port p (\<lambda>x. x\<lparr>tp_flags := tp_flags x AND TCP_FLAG_WND_SCALE\<rparr>) s;
     (st, s) \<leftarrow> fd_get_lock P (bl_fd (blists s l)) s;
     ASSERT (st \<noteq> SUCCESS);
     (st, s) \<leftarrow> tcp_process_options P l p (ihl + TCP_HRD_SIZE) (options_size fl) s;
     s \<leftarrow> fd_release_lock P (bl_fd (blists s l)) s;
     Some (st, if st = SUCCESS \<and> tp_flags (tcp_ports s p) AND TCP_FLAG_WND_SCALE = 0
       then upd_port p (\<lambda>x. x\<lparr>snd_wnd_scale := 0, rcv_wnd_scale := 0\<rparr>) s else s) }"

definition tcp_add_option ::
    "'z tcp_platform \<Rightarrow> lid \<Rightarrow> u8 \<Rightarrow> u8 \<Rightarrow> u8 list option \<Rightarrow> u8 \<Rightarrow> 'z tcpstate_scheme \<Rightarrow> (int \<times> 'z tcpstate_scheme) option" where
  "tcp_add_option P l type n val fl s = do {
     (st, s) \<leftarrow> fs_buffer_list_push P l (Some [type]) 1 0 s;
     (if st = SUCCESS \<and> n > 1 then do {
        (st, s) \<leftarrow> fs_buffer_list_push P l (Some [n]) 1 0 s;
        (if st = SUCCESS \<and> val \<noteq> None then fs_buffer_list_push P l val (ucast n - 2) fl s
         else Some (st, s)) }
      else Some (st, s)) }"

text \<open>The loop that adds padding.\<close>

partial_function (option) pad_options ::
    "'z tcp_platform \<Rightarrow> lid \<Rightarrow> u8 \<Rightarrow> int \<Rightarrow> u8 \<Rightarrow> 'z tcpstate_scheme \<Rightarrow> (int \<times> u8 \<times> 'z tcpstate_scheme) option" where
  "pad_options P l fl st ret_size s =
     (if st = SUCCESS \<and> ret_size mod 4 \<noteq> 0 then do {
        (st, s) \<leftarrow> tcp_add_option P l TCP_OPT_NOP 1 None fl s;
        pad_options P l fl st (ret_size + 1) s }
      else Some (st, ret_size, s))"

text \<open>The result is the status, the receive window scale, the size of the options and the state.\<close>

definition tcp_add_options ::
    "'z tcp_platform \<Rightarrow> lid \<Rightarrow> u16 \<Rightarrow> u8 \<Rightarrow> u8 \<Rightarrow> u8 \<Rightarrow> u8 \<Rightarrow> 'z tcpstate_scheme \<Rightarrow>
     (int \<times> u8 \<times> u8 \<times> 'z tcpstate_scheme) option" where
  "tcp_add_options P l m scale opt_flags opt_size fl s = do {
     (st, ret_size, s) \<leftarrow>
       (if opt_flags AND TCP_FLAG_MSS \<noteq> 0 then do {
          (st, s) \<leftarrow> tcp_add_option P l TCP_OPT_MSS 4 (Some (bytes16 m)) (FS_BUFFER_PACKED OR fl) s;
          Some (st, if st = SUCCESS then 4 else 0, s) }
        else Some (SUCCESS, 0, s));
     (st, scale, ret_size, s) \<leftarrow>
       (if st = SUCCESS \<and> opt_flags AND TCP_FLAG_WND_SCALE \<noteq> 0 then do {
          (st, s) \<leftarrow> tcp_add_option P l TCP_OPT_WIND_SCALE 3 (Some [TCP_WND_SCALE]) fl s;
          Some (if st = SUCCESS then (st, TCP_WND_SCALE, ret_size + 3, s) else (st, scale, ret_size, s)) }
        else Some (st, scale, ret_size, s));
     (st, ret_size, s) \<leftarrow> pad_options P l fl st ret_size s;
     Some (st, scale, if st = SUCCESS then ret_size else opt_size, s) }"

text \<open>
  The part of \<^verbatim>\<open>tcp_send_segment\<close> that adds the options to a segment with SYN, with the list \<open>l\<close> of the
  locked descriptor \<open>g\<close>; \<open>fl\<close> are the flags of the header. The result is the status, the size of the
  options and the state, in which the receive window scale that was announced is that of the port.
\<close>

definition syn_options ::
    "'z tcp_platform \<Rightarrow> lid \<Rightarrow> fd \<Rightarrow> fd \<Rightarrow> u16 \<Rightarrow> u8 \<Rightarrow> u8 \<Rightarrow> 'z tcpstate_scheme \<Rightarrow>
     (int \<times> u8 \<times> 'z tcpstate_scheme) option" where
  "syn_options P l g p fl opt_size buffer_flags s = do {
     s \<leftarrow> fd_release_lock P g s;
     (st, s) \<leftarrow> fd_get_lock P p s;
     ASSERT (st \<noteq> SUCCESS);
     let opt_flags = (if fl AND TCP_HDR_FLAG_ACK = 0 then TCP_FLAG_WND_SCALE OR TCP_FLAG_MSS
                      else tp_flags (tcp_ports s p));
     let m = mss (tcp_ports s p);
     let scale = rcv_wnd_scale (tcp_ports s p);
     s \<leftarrow> fd_release_lock P p s;
     (st, s) \<leftarrow> fd_get_lock P g s;
     ASSERT (st \<noteq> SUCCESS);
     (status, scale, opt_size, s) \<leftarrow>
       tcp_add_options P l m scale opt_flags opt_size (buffer_flags AND NOT FS_BUFFER_SUSPEND) s;
     s \<leftarrow> fd_release_lock P g s;
     (st, s) \<leftarrow> fd_get_lock P p s;
     ASSERT (st \<noteq> SUCCESS);
     let s = upd_port p (\<lambda>x. x\<lparr>rcv_wnd_scale := scale\<rparr>) s;
     s \<leftarrow> fd_release_lock P p s;
     (st, s) \<leftarrow> fd_get_lock P g s;
     ASSERT (st \<noteq> SUCCESS);
     Some (status, opt_size, s) }"

section \<open>Timers\<close>

definition net_condition_updated :: "'z tcp_platform \<Rightarrow> 'z tcpstate_scheme \<Rightarrow> 'z tcpstate_scheme option" where
  "net_condition_updated P s =
     (if current_task s \<noteq> None \<and> current_task s \<noteq> Some (net_condition_tcb P) then do {
        (st, s) \<leftarrow> fd_get_lock P (net_buff_fd s) s;
        ASSERT (st \<noteq> SUCCESS);
        s \<leftarrow> fd_data_available P (net_buff_fd s) s;
        fd_release_lock P (net_buff_fd s) s }
      else Some s)"

definition next_timeout :: "TCP_PORT \<Rightarrow> u32 option" where
  "next_timeout x =
     (if rtx_timeout_enable x \<and> (\<not> event_timeout_enable x \<or> INT32CMP (event_timeout x) (rtx_timeout x) > 0)
      then Some (rtx_timeout x) else if event_timeout_enable x then Some (event_timeout x) else None)"

definition tcp_timeout_update :: "'z tcp_platform \<Rightarrow> fd \<Rightarrow> 'z tcpstate_scheme \<Rightarrow> 'z tcpstate_scheme option" where
  "tcp_timeout_update P p s =
     net_condition_updated P (upd_port p (\<lambda>x. case next_timeout x of
        Some t \<Rightarrow> x\<lparr>sus_timeout := t, sus_timeout_enabled := True\<rparr>
      | None \<Rightarrow> x\<lparr>sus_timeout_enabled := False\<rparr>) s)"

section \<open>Retransmissions\<close>

definition rtx_in_use :: "TCP_RTX_DATA \<Rightarrow> bool" where
  "rtx_in_use r \<longleftrightarrow> rtx_flags r AND TCP_RTX_IN_USE \<noteq> 0"

definition upd_rtx :: "fd \<Rightarrow> nat \<Rightarrow> (TCP_RTX_DATA \<Rightarrow> TCP_RTX_DATA) \<Rightarrow> 'z tcpstate_scheme \<Rightarrow> 'z tcpstate_scheme" where
  "upd_rtx p i f s = upd_port p (\<lambda>x. x\<lparr>rtx := (rtx x)[i := f (rtx x ! i)]\<rparr>) s"

text \<open>The loop of \<^verbatim>\<open>tcp_get_rtx_free\<close>; the indices are those from \<open>i\<close> on.\<close>

definition tcp_get_rtx_free :: "fd \<Rightarrow> 'z tcpstate_scheme \<Rightarrow> nat option \<times> 'z tcpstate_scheme" where
  "tcp_get_rtx_free p s =
     (case List.find (\<lambda>i. \<not> rtx_in_use (rtx (tcp_ports s p) ! i)) [0..<TCP_NUM_RTX] of
        Some i \<Rightarrow> (Some i, upd_rtx p i (\<lambda>r. r\<lparr>rtx_flags := rtx_flags r OR TCP_RTX_IN_USE\<rparr>) s)
      | None \<Rightarrow> (None, s))"

text \<open>Giving the buffer of element \<open>i\<close> back, with its descriptor locked, and the unlocking.\<close>

definition rtx_give_back ::
    "'z tcp_platform \<Rightarrow> fd \<Rightarrow> nat \<Rightarrow> 'z tcpstate_scheme \<Rightarrow> 'z tcpstate_scheme option" where
  "rtx_give_back P p i s = do {
     ASSERT (rtx_buffer (rtx (tcp_ports s p) ! i) = None);
     l \<leftarrow> rtx_buffer (rtx (tcp_ports s p) ! i);
     (st, s) \<leftarrow> fd_get_lock P (bl_fd (blists s l)) s;
     ASSERT (st \<noteq> SUCCESS);
     l \<leftarrow> rtx_buffer (rtx (tcp_ports s p) ! i);
     let s = upd_blist l (\<lambda>x. x\<lparr>bl_free := None, bl_free_data := NULLP\<rparr>) s;
     (if rtx_flags (rtx (tcp_ports s p) ! i) AND TCP_RTX_BUFFER_RETURNED \<noteq> 0
      then fs_buffer_add_list P (bl_fd (blists s l)) l FS_LIST_FREE (ucast FS_BUFFER_ACTIVE) s else Some s) }"

definition rtx_unlock ::
    "'z tcp_platform \<Rightarrow> fd \<Rightarrow> nat \<Rightarrow> 'z tcpstate_scheme \<Rightarrow> 'z tcpstate_scheme option" where
  "rtx_unlock P p i s = do {
     l \<leftarrow> rtx_buffer (rtx (tcp_ports s p) ! i);
     fd_release_lock P (bl_fd (blists s l)) s }"

abbreviation rtx_clear :: "fd \<Rightarrow> nat \<Rightarrow> 'z tcpstate_scheme \<Rightarrow> 'z tcpstate_scheme" where
  "rtx_clear p i s \<equiv> upd_rtx p i (\<lambda>r. r\<lparr>rtx_flags := 0\<rparr>) s"

definition rtx_acked :: "u32 \<Rightarrow> TCP_RTX_DATA \<Rightarrow> bool" where
  "rtx_acked ack r \<longleftrightarrow> INT32CMP (rtx_seq_num r + ucast (rtx_seg_len r)) ack \<le> 0"

text \<open>The loop over the elements, with \<open>freed\<close> and \<open>do_rtx\<close>.\<close>

fun rtx_ack_loop ::
    "'z tcp_platform \<Rightarrow> fd \<Rightarrow> u32 \<Rightarrow> nat list \<Rightarrow> bool \<Rightarrow> bool \<Rightarrow> 'z tcpstate_scheme \<Rightarrow>
     (bool \<times> bool \<times> 'z tcpstate_scheme) option" where
  "rtx_ack_loop P p ack [] freed do_rtx s = Some (freed, do_rtx, s)"
| "rtx_ack_loop P p ack (i # is) freed do_rtx s =
     (if rtx_in_use (rtx (tcp_ports s p) ! i) then
        (if rtx_acked ack (rtx (tcp_ports s p) ! i) then do {
           s \<leftarrow> rtx_give_back P p i s;
           s \<leftarrow> rtx_unlock P p i (rtx_clear p i s);
           rtx_ack_loop P p ack is True do_rtx s }
         else rtx_ack_loop P p ack is freed True s)
      else rtx_ack_loop P p ack is freed do_rtx s)"

definition tcp_rtx_process_ack ::
    "'z tcp_platform \<Rightarrow> fd \<Rightarrow> u32 \<Rightarrow> 'z tcpstate_scheme \<Rightarrow> (bool \<times> 'z tcpstate_scheme) option" where
  "tcp_rtx_process_ack P p ack s = do {
     (freed, do_rtx, s) \<leftarrow> rtx_ack_loop P p ack [0..<TCP_NUM_RTX] False False s;
     let s = (if do_rtx then
         (let (now, s) = current_system_tick s in
          upd_port p (\<lambda>x. x\<lparr>rtx_timeout := now + MS_TO_TICK TCP_RTO, rtx_time := TCP_RTO, rtx_timeout_enable := True\<rparr>) s)
       else upd_port p (\<lambda>x. x\<lparr>rtx_timeout_enable := False\<rparr>) s);
     s \<leftarrow> (if freed \<or> do_rtx then tcp_timeout_update P p s else Some s);
     Some (freed, s) }"

fun rtx_free_loop :: "'z tcp_platform \<Rightarrow> fd \<Rightarrow> nat list \<Rightarrow> 'z tcpstate_scheme \<Rightarrow> 'z tcpstate_scheme option" where
  "rtx_free_loop P p [] s = Some s"
| "rtx_free_loop P p (i # is) s = do {
     s \<leftarrow> (if rtx_in_use (rtx (tcp_ports s p) ! i)
          then do { s \<leftarrow> rtx_give_back P p i s; rtx_unlock P p i s } else Some s);
     rtx_free_loop P p is (rtx_clear p i s) }"

definition tcp_rtx_free_all :: "'z tcp_platform \<Rightarrow> fd \<Rightarrow> 'z tcpstate_scheme \<Rightarrow> 'z tcpstate_scheme option" where
  "tcp_rtx_free_all P p s = do {
     s \<leftarrow> rtx_free_loop P p [0..<TCP_NUM_RTX] s;
     tcp_timeout_update P p (upd_port p (\<lambda>x. x\<lparr>rtx_timeout_enable := False\<rparr>) s) }"

text \<open>A buffer that was sent comes back to element \<open>i\<close> of port \<open>p\<close>.\<close>

definition tcp_rtx_return_buffer ::
    "'z tcp_platform \<Rightarrow> fd \<Rightarrow> nat \<Rightarrow> lid \<Rightarrow> 'z tcpstate_scheme \<Rightarrow> (bool \<times> 'z tcpstate_scheme) option" where
  "tcp_rtx_return_buffer P p i l s = do {
     s \<leftarrow> fd_release_lock P (bl_fd (blists s l)) s;
     (st, s) \<leftarrow> fd_get_lock P p s;
     (returned, s) \<leftarrow>
       (if st = SUCCESS then do {
          let (returned, s) =
            (if rtx_in_use (rtx (tcp_ports s p) ! i)
             then (True, upd_rtx p i (\<lambda>r. r\<lparr>rtx_flags := rtx_flags r OR TCP_RTX_BUFFER_RETURNED\<rparr>) s)
             else (False, s));
          s \<leftarrow> fd_release_lock P p s;
          Some (returned, s) }
        else Some (True, s));
     (st, s) \<leftarrow> fd_get_lock P (bl_fd (blists s l)) s;
     ASSERT (st \<noteq> SUCCESS);
     Some (returned, s) }"

declare options_loop.simps [code] pad_options.simps [code]

end
