(* ===== verification/TcpSeq.thy ===== *)
theory TcpSeq
  imports Tcp
begin

text \<open>
  The test of a received sequence number (\<^verbatim>\<open>tcp_check_sequence\<close> of \<^verbatim>\<open>rtos/net/net_tcp.c\<close>) in terms of the
  octets of the segment and of the window.
\<close>

lemma sint_sign: "sint w < 0 \<longleftrightarrow> 2 ^ 31 \<le> unat w" for w :: u32
proof -
  have u: "0 \<le> uint w" "uint w < 2 ^ 32" using uint_ge_0 [of w] uint_lt2p [of w] by simp_all
  have "sint w < 0 \<longleftrightarrow> 2 ^ 31 \<le> uint w"
  proof (cases "uint w < 2 ^ 31")
    case True
    have "- (2 ^ 31) \<le> uint w" using u(1) by (rule order_trans [rotated]) simp
    then have "sint (word_of_int (uint w) :: u32) = uint w" using True by (rule sint32_of_int)
    then show ?thesis using True u by simp
  next
    case False
    have s: "sint (word_of_int (uint w - 2 ^ 32) :: u32) = uint w - 2 ^ 32"
      using u False by (intro sint32_of_int) simp_all
    have eq: "(word_of_int (uint w - 2 ^ 32) :: u32) = word_of_int (uint w)"
      unfolding word_of_int_eq_iff by (simp add: take_bit_eq_mod)
    have "sint w = uint w - 2 ^ 32" using s unfolding eq word_of_int_uint .
    then show ?thesis using False u(2) by linarith
  qed
  then show ?thesis using le_nat_iff [OF u(1), of "2 ^ 31"] by simp
qed

lemma sint_pos: "sint w \<le> 0 \<longleftrightarrow> w = 0 \<or> 2 ^ 31 \<le> unat w" for w :: u32
proof -
  have "sint w \<le> 0 \<longleftrightarrow> sint w = 0 \<or> sint w < 0" by linarith
  then show ?thesis using sint_sign [of w] INT32CMP_eq_0 [of w 0] by (simp add: INT32CMP_def)
qed

lemma unat_diff_word: "unat (a - b) = (if unat b \<le> unat a then unat a - unat b else 2 ^ 32 + unat a - unat b)" for a b :: u32
proof -
  have "unat a < 2 ^ 32" "unat b < 2 ^ 32" using unsigned_less [of a] unsigned_less [of b] by simp_all
  then show ?thesis by (auto simp: unat_sub_if_size word_size)
qed

lemma unat_minus_word: "unat (- w) = (if w = 0 then 0 else 2 ^ 32 - unat w)" for w :: u32
  using unat_diff_word [of 0 w] by (simp add: unat_eq_zero)

lemma in_window_iff:
  assumes "0 < unat wnd" and "unat wnd \<le> 2 ^ 31"
  shows "in_window seq nxt wnd \<longleftrightarrow> unat (seq - nxt) < unat wnd"
proof -
  define x where "x = seq - nxt"
  have "nxt - seq = - x" "seq - (nxt + wnd) = x - wnd" by (simp_all add: x_def diff_diff_eq)
  moreover have x: "unat x < 2 ^ 32" using unsigned_less [of x, where 'a = nat] by simp
  moreover have "sint (- x) \<le> 0 \<longleftrightarrow> unat x \<le> 2 ^ 31"
    using x by (auto simp: sint_pos unat_minus_word)
  moreover have "sint (x - wnd) < 0 \<longleftrightarrow> 2 ^ 31 \<le> (if unat wnd \<le> unat x then unat x - unat wnd
      else 2 ^ 32 + unat x - unat wnd)"
    unfolding sint_sign unat_diff_word [of x wnd] by simp
  ultimately have "in_window seq nxt wnd \<longleftrightarrow> unat x \<le> 2 ^ 31 \<and> 2 ^ 31 \<le> (if unat wnd \<le> unat x
      then unat x - unat wnd else 2 ^ 32 + unat x - unat wnd)"
    by (simp only: in_window_def INT32CMP_def)
  then show ?thesis using x assms by (simp only: x_def [symmetric]) (cases "unat wnd \<le> unat x"; simp; linarith)
qed

text \<open>The octets from \<open>a\<close> on.\<close>

definition octets :: "u32 \<Rightarrow> u32 \<Rightarrow> u32 set" where
  "octets a n = (\<lambda>k. a + of_nat k) ` {..<unat n}"

lemma octets_iff: "x \<in> octets a n \<longleftrightarrow> unat (x - a) < unat n"
proof
  assume "x \<in> octets a n"
  then obtain k where k: "k < unat n" "x = a + of_nat k" by (auto simp: octets_def)
  moreover have "unat n < 2 ^ 32" using unsigned_less [of n] by simp
  ultimately show "unat (x - a) < unat n" by (simp add: unat_of_nat)
next
  assume "unat (x - a) < unat n"
  moreover have "x = a + of_nat (unat (x - a))" by simp
  ultimately show "x \<in> octets a n" unfolding octets_def by blast
qed

text \<open>A run of octets no longer than the window that meets the window has its first or its last in it.\<close>

lemma run_meets:
  assumes "unat len \<le> unat wnd" "len \<noteq> 0"
  shows "octets seq len \<inter> octets nxt wnd \<noteq> {} \<longleftrightarrow> seq \<in> octets nxt wnd \<or> seq + (len - 1) \<in> octets nxt wnd"
proof
  assume "octets seq len \<inter> octets nxt wnd \<noteq> {}"
  then obtain y where y: "unat (y - seq) < unat len" "unat (y - nxt) < unat wnd" by (auto simp: octets_iff)
  define a where "a = unat (y - seq)"
  have bounds: "unat (y - nxt) < 2 ^ 32" "unat len < 2 ^ 32"
    using unsigned_less [of "y - nxt"] unsigned_less [of len] by simp_all
  have one: "unat (len - 1) = unat len - 1" using assms(2) by (rule unat_minus_one)
  have first: "seq - nxt = (y - nxt) - (y - seq)" by simp
  show "seq \<in> octets nxt wnd \<or> seq + (len - 1) \<in> octets nxt wnd"
  proof (cases "a \<le> unat (y - nxt)")
    case True
    then have "unat (seq - nxt) = unat (y - nxt) - a"
      unfolding first a_def using unat_diff_word [of "y - nxt" "y - seq"] by (simp only: if_True)
    then have "unat (seq - nxt) < unat wnd" using y(2) by simp
    then show ?thesis by (simp add: octets_iff)
  next
    case False
    have eq: "(seq + (len - 1)) - nxt = (y - nxt) + ((len - 1) - (y - seq))" by simp
    moreover have "unat ((len - 1) - (y - seq)) = unat len - 1 - a"
      using y(1) one unat_diff_word [of "len - 1" "y - seq"] by (simp add: a_def)
    moreover have "unat (y - nxt) + (unat len - 1 - a) < unat wnd" using False y(1) assms(1) by (simp add: a_def)
    moreover have "unat wnd < 2 ^ 32" using unsigned_less [of wnd, where 'a = nat] by simp
    ultimately have "unat ((seq + (len - 1)) - nxt) < unat wnd"
      unfolding eq using unat_add_lem [of "y - nxt" "(len - 1) - (y - seq)"] by simp
    then show ?thesis by (simp add: octets_iff)
  qed
next
  assume "seq \<in> octets nxt wnd \<or> seq + (len - 1) \<in> octets nxt wnd"
  moreover have "unat len > 0" using assms(2) by (simp add: unat_gt_0)
  then have "seq \<in> octets seq len" "seq + (len - 1) \<in> octets seq len"
    using unat_minus_one [OF assms(2)] by (simp_all add: octets_iff)
  ultimately show "octets seq len \<inter> octets nxt wnd \<noteq> {}" by blast
qed



end
