(* ===== verification/TcpOptions.thy ===== *)
theory TcpOptions
  imports Tcp FsOps FsProps
begin

text \<open>
  The options of a TCP header (\<^verbatim>\<open>rtos/net/net_tcp.c\<close>): the parser as a function on the bytes of the
  header, and that it understands the options this implementation sends.
\<close>

section \<open>Ports beside the buffers\<close>

lemma upd_port_sel [simp]:
  "tcp_ports (upd_port p f s) = (tcp_ports s)(p := f (tcp_ports s p))"
  "fds (upd_port p f s) = fds s" "bufs (upd_port p f s) = bufs s" "buf_next (upd_port p f s) = buf_next s"
  "blists (upd_port p f s) = blists s" "list_next (upd_port p f s) = list_next s"
  "net_buff_fd (upd_port p f s) = net_buff_fd s" "kstate.truncate (upd_port p f s) = kstate.truncate s"
  by (simp_all add: upd_port_def kstate.defs)

lemma upd_port_upd: "upd_port p f (upd_port p g s) = upd_port p (\<lambda>x. f (g x)) s"
  by (simp add: upd_port_def)

lemma upd_port_same: "upd_port p (\<lambda>_. tcp_ports s p) s = s"
  by (simp add: upd_port_def)

lemma list_bytes_port [simp]: "list_bytes (upd_port p f s) bs = list_bytes s bs"
  by (simp add: list_bytes_def)

lemma linked_port [simp]: "linked l (upd_port p f s) bs xs = linked l s bs xs"
  by (simp add: linked_def chain_holds_def pool_holds_def chain_sll_def fd_size_def)

lemma ready_port [simp]: "ready g (upd_port p f s) = ready g s"
proof -
  have "kstate.truncate (upd_port p f s) = kstate.truncate s" by (simp add: upd_port_def kstate.defs)
  then show ?thesis using calm_cong [of "upd_port p f s" s g] by (simp add: ready_def)
qed

lemma port_initialize [simp]:
  "linked l (tcp_port_initialize p s) bs xs = linked l s bs xs" "ready g (tcp_port_initialize p s) = ready g s"
  "blists (tcp_port_initialize p s) = blists s" "list_bytes (tcp_port_initialize p s) bs = list_bytes s bs"
  "bufs (tcp_port_initialize p s) = bufs s"
  by (simp_all add: tcp_port_initialize_def)

lemma pull_at_ok:
  assumes lk: "linked l s bs xs" and n: "0 < unat n" "unat off + unat n \<le> length (list_bytes s bs)"
    and fl: "fl AND FS_BUFFER_INPLACE \<noteq> 0" "fl AND FS_BUFFER_HEAD = 0" "fl AND FS_BUFFER_TAIL = 0"
  shows "pull_at P l n off fl s = Some (packed fl (take (unat n) (drop (unat off) (list_bytes s bs))), s)"
proof -
  have "bs \<noteq> []" using n by auto
  from list_peek [OF lk this _ fl(1,2), of n off P True] show ?thesis
    using n fl(3) by (simp add: pull_at_def)
qed

lemma opt_errors [simp]: "NET_NO_NEXT_OPT \<noteq> SUCCESS" "NET_INVALID_HDR \<noteq> SUCCESS"
  by (simp_all add: NET_NO_NEXT_OPT_def NET_INVALID_HDR_def SUCCESS_def)

section \<open>The parser on bytes\<close>

definition apply_option :: "u8 \<Rightarrow> u8 list \<Rightarrow> TCP_PORT \<Rightarrow> int \<times> TCP_PORT" where
  "apply_option t v x =
     (if t = TCP_OPT_MSS then
        (if length v = 2 then
           (SUCCESS, x\<lparr>mss := min (mss x) (word16 (rev v)), tp_flags := tp_flags x OR TCP_FLAG_MSS\<rparr>)
         else (NET_INVALID_HDR, x))
      else if t = TCP_OPT_WIND_SCALE then
        (if length v = 1 then
           (SUCCESS, x\<lparr>snd_wnd_scale := hd v, tp_flags := tp_flags x OR TCP_FLAG_WND_SCALE\<rparr>)
         else (NET_INVALID_HDR, x))
      else if t = TCP_OPT_END then (NET_NO_NEXT_OPT, x) else (SUCCESS, x))"

text \<open>An option that is longer than the rest is skipped but for its type and length.\<close>

function parse_options :: "u8 list \<Rightarrow> TCP_PORT \<Rightarrow> int \<times> TCP_PORT" where
  "parse_options [] x = (SUCCESS, x)"
| "parse_options (t # bs) x =
     (if t = TCP_OPT_END then (NET_NO_NEXT_OPT, x)
      else if t = TCP_OPT_NOP then parse_options bs x
      else (case bs of
          [] \<Rightarrow> (NET_INVALID_HDR, x)
        | n # cs \<Rightarrow>
            if n < 2 then (NET_INVALID_HDR, x)
            else if unat n - 2 \<le> length cs
            then (case apply_option t (take (unat n - 2) cs) x of
                (st, y) \<Rightarrow> if st = SUCCESS then parse_options (drop (unat n - 2) cs) y else (st, y))
            else parse_options cs x))"
  by pat_completeness auto

termination
  by (relation "measure (\<lambda>(bs, x). length bs)") auto

section \<open>The code parses like this\<close>

text \<open>The options are the bytes \<open>rs\<close> of the list, from \<open>offset\<close> on.\<close>

definition options_at :: "lid \<Rightarrow> 'z tcpstate_scheme \<Rightarrow> u32 \<Rightarrow> u16 \<Rightarrow> u8 list \<Rightarrow> bool" where
  "options_at l s offset n rs \<longleftrightarrow>
     (\<exists>bs xs. linked l s bs xs \<and> unat offset + unat n \<le> length (list_bytes s bs) \<and>
        rs = take (unat n) (drop (unat offset) (list_bytes s bs)))"

lemma options_at_length: "options_at l s offset n rs \<Longrightarrow> length rs = unat n"
  by (auto simp: options_at_def)

lemma options_at_port [simp]: "options_at l (upd_port p f s) offset n rs = options_at l s offset n rs"
  by (simp add: options_at_def)

lemma unat_ucast16 [simp]: "unat (ucast (w :: u16) :: u32) = unat w"
  using unsigned_less [of w, where 'a = nat] by (simp add: unsigned_ucast_eq take_bit_nat_eq_self)

lemma unat_ucast8 [simp]: "unat (ucast (w :: u8) :: u16) = unat w" "unat (ucast (w :: u8) :: u32) = unat w"
  using unsigned_less [of w, where 'a = nat] by (simp_all add: unsigned_ucast_eq take_bit_nat_eq_self)

lemma pull_option:
  assumes at: "options_at l s offset size_opt rs" and k: "unat idx + unat n \<le> length rs" "0 < unat n"
    and fl: "fl AND FS_BUFFER_INPLACE \<noteq> 0" "fl AND FS_BUFFER_HEAD = 0" "fl AND FS_BUFFER_TAIL = 0"
  shows "pull_at P l n (offset + ucast (idx :: u16)) fl s = Some (packed fl (take (unat n) (drop (unat idx) rs)), s)"
proof -
  obtain bs xs where L: "linked l s bs xs" "unat offset + unat size_opt \<le> length (list_bytes s bs)"
      "rs = take (unat size_opt) (drop (unat offset) (list_bytes s bs))"
    using at by (auto simp: options_at_def)
  have len: "length rs = unat size_opt" using options_at_length [OF at] .
  have "length (list_bytes s bs) < 2 ^ 32"
    using linkedD(6) [OF L(1)] unsigned_less [of "bl_total_length (blists s l)", where 'a = nat] by simp
  then have off: "unat (offset + ucast idx) = unat offset + unat idx"
    using k(1) len L(2) unat_add_lem [of offset "ucast idx"] by simp
  have "take (unat n) (drop (unat idx) rs) = take (unat n) (drop (unat offset + unat idx) (list_bytes s bs))"
    using k(1) len by (simp add: L(3) drop_take min_def add.commute)
  then show ?thesis using pull_at_ok [OF L(1) k(2) _ fl, of "offset + ucast idx" P] off k(1) len L(2) by simp
qed

lemma unat_next16: "idx < n \<Longrightarrow> unat (idx + 1) = unat idx + 1" for idx n :: u16
  using unsigned_less [of n, where 'a = nat] unat_add_lem [of idx 1] by (simp add: word_less_nat_alt)

lemma inplace:
  "FS_BUFFER_INPLACE AND FS_BUFFER_INPLACE \<noteq> 0" "FS_BUFFER_INPLACE AND FS_BUFFER_HEAD = 0"
  "FS_BUFFER_INPLACE AND FS_BUFFER_TAIL = 0" "packed FS_BUFFER_INPLACE bs = bs"
  by (simp_all add: packed_def FS_BUFFER_INPLACE_def FS_BUFFER_HEAD_def FS_BUFFER_TAIL_def FS_BUFFER_PACKED_def)

lemma packed_inplace:
  "(FS_BUFFER_PACKED OR FS_BUFFER_INPLACE) AND FS_BUFFER_INPLACE \<noteq> 0"
  "(FS_BUFFER_PACKED OR FS_BUFFER_INPLACE) AND FS_BUFFER_HEAD = 0"
  "(FS_BUFFER_PACKED OR FS_BUFFER_INPLACE) AND FS_BUFFER_TAIL = 0"
  "packed (FS_BUFFER_PACKED OR FS_BUFFER_INPLACE) bs = rev bs"
  by (simp_all add: packed_def FS_BUFFER_INPLACE_def FS_BUFFER_HEAD_def FS_BUFFER_TAIL_def FS_BUFFER_PACKED_def)

lemma option_head_ok:
  assumes at: "options_at l s offset size_opt rs" and idx: "idx < size_opt"
    and rest: "drop (unat idx) rs = t # bs"
  shows "option_head P l offset size_opt idx s =
     Some (if t = TCP_OPT_END \<or> t = TCP_OPT_NOP then (SUCCESS, t, 0, idx + 1, s)
       else case bs of
           [] \<Rightarrow> (NET_INVALID_HDR, t, 0, idx + 1, s)
         | n # cs \<Rightarrow> if n \<ge> 2 then (SUCCESS, t, n - 2, idx + 1 + 1, s) else (NET_INVALID_HDR, t, n, idx + 1 + 1, s))"
proof -
  have len: "length rs = unat size_opt" using options_at_length [OF at] .
  have u: "unat (idx + 1) = unat idx + 1" using unat_next16 [OF idx] .
  have first: "pull_at P l 1 (offset + ucast idx) FS_BUFFER_INPLACE s = Some ([t], s)"
    using pull_option [OF at _ _ inplace(1-3), of idx 1 P] idx len rest
    by (simp add: word_less_nat_alt inplace(4))
  have "unat size_opt = unat idx + Suc (length bs)" using arg_cong [OF rest, of length] len by simp
  then have more: "idx + 1 < size_opt \<longleftrightarrow> bs \<noteq> []"
    using u by (cases bs) (simp_all add: word_less_nat_alt)
  show ?thesis
  proof (cases bs)
    case Nil
    then show ?thesis using first more by (simp add: option_head_def Let_def)
  next
    case (Cons n cs)
    have "drop (unat (idx + 1)) rs = drop 1 (drop (unat idx) rs)" using u by (simp add: add.commute)
    then have "drop (unat (idx + 1)) rs = n # cs" using rest Cons by simp
    then have "pull_at P l 1 (offset + ucast (idx + 1)) FS_BUFFER_INPLACE s = Some ([n], s)"
      using pull_option [OF at _ _ inplace(1-3), of "idx + 1" 1 P] more Cons len u
      by (simp add: word_less_nat_alt inplace(4))
    then show ?thesis using first more Cons by (simp add: option_head_def Let_def)
  qed
qed

lemma process_option_ok:
  assumes at: "options_at l s offset size_opt rs" and len: "unat (idx :: u16) + unat n \<le> length rs"
  shows "process_option P l p t n (offset + ucast idx) s =
     (case apply_option t (take (unat n) (drop (unat idx) rs)) (tcp_ports s p) of
        (st, x) \<Rightarrow> Some (st, upd_port p (\<lambda>_. x) s))"
proof -
  have v: "length (take (unat n) (drop (unat idx) rs)) = unat n" using len by simp
  have two: "unat n = 2 \<longleftrightarrow> n = 2" "unat n = 1 \<longleftrightarrow> n = 1" by (simp_all add: word_unat_eq_iff)
  consider "t = TCP_OPT_MSS" | "t = TCP_OPT_WIND_SCALE" | "t \<noteq> TCP_OPT_MSS" "t \<noteq> TCP_OPT_WIND_SCALE" by blast
  then show ?thesis
  proof cases
    case 1
    show ?thesis
    proof (cases "n = 2")
      case True
      then show ?thesis using 1 v two pull_option [OF at _ _ packed_inplace(1-3), of idx 2 P] len
        by (simp add: process_option_def apply_option_def packed_inplace(4) min_def not_less upd_port_def)
    next
      case False
      then show ?thesis using 1 v two by (simp add: process_option_def apply_option_def upd_port_same)
    qed
  next
    case 2
    have ne: "(2 :: u8) \<noteq> 3" by simp
    show ?thesis
    proof (cases "n = 1")
      case True
      then show ?thesis using 2 v two pull_option [OF at _ _ inplace(1-3), of idx 1 P] len
        by (simp add: process_option_def apply_option_def inplace(4) hd_conv_nth
            TCP_OPT_MSS_def TCP_OPT_WIND_SCALE_def upd_port_def)
    next
      case False
      then show ?thesis using 2 v two
        by (simp add: process_option_def apply_option_def upd_port_same TCP_OPT_MSS_def TCP_OPT_WIND_SCALE_def)
    qed
  next
    case 3
    then show ?thesis by (simp add: process_option_def apply_option_def upd_port_same)
  qed
qed

text \<open>One round of the loop, on an option of type \<open>t\<close>.\<close>

lemma loop_stop: "st \<noteq> SUCCESS \<or> \<not> idx < n \<Longrightarrow> options_loop P l p off n st idx s = Some (st, s)"
  by (subst options_loop.simps) auto

lemma options_loop_ok:
  assumes "options_at l s off n rs"
  shows "options_loop P l p off n SUCCESS idx s =
     (case parse_options (drop (unat idx) rs) (tcp_ports s p) of (st, x) \<Rightarrow> Some (st, upd_port p (\<lambda>_. x) s))"
  using assms
proof (induction "length rs - unat idx" arbitrary: idx s rule: less_induct)
  case less
  have len: "length rs = unat n" using options_at_length [OF less.prems] .
  show ?case
  proof (cases "drop (unat idx) rs")
    case Nil
    then show ?thesis using len by (simp add: loop_stop word_less_nat_alt upd_port_same)
  next
    case (Cons t bs)
    then have idx: "idx < n" using len by (simp add: word_less_nat_alt flip: not_le)
      (metis drop_all len list.distinct(1))
    have u: "unat (idx + 1) = unat idx + 1" using unat_next16 [OF idx] .
    have bs: "drop (unat (idx + 1)) rs = bs" using arg_cong [OF Cons, of "drop 1"] u by (simp add: add.commute)
    note hd = option_head_ok [OF less.prems idx Cons, of P]
    have apply0: "t = TCP_OPT_END \<or> t = TCP_OPT_NOP \<Longrightarrow>
        process_option P l p t 0 (off + ucast (idx + 1)) s =
        Some (if t = TCP_OPT_END then NET_NO_NEXT_OPT else SUCCESS, s)"
      by (auto simp: process_option_def TCP_OPT_END_def TCP_OPT_NOP_def TCP_OPT_MSS_def TCP_OPT_WIND_SCALE_def)
    have step: "unat j > unat idx \<Longrightarrow> unat idx < length rs \<Longrightarrow> options_at l s' off n rs \<Longrightarrow>
        options_loop P l p off n SUCCESS j s' = (case parse_options (drop (unat j) rs) (tcp_ports s' p) of
          (st, x) \<Rightarrow> Some (st, upd_port p (\<lambda>_. x) s'))" for j :: u16 and s'
      using less.hyps [of j s'] by simp
    have lt: "unat idx < length rs" using idx len by (simp add: word_less_nat_alt)
    consider "t = TCP_OPT_END" | "t = TCP_OPT_NOP" "t \<noteq> TCP_OPT_END" | "t \<noteq> TCP_OPT_END" "t \<noteq> TCP_OPT_NOP" by blast
    then show ?thesis
    proof cases
      case 1
      then show ?thesis using Cons idx hd apply0 u lt len
        by (subst options_loop.simps) (simp add: loop_stop upd_port_same)
    next
      case 2
      then show ?thesis using Cons idx hd apply0 u lt len step [of "idx + 1" s] less.prems bs
        by (subst options_loop.simps) simp
    next
      case 3
      show ?thesis
      proof (cases bs)
        case Nil
        then show ?thesis using 3 Cons idx hd
          by (subst options_loop.simps) (simp add: loop_stop upd_port_same)
      next
        case (Cons m cs)
        have j: "unat (idx + 1 + 1) = unat idx + 2" "drop (unat (idx + 1 + 1)) rs = cs"
        proof -
          have "idx + 1 < n" using bs Cons u len by (cases "unat n \<le> unat idx + 1") (auto simp: word_less_nat_alt)
          then show "unat (idx + 1 + 1) = unat idx + 2" using unat_next16 [of "idx + 1" n] u by simp
          then show "drop (unat (idx + 1 + 1)) rs = cs" using arg_cong [OF bs, of "drop 1"] Cons u
            by (simp add: add.commute)
        qed
        have room: "length cs = unat n - (unat idx + 2)" "unat idx + 2 \<le> unat n"
          using arg_cong [OF j(2), of length] j(1) len arg_cong [OF bs, of length] Cons u by simp_all
        show ?thesis
        proof (cases "m < 2")
          case True
          then have "\<not> 2 \<le> m" by simp
          then show ?thesis using 3 Cons \<open>drop (unat idx) rs = t # bs\<close> idx hd True
            by (subst options_loop.simps) (simp add: loop_stop upd_port_same)
        next
          case False
          then have m2: "2 \<le> m" by simp
          then have m: "unat (m - 2) = unat m - 2" using unat_sub [OF m2] by simp
          show ?thesis
          proof (cases "unat m - 2 \<le> length cs")
            case fits: True
            obtain st x where st: "apply_option t (take (unat m - 2) cs) (tcp_ports s p) = (st, x)" by fastforce
            have "unat (idx + 1 + 1) + unat (m - 2) \<le> length rs" using fits m j(1) room len by simp
            from process_option_ok [OF less.prems this, of P p t]
            have po: "process_option P l p t (m - 2) (off + ucast (idx + 1 + 1)) s = Some (st, upd_port p (\<lambda>_. x) s)"
              using st m j(2) by simp
            have "unat (idx + 1 + 1) + unat (ucast (m - 2) :: u16) < 2 ^ 16"
              using fits m j(1) room unsigned_less [of n, where 'a = nat] by simp
            then have k: "unat (idx + 1 + 1 + ucast (m - 2)) = unat idx + 2 + (unat m - 2)"
              using m j(1) unat_add_lem [of "idx + 1 + 1" "ucast (m - 2)"] by simp
            then have "drop (unat (idx + 1 + 1 + ucast (m - 2))) rs = drop (unat m - 2) cs"
              using j by (metis drop_drop add.commute)
            moreover have "Suc (Suc (unat m - 2 + unat idx)) \<le> unat n" using fits room by simp
            ultimately show ?thesis using 3 Cons \<open>drop (unat idx) rs = t # bs\<close> idx hd False m2 fits m j room po st k lt
                step [of "idx + 1 + 1 + ucast (m - 2)" "upd_port p (\<lambda>_. x) s"] less.prems
              by (subst options_loop.simps) (simp add: loop_stop upd_port_upd)
          next
            case long: False
            then have "\<not> unat m + unat idx \<le> unat n" using room m2 by (simp add: word_le_nat_alt)
            then show ?thesis using long 3 Cons \<open>drop (unat idx) rs = t # bs\<close> idx hd False m2 m j room lt
                step [of "idx + 1 + 1" s] less.prems
              by (subst options_loop.simps) simp
          qed
        qed
      qed
    qed
  qed
qed

lemma process_options_ok:
  assumes "options_at l s offset n rs"
  shows "tcp_process_options P l p offset n s =
     (case parse_options rs (tcp_ports s p) of (st, x) \<Rightarrow> Some (st, upd_port p (\<lambda>_. x) s))"
proof -
  obtain bs xs where L: "linked l s bs xs" "unat offset + unat n \<le> length (list_bytes s bs)"
    using assms by (auto simp: options_at_def)
  have "unat (bl_total_length (blists s l)) < 2 ^ 32"
    using unsigned_less [of "bl_total_length (blists s l)", where 'a = nat] by simp
  then have "\<not> offset + ucast n > bl_total_length (blists s l)"
    using L linkedD(6) [OF L(1)] unat_add_lem [of offset "ucast n"] by (simp add: word_less_nat_alt)
  then show ?thesis using options_loop_ok [OF assms, of P p 0] by (simp add: tcp_process_options_def)
qed

section \<open>Adding options\<close>

text \<open>The result of pushes onto list \<open>l\<close> that had the buffers \<open>bs\<close> with the pool \<open>xs\<close>.\<close>

definition appended ::
    "lid \<Rightarrow> u8 \<Rightarrow> 'z fsstate_scheme \<Rightarrow> bid list \<Rightarrow> bid list \<Rightarrow> u8 list \<Rightarrow> int \<Rightarrow> 'z fsstate_scheme \<Rightarrow> bool" where
  "appended l fl s bs xs v st s' \<longleftrightarrow> (\<exists>bs' xs'. linked l s' bs' xs' \<and>
     touches (bl_fd (blists s l)) {l} (set bs \<union> set xs) s s' \<and> same_buffers bs xs bs' xs' \<and>
     (st = SUCCESS \<and> list_bytes s' bs' = list_bytes s bs @ v \<and> length xs \<le> length xs' + length v \<or>
      st = FS_BUFFER_NO_SPACE \<and> length xs < held_back fl (bl_fd (blists s l)) s + length v))"

lemma appended_none: "linked l s bs xs \<Longrightarrow> appended l fl s bs xs [] SUCCESS s"
  unfolding appended_def by (intro exI [of _ bs] exI [of _ xs]) simp

lemma appended_more: "appended l fl s bs xs v st s' \<Longrightarrow> st \<noteq> SUCCESS \<Longrightarrow> appended l fl s bs xs (v @ w) st s'"
  unfolding appended_def by fastforce

lemma appended_push:
  assumes ap: "appended l fl s bs xs v SUCCESS s1" and rd: "ready (bl_fd (blists s l)) s"
    and fl: "g AND FS_BUFFER_UPDATE = 0" "g AND FS_BUFFER_SUSPEND = 0" "g AND FS_BUFFER_HEAD = 0"
      "g AND FS_BUFFER_TH = 0 \<or> g AND FS_BUFFER_TH = fl AND FS_BUFFER_TH"
    and src: "length src = unat n" "unat n < 2 ^ 16" "length (list_bytes s bs) + length v + unat n < 2 ^ 32"
  shows "\<exists>st s2. fs_buffer_list_push P l (Some src) n g s1 = Some (st, s2) \<and>
     appended l fl s bs xs (v @ packed g src) st s2"
proof -
  obtain bs1 xs1 where s1: "linked l s1 bs1 xs1" "touches (bl_fd (blists s l)) {l} (set bs \<union> set xs) s s1"
      "same_buffers bs xs bs1 xs1" "list_bytes s1 bs1 = list_bytes s bs @ v" "length xs \<le> length xs1 + length v"
    using ap by (auto simp: appended_def FS_BUFFER_NO_SPACE_def SUCCESS_def)
  have fd: "bl_fd (blists s1 l) = bl_fd (blists s l)" using touches_fd [OF s1(2)] .
  have rd1: "ready (bl_fd (blists s1 l)) s1" using touches_ready [OF s1(2) rd] fd by simp
  have held: "held_back g (bl_fd (blists s l)) s1 \<le> held_back fl (bl_fd (blists s l)) s"
    using fl(4) touches_held_back [OF s1(2), of g "bl_fd (blists s l)"] by (auto simp: held_back_def)
  from list_push_cases [OF s1(1) rd1 fl(1,2) src(1,2), of P] src(3) s1(4)
  obtain st s2 bs2 xs2 where s2: "fs_buffer_list_push P l (Some src) n g s1 = Some (st, s2)"
     "linked l s2 bs2 xs2" "touches (bl_fd (blists s l)) {l} (set bs \<union> set xs) s1 s2"
     "same_buffers bs1 xs1 bs2 xs2"
     "st = SUCCESS \<and> list_bytes s2 bs2 = at_end g (packed g src) (list_bytes s1 bs1) \<and>
        length xs1 \<le> length xs2 + unat n \<or>
      st = FS_BUFFER_NO_SPACE \<and> length xs1 < held_back g (bl_fd (blists s l)) s1 + unat n"
    using s1(3) unfolding fd same_buffers_def by auto
  then have "appended l fl s bs xs (v @ packed g src) st s2"
    using s1 held src(1) touches_trans [OF s1(2) s2(3)] unfolding appended_def
    by (intro exI [of _ bs2] exI [of _ xs2]) (auto simp: at_end_def fl(3) same_buffers_def)
  then show ?thesis using s2(1) by blast
qed

lemma packed_0 [simp]: "packed 0 bs = bs"
  by (simp add: packed_def)

lemma append_nop:
  assumes ap: "appended l fl s bs xs v SUCCESS s1" and rd: "ready (bl_fd (blists s l)) s"
    and sz: "length (list_bytes s bs) + length v + 1 < 2 ^ 32"
  shows "\<exists>st s2. tcp_add_option P l TCP_OPT_NOP 1 None g s1 = Some (st, s2) \<and>
     appended l fl s bs xs (v @ [TCP_OPT_NOP]) st s2"
  using appended_push [OF ap rd, of 0 "[TCP_OPT_NOP]" 1 P] sz by (auto simp: tcp_add_option_def)

lemma append_option:
  assumes ap: "appended l fl s bs xs v SUCCESS s1" and rd: "ready (bl_fd (blists s l)) s"
    and fl: "g AND FS_BUFFER_UPDATE = 0" "g AND FS_BUFFER_SUSPEND = 0" "g AND FS_BUFFER_HEAD = 0"
      "g AND FS_BUFFER_TH = fl AND FS_BUFFER_TH"
    and src: "2 \<le> n" "length src = unat n - 2" "length (list_bytes s bs) + length v + unat n < 2 ^ 32"
  shows "\<exists>st s2. tcp_add_option P l t n (Some src) g s1 = Some (st, s2) \<and>
     appended l fl s bs xs (v @ [t, n] @ packed g src) st s2"
proof -
  have n2: "2 \<le> unat n" using src(1) by (simp add: word_le_nat_alt)
  then have more: "1 < n" by (simp add: word_less_nat_alt)
  have u: "unat (ucast n - 2 :: u32) = unat n - 2"
    using n2 unat_sub [of 2 "ucast n :: u32"] by (simp add: word_le_nat_alt)
  obtain st a where a: "fs_buffer_list_push P l (Some [t]) 1 0 s1 = Some (st, a)"
      "appended l fl s bs xs (v @ [t]) st a"
    using appended_push [OF ap rd, of 0 "[t]" 1 P] src(3) n2 by auto
  show ?thesis
  proof (cases "st = SUCCESS")
    case False
    then show ?thesis using a appended_more [OF a(2), of "[n] @ packed g src"]
      by (auto simp: tcp_add_option_def)
  next
    case ok: True
    obtain st2 b where b: "fs_buffer_list_push P l (Some [n]) 1 0 a = Some (st2, b)"
        "appended l fl s bs xs (v @ [t, n]) st2 b"
      using appended_push [OF a(2) [unfolded ok] rd, of 0 "[n]" 1 P] src(3) n2 by auto
    show ?thesis
    proof (cases "st2 = SUCCESS")
      case False
      then show ?thesis using a(1) ok b more appended_more [OF b(2), of "packed g src"]
        by (auto simp: tcp_add_option_def)
    next
      case True
      have "unat n - 2 < 2 ^ 16" using unsigned_less [of n, where 'a = nat] by simp
      then show ?thesis
        using a(1) ok b True more appended_push [OF b(2) [unfolded True] rd fl(1-3), of src "ucast n - 2" P] fl(4) src u n2
        by (auto simp: tcp_add_option_def)
    qed
  qed
qed

text \<open>The bytes of the options for the flags.\<close>

definition options_of :: "u16 \<Rightarrow> u8 \<Rightarrow> u8 list" where
  "options_of m opt_flags =
     (if opt_flags AND TCP_FLAG_MSS \<noteq> 0 then [TCP_OPT_MSS, 4] @ rev (bytes16 m) else []) @
     (if opt_flags AND TCP_FLAG_WND_SCALE \<noteq> 0 then [TCP_OPT_WIND_SCALE, 3, TCP_WND_SCALE, TCP_OPT_NOP] else [])"

lemma pad_done: "st \<noteq> SUCCESS \<or> r mod 4 = 0 \<Longrightarrow> pad_options P l fl st r s = Some (st, r, s)"
  by (subst pad_options.simps) auto

lemma add_options_ok:
  assumes lk: "linked l s bs xs" and rd: "ready (bl_fd (blists s l)) s"
    and fl: "fl AND FS_BUFFER_UPDATE = 0" "fl AND FS_BUFFER_SUSPEND = 0" "fl AND FS_BUFFER_HEAD = 0"
    and sz: "length (list_bytes s bs) + 8 < 2 ^ 32"
    and opts: "opts = options_of m opt_flags"
  shows "\<exists>st sc n s'. tcp_add_options P l m scale opt_flags old_size fl s = Some (st, sc, n, s') \<and>
     appended l fl s bs xs opts st s' \<and>
     (st = SUCCESS \<longrightarrow> unat n = length opts \<and>
        sc = (if opt_flags AND TCP_FLAG_WND_SCALE \<noteq> 0 then TCP_WND_SCALE else scale))"
proof -
  have pk: "(FS_BUFFER_PACKED OR fl) AND FS_BUFFER_UPDATE = 0" "(FS_BUFFER_PACKED OR fl) AND FS_BUFFER_SUSPEND = 0"
    "(FS_BUFFER_PACKED OR fl) AND FS_BUFFER_HEAD = 0" "(FS_BUFFER_PACKED OR fl) AND FS_BUFFER_TH = fl AND FS_BUFFER_TH"
    "packed (FS_BUFFER_PACKED OR fl) ys = rev ys" for ys
    using fl by (simp_all add: packed_def bit.conj_disj_distrib2 FS_BUFFER_PACKED_def FS_BUFFER_UPDATE_def
        FS_BUFFER_INPLACE_def FS_BUFFER_SUSPEND_def FS_BUFFER_HEAD_def FS_BUFFER_TH_def)
  have one: "packed fl [b] = [b]" for b by (simp add: packed_def)
  have none: "appended l fl s bs xs [] SUCCESS s" using appended_none [OF lk] .
  define first where "first = (if opt_flags AND TCP_FLAG_MSS \<noteq> 0 then [TCP_OPT_MSS, 4] @ rev (bytes16 m) else [])"
  obtain st a where a: "(if opt_flags AND TCP_FLAG_MSS \<noteq> 0 then do {
          (st, s) \<leftarrow> tcp_add_option P l TCP_OPT_MSS 4 (Some (bytes16 m)) (FS_BUFFER_PACKED OR fl) s;
          Some (st, if st = SUCCESS then 4 else 0, s) } else Some (SUCCESS, 0, s)) =
       Some (st, if st = SUCCESS then of_nat (length first) else 0 :: u8, a)" "appended l fl s bs xs first st a"
  proof (cases "opt_flags AND TCP_FLAG_MSS \<noteq> 0")
    case True
    then show ?thesis
      using that append_option [OF none rd pk(1-4), of 4 "bytes16 m" P TCP_OPT_MSS] sz
      by (auto simp: pk(5) first_def bytes16_def)
  next
    case False
    then show ?thesis using that none by (simp add: first_def)
  qed
  have r: "length first = 0 \<or> length first = 4" by (simp add: first_def bytes16_def)
  define second where "second = (if opt_flags AND TCP_FLAG_WND_SCALE \<noteq> 0
      then [TCP_OPT_WIND_SCALE, 3, TCP_WND_SCALE, TCP_OPT_NOP] else [])"
  have opts': "opts = first @ second" by (simp add: opts options_of_def first_def second_def)
  note run = tcp_add_options_def a(1)
  consider "st \<noteq> SUCCESS" | "st = SUCCESS" "opt_flags AND TCP_FLAG_WND_SCALE = 0"
    | "st = SUCCESS" "opt_flags AND TCP_FLAG_WND_SCALE \<noteq> 0" by blast
  then show ?thesis
  proof cases
    case 1
    then show ?thesis using appended_more [OF a(2) 1, of second] by (simp add: run pad_done opts')
  next
    case 2
    then show ?thesis using a(2) r by (auto simp: run pad_done opts' second_def)
  next
    case 3
    have sz1: "length (list_bytes s bs) + length first + 3 < 2 ^ 32" using r sz by auto
    obtain st2 b where b: "tcp_add_option P l TCP_OPT_WIND_SCALE 3 (Some [TCP_WND_SCALE]) fl a = Some (st2, b)"
       "appended l fl s bs xs (first @ [TCP_OPT_WIND_SCALE, 3, TCP_WND_SCALE]) st2 b"
      using append_option [OF a(2) [unfolded 3(1)] rd fl refl, of 3 "[TCP_WND_SCALE]" P TCP_OPT_WIND_SCALE] sz1
      by (auto simp: one)
    show ?thesis
    proof (cases "st2 = SUCCESS")
      case False
      then show ?thesis using 3 b appended_more [OF b(2) False, of "[TCP_OPT_NOP]"]
        by (simp add: run pad_done opts' second_def)
    next
      case True
      obtain st3 c where c: "tcp_add_option P l TCP_OPT_NOP 1 None fl b = Some (st3, c)"
          "appended l fl s bs xs opts st3 c"
        using append_nop [OF b(2) [unfolded True] rd, of P fl] r sz 3(2) by (auto simp: opts' second_def)
      have "\<not> (4 :: u8) dvd 3" "\<not> (4 :: u8) dvd 7"
        using take_bit_eq_0_iff [of 2 "3 :: u8"] take_bit_eq_0_iff [of 2 "7 :: u8"] by simp_all
      then have "pad_options P l fl SUCCESS (of_nat (length first) + 3) b = Some (st3, of_nat (length first) + 3 + 1, c)"
        using r c(1) by (subst pad_options.simps) (auto simp: pad_done)
      then show ?thesis using 3 b(1) True c(2) r by (auto simp: run opts' second_def)
    qed
  qed
qed

text \<open>The options of a segment with SYN but no ACK: the port announces and stores its scale.\<close>

lemma same_ports: "fsstate.more s' = fsstate.more s \<Longrightarrow> tcp_ports s' = tcp_ports s"
  by (cases s; cases s') simp

lemma touches_ports: "touches f L A s s' \<Longrightarrow> tcp_ports s' = tcp_ports s"
  by (rule same_ports) (simp add: touches_def)

lemma syn_options_returns:
  assumes lk: "linked k s bs xs" and rd: "ready (bl_fd (blists s k)) s"
    and fl: "bfl AND FS_BUFFER_UPDATE = 0" "bfl AND FS_BUFFER_HEAD = 0"
    and sz: "length (list_bytes s bs) + 8 < 2 ^ 32"
    and locks: "\<And>f r. fd_get_lock P f r = Some (SUCCESS, r)" "\<And>f r. fd_release_lock P f r = Some r"
  shows "\<exists>st n s'. syn_options P k g p hfl old bfl s = Some (st, n, s') \<and>
     (length xs \<ge> held_back bfl (bl_fd (blists s k)) s + 8 \<longrightarrow> st = SUCCESS) \<and>
     (st = SUCCESS \<longrightarrow> hfl AND TCP_HDR_FLAG_ACK = 0 \<longrightarrow>
        tcp_ports s' p = (tcp_ports s p)\<lparr>rcv_wnd_scale := TCP_WND_SCALE\<rparr>)"
proof -
  let ?fl = "bfl AND NOT FS_BUFFER_SUSPEND"
  let ?of = "if hfl AND TCP_HDR_FLAG_ACK = 0 then TCP_FLAG_WND_SCALE OR TCP_FLAG_MSS else tp_flags (tcp_ports s p)"
  have fl': "?fl AND FS_BUFFER_UPDATE = 0" "?fl AND FS_BUFFER_SUSPEND = 0" "?fl AND FS_BUFFER_HEAD = 0"
    "?fl AND FS_BUFFER_TH = bfl AND FS_BUFFER_TH"
    using fl by (simp_all add: word_bw_assocs word_bw_comms word_bw_lcs FS_BUFFER_UPDATE_def FS_BUFFER_HEAD_def
        FS_BUFFER_SUSPEND_def FS_BUFFER_TH_def FS_BUFFER_INPLACE_def)
  then have held: "held_back ?fl f s = held_back bfl f s" for f by (simp add: held_back_def)
  obtain st sc n s1 where a: "tcp_add_options P k (mss (tcp_ports s p)) (rcv_wnd_scale (tcp_ports s p)) ?of old ?fl s =
        Some (st, sc, n, s1)"
      "appended k ?fl s bs xs (options_of (mss (tcp_ports s p)) ?of) st s1"
      "st = SUCCESS \<Longrightarrow> sc = (if ?of AND TCP_FLAG_WND_SCALE \<noteq> 0 then TCP_WND_SCALE else rcv_wnd_scale (tcp_ports s p))"
    using add_options_ok [OF lk rd fl'(1-3) sz refl, of P "mss (tcp_ports s p)" "rcv_wnd_scale (tcp_ports s p)" ?of old]
    by blast
  let ?s' = "upd_port p (\<lambda>x. x\<lparr>rcv_wnd_scale := sc\<rparr>) s1"
  have run: "syn_options P k g p hfl old bfl s = Some (st, n, ?s')"
    using a(1) by (simp add: syn_options_def locks Let_def)
  have "tcp_ports s1 = tcp_ports s" using a(2) touches_ports by (fastforce simp: appended_def)
  moreover have "?of AND TCP_FLAG_WND_SCALE \<noteq> 0" if "hfl AND TCP_HDR_FLAG_ACK = 0"
    using that by (simp add: TCP_FLAG_WND_SCALE_def TCP_FLAG_MSS_def)
  moreover have "length (options_of m w) \<le> 8" for m w by (simp add: options_of_def bytes16_def)
  then have "length xs \<ge> held_back bfl (bl_fd (blists s k)) s + 8 \<longrightarrow> st = SUCCESS"
    using a(2) unfolding appended_def held by (meson add_le_mono1 le_trans nat_add_left_cancel_le not_le)
  ultimately show ?thesis using run a(3) by (intro exI [of _ st] exI [of _ n] exI [of _ ?s']) simp
qed

lemma syn_options_port:
  assumes "linked k s bs xs" and "ready (bl_fd (blists s k)) s"
    and "bfl AND FS_BUFFER_UPDATE = 0" "bfl AND FS_BUFFER_HEAD = 0" "length (list_bytes s bs) + 8 < 2 ^ 32"
    and "\<And>f r. fd_get_lock P f r = Some (SUCCESS, r)" "\<And>f r. fd_release_lock P f r = Some r"
    and "hfl AND TCP_HDR_FLAG_ACK = 0" and "syn_options P k g p hfl old bfl s = Some (SUCCESS, n, s1)"
  shows "tcp_ports s1 p = (tcp_ports s p)\<lparr>rcv_wnd_scale := TCP_WND_SCALE\<rparr>"
  using syn_options_returns [OF assms(1-7), of g p hfl old] assms(8,9) by auto

section \<open>What the parser makes of the options this implementation sends\<close>

definition negotiated :: "u16 \<Rightarrow> u8 \<Rightarrow> TCP_PORT \<Rightarrow> TCP_PORT" where
  "negotiated m opt_flags x =
     (let y = (if opt_flags AND TCP_FLAG_MSS \<noteq> 0
          then x\<lparr>mss := min (mss x) m, tp_flags := tp_flags x OR TCP_FLAG_MSS\<rparr> else x) in
      if opt_flags AND TCP_FLAG_WND_SCALE \<noteq> 0
      then y\<lparr>snd_wnd_scale := TCP_WND_SCALE, tp_flags := tp_flags y OR TCP_FLAG_WND_SCALE\<rparr> else y)"

lemma word16_bytes: "word16 (bytes16 m) = m"
  unfolding word16_def bytes16_def by (rule bit_word_eqI) (auto simp: bit_simps)

lemmas opt_kinds = TCP_OPT_MSS_def TCP_OPT_END_def TCP_OPT_NOP_def TCP_OPT_WIND_SCALE_def

lemma parse_known:
  "parse_options (TCP_OPT_MSS # 4 # a # b # rs) x =
     parse_options rs (x\<lparr>mss := min (mss x) (word16 [b, a]), tp_flags := tp_flags x OR TCP_FLAG_MSS\<rparr>)"
  "parse_options (TCP_OPT_WIND_SCALE # 3 # a # rs) x =
     parse_options rs (x\<lparr>snd_wnd_scale := a, tp_flags := tp_flags x OR TCP_FLAG_WND_SCALE\<rparr>)"
  "parse_options (TCP_OPT_NOP # rs) x = parse_options rs x"
  by (subst parse_options.simps, simp add: opt_kinds apply_option_def del: parse_options.simps)
    (subst parse_options.simps, simp add: opt_kinds apply_option_def del: parse_options.simps,
     subst parse_options.simps, simp add: opt_kinds apply_option_def del: parse_options.simps)

lemma parse_options_of:
  "parse_options (options_of m opt_flags @ rest) x = parse_options rest (negotiated m opt_flags x)"
proof -
  obtain a b where ab: "bytes16 m = [a, b]" by (auto simp: bytes16_def)
  show ?thesis
    using word16_bytes [of m] ab
    by (simp add: options_of_def negotiated_def Let_def parse_known del: parse_options.simps)
qed

section \<open>An example\<close>

text \<open>A packet of the bytes \<open>v\<close> on one buffer of 64 bytes, and eight free buffers; port 1 has no options.\<close>

definition tcp_buffer :: "u8 list \<Rightarrow> FS_BUFFER" where
  "tcp_buffer v = \<lparr>fb_data = Some (v @ replicate (64 - length v) 0), fb_max_length = 64,
     fb_off = 0, fb_length = of_nat (length v)\<rparr>"

definition tcp_data :: FS_BUFFER_DATA where
  "tcp_data = ex_data\<lparr>free_buffers := \<lparr>head = Some 12, tail = Some 19\<rparr>, free_buffers_buffers := 8,
     buffer_size := 64, num_buffers := 9\<rparr>"

definition tcp_platform :: "unit tcp_platform" where
  "tcp_platform = \<lparr>kernel_platform = \<lparr>env = (\<lambda>_ s. Some s), cb_do_suspend = (\<lambda>_ _ _ _. False),
     cb_lock = (\<lambda>_ _ s. Some s), cb_unlock = (\<lambda>_ _ s. Some s), null_byte = 0\<rparr>,
     drv_get_lock = (\<lambda>_ _ _ s. Some (SUCCESS, s)), drv_release_lock = (\<lambda>_ _ s. Some s),
     return_buffer = (\<lambda>_ _ _ s. Some (False, s)), net_condition_tcb = 9\<rparr>"

definition tcp_example_port :: TCP_PORT where
  "tcp_example_port = \<lparr>oorx_list = \<lparr>head = None, tail = None\<rparr>, rx_buffer = None,
     rtx = replicate TCP_NUM_RTX \<lparr>rtx_buffer = None, rtx_seq_num = 0, rtx_seg_len = 0, rtx_flags = 0\<rparr>,
     event_timeout = 0, rtx_timeout = 0, rtx_time = 0, rcv_nxt = 0, rcv_wnd = 1024, snd_nxt = 1, snd_una = 0,
     snd_wnd = 0, mss = 960, rcv_wnd_scale = 2, snd_wnd_scale = 0, tp_state = 0, tp_flags = 1, nacks = 0,
     event_timeout_enable = False, rtx_timeout_enable = False, sus_timeout = 0, sus_timeout_enabled = False\<rparr>"

definition tcp_example :: "u8 list \<Rightarrow> tcpstate" where
  "tcp_example v = fsstate.extend (fsstate.truncate (ex_state
     \<lparr>fds := \<lambda>_. ex_fd\<lparr>fs_buffer := Some tcp_data\<rparr>,
      bufs := \<lambda>b. if b = 10 then tcp_buffer v else tcp_buffer [],
      buf_next := \<lambda>b. if 12 \<le> b \<and> b < 19 then Some (b + 1) else None,
      blists := \<lambda>l. if l = 0 then ex_list \<lparr>head = Some 10, tail = Some 10\<rparr> (of_nat (length v))
          else ex_list \<lparr>head = None, tail = None\<rparr> 0\<rparr>))
     (tcpstate.fields (\<lambda>_. tcp_example_port) 5)"

lemma tcp_example_sel [simp]:
  "fds (tcp_example v) = (\<lambda>_. ex_fd\<lparr>fs_buffer := Some tcp_data\<rparr>)"
  "bufs (tcp_example v) b = (if b = 10 then tcp_buffer v else tcp_buffer [])"
  "buf_next (tcp_example v) = (\<lambda>b. if 12 \<le> b \<and> b < 19 then Some (b + 1) else None)"
  "blists (tcp_example v) l = (if l = 0 then ex_list \<lparr>head = Some 10, tail = Some 10\<rparr> (of_nat (length v))
     else ex_list \<lparr>head = None, tail = None\<rparr> 0)"
  "tcp_ports (tcp_example v) = (\<lambda>_. tcp_example_port)"
  "kstate.truncate (tcp_example v) = kstate.truncate ex_state"
  by (simp_all add: tcp_example_def fsstate.defs tcpstate.defs kstate.defs)

lemma tcp_example_bytes: "length v \<le> 64 \<Longrightarrow> list_bytes (tcp_example v) [10] = v"
  by (simp add: tcp_buffer_def buffer_bytes_def unat_of_nat)

lemma tcp_example_linked:
  assumes "v \<noteq> []" and "length v \<le> 64"
  shows "linked 0 (tcp_example v) [10] [12, 13, 14, 15, 16, 17, 18, 19]"
proof -
  have u: "unat (of_nat (length v) :: u32) = length v" using assms(2) by (simp add: unat_of_nat)
  have "sll_holds (chain_sll 0 (tcp_example v)) [10]"
    by (simp add: sll_holds_def chain_sll_def)
  moreover have "(of_nat (length v) :: u32) \<noteq> 0" using u assms(1) by (metis length_0_conv unat_0)
  then have "filled 64 (tcp_buffer v)"
    using assms u by (simp add: filled_def buffer_ok_def tcp_buffer_def word_less_nat_alt word_le_nat_alt)
  moreover have "fresh 64 (tcp_buffer [])"
    by (simp add: fresh_def sized_def tcp_buffer_def)
  moreover have "fd_size 0 (tcp_example v) = 64" by (simp add: fd_size_def ex_fd_def tcp_data_def)
  ultimately show ?thesis
    using tcp_example_bytes [OF assms(2)] u
    by (simp add: linked_def chain_holds_def pool_holds_def ex_fd_def tcp_data_def ex_data_def sll_holds_def)
qed

lemma tcp_example_ready: "ready 0 (tcp_example v)"
  using calm_cong [OF tcp_example_sel(6)] ex_calm [of 0]
  by (simp add: ready_def ex_fd_def tcp_data_def ex_data_def)

section \<open>Properties\<close>

text \<open>
  C32. The code takes the options of a header, wherever they lie on the buffers of the list, as the parser
  on their bytes does, and changes only the port; a header that is too short for them is refused.
\<close>

theorem options_refine_parser:
  assumes "linked l s bs xs" and "unat offset + unat n < 2 ^ 32"
  shows "tcp_process_options P l p offset n s =
     (if unat offset + unat n \<le> length (list_bytes s bs)
      then case parse_options (take (unat n) (drop (unat offset) (list_bytes s bs))) (tcp_ports s p) of
        (st, x) \<Rightarrow> Some (st, upd_port p (\<lambda>_. x) s)
      else Some (NET_INVALID_HDR, s))"
proof (cases "unat offset + unat n \<le> length (list_bytes s bs)")
  case True
  then have "options_at l s offset n (take (unat n) (drop (unat offset) (list_bytes s bs)))"
    using assms(1) by (auto simp: options_at_def)
  from process_options_ok [OF this, of P p] show ?thesis using True by simp
next
  case False
  then have "offset + ucast n > bl_total_length (blists s l)"
    using linkedD(6) [OF assms(1)] assms(2) unat_add_lem [of offset "ucast n"] by (simp add: word_less_nat_alt)
  then show ?thesis using False by (simp add: tcp_process_options_def loop_stop)
qed

theorem options_refine_parser_witness:
  "tcp_process_options tcp_platform 0 3 2 4 (tcp_example [0, 0, 2, 4, 2, 24]) =
     Some (SUCCESS, upd_port 3 (\<lambda>x. x\<lparr>mss := 536, tp_flags := 3\<rparr>) (tcp_example [0, 0, 2, 4, 2, 24]))"
proof -
  let ?v = "[0, 0, 2, 4, 2, 24] :: u8 list"
  have bytes: "list_bytes (tcp_example ?v) [10] = ?v" by (rule tcp_example_bytes) simp
  have "options_of 536 TCP_FLAG_MSS = [2, 4, 2, 24]"
    by (simp add: options_of_def bytes16_def opt_kinds TCP_FLAG_MSS_def TCP_FLAG_WND_SCALE_def drop_bit_eq_div)
  then have parse: "parse_options [2, 4, 2, 24] tcp_example_port = (SUCCESS, tcp_example_port\<lparr>mss := 536, tp_flags := 3\<rparr>)"
    using parse_options_of [of 536 TCP_FLAG_MSS "[]" tcp_example_port]
    by (simp add: negotiated_def TCP_FLAG_MSS_def TCP_FLAG_WND_SCALE_def tcp_example_port_def del: parse_options.simps(2))
  have "linked 0 (tcp_example ?v) [10] [12, 13, 14, 15, 16, 17, 18, 19]" by (rule tcp_example_linked) simp_all
  from options_refine_parser [OF this, of 2 4 tcp_platform 3] show ?thesis
    unfolding bytes by (simp add: upd_port_def parse del: parse_options.simps(2))
qed

text \<open>
  C33. The options for a maximum segment size \<open>m\<close> and the flags are put at the end of the list, padded to a
  multiple of four bytes, and the receiver of these bytes takes exactly them: the smaller segment size
  and the window scale, each with its flag. Only a lack of free buffers keeps them from being added.
\<close>

theorem options_round_trip:
  assumes "linked l s bs xs" and "ready (bl_fd (blists s l)) s"
    and "fl AND FS_BUFFER_UPDATE = 0" "fl AND FS_BUFFER_SUSPEND = 0" "fl AND FS_BUFFER_HEAD = 0"
    and "length (list_bytes s bs) + 8 < 2 ^ 32"
  shows "\<exists>st sc n s'. tcp_add_options P l m scale opt_flags old_size fl s = Some (st, sc, n, s') \<and>
     (st = SUCCESS \<and> unat n mod 4 = 0 \<and>
        sc = (if opt_flags AND TCP_FLAG_WND_SCALE \<noteq> 0 then TCP_WND_SCALE else scale) \<and>
        tcp_process_options Q l p (of_nat (length (list_bytes s bs))) (ucast n) s' =
          Some (SUCCESS, upd_port p (negotiated m opt_flags) s') \<or>
      st = FS_BUFFER_NO_SPACE \<and> length xs < held_back fl (bl_fd (blists s l)) s + 8)"
proof -
  let ?opts = "options_of m opt_flags"
  have len: "length ?opts \<in> {0, 4, 8}" by (simp add: options_of_def bytes16_def)
  obtain st sc n s' where r: "tcp_add_options P l m scale opt_flags old_size fl s = Some (st, sc, n, s')"
      "appended l fl s bs xs ?opts st s'" "st = SUCCESS \<Longrightarrow> unat n = length ?opts"
      "st = SUCCESS \<Longrightarrow> sc = (if opt_flags AND TCP_FLAG_WND_SCALE \<noteq> 0 then TCP_WND_SCALE else scale)"
    using add_options_ok [OF assms refl, of P m scale opt_flags old_size] by blast
  show ?thesis
  proof (cases "st = SUCCESS")
    case True
    obtain bs' xs' where L: "linked l s' bs' xs'" "list_bytes s' bs' = list_bytes s bs @ ?opts"
      using r(2) True by (auto simp: appended_def FS_BUFFER_NO_SPACE_def SUCCESS_def)
    have off: "unat (of_nat (length (list_bytes s bs)) :: u32) = length (list_bytes s bs)"
      using assms(6) by (simp add: unat_of_nat)
    have "options_at l s' (of_nat (length (list_bytes s bs))) (ucast n) ?opts"
      unfolding options_at_def using L r(3) [OF True] off by (intro exI [of _ bs'] exI [of _ xs']) simp
    from process_options_ok [OF this, of Q p] have "tcp_process_options Q l p (of_nat (length (list_bytes s bs))) (ucast n) s' =
        Some (SUCCESS, upd_port p (negotiated m opt_flags) s')"
      using parse_options_of [of m opt_flags "[]" "tcp_ports s' p"] by (simp add: upd_port_def)
    then show ?thesis using r True len by auto
  next
    case False
    then have "st = FS_BUFFER_NO_SPACE" "length xs < held_back fl (bl_fd (blists s l)) s + length ?opts"
      using r(2) by (auto simp: appended_def)
    then show ?thesis using r(1) len by auto
  qed
qed

theorem options_round_trip_witness:
  "\<exists>n s'. tcp_add_options tcp_platform 0 536 0 3 0 0 (tcp_example [7]) = Some (SUCCESS, TCP_WND_SCALE, n, s') \<and>
     unat n mod 4 = 0 \<and> tcp_process_options tcp_platform 0 3 1 (ucast n) s' =
       Some (SUCCESS, upd_port 3 (negotiated 536 3) s')"
proof -
  have fd: "bl_fd (blists (tcp_example [7]) 0) = 0" by simp
  have bytes: "list_bytes (tcp_example [7]) [10] = [7]" by (rule tcp_example_bytes) simp
  have "ready (bl_fd (blists (tcp_example [7]) 0)) (tcp_example [7])" using tcp_example_ready fd by simp
  from options_round_trip [OF _ this, OF tcp_example_linked, where fl = 0 and P = tcp_platform and m = 536
      and opt_flags = 3 and old_size = 0 and scale = 0 and Q = tcp_platform and p = 3]
  obtain st sc n s' where r: "tcp_add_options tcp_platform 0 536 0 3 0 0 (tcp_example [7]) = Some (st, sc, n, s')"
     "st = SUCCESS \<and> unat n mod 4 = 0 \<and> sc = TCP_WND_SCALE \<and>
        tcp_process_options tcp_platform 0 3 1 (ucast n) s' = Some (SUCCESS, upd_port 3 (negotiated 536 3) s') \<or>
      st = FS_BUFFER_NO_SPACE \<and> length [12 :: nat, 13, 14, 15, 16, 17, 18, 19] < 0 + 8"
    unfolding bytes fd by (auto simp: held_back_def TCP_FLAG_WND_SCALE_def)
  then show ?thesis by (intro exI [of _ n] exI [of _ s']) simp
qed

text \<open>
  Where the end-of-list option closes the options of a header, they are all taken, but the result is
  an error, on which the callers give the connection up.
\<close>

theorem end_of_options_is_error:
  assumes "options_at l s offset n (options_of m opt_flags @ TCP_OPT_END # pad)"
  shows "tcp_process_options P l p offset n s = Some (NET_NO_NEXT_OPT, upd_port p (negotiated m opt_flags) s)"
  using process_options_ok [OF assms, of P p] by (simp add: parse_options_of upd_port_def)

theorem end_of_options_is_error_witness:
  "tcp_process_options tcp_platform 0 3 0 5 (tcp_example (options_of 536 TCP_FLAG_MSS @ [TCP_OPT_END])) =
     Some (NET_NO_NEXT_OPT, upd_port 3 (negotiated 536 TCP_FLAG_MSS)
       (tcp_example (options_of 536 TCP_FLAG_MSS @ [TCP_OPT_END])))"
proof (rule end_of_options_is_error [where pad = "[]"])
  let ?v = "options_of 536 TCP_FLAG_MSS @ [TCP_OPT_END]"
  have "length ?v = 5" by (simp add: options_of_def bytes16_def TCP_FLAG_MSS_def TCP_FLAG_WND_SCALE_def)
  then show "options_at 0 (tcp_example ?v) 0 5 ?v"
    unfolding options_at_def using tcp_example_linked [of ?v] tcp_example_bytes [of ?v]
    by (intro exI [of _ "[10]"] exI [of _ "[12, 13, 14, 15, 16, 17, 18, 19]"]) auto
qed



end
