(* ===== verification/FsMany.thy ===== *)
theory FsMany
  imports FsOps "HOL-Library.Multiset"
begin

text \<open>
  Many buffer lists on the pool of one descriptor: an operation on one of them leaves the others
  alone, the data of one can be moved to another, and a chain of them can be freed
  (\<^verbatim>\<open>fs_buffer_list_move_data\<close> and \<^verbatim>\<open>fs_buffer_add_list_list\<close> of \<^verbatim>\<open>rtos/fs/fs_buffer.c\<close>).
\<close>

section \<open>Lists beside each other\<close>

text \<open>The lists with their buffers (\<open>qs\<close>), beside the free buffers \<open>xs\<close> of descriptor \<open>f\<close>.\<close>

definition list_of :: "fd \<Rightarrow> 'z fsstate_scheme \<Rightarrow> lid \<times> bid list \<Rightarrow> bool" where
  "list_of f s q \<longleftrightarrow> chain_holds (fst q) s (snd q) \<and> bl_fd (blists s (fst q)) = f"

definition many_lists :: "fd \<Rightarrow> 'z fsstate_scheme \<Rightarrow> (lid \<times> bid list) list \<Rightarrow> bid list \<Rightarrow> bool" where
  "many_lists f s qs xs \<longleftrightarrow>
     (\<forall>q \<in> set qs. list_of f s q) \<and> pool_holds f s xs \<and> distinct (map fst qs) \<and>
     distinct (concat (map snd qs) @ xs) \<and> length (concat (map snd qs) @ xs) < 2 ^ 32"

text \<open>All their buffers.\<close>

abbreviation buffers_of :: "(lid \<times> bid list) list \<Rightarrow> bid list" where
  "buffers_of qs \<equiv> concat (map snd qs)"

lemma many_listsD:
  assumes "many_lists f s qs xs"
  shows "\<And>q. q \<in> set qs \<Longrightarrow> list_of f s q" "pool_holds f s xs" "distinct (map fst qs)"
    and "distinct (buffers_of qs @ xs)" "length (buffers_of qs @ xs) < 2 ^ 32"
  using assms by (simp_all add: many_lists_def)

lemma many_perm:
  assumes "mset qs = mset qs'"
  shows "many_lists f s qs xs = many_lists f s qs' xs"
proof -
  have "mset (map fst qs) = mset (map fst qs')" using assms by simp
  then have ids: "distinct (map fst qs) = distinct (map fst qs')" by (rule mset_eq_imp_distinct_iff)
  have "mset (buffers_of qs @ xs) = mset (buffers_of qs' @ xs)"
  proof -
    have "mset (buffers_of ps) = sum_mset (image_mset (\<lambda>q. mset (snd q)) (mset ps))" for ps :: "(lid \<times> bid list) list"
      by (induction ps) simp_all
    then show ?thesis using assms by simp
  qed
  then have "distinct (buffers_of qs @ xs) = distinct (buffers_of qs' @ xs)"
    "length (buffers_of qs @ xs) = length (buffers_of qs' @ xs)"
    using mset_eq_imp_distinct_iff mset_eq_length by blast+
  then show ?thesis
    using ids mset_eq_setD [OF assms] unfolding many_lists_def by simp
qed

lemma many_permI: "many_lists f s qs xs \<Longrightarrow> mset qs = mset qs' \<Longrightarrow> many_lists f s qs' xs"
  using many_perm by blast

lemma many_linked:
  assumes "many_lists f s qs xs" and "(l, bs) \<in> set qs"
  shows "linked l s bs xs" "bl_fd (blists s l) = f"
proof -
  note D = many_listsD [OF assms(1)]
  have l: "chain_holds l s bs" "bl_fd (blists s l) = f" using D(1) [OF assms(2)] by (simp_all add: list_of_def)
  have "set bs \<subseteq> set (buffers_of qs)" using assms(2) by force
  then have "set bs \<inter> set xs = {}" using D(4) by auto
  moreover have "length bs \<le> length (buffers_of qs)"
    using assms(2) by (induction qs) (auto simp: le_SucI trans_le_add2)
  ultimately show "linked l s bs xs" using l D(2,5) by (simp add: linked_def)
  show "bl_fd (blists s l) = f" using l(2) .
qed

text \<open>What leaves list \<open>l\<close> aside leaves the others as they are.\<close>

lemma list_of_frame:
  assumes "list_of f s q" and "blists s' (fst q) = blists s (fst q)" and "fd_size f s' = fd_size f s"
    and "\<And>b. b \<in> set (snd q) \<Longrightarrow> bufs s' b = bufs s b \<and> buf_next s' b = buf_next s b"
  shows "list_of f s' q" and "list_bytes s' (snd q) = list_bytes s (snd q)"
proof -
  have q: "chain_holds (fst q) s (snd q)" "bl_fd (blists s (fst q)) = f" using assms(1) by (simp_all add: list_of_def)
  have "chain_holds (fst q) s' (snd q)"
    by (rule chain_holds_frame [OF q(1) assms(2)]) (use q(2) assms(3,4) in simp_all)
  then show "list_of f s' q" using q(2) assms(2) by (simp add: list_of_def)
  show "list_bytes s' (snd q) = list_bytes s (snd q)" by (rule list_bytes_cong) (use assms(4) in simp)
qed

lemma many_step:
  assumes m: "many_lists f s ((l, bs) # qs) xs"
    and t: "touches f {l} (set bs \<union> set xs) s s'"
    and lk: "linked l s' bs' xs'" and same: "same_buffers bs xs bs' xs'"
  shows "many_lists f s' ((l, bs') # qs) xs'"
    and "q \<in> set qs \<Longrightarrow> list_bytes s' (snd q) = list_bytes s (snd q)"
proof -
  note D = many_listsD [OF m]
  have l: "linked l s bs xs" "bl_fd (blists s l) = f" using many_linked [OF m, of l bs] by simp_all
  have f: "bl_fd (blists s' l) = f" using touches_fd [OF t] l(2) by simp
  have keep: "list_of f s' q \<and> list_bytes s' (snd q) = list_bytes s (snd q)" if q: "q \<in> set qs" for q
  proof -
    have "fst q \<noteq> l" using D(3) q by (auto simp: image_iff)
    then have "blists s' (fst q) = blists s (fst q)" using touchesD(3) [OF t] by simp
    moreover have "b \<notin> set bs \<union> set xs" if "b \<in> set (snd q)" for b
      using D(4) q that by auto
    then have "bufs s' b = bufs s b \<and> buf_next s' b = buf_next s b" if "b \<in> set (snd q)" for b
      using touchesD(1,2) [OF t] that by blast
    ultimately show ?thesis
      using list_of_frame [OF D(1), of q s'] touches_size [OF t] q by simp
  qed
  show "q \<in> set qs \<Longrightarrow> list_bytes s' (snd q) = list_bytes s (snd q)" using keep by blast
  have "length bs' + length xs' = length bs + length xs" by (rule same_buffers_length [OF l(1) lk same])
  moreover have "distinct bs'" "distinct xs'" "set bs' \<inter> set xs' = {}"
    using linkedD(2-4) [OF lk] sll_holds_distinct by (auto simp: pool_holds_def)
  moreover have "set bs' \<union> set xs' = set bs \<union> set xs" using same by (simp add: same_buffers_def)
  then have "(set bs' \<union> set xs') \<inter> set (buffers_of qs) = {}" using D(4) by auto
  moreover have "list_of f s' (l, bs')" using lk f by (simp add: linked_def list_of_def)
  ultimately show "many_lists f s' ((l, bs') # qs) xs'"
    using keep D(3-5) linkedD(3) [OF lk] f by (auto simp: many_lists_def)
qed

section \<open>Moving the data of one list to another\<close>

lemma move_data_many:
  assumes m: "many_lists f s ((r, bs) # (l, cs) # qs) xs" and ne: "bs \<noteq> []" "cs \<noteq> []"
    and sz: "length (list_bytes s bs) + length (list_bytes s cs) < 2 ^ 32"
  shows "\<exists>s'. fs_buffer_list_move_data P r l 0 s = Some (SUCCESS, s') \<and>
     many_lists f s' ((r, bs @ cs) # (l, []) # qs) xs \<and> (\<forall>as. list_bytes s' as = list_bytes s as) \<and>
     kstate.truncate s' = kstate.truncate s \<and> fsstate.more s' = fsstate.more s \<and> fds s' = fds s \<and>
     list_next s' = list_next s \<and> (\<forall>m. bl_free (blists s' m) = bl_free (blists s m))"
proof -
  note D = many_listsD [OF m]
  have rl: "linked r s bs xs" "linked l s cs xs" "bl_fd (blists s r) = f" "bl_fd (blists s l) = f"
    using many_linked [OF m, of r bs] many_linked [OF m, of l cs] by simp_all
  note R = linkedD [OF rl(1)] and L = linkedD [OF rl(2)]
  have "r \<noteq> l" using D(3) by simp
  have rt: "tail (bl_list (blists s r)) = Some (last bs)" using R(1) ne by (simp add: sll_holds_def chain_sll_def)
  let ?next = "(buf_next s)(last bs := head (bl_list (blists s l)))"
  let ?r = "(blists s r)\<lparr>bl_list := (bl_list (blists s r))\<lparr>tail := tail (bl_list (blists s l))\<rparr>,
      bl_total_length := bl_total_length (blists s r) + bl_total_length (blists s l)\<rparr>"
  let ?l = "(blists s l)\<lparr>bl_list := \<lparr>head = None, tail = None\<rparr>, bl_total_length := 0\<rparr>"
  let ?s = "s\<lparr>buf_next := ?next, blists := (blists s)(r := ?r, l := ?l)\<rparr>"
  have run: "fs_buffer_list_move_data P r l 0 s = Some (SUCCESS, ?s)"
    using \<open>r \<noteq> l\<close> rt by (simp add: fs_buffer_list_move_data_def upd_blist_def Let_def fun_upd_twist)
  obtain as b where bs: "bs = as @ [b]" using ne(1) by (metis rev_exhaust)
  have b: "b \<notin> set as" "b \<notin> set cs" "b \<notin> set xs" "b \<notin> set (buffers_of qs)" using D(4) by (auto simp: bs)
  have bytes: "list_bytes ?s zs = list_bytes s zs" for zs by (simp add: list_bytes_def)
  have app: "list_bytes s (bs @ cs) = list_bytes s bs @ list_bytes s cs" by (simp add: list_bytes_def)
  have size: "fd_size g ?s = fd_size g s" for g by (simp add: fd_size_def)
  have "lseg ?next (head (bl_list (blists s r))) bs (head (bl_list (blists s l)))"
    "lseg ?next (head (bl_list (blists s l))) cs None"
    using R(1) L(1) b by (auto simp: sll_holds_def chain_sll_def bs)
  then have "sll_holds (chain_sll r ?s) (bs @ cs)"
    using L(1) \<open>r \<noteq> l\<close> ne by (auto simp: sll_holds_def chain_sll_def)
  moreover have "filled (fd_size f ?s) (bufs ?s c)" if "c \<in> set (bs @ cs)" for c
    using that R(5) L(5) rl(3,4) size by auto
  moreover have "unat (bl_total_length (blists ?s r)) = length (list_bytes ?s (bs @ cs))"
    using R(6) L(6) sz \<open>r \<noteq> l\<close> unat_add_lem [of "bl_total_length (blists s r)" "bl_total_length (blists s l)"]
    unfolding bytes app by simp
  ultimately have "list_of f ?s (r, bs @ cs)" using rl(3) \<open>r \<noteq> l\<close> by (simp add: list_of_def chain_holds_def)
  moreover have "list_of f ?s (l, [])"
    using rl(4) by (simp add: list_of_def chain_holds_def chain_sll_def sll_holds_def list_bytes_def)
  moreover have "list_of f ?s q" if q: "q \<in> set qs" for q
  proof (rule list_of_frame(1))
    show "list_of f s q" using D(1) q by simp
    have "fst q \<noteq> r" "fst q \<noteq> l" using D(3) q by (auto simp: image_iff)
    then show "blists ?s (fst q) = blists s (fst q)" by simp
    fix c
    assume "c \<in> set (snd q)"
    then have "c \<noteq> last bs" using b(4) q bs by auto
    then show "bufs ?s c = bufs s c \<and> buf_next ?s c = buf_next s c" by simp
  qed (rule size)
  moreover have "pool_holds f ?s xs"
    by (rule pool_holds_frame [OF D(2)]) (use b(3) in \<open>auto simp: bs\<close>)
  ultimately have "many_lists f ?s ((r, bs @ cs) # (l, []) # qs) xs"
    using D(3-5) by (simp add: many_lists_def)
  then show ?thesis using run bytes
    by (intro exI [of _ ?s]) (simp add: kstate.defs)
qed

section \<open>Freeing a chain of lists\<close>

lemma add_list_many:
  assumes m: "many_lists f s ((l, bs) # qs) xs" and calm: "calm f s" and own: "bl_free (blists s l) = None"
    and lists: "lists_hold f s ls" "l \<notin> set ls" "length ls + 1 < 2 ^ 32"
  shows "\<exists>s'. fs_buffer_add_list P f l FS_LIST_FREE fl s = Some s' \<and>
     many_lists f s' qs (xs @ bs) \<and> lists_hold f s' (ls @ [l]) \<and>
     (\<forall>q \<in> set qs. list_bytes s' (snd q) = list_bytes s (snd q) \<and> blists s' (fst q) = blists s (fst q)) \<and>
     kstate.truncate s' = kstate.truncate s \<and> fsstate.more s' = fsstate.more s \<and>
     (\<forall>m. m \<notin> insert l (set ls) \<longrightarrow> list_next s' m = list_next s m)"
proof -
  note D = many_listsD [OF m]
  have l: "linked l s bs xs" "bl_fd (blists s l) = f" using many_linked [OF m, of l bs] by simp_all
  note L = linkedD [OF l(1)]
  have sized: "sized (fd_size f s) (bufs s b)" if "b \<in> set bs" for b
    using L(5) [OF that] l(2) filled_sized by simp
  obtain s' where s': "fs_buffer_add_list P f l FS_LIST_FREE fl s = Some s'"
     "pool_holds f s' (xs @ bs)" "lists_hold f s' (ls @ [l])" "kstate.truncate s' = kstate.truncate s"
     "\<forall>m. m \<noteq> l \<longrightarrow> blists s' m = blists s m" "fd_size f s' = fd_size f s"
     "\<forall>b. b \<notin> set bs \<union> set xs \<longrightarrow> bufs s' b = bufs s b \<and> buf_next s' b = buf_next s b"
     "\<forall>m. m \<notin> insert l (set ls) \<longrightarrow> list_next s' m = list_next s m" "fsstate.more s' = fsstate.more s"
    using add_list_free_ok [OF calm l(2) [symmetric] own L(1) sized _ L(4,7) lists, of P fl] D(2) by blast
  have keep: "list_of f s' q \<and> list_bytes s' (snd q) = list_bytes s (snd q) \<and> blists s' (fst q) = blists s (fst q)"
    if q: "q \<in> set qs" for q
  proof -
    have "fst q \<noteq> l" using D(3) q by (auto simp: image_iff)
    then have same: "blists s' (fst q) = blists s (fst q)" using s'(5) by simp
    have "b \<notin> set bs \<union> set xs" if "b \<in> set (snd q)" for b using D(4) q that by auto
    then have "bufs s' b = bufs s b \<and> buf_next s' b = buf_next s b" if "b \<in> set (snd q)" for b
      using s'(7) that by blast
    from list_of_frame [OF D(1) same s'(6) this] q same show ?thesis by simp
  qed
  then have "many_lists f s' qs (xs @ bs)"
    using s'(2) D(3-5) by (auto simp: many_lists_def)
  then show ?thesis using s'(1,3,4,8,9) keep by blast
qed

lemma add_list_list_many:
  assumes "many_lists f s (qs @ os) xs" and "calm f s"
    and "\<And>q. q \<in> set qs \<Longrightarrow> bl_free (blists s (fst q)) = None"
    and "lists_hold f s ls" and "distinct (ls @ map fst qs)" and "length ls + length qs < 2 ^ 32"
    and "lseg (list_next s) h (map fst qs) None"
  shows "\<exists>s'. fs_buffer_add_list_list P h FS_LIST_FREE fl s = Some s' \<and>
     many_lists f s' os (xs @ buffers_of qs) \<and> lists_hold f s' (ls @ map fst qs) \<and>
     (\<forall>q \<in> set os. list_bytes s' (snd q) = list_bytes s (snd q)) \<and>
     kstate.truncate s' = kstate.truncate s \<and> fsstate.more s' = fsstate.more s"
  using assms
proof (induction qs arbitrary: s xs ls h)
  case Nil
  then show ?case by (subst fs_buffer_add_list_list.simps) auto
next
  case (Cons q qs)
  obtain l bs where q: "q = (l, bs)" by (cases q)
  have h: "h = Some l" "lseg (list_next s) (list_next s l) (map fst qs) None" using Cons.prems(7) by (simp_all add: q)
  have m: "many_lists f s ((l, bs) # qs @ os) xs" using Cons.prems(1) by (simp add: q)
  have fd: "bl_fd (blists s l) = f" using many_linked(2) [OF m, of l bs] by simp
  have own0: "bl_free (blists s l) = None" and dis0: "l \<notin> set ls" "length ls + 1 < 2 ^ 32"
    using Cons.prems(3) [of q] Cons.prems(5,6) by (simp_all add: q)
  obtain s1 where s1: "fs_buffer_add_list P f l FS_LIST_FREE fl s = Some s1"
     "many_lists f s1 (qs @ os) (xs @ bs)" "lists_hold f s1 (ls @ [l])"
     "\<forall>q \<in> set (qs @ os). list_bytes s1 (snd q) = list_bytes s (snd q) \<and> blists s1 (fst q) = blists s (fst q)"
     "kstate.truncate s1 = kstate.truncate s" "fsstate.more s1 = fsstate.more s"
     "\<forall>m. m \<notin> insert l (set ls) \<longrightarrow> list_next s1 m = list_next s m"
    using add_list_many [OF m Cons.prems(2) own0 Cons.prems(4) dis0, of P fl] by blast
  have calm1: "calm f s1" using calm_cong [OF s1(5)] Cons.prems(2) by simp
  have own: "bl_free (blists s1 (fst k)) = None" if "k \<in> set qs" for k
    using s1(4) Cons.prems(3) that by simp
  have dis: "distinct ((ls @ [l]) @ map fst qs)" "length (ls @ [l]) + length qs < 2 ^ 32"
    using Cons.prems(5,6) by (auto simp: q)
  have "m \<notin> insert l (set ls)" if "m \<in> set (map fst qs)" for m using dis(1) that by auto
  then have "lseg (list_next s1) (list_next s l) (map fst qs) None"
    using lseg_frame [OF h(2)] s1(7) by blast
  from Cons.IH [OF s1(2) calm1 own s1(3) dis this] obtain s' where s':
     "fs_buffer_add_list_list P (list_next s l) FS_LIST_FREE fl s1 = Some s'"
     "many_lists f s' os (xs @ buffers_of (q # qs))" "lists_hold f s' (ls @ map fst (q # qs))"
     "\<forall>q \<in> set os. list_bytes s' (snd q) = list_bytes s1 (snd q)"
     "kstate.truncate s' = kstate.truncate s1" "fsstate.more s' = fsstate.more s1"
    by (auto simp: q)
  have "fs_buffer_add_list_list P h FS_LIST_FREE fl s = Some s'"
    by (subst fs_buffer_add_list_list.simps) (simp add: h fd s1(1) s'(1))
  then show ?case using s' s1(4-6) by auto
qed

end
