(* ===== verification/TcpRtx.thy ===== *)
theory TcpRtx
  imports TcpOptions FsMany
begin

text \<open>
  The retransmission table (\<^verbatim>\<open>tcp_rtx_process_ack\<close> of \<^verbatim>\<open>rtos/net/net_tcp.c\<close>): which elements an
  acknowledgment frees, and where their buffer lists go: those still being sent are let go, those that
  have come back go to the pools of their descriptors. The locks are free.
\<close>

text \<open>An element is covered when its segment ends at or before the octet that is expected next.\<close>

definition covered :: "u32 \<Rightarrow> TCP_RTX_DATA \<Rightarrow> bool" where
  "covered ack r \<longleftrightarrow> sint (rtx_seq_num r + ucast (rtx_seg_len r) - ack) \<le> 0"

lemma rtx_acked_covered [simp]: "rtx_acked ack r = covered ack r"
  by (simp add: rtx_acked_def covered_def INT32CMP_def)

text \<open>The buffers in \<open>L\<close> will not come back to the table.\<close>

definition let_go :: "lid set \<Rightarrow> 'z fsstate_scheme \<Rightarrow> 'z fsstate_scheme" where
  "let_go L s = s\<lparr>blists := \<lambda>l. if l \<in> L then (blists s l)\<lparr>bl_free := None, bl_free_data := NULLP\<rparr> else blists s l\<rparr>"

definition freed_by :: "u32 \<Rightarrow> TCP_RTX_DATA \<Rightarrow> bool" where
  "freed_by ack r \<longleftrightarrow> rtx_in_use r \<and> covered ack r"

definition freed_lists :: "u32 \<Rightarrow> TCP_RTX_DATA list \<Rightarrow> lid set" where
  "freed_lists ack rs = {l. \<exists>r \<in> set rs. freed_by ack r \<and> rtx_buffer r = Some l}"

definition rtx_after :: "u32 \<Rightarrow> TCP_RTX_DATA \<Rightarrow> TCP_RTX_DATA" where
  "rtx_after ack r = (if freed_by ack r then r\<lparr>rtx_flags := 0\<rparr> else r)"

definition with_rtx :: "fd \<Rightarrow> TCP_RTX_DATA list \<Rightarrow> 'z tcpstate_scheme \<Rightarrow> 'z tcpstate_scheme" where
  "with_rtx p rs s = upd_port p (\<lambda>x. x\<lparr>rtx := rs\<rparr>) s"

lemma with_rtx_sel [simp]:
  "rtx (tcp_ports (with_rtx p rs s) p) = rs" "blists (with_rtx p rs s) = blists s"
  "blists (let_go L s) l = (if l \<in> L then (blists s l)\<lparr>bl_free := None, bl_free_data := NULLP\<rparr> else blists s l)"
  "tcp_ports (let_go L t) = tcp_ports t" for t :: "'z tcpstate_scheme"
  by (simp_all add: with_rtx_def let_go_def)

lemma with_rtx_other: "q \<noteq> p \<Longrightarrow> tcp_ports (with_rtx p rs s) q = tcp_ports s q"
  by (simp add: with_rtx_def)

lemma with_rtx_with [simp]: "with_rtx p rs (with_rtx p rs' s) = with_rtx p rs s"
  by (simp add: with_rtx_def upd_port_upd)

lemma with_rtx_same: "with_rtx p (rtx (tcp_ports s p)) s = s"
  by (simp add: with_rtx_def upd_port_def)

text \<open>The locks are free and obtaining and releasing them leaves no trace.\<close>

definition free_locks :: "'z tcp_platform \<Rightarrow> bool" where
  "free_locks P \<longleftrightarrow> (\<forall>f s. fd_get_lock P f s = Some (SUCCESS, s) \<and> fd_release_lock P f s = Some s)"

lemma tcp_platform_free_locks: "free_locks tcp_platform"
  by (simp add: free_locks_def fd_get_lock_def fd_try_get_lock_def fd_release_lock_def tcp_platform_def
      split: option.split)

section \<open>Lists that go back to their pools\<close>

text \<open>
  The lists \<open>qs\<close> with their buffers, each on one of the descriptors \<open>F\<close>, beside the free buffers \<open>xs f\<close> and
  the free lists \<open>ls f\<close> of every such descriptor.
\<close>

definition pools_hold ::
    "fd set \<Rightarrow> 'z fsstate_scheme \<Rightarrow> (lid \<times> bid list) list \<Rightarrow> (fd \<Rightarrow> bid list) \<Rightarrow> (fd \<Rightarrow> lid list) \<Rightarrow> bool" where
  "pools_hold F s qs xs ls \<longleftrightarrow>
     (\<forall>f \<in> F. calm f s \<and> pool_holds f s (xs f) \<and> lists_hold f s (ls f) \<and>
        set (buffers_of qs) \<inter> set (xs f) = {} \<and> set (map fst qs) \<inter> set (ls f) = {} \<and>
        length (buffers_of qs) + length (xs f) < 2 ^ 32 \<and> length qs + length (ls f) < 2 ^ 32 \<and>
        (\<forall>g \<in> F. g \<noteq> f \<longrightarrow> set (xs f) \<inter> set (xs g) = {} \<and> set (ls f) \<inter> set (ls g) = {})) \<and>
     (\<forall>q \<in> set qs. bl_fd (blists s (fst q)) \<in> F \<and> list_of (bl_fd (blists s (fst q))) s q) \<and>
     distinct (map fst qs) \<and> distinct (buffers_of qs)"

lemma pools_holdD:
  assumes "pools_hold F s qs xs ls"
  shows "f \<in> F \<Longrightarrow> calm f s" "f \<in> F \<Longrightarrow> pool_holds f s (xs f)" "f \<in> F \<Longrightarrow> lists_hold f s (ls f)"
    and "f \<in> F \<Longrightarrow> set (buffers_of qs) \<inter> set (xs f) = {}" "f \<in> F \<Longrightarrow> set (map fst qs) \<inter> set (ls f) = {}"
    and "f \<in> F \<Longrightarrow> length (buffers_of qs) + length (xs f) < 2 ^ 32" "f \<in> F \<Longrightarrow> length qs + length (ls f) < 2 ^ 32"
    and "f \<in> F \<Longrightarrow> g \<in> F \<Longrightarrow> g \<noteq> f \<Longrightarrow> set (xs f) \<inter> set (xs g) = {}"
    and "f \<in> F \<Longrightarrow> g \<in> F \<Longrightarrow> g \<noteq> f \<Longrightarrow> set (ls f) \<inter> set (ls g) = {}"
    and "q \<in> set qs \<Longrightarrow> bl_fd (blists s (fst q)) \<in> F" "q \<in> set qs \<Longrightarrow> list_of (bl_fd (blists s (fst q))) s q"
    and "distinct (map fst qs)" "distinct (buffers_of qs)"
  using assms unfolding pools_hold_def by blast+

text \<open>What a list is after it went back.\<close>

definition spare :: "fd \<Rightarrow> FS_BUFFER_LIST" where
  "spare f = \<lparr>bl_list = \<lparr>head = None, tail = None\<rparr>, bl_total_length = 0, bl_fd = f,
     bl_free = None, bl_free_data = NULLP\<rparr>"

lemma pools_grow:
  assumes h: "pools_hold F s ((l, bs) # qs) xs ls" and F: "f \<in> F"
    and "\<And>g. g \<in> F \<Longrightarrow> calm g s'"
    and "\<And>g. g \<in> F \<Longrightarrow> pool_holds g s' ((xs(f := xs f @ bs)) g)"
    and "\<And>g. g \<in> F \<Longrightarrow> lists_hold g s' ((ls(f := ls f @ [l])) g)"
    and "\<And>q. q \<in> set qs \<Longrightarrow> bl_fd (blists s' (fst q)) \<in> F \<and> list_of (bl_fd (blists s' (fst q))) s' q"
  shows "pools_hold F s' qs (xs(f := xs f @ bs)) (ls(f := ls f @ [l]))"
  unfolding pools_hold_def
proof (intro conjI ballI impI)
  note H = pools_holdD [OF h]
  have dis: "set (buffers_of qs) \<inter> set bs = {}" "l \<notin> fst ` set qs" using H(12,13) by auto
  fix g
  assume g: "g \<in> F"
  let ?xs = "xs(f := xs f @ bs)" and ?ls = "ls(f := ls f @ [l])"
  show "set (buffers_of qs) \<inter> set (?xs g) = {}" using H(4) [OF g] dis(1) by auto
  show "set (map fst qs) \<inter> set (?ls g) = {}" using H(5) [OF g] dis(2) by auto
  show "length (buffers_of qs) + length (?xs g) < 2 ^ 32" "length qs + length (?ls g) < 2 ^ 32"
    using H(6,7) [OF g] by auto
  fix k
  assume k: "k \<in> F" "k \<noteq> g"
  show "set (?xs g) \<inter> set (?xs k) = {}" "set (?ls g) \<inter> set (?ls k) = {}"
    using H(4,5) [OF g] H(4,5) [OF k(1)] H(8,9) [OF g k] k(2) by auto
qed (use assms(3-6) pools_holdD(12,13) [OF h] in simp_all)

lemma pools_give:
  assumes h: "pools_hold F s ((l, bs) # qs) xs ls" and own: "bl_free (blists s l) = None" and f: "f = bl_fd (blists s l)"
  shows "\<exists>s'. fs_buffer_add_list P f l FS_LIST_FREE fl s = Some s' \<and>
     pools_hold F s' qs (xs(f := xs f @ bs)) (ls(f := ls f @ [l])) \<and> blists s' = (blists s)(l := spare f) \<and>
     kstate.truncate s' = kstate.truncate s \<and> fsstate.more s' = fsstate.more s"
proof -
  note H = pools_holdD [OF h]
  have F: "f \<in> F" and lof: "list_of f s (l, bs)" using H(10,11) [of "(l, bs)"] f by simp_all
  have L: "sll_holds (chain_sll l s) bs" "\<And>b. b \<in> set bs \<Longrightarrow> sized (fd_size f s) (bufs s b)"
    using lof filled_sized by (auto simp: list_of_def chain_holds_def)
  have D: "calm f s" "pool_holds f s (xs f)" "set bs \<inter> set (xs f) = {}" "length bs + length (xs f) < 2 ^ 32"
    "lists_hold f s (ls f)" "l \<notin> set (ls f)" "length (ls f) + 1 < 2 ^ 32"
    using H(1-7) [OF F] by auto
  obtain s' where s': "fs_buffer_add_list P f l FS_LIST_FREE fl s = Some s'"
     "pool_holds f s' (xs f @ bs)" "lists_hold f s' (ls f @ [l])" "blists s' l = spare f"
     "kstate.truncate s' = kstate.truncate s" "\<forall>m. m \<noteq> l \<longrightarrow> blists s' m = blists s m"
     "\<forall>g. g \<noteq> f \<longrightarrow> fds s' g = fds s g" "fd_size f s' = fd_size f s"
     "\<forall>b. b \<notin> set bs \<union> set (xs f) \<longrightarrow> bufs s' b = bufs s b \<and> buf_next s' b = buf_next s b"
     "\<forall>m. m \<notin> insert l (set (ls f)) \<longrightarrow> list_next s' m = list_next s m" "fsstate.more s' = fsstate.more s"
    using add_list_free_ok [OF D(1) f own L(1,2) D(2-7), of P fl] unfolding spare_def by blast
  have size: "fd_size g s' = fd_size g s" for g using s'(7,8) by (cases "g = f") (simp_all add: fd_size_def)
  have calm: "calm g s' = calm g s" for g using calm_cong [OF s'(5)] .
  have lists: "blists s' = (blists s)(l := spare f)" using s'(4,6) by (auto simp: fun_eq_iff)
  have keep: "list_of (bl_fd (blists s (fst q))) s' q" "blists s' (fst q) = blists s (fst q)" if q: "q \<in> set qs" for q
  proof -
    have "fst q \<noteq> l" using H(12) q by (auto simp: image_iff)
    then show same: "blists s' (fst q) = blists s (fst q)" using s'(6) by simp
    have "set (snd q) \<subseteq> set (buffers_of qs)" using q by auto
    then have "b \<notin> set bs \<union> set (xs f)" if b: "b \<in> set (snd q)" for b
      using H(4) [OF F] H(13) b by auto
    then have "bufs s' b = bufs s b \<and> buf_next s' b = buf_next s b" if "b \<in> set (snd q)" for b using s'(9) that by blast
    then show "list_of (bl_fd (blists s (fst q))) s' q"
      using list_of_frame(1) [OF H(11) same size] q by simp
  qed
  have pool: "pool_holds g s' (xs g)" "lists_hold g s' (ls g)" if g: "g \<in> F" "g \<noteq> f" for g
  proof -
    have G: "set (xs g) \<inter> (set bs \<union> set (xs f)) = {}" "set (ls g) \<inter> insert l (set (ls f)) = {}"
      using H(4,5) [OF g(1)] H(8,9) [OF F g] by auto
    show "pool_holds g s' (xs g)"
      by (rule pool_holds_frame [OF H(2) [OF g(1)]]) (use G(1) s'(7,9) g(2) in auto)
    have "list_next s' m = list_next s m" if "m \<in> set (ls g)" for m using G(2) s'(10) that by blast
    then show "lists_hold g s' (ls g)"
      using H(3) [OF g(1)] s'(7) g(2) sll_holds_frame [of "list_next s" _ "ls g" "list_next s'"]
      by (auto simp: lists_hold_def)
  qed
  have "pools_hold F s' qs (xs(f := xs f @ bs)) (ls(f := ls f @ [l]))"
  proof (rule pools_grow [OF h F])
    fix g
    assume g: "g \<in> F"
    show "calm g s'" using calm H(1) [OF g] by simp
    show "pool_holds g s' ((xs(f := xs f @ bs)) g)" "lists_hold g s' ((ls(f := ls f @ [l])) g)"
      using pool [OF g] s'(2,3) by simp_all
  next
    fix q
    assume q: "q \<in> set qs"
    then show "bl_fd (blists s' (fst q)) \<in> F \<and> list_of (bl_fd (blists s' (fst q))) s' q"
      using H(10) [of q] keep [OF q] by simp
  qed
  then show ?thesis using s'(1,5,11) lists by blast
qed

lemma list_of_let_go [simp]: "list_of f (let_go L s) q = list_of f s q"
  by (auto simp: list_of_def chain_holds_def chain_sll_def let_go_def fd_size_def list_bytes_def)

lemma pools_let_go [simp]: "pools_hold F (let_go L s) qs xs ls = pools_hold F s qs xs ls"
proof -
  have "calm f (let_go L s) = calm f s" for f by (rule calm_cong) (simp add: let_go_def kstate.defs)
  moreover have "bl_fd (blists (let_go L s) l) = bl_fd (blists s l)" for l by (simp add: let_go_def)
  ultimately show ?thesis
    by (simp add: pools_hold_def pool_holds_def lists_hold_def) (simp add: let_go_def)
qed

lemma pools_port [simp]: "pools_hold F (upd_port p g s) qs xs ls = pools_hold F s qs xs ls"
proof -
  have "calm f (upd_port p g s) = calm f s" for f by (rule calm_cong) simp
  moreover have "list_of f (upd_port p g s) q = list_of f s q" for f q
    by (simp add: list_of_def chain_holds_def chain_sll_def fd_size_def list_bytes_def)
  ultimately show ?thesis by (simp add: pools_hold_def pool_holds_def lists_hold_def)
qed

section \<open>An acknowledgment\<close>

text \<open>The elements whose buffers have come back, so that freeing the element gives them to their pool.\<close>

definition given_back :: "u32 \<Rightarrow> TCP_RTX_DATA list \<Rightarrow> TCP_RTX_DATA list" where
  "given_back ack rs = filter (\<lambda>r. freed_by ack r \<and> rtx_flags r AND TCP_RTX_BUFFER_RETURNED \<noteq> 0) rs"

text \<open>The lists after it: those in \<open>L\<close> will not come back to the table, and those in \<open>M\<close> are spare.\<close>

definition lists_after :: "'z fsstate_scheme \<Rightarrow> lid set \<Rightarrow> lid set \<Rightarrow> lid \<Rightarrow> FS_BUFFER_LIST" where
  "lists_after s L M l =
     (if l \<in> M then spare (bl_fd (blists s l))
      else if l \<in> L then (blists s l)\<lparr>bl_free := None, bl_free_data := NULLP\<rparr> else blists s l)"

text \<open>The lists of descriptor \<open>f\<close>.\<close>

definition lists_on :: "'z fsstate_scheme \<Rightarrow> (lid \<times> bid list) list \<Rightarrow> fd \<Rightarrow> (lid \<times> bid list) list" where
  "lists_on s qs f = filter (\<lambda>q. bl_fd (blists s (fst q)) = f) qs"

abbreviation pools_after ::
    "fd set \<Rightarrow> 'z fsstate_scheme \<Rightarrow> (lid \<times> bid list) list \<Rightarrow> (fd \<Rightarrow> bid list) \<Rightarrow> (fd \<Rightarrow> lid list) \<Rightarrow>
     'z fsstate_scheme \<Rightarrow> bool" where
  "pools_after F s qs xs ls s' \<equiv>
     pools_hold F s' [] (\<lambda>f. xs f @ buffers_of (lists_on s qs f)) (\<lambda>f. ls f @ map fst (lists_on s qs f))"

lemma lists_on_cong:
  "(\<And>q. q \<in> set qs \<Longrightarrow> bl_fd (blists s' (fst q)) = bl_fd (blists s (fst q))) \<Longrightarrow> lists_on s' qs = lists_on s qs"
  by (auto simp: lists_on_def fun_eq_iff intro!: filter_cong)

text \<open>Freeing one element, with its buffer list still being sent or already back.\<close>

lemma upd_blist_let_go: "upd_blist l (\<lambda>x. x\<lparr>bl_free := None, bl_free_data := NULLP\<rparr>) s = let_go {l} s"
  by (auto simp: upd_blist_def let_go_def fun_eq_iff intro!: fsstate.fold_congs)

lemma give_back_sent:
  assumes "free_locks P" and "rtx_buffer (rtx (tcp_ports s p) ! i) = Some l"
    and "rtx_flags (rtx (tcp_ports s p) ! i) AND TCP_RTX_BUFFER_RETURNED = 0"
  shows "rtx_give_back P p i s = Some (let_go {l} s)"
  using assms by (simp add: rtx_give_back_def free_locks_def Let_def upd_blist_let_go)

lemma give_back_returned:
  assumes "free_locks P" and "rtx_buffer (rtx (tcp_ports s p) ! i) = Some l"
    and "rtx_flags (rtx (tcp_ports s p) ! i) AND TCP_RTX_BUFFER_RETURNED \<noteq> 0"
    and h: "pools_hold F s ((l, bs) # qs) xs ls" and f: "f = bl_fd (blists s l)"
  shows "\<exists>s'. rtx_give_back P p i s = Some s' \<and>
     pools_hold F s' qs (xs(f := xs f @ bs)) (ls(f := ls f @ [l])) \<and> blists s' = (blists s)(l := spare f) \<and>
     kstate.truncate s' = kstate.truncate s \<and> tcp_ports s' = tcp_ports s"
proof -
  let ?s = "let_go {l} s"
  have "pools_hold F ?s ((l, bs) # qs) xs ls" "bl_free (blists ?s l) = None" "f = bl_fd (blists ?s l)"
    using h f by simp_all
  from pools_give [OF this, of P "ucast FS_BUFFER_ACTIVE"] obtain s' where s':
    "fs_buffer_add_list P f l FS_LIST_FREE (ucast FS_BUFFER_ACTIVE) ?s = Some s'"
    "pools_hold F s' qs (xs(f := xs f @ bs)) (ls(f := ls f @ [l]))" "blists s' = (blists ?s)(l := spare f)"
    "kstate.truncate s' = kstate.truncate ?s" "fsstate.more s' = fsstate.more ?s" by blast
  have "rtx_give_back P p i s = Some s'"
    using assms(1-3) f s'(1) by (simp add: rtx_give_back_def free_locks_def Let_def upd_blist_let_go)
  moreover have "blists s' = (blists s)(l := spare f)" using s'(3) by (auto simp: fun_eq_iff)
  moreover have "kstate.truncate s' = kstate.truncate s" using s'(4) by (simp add: let_go_def kstate.defs)
  moreover have "tcp_ports s' = tcp_ports s" using same_ports [OF s'(5)] by simp
  ultimately show ?thesis using s'(2) by blast
qed

lemma ack_step:
  assumes "free_locks P" and "rtx (tcp_ports s p) = as @ r # rs" and "freed_by ack r" and "rtx_buffer r = Some l"
    and "rtx_give_back P p (length as) s = Some s1" and "tcp_ports s1 = tcp_ports s"
  shows "rtx_ack_loop P p ack (length as # is) freed do_rtx s =
     rtx_ack_loop P p ack is True do_rtx (with_rtx p (as @ r\<lparr>rtx_flags := 0\<rparr> # rs) s1)"
proof -
  have r: "rtx (tcp_ports s p) ! length as = r" using assms(2) by simp
  have clear: "rtx_clear p (length as) s1 = with_rtx p (as @ r\<lparr>rtx_flags := 0\<rparr> # rs) s1"
    using assms(2,6) by (simp add: upd_rtx_def with_rtx_def upd_port_def)
  have unlock: "rtx_unlock P p (length as) (with_rtx p (as @ r\<lparr>rtx_flags := 0\<rparr> # rs) s1) =
      Some (with_rtx p (as @ r\<lparr>rtx_flags := 0\<rparr> # rs) s1)"
    using assms(1,4) by (simp add: rtx_unlock_def free_locks_def)
  show ?thesis using assms(3,5) r clear unlock by (simp add: freed_by_def)
qed

lemma lists_rtx [simp]:
  "lists_after (with_rtx p rs s) = lists_after s" "lists_on (with_rtx p rs s) = lists_on s"
  by (intro ext; simp add: lists_after_def lists_on_def)+

lemma give_back_ok:
  assumes free: "free_locks P" and r: "rtx (tcp_ports s p) ! i = r" "rtx_buffer r = Some l" "freed_by ack r"
    and returns: "map rtx_buffer (given_back ack (r # rs)) = map (\<lambda>q. Some (fst q)) qs" and h: "pools_hold F s qs xs ls"
  shows "\<exists>s1 qs1 xs1 ls1. rtx_give_back P p i s = Some s1 \<and> tcp_ports s1 = tcp_ports s \<and>
     kstate.truncate s1 = kstate.truncate s \<and> map rtx_buffer (given_back ack rs) = map (\<lambda>q. Some (fst q)) qs1 \<and>
     pools_hold F s1 qs1 xs1 ls1 \<and> (\<forall>L. lists_after s1 L (fst ` set qs1) = lists_after s (insert l L) (fst ` set qs)) \<and>
     (\<forall>s'. pools_after F s1 qs1 xs1 ls1 s' = pools_after F s qs xs ls s')"
proof (cases "rtx_flags r AND TCP_RTX_BUFFER_RETURNED = 0")
  case True
  have "map rtx_buffer (given_back ack rs) = map (\<lambda>q. Some (fst q)) qs"
    using returns True by (simp add: given_back_def)
  moreover have "\<forall>L. lists_after (let_go {l} s) L (fst ` set qs) = lists_after s (insert l L) (fst ` set qs)"
    by (auto simp: lists_after_def fun_eq_iff)
  moreover have "lists_on (let_go {l} s) qs = lists_on s qs" by (rule lists_on_cong) simp
  then have "\<forall>s'. pools_after F (let_go {l} s) qs xs ls s' = pools_after F s qs xs ls s'" by simp
  moreover have "rtx_give_back P p i s = Some (let_go {l} s)" by (rule give_back_sent) (use free r True in simp_all)
  moreover have "kstate.truncate (let_go {l} s) = kstate.truncate s" by (simp add: let_go_def kstate.defs)
  moreover have "pools_hold F (let_go {l} s) qs xs ls" "tcp_ports (let_go {l} s) = tcp_ports s" using h by simp_all
  ultimately show ?thesis by blast
next
  case False
  then obtain bs qs1 where qs: "qs = (l, bs) # qs1" "map rtx_buffer (given_back ack rs) = map (\<lambda>q. Some (fst q)) qs1"
    using returns r(2,3) by (cases qs) (auto simp: given_back_def)
  let ?f = "bl_fd (blists s l)"
  obtain s1 where s1: "rtx_give_back P p i s = Some s1"
     "pools_hold F s1 qs1 (xs(?f := xs ?f @ bs)) (ls(?f := ls ?f @ [l]))" "blists s1 = (blists s)(l := spare ?f)"
     "kstate.truncate s1 = kstate.truncate s" "tcp_ports s1 = tcp_ports s"
    using give_back_returned [OF free, of s p i l, unfolded r(1), OF r(2) False h [unfolded qs(1)] refl] by blast
  have l: "l \<notin> fst ` set qs1" using pools_holdD(12) [OF h] by (simp add: qs(1))
  have "lists_after s1 L (fst ` set qs1) = lists_after s (insert l L) (fst ` set qs)" for L
    using l s1(3) by (auto simp: lists_after_def qs(1) fun_eq_iff spare_def)
  moreover have on: "lists_on s1 qs1 = lists_on s qs1"
    by (rule lists_on_cong) (use s1(3) in \<open>auto simp: spare_def\<close>)
  have "(\<lambda>f. (xs(?f := xs ?f @ bs)) f @ buffers_of (lists_on s1 qs1 f)) = (\<lambda>f. xs f @ buffers_of (lists_on s qs f))"
    "(\<lambda>f. (ls(?f := ls ?f @ [l])) f @ map fst (lists_on s1 qs1 f)) = (\<lambda>f. ls f @ map fst (lists_on s qs f))"
    unfolding on by (auto simp: lists_on_def qs(1) fun_eq_iff)
  then have "\<forall>s'. pools_after F s1 qs1 (xs(?f := xs ?f @ bs)) (ls(?f := ls ?f @ [l])) s' = pools_after F s qs xs ls s'"
    by simp
  ultimately show ?thesis using s1(1,2,4,5) qs(2) by blast
qed

lemma ack_loop_ok:
  assumes "free_locks P" and "rtx (tcp_ports s p) = as @ rs" and "\<And>r. r \<in> set rs \<Longrightarrow> freed_by ack r \<Longrightarrow> rtx_buffer r \<noteq> None"
    and "map rtx_buffer (given_back ack rs) = map (\<lambda>q. Some (fst q)) qs" and "pools_hold F s qs xs ls"
  shows "\<exists>s'. rtx_ack_loop P p ack [length as..<length as + length rs] freed do_rtx s =
       Some (freed \<or> (\<exists>r \<in> set rs. freed_by ack r), do_rtx \<or> (\<exists>r \<in> set rs. rtx_in_use r \<and> \<not> covered ack r), s') \<and>
     tcp_ports s' = tcp_ports (with_rtx p (as @ map (rtx_after ack) rs) s) \<and>
     blists s' = lists_after s (freed_lists ack rs) (fst ` set qs) \<and> pools_after F s qs xs ls s' \<and>
     kstate.truncate s' = kstate.truncate s"
  using assms(2-5)
proof (induction rs arbitrary: as freed do_rtx s qs xs ls)
  case Nil
  then show ?case using with_rtx_same [of p s]
    by (simp add: freed_lists_def given_back_def lists_after_def [abs_def] lists_on_def)
next
  case (Cons r rs)
  have upt: "[length as..<length as + length (r # rs)] = length as # [length (as @ [r])..<length (as @ [r]) + length rs]"
    by (subst upt_rec) simp
  have r: "rtx (tcp_ports s p) ! length as = r" "rtx (tcp_ports s p) = as @ r # rs" using Cons.prems(1) by simp_all
  have some: "k \<in> set rs \<Longrightarrow> freed_by ack k \<Longrightarrow> rtx_buffer k \<noteq> None" for k using Cons.prems(2) by simp
  show ?case
  proof (cases "freed_by ack r")
    case False
    have same: "freed_lists ack (r # rs) = freed_lists ack rs" "rtx_after ack r = r"
        "given_back ack (r # rs) = given_back ack rs"
      using False by (auto simp: freed_lists_def rtx_after_def given_back_def)
    have step: "rtx_ack_loop P p ack (length as # is) freed do_rtx s =
        rtx_ack_loop P p ack is freed (do_rtx \<or> rtx_in_use r) s" for "is"
      using False r(1) by (simp add: freed_by_def)
    have flags: "(\<exists>k \<in> set (r # rs). freed_by ack k) = (\<exists>k \<in> set rs. freed_by ack k)"
      "(do_rtx \<or> (\<exists>k \<in> set (r # rs). rtx_in_use k \<and> \<not> covered ack k)) =
       ((do_rtx \<or> rtx_in_use r) \<or> (\<exists>k \<in> set rs. rtx_in_use k \<and> \<not> covered ack k))"
      using False by (auto simp: freed_by_def)
    have "rtx (tcp_ports s p) = (as @ [r]) @ rs" using r(2) by simp
    from Cons.IH [OF this some Cons.prems(3) [unfolded same] Cons.prems(4), of freed "do_rtx \<or> rtx_in_use r"]
    show ?thesis unfolding upt same(1) step flags by (simp add: same(2))
  next
    case True
    obtain l where l: "rtx_buffer r = Some l" using Cons.prems(2) True by auto
    let ?r = "r\<lparr>rtx_flags := 0\<rparr>"
    have same: "freed_lists ack (r # rs) = insert l (freed_lists ack rs)" "rtx_after ack r = ?r"
      using True l by (auto simp: freed_lists_def rtx_after_def)
    obtain s1 qs1 xs1 ls1 where s1: "rtx_give_back P p (length as) s = Some s1" "tcp_ports s1 = tcp_ports s"
       "kstate.truncate s1 = kstate.truncate s" "map rtx_buffer (given_back ack rs) = map (\<lambda>q. Some (fst q)) qs1"
       "pools_hold F s1 qs1 xs1 ls1" "\<forall>L. lists_after s1 L (fst ` set qs1) = lists_after s (insert l L) (fst ` set qs)"
       "\<forall>s'. pools_after F s1 qs1 xs1 ls1 s' = pools_after F s qs xs ls s'"
      using give_back_ok [OF assms(1) r(1) l True Cons.prems(3,4)] by blast
    let ?s = "with_rtx p (as @ ?r # rs) s1"
    note step = ack_step [OF assms(1) r(2) True l s1(1,2)]
    have flags: "(freed \<or> (\<exists>k \<in> set (r # rs). freed_by ack k)) = (True \<or> (\<exists>k \<in> set rs. freed_by ack k))"
      "(\<exists>k \<in> set (r # rs). rtx_in_use k \<and> \<not> covered ack k) = (\<exists>k \<in> set rs. rtx_in_use k \<and> \<not> covered ack k)"
      using True by (auto simp: freed_by_def)
    have "rtx (tcp_ports ?s p) = (as @ [?r]) @ rs" "pools_hold F ?s qs1 xs1 ls1"
      using s1(5) by (simp_all add: with_rtx_def)
    from Cons.IH [OF this(1) some s1(4) this(2), of True do_rtx] obtain s' where s':
      "rtx_ack_loop P p ack [length (as @ [?r])..<length (as @ [?r]) + length rs] True do_rtx ?s =
         Some (True \<or> (\<exists>k \<in> set rs. freed_by ack k), do_rtx \<or> (\<exists>k \<in> set rs. rtx_in_use k \<and> \<not> covered ack k), s')"
      "tcp_ports s' = tcp_ports (with_rtx p ((as @ [?r]) @ map (rtx_after ack) rs) ?s)"
      "blists s' = lists_after ?s (freed_lists ack rs) (fst ` set qs1)" "pools_after F ?s qs1 xs1 ls1 s'"
      "kstate.truncate s' = kstate.truncate ?s" by blast
    have trunc: "kstate.truncate ?s = kstate.truncate s1" by (simp add: with_rtx_def)
    have ports: "tcp_ports s' = tcp_ports (with_rtx p (as @ map (rtx_after ack) (r # rs)) s)"
      using s'(2) s1(2) by (simp add: same(2)) (simp add: with_rtx_def)
    have run: "rtx_ack_loop P p ack [length as..<length as + length (r # rs)] freed do_rtx s =
        Some (freed \<or> (\<exists>k \<in> set (r # rs). freed_by ack k),
          do_rtx \<or> (\<exists>k \<in> set (r # rs). rtx_in_use k \<and> \<not> covered ack k), s')"
      unfolding upt step flags using s'(1) by simp
    show ?thesis
      unfolding same(1) using run ports s'(3-5) trunc s1(3,6,7) by (intro exI [of _ s'] conjI) simp_all
  qed
qed

text \<open>In the networking task the timer of a port is set without waking that task.\<close>

definition sus_after :: "TCP_PORT \<Rightarrow> TCP_PORT" where
  "sus_after x = (case next_timeout x of
     Some t \<Rightarrow> x\<lparr>sus_timeout := t, sus_timeout_enabled := True\<rparr> | None \<Rightarrow> x\<lparr>sus_timeout_enabled := False\<rparr>)"

lemma sus_after_sel [simp]:
  "rtx (sus_after x) = rtx x" "rtx_timeout_enable (sus_after x) = rtx_timeout_enable x"
  by (simp_all add: sus_after_def split: option.split)

lemma upd_port_task [simp]: "current_task (upd_port p f s) = current_task s"
  by (simp add: upd_port_def)

lemma timeout_update_calm:
  assumes "current_task s = None \<or> current_task s = Some (net_condition_tcb P)"
  shows "tcp_timeout_update P p s = Some (upd_port p sus_after s)"
  using assms by (auto simp: tcp_timeout_update_def net_condition_updated_def sus_after_def [abs_def])

lemma truncate_task: "kstate.truncate s' = kstate.truncate s \<Longrightarrow> current_task s' = current_task s"
  by (drule arg_cong [where f = current_task]) (simp add: kstate.defs)

text \<open>
  C35. An acknowledgment frees exactly the elements of the retransmission table that are in use and whose
  last octet it covers, and tells whether there was one. The buffer list of a freed element that is still
  being sent will not come back to the table; one that has come back is given with its buffers to the pool
  of its descriptor, in the order of the table (\<open>qs\<close>; an element in use has a list). The
  retransmission timer runs iff an element is left that is not acknowledged.
\<close>

theorem ack_frees_covered:
  assumes "free_locks P" and "current_task s = None \<or> current_task s = Some (net_condition_tcb P)"
    and "rs = rtx (tcp_ports s p)" and "length rs = TCP_NUM_RTX"
    and "\<And>r. r \<in> set rs \<Longrightarrow> freed_by ack r \<Longrightarrow> rtx_buffer r \<noteq> None"
    and "map rtx_buffer (given_back ack rs) = map (\<lambda>q. Some (fst q)) qs" and "pools_hold F s qs xs ls"
  shows "\<exists>s'. tcp_rtx_process_ack P p ack s = Some (\<exists>r \<in> set rs. freed_by ack r, s') \<and>
     rtx (tcp_ports s' p) = map (rtx_after ack) rs \<and> blists s' = lists_after s (freed_lists ack rs) (fst ` set qs) \<and>
     pools_after F s qs xs ls s' \<and>
     (rtx_timeout_enable (tcp_ports s' p) \<longleftrightarrow> (\<exists>r \<in> set rs. rtx_in_use r \<and> \<not> covered ack r)) \<and>
     (\<forall>q. q \<noteq> p \<longrightarrow> tcp_ports s' q = tcp_ports s q)"
proof -
  let ?some = "\<exists>r \<in> set rs. freed_by ack r" and ?left = "\<exists>r \<in> set rs. rtx_in_use r \<and> \<not> covered ack r"
  obtain s1 where loop: "rtx_ack_loop P p ack [0..<TCP_NUM_RTX] False False s = Some (?some, ?left, s1)"
    and s1: "tcp_ports s1 = tcp_ports (with_rtx p (map (rtx_after ack) rs) s)"
     "blists s1 = lists_after s (freed_lists ack rs) (fst ` set qs)" "pools_after F s qs xs ls s1"
     "kstate.truncate s1 = kstate.truncate s"
    using ack_loop_ok [OF assms(1) _ assms(5-7), of p "[]" False False] assms(3,4) by auto
  have task: "current_task s1 = None \<or> current_task s1 = Some (net_condition_tcb P)"
    using truncate_task [OF s1(4)] assms(2) by simp
  have update: "tcp_timeout_update P p (upd_port p f s1) = Some (upd_port p sus_after (upd_port p f s1))" for f
    by (rule timeout_update_calm) (use task in simp)
  have tick: "current_system_tick s1 = (current_tick s1, s1)"
    by (simp add: current_system_tick_def Let_def)
  have port: "rtx (tcp_ports s1 p) = map (rtx_after ack) rs" "\<And>q. q \<noteq> p \<Longrightarrow> tcp_ports s1 q = tcp_ports s q"
    using s1(1) by (simp_all add: with_rtx_other)
  consider (left) "rtx_ack_loop P p ack [0..<TCP_NUM_RTX] False False s = Some (?some, True, s1)" "?left"
    | (freed) "rtx_ack_loop P p ack [0..<TCP_NUM_RTX] False False s = Some (True, False, s1)" "\<not> ?left" "?some"
    | (none) "rtx_ack_loop P p ack [0..<TCP_NUM_RTX] False False s = Some (False, False, s1)" "\<not> ?left" "\<not> ?some"
    using loop by (cases ?left; cases ?some) simp_all
  then show ?thesis
  proof cases
    case left
    then show ?thesis unfolding tcp_rtx_process_ack_def using s1(2,3) port
      by (simp add: Let_def tick update)
  next
    case freed
    then show ?thesis unfolding tcp_rtx_process_ack_def using s1(2,3) port
      by (simp add: Let_def update)
  next
    case none
    then show ?thesis unfolding tcp_rtx_process_ack_def using s1(2,3) port
      by (simp add: Let_def)
  qed
qed

text \<open>
  Segments 0 and 1 are acknowledged, and the buffers of segment 1 (list 0) have come back. Segment 2 is
  not acknowledged.
\<close>

definition rtx_example :: tcpstate where
  "rtx_example = with_rtx 3
     (\<lparr>rtx_buffer = Some 5, rtx_seq_num = 0xFFFFFFF8, rtx_seg_len = 4, rtx_flags = TCP_RTX_IN_USE\<rparr> #
      \<lparr>rtx_buffer = Some 0, rtx_seq_num = 0xFFFFFFFC, rtx_seg_len = 8,
        rtx_flags = TCP_RTX_IN_USE OR TCP_RTX_BUFFER_RETURNED\<rparr> #
      \<lparr>rtx_buffer = Some 6, rtx_seq_num = 4, rtx_seg_len = 8, rtx_flags = TCP_RTX_IN_USE\<rparr> #
      replicate 13 \<lparr>rtx_buffer = None, rtx_seq_num = 0, rtx_seg_len = 0, rtx_flags = 0\<rparr>)
     ((tcp_example [7])\<lparr>current_task := None\<rparr>)"

lemma linked_task:
  "chain_holds l (s\<lparr>current_task := c\<rparr>) bs = chain_holds l s bs"
  "pool_holds f (s\<lparr>current_task := c\<rparr>) xs = pool_holds f s xs" for s :: tcpstate
  by (simp_all add: chain_holds_def chain_sll_def pool_holds_def fd_size_def list_bytes_def)

lemma rtx_example_pools:
  "pools_hold {0} rtx_example [(0, [10])] (\<lambda>_. [12, 13, 14, 15, 16, 17, 18, 19]) (\<lambda>_. [1, 2])"
proof -
  let ?e = "(tcp_example [7])\<lparr>current_task := None\<rparr>" and ?xs = "[12, 13, 14, 15, 16, 17, 18, 19]"
  have lk: "linked 0 (tcp_example [7]) [10] ?xs" by (rule tcp_example_linked) simp_all
  have "calm 0 ?e"
    using truncate_sel [OF tcp_example_sel(6) [of "[7]"]] ex_calm [of 0] by (simp add: calm_def lock_neutral_def)
  moreover have "list_of 0 ?e (0, [10])" "pool_holds 0 ?e ?xs"
    using lk by (simp_all add: linked_task list_of_def linked_def)
  moreover have "list_next (tcp_example [7]) = (\<lambda>l. if l = 1 then Some 2 else None)"
    by (simp add: tcp_example_def fsstate.defs tcpstate.defs kstate.defs)
  then have "lists_hold 0 ?e [1, 2]"
    by (simp add: lists_hold_def ex_fd_def tcp_data_def ex_data_def sll_holds_def)
  moreover have "bl_fd (blists ?e 0) = 0" by simp
  ultimately have "pools_hold {0} ?e [(0, [10])] (\<lambda>_. ?xs) (\<lambda>_. [1, 2])"
    by (simp add: pools_hold_def)
  then show ?thesis by (simp add: rtx_example_def with_rtx_def)
qed

theorem ack_frees_covered_witness:
  "\<exists>s'. tcp_rtx_process_ack tcp_platform 3 4 rtx_example = Some (True, s') \<and>
     map rtx_flags (take 3 (rtx (tcp_ports s' 3))) = [0, 0, TCP_RTX_IN_USE] \<and> rtx_timeout_enable (tcp_ports s' 3) \<and>
     pool_holds 0 s' [12, 13, 14, 15, 16, 17, 18, 19, 10] \<and> lists_hold 0 s' [1, 2, 0]"
proof -
  let ?rs = "rtx (tcp_ports rtx_example 3)" and ?xs = "[12, 13, 14, 15, 16, 17, 18, 19]"
  have rs: "?rs = \<lparr>rtx_buffer = Some 5, rtx_seq_num = 0xFFFFFFF8, rtx_seg_len = 4, rtx_flags = TCP_RTX_IN_USE\<rparr> #
      \<lparr>rtx_buffer = Some 0, rtx_seq_num = 0xFFFFFFFC, rtx_seg_len = 8,
        rtx_flags = TCP_RTX_IN_USE OR TCP_RTX_BUFFER_RETURNED\<rparr> #
      \<lparr>rtx_buffer = Some 6, rtx_seq_num = 4, rtx_seg_len = 8, rtx_flags = TCP_RTX_IN_USE\<rparr> #
      replicate 13 \<lparr>rtx_buffer = None, rtx_seq_num = 0, rtx_seg_len = 0, rtx_flags = 0\<rparr>"
    by (simp add: rtx_example_def)
  have task: "current_task rtx_example = None" by (simp add: rtx_example_def with_rtx_def)
  note defs = freed_by_def rtx_in_use_def covered_def TCP_RTX_IN_USE_def
    TCP_RTX_BUFFER_RETURNED_def rtx_after_def
  have len: "length ?rs = TCP_NUM_RTX" unfolding rs by (simp add: TCP_NUM_RTX_def)
  have some: "(\<exists>r \<in> set ?rs. freed_by 4 r) = True" and left: "\<exists>r \<in> set ?rs. rtx_in_use r \<and> \<not> covered 4 r"
    and lists: "r \<in> set ?rs \<Longrightarrow> freed_by 4 r \<Longrightarrow> rtx_buffer r \<noteq> None" for r
    unfolding rs by (auto simp: defs)
  have qs: "map rtx_buffer (given_back 4 ?rs) = map (\<lambda>q. Some (fst q)) [(0 :: lid, [10 :: bid])]"
    unfolding rs by (simp add: given_back_def defs)
  have pools: "pools_hold {0} rtx_example [(0, [10])] (\<lambda>_. ?xs) (\<lambda>_. [1, 2])" by (rule rtx_example_pools)
  have on: "lists_on rtx_example [(0, [10])] 0 = [(0, [10])]" by (simp add: lists_on_def rtx_example_def)
  obtain s' where s': "tcp_rtx_process_ack tcp_platform 3 4 rtx_example = Some (True, s')"
      "rtx (tcp_ports s' 3) = map (rtx_after 4) ?rs" "rtx_timeout_enable (tcp_ports s' 3)"
      "pools_after {0} rtx_example [(0, [10])] (\<lambda>_. ?xs) (\<lambda>_. [1, 2]) s'"
    using ack_frees_covered [OF tcp_platform_free_locks disjI1 [OF task] refl len lists qs pools] left
    unfolding some by blast
  show ?thesis using s'(1,3) pools_holdD(2,3) [OF s'(4), of 0] by (intro exI [of _ s']) (simp add: s'(2) rs defs on)
qed

end
