(* ===== verification/TcpRx.thy ===== *)
theory TcpRx
  imports TcpRtx
begin

text \<open>
  The data of a received segment (\<^verbatim>\<open>tcp_rx_buffer_merge\<close> of \<^verbatim>\<open>rtos/net/net_tcp.c\<close>): in order it is
  appended to the receive buffer of the port, out of order it is queued behind its number. The
  acknowledgment at the end is not modelled.
\<close>

section \<open>Definitions\<close>

definition NET_BUFFER_CONSUMED :: int where "NET_BUFFER_CONSUMED = - 1000"
definition TCP_FLAG_SEG_CONFLICT :: u8 where "TCP_FLAG_SEG_CONFLICT = 0x1"

record TCP_OO_PARAM =
  oo_seg_seq :: u32
  oo_seg_len :: u32
  oo_flags :: u8

text \<open>The number of a queued segment.\<close>

definition pull_number ::
    "'z tcp_platform \<Rightarrow> lid \<Rightarrow> 'z tcpstate_scheme \<Rightarrow> (u32 \<times> 'z tcpstate_scheme) option" where
  "pull_number P l s = do {
     (st, bs, s) \<leftarrow> fs_buffer_list_pull P l True 4 (FS_BUFFER_INPLACE OR FS_BUFFER_PACKED) s;
     ASSERT (st \<noteq> SUCCESS);
     IN_RANGE (length bs = 4);
     Some (word32 bs, s) }"

text \<open>The match function of the search: a parameter of \<open>None\<close> is that an assertion has stopped it.\<close>

definition tcp_oo_buffer_process ::
    "'z tcp_platform \<Rightarrow> 'z tcpstate_scheme \<Rightarrow> lid \<Rightarrow> TCP_OO_PARAM option \<Rightarrow> bool \<times> TCP_OO_PARAM option" where
  "tcp_oo_buffer_process P s node param =
     (case (pull_number P node s, param) of
        (Some (seg_seq, _), Some x) \<Rightarrow>
          if seg_seq > oo_seg_seq x
          then (True, Some (if oo_seg_seq x + oo_seg_len x \<ge> seg_seq
             then x\<lparr>oo_flags := oo_flags x OR TCP_FLAG_SEG_CONFLICT\<rparr> else x))
          else (False, Some x)
      | _ \<Rightarrow> (False, None))"

text \<open>The loop over the queued segments.\<close>

partial_function (option) merge_queued ::
    "'z tcp_platform \<Rightarrow> fd \<Rightarrow> lid option \<Rightarrow> 'z tcpstate_scheme \<Rightarrow> 'z tcpstate_scheme option" where
  "merge_queued P p buffer s =
     (case buffer of
        None \<Rightarrow> Some s
      | Some q \<Rightarrow> do {
          (seg_seq, s) \<leftarrow> pull_number P q s;
          (if rcv_nxt (tcp_ports s p) = seg_seq then do {
             (st, _, s) \<leftarrow> fs_buffer_list_pull P q False 4 0 s;
             ASSERT (st \<noteq> SUCCESS);
             let s = upd_port p (\<lambda>x. x\<lparr>rcv_nxt := seg_seq + bl_total_length (blists s q)\<rparr>) s;
             r \<leftarrow> rx_buffer (tcp_ports s p);
             (_, s) \<leftarrow> fs_buffer_list_move_data P r q 0 s;
             merge_queued P p (list_next s q) s }
           else Some s) })"

definition rx_in_order ::
    "'z tcp_platform \<Rightarrow> fd \<Rightarrow> lid \<Rightarrow> u16 \<Rightarrow> u32 \<Rightarrow> 'z tcpstate_scheme \<Rightarrow> (int \<times> 'z tcpstate_scheme) option" where
  "rx_in_order P p l seg_len seg_seq s = do {
     (st, s) \<leftarrow> (case rx_buffer (tcp_ports s p) of
        Some r \<Rightarrow> do {
          ASSERT (bl_fd (blists s r) \<noteq> bl_fd (blists s l));
          (_, s) \<leftarrow> fs_buffer_list_move_data P r l 0 s;
          Some (SUCCESS, s) }
      | None \<Rightarrow> Some (NET_BUFFER_CONSUMED, upd_port p (\<lambda>x. x\<lparr>rx_buffer := Some l\<rparr>) s));
     let s = upd_port p (\<lambda>x. x\<lparr>rcv_nxt := seg_seq + ucast seg_len\<rparr>) s;
     s \<leftarrow> merge_queued P p (head (oorx_list (tcp_ports s p))) s;
     s \<leftarrow> (if head (oorx_list (tcp_ports s p)) \<noteq> None then do {
        s \<leftarrow> fs_buffer_add_list_list P (head (oorx_list (tcp_ports s p))) FS_LIST_FREE (ucast FS_BUFFER_ACTIVE) s;
        Some (upd_port p (\<lambda>x. x\<lparr>oorx_list := \<lparr>head = None, tail = None\<rparr>\<rparr>) s) }
      else Some s);
     Some (st, upd_port p (\<lambda>x. x\<lparr>rcv_wnd := TCP_WND_SIZE\<rparr>) s) }"

definition rx_out_of_order ::
    "'z tcp_platform \<Rightarrow> fd \<Rightarrow> lid \<Rightarrow> u16 \<Rightarrow> u32 \<Rightarrow> 'z tcpstate_scheme \<Rightarrow> (int \<times> 'z tcpstate_scheme) option" where
  "rx_out_of_order P p l seg_len seg_seq s = do {
     ASSERT (case head (oorx_list (tcp_ports s p)) of
        Some h \<Rightarrow> bl_fd (blists s h) \<noteq> bl_fd (blists s l) | None \<Rightarrow> False);
     (_, prev_buffer, param) \<leftarrow> sll_search None (tcp_oo_buffer_process P s)
        (Some \<lparr>oo_seg_seq = seg_seq, oo_seg_len = ucast seg_len, oo_flags = 0\<rparr>)
        (list_next s, oorx_list (tcp_ports s p));
     x \<leftarrow> param;
     (if oo_flags x AND TCP_FLAG_SEG_CONFLICT = 0 then do {
        (st, s) \<leftarrow> fs_buffer_list_push P l (Some (bytes32 seg_seq)) 4 FS_BUFFER_PACKED s;
        (if st = SUCCESS then do {
           (nx, h) \<leftarrow> sll_add_node (Some l) prev_buffer (list_next s, oorx_list (tcp_ports s p));
           Some (NET_BUFFER_CONSUMED,
             upd_port p (\<lambda>x. x\<lparr>oorx_list := h, rcv_wnd := rcv_wnd x + ucast seg_len\<rparr>) (s\<lparr>list_next := nx\<rparr>)) }
         else Some (st, s)) }
      else Some (SUCCESS, s)) }"

definition tcp_rx_buffer_merge ::
    "'z tcp_platform \<Rightarrow> fd \<Rightarrow> lid \<Rightarrow> u16 \<Rightarrow> u32 \<Rightarrow> 'z tcpstate_scheme \<Rightarrow> (int \<times> 'z tcpstate_scheme) option" where
  "tcp_rx_buffer_merge P p l seg_len seg_seq s = do {
     let buffer_fd = bl_fd (blists s l);
     (st, s) \<leftarrow> fd_get_lock P buffer_fd s;
     ASSERT (st \<noteq> SUCCESS);
     (_, _, s) \<leftarrow> fs_buffer_list_pull P l False (bl_total_length (blists s l) - ucast seg_len) 0 s;
     let new_data = (seg_seq = rcv_nxt (tcp_ports s p));
     (st, s) \<leftarrow> (if new_data then rx_in_order P p l seg_len seg_seq s else rx_out_of_order P p l seg_len seg_seq s);
     s \<leftarrow> fd_release_lock P buffer_fd s;
     s \<leftarrow> (if (st = SUCCESS \<or> st = NET_BUFFER_CONSUMED) \<and> new_data
        then tcp_resume_socket P p FS_BLOCK_READ s else Some s);
     Some (st, s) }"

declare merge_queued.simps [code]

section \<open>Reading the number of a queued segment\<close>

text \<open>What the code takes for the number of a queued segment.\<close>

definition number_read :: "u8 list \<Rightarrow> u32" where
  "number_read bs = word32 (rev (take 4 bs))"

lemma pull_number_ok:
  assumes lk: "linked l s bs xs" and len: "4 \<le> length (list_bytes s bs)"
  shows "pull_number P l s = Some (number_read (list_bytes s bs), s)"
proof -
  have "bs \<noteq> []" using len by auto
  moreover have "(FS_BUFFER_INPLACE OR FS_BUFFER_PACKED) AND FS_BUFFER_INPLACE \<noteq> 0"
    "(FS_BUFFER_INPLACE OR FS_BUFFER_PACKED) AND FS_BUFFER_HEAD = 0"
    "(FS_BUFFER_INPLACE OR FS_BUFFER_PACKED) AND FS_BUFFER_TAIL = 0"
    "packed (FS_BUFFER_INPLACE OR FS_BUFFER_PACKED) ys = rev ys" for ys
    using packed_inplace by (simp_all add: or.commute)
  ultimately show ?thesis
    using list_peek [OF lk, of 4 0 "FS_BUFFER_INPLACE OR FS_BUFFER_PACKED" P True] len
    by (simp add: pull_number_def number_read_def)
qed

lemma linked_port_links [simp]:
  "linked l (s\<lparr>list_next := nx\<rparr>) bs xs = linked l s bs xs"
  "list_bytes (s\<lparr>list_next := nx\<rparr>) bs = list_bytes s bs"
  "linked l (upd_port p f (s\<lparr>list_next := nx\<rparr>)) bs xs = linked l s bs xs"
  "list_bytes (upd_port p f (s\<lparr>list_next := nx\<rparr>)) bs = list_bytes s bs"
  by (simp_all add: linked_def chain_holds_def pool_holds_def chain_sll_def fd_size_def list_bytes_def)

section \<open>Out of order\<close>

lemma seq_scan_stay:
  assumes "\<And>x. x \<in> set xs \<Longrightarrow> match x p = (False, p)"
  shows "seq_scan match p xs = (xs, [], p)"
  using assms by (induction xs) auto

text \<open>The segments \<open>ls\<close> are queued, and none has a greater number than \<open>seg_seq\<close>, as the code reads them.\<close>

definition queued_below :: "lid \<Rightarrow> u32 \<Rightarrow> 'z fsstate_scheme \<Rightarrow> bid list \<Rightarrow> bid list \<Rightarrow> lid list \<Rightarrow> bool" where
  "queued_below l seg_seq s bs xs ls \<longleftrightarrow>
     (\<forall>q \<in> set ls. \<exists>cs. two_lists l q s bs cs xs \<and> 4 \<le> length (list_bytes s cs) \<and>
        number_read (list_bytes s cs) \<le> seg_seq)"

lemma queued_below_step:
  assumes q: "queued_below l seg_seq s bs xs ls"
    and t: "touches (bl_fd (blists s l)) {l} (set bs \<union> set xs) s s'"
    and lk: "linked l s' bs' xs'" and same: "same_buffers bs xs bs' xs'"
  shows "queued_below l seg_seq s' bs' xs' ls"
  using q two_lists_step [OF _ t lk same] unfolding queued_below_def by fastforce

lemma oo_search_behind:
  assumes q: "queued_below l seg_seq s bs xs ls" and holds: "sll_holds (list_next s, oorx_list (tcp_ports s p)) ls"
  shows "sll_search None (tcp_oo_buffer_process P s) (Some \<lparr>oo_seg_seq = seg_seq, oo_seg_len = n, oo_flags = 0\<rparr>)
     (list_next s, oorx_list (tcp_ports s p)) = Some (None, None, Some \<lparr>oo_seg_seq = seg_seq, oo_seg_len = n, oo_flags = 0\<rparr>)"
proof -
  let ?x = "Some \<lparr>oo_seg_seq = seg_seq, oo_seg_len = n, oo_flags = 0\<rparr>"
  have "tcp_oo_buffer_process P s k ?x = (False, ?x)" if k: "k \<in> set ls" for k
  proof -
    obtain cs where cs: "two_lists l k s bs cs xs" "4 \<le> length (list_bytes s cs)"
        "number_read (list_bytes s cs) \<le> seg_seq"
      using q k by (auto simp: queued_below_def)
    show ?thesis using pull_number_ok [OF two_listsD(2) [OF cs(1)] cs(2), of P] cs(3)
      by (simp add: tcp_oo_buffer_process_def not_less)
  qed
  then have "seq_scan (tcp_oo_buffer_process P s) ?x ls = (ls, [], ?x)" by (rule seq_scan_stay)
  from sll_search_holds [OF holds this, of None] show ?thesis by simp
qed

lemma oo_behind:
  assumes lk: "linked l s bs xs" and rd: "ready (bl_fd (blists s l)) s" and ls: "queued_below l seg_seq s bs xs ls"
    and holds: "sll_holds (list_next s, oorx_list (tcp_ports s p)) ls" and l: "l \<notin> set ls"
    and sz: "length (list_bytes s bs) + 4 < 2 ^ 32" and room: "4 \<le> length xs"
  shows "\<exists>s' bs' xs'. rx_out_of_order P p l seg_len seg_seq s = Some (NET_BUFFER_CONSUMED, s') \<and>
     linked l s' bs' xs' \<and> list_bytes s' bs' = list_bytes s bs @ rev (bytes32 seg_seq) \<and>
     sll_holds (list_next s', oorx_list (tcp_ports s' p)) (l # ls)"
proof -
  have fl: "FS_BUFFER_PACKED AND FS_BUFFER_UPDATE = 0" "FS_BUFFER_PACKED AND FS_BUFFER_SUSPEND = 0"
    "FS_BUFFER_PACKED AND FS_BUFFER_HEAD = 0" "FS_BUFFER_PACKED AND FS_BUFFER_TH = 0"
    "packed FS_BUFFER_PACKED ys = rev ys" for ys
    by (simp_all add: packed_def FS_BUFFER_PACKED_def FS_BUFFER_UPDATE_def FS_BUFFER_INPLACE_def
        FS_BUFFER_SUSPEND_def FS_BUFFER_HEAD_def FS_BUFFER_TH_def)
  have "length (bytes32 seg_seq) = unat (4 :: u32)" by simp
  from list_push_cases [OF lk rd fl(1,2) this, of P] sz room
  obtain s1 bs1 xs1 where s1: "fs_buffer_list_push P l (Some (bytes32 seg_seq)) 4 FS_BUFFER_PACKED s = Some (SUCCESS, s1)"
     "linked l s1 bs1 xs1" "touches (bl_fd (blists s l)) {l} (set bs \<union> set xs) s s1"
     "list_bytes s1 bs1 = list_bytes s bs @ rev (bytes32 seg_seq)"
    by (auto simp: held_back_def fl at_end_def)
  have same: "list_next s1 = list_next s" "tcp_ports s1 = tcp_ports s"
    using touchesD(5) [OF s1(3)] touches_ports [OF s1(3)] by simp_all
  have "sll_holds (list_next s1, oorx_list (tcp_ports s1 p)) ([] @ ls)" using holds same by simp
  from sll_add_node_holds [OF this, of l] l
  obtain q where q: "sll_add_node (Some l) None (list_next s1, oorx_list (tcp_ports s1 p)) = Some q"
     "sll_holds q (l # ls)" by auto
  have "(case head (oorx_list (tcp_ports s p)) of Some h \<Rightarrow> bl_fd (blists s h) \<noteq> bl_fd (blists s l) | None \<Rightarrow> False) = False"
  proof (cases ls)
    case Nil
    then show ?thesis using holds by (simp add: sll_holds_def)
  next
    case (Cons h hs)
    then have "head (oorx_list (tcp_ports s p)) = Some h" using holds by (simp add: sll_holds_def)
    then show ?thesis using ls Cons two_listsD(3) by (fastforce simp: queued_below_def)
  qed
  moreover define s' where "s' = upd_port p (\<lambda>x. x\<lparr>oorx_list := snd q, rcv_wnd := rcv_wnd x + ucast seg_len\<rparr>)
      (s1\<lparr>list_next := fst q\<rparr>)"
  ultimately have "rx_out_of_order P p l seg_len seg_seq s = Some (NET_BUFFER_CONSUMED, s')"
    using oo_search_behind [OF ls holds, of P "ucast seg_len"] s1(1) q(1)
    by (simp add: rx_out_of_order_def split_beta)
  moreover have "linked l s' bs1 xs1" "list_bytes s' bs1 = list_bytes s bs @ rev (bytes32 seg_seq)"
    "sll_holds (list_next s', oorx_list (tcp_ports s' p)) (l # ls)"
    using s1 q(2) by (simp_all add: s'_def)
  ultimately show ?thesis by blast
qed

section \<open>An example\<close>

text \<open>The bytes \<open>v\<close> on list 0 and \<open>w\<close> on list 4, and every port is \<open>x\<close>.\<close>

definition rx_state :: "u8 list \<Rightarrow> u8 list \<Rightarrow> TCP_PORT \<Rightarrow> tcpstate" where
  "rx_state v w x = (tcp_example v)
     \<lparr>bufs := (bufs (tcp_example v))(11 := tcp_buffer w),
      blists := (blists (tcp_example v))(4 := ex_list \<lparr>head = Some 11, tail = Some 11\<rparr> (of_nat (length w))),
      tcp_ports := \<lambda>_. x\<rparr>"

lemma rx_state_sel [simp]:
  "fds (rx_state v w x) = (\<lambda>_. ex_fd\<lparr>fs_buffer := Some tcp_data\<rparr>)"
  "bufs (rx_state v w x) b = (if b = 11 then tcp_buffer w else if b = 10 then tcp_buffer v else tcp_buffer [])"
  "buf_next (rx_state v w x) = (\<lambda>b. if 12 \<le> b \<and> b < 19 then Some (b + 1) else None)"
  "blists (rx_state v w x) l = (if l = 4 then ex_list \<lparr>head = Some 11, tail = Some 11\<rparr> (of_nat (length w))
     else blists (tcp_example v) l)"
  "tcp_ports (rx_state v w x) = (\<lambda>_. x)"
  "list_next (rx_state v w x) = (\<lambda>l. if l = 1 then Some 2 else None)"
  "kstate.truncate (rx_state v w x) = kstate.truncate ex_state"
  by (simp_all add: rx_state_def tcp_example_def fsstate.defs tcpstate.defs kstate.defs)

lemma rx_state_two:
  assumes "v \<noteq> []" "w \<noteq> []" and "length v \<le> 64" "length w \<le> 64"
  shows "two_lists 0 4 (rx_state v w x) [10] [11] [12, 13, 14, 15, 16, 17, 18, 19]"
    and "list_bytes (rx_state v w x) [10] = v" "list_bytes (rx_state v w x) [11] = w"
    and "ready f (rx_state v w x)" "calm f (rx_state v w x)"
proof -
  let ?s = "rx_state v w x" and ?xs = "[12, 13, 14, 15, 16, 17, 18, 19] :: bid list"
  have u: "unat (of_nat (length y) :: u32) = length y" "(of_nat (length y) :: u32) \<noteq> 0"
      "filled 64 (tcp_buffer y)" "buffer_bytes (tcp_buffer y) = y"
    if y: "y \<noteq> []" "length y \<le> 64" for y
  proof -
    show u: "unat (of_nat (length y) :: u32) = length y" using y(2) by (simp add: unat_of_nat)
    then show nz: "(of_nat (length y) :: u32) \<noteq> 0" using y(1) by (metis length_0_conv unat_0)
    show "filled 64 (tcp_buffer y)" using y u nz
      by (simp add: filled_def buffer_ok_def tcp_buffer_def word_less_nat_alt word_le_nat_alt)
    show "buffer_bytes (tcp_buffer y) = y" using u by (simp add: tcp_buffer_def buffer_bytes_def)
  qed
  note v = u [OF assms(1,3)] and w = u [OF assms(2,4)]
  show bytes: "list_bytes ?s [10] = v" "list_bytes ?s [11] = w" using v(4) w(4) by (simp_all add: list_bytes_def)
  have "fresh 64 (tcp_buffer [])" by (simp add: fresh_def sized_def tcp_buffer_def)
  then have pool: "pool_holds 0 ?s ?xs"
    by (simp add: pool_holds_def ex_fd_def tcp_data_def ex_data_def sll_holds_def)
  have size: "fd_size 0 ?s = 64" by (simp add: fd_size_def ex_fd_def tcp_data_def)
  have "chain_holds 0 ?s [10]" "chain_holds 4 ?s [11]"
    using v w bytes size by (simp_all add: chain_holds_def sll_holds_def chain_sll_def)
  then show "two_lists 0 4 ?s [10] [11] ?xs"
    using pool by (simp add: two_lists_def linked_def)
  show calm: "calm f ?s" for f using calm_cong [OF rx_state_sel(7), of f] ex_calm [of f] by simp
  show "ready f ?s" using calm by (simp add: ready_def ex_fd_def tcp_data_def ex_data_def)
qed

text \<open>Cutting the headers off.\<close>

lemma trim_ok:
  assumes lk: "linked l s bs xs" and rd: "ready (bl_fd (blists s l)) s"
    and n: "unat seg_len \<le> length (list_bytes s bs)"
  shows "\<exists>s' bs' xs'. fs_buffer_list_pull P l False (bl_total_length (blists s l) - ucast (seg_len :: u16)) 0 s =
       Some (SUCCESS, [], s') \<and>
     linked l s' bs' xs' \<and> touches (bl_fd (blists s l)) {l} (set bs \<union> set xs) s s' \<and>
     same_buffers bs xs bs' xs' \<and> length xs \<le> length xs' \<and>
     list_bytes s' bs' = drop (length (list_bytes s bs) - unat seg_len) (list_bytes s bs)"
proof -
  let ?n = "bl_total_length (blists s l) - ucast seg_len"
  have "ucast seg_len \<le> bl_total_length (blists s l)"
    using n linkedD(6) [OF lk] by (simp add: word_le_nat_alt)
  then have u: "unat ?n = length (list_bytes s bs) - unat seg_len"
    using linkedD(6) [OF lk] by (simp add: unat_sub)
  then have "unat ?n \<le> length (list_bytes s bs)" by simp
  from list_pull_cases [OF lk rd this, of 0 P False] show ?thesis unfolding u by fastforce
qed

text \<open>
  C31. A segment out of order whose number is not less than those of the queued ones, as the code reads
  them, goes to the head of the queue, not to its end, and its number is put behind its data, where the
  code reads the first four bytes as the number.
\<close>

theorem out_of_order_misplaced:
  assumes "free_locks P" and "linked l s bs xs" and "ready (bl_fd (blists s l)) s"
    and "unat seg_len \<le> length (list_bytes s bs)" and "4 \<le> unat seg_len" and "4 \<le> length xs"
    and "seg_seq \<noteq> rcv_nxt (tcp_ports s p)"
    and "sll_holds (list_next s, oorx_list (tcp_ports s p)) ls" and "l \<notin> set ls"
    and "queued_below l seg_seq s bs xs ls"
    and "payload = drop (length (list_bytes s bs) - unat seg_len) (list_bytes s bs)"
  shows "\<exists>s' bs' xs'. tcp_rx_buffer_merge P p l seg_len seg_seq s = Some (NET_BUFFER_CONSUMED, s') \<and>
     sll_holds (list_next s', oorx_list (tcp_ports s' p)) (l # ls) \<and>
     linked l s' bs' xs' \<and> list_bytes s' bs' = payload @ rev (bytes32 seg_seq) \<and>
     pull_number P l s' = Some (number_read payload, s')"
proof -
  obtain s1 bs1 xs1 where s1: "fs_buffer_list_pull P l False (bl_total_length (blists s l) - ucast seg_len) 0 s =
       Some (SUCCESS, [], s1)" "linked l s1 bs1 xs1" "touches (bl_fd (blists s l)) {l} (set bs \<union> set xs) s s1"
     "same_buffers bs xs bs1 xs1" "length xs \<le> length xs1" "list_bytes s1 bs1 = payload"
    using trim_ok [OF assms(2,3,4), of P] unfolding assms(11) [symmetric] by blast
  have len: "length payload = unat seg_len" using assms(4,11) by simp
  then have small: "length (list_bytes s1 bs1) + 4 < 2 ^ 32"
    using s1(6) unsigned_less [of seg_len, where 'a = nat] by simp
  have rd1: "ready (bl_fd (blists s1 l)) s1" using touches_ready [OF s1(3) assms(3)] touches_fd [OF s1(3)] by simp
  have ports: "tcp_ports s1 = tcp_ports s" using touches_ports [OF s1(3)] .
  have holds: "sll_holds (list_next s1, oorx_list (tcp_ports s1 p)) ls"
    using assms(8) touchesD(5) [OF s1(3)] ports by simp
  have room: "4 \<le> length xs1" using assms(6) s1(5) by simp
  obtain s2 bs2 xs2 where s2: "rx_out_of_order P p l seg_len seg_seq s1 = Some (NET_BUFFER_CONSUMED, s2)"
     "linked l s2 bs2 xs2" "list_bytes s2 bs2 = payload @ rev (bytes32 seg_seq)"
     "sll_holds (list_next s2, oorx_list (tcp_ports s2 p)) (l # ls)"
    using oo_behind [OF s1(2) rd1 queued_below_step [OF assms(10) s1(3,2,4)] holds assms(9) small room, of P seg_len]
    unfolding s1(6) by blast
  have "number_read (list_bytes s2 bs2) = number_read payload"
    using len assms(5) by (simp add: number_read_def s2(3))
  then have "pull_number P l s2 = Some (number_read payload, s2)"
    using pull_number_ok [OF s2(2), of P] len assms(5) by (simp add: s2(3))
  moreover have "tcp_rx_buffer_merge P p l seg_len seg_seq s = Some (NET_BUFFER_CONSUMED, s2)"
    using assms(1,7) s1(1) s2(1) ports by (simp add: tcp_rx_buffer_merge_def free_locks_def)
  ultimately show ?thesis using s2 by blast
qed

theorem out_of_order_misplaced_witness:
  "\<exists>s' bs' xs'. tcp_rx_buffer_merge tcp_platform 3 0 5 500 (rx_state ([0, 0, 10, 20, 30, 40, 50]) [0, 0, 0, 1, 7]
       (tcp_example_port\<lparr>oorx_list := \<lparr>head = Some 4, tail = Some 4\<rparr>\<rparr>)) = Some (NET_BUFFER_CONSUMED, s') \<and>
     sll_holds (list_next s', oorx_list (tcp_ports s' 3)) [0, 4] \<and>
     linked 0 s' bs' xs' \<and> list_bytes s' bs' = [10, 20, 30, 40, 50, 0, 0, 1, 0xF4] \<and>
     pull_number tcp_platform 0 s' = Some (0x0A141E28, s')"
proof -
  let ?v = "[0, 0, 10, 20, 30, 40, 50] :: u8 list" and ?w = "[0, 0, 0, 1, 7] :: u8 list"
  let ?s = "rx_state ?v ?w (tcp_example_port\<lparr>oorx_list := \<lparr>head = Some 4, tail = Some 4\<rparr>\<rparr>)"
  have two: "two_lists 0 4 ?s [10] [11] [12, 13, 14, 15, 16, 17, 18, 19]" and bytes: "list_bytes ?s [10] = ?v"
      "list_bytes ?s [11] = ?w" and rd: "ready (bl_fd (blists ?s 0)) ?s"
    by (rule rx_state_two; simp)+
  have n: "number_read ?w = 1" "number_read [10, 20, 30, 40, 50] = 0x0A141E28" "rev (bytes32 500) = [0, 0, 1, 0xF4]"
    by (simp_all add: number_read_def word32_def bytes32_def upt_rec push_bit_eq_mult drop_bit_eq_div)
  have "queued_below 0 500 ?s [10] [12, 13, 14, 15, 16, 17, 18, 19] [4]"
    unfolding queued_below_def using two bytes(2) n(1) by (auto intro!: exI [of _ "[11]"])
  moreover have "sll_holds (list_next ?s, oorx_list (tcp_ports ?s 3)) [4]" by (simp add: sll_holds_def)
  moreover have "[10, 20, 30, 40, 50] = drop (length (list_bytes ?s [10]) - unat (5 :: u16)) (list_bytes ?s [10])"
    unfolding bytes by simp
  ultimately show ?thesis
    using out_of_order_misplaced [OF tcp_platform_free_locks two_listsD(1) [OF two] rd, of 5 500 3 "[4]" "[10, 20, 30, 40, 50]"]
    unfolding n bytes by (simp add: tcp_example_port_def)
qed

section \<open>In order\<close>

lemma linked_flags [simp]: "linked l (set_flags f fl s) bs xs = linked l s bs xs"
  by (simp add: linked_def chain_holds_def pool_holds_def chain_sll_def fd_size_def list_bytes_def
      set_flags_def upd_fd_def)

lemma lists_hold_flags [simp]: "lists_hold f (set_flags g fl s) ls = lists_hold f s ls"
  by (simp add: lists_hold_def set_flags_def upd_fd_def)

lemma lists_hold_port [simp]: "lists_hold f (upd_port p g s) ls = lists_hold f s ls"
  by (simp add: lists_hold_def)

lemma many_port [simp]: "many_lists f (upd_port p g s) qs xs = many_lists f s qs xs"
  by (simp add: many_lists_def list_of_def chain_holds_def pool_holds_def chain_sll_def fd_size_def list_bytes_def)

lemma set_flags_port:
  "tcp_ports (set_flags f fl s) = tcp_ports s" "list_bytes (set_flags f fl s) bs = list_bytes s bs"
  for s :: "'z tcpstate_scheme"
  using same_ports [of "set_flags f fl s" s] by (simp_all add: list_bytes_def)

lemma data_available_set: "FS_DATA_AVAILABLE \<noteq> 0"
  by (simp add: FS_DATA_AVAILABLE_def)

text \<open>
  What the queued segments \<open>vs\<close>, each behind its number, add behind the octet before \<open>nxt\<close>: the number
  expected next and the data. They follow each other up to the first gap.
\<close>

fun merged :: "u32 \<Rightarrow> u8 list list \<Rightarrow> u32 \<times> u8 list" where
  "merged nxt [] = (nxt, [])"
| "merged nxt (v # vs) =
     (if number_read v = nxt
      then (let (n, w) = merged (nxt + of_nat (length v - 4)) vs in (n, drop 4 v @ w))
      else (nxt, []))"

abbreviation bytes_of :: "'z fsstate_scheme \<Rightarrow> (lid \<times> bid list) list \<Rightarrow> u8 list list" where
  "bytes_of s qs \<equiv> map (\<lambda>q. list_bytes s (snd q)) qs"

text \<open>One segment of the queue is merged, when its number is the one expected.\<close>

lemma merge_round:
  assumes m: "many_lists f s ((q, cs) # (r, bs) # qs) xs" and rd: "ready f s" and ne: "bs \<noteq> []"
    and len: "4 < length (list_bytes s cs)"
    and sz: "length (list_bytes s bs) + length (list_bytes s cs) < 2 ^ 32"
    and port: "rx_buffer (tcp_ports s p) = Some r" "rcv_nxt (tcp_ports s p) = number_read (list_bytes s cs)"
  shows "\<exists>s' cs' xs'. merge_queued P p (Some q) s = merge_queued P p (list_next s q) s' \<and> bs @ cs' \<noteq> [] \<and>
     many_lists f s' ((r, bs @ cs') # (q, []) # qs) xs' \<and> set cs' \<union> set xs' = set cs \<union> set xs \<and>
     list_bytes s' (bs @ cs') = list_bytes s bs @ drop 4 (list_bytes s cs) \<and>
     (\<forall>k \<in> set qs. list_bytes s' (snd k) = list_bytes s (snd k)) \<and>
     (\<forall>m. bl_free (blists s' m) = bl_free (blists s m)) \<and> (\<forall>ls. lists_hold f s ls \<longrightarrow> lists_hold f s' ls) \<and>
     list_next s' = list_next s \<and> kstate.truncate s' = kstate.truncate s \<and> ready f s' \<and>
     tcp_ports s' = (tcp_ports s)(p := (tcp_ports s p)
       \<lparr>rcv_nxt := rcv_nxt (tcp_ports s p) + of_nat (length (list_bytes s cs) - 4)\<rparr>)"
proof -
  have q: "linked q s cs xs" "bl_fd (blists s q) = f" using many_linked [OF m, of q cs] by simp_all
  have num: "pull_number P q s = Some (number_read (list_bytes s cs), s)"
    using pull_number_ok [OF q(1)] len by simp
  have n4: "unat (4 :: u32) \<le> length (list_bytes s cs)" using len by simp
  obtain s1 cs1 xs1 where s1: "fs_buffer_list_pull P q False 4 0 s = Some (SUCCESS, [], s1)"
     "linked q s1 cs1 xs1" "touches f {q} (set cs \<union> set xs) s s1" "same_buffers cs xs cs1 xs1"
     "list_bytes s1 cs1 = drop 4 (list_bytes s cs)"
    using list_pull_cases [OF q(1) _ n4, of 0 P False] rd q(2) by auto
  have m1: "many_lists f s1 ((q, cs1) # (r, bs) # qs) xs1" and keep: "k \<in> set ((r, bs) # qs) \<Longrightarrow>
      list_bytes s1 (snd k) = list_bytes s (snd k)" for k
    using many_step [OF m s1(3,2,4)] by blast+
  have ports: "tcp_ports s1 = tcp_ports s" using touches_ports [OF s1(3)] .
  define nx where "nx = number_read (list_bytes s cs) + bl_total_length (blists s1 q)"
  let ?s2 = "upd_port p (\<lambda>x. x\<lparr>rcv_nxt := nx\<rparr>) s1"
  have total: "nx = rcv_nxt (tcp_ports s p) + of_nat (length (list_bytes s cs) - 4)"
  proof -
    have "bl_total_length (blists s1 q) = of_nat (unat (bl_total_length (blists s1 q)))" by simp
    then show ?thesis unfolding nx_def linkedD(6) [OF s1(2)] s1(5) using port(2) by simp
  qed
  have m2: "many_lists f ?s2 ((r, bs) # (q, cs1) # qs) xs1"
    using many_permI [OF m1, of "(r, bs) # (q, cs1) # qs"] by simp
  have bytes: "list_bytes s1 bs = list_bytes s bs" using keep [of "(r, bs)"] by simp
  have ne1: "cs1 \<noteq> []" using s1(5) len by auto
  have sz2: "length (list_bytes ?s2 bs) + length (list_bytes ?s2 cs1) < 2 ^ 32" using sz by (simp add: s1(5) bytes)
  obtain s3 where s3: "fs_buffer_list_move_data P r q 0 ?s2 = Some (SUCCESS, s3)"
     "many_lists f s3 ((r, bs @ cs1) # (q, []) # qs) xs1" "\<forall>as. list_bytes s3 as = list_bytes ?s2 as"
     "kstate.truncate s3 = kstate.truncate ?s2" "fsstate.more s3 = fsstate.more ?s2" "fds s3 = fds ?s2"
     "list_next s3 = list_next ?s2" "\<forall>m. bl_free (blists s3 m) = bl_free (blists ?s2 m)"
    using move_data_many [OF m2 ne ne1 sz2, of P] by blast
  have "merge_queued P p (Some q) s = merge_queued P p (list_next s3 q) s3"
    by (subst merge_queued.simps)
      (simp add: num port s1(1) Let_def ports s3(1) del: upd_port_sel, simp add: nx_def [symmetric] ports port s3(1))
  moreover have "list_next s3 = list_next s" "kstate.truncate s3 = kstate.truncate s"
    using s3(4,7) touchesD(5,6) [OF s1(3)] by simp_all
  moreover have "tcp_ports s3 = (tcp_ports s)(p := (tcp_ports s p)\<lparr>rcv_nxt := nx\<rparr>)"
    using same_ports [OF s3(5)] ports by simp
  moreover have "ready f s3"
  proof -
    have "ready f ?s2" using touches_ready [OF s1(3) rd] by simp
    moreover have "fd_sizes f s3 = fd_sizes f ?s2" using s3(6) by (simp add: fd_sizes_def)
    ultimately show ?thesis using ready_cong [OF s3(4)] by simp
  qed
  moreover have "bl_free (blists s3 m) = bl_free (blists s m)" for m
    using s3(8) touches_free [OF s1(3)] by simp
  moreover have "list_bytes s3 (bs @ cs1) = list_bytes s bs @ drop 4 (list_bytes s cs)"
    using s3(3) s1(5) bytes by (simp add: list_bytes_def)
  moreover have "lists_hold f s3 ls" if "lists_hold f s ls" for ls
    using touches_lists_hold [OF s1(3) that] s3(6,7) by (simp add: lists_hold_def)
  ultimately show ?thesis
    using s3(2,3) s1(4) keep ne unfolding total same_buffers_def
    by (intro exI [of _ s3] exI [of _ cs1] exI [of _ xs1]) simp
qed

text \<open>The whole loop; the lists it has passed (\<open>os\<close>) stay.\<close>

lemma merge_all:
  assumes "many_lists f s ((r, bs) # qs @ os) xs" and "ready f s" and "bs \<noteq> []"
    and "\<And>q. q \<in> set qs \<Longrightarrow> 4 < length (list_bytes s (snd q))"
    and "length (list_bytes s bs) + length (concat (bytes_of s qs)) < 2 ^ 32"
    and "rx_buffer (tcp_ports s p) = Some r" and "lseg (list_next s) h (map fst qs) None"
  shows "\<exists>s' bs' qs' xs'. merge_queued P p h s = Some s' \<and> map fst qs' = map fst qs \<and>
     many_lists f s' ((r, bs') # qs' @ os) xs' \<and>
     list_bytes s' bs' = list_bytes s bs @ snd (merged (rcv_nxt (tcp_ports s p)) (bytes_of s qs)) \<and>
     set bs' \<union> set (buffers_of qs') \<union> set xs' = set bs \<union> set (buffers_of qs) \<union> set xs \<and>
     (\<forall>m. bl_free (blists s' m) = bl_free (blists s m)) \<and> (\<forall>ls. lists_hold f s ls \<longrightarrow> lists_hold f s' ls) \<and>
     list_next s' = list_next s \<and> kstate.truncate s' = kstate.truncate s \<and> ready f s' \<and>
     tcp_ports s' = (tcp_ports s)(p := (tcp_ports s p)
       \<lparr>rcv_nxt := fst (merged (rcv_nxt (tcp_ports s p)) (bytes_of s qs))\<rparr>)"
  using assms
proof (induction qs arbitrary: s bs os xs h)
  case Nil
  then show ?case
    by (subst merge_queued.simps) (force intro: exI [of _ "[]"])
next
  case (Cons k qs)
  obtain q cs where k: "k = (q, cs)" by (cases k)
  have h: "h = Some q" "lseg (list_next s) (list_next s q) (map fst qs) None" using Cons.prems(7) by (simp_all add: k)
  let ?nxt = "rcv_nxt (tcp_ports s p)" and ?v = "list_bytes s cs"
  have m: "many_lists f s ((q, cs) # (r, bs) # qs @ os) xs"
    by (rule many_permI [OF Cons.prems(1)]) (simp add: k)
  have len: "4 < length ?v" using Cons.prems(4) [of k] by (simp add: k)
  show ?case
  proof (cases "number_read ?v = ?nxt")
    case False
    have "pull_number P q s = Some (number_read ?v, s)"
      using pull_number_ok [OF many_linked(1) [OF m, of q cs]] len by simp
    then have "merge_queued P p h s = Some s"
      by (subst merge_queued.simps) (use False in \<open>simp add: h\<close>)
    then show ?thesis using Cons.prems(1,2) False
      by (intro exI [of _ s] exI [of _ bs] exI [of _ "k # qs"] exI [of _ xs]) (simp add: k)
  next
    case True
    have sz: "length (list_bytes s bs) + length ?v < 2 ^ 32" using Cons.prems(5) by (simp add: k)
    obtain s1 cs1 xs1 where s1: "merge_queued P p (Some q) s = merge_queued P p (list_next s q) s1"
        "bs @ cs1 \<noteq> []" "many_lists f s1 ((r, bs @ cs1) # (q, []) # qs @ os) xs1" "set cs1 \<union> set xs1 = set cs \<union> set xs"
        "list_bytes s1 (bs @ cs1) = list_bytes s bs @ drop 4 ?v"
        "\<forall>k \<in> set (qs @ os). list_bytes s1 (snd k) = list_bytes s (snd k)"
        "\<forall>m. bl_free (blists s1 m) = bl_free (blists s m)" "\<forall>ls. lists_hold f s ls \<longrightarrow> lists_hold f s1 ls"
        "list_next s1 = list_next s" "kstate.truncate s1 = kstate.truncate s" "ready f s1"
        "tcp_ports s1 = (tcp_ports s)(p := (tcp_ports s p)\<lparr>rcv_nxt := ?nxt + of_nat (length ?v - 4)\<rparr>)"
      using merge_round [OF m Cons.prems(2,3) len sz Cons.prems(6) True [symmetric], of P] by blast
    have same: "bytes_of s1 qs = bytes_of s qs" using s1(6) by simp
    have m1: "many_lists f s1 ((r, bs @ cs1) # qs @ (q, []) # os) xs1"
      by (rule many_permI [OF s1(3)]) simp
    have sz1: "length (list_bytes s1 (bs @ cs1)) + length (concat (bytes_of s1 qs)) < 2 ^ 32"
      using Cons.prems(5) unfolding s1(5) same by (simp add: k)
    have more: "4 < length (list_bytes s1 (snd j))" if "j \<in> set qs" for j
      using Cons.prems(4) [of j] s1(6) that by simp
    have port1: "rx_buffer (tcp_ports s1 p) = Some r" using Cons.prems(6) s1(12) by simp
    have seg1: "lseg (list_next s1) (list_next s q) (map fst qs) None" using h(2) s1(9) by simp
    let ?m = "merged (?nxt + of_nat (length ?v - 4)) (bytes_of s qs)"
    have next1: "merged (rcv_nxt (tcp_ports s1 p)) (bytes_of s1 qs) = ?m" unfolding same by (simp add: s1(12))
    obtain s' bs' qs' xs' where s': "merge_queued P p (list_next s q) s1 = Some s'" "map fst qs' = map fst qs"
        "many_lists f s' ((r, bs') # qs' @ (q, []) # os) xs'"
        "list_bytes s' bs' = list_bytes s1 (bs @ cs1) @ snd ?m"
        "set bs' \<union> set (buffers_of qs') \<union> set xs' = set (bs @ cs1) \<union> set (buffers_of qs) \<union> set xs1"
        "\<forall>m. bl_free (blists s' m) = bl_free (blists s1 m)" "\<forall>ls. lists_hold f s1 ls \<longrightarrow> lists_hold f s' ls"
        "list_next s' = list_next s1" "kstate.truncate s' = kstate.truncate s1" "ready f s'"
        "tcp_ports s' = (tcp_ports s1)(p := (tcp_ports s1 p)\<lparr>rcv_nxt := fst ?m\<rparr>)"
      using Cons.IH [OF m1 s1(11,2) more sz1 port1 seg1] unfolding next1 by blast
    have "many_lists f s' ((r, bs') # ((q, []) # qs') @ os) xs'"
      by (rule many_permI [OF s'(3)]) simp
    moreover have "merged ?nxt (bytes_of s (k # qs)) = (fst ?m, drop 4 ?v @ snd ?m)"
      using True by (simp add: k split_beta)
    moreover have "set bs' \<union> set (buffers_of ((q, []) # qs')) \<union> set xs' = set bs \<union> set (buffers_of (k # qs)) \<union> set xs"
      using s'(5) s1(4) by (auto simp: k)
    ultimately show ?thesis
      using s' s1 by (intro exI [of _ s'] exI [of _ bs'] exI [of _ "(q, []) # qs'"] exI [of _ xs']) (simp add: h(1) k)
  qed
qed

text \<open>
  The receive buffer: the one the port has, with the buffers \<open>bs\<close>, or the list of the segment itself.
  In the first case that list is empty afterwards.
\<close>

definition receive_list :: "TCP_PORT \<Rightarrow> bid list \<Rightarrow> (lid \<times> bid list) list" where
  "receive_list x bs = (case rx_buffer x of None \<Rightarrow> [] | Some r \<Rightarrow> [(r, bs)])"

definition receiver :: "TCP_PORT \<Rightarrow> lid \<Rightarrow> lid" where
  "receiver x l = (case rx_buffer x of None \<Rightarrow> l | Some r \<Rightarrow> r)"

definition emptied :: "TCP_PORT \<Rightarrow> lid \<Rightarrow> (lid \<times> bid list) list" where
  "emptied x l = (if rx_buffer x = None then [] else [(l, [])])"

definition taken :: "TCP_PORT \<Rightarrow> int" where
  "taken x = (if rx_buffer x = None then NET_BUFFER_CONSUMED else SUCCESS)"

lemma rx_take_ok:
  assumes m: "many_lists f s ((l, cs) # receive_list (tcp_ports s p) bs @ qs) xs" and rd: "ready f s"
    and ne: "cs \<noteq> []" "bs = [] \<longleftrightarrow> rx_buffer (tcp_ports s p) = None"
    and sz: "length (list_bytes s bs) + length (list_bytes s cs) < 2 ^ 32"
  shows "\<exists>s'. (case rx_buffer (tcp_ports s p) of
        Some r \<Rightarrow> do {
          ASSERT (bl_fd (blists s r) \<noteq> bl_fd (blists s l));
          (_, s) \<leftarrow> fs_buffer_list_move_data P r l 0 s;
          Some (SUCCESS, s) }
      | None \<Rightarrow> Some (NET_BUFFER_CONSUMED, upd_port p (\<lambda>x. x\<lparr>rx_buffer := Some l\<rparr>) s)) =
       Some (taken (tcp_ports s p), s') \<and>
     many_lists f s' ((receiver (tcp_ports s p) l, bs @ cs) # qs @ emptied (tcp_ports s p) l) xs \<and>
     (\<forall>as. list_bytes s' as = list_bytes s as) \<and> (\<forall>m. bl_free (blists s' m) = bl_free (blists s m)) \<and>
     (\<forall>ls. lists_hold f s ls \<longrightarrow> lists_hold f s' ls) \<and>
     list_next s' = list_next s \<and> kstate.truncate s' = kstate.truncate s \<and> ready f s' \<and>
     tcp_ports s' = (tcp_ports s)(p := (tcp_ports s p)\<lparr>rx_buffer := Some (receiver (tcp_ports s p) l)\<rparr>)"
proof (cases "rx_buffer (tcp_ports s p)")
  case None
  then show ?thesis using m rd ne
    by (intro exI [of _ "upd_port p (\<lambda>x. x\<lparr>rx_buffer := Some l\<rparr>) s"])
      (simp add: taken_def receiver_def emptied_def receive_list_def)
next
  case (Some r)
  have m1: "many_lists f s ((r, bs) # (l, cs) # qs) xs"
    by (rule many_permI [OF m]) (simp add: receive_list_def Some)
  have fd: "bl_fd (blists s r) = f" "bl_fd (blists s l) = f"
    using many_linked(2) [OF m1, of r bs] many_linked(2) [OF m1, of l cs] by simp_all
  have "bs \<noteq> []" using ne(2) Some by simp
  from move_data_many [OF m1 this ne(1) sz, of P] obtain s' where s':
     "fs_buffer_list_move_data P r l 0 s = Some (SUCCESS, s')" "many_lists f s' ((r, bs @ cs) # (l, []) # qs) xs"
     "\<forall>as. list_bytes s' as = list_bytes s as" "kstate.truncate s' = kstate.truncate s"
     "fsstate.more s' = fsstate.more s" "fds s' = fds s" "list_next s' = list_next s"
     "\<forall>m. bl_free (blists s' m) = bl_free (blists s m)" by blast
  have "many_lists f s' ((r, bs @ cs) # qs @ [(l, [])]) xs" by (rule many_permI [OF s'(2)]) simp
  moreover have "ready f s'" using ready_cong [OF s'(4), of f] rd s'(6) by (simp add: fd_sizes_def)
  moreover have "lists_hold f s' ls" if "lists_hold f s ls" for ls
    using that s'(6,7) by (simp add: lists_hold_def)
  moreover have "tcp_ports s' = (tcp_ports s)(p := (tcp_ports s p)\<lparr>rx_buffer := Some r\<rparr>)"
    using same_ports [OF s'(5)] Some by (simp add: fun_eq_iff)
  ultimately show ?thesis using s' fd Some
    by (intro exI [of _ s']) (simp add: taken_def receiver_def emptied_def)
qed

text \<open>The queue is merged as far as it goes, and its lists are given back.\<close>

lemma drain_ok:
  assumes m: "many_lists f s ((r, bs) # qs @ es) xs" "ready f s" "bs \<noteq> []"
    and port: "rx_buffer (tcp_ports s p) = Some r" and seg: "lseg (list_next s) h (map fst qs) None"
    and queue: "\<And>q. q \<in> set qs \<Longrightarrow> 4 < length (list_bytes s (snd q)) \<and> bl_free (blists s (fst q)) = None"
    and lists: "lists_hold f s ls" "distinct (ls @ map fst qs)" "length ls + length qs < 2 ^ 32"
    and sz: "length (list_bytes s bs) + length (concat (bytes_of s qs)) < 2 ^ 32"
    and mg: "merged (rcv_nxt (tcp_ports s p)) (bytes_of s qs) = (nxt, w)"
  shows "\<exists>s1 s' bs' xs'. merge_queued P p h s = Some s1 \<and>
     fs_buffer_add_list_list P h FS_LIST_FREE (ucast FS_BUFFER_ACTIVE) s1 = Some s' \<and>
     many_lists f s' ((r, bs') # es) xs' \<and> list_bytes s' bs' = list_bytes s bs @ w \<and>
     lists_hold f s' (ls @ map fst qs) \<and> set bs' \<union> set xs' = set bs \<union> set (buffers_of qs) \<union> set xs \<and>
     kstate.truncate s' = kstate.truncate s \<and> tcp_ports s' = tcp_ports s1 \<and>
     tcp_ports s1 = (tcp_ports s)(p := (tcp_ports s p)\<lparr>rcv_nxt := nxt\<rparr>)"
proof -
  have long: "4 < length (list_bytes s (snd q))" if "q \<in> set qs" for q using queue [OF that] by simp
  obtain s1 bs1 qs1 xs1 where s1: "merge_queued P p h s = Some s1" "map fst qs1 = map fst qs"
     "many_lists f s1 ((r, bs1) # qs1 @ es) xs1" "list_bytes s1 bs1 = list_bytes s bs @ w"
     "set bs1 \<union> set (buffers_of qs1) \<union> set xs1 = set bs \<union> set (buffers_of qs) \<union> set xs"
     "\<forall>m. bl_free (blists s1 m) = bl_free (blists s m)" "\<forall>ls. lists_hold f s ls \<longrightarrow> lists_hold f s1 ls"
     "list_next s1 = list_next s" "kstate.truncate s1 = kstate.truncate s" "ready f s1"
     "tcp_ports s1 = (tcp_ports s)(p := (tcp_ports s p)\<lparr>rcv_nxt := nxt\<rparr>)"
    using merge_all [OF m long sz port seg, of P] unfolding mg fst_conv snd_conv by blast
  have m1: "many_lists f s1 (qs1 @ (r, bs1) # es) xs1" by (rule many_permI [OF s1(3)]) simp
  have calm1: "calm f s1" using s1(10) by (simp add: ready_def)
  have free1: "bl_free (blists s1 (fst q)) = None" if "q \<in> set qs1" for q
  proof -
    have "fst q \<in> set (map fst qs)" using that s1(2) by (metis image_eqI set_map)
    then show ?thesis using queue s1(6) by auto
  qed
  have dis1: "distinct (ls @ map fst qs1)" "length ls + length qs1 < 2 ^ 32"
    using lists(2,3) s1(2) map_eq_imp_length_eq [OF s1(2)] by simp_all
  have "lists_hold f s1 ls" "lseg (list_next s1) h (map fst qs1) None"
    using lists(1) seg s1(2,7,8) by simp_all
  from add_list_list_many [OF m1 calm1 free1 this(1) dis1 this(2), of P "ucast FS_BUFFER_ACTIVE"]
  obtain s' where s': "fs_buffer_add_list_list P h FS_LIST_FREE (ucast FS_BUFFER_ACTIVE) s1 = Some s'"
     "many_lists f s' ((r, bs1) # es) (xs1 @ buffers_of qs1)" "lists_hold f s' (ls @ map fst qs1)"
     "\<forall>q \<in> set ((r, bs1) # es). list_bytes s' (snd q) = list_bytes s1 (snd q)"
     "kstate.truncate s' = kstate.truncate s1" "fsstate.more s' = fsstate.more s1"
    by blast
  have "set bs1 \<union> set (xs1 @ buffers_of qs1) = set bs \<union> set (buffers_of qs) \<union> set xs" using s1(5) by auto
  then show ?thesis using s1(1,2,4,9,11) s' same_ports [OF s'(6)]
    by (intro exI [of _ s1] exI [of _ s'] exI [of _ bs1] exI [of _ "xs1 @ buffers_of qs1"]) simp
qed

lemma rx_in_order_ok:
  assumes m: "many_lists f s ((l, cs) # receive_list (tcp_ports s p) bs @ qs) xs" and rd: "ready f s"
    and ne: "cs \<noteq> []" "bs = [] \<longleftrightarrow> rx_buffer (tcp_ports s p) = None"
    and queue: "sll_holds (list_next s, oorx_list (tcp_ports s p)) (map fst qs)"
      "\<And>q. q \<in> set qs \<Longrightarrow> 4 < length (list_bytes s (snd q)) \<and> bl_free (blists s (fst q)) = None"
    and lists: "lists_hold f s ls" "distinct (ls @ map fst qs)" "length ls + length qs < 2 ^ 32"
    and sz: "length (list_bytes s bs) + length (list_bytes s cs) + length (concat (bytes_of s qs)) < 2 ^ 32"
    and mg: "merged (seg_seq + ucast seg_len) (bytes_of s qs) = (nxt, w)"
  shows "\<exists>s' bs' xs'. rx_in_order P p l seg_len seg_seq s = Some (taken (tcp_ports s p), s') \<and>
     many_lists f s' ((receiver (tcp_ports s p) l, bs') # emptied (tcp_ports s p) l) xs' \<and>
     list_bytes s' bs' = list_bytes s bs @ list_bytes s cs @ w \<and> lists_hold f s' (ls @ map fst qs) \<and>
     set bs' \<union> set xs' = set bs \<union> set cs \<union> set (buffers_of qs) \<union> set xs \<and>
     kstate.truncate s' = kstate.truncate s \<and>
     tcp_ports s' p = (tcp_ports s p)\<lparr>rx_buffer := Some (receiver (tcp_ports s p) l), rcv_nxt := nxt,
       oorx_list := \<lparr>head = None, tail = None\<rparr>, rcv_wnd := TCP_WND_SIZE\<rparr>"
proof -
  let ?x = "tcp_ports s p"
  let ?r = "receiver ?x l" and ?es = "emptied ?x l" and ?h = "head (oorx_list ?x)"
  have sz1: "length (list_bytes s bs) + length (list_bytes s cs) < 2 ^ 32" using sz by simp
  obtain s1 where s1: "(case rx_buffer ?x of
        Some r \<Rightarrow> do {
          ASSERT (bl_fd (blists s r) \<noteq> bl_fd (blists s l));
          (_, s) \<leftarrow> fs_buffer_list_move_data P r l 0 s;
          Some (SUCCESS, s) }
      | None \<Rightarrow> Some (NET_BUFFER_CONSUMED, upd_port p (\<lambda>x. x\<lparr>rx_buffer := Some l\<rparr>) s)) = Some (taken ?x, s1)"
     "many_lists f s1 ((?r, bs @ cs) # qs @ ?es) xs" "\<forall>as. list_bytes s1 as = list_bytes s as"
     "\<forall>m. bl_free (blists s1 m) = bl_free (blists s m)" "\<forall>ls. lists_hold f s ls \<longrightarrow> lists_hold f s1 ls"
     "list_next s1 = list_next s" "kstate.truncate s1 = kstate.truncate s" "ready f s1"
     "tcp_ports s1 = (tcp_ports s)(p := ?x\<lparr>rx_buffer := Some ?r\<rparr>)"
    using rx_take_ok [OF m rd ne sz1, of P] by blast
  define s2 where "s2 = upd_port p (\<lambda>x. x\<lparr>rcv_nxt := seg_seq + ucast seg_len\<rparr>) s1"
  have bytes: "list_bytes s2 as = list_bytes s as" for as using s1(3) by (simp add: s2_def)
  have 1: "many_lists f s2 ((?r, bs @ cs) # qs @ ?es) xs" "ready f s2" "bs @ cs \<noteq> []"
    "rx_buffer (tcp_ports s2 p) = Some ?r" "lseg (list_next s2) ?h (map fst qs) None" "lists_hold f s2 ls"
    using s1 ne(1) queue(1) lists(1) by (simp_all add: s2_def sll_holds_def)
  have 2: "4 < length (list_bytes s2 (snd q)) \<and> bl_free (blists s2 (fst q)) = None" if "q \<in> set qs" for q
    using queue(2) [OF that] bytes s1(4) by (simp add: s2_def)
  have 3: "length (list_bytes s2 (bs @ cs)) + length (concat (bytes_of s2 qs)) < 2 ^ 32"
    using sz unfolding bytes by (simp add: list_bytes_def)
  have "rcv_nxt (tcp_ports s2 p) = seg_seq + ucast seg_len" by (simp add: s2_def)
  then have 4: "merged (rcv_nxt (tcp_ports s2 p)) (bytes_of s2 qs) = (nxt, w)" using mg by (simp add: bytes)
  obtain s3 s4 bs4 xs4 where s4: "merge_queued P p ?h s2 = Some s3"
     "fs_buffer_add_list_list P ?h FS_LIST_FREE (ucast FS_BUFFER_ACTIVE) s3 = Some s4"
     "many_lists f s4 ((?r, bs4) # ?es) xs4" "list_bytes s4 bs4 = list_bytes s2 (bs @ cs) @ w"
     "lists_hold f s4 (ls @ map fst qs)" "set bs4 \<union> set xs4 = set (bs @ cs) \<union> set (buffers_of qs) \<union> set xs"
     "kstate.truncate s4 = kstate.truncate s2" "tcp_ports s4 = tcp_ports s3"
     "tcp_ports s3 = (tcp_ports s2)(p := (tcp_ports s2 p)\<lparr>rcv_nxt := nxt\<rparr>)"
    using drain_ok [OF 1(1-5) 2 1(6) lists(2,3) 3 4, of P] by blast
  define s' where "s' = upd_port p (\<lambda>x. x\<lparr>oorx_list := \<lparr>head = None, tail = None\<rparr>, rcv_wnd := TCP_WND_SIZE\<rparr>) s4"
  have port: "oorx_list (tcp_ports s1 p) = oorx_list ?x" "oorx_list (tcp_ports s3 p) = oorx_list ?x"
    using s1(9) s4(9) by (simp_all add: s2_def)
  have run: "rx_in_order P p l seg_len seg_seq s = Some (taken ?x, s')"
  proof (cases ?h)
    case None
    then have oo: "oorx_list ?x = \<lparr>head = None, tail = None\<rparr>"
      using queue(1) by (cases "oorx_list ?x") (auto simp: sll_holds_def)
    have "s4 = s3" using s4(2) None by (subst (asm) fs_buffer_add_list_list.simps) simp
    moreover have "(tcp_ports s3 p)\<lparr>oorx_list := \<lparr>head = None, tail = None\<rparr>, rcv_wnd := TCP_WND_SIZE\<rparr> =
        (tcp_ports s3 p)\<lparr>rcv_wnd := TCP_WND_SIZE\<rparr>"
      using port(2) oo by (cases "tcp_ports s3 p") simp
    ultimately have "s' = upd_port p (\<lambda>x. x\<lparr>rcv_wnd := TCP_WND_SIZE\<rparr>) s3"
      by (simp add: s'_def upd_port_def)
    then show ?thesis
      unfolding rx_in_order_def s1(1) using s4(1) port oo None
      by (simp add: s2_def [symmetric])
  next
    case (Some q)
    then show ?thesis
      unfolding rx_in_order_def s1(1) using s4(1,2) port
      by (simp add: s2_def [symmetric] s'_def upd_port_upd)
  qed
  have "list_bytes s4 bs4 = list_bytes s bs @ list_bytes s cs @ w"
    using s4(4) unfolding bytes by (simp add: list_bytes_def)
  moreover have "set bs4 \<union> set xs4 = set bs \<union> set cs \<union> set (buffers_of qs) \<union> set xs" using s4(6) by auto
  moreover have "kstate.truncate s4 = kstate.truncate s" using s4(7) s1(7) by (simp add: s2_def)
  moreover have "tcp_ports s4 p = ?x\<lparr>rx_buffer := Some ?r, rcv_nxt := nxt\<rparr>"
    using s4(8,9) s1(9) by (simp add: s2_def)
  ultimately show ?thesis using run s4(3,5)
    by (intro exI [of _ s'] exI [of _ bs4] exI [of _ xs4]) (simp add: s'_def)
qed

text \<open>
  C29. A segment in order, on list \<open>l\<close>: its data goes behind that of the receive buffer, or its list becomes
  the receive buffer and is consumed. Behind it comes the data of the queued segments whose numbers, as the
  code reads them, follow (\<open>merged\<close>); the queue is emptied, all its lists are given back and no buffer is
  lost. The number expected next is the one behind all this data, the window is the whole one again and the
  data is reported. All the lists are on one descriptor, as the assertions of the code demand, each queued
  segment has data behind its number and its list no callback of its own.
\<close>

theorem in_order_appended:
  assumes "free_locks P" and "many_lists f s ((l, cs) # receive_list (tcp_ports s p) bs @ qs) xs" and "ready f s"
    and "bs = [] \<longleftrightarrow> rx_buffer (tcp_ports s p) = None"
    and "unat seg_len \<le> length (list_bytes s cs)" and "0 < unat seg_len"
    and "seg_seq = rcv_nxt (tcp_ports s p)"
    and "sll_holds (list_next s, oorx_list (tcp_ports s p)) (map fst qs)"
    and "\<And>q. q \<in> set qs \<Longrightarrow> 4 < length (list_bytes s (snd q)) \<and> bl_free (blists s (fst q)) = None"
    and "lists_hold f s ls" and "distinct (ls @ map fst qs)" and "length ls + length qs < 2 ^ 32"
    and "length (list_bytes s bs) + unat seg_len + length (concat (bytes_of s qs)) < 2 ^ 32"
    and "merged (seg_seq + ucast seg_len) (bytes_of s qs) = (nxt, w)" and "calm p s"
  shows "\<exists>s' bs' xs'. tcp_rx_buffer_merge P p l seg_len seg_seq s = Some (taken (tcp_ports s p), s') \<and>
     rx_buffer (tcp_ports s' p) = Some (receiver (tcp_ports s p) l) \<and>
     linked (receiver (tcp_ports s p) l) s' bs' xs' \<and>
     list_bytes s' bs' = list_bytes s bs @ drop (length (list_bytes s cs) - unat seg_len) (list_bytes s cs) @ w \<and>
     rcv_nxt (tcp_ports s' p) = nxt \<and> rcv_wnd (tcp_ports s' p) = TCP_WND_SIZE \<and>
     oorx_list (tcp_ports s' p) = \<lparr>head = None, tail = None\<rparr> \<and> lists_hold f s' (ls @ map fst qs) \<and>
     set bs' \<union> set xs' = set bs \<union> set cs \<union> set (buffers_of qs) \<union> set xs \<and>
     fs_flags (fds s' p) AND FS_DATA_AVAILABLE \<noteq> 0"
proof -
  let ?x = "tcp_ports s p"
  let ?os = "receive_list ?x bs @ qs"
  have l: "linked l s cs xs" "bl_fd (blists s l) = f" using many_linked [OF assms(2), of l cs] by simp_all
  obtain s1 cs1 xs1 where s1: "fs_buffer_list_pull P l False (bl_total_length (blists s l) - ucast seg_len) 0 s =
       Some (SUCCESS, [], s1)" "linked l s1 cs1 xs1" "touches f {l} (set cs \<union> set xs) s s1" "same_buffers cs xs cs1 xs1"
     "list_bytes s1 cs1 = drop (length (list_bytes s cs) - unat seg_len) (list_bytes s cs)"
    using trim_ok [OF l(1) _ assms(5), of P] assms(3) l(2) by auto
  have m1: "many_lists f s1 ((l, cs1) # ?os) xs1" and keep: "\<And>q. q \<in> set ?os \<Longrightarrow> list_bytes s1 (snd q) = list_bytes s (snd q)"
    using many_step [OF assms(2) s1(3,2,4)] by blast+
  have ports: "tcp_ports s1 = tcp_ports s" using touches_ports [OF s1(3)] .
  have len: "length (list_bytes s1 cs1) = unat seg_len" using assms(5) by (simp add: s1(5))
  have ne: "cs1 \<noteq> []" using len assms(6) by auto
  have old: "list_bytes s1 bs = list_bytes s bs"
  proof (cases "rx_buffer ?x")
    case (Some r)
    then show ?thesis using keep [of "(r, bs)"] by (simp add: receive_list_def)
  qed (use assms(4) in \<open>simp add: list_bytes_def\<close>)
  have same: "bytes_of s1 qs = bytes_of s qs" using keep by simp
  have queue: "4 < length (list_bytes s1 (snd q)) \<and> bl_free (blists s1 (fst q)) = None" if "q \<in> set qs" for q
    using assms(9) [OF that] keep [of q] touches_free [OF s1(3)] that by simp
  have holds: "sll_holds (list_next s1, oorx_list (tcp_ports s1 p)) (map fst qs)"
    using assms(8) ports touchesD(5) [OF s1(3)] by simp
  have sz: "length (list_bytes s1 bs) + length (list_bytes s1 cs1) + length (concat (bytes_of s1 qs)) < 2 ^ 32"
    using assms(13) unfolding old same len .
  note in_order = rx_in_order_ok [where s = s1 and p = p, unfolded ports, OF m1 touches_ready [OF s1(3) assms(3)] ne assms(4)
      holds [unfolded ports] queue touches_lists_hold [OF s1(3) assms(10)] assms(11,12) sz, of seg_seq seg_len nxt w P]
  obtain s2 bs2 xs2 where s2: "rx_in_order P p l seg_len seg_seq s1 = Some (taken ?x, s2)"
     "many_lists f s2 ((receiver ?x l, bs2) # emptied ?x l) xs2"
     "list_bytes s2 bs2 = list_bytes s1 bs @ list_bytes s1 cs1 @ w" "lists_hold f s2 (ls @ map fst qs)"
     "set bs2 \<union> set xs2 = set bs \<union> set cs1 \<union> set (buffers_of qs) \<union> set xs1"
     "kstate.truncate s2 = kstate.truncate s1"
     "tcp_ports s2 p = ?x\<lparr>rx_buffer := Some (receiver ?x l), rcv_nxt := nxt,
       oorx_list := \<lparr>head = None, tail = None\<rparr>, rcv_wnd := TCP_WND_SIZE\<rparr>"
    using in_order assms(14) unfolding same by blast
  let ?s' = "set_flags p FS_DATA_AVAILABLE s2"
  have "calm p s2" using assms(15) calm_cong [OF s2(6), of p] touches_calm [OF s1(3), of p] by simp
  then have "fd_data_available P p s2 = Some ?s'" by (rule fd_data_available_calm)
  moreover have "taken ?x = SUCCESS \<or> taken ?x = NET_BUFFER_CONSUMED" by (simp add: taken_def)
  ultimately have "tcp_rx_buffer_merge P p l seg_len seg_seq s = Some (taken ?x, ?s')"
    using assms(1,7) s1(1) s2(1) ports
    by (simp add: tcp_rx_buffer_merge_def free_locks_def tcp_resume_socket_def FS_BLOCK_READ_def FS_BLOCK_WRITE_def)
  moreover have "linked (receiver ?x l) ?s' bs2 xs2" using many_linked(1) [OF s2(2), of "receiver ?x l" bs2] by simp
  moreover have "set bs2 \<union> set xs2 = set bs \<union> set cs \<union> set (buffers_of qs) \<union> set xs"
    using s2(5) s1(4) by (auto simp: same_buffers_def)
  ultimately show ?thesis
    using s2(3,4,7) s1(5) data_available_set
    by (intro exI [of _ ?s'] exI [of _ bs2] exI [of _ xs2]) (simp add: set_flags_port old)
qed

text \<open>Segment 500 to 504 becomes the receive buffer, and the queued one with number 505 comes behind it.\<close>

theorem in_order_appended_witness:
  "\<exists>s' bs' xs'. tcp_rx_buffer_merge tcp_platform 3 0 5 500 (rx_state ([0, 0, 10, 20, 30, 40, 50]) [0, 0, 1, 0xF9, 7, 8]
       (tcp_example_port\<lparr>oorx_list := \<lparr>head = Some 4, tail = Some 4\<rparr>, rcv_nxt := 500\<rparr>)) =
       Some (NET_BUFFER_CONSUMED, s') \<and>
     linked 0 s' bs' xs' \<and> list_bytes s' bs' = [10, 20, 30, 40, 50, 7, 8] \<and> rcv_nxt (tcp_ports s' 3) = 507 \<and>
     lists_hold 0 s' [1, 2, 4]"
proof -
  let ?v = "[0, 0, 10, 20, 30, 40, 50] :: u8 list" and ?w = "[0, 0, 1, 0xF9, 7, 8] :: u8 list"
  let ?s = "rx_state ?v ?w (tcp_example_port\<lparr>oorx_list := \<lparr>head = Some 4, tail = Some 4\<rparr>, rcv_nxt := 500\<rparr>)"
  let ?x = "tcp_ports ?s 3" and ?xs = "[12, 13, 14, 15, 16, 17, 18, 19]"
  have two: "two_lists 0 4 ?s [10] [11] ?xs" and bytes: "list_bytes ?s [10] = ?v"
      "list_bytes ?s [11] = ?w" and rd: "ready 0 ?s" "calm 3 ?s"
    by (rule rx_state_two; simp)+
  have none: "rx_buffer ?x = None" "rcv_nxt ?x = 500" by (simp_all add: tcp_example_port_def)
  have many: "many_lists 0 ?s ((0, [10]) # receive_list ?x [] @ [(4, [11])]) ?xs"
    using two two_listsD [OF two] none
    by (simp add: two_lists_def many_lists_def list_of_def receive_list_def linked_def)
  have lists: "lists_hold 0 ?s [1, 2]" by (simp add: lists_hold_def ex_fd_def tcp_data_def ex_data_def sll_holds_def)
  have queue: "sll_holds (list_next ?s, oorx_list ?x) (map fst [(4 :: lid, [11 :: bid])])" by (simp add: sll_holds_def)
  have each: "4 < length (list_bytes ?s (snd q)) \<and> bl_free (blists ?s (fst q)) = None" if "q \<in> set [(4, [11])]" for q
    using that bytes(2) by (auto simp: ex_list_def)
  have q4: "bytes_of ?s [(4 :: lid, [11])] = [?w]" using bytes(2) by simp
  have m: "merged (500 + ucast (5 :: u16)) (bytes_of ?s [(4 :: lid, [11])]) = (507, [7, 8])"
    unfolding q4 by (simp add: number_read_def word32_def upt_rec push_bit_eq_mult)
  have "taken ?x = NET_BUFFER_CONSUMED" "receiver ?x 0 = 0" using none by (simp_all add: taken_def receiver_def)
  moreover have sz: "unat (5 :: u16) \<le> length (list_bytes ?s [10])" "0 < unat (5 :: u16)"
    "length (list_bytes ?s []) + unat (5 :: u16) + length (concat (bytes_of ?s [(4 :: lid, [11])])) < 2 ^ 32"
    unfolding q4 bytes by (simp_all add: list_bytes_def [of _ "[]"])
  ultimately show ?thesis
    using in_order_appended [OF tcp_platform_free_locks many rd(1) _ sz(1,2) _ queue each lists _ _ sz(3) m rd(2)] none
    unfolding bytes by (auto simp: list_bytes_def [of _ "[]"])
qed

end
