(* ===== verification/TcpRead.thy ===== *)
theory TcpRead
  imports TcpRx
begin

text \<open>
  Reading from a TCP port (\<^verbatim>\<open>tcp_read_buffer\<close> and \<^verbatim>\<open>tcp_read_data\<close> of \<^verbatim>\<open>rtos/net/net_tcp.c\<close>).
\<close>

section \<open>Definitions\<close>

definition TCP_SOCK_ESTAB :: u8 where "TCP_SOCK_ESTAB = 4"
definition NET_CLOSED :: int where "NET_CLOSED = - 1006"

text \<open>The result is the number of bytes, the list and the state.\<close>

definition tcp_read_buffer :: "fd \<Rightarrow> 'z tcpstate_scheme \<Rightarrow> int \<times> lid option \<times> 'z tcpstate_scheme" where
  "tcp_read_buffer p s =
     (let (nbytes, buffer, s) = (case rx_buffer (tcp_ports s p) of
         Some r \<Rightarrow> (sint (bl_total_length (blists s r)), Some r, upd_port p (\<lambda>x. x\<lparr>rx_buffer := None\<rparr>) s)
       | None \<Rightarrow> (0, None, s)) in
      if tp_state (tcp_ports s p) \<noteq> TCP_SOCK_ESTAB
      then (if nbytes = 0 then NET_CLOSED else nbytes, buffer, s)
      else (nbytes, buffer, fd_data_flushed p s))"

text \<open>The result is the number of bytes, the bytes read and the state.\<close>

definition tcp_read_data ::
    "'z tcp_platform \<Rightarrow> fd \<Rightarrow> int \<Rightarrow> 'z tcpstate_scheme \<Rightarrow> (int \<times> u8 list \<times> 'z tcpstate_scheme) option" where
  "tcp_read_data P p sz s =
     (case tcp_read_buffer p s of (ret_size, buffer, s) \<Rightarrow>
        if ret_size > 0 then do {
          l \<leftarrow> buffer;
          (st, s) \<leftarrow> fd_get_lock P (bl_fd (blists s l)) s;
          ASSERT (st \<noteq> SUCCESS);
          let ret_size = (if sz > sint (bl_total_length (blists s l))
             then sint (bl_total_length (blists s l)) else sz);
          (st, bs, s) \<leftarrow> fs_buffer_list_pull P l True (word_of_int ret_size) 0 s;
          ASSERT (st \<noteq> SUCCESS);
          s \<leftarrow> (if bl_total_length (blists s l) \<noteq> 0 then do {
             s \<leftarrow> (case rx_buffer (tcp_ports s p) of
                Some r \<Rightarrow> do {
                  ASSERT (bl_fd (blists s r) \<noteq> bl_fd (blists s l));
                  (_, s) \<leftarrow> fs_buffer_list_move_data P r l FS_BUFFER_HEAD s;
                  fs_buffer_add_list P (bl_fd (blists s l)) l FS_LIST_FREE (ucast FS_BUFFER_ACTIVE) s }
              | None \<Rightarrow> Some (upd_port p (\<lambda>x. x\<lparr>rx_buffer := Some l\<rparr>) s));
             fd_data_available P p s }
           else fs_buffer_add_list P (bl_fd (blists s l)) l FS_LIST_FREE (ucast FS_BUFFER_ACTIVE) s);
          s \<leftarrow> fd_release_lock P (bl_fd (blists s l)) s;
          Some (ret_size, bs, s) }
        else Some (ret_size, [], s))"

section \<open>What a read does\<close>

lemma upd_flags_linked [simp]:
  "linked l (fd_data_flushed f s) bs xs = linked l s bs xs"
  "lists_hold g (fd_data_flushed f s) ls = lists_hold g s ls"
  "calm g (fd_data_flushed f s) = calm g s" "ready g (fd_data_flushed f s) = ready g s"
  "list_bytes (fd_data_flushed f s) bs = list_bytes s bs"
  "calm g (upd_port p h t) = calm g t" "ready g (upd_port p h t) = ready g t" "lists_hold g (upd_port p h t) ls = lists_hold g t ls"
  for t :: "'z tcpstate_scheme"
proof -
  have k: "kstate.truncate (fd_data_flushed f s) = kstate.truncate s"
    by (simp add: fd_data_flushed_def upd_fd_def kstate.defs)
  have b: "fs_buffer (fds (fd_data_flushed f s) h) = fs_buffer (fds s h)" for h
    by (simp add: fd_data_flushed_def upd_fd_def)
  have sel: "buf_next (fd_data_flushed f s) = buf_next s" "blists (fd_data_flushed f s) = blists s"
    "bufs (fd_data_flushed f s) = bufs s" "list_next (fd_data_flushed f s) = list_next s"
    by (simp_all add: fd_data_flushed_def upd_fd_def)
  show c: "calm g (fd_data_flushed f s) = calm g s" using calm_cong [OF k] .
  show "ready g (fd_data_flushed f s) = ready g s" by (simp add: ready_def c b)
  show "list_bytes (fd_data_flushed f s) bs = list_bytes s bs" by (simp add: list_bytes_def sel)
  then show "linked l (fd_data_flushed f s) bs xs = linked l s bs xs"
    by (simp add: linked_def chain_holds_def pool_holds_def chain_sll_def fd_size_def b sel)
  show "lists_hold g (fd_data_flushed f s) ls = lists_hold g s ls" by (simp add: lists_hold_def b sel)
  have k': "kstate.truncate (upd_port p h t) = kstate.truncate t" by simp
  show c': "calm g (upd_port p h t) = calm g t" using calm_cong [OF k'] .
  show "ready g (upd_port p h t) = ready g t" by (simp add: ready_def c')
  show "lists_hold g (upd_port p h t) ls = lists_hold g t ls" by (simp add: lists_hold_def)
qed

lemma fd_data_flushed_sel [simp]:
  "tcp_ports (fd_data_flushed f s) = tcp_ports s" "blists (fd_data_flushed f s) = blists s"
  "fs_flags (fds (fd_data_flushed f s) f) AND FS_DATA_AVAILABLE = 0" for s :: "'z tcpstate_scheme"
  by (auto simp: fd_data_flushed_def upd_fd_def FS_DATA_AVAILABLE_def intro!: bit_word_eqI) (auto simp: bit_simps)

text \<open>The pull of a read, and what is left to do.\<close>

lemma read_data_pulls:
  assumes "free_locks P" and "rx_buffer (tcp_ports s p) = Some r" and "tp_state (tcp_ports s p) = TCP_SOCK_ESTAB"
    and "linked r s bs xs" and "bs \<noteq> []" and "length (list_bytes s bs) < 2 ^ 31" and "0 \<le> sz"
    and "ready f s" and f: "f = bl_fd (blists s r)"
    and "n = min (nat sz) (length (list_bytes s bs))"
  shows "\<exists>s1 bs1 xs1. linked r s1 bs1 xs1 \<and>
     touches f {r} (set bs \<union> set xs) (fd_data_flushed p (upd_port p (\<lambda>x. x\<lparr>rx_buffer := None\<rparr>) s)) s1 \<and>
     same_buffers bs xs bs1 xs1 \<and> list_bytes s1 bs1 = drop n (list_bytes s bs) \<and>
     tcp_read_data P p sz s =
       Option.bind (if n < length (list_bytes s bs)
           then fd_data_available P p (upd_port p (\<lambda>x. x\<lparr>rx_buffer := Some r\<rparr>) s1)
           else fs_buffer_add_list P f r FS_LIST_FREE (ucast FS_BUFFER_ACTIVE) s1)
         (\<lambda>s'. Some (int n, take n (list_bytes s bs), s'))"
proof -
  let ?len = "length (list_bytes s bs)"
  let ?s = "fd_data_flushed p (upd_port p (\<lambda>x. x\<lparr>rx_buffer := None\<rparr>) s)"
  have total: "unat (bl_total_length (blists s r)) = ?len" using linkedD(6) [OF assms(4)] .
  have "bl_total_length (blists s r) = word_of_int (int ?len)"
    unfolding total [symmetric] by simp
  then have sint: "sint (bl_total_length (blists s r)) = int ?len"
    using assms(6) sint32_of_int [of "int ?len"] by simp
  have pos: "0 < ?len" using list_bytes_Nil [OF assms(4)] assms(5) by simp
  have buffer: "tcp_read_buffer p s = (int ?len, Some r, ?s)"
    using assms(2,3) by (simp add: tcp_read_buffer_def sint)
  have ret: "int ?len < sz \<and> n = ?len \<or> \<not> int ?len < sz \<and> sz = int n" using assms(7,10) by linarith
  have n: "n \<le> ?len" "unat (word_of_int (int n) :: u32) = n" using assms(6,10) by (simp_all add: unat_of_nat)
  have lk: "linked r ?s bs xs" "ready (bl_fd (blists ?s r)) ?s"
      and le: "unat (word_of_int (int n) :: u32) \<le> length (list_bytes ?s bs)"
    using assms(4,8) f n by simp_all
  from list_pull_cases [OF lk le, of 0 P True] obtain s1 bs1 xs1 where
    s1: "fs_buffer_list_pull P r True (word_of_int (int n)) 0 ?s = Some (SUCCESS, take n (list_bytes s bs), s1)"
     "linked r s1 bs1 xs1" "touches f {r} (set bs \<union> set xs) ?s s1" "same_buffers bs xs bs1 xs1"
     "list_bytes s1 bs1 = drop n (list_bytes s bs)"
    unfolding n(2) using f by auto
  have ports: "rx_buffer (tcp_ports s1 p) = None" using touches_ports [OF s1(3)] by simp
  have fd: "bl_fd (blists s1 r) = f" using touches_fd [OF s1(3)] f by simp
  have rest: "bl_total_length (blists s1 r) = 0 \<longleftrightarrow> \<not> n < ?len"
    using linkedD(6) [OF s1(2)] n(1) unat_eq_zero [of "bl_total_length (blists s1 r)"] unfolding s1(5) by auto
  have "tcp_read_data P p sz s = Option.bind (if n < ?len
      then fd_data_available P p (upd_port p (\<lambda>x. x\<lparr>rx_buffer := Some r\<rparr>) s1)
      else fs_buffer_add_list P f r FS_LIST_FREE (ucast FS_BUFFER_ACTIVE) s1)
    (\<lambda>s'. Some (int n, take n (list_bytes s bs), s'))"
    using assms(1) s1(1) ports rest pos ret fd f
    by (elim disjE conjE; cases "n < ?len"; simp add: tcp_read_data_def buffer free_locks_def sint)
  then show ?thesis using s1 by blast
qed

text \<open>
  C30. A read from a connected port with received data returns its first bytes, as many as asked for and
  there are. The rest stays the received data and is reported; without a rest the list and its buffers go
  back to their pool, and the data is no longer reported.
\<close>

theorem read_takes_front:
  assumes "free_locks P" and "rx_buffer (tcp_ports s p) = Some r" and "tp_state (tcp_ports s p) = TCP_SOCK_ESTAB"
    and "linked r s bs xs" and "bs \<noteq> []" and "length (list_bytes s bs) < 2 ^ 31" and "0 \<le> sz"
    and "ready (bl_fd (blists s r)) s" and "calm p s" and "p \<noteq> bl_fd (blists s r)"
    and "bl_free (blists s r) = None" and "lists_hold (bl_fd (blists s r)) s ls" "r \<notin> set ls" "length ls + 1 < 2 ^ 32"
    and "n = min (nat sz) (length (list_bytes s bs))"
  shows "\<exists>s' bs' xs'. tcp_read_data P p sz s = Some (int n, take n (list_bytes s bs), s') \<and>
     (if n < length (list_bytes s bs)
      then rx_buffer (tcp_ports s' p) = Some r \<and> linked r s' bs' xs' \<and>
        list_bytes s' bs' = drop n (list_bytes s bs) \<and> fs_flags (fds s' p) AND FS_DATA_AVAILABLE \<noteq> 0
      else rx_buffer (tcp_ports s' p) = None \<and> lists_hold (bl_fd (blists s r)) s' (ls @ [r]) \<and>
        pool_holds (bl_fd (blists s r)) s' xs' \<and> set xs' = set bs \<union> set xs \<and>
        fs_flags (fds s' p) AND FS_DATA_AVAILABLE = 0)"
proof -
  let ?f = "bl_fd (blists s r)" and ?len = "length (list_bytes s bs)"
  let ?s = "fd_data_flushed p (upd_port p (\<lambda>x. x\<lparr>rx_buffer := None\<rparr>) s)"
  obtain s1 bs1 xs1 where s1: "linked r s1 bs1 xs1" "touches ?f {r} (set bs \<union> set xs) ?s s1"
     "same_buffers bs xs bs1 xs1" "list_bytes s1 bs1 = drop n (list_bytes s bs)"
     "tcp_read_data P p sz s = Option.bind (if n < ?len
         then fd_data_available P p (upd_port p (\<lambda>x. x\<lparr>rx_buffer := Some r\<rparr>) s1)
         else fs_buffer_add_list P ?f r FS_LIST_FREE (ucast FS_BUFFER_ACTIVE) s1)
       (\<lambda>s'. Some (int n, take n (list_bytes s bs), s'))"
    using read_data_pulls [OF assms(1-8) refl assms(15)] by blast
  show ?thesis
  proof (cases "n < ?len")
    case True
    let ?t = "upd_port p (\<lambda>x. x\<lparr>rx_buffer := Some r\<rparr>) s1"
    have "calm p ?t" using assms(9) touches_calm [OF s1(2), of p] by simp
    then have "fd_data_available P p ?t = Some (set_flags p FS_DATA_AVAILABLE ?t)" by (rule fd_data_available_calm)
    then have "tcp_read_data P p sz s = Some (int n, take n (list_bytes s bs), set_flags p FS_DATA_AVAILABLE ?t)"
      using s1(5) True by simp
    moreover have "linked r (set_flags p FS_DATA_AVAILABLE ?t) bs1 xs1" using s1(1) by simp
    moreover have "list_bytes (set_flags p FS_DATA_AVAILABLE ?t) bs1 = drop n (list_bytes s bs)"
      "rx_buffer (tcp_ports (set_flags p FS_DATA_AVAILABLE ?t) p) = Some r"
      "fs_flags (fds (set_flags p FS_DATA_AVAILABLE ?t) p) AND FS_DATA_AVAILABLE \<noteq> 0"
      using s1(4) by (simp_all add: set_flags_port data_available_set)
    ultimately show ?thesis using True by fastforce
  next
    case False
    then have bs1: "bs1 = []" using s1(4) list_bytes_Nil [OF s1(1)] by simp
    have calm: "calm ?f s1" using assms(8) touches_calm [OF s1(2), of ?f] by (simp add: ready_def)
    have fd: "?f = bl_fd (blists s1 r)" using touches_fd [OF s1(2)] by simp
    have "bl_free (blists s1 r) = None" "lists_hold ?f s1 ls"
      using touches_free [OF s1(2)] touches_lists_hold [OF s1(2)] assms(11,12) by simp_all
    then obtain s2 where s2: "fs_buffer_add_list P ?f r FS_LIST_FREE (ucast FS_BUFFER_ACTIVE) s1 = Some s2"
       "pool_holds ?f s2 xs1" "lists_hold ?f s2 (ls @ [r])" "\<forall>g. g \<noteq> ?f \<longrightarrow> fds s2 g = fds s1 g"
       "fsstate.more s2 = fsstate.more s1"
      using add_list_free_ok [OF calm fd _ linkedD(1) [OF s1(1)], where P = P
          and fl = "ucast FS_BUFFER_ACTIVE" and xs = xs1 and ls = ls]
        linkedD(3,7) [OF s1(1)] fd assms(13,14) by (auto simp: bs1)
    have "rx_buffer (tcp_ports s2 p) = None" using same_ports [OF s2(5)] touches_ports [OF s1(2)] by simp
    moreover have "fds s2 p = fds ?s p" using s2(4) assms(10) touchesD(4) [OF s1(2)] by metis
    then have "fs_flags (fds s2 p) AND FS_DATA_AVAILABLE = 0" by simp
    ultimately show ?thesis using s1(3,5) s2(1-3) False by (auto simp: same_buffers_def bs1)
  qed
qed

theorem read_takes_front_witness:
  "\<exists>s' bs' xs'. tcp_read_data tcp_platform 3 2 (rx_state [10, 20, 30] [7]
       (tcp_example_port\<lparr>rx_buffer := Some 0, tp_state := TCP_SOCK_ESTAB\<rparr>)) = Some (2, [10, 20], s') \<and>
     rx_buffer (tcp_ports s' 3) = Some 0 \<and> linked 0 s' bs' xs' \<and> list_bytes s' bs' = [30]"
proof -
  let ?v = "[10, 20, 30] :: u8 list" and ?w = "[7] :: u8 list"
  let ?s = "rx_state ?v ?w (tcp_example_port\<lparr>rx_buffer := Some 0, tp_state := TCP_SOCK_ESTAB\<rparr>)"
  have two: "two_lists 0 4 ?s [10] [11] [12, 13, 14, 15, 16, 17, 18, 19]" and bytes: "list_bytes ?s [10] = ?v"
      and rd: "ready (bl_fd (blists ?s 0)) ?s" "calm 3 ?s"
    by (rule rx_state_two; simp)+
  have free: "lists_hold (bl_fd (blists ?s 0)) ?s [1, 2]"
    by (simp add: lists_hold_def ex_fd_def tcp_data_def ex_data_def sll_holds_def)
  have port: "rx_buffer (tcp_ports ?s 3) = Some 0" "tp_state (tcp_ports ?s 3) = TCP_SOCK_ESTAB"
    by (simp_all add: tcp_example_port_def)
  have own: "bl_free (blists ?s 0) = None" "(3 :: nat) \<noteq> bl_fd (blists ?s 0)" by simp_all
  have sz: "length (list_bytes ?s [10]) < 2 ^ 31" "2 = min (nat 2) (length (list_bytes ?s [10]))"
    unfolding bytes by simp_all
  have "\<exists>s' bs' xs'. tcp_read_data tcp_platform 3 2 ?s = Some (int 2, take 2 ?v, s') \<and>
     (if 2 < length ?v
      then rx_buffer (tcp_ports s' 3) = Some 0 \<and> linked 0 s' bs' xs' \<and>
        list_bytes s' bs' = drop 2 ?v \<and> fs_flags (fds s' 3) AND FS_DATA_AVAILABLE \<noteq> 0
      else rx_buffer (tcp_ports s' 3) = None \<and> lists_hold (bl_fd (blists ?s 0)) s' ([1, 2] @ [0]) \<and>
        pool_holds (bl_fd (blists ?s 0)) s' xs' \<and> set xs' = set [10] \<union> set [12, 13, 14, 15, 16, 17, 18, 19] \<and>
        fs_flags (fds s' 3) AND FS_DATA_AVAILABLE = 0)"
    by (rule read_takes_front [OF tcp_platform_free_locks port two_listsD(1) [OF two] _ sz(1) _ rd(1,2) own(2,1) free _ _ sz(2),
          unfolded bytes]) simp_all
  then show ?thesis by auto
qed

end
